(* ===== verification/Prelude.thy ===== *)
theory Prelude
  imports Main "HOL-Library.Word" "HOL-Library.Monad_Syntax"
begin

text \<open>
  What every component shares: names for the machine integer types of the C sources, byte memory
  whose accesses are checked against the object they touch, and the lemmas that carry the
  component proofs.

  A C object is the list of its bytes (or of its array elements); a pointer to it that may be
  \<open>NULL\<close> is an \<open>option\<close> of that list. An access outside the object is undefined behaviour in C:
  the access functions below answer \<^term>\<open>None\<close> there, and so does every function that performs
  such an access. A result \<^term>\<open>Some r\<close> therefore also says that the run stayed inside its
  objects.

  The collections: \<open>mem_simps\<close> evaluates accesses that are in bounds, \<open>mem_len\<close> holds what the
  accesses keep of lengths, \<open>byte_simps\<close> relates a 16-bit value to its two bytes.
\<close>

unbundle bit_operations_syntax

type_synonym u8 = "8 word"
type_synonym u16 = "16 word"
type_synonym u32 = "32 word"
type_synonym u64 = "64 word"
type_synonym bytes = "u8 list"

named_theorems mem_simps "evaluation of accesses inside the object"
named_theorems mem_len "lengths after an access"
named_theorems byte_simps "a 16-bit value and its bytes"

section \<open>Exclusive or\<close>

lemma xor_right_cancel [simp]: "x XOR a = y XOR a \<longleftrightarrow> x = (y::'a::len word)"
proof
  assume "x XOR a = y XOR a"
  then have "(x XOR a) XOR a = (y XOR a) XOR a" by (rule arg_cong)
  then show "x = y" by (simp add: xor.assoc)
qed simp

lemma xor_left_cancel [simp]: "a XOR x = a XOR y \<longleftrightarrow> x = (y::'a::len word)"
  using xor_right_cancel [of x a y] by (simp only: xor.commute)

lemma xor_eq_0_iff [simp]: "x XOR y = 0 \<longleftrightarrow> x = (y::'a::len word)"
  using xor_right_cancel [of x y y] by simp

lemma nat_bit_above: "i < 2 ^ k \<Longrightarrow> k \<le> n \<Longrightarrow> \<not> bit (i::nat) n"
  by (metis bit_take_bit_iff leD take_bit_nat_eq_self)

lemma take_bit_8_unat_less: "unat (take_bit 8 x) < 256"
proof -
  have "unat (take_bit 8 x) = take_bit 8 (unat x)" by (simp only: unsigned_take_bit_eq)
  also have "\<dots> < 256" using take_bit_nat_less_exp [of 8 "unat x"] by simp
  finally show ?thesis .
qed

lemma unat_drop_bit: "unat (drop_bit n w) = unat w div 2 ^ n"
  unfolding unat_drop_bit_eq by (rule drop_bit_eq_div)

section \<open>Two bytes of a 16-bit value\<close>

definition lo8 :: "u16 \<Rightarrow> u8" where
  "lo8 w = ucast w"

definition hi8 :: "u16 \<Rightarrow> u8" where
  "hi8 w = ucast (drop_bit 8 w)"

definition mk16 :: "u8 \<Rightarrow> u8 \<Rightarrow> u16" where
  "mk16 h l = push_bit 8 (ucast h) OR ucast l"

lemma mk16_hi8_lo8 [simp, byte_simps]: "mk16 (hi8 w) (lo8 w) = w"
  by (rule bit_word_eqI) (auto simp: mk16_def hi8_def lo8_def bit_simps)

lemma lo8_mk16 [simp, byte_simps]: "lo8 (mk16 h l) = l"
  by (rule bit_word_eqI) (auto simp: mk16_def lo8_def bit_simps)

lemma hi8_mk16 [simp, byte_simps]: "hi8 (mk16 h l) = h"
  by (rule bit_word_eqI) (auto simp: mk16_def hi8_def bit_simps dest: bit_imp_le_length)

lemma mk16_inject [simp]: "mk16 h l = mk16 h' l' \<longleftrightarrow> h = h' \<and> l = l'"
  by (metis hi8_mk16 lo8_mk16)

lemma bytes_eq_iff: "v = w \<longleftrightarrow> hi8 v = hi8 w \<and> lo8 v = lo8 (w::u16)"
  by (metis mk16_hi8_lo8)

section \<open>Checked access to byte memory\<close>

definition rd8 :: "'a list \<Rightarrow> nat \<Rightarrow> 'a option" where
  "rd8 m i = (if i < length m then Some (m ! i) else None)"

definition wr8 :: "'a list \<Rightarrow> nat \<Rightarrow> 'a \<Rightarrow> 'a list option" where
  "wr8 m i v = (if i < length m then Some (m[i := v]) else None)"

text \<open>
  A \<open>uint16_t\<close> member of a packed structure, at byte offset \<open>i\<close>, on the little-endian host the
  sources are configured for: the low byte comes first.
\<close>

definition rd16 :: "bytes \<Rightarrow> nat \<Rightarrow> u16 option" where
  "rd16 m i = (if Suc i < length m then Some (mk16 (m ! Suc i) (m ! i)) else None)"

definition wr16 :: "bytes \<Rightarrow> nat \<Rightarrow> u16 \<Rightarrow> bytes option" where
  "wr16 m i v = (if Suc i < length m then Some (m[i := lo8 v, Suc i := hi8 v]) else None)"

text \<open>\<open>memcpy\<close> of a whole list into an object, and the bytes it reads from one.\<close>

definition wr_bytes :: "'a list \<Rightarrow> nat \<Rightarrow> 'a list \<Rightarrow> 'a list option" where
  "wr_bytes m i vs = (if i + length vs \<le> length m
     then Some (take i m @ vs @ drop (i + length vs) m) else None)"

definition rd_bytes :: "'a list \<Rightarrow> nat \<Rightarrow> nat \<Rightarrow> 'a list option" where
  "rd_bytes m i n = (if i + n \<le> length m then Some (take n (drop i m)) else None)"

lemma rd8_in [mem_simps]: "i < length m \<Longrightarrow> rd8 m i = Some (m ! i)"
  by (simp add: rd8_def)

lemma wr8_in [mem_simps]: "i < length m \<Longrightarrow> wr8 m i v = Some (m[i := v])"
  by (simp add: wr8_def)

lemma rd16_in [mem_simps]: "Suc i < length m \<Longrightarrow> rd16 m i = Some (mk16 (m ! Suc i) (m ! i))"
  by (simp add: rd16_def)

lemma wr16_in [mem_simps]:
  "Suc i < length m \<Longrightarrow> wr16 m i v = Some (m[i := lo8 v, Suc i := hi8 v])"
  by (simp add: wr16_def)

lemma wr_bytes_in [mem_simps]:
  "i + length vs \<le> length m \<Longrightarrow> wr_bytes m i vs = Some (take i m @ vs @ drop (i + length vs) m)"
  by (simp add: wr_bytes_def)

lemma rd_bytes_in [mem_simps]: "i + n \<le> length m \<Longrightarrow> rd_bytes m i n = Some (take n (drop i m))"
  by (simp add: rd_bytes_def)

lemma wr8_len [mem_len]: "wr8 m i v = Some m' \<Longrightarrow> length m' = length m"
  by (auto simp: wr8_def split: if_splits)

lemma wr16_len [mem_len]: "wr16 m i v = Some m' \<Longrightarrow> length m' = length m"
  by (auto simp: wr16_def split: if_splits)

lemma wr_bytes_len [mem_len]: "wr_bytes m i vs = Some m' \<Longrightarrow> length m' = length m"
  by (auto simp: wr_bytes_def split: if_splits)

lemma rd_bytes_len [mem_len]: "rd_bytes m i n = Some vs \<Longrightarrow> length vs = n"
  by (auto simp: rd_bytes_def split: if_splits)

text \<open>What is read after a write: the value written, or what was there before.\<close>

lemma rd_bytes_wr_bytes: "wr_bytes m i vs = Some m' \<Longrightarrow> rd_bytes m' i (length vs) = Some vs"
  by (auto simp: wr_bytes_def rd_bytes_def split: if_splits)

lemma rd16_wr16_same: "wr16 m i v = Some m' \<Longrightarrow> rd16 m' i = Some v"
  by (auto simp: wr16_def rd16_def split: if_splits)

section \<open>Counting loops\<close>

text \<open>
  A C loop \<open>for (i = 0; i < n; i++)\<close> whose body may leave its objects or abort: the body maps the
  index and the state to the next state, and \<^term>\<open>None\<close> ends the run.
\<close>

primrec for_each :: "('i \<Rightarrow> 's \<Rightarrow> 's option) \<Rightarrow> 'i list \<Rightarrow> 's \<Rightarrow> 's option" where
  "for_each f [] s = Some s"
| "for_each f (i # is) s = Option.bind (f i s) (for_each f is)"

lemma for_each_append:
  "for_each f (xs @ ys) s = Option.bind (for_each f xs s) (for_each f ys)"
  by (induction xs arbitrary: s) (auto split: Option.bind_splits)

lemma for_each_inv:
  "for_each f xs s = Some t \<Longrightarrow> P s \<Longrightarrow>
     (\<And>i s s'. i \<in> set xs \<Longrightarrow> P s \<Longrightarrow> f i s = Some s' \<Longrightarrow> P s') \<Longrightarrow> P t"
proof (induction xs arbitrary: s)
  case (Cons i xs)
  from Cons.prems(1) obtain s' where s': "f i s = Some s'" "for_each f xs s' = Some t"
    by (auto split: Option.bind_splits)
  with Cons.prems have "P s'" by (meson list.set_intros(1))
  with s' Cons show ?case by (meson list.set_intros(2))
qed simp

text \<open>A loop whose body succeeds under an invariant that tells how far it has come.\<close>

lemma for_each_count:
  assumes "P 0 s"
    and "\<And>i s. i < n \<Longrightarrow> P i s \<Longrightarrow> \<exists>s'. f i s = Some s' \<and> P (Suc i) s'"
  shows "\<exists>t. for_each f [0..<n] s = Some t \<and> P n t"
  using assms(2)
proof (induction n)
  case 0
  with assms(1) show ?case by simp
next
  case (Suc n)
  then obtain t where "for_each f [0..<n] s = Some t" "P n t" by auto
  with Suc.prems [of n t] show ?case by (auto simp: for_each_append)
qed

text \<open>The common instance: the body is a total update.\<close>

lemma for_each_total: "(\<And>i s. i \<in> set xs \<Longrightarrow> f i s = Some (g i s)) \<Longrightarrow>
    for_each f xs s = Some (fold g xs s)"
  by (induction xs arbitrary: s) simp_all

text \<open>Loops over a range that does not start at 0.\<close>

lemma for_each_range:
  assumes "P a s" "a \<le> b"
    and "\<And>i s. a \<le> i \<Longrightarrow> i < b \<Longrightarrow> P i s \<Longrightarrow> \<exists>s'. f i s = Some s' \<and> P (Suc i) s'"
  shows "\<exists>t. for_each f [a..<b] s = Some t \<and> P b t"
proof -
  have "\<exists>t. for_each f [a..<a + n] s = Some t \<and> P (a + n) t" if "a + n \<le> b" for n
    using that
  proof (induction n)
    case 0
    then show ?case using assms(1) by simp
  next
    case (Suc n)
    then obtain t where t: "for_each f [a..<a + n] s = Some t" "P (a + n) t" by auto
    with assms(3) [of "a + n" t] Suc.prems show ?case by (auto simp: for_each_append)
  qed
  from this [of "b - a"] show ?thesis using assms(2) by simp
qed

text \<open>An array filled from left to right, each element from the ones before it.\<close>

lemma for_each_fill:
  assumes "a \<le> b" "b \<le> length m" "\<And>t. t < a \<Longrightarrow> m ! t = w t"
    and "\<And>i m. a \<le> i \<Longrightarrow> i < b \<Longrightarrow> length m = n \<Longrightarrow> (\<And>t. t < i \<Longrightarrow> m ! t = w t) \<Longrightarrow> f i m = Some (m[i := w i])"
    and "length m = n"
  shows "\<exists>m'. for_each f [a..<b] m = Some m' \<and> length m' = n \<and> (\<forall>t<b. m' ! t = w t)"
proof -
  let ?P = "\<lambda>i m. length m = n \<and> (\<forall>t<i. m ! t = w t)"
  have "\<exists>m'. for_each f [a..<b] m = Some m' \<and> ?P b m'"
  proof (rule for_each_range)
    show "?P a m" using assms(3,5) by simp
    show "a \<le> b" by fact
    show "\<exists>m'. f i m = Some m' \<and> ?P (Suc i) m'" if "a \<le> i" "i < b" "?P i m" for i m
      using assms(2,5) assms(4) [OF that(1,2)] that by (auto simp: nth_list_update less_Suc_eq)
  qed
  then show ?thesis by blast
qed

lemma upt_split: "a \<le> b \<Longrightarrow> b \<le> c \<Longrightarrow> [a..<c] = [a..<b] @ [b..<c]" for a b c :: nat
  by (metis le_add_diff_inverse upt_add_eq_append)

section \<open>A 16-bit array inside a frame\<close>

definition le16 :: "u16 \<Rightarrow> bytes" where
  "le16 v = [lo8 v, hi8 v]"

definition be16 :: "u16 \<Rightarrow> bytes" where
  "be16 v = [hi8 v, lo8 v]"

lemma length_le16 [simp]: "length (le16 v) = 2" and length_be16 [simp]: "length (be16 v) = 2"
  by (simp_all add: le16_def be16_def)

lemma length_concat_pairs [simp]:
  "length (concat (map (\<lambda>i. le16 (g i)) xs)) = 2 * length xs"
  "length (concat (map (\<lambda>i. be16 (h i)) xs)) = 2 * length xs"
  by (induction xs) simp_all

lemma wr16_le16:
  "i + 2 \<le> length m \<Longrightarrow> wr16 m i v = Some (take i m @ le16 v @ drop (i + 2) m)"
proof -
  assume len: "i + 2 \<le> length m"
  then obtain a b ys where "drop i m = a # b # ys"
    by (metis Cons_nth_drop_Suc add_2_eq_Suc' Suc_le_lessD Suc_lessD)
  then have m: "m = take i m @ a # b # ys" by (metis append_take_drop_id)
  have i: "length (take i m) = i" using len by simp
  obtain xs where xs: "m = xs @ a # b # ys" "length xs = i" using m i by blast
  show ?thesis
    by (simp add: xs wr16_def le16_def list_update_append)
qed

text \<open>Writing the array element by element lays its elements out one after the other.\<close>

lemma for_each_wr16:
  assumes "off + 2 * n \<le> length m"
  shows "for_each (\<lambda>i m. wr16 m (off + 2 * i) (g i)) [0..<n] m
    = Some (take off m @ concat (map (\<lambda>i. le16 (g i)) [0..<n]) @ drop (off + 2 * n) m)"
  using assms
proof (induction n)
  case (Suc n)
  let ?m = "take off m @ concat (map (\<lambda>i. le16 (g i)) [0..<n]) @ drop (off + 2 * n) m"
  have len: "length ?m = length m" using Suc.prems by simp
  have "wr16 ?m (off + 2 * n) (g n) = Some (take (off + 2 * n) ?m @ le16 (g n) @ drop (off + 2 * n + 2) ?m)"
    using Suc.prems by (intro wr16_le16) (simp only: len, simp)
  then show ?case
    using Suc by (simp add: for_each_append add.assoc)
qed simp

lemma length_concat_be16 [simp]: "length (concat (map be16 vs)) = 2 * length vs"
  by (induction vs) simp_all

section \<open>Blocks of elements\<close>

lemma for_each_cong:
  "(\<And>i s. i \<in> set xs \<Longrightarrow> f i s = g i s) \<Longrightarrow> for_each f xs s = for_each g xs s"
  by (induction xs arbitrary: s) (simp_all cong: Option.bind_cong)

text \<open>A block of consecutive elements is replaced.\<close>

definition splice :: "'a list \<Rightarrow> nat \<Rightarrow> 'a list \<Rightarrow> 'a list" where
  "splice xs i ys = take i xs @ ys @ drop (i + length ys) xs"

lemma length_splice [simp]: "i + length ys \<le> length xs \<Longrightarrow> length (splice xs i ys) = length xs"
  by (simp add: splice_def)

lemma nth_splice:
  "i + length ys \<le> length xs \<Longrightarrow> j < length xs \<Longrightarrow>
     splice xs i ys ! j = (if i \<le> j \<and> j < i + length ys then ys ! (j - i) else xs ! j)"
  by (auto simp: splice_def nth_append)

lemma splice_snoc:
  "i + length ys < length xs \<Longrightarrow> (splice xs i ys)[i + length ys := y] = splice xs i (ys @ [y])"
  by (rule nth_equalityI) (auto simp: nth_list_update nth_splice nth_append)

lemma for_each_store:
  assumes "off + n \<le> length xs"
    and "\<And>k. k < n \<Longrightarrow> f k = Some (g k)"
  shows "for_each (\<lambda>k xs. do { v \<leftarrow> f k; wr8 xs (off + k) (h v) }) [0..<n] xs
    = Some (splice xs off (map (\<lambda>k. h (g k)) [0..<n]))"
  using assms
proof (induction n)
  case (Suc n)
  then show ?case
    using splice_snoc [of off "map (\<lambda>k. h (g k)) [0..<n]" xs]
    by (simp add: for_each_append wr8_in)
qed (simp add: splice_def)

section \<open>Buffers behind pointers\<close>

text \<open>A pointer that is \<open>NULL\<close>, or leads to at least \<open>n\<close> elements.\<close>

definition buf_ok :: "'a list option \<Rightarrow> nat \<Rightarrow> bool" where
  "buf_ok b n = (case b of None \<Rightarrow> True | Some m \<Rightarrow> n \<le> length m)"

lemma buf_ok_simps [simp]: "buf_ok None n" "buf_ok (Some m) n \<longleftrightarrow> n \<le> length m"
  by (simp_all add: buf_ok_def)

end
