(* ===== verification/Crc.thy ===== *)
theory Crc
  imports Prelude
begin

text \<open>
  The checksums of \<open>fun_algorithm\<close>: the bit-at-a-time loops of \<open>crc.c\<close> and the table-driven
  variants of \<open>crc_table.c\<close>. An input pointer together with its length is the list of those bytes;
  \<open>NULL\<close> is \<^term>\<open>None\<close> where the code tests for it. The \<open>printf\<close> calls of \<open>crc32\<close> only trace.

  The locale \<open>crc_poly\<close> holds what any reflected generator with its top bit set gives: the bit
  loop is linear for exclusive or and injective, so a checksum distinguishes inputs that differ in
  one byte. The locale \<open>crc_table\<close> adds a table with the law its entries obey and proves once that
  the byte-at-a-time loop computes the bit-at-a-time one; both table generators of the code are
  instances.
\<close>

section \<open>The bit loop\<close>

definition crc_shift :: "'a::len word \<Rightarrow> 'a word \<Rightarrow> 'a word" where
  "crc_shift poly crc =
     (if crc AND 1 \<noteq> 0 then drop_bit 1 crc XOR poly else drop_bit 1 crc)"

primrec crc_loop :: "'a::len word \<Rightarrow> nat \<Rightarrow> 'a word \<Rightarrow> 'a word" where
  "crc_loop poly 0 crc = crc"
| "crc_loop poly (Suc j) crc = crc_loop poly j (crc_shift poly crc)"

primrec crc_run :: "'a::len word \<Rightarrow> bytes \<Rightarrow> 'a word \<Rightarrow> 'a word" where
  "crc_run poly [] crc = crc"
| "crc_run poly (b # bs) crc = crc_run poly bs (crc_loop poly 8 (crc XOR ucast b))"

section \<open>crc.c\<close>

definition crc8 :: "bytes \<Rightarrow> u8" where
  "crc8 input = crc_run 0x8C input 0"

definition crc16 :: "bytes \<Rightarrow> u16" where
  "crc16 input = crc_run 0xA001 input 0xFFFF"

text \<open>The accumulator of \<open>crc32\<close> is an \<open>unsigned long\<close>, 64 bits wide on the LP64 targets.\<close>

definition crc32 :: "bytes \<Rightarrow> u32" where
  "crc32 input = ucast (crc_run (0xEDB88320 :: u64) input 0xFFFFFFFF XOR 0xFFFFFFFF)"

section \<open>crc\_table.c\<close>

definition sht75_crc_table :: "u8 list" where
  "sht75_crc_table = [
    0,   49,  98,  83,  196, 245, 166, 151, 185, 136, 219, 234, 125, 76,  31,  46,
    67,  114, 33,  16,  135, 182, 229, 212, 250, 203, 152, 169, 62,  15,  92,  109,
    134, 183, 228, 213, 66,  115, 32,  17,  63,  14,  93,  108, 251, 202, 153, 168,
    197, 244, 167, 150, 1,   48,  99,  82,  124, 77,  30,  47,  184, 137, 218, 235,
    61,  12,  95,  110, 249, 200, 155, 170, 132, 181, 230, 215, 64,  113, 34,  19,
    126, 79,  28,  45,  186, 139, 216, 233, 199, 246, 165, 148, 3,   50,  97,  80,
    187, 138, 217, 232, 127, 78,  29,  44,  2,   51,  96,  81,  198, 247, 164, 149,
    248, 201, 154, 171, 60,  13,  94,  111, 65,  112, 35,  18,  133, 180, 231, 214,
    122, 75,  24,  41,  190, 143, 220, 237, 195, 242, 161, 144, 7,   54,  101, 84,
    57,  8,   91,  106, 253, 204, 159, 174, 128, 177, 226, 211, 68,  117, 38,  23,
    252, 205, 158, 175, 56,  9,   90,  107, 69,  116, 39,  22,  129, 176, 227, 210,
    191, 142, 221, 236, 123, 74,  25,  40,  6,   55,  100, 85,  194, 243, 160, 145,
    71,  118, 37,  20,  131, 178, 225, 208, 254, 207, 156, 173, 58,  11,  88,  105,
    4,   53,  102, 87,  192, 241, 162, 147, 189, 140, 223, 238, 121, 72,  27,  42,
    193, 240, 163, 146, 5,   52,  103, 86,  120, 73,  26,  43,  188, 141, 222, 239,
    130, 179, 224, 209, 70,  119, 36,  21,  59,  10,  89,  104, 255, 206, 157, 172]"

primrec crc8_tab_loop :: "bytes \<Rightarrow> u8 \<Rightarrow> u8" where
  "crc8_tab_loop [] crc = crc"
| "crc8_tab_loop (b # bs) crc = crc8_tab_loop bs (sht75_crc_table ! unat (b XOR crc))"

definition crc8_tab :: "bytes option \<Rightarrow> u8" where
  "crc8_tab input_str = (case input_str of None \<Rightarrow> 0 | Some bs \<Rightarrow> crc8_tab_loop bs 0)"

text \<open>The entry loop of \<open>init_crc16_table\<close> shifts the index \<open>c\<close> beside the checksum.\<close>

primrec crc16_entry_loop :: "nat \<Rightarrow> u16 \<Rightarrow> u16 \<Rightarrow> u16" where
  "crc16_entry_loop 0 crc c = crc"
| "crc16_entry_loop (Suc j) crc c =
     crc16_entry_loop j
       (if (crc XOR c) AND 0x0001 \<noteq> 0 then drop_bit 1 crc XOR 0xA001 else drop_bit 1 crc)
       (drop_bit 1 c)"

definition init_crc16_table :: "u16 list" where
  "init_crc16_table = map (\<lambda>i. crc16_entry_loop 8 0 (word_of_nat i)) [0..<256]"

text \<open>The lookup loop \<open>crc = (crc >> 8) ^ tab[(crc ^ *ptr++) & 0xFF]\<close> shared by both widths.\<close>

primrec crc_tab_run :: "'a::len word list \<Rightarrow> bytes \<Rightarrow> 'a word \<Rightarrow> 'a word" where
  "crc_tab_run tab [] crc = crc"
| "crc_tab_run tab (b # bs) crc =
     crc_tab_run tab bs (drop_bit 8 crc XOR tab ! unat ((crc XOR ucast b) AND 0xFF))"

definition crc16_tab :: "bytes option \<Rightarrow> u16" where
  "crc16_tab input_str =
     (case input_str of None \<Rightarrow> 0 | Some bs \<Rightarrow> crc_tab_run init_crc16_table bs 0)"

primrec crc32_entry_loop :: "nat \<Rightarrow> u32 \<Rightarrow> u32" where
  "crc32_entry_loop 0 c = c"
| "crc32_entry_loop (Suc j) c =
     crc32_entry_loop j (if c AND 1 \<noteq> 0 then 0xEDB88320 XOR drop_bit 1 c else drop_bit 1 c)"

definition init_crc32_table :: "u32 list" where
  "init_crc32_table = map (\<lambda>i. crc32_entry_loop 8 (word_of_nat i)) [0..<256]"

definition crc32_tab :: "bytes \<Rightarrow> u32" where
  "crc32_tab input_str = crc_tab_run init_crc32_table input_str 0"

section \<open>Linearity\<close>

lemma crc_shift_eq: "crc_shift poly x = drop_bit 1 x XOR (if bit x 0 then poly else 0)"
  by (simp add: crc_shift_def and_one_eq bit_0 odd_iff_mod_2_eq_one)

lemma crc_shift_xor: "crc_shift poly (x XOR y) = crc_shift poly x XOR crc_shift poly y"
  by (rule bit_word_eqI) (auto simp: crc_shift_eq bit_simps)

lemma crc_loop_xor: "crc_loop poly n (x XOR y) = crc_loop poly n x XOR crc_loop poly n y"
  by (induction n arbitrary: x y) (simp_all add: crc_shift_xor)

lemma crc_loop_0 [simp]: "crc_loop poly n 0 = 0"
  by (induction n) (simp_all add: crc_shift_eq)

lemma crc_loop_add: "crc_loop poly (m + n) x = crc_loop poly n (crc_loop poly m x)"
  by (induction m arbitrary: x) simp_all

lemma crc_loop_shift: "crc_loop poly n (crc_shift poly x) = crc_shift poly (crc_loop poly n x)"
  by (induction n arbitrary: x) simp_all

lemma crc_loop_low_zero: "(\<And>i. i < n \<Longrightarrow> \<not> bit x i) \<Longrightarrow> crc_loop poly n x = drop_bit n x"
proof (induction n arbitrary: x)
  case (Suc n)
  have "crc_shift poly x = drop_bit 1 x"
    using Suc.prems [of 0] by (simp add: crc_shift_eq)
  moreover have "\<not> bit (drop_bit 1 x) i" if "i < n" for i
    using Suc.prems [of "Suc i"] that by (simp add: bit_simps)
  ultimately show ?case
    using Suc.IH [of "drop_bit 1 x"] by simp
qed simp

lemma crc_run_append: "crc_run poly (xs @ ys) crc = crc_run poly ys (crc_run poly xs crc)"
  by (induction xs arbitrary: crc) simp_all

section \<open>Bytes packed into a register, the first one lowest\<close>

primrec pack_le :: "bytes \<Rightarrow> 'a::len word" where
  "pack_le [] = 0"
| "pack_le (b # bs) = ucast b XOR push_bit 8 (pack_le bs)"

lemma bit_pack_le:
  "8 * length bs \<le> LENGTH('a) \<Longrightarrow>
     bit (pack_le bs :: 'a::len word) n \<longleftrightarrow> n < 8 * length bs \<and> bit (bs ! (n div 8)) (n mod 8)"
proof (induction bs arbitrary: n)
  case (Cons b bs)
  show ?case
  proof (cases "n < 8")
    case True
    with Cons.prems show ?thesis by (auto simp: bit_simps)
  next
    case False
    then obtain m where m: "n = m + 8" by (metis add.commute le_add_diff_inverse not_less)
    have "bit (pack_le bs :: 'a word) m \<longleftrightarrow> m < 8 * length bs \<and> bit (bs ! (m div 8)) (m mod 8)"
      using Cons.prems by (intro Cons.IH) simp
    moreover have "n div 8 = Suc (m div 8)" "n mod 8 = m mod 8"
      by (simp_all add: m)
    moreover have "\<not> bit b n" using False by (auto dest: bit_imp_le_length)
    ultimately show ?thesis
      using m Cons.prems by (auto simp: bit_simps)
  qed
qed simp

lemma drop_push_pack_le:
  assumes "8 * Suc (length bs) \<le> LENGTH('a)"
  shows "drop_bit 8 (push_bit 8 (pack_le bs) :: 'a::len word) = pack_le bs"
proof (rule bit_word_eqI)
  fix n assume "n < LENGTH('a)"
  then show "bit (drop_bit 8 (push_bit 8 (pack_le bs) :: 'a word)) n = bit (pack_le bs :: 'a word) n"
    using assms bit_pack_le [of bs n, where 'a = 'a] by (auto simp: bit_simps)
qed

lemma pack_le_inject:
  "length xs = length ys \<Longrightarrow> 8 * length xs \<le> LENGTH('a) \<Longrightarrow>
     (pack_le xs :: 'a::len word) = pack_le ys \<Longrightarrow> xs = ys"
proof (induction xs ys rule: list_induct2)
  case (Cons x xs y ys)
  have bits: "bit x n = bit y n" for n
  proof (cases "n < 8")
    case True
    then show ?thesis
      using Cons.prems Cons.hyps bit_pack_le [of "x # xs" n, where 'a = 'a]
        bit_pack_le [of "y # ys" n, where 'a = 'a] by simp
  qed (auto dest: bit_imp_le_length)
  then have xy: "x = y" by (rule bit_eqI)
  from Cons.prems(2) have "push_bit 8 (pack_le xs :: 'a word) = push_bit 8 (pack_le ys)"
    by (simp add: xy)
  then have "drop_bit 8 (push_bit 8 (pack_le xs) :: 'a word) = drop_bit 8 (push_bit 8 (pack_le ys))"
    by (rule arg_cong)
  moreover have "8 * Suc (length xs) \<le> LENGTH('a)" "8 * Suc (length ys) \<le> LENGTH('a)"
    using Cons.prems(1) Cons.hyps by simp_all
  ultimately have "(pack_le xs :: 'a word) = pack_le ys"
    by (simp only: drop_push_pack_le)
  with Cons.IH Cons.prems(1) show ?case by (simp add: xy)
qed simp

section \<open>Generators with the top bit set\<close>

locale crc_poly =
  fixes poly :: "'a::len word"
  assumes top: "bit poly (LENGTH('a) - 1)"
begin

lemma shift_zero: "crc_shift poly z = 0 \<Longrightarrow> z = 0"
proof -
  assume z: "crc_shift poly z = 0"
  have "bit (crc_shift poly z) (LENGTH('a) - 1) = bit z 0"
    using top by (auto simp: crc_shift_eq bit_simps dest: bit_imp_le_length)
  with z have b0: "\<not> bit z 0" by simp
  with z have "drop_bit 1 z = 0" by (simp add: crc_shift_eq)
  then have b: "\<not> bit z (Suc n)" for n
    using bit_drop_bit_eq [of 1 z] by (metis bit_0_eq bot_apply bot_bool_def comp_apply plus_1_eq_Suc)
  have "\<not> bit z n" for n
    using b0 b by (cases n) simp_all
  then show "z = 0"
    by (auto intro: bit_word_eqI)
qed

lemma loop_zero: "crc_loop poly n z = 0 \<Longrightarrow> z = 0"
  by (induction n arbitrary: z) (auto dest: shift_zero)

lemma loop_inject [simp]: "crc_loop poly n x = crc_loop poly n y \<longleftrightarrow> x = y"
  using loop_zero [of n "x XOR y"] by (auto simp: crc_loop_xor)

lemma run_inject [simp]: "crc_run poly bs x = crc_run poly bs y \<longleftrightarrow> x = y"
  by (induction bs arbitrary: x y) simp_all

text \<open>
  The checksum of at most as many bytes as the register is wide is an injective function of them:
  they can be packed into one register value beforehand.
\<close>

lemma run_pack:
  "8 * length bs \<le> LENGTH('a) \<Longrightarrow>
     crc_run poly bs c = crc_loop poly (8 * length bs) (c XOR pack_le bs)"
proof (induction bs arbitrary: c)
  case (Cons b bs)
  have "crc_loop poly 8 (push_bit 8 (pack_le bs :: 'a word)) = pack_le bs"
    using Cons.prems by (simp add: crc_loop_low_zero bit_simps drop_push_pack_le)
  then have "crc_loop poly 8 (c XOR ucast b) XOR pack_le bs
      = crc_loop poly 8 (c XOR (ucast b XOR push_bit 8 (pack_le bs)))"
    by (simp add: crc_loop_xor xor.assoc)
  then show ?case
    using Cons.IH [of "crc_loop poly 8 (c XOR ucast b)"] Cons.prems
    by (simp add: crc_loop_add)
qed simp

lemma burst:
  assumes "length xs = length ys" and "8 * length xs \<le> LENGTH('a)"
  shows "crc_run poly xs c = crc_run poly ys c \<longleftrightarrow> xs = ys"
  using assms run_pack [of xs c] run_pack [of ys c] pack_le_inject [OF assms] by auto

lemma burst_within:
  assumes "length xs = length ys" and "8 * length xs \<le> LENGTH('a)"
  shows "crc_run poly (p @ xs @ s) c = crc_run poly (p @ ys @ s) c \<longleftrightarrow> xs = ys"
  using burst [OF assms] by (simp add: crc_run_append)

end


section \<open>Tables\<close>

locale crc_table = crc_poly poly for poly :: "'a::len word" +
  fixes tab :: "'a word list"
  assumes wide: "8 \<le> LENGTH('a)"
    and entry: "i < 256 \<Longrightarrow> tab ! i = crc_loop poly 8 (word_of_nat i)"
begin

lemma lookup: "drop_bit 8 crc XOR tab ! unat ((crc XOR ucast b) AND 0xFF)
    = crc_loop poly 8 (crc XOR ucast (b::u8))"
proof -
  let ?x = "crc XOR ucast b :: 'a word"
  let ?l = "?x AND 0xFF"
  have l: "?l = take_bit 8 ?x" by (simp add: take_bit_eq_mask mask_eq_exp_minus_1)
  have "tab ! unat ?l = crc_loop poly 8 ?l"
    using entry [OF take_bit_8_unat_less, of ?x] by (simp only: l) simp
  moreover have "crc_loop poly 8 (?x XOR ?l) = drop_bit 8 crc"
  proof -
    have "crc_loop poly 8 (?x XOR ?l) = drop_bit 8 (?x XOR ?l)"
      by (rule crc_loop_low_zero) (use wide in \<open>simp add: l bit_simps\<close>)
    also have "\<dots> = drop_bit 8 crc"
      by (rule bit_word_eqI) (auto simp: l bit_simps dest: bit_imp_le_length)
    finally show ?thesis .
  qed
  moreover have "crc_loop poly 8 ?x = crc_loop poly 8 (?x XOR ?l) XOR crc_loop poly 8 ?l"
    by (simp add: crc_loop_xor xor.assoc)
  ultimately show ?thesis by simp
qed

lemma tab_run: "crc_tab_run tab bs crc = crc_run poly bs crc"
  by (induction bs arbitrary: crc) (simp_all add: lookup)

end

lemma crc16_entry_loop_eq:
  "crc16_entry_loop n crc c = crc_loop 0xA001 n (crc XOR c) XOR drop_bit n c"
proof (induction n arbitrary: crc c)
  case (Suc n)
  let ?s = "if (crc XOR c) AND 1 \<noteq> 0 then drop_bit 1 crc XOR 0xA001 else drop_bit 1 crc"
  have "?s XOR drop_bit 1 c = crc_shift 0xA001 (crc XOR c)"
    by (simp only: crc_shift_def drop_bit_xor split: if_split) (simp add: ac_simps)
  then show ?case by (simp add: Suc.IH)
qed (simp add: xor.assoc)

lemma crc32_entry_loop_eq: "crc32_entry_loop n c = crc_loop 0xEDB88320 n c"
  by (induction n arbitrary: c) (simp_all add: crc_shift_def xor.commute)

interpretation crc16: crc_table "0xA001" init_crc16_table
proof
  show "bit (0xA001::u16) (LENGTH(16) - 1)" by simp
  fix i :: nat assume "i < 256"
  moreover from this have "drop_bit 8 (word_of_nat i :: u16) = 0"
    by (intro bit_word_eqI) (auto simp: bit_simps nat_bit_above [of i 8])
  ultimately show "init_crc16_table ! i = crc_loop 0xA001 8 (word_of_nat i)"
    by (simp add: init_crc16_table_def crc16_entry_loop_eq)
qed simp

interpretation crc32: crc_table "0xEDB88320" init_crc32_table
proof
  show "bit (0xEDB88320::u32) (LENGTH(32) - 1)" by simp
  fix i :: nat assume "i < 256"
  then show "init_crc32_table ! i = crc_loop 0xEDB88320 8 (word_of_nat i)"
    by (simp add: init_crc32_table_def crc32_entry_loop_eq)
qed simp

interpretation crc8: crc_poly "0x8C :: u8"
  by unfold_locales simp

section \<open>The wide accumulator\<close>

lemma crc_shift_ucast: "crc_shift (ucast p :: u64) (ucast (x :: u32)) = ucast (crc_shift p x)"
  by (rule bit_word_eqI) (auto simp: crc_shift_eq bit_simps dest: bit_imp_le_length)

lemma crc_loop_ucast: "crc_loop (ucast p :: u64) n (ucast (x :: u32)) = ucast (crc_loop p n x)"
  by (induction n arbitrary: x) (simp_all add: crc_shift_ucast)

lemma crc_run_ucast: "crc_run (ucast p :: u64) bs (ucast (x :: u32)) = ucast (crc_run p bs x)"
proof (induction bs arbitrary: x)
  case (Cons b bs)
  have "ucast x XOR ucast b = (ucast (x XOR ucast b) :: u64)"
    by (rule bit_word_eqI) (auto simp: bit_simps dest: bit_imp_le_length)
  then show ?case by (simp add: crc_loop_ucast Cons.IH)
qed simp

lemma crc32_narrow: "crc32 input = crc_run 0xEDB88320 input 0xFFFFFFFF XOR 0xFFFFFFFF"
proof -
  have "crc_run (0xEDB88320 :: u64) input 0xFFFFFFFF = ucast (crc_run 0xEDB88320 input (0xFFFFFFFF::u32))"
    using crc_run_ucast [of "0xEDB88320" input "0xFFFFFFFF"] by simp
  then show ?thesis
    unfolding crc32_def by (simp only:) (rule bit_word_eqI, auto simp: bit_simps)
qed

section \<open>The fixed table of crc8\_tab\<close>

text \<open>
  The table is the one of the mirrored generator, most significant bit first: each entry pair is
  one shift of an earlier entry. The mirror image of the loop of \<open>crc8\<close> obeys the same recurrence.
\<close>

definition msb_shift :: "u8 \<Rightarrow> u8" where
  "msb_shift z = push_bit 1 z XOR (if bit z 7 then 0x31 else 0)"

lemma nth_concat_pairs:
  "i < length ts \<Longrightarrow> concat (map (\<lambda>t. [f t, g t]) ts) ! (2 * i) = f (ts ! i)"
  "i < length ts \<Longrightarrow> concat (map (\<lambda>t. [f t, g t]) ts) ! Suc (2 * i) = g (ts ! i)"
proof (induction ts arbitrary: i)
  case (Cons t ts)
  { case 1 then show ?case using Cons by (cases i) simp_all
  next case 2 then show ?case using Cons by (cases i) simp_all }
qed simp_all

lemma sht75_pairs:
  "sht75_crc_table = concat (map (\<lambda>t. [msb_shift t, msb_shift t XOR 0x31]) (take 128 sht75_crc_table))"
  by (simp add: sht75_crc_table_def msb_shift_def)

lemma sht75_length: "length sht75_crc_table = 256"
  by (simp add: sht75_crc_table_def)

lemma sht75_step:
  assumes "i < 128"
  shows "sht75_crc_table ! (2 * i) = msb_shift (sht75_crc_table ! i)"
    and "sht75_crc_table ! Suc (2 * i) = msb_shift (sht75_crc_table ! i) XOR 0x31"
  using assms nth_concat_pairs [of i "take 128 sht75_crc_table" msb_shift "\<lambda>t. msb_shift t XOR 0x31"]
  by (subst sht75_pairs; simp add: sht75_length)+

definition mirror8 :: "u8 \<Rightarrow> u8" where
  "mirror8 x = word_reverse (crc_loop 0x8C 8 (word_reverse x))"

lemma mirror8_xor: "mirror8 (x XOR y) = mirror8 x XOR mirror8 y"
proof -
  have rev: "word_reverse (u XOR v) = word_reverse u XOR word_reverse v" for u v :: u8
    by (rule bit_word_eqI) (auto simp: bit_simps bit_word_reverse_iff)
  show ?thesis by (simp add: mirror8_def rev crc_loop_xor)
qed

lemma less_8_cases: "n < 8 \<longleftrightarrow> n = 0 \<or> n = 1 \<or> n = 2 \<or> n = 3 \<or> n = 4 \<or> n = 5 \<or> n = 6 \<or> n = (7::nat)"
  by auto

lemma no_bit_8: "\<not> bit (y::u8) 8"
  by (auto dest: bit_imp_le_length)

lemma word_reverse_crc_shift: "word_reverse (crc_shift 0x8C y) = msb_shift (word_reverse y)"
proof (rule bit_word_eqI)
  fix n assume "n < LENGTH(8)"
  then have "n < 8" by simp
  then show "bit (word_reverse (crc_shift 0x8C y)) n = bit (msb_shift (word_reverse y)) n"
    unfolding less_8_cases
    by (elim disjE; simp add: msb_shift_def crc_shift_eq bit_simps bit_word_reverse_iff
        no_bit_8 numeral_2_eq_2 [symmetric] numeral_3_eq_3 [symmetric] Suc_numeral del: push_bit_Suc numeral_2_eq_2 numeral_3_eq_3)
qed

lemma mirror8_double:
  assumes "x < 128"
  shows "mirror8 (push_bit 1 x) = msb_shift (mirror8 x)"
proof -
  have top: "\<not> bit x 7"
    using nat_bit_above [of "unat x" 7 7] assms by (simp add: word_less_nat_alt bit_unsigned_iff)
  have "word_reverse (push_bit 1 x) = crc_shift 0x8C (word_reverse x)"
    using top by (intro bit_word_eqI)
      (auto simp: less_8_cases crc_shift_eq bit_simps bit_word_reverse_iff simp del: push_bit_Suc)
  then have "crc_loop 0x8C 8 (word_reverse (push_bit 1 x))
      = crc_shift 0x8C (crc_loop 0x8C 8 (word_reverse x))"
    by (simp add: crc_loop_shift)
  then show ?thesis by (simp add: mirror8_def word_reverse_crc_shift)
qed

lemma sht75_mirror: "i < 256 \<Longrightarrow> sht75_crc_table ! i = mirror8 (word_of_nat i)"
proof (induction i rule: less_induct)
  case (less i)
  define j where "j = i div 2"
  have one: "mirror8 1 = 0x31" by code_simp
  show ?case
  proof (cases "i = 0")
    case True
    then show ?thesis by (simp add: sht75_crc_table_def) code_simp
  next
    case False
    with less.prems have j: "j < i" "j < 128" by (auto simp: j_def)
    then have "(word_of_nat j :: u8) < 128"
      by (simp add: word_less_nat_alt unat_of_nat)
    then have dbl: "msb_shift (sht75_crc_table ! j) = mirror8 (push_bit 1 (word_of_nat j))"
      using less.IH [of j] j less.prems mirror8_double [of "word_of_nat j"] by simp
    show ?thesis
    proof (cases "even i")
      case True
      then have "i = 2 * j" by (simp add: j_def)
      with dbl sht75_step(1) [OF j(2)] show ?thesis by (simp add: mult.commute)
    next
      case False
      then have i: "i = Suc (2 * j)" by (simp add: j_def)
      have "(word_of_nat i :: u8) = push_bit 1 (word_of_nat j) XOR 1"
      proof -
        have "even (push_bit 1 (word_of_nat j :: u8))" by simp
        then show ?thesis by (simp add: i even_xor_iff xor_one_eq)
      qed
      then have "mirror8 (word_of_nat i) = mirror8 (push_bit 1 (word_of_nat j)) XOR 0x31"
        by (simp only: mirror8_xor one)
      with dbl sht75_step(2) [OF j(2)] i show ?thesis by simp
    qed
  qed
qed

section \<open>What the checksums compute\<close>

text \<open>
  The table-driven \<open>crc16_tab\<close>, with the table its initialiser builds, is the bit-at-a-time loop
  of the generator 0xA001 started at 0, for every input.
\<close>

theorem crc16_tab_bitwise: "crc16_tab (Some input) = crc_run 0xA001 input 0"
  by (simp add: crc16_tab_def crc16.tab_run)

text \<open>
  \<open>crc32_tab\<close> is the bit-at-a-time loop of \<open>crc32\<close> on a 32-bit register started at 0, and
  \<open>crc32\<close> (whose accumulator is 64 bits wide) is the same loop started at all ones with the result
  complemented: the two differ only in their initial value and final exclusive or.
\<close>

theorem crc32_tab_bitwise:
  "crc32_tab input = crc_run 0xEDB88320 input 0
   \<and> crc32 input = crc_run 0xEDB88320 input 0xFFFFFFFF XOR 0xFFFFFFFF"
proof
  show "crc32_tab input = crc_run 0xEDB88320 input 0"
    by (simp add: crc32_tab_def crc32.tab_run)
  show "crc32 input = crc_run 0xEDB88320 input 0xFFFFFFFF XOR 0xFFFFFFFF"
    by (rule crc32_narrow)
qed

text \<open>
  The SHT75 table of \<open>crc8_tab\<close> is right, all 256 entries: \<open>crc8_tab\<close> is the mirror image of
  \<open>crc8\<close>. On bit-reversed input bytes it returns the bit-reversed checksum.
\<close>

theorem crc8_tab_mirrors_crc8:
  "crc8_tab (Some (map word_reverse input)) = word_reverse (crc8 input)"
proof -
  have "crc8_tab_loop (map word_reverse input) (word_reverse c) = word_reverse (crc_run 0x8C input c)"
    for c
  proof (induction input arbitrary: c)
    case (Cons b bs)
    have rx: "word_reverse b XOR word_reverse c = word_reverse (c XOR b)"
      by (rule bit_word_eqI) (auto simp: bit_simps bit_word_reverse_iff)
    have "unat (word_reverse (c XOR b)) < 256"
      using unsigned_less [of "word_reverse (c XOR b)"] by simp
    then have "sht75_crc_table ! unat (word_reverse (c XOR b)) = word_reverse (crc_loop 0x8C 8 (c XOR b))"
      by (simp add: sht75_mirror mirror8_def)
    then show ?case
      using Cons.IH [of "crc_loop 0x8C 8 (c XOR b)"] by (simp add: rx)
  qed simp
  moreover have "word_reverse (0 :: u8) = 0"
    by (rule bit_word_eqI) (simp add: bit_word_reverse_iff)
  ultimately show ?thesis
    by (metis crc8_tab_def crc8_def option.case(2))
qed

text \<open>
  C22. Error detection: two inputs of equal length that differ only inside one window of two adjacent
  bytes (for \<open>crc16\<close>), one byte (\<open>crc8\<close>) or four adjacent bytes (\<open>crc32\<close>) have different
  checksums, wherever the window lies.
\<close>

theorem crc_detects_burst:
  "(crc8 (p @ [a] @ s) = crc8 (p @ [a'] @ s) \<longleftrightarrow> a = a')
   \<and> (crc16 (p @ [a, b] @ s) = crc16 (p @ [a', b'] @ s) \<longleftrightarrow> a = a' \<and> b = b')
   \<and> (crc32 (p @ [a, b, c, d] @ s) = crc32 (p @ [a', b', c', d'] @ s)
     \<longleftrightarrow> a = a' \<and> b = b' \<and> c = c' \<and> d = d')"
proof (intro conjI)
  show "crc8 (p @ [a] @ s) = crc8 (p @ [a'] @ s) \<longleftrightarrow> a = a'"
    using crc8.burst_within [of "[a]" "[a']" p s 0] by (simp add: crc8_def)
  show "crc16 (p @ [a, b] @ s) = crc16 (p @ [a', b'] @ s) \<longleftrightarrow> a = a' \<and> b = b'"
    using crc16.burst_within [of "[a, b]" "[a', b']" p s "0xFFFF"] by (simp add: crc16_def)
  show "crc32 (p @ [a, b, c, d] @ s) = crc32 (p @ [a', b', c', d'] @ s)
      \<longleftrightarrow> a = a' \<and> b = b' \<and> c = c' \<and> d = d'"
    using crc32.burst_within [of "[a, b, c, d]" "[a', b', c', d']" p s "0xFFFFFFFF"]
    by (simp add: crc32_narrow)
qed

end
