(* ===== verification/ModbusTypes.thy ===== *)
theory ModbusTypes
  imports Crc
begin

text \<open>
  The data of the Modbus component (\<open>fun_protocol/modbus/modbus.h\<close>) and the routines both ends
  share (\<open>modbus.c\<close>: bit masks, checksum).

  The configuration modelled is the one without any of the optional macros of the sources but with
  the slave and all its functions compiled in: a little-endian host, frames on the C heap (no static
  buffers), register arrays rather than the register callback. The tables of user-defined functions
  are modelled, as a parameter of the two dispatchers.

  The union \<open>ModbusParser\<close> is a view of a frame: its members are read and written at their byte
  offsets in the packed layout (address 0, function 1, then per request). \<open>calloc\<close> may fail; whether
  a request for \<open>n\<close> bytes succeeds is the parameter \<open>al n\<close>.
\<close>

section \<open>Enumerations\<close>

datatype ModbusError =
    MODBUS_ERROR_OK | MODBUS_ERROR_EXCEPTION | MODBUS_ERROR_ALLOC | MODBUS_ERROR_OTHER
  | MODBUS_ERROR_NULLPTR | MODBUS_ERROR_PARSE | MODBUS_ERROR_BUILD

datatype ModbusFrameError =
    MODBUS_FERROR_OK | MODBUS_FERROR_CRC | MODBUS_FERROR_LENGTH | MODBUS_FERROR_COUNT
  | MODBUS_FERROR_VALUE | MODBUS_FERROR_RANGE | MODBUS_FERROR_NOSRC | MODBUS_FERROR_NOREAD
  | MODBUS_FERROR_NOWRITE | MODBUS_FERROR_NOFUN | MODBUS_FERROR_BADFUN | MODBUS_FERROR_NULLFUN
  | MODBUS_FERROR_MISM_FUN | MODBUS_FERROR_MISM_ADDR | MODBUS_FERROR_MISM_INDEX
  | MODBUS_FERROR_MISM_COUNT | MODBUS_FERROR_MISM_VALUE | MODBUS_FERROR_MISM_MASK
  | MODBUS_FERROR_BROADCAST

datatype ModbusExceptionCode =
    MODBUS_EXCEP_ILLEGAL_FUNCTION | MODBUS_EXCEP_ILLEGAL_ADDRESS | MODBUS_EXCEP_ILLEGAL_VALUE
  | MODBUS_EXCEP_SLAVE_FAILURE | MODBUS_EXCEP_ACK | MODBUS_EXCEP_NACK

fun excep_code :: "ModbusExceptionCode \<Rightarrow> u8" where
  "excep_code MODBUS_EXCEP_ILLEGAL_FUNCTION = 1"
| "excep_code MODBUS_EXCEP_ILLEGAL_ADDRESS = 2"
| "excep_code MODBUS_EXCEP_ILLEGAL_VALUE = 3"
| "excep_code MODBUS_EXCEP_SLAVE_FAILURE = 4"
| "excep_code MODBUS_EXCEP_ACK = 5"
| "excep_code MODBUS_EXCEP_NACK = 7"

datatype ModbusDataType =
    MODBUS_HOLDING_REGISTER | MODBUS_INPUT_REGISTER | MODBUS_COIL | MODBUS_DISCRETE_INPUT

section \<open>Small arithmetic\<close>

definition modbusBitsToBytes :: "u16 \<Rightarrow> u16" where
  "modbusBitsToBytes n = (if n \<noteq> 0 then 1 + drop_bit 3 (n - 1) else 0)"

definition modbusSwapEndian :: "u16 \<Rightarrow> u16" where
  "modbusSwapEndian data = push_bit 8 data OR drop_bit 8 data"

definition modbusMatchEndian :: "u16 \<Rightarrow> u16" where
  "modbusMatchEndian data = modbusSwapEndian data"

section \<open>Bit masks and checksum\<close>

definition modbusMaskRead :: "bytes option \<Rightarrow> u16 \<Rightarrow> u16 \<Rightarrow> u8 option" where
  "modbusMaskRead msk maskLength bt =
     (case msk of None \<Rightarrow> Some 255
      | Some m \<Rightarrow>
          if drop_bit 3 bt \<ge> maskLength then Some 255
          else do {
            b \<leftarrow> rd8 m (unat (drop_bit 3 bt));
            let k = unat (bt mod 8);
            Some (drop_bit k (b AND push_bit k 1))
          })"

definition modbusMaskWrite :: "bytes option \<Rightarrow> u16 \<Rightarrow> u16 \<Rightarrow> u8 \<Rightarrow> (u8 \<times> bytes option) option" where
  "modbusMaskWrite msk maskLength bt val =
     (case msk of None \<Rightarrow> Some (255, None)
      | Some m \<Rightarrow>
          if drop_bit 3 bt \<ge> maskLength then Some (255, Some m)
          else do {
            let i = unat (drop_bit 3 bt);
            let k = unat (bt mod 8);
            b \<leftarrow> rd8 m i;
            m' \<leftarrow> wr8 m i (if val \<noteq> 0 then b OR push_bit k 1 else b AND NOT (push_bit k 1));
            Some (0, Some m')
          })"

definition modbusCRC :: "bytes option \<Rightarrow> u16 \<Rightarrow> u16 option" where
  "modbusCRC data len =
     (case data of None \<Rightarrow> Some 0
      | Some d \<Rightarrow> do {
          bs \<leftarrow> rd_bytes d 0 (unat len);
          Some (modbusSwapEndian (crc_run 0xA001 bs 0xFFFF))
        })"

text \<open>\<open>calloc(n, 1)\<close>: zeroed memory, or \<open>NULL\<close>.\<close>

definition calloc :: "(nat \<Rightarrow> bool) \<Rightarrow> nat \<Rightarrow> bytes option" where
  "calloc al n = (if al n then Some (replicate n 0) else None)"

text \<open>
  Every operation starts with the same test of its pointers: a \<open>NULL\<close> status, parser or request
  parser ends it before anything is touched. The body below the test takes the structures
  themselves.
\<close>

definition guard_status ::
  "('s \<Rightarrow> (ModbusError \<times> 's) option) \<Rightarrow> 's option \<Rightarrow> (ModbusError \<times> 's option) option" where
  "guard_status body status =
     (case status of None \<Rightarrow> Some (MODBUS_ERROR_NULLPTR, None)
      | Some st \<Rightarrow> map_option (map_prod id Some) (body st))"

definition guard_parser ::
  "('s \<Rightarrow> 'p \<Rightarrow> (ModbusError \<times> 's) option) \<Rightarrow> 's option \<Rightarrow> 'p option
     \<Rightarrow> (ModbusError \<times> 's option) option" where
  "guard_parser body status parser =
     (case (status, parser) of
        (Some st, Some p) \<Rightarrow> map_option (map_prod id Some) (body st p)
      | _ \<Rightarrow> Some (MODBUS_ERROR_NULLPTR, status))"

section \<open>Facts about the shared routines\<close>

lemma unat_modbusBitsToBytes: "unat (modbusBitsToBytes n) = (unat n + 7) div 8"
proof (cases "n = 0")
  case False
  then have pos: "0 < unat n" by (simp add: unat_gt_0)
  have "unat (n - 1) = unat n - 1"
    using False by (simp add: unat_minus_one)
  then have d: "unat (drop_bit 3 (n - 1)) = (unat n - 1) div 8"
    by (simp only: unat_drop_bit) simp
  have "unat n < 65536" using unsigned_less [of n] by simp
  then have "unat (1 + drop_bit 3 (n - 1)) = 1 + (unat n - 1) div 8"
    by (simp add: unat_word_ariths d)
  also have "\<dots> = (unat n + 7) div 8" using pos by arith
  finally show ?thesis using False by (simp add: modbusBitsToBytes_def)
qed (simp add: modbusBitsToBytes_def)

lemma modbusSwapEndian_mk16: "modbusSwapEndian v = mk16 (lo8 v) (hi8 v)"
  by (rule bit_word_eqI) (auto simp: modbusSwapEndian_def mk16_def lo8_def hi8_def bit_simps
      dest: bit_imp_le_length)

lemma lo8_swap [simp]: "lo8 (modbusSwapEndian v) = hi8 v"
  and hi8_swap [simp]: "hi8 (modbusSwapEndian v) = lo8 v"
  by (simp_all add: modbusSwapEndian_mk16)

lemma swap_mk16 [simp]: "modbusSwapEndian (mk16 h l) = mk16 l h"
  by (simp add: modbusSwapEndian_mk16)

lemma match_mk16 [simp]: "modbusMatchEndian (mk16 h l) = mk16 l h"
  by (simp add: modbusMatchEndian_def)

lemma swap_swap [simp]: "modbusSwapEndian (modbusSwapEndian v) = v"
  by (simp add: modbusSwapEndian_mk16)

lemma swap_inject [simp]: "modbusSwapEndian v = modbusSwapEndian w \<longleftrightarrow> v = w"
  by (metis swap_swap)

lemma le16_swap [simp]: "le16 (modbusSwapEndian v) = be16 v"
  by (simp add: le16_def be16_def)

text \<open>The bit of a mask that belongs to index \<open>i\<close>.\<close>

definition mask_bit :: "bytes \<Rightarrow> nat \<Rightarrow> bool" where
  "mask_bit m i = bit (m ! (i div 8)) (i mod 8)"

lemma mask_index: "unat (drop_bit 3 (bt::u16)) = unat bt div 8" "unat (bt mod 8) = unat bt mod 8"
  by (simp_all only: unat_drop_bit unat_mod_distrib) simp_all

lemma mask_beyond: "drop_bit 3 (bt::u16) \<ge> len \<longleftrightarrow> unat len \<le> unat bt div 8"
  by (simp only: word_le_nat_alt mask_index)

lemma modbusMaskRead_in:
  assumes "unat bt div 8 < unat len" and "unat len \<le> length m"
  shows "modbusMaskRead (Some m) len bt = Some (of_bool (mask_bit m (unat bt)))"
proof -
  have "drop_bit k (b AND push_bit k 1) = of_bool (bit b k)" if "k < 8" for b :: u8 and k
    using that by (intro bit_word_eqI) (auto simp: bit_simps)
  then show ?thesis
    using assms by (simp add: modbusMaskRead_def mask_beyond mask_index rd8_def mask_bit_def
        del: drop_bit_and push_bit_and)
qed

lemma modbusMaskRead_out: "unat len \<le> unat bt div 8 \<Longrightarrow> modbusMaskRead (Some m) len bt = Some 255"
  by (simp add: modbusMaskRead_def mask_beyond)

lemma modbusMaskRead_None [simp]: "modbusMaskRead None len bt = Some 255"
  by (simp add: modbusMaskRead_def)

definition mask_set :: "bytes \<Rightarrow> nat \<Rightarrow> bool \<Rightarrow> bytes" where
  "mask_set m i v = m[i div 8 :=
     (if v then m ! (i div 8) OR push_bit (i mod 8) 1 else m ! (i div 8) AND NOT (push_bit (i mod 8) 1))]"

lemma length_mask_set [simp]: "length (mask_set m i v) = length m"
  by (simp add: mask_set_def)

lemma mask_bit_mask_set:
  "i div 8 < length m \<Longrightarrow> mask_bit (mask_set m i v) j = (if j = i then v else mask_bit m j)"
proof -
  assume len: "i div 8 < length m"
  have ij: "j = i \<longleftrightarrow> j div 8 = i div 8 \<and> j mod 8 = i mod 8"
    by (metis div_mult_mod_eq)
  have "bit (b OR push_bit k 1) n \<longleftrightarrow> bit b n \<or> n = k"
    "bit (b AND NOT (push_bit k 1)) n \<longleftrightarrow> bit b n \<and> n \<noteq> k" if "n < 8" for b :: u8 and n k
    using that by (auto simp: bit_simps)
  then show ?thesis
    using len by (cases "j div 8 = i div 8") (auto simp: mask_bit_def mask_set_def ij nth_list_update)
qed

lemma modbusMaskWrite_in:
  assumes "unat bt div 8 < unat len" and "unat len \<le> length m"
  shows "modbusMaskWrite (Some m) len bt val = Some (0, Some (mask_set m (unat bt) (val \<noteq> 0)))"
  using assms by (simp add: modbusMaskWrite_def mask_beyond mask_index rd8_def wr8_def mask_set_def Let_def)

lemma modbusMaskWrite_out:
  "unat len \<le> unat bt div 8 \<Longrightarrow> modbusMaskWrite (Some m) len bt val = Some (255, Some m)"
  by (simp add: modbusMaskWrite_def mask_beyond)

section \<open>Sealed frames\<close>

text \<open>
  The frames the code builds: the payload, then the checksum as the code stores it. The value
  \<open>modbusCRC\<close> returns is byte-swapped before it is stored in host order, so the checksum goes out
  high byte first.
\<close>

definition seal :: "bytes \<Rightarrow> bytes" where
  "seal bs = bs @ be16 (crc16 bs)"

lemma length_seal [simp]: "length (seal bs) = length bs + 2"
  by (simp add: seal_def)

lemma modbusCRC_in:
  "unat len \<le> length d \<Longrightarrow> modbusCRC (Some d) len = Some (modbusSwapEndian (crc16 (take (unat len) d)))"
  by (simp add: modbusCRC_def rd_bytes_def crc16_def)

lemma store_crc:
  assumes "length fr = n + 2" and "unat len = n"
  shows "Option.bind (modbusCRC (Some fr) len) (wr16 fr n) = Some (seal (take n fr))"
  using assms by (simp add: modbusCRC_in wr16_le16 seal_def)

definition be_at :: "bytes \<Rightarrow> nat \<Rightarrow> u16" where
  "be_at p i = mk16 (p ! i) (p ! Suc i)"

lemma match_rd16: "Suc i < length p \<Longrightarrow> map_option modbusMatchEndian (rd16 p i) = Some (be_at p i)"
  by (simp add: rd16_def be_at_def modbusMatchEndian_def)

section \<open>Arithmetic of indices and lengths\<close>

lemma unat_u16_bound: "unat (w::u16) < 65536"
  using unsigned_less [of w] by simp

lemma unat_u8_bound: "unat (w::u8) < 256"
  using unsigned_less [of w] by simp

lemma unat_word_u16 [simp]: "n < 65536 \<Longrightarrow> unat (word_of_nat n :: u16) = n"
  by (simp add: unat_of_nat)

lemma unat_small_u8: "n < 256 \<Longrightarrow> unat (word_of_nat n :: u8) = n"
  by (simp add: unat_of_nat)

lemma unat_add_u16 [simp]: "unat w + n < 65536 \<Longrightarrow> unat (w + word_of_nat n :: u16) = unat w + n"
  using unat_word_u16 [of "unat w + n"] by simp

lemma unat_ucast_32 [simp]: "unat (ucast (w::u16) :: u32) = unat w"
  using unat_u16_bound [of w] by (simp add: unsigned_ucast_eq take_bit_nat_eq_self)

lemma unat_ucast_16 [simp]: "unat (ucast (w::u8) :: u16) = unat w"
  using unat_u8_bound [of w] by (simp add: unsigned_ucast_eq take_bit_nat_eq_self)

lemma unat_ucast_8: "unat (ucast (w::u16) :: u8) = unat w mod 256"
  by (simp add: unsigned_ucast_eq take_bit_eq_mod)

lemma range_check:
  "(ucast (a::u16) + ucast (b::u16) :: u32) > ucast (c::u16) \<longleftrightarrow> unat c < unat a + unat b"
  using unat_u16_bound [of a] unat_u16_bound [of b]
  by (simp add: word_less_nat_alt unat_word_ariths)

lemma unat_double: "unat (push_bit 1 (count::u16)) = (2 * unat count) mod 65536"
  by (simp add: unat_word_ariths mult.commute)

lemma unat_byte_count:
  "unat (count::u16) < 128 \<Longrightarrow> unat (ucast (push_bit 1 count) :: u8) = 2 * unat count"
  unfolding unat_ucast_8 unat_double by simp

lemma unat_frame_0304:
  "unat (count::u16) \<le> 125 \<Longrightarrow> unat (5 + ucast (push_bit 1 count) :: u8) = 5 + 2 * unat count"
  using unat_byte_count [of count] by (simp only: unat_word_ariths) simp

lemma unat_frame_16:
  "unat (count::u16) \<le> 123 \<Longrightarrow> unat (9 + ucast (push_bit 1 count) :: u8) = 9 + 2 * unat count"
  using unat_byte_count [of count] by (simp only: unat_word_ariths) simp

lemma unat_bits_count:
  "unat (count::u16) \<le> 2000 \<Longrightarrow> unat (ucast (modbusBitsToBytes count) :: u8) = (unat count + 7) div 8"
  unfolding unat_ucast_8 unat_modbusBitsToBytes by simp

lemma unat_frame_0102:
  "unat (count::u16) \<le> 2000 \<Longrightarrow>
     unat (5 + ucast (modbusBitsToBytes count) :: u8) = 5 + (unat count + 7) div 8"
  using unat_bits_count [of count] by (simp only: unat_word_ariths) simp

lemma unat_frame_15:
  "unat (count::u16) \<le> 1968 \<Longrightarrow>
     unat (9 + ucast (modbusBitsToBytes count) :: u8) = 9 + (unat count + 7) div 8"
  using unat_bits_count [of count] by (simp only: unat_word_ariths) simp

text \<open>The length handed to \<open>modbusCRC\<close>: the frame without its last two bytes.\<close>

lemma unat_crc_len: "2 \<le> unat (n::u8) \<Longrightarrow> unat (ucast n - 2 :: u16) = unat n - 2"
  by (simp add: unat_sub word_le_nat_alt)

lemma le_2000: "\<not> (count::u16) > 2000 \<longleftrightarrow> unat count \<le> 2000"
  and le_1968: "\<not> (count::u16) > 1968 \<longleftrightarrow> unat count \<le> 1968"
  and le_125: "\<not> (count::u16) > 125 \<longleftrightarrow> unat count \<le> 125"
  and le_123: "\<not> (count::u16) > 123 \<longleftrightarrow> unat count \<le> 123"
  by (simp_all add: not_less word_le_nat_alt)

lemma replicate_8: "replicate 8 x = [x, x, x, x, x, x, x, x]"
  and replicate_10: "replicate 10 x = [x, x, x, x, x, x, x, x, x, x]"
  and replicate_5: "replicate 5 x = [x, x, x, x, x]"
  by (simp_all add: numeral_eq_Suc)

text \<open>The checksum computed in place and stored behind the body of a frame.\<close>

lemma crc_of_body:
  assumes "unat (len::u8) = length body + 2"
  shows "modbusCRC (Some (body @ [x, y])) (ucast len - 2) = Some (modbusSwapEndian (crc16 body))"
  using assms by (simp add: modbusCRC_in unat_crc_len)

lemma store_after_body:
  "n = length body \<Longrightarrow> wr16 (body @ [x, y]) n (modbusSwapEndian (crc16 body)) = Some (seal body)"
  by (simp add: wr16_le16 seal_def)

text \<open>A received frame: long enough, and its last two bytes are the checksum of the others.\<close>

definition intact :: "bytes \<Rightarrow> u8 \<Rightarrow> bool" where
  "intact p len \<longleftrightarrow> 4 \<le> unat len \<and> take (unat len) p = seal (take (unat len - 2) p)"

lemma seal_prefix:
  assumes "2 \<le> n" "n \<le> length p"
  shows "take n p = seal (take (n - 2) p) \<longleftrightarrow>
    mk16 (p ! Suc (n - 2)) (p ! (n - 2)) = modbusSwapEndian (crc16 (take (n - 2) p))"
proof -
  define k where "k = n - 2"
  then have k: "n = Suc (Suc k)" using assms(1) by simp
  then have "take n p = take k p @ [p ! k, p ! Suc k]"
    using assms(2) by (simp add: take_Suc_conv_app_nth)
  then have "take n p = seal (take k p) \<longleftrightarrow> [p ! k, p ! Suc k] = be16 (crc16 (take k p))"
    by (simp add: seal_def)
  also have "\<dots> \<longleftrightarrow> mk16 (p ! Suc k) (p ! k) = modbusSwapEndian (crc16 (take k p))"
    unfolding be16_def modbusSwapEndian_mk16 mk16_inject by simp blast
  finally show ?thesis by (simp only: k_def)
qed

lemma intact_check:
  assumes "4 \<le> unat len" "unat len \<le> length p"
  shows "rd16 p (unat len - 2) = Some (mk16 (p ! Suc (unat len - 2)) (p ! (unat len - 2)))"
    "modbusCRC (Some p) (ucast len - 2) = Some (modbusSwapEndian (crc16 (take (unat len - 2) p)))"
    "mk16 (p ! Suc (unat len - 2)) (p ! (unat len - 2)) = modbusSwapEndian (crc16 (take (unat len - 2) p))
      \<longleftrightarrow> intact p len"
  using assms by (simp_all add: rd16_def modbusCRC_in unat_crc_len intact_def seal_prefix)

lemma intact_seal: "unat len = length body + 2 \<Longrightarrow> 2 \<le> length body \<Longrightarrow> intact (seal body) len"
  by (simp add: intact_def seal_def)

end
