(* ===== verification/ModbusSlave.thy ===== *)
theory ModbusSlave
  imports ModbusTypes
begin

text \<open>
  The slave (server) end of \<open>fun_protocol/modbus\<close>: the handlers of \<open>slave/sregs.c\<close> and
  \<open>slave/scoils.c\<close>, and initialisation, exception building and dispatch of \<open>modbus.c\<close>.

  \<open>slave\<close> is \<open>struct modbusSlave\<close>: pointers are optional lists, the two nested structures
  \<open>request\<close> and \<open>response\<close> are flattened. Handlers take the structure and the bytes of the request
  frame (the \<open>ModbusParser\<close> view); the functions with the names of the source add the \<open>NULL\<close> tests.
\<close>

section \<open>State\<close>

record slave =
  s_address :: u8
  s_registers :: "u16 list option"
  s_inputRegisters :: "u16 list option"
  s_registerMask :: "bytes option"
  s_registerMaskLength :: u16
  s_registerCount :: u16
  s_inputRegisterCount :: u16
  s_coils :: "bytes option"
  s_discreteInputs :: "bytes option"
  s_coilMask :: "bytes option"
  s_coilMaskLength :: u16
  s_coilCount :: u16
  s_discreteInputCount :: u16
  s_lastException :: ModbusExceptionCode
  s_parseError :: ModbusFrameError
  s_responseFrame :: "bytes option"
  s_responseLength :: u8
  s_requestFrame :: "bytes option"
  s_requestLength :: u8

type_synonym slave_result = "(ModbusError \<times> slave) option"
type_synonym handler = "slave \<Rightarrow> bytes \<Rightarrow> slave_result"

section \<open>Exceptions\<close>

definition buildException :: "(nat \<Rightarrow> bool) \<Rightarrow> slave \<Rightarrow> u8 \<Rightarrow> ModbusExceptionCode \<Rightarrow> slave_result" where
  "buildException al st0 fn code = (
     let st = st0\<lparr>s_lastException := code\<rparr> in do {
       broadcast \<leftarrow> (case s_requestFrame st of None \<Rightarrow> Some False
                     | Some p \<Rightarrow> do { a \<leftarrow> rd8 p 0; Some (a = 0) });
       if broadcast then Some (MODBUS_ERROR_OK, st\<lparr>s_responseLength := 0\<rparr>)
       else case calloc al 5 of
         None \<Rightarrow> Some (MODBUS_ERROR_ALLOC, st\<lparr>s_responseFrame := None\<rparr>)
       | Some fr0 \<Rightarrow> do {
           fr1 \<leftarrow> wr8 fr0 0 (s_address st);
           fr2 \<leftarrow> wr8 fr1 1 (push_bit 7 1 OR fn);
           fr3 \<leftarrow> wr8 fr2 2 (excep_code code);
           crc \<leftarrow> modbusCRC (Some fr3) 3;
           fr4 \<leftarrow> wr16 fr3 3 crc;
           Some (MODBUS_ERROR_EXCEPTION,
             st\<lparr>s_responseFrame := Some fr4, s_responseLength := 5\<rparr>)
         }
     })"

definition buildExceptionErr ::
  "(nat \<Rightarrow> bool) \<Rightarrow> slave \<Rightarrow> u8 \<Rightarrow> ModbusExceptionCode \<Rightarrow> ModbusFrameError \<Rightarrow> slave_result" where
  "buildExceptionErr al st fn code perr = do {
     (err, st') \<leftarrow> buildException al (st\<lparr>s_parseError := perr\<rparr>) fn code;
     if err = MODBUS_ERROR_OK then Some (MODBUS_ERROR_PARSE, st') else Some (err, st')
   }"

section \<open>Registers (slave/sregs.c)\<close>

definition parseRequest0304 :: "(nat \<Rightarrow> bool) \<Rightarrow> handler" where
  "parseRequest0304 al st p = do {
     fn \<leftarrow> rd8 p 1;
     if fn \<noteq> 3 \<and> fn \<noteq> 4 then Some (MODBUS_ERROR_PARSE, st\<lparr>s_parseError := MODBUS_FERROR_BADFUN\<rparr>)
     else do {
       addr \<leftarrow> rd8 p 0;
       if addr = 0 then Some (MODBUS_ERROR_PARSE, st\<lparr>s_parseError := MODBUS_FERROR_BROADCAST\<rparr>)
       else if s_requestLength st \<noteq> 8 then
         buildExceptionErr al st fn MODBUS_EXCEP_ILLEGAL_VALUE MODBUS_FERROR_LENGTH
       else do {
         index \<leftarrow> map_option modbusMatchEndian (rd16 p 2);
         count \<leftarrow> map_option modbusMatchEndian (rd16 p 4);
         if count = 0 \<or> count > 125 then
           buildExceptionErr al st fn MODBUS_EXCEP_ILLEGAL_VALUE MODBUS_FERROR_COUNT
         else case (if fn = 3 then s_registers st else s_inputRegisters st) of
           None \<Rightarrow> buildExceptionErr al st fn MODBUS_EXCEP_ILLEGAL_ADDRESS MODBUS_FERROR_NOSRC
         | Some src \<Rightarrow>
             let limit = (if fn = 3 then s_registerCount st else s_inputRegisterCount st) in
             if index \<ge> limit \<or> (ucast index + ucast count :: u32) > ucast limit then
               buildExceptionErr al st fn MODBUS_EXCEP_ILLEGAL_ADDRESS MODBUS_FERROR_RANGE
             else
               let frameLength = 5 + ucast (push_bit 1 count) :: u8 in
               case calloc al (unat frameLength) of
                 None \<Rightarrow> Some (MODBUS_ERROR_ALLOC, st\<lparr>s_responseFrame := None\<rparr>)
               | Some fr0 \<Rightarrow> do {
                   fr1 \<leftarrow> wr8 fr0 0 (s_address st);
                   fr2 \<leftarrow> wr8 fr1 1 fn;
                   fr3 \<leftarrow> wr8 fr2 2 (ucast (push_bit 1 count));
                   fr4 \<leftarrow> for_each (\<lambda>i fr. do {
                       v \<leftarrow> rd8 src (unat index + i);
                       wr16 fr (3 + 2 * i) (modbusMatchEndian v) }) [0..<unat count] fr3;
                   crc \<leftarrow> modbusCRC (Some fr4) (ucast frameLength - 2);
                   fr5 \<leftarrow> wr16 fr4 (3 + 2 * unat count) crc;
                   Some (MODBUS_ERROR_OK, st\<lparr>s_responseFrame := Some fr5,
                     s_responseLength := frameLength, s_parseError := MODBUS_FERROR_OK\<rparr>)
                 }
       }
     }
   }"

definition parseRequest06 :: "(nat \<Rightarrow> bool) \<Rightarrow> handler" where
  "parseRequest06 al st p =
     (if s_requestLength st \<noteq> 8 then
        buildExceptionErr al st 6 MODBUS_EXCEP_ILLEGAL_VALUE MODBUS_FERROR_LENGTH
      else do {
        index \<leftarrow> map_option modbusMatchEndian (rd16 p 2);
        val \<leftarrow> map_option modbusMatchEndian (rd16 p 4);
        case s_registers st of
          None \<Rightarrow> buildExceptionErr al st 6 MODBUS_EXCEP_ILLEGAL_ADDRESS MODBUS_FERROR_RANGE
        | Some regs \<Rightarrow>
          if index \<ge> s_registerCount st then
            buildExceptionErr al st 6 MODBUS_EXCEP_ILLEGAL_ADDRESS MODBUS_FERROR_RANGE
          else do {
            prot \<leftarrow> modbusMaskRead (s_registerMask st) (s_registerMaskLength st) index;
            if prot = 1 then
              buildExceptionErr al st 6 MODBUS_EXCEP_SLAVE_FAILURE MODBUS_FERROR_NOWRITE
            else case calloc al 8 of
              None \<Rightarrow> Some (MODBUS_ERROR_ALLOC, st\<lparr>s_responseFrame := None\<rparr>)
            | Some fr0 \<Rightarrow> do {
                regs' \<leftarrow> wr8 regs (unat index) val;
                let st1 = st\<lparr>s_registers := Some regs'\<rparr>;
                addr \<leftarrow> rd8 p 0;
                if addr = 0 then
                  Some (MODBUS_ERROR_OK,
                    st1\<lparr>s_responseFrame := Some fr0, s_parseError := MODBUS_FERROR_OK\<rparr>)
                else do {
                  fr1 \<leftarrow> wr8 fr0 0 (s_address st);
                  fn \<leftarrow> rd8 p 1;
                  fr2 \<leftarrow> wr8 fr1 1 fn;
                  rawIndex \<leftarrow> rd16 p 2;
                  fr3 \<leftarrow> wr16 fr2 2 rawIndex;
                  rawValue \<leftarrow> rd16 p 4;
                  fr4 \<leftarrow> wr16 fr3 4 rawValue;
                  crc \<leftarrow> modbusCRC (Some fr4) 6;
                  fr5 \<leftarrow> wr16 fr4 6 crc;
                  Some (MODBUS_ERROR_OK, st1\<lparr>s_responseFrame := Some fr5,
                    s_responseLength := 8, s_parseError := MODBUS_FERROR_OK\<rparr>)
                }
              }
          }
      })"

text \<open>
  The write-protection loop of the multiple writes: it stops at the first index whose mask bit
  is set.
\<close>

primrec mask_any :: "bytes option \<Rightarrow> u16 \<Rightarrow> u16 \<Rightarrow> nat list \<Rightarrow> bool option" where
  "mask_any msk len index [] = Some False"
| "mask_any msk len index (i # is) = do {
     r \<leftarrow> modbusMaskRead msk len (word_of_nat (unat index + i));
     if r = 1 then Some True else mask_any msk len index is }"

definition parseRequest16 :: "(nat \<Rightarrow> bool) \<Rightarrow> handler" where
  "parseRequest16 al st p =
     (if s_requestLength st < 7 then
        buildExceptionErr al st 16 MODBUS_EXCEP_ILLEGAL_VALUE MODBUS_FERROR_LENGTH
      else do {
        len \<leftarrow> rd8 p 6;
        if s_requestLength st \<noteq> 9 + len then
          buildExceptionErr al st 16 MODBUS_EXCEP_ILLEGAL_VALUE MODBUS_FERROR_LENGTH
        else do {
          index \<leftarrow> map_option modbusMatchEndian (rd16 p 2);
          count \<leftarrow> map_option modbusMatchEndian (rd16 p 4);
          if len = 0 \<or> count = 0 \<or> count \<noteq> ucast (drop_bit 1 len) \<or> count > 123 then
            buildExceptionErr al st 16 MODBUS_EXCEP_ILLEGAL_VALUE MODBUS_FERROR_COUNT
          else case s_registers st of
            None \<Rightarrow> buildExceptionErr al st 16 MODBUS_EXCEP_ILLEGAL_ADDRESS MODBUS_FERROR_NOSRC
          | Some regs \<Rightarrow>
            if index \<ge> s_registerCount st
               \<or> (ucast index + ucast count :: u32) > ucast (s_registerCount st) then
              buildExceptionErr al st 16 MODBUS_EXCEP_ILLEGAL_ADDRESS MODBUS_FERROR_RANGE
            else do {
              prot \<leftarrow> mask_any (s_registerMask st) (s_registerMaskLength st) index [0..<unat count];
              if prot then
                buildExceptionErr al st 16 MODBUS_EXCEP_SLAVE_FAILURE MODBUS_FERROR_NOWRITE
              else case calloc al 8 of
                None \<Rightarrow> Some (MODBUS_ERROR_ALLOC, st\<lparr>s_responseFrame := None\<rparr>)
              | Some fr0 \<Rightarrow> do {
                  regs' \<leftarrow> for_each (\<lambda>i rs. do {
                      v \<leftarrow> rd16 p (7 + 2 * i);
                      wr8 rs (unat index + i) (modbusMatchEndian v) }) [0..<unat count] regs;
                  let st1 = st\<lparr>s_registers := Some regs'\<rparr>;
                  addr \<leftarrow> rd8 p 0;
                  if addr = 0 then
                    Some (MODBUS_ERROR_OK,
                      st1\<lparr>s_responseFrame := Some fr0, s_parseError := MODBUS_FERROR_OK\<rparr>)
                  else do {
                    fr1 \<leftarrow> wr8 fr0 0 (s_address st);
                    fn \<leftarrow> rd8 p 1;
                    fr2 \<leftarrow> wr8 fr1 1 fn;
                    rawIndex \<leftarrow> rd16 p 2;
                    fr3 \<leftarrow> wr16 fr2 2 rawIndex;
                    rawCount \<leftarrow> rd16 p 4;
                    fr4 \<leftarrow> wr16 fr3 4 rawCount;
                    crc \<leftarrow> modbusCRC (Some fr4) 6;
                    fr5 \<leftarrow> wr16 fr4 6 crc;
                    Some (MODBUS_ERROR_OK, st1\<lparr>s_responseFrame := Some fr5,
                      s_responseLength := 8, s_parseError := MODBUS_FERROR_OK\<rparr>)
                  }
                }
            }
        }
      })"

definition parseRequest22 :: "(nat \<Rightarrow> bool) \<Rightarrow> handler" where
  "parseRequest22 al st p =
     (if s_requestLength st \<noteq> 10 then
        buildExceptionErr al st 22 MODBUS_EXCEP_ILLEGAL_VALUE MODBUS_FERROR_LENGTH
      else do {
        index \<leftarrow> map_option modbusMatchEndian (rd16 p 2);
        andmask \<leftarrow> map_option modbusMatchEndian (rd16 p 4);
        ormask \<leftarrow> map_option modbusMatchEndian (rd16 p 6);
        case s_registers st of
          None \<Rightarrow> buildExceptionErr al st 22 MODBUS_EXCEP_ILLEGAL_ADDRESS MODBUS_FERROR_NOSRC
        | Some regs \<Rightarrow>
          if index \<ge> s_registerCount st then
            buildExceptionErr al st 22 MODBUS_EXCEP_ILLEGAL_ADDRESS MODBUS_FERROR_RANGE
          else do {
            prot \<leftarrow> modbusMaskRead (s_registerMask st) (s_registerMaskLength st) index;
            if prot = 1 then
              buildExceptionErr al st 22 MODBUS_EXCEP_SLAVE_FAILURE MODBUS_FERROR_NOWRITE
            else case calloc al 10 of
              None \<Rightarrow> Some (MODBUS_ERROR_ALLOC, st\<lparr>s_responseFrame := None\<rparr>)
            | Some fr0 \<Rightarrow> do {
                v \<leftarrow> rd8 regs (unat index);
                regs' \<leftarrow> wr8 regs (unat index) ((v AND andmask) OR (ormask AND NOT andmask));
                let st1 = st\<lparr>s_registers := Some regs'\<rparr>;
                addr \<leftarrow> rd8 p 0;
                if addr = 0 then
                  Some (MODBUS_ERROR_OK,
                    st1\<lparr>s_responseFrame := Some fr0, s_parseError := MODBUS_FERROR_OK\<rparr>)
                else do {
                  fr1 \<leftarrow> wr8 fr0 0 (s_address st);
                  fn \<leftarrow> rd8 p 1;
                  fr2 \<leftarrow> wr8 fr1 1 fn;
                  rawIndex \<leftarrow> rd16 p 2;
                  fr3 \<leftarrow> wr16 fr2 2 rawIndex;
                  rawAnd \<leftarrow> rd16 p 4;
                  fr4 \<leftarrow> wr16 fr3 4 rawAnd;
                  rawOr \<leftarrow> rd16 p 6;
                  fr5 \<leftarrow> wr16 fr4 6 rawOr;
                  crc \<leftarrow> modbusCRC (Some fr5) 8;
                  fr6 \<leftarrow> wr16 fr5 8 crc;
                  Some (MODBUS_ERROR_OK, st1\<lparr>s_responseFrame := Some fr6,
                    s_responseLength := 10, s_parseError := MODBUS_FERROR_OK\<rparr>)
                }
              }
          }
      })"

section \<open>Coils (slave/scoils.c)\<close>

text \<open>
  The copy loop of the coil reads works on the \<open>values\<close> member of the response, the bytes from
  offset 3 on; it is left with \<open>MODBUS_ERROR_OTHER\<close> when a mask access is refused. The flag tells
  whether it ran to its end; the frame is what the loop has built so far.
\<close>

primrec copy_coils ::
  "bytes option \<Rightarrow> u16 \<Rightarrow> u16 \<Rightarrow> nat list \<Rightarrow> bytes \<Rightarrow> (bool \<times> bytes) option" where
  "copy_coils src srcLen index [] fr = Some (True, fr)"
| "copy_coils src srcLen index (i # is) fr = do {
     coil \<leftarrow> modbusMaskRead src srcLen (word_of_nat (i + unat index));
     if coil = 255 then Some (False, fr)
     else do {
       vlen \<leftarrow> rd8 fr 2;
       (r, vs) \<leftarrow> modbusMaskWrite (Some (drop 3 fr)) (ucast vlen) (word_of_nat i) coil;
       let fr' = take 3 fr @ (case vs of None \<Rightarrow> [] | Some v \<Rightarrow> v);
       if r = 255 then Some (False, fr') else copy_coils src srcLen index is fr'
     } }"

definition parseRequest0102 :: "(nat \<Rightarrow> bool) \<Rightarrow> handler" where
  "parseRequest0102 al st p = do {
     fn \<leftarrow> rd8 p 1;
     if fn \<noteq> 1 \<and> fn \<noteq> 2 then Some (MODBUS_ERROR_PARSE, st\<lparr>s_parseError := MODBUS_FERROR_BADFUN\<rparr>)
     else do {
       addr \<leftarrow> rd8 p 0;
       if addr = 0 then Some (MODBUS_ERROR_PARSE, st\<lparr>s_parseError := MODBUS_FERROR_BROADCAST\<rparr>)
       else if s_requestLength st \<noteq> 8 then
         buildExceptionErr al st fn MODBUS_EXCEP_ILLEGAL_VALUE MODBUS_FERROR_LENGTH
       else do {
         index \<leftarrow> map_option modbusMatchEndian (rd16 p 2);
         count \<leftarrow> map_option modbusMatchEndian (rd16 p 4);
         if count = 0 \<or> count > 2000 then
           buildExceptionErr al st fn MODBUS_EXCEP_ILLEGAL_VALUE MODBUS_FERROR_COUNT
         else case (if fn = 1 then s_coils st else s_discreteInputs st) of
           None \<Rightarrow> buildExceptionErr al st fn MODBUS_EXCEP_ILLEGAL_ADDRESS MODBUS_FERROR_NOSRC
         | Some src \<Rightarrow>
             let limit = (if fn = 1 then s_coilCount st else s_discreteInputCount st) in
             if index \<ge> limit \<or> (ucast index + ucast count :: u32) > ucast limit then
               buildExceptionErr al st fn MODBUS_EXCEP_ILLEGAL_ADDRESS MODBUS_FERROR_RANGE
             else
               let frameLength = 5 + ucast (modbusBitsToBytes count) :: u8 in
               case calloc al (unat frameLength) of
                 None \<Rightarrow> Some (MODBUS_ERROR_ALLOC, st\<lparr>s_responseFrame := None\<rparr>)
               | Some fr0 \<Rightarrow> do {
                   fr1 \<leftarrow> wr8 fr0 0 (s_address st);
                   fr2 \<leftarrow> wr8 fr1 1 fn;
                   fr3 \<leftarrow> wr8 fr2 2 (ucast (modbusBitsToBytes count));
                   (done, fr4) \<leftarrow> copy_coils (Some src) (modbusBitsToBytes limit) index [0..<unat count] fr3;
                   if \<not> done then Some (MODBUS_ERROR_OTHER, st\<lparr>s_responseFrame := Some fr4\<rparr>)
                   else do {
                     crc \<leftarrow> modbusCRC (Some fr4) (ucast frameLength - 2);
                     fr5 \<leftarrow> wr16 fr4 (unat frameLength - 2) crc;
                     Some (MODBUS_ERROR_OK,
                       st\<lparr>s_responseFrame := Some fr5, s_responseLength := frameLength\<rparr>)
                   }
                 }
       }
     }
   }"

definition parseRequest05 :: "(nat \<Rightarrow> bool) \<Rightarrow> handler" where
  "parseRequest05 al st p =
     (if s_requestLength st \<noteq> 8 then
        buildExceptionErr al st 5 MODBUS_EXCEP_ILLEGAL_VALUE MODBUS_FERROR_LENGTH
      else do {
        index \<leftarrow> map_option modbusMatchEndian (rd16 p 2);
        val \<leftarrow> map_option modbusMatchEndian (rd16 p 4);
        if val \<noteq> 0x0000 \<and> val \<noteq> 0xFF00 then
          buildExceptionErr al st 5 MODBUS_EXCEP_ILLEGAL_VALUE MODBUS_FERROR_VALUE
        else case s_coils st of
          None \<Rightarrow> buildExceptionErr al st 5 MODBUS_EXCEP_ILLEGAL_ADDRESS MODBUS_FERROR_NOSRC
        | Some coils \<Rightarrow>
          if index \<ge> s_coilCount st then
            buildExceptionErr al st 5 MODBUS_EXCEP_ILLEGAL_ADDRESS MODBUS_FERROR_RANGE
          else do {
            prot \<leftarrow> modbusMaskRead (s_coilMask st) (s_coilMaskLength st) index;
            if prot = 1 then
              buildExceptionErr al st 5 MODBUS_EXCEP_SLAVE_FAILURE MODBUS_FERROR_NOWRITE
            else case calloc al 8 of
              None \<Rightarrow> Some (MODBUS_ERROR_ALLOC, st\<lparr>s_responseFrame := None\<rparr>)
            | Some fr0 \<Rightarrow> do {
                (r, coils') \<leftarrow> modbusMaskWrite (Some coils) (modbusBitsToBytes (s_coilCount st)) index
                  (if val = 0xFF00 then 1 else 0);
                let st1 = st\<lparr>s_coils := coils'\<rparr>;
                if r = 255 then Some (MODBUS_ERROR_OTHER, st1\<lparr>s_responseFrame := Some fr0\<rparr>)
                else do {
                  addr \<leftarrow> rd8 p 0;
                  if addr = 0 then
                    Some (MODBUS_ERROR_OK,
                      st1\<lparr>s_responseFrame := Some fr0, s_parseError := MODBUS_FERROR_OK\<rparr>)
                  else do {
                    fr1 \<leftarrow> wr8 fr0 0 (s_address st);
                    fn \<leftarrow> rd8 p 1;
                    fr2 \<leftarrow> wr8 fr1 1 fn;
                    rawIndex \<leftarrow> rd16 p 2;
                    fr3 \<leftarrow> wr16 fr2 2 rawIndex;
                    rawValue \<leftarrow> rd16 p 4;
                    fr4 \<leftarrow> wr16 fr3 4 rawValue;
                    crc \<leftarrow> modbusCRC (Some fr4) 6;
                    fr5 \<leftarrow> wr16 fr4 6 crc;
                    Some (MODBUS_ERROR_OK, st1\<lparr>s_responseFrame := Some fr5,
                      s_responseLength := 8, s_parseError := MODBUS_FERROR_OK\<rparr>)
                  }
                }
              }
          }
      })"

text \<open>The write loop of function 15, from the \<open>values\<close> member of the request into the coils.\<close>

primrec write_coils ::
  "bytes option \<Rightarrow> u16 \<Rightarrow> u16 \<Rightarrow> u16 \<Rightarrow> nat list \<Rightarrow> bytes option \<Rightarrow> (bool \<times> bytes option) option" where
  "write_coils vals valsLen coilsLen index [] coils = Some (True, coils)"
| "write_coils vals valsLen coilsLen index (i # is) coils = do {
     coil \<leftarrow> modbusMaskRead vals valsLen (word_of_nat i);
     if coil = 255 then Some (False, coils)
     else do {
       (r, coils') \<leftarrow> modbusMaskWrite coils coilsLen (word_of_nat (unat index + i)) coil;
       if r = 255 then Some (False, coils') else write_coils vals valsLen coilsLen index is coils'
     } }"

definition parseRequest15 :: "(nat \<Rightarrow> bool) \<Rightarrow> handler" where
  "parseRequest15 al st p =
     (if s_requestLength st < 7 then
        buildExceptionErr al st 15 MODBUS_EXCEP_ILLEGAL_VALUE MODBUS_FERROR_LENGTH
      else do {
        len \<leftarrow> rd8 p 6;
        if s_requestLength st \<noteq> 9 + len then
          buildExceptionErr al st 15 MODBUS_EXCEP_ILLEGAL_VALUE MODBUS_FERROR_LENGTH
        else do {
          index \<leftarrow> map_option modbusMatchEndian (rd16 p 2);
          count \<leftarrow> map_option modbusMatchEndian (rd16 p 4);
          if len = 0 \<or> count = 0 \<or> modbusBitsToBytes count \<noteq> ucast len \<or> count > 1968 then
            buildExceptionErr al st 15 MODBUS_EXCEP_ILLEGAL_VALUE MODBUS_FERROR_COUNT
          else case s_coils st of
            None \<Rightarrow> buildExceptionErr al st 15 MODBUS_EXCEP_ILLEGAL_ADDRESS MODBUS_FERROR_NOSRC
          | Some coils \<Rightarrow>
            if index \<ge> s_coilCount st
               \<or> (ucast index + ucast count :: u32) > ucast (s_coilCount st) then
              buildExceptionErr al st 15 MODBUS_EXCEP_ILLEGAL_ADDRESS MODBUS_FERROR_RANGE
            else do {
              prot \<leftarrow> mask_any (s_coilMask st) (s_coilMaskLength st) index [0..<unat count];
              if prot then
                buildExceptionErr al st 15 MODBUS_EXCEP_SLAVE_FAILURE MODBUS_FERROR_NOWRITE
              else case calloc al 8 of
                None \<Rightarrow> Some (MODBUS_ERROR_ALLOC, st\<lparr>s_responseFrame := None\<rparr>)
              | Some fr0 \<Rightarrow> do {
                  (done, coils') \<leftarrow> write_coils (Some (drop 7 p)) (ucast len)
                    (modbusBitsToBytes (s_coilCount st)) index [0..<unat count] (Some coils);
                  let st1 = st\<lparr>s_coils := coils'\<rparr>;
                  if \<not> done then Some (MODBUS_ERROR_OTHER, st1\<lparr>s_responseFrame := Some fr0\<rparr>)
                  else do {
                    addr \<leftarrow> rd8 p 0;
                    if addr = 0 then
                      Some (MODBUS_ERROR_OK,
                        st1\<lparr>s_responseFrame := Some fr0, s_parseError := MODBUS_FERROR_OK\<rparr>)
                    else do {
                      fr1 \<leftarrow> wr8 fr0 0 (s_address st);
                      fn \<leftarrow> rd8 p 1;
                      fr2 \<leftarrow> wr8 fr1 1 fn;
                      rawIndex \<leftarrow> rd16 p 2;
                      fr3 \<leftarrow> wr16 fr2 2 rawIndex;
                      rawCount \<leftarrow> rd16 p 4;
                      fr4 \<leftarrow> wr16 fr3 4 rawCount;
                      crc \<leftarrow> modbusCRC (Some fr4) 6;
                      fr5 \<leftarrow> wr16 fr4 6 crc;
                      Some (MODBUS_ERROR_OK, st1\<lparr>s_responseFrame := Some fr5,
                        s_responseLength := 8, s_parseError := MODBUS_FERROR_OK\<rparr>)
                    }
                  }
                }
            }
        }
      })"

section \<open>Initialisation and dispatch (modbus.c)\<close>

definition slaveInit :: "slave \<Rightarrow> slave_result" where
  "slaveInit st0 = (
     let st = st0\<lparr>s_requestFrame := None, s_requestLength := 0,
                  s_responseFrame := None, s_responseLength := 0\<rparr> in
     if s_address st = 0 then Some (MODBUS_ERROR_OTHER, st)
     else
       let st1 = (if s_registerCount st = 0 \<or> s_registers st = None
                  then st\<lparr>s_registerCount := 0, s_registers := None\<rparr> else st);
           st2 = (if s_inputRegisterCount st1 = 0 \<or> s_inputRegisters st1 = None
                  then st1\<lparr>s_inputRegisterCount := 0, s_inputRegisters := None\<rparr> else st1);
           st3 = (if s_coilCount st2 = 0 \<or> s_coils st2 = None
                  then st2\<lparr>s_coilCount := 0, s_coils := None\<rparr> else st2);
           st4 = (if s_discreteInputCount st3 = 0 \<or> s_discreteInputs st3 = None
                  then st3\<lparr>s_discreteInputCount := 0, s_discreteInputs := None\<rparr> else st3)
       in Some (MODBUS_ERROR_OK, st4))"

definition slaveEnd :: "slave \<Rightarrow> slave_result" where
  "slaveEnd st = Some (MODBUS_ERROR_OK, st\<lparr>s_responseFrame := None\<rparr>)"

text \<open>The \<open>switch\<close> of the dispatcher: the handler of a function code, if the slave has one.\<close>

definition builtin_handler :: "(nat \<Rightarrow> bool) \<Rightarrow> u8 \<Rightarrow> handler option" where
  "builtin_handler al fn =
     (if fn = 1 \<or> fn = 2 then Some (parseRequest0102 al)
      else if fn = 3 \<or> fn = 4 then Some (parseRequest0304 al)
      else if fn = 5 then Some (parseRequest05 al)
      else if fn = 6 then Some (parseRequest06 al)
      else if fn = 15 then Some (parseRequest15 al)
      else if fn = 16 then Some (parseRequest16 al)
      else if fn = 22 then Some (parseRequest22 al)
      else None)"

text \<open>
  \<open>uf\<close> is the array of user functions, \<^term>\<open>None\<close> when there is none: the first entry for the
  function code decides, and an entry without a handler hides the built-in one.
\<close>

definition dispatch ::
  "(nat \<Rightarrow> bool) \<Rightarrow> (u8 \<Rightarrow> handler option) \<Rightarrow> (u8 \<times> handler option) list option \<Rightarrow> handler" where
  "dispatch al builtin uf st p = do {
     fn \<leftarrow> rd8 p 1;
     case Option.bind uf (\<lambda>fs. map_of fs fn) of
       Some (Some h) \<Rightarrow> h st p
     | Some None \<Rightarrow> buildExceptionErr al st fn MODBUS_EXCEP_ILLEGAL_FUNCTION MODBUS_FERROR_NULLFUN
     | None \<Rightarrow> (case builtin fn of
         Some h \<Rightarrow> h st p
       | None \<Rightarrow> buildExceptionErr al st fn MODBUS_EXCEP_ILLEGAL_FUNCTION MODBUS_FERROR_NOFUN)
   }"

definition parseRequest ::
  "(nat \<Rightarrow> bool) \<Rightarrow> (u8 \<Rightarrow> handler option) \<Rightarrow> (u8 \<times> handler option) list option
     \<Rightarrow> slave \<Rightarrow> slave_result" where
  "parseRequest al builtin uf st0 = (
     let st = st0\<lparr>s_responseLength := 0, s_responseFrame := None, s_parseError := MODBUS_FERROR_OK\<rparr> in
     case s_requestFrame st of
       None \<Rightarrow> Some (MODBUS_ERROR_PARSE, st\<lparr>s_parseError := MODBUS_FERROR_LENGTH\<rparr>)
     | Some p \<Rightarrow>
         if s_requestLength st < 4 then
           Some (MODBUS_ERROR_PARSE, st\<lparr>s_parseError := MODBUS_FERROR_LENGTH\<rparr>)
         else do {
           crc \<leftarrow> rd16 p (unat (s_requestLength st) - 2);
           crc' \<leftarrow> modbusCRC (Some p) (ucast (s_requestLength st) - 2);
           if crc \<noteq> crc' then
             Some (MODBUS_ERROR_PARSE, st\<lparr>s_parseError := MODBUS_FERROR_CRC\<rparr>)
           else do {
             addr \<leftarrow> rd8 p 0;
             if addr \<noteq> s_address st \<and> addr \<noteq> 0 then Some (MODBUS_ERROR_OK, st)
             else dispatch al builtin uf st p
           }
         })"

section \<open>The entry points, with their pointer tests\<close>

definition modbusBuildException where
  "modbusBuildException al status fn code = guard_status (\<lambda>st. buildException al st fn code) status"

definition modbusBuildExceptionErr where
  "modbusBuildExceptionErr al status fn code perr =
     guard_status (\<lambda>st. buildExceptionErr al st fn code perr) status"

definition modbusParseRequest0102 where
  "modbusParseRequest0102 al status parser = guard_parser (parseRequest0102 al) status parser"

definition modbusParseRequest0304 where
  "modbusParseRequest0304 al status parser = guard_parser (parseRequest0304 al) status parser"

definition modbusParseRequest05 where
  "modbusParseRequest05 al status parser = guard_parser (parseRequest05 al) status parser"

definition modbusParseRequest06 where
  "modbusParseRequest06 al status parser = guard_parser (parseRequest06 al) status parser"

definition modbusParseRequest15 where
  "modbusParseRequest15 al status parser = guard_parser (parseRequest15 al) status parser"

definition modbusParseRequest16 where
  "modbusParseRequest16 al status parser = guard_parser (parseRequest16 al) status parser"

definition modbusParseRequest22 where
  "modbusParseRequest22 al status parser = guard_parser (parseRequest22 al) status parser"

definition modbusParseRequest where
  "modbusParseRequest al uf status = guard_status (parseRequest al (builtin_handler al) uf) status"

definition modbusSlaveInit where
  "modbusSlaveInit status = guard_status slaveInit status"

definition modbusSlaveEnd where
  "modbusSlaveEnd status = guard_status slaveEnd status"

end
