(* ===== verification/ModbusSlaveFacts.thy ===== *)
theory ModbusSlaveFacts
  imports ModbusSlave
begin

text \<open>
  What every request handler of the slave guarantees, proved handler by handler, and once for the
  dispatcher.

  \<open>wf_slave\<close> says that the arrays the slave points to are as long as the counts beside them claim.
  \<open>answers\<close> is the contract of a handler run: the structure stays well formed, the configuration and
  the read-only data are untouched, write-protected registers and coils keep their values, an
  unsuccessful request changes no register and no coil, and the response is either empty or a sealed
  frame that starts with the slave's address; a broadcast is never answered. The locale \<open>request_handlers\<close> states this contract for a
  table of handlers; its lemmas are about the dispatcher, for any such table, and its
  interpretation is the \<open>switch\<close> of the code.
\<close>

section \<open>Well-formed slaves\<close>

definition wf_slave :: "slave \<Rightarrow> bool" where
  "wf_slave st \<longleftrightarrow>
     buf_ok (s_registers st) (unat (s_registerCount st))
   \<and> buf_ok (s_inputRegisters st) (unat (s_inputRegisterCount st))
   \<and> buf_ok (s_registerMask st) (unat (s_registerMaskLength st))
   \<and> buf_ok (s_coils st) (unat (modbusBitsToBytes (s_coilCount st)))
   \<and> buf_ok (s_discreteInputs st) (unat (modbusBitsToBytes (s_discreteInputCount st)))
   \<and> buf_ok (s_coilMask st) (unat (s_coilMaskLength st))
   \<and> buf_ok (s_requestFrame st) (unat (s_requestLength st))"

text \<open>Index \<open>i\<close> is write protected by a mask of \<open>len\<close> bytes.\<close>

definition protected :: "bytes option \<Rightarrow> u16 \<Rightarrow> nat \<Rightarrow> bool" where
  "protected msk len i =
     (case msk of None \<Rightarrow> False | Some m \<Rightarrow> i div 8 < unat len \<and> mask_bit m i)"

lemma protected_None [simp]: "\<not> protected None len i"
  by (simp add: protected_def)

lemma modbusMaskRead_protected:
  assumes "buf_ok msk (unat len)"
  obtains r where "modbusMaskRead msk len bt = Some r" "r = 1 \<longleftrightarrow> protected msk len (unat bt)"
proof (cases msk)
  case (Some m)
  with assms that show ?thesis
    by (cases "unat bt div 8 < unat len") (simp_all add: modbusMaskRead_in modbusMaskRead_out protected_def)
qed (use that in simp)

lemma mask_any_protected:
  assumes "buf_ok msk (unat len)" and "unat index + n \<le> 65536"
  shows "mask_any msk len index [0..<n] = Some (\<exists>i<n. protected msk len (unat index + i))"
proof -
  have "mask_any msk len index is = Some (\<exists>i\<in>set is. protected msk len (unat index + i))"
    if "\<forall>i\<in>set is. unat index + i < 65536" for "is"
    using that
  proof (induction "is")
    case (Cons i "is")
    obtain r where "modbusMaskRead msk len (word_of_nat (unat index + i)) = Some r"
      "r = 1 \<longleftrightarrow> protected msk len (unat (word_of_nat (unat index + i) :: u16))"
      using modbusMaskRead_protected [OF assms(1)] by blast
    with Cons show ?case by auto
  qed simp
  from this [of "[0..<n]"] show ?thesis using assms(2) by auto
qed

section \<open>The contract of a handler run\<close>

definition reply_ok :: "slave \<Rightarrow> bool" where
  "reply_ok st \<longleftrightarrow> s_responseLength st = 0
     \<or> (\<exists>body. s_responseFrame st = Some (seal (s_address st # body))
           \<and> unat (s_responseLength st) = length body + 3)"

definition frame_ok :: "slave \<Rightarrow> slave \<Rightarrow> bool" where
  "frame_ok st st' \<longleftrightarrow>
     s_address st' = s_address st
   \<and> s_inputRegisters st' = s_inputRegisters st \<and> s_discreteInputs st' = s_discreteInputs st
   \<and> s_registerMask st' = s_registerMask st \<and> s_registerMaskLength st' = s_registerMaskLength st
   \<and> s_coilMask st' = s_coilMask st \<and> s_coilMaskLength st' = s_coilMaskLength st
   \<and> s_registerCount st' = s_registerCount st
   \<and> s_inputRegisterCount st' = s_inputRegisterCount st
   \<and> s_coilCount st' = s_coilCount st \<and> s_discreteInputCount st' = s_discreteInputCount st
   \<and> s_requestFrame st' = s_requestFrame st \<and> s_requestLength st' = s_requestLength st"

definition same_data :: "slave \<Rightarrow> slave \<Rightarrow> bool" where
  "same_data st st' \<longleftrightarrow> s_registers st' = s_registers st \<and> s_coils st' = s_coils st"

definition keeps_registers :: "(nat \<Rightarrow> bool) \<Rightarrow> u16 list option \<Rightarrow> u16 list option \<Rightarrow> bool" where
  "keeps_registers P rs rs' = (case (rs, rs') of
      (None, None) \<Rightarrow> True
    | (Some r, Some r') \<Rightarrow> length r' = length r \<and> (\<forall>i<length r. P i \<longrightarrow> r' ! i = r ! i)
    | _ \<Rightarrow> False)"

definition keeps_coils :: "(nat \<Rightarrow> bool) \<Rightarrow> bytes option \<Rightarrow> bytes option \<Rightarrow> bool" where
  "keeps_coils P cs cs' = (case (cs, cs') of
      (None, None) \<Rightarrow> True
    | (Some c, Some c') \<Rightarrow> length c' = length c \<and> (\<forall>i<8 * length c. P i \<longrightarrow> mask_bit c' i = mask_bit c i)
    | _ \<Rightarrow> False)"

lemma keeps_registers_refl [simp]: "keeps_registers P rs rs"
  by (simp add: keeps_registers_def split: option.split)

lemma keeps_coils_refl [simp]: "keeps_coils P cs cs"
  by (simp add: keeps_coils_def split: option.split)

definition protection_ok :: "slave \<Rightarrow> slave \<Rightarrow> bool" where
  "protection_ok st st' \<longleftrightarrow>
     keeps_registers (protected (s_registerMask st) (s_registerMaskLength st))
       (s_registers st) (s_registers st')
   \<and> keeps_coils (protected (s_coilMask st) (s_coilMaskLength st)) (s_coils st) (s_coils st')"

definition answers :: "slave \<Rightarrow> bytes \<Rightarrow> ModbusError \<times> slave \<Rightarrow> bool" where
  "answers st p r \<longleftrightarrow> (case r of (e, st') \<Rightarrow>
     wf_slave st' \<and> frame_ok st st' \<and> protection_ok st st' \<and> reply_ok st'
   \<and> (e \<noteq> MODBUS_ERROR_OK \<longrightarrow> same_data st st')
   \<and> (p ! 0 = 0 \<longrightarrow> s_responseLength st' = 0))"

text \<open>The state in which the dispatcher calls a handler, with the frame it hands over.\<close>

definition called_with :: "slave \<Rightarrow> bytes \<Rightarrow> bool" where
  "called_with st p \<longleftrightarrow> wf_slave st \<and> s_requestFrame st = Some p \<and> 4 \<le> unat (s_requestLength st)
     \<and> s_responseLength st = 0"

definition good :: "slave \<Rightarrow> bytes \<Rightarrow> slave_result \<Rightarrow> bool" where
  "good st p x \<longleftrightarrow> (\<exists>r. x = Some r \<and> answers st p r)"

lemma good_if: "(c \<Longrightarrow> good st p a) \<Longrightarrow> (\<not> c \<Longrightarrow> good st p b) \<Longrightarrow> good st p (if c then a else b)"
  by simp

lemma good_bind: "x = Some v \<Longrightarrow> good st p (f v) \<Longrightarrow> good st p (Option.bind x f)"
  by simp

lemma good_calloc:
  "good st p a \<Longrightarrow> good st p (f (replicate n 0)) \<Longrightarrow>
     good st p (case calloc al n of None \<Rightarrow> a | Some fr \<Rightarrow> f fr)"
  by (simp add: calloc_def)

lemma good_option:
  "(x = None \<Longrightarrow> good st p a) \<Longrightarrow> (\<And>v. x = Some v \<Longrightarrow> good st p (f v)) \<Longrightarrow>
     good st p (case x of None \<Rightarrow> a | Some v \<Rightarrow> f v)"
  by (cases x) simp_all

lemmas good_rules = good_if good_option good_calloc

lemma called_withD:
  assumes "called_with st p"
  shows "wf_slave st" "s_requestFrame st = Some p" "4 \<le> length p"
    "unat (s_requestLength st) \<le> length p" "s_responseLength st = 0"
  using assms by (auto simp: called_with_def wf_slave_def)

text \<open>A run that changes nothing but the error fields and clears or keeps an unsent response.\<close>

lemma good_same:
  assumes "called_with st p" "frame_ok st st'" "same_data st st'" "s_responseLength st' = 0"
  shows "good st p (Some (e, st'))"
  using assms
  by (auto simp: good_def answers_def called_with_def wf_slave_def frame_ok_def same_data_def
      protection_ok_def reply_ok_def)

lemma good_exception:
  assumes "called_with st p"
  shows "good st p (buildExceptionErr al st fn code perr)"
proof -
  note st = called_withD [OF assms]
  let ?st = "st\<lparr>s_parseError := perr, s_lastException := code\<rparr>"
  have p0: "rd8 p 0 = Some (p ! 0)" using st by (intro rd8_in) linarith
  consider "p ! 0 = 0" | "p ! 0 \<noteq> 0" "\<not> al 5" | "p ! 0 \<noteq> 0" "al 5" by blast
  then show ?thesis
  proof cases
    case 1
    then have "buildExceptionErr al st fn code perr
        = Some (MODBUS_ERROR_PARSE, ?st\<lparr>s_responseLength := 0\<rparr>)"
      by (simp add: buildExceptionErr_def buildException_def st p0)
    then show ?thesis
      using assms by (simp add: good_same frame_ok_def same_data_def)
  next
    case 2
    then have "buildExceptionErr al st fn code perr
        = Some (MODBUS_ERROR_ALLOC, ?st\<lparr>s_responseFrame := None\<rparr>)"
      by (simp add: buildExceptionErr_def buildException_def st p0 calloc_def)
    then show ?thesis
      using assms st by (simp add: good_same frame_ok_def same_data_def)
  next
    case 3
    let ?fr = "seal [s_address st, push_bit 7 1 OR fn, excep_code code]"
    have "buildExceptionErr al st fn code perr
        = Some (MODBUS_ERROR_EXCEPTION, ?st\<lparr>s_responseFrame := Some ?fr, s_responseLength := 5\<rparr>)"
      using 3 by (simp add: buildExceptionErr_def buildException_def st p0 calloc_def replicate_5
          wr8_def wr16_def modbusCRC_in seal_def be16_def)
    then show ?thesis
      using 3 assms
      by (auto simp: good_def answers_def called_with_def wf_slave_def frame_ok_def same_data_def
          protection_ok_def reply_ok_def)
  qed
qed


section \<open>The handlers keep the contract\<close>

text \<open>The states in which the writing handlers end.\<close>

lemma keeps_registers_update:
  assumes "i < length regs" and "\<not> P i"
  shows "keeps_registers P (Some regs) (Some (regs[i := v]))"
  using assms by (auto simp: keeps_registers_def nth_list_update)

text \<open>
  How a successful write is answered: with an echo of the first \<open>n\<close> bytes of the request (the
  address aside, which is the slave's own), or not at all when it was a broadcast.
\<close>

definition echo :: "nat \<Rightarrow> bytes \<Rightarrow> slave \<Rightarrow> slave" where
  "echo n p st = (if p ! 0 = 0
     then st\<lparr>s_responseFrame := Some (replicate (n + 2) 0), s_parseError := MODBUS_FERROR_OK\<rparr>
     else st\<lparr>s_responseFrame := Some (seal (s_address st # take (n - 1) (drop 1 p))),
             s_responseLength := word_of_nat (n + 2), s_parseError := MODBUS_FERROR_OK\<rparr>)"

lemma take_drop_nths:
  "6 \<le> length p \<Longrightarrow> take 5 (drop (Suc 0) p) = [p ! Suc 0, p ! 2, p ! 3, p ! 4, p ! 5]"
  "8 \<le> length p \<Longrightarrow> take 7 (drop (Suc 0) p) = [p ! Suc 0, p ! 2, p ! 3, p ! 4, p ! 5, p ! 6, p ! 7]"
  by (rule nth_equalityI; force simp: less_Suc_eq numeral_eq_Suc)+

definition alloc_failed :: "slave \<Rightarrow> slave_result" where
  "alloc_failed st = Some (MODBUS_ERROR_ALLOC, st\<lparr>s_responseFrame := None\<rparr>)"

lemma called_rd8:
  assumes "called_with st p"
  shows "rd8 p 0 = Some (p ! 0)" "rd8 p 1 = Some (p ! 1)" "rd8 p (Suc 0) = Some (p ! 1)"
  using called_withD(3) [OF assms] by (auto simp: rd8_def)

lemma parseRequest06_eq:
  assumes "called_with st p"
  shows "parseRequest06 al st p =
     (let exc = buildExceptionErr al st 6; i = be_at p 2 in
      if s_requestLength st \<noteq> 8 then exc MODBUS_EXCEP_ILLEGAL_VALUE MODBUS_FERROR_LENGTH
      else case s_registers st of
        None \<Rightarrow> exc MODBUS_EXCEP_ILLEGAL_ADDRESS MODBUS_FERROR_RANGE
      | Some regs \<Rightarrow>
        if i \<ge> s_registerCount st then exc MODBUS_EXCEP_ILLEGAL_ADDRESS MODBUS_FERROR_RANGE
        else if protected (s_registerMask st) (s_registerMaskLength st) (unat i) then
          exc MODBUS_EXCEP_SLAVE_FAILURE MODBUS_FERROR_NOWRITE
        else if \<not> al 8 then alloc_failed st
        else Some (MODBUS_ERROR_OK,
          echo 6 p (st\<lparr>s_registers := Some (regs[unat i := be_at p 4])\<rparr>)))"
proof (cases "s_requestLength st = 8")
  case False
  then show ?thesis by (simp add: parseRequest06_def)
next
  case len: True
  note st = called_withD [OF assms]
  have p: "8 \<le> length p" using st len by simp
  have "buf_ok (s_registerMask st) (unat (s_registerMaskLength st))"
    using st(1) by (simp add: wf_slave_def)
  then obtain r where r: "modbusMaskRead (s_registerMask st) (s_registerMaskLength st) (mk16 (p ! 2) (p ! 3)) = Some r"
    "r = 1 \<longleftrightarrow> protected (s_registerMask st) (s_registerMaskLength st) (unat (mk16 (p ! 2) (p ! 3)))"
    using modbusMaskRead_protected by blast
  show ?thesis
  proof (cases "s_registers st")
    case None
    then show ?thesis using p by (simp add: parseRequest06_def len mem_simps)
  next
    case (Some regs)
    then have l: "\<not> s_registerCount st \<le> mk16 (p ! 2) (p ! 3) \<Longrightarrow>
        unat (mk16 (p ! 2) (p ! 3)) < length regs"
      using st(1) by (simp add: wf_slave_def word_le_nat_alt)
    show ?thesis
      using p Some st(5)
      by (cases "al 8"; cases "p ! 0 = 0")
        (simp_all add: parseRequest06_def len be_at_def r l called_rd8 [OF assms] calloc_def alloc_failed_def wr8_in
          mem_simps echo_def modbusCRC_in seal_def be16_def replicate_8 take_drop_nths Let_def
          cong: if_cong)
  qed
qed


lemma parseRequest22_eq:
  assumes "called_with st p"
  shows "parseRequest22 al st p =
     (let exc = buildExceptionErr al st 22; i = be_at p 2; a = be_at p 4 in
      if s_requestLength st \<noteq> 10 then exc MODBUS_EXCEP_ILLEGAL_VALUE MODBUS_FERROR_LENGTH
      else case s_registers st of
        None \<Rightarrow> exc MODBUS_EXCEP_ILLEGAL_ADDRESS MODBUS_FERROR_NOSRC
      | Some regs \<Rightarrow>
        if i \<ge> s_registerCount st then exc MODBUS_EXCEP_ILLEGAL_ADDRESS MODBUS_FERROR_RANGE
        else if protected (s_registerMask st) (s_registerMaskLength st) (unat i) then
          exc MODBUS_EXCEP_SLAVE_FAILURE MODBUS_FERROR_NOWRITE
        else if \<not> al 10 then alloc_failed st
        else Some (MODBUS_ERROR_OK, echo 8 p (st\<lparr>s_registers :=
          Some (regs[unat i := (regs ! unat i AND a) OR (be_at p 6 AND NOT a)])\<rparr>)))"
proof (cases "s_requestLength st = 10")
  case False
  then show ?thesis by (simp add: parseRequest22_def)
next
  case len: True
  note st = called_withD [OF assms]
  have p: "10 \<le> length p" using st len by simp
  have "buf_ok (s_registerMask st) (unat (s_registerMaskLength st))"
    using st(1) by (simp add: wf_slave_def)
  then obtain r where r: "modbusMaskRead (s_registerMask st) (s_registerMaskLength st) (mk16 (p ! 2) (p ! 3)) = Some r"
    "r = 1 \<longleftrightarrow> protected (s_registerMask st) (s_registerMaskLength st) (unat (mk16 (p ! 2) (p ! 3)))"
    using modbusMaskRead_protected by blast
  show ?thesis
  proof (cases "s_registers st")
    case None
    then show ?thesis using p by (simp add: parseRequest22_def len mem_simps)
  next
    case (Some regs)
    then have l: "\<not> s_registerCount st \<le> mk16 (p ! 2) (p ! 3) \<Longrightarrow>
        unat (mk16 (p ! 2) (p ! 3)) < length regs"
      using st(1) by (simp add: wf_slave_def word_le_nat_alt)
    show ?thesis
      using p Some st(5)
      by (cases "al 10"; cases "p ! 0 = 0")
        (simp_all add: parseRequest22_def len be_at_def r l called_rd8 [OF assms] calloc_def
          alloc_failed_def wr8_in mem_simps echo_def modbusCRC_in seal_def be16_def replicate_10
          take_drop_nths Let_def cong: if_cong)
  qed
qed

lemma parseRequest05_eq:
  assumes "called_with st p"
  shows "parseRequest05 al st p =
     (let exc = buildExceptionErr al st 5; i = be_at p 2; v = be_at p 4 in
      if s_requestLength st \<noteq> 8 then exc MODBUS_EXCEP_ILLEGAL_VALUE MODBUS_FERROR_LENGTH
      else if v \<noteq> 0x0000 \<and> v \<noteq> 0xFF00 then exc MODBUS_EXCEP_ILLEGAL_VALUE MODBUS_FERROR_VALUE
      else case s_coils st of
        None \<Rightarrow> exc MODBUS_EXCEP_ILLEGAL_ADDRESS MODBUS_FERROR_NOSRC
      | Some coils \<Rightarrow>
        if i \<ge> s_coilCount st then exc MODBUS_EXCEP_ILLEGAL_ADDRESS MODBUS_FERROR_RANGE
        else if protected (s_coilMask st) (s_coilMaskLength st) (unat i) then
          exc MODBUS_EXCEP_SLAVE_FAILURE MODBUS_FERROR_NOWRITE
        else if \<not> al 8 then alloc_failed st
        else Some (MODBUS_ERROR_OK,
          echo 6 p (st\<lparr>s_coils := Some (mask_set coils (unat i) (v = 0xFF00))\<rparr>)))"
proof (cases "s_requestLength st = 8")
  case False
  then show ?thesis by (simp add: parseRequest05_def)
next
  case len: True
  note st = called_withD [OF assms]
  have p: "8 \<le> length p" using st len by simp
  have "buf_ok (s_coilMask st) (unat (s_coilMaskLength st))"
    using st(1) by (simp add: wf_slave_def)
  then obtain r where r: "modbusMaskRead (s_coilMask st) (s_coilMaskLength st) (mk16 (p ! 2) (p ! 3)) = Some r"
    "r = 1 \<longleftrightarrow> protected (s_coilMask st) (s_coilMaskLength st) (unat (mk16 (p ! 2) (p ! 3)))"
    using modbusMaskRead_protected by blast
  show ?thesis
  proof (cases "s_coils st")
    case None
    then show ?thesis using p by (simp add: parseRequest05_def len mem_simps be_at_def)
  next
    case (Some coils)
    then have l: "\<not> s_coilCount st \<le> mk16 (p ! 2) (p ! 3) \<Longrightarrow>
        modbusMaskWrite (Some coils) (modbusBitsToBytes (s_coilCount st)) (mk16 (p ! 2) (p ! 3)) v
        = Some (0, Some (mask_set coils (unat (mk16 (p ! 2) (p ! 3))) (v \<noteq> 0)))" for v
      using st(1) by (intro modbusMaskWrite_in)
        (auto simp: wf_slave_def word_le_nat_alt unat_modbusBitsToBytes)
    show ?thesis
      using p Some st(5)
      by (cases "al 8"; cases "p ! 0 = 0")
        (simp_all add: parseRequest05_def len be_at_def r l called_rd8 [OF assms] calloc_def
          alloc_failed_def mem_simps echo_def modbusCRC_in seal_def be16_def replicate_8
          take_drop_nths Let_def cong: if_cong)
  qed
qed


lemma registers_from_request:
  assumes "off + n \<le> length regs" "7 + 2 * n \<le> length p"
  shows "for_each (\<lambda>i rs. do { v \<leftarrow> rd16 p (7 + 2 * i); wr8 rs (off + i) (modbusMatchEndian v) })
      [0..<n] regs = Some (splice regs off (map (\<lambda>k. be_at p (7 + 2 * k)) [0..<n]))"
proof -
  have "rd16 p (7 + 2 * k) = Some (mk16 (p ! (8 + 2 * k)) (p ! (7 + 2 * k)))" if "k < n" for k
    using that assms by (simp add: rd16_def)
  from for_each_store [OF assms(1) this, where h = modbusMatchEndian] show ?thesis
    by (simp add: be_at_def cong: map_cong)
qed

lemma parseRequest16_eq:
  assumes "called_with st p"
  shows "parseRequest16 al st p =
     (let exc = buildExceptionErr al st 16; i = be_at p 2; n = be_at p 4; len = p ! 6 in
      if s_requestLength st < 7 \<or> s_requestLength st \<noteq> 9 + len then
        exc MODBUS_EXCEP_ILLEGAL_VALUE MODBUS_FERROR_LENGTH
      else if len = 0 \<or> n = 0 \<or> n \<noteq> ucast (drop_bit 1 len) \<or> n > 123 then
        exc MODBUS_EXCEP_ILLEGAL_VALUE MODBUS_FERROR_COUNT
      else case s_registers st of
        None \<Rightarrow> exc MODBUS_EXCEP_ILLEGAL_ADDRESS MODBUS_FERROR_NOSRC
      | Some regs \<Rightarrow>
        if i \<ge> s_registerCount st \<or> unat (s_registerCount st) < unat i + unat n then
          exc MODBUS_EXCEP_ILLEGAL_ADDRESS MODBUS_FERROR_RANGE
        else if \<exists>k<unat n. protected (s_registerMask st) (s_registerMaskLength st) (unat i + k) then
          exc MODBUS_EXCEP_SLAVE_FAILURE MODBUS_FERROR_NOWRITE
        else if \<not> al 8 then alloc_failed st
        else Some (MODBUS_ERROR_OK, echo 6 p (st\<lparr>s_registers :=
          Some (splice regs (unat i) (map (\<lambda>k. be_at p (7 + 2 * k)) [0..<unat n]))\<rparr>)))"
proof (cases "s_requestLength st < 7")
  case True
  then show ?thesis by (simp add: parseRequest16_def)
next
  case len7: False
  note st = called_withD [OF assms]
  have p7: "7 \<le> length p" using st(4) len7 by (simp add: word_less_nat_alt)
  define len where "len = p ! 6"
  show ?thesis
  proof (cases "s_requestLength st = 9 + len")
    case False
    then show ?thesis using p7 len7 by (simp add: parseRequest16_def mem_simps len_def)
  next
    case len: True
    let ?i = "mk16 (p ! 2) (p ! 3)" and ?n = "mk16 (p ! 4) (p ! 5)"
    show ?thesis
    proof (cases "len = 0 \<or> ?n = 0 \<or> ?n \<noteq> ucast (drop_bit 1 len) \<or> ?n > 123")
      case True
      then show ?thesis
        using p7 len7 len by (simp add: parseRequest16_def mem_simps len_def be_at_def)
    next
      case ok: False
      then have c: "p ! 6 \<noteq> 0" "?n \<noteq> 0" "ucast (drop_bit (Suc 0) (p ! 6)) = ?n" "\<not> 123 < ?n"
        by (simp_all add: len_def)
      have n: "unat ?n = unat len div 2" "unat ?n \<le> 123"
        using ok by (simp_all add: unat_drop_bit le_123)
      have "unat len < 247" 
      proof (rule ccontr)
        assume "\<not> unat len < 247"
        then have "unat len = 247" using n by linarith
        then have "unat (9 + len) = 0" by (simp add: unat_word_ariths)
        then show False using len len7 by (simp add: word_less_nat_alt)
      qed
      then have "unat (9 + len) = 9 + unat len" by (simp add: unat_word_ariths)
      then have p: "7 + 2 * unat ?n \<le> length p" using st(4) len n by simp
      show ?thesis
      proof (cases "s_registers st")
        case None
        then show ?thesis using p7 len7 len by (simp add: parseRequest16_def mem_simps len_def be_at_def c)
      next
        case (Some regs)
        show ?thesis
        proof (cases "?i \<ge> s_registerCount st \<or> unat (s_registerCount st) < unat ?i + unat ?n")
          case True
          then show ?thesis using p7 len7 len Some
            by (auto simp add: c parseRequest16_def mem_simps len_def be_at_def range_check Let_def)
        next
          case False
          have l: "unat ?i + unat ?n \<le> length regs"
            using st(1) Some False by (simp add: wf_slave_def)
          have m: "mask_any (s_registerMask st) (s_registerMaskLength st) ?i [0..<unat ?n]
            = Some (\<exists>k<unat ?n. protected (s_registerMask st) (s_registerMaskLength st) (unat ?i + k))"
            using st(1) False unat_u16_bound [of "s_registerCount st"]
            by (intro mask_any_protected) (simp_all add: wf_slave_def)
          show ?thesis
            using p7 len7 len Some False st(5)
            by (cases "al 8"; cases "p ! 0 = 0")
              (simp_all add: c parseRequest16_def len_def be_at_def called_rd8 [OF assms] calloc_def
                m registers_from_request [OF l p] range_check
                alloc_failed_def mem_simps echo_def modbusCRC_in seal_def be16_def replicate_8
                take_drop_nths Let_def cong: if_cong)
        qed
      qed
    qed
  qed
qed


text \<open>A block of bits is copied between bit masks, bit by bit.\<close>

definition mask_copy :: "bytes \<Rightarrow> nat \<Rightarrow> nat list \<Rightarrow> bytes \<Rightarrow> nat \<Rightarrow> bytes" where
  "mask_copy src si ks dst di = fold (\<lambda>k m. mask_set m (di + k) (mask_bit src (si + k))) ks dst"

lemma mask_copy_simps [simp]:
  "mask_copy src si [] dst di = dst"
  "mask_copy src si (k # ks) dst di
     = mask_copy src si ks (mask_set dst (di + k) (mask_bit src (si + k))) di"
  by (simp_all add: mask_copy_def)

lemma mask_copy_append [simp]:
  "mask_copy src si (ks @ ls) dst di = mask_copy src si ls (mask_copy src si ks dst di) di"
  by (simp add: mask_copy_def)

lemma of_bool_not_255 [simp]: "of_bool b \<noteq> (255::u8)"
  by (cases b) simp_all

lemma zero_not_255 [simp]: "(0::u8) \<noteq> 255"
  by simp

lemma length_mask_copy [simp]: "length (mask_copy src si ks dst di) = length dst"
  by (induction ks arbitrary: dst) simp_all

lemma mask_copy_prefix:
  "\<forall>k\<in>set ks. (di + k) div 8 < length dst \<Longrightarrow>
     mask_copy src si ks (dst @ xs) di = mask_copy src si ks dst di @ xs"
  by (induction ks arbitrary: dst) (simp_all add: mask_set_def list_update_append nth_append)

lemma mask_bit_mask_copy:
  assumes "di + n \<le> 8 * length dst"
  shows "mask_bit (mask_copy src si [0..<n] dst di) j
    = (if di \<le> j \<and> j < di + n then mask_bit src (si + (j - di)) else mask_bit dst j)"
  using assms
proof (induction n)
  case (Suc n)
  then have "(di + n) div 8 < length dst" by (simp add: less_mult_imp_div_less)
  with Suc show ?case by (auto simp: mask_bit_mask_set less_Suc_eq)
qed auto

lemma write_coils_in:
  assumes "\<forall>k\<in>set ks. unat index + k < 65536 \<and> k div 8 < unat vlen \<and> (unat index + k) div 8 < unat clen"
    and "unat vlen \<le> length vals" "unat clen \<le> length coils"
  shows "write_coils (Some vals) vlen clen index ks (Some coils)
    = Some (True, Some (mask_copy vals 0 ks coils (unat index)))"
  using assms
  by (induction ks arbitrary: coils) (simp_all add: modbusMaskRead_in modbusMaskWrite_in)

lemma copy_coils_in:
  assumes "\<forall>k\<in>set ks. unat index + k < 65536 \<and> (unat index + k) div 8 < unat slen \<and> k div 8 < unat (fr ! 2)"
    and "unat slen \<le> length src" "3 + unat (fr ! 2) \<le> length fr"
  shows "copy_coils (Some src) slen index ks fr
    = Some (True, take 3 fr @ mask_copy src (unat index) ks (drop 3 fr) 0)"
  using assms
  by (induction ks arbitrary: fr)
    (simp_all add: modbusMaskRead_in modbusMaskWrite_in mem_simps nth_append Let_def
      add.commute [of _ index] add.commute [of _ "unat index"])


lemma parseRequest15_eq:
  assumes "called_with st p"
  shows "parseRequest15 al st p =
     (let exc = buildExceptionErr al st 15; i = be_at p 2; n = be_at p 4; len = p ! 6 in
      if s_requestLength st < 7 \<or> s_requestLength st \<noteq> 9 + len then
        exc MODBUS_EXCEP_ILLEGAL_VALUE MODBUS_FERROR_LENGTH
      else if len = 0 \<or> n = 0 \<or> modbusBitsToBytes n \<noteq> ucast len \<or> n > 1968 then
        exc MODBUS_EXCEP_ILLEGAL_VALUE MODBUS_FERROR_COUNT
      else case s_coils st of
        None \<Rightarrow> exc MODBUS_EXCEP_ILLEGAL_ADDRESS MODBUS_FERROR_NOSRC
      | Some coils \<Rightarrow>
        if i \<ge> s_coilCount st \<or> unat (s_coilCount st) < unat i + unat n then
          exc MODBUS_EXCEP_ILLEGAL_ADDRESS MODBUS_FERROR_RANGE
        else if \<exists>k<unat n. protected (s_coilMask st) (s_coilMaskLength st) (unat i + k) then
          exc MODBUS_EXCEP_SLAVE_FAILURE MODBUS_FERROR_NOWRITE
        else if \<not> al 8 then alloc_failed st
        else Some (MODBUS_ERROR_OK, echo 6 p (st\<lparr>s_coils :=
          Some (mask_copy (drop 7 p) 0 [0..<unat n] coils (unat i))\<rparr>)))"
proof (cases "s_requestLength st < 7")
  case True
  then show ?thesis by (simp add: parseRequest15_def)
next
  case len7: False
  note st = called_withD [OF assms]
  have p7: "7 \<le> length p" using st(4) len7 by (simp add: word_less_nat_alt)
  show ?thesis
  proof (cases "s_requestLength st = 9 + p ! 6")
    case False
    then show ?thesis using p7 len7 by (simp add: parseRequest15_def mem_simps)
  next
    case len: True
    let ?i = "mk16 (p ! 2) (p ! 3)" and ?n = "mk16 (p ! 4) (p ! 5)"
    show ?thesis
    proof (cases "p ! 6 = 0 \<or> ?n = 0 \<or> modbusBitsToBytes ?n \<noteq> ucast (p ! 6) \<or> ?n > 1968")
      case True
      then show ?thesis
        using p7 len7 len by (simp add: parseRequest15_def mem_simps be_at_def)
    next
      case ok: False
      then have c: "p ! 6 \<noteq> 0" "?n \<noteq> 0" "modbusBitsToBytes ?n = ucast (p ! 6)" "\<not> 1968 < ?n"
        by simp_all
      from c(3) have "unat (modbusBitsToBytes ?n) = unat (ucast (p ! 6) :: u16)" by (rule arg_cong)
      then have n: "(unat ?n + 7) div 8 = unat (p ! 6)" "unat ?n \<le> 1968"
        using c(4) by (simp_all add: unat_modbusBitsToBytes le_1968)
      then have "unat (9 + p ! 6) = 9 + unat (p ! 6)" by (simp add: unat_word_ariths)
      then have p: "unat (p ! 6) \<le> length (drop 7 p)" using st(4) len by simp
      show ?thesis
      proof (cases "s_coils st")
        case None
        then show ?thesis using p7 len7 len by (simp add: parseRequest15_def mem_simps be_at_def c)
      next
        case (Some coils)
        show ?thesis
        proof (cases "?i \<ge> s_coilCount st \<or> unat (s_coilCount st) < unat ?i + unat ?n")
          case True
          then show ?thesis using p7 len7 len Some
            by (auto simp add: c parseRequest15_def mem_simps be_at_def range_check Let_def)
        next
          case False
          note bound = unat_u16_bound [of "s_coilCount st"]
          have m: "mask_any (s_coilMask st) (s_coilMaskLength st) ?i [0..<unat ?n]
            = Some (\<exists>k<unat ?n. protected (s_coilMask st) (s_coilMaskLength st) (unat ?i + k))"
            using st(1) False bound
            by (intro mask_any_protected) (simp_all add: wf_slave_def)
          have w: "write_coils (Some (drop 7 p)) (ucast (p ! 6)) (modbusBitsToBytes (s_coilCount st))
              ?i [0..<unat ?n] (Some coils)
            = Some (True, Some (mask_copy (drop 7 p) 0 [0..<unat ?n] coils (unat ?i)))"
            using st(1) False bound n p Some
            by (intro write_coils_in ballI) (auto simp: wf_slave_def unat_modbusBitsToBytes)
          show ?thesis
            using p7 len7 len Some False st(5)
            by (cases "al 8"; cases "p ! 0 = 0")
              (simp_all add: c parseRequest15_def be_at_def called_rd8 [OF assms] calloc_def
                m w range_check
                alloc_failed_def mem_simps echo_def modbusCRC_in seal_def be16_def replicate_8
                take_drop_nths Let_def cong: if_cong)
        qed
      qed
    qed
  qed
qed


lemma registers_to_response:
  assumes "off + n \<le> length src" "3 + 2 * n \<le> length fr"
  shows "for_each (\<lambda>i fr. do { v \<leftarrow> rd8 src (off + i); wr16 fr (3 + 2 * i) (modbusMatchEndian v) })
      [0..<n] fr
    = Some (take 3 fr @ concat (map be16 (take n (drop off src))) @ drop (3 + 2 * n) fr)"
proof -
  have "for_each (\<lambda>i fr. do { v \<leftarrow> rd8 src (off + i); wr16 fr (3 + 2 * i) (modbusMatchEndian v) }) [0..<n] fr
    = for_each (\<lambda>i fr. wr16 fr (3 + 2 * i) (modbusMatchEndian (src ! (off + i)))) [0..<n] fr"
    using assms(1) by (intro for_each_cong) (simp add: rd8_in)
  also have "\<dots> = Some (take 3 fr @ concat (map (\<lambda>i. be16 (src ! (off + i))) [0..<n])
      @ drop (3 + 2 * n) fr)"
    using for_each_wr16 [OF assms(2), of "\<lambda>i. modbusMatchEndian (src ! (off + i))"]
    by (simp add: modbusMatchEndian_def)
  also have "map (\<lambda>i. be16 (src ! (off + i))) [0..<n] = map be16 (take n (drop off src))"
    using assms(1) by (intro nth_equalityI) simp_all
  finally show ?thesis .
qed

text \<open>The state after a successful read: the answer is the address and \<open>body\<close>, sealed.\<close>

definition reply :: "u8 \<Rightarrow> bytes \<Rightarrow> slave \<Rightarrow> slave" where
  "reply len body st = st\<lparr>s_responseFrame := Some (seal (s_address st # body)),
     s_responseLength := len\<rparr>"

lemma replicate_add_5: "replicate (5 + n) x = x # x # x # replicate n x @ [x, x]"
  by (induction n) (simp_all add: numeral_eq_Suc replicate_append_same)

lemma response_crc:
  assumes "unat (len::u8) = length body + 5"
  shows "modbusCRC (Some (a # b # c # body @ [x, y])) (ucast len - 2)
    = Some (modbusSwapEndian (crc16 (a # b # c # body)))"
proof -
  have "unat (ucast len - 2 :: u16) = 3 + length body"
    using assms by (subst unat_crc_len) simp_all
  moreover have "take (3 + length body) (a # b # c # body @ [x, y]) = a # b # c # body"
    by (simp add: numeral_eq_Suc)
  ultimately show ?thesis by (simp add: modbusCRC_in)
qed

lemma response_store:
  "wr16 (a # b # c # body @ [x, y]) (3 + length body) (modbusSwapEndian (crc16 (a # b # c # body)))
    = Some (seal (a # b # c # body))"
  by (simp add: wr16_le16 seal_def numeral_eq_Suc)

lemma drop_frame: "drop (3 + n) (a # b # c # replicate n v @ xs) = xs"
  by (simp add: numeral_eq_Suc)

lemma parseRequest0304_eq:
  assumes "called_with st p"
  shows "parseRequest0304 al st p =
     (let fn = p ! 1; exc = buildExceptionErr al st fn; i = be_at p 2; n = be_at p 4;
          limit = (if fn = 3 then s_registerCount st else s_inputRegisterCount st) in
      if fn \<noteq> 3 \<and> fn \<noteq> 4 then
        Some (MODBUS_ERROR_PARSE, st\<lparr>s_parseError := MODBUS_FERROR_BADFUN\<rparr>)
      else if p ! 0 = 0 then
        Some (MODBUS_ERROR_PARSE, st\<lparr>s_parseError := MODBUS_FERROR_BROADCAST\<rparr>)
      else if s_requestLength st \<noteq> 8 then exc MODBUS_EXCEP_ILLEGAL_VALUE MODBUS_FERROR_LENGTH
      else if n = 0 \<or> n > 125 then exc MODBUS_EXCEP_ILLEGAL_VALUE MODBUS_FERROR_COUNT
      else case (if fn = 3 then s_registers st else s_inputRegisters st) of
        None \<Rightarrow> exc MODBUS_EXCEP_ILLEGAL_ADDRESS MODBUS_FERROR_NOSRC
      | Some src \<Rightarrow>
        if i \<ge> limit \<or> unat limit < unat i + unat n then
          exc MODBUS_EXCEP_ILLEGAL_ADDRESS MODBUS_FERROR_RANGE
        else if \<not> al (5 + 2 * unat n) then alloc_failed st
        else Some (MODBUS_ERROR_OK,
          reply (5 + ucast (push_bit 1 n)) (fn # ucast (push_bit 1 n) # concat (map be16 (take (unat n) (drop (unat i) src))))
            (st\<lparr>s_parseError := MODBUS_FERROR_OK\<rparr>)))"
proof (cases "(p ! 1 = 3 \<or> p ! 1 = 4) \<and> p ! 0 \<noteq> 0 \<and> s_requestLength st = 8")
  case False
  then show ?thesis by (auto simp: parseRequest0304_def called_rd8 [OF assms])
next
  case c1: True
  note st = called_withD [OF assms]
  have p: "8 \<le> length p" using st c1 by simp
  let ?i = "mk16 (p ! 2) (p ! 3)" and ?n = "mk16 (p ! 4) (p ! 5)"
  let ?src = "if p ! 1 = 3 then s_registers st else s_inputRegisters st"
  let ?limit = "if p ! 1 = 3 then s_registerCount st else s_inputRegisterCount st"
  show ?thesis
  proof (cases "?n = 0 \<or> ?n > 125 \<or> ?src = None \<or> ?limit \<le> ?i \<or> unat ?limit < unat ?i + unat ?n")
    case True
    then show ?thesis using c1 p
      by (auto simp add: parseRequest0304_def called_rd8 [OF assms] be_at_def mem_simps range_check
          split: option.splits)
  next
    case False
    then obtain src where src: "?src = Some src" and c2: "?n \<noteq> 0" "\<not> 125 < ?n" "\<not> ?limit \<le> ?i"
      "\<not> unat ?limit < unat ?i + unat ?n" by auto
    have n: "unat ?n \<le> 125" using c2 by (simp add: le_125)
    have l: "unat ?i + unat ?n \<le> length src"
      using st(1) src c2 by (auto simp: wf_slave_def split: if_splits)
    have fl: "unat (5 + ucast (push_bit 1 ?n) :: u8) = 5 + 2 * unat ?n"
      using n by (rule unat_frame_0304)
    show ?thesis
    proof (cases "al (5 + 2 * unat ?n)")
      case False
      then show ?thesis using c1 p src c2 fl
        by (simp add: parseRequest0304_def called_rd8 [OF assms] be_at_def mem_simps range_check
            calloc_def alloc_failed_def Let_def)
    next
      case True
      let ?b = "concat (map be16 (take (unat ?n) (drop (unat ?i) src)))"
      have b: "length ?b = 2 * unat ?n" using l by simp
      note frame = response_crc [where body = ?b, unfolded b] response_store [where body = ?b, unfolded b]
      show ?thesis using True c1 p src c2 fl
        by (simp add: parseRequest0304_def called_rd8 [OF assms] be_at_def mem_simps range_check
            calloc_def Let_def replicate_add_5 registers_to_response [OF l] l drop_frame frame reply_def)
    qed
  qed
qed


lemma copy_coils_frame:
  assumes "unat c = (n + 7) div 8" "unat i + n \<le> unat limit"
    "unat (modbusBitsToBytes limit) \<le> length src"
  shows "copy_coils (Some src) (modbusBitsToBytes limit) i [0..<n] (a # b # c # replicate (unat c) 0 @ [0, 0])
    = Some (True, a # b # c # mask_copy src (unat i) [0..<n] (replicate (unat c) 0) 0 @ [0, 0])"
proof -
  have k: "k div 8 < unat c \<and> (unat i + k) div 8 < unat (modbusBitsToBytes limit) \<and> unat i + k < 65536"
    if "k < n" for k
    using that assms(1,2) unat_u16_bound [of limit] unfolding unat_modbusBitsToBytes by arith
  then have "copy_coils (Some src) (modbusBitsToBytes limit) i [0..<n] (a # b # c # replicate (unat c) 0 @ [0, 0])
    = Some (True, [a, b, c] @ mask_copy src (unat i) [0..<n] (replicate (unat c) 0 @ [0, 0]) 0)"
    using assms(3) by (subst copy_coils_in) simp_all
  with k show ?thesis by (simp add: mask_copy_prefix)
qed

lemma parseRequest0102_eq:
  assumes "called_with st p"
  shows "parseRequest0102 al st p =
     (let fn = p ! 1; exc = buildExceptionErr al st fn; i = be_at p 2; n = be_at p 4;
          limit = (if fn = 1 then s_coilCount st else s_discreteInputCount st);
          nb = unat (modbusBitsToBytes n) in
      if fn \<noteq> 1 \<and> fn \<noteq> 2 then
        Some (MODBUS_ERROR_PARSE, st\<lparr>s_parseError := MODBUS_FERROR_BADFUN\<rparr>)
      else if p ! 0 = 0 then
        Some (MODBUS_ERROR_PARSE, st\<lparr>s_parseError := MODBUS_FERROR_BROADCAST\<rparr>)
      else if s_requestLength st \<noteq> 8 then exc MODBUS_EXCEP_ILLEGAL_VALUE MODBUS_FERROR_LENGTH
      else if n = 0 \<or> n > 2000 then exc MODBUS_EXCEP_ILLEGAL_VALUE MODBUS_FERROR_COUNT
      else case (if fn = 1 then s_coils st else s_discreteInputs st) of
        None \<Rightarrow> exc MODBUS_EXCEP_ILLEGAL_ADDRESS MODBUS_FERROR_NOSRC
      | Some src \<Rightarrow>
        if i \<ge> limit \<or> unat limit < unat i + unat n then
          exc MODBUS_EXCEP_ILLEGAL_ADDRESS MODBUS_FERROR_RANGE
        else if \<not> al (5 + nb) then alloc_failed st
        else Some (MODBUS_ERROR_OK,
          reply (5 + ucast (modbusBitsToBytes n))
            (fn # ucast (modbusBitsToBytes n) # mask_copy src (unat i) [0..<unat n] (replicate nb 0) 0) st))"
proof (cases "(p ! 1 = 1 \<or> p ! 1 = 2) \<and> p ! 0 \<noteq> 0 \<and> s_requestLength st = 8")
  case False
  then show ?thesis by (auto simp: parseRequest0102_def called_rd8 [OF assms])
next
  case c1: True
  note st = called_withD [OF assms]
  have p: "8 \<le> length p" using st c1 by simp
  define i n where "i = mk16 (p ! 2) (p ! 3)" and "n = mk16 (p ! 4) (p ! 5)"
  note wire = i_def [symmetric] n_def [symmetric]
  let ?src = "if p ! 1 = 1 then s_coils st else s_discreteInputs st"
  let ?limit = "if p ! 1 = 1 then s_coilCount st else s_discreteInputCount st"
  show ?thesis
  proof (cases "n = 0 \<or> n > 2000 \<or> ?src = None \<or> ?limit \<le> i \<or> unat ?limit < unat i + unat n")
    case True
    then show ?thesis using c1 p
      by (auto simp add: parseRequest0102_def called_rd8 [OF assms] be_at_def wire mem_simps range_check
          split: option.splits)
  next
    case False
    then obtain src where src: "?src = Some src" and c2: "n \<noteq> 0" "\<not> 2000 < n" "\<not> ?limit \<le> i"
      "\<not> unat ?limit < unat i + unat n" by auto
    have n: "unat n \<le> 2000" using c2 by (simp add: le_2000)
    let ?nb = "unat (modbusBitsToBytes n)"
    have nb: "?nb = (unat n + 7) div 8" by (rule unat_modbusBitsToBytes)
    have l: "unat (modbusBitsToBytes ?limit) \<le> length src"
      using st(1) src by (auto simp: wf_slave_def split: if_splits)
    have fl: "unat (5 + ucast (modbusBitsToBytes n) :: u8) = 5 + ?nb"
      using n by (simp only: unat_frame_0102 nb)
    show ?thesis
    proof (cases "al (5 + ?nb)")
      case False
      then show ?thesis using c1 p src c2 fl
        by (simp add: parseRequest0102_def called_rd8 [OF assms] be_at_def wire mem_simps range_check
            calloc_def alloc_failed_def Let_def)
    next
      case True
      let ?m = "mask_copy src (unat i) [0..<unat n] (replicate ?nb 0) 0"
      let ?c = "ucast (modbusBitsToBytes n) :: u8"
      have bc: "unat ?c = ?nb" using n by (simp only: unat_bits_count nb)
      have copy: "copy_coils (Some src) (modbusBitsToBytes ?limit) i [0..<unat n]
          (s_address st # p ! 1 # ?c # replicate ?nb 0 @ [0, 0])
        = Some (True, s_address st # p ! 1 # ?c # ?m @ [0, 0])"
        using c2(4) by (intro copy_coils_frame [of ?c, unfolded bc] nb l) linarith
      have b: "length ?m = ?nb" by simp
      note store = response_store [where body = ?m, unfolded b]
      have "unat (5 + ucast (modbusBitsToBytes n) :: u8) = ?nb + 5" by (simp only: fl)
      note crc = response_crc [where body = ?m, unfolded b, OF this]
      have two: "5 + ?nb - 2 = 3 + ?nb" by simp
      consider "p ! Suc 0 = 1" | "p ! Suc 0 = 2" using c1 by auto
      then show ?thesis
        using True c1 p src c2 copy fl
        by cases (simp add: parseRequest0102_def called_rd8 [OF assms] be_at_def wire mem_simps
            range_check Let_def reply_def,
          simp only: calloc_def if_True option.case fl replicate_add_5 wr8_def length_Cons, simp,
          simp only: crc store Option.bind.simps)+
    qed
  qed
qed

section \<open>Every handler keeps the contract\<close>

lemma keeps_registers_splice:
  assumes "i + length vs \<le> length regs" and "\<And>k. k < length vs \<Longrightarrow> \<not> P (i + k)"
  shows "keeps_registers P (Some regs) (Some (splice regs i vs))"
proof -
  have "\<not> P j" if "i \<le> j" "j < i + length vs" for j
    using assms(2) [of "j - i"] that by simp
  with assms(1) show ?thesis by (auto simp: keeps_registers_def nth_splice)
qed

lemma keeps_coils_set:
  assumes "i div 8 < length coils" and "\<not> P i"
  shows "keeps_coils P (Some coils) (Some (mask_set coils i v))"
  using assms by (auto simp: keeps_coils_def mask_bit_mask_set)

lemma keeps_coils_copy:
  assumes "i + n \<le> 8 * length coils" and "\<And>k. k < n \<Longrightarrow> \<not> P (i + k)"
  shows "keeps_coils P (Some coils) (Some (mask_copy src 0 [0..<n] coils i))"
proof -
  have "\<not> P j" if "i \<le> j" "j < i + n" for j
    using assms(2) [of "j - i"] that by simp
  with assms(1) show ?thesis by (auto simp: keeps_coils_def mask_bit_mask_copy)
qed

lemma good_registers:
  assumes "called_with st p" "s_registers st = Some regs"
    and "keeps_registers (protected (s_registerMask st) (s_registerMaskLength st)) (Some regs) (Some regs')"
    and "n \<le> length p" "1 \<le> n" "n < 254"
  shows "good st p (Some (MODBUS_ERROR_OK, echo n p (st\<lparr>s_registers := Some regs'\<rparr>)))"
  using assms unat_small_u8 [of "n + 2"]
  by (auto simp: good_def answers_def called_with_def wf_slave_def frame_ok_def echo_def reply_ok_def
      protection_ok_def keeps_registers_def)

lemma good_coils:
  assumes "called_with st p" "s_coils st = Some coils"
    and "keeps_coils (protected (s_coilMask st) (s_coilMaskLength st)) (Some coils) (Some coils')"
    and "n \<le> length p" "1 \<le> n" "n < 254"
  shows "good st p (Some (MODBUS_ERROR_OK, echo n p (st\<lparr>s_coils := Some coils'\<rparr>)))"
  using assms unat_small_u8 [of "n + 2"]
  by (auto simp: good_def answers_def called_with_def wf_slave_def frame_ok_def echo_def reply_ok_def
      protection_ok_def keeps_coils_def)

lemma good_alloc_failed: "called_with st p \<Longrightarrow> good st p (alloc_failed st)"
  unfolding alloc_failed_def
  by (rule good_same) (simp_all add: frame_ok_def same_data_def called_withD)

lemma good_rejected:
  "called_with st p \<Longrightarrow> good st p (Some (e, st\<lparr>s_parseError := perr\<rparr>))"
  by (rule good_same) (simp_all add: frame_ok_def same_data_def called_withD)

lemma good_reply:
  assumes "called_with st p" "p ! 0 \<noteq> 0" "unat len = length body + 3"
  shows "good st p (Some (MODBUS_ERROR_OK, reply len body st))"
    "good st p (Some (MODBUS_ERROR_OK, reply len body (st\<lparr>s_parseError := perr\<rparr>)))"
  using assms
  by (auto simp: good_def answers_def called_with_def wf_slave_def frame_ok_def reply_def reply_ok_def
      protection_ok_def)


lemmas good_ends = good_exception good_alloc_failed good_rejected good_registers good_coils

lemma called_length: "called_with st p \<Longrightarrow> unat (s_requestLength st) \<le> length p"
  by (rule called_withD)

lemma wf_bounds:
  assumes "wf_slave st"
  shows "s_registers st = Some regs \<Longrightarrow> unat (s_registerCount st) \<le> length regs"
    "s_inputRegisters st = Some inputs \<Longrightarrow> unat (s_inputRegisterCount st) \<le> length inputs"
    "s_coils st = Some coils \<Longrightarrow> (unat (s_coilCount st) + 7) div 8 \<le> length coils"
  using assms by (simp_all add: wf_slave_def unat_modbusBitsToBytes)

lemma good_06: "called_with st p \<Longrightarrow> good st p (parseRequest06 al st p)"
  unfolding parseRequest06_eq Let_def
  using called_length [of st p] wf_bounds(1) [of st] called_withD(1) [of st p]
  by (intro good_rules good_ends) (auto simp: word_le_nat_alt intro!: keeps_registers_update)

lemma good_22: "called_with st p \<Longrightarrow> good st p (parseRequest22 al st p)"
  unfolding parseRequest22_eq Let_def
  using called_length [of st p] wf_bounds(1) [of st] called_withD(1) [of st p]
  by (intro good_rules good_ends) (auto simp: word_le_nat_alt intro!: keeps_registers_update)

lemma good_16: "called_with st p \<Longrightarrow> good st p (parseRequest16 al st p)"
  unfolding parseRequest16_eq Let_def
  using called_length [of st p] wf_bounds(1) [of st] called_withD(1) [of st p]
  by (intro good_rules good_ends)
    (auto simp: word_le_nat_alt word_less_nat_alt intro!: keeps_registers_splice)

lemma good_05: "called_with st p \<Longrightarrow> good st p (parseRequest05 al st p)"
  unfolding parseRequest05_eq Let_def
  using called_length [of st p] wf_bounds(3) [of st] called_withD(1) [of st p]
  by (intro good_rules good_ends) (auto simp: word_le_nat_alt intro!: keeps_coils_set)

lemma good_15: "called_with st p \<Longrightarrow> good st p (parseRequest15 al st p)"
  unfolding parseRequest15_eq Let_def
  using called_length [of st p] wf_bounds(3) [of st] called_withD(1) [of st p]
  by (intro good_rules good_ends)
    (auto simp: word_le_nat_alt word_less_nat_alt intro!: keeps_coils_copy)

lemma good_0304: "called_with st p \<Longrightarrow> good st p (parseRequest0304 al st p)"
  unfolding parseRequest0304_eq Let_def
  using wf_bounds(1,2) [of st] called_withD(1) [of st p]
  by (intro good_rules good_ends good_reply)
    (auto simp: le_125 unat_frame_0304 [simplified] min_absorb2)

lemma good_0102: "called_with st p \<Longrightarrow> good st p (parseRequest0102 al st p)"
  unfolding parseRequest0102_eq Let_def
  by (intro good_rules good_ends good_reply)
    (auto simp: le_2000 unat_frame_0102 unat_modbusBitsToBytes)

end
