(* ===== verification/ModbusServer.thy ===== *)
theory ModbusServer
  imports ModbusSlaveFacts
begin

text \<open>
  The slave as a whole. The locale \<open>request_handlers\<close> takes any table of handlers that keeps the
  contract \<open>answers\<close> and shows what the dispatcher of \<open>modbus.c\<close> then guarantees; its interpretation is
  the \<open>switch\<close> of the code. The properties of the slave follow.
\<close>

section \<open>The dispatcher, over any table of handlers that keeps the contract\<close>

definition user_ok :: "(u8 \<times> handler option) list option \<Rightarrow> bool" where
  "user_ok uf \<longleftrightarrow> (\<forall>fn h st p. Option.bind uf (\<lambda>fs. map_of fs fn) = Some (Some h) \<longrightarrow> called_with st p
     \<longrightarrow> good st p (h st p))"

lemma user_ok_None [simp]: "user_ok None"
  by (simp add: user_ok_def)

definition fresh :: "slave \<Rightarrow> slave" where
  "fresh st = st\<lparr>s_responseLength := 0, s_responseFrame := None, s_parseError := MODBUS_FERROR_OK\<rparr>"

text \<open>
  The request a slave acts on: long enough, its checksum right, addressed to this slave or to all.
\<close>

definition accepted :: "slave \<Rightarrow> bytes \<Rightarrow> bool" where
  "accepted st p \<longleftrightarrow> s_requestFrame st = Some p \<and> intact p (s_requestLength st)
     \<and> (p ! 0 = s_address st \<or> p ! 0 = 0)"

lemma parseRequest_cases:
  assumes "wf_slave st"
  shows "parseRequest al builtin uf st =
    (case s_requestFrame st of
       None \<Rightarrow> Some (MODBUS_ERROR_PARSE, fresh st\<lparr>s_parseError := MODBUS_FERROR_LENGTH\<rparr>)
     | Some p \<Rightarrow>
         if s_requestLength st < 4 then
           Some (MODBUS_ERROR_PARSE, fresh st\<lparr>s_parseError := MODBUS_FERROR_LENGTH\<rparr>)
         else if \<not> intact p (s_requestLength st) then
           Some (MODBUS_ERROR_PARSE, fresh st\<lparr>s_parseError := MODBUS_FERROR_CRC\<rparr>)
         else if \<not> accepted st p then Some (MODBUS_ERROR_OK, fresh st)
         else dispatch al builtin uf (fresh st) p)"
proof (cases "s_requestFrame st")
  case None
  then show ?thesis by (simp add: parseRequest_def fresh_def)
next
  case (Some p)
  let ?n = "unat (s_requestLength st)"
  have len: "?n \<le> length p" using assms Some by (simp add: wf_slave_def)
  show ?thesis
  proof (cases "s_requestLength st < 4")
    case True
    with Some show ?thesis by (simp add: parseRequest_def fresh_def)
  next
    case False
    then have n: "4 \<le> ?n" by (simp add: word_less_nat_alt)
    have r3: "rd8 p 0 = Some (p ! 0)" using len n by (intro rd8_in) linarith
    show ?thesis
      using Some False n len
      by (auto simp add: parseRequest_def fresh_def intact_check [OF n len] r3 accepted_def)
  qed
qed

locale request_handlers =
  fixes builtin :: "u8 \<Rightarrow> handler option"
  assumes handler_good: "builtin fn = Some h \<Longrightarrow> called_with st p \<Longrightarrow> good st p (h st p)"
begin

lemma dispatch_good:
  assumes "called_with st p" "user_ok uf"
  shows "good st p (dispatch al builtin uf st p)"
proof -
  have "good st p (case Option.bind uf (\<lambda>fs. map_of fs (p ! Suc 0)) of
       Some (Some h) \<Rightarrow> h st p
     | Some None \<Rightarrow> buildExceptionErr al st (p ! Suc 0) MODBUS_EXCEP_ILLEGAL_FUNCTION MODBUS_FERROR_NULLFUN
     | None \<Rightarrow> (case builtin (p ! Suc 0) of
         Some h \<Rightarrow> h st p
       | None \<Rightarrow> buildExceptionErr al st (p ! Suc 0) MODBUS_EXCEP_ILLEGAL_FUNCTION MODBUS_FERROR_NOFUN))"
    using assms by (auto split: option.splits intro: good_exception handler_good simp: user_ok_def)
  then show ?thesis by (simp add: dispatch_def called_rd8 [OF assms(1)])
qed

lemma accepted_good:
  assumes "wf_slave st" "user_ok uf" "accepted st p"
  shows "good (fresh st) p (parseRequest al builtin uf st)"
proof -
  have "called_with (fresh st) p"
    using assms(1,3) by (simp add: called_with_def fresh_def accepted_def intact_def wf_slave_def)
  then show ?thesis
    using assms dispatch_good by (auto simp: parseRequest_cases accepted_def intact_def word_less_nat_alt)
qed

lemma ignored:
  assumes "wf_slave st" "\<And>p. \<not> accepted st p"
  shows "\<exists>e perr. parseRequest al builtin uf st = Some (e, fresh st\<lparr>s_parseError := perr\<rparr>)"
  using assms by (auto simp: parseRequest_cases accepted_def intact_def word_less_nat_alt fresh_def split: option.split)

text \<open>What every call of the dispatcher leaves, whether or not it acts on the request.\<close>

lemma request_served:
  assumes "wf_slave st" "user_ok uf"
  shows "\<exists>e st'. parseRequest al builtin uf st = Some (e, st') \<and> wf_slave st' \<and> frame_ok st st'
    \<and> protection_ok st st' \<and> reply_ok st' \<and> (e \<noteq> MODBUS_ERROR_OK \<longrightarrow> same_data st st')
    \<and> ((\<forall>p. accepted st p \<longrightarrow> p ! 0 = 0) \<longrightarrow> s_responseLength st' = 0)
    \<and> ((\<forall>p. \<not> accepted st p) \<longrightarrow> same_data st st')"
proof (cases "\<exists>p. accepted st p")
  case True
  then obtain p where p: "accepted st p" ..
  then obtain e st' where "parseRequest al builtin uf st = Some (e, st')" "answers (fresh st) p (e, st')"
    using accepted_good [OF assms] unfolding good_def by (metis surj_pair)
  then show ?thesis using p
    by (intro exI [of _ e] exI [of _ st'])
      (simp add: answers_def fresh_def frame_ok_def protection_ok_def same_data_def, metis)
next
  case False
  then obtain e perr where "parseRequest al builtin uf st = Some (e, fresh st\<lparr>s_parseError := perr\<rparr>)"
    using ignored [OF assms(1)] by blast
  then show ?thesis using assms(1)
    by (auto simp: fresh_def frame_ok_def protection_ok_def same_data_def reply_ok_def wf_slave_def)
qed

end

interpretation slave_handlers: request_handlers "builtin_handler al" for al
  by unfold_locales
    (auto simp: builtin_handler_def good_0102 good_0304 good_05 good_06 good_15 good_16 good_22
      split: if_splits)

section \<open>The slave as a whole\<close>

lemma modbusParseRequest_Some:
  "modbusParseRequest al uf (Some st) = Some (e, Some st') \<longleftrightarrow>
     parseRequest al (builtin_handler al) uf st = Some (e, st')"
  by (auto simp: modbusParseRequest_def guard_status_def)

lemma slave_served:
  assumes "wf_slave st" "user_ok uf"
  shows "\<exists>e st'. modbusParseRequest al uf (Some st) = Some (e, Some st') \<and> wf_slave st' \<and> frame_ok st st'
    \<and> protection_ok st st' \<and> reply_ok st' \<and> (e \<noteq> MODBUS_ERROR_OK \<longrightarrow> same_data st st')
    \<and> ((\<forall>p. accepted st p \<longrightarrow> p ! 0 = 0) \<longrightarrow> s_responseLength st' = 0)
    \<and> ((\<forall>p. \<not> accepted st p) \<longrightarrow> same_data st st')"
  unfolding modbusParseRequest_Some by (rule slave_handlers.request_served [OF assms])

lemma served:
  assumes "wf_slave st" "user_ok uf" "modbusParseRequest al uf (Some st) = Some (e, Some st')"
  shows "protection_ok st st'" "reply_ok st'" "e \<noteq> MODBUS_ERROR_OK \<Longrightarrow> same_data st st'"
    "\<forall>p. accepted st p \<longrightarrow> p ! 0 = 0 \<Longrightarrow> s_responseLength st' = 0"
    "\<forall>p. \<not> accepted st p \<Longrightarrow> same_data st st'"
  using slave_served [OF assms(1,2), of al] assms(3) by auto

lemma slave_returns:
  assumes "wf_slave st"
  obtains e st' where "modbusParseRequest al None (Some st) = Some (e, Some st')"
  using slave_served [OF assms, of None al] by auto

text \<open>A slave to evaluate the properties on: four registers, one of them protected, and eight coils.\<close>

definition demo_slave :: slave where
  "demo_slave = \<lparr>s_address = 17, s_registers = Some [100, 200, 300, 400], s_inputRegisters = Some [7, 8],
     s_registerMask = Some [8], s_registerMaskLength = 1, s_registerCount = 4, s_inputRegisterCount = 2,
     s_coils = Some [0xA5], s_discreteInputs = Some [0x0F], s_coilMask = None, s_coilMaskLength = 0,
     s_coilCount = 8, s_discreteInputCount = 8, s_lastException = MODBUS_EXCEP_ACK,
     s_parseError = MODBUS_FERROR_OK, s_responseFrame = None, s_responseLength = 0,
     s_requestFrame = None, s_requestLength = 0\<rparr>"

lemma demo_address: "s_address demo_slave = 17"
  by (simp add: demo_slave_def)

lemma wf_demo [simp]: "wf_slave demo_slave"
  by (simp add: demo_slave_def wf_slave_def unat_modbusBitsToBytes)

lemma wf_demo_request [simp]:
  "unat len \<le> length fr \<Longrightarrow> wf_slave (demo_slave\<lparr>s_requestFrame := Some fr, s_requestLength := len\<rparr>)"
  by (simp add: demo_slave_def wf_slave_def unat_modbusBitsToBytes)

text \<open>
  C1. Memory safety and preservation. On a well-formed slave the request parser returns, whatever
  bytes the request frame holds and whichever allocations fail: no access leaves its object. The
  slave stays well formed, and its address, its counts, masks, read-only tables and the request are
  untouched. The same holds with user functions that keep the handler contract.
\<close>

theorem slave_request_safe:
  assumes "wf_slave st" "user_ok uf"
  shows "\<exists>e st'. modbusParseRequest al uf (Some st) = Some (e, Some st') \<and> wf_slave st' \<and> frame_ok st st'"
  using slave_served [OF assms] by blast

theorem slave_request_safe_witness:
  "\<exists>e st'. modbusParseRequest (\<lambda>n. n < 10) (Some [(65, Some (parseRequest06 (\<lambda>_. True)))])
      (Some (demo_slave\<lparr>s_requestFrame := Some [17, 65, 0, 1, 2, 3, 4], s_requestLength := 7\<rparr>))
      = Some (e, Some st') \<and> wf_slave st'
    \<and> frame_ok (demo_slave\<lparr>s_requestFrame := Some [17, 65, 0, 1, 2, 3, 4], s_requestLength := 7\<rparr>) st'"
  by (rule slave_request_safe) (auto simp: user_ok_def good_06 split: if_splits)

text \<open>
  C2. Write protection. Whatever request arrives, a register whose bit is set in the register mask and
  a coil whose bit is set in the coil mask keep their values.
\<close>

theorem slave_write_protection:
  assumes "wf_slave st" "user_ok uf" "modbusParseRequest al uf (Some st) = Some (e, Some st')"
  shows "keeps_registers (protected (s_registerMask st) (s_registerMaskLength st))
      (s_registers st) (s_registers st')
    \<and> keeps_coils (protected (s_coilMask st) (s_coilMaskLength st)) (s_coils st) (s_coils st')"
  using served(1) [OF assms] by (simp add: protection_ok_def)


definition demo_request :: slave where
  "demo_request = demo_slave\<lparr>s_requestFrame := Some (seal [17, 6, 0, 3, 1, 2]), s_requestLength := 8\<rparr>"

lemma wf_demo_request' [simp]: "wf_slave demo_request"
  by (simp add: demo_request_def)

theorem slave_write_protection_witness:
  "\<exists>e st'. modbusParseRequest (\<lambda>_. True) None (Some demo_request) = Some (e, Some st')
    \<and> keeps_registers (protected (Some [8]) 1) (Some [100, 200, 300, 400]) (s_registers st')"
proof -
  obtain e st' where r: "modbusParseRequest (\<lambda>_. True) None (Some demo_request) = Some (e, Some st')"
    by (rule slave_returns [OF wf_demo_request'])
  from slave_write_protection [OF wf_demo_request' user_ok_None this] r show ?thesis
    by (auto simp: demo_request_def demo_slave_def)
qed

text \<open>
  C6. All or nothing. A request that is not answered with success, and a request the slave does not
  accept (too short, checksum wrong, another address), change no register and no coil: the multiple
  writes never stop half way.
\<close>

theorem failed_request_changes_nothing:
  assumes "wf_slave st" "user_ok uf" "modbusParseRequest al uf (Some st) = Some (e, Some st')"
    and "e \<noteq> MODBUS_ERROR_OK \<or> (\<forall>p. \<not> accepted st p)"
  shows "s_registers st' = s_registers st \<and> s_coils st' = s_coils st"
  using served(3,5) [OF assms(1-3)] assms(4) by (auto simp: same_data_def)

theorem failed_request_changes_nothing_witness:
  "\<exists>e st'. modbusParseRequest (\<lambda>_. True) None (Some (demo_slave\<lparr>s_requestFrame := Some [18, 6, 0, 0, 1, 2, 3, 4],
      s_requestLength := 3\<rparr>)) = Some (e, Some st') \<and> s_registers st' = Some [100, 200, 300, 400]"
proof -
  let ?d = "demo_slave\<lparr>s_requestFrame := Some [18, 6, 0, 0, 1, 2, 3, 4], s_requestLength := 3\<rparr>"
  obtain e st' where r: "modbusParseRequest (\<lambda>_. True) None (Some ?d) = Some (e, Some st')"
    by (rule slave_returns [of ?d]) simp_all
  have "\<forall>p. \<not> accepted ?d p" by (simp add: accepted_def intact_def)
  moreover have "wf_slave ?d" by simp
  ultimately have "s_registers st' = s_registers ?d \<and> s_coils st' = s_coils ?d"
    using failed_request_changes_nothing [OF _ user_ok_None r] by blast
  with r show ?thesis by (auto simp: demo_slave_def)
qed

text \<open>
  Silence. A request that is broadcast, addressed to another slave, or damaged is never answered:
  the response length is 0 afterwards, whatever the request asked for.
\<close>

theorem unaddressed_request_not_answered:
  assumes "wf_slave st" "user_ok uf" "modbusParseRequest al uf (Some st) = Some (e, Some st')"
    and "\<forall>p. accepted st p \<longrightarrow> p ! 0 = 0"
  shows "s_responseLength st' = 0"
  using served(4) [OF assms] .

theorem unaddressed_request_not_answered_witness:
  "\<exists>e st'. modbusParseRequest (\<lambda>_. True) None (Some (demo_slave\<lparr>s_requestFrame := Some (seal [0, 3, 0, 0, 0, 1]),
      s_requestLength := 8\<rparr>)) = Some (e, Some st') \<and> s_responseLength st' = 0"
proof -
  let ?d = "demo_slave\<lparr>s_requestFrame := Some (seal [0, 3, 0, 0, 0, 1]), s_requestLength := 8\<rparr>"
  obtain e st' where r: "modbusParseRequest (\<lambda>_. True) None (Some ?d) = Some (e, Some st')"
    by (rule slave_returns [of ?d]) simp_all
  have "\<forall>p. accepted ?d p \<longrightarrow> p ! 0 = 0" by (auto simp: accepted_def seal_def)
  with unaddressed_request_not_answered [OF _ _ r] r show ?thesis by auto
qed

text \<open>
  C9. Every response is a valid frame of this slave: when the parser leaves a response, the frame
  starts with the slave's address and ends with the checksum of what precedes it, its length is the
  length field, and so the check at the other end passes.
\<close>

theorem response_is_sealed:
  assumes "wf_slave st" "user_ok uf" "modbusParseRequest al uf (Some st) = Some (e, Some st')"
  shows "s_responseLength st' = 0 \<or>
    (\<exists>body. s_responseFrame st' = Some (seal (s_address st # body))
      \<and> unat (s_responseLength st') = length (seal (s_address st # body)))"
proof -
  have "s_address st' = s_address st"
    using slave_served [OF assms(1,2), of al] assms(3) by (auto simp: frame_ok_def)
  then show ?thesis
    using served(2) [OF assms(1-3)] by (auto simp: reply_ok_def)
qed

theorem response_is_sealed_witness:
  "\<exists>e st'. modbusParseRequest (\<lambda>_. True) None (Some demo_request) = Some (e, Some st')
    \<and> (s_responseLength st' = 0 \<or> (\<exists>body. s_responseFrame st' = Some (seal (17 # body))
        \<and> unat (s_responseLength st') = length (seal (17 # body))))"
proof -
  obtain e st' where r: "modbusParseRequest (\<lambda>_. True) None (Some demo_request) = Some (e, Some st')"
    by (rule slave_returns [OF wf_demo_request'])
  moreover have "s_address demo_request = 17" by (simp add: demo_request_def demo_slave_def)
  ultimately show ?thesis
    using response_is_sealed [of demo_request None _ e st'] by auto
qed

text \<open>
  A damaged request is discarded: when up to two adjacent bytes of the body of a request differ
  from what was sent, the checksum does not match, and all the parser does is report
  \<open>MODBUS_FERROR_CRC\<close> and clear the response.
\<close>

theorem damaged_request_discarded:
  assumes "wf_slave st" "s_requestFrame st = Some (p @ [a', b'] @ s @ be16 (crc16 (p @ [a, b] @ s)))"
    and "unat (s_requestLength st) = length p + length s + 4" "a' \<noteq> a \<or> b' \<noteq> b"
  shows "modbusParseRequest al uf (Some st) = Some (MODBUS_ERROR_PARSE, Some (st\<lparr>s_responseLength := 0,
    s_responseFrame := None, s_parseError := MODBUS_FERROR_CRC\<rparr>))"
proof -
  let ?fr = "p @ [a', b'] @ s @ be16 (crc16 (p @ [a, b] @ s))"
  have "crc16 (p @ [a', b'] @ s) \<noteq> crc16 (p @ [a, b] @ s)"
    using crc16.burst_within [of "[a', b']" "[a, b]" p s "0xFFFF"] assms(4) by (simp add: crc16_def)
  moreover have "be16 v = be16 w \<longleftrightarrow> v = w" for v w
    by (simp add: be16_def bytes_eq_iff)
  ultimately have "\<not> intact ?fr (s_requestLength st)"
    using assms(3) by (simp add: intact_def seal_def)
  moreover have "\<not> s_requestLength st < 4" using assms(3) by (simp add: word_less_nat_alt)
  ultimately show ?thesis
    using assms(2) unfolding modbusParseRequest_Some parseRequest_cases [OF assms(1)]
    by (simp add: fresh_def)
qed

theorem damaged_request_discarded_witness:
  "modbusParseRequest (\<lambda>_. True) None
    (Some (demo_slave\<lparr>s_requestFrame := Some ([17, 6] @ [1, 3] @ [1, 2] @ be16 (crc16 ([17, 6] @ [0, 3] @ [1, 2]))),
      s_requestLength := 8\<rparr>))
   = Some (MODBUS_ERROR_PARSE, Some (demo_slave\<lparr>s_requestFrame :=
        Some ([17, 6] @ [1, 3] @ [1, 2] @ be16 (crc16 ([17, 6] @ [0, 3] @ [1, 2]))),
      s_requestLength := 8, s_responseLength := 0, s_responseFrame := None, s_parseError := MODBUS_FERROR_CRC\<rparr>))"
  using damaged_request_discarded
    [of "demo_slave\<lparr>s_requestFrame := Some ([17, 6] @ [1, 3] @ [1, 2] @ be16 (crc16 ([17, 6] @ [0, 3] @ [1, 2]))),
      s_requestLength := 8\<rparr>" "[17, 6]" 1 3 "[1, 2]" 0 3 "\<lambda>_. True" None]
  by simp


text \<open>
  A function the slave does not have. An accepted request, addressed to this slave, whose function
  code has neither a user handler nor a built-in one is answered by the exception frame: the
  function code with its top bit set, exception code 1, and nothing else changes.
\<close>

theorem unknown_function_exception:
  assumes "wf_slave st" "accepted st p" "p ! 0 = s_address st" "s_address st \<noteq> 0"
    and "builtin_handler al (p ! 1) = None" "al 5"
  shows "modbusParseRequest al None (Some st) = Some (MODBUS_ERROR_EXCEPTION, Some (st\<lparr>
    s_responseFrame := Some (seal [s_address st, push_bit 7 1 OR p ! 1, 1]), s_responseLength := 5,
    s_lastException := MODBUS_EXCEP_ILLEGAL_FUNCTION, s_parseError := MODBUS_FERROR_NOFUN\<rparr>))"
proof -
  have fr: "s_requestFrame st = Some p" "4 \<le> unat (s_requestLength st)" "intact p (s_requestLength st)"
    using assms(2) by (simp_all add: accepted_def intact_def)
  have "unat (s_requestLength st) \<le> length p" using assms(1) fr(1) by (simp add: wf_slave_def)
  then have rd: "rd8 p 0 = Some (p ! 0)" "rd8 p (Suc 0) = Some (p ! Suc 0)"
    using fr(2) by (auto simp: rd8_def)
  have "buildExceptionErr al (fresh st) (p ! 1) MODBUS_EXCEP_ILLEGAL_FUNCTION MODBUS_FERROR_NOFUN
    = Some (MODBUS_ERROR_EXCEPTION, st\<lparr>
    s_responseFrame := Some (seal [s_address st, push_bit 7 1 OR p ! 1, 1]), s_responseLength := 5,
    s_lastException := MODBUS_EXCEP_ILLEGAL_FUNCTION, s_parseError := MODBUS_FERROR_NOFUN\<rparr>)"
    using fr(1) assms(3,4,6) rd
    by (simp add: buildExceptionErr_def buildException_def fresh_def calloc_def replicate_5
        wr8_def wr16_def modbusCRC_in seal_def be16_def)
  then show ?thesis
    using assms(2,5) fr unfolding modbusParseRequest_Some parseRequest_cases [OF assms(1)]
    by (simp add: word_less_nat_alt dispatch_def rd)
qed

theorem unknown_function_exception_witness:
  "modbusParseRequest (\<lambda>n. n < 9) None
     (Some (demo_slave\<lparr>s_requestFrame := Some (seal [17, 43, 14]), s_requestLength := 5\<rparr>))
   = Some (MODBUS_ERROR_EXCEPTION, Some (demo_slave\<lparr>s_requestFrame := Some (seal [17, 43, 14]),
      s_requestLength := 5, s_responseFrame := Some (seal [17, 171, 1]), s_responseLength := 5,
      s_lastException := MODBUS_EXCEP_ILLEGAL_FUNCTION, s_parseError := MODBUS_FERROR_NOFUN\<rparr>))"
proof -
  let ?d = "demo_slave\<lparr>s_requestFrame := Some (seal [17, 43, 14]), s_requestLength := 5\<rparr>"
  have nth: "seal [17, 43, 14] ! 0 = 17" "seal [17, 43, 14] ! 1 = 43" by (simp_all add: seal_def)
  have "accepted ?d (seal [17, 43, 14])"
    by (simp add: accepted_def intact_seal nth demo_slave_def)
  moreover have "builtin_handler (\<lambda>n. n < 9) 43 = None" by (simp add: builtin_handler_def)
  ultimately show ?thesis
    using unknown_function_exception [of ?d "seal [17, 43, 14]" "\<lambda>n. n < 9"] nth demo_address
    by simp
qed

text \<open>
  C5. The decision table of \<open>write multiple registers\<close>: which request is refused with which exception
  and error, in which order the checks bite, and what a request that passes them all does. The
  \<open>9 + len\<close> of the length check is the 8-bit sum of the code: where it wraps, the request is refused
  by one of the two following checks, so that no register is written from outside the frame.
\<close>

theorem write_registers_table:
  assumes "called_with st p"
  shows "modbusParseRequest16 al (Some st) (Some p) = map_option (map_prod id Some)
     (let exc = buildExceptionErr al st 16; i = be_at p 2; n = be_at p 4; len = p ! 6 in
      if s_requestLength st < 7 \<or> s_requestLength st \<noteq> 9 + len then
        exc MODBUS_EXCEP_ILLEGAL_VALUE MODBUS_FERROR_LENGTH
      else if len = 0 \<or> n = 0 \<or> n \<noteq> ucast (drop_bit 1 len) \<or> n > 123 then
        exc MODBUS_EXCEP_ILLEGAL_VALUE MODBUS_FERROR_COUNT
      else case s_registers st of
        None \<Rightarrow> exc MODBUS_EXCEP_ILLEGAL_ADDRESS MODBUS_FERROR_NOSRC
      | Some regs \<Rightarrow>
        if i \<ge> s_registerCount st \<or> unat (s_registerCount st) < unat i + unat n then
          exc MODBUS_EXCEP_ILLEGAL_ADDRESS MODBUS_FERROR_RANGE
        else if \<exists>k<unat n. protected (s_registerMask st) (s_registerMaskLength st) (unat i + k) then
          exc MODBUS_EXCEP_SLAVE_FAILURE MODBUS_FERROR_NOWRITE
        else if \<not> al 8 then alloc_failed st
        else Some (MODBUS_ERROR_OK, echo 6 p (st\<lparr>s_registers :=
          Some (splice regs (unat i) (map (\<lambda>k. be_at p (7 + 2 * k)) [0..<unat n]))\<rparr>)))"
  unfolding modbusParseRequest16_def guard_parser_def prod.case option.case
  by (rule arg_cong [OF parseRequest16_eq [OF assms]])

theorem write_registers_table_witness:
  "modbusParseRequest16 (\<lambda>_. True)
      (Some (demo_slave\<lparr>s_requestFrame := Some [17, 16, 0, 2, 0], s_requestLength := 5\<rparr>)) (Some [17, 16, 0, 2, 0])
   = map_option (map_prod id Some)
      (buildExceptionErr (\<lambda>_. True) (demo_slave\<lparr>s_requestFrame := Some [17, 16, 0, 2, 0], s_requestLength := 5\<rparr>)
        16 MODBUS_EXCEP_ILLEGAL_VALUE MODBUS_FERROR_LENGTH)"
proof -
  have "called_with (demo_slave\<lparr>s_requestFrame := Some [17, 16, 0, 2, 0], s_requestLength := 5\<rparr>) [17, 16, 0, 2, 0]"
    by (simp add: called_with_def) (simp add: demo_slave_def)
  from write_registers_table [OF this, of "\<lambda>_. True"] show ?thesis by simp
qed

end
