(* ===== verification/ModbusMaster.thy ===== *)
theory ModbusMaster
  imports ModbusTypes
begin

text \<open>
  The master (client) end of \<open>fun_protocol/modbus\<close>: the request builders (\<open>master/mbregs.c\<close>,
  \<open>master/mbcoils.c\<close>), the response parsers (\<open>master/mpregs.c\<close>, \<open>master/mpcoils.c\<close>), and
  initialisation and dispatch of \<open>modbus.c\<close>.

  \<open>master\<close> is \<open>struct modbusMaster\<close>. The pointers \<open>data.coils\<close> and \<open>data.regs\<close> always point to
  the same block, which is the field \<open>d_mem\<close>. Both are pointers to bytes (\<open>modbus.h\<close>, lines 325 and
  326): \<open>regs[i]\<close> is the single byte at \<open>i\<close>, so that storing a register there, after the cast to
  \<open>uint16_t *\<close> the parsers make of the block for it, keeps its low byte only. \<open>data.type\<close> is \<^term>\<open>None\<close> for the value 0
  the parser resets it to.
\<close>

section \<open>State\<close>

record mdata =
  d_address :: u8
  d_index :: u16
  d_count :: u16
  d_length :: u8
  d_type :: "ModbusDataType option"
  d_function :: u8
  d_mem :: "bytes option"

record mexception =
  e_address :: u8
  e_function :: u8
  e_code :: u8

record master =
  m_predictedResponseLength :: u8
  m_requestFrame :: "bytes option"
  m_requestLength :: u8
  m_responseFrame :: "bytes option"
  m_responseLength :: u8
  m_data :: mdata
  m_exception :: mexception
  m_parseError :: ModbusFrameError
  m_buildError :: ModbusFrameError

type_synonym master_result = "(ModbusError \<times> master) option"
type_synonym response_parser = "master \<Rightarrow> bytes \<Rightarrow> bytes \<Rightarrow> master_result"

section \<open>Building requests (master/mbregs.c, master/mbcoils.c)\<close>

definition buildRequest0102 :: "(nat \<Rightarrow> bool) \<Rightarrow> master \<Rightarrow> u8 \<Rightarrow> u8 \<Rightarrow> u16 \<Rightarrow> u16 \<Rightarrow> master_result" where
  "buildRequest0102 al m fn addr index count =
     (if fn \<noteq> 1 \<and> fn \<noteq> 2 then Some (MODBUS_ERROR_BUILD, m\<lparr>m_buildError := MODBUS_FERROR_BADFUN\<rparr>)
      else if addr = 0 then Some (MODBUS_ERROR_BUILD, m\<lparr>m_buildError := MODBUS_FERROR_BROADCAST\<rparr>)
      else
        let m1 = m\<lparr>m_requestLength := 0, m_predictedResponseLength := 0\<rparr> in
        if count = 0 \<or> count > 2000 then
          Some (MODBUS_ERROR_BUILD, m1\<lparr>m_buildError := MODBUS_FERROR_COUNT\<rparr>)
        else case calloc al 8 of
          None \<Rightarrow> Some (MODBUS_ERROR_ALLOC, m1\<lparr>m_requestFrame := None\<rparr>)
        | Some fr0 \<Rightarrow> do {
            fr1 \<leftarrow> wr8 fr0 0 addr;
            fr2 \<leftarrow> wr8 fr1 1 fn;
            fr3 \<leftarrow> wr16 fr2 2 (modbusMatchEndian index);
            fr4 \<leftarrow> wr16 fr3 4 (modbusMatchEndian count);
            crc \<leftarrow> modbusCRC (Some fr4) 6;
            fr5 \<leftarrow> wr16 fr4 6 crc;
            Some (MODBUS_ERROR_OK, m1\<lparr>m_requestFrame := Some fr5, m_requestLength := 8,
              m_predictedResponseLength := 4 + 1 + ucast (modbusBitsToBytes count),
              m_buildError := MODBUS_FERROR_OK\<rparr>)
          })"

definition buildRequest05 :: "(nat \<Rightarrow> bool) \<Rightarrow> master \<Rightarrow> u8 \<Rightarrow> u16 \<Rightarrow> u16 \<Rightarrow> master_result" where
  "buildRequest05 al m addr index val0 = (
     let m1 = m\<lparr>m_requestLength := 0, m_predictedResponseLength := 0\<rparr> in
     case calloc al 8 of
       None \<Rightarrow> Some (MODBUS_ERROR_ALLOC, m1\<lparr>m_requestFrame := None\<rparr>)
     | Some fr0 \<Rightarrow> do {
         let val = (if val0 \<noteq> 0 then 0xFF00 else 0x0000);
         fr1 \<leftarrow> wr8 fr0 0 addr;
         fr2 \<leftarrow> wr8 fr1 1 5;
         fr3 \<leftarrow> wr16 fr2 2 (modbusMatchEndian index);
         fr4 \<leftarrow> wr16 fr3 4 (modbusMatchEndian val);
         crc \<leftarrow> modbusCRC (Some fr4) 6;
         fr5 \<leftarrow> wr16 fr4 6 crc;
         Some (MODBUS_ERROR_OK, m1\<lparr>m_requestFrame := Some fr5, m_requestLength := 8,
           m_predictedResponseLength := (if addr \<noteq> 0 then 8 else 0),
           m_buildError := MODBUS_FERROR_OK\<rparr>)
       })"

definition buildRequest15 :: "(nat \<Rightarrow> bool) \<Rightarrow> master \<Rightarrow> u8 \<Rightarrow> u16 \<Rightarrow> u16 \<Rightarrow> bytes \<Rightarrow> master_result" where
  "buildRequest15 al m addr index count vals = (
     let frameLength = 9 + ucast (modbusBitsToBytes count) :: u8;
         m1 = m\<lparr>m_requestLength := 0, m_predictedResponseLength := 0\<rparr> in
     if count = 0 \<or> count > 1968 then
       Some (MODBUS_ERROR_BUILD, m1\<lparr>m_buildError := MODBUS_FERROR_COUNT\<rparr>)
     else case calloc al (unat frameLength) of
       None \<Rightarrow> Some (MODBUS_ERROR_ALLOC, m1\<lparr>m_requestFrame := None\<rparr>)
     | Some fr0 \<Rightarrow> do {
         fr1 \<leftarrow> wr8 fr0 0 addr;
         fr2 \<leftarrow> wr8 fr1 1 15;
         fr3 \<leftarrow> wr16 fr2 2 (modbusMatchEndian index);
         fr4 \<leftarrow> wr16 fr3 4 (modbusMatchEndian count);
         fr5 \<leftarrow> wr8 fr4 6 (ucast (modbusBitsToBytes count));
         len \<leftarrow> rd8 fr5 6;
         fr6 \<leftarrow> for_each (\<lambda>i fr. do { v \<leftarrow> rd8 vals i; wr8 fr (7 + i) v }) [0..<unat len] fr5;
         crc \<leftarrow> modbusCRC (Some fr6) (ucast frameLength - 2);
         fr7 \<leftarrow> wr16 fr6 (unat frameLength - 2) crc;
         Some (MODBUS_ERROR_OK, m1\<lparr>m_requestFrame := Some fr7, m_requestLength := frameLength,
           m_predictedResponseLength := (if addr \<noteq> 0 then 4 + 4 else 0),
           m_buildError := MODBUS_FERROR_OK\<rparr>)
       })"

definition buildRequest0304 :: "(nat \<Rightarrow> bool) \<Rightarrow> master \<Rightarrow> u8 \<Rightarrow> u8 \<Rightarrow> u16 \<Rightarrow> u16 \<Rightarrow> master_result" where
  "buildRequest0304 al m fn addr index count =
     (if fn \<noteq> 3 \<and> fn \<noteq> 4 then Some (MODBUS_ERROR_BUILD, m\<lparr>m_buildError := MODBUS_FERROR_BADFUN\<rparr>)
      else if addr = 0 then Some (MODBUS_ERROR_BUILD, m\<lparr>m_buildError := MODBUS_FERROR_BROADCAST\<rparr>)
      else
        let m1 = m\<lparr>m_requestLength := 0, m_predictedResponseLength := 0\<rparr> in
        if count = 0 \<or> count > 125 then
          Some (MODBUS_ERROR_BUILD, m1\<lparr>m_buildError := MODBUS_FERROR_COUNT\<rparr>)
        else case calloc al 8 of
          None \<Rightarrow> Some (MODBUS_ERROR_ALLOC, m1\<lparr>m_requestFrame := None\<rparr>)
        | Some fr0 \<Rightarrow> do {
            fr1 \<leftarrow> wr8 fr0 0 addr;
            fr2 \<leftarrow> wr8 fr1 1 fn;
            fr3 \<leftarrow> wr16 fr2 2 (modbusMatchEndian index);
            fr4 \<leftarrow> wr16 fr3 4 (modbusMatchEndian count);
            crc \<leftarrow> modbusCRC (Some fr4) 6;
            fr5 \<leftarrow> wr16 fr4 6 crc;
            Some (MODBUS_ERROR_OK, m1\<lparr>m_requestFrame := Some fr5, m_requestLength := 8,
              m_predictedResponseLength := 4 + 1 + ucast (push_bit 1 count),
              m_buildError := MODBUS_FERROR_OK\<rparr>)
          })"

definition buildRequest06 :: "(nat \<Rightarrow> bool) \<Rightarrow> master \<Rightarrow> u8 \<Rightarrow> u16 \<Rightarrow> u16 \<Rightarrow> master_result" where
  "buildRequest06 al m addr index val = (
     let m1 = m\<lparr>m_requestLength := 0, m_predictedResponseLength := 0\<rparr> in
     case calloc al 8 of
       None \<Rightarrow> Some (MODBUS_ERROR_ALLOC, m1\<lparr>m_requestFrame := None\<rparr>)
     | Some fr0 \<Rightarrow> do {
         fr1 \<leftarrow> wr8 fr0 0 addr;
         fr2 \<leftarrow> wr8 fr1 1 6;
         fr3 \<leftarrow> wr16 fr2 2 (modbusMatchEndian index);
         fr4 \<leftarrow> wr16 fr3 4 (modbusMatchEndian val);
         crc \<leftarrow> modbusCRC (Some fr4) 6;
         fr5 \<leftarrow> wr16 fr4 6 crc;
         Some (MODBUS_ERROR_OK, m1\<lparr>m_requestFrame := Some fr5, m_requestLength := 8,
           m_predictedResponseLength := (if addr \<noteq> 0 then 8 else 0),
           m_buildError := MODBUS_FERROR_OK\<rparr>)
       })"

definition buildRequest16 :: "(nat \<Rightarrow> bool) \<Rightarrow> master \<Rightarrow> u8 \<Rightarrow> u16 \<Rightarrow> u16 \<Rightarrow> u16 list \<Rightarrow> master_result" where
  "buildRequest16 al m addr index count vals = (
     let frameLength = 9 + ucast (push_bit 1 count) :: u8;
         m1 = m\<lparr>m_requestLength := 0, m_predictedResponseLength := 0\<rparr> in
     if count = 0 \<or> count > 123 then
       Some (MODBUS_ERROR_BUILD, m1\<lparr>m_buildError := MODBUS_FERROR_COUNT\<rparr>)
     else case calloc al (unat frameLength) of
       None \<Rightarrow> Some (MODBUS_ERROR_ALLOC, m1\<lparr>m_requestFrame := None\<rparr>)
     | Some fr0 \<Rightarrow> do {
         fr1 \<leftarrow> wr8 fr0 0 addr;
         fr2 \<leftarrow> wr8 fr1 1 16;
         fr3 \<leftarrow> wr16 fr2 2 (modbusMatchEndian index);
         fr4 \<leftarrow> wr16 fr3 4 (modbusMatchEndian count);
         fr5 \<leftarrow> wr8 fr4 6 (ucast (push_bit 1 count));
         fr6 \<leftarrow> for_each (\<lambda>i fr. do { v \<leftarrow> rd8 vals i; wr16 fr (7 + 2 * i) (modbusMatchEndian v) })
                  [0..<unat count] fr5;
         crc \<leftarrow> modbusCRC (Some fr6) (ucast frameLength - 2);
         fr7 \<leftarrow> wr16 fr6 (7 + 2 * unat count) crc;
         Some (MODBUS_ERROR_OK, m1\<lparr>m_requestFrame := Some fr7, m_requestLength := frameLength,
           m_predictedResponseLength := (if addr \<noteq> 0 then 4 + 4 else 0),
           m_buildError := MODBUS_FERROR_OK\<rparr>)
       })"

definition buildRequest22 :: "(nat \<Rightarrow> bool) \<Rightarrow> master \<Rightarrow> u8 \<Rightarrow> u16 \<Rightarrow> u16 \<Rightarrow> u16 \<Rightarrow> master_result" where
  "buildRequest22 al m addr index andmask ormask = (
     let m1 = m\<lparr>m_requestLength := 0, m_predictedResponseLength := 0\<rparr> in
     case calloc al 10 of
       None \<Rightarrow> Some (MODBUS_ERROR_ALLOC, m1\<lparr>m_requestFrame := None\<rparr>)
     | Some fr0 \<Rightarrow> do {
         fr1 \<leftarrow> wr8 fr0 0 addr;
         fr2 \<leftarrow> wr8 fr1 1 22;
         fr3 \<leftarrow> wr16 fr2 2 (modbusMatchEndian index);
         fr4 \<leftarrow> wr16 fr3 4 (modbusMatchEndian andmask);
         fr5 \<leftarrow> wr16 fr4 6 (modbusMatchEndian ormask);
         crc \<leftarrow> modbusCRC (Some fr5) 8;
         fr6 \<leftarrow> wr16 fr5 8 crc;
         Some (MODBUS_ERROR_OK, m1\<lparr>m_requestFrame := Some fr6, m_requestLength := 10,
           m_predictedResponseLength := (if addr \<noteq> 0 then 10 else 0),
           m_buildError := MODBUS_FERROR_OK\<rparr>)
       })"

section \<open>Parsing responses (master/mpregs.c, master/mpcoils.c)\<close>

abbreviation reject :: "master \<Rightarrow> ModbusFrameError \<Rightarrow> master_result" where
  "reject m e \<equiv> Some (MODBUS_ERROR_PARSE, m\<lparr>m_parseError := e\<rparr>)"

definition parseResponse0102 :: "(nat \<Rightarrow> bool) \<Rightarrow> response_parser" where
  "parseResponse0102 al m p q = do {
     fn \<leftarrow> rd8 p 1;
     if fn \<noteq> 1 \<and> fn \<noteq> 2 then reject m MODBUS_FERROR_BADFUN
     else do {
       len \<leftarrow> rd8 p 2;
       if unat (m_responseLength m) \<noteq> 5 + unat len \<or> m_requestLength m \<noteq> 8 then
         reject m MODBUS_FERROR_LENGTH
       else do {
         count \<leftarrow> map_option modbusMatchEndian (rd16 q 4);
         addr \<leftarrow> rd8 p 0;
         qaddr \<leftarrow> rd8 q 0;
         qfn \<leftarrow> rd8 q 1;
         if addr = 0 then reject m MODBUS_FERROR_BROADCAST
         else if addr \<noteq> qaddr then reject m MODBUS_FERROR_MISM_ADDR
         else if fn \<noteq> qfn then reject m MODBUS_FERROR_MISM_FUN
         else if len = 0 \<or> len > 250 \<or> ucast len \<noteq> modbusBitsToBytes count then
           reject m MODBUS_FERROR_LENGTH
         else case calloc al (unat (modbusBitsToBytes count)) of
           None \<Rightarrow> Some (MODBUS_ERROR_ALLOC, m\<lparr>m_data := (m_data m)\<lparr>d_mem := None\<rparr>\<rparr>)
         | Some mem0 \<Rightarrow> do {
             vals \<leftarrow> rd_bytes p 3 (unat len);
             mem1 \<leftarrow> wr_bytes mem0 0 vals;
             index \<leftarrow> map_option modbusMatchEndian (rd16 q 2);
             Some (MODBUS_ERROR_OK, m\<lparr>m_data := \<lparr>d_address = addr, d_index = index, d_count = count,
               d_length = len,
               d_type = Some (if fn = 1 then MODBUS_COIL else MODBUS_DISCRETE_INPUT),
               d_function = fn, d_mem = Some mem1\<rparr>, m_parseError := MODBUS_FERROR_OK\<rparr>)
           }
       }
     }
   }"

definition parseResponse05 :: "(nat \<Rightarrow> bool) \<Rightarrow> response_parser" where
  "parseResponse05 al m p q =
     (if m_responseLength m \<noteq> 8 \<or> m_requestLength m \<noteq> 8 then reject m MODBUS_FERROR_LENGTH
      else do {
        addr \<leftarrow> rd8 p 0;
        qaddr \<leftarrow> rd8 q 0;
        fn \<leftarrow> rd8 p 1;
        qfn \<leftarrow> rd8 q 1;
        rawIndex \<leftarrow> rd16 p 2;
        qIndex \<leftarrow> rd16 q 2;
        rawValue \<leftarrow> rd16 p 4;
        qValue \<leftarrow> rd16 q 4;
        if addr = 0 then reject m MODBUS_FERROR_BROADCAST
        else if addr \<noteq> qaddr then reject m MODBUS_FERROR_MISM_ADDR
        else if fn \<noteq> qfn then reject m MODBUS_FERROR_MISM_FUN
        else if rawIndex \<noteq> qIndex then reject m MODBUS_FERROR_MISM_INDEX
        else if rawValue \<noteq> qValue then reject m MODBUS_FERROR_MISM_VALUE
        else case calloc al 1 of
          None \<Rightarrow> Some (MODBUS_ERROR_ALLOC, m\<lparr>m_data := (m_data m)\<lparr>d_mem := None\<rparr>\<rparr>)
        | Some mem0 \<Rightarrow> do {
            mem1 \<leftarrow> wr8 mem0 0 (if rawValue \<noteq> 0 then 1 else 0);
            Some (MODBUS_ERROR_OK, m\<lparr>m_data := \<lparr>d_address = addr,
              d_index = modbusMatchEndian qIndex, d_count = 1, d_length = 1,
              d_type = Some MODBUS_COIL, d_function = 5, d_mem = Some mem1\<rparr>,
              m_parseError := MODBUS_FERROR_OK\<rparr>)
          }
      })"

definition parseResponse15 :: "response_parser" where
  "parseResponse15 m p q =
     (if m_requestLength m < 7 then reject m MODBUS_FERROR_LENGTH
      else do {
        qlen \<leftarrow> rd8 q 6;
        if unat (m_requestLength m) \<noteq> 9 + unat qlen \<or> m_responseLength m \<noteq> 8 then
          reject m MODBUS_FERROR_LENGTH
        else do {
          addr \<leftarrow> rd8 p 0;
          qaddr \<leftarrow> rd8 q 0;
          fn \<leftarrow> rd8 p 1;
          qfn \<leftarrow> rd8 q 1;
          rawIndex \<leftarrow> rd16 p 2;
          qIndex \<leftarrow> rd16 q 2;
          rawCount \<leftarrow> rd16 p 4;
          qCount \<leftarrow> rd16 q 4;
          if addr = 0 then reject m MODBUS_FERROR_BROADCAST
          else if addr \<noteq> qaddr then reject m MODBUS_FERROR_MISM_ADDR
          else if fn \<noteq> qfn then reject m MODBUS_FERROR_MISM_FUN
          else if rawIndex \<noteq> qIndex then reject m MODBUS_FERROR_MISM_INDEX
          else if rawCount \<noteq> qCount then reject m MODBUS_FERROR_MISM_COUNT
          else if modbusMatchEndian rawCount > 1968 then reject m MODBUS_FERROR_COUNT
          else Some (MODBUS_ERROR_OK, m\<lparr>m_data := (m_data m)\<lparr>d_address := addr, d_function := 15,
            d_type := Some MODBUS_COIL, d_index := modbusMatchEndian rawIndex,
            d_count := modbusMatchEndian rawCount, d_length := 0\<rparr>,
            m_parseError := MODBUS_FERROR_OK\<rparr>)
        }
      })"

definition parseResponse0304 :: "(nat \<Rightarrow> bool) \<Rightarrow> response_parser" where
  "parseResponse0304 al m p q = do {
     fn \<leftarrow> rd8 p 1;
     if fn \<noteq> 3 \<and> fn \<noteq> 4 then reject m MODBUS_FERROR_BADFUN
     else do {
       len \<leftarrow> rd8 p 2;
       if unat (m_responseLength m) \<noteq> 5 + unat len \<or> m_requestLength m \<noteq> 8 then
         reject m MODBUS_FERROR_LENGTH
       else do {
         count \<leftarrow> map_option modbusMatchEndian (rd16 q 4);
         addr \<leftarrow> rd8 p 0;
         qaddr \<leftarrow> rd8 q 0;
         qfn \<leftarrow> rd8 q 1;
         if addr = 0 then reject m MODBUS_FERROR_BROADCAST
         else if addr \<noteq> qaddr then reject m MODBUS_FERROR_MISM_ADDR
         else if fn \<noteq> qfn then reject m MODBUS_FERROR_MISM_FUN
         else if len = 0 \<or> unat len \<noteq> 2 * unat count \<or> len > 250 then
           reject m MODBUS_FERROR_LENGTH
         else case calloc al (2 * (unat len div 2)) of
           None \<Rightarrow> Some (MODBUS_ERROR_ALLOC, m\<lparr>m_data := (m_data m)\<lparr>d_mem := None\<rparr>\<rparr>)
         | Some mem0 \<Rightarrow> do {
             mem1 \<leftarrow> for_each (\<lambda>i mem. do { v \<leftarrow> rd16 p (3 + 2 * i); wr8 mem i (lo8 (modbusMatchEndian v)) })
                       [0..<unat count] mem0;
             index \<leftarrow> map_option modbusMatchEndian (rd16 q 2);
             Some (MODBUS_ERROR_OK, m\<lparr>m_data := \<lparr>d_address = addr, d_index = index, d_count = count,
               d_length = len,
               d_type = Some (if fn = 3 then MODBUS_HOLDING_REGISTER else MODBUS_INPUT_REGISTER),
               d_function = fn, d_mem = Some mem1\<rparr>, m_parseError := MODBUS_FERROR_OK\<rparr>)
           }
       }
     }
   }"

definition parseResponse06 :: "(nat \<Rightarrow> bool) \<Rightarrow> response_parser" where
  "parseResponse06 al m p q =
     (if m_responseLength m \<noteq> 8 \<or> m_requestLength m \<noteq> 8 then reject m MODBUS_FERROR_LENGTH
      else do {
        addr \<leftarrow> rd8 p 0;
        qaddr \<leftarrow> rd8 q 0;
        fn \<leftarrow> rd8 p 1;
        qfn \<leftarrow> rd8 q 1;
        rawIndex \<leftarrow> rd16 p 2;
        qIndex \<leftarrow> rd16 q 2;
        rawValue \<leftarrow> rd16 p 4;
        qValue \<leftarrow> rd16 q 4;
        if addr = 0 then reject m MODBUS_FERROR_BROADCAST
        else if addr \<noteq> qaddr then reject m MODBUS_FERROR_MISM_ADDR
        else if fn \<noteq> qfn then reject m MODBUS_FERROR_MISM_FUN
        else if rawIndex \<noteq> qIndex then reject m MODBUS_FERROR_MISM_INDEX
        else if rawValue \<noteq> qValue then reject m MODBUS_FERROR_MISM_VALUE
        else case calloc al 2 of
          None \<Rightarrow> Some (MODBUS_ERROR_ALLOC, m\<lparr>m_data := (m_data m)\<lparr>d_mem := None\<rparr>\<rparr>)
        | Some mem0 \<Rightarrow> do {
            mem1 \<leftarrow> wr8 mem0 0 (lo8 (modbusMatchEndian rawValue));
            Some (MODBUS_ERROR_OK, m\<lparr>m_data := \<lparr>d_address = addr,
              d_index = modbusMatchEndian rawIndex, d_count = 1, d_length = 2,
              d_type = Some MODBUS_HOLDING_REGISTER, d_function = 6, d_mem = Some mem1\<rparr>,
              m_parseError := MODBUS_FERROR_OK\<rparr>)
          }
      })"

definition parseResponse16 :: "response_parser" where
  "parseResponse16 m p q =
     (if m_requestLength m < 7 then reject m MODBUS_FERROR_LENGTH
      else do {
        qlen \<leftarrow> rd8 q 6;
        if unat (m_requestLength m) \<noteq> 9 + unat qlen \<or> m_responseLength m \<noteq> 8 then
          reject m MODBUS_FERROR_LENGTH
        else do {
          addr \<leftarrow> rd8 p 0;
          qaddr \<leftarrow> rd8 q 0;
          fn \<leftarrow> rd8 p 1;
          qfn \<leftarrow> rd8 q 1;
          rawIndex \<leftarrow> rd16 p 2;
          qIndex \<leftarrow> rd16 q 2;
          rawCount \<leftarrow> rd16 p 4;
          qCount \<leftarrow> rd16 q 4;
          if addr = 0 then reject m MODBUS_FERROR_BROADCAST
          else if addr \<noteq> qaddr then reject m MODBUS_FERROR_MISM_ADDR
          else if fn \<noteq> qfn then reject m MODBUS_FERROR_MISM_FUN
          else if rawIndex \<noteq> qIndex then reject m MODBUS_FERROR_MISM_INDEX
          else if rawCount \<noteq> qCount then reject m MODBUS_FERROR_MISM_COUNT
          else if modbusMatchEndian rawCount > 123 then reject m MODBUS_FERROR_COUNT
          else Some (MODBUS_ERROR_OK, m\<lparr>m_data := (m_data m)\<lparr>d_address := addr, d_function := 16,
            d_type := Some MODBUS_HOLDING_REGISTER, d_index := modbusMatchEndian rawIndex,
            d_count := modbusMatchEndian rawCount, d_length := 0\<rparr>,
            m_parseError := MODBUS_FERROR_OK\<rparr>)
        }
      })"

definition parseResponse22 :: "response_parser" where
  "parseResponse22 m p q =
     (if m_responseLength m \<noteq> 10 \<or> m_requestLength m \<noteq> 10 then reject m MODBUS_FERROR_LENGTH
      else do {
        addr \<leftarrow> rd8 p 0;
        qaddr \<leftarrow> rd8 q 0;
        fn \<leftarrow> rd8 p 1;
        qfn \<leftarrow> rd8 q 1;
        rawIndex \<leftarrow> rd16 p 2;
        qIndex \<leftarrow> rd16 q 2;
        rawAnd \<leftarrow> rd16 p 4;
        qAnd \<leftarrow> rd16 q 4;
        rawOr \<leftarrow> rd16 p 6;
        qOr \<leftarrow> rd16 q 6;
        if addr = 0 then reject m MODBUS_FERROR_BROADCAST
        else if addr \<noteq> qaddr then reject m MODBUS_FERROR_MISM_ADDR
        else if fn \<noteq> qfn then reject m MODBUS_FERROR_MISM_FUN
        else if rawIndex \<noteq> qIndex then reject m MODBUS_FERROR_MISM_INDEX
        else if rawAnd \<noteq> qAnd \<or> rawOr \<noteq> qOr then reject m MODBUS_FERROR_MISM_MASK
        else Some (MODBUS_ERROR_OK, m\<lparr>m_data := (m_data m)\<lparr>d_address := addr, d_function := 22,
          d_type := Some MODBUS_HOLDING_REGISTER, d_index := modbusMatchEndian rawIndex,
          d_count := 1, d_length := 0\<rparr>, m_parseError := MODBUS_FERROR_OK\<rparr>)
      })"

section \<open>Exceptions, dispatch, initialisation (modbus.c)\<close>

definition parseException :: "master \<Rightarrow> bytes \<Rightarrow> master_result" where
  "parseException m p = do {
     addr \<leftarrow> rd8 p 0;
     fn \<leftarrow> rd8 p 1;
     code \<leftarrow> rd8 p 2;
     Some (MODBUS_ERROR_EXCEPTION,
       m\<lparr>m_exception := \<lparr>e_address = addr, e_function = fn, e_code = code\<rparr>\<rparr>)
   }"

definition builtin_parser :: "(nat \<Rightarrow> bool) \<Rightarrow> u8 \<Rightarrow> response_parser option" where
  "builtin_parser al fn =
     (if fn = 1 \<or> fn = 2 then Some (parseResponse0102 al)
      else if fn = 3 \<or> fn = 4 then Some (parseResponse0304 al)
      else if fn = 5 then Some (parseResponse05 al)
      else if fn = 6 then Some (parseResponse06 al)
      else if fn = 15 then Some parseResponse15
      else if fn = 16 then Some parseResponse16
      else if fn = 22 then Some parseResponse22
      else None)"

text \<open>What the parser clears before it looks at the frames.\<close>

definition reset_outputs :: "master \<Rightarrow> master" where
  "reset_outputs m = m\<lparr>
     m_exception := \<lparr>e_address = 0, e_function = 0, e_code = 0\<rparr>,
     m_data := \<lparr>d_address = 0, d_index = 0, d_count = 0, d_length = 0, d_type = None,
       d_function = 0, d_mem = None\<rparr>\<rparr>"

definition parseResponse ::
  "(u8 \<Rightarrow> response_parser option) \<Rightarrow> (u8 \<times> response_parser option) list option
     \<Rightarrow> master \<Rightarrow> master_result" where
  "parseResponse builtin uf m0 = (
     let m = reset_outputs m0 in
     case (m_responseFrame m, m_requestFrame m) of
       (Some p, Some q) \<Rightarrow>
         if m_responseLength m < 4 \<or> m_requestLength m < 4 then reject m MODBUS_FERROR_LENGTH
         else do {
           crcresp \<leftarrow> rd16 p (unat (m_responseLength m) - 2);
           crcreq \<leftarrow> rd16 q (unat (m_requestLength m) - 2);
           crcresp' \<leftarrow> modbusCRC (Some p) (ucast (m_responseLength m) - 2);
           crcreq' \<leftarrow> modbusCRC (Some q) (ucast (m_requestLength m) - 2);
           if crcresp \<noteq> crcresp' \<or> crcreq \<noteq> crcreq' then reject m MODBUS_FERROR_CRC
           else do {
             let m1 = m\<lparr>m_parseError := MODBUS_FERROR_OK\<rparr>;
             fn \<leftarrow> rd8 p 1;
             case Option.bind uf (\<lambda>fs. map_of fs fn) of
               Some (Some h) \<Rightarrow> h m1 p q
             | Some None \<Rightarrow> reject m1 MODBUS_FERROR_NULLFUN
             | None \<Rightarrow>
                 if fn AND 128 \<noteq> 0 \<and> m_responseLength m1 = 5 then parseException m1 p
                 else (case builtin fn of
                     Some h \<Rightarrow> h m1 p q
                   | None \<Rightarrow> reject m1 MODBUS_FERROR_NOFUN)
           }
         }
     | _ \<Rightarrow> reject m MODBUS_FERROR_LENGTH)"

definition masterInit :: "master \<Rightarrow> master_result" where
  "masterInit m = Some (MODBUS_ERROR_OK, m\<lparr>
     m_requestFrame := None, m_requestLength := 0, m_responseFrame := None, m_responseLength := 0,
     m_data := (m_data m)\<lparr>d_mem := None, d_length := 0, d_count := 0, d_index := 0,
       d_type := None, d_address := 0\<rparr>,
     m_exception := \<lparr>e_address = 0, e_function = 0, e_code = 0\<rparr>\<rparr>)"

definition masterEnd :: "master \<Rightarrow> master_result" where
  "masterEnd m = Some (MODBUS_ERROR_OK,
     m\<lparr>m_requestFrame := None, m_data := (m_data m)\<lparr>d_mem := None\<rparr>\<rparr>)"

section \<open>The entry points, with their pointer tests\<close>

definition both :: "bytes option \<Rightarrow> bytes option \<Rightarrow> (bytes \<times> bytes) option" where
  "both parser requestParser = do { p \<leftarrow> parser; q \<leftarrow> requestParser; Some (p, q) }"

definition modbusBuildRequest0102 where
  "modbusBuildRequest0102 al status fn addr index count =
     guard_status (\<lambda>m. buildRequest0102 al m fn addr index count) status"

definition modbusBuildRequest05 where
  "modbusBuildRequest05 al status addr index val =
     guard_status (\<lambda>m. buildRequest05 al m addr index val) status"

definition modbusBuildRequest15 where
  "modbusBuildRequest15 al status addr index count vals =
     guard_parser (\<lambda>m vs. buildRequest15 al m addr index count vs) status vals"

definition modbusBuildRequest0304 where
  "modbusBuildRequest0304 al status fn addr index count =
     guard_status (\<lambda>m. buildRequest0304 al m fn addr index count) status"

definition modbusBuildRequest06 where
  "modbusBuildRequest06 al status addr index val =
     guard_status (\<lambda>m. buildRequest06 al m addr index val) status"

definition modbusBuildRequest16 where
  "modbusBuildRequest16 al status addr index count vals =
     guard_parser (\<lambda>m vs. buildRequest16 al m addr index count vs) status vals"

definition modbusBuildRequest22 where
  "modbusBuildRequest22 al status addr index andmask ormask =
     guard_status (\<lambda>m. buildRequest22 al m addr index andmask ormask) status"

definition modbusParseResponse0102 where
  "modbusParseResponse0102 al status parser requestParser =
     guard_parser (\<lambda>m (p, q). parseResponse0102 al m p q) status (both parser requestParser)"

definition modbusParseResponse05 where
  "modbusParseResponse05 al status parser requestParser =
     guard_parser (\<lambda>m (p, q). parseResponse05 al m p q) status (both parser requestParser)"

definition modbusParseResponse15 where
  "modbusParseResponse15 status parser requestParser =
     guard_parser (\<lambda>m (p, q). parseResponse15 m p q) status (both parser requestParser)"

definition modbusParseResponse0304 where
  "modbusParseResponse0304 al status parser requestParser =
     guard_parser (\<lambda>m (p, q). parseResponse0304 al m p q) status (both parser requestParser)"

definition modbusParseResponse06 where
  "modbusParseResponse06 al status parser requestParser =
     guard_parser (\<lambda>m (p, q). parseResponse06 al m p q) status (both parser requestParser)"

definition modbusParseResponse16 where
  "modbusParseResponse16 status parser requestParser =
     guard_parser (\<lambda>m (p, q). parseResponse16 m p q) status (both parser requestParser)"

definition modbusParseResponse22 where
  "modbusParseResponse22 status parser requestParser =
     guard_parser (\<lambda>m (p, q). parseResponse22 m p q) status (both parser requestParser)"

definition modbusParseException where
  "modbusParseException status parser = guard_parser parseException status parser"

definition modbusParseResponse where
  "modbusParseResponse al uf status = guard_status (parseResponse (builtin_parser al) uf) status"

definition modbusMasterInit where
  "modbusMasterInit status = guard_status masterInit status"

definition modbusMasterEnd where
  "modbusMasterEnd status = guard_status masterEnd status"

end
