(* ===== verification/ModbusMasterFacts.thy ===== *)
theory ModbusMasterFacts
  imports ModbusMaster
begin

text \<open>
  The master as a whole: the frames the builders make, in closed form; the contract of a response
  parser, kept by each of the seven; the locale \<open>response_parsers\<close>, which lifts it to the dispatcher for
  any table of parsers and is interpreted on the \<open>switch\<close> of the code.
\<close>

section \<open>The requests that are built\<close>

definition sent :: "bytes \<Rightarrow> u8 \<Rightarrow> u8 \<Rightarrow> master \<Rightarrow> master" where
  "sent fr len pred m = m\<lparr>m_requestFrame := Some fr, m_requestLength := len,
     m_predictedResponseLength := pred, m_buildError := MODBUS_FERROR_OK\<rparr>"

definition build_failed :: "master \<Rightarrow> ModbusError \<Rightarrow> ModbusFrameError \<Rightarrow> master_result" where
  "build_failed m e ferr =
     Some (e, m\<lparr>m_requestLength := 0, m_predictedResponseLength := 0, m_buildError := ferr\<rparr>)"

definition no_memory :: "master \<Rightarrow> master_result" where
  "no_memory m = Some (MODBUS_ERROR_ALLOC,
     m\<lparr>m_requestLength := 0, m_predictedResponseLength := 0, m_requestFrame := None\<rparr>)"

definition request8 :: "u8 \<Rightarrow> u8 \<Rightarrow> u16 \<Rightarrow> u16 \<Rightarrow> bytes" where
  "request8 addr fn a b = seal ([addr, fn] @ be16 a @ be16 b)"

lemma length_request8 [simp]: "length (request8 addr fn a b) = 8"
  by (simp add: request8_def)

lemma lo8_match [simp]: "lo8 (modbusMatchEndian v) = hi8 v"
  and hi8_match [simp]: "hi8 (modbusMatchEndian v) = lo8 v"
  by (simp_all add: modbusMatchEndian_def)

lemmas build_simps = mem_simps calloc_def no_memory_def build_failed_def sent_def modbusCRC_in request8_def
  seal_def be16_def Let_def

lemma buildRequest06_eq:
  "buildRequest06 al m addr index val =
    (if \<not> al 8 then no_memory m
     else Some (MODBUS_ERROR_OK, sent (request8 addr 6 index val) 8 (if addr \<noteq> 0 then 8 else 0) m))"
  by (simp add: buildRequest06_def build_simps replicate_8)

lemma buildRequest05_eq:
  "buildRequest05 al m addr index val =
    (if \<not> al 8 then no_memory m
     else Some (MODBUS_ERROR_OK, sent (request8 addr 5 index (if val \<noteq> 0 then 0xFF00 else 0)) 8
       (if addr \<noteq> 0 then 8 else 0) m))"
  by (simp add: buildRequest05_def build_simps replicate_8)

lemma buildRequest0304_eq:
  assumes "fn = 3 \<or> fn = 4" "addr \<noteq> 0"
  shows "buildRequest0304 al m fn addr index count =
    (if count = 0 \<or> count > 125 then build_failed m MODBUS_ERROR_BUILD MODBUS_FERROR_COUNT
     else if \<not> al 8 then no_memory m
     else Some (MODBUS_ERROR_OK, sent (request8 addr fn index count) 8 (5 + ucast (push_bit 1 count)) m))"
  using assms by (auto simp add: buildRequest0304_def build_simps replicate_8)

lemma buildRequest0102_eq:
  assumes "fn = 1 \<or> fn = 2" "addr \<noteq> 0"
  shows "buildRequest0102 al m fn addr index count =
    (if count = 0 \<or> count > 2000 then build_failed m MODBUS_ERROR_BUILD MODBUS_FERROR_COUNT
     else if \<not> al 8 then no_memory m
     else Some (MODBUS_ERROR_OK, sent (request8 addr fn index count) 8
       (5 + ucast (modbusBitsToBytes count)) m))"
  using assms by (auto simp add: buildRequest0102_def build_simps replicate_8)

lemma buildRequest22_eq:
  "buildRequest22 al m addr index andmask ormask =
    (if \<not> al 10 then no_memory m
     else Some (MODBUS_ERROR_OK, sent (seal ([addr, 22] @ be16 index @ be16 andmask @ be16 ormask)) 10
       (if addr \<noteq> 0 then 10 else 0) m))"
  by (simp add: buildRequest22_def build_simps replicate_10)


lemma replicate_add_9: "replicate (9 + n) x = [x, x, x, x, x, x, x] @ replicate n x @ [x, x]"
  by (induction n) (simp_all add: numeral_eq_Suc replicate_append_same)

lemma for_each_values16:
  assumes "n \<le> length vals" "length hdr = 7" "length fill = 2 * n"
  shows "for_each (\<lambda>i fr. do { v \<leftarrow> rd8 vals i; wr16 fr (7 + 2 * i) (modbusMatchEndian v) }) [0..<n]
      (hdr @ fill @ tl2)
    = Some (hdr @ concat (map be16 (take n vals)) @ tl2)"
proof -
  have "for_each (\<lambda>i fr. do { v \<leftarrow> rd8 vals i; wr16 fr (7 + 2 * i) (modbusMatchEndian v) }) [0..<n] fr
    = for_each (\<lambda>i fr. wr16 fr (7 + 2 * i) (modbusMatchEndian (vals ! i))) [0..<n] fr" for fr
    using assms(1) by (intro for_each_cong) (simp add: rd8_in)
  moreover have "map (\<lambda>i. be16 (vals ! i)) [0..<n] = map be16 (take n vals)"
    using assms(1) by (intro nth_equalityI) simp_all
  ultimately show ?thesis
    using assms(2,3) for_each_wr16 [of 7 n "hdr @ fill @ tl2" "\<lambda>i. modbusMatchEndian (vals ! i)"]
    by (simp add: modbusMatchEndian_def)
qed

lemma for_each_values15:
  assumes "n \<le> length vals" "length hdr = 7" "length fill = n"
  shows "for_each (\<lambda>i fr. do { v \<leftarrow> rd8 vals i; wr8 fr (7 + i) v }) [0..<n] (hdr @ fill @ tl2)
    = Some (hdr @ take n vals @ tl2)"
proof -
  have "for_each (\<lambda>i fr. do { v \<leftarrow> rd8 vals i; wr8 fr (7 + i) v }) [0..<n] (hdr @ fill @ tl2)
    = Some (splice (hdr @ fill @ tl2) 7 (map (\<lambda>k. vals ! k) [0..<n]))"
    using assms for_each_store [of 7 n "hdr @ fill @ tl2" "rd8 vals" "\<lambda>k. vals ! k" id]
    by (simp add: rd8_in)
  moreover have "map (\<lambda>k. vals ! k) [0..<n] = take n vals"
    using assms(1) by (intro nth_equalityI) simp_all
  ultimately show ?thesis using assms by (simp add: splice_def)
qed

definition request16 :: "u8 \<Rightarrow> u16 \<Rightarrow> u16 list \<Rightarrow> bytes" where
  "request16 addr index vals = seal ([addr, 16] @ be16 index @ be16 (word_of_nat (length vals))
     @ [word_of_nat (2 * length vals)] @ concat (map be16 vals))"

definition request15 :: "u8 \<Rightarrow> u16 \<Rightarrow> u16 \<Rightarrow> bytes \<Rightarrow> bytes" where
  "request15 addr index count vals = seal ([addr, 15] @ be16 index @ be16 count
     @ [ucast (modbusBitsToBytes count)] @ vals)"

text \<open>Writing the seven bytes of a header.\<close>

lemma header_simps:
  "wr8 (x0 # xs) 0 a = Some (a # xs)"
  "wr8 (x0 # x1 # xs) (Suc 0) a = Some (x0 # a # xs)"
  "wr16 (x0 # x1 # x2 # x3 # bs) 2 v = Some (x0 # x1 # lo8 v # hi8 v # bs)"
  "wr16 (x0 # x1 # x2 # x3 # x4 # x5 # bs) 4 v = Some (x0 # x1 # x2 # x3 # lo8 v # hi8 v # bs)"
  "wr8 (x0 # x1 # x2 # x3 # x4 # x5 # x6 # xs) 6 a = Some (x0 # x1 # x2 # x3 # x4 # x5 # a # xs)"
  "rd8 (x0 # x1 # x2 # x3 # x4 # x5 # x6 # xs) 6 = Some x6"
  by (simp_all add: wr8_def wr16_def rd8_def)

lemma buildRequest16_eq:
  assumes "unat count \<le> length vals"
  shows "buildRequest16 al m addr index count vals =
    (if count = 0 \<or> count > 123 then build_failed m MODBUS_ERROR_BUILD MODBUS_FERROR_COUNT
     else if \<not> al (9 + 2 * unat count) then no_memory m
     else Some (MODBUS_ERROR_OK, sent (request16 addr index (take (unat count) vals))
       (9 + ucast (push_bit 1 count)) (if addr \<noteq> 0 then 8 else 0) m))"
proof (cases "count = 0 \<or> count > 123")
  case True
  then show ?thesis by (auto simp: buildRequest16_def build_failed_def Let_def)
next
  case False
  then have n: "unat count \<le> 123" by (simp add: le_123)
  define l :: u8 where "l = ucast (push_bit 1 count)"
  have fl: "unat (9 + l) = 9 + 2 * unat count"
    unfolding l_def using n by (rule unat_frame_16)
  let ?hdr = "[addr, 16] @ be16 index @ be16 count @ [l]"
  define vs where "vs = concat (map be16 (take (unat count) vals))"
  have len: "length vs = 2 * unat count" using assms by (simp add: vs_def)
  have loop: "for_each (\<lambda>i fr. do { v \<leftarrow> rd8 vals i; wr16 fr (7 + 2 * i) (modbusMatchEndian v) })
      [0..<unat count] (?hdr @ replicate (2 * unat count) 0 @ [0, 0]) = Some (?hdr @ vs @ [0, 0])"
    unfolding vs_def using assms by (intro for_each_values16) simp_all
  have crc: "modbusCRC (Some (?hdr @ vs @ [0, 0])) (ucast (9 + l) - 2)
      = Some (modbusSwapEndian (crc16 (?hdr @ vs)))"
    using crc_of_body [of "9 + l" "?hdr @ vs" 0 0] fl len by simp
  have store: "wr16 (?hdr @ vs @ [0, 0]) (7 + 2 * unat count) (modbusSwapEndian (crc16 (?hdr @ vs)))
      = Some (seal (?hdr @ vs))"
    using store_after_body [of "7 + 2 * unat count" "?hdr @ vs" 0 0] len by simp
  have "word_of_nat (2 * unat count) = l"
    using unat_small_u8 [of "2 * unat count"] unat_byte_count [of count] n
    unfolding l_def by (simp only: word_unat_eq_iff)
  then have req: "request16 addr index (take (unat count) vals) = seal (?hdr @ vs)"
    using assms by (simp add: request16_def vs_def min_absorb2)
  note steps = loop crc store
  show ?thesis
    unfolding buildRequest16_def l_def [symmetric] req
    using False fl replicate_add_9 [of "2 * unat count" "0::u8"]
    by (simp add: calloc_def Let_def sent_def no_memory_def header_simps
        steps [unfolded be16_def append_Cons append_Nil] be16_def)
qed

lemma buildRequest15_eq:
  assumes "unat (modbusBitsToBytes count) \<le> length vals"
  shows "buildRequest15 al m addr index count vals =
    (let nb = unat (modbusBitsToBytes count) in
     if count = 0 \<or> count > 1968 then build_failed m MODBUS_ERROR_BUILD MODBUS_FERROR_COUNT
     else if \<not> al (9 + nb) then no_memory m
     else Some (MODBUS_ERROR_OK, sent (request15 addr index count (take nb vals))
       (9 + ucast (modbusBitsToBytes count)) (if addr \<noteq> 0 then 8 else 0) m))"
proof (cases "count = 0 \<or> count > 1968")
  case True
  then show ?thesis by (auto simp: buildRequest15_def build_failed_def Let_def)
next
  case False
  then have n: "unat count \<le> 1968" by (simp add: le_1968)
  define l :: u8 where "l = ucast (modbusBitsToBytes count)"
  define nb where "nb = unat (modbusBitsToBytes count)"
  have fl: "unat (9 + l) = 9 + nb" "unat l = nb"
    unfolding l_def nb_def unat_modbusBitsToBytes using n
    by (simp_all only: unat_frame_15 unat_bits_count)
  let ?hdr = "[addr, 15] @ be16 index @ be16 count @ [l]"
  let ?vs = "take nb vals"
  have len: "length ?vs = nb" using assms by (simp add: nb_def)
  have loop: "for_each (\<lambda>i fr. do { v \<leftarrow> rd8 vals i; wr8 fr (7 + i) v })
      [0..<nb] (?hdr @ replicate nb 0 @ [0, 0]) = Some (?hdr @ ?vs @ [0, 0])"
    using assms by (intro for_each_values15) (simp_all add: nb_def)
  have crc: "modbusCRC (Some (?hdr @ ?vs @ [0, 0])) (ucast (9 + l) - 2)
      = Some (modbusSwapEndian (crc16 (?hdr @ ?vs)))"
    using crc_of_body [of "9 + l" "?hdr @ ?vs" 0 0] fl len by simp
  have store: "wr16 (?hdr @ ?vs @ [0, 0]) (7 + nb) (modbusSwapEndian (crc16 (?hdr @ ?vs)))
      = Some (seal (?hdr @ ?vs))"
    using store_after_body [of "7 + nb" "?hdr @ ?vs" 0 0] len by simp
  have req: "request15 addr index count (take nb vals) = seal (?hdr @ ?vs)"
    by (simp add: request15_def l_def)
  note steps = loop crc store
  show ?thesis
    unfolding buildRequest15_def l_def [symmetric] nb_def [symmetric] req Let_def
    using False fl replicate_add_9 [of nb "0::u8"]
    by (simp add: calloc_def Let_def sent_def no_memory_def header_simps
        steps [unfolded be16_def append_Cons append_Nil] be16_def)
qed

section \<open>The contract of a response parser\<close>

definition frames_kept :: "master \<Rightarrow> master \<Rightarrow> bool" where
  "frames_kept m m' \<longleftrightarrow>
     m_requestFrame m' = m_requestFrame m \<and> m_requestLength m' = m_requestLength m
   \<and> m_responseFrame m' = m_responseFrame m \<and> m_responseLength m' = m_responseLength m
   \<and> m_predictedResponseLength m' = m_predictedResponseLength m \<and> m_buildError m' = m_buildError m"

text \<open>
  What the caller may rely on after \<open>MODBUS_ERROR_OK\<close>: the response answers the request, and where
  the parser hands out a block, it is as long as the number of elements it announces.
\<close>

definition data_bytes :: "u8 \<Rightarrow> u16 \<Rightarrow> nat" where
  "data_bytes fn count = (if fn = 3 \<or> fn = 4 \<or> fn = 6 then 2 * unat count
     else unat (modbusBitsToBytes count))"

definition matched :: "bytes \<Rightarrow> bytes \<Rightarrow> mdata \<Rightarrow> bool" where
  "matched p q d \<longleftrightarrow> p ! 0 \<noteq> 0 \<and> p ! 0 = q ! 0 \<and> p ! 1 = q ! 1
     \<and> d_address d = q ! 0 \<and> d_index d = be_at q 2
     \<and> (case d_mem d of None \<Rightarrow> True | Some mem \<Rightarrow> length mem = data_bytes (d_function d) (d_count d))"

definition parsing :: "master \<Rightarrow> bytes \<Rightarrow> bytes \<Rightarrow> bool" where
  "parsing m p q \<longleftrightarrow> m_responseFrame m = Some p \<and> m_requestFrame m = Some q
     \<and> 4 \<le> unat (m_responseLength m) \<and> unat (m_responseLength m) \<le> length p
     \<and> 4 \<le> unat (m_requestLength m) \<and> unat (m_requestLength m) \<le> length q
     \<and> d_mem (m_data m) = None"

definition mgood :: "master \<Rightarrow> bytes \<Rightarrow> bytes \<Rightarrow> master_result \<Rightarrow> bool" where
  "mgood m p q x \<longleftrightarrow> (\<exists>e m'. x = Some (e, m') \<and> frames_kept m m'
     \<and> (e = MODBUS_ERROR_OK \<longrightarrow> matched p q (m_data m'))
     \<and> (e \<noteq> MODBUS_ERROR_OK \<longrightarrow> m_data m' = m_data m))"

lemma mgood_if: "(c \<Longrightarrow> mgood m p q a) \<Longrightarrow> (\<not> c \<Longrightarrow> mgood m p q b) \<Longrightarrow> mgood m p q (if c then a else b)"
  by simp

lemma mgood_calloc:
  "mgood m p q a \<Longrightarrow> mgood m p q (f (replicate n 0)) \<Longrightarrow>
     mgood m p q (case calloc al n of None \<Rightarrow> a | Some fr \<Rightarrow> f fr)"
  by (simp add: calloc_def)

lemma mgood_rd:
  "i < length b \<Longrightarrow> mgood m p q (f (b ! i)) \<Longrightarrow> mgood m p q (Option.bind (rd8 b i) f)"
  "Suc i < length b \<Longrightarrow> mgood m p q (g (mk16 (b ! Suc i) (b ! i))) \<Longrightarrow> mgood m p q (Option.bind (rd16 b i) g)"
  "Suc i < length b \<Longrightarrow> mgood m p q (g (be_at b i)) \<Longrightarrow>
     mgood m p q (Option.bind (map_option modbusMatchEndian (rd16 b i)) g)"
  by (simp_all add: rd8_def rd16_def be_at_def)

lemma mgood_reject: "mgood m p q (reject m e)"
  by (simp add: mgood_def frames_kept_def)

lemma mgood_alloc:
  "parsing m p q \<Longrightarrow> mgood m p q (Some (MODBUS_ERROR_ALLOC, m\<lparr>m_data := (m_data m)\<lparr>d_mem := None\<rparr>\<rparr>))"
  by (simp add: mgood_def frames_kept_def parsing_def)

lemma mgood_done:
  "matched p q d \<Longrightarrow> mgood m p q (Some (MODBUS_ERROR_OK, m\<lparr>m_data := d, m_parseError := perr\<rparr>))"
  by (simp add: mgood_def frames_kept_def)

lemmas mgood_rules = mgood_if mgood_calloc mgood_rd mgood_reject mgood_alloc

lemma mgood_wr:
  "i < length b \<Longrightarrow> mgood m p q (f (b[i := v])) \<Longrightarrow> mgood m p q (Option.bind (wr8 b i v) f)"
  "Suc i < length b \<Longrightarrow> mgood m p q (f (b[i := lo8 w, Suc i := hi8 w])) \<Longrightarrow>
     mgood m p q (Option.bind (wr16 b i w) f)"
  by (simp_all add: wr8_def wr16_def)

lemma values_from_response:
  assumes "3 + 2 * n \<le> length p" "length mem = 2 * n"
  shows "for_each (\<lambda>i mem. do { v \<leftarrow> rd16 p (3 + 2 * i); wr8 mem i (hi8 v) })
      [0..<n] mem = Some (map (\<lambda>i. lo8 (be_at p (3 + 2 * i))) [0..<n] @ drop n mem)"
  using for_each_store [of 0 n mem "\<lambda>i. rd16 p (3 + 2 * i)"
      "\<lambda>i. mk16 (p ! Suc (3 + 2 * i)) (p ! (3 + 2 * i))" hi8] assms
  by (simp add: rd16_def be_at_def splice_def)

lemma mgood_values:
  assumes "3 + 2 * n \<le> length p" "length mem = 2 * n"
    and "mgood m p q (g (map (\<lambda>i. lo8 (be_at p (3 + 2 * i))) [0..<n] @ drop n mem))"
  shows "mgood m p q (Option.bind (for_each (\<lambda>i mem. do { v \<leftarrow> rd16 p (3 + 2 * i);
      wr8 mem i (lo8 (modbusMatchEndian v)) }) [0..<n] mem) g)"
  using assms by (simp add: values_from_response)

lemma mgood_bytes:
  "i + n \<le> length b \<Longrightarrow> mgood m p q (g (take n (drop i b))) \<Longrightarrow> mgood m p q (Option.bind (rd_bytes b i n) g)"
  "length vs \<le> length b \<Longrightarrow> mgood m p q (g (vs @ drop (length vs) b)) \<Longrightarrow>
     mgood m p q (Option.bind (wr_bytes b 0 vs) g)"
  by (simp_all add: rd_bytes_def wr_bytes_def)

lemma parsing_long: "parsing m p q \<Longrightarrow> 4 \<le> length p \<and> 4 \<le> length q"
  by (auto simp: parsing_def)

lemmas mgood_steps = mgood_rules mgood_wr mgood_values mgood_bytes mgood_done

lemma byte_count_match:
  "ucast (len::u8) = modbusBitsToBytes n \<Longrightarrow> unat len = (unat n + 7) div 8"
  by (metis unat_modbusBitsToBytes unat_ucast_16)

lemma long_nonempty: "4 \<le> length p \<Longrightarrow> p \<noteq> []"
  by auto

lemma mgood_06: "parsing m p q \<Longrightarrow> mgood m p q (parseResponse06 al m p q)"
  unfolding parseResponse06_def Let_def
  using parsing_long [of m p q]
  by (intro mgood_steps)
    (auto simp: parsing_def matched_def data_bytes_def be_at_def word_less_nat_alt
      unat_modbusBitsToBytes long_nonempty)

lemma mgood_05: "parsing m p q \<Longrightarrow> mgood m p q (parseResponse05 al m p q)"
  unfolding parseResponse05_def Let_def
  using parsing_long [of m p q]
  by (intro mgood_steps)
    (auto simp: parsing_def matched_def data_bytes_def be_at_def word_less_nat_alt
      unat_modbusBitsToBytes long_nonempty)

lemma mgood_22: "parsing m p q \<Longrightarrow> mgood m p q (parseResponse22 m p q)"
  unfolding parseResponse22_def Let_def
  using parsing_long [of m p q]
  by (intro mgood_steps)
    (auto simp: parsing_def matched_def data_bytes_def be_at_def word_less_nat_alt
      unat_modbusBitsToBytes long_nonempty)

lemma mgood_16: "parsing m p q \<Longrightarrow> mgood m p q (parseResponse16 m p q)"
  unfolding parseResponse16_def Let_def
  using parsing_long [of m p q]
  by (intro mgood_steps)
    (auto simp: parsing_def matched_def data_bytes_def be_at_def word_less_nat_alt
      unat_modbusBitsToBytes long_nonempty)

lemma mgood_15: "parsing m p q \<Longrightarrow> mgood m p q (parseResponse15 m p q)"
  unfolding parseResponse15_def Let_def
  using parsing_long [of m p q]
  by (intro mgood_steps)
    (auto simp: parsing_def matched_def data_bytes_def be_at_def word_less_nat_alt
      unat_modbusBitsToBytes long_nonempty)

lemma mgood_0304: "parsing m p q \<Longrightarrow> mgood m p q (parseResponse0304 al m p q)"
  unfolding parseResponse0304_def Let_def
  using parsing_long [of m p q]
  by (intro mgood_steps)
    (auto simp: parsing_def matched_def data_bytes_def be_at_def word_less_nat_alt
      unat_modbusBitsToBytes long_nonempty)

lemma mgood_0102: "parsing m p q \<Longrightarrow> mgood m p q (parseResponse0102 al m p q)"
  unfolding parseResponse0102_def Let_def
  using parsing_long [of m p q]
  by (intro mgood_steps)
    (auto simp: parsing_def matched_def data_bytes_def be_at_def word_less_nat_alt
      unat_modbusBitsToBytes long_nonempty dest!: byte_count_match)


section \<open>The dispatcher of the responses\<close>

definition wf_master :: "master \<Rightarrow> bool" where
  "wf_master m \<longleftrightarrow> buf_ok (m_requestFrame m) (unat (m_requestLength m))
     \<and> buf_ok (m_responseFrame m) (unat (m_responseLength m))"

definition user_parsers_ok :: "(u8 \<times> response_parser option) list option \<Rightarrow> bool" where
  "user_parsers_ok uf \<longleftrightarrow> (\<forall>fn h m p q. Option.bind uf (\<lambda>fs. map_of fs fn) = Some (Some h) \<longrightarrow>
     parsing m p q \<longrightarrow> mgood m p q (h m p q))"

lemma user_parsers_ok_None [simp]: "user_parsers_ok None"
  by (simp add: user_parsers_ok_def)

text \<open>Both frames the parser compares: long enough and with their checksums right.\<close>

definition comparable :: "master \<Rightarrow> bytes \<Rightarrow> bytes \<Rightarrow> bool" where
  "comparable m p q \<longleftrightarrow> m_responseFrame m = Some p \<and> m_requestFrame m = Some q
     \<and> intact p (m_responseLength m) \<and> intact q (m_requestLength m)"


lemma reset_outputs_fields [simp]:
  "m_responseFrame (reset_outputs m) = m_responseFrame m"
  "m_requestFrame (reset_outputs m) = m_requestFrame m"
  "m_responseLength (reset_outputs m) = m_responseLength m"
  "m_requestLength (reset_outputs m) = m_requestLength m"
  "m_predictedResponseLength (reset_outputs m) = m_predictedResponseLength m"
  "m_buildError (reset_outputs m) = m_buildError m"
  "d_mem (m_data (reset_outputs m)) = None"
  by (simp_all add: reset_outputs_def)

lemma parseResponse_cases:
  assumes "wf_master m"
  shows "parseResponse builtin uf m = (let m0 = reset_outputs m; m1 = m0\<lparr>m_parseError := MODBUS_FERROR_OK\<rparr> in
    case (m_responseFrame m, m_requestFrame m) of
      (Some p, Some q) \<Rightarrow>
        if unat (m_responseLength m) < 4 \<or> unat (m_requestLength m) < 4 then reject m0 MODBUS_FERROR_LENGTH
        else if \<not> comparable m p q then reject m0 MODBUS_FERROR_CRC
        else (case Option.bind uf (\<lambda>fs. map_of fs (p ! 1)) of
            Some (Some h) \<Rightarrow> h m1 p q
          | Some None \<Rightarrow> reject m1 MODBUS_FERROR_NULLFUN
          | None \<Rightarrow>
              if p ! 1 AND 128 \<noteq> 0 \<and> m_responseLength m = 5 then
                Some (MODBUS_ERROR_EXCEPTION,
                  m1\<lparr>m_exception := \<lparr>e_address = p ! 0, e_function = p ! 1, e_code = p ! 2\<rparr>\<rparr>)
              else (case builtin (p ! 1) of Some h \<Rightarrow> h m1 p q | None \<Rightarrow> reject m1 MODBUS_FERROR_NOFUN))
    | _ \<Rightarrow> reject m0 MODBUS_FERROR_LENGTH)"
proof (cases "\<exists>p q. m_responseFrame m = Some p \<and> m_requestFrame m = Some q")
  case False
  then show ?thesis
    by (auto simp: parseResponse_def Let_def split: option.splits)
next
  case True
  then obtain p q where fr: "m_responseFrame m = Some p" "m_requestFrame m = Some q" by blast
  show ?thesis
  proof (cases "4 \<le> unat (m_responseLength m) \<and> 4 \<le> unat (m_requestLength m)")
    case False
    then show ?thesis using fr
      by (auto simp: parseResponse_def Let_def word_less_nat_alt)
  next
    case len: True
    have l: "unat (m_responseLength m) \<le> length p" "unat (m_requestLength m) \<le> length q"
      using assms fr by (simp_all add: wf_master_def)
    have rd: "rd8 p 0 = Some (p ! 0)" "rd8 p (Suc 0) = Some (p ! Suc 0)" "rd8 p 2 = Some (p ! 2)"
      using len l by (auto simp: rd8_def)
    show ?thesis
      using len fr l
      by (simp add: parseResponse_def Let_def word_less_nat_alt rd
          intact_check [OF _ l(1)] intact_check [OF _ l(2)] comparable_def parseException_def
          cong: option.case_cong)
  qed
qed

locale response_parsers =
  fixes builtin :: "u8 \<Rightarrow> response_parser option"
  assumes parser_good: "builtin fn = Some h \<Longrightarrow> parsing m p q \<Longrightarrow> mgood m p q (h m p q)"
begin

lemma selected_good:
  assumes "parsing m p q" "user_parsers_ok uf"
  shows "mgood m p q (case Option.bind uf (\<lambda>fs. map_of fs (p ! 1)) of
      Some (Some h) \<Rightarrow> h m p q
    | Some None \<Rightarrow> reject m MODBUS_FERROR_NULLFUN
    | None \<Rightarrow>
        if p ! 1 AND 128 \<noteq> 0 \<and> (len::u8) = 5 then Some (MODBUS_ERROR_EXCEPTION, m\<lparr>m_exception := x\<rparr>)
        else (case builtin (p ! 1) of Some h \<Rightarrow> h m p q | None \<Rightarrow> reject m MODBUS_FERROR_NOFUN))"
proof -
  have "mgood m p q (Some (MODBUS_ERROR_EXCEPTION, m\<lparr>m_exception := x\<rparr>))"
    by (simp add: mgood_def frames_kept_def)
  with assms show ?thesis
    by (auto simp del: One_nat_def simp: user_parsers_ok_def intro: mgood_reject parser_good
        split: option.splits)
qed

lemma response_parsed:
  assumes "wf_master m" "user_parsers_ok uf"
  shows "\<exists>e m'. parseResponse builtin uf m = Some (e, m') \<and> frames_kept m m' \<and> wf_master m'
    \<and> (e = MODBUS_ERROR_OK \<longrightarrow> (\<exists>p q. comparable m p q \<and> matched p q (m_data m')))
    \<and> (e \<noteq> MODBUS_ERROR_OK \<longrightarrow> m_data m' = m_data (reset_outputs m))"
proof (cases "\<exists>p q. comparable m p q")
  case True
  then obtain p q where pq: "comparable m p q" by blast
  let ?m1 = "(reset_outputs m)\<lparr>m_parseError := MODBUS_FERROR_OK\<rparr>"
  have "parsing ?m1 p q"
    using assms(1) pq by (simp add: parsing_def comparable_def intact_def wf_master_def)
  from selected_good [OF this assms(2), where len = "m_responseLength m"
      and x = "\<lparr>e_address = p ! 0, e_function = p ! 1, e_code = p ! 2\<rparr>"]
  have "mgood ?m1 p q (parseResponse builtin uf m)"
    using assms(1) pq
    by (simp add: parseResponse_cases comparable_def Let_def intact_def del: One_nat_def)
  then obtain e m' where r: "parseResponse builtin uf m = Some (e, m')" "frames_kept ?m1 m'"
    "e = MODBUS_ERROR_OK \<longrightarrow> matched p q (m_data m')"
    "e \<noteq> MODBUS_ERROR_OK \<longrightarrow> m_data m' = m_data ?m1"
    unfolding mgood_def by blast
  from r(2) have kept: "frames_kept m m'" by (simp add: frames_kept_def)
  then have "wf_master m'" using assms(1) by (simp add: frames_kept_def wf_master_def)
  moreover have "m_data ?m1 = m_data (reset_outputs m)" by simp
  ultimately show ?thesis using pq r kept by metis
next
  case False
  then have "\<exists>perr. parseResponse builtin uf m = reject (reset_outputs m) perr"
    using assms(1)
    by (cases "m_responseFrame m"; cases "m_requestFrame m") (auto simp: parseResponse_cases Let_def)
  then obtain perr where "parseResponse builtin uf m = reject (reset_outputs m) perr" ..
  moreover have "wf_master ((reset_outputs m)\<lparr>m_parseError := perr\<rparr>)"
    using assms(1) by (simp add: wf_master_def)
  ultimately show ?thesis
    by (intro exI [of _ MODBUS_ERROR_PARSE] exI [of _ "(reset_outputs m)\<lparr>m_parseError := perr\<rparr>"])
      (simp add: frames_kept_def)
qed

end

interpretation master_parsers: response_parsers "builtin_parser al" for al
  by unfold_locales
    (auto simp: builtin_parser_def mgood_0102 mgood_0304 mgood_05 mgood_06 mgood_15 mgood_16 mgood_22
      split: if_splits)

section \<open>The master as a whole\<close>

lemma modbusParseResponse_Some:
  "modbusParseResponse al uf (Some m) = Some (e, Some m') \<longleftrightarrow>
     parseResponse (builtin_parser al) uf m = Some (e, m')"
  by (auto simp: modbusParseResponse_def guard_status_def)

lemma master_parsed:
  assumes "wf_master m" "user_parsers_ok uf"
  shows "\<exists>e m'. modbusParseResponse al uf (Some m) = Some (e, Some m') \<and> frames_kept m m' \<and> wf_master m'
    \<and> (e = MODBUS_ERROR_OK \<longrightarrow> (\<exists>p q. comparable m p q \<and> matched p q (m_data m')))
    \<and> (e \<noteq> MODBUS_ERROR_OK \<longrightarrow> m_data m' = m_data (reset_outputs m))"
  unfolding modbusParseResponse_Some by (rule master_parsers.response_parsed [OF assms])

definition demo_master :: master where
  "demo_master = \<lparr>m_predictedResponseLength = 0, m_requestFrame = None, m_requestLength = 0,
     m_responseFrame = None, m_responseLength = 0,
     m_data = \<lparr>d_address = 0, d_index = 0, d_count = 0, d_length = 0, d_type = None, d_function = 0,
       d_mem = None\<rparr>,
     m_exception = \<lparr>e_address = 0, e_function = 0, e_code = 0\<rparr>,
     m_parseError = MODBUS_FERROR_OK, m_buildError = MODBUS_FERROR_OK\<rparr>"

text \<open>
  C7. Memory safety of the response parser. Whatever bytes the two frames of a well-formed master hold
  and whichever allocations fail, the parser returns without leaving an object; it changes neither
  frame, and unless it reports success it hands out no data: the data fields are the cleared ones.
\<close>

theorem master_response_safe:
  assumes "wf_master m" "user_parsers_ok uf"
  shows "\<exists>e m'. modbusParseResponse al uf (Some m) = Some (e, Some m') \<and> frames_kept m m' \<and> wf_master m'
    \<and> (e \<noteq> MODBUS_ERROR_OK \<longrightarrow> m_data m' = m_data (reset_outputs m))"
  using master_parsed [OF assms] by blast

theorem master_response_safe_witness:
  "\<exists>e m'. modbusParseResponse (\<lambda>_. True) None
      (Some (demo_master\<lparr>m_responseFrame := Some [1, 3, 255, 4, 5], m_responseLength := 5,
        m_requestFrame := Some [1, 3, 0, 0], m_requestLength := 4\<rparr>)) = Some (e, Some m')"
  using master_response_safe [of "demo_master\<lparr>m_responseFrame := Some [1, 3, 255, 4, 5], m_responseLength := 5,
        m_requestFrame := Some [1, 3, 0, 0], m_requestLength := 4\<rparr>" None "\<lambda>_. True"]
  by (auto simp: wf_master_def)


end
