(* ===== verification/ModbusLink.thy ===== *)
theory ModbusLink
  imports ModbusServer ModbusMasterFacts
begin

text \<open>
  Master and slave connected: \<open>exchange\<close> builds a request with the master, delivers the frame to the
  slave, and gives the answer back to the master's parser. For each function there is the answer of
  the slave, what the parser makes of it, and the exchange as a whole.
\<close>

section \<open>The wire\<close>

definition deliver :: "master \<Rightarrow> slave \<Rightarrow> slave" where
  "deliver m st = st\<lparr>s_requestFrame := m_requestFrame m, s_requestLength := m_requestLength m\<rparr>"

definition receive :: "slave \<Rightarrow> master \<Rightarrow> master" where
  "receive st m = m\<lparr>m_responseFrame := s_responseFrame st, m_responseLength := s_responseLength st\<rparr>"

definition exchange ::
  "(nat \<Rightarrow> bool) \<Rightarrow> (master \<Rightarrow> master_result) \<Rightarrow> master \<Rightarrow> slave
     \<Rightarrow> ((ModbusError \<times> ModbusError \<times> ModbusError) \<times> master \<times> slave) option" where
  "exchange al build m st = do {
     (e1, m1) \<leftarrow> build m;
     (e2, st1) \<leftarrow> parseRequest al (builtin_handler al) None (deliver m1 st);
     (e3, m2) \<leftarrow> parseResponse (builtin_parser al) None (receive st1 m1);
     Some ((e1, e2, e3), m2, st1) }"

lemma exchange_result:
  "build m = Some (e1, m1) \<Longrightarrow>
   parseRequest al (builtin_handler al) None (deliver m1 st) = Some (e2, st1) \<Longrightarrow>
   parseResponse (builtin_parser al) None (receive st1 m1) = Some (e3, m2) \<Longrightarrow>
   exchange al build m st = Some ((e1, e2, e3), m2, st1)"
  by (simp add: exchange_def)

definition called :: "bytes \<Rightarrow> u8 \<Rightarrow> slave \<Rightarrow> slave" where
  "called fr len st = st\<lparr>s_requestFrame := Some fr, s_requestLength := len, s_responseLength := 0,
     s_responseFrame := None, s_parseError := MODBUS_FERROR_OK\<rparr>"

lemma seal_nth: "i < length body \<Longrightarrow> seal body ! i = body ! i"
  by (simp add: seal_def nth_append)

lemma deliver_sent:
  assumes "wf_slave st" "body ! 0 = s_address st \<or> body ! 0 = 0" "builtin_handler al (body ! 1) = Some h"
    and "unat len = length body + 2" "2 \<le> length body"
  shows "parseRequest al (builtin_handler al) None (deliver (sent (seal body) len pred m) st)
      = h (called (seal body) len st) (seal body)"
    "called_with (called (seal body) len st) (seal body)"
proof -
  let ?st = "deliver (sent (seal body) len pred m) st"
  have wf: "wf_slave ?st"
    using assms by (simp add: wf_slave_def deliver_def sent_def)
  have nth: "seal body ! 0 = body ! 0" "seal body ! 1 = body ! 1"
    by (rule seal_nth, use assms(5) in linarith)+
  have acc: "accepted ?st (seal body)"
    using assms nth by (auto simp: accepted_def deliver_def sent_def intact_seal)
  have rd: "rd8 (seal body) 1 = Some (body ! 1)"
    using assms(5) nth(2) by (simp add: rd8_def)
  have fr: "fresh ?st = called (seal body) len st"
    by (simp add: fresh_def deliver_def sent_def called_def)
  show "parseRequest al (builtin_handler al) None ?st = h (called (seal body) len st) (seal body)"
    using acc rd assms(3) unfolding parseRequest_cases [OF wf] fr
    by (auto simp: dispatch_def accepted_def intact_def word_less_nat_alt simp del: One_nat_def)
  show "called_with (called (seal body) len st) (seal body)"
    using assms by (simp add: called_with_def called_def wf_slave_def)
qed

definition answered :: "bytes \<Rightarrow> u8 \<Rightarrow> bytes \<Rightarrow> u8 \<Rightarrow> u8 \<Rightarrow> master \<Rightarrow> master" where
  "answered q qlen p plen pred m = (reset_outputs m)\<lparr>m_requestFrame := Some q, m_requestLength := qlen,
     m_predictedResponseLength := pred, m_buildError := MODBUS_FERROR_OK,
     m_responseFrame := Some p, m_responseLength := plen, m_parseError := MODBUS_FERROR_OK\<rparr>"

lemma receive_answer:
  assumes "s_responseFrame st = Some (seal rbody)" "s_responseLength st = rlen"
    and "unat rlen = length rbody + 2" "2 \<le> length rbody"
    and "unat len = length body + 2" "2 \<le> length body"
    and "builtin_parser al (rbody ! 1) = Some h"
  shows "parseResponse (builtin_parser al) None (receive st (sent (seal body) len pred m))
    = h (answered (seal body) len (seal rbody) rlen pred m) (seal rbody) (seal body)"
proof -
  let ?m = "receive st (sent (seal body) len pred m)"
  have wf: "wf_master ?m" using assms by (simp add: wf_master_def receive_def sent_def)
  have "comparable ?m (seal rbody) (seal body)"
    using assms by (simp add: comparable_def receive_def sent_def intact_seal)
  moreover have "seal rbody ! 1 = rbody ! 1" using assms(4) by (simp add: seal_nth)
  moreover have "rbody ! 1 AND 128 = 0"
    using assms(7) by (auto simp: builtin_parser_def split: if_splits)
  moreover have "(reset_outputs ?m)\<lparr>m_parseError := MODBUS_FERROR_OK\<rparr>
      = answered (seal body) len (seal rbody) rlen pred m"
    using assms(1,2) by (simp add: answered_def receive_def sent_def reset_outputs_def)
  ultimately show ?thesis
    using assms unfolding parseResponse_cases [OF wf] Let_def
    by (simp add: receive_def sent_def)
qed


text \<open>
  What the master hands out of the registers \<open>vs\<close> the slave sent: the block has room for all their
  bytes, and holds the low byte of each, one after the other, and then zeros.
\<close>

definition low_bytes :: "u16 list \<Rightarrow> bytes" where
  "low_bytes vs = map lo8 vs @ replicate (length vs) 0"

lemma be_at_values:
  assumes "length hdr = off" "k < length vs"
  shows "be_at (hdr @ concat (map be16 vs) @ rest) (off + 2 * k) = vs ! k"
  using assms
proof (induction vs arbitrary: hdr off k)
  case (Cons v vs)
  show ?case
  proof (cases k)
    case 0
    with Cons.prems show ?thesis by (simp add: be_at_def be16_def nth_append)
  next
    case (Suc j)
    with Cons.IH [of "hdr @ be16 v" "off + 2" j] Cons.prems show ?thesis by simp
  qed
qed simp

lemma called_fields [simp]:
  "s_address (called fr len st) = s_address st" "s_requestLength (called fr len st) = len"
  "s_registers (called fr len st) = s_registers st" "s_registerCount (called fr len st) = s_registerCount st"
  "s_inputRegisters (called fr len st) = s_inputRegisters st"
  "s_inputRegisterCount (called fr len st) = s_inputRegisterCount st"
  "s_coils (called fr len st) = s_coils st" "s_coilCount (called fr len st) = s_coilCount st"
  "s_discreteInputs (called fr len st) = s_discreteInputs st"
  "s_discreteInputCount (called fr len st) = s_discreteInputCount st"
  "s_registerMask (called fr len st) = s_registerMask st"
  "s_registerMaskLength (called fr len st) = s_registerMaskLength st"
  "s_coilMask (called fr len st) = s_coilMask st"
  "s_coilMaskLength (called fr len st) = s_coilMaskLength st"
  by (simp_all add: called_def)

lemma answered_fields [simp]:
  "m_requestLength (answered q qlen p plen pred m) = qlen"
  "m_responseLength (answered q qlen p plen pred m) = plen"
  "m_predictedResponseLength (answered q qlen p plen pred m) = pred"
  "d_mem (m_data (answered q qlen p plen pred m)) = None"
  by (simp_all add: answered_def)

text \<open>The bytes of a request of eight, and of the frame it is sealed in.\<close>

lemma request_fields:
  "seal (a # f # be16 i @ be16 c @ xs) ! 0 = a" "seal (a # f # be16 i @ be16 c @ xs) ! Suc 0 = f"
  "be_at (seal (a # f # be16 i @ be16 c @ xs)) 2 = i"
  "be_at (seal (a # f # be16 i @ be16 c @ xs)) 4 = c"
  "seal (a # f # be16 i @ be16 c @ x # xs) ! 6 = x"
  "seal (a # f # be16 i @ be16 c) ! 0 = a" "seal (a # f # be16 i @ be16 c) ! Suc 0 = f"
  "be_at (seal (a # f # be16 i @ be16 c)) 2 = i" "be_at (seal (a # f # be16 i @ be16 c)) 4 = c"
  by (simp_all add: be_at_def seal_def be16_def)

lemma read_registers_reply:
  assumes "called_with st p" "s_requestLength st = 8" "p ! 0 \<noteq> 0" "p ! Suc 0 = fn" "fn = 3 \<or> fn = 4"
    and "be_at p 2 = index" "be_at p 4 = count" "count \<noteq> 0" "unat count \<le> 125"
    and "(if fn = 3 then s_registers st else s_inputRegisters st) = Some src"
    and "unat index + unat count \<le> unat (if fn = 3 then s_registerCount st else s_inputRegisterCount st)"
  shows "parseRequest0304 (\<lambda>_. True) st p = Some (MODBUS_ERROR_OK,
    reply (5 + ucast (push_bit 1 count))
      (fn # ucast (push_bit 1 count) # concat (map be16 (take (unat count) (drop (unat index) src))))
      (st\<lparr>s_parseError := MODBUS_FERROR_OK\<rparr>))"
proof -
  have "0 < unat count" using assms(8) by (simp add: unat_gt_0)
  then have "unat index < unat (if fn = 3 then s_registerCount st else s_inputRegisterCount st)"
    using assms(11) by linarith
  then show ?thesis
    using assms by (auto simp: parseRequest0304_eq Let_def le_125 [symmetric] word_le_nat_alt)
qed

lemma read_registers_parsed:
  assumes "parsing m p q" "unat (m_responseLength m) = 5 + unat len" "m_requestLength m = 8"
    and "p ! 0 \<noteq> 0" "q ! 0 = p ! 0" "p ! Suc 0 = fn" "q ! Suc 0 = fn" "p ! 2 = len" "fn = 3 \<or> fn = 4"
    and "be_at q 4 = count" "unat len = 2 * unat count" "count \<noteq> 0" "unat count \<le> 125"
  shows "parseResponse0304 (\<lambda>_. True) m p q = Some (MODBUS_ERROR_OK,
    m\<lparr>m_data := \<lparr>d_address = p ! 0, d_index = be_at q 2, d_count = count, d_length = len,
        d_type = Some (if fn = 3 then MODBUS_HOLDING_REGISTER else MODBUS_INPUT_REGISTER), d_function = fn,
        d_mem = Some (low_bytes (map (\<lambda>i. be_at p (3 + 2 * i)) [0..<unat count]))\<rparr>,
      m_parseError := MODBUS_FERROR_OK\<rparr>)"
proof -
  have p: "5 + 2 * unat count \<le> length p" "8 \<le> length q"
    using assms(1,2,3,11) by (simp_all add: parsing_def)
  have rd: "rd8 p 0 = Some (p ! 0)" "rd8 p (Suc 0) = Some fn" "rd8 p 2 = Some len"
    "rd8 q 0 = Some (p ! 0)" "rd8 q (Suc 0) = Some fn"
    "map_option modbusMatchEndian (rd16 q 2) = Some (be_at q 2)"
    "map_option modbusMatchEndian (rd16 q 4) = Some count"
    using p assms(4-11) by (auto simp: rd8_def match_rd16)
  have "\<not> 250 < len" "len \<noteq> 0" "unat len div 2 = unat count"
    using assms(11-13) unat_gt_0 [of count] by (auto simp: word_less_nat_alt)
  then show ?thesis
    using assms p by (auto simp: parseResponse0304_def rd values_from_response calloc_def low_bytes_def comp_def)
qed

text \<open>
  C3. Reading registers, end to end, and what of them arrives. The master builds a request for up to 125
  holding or input registers, the slave answers it with all of them, the master parses the answer: all
  three report success, the slave's data are unchanged, the response is as long as the master predicted,
  and the index, the number and the kind of the registers are right. But of the registers themselves the
  master hands out the low bytes only, each in the place of its number: \<open>data.regs\<close> points to bytes, so
  storing a register in it drops the upper half, and the second half of the block keeps the zeros of
  \<open>calloc\<close>.
\<close>

theorem read_registers_exchange:
  assumes "wf_slave st" "s_address st \<noteq> 0" "fn = 3 \<or> fn = 4" "count \<noteq> 0" "unat count \<le> 125"
    and "(if fn = 3 then s_registers st else s_inputRegisters st) = Some src"
    and "unat index + unat count \<le> unat (if fn = 3 then s_registerCount st else s_inputRegisterCount st)"
  shows "\<exists>m' st'. exchange (\<lambda>_. True) (\<lambda>m. buildRequest0304 (\<lambda>_. True) m fn (s_address st) index count) m st
      = Some ((MODBUS_ERROR_OK, MODBUS_ERROR_OK, MODBUS_ERROR_OK), m', st')
    \<and> same_data st st'
    \<and> d_mem (m_data m') = Some (low_bytes (take (unat count) (drop (unat index) src)))
    \<and> d_index (m_data m') = index \<and> d_count (m_data m') = count \<and> d_address (m_data m') = s_address st
    \<and> d_type (m_data m') = Some (if fn = 3 then MODBUS_HOLDING_REGISTER else MODBUS_INPUT_REGISTER)
    \<and> m_responseLength m' = m_predictedResponseLength m'"
proof -
  let ?al = "\<lambda>_::nat. True"
  define body where "body = s_address st # fn # be16 index @ be16 count @ []"
  define vs where "vs = take (unat count) (drop (unat index) src)"
  define l :: u8 where "l = ucast (push_bit 1 count)"
  define rbody where "rbody = s_address st # fn # l # concat (map be16 vs)"
  have len: "length body = 6" by (simp add: body_def)
  have src: "unat index + unat count \<le> length src"
    using assms(1,6,7) wf_bounds(1,2) by (fastforce split: if_splits)
  have vs: "length vs = unat count" using src by (simp add: vs_def)
  have l: "unat l = 2 * unat count" "unat (5 + l) = 5 + 2 * unat count"
    unfolding l_def using assms(5) by (simp_all only: unat_byte_count unat_frame_0304)
  have build: "buildRequest0304 ?al m fn (s_address st) index count
      = Some (MODBUS_ERROR_OK, sent (seal body) 8 (5 + l) m)"
    using assms le_125 [of count] by (simp add: buildRequest0304_eq request8_def l_def body_def)
  have handler: "builtin_handler ?al (body ! 1) = Some (parseRequest0304 ?al)"
    using assms(3) by (auto simp: builtin_handler_def body_def)
  have "body ! 0 = s_address st \<or> body ! 0 = 0" by (simp add: body_def)
  note del = deliver_sent [OF assms(1) this handler, where len = 8, unfolded len, simplified]
  let ?st = "reply (5 + l) (fn # l # concat (map be16 vs)) (called (seal body) 8 st\<lparr>s_parseError := MODBUS_FERROR_OK\<rparr>)"
  have slave: "parseRequest ?al (builtin_handler ?al) None (deliver (sent (seal body) 8 (5 + l) m) st)
      = Some (MODBUS_ERROR_OK, ?st)"
    unfolding del(1) l_def vs_def using assms
    by (intro read_registers_reply del(2)) (auto simp: body_def request_fields)
  have parser: "builtin_parser ?al (rbody ! 1) = Some (parseResponse0304 ?al)"
    using assms(3) by (auto simp: builtin_parser_def rbody_def)
  have long: "2 \<le> length rbody" "2 \<le> length body" by (simp_all add: rbody_def body_def)
  have master: "parseResponse (builtin_parser ?al) None (receive ?st (sent (seal body) 8 (5 + l) m))
     = parseResponse0304 ?al (answered (seal body) 8 (seal rbody) (5 + l) (5 + l) m) (seal rbody) (seal body)"
    using l vs len parser long by (intro receive_answer) (simp_all add: reply_def rbody_def called_def)
  have "parsing (answered (seal body) 8 (seal rbody) (5 + l) (5 + l) m) (seal rbody) (seal body)"
    using l vs len by (simp add: parsing_def answered_def rbody_def reset_outputs_def)
  note parsed = read_registers_parsed [OF this, where fn = fn and len = l and count = count]
  have elems: "map (\<lambda>i. be_at (seal rbody) (3 + 2 * i)) [0..<unat count] = vs"
    using be_at_values [of "[s_address st, fn, l]" 3 _ vs "be16 (crc16 rbody)"] vs
    by (intro nth_equalityI) (simp_all add: rbody_def seal_def)
  have final: "parseResponse0304 ?al (answered (seal body) 8 (seal rbody) (5 + l) (5 + l) m)
      (seal rbody) (seal body)
    = Some (MODBUS_ERROR_OK, (answered (seal body) 8 (seal rbody) (5 + l) (5 + l) m)\<lparr>
        m_data := \<lparr>d_address = s_address st, d_index = index, d_count = count, d_length = l,
          d_type = Some (if fn = 3 then MODBUS_HOLDING_REGISTER else MODBUS_INPUT_REGISTER), d_function = fn,
          d_mem = Some (low_bytes vs)\<rparr>, m_parseError := MODBUS_FERROR_OK\<rparr>)"
    using assms(2-5) l(1) parsed unfolding elems
    by (simp add: l body_def rbody_def request_fields seal_def be_at_def be16_def)
  note ex = exchange_result [where build = "\<lambda>m. buildRequest0304 ?al m fn (s_address st) index count",
      OF build slave trans [OF master final]]
  show ?thesis
    by (rule exI, rule exI, rule conjI, rule ex)
      (simp add: same_data_def reply_def called_def vs_def answered_def)
qed

section \<open>Writes\<close>

text \<open>The echo a slave sends for a write addressed to it.\<close>

lemma echo_sealed:
  assumes "body ! 0 = s_address st" "s_address st \<noteq> 0" "1 \<le> n" "n \<le> length body"
  shows "echo n (seal body) st = st\<lparr>s_responseFrame := Some (seal (take n body)),
    s_responseLength := word_of_nat (n + 2), s_parseError := MODBUS_FERROR_OK\<rparr>"
proof -
  obtain b bs where b: "body = b # bs" using assms(3,4) by (cases body) simp_all
  then have "seal body ! 0 = s_address st" using assms(1) by (simp add: seal_def)
  moreover have "take (n - 1) (drop 1 (seal body)) = take (n - 1) bs"
    using b assms(4) by (simp add: seal_def)
  moreover have "take n body = s_address st # take (n - 1) bs"
    using b assms(1,3) by (cases n) simp_all
  ultimately show ?thesis using assms(2) by (simp add: echo_def)
qed

lemma write_exchange:
  assumes "wf_slave st" "body ! 0 = s_address st" "s_address st \<noteq> 0"
    and "builtin_handler al (body ! 1) = Some h" "builtin_parser al (body ! 1) = Some g"
    and "unat len = length body + 2" "2 \<le> n" "n \<le> length body" "n < 254"
    and "build m = Some (MODBUS_ERROR_OK, sent (seal body) len pred m)"
    and "\<And>st'. st' = called (seal body) len st \<Longrightarrow> called_with st' (seal body) \<Longrightarrow>
      h st' (seal body) = Some (MODBUS_ERROR_OK, echo n (seal body) (upd st'))"
    and "\<And>st'. s_address (upd st') = s_address st'"
    and "\<And>m'. m' = answered (seal body) len (seal (take n body)) (word_of_nat (n + 2)) pred m \<Longrightarrow>
      parsing m' (seal (take n body)) (seal body) \<Longrightarrow>
      g m' (seal (take n body)) (seal body) = Some (MODBUS_ERROR_OK, m'\<lparr>m_data := d, m_parseError := MODBUS_FERROR_OK\<rparr>)"
  shows "\<exists>m'. exchange al build m st = Some ((MODBUS_ERROR_OK, MODBUS_ERROR_OK, MODBUS_ERROR_OK), m',
      (upd (called (seal body) len st))\<lparr>s_responseFrame := Some (seal (take n body)),
        s_responseLength := word_of_nat (n + 2), s_parseError := MODBUS_FERROR_OK\<rparr>)
    \<and> m_data m' = d \<and> m_predictedResponseLength m' = pred \<and> m_responseLength m' = word_of_nat (n + 2)"
proof -
  have long: "2 \<le> length body" using assms(7,8) by linarith
  note del = deliver_sent [OF assms(1) disjI1 [OF assms(2)] assms(4,6) long]
  let ?st = "(upd (called (seal body) len st))\<lparr>s_responseFrame := Some (seal (take n body)),
        s_responseLength := word_of_nat (n + 2), s_parseError := MODBUS_FERROR_OK\<rparr>"
  have e: "echo n (seal body) (upd (called (seal body) len st)) = ?st"
    using assms(2,3,7,8) by (intro echo_sealed) (simp_all add: assms(12))
  have slave: "parseRequest al (builtin_handler al) None (deliver (sent (seal body) len pred m) st)
      = Some (MODBUS_ERROR_OK, ?st)"
    unfolding del(1) assms(11) [OF refl del(2)] e ..
  have r: "unat (word_of_nat (n + 2) :: u8) = length (take n body) + 2"
    using assms(8,9) by (subst unat_small_u8) simp_all
  have fn: "take n body ! 1 = body ! 1" using assms(7) by simp
  let ?m = "answered (seal body) len (seal (take n body)) (word_of_nat (n + 2)) pred m"
  have "parseResponse (builtin_parser al) None (receive ?st (sent (seal body) len pred m))
      = g ?m (seal (take n body)) (seal body)"
    using r assms(5,6,7,8) long fn by (intro receive_answer) simp_all
  moreover have "parsing ?m (seal (take n body)) (seal body)"
    using r assms(6,7,8) by (simp add: parsing_def answered_def)
  ultimately have master: "parseResponse (builtin_parser al) None (receive ?st (sent (seal body) len pred m))
      = Some (MODBUS_ERROR_OK, ?m\<lparr>m_data := d, m_parseError := MODBUS_FERROR_OK\<rparr>)"
    using assms(13) by simp
  from exchange_result [where build = build, OF assms(10) slave master] show ?thesis
    by (intro exI conjI, assumption) (simp_all add: answered_def)
qed


text \<open>The handlers on a well-formed request.\<close>

lemma in_range_of_count: "(count::u16) \<noteq> 0 \<Longrightarrow> a + unat count \<le> n \<Longrightarrow> a < n"
  using unat_gt_0 [of count] by linarith

lemma write_register_reply:
  assumes "called_with st p" "s_requestLength st = 8" "s_registers st = Some regs"
    and "unat (be_at p 2) < unat (s_registerCount st)"
    and "\<not> protected (s_registerMask st) (s_registerMaskLength st) (unat (be_at p 2))"
  shows "parseRequest06 (\<lambda>_. True) st p = Some (MODBUS_ERROR_OK,
    echo 6 p (st\<lparr>s_registers := Some (regs[unat (be_at p 2) := be_at p 4])\<rparr>))"
  using assms by (simp add: parseRequest06_eq Let_def word_le_nat_alt)

lemma mask_write_reply:
  assumes "called_with st p" "s_requestLength st = 10" "s_registers st = Some regs"
    and "unat (be_at p 2) < unat (s_registerCount st)"
    and "\<not> protected (s_registerMask st) (s_registerMaskLength st) (unat (be_at p 2))"
  shows "parseRequest22 (\<lambda>_. True) st p = Some (MODBUS_ERROR_OK,
    echo 8 p (st\<lparr>s_registers := Some (regs[unat (be_at p 2) :=
      (regs ! unat (be_at p 2) AND be_at p 4) OR (be_at p 6 AND NOT (be_at p 4))])\<rparr>))"
  using assms by (simp add: parseRequest22_eq Let_def word_le_nat_alt)

lemma write_coil_reply:
  assumes "called_with st p" "s_requestLength st = 8" "s_coils st = Some coils"
    and "unat (be_at p 2) < unat (s_coilCount st)" "be_at p 4 = 0 \<or> be_at p 4 = 0xFF00"
    and "\<not> protected (s_coilMask st) (s_coilMaskLength st) (unat (be_at p 2))"
  shows "parseRequest05 (\<lambda>_. True) st p = Some (MODBUS_ERROR_OK,
    echo 6 p (st\<lparr>s_coils := Some (mask_set coils (unat (be_at p 2)) (be_at p 4 = 0xFF00))\<rparr>))"
  using assms by (auto simp add: parseRequest05_eq Let_def word_le_nat_alt)

lemma write_registers_reply:
  assumes "called_with st p" "s_requestLength st = 9 + p ! 6" "\<not> s_requestLength st < 7"
    and "s_registers st = Some regs" "be_at p 4 \<noteq> 0" "unat (be_at p 4) \<le> 123"
    and "unat (p ! 6) = 2 * unat (be_at p 4)"
    and "unat (be_at p 2) + unat (be_at p 4) \<le> unat (s_registerCount st)"
    and "\<forall>k<unat (be_at p 4). \<not> protected (s_registerMask st) (s_registerMaskLength st) (unat (be_at p 2) + k)"
  shows "parseRequest16 (\<lambda>_. True) st p = Some (MODBUS_ERROR_OK,
    echo 6 p (st\<lparr>s_registers := Some (splice regs (unat (be_at p 2))
      (map (\<lambda>k. be_at p (7 + 2 * k)) [0..<unat (be_at p 4)]))\<rparr>))"
proof -
  have "p ! 6 \<noteq> 0" using assms(5,7) unat_gt_0 [of "be_at p 4"] by auto
  moreover have "ucast (drop_bit (Suc 0) (p ! 6)) = be_at p 4"
    by (simp only: word_unat_eq_iff unat_ucast_16 unat_drop_bit) (simp add: assms(7))
  moreover have "\<not> s_registerCount st \<le> be_at p 2"
    using in_range_of_count [OF assms(5,8)] by (simp add: word_le_nat_alt)
  moreover have "\<not> 123 < be_at p 4" using assms(6) by (simp add: le_123)
  ultimately show ?thesis
    using assms(1-5,8,9) by (auto simp add: parseRequest16_eq Let_def)
qed

lemma write_coils_reply:
  assumes "called_with st p" "s_requestLength st = 9 + p ! 6" "\<not> s_requestLength st < 7"
    and "s_coils st = Some coils" "be_at p 4 \<noteq> 0" "unat (be_at p 4) \<le> 1968"
    and "p ! 6 = ucast (modbusBitsToBytes (be_at p 4))"
    and "unat (be_at p 2) + unat (be_at p 4) \<le> unat (s_coilCount st)"
    and "\<forall>k<unat (be_at p 4). \<not> protected (s_coilMask st) (s_coilMaskLength st) (unat (be_at p 2) + k)"
  shows "parseRequest15 (\<lambda>_. True) st p = Some (MODBUS_ERROR_OK,
    echo 6 p (st\<lparr>s_coils :=
      Some (mask_copy (drop 7 p) 0 [0..<unat (be_at p 4)] coils (unat (be_at p 2)))\<rparr>))"
proof -
  have len: "unat (p ! 6) = (unat (be_at p 4) + 7) div 8"
    unfolding assms(7) using assms(6) by (intro unat_bits_count) simp
  have "0 < unat (be_at p 4)" using assms(5) by (simp add: unat_gt_0)
  then have "0 < unat (p ! 6)" unfolding len by simp
  then have "p ! 6 \<noteq> 0" by (auto simp: unat_gt_0)
  moreover have "modbusBitsToBytes (be_at p 4) = ucast (p ! 6)"
    by (simp only: word_unat_eq_iff unat_ucast_16 unat_modbusBitsToBytes len)
  moreover have "\<not> s_coilCount st \<le> be_at p 2"
    using in_range_of_count [OF assms(5,8)] by (simp add: word_le_nat_alt)
  moreover have "\<not> 1968 < be_at p 4" using assms(6) by (simp add: le_1968)
  ultimately show ?thesis
    using assms(1-5,8,9) by (auto simp add: parseRequest15_eq Let_def)
qed


text \<open>The parsers on the echo of their request.\<close>

lemma replicate_2: "replicate 2 x = [x, x]"
  by (simp add: numeral_2_eq_2)

lemma parsed_rd:
  assumes "8 \<le> length p"
  shows "rd8 p 0 = Some (p ! 0)" "rd8 p (Suc 0) = Some (p ! Suc 0)"
    "rd16 p 2 = Some (mk16 (p ! 3) (p ! 2))" "rd16 p 4 = Some (mk16 (p ! 5) (p ! 4))"
    "rd8 p 6 = Some (p ! 6)" "rd16 p 6 = Some (mk16 (p ! 7) (p ! 6))"
  using assms by (auto simp: rd8_def rd16_def)

lemma write_register_parsed:
  assumes "parsing m p p" "m_responseLength m = 8" "m_requestLength m = 8" "p ! 0 \<noteq> 0"
  shows "parseResponse06 (\<lambda>_. True) m p p = Some (MODBUS_ERROR_OK, m\<lparr>m_data := \<lparr>d_address = p ! 0,
      d_index = be_at p 2, d_count = 1, d_length = 2, d_type = Some MODBUS_HOLDING_REGISTER,
      d_function = 6, d_mem = Some (low_bytes [be_at p 4])\<rparr>, m_parseError := MODBUS_FERROR_OK\<rparr>)"
proof -
  have "8 \<le> length p" using assms by (simp add: parsing_def)
  then show ?thesis
    using assms by (simp add: parseResponse06_def parsed_rd calloc_def wr8_def low_bytes_def be_at_def replicate_2)
qed

lemma write_coil_parsed:
  assumes "parsing m p p" "m_responseLength m = 8" "m_requestLength m = 8" "p ! 0 \<noteq> 0"
  shows "parseResponse05 (\<lambda>_. True) m p p = Some (MODBUS_ERROR_OK, m\<lparr>m_data := \<lparr>d_address = p ! 0,
      d_index = be_at p 2, d_count = 1, d_length = 1, d_type = Some MODBUS_COIL,
      d_function = 5, d_mem = Some [if be_at p 4 \<noteq> 0 then 1 else 0]\<rparr>, m_parseError := MODBUS_FERROR_OK\<rparr>)"
proof -
  have "8 \<le> length p" using assms by (simp add: parsing_def)
  moreover have "mk16 a b = 0 \<longleftrightarrow> mk16 b a = 0" for a b
    using mk16_inject [of a b 0 0] mk16_inject [of b a 0 0] by (auto simp: mk16_def)
  ultimately show ?thesis
    using assms by (simp add: parseResponse05_def parsed_rd calloc_def wr8_def be_at_def)
qed

lemma mask_write_parsed:
  assumes "parsing m p p" "m_responseLength m = 10" "m_requestLength m = 10" "p ! 0 \<noteq> 0"
  shows "parseResponse22 m p p = Some (MODBUS_ERROR_OK, m\<lparr>m_data := (m_data m)\<lparr>d_address := p ! 0,
      d_index := be_at p 2, d_count := 1, d_length := 0, d_type := Some MODBUS_HOLDING_REGISTER,
      d_function := 22\<rparr>, m_parseError := MODBUS_FERROR_OK\<rparr>)"
proof -
  have "8 \<le> length p" using assms by (simp add: parsing_def)
  then show ?thesis
    using assms by (simp add: parseResponse22_def parsed_rd be_at_def)
qed

lemma write_registers_parsed:
  assumes "parsing m p q" "m_responseLength m = 8" "unat (m_requestLength m) = 9 + unat (q ! 6)"
    and "p ! 0 \<noteq> 0" "q ! 0 = p ! 0" "q ! Suc 0 = p ! Suc 0" "q ! 2 = p ! 2" "q ! 3 = p ! 3"
    and "q ! 4 = p ! 4" "q ! 5 = p ! 5" "unat (be_at p 4) \<le> 123"
  shows "parseResponse16 m p q = Some (MODBUS_ERROR_OK, m\<lparr>m_data := (m_data m)\<lparr>d_address := p ! 0,
      d_index := be_at p 2, d_count := be_at p 4, d_length := 0, d_type := Some MODBUS_HOLDING_REGISTER,
      d_function := 16\<rparr>, m_parseError := MODBUS_FERROR_OK\<rparr>)"
proof -
  have "8 \<le> length p" "8 \<le> length q" "\<not> m_requestLength m < 7"
    using assms(1-3) by (simp_all add: parsing_def word_less_nat_alt)
  then show ?thesis
    using assms by (simp add: parseResponse16_def parsed_rd be_at_def le_123 [symmetric])
qed

lemma write_coils_parsed:
  assumes "parsing m p q" "m_responseLength m = 8" "unat (m_requestLength m) = 9 + unat (q ! 6)"
    and "p ! 0 \<noteq> 0" "q ! 0 = p ! 0" "q ! Suc 0 = p ! Suc 0" "q ! 2 = p ! 2" "q ! 3 = p ! 3"
    and "q ! 4 = p ! 4" "q ! 5 = p ! 5" "unat (be_at p 4) \<le> 1968"
  shows "parseResponse15 m p q = Some (MODBUS_ERROR_OK, m\<lparr>m_data := (m_data m)\<lparr>d_address := p ! 0,
      d_index := be_at p 2, d_count := be_at p 4, d_length := 0, d_type := Some MODBUS_COIL,
      d_function := 15\<rparr>, m_parseError := MODBUS_FERROR_OK\<rparr>)"
proof -
  have "8 \<le> length p" "8 \<le> length q" "\<not> m_requestLength m < 7"
    using assms(1-3) by (simp_all add: parsing_def word_less_nat_alt)
  then show ?thesis
    using assms by (simp add: parseResponse15_def parsed_rd be_at_def le_1968 [symmetric])
qed


section \<open>The writes, from the master to the slave and back\<close>

lemma builtin_tables:
  "builtin_handler al 5 = Some (parseRequest05 al)" "builtin_parser al 5 = Some (parseResponse05 al)"
  "builtin_handler al 6 = Some (parseRequest06 al)" "builtin_parser al 6 = Some (parseResponse06 al)"
  "builtin_handler al 15 = Some (parseRequest15 al)" "builtin_parser al 15 = Some parseResponse15"
  "builtin_handler al 16 = Some (parseRequest16 al)" "builtin_parser al 16 = Some parseResponse16"
  "builtin_handler al 22 = Some (parseRequest22 al)" "builtin_parser al 22 = Some parseResponse22"
  by (simp_all add: builtin_handler_def builtin_parser_def)

text \<open>
  Writing one register, end to end. For a register inside the table and not protected, the
  exchange succeeds, exactly that register of the slave changes, to the value the master sent, and the
  master gets the low byte of the value confirmed.
\<close>

theorem write_register_exchange:
  assumes "wf_slave st" "s_address st \<noteq> 0" "s_registers st = Some regs"
    and "unat index < unat (s_registerCount st)"
    and "\<not> protected (s_registerMask st) (s_registerMaskLength st) (unat index)"
  shows "\<exists>m' st'. exchange (\<lambda>_. True) (\<lambda>m. buildRequest06 (\<lambda>_. True) m (s_address st) index val) m st
      = Some ((MODBUS_ERROR_OK, MODBUS_ERROR_OK, MODBUS_ERROR_OK), m', st')
    \<and> s_registers st' = Some (regs[unat index := val]) \<and> s_coils st' = s_coils st
    \<and> d_index (m_data m') = index \<and> d_mem (m_data m') = Some (low_bytes [val])
    \<and> m_responseLength m' = m_predictedResponseLength m'"
proof -
  let ?al = "\<lambda>_::nat. True"
  define body where "body = s_address st # 6 # be16 index @ be16 val"
  have len: "length body = 6" by (simp add: body_def)
  have b: "body ! 0 = s_address st" "body ! 1 = 6" by (simp_all add: body_def)
  have t: "take 6 body = body" by (simp add: len)
  have h: "builtin_handler ?al (body ! 1) = Some (parseRequest06 ?al)"
    "builtin_parser ?al (body ! 1) = Some (parseResponse06 ?al)"
    by (simp_all only: b builtin_tables)
  have build: "buildRequest06 ?al m (s_address st) index val
      = Some (MODBUS_ERROR_OK, sent (seal body) 8 8 m)"
    using assms(2) by (simp add: buildRequest06_eq request8_def body_def)
  have f: "be_at (seal body) 2 = index" "be_at (seal body) 4 = val" "seal body ! 0 = s_address st"
    by (simp_all add: body_def request_fields)
  let ?upd = "\<lambda>s. s\<lparr>s_registers := Some (regs[unat index := val])\<rparr>"
  let ?d = "\<lparr>d_address = s_address st, d_index = index, d_count = 1, d_length = 2,
      d_type = Some MODBUS_HOLDING_REGISTER, d_function = 6, d_mem = Some (low_bytes [val])\<rparr>"
  have "\<exists>m'. exchange ?al (\<lambda>m. buildRequest06 ?al m (s_address st) index val) m st
      = Some ((MODBUS_ERROR_OK, MODBUS_ERROR_OK, MODBUS_ERROR_OK), m',
      (?upd (called (seal body) 8 st))\<lparr>s_responseFrame := Some (seal (take 6 body)),
        s_responseLength := word_of_nat (6 + 2), s_parseError := MODBUS_FERROR_OK\<rparr>)
    \<and> m_data m' = ?d \<and> m_predictedResponseLength m' = 8 \<and> m_responseLength m' = word_of_nat (6 + 2)"
  proof (rule write_exchange [OF assms(1) b(1) assms(2) h])
    fix st' assume "st' = called (seal body) 8 st" "called_with st' (seal body)"
    then show "parseRequest06 ?al st' (seal body) = Some (MODBUS_ERROR_OK, echo 6 (seal body) (?upd st'))"
      using assms write_register_reply [of st' "seal body" regs] f by simp
  next
    fix m' assume "m' = answered (seal body) 8 (seal (take 6 body)) (word_of_nat (6 + 2)) 8 m"
      "parsing m' (seal (take 6 body)) (seal body)"
    then show "parseResponse06 ?al m' (seal (take 6 body)) (seal body)
        = Some (MODBUS_ERROR_OK, m'\<lparr>m_data := ?d, m_parseError := MODBUS_FERROR_OK\<rparr>)"
      using write_register_parsed [of m' "seal body"] f assms(2) unfolding t by simp
  qed (simp_all add: build len)
  then show ?thesis by (auto simp: called_def)
qed


text \<open>
  Writing one coil, end to end: any non-zero value of the caller switches exactly the coil
  addressed on, zero switches it off, and the master gets the value confirmed.
\<close>

theorem write_coil_exchange:
  assumes "wf_slave st" "s_address st \<noteq> 0" "s_coils st = Some coils"
    and "unat index < unat (s_coilCount st)"
    and "\<not> protected (s_coilMask st) (s_coilMaskLength st) (unat index)"
  shows "\<exists>m' st'. exchange (\<lambda>_. True) (\<lambda>m. buildRequest05 (\<lambda>_. True) m (s_address st) index val) m st
      = Some ((MODBUS_ERROR_OK, MODBUS_ERROR_OK, MODBUS_ERROR_OK), m', st')
    \<and> s_coils st' = Some (mask_set coils (unat index) (val \<noteq> 0)) \<and> s_registers st' = s_registers st
    \<and> d_index (m_data m') = index \<and> d_mem (m_data m') = Some [of_bool (val \<noteq> 0)]
    \<and> m_responseLength m' = m_predictedResponseLength m'"
proof -
  let ?al = "\<lambda>_::nat. True"
  define v :: u16 where "v = (if val \<noteq> 0 then 0xFF00 else 0)"
  define body where "body = s_address st # 5 # be16 index @ be16 v"
  have len: "length body = 6" by (simp add: body_def)
  have b: "body ! 0 = s_address st" "body ! 1 = 5" by (simp_all add: body_def)
  have t: "take 6 body = body" by (simp add: len)
  have h: "builtin_handler ?al (body ! 1) = Some (parseRequest05 ?al)"
    "builtin_parser ?al (body ! 1) = Some (parseResponse05 ?al)"
    by (simp_all only: b builtin_tables)
  have build: "buildRequest05 ?al m (s_address st) index val
      = Some (MODBUS_ERROR_OK, sent (seal body) 8 8 m)"
    using assms(2) by (simp add: buildRequest05_eq request8_def body_def v_def)
  have f: "be_at (seal body) 2 = index" "be_at (seal body) 4 = v" "seal body ! 0 = s_address st"
    by (simp_all add: body_def request_fields)
  have v: "v = 0 \<or> v = 0xFF00" "v = 0xFF00 \<longleftrightarrow> val \<noteq> 0" "v \<noteq> 0 \<longleftrightarrow> val \<noteq> 0"
    by (simp_all add: v_def)
  let ?upd = "\<lambda>s. s\<lparr>s_coils := Some (mask_set coils (unat index) (val \<noteq> 0))\<rparr>"
  let ?d = "\<lparr>d_address = s_address st, d_index = index, d_count = 1, d_length = 1,
      d_type = Some MODBUS_COIL, d_function = 5, d_mem = Some [of_bool (val \<noteq> 0)]\<rparr>"
  have "\<exists>m'. exchange ?al (\<lambda>m. buildRequest05 ?al m (s_address st) index val) m st
      = Some ((MODBUS_ERROR_OK, MODBUS_ERROR_OK, MODBUS_ERROR_OK), m',
      (?upd (called (seal body) 8 st))\<lparr>s_responseFrame := Some (seal (take 6 body)),
        s_responseLength := word_of_nat (6 + 2), s_parseError := MODBUS_FERROR_OK\<rparr>)
    \<and> m_data m' = ?d \<and> m_predictedResponseLength m' = 8 \<and> m_responseLength m' = word_of_nat (6 + 2)"
  proof (rule write_exchange [OF assms(1) b(1) assms(2) h])
    fix st' assume "st' = called (seal body) 8 st" "called_with st' (seal body)"
    then show "parseRequest05 ?al st' (seal body) = Some (MODBUS_ERROR_OK, echo 6 (seal body) (?upd st'))"
      using assms write_coil_reply [of st' "seal body" coils] f v by simp
  next
    fix m' assume "m' = answered (seal body) 8 (seal (take 6 body)) (word_of_nat (6 + 2)) 8 m"
      "parsing m' (seal (take 6 body)) (seal body)"
    then show "parseResponse05 ?al m' (seal (take 6 body)) (seal body)
        = Some (MODBUS_ERROR_OK, m'\<lparr>m_data := ?d, m_parseError := MODBUS_FERROR_OK\<rparr>)"
      using write_coil_parsed [of m' "seal body"] f v assms(2) unfolding t by simp
  qed (simp_all add: build len)
  then show ?thesis by (auto simp: called_def)
qed

text \<open>
  Mask write, end to end: the register addressed becomes
  \<open>(old AND and_mask) OR (or_mask AND NOT and_mask)\<close>, the others keep their values.
\<close>

theorem mask_write_exchange:
  assumes "wf_slave st" "s_address st \<noteq> 0" "s_registers st = Some regs"
    and "unat index < unat (s_registerCount st)"
    and "\<not> protected (s_registerMask st) (s_registerMaskLength st) (unat index)"
  shows "\<exists>m' st'. exchange (\<lambda>_. True) (\<lambda>m. buildRequest22 (\<lambda>_. True) m (s_address st) index andmask ormask) m st
      = Some ((MODBUS_ERROR_OK, MODBUS_ERROR_OK, MODBUS_ERROR_OK), m', st')
    \<and> s_registers st' = Some (regs[unat index := (regs ! unat index AND andmask) OR (ormask AND NOT andmask)])
    \<and> s_coils st' = s_coils st \<and> d_index (m_data m') = index
    \<and> m_responseLength m' = m_predictedResponseLength m'"
proof -
  let ?al = "\<lambda>_::nat. True"
  define body where "body = s_address st # 22 # be16 index @ be16 andmask @ be16 ormask"
  have len: "length body = 8" by (simp add: body_def)
  have b: "body ! 0 = s_address st" "body ! 1 = 22" by (simp_all add: body_def)
  have t: "take 8 body = body" by (simp add: len)
  have h: "builtin_handler ?al (body ! 1) = Some (parseRequest22 ?al)"
    "builtin_parser ?al (body ! 1) = Some parseResponse22"
    by (simp_all only: b builtin_tables)
  have build: "buildRequest22 ?al m (s_address st) index andmask ormask
      = Some (MODBUS_ERROR_OK, sent (seal body) 10 10 m)"
    using assms(2) by (simp add: buildRequest22_eq body_def)
  have f: "be_at (seal body) 2 = index" "be_at (seal body) 4 = andmask" "be_at (seal body) 6 = ormask"
    "seal body ! 0 = s_address st"
    by (simp_all add: body_def seal_def be_at_def be16_def)
  let ?v = "(regs ! unat index AND andmask) OR (ormask AND NOT andmask)"
  let ?upd = "\<lambda>s. s\<lparr>s_registers := Some (regs[unat index := ?v])\<rparr>"
  let ?d = "(m_data (answered (seal body) 10 (seal body) 10 10 m))\<lparr>d_address := s_address st, d_index := index,
      d_count := 1, d_length := 0, d_type := Some MODBUS_HOLDING_REGISTER, d_function := 22\<rparr>"
  have "\<exists>m'. exchange ?al (\<lambda>m. buildRequest22 ?al m (s_address st) index andmask ormask) m st
      = Some ((MODBUS_ERROR_OK, MODBUS_ERROR_OK, MODBUS_ERROR_OK), m',
      (?upd (called (seal body) 10 st))\<lparr>s_responseFrame := Some (seal (take 8 body)),
        s_responseLength := word_of_nat (8 + 2), s_parseError := MODBUS_FERROR_OK\<rparr>)
    \<and> m_data m' = ?d \<and> m_predictedResponseLength m' = 10 \<and> m_responseLength m' = word_of_nat (8 + 2)"
  proof (rule write_exchange [OF assms(1) b(1) assms(2) h])
    fix st' assume "st' = called (seal body) 10 st" "called_with st' (seal body)"
    then show "parseRequest22 ?al st' (seal body) = Some (MODBUS_ERROR_OK, echo 8 (seal body) (?upd st'))"
      using assms mask_write_reply [of st' "seal body" regs] f by simp
  next
    fix m' assume "m' = answered (seal body) 10 (seal (take 8 body)) (word_of_nat (8 + 2)) 10 m"
      "parsing m' (seal (take 8 body)) (seal body)"
    then show "parseResponse22 m' (seal (take 8 body)) (seal body)
        = Some (MODBUS_ERROR_OK, m'\<lparr>m_data := ?d, m_parseError := MODBUS_FERROR_OK\<rparr>)"
      using mask_write_parsed [of m' "seal body"] f assms(2) unfolding t by simp
  qed (simp_all add: build len)
  then show ?thesis by (auto simp: called_def)
qed


text \<open>
  C4. Writing several registers, end to end. For up to 123 registers inside the table, none of
  them protected, the exchange succeeds and the block of the slave's registers becomes the block of
  values the caller passed; every register outside it keeps its value.
\<close>

theorem write_registers_exchange:
  assumes "wf_slave st" "s_address st \<noteq> 0" "s_registers st = Some regs"
    and "count \<noteq> 0" "unat count \<le> 123" "unat count \<le> length vals"
    and "unat index + unat count \<le> unat (s_registerCount st)"
    and "\<forall>k<unat count. \<not> protected (s_registerMask st) (s_registerMaskLength st) (unat index + k)"
  shows "\<exists>m' st'. exchange (\<lambda>_. True) (\<lambda>m. buildRequest16 (\<lambda>_. True) m (s_address st) index count vals) m st
      = Some ((MODBUS_ERROR_OK, MODBUS_ERROR_OK, MODBUS_ERROR_OK), m', st')
    \<and> s_registers st' = Some (splice regs (unat index) (take (unat count) vals))
    \<and> s_coils st' = s_coils st \<and> d_index (m_data m') = index \<and> d_count (m_data m') = count
    \<and> m_responseLength m' = m_predictedResponseLength m'"
proof -
  let ?al = "\<lambda>_::nat. True"
  define vs where "vs = take (unat count) vals"
  define l :: u8 where "l = ucast (push_bit 1 count)"
  define body where "body = s_address st # 16 # be16 index @ be16 count @ l # concat (map be16 vs)"
  have vs: "length vs = unat count" using assms(6) by (simp add: vs_def)
  have len: "length body = 7 + 2 * unat count" by (simp add: body_def vs)
  have l: "unat l = 2 * unat count" "unat (9 + l) = 9 + 2 * unat count"
    unfolding l_def using assms(5) by (simp_all only: unat_byte_count unat_frame_16)
  have b: "body ! 0 = s_address st" "body ! 1 = 16" by (simp_all add: body_def)
  have t: "take 6 body = s_address st # 16 # be16 index @ be16 count"
    by (simp add: body_def be16_def)
  have h: "builtin_handler ?al (body ! 1) = Some (parseRequest16 ?al)"
    "builtin_parser ?al (body ! 1) = Some parseResponse16"
    by (simp_all only: b builtin_tables)
  have "word_of_nat (2 * unat count) = l"
    using unat_small_u8 [of "2 * unat count"] l(1) assms(5) by (simp only: word_unat_eq_iff)
  then have "request16 (s_address st) index vs = seal body"
    by (simp add: request16_def body_def vs)
  then have build: "buildRequest16 ?al m (s_address st) index count vals
      = Some (MODBUS_ERROR_OK, sent (seal body) (9 + l) 8 m)"
    using assms(2,4,5,6) le_123 [of count] by (simp add: buildRequest16_eq l_def vs_def)
  have f: "be_at (seal body) 2 = index" "be_at (seal body) 4 = count" "seal body ! 0 = s_address st"
    "seal body ! 6 = l"
    by (simp_all add: body_def request_fields)
  have elems: "map (\<lambda>k. be_at (seal body) (7 + 2 * k)) [0..<unat count] = vs"
    using be_at_values [of "s_address st # 16 # be16 index @ be16 count @ [l]" 7 _ vs "be16 (crc16 body)"] vs
    by (intro nth_equalityI) (simp_all add: body_def seal_def)
  let ?upd = "\<lambda>s. s\<lparr>s_registers := Some (splice regs (unat index) vs)\<rparr>"
  let ?d = "(m_data (answered (seal body) (9 + l) (seal (take 6 body)) 8 8 m))\<lparr>d_address := s_address st,
      d_index := index, d_count := count, d_length := 0, d_type := Some MODBUS_HOLDING_REGISTER,
      d_function := 16\<rparr>"
  have "\<exists>m'. exchange ?al (\<lambda>m. buildRequest16 ?al m (s_address st) index count vals) m st
      = Some ((MODBUS_ERROR_OK, MODBUS_ERROR_OK, MODBUS_ERROR_OK), m',
      (?upd (called (seal body) (9 + l) st))\<lparr>s_responseFrame := Some (seal (take 6 body)),
        s_responseLength := word_of_nat (6 + 2), s_parseError := MODBUS_FERROR_OK\<rparr>)
    \<and> m_data m' = ?d \<and> m_predictedResponseLength m' = 8 \<and> m_responseLength m' = word_of_nat (6 + 2)"
  proof (rule write_exchange [OF assms(1) b(1) assms(2) h])
    fix st' assume "st' = called (seal body) (9 + l) st" "called_with st' (seal body)"
    then show "parseRequest16 ?al st' (seal body) = Some (MODBUS_ERROR_OK, echo 6 (seal body) (?upd st'))"
      using assms write_registers_reply [of st' "seal body" regs] f l elems
      by (simp add: word_less_nat_alt)
  next
    fix m' assume "m' = answered (seal body) (9 + l) (seal (take 6 body)) (word_of_nat (6 + 2)) 8 m"
      "parsing m' (seal (take 6 body)) (seal body)"
    then show "parseResponse16 m' (seal (take 6 body)) (seal body)
        = Some (MODBUS_ERROR_OK, m'\<lparr>m_data := ?d, m_parseError := MODBUS_FERROR_OK\<rparr>)"
      using write_registers_parsed [of m' "seal (take 6 body)" "seal body"] f l assms(2,5) unfolding t
      by (simp add: request_fields) (simp add: body_def seal_def be16_def)
  qed (simp_all add: build len l)
  then show ?thesis by (auto simp: called_def vs_def)
qed

text \<open>
  Writing several coils, end to end. For up to 1968 coils inside the table, none of them
  protected, coil \<open>index + k\<close> of the slave becomes bit \<open>k\<close> of the caller's values, and every
  other coil keeps its value, also those that share a byte with the block.
\<close>

theorem write_coils_exchange:
  assumes "wf_slave st" "s_address st \<noteq> 0" "s_coils st = Some coils"
    and "count \<noteq> 0" "unat count \<le> 1968" "(unat count + 7) div 8 \<le> length vals"
    and "unat index + unat count \<le> unat (s_coilCount st)"
    and "\<forall>k<unat count. \<not> protected (s_coilMask st) (s_coilMaskLength st) (unat index + k)"
  shows "\<exists>m' st' coils'. exchange (\<lambda>_. True) (\<lambda>m. buildRequest15 (\<lambda>_. True) m (s_address st) index count vals) m st
      = Some ((MODBUS_ERROR_OK, MODBUS_ERROR_OK, MODBUS_ERROR_OK), m', st')
    \<and> s_coils st' = Some coils' \<and> length coils' = length coils
    \<and> (\<forall>j. mask_bit coils' j = (if unat index \<le> j \<and> j < unat index + unat count
          then mask_bit vals (j - unat index) else mask_bit coils j))
    \<and> s_registers st' = s_registers st \<and> d_index (m_data m') = index \<and> d_count (m_data m') = count
    \<and> m_responseLength m' = m_predictedResponseLength m'"
proof -
  let ?al = "\<lambda>_::nat. True"
  define nb where "nb = (unat count + 7) div 8"
  define vs where "vs = take nb vals"
  define l :: u8 where "l = ucast (modbusBitsToBytes count)"
  define body where "body = s_address st # 15 # be16 index @ be16 count @ l # vs"
  have vs: "length vs = nb" using assms(6) by (simp add: vs_def nb_def)
  have len: "length body = 7 + nb" by (simp add: body_def vs)
  have l: "unat l = nb" "unat (9 + l) = 9 + nb"
    unfolding l_def nb_def using assms(5) by (simp_all only: unat_bits_count unat_frame_15)
  have b: "body ! 0 = s_address st" "body ! 1 = 15" by (simp_all add: body_def)
  have t: "take 6 body = s_address st # 15 # be16 index @ be16 count"
    by (simp add: body_def be16_def)
  have h: "builtin_handler ?al (body ! 1) = Some (parseRequest15 ?al)"
    "builtin_parser ?al (body ! 1) = Some parseResponse15"
    by (simp_all only: b builtin_tables)
  have "request15 (s_address st) index count vs = seal body"
    by (simp add: request15_def body_def l_def)
  then have build: "buildRequest15 ?al m (s_address st) index count vals
      = Some (MODBUS_ERROR_OK, sent (seal body) (9 + l) 8 m)"
    using assms(2,4,5,6) le_1968 [of count]
    by (simp add: buildRequest15_eq l_def vs_def nb_def unat_modbusBitsToBytes)
  have f: "be_at (seal body) 2 = index" "be_at (seal body) 4 = count" "seal body ! 0 = s_address st"
    "seal body ! 6 = l"
    by (simp_all add: body_def request_fields)
  define coils' where "coils' = mask_copy (drop 7 (seal body)) 0 [0..<unat count] coils (unat index)"
  have room: "unat index + unat count \<le> 8 * length coils"
    using wf_bounds(3) [OF assms(1,3)] assms(7) by linarith
  have d7: "drop 7 (seal body) = vs @ be16 (crc16 body)" by (simp add: body_def seal_def be16_def)
  have bits: "mask_bit coils' j = (if unat index \<le> j \<and> j < unat index + unat count
          then mask_bit vals (j - unat index) else mask_bit coils j)" for j
  proof -
    have "mask_bit (vs @ xs) k = mask_bit vals k" if "k < unat count" for k xs
    proof -
      have "k div 8 < nb" unfolding nb_def using that by linarith
      then show ?thesis using vs by (simp add: mask_bit_def nth_append vs_def)
    qed
    then show ?thesis by (auto simp add: coils'_def mask_bit_mask_copy [OF room] d7)
  qed
  let ?upd = "\<lambda>s. s\<lparr>s_coils := Some coils'\<rparr>"
  let ?d = "(m_data (answered (seal body) (9 + l) (seal (take 6 body)) 8 8 m))\<lparr>d_address := s_address st,
      d_index := index, d_count := count, d_length := 0, d_type := Some MODBUS_COIL, d_function := 15\<rparr>"
  have "\<exists>m'. exchange ?al (\<lambda>m. buildRequest15 ?al m (s_address st) index count vals) m st
      = Some ((MODBUS_ERROR_OK, MODBUS_ERROR_OK, MODBUS_ERROR_OK), m',
      (?upd (called (seal body) (9 + l) st))\<lparr>s_responseFrame := Some (seal (take 6 body)),
        s_responseLength := word_of_nat (6 + 2), s_parseError := MODBUS_FERROR_OK\<rparr>)
    \<and> m_data m' = ?d \<and> m_predictedResponseLength m' = 8 \<and> m_responseLength m' = word_of_nat (6 + 2)"
  proof (rule write_exchange [OF assms(1) b(1) assms(2) h])
    fix st' assume "st' = called (seal body) (9 + l) st" "called_with st' (seal body)"
    then show "parseRequest15 ?al st' (seal body) = Some (MODBUS_ERROR_OK, echo 6 (seal body) (?upd st'))"
      using assms write_coils_reply [of st' "seal body" coils] f l
      by (simp add: word_less_nat_alt coils'_def l_def)
  next
    fix m' assume "m' = answered (seal body) (9 + l) (seal (take 6 body)) (word_of_nat (6 + 2)) 8 m"
      "parsing m' (seal (take 6 body)) (seal body)"
    then show "parseResponse15 m' (seal (take 6 body)) (seal body)
        = Some (MODBUS_ERROR_OK, m'\<lparr>m_data := ?d, m_parseError := MODBUS_FERROR_OK\<rparr>)"
      using write_coils_parsed [of m' "seal (take 6 body)" "seal body"] f l assms(2,5) unfolding t
      by (simp add: request_fields) (simp add: body_def seal_def be16_def)
  qed (simp_all add: build len l)
  moreover have "length coils' = length coils" by (simp add: coils'_def)
  ultimately show ?thesis by (auto simp: called_def bits)
qed


section \<open>Reading coils and discrete inputs\<close>

lemma read_coils_reply:
  assumes "called_with st p" "s_requestLength st = 8" "p ! 0 \<noteq> 0" "p ! Suc 0 = fn" "fn = 1 \<or> fn = 2"
    and "be_at p 2 = index" "be_at p 4 = count" "count \<noteq> 0" "unat count \<le> 2000"
    and "(if fn = 1 then s_coils st else s_discreteInputs st) = Some src"
    and "unat index + unat count \<le> unat (if fn = 1 then s_coilCount st else s_discreteInputCount st)"
  shows "parseRequest0102 (\<lambda>_. True) st p = Some (MODBUS_ERROR_OK,
    reply (5 + ucast (modbusBitsToBytes count))
      (fn # ucast (modbusBitsToBytes count)
         # mask_copy src (unat index) [0..<unat count] (replicate (unat (modbusBitsToBytes count)) 0) 0) st)"
proof -
  note in_range_of_count [OF assms(8,11)]
  then show ?thesis
    using assms by (auto simp: parseRequest0102_eq Let_def le_2000 [symmetric] word_le_nat_alt)
qed

lemma read_coils_parsed:
  assumes "parsing m p q" "unat (m_responseLength m) = 5 + unat len" "m_requestLength m = 8"
    and "p ! 0 \<noteq> 0" "q ! 0 = p ! 0" "p ! Suc 0 = fn" "q ! Suc 0 = fn" "p ! 2 = len" "fn = 1 \<or> fn = 2"
    and "be_at q 4 = count" "len = ucast (modbusBitsToBytes count)" "count \<noteq> 0" "unat count \<le> 2000"
  shows "parseResponse0102 (\<lambda>_. True) m p q = Some (MODBUS_ERROR_OK,
    m\<lparr>m_data := \<lparr>d_address = p ! 0, d_index = be_at q 2, d_count = count, d_length = len,
        d_type = Some (if fn = 1 then MODBUS_COIL else MODBUS_DISCRETE_INPUT), d_function = fn,
        d_mem = Some (take (unat len) (drop 3 p))\<rparr>,
      m_parseError := MODBUS_FERROR_OK\<rparr>)"
proof -
  have l: "unat len = (unat count + 7) div 8"
    unfolding assms(11) using assms(13) by (rule unat_bits_count)
  have p: "5 + unat len \<le> length p" "8 \<le> length q"
    using assms(1,2,3) by (simp_all add: parsing_def)
  have rd: "rd8 p 0 = Some (p ! 0)" "rd8 p (Suc 0) = Some fn" "rd8 p 2 = Some len"
    "rd8 q 0 = Some (p ! 0)" "rd8 q (Suc 0) = Some fn"
    "map_option modbusMatchEndian (rd16 q 2) = Some (be_at q 2)"
    "map_option modbusMatchEndian (rd16 q 4) = Some count"
    using p assms(4-10) by (auto simp: rd8_def match_rd16)
  have b: "modbusBitsToBytes count = ucast len"
    by (simp only: word_unat_eq_iff unat_ucast_16 unat_modbusBitsToBytes l)
  have "0 < unat count" using assms(12) by (simp add: unat_gt_0)
  then have "0 < unat len" "unat len \<le> 250" using l assms(13) by linarith+
  then have "\<not> 250 < len" "len \<noteq> 0" by (auto simp: word_less_nat_alt)
  then show ?thesis
    using assms(2-9) p by (auto simp: parseResponse0102_def rd b calloc_def rd_bytes_def wr_bytes_def)
qed

text \<open>
  Reading coils or discrete inputs, end to end. Bit \<open>k\<close> of the block the master hands out
  is coil \<open>index + k\<close> of the slave, the unused bits of its last byte are zero, and the slave's data
  are unchanged.
\<close>

theorem read_coils_exchange:
  assumes "wf_slave st" "s_address st \<noteq> 0" "fn = 1 \<or> fn = 2" "count \<noteq> 0" "unat count \<le> 2000"
    and "(if fn = 1 then s_coils st else s_discreteInputs st) = Some src"
    and "unat index + unat count \<le> unat (if fn = 1 then s_coilCount st else s_discreteInputCount st)"
  shows "\<exists>m' st' mem. exchange (\<lambda>_. True) (\<lambda>m. buildRequest0102 (\<lambda>_. True) m fn (s_address st) index count) m st
      = Some ((MODBUS_ERROR_OK, MODBUS_ERROR_OK, MODBUS_ERROR_OK), m', st')
    \<and> same_data st st'
    \<and> d_mem (m_data m') = Some mem \<and> length mem = (unat count + 7) div 8
    \<and> (\<forall>k<8 * length mem. mask_bit mem k = (k < unat count \<and> mask_bit src (unat index + k)))
    \<and> d_index (m_data m') = index \<and> d_count (m_data m') = count \<and> d_address (m_data m') = s_address st
    \<and> d_type (m_data m') = Some (if fn = 1 then MODBUS_COIL else MODBUS_DISCRETE_INPUT)
    \<and> m_responseLength m' = m_predictedResponseLength m'"
proof -
  let ?al = "\<lambda>_::nat. True"
  define body where "body = s_address st # fn # be16 index @ be16 count"
  define nb where "nb = (unat count + 7) div 8"
  define mem where "mem = mask_copy src (unat index) [0..<unat count] (replicate nb 0) 0"
  define l :: u8 where "l = ucast (modbusBitsToBytes count)"
  define rbody where "rbody = s_address st # fn # l # mem"
  have len: "length body = 6" by (simp add: body_def)
  have mem: "length mem = nb" by (simp add: mem_def)
  have l: "unat l = nb" "unat (5 + l) = 5 + nb"
    unfolding l_def nb_def using assms(5) by (simp_all only: unat_bits_count unat_frame_0102)
  have build: "buildRequest0102 ?al m fn (s_address st) index count
      = Some (MODBUS_ERROR_OK, sent (seal body) 8 (5 + l) m)"
    using assms le_2000 [of count] by (simp add: buildRequest0102_eq request8_def l_def body_def)
  have handler: "builtin_handler ?al (body ! 1) = Some (parseRequest0102 ?al)"
    using assms(3) by (auto simp: builtin_handler_def body_def)
  have "body ! 0 = s_address st \<or> body ! 0 = 0" by (simp add: body_def)
  note del = deliver_sent [OF assms(1) this handler, where len = 8, unfolded len, simplified]
  let ?st = "reply (5 + l) (fn # l # mem) (called (seal body) 8 st)"
  have slave: "parseRequest ?al (builtin_handler ?al) None (deliver (sent (seal body) 8 (5 + l) m) st)
      = Some (MODBUS_ERROR_OK, ?st)"
    unfolding del(1) l_def mem_def nb_def unat_modbusBitsToBytes [symmetric] using assms
    by (intro read_coils_reply del(2)) (auto simp: body_def request_fields)
  have parser: "builtin_parser ?al (rbody ! 1) = Some (parseResponse0102 ?al)"
    using assms(3) by (auto simp: builtin_parser_def rbody_def)
  have long: "2 \<le> length rbody" "2 \<le> length body" by (simp_all add: rbody_def body_def)
  let ?m = "answered (seal body) 8 (seal rbody) (5 + l) (5 + l) m"
  have master: "parseResponse (builtin_parser ?al) None (receive ?st (sent (seal body) 8 (5 + l) m))
     = parseResponse0102 ?al ?m (seal rbody) (seal body)"
    using l mem len parser long by (intro receive_answer) (simp_all add: reply_def rbody_def called_def)
  have "parsing ?m (seal rbody) (seal body)"
    using l mem len by (simp add: parsing_def answered_def rbody_def reset_outputs_def)
  note parsed = read_coils_parsed [OF this, where fn = fn and len = l and count = count]
  have f: "take nb (drop 3 (seal rbody)) = mem" "seal rbody ! 0 = s_address st"
    "seal rbody ! Suc 0 = fn" "seal rbody ! 2 = l" "seal body ! 0 = s_address st"
    "seal body ! Suc 0 = fn" "be_at (seal body) 2 = index" "be_at (seal body) 4 = count"
    by (simp_all add: rbody_def mem request_fields body_def) (simp_all add: seal_def mem)
  with parsed have final: "parseResponse0102 ?al ?m (seal rbody) (seal body)
    = Some (MODBUS_ERROR_OK, ?m\<lparr>
        m_data := \<lparr>d_address = s_address st, d_index = index, d_count = count, d_length = l,
          d_type = Some (if fn = 1 then MODBUS_COIL else MODBUS_DISCRETE_INPUT), d_function = fn,
          d_mem = Some mem\<rparr>, m_parseError := MODBUS_FERROR_OK\<rparr>)"
    using assms(2-5) l by (simp add: l_def)
  have "mask_bit (replicate nb 0) k = False" if "k < 8 * nb" for k
    using that by (simp add: mask_bit_def less_mult_imp_div_less mult.commute)
  moreover have "unat count \<le> 8 * nb" by (simp add: nb_def)
  ultimately have bits: "mask_bit mem k = (k < unat count \<and> mask_bit src (unat index + k))"
    if "k < 8 * length mem" for k
    using that by (simp add: mem mem_def mask_bit_mask_copy)
  note ex = exchange_result [where build = "\<lambda>m. buildRequest0102 ?al m fn (s_address st) index count",
      OF build slave trans [OF master final]]
  show ?thesis
    by (rule exI, rule exI, rule exI [of _ mem], rule conjI, rule ex)
      (use bits in \<open>simp add: same_data_def reply_def called_def answered_def mem nb_def\<close>)
qed

text \<open>
  C8. What the master may rely on after success. Both frames carry their checksums, the response comes
  from the slave the request was addressed to and answers its function, the address and index of the
  data are those of the request, and the block of data is as long as its element count says.
\<close>

theorem accepted_response_matches:
  assumes "wf_master m" "user_parsers_ok uf"
    and "modbusParseResponse al uf (Some m) = Some (MODBUS_ERROR_OK, Some m')"
  shows "\<exists>p q. m_responseFrame m = Some p \<and> m_requestFrame m = Some q
    \<and> intact p (m_responseLength m) \<and> intact q (m_requestLength m)
    \<and> p ! 0 = q ! 0 \<and> p ! 0 \<noteq> 0 \<and> p ! 1 = q ! 1
    \<and> d_address (m_data m') = q ! 0 \<and> d_index (m_data m') = be_at q 2
    \<and> (case d_mem (m_data m') of None \<Rightarrow> True
       | Some mem \<Rightarrow> length mem = data_bytes (d_function (m_data m')) (d_count (m_data m')))"
  using master_parsed [OF assms(1,2), of al] assms(3) by (auto simp: comparable_def matched_def)

theorem accepted_response_matches_witness:
  "\<exists>m'. modbusParseResponse (\<lambda>_. True) None (Some (demo_master\<lparr>
      m_responseFrame := Some (seal [17, 6, 0, 1, 3, 9]), m_responseLength := 8,
      m_requestFrame := Some (seal [17, 6, 0, 1, 3, 9]), m_requestLength := 8\<rparr>)) = Some (MODBUS_ERROR_OK, Some m')
    \<and> d_address (m_data m') = 17 \<and> d_index (m_data m') = 1"
proof -
  let ?fr = "seal [17, 6, 0, 1, 3, 9]"
  let ?m = "demo_master\<lparr>m_responseFrame := Some ?fr, m_responseLength := 8,
      m_requestFrame := Some ?fr, m_requestLength := 8\<rparr>"
  have wf: "wf_master ?m" by (simp add: wf_master_def)
  have nth: "?fr ! 0 = 17" "?fr ! Suc 0 = 6" "be_at ?fr 2 = 1"
    by (simp_all add: seal_def be_at_def) (simp add: mk16_def)
  have "comparable ?m ?fr ?fr" by (simp add: comparable_def intact_seal)
  then have "parseResponse (builtin_parser (\<lambda>_. True)) None ?m
      = parseResponse06 (\<lambda>_. True) ((reset_outputs ?m)\<lparr>m_parseError := MODBUS_FERROR_OK\<rparr>) ?fr ?fr"
    unfolding parseResponse_cases [OF wf] by (simp add: Let_def nth builtin_tables)
  moreover have "parsing ((reset_outputs ?m)\<lparr>m_parseError := MODBUS_FERROR_OK\<rparr>) ?fr ?fr"
    by (simp add: parsing_def)
  ultimately obtain m' where r: "modbusParseResponse (\<lambda>_. True) None (Some ?m) = Some (MODBUS_ERROR_OK, Some m')"
    unfolding modbusParseResponse_Some using nth by (simp add: write_register_parsed)
  from accepted_response_matches [OF wf user_parsers_ok_None r] r nth show ?thesis by auto
qed

text \<open>A slave and a master for the witnesses of the exchanges.\<close>

lemma demo_facts:
  "wf_slave demo_slave" "s_address demo_slave = 17" "s_registers demo_slave = Some [100, 200, 300, 400]"
  "s_inputRegisters demo_slave = Some [7, 8]" "s_registerCount demo_slave = 4"
  "s_inputRegisterCount demo_slave = 2" "s_coils demo_slave = Some [0xA5]" "s_coilCount demo_slave = 8"
  "s_registerMask demo_slave = Some [8]" "s_registerMaskLength demo_slave = 1"
  "s_coilMask demo_slave = None" "s_discreteInputs demo_slave = Some [0x0F]"
  "s_discreteInputCount demo_slave = 8"
  by (simp_all add: demo_slave_def wf_slave_def unat_modbusBitsToBytes)

lemma mask_8: "protected (Some [8]) 1 i \<longleftrightarrow> i = 3"
proof -
  have "bit (8::u8) i \<longleftrightarrow> i = 3"
    using bit_push_bit_iff [of 3 "1::u8" i] by (auto simp: bit_1_iff)
  then show ?thesis by (auto simp: protected_def mask_bit_def)
qed

theorem read_registers_exchange_witness:
  "\<exists>m' st'. exchange (\<lambda>_. True) (\<lambda>m. buildRequest0304 (\<lambda>_. True) m 3 17 1 2) demo_master demo_slave
      = Some ((MODBUS_ERROR_OK, MODBUS_ERROR_OK, MODBUS_ERROR_OK), m', st')
    \<and> d_mem (m_data m') = Some [200, 44, 0, 0]"
  using read_registers_exchange [of demo_slave 3 2 "[100, 200, 300, 400]" 1 demo_master]
  by (auto simp: demo_facts low_bytes_def lo8_def)

theorem write_register_exchange_witness:
  "\<exists>m' st'. exchange (\<lambda>_. True) (\<lambda>m. buildRequest06 (\<lambda>_. True) m 17 2 777) demo_master demo_slave
      = Some ((MODBUS_ERROR_OK, MODBUS_ERROR_OK, MODBUS_ERROR_OK), m', st')
    \<and> s_registers st' = Some [100, 200, 777, 400]"
  using write_register_exchange [of demo_slave "[100, 200, 300, 400]" 2 777 demo_master]
  by (auto simp: demo_facts mask_8)

theorem write_coil_exchange_witness:
  "\<exists>m' st'. exchange (\<lambda>_. True) (\<lambda>m. buildRequest05 (\<lambda>_. True) m 17 1 1) demo_master demo_slave
      = Some ((MODBUS_ERROR_OK, MODBUS_ERROR_OK, MODBUS_ERROR_OK), m', st')
    \<and> s_coils st' = Some (mask_set [0xA5] 1 True)"
  using write_coil_exchange [of demo_slave "[0xA5]" 1 1 demo_master]
  by (auto simp: demo_facts)

theorem mask_write_exchange_witness:
  "\<exists>m' st'. exchange (\<lambda>_. True) (\<lambda>m. buildRequest22 (\<lambda>_. True) m 17 0 0xF2 0x25) demo_master demo_slave
      = Some ((MODBUS_ERROR_OK, MODBUS_ERROR_OK, MODBUS_ERROR_OK), m', st')
    \<and> s_registers st' = Some [(100 AND 0xF2) OR (0x25 AND NOT 0xF2), 200, 300, 400]"
  using mask_write_exchange [of demo_slave "[100, 200, 300, 400]" 0 "0xF2" "0x25" demo_master]
  by (auto simp: demo_facts mask_8)

theorem write_registers_exchange_witness:
  "\<exists>m' st'. exchange (\<lambda>_. True) (\<lambda>m. buildRequest16 (\<lambda>_. True) m 17 1 2 [5, 6, 7]) demo_master demo_slave
      = Some ((MODBUS_ERROR_OK, MODBUS_ERROR_OK, MODBUS_ERROR_OK), m', st')
    \<and> s_registers st' = Some [100, 5, 6, 400]"
  using write_registers_exchange [of demo_slave "[100, 200, 300, 400]" 2 "[5, 6, 7]" 1 demo_master]
  by (auto simp: demo_facts mask_8 splice_def)

theorem write_coils_exchange_witness:
  "\<exists>m' st' coils'. exchange (\<lambda>_. True) (\<lambda>m. buildRequest15 (\<lambda>_. True) m 17 2 3 [7]) demo_master demo_slave
      = Some ((MODBUS_ERROR_OK, MODBUS_ERROR_OK, MODBUS_ERROR_OK), m', st')
    \<and> s_coils st' = Some coils' \<and> length coils' = 1"
  using write_coils_exchange [of demo_slave "[0xA5]" 3 "[7]" 2 demo_master]
  by (fastforce simp: demo_facts)

theorem read_coils_exchange_witness:
  "\<exists>m' st' mem. exchange (\<lambda>_. True) (\<lambda>m. buildRequest0102 (\<lambda>_. True) m 2 17 1 5) demo_master demo_slave
      = Some ((MODBUS_ERROR_OK, MODBUS_ERROR_OK, MODBUS_ERROR_OK), m', st')
    \<and> d_mem (m_data m') = Some mem \<and> length mem = 1"
  using read_coils_exchange [of demo_slave 2 5 "[0x0F]" 1 demo_master]
  by (fastforce simp: demo_facts)

end
