(* ===== verification/Ring.thy ===== *)
theory Ring
  imports Prelude
begin

text \<open>
  Circular arrays, and what the queues of \<open>fun_buffer\<close> have in common. \<open>ring buf i n\<close> is the list of
  the \<open>n\<close> elements that follow position \<open>i\<close> in the array \<open>buf\<close>, wrapping round at its end. The two
  segments of \<open>memcpy\<close> with which the queues write and read are \<open>wrap_write\<close> and \<open>wrap_read\<close>; the lemmas
  relate them to \<open>ring\<close>. The locale \<open>bounded_queue\<close> is the contract the queues share.
\<close>

section \<open>Circular arrays\<close>

definition ring :: "'a list \<Rightarrow> nat \<Rightarrow> nat \<Rightarrow> 'a list" where
  "ring buf i n = map (\<lambda>k. buf ! ((i + k) mod length buf)) [0..<n]"

lemma length_ring [simp]: "length (ring buf i n) = n"
  by (simp add: ring_def)

lemma nth_ring [simp]: "k < n \<Longrightarrow> ring buf i n ! k = buf ! ((i + k) mod length buf)"
  by (simp add: ring_def)

lemma ring_0 [simp]: "ring buf i 0 = []"
  by (simp add: ring_def)

lemma take_ring: "take m (ring buf i n) = ring buf i (min m n)"
  by (rule nth_equalityI) simp_all

lemma drop_ring: "drop m (ring buf i n) = ring buf ((i + m) mod length buf) (n - m)"
  by (rule nth_equalityI) (simp_all add: mod_add_left_eq add.assoc)

lemma ring_Suc: "ring buf i (Suc n) = buf ! (i mod length buf) # ring buf (Suc i mod length buf) n"
  by (rule nth_equalityI) (auto simp: nth_Cons mod_simps split: nat.split)

definition wrap_write :: "'a list \<Rightarrow> nat \<Rightarrow> 'a list \<Rightarrow> 'a list option" where
  "wrap_write buf p xs = (let k = length buf - p in
     do { buf' \<leftarrow> wr_bytes buf p (take k xs); wr_bytes buf' 0 (drop k xs) })"

definition wrap_read :: "'a list \<Rightarrow> nat \<Rightarrow> nat \<Rightarrow> 'a list option" where
  "wrap_read buf p n = (let k = length buf - p in
     do { xs \<leftarrow> rd_bytes buf p (min n k); ys \<leftarrow> rd_bytes buf 0 (n - k); Some (xs @ ys) })"

lemma wr_bytes_splice: "i + length vs \<le> length m \<Longrightarrow> wr_bytes m i vs = Some (splice m i vs)"
  by (simp add: wr_bytes_def splice_def)

text \<open>The distance from \<open>p\<close> forward to \<open>j\<close>, going round an array of \<open>N\<close>.\<close>

lemma ring_position:
  fixes N p d :: nat
  assumes "p < N" "d < N"
  shows "(p + d) mod N = (if p + d < N then p + d else p + d - N)"
  using assms by (simp add: mod_if)

lemma wrap_write_nth:
  assumes "p < length buf" "length xs \<le> length buf"
  shows "\<exists>buf'. wrap_write buf p xs = Some buf' \<and> length buf' = length buf
    \<and> (\<forall>d<length buf. buf' ! ((p + d) mod length buf)
         = (if d < length xs then xs ! d else buf ! ((p + d) mod length buf)))"
proof -
  let ?k = "length buf - p"
  let ?b1 = "splice buf p (take ?k xs)"
  let ?b2 = "splice ?b1 0 (drop ?k xs)"
  have l1: "length ?b1 = length buf" using assms by (intro length_splice) simp
  have l2: "length ?b2 = length buf" using assms l1 by (subst length_splice) simp_all
  have w: "wrap_write buf p xs = Some ?b2"
    using assms l1 by (simp add: wrap_write_def Let_def wr_bytes_splice)
  have "?b2 ! ((p + d) mod length buf) = (if d < length xs then xs ! d else buf ! ((p + d) mod length buf))"
    if "d < length buf" for d
  proof (cases "p + d < length buf")
    case True
    have "?b2 ! (p + d) = ?b1 ! (p + d)" using True assms l1 by (subst nth_splice) auto
    also have "\<dots> = (if d < length xs then xs ! d else buf ! (p + d))"
      using True assms by (subst nth_splice) auto
    finally show ?thesis using True by simp
  next
    case False
    then have e: "(p + d) mod length buf = p + d - length buf"
      using assms(1) that by (simp add: ring_position)
    have "?b2 ! (p + d - length buf) = (if d < length xs then xs ! d else ?b1 ! (p + d - length buf))"
      using False assms l1 that by (subst nth_splice) auto
    also have "?b1 ! (p + d - length buf) = buf ! (p + d - length buf)"
      using False assms that by (subst nth_splice) auto
    finally show ?thesis using e by simp
  qed
  with w l2 show ?thesis by blast
qed

lemma wrap_write_ring:
  assumes "i < length buf" "n + length xs \<le> length buf"
  shows "\<exists>buf'. wrap_write buf ((i + n) mod length buf) xs = Some buf' \<and> length buf' = length buf
    \<and> ring buf' i (n + length xs) = ring buf i n @ xs"
proof -
  let ?p = "(i + n) mod length buf"
  have "?p < length buf" using assms(1) by (intro mod_less_divisor) linarith
  then obtain buf' where w: "wrap_write buf ?p xs = Some buf'" "length buf' = length buf"
    "\<And>d. d < length buf \<Longrightarrow> buf' ! ((?p + d) mod length buf)
         = (if d < length xs then xs ! d else buf ! ((?p + d) mod length buf))"
    using wrap_write_nth [of ?p buf xs] assms(2) by (metis add_leD2)
  have "ring buf' i (n + length xs) ! k = (ring buf i n @ xs) ! k" if "k < n + length xs" for k
  proof (cases "k < n")
    case True
    let ?d = "length buf + k - n"
    have "?d < length buf" "length xs \<le> ?d" using True assms(2) by linarith+
    moreover have "(?p + ?d) mod length buf = (i + k) mod length buf"
    proof -
      have "(?p + ?d) mod length buf = (i + n + ?d) mod length buf" by (simp add: mod_simps)
      also have "i + n + ?d = i + k + length buf" using True assms(2) by linarith
      finally show ?thesis by simp
    qed
    ultimately show ?thesis using w(2) w(3) [of ?d] True by (simp add: nth_append)
  next
    case False
    then obtain d where k: "k = n + d" using le_Suc_ex linorder_not_less by blast
    then have "d < length xs" "d < length buf" using that assms(2) by linarith+
    moreover have "(?p + d) mod length buf = (i + k) mod length buf"
      by (simp add: k mod_simps add.assoc)
    ultimately show ?thesis using w(2) w(3) [of d] k by (simp add: nth_append)
  qed
  then have "ring buf' i (n + length xs) = ring buf i n @ xs" by (intro nth_equalityI) simp_all
  with w show ?thesis by blast
qed

text \<open>A write seen from the place where it ends: the whole array, oldest element first.\<close>

lemma wrap_write_shift:
  assumes "p < length buf" "length xs \<le> length buf" "wrap_write buf p xs = Some buf'"
  shows "ring buf' ((p + length xs) mod length buf) (length buf)
    = ring buf ((p + length xs) mod length buf) (length buf - length xs) @ xs"
proof -
  have w: "length buf' = length buf"
    "\<And>d. d < length buf \<Longrightarrow> buf' ! ((p + d) mod length buf)
         = (if d < length xs then xs ! d else buf ! ((p + d) mod length buf))"
    using wrap_write_nth [OF assms(1,2)] assms(3) by auto
  have "ring buf' ((p + length xs) mod length buf) (length buf) ! k
      = (ring buf ((p + length xs) mod length buf) (length buf - length xs) @ xs) ! k"
    if "k < length buf" for k
  proof (cases "k < length buf - length xs")
    case True
    then show ?thesis using that w(1) w(2) [of "length xs + k"] by (simp add: nth_append mod_simps add.assoc)
  next
    case False
    then obtain j where k: "k = length buf - length xs + j" using le_Suc_ex linorder_not_less by blast
    have "(p + length xs + k) mod length buf = (p + j) mod length buf"
    proof -
      have "p + length xs + k = p + j + length buf" using assms(2) k by linarith
      then show ?thesis by (simp only: mod_add_self2)
    qed
    moreover have "j < length xs" using that k assms(2) by linarith
    ultimately show ?thesis using False that w(1) w(2) [of j] k by (simp add: nth_append mod_simps add.assoc)
  qed
  then show ?thesis using assms(2) w(1) by (intro nth_equalityI) simp_all
qed

lemma ring_segments:
  assumes "p < length buf" "n \<le> length buf"
  shows "take (min n (length buf - p)) (drop p buf) @ take (n - (length buf - p)) buf = ring buf p n"
  using assms by (intro nth_equalityI) (auto simp: nth_append ring_position add.commute)

lemma wrap_read_ring:
  assumes "p < length buf" "n \<le> length buf"
  shows "wrap_read buf p n = Some (ring buf p n)"
proof -
  have "p + min n (length buf - p) \<le> length buf" "n - (length buf - p) \<le> length buf" using assms by linarith+
  then show ?thesis using ring_segments [OF assms] unfolding wrap_read_def Let_def rd_bytes_def by simp
qed

lemma wrap_write_plain: "p + length xs \<le> length buf \<Longrightarrow> wrap_write buf p xs = wr_bytes buf p xs"
  by (simp add: wrap_write_def Let_def wr_bytes_def)

lemma wrap_read_plain: "p + n \<le> length buf \<Longrightarrow> wrap_read buf p n = rd_bytes buf p n"
  by (simp add: wrap_read_def Let_def rd_bytes_def min_def)

section \<open>Bounded queues\<close>

text \<open>
  A queue that holds at most \<open>cap\<close> elements. \<open>put\<close> appends as many of the elements offered as there is
  room for and tells how many, \<open>get\<close> removes up to a number of elements from the front. \<open>item\<close> says
  which elements the queue takes, \<open>lim\<close> bounds the number asked for at a time. Both are
  partial in the model (an access outside the array is \<^term>\<open>None\<close>); the contract says they return.
\<close>

locale bounded_queue =
  fixes inv :: "'s \<Rightarrow> bool"
    and contents :: "'s \<Rightarrow> 'a list"
    and cap :: "'s \<Rightarrow> nat"
    and put :: "'s \<Rightarrow> 'a list \<Rightarrow> (nat \<times> 's) option"
    and get :: "'s \<Rightarrow> nat \<Rightarrow> ('a list \<times> 's) option"
    and item :: "'a \<Rightarrow> bool"
    and lim :: nat
  assumes bound: "inv s \<Longrightarrow> length (contents s) \<le> cap s"
    and put: "inv s \<Longrightarrow> length xs < lim \<Longrightarrow> list_all item xs \<Longrightarrow>
      \<exists>s'. put s xs = Some (min (length xs) (cap s - length (contents s)), s')
      \<and> inv s' \<and> cap s' = cap s
      \<and> contents s' = contents s @ take (cap s - length (contents s)) xs"
    and get: "inv s \<Longrightarrow> n < lim \<Longrightarrow> \<exists>s'. get s n = Some (take n (contents s), s') \<and> inv s' \<and> cap s' = cap s
      \<and> contents s' = drop n (contents s)"

text \<open>A run of a queue: a list of operations, the elements accepted so far and those handed out.\<close>

datatype 'a queue_op = Put "'a list" | Get nat

fun queue_run ::
  "('s \<Rightarrow> 'a list \<Rightarrow> (nat \<times> 's) option) \<Rightarrow> ('s \<Rightarrow> nat \<Rightarrow> ('a list \<times> 's) option)
     \<Rightarrow> 'a queue_op list \<Rightarrow> 's \<Rightarrow> ('a list \<times> 'a list \<times> 's) option" where
  "queue_run put get [] s = Some ([], [], s)"
| "queue_run put get (Put xs # ops) s = do {
     (n, s1) \<leftarrow> put s xs;
     (ins, outs, s2) \<leftarrow> queue_run put get ops s1;
     Some (take n xs @ ins, outs, s2) }"
| "queue_run put get (Get n # ops) s = do {
     (ys, s1) \<leftarrow> get s n;
     (ins, outs, s2) \<leftarrow> queue_run put get ops s1;
     Some (ins, ys @ outs, s2) }"

fun op_ok :: "('a \<Rightarrow> bool) \<Rightarrow> nat \<Rightarrow> 'a queue_op \<Rightarrow> bool" where
  "op_ok item lim (Put xs) = (length xs < lim \<and> list_all item xs)"
| "op_ok item lim (Get n) = (n < lim)"

text \<open>
  The same run on a list that takes every element as long as it holds fewer than \<open>cap\<close>, and no more: what it
  accepts, what it hands out, and what is left in it.
\<close>

fun bounded_fifo :: "nat \<Rightarrow> 'a list \<Rightarrow> 'a queue_op list \<Rightarrow> 'a list \<times> 'a list \<times> 'a list" where
  "bounded_fifo cap q [] = ([], [], q)"
| "bounded_fifo cap q (Put xs # ops) =
     (let ys = take (cap - length q) xs; (ins, outs, q') = bounded_fifo cap (q @ ys) ops in (ys @ ins, outs, q'))"
| "bounded_fifo cap q (Get n # ops) =
     (let (ins, outs, q') = bounded_fifo cap (drop n q) ops in (ins, take n q @ outs, q'))"

context bounded_queue
begin

text \<open>Every run is that of the list: the capacity is used to the last element, and not exceeded.\<close>

lemma fifo_exact:
  assumes "inv s" "list_all (op_ok item lim) ops"
  shows "\<exists>ins outs s'. queue_run put get ops s = Some (ins, outs, s') \<and> inv s'
    \<and> (ins, outs, contents s') = bounded_fifo (cap s) (contents s) ops"
  using assms
proof (induction ops arbitrary: s)
  case (Cons op ops)
  show ?case
  proof (cases op)
    case (Put xs)
    then obtain s1 where s1: "put s xs = Some (min (length xs) (cap s - length (contents s)), s1)"
      "inv s1" "cap s1 = cap s" "contents s1 = contents s @ take (cap s - length (contents s)) xs"
      using put [OF Cons.prems(1)] Cons.prems(2) by fastforce
    have "take (min (length xs) (cap s - length (contents s))) xs = take (cap s - length (contents s)) xs"
      by (simp add: min_def)
    moreover obtain ins outs s' where "queue_run put get ops s1 = Some (ins, outs, s')" "inv s'"
        "bounded_fifo (cap s) (contents s @ take (cap s - length (contents s)) xs) ops = (ins, outs, contents s')"
      using Cons.IH [OF s1(2)] Cons.prems(2) unfolding s1(3,4) by auto
    ultimately show ?thesis using s1(1) Put by (simp add: Let_def)
  next
    case (Get n)
    then obtain s1 where s1: "get s n = Some (take n (contents s), s1)"
      "inv s1" "cap s1 = cap s" "contents s1 = drop n (contents s)"
      using get [OF Cons.prems(1)] Cons.prems(2) by fastforce
    obtain ins outs s' where "queue_run put get ops s1 = Some (ins, outs, s')" "inv s'"
        "bounded_fifo (cap s) (drop n (contents s)) ops = (ins, outs, contents s')"
      using Cons.IH [OF s1(2)] Cons.prems(2) unfolding s1(3,4) by auto
    then show ?thesis using s1(1) Get by (simp add: Let_def)
  qed
qed simp

text \<open>
  First in, first out, for every run: nothing is lost, duplicated or reordered. What was in the
  queue, followed by what it accepted, is what it handed out followed by what is still in it.
\<close>

lemma fifo_order:
  assumes "inv s" "list_all (op_ok item lim) ops"
  shows "\<exists>ins outs s'. queue_run put get ops s = Some (ins, outs, s') \<and> inv s' \<and> cap s' = cap s
    \<and> contents s @ ins = outs @ contents s' \<and> length (contents s') \<le> cap s"
  using assms
proof (induction ops arbitrary: s)
  case Nil
  then show ?case using bound by simp
next
  case (Cons op ops)
  show ?case
  proof (cases op)
    case (Put xs)
    then obtain s1 where s1: "put s xs = Some (min (length xs) (cap s - length (contents s)), s1)"
      "inv s1" "cap s1 = cap s" "contents s1 = contents s @ take (cap s - length (contents s)) xs"
      using put [OF Cons.prems(1)] Cons.prems(2) by fastforce
    from Cons.IH [OF s1(2)] Cons.prems(2) s1(3) obtain ins outs s' where
      "queue_run put get ops s1 = Some (ins, outs, s')" "inv s'" "cap s' = cap s"
      "contents s1 @ ins = outs @ contents s'" "length (contents s') \<le> cap s" by auto
    then show ?thesis using s1 Put by (auto simp: min_def)
  next
    case (Get n)
    then obtain s1 where s1: "get s n = Some (take n (contents s), s1)"
      "inv s1" "cap s1 = cap s" "contents s1 = drop n (contents s)"
      using get [OF Cons.prems(1)] Cons.prems(2) by fastforce
    from Cons.IH [OF s1(2)] Cons.prems(2) s1(3) obtain ins outs s' where r:
      "queue_run put get ops s1 = Some (ins, outs, s')" "inv s'" "cap s' = cap s"
      "contents s1 @ ins = outs @ contents s'" "length (contents s') \<le> cap s" by auto
    have "contents s @ ins = take n (contents s) @ outs @ contents s'"
      using r(4) s1(4) by (metis append.assoc append_take_drop_id)
    then show ?thesis using s1 Get r by simp
  qed
qed

text \<open>A queue that starts empty hands out a prefix of what it accepted.\<close>

lemma outputs_prefix:
  assumes "inv s" "contents s = []" "list_all (op_ok item lim) ops" "queue_run put get ops s = Some (ins, outs, s')"
  shows "ins = outs @ contents s'" "length ins \<le> length outs + cap s"
  using fifo_order [OF assms(1,3)] assms(2,4) by auto

end

end
