(* ===== verification/Fifo.thy ===== *)
theory Fifo
  imports Ring
begin

text \<open>
  The byte queue of \<open>fun_buffer/fifo.c\<close>: two indices into an array of \<open>size\<close> bytes, one byte unused to
  tell full from empty. It is a \<open>bounded_queue\<close> of capacity \<open>size - 1\<close> (\<open>fifo_queue\<close>).

  The remainder by a size of 0 is undefined in C: \<open>umod\<close> is partial there. A caller's array that a
  function fills is the list of the bytes written to it.
\<close>

definition umod :: "'a::len word \<Rightarrow> 'a word \<Rightarrow> 'a word option" where
  "umod a b = (if b = 0 then None else Some (a mod b))"

definition min_macro :: "'a::len word \<Rightarrow> 'a word \<Rightarrow> 'a word" where
  "min_macro x y = (if x < y then x else y)"

lemma unat_min_macro [simp]: "unat (min_macro x y) = min (unat x) (unat y)"
  by (simp add: min_macro_def word_less_nat_alt min_def)

section \<open>fifo.c\<close>

record fifo =
  f_buffer :: bytes
  f_size :: u32
  f_head :: u32
  f_tail :: u32

definition ring_buffer_init :: "fifo option \<Rightarrow> bytes \<Rightarrow> u32 \<Rightarrow> int \<times> fifo option" where
  "ring_buffer_init rb buffer sz = (case rb of
     None \<Rightarrow> (-1, None)
   | Some _ \<Rightarrow> (0, Some \<lparr>f_buffer = buffer, f_size = sz, f_head = 0, f_tail = 0\<rparr>))"

definition ring_buffer_free_space :: "fifo \<Rightarrow> u32 option" where
  "ring_buffer_free_space rb = (let tail_to_end = f_size rb - 1 - f_tail rb in
     umod (tail_to_end + f_head rb) (f_size rb))"

definition ring_buffer_used_space :: "fifo \<Rightarrow> u32 option" where
  "ring_buffer_used_space rb = (let head_to_end = f_size rb - f_head rb in
     umod (head_to_end + f_tail rb) (f_size rb))"

text \<open>The data pointer handed out is the index of the head in the buffer.\<close>

definition ring_buffer_get_data :: "fifo \<Rightarrow> (u32 \<times> u32) option" where
  "ring_buffer_get_data rb = (let head_to_end = f_size rb - f_head rb in do {
     used \<leftarrow> umod (head_to_end + f_tail rb) (f_size rb);
     Some (f_head rb, min_macro head_to_end used) })"

definition ring_buffer_consume :: "fifo \<Rightarrow> u32 \<Rightarrow> fifo option" where
  "ring_buffer_consume rb bytes_consumed = do {
     h \<leftarrow> umod (f_head rb + bytes_consumed) (f_size rb);
     Some (rb\<lparr>f_head := h\<rparr>) }"

definition ring_buffer_write :: "fifo \<Rightarrow> bytes \<Rightarrow> u32 \<Rightarrow> (u32 \<times> fifo) option" where
  "ring_buffer_write rb data data_length = do {
     let tail_to_end0 = f_size rb - 1 - f_tail rb;
     free \<leftarrow> umod (tail_to_end0 + f_head rb) (f_size rb);
     let amount_to_copy = min_macro data_length free;
     let tail_to_end = tail_to_end0 + 1;
     seg1 \<leftarrow> rd_bytes data 0 (unat (min_macro amount_to_copy tail_to_end));
     buf1 \<leftarrow> wr_bytes (f_buffer rb) (unat (f_tail rb)) seg1;
     buf2 \<leftarrow> (if tail_to_end < amount_to_copy then do {
         seg2 \<leftarrow> rd_bytes data (unat tail_to_end) (unat (amount_to_copy - tail_to_end));
         wr_bytes buf1 0 seg2 }
       else Some buf1);
     t \<leftarrow> umod (f_tail rb + amount_to_copy) (f_size rb);
     Some (amount_to_copy, rb\<lparr>f_buffer := buf2, f_tail := t\<rparr>) }"

primrec fifo_read_loop :: "bytes \<Rightarrow> u32 \<Rightarrow> nat \<Rightarrow> u32 \<Rightarrow> bytes option" where
  "fifo_read_loop buf sz 0 head = Some []"
| "fifo_read_loop buf sz (Suc n) head = do {
     b \<leftarrow> rd8 buf (unat head);
     head' \<leftarrow> umod (head + 1) sz;
     bs \<leftarrow> fifo_read_loop buf sz n head';
     Some (b # bs) }"

definition ring_buffer_read :: "fifo \<Rightarrow> u32 \<Rightarrow> (bytes \<times> fifo) option" where
  "ring_buffer_read rb data_length = do {
     used \<leftarrow> ring_buffer_used_space rb;
     let max_bytes_to_read = min_macro data_length used;
     if max_bytes_to_read \<noteq> 0 then do {
       bs \<leftarrow> fifo_read_loop (f_buffer rb) (f_size rb) (unat max_bytes_to_read) (f_head rb);
       rb' \<leftarrow> ring_buffer_consume rb max_bytes_to_read;
       Some (bs, rb') }
     else Some ([], rb) }"

definition ring_buffer_is_full :: "fifo \<Rightarrow> bool option" where
  "ring_buffer_is_full rb = do {
     used \<leftarrow> ring_buffer_used_space rb;
     Some (used \<ge> f_size rb - 1) }"

definition ring_buffer_total_size :: "fifo \<Rightarrow> u32" where
  "ring_buffer_total_size rb = f_size rb - 1"

text \<open>The representation: the array is \<open>size\<close> bytes long, at most \<open>2 ^ 31\<close>, the indices inside it.\<close>

definition fifo_ok :: "fifo \<Rightarrow> bool" where
  "fifo_ok rb \<longleftrightarrow> unat (f_size rb) = length (f_buffer rb) \<and> 0 < length (f_buffer rb)
     \<and> length (f_buffer rb) \<le> 2147483648 \<and> unat (f_head rb) < length (f_buffer rb)
     \<and> unat (f_tail rb) < length (f_buffer rb)"

definition fifo_used :: "fifo \<Rightarrow> nat" where
  "fifo_used rb = (length (f_buffer rb) - unat (f_head rb) + unat (f_tail rb)) mod length (f_buffer rb)"

definition fifo_contents :: "fifo \<Rightarrow> bytes" where
  "fifo_contents rb = ring (f_buffer rb) (unat (f_head rb)) (fifo_used rb)"

definition fifo_cap :: "fifo \<Rightarrow> nat" where
  "fifo_cap rb = length (f_buffer rb) - 1"

text \<open>Two indices into an array of \<open>N\<close>: the distance from one to the other.\<close>

lemma index_distance:
  fixes N h t :: nat
  assumes "h < N" "t < N"
  shows "(N - h + t) mod N = (if h \<le> t then t - h else N - h + t)"
  using assms by (simp add: mod_if)

lemma fifo_used_facts:
  assumes "fifo_ok rb"
  shows "fifo_used rb < length (f_buffer rb)"
    "(unat (f_head rb) + fifo_used rb) mod length (f_buffer rb) = unat (f_tail rb)"
    "(length (f_buffer rb) - 1 - unat (f_tail rb) + unat (f_head rb)) mod length (f_buffer rb)
      = length (f_buffer rb) - 1 - fifo_used rb"
  using assms by (auto simp: fifo_ok_def fifo_used_def index_distance mod_if)

lemma unat_mod_u32: "unat (a mod b :: u32) = unat a mod unat b"
  by (rule unat_mod_distrib)

lemma word_of_nat_unat: "word_of_nat (unat (w::'a::len word)) = w"
  by simp

lemma unat_add_u32: "unat a + unat b < 4294967296 \<Longrightarrow> unat (a + b :: u32) = unat a + unat b"
  by (simp add: unat_word_ariths)

lemma fifo_words:
  assumes "fifo_ok rb"
  shows "umod (f_size rb - f_head rb + f_tail rb) (f_size rb) = Some (word_of_nat (fifo_used rb))"
    "umod (f_size rb - 1 - f_tail rb + f_head rb) (f_size rb)
      = Some (word_of_nat (length (f_buffer rb) - 1 - fifo_used rb))"
    "unat (f_size rb - f_head rb) = length (f_buffer rb) - unat (f_head rb)"
    "unat (f_size rb - 1 - f_tail rb) = length (f_buffer rb) - 1 - unat (f_tail rb)"
    "unat (f_size rb - 1 - f_tail rb + 1) = length (f_buffer rb) - unat (f_tail rb)"
proof -
  note ok = assms [unfolded fifo_ok_def]
  have s: "f_size rb \<noteq> 0" using ok by auto
  have "unat (f_size rb - 1) = length (f_buffer rb) - 1"
    using ok by (subst unat_sub) (simp_all add: word_le_nat_alt)
  then show te: "unat (f_size rb - 1 - f_tail rb) = length (f_buffer rb) - 1 - unat (f_tail rb)"
    using ok by (subst unat_sub, simp_all only: word_le_nat_alt) linarith
  have "f_size rb - 1 - f_tail rb + 1 = f_size rb - f_tail rb" by simp
  then show "unat (f_size rb - 1 - f_tail rb + 1) = length (f_buffer rb) - unat (f_tail rb)"
    using ok unat_sub [of "f_tail rb" "f_size rb"] by (simp add: word_le_nat_alt)
  show he: "unat (f_size rb - f_head rb) = length (f_buffer rb) - unat (f_head rb)"
    using ok by (subst unat_sub) (simp_all add: word_le_nat_alt)
  have "unat (f_size rb - f_head rb + f_tail rb) = length (f_buffer rb) - unat (f_head rb) + unat (f_tail rb)"
    unfolding he [symmetric] using ok he by (intro unat_add_u32) linarith
  then have "unat ((f_size rb - f_head rb + f_tail rb) mod f_size rb) = fifo_used rb"
    using ok by (simp add: unat_mod_u32 fifo_used_def)
  then show "umod (f_size rb - f_head rb + f_tail rb) (f_size rb) = Some (word_of_nat (fifo_used rb))"
    using s by (metis umod_def word_of_nat_unat)
  have "unat (f_size rb - 1 - f_tail rb + f_head rb) = length (f_buffer rb) - 1 - unat (f_tail rb) + unat (f_head rb)"
    unfolding te [symmetric] using ok te by (intro unat_add_u32) linarith
  then have "unat ((f_size rb - 1 - f_tail rb + f_head rb) mod f_size rb) = length (f_buffer rb) - 1 - fifo_used rb"
    using ok fifo_used_facts(3) [OF assms] by (simp add: unat_mod_u32)
  then show "umod (f_size rb - 1 - f_tail rb + f_head rb) (f_size rb)
      = Some (word_of_nat (length (f_buffer rb) - 1 - fifo_used rb))"
    using s by (metis umod_def word_of_nat_unat)
qed


text \<open>The operations, as the queue wants them: the arguments are as long as their length says.\<close>

definition fifo_put :: "fifo \<Rightarrow> bytes \<Rightarrow> (nat \<times> fifo) option" where
  "fifo_put rb xs = map_option (map_prod unat id) (ring_buffer_write rb xs (word_of_nat (length xs)))"

definition fifo_get :: "fifo \<Rightarrow> nat \<Rightarrow> (bytes \<times> fifo) option" where
  "fifo_get rb n = ring_buffer_read rb (word_of_nat n)"

lemma unat_of_nat_u32: "n < 4294967296 \<Longrightarrow> unat (word_of_nat n :: u32) = n"
  by (simp add: unat_of_nat)

lemma umod_index:
  assumes "unat b = N" "0 < N" "unat a + m < 4294967296"
  shows "umod (a + word_of_nat m :: u32) b = Some (word_of_nat ((unat a + m) mod N))"
proof -
  have "unat (a + word_of_nat m) = unat a + m"
    using assms(3) by (subst unat_add_u32) (simp_all add: unat_of_nat_u32)
  then have "unat ((a + word_of_nat m) mod b) = (unat a + m) mod N"
    using assms(1) by (simp add: unat_mod_u32)
  moreover have "b \<noteq> 0" using assms by auto
  ultimately show ?thesis by (metis umod_def word_of_nat_unat)
qed

text \<open>Writing: two segments, as \<open>wrap_write\<close> has them.\<close>

lemma ring_buffer_write_ok:
  assumes "fifo_ok rb" "length xs < 4294967296"
  shows "\<exists>buf. ring_buffer_write rb xs (word_of_nat (length xs))
      = Some (word_of_nat (min (length xs) (fifo_cap rb - fifo_used rb)), rb\<lparr>f_buffer := buf,
          f_tail := word_of_nat ((unat (f_tail rb) + min (length xs) (fifo_cap rb - fifo_used rb))
            mod length (f_buffer rb))\<rparr>)
    \<and> wrap_write (f_buffer rb) (unat (f_tail rb)) (take (fifo_cap rb - fifo_used rb) xs) = Some buf
    \<and> length buf = length (f_buffer rb)
    \<and> ring buf (unat (f_head rb)) (fifo_used rb + min (length xs) (fifo_cap rb - fifo_used rb))
      = fifo_contents rb @ take (fifo_cap rb - fifo_used rb) xs"
proof -
  note ok = assms(1) [unfolded fifo_ok_def] and used = fifo_used_facts [OF assms(1)]
  let ?N = "length (f_buffer rb)" and ?free = "fifo_cap rb - fifo_used rb"
  let ?a = "min (length xs) ?free" and ?ys = "take ?free xs"
  have ys: "length ?ys = ?a" by (simp add: min.commute)
  have room: "fifo_used rb + length ?ys \<le> ?N"
    using used(1) by (simp add: fifo_cap_def)
  obtain buf where buf: "wrap_write (f_buffer rb) (unat (f_tail rb)) ?ys = Some buf" "length buf = ?N"
    "ring buf (unat (f_head rb)) (fifo_used rb + length ?ys) = fifo_contents rb @ ?ys"
    using wrap_write_ring [OF _ room, of "unat (f_head rb)"] ok used(2) by (auto simp: fifo_contents_def)
  have small: "?free < 4294967296" "?a < 4294967296" using ok by (auto simp: fifo_cap_def)
  have free: "umod (f_size rb - 1 - f_tail rb + f_head rb) (f_size rb) = Some (word_of_nat ?free)"
    using fifo_words(2) [OF assms(1)] by (simp add: fifo_cap_def)
  have amount: "min_macro (word_of_nat (length xs)) (word_of_nat ?free) = (word_of_nat ?a :: u32)"
    using assms(2) small by (simp only: word_unat_eq_iff unat_min_macro unat_of_nat_u32)
  let ?k = "?N - unat (f_tail rb)"
  note te = fifo_words(5) [OF assms(1)]
  have "take (min ?a ?k) xs = take ?k ?ys" by (simp add: min_def)
  then have seg1: "rd_bytes xs 0 (unat (min_macro (word_of_nat ?a) (f_size rb - 1 - f_tail rb + 1)))
      = Some (take ?k ?ys)"
    using small te by (simp only: unat_min_macro unat_of_nat_u32) (simp add: rd_bytes_def)
  have lt: "f_size rb - 1 - f_tail rb + 1 < word_of_nat ?a \<longleftrightarrow> ?k < ?a"
    using small te by (simp only: word_less_nat_alt unat_of_nat_u32)
  have seg2: "rd_bytes xs (unat (f_size rb - 1 - f_tail rb + 1))
      (unat (word_of_nat ?a - (f_size rb - 1 - f_tail rb + 1))) = Some (drop ?k ?ys)" if "?k < ?a"
  proof -
    have "unat (word_of_nat ?a - (f_size rb - 1 - f_tail rb + 1)) = ?a - ?k"
      using that small te
      by (subst unat_sub) (simp_all only: word_le_nat_alt unat_of_nat_u32 less_imp_le)
    moreover have "take (?a - ?k) (drop ?k xs) = drop ?k ?ys"
      using ys by (simp add: drop_take min_def)
    ultimately show ?thesis using that te by (simp add: rd_bytes_def)
  qed
  have tail: "umod (f_tail rb + word_of_nat ?a) (f_size rb)
      = Some (word_of_nat ((unat (f_tail rb) + ?a) mod ?N))"
    using ok by (intro umod_index) (auto simp: fifo_cap_def)
  from buf(1) obtain buf1 where b1: "wr_bytes (f_buffer rb) (unat (f_tail rb)) (take ?k ?ys) = Some buf1"
    "wr_bytes buf1 0 (drop ?k ?ys) = Some buf"
    by (auto simp: wrap_write_def Let_def split: Option.bind_splits)
  have "ring_buffer_write rb xs (word_of_nat (length xs))
      = Some (word_of_nat ?a, rb\<lparr>f_buffer := buf, f_tail := word_of_nat ((unat (f_tail rb) + ?a) mod ?N)\<rparr>)"
  proof (cases "?k < ?a")
    case True
    show ?thesis
      unfolding ring_buffer_write_def Let_def free Option.bind.simps amount seg1 b1(1)
      by (simp only: lt True if_True seg2 Option.bind.simps b1(2) tail)
  next
    case False
    then have "drop ?k ?ys = []" using ys by (simp only: drop_eq_Nil not_less)
    then have "buf1 = buf" using b1(2) by (simp add: wr_bytes_def)
    then show ?thesis
      unfolding ring_buffer_write_def Let_def free Option.bind.simps amount seg1 b1(1)
      by (simp only: lt False if_False Option.bind.simps tail)
  qed
  then show ?thesis using buf ys by auto
qed


text \<open>Reading: the loop walks round the array.\<close>

lemma fifo_read_loop_ok:
  assumes "fifo_ok rb"
  shows "unat h < length (f_buffer rb) \<Longrightarrow>
    fifo_read_loop (f_buffer rb) (f_size rb) n h = Some (ring (f_buffer rb) (unat h) n)"
proof (induction n arbitrary: h)
  case (Suc n)
  note ok = assms [unfolded fifo_ok_def]
  let ?h = "Suc (unat h) mod length (f_buffer rb)"
  have "umod (h + 1) (f_size rb) = Some (word_of_nat ?h)"
    using umod_index [of "f_size rb" "length (f_buffer rb)" h 1] ok Suc.prems by simp
  moreover have h: "?h < length (f_buffer rb)" using ok by simp
  moreover have "unat (word_of_nat ?h :: u32) = ?h"
    using h ok by (intro unat_of_nat_u32) linarith
  ultimately show ?case
    using Suc by (simp add: rd8_in ring_Suc)
qed simp

lemma ring_buffer_read_ok:
  assumes "fifo_ok rb" "n < 4294967296"
  shows "ring_buffer_read rb (word_of_nat n) = Some (take n (fifo_contents rb),
    rb\<lparr>f_head := word_of_nat ((unat (f_head rb) + min n (fifo_used rb)) mod length (f_buffer rb))\<rparr>)"
proof -
  note ok = assms(1) [unfolded fifo_ok_def] and used = fifo_used_facts [OF assms(1)]
  have small: "fifo_used rb < 4294967296" "min n (fifo_used rb) < 4294967296" using used(1) ok by auto
  have u: "ring_buffer_used_space rb = Some (word_of_nat (fifo_used rb))"
    using fifo_words(1) [OF assms(1)] by (simp add: ring_buffer_used_space_def)
  let ?m = "min n (fifo_used rb)"
  have amount: "min_macro (word_of_nat n) (word_of_nat (fifo_used rb)) = (word_of_nat ?m :: u32)"
    using assms(2) small by (simp only: word_unat_eq_iff unat_min_macro unat_of_nat_u32)
  have um: "unat (word_of_nat ?m :: u32) = ?m" using small by (intro unat_of_nat_u32)
  have loop: "fifo_read_loop (f_buffer rb) (f_size rb) ?m (f_head rb) = Some (take n (fifo_contents rb))"
    using fifo_read_loop_ok [OF assms(1)] ok by (simp add: fifo_contents_def take_ring)
  have consume: "ring_buffer_consume rb (word_of_nat ?m) = Some (rb\<lparr>f_head :=
      word_of_nat ((unat (f_head rb) + ?m) mod length (f_buffer rb))\<rparr>)"
  proof -
    have "unat (f_head rb) + ?m < 4294967296" using ok used(1) by linarith
    then show ?thesis using ok by (simp add: ring_buffer_consume_def umod_index del: of_nat_min)
  qed
  show ?thesis
  proof (cases "?m = 0")
    case True
    then have "(word_of_nat ?m :: u32) = 0" by simp
    moreover have "take n (fifo_contents rb) = []" using True by (cases "n = 0") (auto simp: fifo_contents_def min_def split: if_splits)
    moreover have "unat (f_head rb) mod length (f_buffer rb) = unat (f_head rb)" using ok by simp
    ultimately show ?thesis unfolding ring_buffer_read_def u Let_def Option.bind.simps amount
      using True by simp
  next
    case False
    then have "(word_of_nat ?m :: u32) \<noteq> 0" using um by (metis unat_0)
    then show ?thesis unfolding ring_buffer_read_def u Let_def Option.bind.simps amount um
      using loop consume by simp
  qed
qed


lemma fifo_ok_tail:
  assumes "fifo_ok rb" "length buf = length (f_buffer rb)" "t < length buf"
  shows "fifo_ok (rb\<lparr>f_buffer := buf, f_tail := word_of_nat t\<rparr>)"
proof -
  have "unat (word_of_nat t :: u32) = t"
    using assms by (intro unat_of_nat_u32) (simp add: fifo_ok_def)
  then show ?thesis using assms by (simp add: fifo_ok_def)
qed

lemma fifo_ok_head:
  assumes "fifo_ok rb" "h < length (f_buffer rb)"
  shows "fifo_ok (rb\<lparr>f_head := word_of_nat h\<rparr>)"
proof -
  have "unat (word_of_nat h :: u32) = h"
    using assms by (intro unat_of_nat_u32) (simp add: fifo_ok_def)
  then show ?thesis using assms by (simp add: fifo_ok_def)
qed

text \<open>How the number of bytes held moves with the indices.\<close>

lemma used_after:
  fixes N h u a :: nat
  assumes "h < N"
  shows "u + a < N \<Longrightarrow> (N - h + ((h + u) mod N + a) mod N) mod N = u + a"
    "u < N \<Longrightarrow> a \<le> u \<Longrightarrow> (N - (h + a) mod N + (h + u) mod N) mod N = u - a"
proof -
  show "(N - h + ((h + u) mod N + a) mod N) mod N = u + a" if "u + a < N"
  proof -
    have "(N - h + ((h + u) mod N + a) mod N) mod N = (N - h + (h + u + a)) mod N"
      by (simp add: mod_simps)
    also have "N - h + (h + u + a) = u + a + N" using assms by linarith
    finally show ?thesis using that by simp
  qed
  show "(N - (h + a) mod N + (h + u) mod N) mod N = u - a" if "u < N" "a \<le> u"
  proof -
    define x d where "x = (h + a) mod N" and "d = u - a"
    have x: "x \<le> N" using assms by (simp add: x_def less_imp_le)
    have "(h + u) mod N = (x + d) mod N"
      unfolding x_def d_def using that(2) by (subst mod_add_left_eq) simp
    then have "(N - x + (h + u) mod N) mod N = (N - x + (x + d)) mod N"
      by (simp only: mod_add_right_eq)
    also have "N - x + (x + d) = d + N" using x by linarith
    also have "(d + N) mod N = d"
    proof -
      have "d < N" using that by (simp add: d_def)
      then show ?thesis by simp
    qed
    finally show ?thesis by (simp only: x_def d_def)
  qed
qed

interpretation fifo_queue: bounded_queue fifo_ok fifo_contents fifo_cap fifo_put fifo_get "\<lambda>_. True" 4294967296
proof
  fix rb :: fifo and xs :: bytes and n :: nat
  assume ok: "fifo_ok rb"
  note okD = ok [unfolded fifo_ok_def] and used = fifo_used_facts [OF ok]
  show "length (fifo_contents rb) \<le> fifo_cap rb"
    using used(1) by (simp add: fifo_contents_def fifo_cap_def)
  { assume xs: "length xs < 4294967296"
    let ?a = "min (length xs) (fifo_cap rb - fifo_used rb)"
    let ?t = "(unat (f_tail rb) + ?a) mod length (f_buffer rb)"
    obtain buf where w: "ring_buffer_write rb xs (word_of_nat (length xs))
        = Some (word_of_nat ?a, rb\<lparr>f_buffer := buf, f_tail := word_of_nat ?t\<rparr>)"
      "length buf = length (f_buffer rb)"
      "ring buf (unat (f_head rb)) (fifo_used rb + ?a) = fifo_contents rb @ take (fifo_cap rb - fifo_used rb) xs"
      using ring_buffer_write_ok [OF ok xs] by blast
    let ?rb = "rb\<lparr>f_buffer := buf, f_tail := word_of_nat ?t\<rparr>"
    have t: "?t < length (f_buffer rb)" using okD by simp
    then have ok': "fifo_ok ?rb" using ok w(2) by (intro fifo_ok_tail) simp_all
    have ua: "unat (word_of_nat ?a :: u32) = ?a"
      using okD by (intro unat_of_nat_u32) (auto simp: fifo_cap_def)
    have ut: "unat (word_of_nat ?t :: u32) = ?t"
      using t okD by (intro unat_of_nat_u32) linarith
    have room: "fifo_used rb + ?a < length (f_buffer rb)"
      using used(1) by (auto simp: fifo_cap_def)
    have "fifo_used ?rb = fifo_used rb + ?a"
      using used_after(1) [OF _ room, of "unat (f_head rb)"] okD used(2) w(2) ut
      by (simp add: fifo_used_def [of ?rb])
    then have "fifo_contents ?rb = fifo_contents rb @ take (fifo_cap rb - fifo_used rb) xs"
      using w(3) by (simp add: fifo_contents_def [of ?rb])
    then show "\<exists>s'. fifo_put rb xs = Some (min (length xs) (fifo_cap rb - length (fifo_contents rb)), s')
        \<and> fifo_ok s' \<and> fifo_cap s' = fifo_cap rb
        \<and> fifo_contents s' = fifo_contents rb @ take (fifo_cap rb - length (fifo_contents rb)) xs"
      using w ok' ua by (simp add: fifo_put_def fifo_cap_def fifo_contents_def [of rb]) }
  { assume n: "n < 4294967296"
    let ?a = "min n (fifo_used rb)"
    let ?h = "(unat (f_head rb) + ?a) mod length (f_buffer rb)"
    let ?rb = "rb\<lparr>f_head := word_of_nat ?h\<rparr>"
    have h: "?h < length (f_buffer rb)" using okD by simp
    then have ok': "fifo_ok ?rb" using ok by (intro fifo_ok_head)
    have uh: "unat (word_of_nat ?h :: u32) = ?h"
      using h okD by (intro unat_of_nat_u32) linarith
    have "fifo_used ?rb = fifo_used rb - ?a"
      using used_after(2) [of "unat (f_head rb)" "length (f_buffer rb)" "fifo_used rb" ?a] okD used uh
      by (simp add: fifo_used_def [of ?rb])
    then have "fifo_contents ?rb = drop n (fifo_contents rb)"
      using uh by (simp add: fifo_contents_def drop_ring min_def)
    then show "\<exists>s'. fifo_get rb n = Some (take n (fifo_contents rb), s') \<and> fifo_ok s' \<and> fifo_cap s' = fifo_cap rb
        \<and> fifo_contents s' = drop n (fifo_contents rb)"
      using ring_buffer_read_ok [OF ok n] ok' by (simp add: fifo_get_def fifo_cap_def) }
qed


section \<open>Properties\<close>

text \<open>
  C23. The byte stream through the queue of fifo.c. Whatever the sequence of writes and reads after
  \<open>ring_buffer_init\<close> on an array of 1 to 2^31 bytes, every operation returns, no access is outside the
  array, and the bytes accepted by the writes are, in order and without loss or repetition, the
  bytes handed out by the reads followed by those still stored, of which there are at most size - 1.
\<close>

theorem fifo_stream:
  assumes "0 < length buffer" "length buffer \<le> 2147483648" "unat sz = length buffer"
    "ring_buffer_init (Some rb0) buffer sz = (r, Some rb)"
    "list_all (op_ok (\<lambda>_. True) 4294967296) ops"
  shows "\<exists>ins outs rb'. queue_run fifo_put fifo_get ops rb = Some (ins, outs, rb')
    \<and> ins = outs @ fifo_contents rb' \<and> length (fifo_contents rb') \<le> length buffer - 1"
proof -
  have rb: "rb = \<lparr>f_buffer = buffer, f_size = sz, f_head = 0, f_tail = 0\<rparr>"
    using assms(4) by (simp add: ring_buffer_init_def)
  have "fifo_ok rb" using assms(1-3) by (simp add: rb fifo_ok_def)
  moreover have "fifo_contents rb = []" by (simp add: rb fifo_contents_def fifo_used_def)
  moreover have "fifo_cap rb = length buffer - 1" by (simp add: rb fifo_cap_def)
  ultimately show ?thesis using fifo_queue.fifo_order [OF _ assms(5)] by fastforce
qed

definition demo_fifo :: fifo where
  "demo_fifo = \<lparr>f_buffer = [7, 8, 9, 6], f_size = 4, f_head = 3, f_tail = 1\<rparr>"

theorem fifo_stream_witness:
  "\<exists>ins outs rb'. queue_run fifo_put fifo_get [Put [1, 2, 3, 4], Get 2, Put [5, 6], Get 9]
      \<lparr>f_buffer = [0, 0, 0, 0], f_size = 4, f_head = 0, f_tail = 0\<rparr> = Some (ins, outs, rb')
    \<and> ins = outs @ fifo_contents rb' \<and> length (fifo_contents rb') \<le> length [0, 0, 0, 0 :: u8] - 1"
  by (rule fifo_stream [of _ 4 demo_fifo 0]) (simp_all add: ring_buffer_init_def)

text \<open>The counting functions, and the run of bytes that \<open>ring_buffer_get_data\<close> finds at the head.\<close>

lemma fifo_counts:
  assumes "fifo_ok rb"
  defines "used \<equiv> word_of_nat (fifo_used rb)" and "free \<equiv> word_of_nat (fifo_cap rb - fifo_used rb)"
  shows "ring_buffer_used_space rb = Some used" "ring_buffer_free_space rb = Some free"
    "ring_buffer_is_full rb = Some (free = 0)"
    "unat used = length (fifo_contents rb)" "unat free + unat used = unat (ring_buffer_total_size rb)"
proof -
  note ok = assms(1) [unfolded fifo_ok_def] and lt = fifo_used_facts(1) [OF assms(1)]
  have u: "unat used = fifo_used rb" "unat free = fifo_cap rb - fifo_used rb"
    unfolding used_def free_def fifo_cap_def using ok lt by (intro unat_of_nat_u32; linarith)+
  have total: "unat (ring_buffer_total_size rb) = fifo_cap rb"
    unfolding ring_buffer_total_size_def fifo_cap_def using ok by (subst unat_sub) (simp_all add: word_le_nat_alt)
  show ops: "ring_buffer_used_space rb = Some used" "ring_buffer_free_space rb = Some free"
    using fifo_words(1,2) [OF assms(1)]
    by (simp_all add: ring_buffer_used_space_def ring_buffer_free_space_def Let_def used_def free_def fifo_cap_def)
  have "(f_size rb - 1 \<le> used) = (fifo_cap rb \<le> fifo_used rb)"
    unfolding word_le_nat_alt u total [unfolded ring_buffer_total_size_def] ..
  also have "\<dots> = (fifo_cap rb - fifo_used rb = 0)" by simp
  also have "\<dots> = (free = 0)" unfolding u(2) [symmetric] unat_eq_zero ..
  finally show "ring_buffer_is_full rb = Some (free = 0)"
    by (simp only: ring_buffer_is_full_def ops bind.bind_lunit)
  show "unat used = length (fifo_contents rb)" by (simp add: u fifo_contents_def)
  show "unat free + unat used = unat (ring_buffer_total_size rb)"
    using lt unfolding u total by (simp add: fifo_cap_def)
qed

lemma fifo_consume_ok:
  assumes "fifo_ok rb" "unat k \<le> fifo_used rb"
  shows "\<exists>rb'. ring_buffer_consume rb k = Some rb' \<and> fifo_ok rb'
    \<and> fifo_contents rb' = drop (unat k) (fifo_contents rb)"
proof -
  note ok = assms(1) [unfolded fifo_ok_def] and used = fifo_used_facts [OF assms(1)]
  let ?N = "length (f_buffer rb)" and ?h = "unat (f_head rb)"
  let ?rb = "rb\<lparr>f_head := word_of_nat ((?h + unat k) mod ?N)\<rparr>"
  have small: "?h + unat k < 4294967296" "(?h + unat k) mod ?N < ?N"
    using ok used(1) assms(2) by auto
  then have "umod (f_head rb + word_of_nat (unat k)) (f_size rb) = Some (word_of_nat ((?h + unat k) mod ?N))"
    using ok by (intro umod_index) simp_all
  then have consume: "ring_buffer_consume rb k = Some ?rb"
    by (simp only: ring_buffer_consume_def word_of_nat_unat bind.bind_lunit)
  have uh: "unat (word_of_nat ((?h + unat k) mod ?N) :: u32) = (?h + unat k) mod ?N"
    using ok small by (intro unat_of_nat_u32) linarith
  have "fifo_used ?rb = fifo_used rb - unat k"
    using used_after(2) [of ?h ?N "fifo_used rb" "unat k"] ok used assms(2) uh
    by (simp add: fifo_used_def [of "rb\<lparr>f_head := _\<rparr>"])
  then have "fifo_contents ?rb = drop (unat k) (fifo_contents rb)"
    using uh by (simp add: fifo_contents_def drop_ring)
  then show ?thesis using consume fifo_ok_head [OF assms(1) small(2)] by blast
qed

lemma ring_prefix:
  "i + m \<le> length buf \<Longrightarrow> m \<le> n \<Longrightarrow> take m (ring buf i n) = take m (drop i buf)"
  by (rule nth_equalityI) auto

lemma fifo_front:
  assumes "fifo_ok rb"
  shows "\<exists>p k. ring_buffer_get_data rb = Some (p, k) \<and> unat p + unat k \<le> length (f_buffer rb)
    \<and> unat k \<le> fifo_used rb \<and> take (unat k) (drop (unat p) (f_buffer rb)) = take (unat k) (fifo_contents rb)
    \<and> (k = 0 \<longleftrightarrow> fifo_contents rb = [])"
proof -
  note ok = assms [unfolded fifo_ok_def] and lt = fifo_used_facts(1) [OF assms] and words = fifo_words [OF assms]
  define k where "k = min_macro (f_size rb - f_head rb) (word_of_nat (fifo_used rb))"
  have "unat (word_of_nat (fifo_used rb) :: u32) = fifo_used rb"
    using ok lt by (intro unat_of_nat_u32) linarith
  then have k: "unat k = min (length (f_buffer rb) - unat (f_head rb)) (fifo_used rb)"
    by (simp add: k_def words(3))
  have bound: "unat (f_head rb) + unat k \<le> length (f_buffer rb)" "unat k \<le> fifo_used rb"
    using ok k by linarith+
  have "(k = 0) = (fifo_used rb = 0)"
    unfolding unat_eq_zero [symmetric] k using ok by linarith
  moreover have "(fifo_used rb = 0) = (fifo_contents rb = [])"
    by (metis fifo_contents_def length_0_conv length_ring)
  moreover have "ring_buffer_get_data rb = Some (f_head rb, k)"
    by (simp add: ring_buffer_get_data_def Let_def words(1) k_def)
  moreover have "take (unat k) (drop (unat (f_head rb)) (f_buffer rb)) = take (unat k) (fifo_contents rb)"
    using ring_prefix [OF bound] by (simp add: fifo_contents_def)
  ultimately show ?thesis
    by (intro exI [of _ "f_head rb"] exI [of _ k]) (simp add: bound)
qed

text \<open>
  The accounting of fifo.c agrees with what is stored, whichever way the indices have wrapped:
  the used space is the number of bytes stored, the free space is what is left of size - 1, \<open>is_full\<close>
  holds exactly when nothing more fits, \<open>ring_buffer_get_data\<close> points at a run of bytes inside the
  array that are the first ones stored, and consuming that many of them removes just these.
\<close>

theorem fifo_accounting:
  assumes "fifo_ok rb"
  shows "\<exists>used free full p k rb'. ring_buffer_used_space rb = Some used \<and> unat used = length (fifo_contents rb)
    \<and> ring_buffer_free_space rb = Some free
    \<and> unat free + unat used = unat (ring_buffer_total_size rb)
    \<and> ring_buffer_is_full rb = Some full \<and> full = (free = 0)
    \<and> ring_buffer_get_data rb = Some (p, k) \<and> unat p + unat k \<le> length (f_buffer rb)
    \<and> take (unat k) (drop (unat p) (f_buffer rb)) = take (unat k) (fifo_contents rb)
    \<and> (k = 0 \<longleftrightarrow> fifo_contents rb = [])
    \<and> ring_buffer_consume rb k = Some rb' \<and> fifo_ok rb'
    \<and> fifo_contents rb' = drop (unat k) (fifo_contents rb)"
proof -
  note counts = fifo_counts [OF assms]
  obtain p k where front: "ring_buffer_get_data rb = Some (p, k)" "unat p + unat k \<le> length (f_buffer rb)"
    "unat k \<le> fifo_used rb" "take (unat k) (drop (unat p) (f_buffer rb)) = take (unat k) (fifo_contents rb)"
    "k = 0 \<longleftrightarrow> fifo_contents rb = []"
    using fifo_front [OF assms] by blast
  obtain rb' where "ring_buffer_consume rb k = Some rb'" "fifo_ok rb'"
    "fifo_contents rb' = drop (unat k) (fifo_contents rb)"
    using fifo_consume_ok [OF assms front(3)] by blast
  with counts front show ?thesis by (intro exI conjI) (assumption | rule refl)+
qed

theorem fifo_accounting_witness:
  "\<exists>used free full p k rb'. ring_buffer_used_space demo_fifo = Some used \<and> unat used = length (fifo_contents demo_fifo)
    \<and> ring_buffer_free_space demo_fifo = Some free
    \<and> unat free + unat used = unat (ring_buffer_total_size demo_fifo)
    \<and> ring_buffer_is_full demo_fifo = Some full \<and> full = (free = 0)
    \<and> ring_buffer_get_data demo_fifo = Some (p, k) \<and> unat p + unat k \<le> length (f_buffer demo_fifo)
    \<and> take (unat k) (drop (unat p) (f_buffer demo_fifo)) = take (unat k) (fifo_contents demo_fifo)
    \<and> (k = 0 \<longleftrightarrow> fifo_contents demo_fifo = [])
    \<and> ring_buffer_consume demo_fifo k = Some rb' \<and> fifo_ok rb'
    \<and> fifo_contents rb' = drop (unat k) (fifo_contents demo_fifo)"
  by (rule fifo_accounting) (simp add: demo_fifo_def fifo_ok_def)

end
