(* ===== verification/RtRing.thy ===== *)
theory RtRing
  imports Ring
begin

text \<open>
  The ring buffer of \<open>fun_buffer/rt_ringbuffer.c\<close>. It uses the whole array: each index has a mirror bit
  that flips when the index wraps round, and equal indices mean empty when the mirrors agree and full
  when they differ.

  The indices are 15-bit fields, \<open>buffer_size\<close> a positive \<open>int16_t\<close>: both are natural numbers here, and
  an assignment to an index keeps its low 15 bits (\<open>to15\<close>). The mirrors are one-bit fields: truth
  values, and \<open>~\<close> is negation. Lengths are \<open>uint16_t\<close> values. The blocks given to \<open>put\<close> come with a
  length of their own; the bytes \<open>get\<close> writes to the caller's array are part of its result.
\<close>

section \<open>State and operations\<close>

record ringbuffer =
  rb_buffer :: bytes
  rb_read_mirror :: bool
  rb_read_index :: nat
  rb_write_mirror :: bool
  rb_write_index :: nat
  rb_size :: nat

datatype ringbuffer_state = RINGBUFFER_EMPTY | RINGBUFFER_FULL | RINGBUFFER_HALFFULL

definition to15 :: "nat \<Rightarrow> nat" where
  "to15 n = n mod 32768"

definition align_down8 :: "nat \<Rightarrow> nat" where
  "align_down8 n = n div 8 * 8"

definition ringbuffer_status :: "ringbuffer \<Rightarrow> ringbuffer_state" where
  "ringbuffer_status rb =
     (if rb_read_index rb = rb_write_index rb
      then (if rb_read_mirror rb = rb_write_mirror rb then RINGBUFFER_EMPTY else RINGBUFFER_FULL)
      else RINGBUFFER_HALFFULL)"

text \<open>A failed \<open>assert\<close> ends the program: the model has no result then.\<close>

definition ringbuffer_init :: "bytes \<Rightarrow> int \<Rightarrow> ringbuffer option" where
  "ringbuffer_init pool sz =
     (if sz > 0 then Some \<lparr>rb_buffer = pool, rb_read_mirror = False, rb_read_index = 0,
        rb_write_mirror = False, rb_write_index = 0, rb_size = align_down8 (nat sz)\<rparr>
      else None)"

definition ringbuffer_data_len :: "ringbuffer \<Rightarrow> nat" where
  "ringbuffer_data_len rb = (case ringbuffer_status rb of
     RINGBUFFER_EMPTY \<Rightarrow> 0
   | RINGBUFFER_FULL \<Rightarrow> rb_size rb
   | RINGBUFFER_HALFFULL \<Rightarrow>
       if rb_write_index rb > rb_read_index rb then rb_write_index rb - rb_read_index rb
       else rb_size rb - (rb_read_index rb - rb_write_index rb))"

definition ringbuffer_space_len :: "ringbuffer \<Rightarrow> nat" where
  "ringbuffer_space_len rb = rb_size rb - ringbuffer_data_len rb"

definition ringbuffer_reset :: "ringbuffer \<Rightarrow> ringbuffer" where
  "ringbuffer_reset rb = rb\<lparr>rb_read_mirror := False, rb_read_index := 0,
     rb_write_mirror := False, rb_write_index := 0\<rparr>"

definition ringbuffer_get_size :: "ringbuffer \<Rightarrow> nat" where
  "ringbuffer_get_size rb = rb_size rb"

text \<open>The copy that \<open>put\<close> and \<open>put_force\<close> have in common: \<open>k\<close> bytes up to the end of the array.\<close>

definition ringbuffer_put :: "ringbuffer \<Rightarrow> bytes \<Rightarrow> nat \<Rightarrow> (nat \<times> ringbuffer) option" where
  "ringbuffer_put rb ptr length0 = (
     let sp = ringbuffer_space_len rb in
     if sp = 0 then Some (0, rb)
     else
       let len = (if sp < length0 then sp else length0);
           k = rb_size rb - rb_write_index rb in
       if k > len then do {
         seg \<leftarrow> rd_bytes ptr 0 len;
         buf \<leftarrow> wr_bytes (rb_buffer rb) (rb_write_index rb) seg;
         Some (len, rb\<lparr>rb_buffer := buf, rb_write_index := to15 (rb_write_index rb + len)\<rparr>) }
       else do {
         seg1 \<leftarrow> rd_bytes ptr 0 k;
         buf1 \<leftarrow> wr_bytes (rb_buffer rb) (rb_write_index rb) seg1;
         seg2 \<leftarrow> rd_bytes ptr k (len - k);
         buf2 \<leftarrow> wr_bytes buf1 0 seg2;
         Some (len, rb\<lparr>rb_buffer := buf2, rb_write_mirror := \<not> rb_write_mirror rb,
           rb_write_index := to15 (len - k)\<rparr>) })"

definition ringbuffer_put_force :: "ringbuffer \<Rightarrow> bytes \<Rightarrow> nat \<Rightarrow> (nat \<times> ringbuffer) option" where
  "ringbuffer_put_force rb ptr0 length0 = (
     let sp = ringbuffer_space_len rb;
         ptr = (if length0 > rb_size rb then drop (length0 - rb_size rb) ptr0 else ptr0);
         len = (if length0 > rb_size rb then rb_size rb else length0);
         k = rb_size rb - rb_write_index rb in
     if k > len then do {
       seg \<leftarrow> rd_bytes ptr 0 len;
       buf \<leftarrow> wr_bytes (rb_buffer rb) (rb_write_index rb) seg;
       let rb1 = rb\<lparr>rb_buffer := buf, rb_write_index := to15 (rb_write_index rb + len)\<rparr>;
       Some (len, if len > sp then rb1\<lparr>rb_read_index := rb_write_index rb1\<rparr> else rb1) }
     else do {
       seg1 \<leftarrow> rd_bytes ptr 0 k;
       buf1 \<leftarrow> wr_bytes (rb_buffer rb) (rb_write_index rb) seg1;
       seg2 \<leftarrow> rd_bytes ptr k (len - k);
       buf2 \<leftarrow> wr_bytes buf1 0 seg2;
       let rb1 = rb\<lparr>rb_buffer := buf2, rb_write_mirror := \<not> rb_write_mirror rb,
         rb_write_index := to15 (len - k)\<rparr>;
       Some (len, if len > sp then rb1\<lparr>rb_read_mirror := \<not> rb_read_mirror rb1,
           rb_read_index := rb_write_index rb1\<rparr> else rb1) })"

definition ringbuffer_get :: "ringbuffer \<Rightarrow> nat \<Rightarrow> (bytes \<times> ringbuffer) option" where
  "ringbuffer_get rb length0 = (
     let sz = ringbuffer_data_len rb in
     if sz = 0 then Some ([], rb)
     else
       let len = (if sz < length0 then sz else length0);
           k = rb_size rb - rb_read_index rb in
       if k > len then do {
         bs \<leftarrow> rd_bytes (rb_buffer rb) (rb_read_index rb) len;
         Some (bs, rb\<lparr>rb_read_index := to15 (rb_read_index rb + len)\<rparr>) }
       else do {
         bs1 \<leftarrow> rd_bytes (rb_buffer rb) (rb_read_index rb) k;
         bs2 \<leftarrow> rd_bytes (rb_buffer rb) 0 (len - k);
         Some (bs1 @ bs2, rb\<lparr>rb_read_mirror := \<not> rb_read_mirror rb,
           rb_read_index := to15 (len - k)\<rparr>) })"

definition ringbuffer_putchar :: "ringbuffer \<Rightarrow> u8 \<Rightarrow> (nat \<times> ringbuffer) option" where
  "ringbuffer_putchar rb ch = (
     if ringbuffer_space_len rb = 0 then Some (0, rb)
     else do {
       buf \<leftarrow> wr8 (rb_buffer rb) (rb_write_index rb) ch;
       let rb1 = rb\<lparr>rb_buffer := buf\<rparr>;
       Some (1, if rb_write_index rb = rb_size rb - 1
         then rb1\<lparr>rb_write_mirror := \<not> rb_write_mirror rb, rb_write_index := 0\<rparr>
         else rb1\<lparr>rb_write_index := to15 (rb_write_index rb + 1)\<rparr>) })"

definition ringbuffer_putchar_force :: "ringbuffer \<Rightarrow> u8 \<Rightarrow> (nat \<times> ringbuffer) option" where
  "ringbuffer_putchar_force rb ch = (
     let old_state = ringbuffer_status rb in do {
       buf \<leftarrow> wr8 (rb_buffer rb) (rb_write_index rb) ch;
       let rb1 = rb\<lparr>rb_buffer := buf\<rparr>;
       Some (1, if rb_write_index rb = rb_size rb - 1
         then let rb2 = rb1\<lparr>rb_write_mirror := \<not> rb_write_mirror rb, rb_write_index := 0\<rparr> in
           if old_state = RINGBUFFER_FULL
           then rb2\<lparr>rb_read_mirror := \<not> rb_read_mirror rb2, rb_read_index := rb_write_index rb2\<rparr> else rb2
         else let rb2 = rb1\<lparr>rb_write_index := to15 (rb_write_index rb + 1)\<rparr> in
           if old_state = RINGBUFFER_FULL then rb2\<lparr>rb_read_index := rb_write_index rb2\<rparr> else rb2) })"

definition ringbuffer_getchar :: "ringbuffer \<Rightarrow> (u8 option \<times> ringbuffer) option" where
  "ringbuffer_getchar rb = (
     if ringbuffer_data_len rb = 0 then Some (None, rb)
     else do {
       ch \<leftarrow> rd8 (rb_buffer rb) (rb_read_index rb);
       Some (Some ch, if rb_read_index rb = rb_size rb - 1
         then rb\<lparr>rb_read_mirror := \<not> rb_read_mirror rb, rb_read_index := 0\<rparr>
         else rb\<lparr>rb_read_index := to15 (rb_read_index rb + 1)\<rparr>) })"

text \<open>
  \<open>malloc\<close> of the structure may fail (\<open>struct_ok\<close>), and so may that of the pool (\<open>pool\<close>, which gives a
  block of the size asked for otherwise). The function returns \<open>NULL\<close> in the first case; in the second
  it frees the structure and still returns the pointer to it, which dangles. The \<open>uint16_t\<close> size is
  converted to the \<open>int16_t\<close> parameter of the initialisation.
\<close>

datatype created = Null | Dangling | Live ringbuffer

definition int16 :: "nat \<Rightarrow> int" where
  "int16 n = (if n < 32768 then int n else int n - 65536)"

definition ringbuffer_create :: "bool \<Rightarrow> (nat \<Rightarrow> bytes option) \<Rightarrow> nat \<Rightarrow> created option" where
  "ringbuffer_create struct_ok pool sz0 = (
     if sz0 = 0 then None
     else let sz = align_down8 sz0 in
       if \<not> struct_ok then Some Null
       else case pool sz of
         None \<Rightarrow> Some Dangling
       | Some p \<Rightarrow> map_option Live (ringbuffer_init p (int16 sz)))"

section \<open>The representation\<close>

definition rt_ok :: "ringbuffer \<Rightarrow> bool" where
  "rt_ok rb \<longleftrightarrow> length (rb_buffer rb) = rb_size rb \<and> rb_size rb < 32768
     \<and> (0 < rb_size rb \<longrightarrow> rb_read_index rb < rb_size rb \<and> rb_write_index rb < rb_size rb)
     \<and> (rb_size rb = 0 \<longrightarrow> rb_read_index rb = 0 \<and> rb_write_index rb = 0 \<and> rb_read_mirror rb = rb_write_mirror rb)
     \<and> (rb_read_mirror rb = rb_write_mirror rb \<longrightarrow> rb_read_index rb \<le> rb_write_index rb)
     \<and> (rb_read_mirror rb \<noteq> rb_write_mirror rb \<longrightarrow> rb_write_index rb \<le> rb_read_index rb)"

definition rt_contents :: "ringbuffer \<Rightarrow> bytes" where
  "rt_contents rb = ring (rb_buffer rb) (rb_read_index rb) (ringbuffer_data_len rb)"

lemma data_len_eq:
  assumes "rt_ok rb"
  shows "ringbuffer_data_len rb = (if rb_read_mirror rb = rb_write_mirror rb
    then rb_write_index rb - rb_read_index rb
    else rb_size rb - (rb_read_index rb - rb_write_index rb))"
  using assms by (auto simp: rt_ok_def ringbuffer_data_len_def ringbuffer_status_def)

lemma data_len_facts:
  assumes "rt_ok rb" "0 < rb_size rb"
  shows "ringbuffer_data_len rb \<le> rb_size rb"
    "(rb_read_index rb + ringbuffer_data_len rb) mod rb_size rb = rb_write_index rb"
  using assms unfolding data_len_eq [OF assms(1)] by (auto simp: rt_ok_def mod_if)

lemma to15_small [simp]: "n < 32768 \<Longrightarrow> to15 n = n"
  by (simp add: to15_def)

text \<open>The write index moved on by \<open>a\<close>, the mirror flipped when it wrapped.\<close>

definition advance_write :: "nat \<Rightarrow> ringbuffer \<Rightarrow> ringbuffer" where
  "advance_write a rb = (if rb_write_index rb + a < rb_size rb
     then rb\<lparr>rb_write_index := rb_write_index rb + a\<rparr>
     else rb\<lparr>rb_write_mirror := \<not> rb_write_mirror rb, rb_write_index := rb_write_index rb + a - rb_size rb\<rparr>)"

definition advance_read :: "nat \<Rightarrow> ringbuffer \<Rightarrow> ringbuffer" where
  "advance_read a rb = (if rb_read_index rb + a < rb_size rb
     then rb\<lparr>rb_read_index := rb_read_index rb + a\<rparr>
     else rb\<lparr>rb_read_mirror := \<not> rb_read_mirror rb, rb_read_index := rb_read_index rb + a - rb_size rb\<rparr>)"

lemma advance_write_ok:
  assumes "rt_ok rb" "ringbuffer_data_len rb + a \<le> rb_size rb" "0 < rb_size rb"
  shows "rt_ok (advance_write a rb)" "ringbuffer_data_len (advance_write a rb) = ringbuffer_data_len rb + a"
proof -
  show ok: "rt_ok (advance_write a rb)"
    using assms unfolding data_len_eq [OF assms(1)]
    by (auto simp: rt_ok_def advance_write_def split: if_splits)
  show "ringbuffer_data_len (advance_write a rb) = ringbuffer_data_len rb + a"
    using assms unfolding data_len_eq [OF assms(1)] data_len_eq [OF ok]
    by (auto simp: rt_ok_def advance_write_def split: if_splits)
qed

lemma advance_read_ok:
  assumes "rt_ok rb" "a \<le> ringbuffer_data_len rb" "0 < rb_size rb"
  shows "rt_ok (advance_read a rb)" "ringbuffer_data_len (advance_read a rb) = ringbuffer_data_len rb - a"
    "rb_read_index (advance_read a rb) = (rb_read_index rb + a) mod rb_size rb"
proof -
  show ok: "rt_ok (advance_read a rb)"
    using assms unfolding data_len_eq [OF assms(1)]
    by (auto simp: rt_ok_def advance_read_def split: if_splits)
  show "ringbuffer_data_len (advance_read a rb) = ringbuffer_data_len rb - a"
    using assms unfolding data_len_eq [OF assms(1)] data_len_eq [OF ok]
    by (auto simp: rt_ok_def advance_read_def split: if_splits)
  show "rb_read_index (advance_read a rb) = (rb_read_index rb + a) mod rb_size rb"
    using assms data_len_facts(1) [OF assms(1,3)] by (auto simp: rt_ok_def advance_read_def mod_if)
qed


section \<open>The operations\<close>

text \<open>The two branches of a copy in are one write that wraps round.\<close>

lemma copy_in:
  assumes "rt_ok rb" "0 < rb_size rb" "len \<le> rb_size rb" "len \<le> length ptr"
  defines "k \<equiv> rb_size rb - rb_write_index rb"
  obtains buf where "wrap_write (rb_buffer rb) (rb_write_index rb) (take len ptr) = Some buf"
    "length buf = length (rb_buffer rb)"
    "k > len \<Longrightarrow> wr_bytes (rb_buffer rb) (rb_write_index rb) (take len ptr) = Some buf"
    "\<not> k > len \<Longrightarrow> \<exists>buf1. wr_bytes (rb_buffer rb) (rb_write_index rb) (take k ptr) = Some buf1
       \<and> wr_bytes buf1 0 (take (len - k) (drop k ptr)) = Some buf"
proof -
  note ok = assms(1) [unfolded rt_ok_def]
  have w: "rb_write_index rb < length (rb_buffer rb)" "length (take len ptr) \<le> length (rb_buffer rb)"
    using ok assms(2-4) by auto
  obtain buf where buf: "wrap_write (rb_buffer rb) (rb_write_index rb) (take len ptr) = Some buf"
    "length buf = length (rb_buffer rb)"
    using wrap_write_nth [OF w] by blast
  have k: "k = length (rb_buffer rb) - rb_write_index rb" using ok by (simp add: k_def)
  have a: "wr_bytes (rb_buffer rb) (rb_write_index rb) (take len ptr) = Some buf" if "k > len"
    using buf(1) that assms(4) k wrap_write_plain [of "rb_write_index rb" "take len ptr" "rb_buffer rb"]
    by simp
  have b: "\<exists>buf1. wr_bytes (rb_buffer rb) (rb_write_index rb) (take k ptr) = Some buf1
       \<and> wr_bytes buf1 0 (take (len - k) (drop k ptr)) = Some buf" if "\<not> k > len"
    using buf(1) that k unfolding wrap_write_def Let_def
    by (auto simp: min_def drop_take split: Option.bind_splits)
  show ?thesis by (rule that [OF buf a b])
qed

lemma ringbuffer_put_ok:
  assumes "rt_ok rb" "length0 \<le> length ptr" "0 < rb_size rb"
  defines "a \<equiv> min length0 (ringbuffer_space_len rb)"
  shows "\<exists>buf. wrap_write (rb_buffer rb) (rb_write_index rb) (take a ptr) = Some buf
    \<and> length buf = length (rb_buffer rb)
    \<and> ringbuffer_put rb ptr length0 = Some (a, advance_write a (rb\<lparr>rb_buffer := buf\<rparr>))"
proof -
  note ok = assms(1) [unfolded rt_ok_def]
  have al: "a \<le> rb_size rb" "a \<le> length ptr"
    using assms(2) by (auto simp: a_def ringbuffer_space_len_def)
  let ?k = "rb_size rb - rb_write_index rb"
  obtain buf where buf: "wrap_write (rb_buffer rb) (rb_write_index rb) (take a ptr) = Some buf"
    "length buf = length (rb_buffer rb)"
    "?k > a \<Longrightarrow> wr_bytes (rb_buffer rb) (rb_write_index rb) (take a ptr) = Some buf"
    "\<not> ?k > a \<Longrightarrow> \<exists>buf1. wr_bytes (rb_buffer rb) (rb_write_index rb) (take ?k ptr) = Some buf1
       \<and> wr_bytes buf1 0 (take (a - ?k) (drop ?k ptr)) = Some buf"
    using copy_in [OF assms(1,3) al] by metis
  have len: "(if ringbuffer_space_len rb < length0 then ringbuffer_space_len rb else length0) = a"
    by (simp add: a_def min_def)
  have "ringbuffer_put rb ptr length0 = Some (a, advance_write a (rb\<lparr>rb_buffer := buf\<rparr>))"
  proof (cases "ringbuffer_space_len rb = 0")
    case True
    then have "a = 0" by (simp add: a_def)
    then have "buf = rb_buffer rb"
      using buf(1) ok assms(3) by (simp add: wrap_write_def wr_bytes_def Let_def)
    then show ?thesis using True \<open>a = 0\<close> ok assms(3) by (simp add: ringbuffer_put_def advance_write_def)
  next
    case space: False
    show ?thesis
    proof (cases "?k > a")
      case True
      then show ?thesis using space buf(3) al ok assms(3)
        unfolding ringbuffer_put_def Let_def len
        by (simp add: rd_bytes_def advance_write_def)
    next
      case False
      with buf(4) obtain buf1 where b1: "wr_bytes (rb_buffer rb) (rb_write_index rb) (take ?k ptr) = Some buf1"
        "wr_bytes buf1 0 (take (a - ?k) (drop ?k ptr)) = Some buf" by blast
      have "rb_write_index rb + a - rb_size rb = a - ?k" "a - ?k < 32768"
        using False ok assms(3) al by auto
      then show ?thesis using space b1 False al ok assms(3)
        unfolding ringbuffer_put_def Let_def len
        by (simp add: rd_bytes_def advance_write_def)
    qed
  qed
  with buf show ?thesis by blast
qed


lemma ringbuffer_get_ok:
  fixes n :: nat
  assumes "rt_ok rb"
  defines "a \<equiv> min n (ringbuffer_data_len rb)"
  shows "ringbuffer_get rb n = Some (take n (rt_contents rb),
    if ringbuffer_data_len rb = 0 then rb else advance_read a rb)"
proof (cases "ringbuffer_data_len rb = 0")
  case True
  then show ?thesis by (simp add: ringbuffer_get_def rt_contents_def)
next
  case False
  note ok = assms(1) [unfolded rt_ok_def]
  have pos: "0 < rb_size rb" using False assms(1) by (auto simp: data_len_eq rt_ok_def split: if_splits)
  have al: "a \<le> length (rb_buffer rb)"
    using data_len_facts(1) [OF assms(1) pos] ok by (simp add: a_def)
  have len: "(if ringbuffer_data_len rb < n then ringbuffer_data_len rb else n) = a"
    by (simp add: a_def min_def)
  let ?k = "rb_size rb - rb_read_index rb"
  have "wrap_read (rb_buffer rb) (rb_read_index rb) a = Some (take n (rt_contents rb))"
    using wrap_read_ring [OF _ al] ok pos by (simp add: rt_contents_def take_ring a_def)
  then have seg: "take (min a ?k) (drop (rb_read_index rb) (rb_buffer rb)) @ take (a - ?k) (rb_buffer rb)
      = take n (rt_contents rb)"
    using ok by (auto simp: wrap_read_def Let_def rd_bytes_def split: if_splits)
  show ?thesis
  proof (cases "?k > a")
    case True
    then show ?thesis using False seg ok pos al unfolding ringbuffer_get_def Let_def len
      by (simp add: rd_bytes_def advance_read_def)
  next
    case k: False
    have "rb_read_index rb + a - rb_size rb = a - ?k" "a - ?k < 32768" "a - ?k \<le> rb_size rb" "min a ?k = ?k"
      using k ok pos al by auto
    then show ?thesis using False k seg ok pos al unfolding ringbuffer_get_def Let_def len
      by (simp add: rd_bytes_def advance_read_def)
  qed
qed

text \<open>One byte at a time is the same as a block of one.\<close>

lemma wr8_wrap: "p < length buf \<Longrightarrow> wr8 buf p x = wrap_write buf p [x]"
  by (simp add: wrap_write_plain wr8_def wr_bytes_def upd_conv_take_nth_drop)

lemma ringbuffer_putchar_eq:
  assumes "rt_ok rb" "0 < rb_size rb"
  shows "ringbuffer_putchar rb ch = ringbuffer_put rb [ch] 1"
proof (cases "ringbuffer_space_len rb = 0")
  case True
  then show ?thesis by (simp add: ringbuffer_putchar_def ringbuffer_put_def)
next
  case False
  note ok = assms(1) [unfolded rt_ok_def]
  have a: "min 1 (ringbuffer_space_len rb) = 1" using False by simp
  obtain buf where "wrap_write (rb_buffer rb) (rb_write_index rb) [ch] = Some buf"
    "ringbuffer_put rb [ch] 1 = Some (1, advance_write 1 (rb\<lparr>rb_buffer := buf\<rparr>))"
    using ringbuffer_put_ok [OF assms(1) _ assms(2), of 1 "[ch]"] a by auto
  moreover have "rb_write_index rb = rb_size rb - 1 \<longleftrightarrow> \<not> Suc (rb_write_index rb) < rb_size rb"
    using ok assms(2) by linarith
  ultimately show ?thesis
    using False wr8_wrap [of "rb_write_index rb" "rb_buffer rb" ch] ok assms(2)
    by (simp add: ringbuffer_putchar_def advance_write_def Let_def)
qed

lemma ringbuffer_getchar_eq:
  assumes "rt_ok rb"
  shows "ringbuffer_getchar rb = map_option (map_prod (\<lambda>bs. case bs of [] \<Rightarrow> None | b # _ \<Rightarrow> Some b) id)
    (ringbuffer_get rb 1)"
proof (cases "ringbuffer_data_len rb = 0")
  case True
  then show ?thesis by (simp add: ringbuffer_getchar_def ringbuffer_get_def)
next
  case False
  note ok = assms(1) [unfolded rt_ok_def]
  have pos: "0 < rb_size rb" using False assms(1) by (auto simp: data_len_eq rt_ok_def split: if_splits)
  have "min 1 (ringbuffer_data_len rb) = 1" using False by simp
  moreover have "take 1 (rt_contents rb) = [rb_buffer rb ! rb_read_index rb]"
    using False ok pos by (auto simp: rt_contents_def ring_Suc neq0_conv gr0_conv_Suc)
  ultimately show ?thesis
    using False pos ok unfolding ringbuffer_get_ok [OF assms]
    by (auto simp: ringbuffer_getchar_def advance_read_def rd8_in)
qed


section \<open>A bounded queue\<close>

lemma data_len_0: "rt_ok rb \<Longrightarrow> rb_size rb = 0 \<Longrightarrow> ringbuffer_data_len rb = 0"
  by (simp add: data_len_eq rt_ok_def)

lemma length_rt_contents [simp]: "length (rt_contents rb) = ringbuffer_data_len rb"
  by (simp add: rt_contents_def)

lemma data_len_le: "rt_ok rb \<Longrightarrow> ringbuffer_data_len rb \<le> rb_size rb"
  by (cases "rb_size rb = 0") (auto dest: data_len_0 data_len_facts(1))

lemma rt_ok_buffer [simp]:
  "length buf = length (rb_buffer rb) \<Longrightarrow> rt_ok (rb\<lparr>rb_buffer := buf\<rparr>) = rt_ok rb"
  "ringbuffer_data_len (rb\<lparr>rb_buffer := buf\<rparr>) = ringbuffer_data_len rb"
  by (simp_all add: rt_ok_def ringbuffer_data_len_def ringbuffer_status_def)

lemma advance_simps [simp]:
  "rb_buffer (advance_write a rb) = rb_buffer rb" "rb_size (advance_write a rb) = rb_size rb"
  "rb_read_index (advance_write a rb) = rb_read_index rb"
  "rb_buffer (advance_read a rb) = rb_buffer rb" "rb_size (advance_read a rb) = rb_size rb"
  by (simp_all add: advance_write_def advance_read_def)

lemma written_contents:
  assumes "rt_ok rb" "0 < rb_size rb" "ringbuffer_data_len rb + length xs \<le> rb_size rb"
    "wrap_write (rb_buffer rb) (rb_write_index rb) xs = Some buf" "length buf = length (rb_buffer rb)"
  shows "rt_ok (advance_write (length xs) (rb\<lparr>rb_buffer := buf\<rparr>))"
    "rt_contents (advance_write (length xs) (rb\<lparr>rb_buffer := buf\<rparr>)) = rt_contents rb @ xs"
proof -
  note ok = assms(1) [unfolded rt_ok_def]
  let ?rb = "rb\<lparr>rb_buffer := buf\<rparr>"
  have adv: "rt_ok (advance_write (length xs) ?rb)"
    "ringbuffer_data_len (advance_write (length xs) ?rb) = ringbuffer_data_len rb + length xs"
    using advance_write_ok [of ?rb "length xs"] assms by simp_all
  have "ring buf (rb_read_index rb) (ringbuffer_data_len rb + length xs)
      = ring (rb_buffer rb) (rb_read_index rb) (ringbuffer_data_len rb) @ xs"
    using wrap_write_ring [of "rb_read_index rb" "rb_buffer rb" "ringbuffer_data_len rb" xs]
      data_len_facts(2) [OF assms(1,2)] ok assms(2-4) by auto
  then show "rt_contents (advance_write (length xs) ?rb) = rt_contents rb @ xs"
    by (simp add: rt_contents_def adv(2))
qed (use advance_write_ok [of "rb\<lparr>rb_buffer := buf\<rparr>" "length xs"] assms in simp)

lemma rt_put:
  assumes "rt_ok rb" "length0 \<le> length ptr"
  shows "\<exists>rb'. ringbuffer_put rb ptr length0 = Some (min length0 (rb_size rb - ringbuffer_data_len rb), rb')
    \<and> rt_ok rb' \<and> rb_size rb' = rb_size rb
    \<and> rt_contents rb' = rt_contents rb @ take (min length0 (rb_size rb - ringbuffer_data_len rb)) ptr"
proof (cases "rb_size rb = 0")
  case True
  then show ?thesis using assms by (simp add: ringbuffer_put_def ringbuffer_space_len_def)
next
  case False
  then have pos: "0 < rb_size rb" by simp
  define a where "a = min length0 (rb_size rb - ringbuffer_data_len rb)"
  obtain buf where buf: "wrap_write (rb_buffer rb) (rb_write_index rb) (take a ptr) = Some buf"
    "length buf = length (rb_buffer rb)"
    "ringbuffer_put rb ptr length0 = Some (a, advance_write a (rb\<lparr>rb_buffer := buf\<rparr>))"
    using ringbuffer_put_ok [OF assms pos] unfolding ringbuffer_space_len_def a_def by blast
  have "length (take a ptr) = a" "ringbuffer_data_len rb + a \<le> rb_size rb"
    using assms(2) data_len_le [OF assms(1)] by (auto simp: a_def)
  then have "rt_ok (advance_write a (rb\<lparr>rb_buffer := buf\<rparr>))"
    "rt_contents (advance_write a (rb\<lparr>rb_buffer := buf\<rparr>)) = rt_contents rb @ take a ptr"
    using written_contents [OF assms(1) pos _ buf(1,2)] by simp_all
  then show ?thesis using buf(3) unfolding a_def by simp
qed

lemma rt_get:
  assumes "rt_ok rb"
  shows "\<exists>rb'. ringbuffer_get rb n = Some (take n (rt_contents rb), rb')
    \<and> rt_ok rb' \<and> rb_size rb' = rb_size rb \<and> rt_contents rb' = drop n (rt_contents rb)"
proof (cases "ringbuffer_data_len rb = 0")
  case True
  then show ?thesis using ringbuffer_get_ok [OF assms] assms by (simp add: rt_contents_def)
next
  case False
  then have pos: "0 < rb_size rb" using data_len_0 [OF assms] by (cases "rb_size rb = 0") auto
  define a where "a = min n (ringbuffer_data_len rb)"
  have adv: "rt_ok (advance_read a rb)" "ringbuffer_data_len (advance_read a rb) = ringbuffer_data_len rb - a"
    "rb_read_index (advance_read a rb) = (rb_read_index rb + a) mod rb_size rb"
    using advance_read_ok [OF assms _ pos] by (simp_all add: a_def)
  have "rt_contents (advance_read a rb) = drop n (rt_contents rb)"
  proof -
    have "rt_contents (advance_read a rb) = drop a (rt_contents rb)"
      using assms by (simp add: rt_contents_def adv drop_ring rt_ok_def)
    also have "\<dots> = drop n (rt_contents rb)" by (simp add: a_def min_def)
    finally show ?thesis .
  qed
  then show ?thesis using ringbuffer_get_ok [OF assms] adv(1) False by (simp add: a_def)
qed

interpretation rt_queue: bounded_queue rt_ok rt_contents rb_size
  "\<lambda>rb xs. ringbuffer_put rb xs (length xs)" ringbuffer_get "\<lambda>_. True" 65536
proof
  fix rb :: ringbuffer and xs :: bytes
  assume ok: "rt_ok rb"
  show "\<exists>s'. ringbuffer_put rb xs (length xs)
        = Some (min (length xs) (rb_size rb - length (rt_contents rb)), s')
      \<and> rt_ok s' \<and> rb_size s' = rb_size rb
      \<and> rt_contents s' = rt_contents rb @ take (rb_size rb - length (rt_contents rb)) xs"
    using rt_put [OF ok order_refl, of xs] by (auto simp: min_def)
qed (use data_len_le rt_get in simp_all)


section \<open>Forced writes\<close>

text \<open>What a forced write ought to leave: the newest \<open>cap\<close> bytes.\<close>

definition newest :: "nat \<Rightarrow> bytes \<Rightarrow> bytes" where
  "newest n xs = drop (length xs - n) xs"

lemma newest_short: "length xs \<le> n \<Longrightarrow> newest n xs = xs"
  by (simp add: newest_def)

lemma newest_append: "newest n (xs @ newest n ys) = newest n (xs @ ys)"
  by (cases "length ys \<le> n") (simp_all add: newest_def)

definition overrun :: "nat \<Rightarrow> ringbuffer \<Rightarrow> ringbuffer" where
  "overrun a rb = (let rb1 = advance_write a rb in
     if rb_write_index rb + a < rb_size rb then rb1\<lparr>rb_read_index := rb_write_index rb1\<rparr>
     else rb1\<lparr>rb_read_mirror := \<not> rb_read_mirror rb1, rb_read_index := rb_write_index rb1\<rparr>)"

lemma ringbuffer_put_force_eq:
  assumes "rt_ok rb" "length0 \<le> length ptr" "0 < rb_size rb"
  defines "xs \<equiv> newest (rb_size rb) (take length0 ptr)"
  shows "\<exists>buf. wrap_write (rb_buffer rb) (rb_write_index rb) xs = Some buf
    \<and> length buf = length (rb_buffer rb)
    \<and> ringbuffer_put_force rb ptr length0 = Some (length xs,
        if length xs > ringbuffer_space_len rb then overrun (length xs) (rb\<lparr>rb_buffer := buf\<rparr>)
        else advance_write (length xs) (rb\<lparr>rb_buffer := buf\<rparr>))"
proof -
  note ok = assms(1) [unfolded rt_ok_def]
  define p where "p = (if length0 > rb_size rb then drop (length0 - rb_size rb) ptr else ptr)"
  define len where "len = (if length0 > rb_size rb then rb_size rb else length0)"
  have len: "len \<le> rb_size rb" "len \<le> length p" using assms(2) by (auto simp: p_def len_def)
  have xs: "xs = take len p" "length xs = len"
    using assms(2) by (auto simp: xs_def newest_def p_def len_def drop_take min_def)
  let ?k = "rb_size rb - rb_write_index rb"
  obtain buf where buf: "wrap_write (rb_buffer rb) (rb_write_index rb) (take len p) = Some buf"
    "length buf = length (rb_buffer rb)"
    "?k > len \<Longrightarrow> wr_bytes (rb_buffer rb) (rb_write_index rb) (take len p) = Some buf"
    "\<not> ?k > len \<Longrightarrow> \<exists>buf1. wr_bytes (rb_buffer rb) (rb_write_index rb) (take ?k p) = Some buf1
       \<and> wr_bytes buf1 0 (take (len - ?k) (drop ?k p)) = Some buf"
    using copy_in [OF assms(1,3) len] by metis
  have eq: "ringbuffer_put_force rb ptr length0 = Some (len,
        if len > ringbuffer_space_len rb then overrun len (rb\<lparr>rb_buffer := buf\<rparr>)
        else advance_write len (rb\<lparr>rb_buffer := buf\<rparr>))"
  proof (cases "?k > len")
    case True
    then have w: "rb_write_index rb + len < rb_size rb" "rb_write_index rb + len < 32768"
      using ok by auto
    have rd: "rd_bytes p 0 len = Some (take len p)" using len by (simp add: rd_bytes_def)
    show ?thesis
      unfolding ringbuffer_put_force_def Let_def p_def [symmetric] len_def [symmetric] if_P [OF True] rd
        buf(3) [OF True] bind.bind_lunit overrun_def advance_write_def
      using w by simp
  next
    case False
    with buf(4) obtain buf1 where b1: "wr_bytes (rb_buffer rb) (rb_write_index rb) (take ?k p) = Some buf1"
      "wr_bytes buf1 0 (take (len - ?k) (drop ?k p)) = Some buf" by blast
    have rd: "rd_bytes p 0 ?k = Some (take ?k p)"
      "rd_bytes p ?k (len - ?k) = Some (take (len - ?k) (drop ?k p))"
      using False len by (auto simp: rd_bytes_def)
    define m where "m = len - ?k"
    have w: "rb_write_index rb + len - rb_size rb = m" "m < 32768"
      "\<not> rb_write_index rb + len < rb_size rb"
      using False ok assms(3) len by (auto simp: m_def)
    define adv where "adv = advance_write len (rb\<lparr>rb_buffer := buf\<rparr>)"
    have adv: "rb\<lparr>rb_buffer := buf, rb_write_mirror := \<not> rb_write_mirror rb, rb_write_index := to15 m\<rparr> = adv"
      using w by (simp add: adv_def advance_write_def)
    have over: "overrun len (rb\<lparr>rb_buffer := buf\<rparr>)
        = adv\<lparr>rb_read_mirror := \<not> rb_read_mirror adv, rb_read_index := rb_write_index adv\<rparr>"
      unfolding overrun_def Let_def adv_def using w(3) by (subst if_not_P) simp_all
    show ?thesis
      unfolding ringbuffer_put_force_def Let_def p_def [symmetric] len_def [symmetric] if_not_P [OF False]
      unfolding m_def [symmetric] over adv_def [symmetric]
      unfolding rd [folded m_def] b1 [folded m_def] bind.bind_lunit adv by (rule refl)
  qed
  show ?thesis unfolding xs(2) by (rule exI [of _ buf]) (intro conjI eq buf(1,2) [folded xs(1)])
qed

text \<open>
  While the mirrors differ (the write index has gone round and is behind the read index) an overrun
  leaves a full buffer whose oldest byte is at the new write index.
\<close>

lemma overrun_full:
  assumes "rt_ok rb" "0 < rb_size rb" "length xs \<le> rb_size rb"
    "rb_read_mirror rb \<noteq> rb_write_mirror rb" "rb_size rb < ringbuffer_data_len rb + length xs"
    "wrap_write (rb_buffer rb) (rb_write_index rb) xs = Some buf" "length buf = length (rb_buffer rb)"
  defines "rb' \<equiv> overrun (length xs) (rb\<lparr>rb_buffer := buf\<rparr>)"
  shows "rt_ok rb'" "ringbuffer_status rb' = RINGBUFFER_FULL"
    "rt_contents rb' = newest (rb_size rb) (rt_contents rb @ xs)"
proof -
  note ok = assms(1) [unfolded rt_ok_def]
  have w': "rb_read_index rb' = (rb_write_index rb + length xs) mod rb_size rb"
    "rb_write_index rb' = rb_read_index rb'" "rb_size rb' = rb_size rb" "rb_buffer rb' = buf"
    "rb_read_mirror rb' \<noteq> rb_write_mirror rb'"
    using ok assms(2-4) by (auto simp: rb'_def overrun_def advance_write_def Let_def mod_if)
  then show ok': "rt_ok rb'" using ok assms(2,7) by (simp add: rt_ok_def)
  show full: "ringbuffer_status rb' = RINGBUFFER_FULL"
    using w' by (simp add: ringbuffer_status_def)
  let ?N = "rb_size rb" and ?n = "ringbuffer_data_len rb"
  have "rt_contents rb' = ring buf ((rb_write_index rb + length xs) mod ?N) ?N"
    using full w' by (simp add: rt_contents_def ringbuffer_data_len_def)
  also have "\<dots> = ring (rb_buffer rb) ((rb_write_index rb + length xs) mod ?N) (?N - length xs) @ xs"
    using wrap_write_shift [OF _ _ assms(6)] ok assms(2,3) by simp
  also have "(rb_write_index rb + length xs) mod ?N = (rb_read_index rb + (?n + length xs - ?N)) mod ?N"
  proof -
    have "(rb_write_index rb + length xs) mod ?N = (rb_read_index rb + ?n + length xs) mod ?N"
      using data_len_facts(2) [OF assms(1,2)] by (metis mod_add_left_eq)
    also have "rb_read_index rb + ?n + length xs = rb_read_index rb + (?n + length xs - ?N) + ?N"
      using assms(5) by linarith
    finally show ?thesis by simp
  qed
  also have "ring (rb_buffer rb) \<dots> (?N - length xs) = drop (?n + length xs - ?N) (rt_contents rb)"
    using ok assms(3,5) data_len_le [OF assms(1)] by (simp add: rt_contents_def drop_ring)
  finally show "rt_contents rb' = newest ?N (rt_contents rb @ xs)"
    using assms(3) by (simp add: newest_def)
qed

text \<open>While they agree, an overrun always wraps, and flips both: the buffer counts as empty.\<close>

lemma overrun_empty:
  assumes "rt_ok rb" "0 < rb_size rb" "length xs \<le> rb_size rb"
    "rb_read_mirror rb = rb_write_mirror rb" "rb_size rb < ringbuffer_data_len rb + length xs"
    "length buf = length (rb_buffer rb)"
  defines "rb' \<equiv> overrun (length xs) (rb\<lparr>rb_buffer := buf\<rparr>)"
  shows "rt_ok rb'" "ringbuffer_data_len rb' = 0"
  using assms(1-6) unfolding data_len_eq [OF assms(1)]
  by (auto simp: rb'_def overrun_def advance_write_def Let_def rt_ok_def ringbuffer_data_len_def
      ringbuffer_status_def)

lemma rt_put_force:
  assumes "rt_ok rb" "length0 \<le> length ptr" "0 < rb_size rb"
  defines "len \<equiv> min length0 (rb_size rb)"
  shows "\<exists>rb'. ringbuffer_put_force rb ptr length0 = Some (len, rb')
    \<and> rt_ok rb' \<and> rb_size rb' = rb_size rb
    \<and> rt_contents rb' =
        (if rb_size rb < ringbuffer_data_len rb + len \<and> rb_read_mirror rb = rb_write_mirror rb then []
         else newest (rb_size rb) (rt_contents rb @ take length0 ptr))"
proof -
  define xs where "xs = newest (rb_size rb) (take length0 ptr)"
  have l: "length xs = len" "length xs \<le> rb_size rb"
    using assms(2) by (auto simp: xs_def newest_def len_def)
  note le = data_len_le [OF assms(1)]
  have over: "length xs > ringbuffer_space_len rb \<longleftrightarrow> rb_size rb < ringbuffer_data_len rb + len"
    using le unfolding l ringbuffer_space_len_def by linarith
  have new: "newest (rb_size rb) (rt_contents rb @ take length0 ptr) = newest (rb_size rb) (rt_contents rb @ xs)"
    by (simp add: xs_def newest_append)
  obtain buf where buf: "wrap_write (rb_buffer rb) (rb_write_index rb) xs = Some buf"
    "length buf = length (rb_buffer rb)"
    "ringbuffer_put_force rb ptr length0 = Some (length xs,
        if length xs > ringbuffer_space_len rb then overrun (length xs) (rb\<lparr>rb_buffer := buf\<rparr>)
        else advance_write (length xs) (rb\<lparr>rb_buffer := buf\<rparr>))"
    using ringbuffer_put_force_eq [OF assms(1-3)] unfolding xs_def by blast
  note buf = buf(1,2) buf(3) [unfolded over]
  have sz: "rb_size (overrun a r) = rb_size r" for a r by (simp add: overrun_def Let_def)
  show ?thesis
  proof (cases "rb_size rb < ringbuffer_data_len rb + len")
    case False
    then have "ringbuffer_data_len rb + length xs \<le> rb_size rb" by (simp add: l)
    from written_contents [OF assms(1,3) this buf(1,2)] False this show ?thesis
      unfolding buf(3) new by (simp add: l newest_short)
  next
    case True
    then have o: "rb_size rb < ringbuffer_data_len rb + length xs" by (simp add: l)
    show ?thesis
    proof (cases "rb_read_mirror rb = rb_write_mirror rb")
      case agree: True
      show ?thesis using overrun_empty [OF assms(1,3) l(2) agree o buf(2)] True agree
        unfolding buf(3) new by (simp add: l sz rt_contents_def)
    next
      case False
      show ?thesis using overrun_full [OF assms(1,3) l(2) False o buf(1,2)] True False
        unfolding buf(3) new by (simp add: l sz)
    qed
  qed
qed

text \<open>The one-byte version tests for a full buffer, and is right.\<close>

lemma rt_putchar_force:
  assumes "rt_ok rb" "0 < rb_size rb"
  shows "\<exists>rb'. ringbuffer_putchar_force rb ch = Some (1, rb')
    \<and> rt_ok rb' \<and> rb_size rb' = rb_size rb \<and> rt_contents rb' = newest (rb_size rb) (rt_contents rb @ [ch])"
proof -
  note ok = assms(1) [unfolded rt_ok_def]
  note le = data_len_le [OF assms(1)]
  obtain buf where buf: "wrap_write (rb_buffer rb) (rb_write_index rb) [ch] = Some buf"
    "length buf = length (rb_buffer rb)"
    using wrap_write_nth [of "rb_write_index rb" "rb_buffer rb" "[ch]"] ok assms(2) by auto
  have w: "wr8 (rb_buffer rb) (rb_write_index rb) ch = Some buf"
    using buf(1) wr8_wrap [of "rb_write_index rb" "rb_buffer rb" ch] ok assms(2) by simp
  have idx: "rb_write_index rb = rb_size rb - 1 \<longleftrightarrow> \<not> Suc (rb_write_index rb) < rb_size rb"
    using ok assms(2) by linarith
  have full: "ringbuffer_status rb = RINGBUFFER_FULL \<longleftrightarrow> rb_size rb < ringbuffer_data_len rb + 1"
    using ok assms(2) unfolding data_len_eq [OF assms(1)] by (auto simp: ringbuffer_status_def)
  have eq: "ringbuffer_putchar_force rb ch = Some (1, if ringbuffer_status rb = RINGBUFFER_FULL
      then overrun 1 (rb\<lparr>rb_buffer := buf\<rparr>) else advance_write 1 (rb\<lparr>rb_buffer := buf\<rparr>))"
    using w idx ok assms(2)
    by (cases "Suc (rb_write_index rb) < rb_size rb")
      (simp_all add: ringbuffer_putchar_force_def overrun_def advance_write_def Let_def)
  have sz: "rb_size (overrun a r) = rb_size r" for a r by (simp add: overrun_def Let_def)
  show ?thesis
  proof (cases "ringbuffer_status rb = RINGBUFFER_FULL")
    case True
    then have m: "rb_read_mirror rb \<noteq> rb_write_mirror rb" by (auto simp: ringbuffer_status_def split: if_splits)
    from True overrun_full [OF assms(1,2) _ m _ buf(1,2)] full assms(2) show ?thesis
      unfolding eq by (simp add: sz)
  next
    case False
    then have "ringbuffer_data_len rb + length [ch] \<le> rb_size rb" using full by simp
    from written_contents [OF assms this buf] False this show ?thesis
      unfolding eq by (simp add: newest_short)
  qed
qed


section \<open>Properties\<close>

text \<open>
  C24. The byte stream through the mirrored ring buffer. After \<open>ringbuffer_init\<close> with a pool of the
  aligned size, whatever the sequence of \<open>ringbuffer_put\<close> and \<open>ringbuffer_get\<close>, every call returns
  without an access outside the pool, and the bytes accepted are, in order and without loss or
  repetition, the bytes handed out followed by those still stored. The whole pool is used: what every
  \<open>ringbuffer_put\<close> accepts and every \<open>ringbuffer_get\<close> hands out is, byte by byte, what a list does that takes
  all bytes offered as long as it holds fewer than the pool has, and never more.
\<close>

theorem ringbuffer_stream:
  assumes "ringbuffer_init pool sz = Some rb" "sz < 32768" "length pool = align_down8 (nat sz)"
    "list_all (op_ok (\<lambda>_. True) 65536) ops"
  shows "\<exists>ins outs rb'. queue_run (\<lambda>rb xs. ringbuffer_put rb xs (length xs)) ringbuffer_get ops rb = Some (ins, outs, rb')
    \<and> ins = outs @ rt_contents rb' \<and> ringbuffer_data_len rb' = length ins - length outs
    \<and> ringbuffer_data_len rb' \<le> length pool
    \<and> (ins, outs, rt_contents rb') = bounded_fifo (length pool) [] ops"
proof -
  have rb: "rb = \<lparr>rb_buffer = pool, rb_read_mirror = False, rb_read_index = 0,
        rb_write_mirror = False, rb_write_index = 0, rb_size = align_down8 (nat sz)\<rparr>"
    using assms(1) by (simp add: ringbuffer_init_def split: if_splits)
  have "align_down8 (nat sz) < 32768"
    using assms(2) by (auto simp: align_down8_def intro: le_less_trans [OF div_times_less_eq_dividend])
  then have "rt_ok rb" using assms(3) by (simp add: rb rt_ok_def)
  moreover have "rt_contents rb = []" "rb_size rb = length pool"
    using assms(3) by (simp_all add: rb rt_contents_def ringbuffer_data_len_def ringbuffer_status_def)
  ultimately show ?thesis using rt_queue.fifo_order [OF _ assms(4)] rt_queue.fifo_exact [OF _ assms(4)] by fastforce
qed

theorem ringbuffer_stream_witness:
  "\<exists>ins outs rb'. queue_run (\<lambda>rb xs. ringbuffer_put rb xs (length xs)) ringbuffer_get
      [Put [1, 2, 3, 4, 5, 6], Get 4, Put [7, 8, 9, 10, 11, 12, 13], Get 3]
      \<lparr>rb_buffer = replicate 8 0, rb_read_mirror = False, rb_read_index = 0,
        rb_write_mirror = False, rb_write_index = 0, rb_size = 8\<rparr> = Some (ins, outs, rb')
    \<and> ins = outs @ rt_contents rb' \<and> ringbuffer_data_len rb' = length ins - length outs
    \<and> ringbuffer_data_len rb' = 5 \<and> outs = [1, 2, 3, 4, 5, 6, 7]"
proof -
  let ?rb = "\<lparr>rb_buffer = replicate 8 0, rb_read_mirror = False, rb_read_index = 0,
        rb_write_mirror = False, rb_write_index = 0, rb_size = 8\<rparr>"
  let ?ops = "[Put [1, 2, 3, 4, 5, 6], Get 4, Put [7, 8, 9, 10, 11, 12, 13], Get 3]"
  have "ringbuffer_init (replicate 8 0) 10 = Some ?rb" by (simp add: ringbuffer_init_def align_down8_def)
  then obtain ins outs rb' where r: "queue_run (\<lambda>rb xs. ringbuffer_put rb xs (length xs)) ringbuffer_get ?ops ?rb = Some (ins, outs, rb')"
      "ins = outs @ rt_contents rb'" "ringbuffer_data_len rb' = length ins - length outs"
      "(ins, outs, rt_contents rb') = bounded_fifo (length (replicate 8 (0::u8))) [] ?ops"
    using ringbuffer_stream [of "replicate 8 0" 10 ?rb ?ops] by (auto simp: align_down8_def)
  from r(4) have v: "ins = [1, 2, 3, 4, 5, 6, 7, 8, 9, 10, 11, 12]" "outs = [1, 2, 3, 4, 5, 6, 7]" by simp_all
  then have "ringbuffer_data_len rb' = 5" unfolding r(3) by simp
  with r(1-3) v(2) show ?thesis by blast
qed

definition demo_ring :: "bool \<Rightarrow> ringbuffer" where
  "demo_ring m = \<lparr>rb_buffer = [11, 12, 13, 14, 15, 16, 17, 18], rb_read_mirror = False, rb_read_index = 5,
     rb_write_mirror = m, rb_write_index = (if m then 3 else 7), rb_size = 8\<rparr>"

lemma demo_ring_ok: "rt_ok (demo_ring m)" "0 < rb_size (demo_ring m)"
  by (auto simp: demo_ring_def rt_ok_def)

text \<open>
  The one-byte operations of the ring buffer are the block operations for one byte: \<open>putchar\<close>
  stores, counts and flips the mirror as \<open>put\<close> of one byte does, and \<open>getchar\<close> delivers what \<open>get\<close>
  of one byte delivers, or reports an empty buffer where \<open>get\<close> returns nothing.
\<close>

theorem one_byte_operations:
  assumes "rt_ok rb" "0 < rb_size rb"
  shows "ringbuffer_putchar rb ch = ringbuffer_put rb [ch] 1
    \<and> ringbuffer_getchar rb = map_option (map_prod (\<lambda>bs. case bs of [] \<Rightarrow> None | b # _ \<Rightarrow> Some b) id)
        (ringbuffer_get rb 1)"
  using ringbuffer_putchar_eq [OF assms] ringbuffer_getchar_eq [OF assms(1)] by simp

theorem one_byte_operations_witness:
  "ringbuffer_putchar (demo_ring True) 7 = ringbuffer_put (demo_ring True) [7] 1
    \<and> ringbuffer_getchar (demo_ring True) = map_option (map_prod (\<lambda>bs. case bs of [] \<Rightarrow> None | b # _ \<Rightarrow> Some b) id)
        (ringbuffer_get (demo_ring True) 1)"
  by (rule one_byte_operations [OF demo_ring_ok])

text \<open>
  \<open>ringbuffer_putchar_force\<close> always stores its byte: afterwards the buffer holds the newest
  \<open>buffer_size\<close> bytes of what it held followed by the new one, the oldest byte being dropped exactly
  when the buffer was full.
\<close>

theorem putchar_force_keeps_newest:
  assumes "rt_ok rb" "0 < rb_size rb"
  shows "\<exists>rb'. ringbuffer_putchar_force rb ch = Some (1, rb') \<and> rt_ok rb' \<and> rb_size rb' = rb_size rb
    \<and> rt_contents rb' = (if ringbuffer_status rb = RINGBUFFER_FULL then tl (rt_contents rb) @ [ch]
        else rt_contents rb @ [ch])"
proof -
  obtain rb' where rb': "ringbuffer_putchar_force rb ch = Some (1, rb')" "rt_ok rb'" "rb_size rb' = rb_size rb"
    "rt_contents rb' = newest (rb_size rb) (rt_contents rb @ [ch])"
    using rt_putchar_force [OF assms] by blast
  have "ringbuffer_data_len rb = rb_size rb \<longleftrightarrow> ringbuffer_status rb = RINGBUFFER_FULL"
    using assms unfolding data_len_eq [OF assms(1)] by (auto simp: ringbuffer_status_def rt_ok_def)
  moreover have "Suc (ringbuffer_data_len rb) - rb_size rb = (if ringbuffer_data_len rb = rb_size rb then 1 else 0)"
    using data_len_le [OF assms(1)] by auto
  ultimately have "newest (rb_size rb) (rt_contents rb @ [ch])
      = (if ringbuffer_status rb = RINGBUFFER_FULL then tl (rt_contents rb) @ [ch] else rt_contents rb @ [ch])"
    using data_len_le [OF assms(1)] assms(2) by (simp add: newest_def drop_Suc)
  with rb' show ?thesis by auto
qed

theorem putchar_force_keeps_newest_witness:
  "\<exists>rb'. ringbuffer_putchar_force (demo_ring True) 7 = Some (1, rb') \<and> rt_ok rb' \<and> rb_size rb' = rb_size (demo_ring True)
    \<and> rt_contents rb' = (if ringbuffer_status (demo_ring True) = RINGBUFFER_FULL then tl (rt_contents (demo_ring True)) @ [7]
        else rt_contents (demo_ring True) @ [7])"
  by (rule putchar_force_keeps_newest [OF demo_ring_ok])

text \<open>
  \<open>ringbuffer_put_force\<close> of a block keeps the newest \<open>buffer_size\<close> bytes, as it means to, except
  in one case, where it loses everything: if the data does not fit while the two mirror bits agree,
  both bits are flipped and the indices made equal, which is the representation of the empty buffer,
  so that neither the old bytes nor the ones just written can be read. The call still returns the
  number of bytes written.
\<close>

theorem put_force_outcome:
  assumes "rt_ok rb" "length0 \<le> length ptr" "0 < rb_size rb"
  defines "len \<equiv> min length0 (rb_size rb)"
  shows "\<exists>rb'. ringbuffer_put_force rb ptr length0 = Some (len, rb')
    \<and> rt_ok rb' \<and> rb_size rb' = rb_size rb
    \<and> rt_contents rb' =
        (if ringbuffer_space_len rb < len \<and> rb_read_mirror rb = rb_write_mirror rb then []
         else drop (ringbuffer_data_len rb + length0 - rb_size rb) (rt_contents rb @ take length0 ptr))"
proof -
  have "rb_size rb < ringbuffer_data_len rb + len \<longleftrightarrow> ringbuffer_space_len rb < len"
    using data_len_le [OF assms(1)] unfolding ringbuffer_space_len_def by linarith
  moreover have "newest (rb_size rb) (rt_contents rb @ take length0 ptr)
      = drop (ringbuffer_data_len rb + length0 - rb_size rb) (rt_contents rb @ take length0 ptr)"
    using assms(2) by (simp add: newest_def min_absorb2)
  ultimately show ?thesis using rt_put_force [OF assms(1-3)] unfolding len_def by (simp only:)
qed

theorem put_force_outcome_witness:
  "\<exists>rb'. ringbuffer_put_force (demo_ring False) [1, 2, 3, 4, 5, 6, 7] 7 = Some (min 7 (rb_size (demo_ring False)), rb')
    \<and> rt_ok rb' \<and> rb_size rb' = rb_size (demo_ring False)
    \<and> rt_contents rb' =
        (if ringbuffer_space_len (demo_ring False) < min 7 (rb_size (demo_ring False))
            \<and> rb_read_mirror (demo_ring False) = rb_write_mirror (demo_ring False) then []
         else drop (ringbuffer_data_len (demo_ring False) + 7 - rb_size (demo_ring False))
           (rt_contents (demo_ring False) @ take 7 [1, 2, 3, 4, 5, 6, 7]))"
  by (rule put_force_outcome [OF demo_ring_ok(1) _ demo_ring_ok(2)]) simp

end
