(* ===== verification/RingBuffer1.thy ===== *)
theory RingBuffer1
  imports Ring
begin

text \<open>
  The item queue of \<open>fun_buffer/ringbuffer1.c\<close>: \<open>count\<close> items of \<open>itemSz\<close> bytes, \<open>head\<close> and \<open>tail\<close>
  unsigned 32-bit counters that run freely and wrap; the position in the array is the counter masked
  with \<open>count - 1\<close>, so \<open>count\<close> is a power of two.

  C's \<open>int\<close> values are integers here, and conversions between \<open>int\<close> and \<open>uint32_t\<close> are written out
  (\<open>word_of_int\<close>, \<open>sint\<close>). The size of a \<open>memcpy\<close> is partial: a negative \<open>int\<close> becomes a size no
  object has (\<open>mem_size\<close>).
\<close>

section \<open>State and operations\<close>

record ringbuff =
  r_data :: bytes
  r_count :: int
  r_itemSz :: int
  r_head :: u32
  r_tail :: u32

definition mem_size :: "int \<Rightarrow> nat option" where
  "mem_size n = (if n < 0 then None else Some (nat n))"

definition RingBuffer_Init :: "bytes \<Rightarrow> int \<Rightarrow> int \<Rightarrow> int \<times> ringbuff" where
  "RingBuffer_Init buffer itemSize count =
     (1, \<lparr>r_data = buffer, r_count = count, r_itemSz = itemSize, r_head = 0, r_tail = 0\<rparr>)"

definition RingBuffer_Flush :: "ringbuff \<Rightarrow> ringbuff" where
  "RingBuffer_Flush rb = rb\<lparr>r_head := 0, r_tail := 0\<rparr>"

definition RingBuffer_GetSize :: "ringbuff \<Rightarrow> int" where
  "RingBuffer_GetSize rb = r_count rb"

definition RingBuffer_GetCount :: "ringbuff \<Rightarrow> int" where
  "RingBuffer_GetCount rb = sint (r_head rb - r_tail rb)"

definition RingBuffer_GetFree :: "ringbuff \<Rightarrow> int" where
  "RingBuffer_GetFree rb = r_count rb - RingBuffer_GetCount rb"

definition RingBuffer_IsFull :: "ringbuff \<Rightarrow> bool" where
  "RingBuffer_IsFull rb = (RingBuffer_GetCount rb \<ge> r_count rb)"

definition RingBuffer_IsEmpty :: "ringbuff \<Rightarrow> bool" where
  "RingBuffer_IsEmpty rb = (r_head rb = r_tail rb)"

definition RB_INDH :: "ringbuff \<Rightarrow> u32" where
  "RB_INDH rb = and (r_head rb) (word_of_int (r_count rb - 1))"

definition RB_INDT :: "ringbuff \<Rightarrow> u32" where
  "RB_INDT rb = and (r_tail rb) (word_of_int (r_count rb - 1))"

text \<open>The offset of an item in the array: an \<open>unsigned\<close> product.\<close>

definition item_offset :: "ringbuff \<Rightarrow> u32 \<Rightarrow> nat" where
  "item_offset rb i = unat (i * word_of_int (r_itemSz rb))"

definition RingBuffer_Insert :: "ringbuff \<Rightarrow> bytes \<Rightarrow> (int \<times> ringbuff) option" where
  "RingBuffer_Insert rb data = (
     if RingBuffer_IsFull rb then Some (0, rb)
     else do {
       n \<leftarrow> mem_size (r_itemSz rb);
       seg \<leftarrow> rd_bytes data 0 n;
       buf \<leftarrow> wr_bytes (r_data rb) (item_offset rb (RB_INDH rb)) seg;
       Some (1, rb\<lparr>r_data := buf, r_head := r_head rb + 1\<rparr>) })"

definition RingBuffer_InsertMult :: "ringbuff \<Rightarrow> bytes \<Rightarrow> int \<Rightarrow> (int \<times> ringbuff) option" where
  "RingBuffer_InsertMult rb data num = (
     if RingBuffer_IsFull rb then Some (0, rb)
     else
       let free = RingBuffer_GetFree rb;
           cnt1 = (if RB_INDH rb + word_of_int free \<ge> word_of_int (r_count rb)
             then sint (word_of_int (r_count rb) - RB_INDH rb) else free);
           cnt2 = free - cnt1;
           cnt1 = min cnt1 num;
           num = num - cnt1;
           cnt2 = min cnt2 num
       in do {
         n1 \<leftarrow> mem_size (cnt1 * r_itemSz rb);
         seg1 \<leftarrow> rd_bytes data 0 n1;
         buf1 \<leftarrow> wr_bytes (r_data rb) (item_offset rb (RB_INDH rb)) seg1;
         let rb1 = rb\<lparr>r_data := buf1, r_head := r_head rb + word_of_int cnt1\<rparr>;
         n2 \<leftarrow> mem_size (cnt2 * r_itemSz rb1);
         seg2 \<leftarrow> rd_bytes data n1 n2;
         buf2 \<leftarrow> wr_bytes (r_data rb1) (item_offset rb1 (RB_INDH rb1)) seg2;
         Some (cnt1 + cnt2, rb1\<lparr>r_data := buf2, r_head := r_head rb1 + word_of_int cnt2\<rparr>) })"

text \<open>The popping functions return the number of items and the bytes they store for the caller.\<close>

definition RingBuffer_Pop :: "ringbuff \<Rightarrow> (int \<times> bytes \<times> ringbuff) option" where
  "RingBuffer_Pop rb = (
     if RingBuffer_IsEmpty rb then Some (0, [], rb)
     else do {
       n \<leftarrow> mem_size (r_itemSz rb);
       seg \<leftarrow> rd_bytes (r_data rb) (item_offset rb (RB_INDT rb)) n;
       Some (1, seg, rb\<lparr>r_tail := r_tail rb + 1\<rparr>) })"

definition RingBuffer_PopMult :: "ringbuff \<Rightarrow> int \<Rightarrow> (int \<times> bytes \<times> ringbuff) option" where
  "RingBuffer_PopMult rb num = (
     if RingBuffer_IsEmpty rb then Some (0, [], rb)
     else
       let held = RingBuffer_GetCount rb;
           cnt1 = (if RB_INDT rb + word_of_int held \<ge> word_of_int (r_count rb)
             then sint (word_of_int (r_count rb) - RB_INDT rb) else held);
           cnt2 = held - cnt1;
           cnt1 = min cnt1 num;
           num = num - cnt1;
           cnt2 = min cnt2 num
       in do {
         n1 \<leftarrow> mem_size (cnt1 * r_itemSz rb);
         seg1 \<leftarrow> rd_bytes (r_data rb) (item_offset rb (RB_INDT rb)) n1;
         let rb1 = rb\<lparr>r_tail := r_tail rb + word_of_int cnt1\<rparr>;
         n2 \<leftarrow> mem_size (cnt2 * r_itemSz rb1);
         seg2 \<leftarrow> rd_bytes (r_data rb1) (item_offset rb1 (RB_INDT rb1)) n2;
         Some (cnt1 + cnt2, seg1 @ seg2, rb1\<lparr>r_tail := r_tail rb1 + word_of_int cnt2\<rparr>) })"

section \<open>Arrays of items\<close>

definition chunks :: "nat \<Rightarrow> nat \<Rightarrow> bytes \<Rightarrow> bytes list" where
  "chunks sz n bs = map (\<lambda>i. take sz (drop (i * sz) bs)) [0..<n]"

abbreviation sized :: "nat \<Rightarrow> bytes list \<Rightarrow> bool" where
  "sized sz \<equiv> list_all (\<lambda>x. length x = sz)"

lemma length_chunks [simp]: "length (chunks sz n bs) = n"
  by (simp add: chunks_def)

lemma length_sized: "sized sz cs \<Longrightarrow> length (concat cs) = length cs * sz"
  by (induction cs) auto

lemma take_concat: "sized sz cs \<Longrightarrow> take (i * sz) (concat cs) = concat (take i cs)"
proof (induction cs arbitrary: i)
  case (Cons c cs)
  then show ?case by (cases i) auto
qed simp

lemma drop_concat: "sized sz cs \<Longrightarrow> drop (i * sz) (concat cs) = concat (drop i cs)"
proof (induction cs arbitrary: i)
  case (Cons c cs)
  then show ?case by (cases i) auto
qed simp

lemma chunks_concat: "sized sz cs \<Longrightarrow> length cs = n \<Longrightarrow> chunks sz n (concat cs) = cs"
proof (rule nth_equalityI)
  fix i assume a: "sized sz cs" "length cs = n" "i < length (chunks sz n (concat cs))"
  have "chunks sz n (concat cs) ! i = take (1 * sz) (concat (drop i cs))"
    using a by (simp add: chunks_def drop_concat)
  also have "\<dots> = concat (take 1 (drop i cs))"
    using a(1) by (intro take_concat) (auto simp: list_all_iff dest: in_set_dropD)
  also have "\<dots> = cs ! i" using a by (simp add: take_Suc hd_drop_conv_nth)
  finally show "chunks sz n (concat cs) ! i = cs ! i" .
qed simp

lemma chunks_Suc: "chunks sz (Suc n) bs = take sz bs # chunks sz n (drop sz bs)"
  unfolding chunks_def upt_conv_Cons [OF zero_less_Suc] map_Suc_upt [symmetric] list.map(2) map_map
  by (auto simp: add.commute)

lemma concat_chunks: "length bs = n * sz \<Longrightarrow> concat (chunks sz n bs) = bs"
proof (induction n arbitrary: bs)
  case 0
  then show ?case by (simp add: chunks_def)
next
  case (Suc n)
  then show ?case by (simp add: chunks_Suc)
qed

lemma sized_chunks: "length bs = n * sz \<Longrightarrow> sized sz (chunks sz n bs)"
proof (induction n arbitrary: bs)
  case 0
  then show ?case by (simp add: chunks_def)
next
  case (Suc n)
  then show ?case by (simp add: chunks_Suc)
qed

lemma wr_items:
  assumes "sized sz cs" "sized sz xs" "i + length xs \<le> length cs"
  shows "wr_bytes (concat cs) (i * sz) (concat xs) = Some (concat (splice cs i xs))"
proof -
  have "i * sz + length (concat xs) \<le> length (concat cs)"
    unfolding length_sized [OF assms(1)] length_sized [OF assms(2)]
    using mult_le_mono1 [OF assms(3), of sz] by (simp add: algebra_simps)
  moreover have "splice (concat cs) (i * sz) (concat xs) = concat (splice cs i xs)"
    using drop_concat [OF assms(1), of "i + length xs"]
    by (simp add: splice_def take_concat [OF assms(1)] length_sized [OF assms(2)] algebra_simps)
  ultimately show ?thesis by (simp add: wr_bytes_splice)
qed

lemma rd_items:
  assumes "sized sz cs" "i + n \<le> length cs"
  shows "rd_bytes (concat cs) (i * sz) (n * sz) = Some (concat (take n (drop i cs)))"
proof -
  have "i * sz + n * sz \<le> length (concat cs)"
    unfolding length_sized [OF assms(1)] using mult_le_mono1 [OF assms(2), of sz] by (simp add: algebra_simps)
  moreover have "sized sz (drop i cs)" using assms(1) by (auto simp: list_all_iff dest: in_set_dropD)
  ultimately show ?thesis
    by (simp add: rd_bytes_def drop_concat [OF assms(1)] take_concat)
qed


section \<open>The representation\<close>

definition rb1_ok :: "nat \<Rightarrow> ringbuff \<Rightarrow> bool" where
  "rb1_ok sz rb \<longleftrightarrow> (\<exists>k<31. r_count rb = 2 ^ k) \<and> r_itemSz rb = int sz \<and> 0 < sz
     \<and> length (r_data rb) = nat (r_count rb) * sz \<and> nat (r_count rb) * sz < 2147483648
     \<and> unat (r_head rb - r_tail rb) \<le> nat (r_count rb)"

abbreviation slots :: "ringbuff \<Rightarrow> nat" where
  "slots rb \<equiv> nat (r_count rb)"

definition rb1_held :: "ringbuff \<Rightarrow> nat" where
  "rb1_held rb = unat (r_head rb - r_tail rb)"

definition rb1_items :: "ringbuff \<Rightarrow> bytes list" where
  "rb1_items rb = chunks (nat (r_itemSz rb)) (slots rb) (r_data rb)"

definition rb1_contents :: "ringbuff \<Rightarrow> bytes list" where
  "rb1_contents rb = ring (rb1_items rb) (unat (r_tail rb) mod slots rb) (rb1_held rb)"

text \<open>Masking with \<open>2 ^ k - 1\<close> is the remainder by \<open>2 ^ k\<close>, and the counters may wrap.\<close>

lemma counter_mask_index: "unat (and w (word_of_int (2 ^ k - 1)) :: u32) = unat w mod 2 ^ k"
proof -
  have "(word_of_int (2 ^ k - 1) :: u32) = mask k" by (simp add: mask_eq_exp_minus_1)
  then have "and w (word_of_int (2 ^ k - 1)) = take_bit k w" by (simp only: take_bit_eq_mask)
  then show ?thesis using take_bit_eq_mod [of k "unat w"] unsigned_take_bit_eq [of k w, where ?'a = nat] by (simp only:)
qed

lemma unat_word_of_int: "0 \<le> n \<Longrightarrow> n < 4294967296 \<Longrightarrow> unat (word_of_int n :: u32) = nat n"
  by (simp add: unsigned_of_int take_bit_eq_mod)

lemma sint_small:
  fixes w :: u32
  assumes a: "unat w < 2147483648"
  shows "sint w = int (unat w)"
proof -
  have "uint w < 2147483648" unfolding uint_nat using a by linarith
  then have u: "- 2147483648 \<le> uint w" "uint w < 2147483648" using uint_ge_0 [of w] by linarith+
  have "sint w = signed_take_bit 31 (uint w)" by (simp add: sint_uint)
  also have "\<dots> = uint w"
    using u by (intro signed_take_bit_int_eq_self) simp_all
  finally show ?thesis by (simp only: uint_nat)
qed

lemma unat_plus_mod: "unat (a + b :: u32) = (unat a + unat b) mod 4294967296"
  by (simp add: unat_word_ariths)

lemma counter_mod:
  assumes "k < 31"
  shows "unat (a + b :: u32) mod 2 ^ k = (unat a + unat b) mod 2 ^ k"
proof -
  have "(2::nat) ^ k dvd 2 ^ 32" using assms by (intro le_imp_power_dvd) simp
  then show ?thesis by (simp add: unat_plus_mod mod_mod_cancel)
qed

lemma rb1_facts:
  assumes "rb1_ok sz rb"
  shows "0 < slots rb" "slots rb \<le> 1073741824" "r_count rb = int (slots rb)" "rb1_held rb \<le> slots rb"
    "unat (RB_INDH rb) = unat (r_head rb) mod slots rb" "unat (RB_INDT rb) = unat (r_tail rb) mod slots rb"
    "unat (r_head rb) mod slots rb = (unat (r_tail rb) mod slots rb + rb1_held rb) mod slots rb"
    "\<And>w. unat (and w (word_of_int (r_count rb - 1)) :: u32) = unat w mod slots rb"
    "\<And>n. unat (r_head rb + n) mod slots rb = (unat (r_head rb) mod slots rb + unat n) mod slots rb"
    "\<And>n. unat (r_tail rb + n) mod slots rb = (unat (r_tail rb) mod slots rb + unat n) mod slots rb"
    "sized sz (rb1_items rb)" "length (rb1_items rb) = slots rb" "concat (rb1_items rb) = r_data rb"
proof -
  obtain k where k: "k < 31" "r_count rb = 2 ^ k" using assms by (auto simp: rb1_ok_def)
  have n: "slots rb = 2 ^ k" by (simp add: k(2) nat_power_eq)
  show "0 < slots rb" "r_count rb = int (slots rb)" by (simp_all add: k(2))
  have "(2::nat) ^ k \<le> 2 ^ 30" using k(1) by (intro power_increasing) simp_all
  then show "slots rb \<le> 1073741824" by (simp add: n)
  show "rb1_held rb \<le> slots rb" using assms by (simp add: rb1_ok_def rb1_held_def)
  show "unat (RB_INDH rb) = unat (r_head rb) mod slots rb" "unat (RB_INDT rb) = unat (r_tail rb) mod slots rb"
    unfolding n unfolding RB_INDH_def RB_INDT_def k(2) by (rule counter_mask_index)+
  show "\<And>w. unat (and w (word_of_int (r_count rb - 1)) :: u32) = unat w mod slots rb"
    unfolding n unfolding k(2) by (rule counter_mask_index)
  have "unat (r_head rb) mod 2 ^ k = unat (r_tail rb + (r_head rb - r_tail rb)) mod 2 ^ k" by simp
  then show "unat (r_head rb) mod slots rb = (unat (r_tail rb) mod slots rb + rb1_held rb) mod slots rb"
    unfolding counter_mod [OF k(1)] n rb1_held_def by (simp add: mod_simps)
  show "\<And>n. unat (r_head rb + n) mod slots rb = (unat (r_head rb) mod slots rb + unat n) mod slots rb"
    "\<And>n. unat (r_tail rb + n) mod slots rb = (unat (r_tail rb) mod slots rb + unat n) mod slots rb"
    unfolding n counter_mod [OF k(1)] by (simp_all add: mod_simps)
  have l: "length (r_data rb) = slots rb * sz" "nat (r_itemSz rb) = sz" using assms by (simp_all add: rb1_ok_def)
  show "sized sz (rb1_items rb)" "length (rb1_items rb) = slots rb" "concat (rb1_items rb) = r_data rb"
    using sized_chunks [OF l(1)] concat_chunks [OF l(1)] by (simp_all add: rb1_items_def l(2))
qed

lemma rb1_array:
  assumes "rb1_ok sz rb"
  shows "0 < slots rb" "sized sz (rb1_items rb)" "length (rb1_items rb) = slots rb"
    "concat (rb1_items rb) = r_data rb"
  using rb1_facts(1,11-13) [OF assms] by simp_all

lemma item_offset_eq:
  assumes "rb1_ok sz rb" "unat i < slots rb"
  shows "item_offset rb i = unat i * sz"
proof -
  note ok = assms(1) [unfolded rb1_ok_def]
  have "sz \<le> slots rb * sz" using rb1_facts(1) [OF assms(1)] by (cases "slots rb") auto
  then have "sz < 2147483648" using ok by linarith
  then have sz: "unat (word_of_int (r_itemSz rb) :: u32) = sz"
    using ok by (subst unat_word_of_int) auto
  have "unat i * sz < 4294967296"
    using ok mult_le_mono1 [OF less_imp_le [OF assms(2)], of sz] by linarith
  then show ?thesis by (simp add: item_offset_def unat_word_ariths sz)
qed

lemma GetCount_eq: "rb1_ok sz rb \<Longrightarrow> RingBuffer_GetCount rb = int (rb1_held rb)"
proof -
  assume a: "rb1_ok sz rb"
  then have "rb1_held rb < 2147483648" using rb1_facts(2,4) [OF a] by linarith
  then show ?thesis
    unfolding RingBuffer_GetCount_def rb1_held_def by (rule sint_small)
qed

lemma Empty_eq: "rb1_ok sz rb \<Longrightarrow> RingBuffer_IsEmpty rb = (rb1_held rb = 0)"
  by (simp add: RingBuffer_IsEmpty_def rb1_held_def unat_eq_zero)

text \<open>The first segment: up to the end of the array, or everything there is.\<close>

lemma first_segment:
  fixes i :: u32
  assumes "rb1_ok sz rb" "unat i < slots rb" "f \<le> slots rb"
  shows "(if i + word_of_int (int f) \<ge> word_of_int (r_count rb)
      then sint (word_of_int (r_count rb) - i) else int f) = int (min f (slots rb - unat i))"
proof -
  note facts = rb1_facts [OF assms(1)]
  have c: "unat (word_of_int (r_count rb) :: u32) = slots rb"
    using facts(1-3) by (subst unat_word_of_int) auto
  have f: "unat (word_of_int (int f) :: u32) = f"
    using facts(2) assms(3) by (subst unat_word_of_int) auto
  have s: "unat (i + word_of_int (int f)) = unat i + f"
    unfolding unat_plus_mod f using facts(2) assms(2,3) by (intro mod_less) linarith
  have d: "unat (word_of_int (r_count rb) - i) = slots rb - unat i"
    using assms(2) by (subst unat_sub) (simp_all only: word_le_nat_alt c less_imp_le)
  have "sint (word_of_int (r_count rb) - i) = int (slots rb - unat i)"
    using d facts(2) by (subst sint_small) simp_all
  moreover have "min f (slots rb - unat i) = (if slots rb \<le> unat i + f then slots rb - unat i else f)"
    using assms(2) by (auto simp: min_def)
  ultimately show ?thesis unfolding word_le_nat_alt s c
    by (cases "slots rb \<le> unat i + f") (simp_all only: if_True if_False)
qed


lemma sized_splice: "sized sz cs \<Longrightarrow> sized sz xs \<Longrightarrow> sized sz (splice cs i xs)"
  by (auto simp: splice_def list_all_iff dest: in_set_takeD in_set_dropD)

lemma sized_take: "sized sz xs \<Longrightarrow> sized sz (take n xs)"
  by (auto simp: list_all_iff dest: in_set_takeD)

lemma sized_drop: "sized sz xs \<Longrightarrow> sized sz (drop n xs)"
  by (auto simp: list_all_iff dest: in_set_dropD)

lemma mem_size_nat: "mem_size (int a * int b) = Some (a * b)"
  by (simp add: mem_size_def flip: of_nat_mult)

lemma splice_Nil: "splice cs i [] = cs"
  by (simp add: splice_def)

lemma splice_same_length: "i + length xs \<le> length cs \<Longrightarrow> length (splice cs i xs) = length cs"
  by (rule length_splice)

text \<open>The lengths of the two segments, for \<open>n\<close> items asked for and \<open>f\<close> available.\<close>

lemma segment_lengths:
  fixes f k n :: nat
  defines "a \<equiv> min n f"
  shows "min (int (min f k)) (int n) = int (min a k)"
    "min (int f - int (min f k)) (int n - int (min a k)) = int (a - min a k)"
    "int (min a k) + int (a - min a k) = int a"
  unfolding a_def by linarith+

lemma insert_two_segments:
  assumes "rb1_ok sz rb" "sized sz xs" "a \<le> length xs" "a \<le> slots rb" "p = unat (r_head rb) mod slots rb"
  defines "c1 \<equiv> min a (slots rb - p)"
  obtains cs where "wrap_write (rb1_items rb) p (take a xs) = Some cs" "length cs = slots rb" "sized sz cs"
    "\<exists>buf1. wr_bytes (r_data rb) (p * sz) (concat (take c1 xs)) = Some buf1
      \<and> wr_bytes buf1 ((p + c1) mod slots rb * sz) (concat (take (a - c1) (drop c1 xs))) = Some (concat cs)"
proof -
  note facts = rb1_array [OF assms(1)]
  let ?N = "slots rb" and ?cs = "rb1_items rb"
  have p: "p < ?N" using facts(1) assms(5) by simp
  define cs1 where "cs1 = splice ?cs p (take c1 xs)"
  define cs2 where "cs2 = splice cs1 ((p + c1) mod ?N) (take (a - c1) (drop c1 xs))"
  have c1: "p + c1 \<le> ?N" "c1 \<le> a" using p by (auto simp: c1_def)
  have lt: "length (take c1 xs) = c1" "length (take (a - c1) (drop c1 xs)) = a - c1"
    using c1(2) assms(3) by auto
  have l1: "length cs1 = ?N" unfolding cs1_def
    using c1(1) facts lt(1) by (subst length_splice) auto
  have q: "(p + c1) mod ?N + (a - c1) \<le> ?N"
  proof (cases "c1 = a")
    case True
    then show ?thesis using facts(1) by (simp add: less_imp_le)
  next
    case False
    then have "p + c1 = ?N" using p by (auto simp: c1_def min_def split: if_splits)
    then show ?thesis using assms(4) by simp
  qed
  have s1: "sized sz cs1" "sized sz cs2"
    unfolding cs1_def cs2_def using facts assms(2)
    by (intro sized_splice sized_take sized_drop; simp)+
  have l2: "length cs2 = ?N" unfolding cs2_def using q l1 lt(2) by (subst length_splice) auto
  have "wr_bytes (concat ?cs) (p * sz) (concat (take c1 xs)) = Some (concat cs1)"
    unfolding cs1_def using facts assms(2) lt(1) c1(1) by (intro wr_items sized_take) auto
  moreover have "wr_bytes (concat cs1) ((p + c1) mod ?N * sz) (concat (take (a - c1) (drop c1 xs))) = Some (concat cs2)"
    unfolding cs2_def using s1(1) assms(2) lt(2) l1 q by (intro wr_items sized_take sized_drop) auto
  moreover have "wrap_write ?cs p (take a xs) = Some cs2"
  proof -
    have "take (?N - p) (take a xs) = take c1 xs" by (simp add: c1_def min.commute)
    moreover have "drop (?N - p) (take a xs) = take (a - c1) (drop c1 xs)"
      by (cases "a \<le> ?N - p") (simp_all add: c1_def drop_take)
    moreover have "wr_bytes ?cs p (take c1 xs) = Some cs1"
      unfolding cs1_def using facts lt(1) c1(1) by (intro wr_bytes_splice) auto
    moreover have "wr_bytes cs1 0 (take (a - c1) (drop c1 xs)) = Some cs2"
    proof (cases "c1 = a")
      case True
      then show ?thesis by (simp add: cs2_def splice_Nil wr_bytes_def)
    next
      case False
      then have "p + c1 = ?N" using p by (auto simp: c1_def min_def split: if_splits)
      then show ?thesis unfolding cs2_def using q lt(2) l1 by (subst wr_bytes_splice) simp_all
    qed
    ultimately show ?thesis by (simp add: wrap_write_def Let_def facts)
  qed
  ultimately show ?thesis using that [of cs2] l2 s1(2) facts by auto
qed

lemma InsertMult_ok:
  assumes "rb1_ok sz rb" "sized sz xs" "length xs < 2147483648"
  defines "a \<equiv> min (length xs) (slots rb - rb1_held rb)"
  shows "\<exists>cs. wrap_write (rb1_items rb) (unat (r_head rb) mod slots rb) (take a xs) = Some cs
    \<and> length cs = slots rb \<and> sized sz cs
    \<and> RingBuffer_InsertMult rb (concat xs) (int (length xs))
      = Some (int a, rb\<lparr>r_data := concat cs, r_head := r_head rb + word_of_int (int a)\<rparr>)"
proof -
  note arr = rb1_array [OF assms(1)] and facts = rb1_facts [OF assms(1)] and ok = assms(1) [unfolded rb1_ok_def]
  let ?N = "slots rb"
  define p where "p = unat (r_head rb) mod ?N"
  define f where "f = ?N - rb1_held rb"
  define c1 where "c1 = min a (?N - p)"
  have p: "p < ?N" "unat (RB_INDH rb) = p" using facts(1,5) by (simp_all add: p_def)
  have al: "a \<le> length xs" "a \<le> ?N" by (auto simp: a_def)
  obtain cs where cs: "wrap_write (rb1_items rb) p (take a xs) = Some cs" "length cs = ?N" "sized sz cs"
    "\<exists>buf1. wr_bytes (r_data rb) (p * sz) (concat (take c1 xs)) = Some buf1
      \<and> wr_bytes buf1 ((p + c1) mod ?N * sz) (concat (take (a - c1) (drop c1 xs))) = Some (concat cs)"
    using insert_two_segments [OF assms(1,2) al p_def, folded c1_def] by blast
  then obtain buf1 where b: "wr_bytes (r_data rb) (p * sz) (concat (take c1 xs)) = Some buf1"
    "wr_bytes buf1 ((p + c1) mod ?N * sz) (concat (take (a - c1) (drop c1 xs))) = Some (concat cs)" by blast
  have full: "RingBuffer_IsFull rb = (f = 0)"
    using facts(3) by (auto simp: RingBuffer_IsFull_def GetCount_eq [OF assms(1)] f_def)
  show ?thesis
  proof (cases "f = 0")
    case True
    then have "a = 0" by (simp add: a_def f_def)
    then have "cs = rb1_items rb" using cs(1) arr p by (simp add: wrap_write_def wr_bytes_def Let_def)
    then show ?thesis using True \<open>a = 0\<close> cs arr full
      by (intro exI [of _ cs]) (simp add: RingBuffer_InsertMult_def p_def)
  next
    case False
    have free: "RingBuffer_GetFree rb = int f"
      using facts(3,4) by (simp add: RingBuffer_GetFree_def GetCount_eq [OF assms(1)] f_def)
    have seg: "(if RB_INDH rb + word_of_int (int f) \<ge> word_of_int (r_count rb)
      then sint (word_of_int (r_count rb) - RB_INDH rb) else int f) = int (min f (?N - p))"
      using first_segment [OF assms(1), of "RB_INDH rb" f] p facts(4) by (simp add: f_def)
    have lens: "min (int (min f (?N - p))) (int (length xs)) = int c1"
      "min (int f - int (min f (?N - p))) (int (length xs) - int c1) = int (a - c1)"
      "int c1 + int (a - c1) = int a"
      using segment_lengths [where f = f and k = "?N - p" and n = "length xs"] by (simp_all only: a_def c1_def f_def)
    define w1 w2 :: u32 where "w1 = word_of_int (int c1)" and "w2 = word_of_int (int (a - c1))"
    let ?rb = "rb\<lparr>r_data := buf1, r_head := r_head rb + w1\<rparr>"
    have sz: "r_itemSz rb = int sz" using ok by simp
    have c1: "c1 \<le> a" "unat w1 = c1"
    proof -
      show le: "c1 \<le> a" by (simp add: c1_def)
      then have "c1 < 4294967296" using facts(2) al(2) by linarith
      then show "unat w1 = c1" unfolding w1_def by (subst unat_word_of_int) simp_all
    qed
    have i2: "unat (RB_INDH ?rb) = (p + c1) mod ?N"
    proof -
      have "RB_INDH ?rb = and (r_head rb + w1) (word_of_int (r_count rb - 1))"
        by (simp add: RB_INDH_def)
      then show ?thesis by (simp only: facts(8,9) c1(2) p_def)
    qed
    have off: "item_offset rb (RB_INDH rb) = p * sz" "item_offset ?rb (RB_INDH ?rb) = (p + c1) mod ?N * sz"
      using item_offset_eq [OF assms(1), of "RB_INDH rb"] item_offset_eq [OF assms(1), of "RB_INDH ?rb"] p i2 arr(1)
      by (simp_all add: item_offset_def)
    have rd: "rd_bytes (concat xs) 0 (c1 * sz) = Some (concat (take c1 xs))"
      "rd_bytes (concat xs) (c1 * sz) ((a - c1) * sz) = Some (concat (take (a - c1) (drop c1 xs)))"
      using rd_items [OF assms(2), of 0 c1] rd_items [OF assms(2), of c1 "a - c1"] c1(1) al(1) by simp_all
    have head: "r_head rb + w1 + w2 = r_head rb + word_of_int (int a)"
      unfolding lens(3) [symmetric] of_int_add w1_def w2_def by (simp only: add.assoc)
    have "RingBuffer_InsertMult rb (concat xs) (int (length xs))
        = Some (int a, rb\<lparr>r_data := concat cs, r_head := r_head rb + word_of_int (int a)\<rparr>)"
      unfolding RingBuffer_InsertMult_def Let_def free seg lens w1_def [symmetric] w2_def [symmetric]
      by (simp add: full False rd off b sz mem_size_nat head [simplified])
    then show ?thesis using cs(1-3) p_def by blast
  qed
qed


text \<open>Popping: the two segments are the first items of the queue.\<close>

lemma PopMult_ok:
  assumes "rb1_ok sz rb" "n < 2147483648"
  defines "a \<equiv> min n (rb1_held rb)"
  shows "RingBuffer_PopMult rb (int n)
      = Some (int a, concat (take n (rb1_contents rb)), rb\<lparr>r_tail := r_tail rb + word_of_int (int a)\<rparr>)"
proof (cases "rb1_held rb = 0")
  case True
  then show ?thesis
    by (simp add: RingBuffer_PopMult_def Empty_eq [OF assms(1)] rb1_contents_def a_def)
next
  case False
  note arr = rb1_array [OF assms(1)] and facts = rb1_facts [OF assms(1)] and ok = assms(1) [unfolded rb1_ok_def]
  let ?N = "slots rb"
  define p where "p = unat (r_tail rb) mod ?N"
  define f where "f = rb1_held rb"
  define c1 where "c1 = min a (?N - p)"
  define w1 w2 :: u32 where "w1 = word_of_int (int c1)" and "w2 = word_of_int (int (a - c1))"
  have p: "p < ?N" "unat (RB_INDT rb) = p" using facts(1,6) by (simp_all add: p_def)
  have al: "a \<le> n" "a \<le> ?N" "a \<le> f" using facts(4) by (auto simp: a_def f_def)
  have seg: "(if RB_INDT rb + word_of_int (int f) \<ge> word_of_int (r_count rb)
    then sint (word_of_int (r_count rb) - RB_INDT rb) else int f) = int (min f (?N - p))"
    using first_segment [OF assms(1), of "RB_INDT rb" f] p facts(4) by (simp add: f_def)
  have lens: "min (int (min f (?N - p))) (int n) = int c1"
    "min (int f - int (min f (?N - p))) (int n - int c1) = int (a - c1)"
    "int c1 + int (a - c1) = int a"
    using segment_lengths [where f = f and k = "?N - p" and n = n] by (simp_all only: a_def c1_def f_def)
  have count: "RingBuffer_GetCount rb = int f" by (simp add: f_def GetCount_eq [OF assms(1)])
  let ?rb = "rb\<lparr>r_tail := r_tail rb + w1\<rparr>"
  have sz: "r_itemSz rb = int sz" using ok by simp
  have c1: "c1 \<le> a" "p + c1 \<le> ?N" "unat w1 = c1"
  proof -
    show le: "c1 \<le> a" "p + c1 \<le> ?N" using p(1) by (auto simp: c1_def)
    then have "c1 < 4294967296" using facts(2) al(2) by linarith
    then show "unat w1 = c1" unfolding w1_def by (subst unat_word_of_int) simp_all
  qed
  have i2: "unat (RB_INDT ?rb) = (p + c1) mod ?N"
  proof -
    have "RB_INDT ?rb = and (r_tail rb + w1) (word_of_int (r_count rb - 1))"
      by (simp add: RB_INDT_def)
    then show ?thesis by (simp only: facts(8,10) c1(3) p_def)
  qed
  have off: "item_offset rb (RB_INDT rb) = p * sz" "item_offset ?rb (RB_INDT ?rb) = (p + c1) mod ?N * sz"
    using item_offset_eq [OF assms(1), of "RB_INDT rb"] item_offset_eq [OF assms(1), of "RB_INDT ?rb"] p i2 arr(1)
    by (simp_all add: item_offset_def)
  have q: "(p + c1) mod ?N + (a - c1) \<le> ?N" "c1 = a \<or> (p + c1) mod ?N = 0 \<and> c1 = ?N - p"
    using p(1) al(2) arr(1) by (auto simp: c1_def min_def less_imp_le)
  have rd: "rd_bytes (r_data rb) (p * sz) (c1 * sz) = Some (concat (take c1 (drop p (rb1_items rb))))"
    "rd_bytes (r_data rb) ((p + c1) mod ?N * sz) ((a - c1) * sz)
      = Some (concat (take (a - c1) (drop ((p + c1) mod ?N) (rb1_items rb))))"
    using rd_items [OF arr(2), of p c1] rd_items [OF arr(2), of "(p + c1) mod ?N" "a - c1"] c1(2) q arr(3,4)
    by simp_all
  have "take c1 (drop p (rb1_items rb)) @ take (a - c1) (drop ((p + c1) mod ?N) (rb1_items rb))
      = take n (rb1_contents rb)"
  proof -
    have "take c1 (drop p (rb1_items rb)) @ take (a - c1) (rb1_items rb) = ring (rb1_items rb) p a"
    proof -
      have "a - c1 = a - (?N - p)" by (simp add: c1_def)
      then show ?thesis using ring_segments [of p "rb1_items rb" a] p(1) al(2) arr(3) by (simp add: c1_def)
    qed
    moreover have "take n (rb1_contents rb) = ring (rb1_items rb) p a"
      by (simp add: rb1_contents_def take_ring a_def p_def)
    ultimately show ?thesis using q(2) by auto
  qed
  then have bytes: "concat (take c1 (drop p (rb1_items rb))) @ concat (take (a - c1) (drop ((p + c1) mod ?N) (rb1_items rb)))
      = concat (take n (rb1_contents rb))" by (simp flip: concat_append)
  have tail: "r_tail rb + w1 + w2 = r_tail rb + word_of_int (int a)"
    unfolding lens(3) [symmetric] of_int_add w1_def w2_def by (simp only: add.assoc)
  have ne: "\<not> RingBuffer_IsEmpty rb" using False by (simp add: Empty_eq [OF assms(1)])
  show ?thesis
    unfolding RingBuffer_PopMult_def Let_def count seg lens w1_def [symmetric] w2_def [symmetric]
    unfolding if_not_P [OF ne] sz mem_size_nat bind.bind_lunit off(1) rd(1)
    by (simp add: off(2) rd(2) sz mem_size_nat bytes tail [simplified])
qed


section \<open>A bounded queue of items\<close>

lemma rb1_inserted:
  assumes "rb1_ok sz rb" "length cs = slots rb" "sized sz cs" "a \<le> slots rb - rb1_held rb" "length ys = a"
    "wrap_write (rb1_items rb) (unat (r_head rb) mod slots rb) ys = Some cs"
  defines "rb' \<equiv> rb\<lparr>r_data := concat cs, r_head := r_head rb + word_of_int (int a)\<rparr>"
  shows "rb1_ok sz rb'" "rb1_contents rb' = rb1_contents rb @ ys"
proof -
  note facts = rb1_facts [OF assms(1)] and arr = rb1_array [OF assms(1)] and ok = assms(1) [unfolded rb1_ok_def]
  have "r_head rb' - r_tail rb' = (r_head rb - r_tail rb) + word_of_int (int a)" by (simp add: rb'_def)
  moreover have "unat (word_of_int (int a) :: u32) = a"
    using facts(2) assms(4) by (subst unat_word_of_int) auto
  ultimately have held: "rb1_held rb' = rb1_held rb + a"
    using facts(2,4) assms(4) by (simp only: rb1_held_def unat_plus_mod) (simp add: rb1_held_def)
  have same: "slots rb' = slots rb" "r_itemSz rb' = r_itemSz rb" "r_tail rb' = r_tail rb" "r_data rb' = concat cs"
    by (simp_all add: rb'_def)
  have "rb1_held rb' \<le> slots rb'" using held facts(4) assms(4) same(1) by simp
  then show "rb1_ok sz rb'"
    using ok assms(2) length_sized [OF assms(3)] unfolding rb1_ok_def rb1_held_def by (simp add: rb'_def)
  have items: "rb1_items rb' = cs"
    using ok same chunks_concat [OF assms(3,2)] by (simp add: rb1_items_def)
  have "ring cs (unat (r_tail rb) mod slots rb) (rb1_held rb + a) = rb1_contents rb @ ys"
    using wrap_write_ring [of "unat (r_tail rb) mod slots rb" "rb1_items rb" "rb1_held rb" ys]
      facts(1,4) arr(3) assms(4-6) facts(7) by (auto simp: rb1_contents_def)
  then show "rb1_contents rb' = rb1_contents rb @ ys"
    by (simp only: rb1_contents_def [of rb'] items held same)
qed

lemma rb1_popped:
  assumes "rb1_ok sz rb" "a \<le> rb1_held rb"
  defines "rb' \<equiv> rb\<lparr>r_tail := r_tail rb + word_of_int (int a)\<rparr>"
  shows "rb1_ok sz rb'" "rb1_contents rb' = drop a (rb1_contents rb)"
proof -
  note facts = rb1_facts [OF assms(1)] and arr = rb1_array [OF assms(1)] and ok = assms(1) [unfolded rb1_ok_def]
  have a: "unat (word_of_int (int a) :: u32) = a"
    using facts(2,4) assms(2) by (subst unat_word_of_int) auto
  have "r_head rb' - r_tail rb' = (r_head rb - r_tail rb) - word_of_int (int a)" by (simp add: rb'_def)
  then have held: "rb1_held rb' = rb1_held rb - a"
    using assms(2) a by (simp only: rb1_held_def) (subst unat_sub, simp_all only: word_le_nat_alt)
  have same: "slots rb' = slots rb" "rb1_items rb' = rb1_items rb" "r_tail rb' = r_tail rb + word_of_int (int a)"
    by (simp_all add: rb'_def rb1_items_def)
  have "rb1_held rb' \<le> slots rb'" using held facts(4) same(1) by simp
  then show "rb1_ok sz rb'"
    using ok unfolding rb1_ok_def rb1_held_def by (simp add: rb'_def)
  show "rb1_contents rb' = drop a (rb1_contents rb)"
    unfolding rb1_contents_def same held drop_ring facts(10) a arr(3) ..
qed

definition rb1_put :: "ringbuff \<Rightarrow> bytes list \<Rightarrow> (nat \<times> ringbuff) option" where
  "rb1_put rb xs = map_option (map_prod nat id) (RingBuffer_InsertMult rb (concat xs) (int (length xs)))"

definition rb1_get :: "ringbuff \<Rightarrow> nat \<Rightarrow> (bytes list \<times> ringbuff) option" where
  "rb1_get rb n = map_option (\<lambda>(k, bs, rb'). (chunks (nat (r_itemSz rb)) (nat k) bs, rb'))
     (RingBuffer_PopMult rb (int n))"

interpretation rb1_queue: bounded_queue "rb1_ok sz" rb1_contents slots rb1_put rb1_get "\<lambda>x. length x = sz" 2147483648
  for sz
proof
  fix rb :: ringbuff
  assume ok: "rb1_ok sz rb"
  note facts = rb1_facts [OF ok]
  have len: "length (rb1_contents rb) = rb1_held rb" by (simp add: rb1_contents_def)
  show "length (rb1_contents rb) \<le> slots rb" using facts(4) len by simp
  { fix xs :: "bytes list"
    assume xs: "length xs < 2147483648" "sized sz xs"
    let ?a = "min (length xs) (slots rb - rb1_held rb)"
    obtain cs where cs: "wrap_write (rb1_items rb) (unat (r_head rb) mod slots rb) (take ?a xs) = Some cs"
      "length cs = slots rb" "sized sz cs" "RingBuffer_InsertMult rb (concat xs) (int (length xs))
        = Some (int ?a, rb\<lparr>r_data := concat cs, r_head := r_head rb + word_of_int (int ?a)\<rparr>)"
      using InsertMult_ok [OF ok xs(2,1)] by blast
    have "take ?a xs = take (slots rb - rb1_held rb) xs" by (simp add: min_def)
    with rb1_inserted [OF ok cs(2,3) _ _ cs(1)] cs(4) show
      "\<exists>s'. rb1_put rb xs = Some (min (length xs) (slots rb - length (rb1_contents rb)), s')
        \<and> rb1_ok sz s' \<and> slots s' = slots rb
        \<and> rb1_contents s' = rb1_contents rb @ take (slots rb - length (rb1_contents rb)) xs"
      by (simp add: rb1_put_def len) }
  { fix n :: nat
    assume n: "n < 2147483648"
    let ?a = "min n (rb1_held rb)"
    have "sized sz (take n (rb1_contents rb))"
      using rb1_array [OF ok] by (auto simp: rb1_contents_def ring_def list_all_length)
    then have "chunks sz ?a (concat (take n (rb1_contents rb))) = take n (rb1_contents rb)"
      by (intro chunks_concat) (simp_all add: len min.commute)
    moreover have "drop ?a (rb1_contents rb) = drop n (rb1_contents rb)" by (simp add: len min_def)
    moreover have "nat (r_itemSz rb) = sz" using ok by (simp add: rb1_ok_def)
    ultimately show "\<exists>s'. rb1_get rb n = Some (take n (rb1_contents rb), s') \<and> rb1_ok sz s' \<and> slots s' = slots rb
        \<and> rb1_contents s' = drop n (rb1_contents rb)"
      using PopMult_ok [OF ok n] rb1_popped [OF ok, of ?a] by (simp add: rb1_get_def) }
qed


section \<open>Single items\<close>

lemma Insert_eq:
  assumes "rb1_ok sz rb" "length x = sz"
  shows "RingBuffer_Insert rb x = RingBuffer_InsertMult rb x 1"
proof -
  note facts = rb1_facts [OF assms(1)] and arr = rb1_array [OF assms(1)] and ok = assms(1) [unfolded rb1_ok_def]
  have full: "RingBuffer_IsFull rb = (rb1_held rb = slots rb)"
    using facts(3,4) by (auto simp: RingBuffer_IsFull_def GetCount_eq [OF assms(1)])
  show ?thesis
  proof (cases "RingBuffer_IsFull rb")
    case True
    then show ?thesis by (simp add: RingBuffer_Insert_def RingBuffer_InsertMult_def)
  next
    case False
    define p where "p = unat (r_head rb) mod slots rb"
    have p: "p < slots rb" "unat (RB_INDH rb) = p" using facts(1,5) by (simp_all add: p_def)
    have a: "min 1 (slots rb - rb1_held rb) = 1" using False full facts(4) by simp
    obtain cs where cs: "wrap_write (rb1_items rb) p [x] = Some cs"
      "RingBuffer_InsertMult rb x 1 = Some (1, rb\<lparr>r_data := concat cs, r_head := r_head rb + 1\<rparr>)"
      using InsertMult_ok [OF assms(1), of "[x]"] assms(2) a unfolding p_def by auto
    have "cs = splice (rb1_items rb) p [x]"
      using cs(1) p(1) arr(3) by (simp add: wrap_write_plain wr_bytes_splice)
    then have "wr_bytes (r_data rb) (p * sz) x = Some (concat cs)"
      using wr_items [OF arr(2), of "[x]" p] assms(2) p(1) arr(3,4) by simp
    moreover have "item_offset rb (RB_INDH rb) = p * sz"
      using item_offset_eq [OF assms(1), of "RB_INDH rb"] p by simp
    ultimately show ?thesis
      using False cs(2) ok assms(2) by (simp add: RingBuffer_Insert_def mem_size_def rd_bytes_def)
  qed
qed

lemma Pop_eq:
  assumes "rb1_ok sz rb"
  shows "RingBuffer_Pop rb = RingBuffer_PopMult rb 1"
proof (cases "RingBuffer_IsEmpty rb")
  case True
  then show ?thesis by (simp add: RingBuffer_Pop_def RingBuffer_PopMult_def)
next
  case False
  note facts = rb1_facts [OF assms] and arr = rb1_array [OF assms] and ok = assms [unfolded rb1_ok_def]
  define p where "p = unat (r_tail rb) mod slots rb"
  have p: "p < slots rb" "unat (RB_INDT rb) = p" using facts(1,6) by (simp_all add: p_def)
  have h: "0 < rb1_held rb" "min 1 (rb1_held rb) = 1" using False by (auto simp: Empty_eq [OF assms])
  have "take 1 (rb1_contents rb) = [rb1_items rb ! p]"
    using h p(1) arr(3) by (auto simp: rb1_contents_def ring_Suc gr0_conv_Suc p_def)
  then have "RingBuffer_PopMult rb 1 = Some (1, rb1_items rb ! p, rb\<lparr>r_tail := r_tail rb + 1\<rparr>)"
    using PopMult_ok [OF assms, of 1] h by simp
  moreover have "rd_bytes (r_data rb) (p * sz) sz = Some (rb1_items rb ! p)"
    using rd_items [OF arr(2), of p 1] p(1) arr(3,4) by (simp add: take_Suc hd_drop_conv_nth)
  moreover have "item_offset rb (RB_INDT rb) = p * sz"
    using item_offset_eq [OF assms, of "RB_INDT rb"] p by simp
  ultimately show ?thesis using False ok by (simp add: RingBuffer_Pop_def mem_size_def)
qed

lemma Init_ok:
  assumes "k < 31" "0 < sz" "length buffer = 2 ^ k * sz" "length buffer < 2147483648"
  shows "rb1_ok sz (snd (RingBuffer_Init buffer (int sz) (2 ^ k)))"
    "rb1_contents (snd (RingBuffer_Init buffer (int sz) (2 ^ k))) = []"
  using assms by (auto simp: RingBuffer_Init_def rb1_ok_def rb1_contents_def rb1_held_def nat_power_eq)

section \<open>Properties\<close>

text \<open>
  C25. The item stream through the queue of ringbuffer1.c. Between any two states of a well-formed
  queue (a power of two of slots, the free-running 32-bit counters anywhere, also about to wrap), a
  sequence of \<open>RingBuffer_InsertMult\<close> and \<open>RingBuffer_PopMult\<close> calls returns, stays inside the array,
  and hands items out in the order they were accepted, each exactly once; never more than \<open>count\<close>
  are stored.
\<close>

theorem item_stream:
  assumes "rb1_ok sz rb" "list_all (op_ok (\<lambda>x. length x = sz) 2147483648) ops"
  shows "\<exists>ins outs rb'. queue_run rb1_put rb1_get ops rb = Some (ins, outs, rb') \<and> rb1_ok sz rb'
    \<and> rb1_contents rb @ ins = outs @ rb1_contents rb'
    \<and> RingBuffer_GetCount rb' = int (length (rb1_contents rb'))
    \<and> length (rb1_contents rb') \<le> slots rb"
proof -
  obtain ins outs rb' where r: "queue_run rb1_put rb1_get ops rb = Some (ins, outs, rb')" "rb1_ok sz rb'"
    "rb1_contents rb @ ins = outs @ rb1_contents rb'" "length (rb1_contents rb') \<le> slots rb"
    using rb1_queue.fifo_order [OF assms] by blast
  moreover have "RingBuffer_GetCount rb' = int (length (rb1_contents rb'))"
    using GetCount_eq [OF r(2)] by (simp add: rb1_contents_def)
  ultimately show ?thesis by blast
qed

definition demo_items :: ringbuff where
  "demo_items = \<lparr>r_data = [1, 2, 3, 4, 5, 6, 7, 8], r_count = 4, r_itemSz = 2, r_head = 1, r_tail = 4294967294\<rparr>"

lemma demo_items_ok: "rb1_ok 2 demo_items"
proof -
  have "\<exists>k<31. (4::int) = 2 ^ k" by (rule exI [of _ 2]) simp
  then show ?thesis by (simp add: demo_items_def rb1_ok_def)
qed

theorem item_stream_witness:
  "\<exists>ins outs rb'. queue_run rb1_put rb1_get [Put [[9, 9], [8, 8]], Get 3, Put [[7, 7]]] demo_items = Some (ins, outs, rb')
    \<and> rb1_ok 2 rb' \<and> rb1_contents demo_items @ ins = outs @ rb1_contents rb'
    \<and> RingBuffer_GetCount rb' = int (length (rb1_contents rb'))
    \<and> length (rb1_contents rb') \<le> slots demo_items"
  by (rule item_stream [OF demo_items_ok]) simp

text \<open>
  \<open>RingBuffer_Insert\<close> and \<open>RingBuffer_Pop\<close> are \<open>RingBuffer_InsertMult\<close> and \<open>RingBuffer_PopMult\<close>
  for one item, in every well-formed state: the same result code, the same bytes copied, the same
  counters, full and empty queues included.
\<close>

theorem single_item_operations:
  assumes "rb1_ok sz rb" "length x = sz"
  shows "RingBuffer_Insert rb x = RingBuffer_InsertMult rb x 1 \<and> RingBuffer_Pop rb = RingBuffer_PopMult rb 1"
  using Insert_eq [OF assms] Pop_eq [OF assms(1)] by simp

theorem single_item_operations_witness:
  "RingBuffer_Insert demo_items [5, 5] = RingBuffer_InsertMult demo_items [5, 5] 1
    \<and> RingBuffer_Pop demo_items = RingBuffer_PopMult demo_items 1"
  by (rule single_item_operations [OF demo_items_ok]) simp

end
