(* ===== verification/SimpleFifo.thy ===== *)
theory SimpleFifo
  imports Ring
begin

text \<open>
  The one-byte queue of \<open>fun_buffer/ringbuffer_simple.c\<close>. \<open>Begin\<close> is the position before the first
  byte, \<open>End\<close> the position of the last one, so one byte of the array is never used. \<open>FifoPush\<close> and
  \<open>FifoPop\<close> do not test for a full or an empty queue; that is left to the caller.

  The remainder is taken in \<open>int\<close>, where the sum does not wrap; by a size of 0 it is undefined.
\<close>

record simple_fifo =
  Begin :: u16
  End :: u16
  Data :: bytes
  Size :: u16

definition FifoNext :: "simple_fifo \<Rightarrow> u16 \<Rightarrow> u16 option" where
  "FifoNext fifo index = (if Size fifo = 0 then None
     else Some (word_of_nat ((unat index + 1) mod unat (Size fifo))))"

definition FifoInit :: "bytes \<Rightarrow> u16 \<Rightarrow> simple_fifo" where
  "FifoInit buffer sz = \<lparr>Begin = 0, End = 0, Data = buffer, Size = sz\<rparr>"

definition FifoPush :: "simple_fifo \<Rightarrow> u8 \<Rightarrow> simple_fifo option" where
  "FifoPush fifo data = do {
     e \<leftarrow> FifoNext fifo (End fifo);
     d \<leftarrow> wr8 (Data fifo) (unat e) data;
     Some (fifo\<lparr>End := e, Data := d\<rparr>) }"

definition FifoPop :: "simple_fifo \<Rightarrow> (u8 \<times> simple_fifo) option" where
  "FifoPop fifo = do {
     b \<leftarrow> FifoNext fifo (Begin fifo);
     data \<leftarrow> rd8 (Data fifo) (unat b);
     b' \<leftarrow> FifoNext fifo (Begin fifo);
     Some (data, fifo\<lparr>Begin := b'\<rparr>) }"

definition FifoFlush :: "simple_fifo \<Rightarrow> simple_fifo" where
  "FifoFlush fifo = fifo\<lparr>Begin := 0, End := 0\<rparr>"

definition IsFifoEmpty :: "simple_fifo \<Rightarrow> bool" where
  "IsFifoEmpty fifo = (Begin fifo = End fifo)"

definition IsFifoFull :: "simple_fifo \<Rightarrow> bool option" where
  "IsFifoFull fifo = map_option (\<lambda>e. e = Begin fifo) (FifoNext fifo (End fifo))"

section \<open>The representation\<close>

definition simple_ok :: "simple_fifo \<Rightarrow> bool" where
  "simple_ok fifo \<longleftrightarrow> unat (Size fifo) = length (Data fifo) \<and> 0 < length (Data fifo)
     \<and> unat (Begin fifo) < length (Data fifo) \<and> unat (End fifo) < length (Data fifo)"

definition simple_held :: "simple_fifo \<Rightarrow> nat" where
  "simple_held fifo = (length (Data fifo) - unat (Begin fifo) + unat (End fifo)) mod length (Data fifo)"

definition simple_contents :: "simple_fifo \<Rightarrow> bytes" where
  "simple_contents fifo = ring (Data fifo) (Suc (unat (Begin fifo)) mod length (Data fifo)) (simple_held fifo)"

lemma FifoNext_ok:
  assumes "simple_ok fifo"
  shows "\<exists>e. FifoNext fifo i = Some e \<and> unat e = Suc (unat i) mod length (Data fifo)"
proof -
  note ok = assms [unfolded simple_ok_def]
  have "Suc (unat i) mod length (Data fifo) < length (Data fifo)" using ok by simp
  moreover have "length (Data fifo) < 65536" using ok unsigned_less [of "Size fifo", where ?'a = nat] by simp
  ultimately have "unat (word_of_nat (Suc (unat i) mod length (Data fifo)) :: u16) = Suc (unat i) mod length (Data fifo)"
    by (simp add: unat_of_nat)
  moreover have "Size fifo \<noteq> 0" using ok by auto
  ultimately show ?thesis using ok by (simp add: FifoNext_def)
qed

lemma simple_held_facts:
  assumes "simple_ok fifo"
  shows "simple_held fifo < length (Data fifo)"
    "simple_held fifo = (if unat (Begin fifo) \<le> unat (End fifo) then unat (End fifo) - unat (Begin fifo)
       else length (Data fifo) - unat (Begin fifo) + unat (End fifo))"
  using assms by (auto simp: simple_ok_def simple_held_def mod_if)

lemma Suc_mod: "Suc i mod n = (if Suc i = n then 0 else Suc i)" if "i < n" for i n :: nat
  using that by (simp add: mod_if)

lemma FifoPush_ok:
  assumes "simple_ok fifo"
  shows "\<exists>fifo'. FifoPush fifo d = Some fifo' \<and> simple_ok fifo' \<and> length (Data fifo') = length (Data fifo)
    \<and> simple_contents fifo' = (if simple_held fifo = length (Data fifo) - 1 then [] else simple_contents fifo @ [d])"
proof -
  note ok = assms [unfolded simple_ok_def]
  let ?N = "length (Data fifo)" and ?b = "unat (Begin fifo)"
  obtain e where e: "FifoNext fifo (End fifo) = Some e" "unat e = Suc (unat (End fifo)) mod ?N"
    using FifoNext_ok [OF assms] by blast
  have lt: "unat e < ?N" using e(2) ok by simp
  define f where "f = fifo\<lparr>End := e, Data := (Data fifo)[unat e := d]\<rparr>"
  have push: "FifoPush fifo d = Some f" using e(1) lt by (simp add: FifoPush_def f_def wr8_in)
  have ok': "simple_ok f" using ok lt by (simp add: f_def simple_ok_def)
  have same: "length (Data f) = ?N" "Begin f = Begin fifo" "End f = e" by (simp_all add: f_def)
  note h = simple_held_facts [OF assms] and h' = simple_held_facts [OF ok', unfolded same]
  show ?thesis
  proof (cases "simple_held fifo = ?N - 1")
    case True
    then have "simple_held f = 0"
      using h h' ok e(2) by (auto simp: Suc_mod split: if_splits)
    then show ?thesis using True push ok' same by (simp add: simple_contents_def)
  next
    case False
    then have hs: "simple_held f = Suc (simple_held fifo)"
      using h h' ok e(2) by (auto simp: Suc_mod split: if_splits)
    have pos: "(Suc ?b mod ?N + simple_held fifo) mod ?N = unat e"
      using h ok e(2) by (auto simp: Suc_mod mod_if split: if_splits)
    have w: "wrap_write (Data fifo) (unat e) [d] = Some ((Data fifo)[unat e := d])"
      using lt by (simp add: wrap_write_plain wr_bytes_def upd_conv_take_nth_drop)
    have "Suc ?b mod ?N < ?N" "simple_held fifo + length [d] \<le> ?N" using ok h(1) by simp_all
    from wrap_write_ring [OF this] w pos
    have "ring ((Data fifo)[unat e := d]) (Suc ?b mod ?N) (Suc (simple_held fifo)) = simple_contents fifo @ [d]"
      by (simp add: simple_contents_def)
    then show ?thesis using False push ok' hs by (simp add: simple_contents_def [of f]) (simp add: f_def)
  qed
qed

lemma FifoPop_ok:
  assumes "simple_ok fifo" "simple_contents fifo \<noteq> []"
  shows "\<exists>fifo'. FifoPop fifo = Some (hd (simple_contents fifo), fifo') \<and> simple_ok fifo'
    \<and> length (Data fifo') = length (Data fifo) \<and> simple_contents fifo' = tl (simple_contents fifo)"
proof -
  note ok = assms(1) [unfolded simple_ok_def]
  let ?N = "length (Data fifo)" and ?b = "unat (Begin fifo)"
  obtain b where b: "FifoNext fifo (Begin fifo) = Some b" "unat b = Suc ?b mod ?N"
    using FifoNext_ok [OF assms(1)] by blast
  have lt: "unat b < ?N" using b(2) ok by simp
  define f where "f = fifo\<lparr>Begin := b\<rparr>"
  have ok': "simple_ok f" using ok lt by (simp add: f_def simple_ok_def)
  note h = simple_held_facts [OF assms(1)] and h' = simple_held_facts [OF ok']
  have pos: "0 < simple_held fifo"
    using assms(2) unfolding simple_contents_def length_greater_0_conv [symmetric] by simp
  then have held: "simple_held fifo = Suc (simple_held f)"
    using h h' ok b(2) by (auto simp: f_def Suc_mod split: if_splits)
  have c: "simple_contents fifo = Data fifo ! unat b # simple_contents f"
    using lt b(2) by (simp add: simple_contents_def held ring_Suc) (simp add: f_def)
  have "FifoPop fifo = Some (Data fifo ! unat b, f)"
    using b(1) lt by (simp add: FifoPop_def rd8_in f_def)
  then show ?thesis using c ok' by (simp add: f_def)
qed

lemma simple_tests:
  assumes "simple_ok fifo"
  shows "IsFifoEmpty fifo = (simple_contents fifo = [])"
    "IsFifoFull fifo = Some (length (simple_contents fifo) = length (Data fifo) - 1)"
proof -
  note ok = assms [unfolded simple_ok_def] and h = simple_held_facts [OF assms]
  have len: "length (simple_contents fifo) = simple_held fifo" by (simp add: simple_contents_def)
  have "(Begin fifo = End fifo) = (simple_held fifo = 0)"
    using h(2) ok by (auto simp: word_unat_eq_iff split: if_splits)
  then show "IsFifoEmpty fifo = (simple_contents fifo = [])"
    using len by (metis IsFifoEmpty_def length_0_conv)
  obtain e where e: "FifoNext fifo (End fifo) = Some e" "unat e = Suc (unat (End fifo)) mod length (Data fifo)"
    using FifoNext_ok [OF assms] by blast
  have "(e = Begin fifo) = (unat e = unat (Begin fifo))" by (rule word_unat_eq_iff)
  also have "\<dots> = (simple_held fifo = length (Data fifo) - 1)"
    using h(2) ok e(2) by (auto simp: Suc_mod split: if_splits)
  finally show "IsFifoFull fifo = Some (length (simple_contents fifo) = length (Data fifo) - 1)"
    by (simp add: IsFifoFull_def e(1) len)
qed

section \<open>Properties\<close>

text \<open>
  The queue of ringbuffer_simple.c as a list. \<open>IsFifoEmpty\<close> and \<open>IsFifoFull\<close> say whether the list
  is empty or holds size - 1 bytes; \<open>FifoPop\<close> of a non-empty queue takes the first byte off; \<open>FifoPush\<close>
  appends a byte to a queue that is not full, but on a full one, which it does not check for, it
  makes the indices equal and the whole contents are gone.
\<close>

theorem simple_fifo_operations:
  assumes "simple_ok fifo"
  shows "IsFifoEmpty fifo = (simple_contents fifo = [])
    \<and> IsFifoFull fifo = Some (length (simple_contents fifo) = length (Data fifo) - 1)
    \<and> (\<exists>fifo'. FifoPush fifo d = Some fifo' \<and> simple_ok fifo'
        \<and> simple_contents fifo' = (if IsFifoFull fifo = Some True then [] else simple_contents fifo @ [d]))
    \<and> (case simple_contents fifo of [] \<Rightarrow> True
        | x # xs \<Rightarrow> (\<exists>fifo'. FifoPop fifo = Some (x, fifo') \<and> simple_ok fifo' \<and> simple_contents fifo' = xs))
    \<and> simple_ok (FifoFlush fifo) \<and> simple_contents (FifoFlush fifo) = []"
proof (intro conjI)
  show "\<exists>fifo'. FifoPush fifo d = Some fifo' \<and> simple_ok fifo'
      \<and> simple_contents fifo' = (if IsFifoFull fifo = Some True then [] else simple_contents fifo @ [d])"
    using FifoPush_ok [OF assms, of d] simple_tests(2) [OF assms] by (auto simp: simple_contents_def)
  show "case simple_contents fifo of [] \<Rightarrow> True
      | x # xs \<Rightarrow> (\<exists>fifo'. FifoPop fifo = Some (x, fifo') \<and> simple_ok fifo' \<and> simple_contents fifo' = xs)"
    using FifoPop_ok [OF assms] by (auto split: list.split)
  show "simple_ok (FifoFlush fifo)" "simple_contents (FifoFlush fifo) = []"
    using assms by (simp_all add: FifoFlush_def simple_ok_def simple_contents_def simple_held_def)
qed (use simple_tests [OF assms] in simp_all)

definition demo_simple :: simple_fifo where
  "demo_simple = \<lparr>Begin = 2, End = 0, Data = [5, 6, 7, 8], Size = 4\<rparr>"

theorem simple_fifo_operations_witness:
  "IsFifoEmpty demo_simple = (simple_contents demo_simple = [])
    \<and> IsFifoFull demo_simple = Some (length (simple_contents demo_simple) = length (Data demo_simple) - 1)
    \<and> (\<exists>fifo'. FifoPush demo_simple 9 = Some fifo' \<and> simple_ok fifo'
        \<and> simple_contents fifo' = (if IsFifoFull demo_simple = Some True then [] else simple_contents demo_simple @ [9]))
    \<and> (case simple_contents demo_simple of [] \<Rightarrow> True
        | x # xs \<Rightarrow> (\<exists>fifo'. FifoPop demo_simple = Some (x, fifo') \<and> simple_ok fifo' \<and> simple_contents fifo' = xs))
    \<and> simple_ok (FifoFlush demo_simple) \<and> simple_contents (FifoFlush demo_simple) = []"
  by (rule simple_fifo_operations) (simp add: demo_simple_def simple_ok_def)

end
