(* ===== verification/Membuf.thy ===== *)
theory Membuf
  imports Prelude
begin

text \<open>
  The growing byte buffer of \<open>fun_buffer/membuf.c\<close> and \<open>membuf.h\<close>. Its memory comes from \<open>malloc\<close> and
  \<open>realloc\<close> or is lent by the caller (a local buffer), until it has to grow; \<open>NULL\<close> is \<^term>\<open>None\<close>. What
  \<open>malloc\<close> answers to a request is the parameter \<open>alloc\<close>: the bytes found there, or \<open>NULL\<close>, which the code
  never checks. A failed assertion ends the run like an access outside an object. A memory
  function with a null pointer and a length of 0 does nothing. Data to be added must not lie in the
  buffer itself. That the memory of \<open>free\<close> is not used again, and the functions on files, are left out.

  The content of a buffer is a list of bytes: appending, inserting and removing are the operations on
  that list, as long as its length does not exceed \<open>2 ^ 31\<close>. Beyond that, growing does not end or
  gives a buffer that is too small.
\<close>

section \<open>State\<close>

record membuf =
  buf_data :: "bytes option"
  msize :: u32
  buffer_size :: u32
  uses_local_buffer :: bool

type_synonym allocator = "nat \<Rightarrow> bytes option"

definition obj :: "bytes option \<Rightarrow> bytes" where
  "obj p = (case p of None \<Rightarrow> [] | Some m \<Rightarrow> m)"

definition wr_obj :: "bytes option \<Rightarrow> nat \<Rightarrow> bytes \<Rightarrow> bytes option option" where
  "wr_obj p i vs = (case p of
     None \<Rightarrow> if vs = [] then Some None else None
   | Some m \<Rightarrow> map_option Some (wr_bytes m i vs))"

definition membuf_realloc :: "allocator \<Rightarrow> bytes option \<Rightarrow> nat \<Rightarrow> bytes option" where
  "membuf_realloc alloc p n = map_option (\<lambda>fresh. take n (obj p @ drop (length (obj p)) fresh)) (alloc n)"

definition zero_membuf :: membuf where
  "zero_membuf = \<lparr>buf_data = None, msize = 0, buffer_size = 0, uses_local_buffer = False\<rparr>"

definition membuf_init :: "allocator \<Rightarrow> u32 \<Rightarrow> membuf" where
  "membuf_init alloc n =
     zero_membuf\<lparr>buf_data := (if n > 0 then alloc (unat n) else None), buffer_size := n\<rparr>"

definition membuf_init_local :: "bytes option \<Rightarrow> u32 \<Rightarrow> membuf" where
  "membuf_init_local mem n = zero_membuf\<lparr>buf_data := (if mem \<noteq> None \<and> n > 0 then mem else None),
     buffer_size := n, uses_local_buffer := True\<rparr>"

definition membuf_uninit :: "membuf \<Rightarrow> membuf" where
  "membuf_uninit b = zero_membuf"

section \<open>Growing\<close>

partial_function (option) grow :: "u32 \<Rightarrow> u32 \<Rightarrow> u32 option" where
  "grow n need = (if n < need then grow (push_bit 1 n) need else Some n)"

definition membuf_reserve :: "allocator \<Rightarrow> u32 \<Rightarrow> membuf \<Rightarrow> membuf option" where
  "membuf_reserve alloc extra b =
     (if extra > buffer_size b - msize b then do {
        n \<leftarrow> grow (if buffer_size b = 0 then extra else push_bit 1 (buffer_size b)) (msize b + extra);
        data \<leftarrow> (if uses_local_buffer b then do {
            vs \<leftarrow> rd_bytes (obj (buf_data b)) 0 (unat (msize b));
            wr_obj (membuf_realloc alloc None (unat n)) 0 vs
          } else Some (membuf_realloc alloc (buf_data b) (unat n)));
        Some (b\<lparr>buf_data := data, uses_local_buffer := False, buffer_size := n\<rparr>)
      }
      else Some b)"

section \<open>Adding and taking away\<close>

definition membuf_append_data :: "allocator \<Rightarrow> bytes option \<Rightarrow> u32 \<Rightarrow> membuf \<Rightarrow> (u32 \<times> membuf) option" where
  "membuf_append_data alloc data n b = do {
     d \<leftarrow> data;
     b \<leftarrow> (if n > 0 then membuf_reserve alloc n b else None);
     vs \<leftarrow> rd_bytes d 0 (unat n);
     m \<leftarrow> wr_obj (buf_data b) (unat (msize b)) vs;
     let b = b\<lparr>buf_data := m, msize := msize b + n\<rparr>;
     Some (msize b - n, b)
   }"

definition membuf_append_zeros :: "allocator \<Rightarrow> u32 \<Rightarrow> membuf \<Rightarrow> (u32 \<times> membuf) option" where
  "membuf_append_zeros alloc n b = do {
     b \<leftarrow> membuf_reserve alloc n b;
     m \<leftarrow> wr_obj (buf_data b) (unat (msize b)) (replicate (unat n) 0);
     let b = b\<lparr>buf_data := m, msize := msize b + n\<rparr>;
     Some (msize b - n, b)
   }"

definition strlen :: "bytes \<Rightarrow> nat option" where
  "strlen s = (let n = length (takeWhile (\<lambda>c. c \<noteq> 0) s) in if n < length s then Some n else None)"

text \<open>A length of -1 asks for that of the string.\<close>

definition text_length :: "bytes option \<Rightarrow> u32 \<Rightarrow> u32 option" where
  "text_length str len = (case str of
     Some s \<Rightarrow> if len = - 1 then map_option of_nat (strlen s) else Some len
   | None \<Rightarrow> Some len)"

definition membuf_append_text :: "allocator \<Rightarrow> bytes option \<Rightarrow> u32 \<Rightarrow> membuf \<Rightarrow> (u32 \<times> membuf) option" where
  "membuf_append_text alloc str len b = do {
     len \<leftarrow> text_length str len;
     membuf_append_data alloc str len b
   }"

definition membuf_append_text_zero :: "allocator \<Rightarrow> bytes option \<Rightarrow> u32 \<Rightarrow> membuf \<Rightarrow> (u32 \<times> membuf) option" where
  "membuf_append_text_zero alloc str len b = do {
     len \<leftarrow> text_length str len;
     b \<leftarrow> membuf_reserve alloc (len + 1) b;
     (offset, b) \<leftarrow> membuf_append_data alloc str len b;
     (_, b) \<leftarrow> membuf_append_zeros alloc 1 b;
     Some (offset, b)
   }"

definition membuf_append_byte :: "allocator \<Rightarrow> u8 \<Rightarrow> membuf \<Rightarrow> (u32 \<times> membuf) option" where
  "membuf_append_byte alloc v = membuf_append_data alloc (Some [v]) 1"

text \<open>The bytes behind the place are copied with \<open>memcpy\<close>, for which the two ranges must not overlap.\<close>

definition membuf_insert :: "allocator \<Rightarrow> u32 \<Rightarrow> bytes \<Rightarrow> u32 \<Rightarrow> membuf \<Rightarrow> membuf option" where
  "membuf_insert alloc offset data n b =
     (if offset < msize b then do {
        b \<leftarrow> membuf_reserve alloc n b;
        let rest = unat (msize b - offset);
        tail \<leftarrow> rd_bytes (obj (buf_data b)) (unat offset) rest;
        m \<leftarrow> (if unat n < rest then None else wr_obj (buf_data b) (unat offset + unat n) tail);
        vs \<leftarrow> rd_bytes data 0 (unat n);
        m \<leftarrow> wr_obj m (unat offset) vs;
        Some (b\<lparr>buf_data := m, msize := msize b + n\<rparr>)
      }
      else None)"

definition membuf_remove :: "u32 \<Rightarrow> u32 \<Rightarrow> membuf \<Rightarrow> membuf option" where
  "membuf_remove offset n b =
     (if offset < msize b then
        (if offset + n \<ge> msize b then Some (b\<lparr>msize := offset\<rparr>)
         else do {
           vs \<leftarrow> rd_bytes (obj (buf_data b)) (unat offset + unat n) (unat (msize b - offset - n));
           m \<leftarrow> wr_obj (buf_data b) (unat offset) vs;
           Some (b\<lparr>buf_data := m, msize := msize b - n\<rparr>)
         })
      else None)"

definition membuf_empty :: "membuf \<Rightarrow> membuf" where
  "membuf_empty b = b\<lparr>msize := 0\<rparr>"

text \<open>The memory is handed over; what was lent is copied first.\<close>

definition membuf_detach :: "allocator \<Rightarrow> membuf \<Rightarrow> (bytes option \<times> u32 \<times> membuf) option" where
  "membuf_detach alloc b = do {
     r \<leftarrow> (if uses_local_buffer b \<and> msize b > 0 then do {
         vs \<leftarrow> rd_bytes (obj (buf_data b)) 0 (unat (msize b));
         wr_obj (alloc (unat (msize b))) 0 vs
       } else Some (buf_data b));
     Some (r, msize b, zero_membuf)
   }"

definition membuf_init_move_from :: "allocator \<Rightarrow> membuf \<Rightarrow> (membuf \<times> membuf) option" where
  "membuf_init_move_from alloc other = do {
     b \<leftarrow> (if uses_local_buffer other then
         (if msize other > 0
          then map_option snd (membuf_append_data alloc (buf_data other) (msize other) (membuf_init alloc 0))
          else Some (membuf_init alloc 0))
       else Some other);
     Some (b, zero_membuf)
   }"

section \<open>The buffer as a list\<close>

definition membuf_ok :: "membuf \<Rightarrow> bool" where
  "membuf_ok b \<longleftrightarrow> length (obj (buf_data b)) = unat (buffer_size b) \<and> msize b \<le> buffer_size b"

definition membuf_contents :: "membuf \<Rightarrow> bytes" where
  "membuf_contents b = take (unat (msize b)) (obj (buf_data b))"

definition provides :: "allocator \<Rightarrow> bool" where
  "provides alloc \<longleftrightarrow> (\<forall>n. \<exists>m. alloc n = Some m \<and> length m = n)"

lemma obj_simps [simp]: "obj None = []" "obj (Some m) = m"
  by (simp_all add: obj_def)

lemma wr_obj_in:
  "i + length vs \<le> length (obj p) \<Longrightarrow>
     \<exists>q. wr_obj p i vs = Some q \<and> obj q = take i (obj p) @ vs @ drop (i + length vs) (obj p)"
  by (cases p) (auto simp: wr_obj_def wr_bytes_def)

lemma length_membuf_contents: "membuf_ok b \<Longrightarrow> length (membuf_contents b) = unat (msize b)"
  by (simp add: membuf_ok_def membuf_contents_def word_le_nat_alt)

lemma grow_result:
  assumes "grow n need = Some m"
  shows "need \<le> m \<and> (\<exists>k. m = push_bit k n)"
proof (rule grow.raw_induct [OF _ assms, where P = "\<lambda>n need m. need \<le> m \<and> (\<exists>k. m = push_bit k n)"])
  fix f and n need m :: u32
  assume IH: "\<And>n need m. f n need = Some m \<Longrightarrow> need \<le> m \<and> (\<exists>k. m = push_bit k n)"
    and run: "(if n < need then f (push_bit 1 n) need else Some n) = Some m"
  show "need \<le> m \<and> (\<exists>k. m = push_bit k n)"
  proof (cases "n < need")
    case True
    then obtain k where "need \<le> m" "m = push_bit k (push_bit 1 n)" using IH run by force
    moreover have "push_bit k (push_bit 1 n) = push_bit (k + 1) n" by (simp only: push_bit_push_bit add.commute)
    ultimately show ?thesis by metis
  next
    case False
    then have "m = push_bit 0 n" "need \<le> m" using run False by (simp_all add: not_less)
    then show ?thesis by blast
  qed
qed

lemma unat_doubled: "unat (n :: u32) < 2 ^ 31 \<Longrightarrow> unat (push_bit 1 n) = 2 * unat n"
  by (simp add: push_bit_eq_mult unat_mult_lem [THEN iffD1] mult.commute)

lemma grow_ok:
  "0 < unat n \<Longrightarrow> unat need \<le> 2 ^ 31 \<Longrightarrow> \<exists>m. grow n need = Some m \<and> need \<le> m \<and> (m = n \<or> unat m < 2 * unat need)"
proof (induction "unat need - unat n" arbitrary: n rule: less_induct)
  case less
  show ?case
  proof (cases "n < need")
    case True
    then have lt: "unat n < unat need" by (simp add: word_less_nat_alt)
    then have d: "unat (push_bit 1 n) = 2 * unat n" using less.prems(2) by (intro unat_doubled) simp
    have "\<exists>m. grow (push_bit 1 n) need = Some m \<and> need \<le> m \<and> (m = push_bit 1 n \<or> unat m < 2 * unat need)"
      using less.prems lt d by (intro less.hyps) simp_all
    then show ?thesis using True lt d by (subst grow.simps) auto
  next
    case False
    then show ?thesis by (subst grow.simps) simp
  qed
qed

lemma reserve_ok:
  assumes "membuf_ok b" "provides alloc" "unat (msize b) + unat extra \<le> 2 ^ 31"
  shows "\<exists>b'. membuf_reserve alloc extra b = Some b' \<and> membuf_ok b' \<and> membuf_contents b' = membuf_contents b \<and>
    msize b' = msize b \<and> unat (msize b) + unat extra \<le> unat (buffer_size b') \<and>
    (buffer_size b' = buffer_size b \<or> unat (buffer_size b') \<le> 2 * (unat (msize b) + unat extra))"
proof (cases "extra > buffer_size b - msize b")
  case False
  have "msize b \<le> buffer_size b" using assms(1) by (simp add: membuf_ok_def)
  then have "unat (buffer_size b - msize b) = unat (buffer_size b) - unat (msize b)" "unat (msize b) \<le> unat (buffer_size b)"
    by (simp_all add: unat_sub word_le_nat_alt)
  then have "unat (msize b) + unat extra \<le> unat (buffer_size b)" using False by (simp add: not_less word_le_nat_alt)
  moreover have "membuf_reserve alloc extra b = Some b" unfolding membuf_reserve_def if_not_P [OF False] ..
  ultimately show ?thesis using assms(1) by simp
next
  case True
  have le: "msize b \<le> buffer_size b" using assms(1) by (simp add: membuf_ok_def)
  then have sub: "unat (buffer_size b - msize b) = unat (buffer_size b) - unat (msize b)" "unat (msize b) \<le> unat (buffer_size b)"
    by (simp_all add: unat_sub word_le_nat_alt)
  then have small: "unat (buffer_size b) < unat (msize b) + unat extra" using True by (simp add: word_less_nat_alt)
  have need: "unat (msize b + extra) = unat (msize b) + unat extra" using assms(3) by (simp add: unat_add_lem [THEN iffD1])
  let ?n = "if buffer_size b = 0 then extra else push_bit 1 (buffer_size b)"
  have n: "unat ?n \<le> 2 * (unat (msize b) + unat extra) \<and> 0 < unat ?n"
  proof (cases "buffer_size b = 0")
    case True
    then have "unat (buffer_size b) = 0" by simp
    then show ?thesis using True small sub(2) by simp
  next
    case False
    then have "0 < unat (buffer_size b)" by (simp add: unat_gt_0)
    moreover have "unat (push_bit 1 (buffer_size b)) = 2 * unat (buffer_size b)" using small assms(3) by (intro unat_doubled) linarith
    ultimately show ?thesis using False small by simp
  qed
  have "unat (msize b + extra) \<le> 2 ^ 31" unfolding need by (rule assms(3))
  from grow_ok [OF conjunct2 [OF n] this] obtain m where m: "grow ?n (msize b + extra) = Some m" "unat (msize b) + unat extra \<le> unat m"
    "unat m \<le> 2 * (unat (msize b) + unat extra)"
    using n need by (auto simp: word_le_nat_alt)
  obtain fresh where fresh: "alloc (unat m) = Some fresh" "length fresh = unat m" using assms(2) by (auto simp: provides_def)
  have len: "length (obj (buf_data b)) = unat (buffer_size b)" using assms(1) by (simp add: membuf_ok_def)
  define data where "data = (if uses_local_buffer b then Some (membuf_contents b @ drop (unat (msize b)) fresh)
      else Some (obj (buf_data b) @ drop (length (obj (buf_data b))) fresh))"
  have small': "unat (buffer_size b) \<le> unat m" using small m(2) by simp
  have run: "membuf_reserve alloc extra b = Some (b\<lparr>buf_data := data, uses_local_buffer := False, buffer_size := m\<rparr>)"
    using True m(1) fresh len sub(2) small'
    by (auto simp: membuf_reserve_def membuf_realloc_def data_def rd_bytes_def wr_obj_def wr_bytes_def membuf_contents_def)
  have "length (obj data) = unat m" "take (unat (msize b)) (obj data) = membuf_contents b"
    using fresh(2) len sub(2) small' by (auto simp: data_def membuf_contents_def)
  moreover have "msize b \<le> m" using m(2) by (simp add: word_le_nat_alt)
  ultimately show ?thesis using run m(2,3) by (simp add: membuf_ok_def membuf_contents_def)
qed

text \<open>Writing at the end of the content.\<close>

lemma write_end:
  assumes "membuf_ok b" "unat (msize b) + length vs \<le> unat (buffer_size b)" "length vs = unat n"
  shows "\<exists>m. wr_obj (buf_data b) (unat (msize b)) vs = Some m \<and>
    membuf_ok (b\<lparr>buf_data := m, msize := msize b + n\<rparr>) \<and> membuf_contents (b\<lparr>buf_data := m, msize := msize b + n\<rparr>) = membuf_contents b @ vs"
proof -
  have len: "length (obj (buf_data b)) = unat (buffer_size b)" "unat (msize b) \<le> unat (buffer_size b)"
    using assms(1) by (simp_all add: membuf_ok_def word_le_nat_alt)
  obtain m where m: "wr_obj (buf_data b) (unat (msize b)) vs = Some m"
    "obj m = take (unat (msize b)) (obj (buf_data b)) @ vs @ drop (unat (msize b) + length vs) (obj (buf_data b))"
    using wr_obj_in [of "unat (msize b)" vs "buf_data b"] assms(2) len by auto
  have "unat (msize b) + unat n < 2 ^ 32" using assms(2,3) unsigned_less [of "buffer_size b", where 'a = nat] by simp
  then have n: "unat (msize b + n) = unat (msize b) + unat n" by (simp add: unat_add_lem [THEN iffD1])
  have "membuf_ok (b\<lparr>buf_data := m, msize := msize b + n\<rparr>)"
    using m(2) len assms(2,3) n by (simp add: membuf_ok_def word_le_nat_alt)
  moreover have "membuf_contents (b\<lparr>buf_data := m, msize := msize b + n\<rparr>) = membuf_contents b @ vs"
    using m(2) len assms(2,3) n by (simp add: membuf_contents_def)
  ultimately show ?thesis using m(1) by blast
qed

lemma append_data_ok:
  assumes "membuf_ok b" "provides alloc" "unat (msize b) + unat n \<le> 2 ^ 31" "0 < n" "unat n \<le> length d"
  shows "\<exists>b'. membuf_append_data alloc (Some d) n b = Some (msize b, b') \<and> membuf_ok b' \<and>
    membuf_contents b' = membuf_contents b @ take (unat n) d"
proof -
  obtain b1 where r: "membuf_reserve alloc n b = Some b1" "membuf_ok b1" "membuf_contents b1 = membuf_contents b" "msize b1 = msize b"
    "unat (msize b) + unat n \<le> unat (buffer_size b1)" using reserve_ok [OF assms(1-3)] by blast
  obtain m where "wr_obj (buf_data b1) (unat (msize b1)) (take (unat n) d) = Some m"
    "membuf_ok (b1\<lparr>buf_data := m, msize := msize b1 + n\<rparr>)"
    "membuf_contents (b1\<lparr>buf_data := m, msize := msize b1 + n\<rparr>) = membuf_contents b1 @ take (unat n) d"
    using write_end [OF r(2), of "take (unat n) d" n] r(4,5) assms(5) by auto
  then show ?thesis using r assms(4,5) by (simp add: membuf_append_data_def rd_bytes_in)
qed

lemma append_zeros_ok:
  assumes "membuf_ok b" "provides alloc" "unat (msize b) + unat n \<le> 2 ^ 31"
  shows "\<exists>b'. membuf_append_zeros alloc n b = Some (msize b, b') \<and> membuf_ok b' \<and>
    membuf_contents b' = membuf_contents b @ replicate (unat n) 0"
proof -
  obtain b1 where r: "membuf_reserve alloc n b = Some b1" "membuf_ok b1" "membuf_contents b1 = membuf_contents b" "msize b1 = msize b"
    "unat (msize b) + unat n \<le> unat (buffer_size b1)" using reserve_ok [OF assms] by blast
  obtain m where "wr_obj (buf_data b1) (unat (msize b1)) (replicate (unat n) 0) = Some m"
    "membuf_ok (b1\<lparr>buf_data := m, msize := msize b1 + n\<rparr>)"
    "membuf_contents (b1\<lparr>buf_data := m, msize := msize b1 + n\<rparr>) = membuf_contents b1 @ replicate (unat n) 0"
    using write_end [OF r(2), of "replicate (unat n) 0" n] r(4,5) by auto
  then show ?thesis using r by (simp add: membuf_append_zeros_def)
qed

lemma text_length_ok:
  assumes "if len = - 1 then 0 \<in> set s \<and> length (takeWhile (\<lambda>c. c \<noteq> 0) s) = n else unat len = n \<and> n \<le> length s" "n < 2 ^ 32"
  shows "\<exists>l. text_length (Some s) len = Some l \<and> unat l = n \<and> n \<le> length s"
proof (cases "len = - 1")
  case True
  have "length (takeWhile (\<lambda>c. c \<noteq> 0) s) < length s"
  proof -
    have "takeWhile (\<lambda>c. c \<noteq> 0) s \<noteq> s" using assms(1) True by (auto simp: takeWhile_eq_all_conv)
    then have "length (takeWhile (\<lambda>c. c \<noteq> 0) s) \<noteq> length s" by (metis takeWhile_eq_take take_all order_refl)
    then show ?thesis using length_takeWhile_le [of "\<lambda>c. c \<noteq> 0" s] by linarith
  qed
  then show ?thesis using assms True by (simp add: text_length_def strlen_def Let_def unat_of_nat)
next
  case False
  then show ?thesis using assms(1) by (simp add: text_length_def)
qed

lemma append_text_ok:
  assumes "membuf_ok b" "provides alloc" "unat (msize b) + n \<le> 2 ^ 31" "0 < n"
    and "if len = - 1 then 0 \<in> set s \<and> length (takeWhile (\<lambda>c. c \<noteq> 0) s) = n else unat len = n \<and> n \<le> length s"
  shows "\<exists>b'. membuf_append_text alloc (Some s) len b = Some (msize b, b') \<and> membuf_ok b' \<and> membuf_contents b' = membuf_contents b @ take n s"
proof -
  obtain l where l: "text_length (Some s) len = Some l" "unat l = n" "n \<le> length s"
    using text_length_ok [OF assms(5)] assms(3) by auto
  then have "0 < l" using assms(4) by (metis unat_gt_0 word_gt_0)
  then show ?thesis using append_data_ok [OF assms(1,2), of l s] assms(3) l by (simp add: membuf_append_text_def)
qed

lemma append_text_zero_ok:
  assumes "membuf_ok b" "provides alloc" "unat (msize b) + n + 1 \<le> 2 ^ 31" "0 < n"
    and "if len = - 1 then 0 \<in> set s \<and> length (takeWhile (\<lambda>c. c \<noteq> 0) s) = n else unat len = n \<and> n \<le> length s"
  shows "\<exists>b'. membuf_append_text_zero alloc (Some s) len b = Some (msize b, b') \<and> membuf_ok b' \<and>
    membuf_contents b' = membuf_contents b @ take n s @ [0]"
proof -
  obtain l where l: "text_length (Some s) len = Some l" "unat l = n" "n \<le> length s"
    using text_length_ok [OF assms(5)] assms(3) by auto
  have l0: "0 < l" using assms(4) l(2) by (metis unat_gt_0 word_gt_0)
  have l1: "unat (l + 1) = n + 1" using l(2) assms(3) by (simp add: unat_add_lem [THEN iffD1])
  obtain b1 where r: "membuf_reserve alloc (l + 1) b = Some b1" "membuf_ok b1" "membuf_contents b1 = membuf_contents b" "msize b1 = msize b"
    using reserve_ok [OF assms(1,2), of "l + 1"] l1 assms(3) by auto
  obtain b2 where a: "membuf_append_data alloc (Some s) l b1 = Some (msize b, b2)" "membuf_ok b2" "membuf_contents b2 = membuf_contents b @ take n s"
    using append_data_ok [OF r(2) assms(2), of l s] r(3,4) l l0 assms(3) by auto
  have "unat (msize b2) = unat (msize b) + n"
    using length_membuf_contents [OF a(2)] length_membuf_contents [OF assms(1)] a(3) l(3) by simp
  then obtain b3 where "membuf_append_zeros alloc 1 b2 = Some (msize b2, b3)" "membuf_ok b3" "membuf_contents b3 = membuf_contents b2 @ [0]"
    using append_zeros_ok [OF a(2) assms(2), of 1] assms(3) by auto
  then show ?thesis using r(1) a l(1) by (simp add: membuf_append_text_zero_def)
qed

lemma membuf_insert_ok:
  assumes "membuf_ok b" "provides alloc" "unat (msize b) + unat n \<le> 2 ^ 31" "offset < msize b"
    and "unat n \<le> length d" "unat (msize b) \<le> unat offset + unat n"
  shows "\<exists>b'. membuf_insert alloc offset d n b = Some b' \<and> membuf_ok b' \<and>
    membuf_contents b' = take (unat offset) (membuf_contents b) @ take (unat n) d @ drop (unat offset) (membuf_contents b)"
proof -
  obtain b1 where r: "membuf_reserve alloc n b = Some b1" "membuf_ok b1" "membuf_contents b1 = membuf_contents b" "msize b1 = msize b"
    "unat (msize b) + unat n \<le> unat (buffer_size b1)" using reserve_ok [OF assms(1-3)] by blast
  have len: "length (obj (buf_data b1)) = unat (buffer_size b1)" using r(2) by (simp add: membuf_ok_def)
  have o: "unat offset < unat (msize b)" using assms(4) by (simp add: word_less_nat_alt)
  then have rest: "unat (msize b - offset) = unat (msize b) - unat offset" by (simp add: unat_sub word_le_nat_alt)
  let ?tail = "take (unat (msize b) - unat offset) (drop (unat offset) (obj (buf_data b1)))"
  have c1: "membuf_contents b = take (unat (msize b)) (obj (buf_data b1))" using r(3) [symmetric] r(4) unfolding membuf_contents_def by simp
  then have tail: "?tail = drop (unat offset) (membuf_contents b)" "length ?tail = unat (msize b) - unat offset"
    using r(5) len o by (simp_all add: drop_take)
  obtain m1 where m1: "wr_obj (buf_data b1) (unat offset + unat n) ?tail = Some m1"
    "obj m1 = take (unat offset + unat n) (obj (buf_data b1)) @ ?tail @ drop (unat offset + unat n + length ?tail) (obj (buf_data b1))"
    using wr_obj_in [of "unat offset + unat n" ?tail "buf_data b1"] len tail(2) o r(5) by auto
  have len1: "length (obj m1) = unat (buffer_size b1)" using m1(2) tail(2) len o r(5) by simp
  obtain m2 where m2: "wr_obj m1 (unat offset) (take (unat n) d) = Some m2"
    "obj m2 = take (unat offset) (obj m1) @ take (unat n) d @ drop (unat offset + unat n) (obj m1)"
    using wr_obj_in [of "unat offset" "take (unat n) d" m1] len1 assms(5) o r(5) by auto
  have n: "unat (msize b + n) = unat (msize b) + unat n" using assms(3) by (simp add: unat_add_lem [THEN iffD1])
  let ?b = "b1\<lparr>buf_data := m2, msize := msize b1 + n\<rparr>"
  have clear: "\<not> unat n < unat (msize b) - unat offset" using assms(6) by linarith
  have "membuf_insert alloc offset d n b = Some ?b"
    using assms(4,5) r(1,4,5) rest m1(1) m2(1) len o clear by (simp add: membuf_insert_def rd_bytes_in Let_def)
  moreover have "membuf_ok ?b" using m2(2) len1 assms(5) o r(4,5) n by (simp add: membuf_ok_def word_le_nat_alt)
  moreover have "membuf_contents ?b = take (unat offset) (membuf_contents b) @ take (unat n) d @ drop (unat offset) (membuf_contents b)"
  proof -
    have "obj m2 = take (unat offset) (obj (buf_data b1)) @ take (unat n) d @ ?tail @ drop (unat (msize b) + unat n) (obj (buf_data b1))"
      using m1(2) m2(2) len o r(5) tail(2) by (simp add: add.commute)
    moreover have "take (unat offset) (obj (buf_data b1)) = take (unat offset) (membuf_contents b)"
      using o by (simp add: c1)
    ultimately show ?thesis using r(4) n assms(5) tail o r(5) len by (simp add: membuf_contents_def)
  qed
  ultimately show ?thesis by blast
qed

lemma membuf_remove_ok:
  assumes "membuf_ok b" "offset < msize b" "unat offset + unat n < 2 ^ 32"
  shows "\<exists>b'. membuf_remove offset n b = Some b' \<and> membuf_ok b' \<and>
    membuf_contents b' = take (unat offset) (membuf_contents b) @ drop (unat offset + unat n) (membuf_contents b)"
proof -
  have o: "unat offset < unat (msize b)" using assms(2) by (simp add: word_less_nat_alt)
  have len: "length (obj (buf_data b)) = unat (buffer_size b)" "unat (msize b) \<le> unat (buffer_size b)"
    using assms(1) by (simp_all add: membuf_ok_def word_le_nat_alt)
  have sum: "unat (offset + n) = unat offset + unat n" using assms(3) by (simp add: unat_add_lem [THEN iffD1])
  show ?thesis
  proof (cases "offset + n \<ge> msize b")
    case True
    then have "unat (msize b) \<le> unat offset + unat n" using sum by (simp add: word_le_nat_alt)
    moreover have "membuf_ok (b\<lparr>msize := offset\<rparr>)" using assms(1,2) by (auto simp: membuf_ok_def)
    ultimately show ?thesis using True assms(2) o len by (simp add: membuf_remove_def membuf_contents_def)
  next
    case False
    then have lt: "unat offset + unat n < unat (msize b)" using sum by (simp add: word_le_nat_alt)
    have rest: "unat (msize b - offset - n) = unat (msize b) - unat offset - unat n"
      using lt by (simp add: unat_sub word_le_nat_alt)
    have n: "unat (msize b - n) = unat (msize b) - unat n" using lt by (simp add: unat_sub word_le_nat_alt)
    let ?vs = "take (unat (msize b) - unat offset - unat n) (drop (unat offset + unat n) (obj (buf_data b)))"
    have fit: "unat offset + length ?vs \<le> length (obj (buf_data b))" using len lt by simp
    obtain m where m: "wr_obj (buf_data b) (unat offset) ?vs = Some m"
      "obj m = take (unat offset) (obj (buf_data b)) @ ?vs @ drop (unat offset + length ?vs) (obj (buf_data b))"
      using wr_obj_in [OF fit] by blast
    let ?b = "b\<lparr>buf_data := m, msize := msize b - n\<rparr>"
    have "membuf_remove offset n b = Some ?b"
      using False assms(2) rest m(1) len lt by (simp add: membuf_remove_def rd_bytes_in)
    moreover have "membuf_ok ?b" using m(2) len lt n by (simp add: membuf_ok_def word_le_nat_alt)
    moreover have "membuf_contents ?b = take (unat offset) (membuf_contents b) @ drop (unat offset + unat n) (membuf_contents b)"
      using m(2) len lt n by (simp add: membuf_contents_def drop_take add.commute [of "unat n" "unat offset"])
    ultimately show ?thesis by blast
  qed
qed

lemma membuf_init_ok:
  assumes "provides alloc"
  shows "membuf_ok (membuf_init alloc n)" "membuf_contents (membuf_init alloc n) = []"
proof -
  obtain m where "alloc (unat n) = Some m" "length m = unat n" using assms by (auto simp: provides_def)
  then show "membuf_ok (membuf_init alloc n)" "membuf_contents (membuf_init alloc n) = []"
    by (auto simp: membuf_init_def zero_membuf_def membuf_ok_def membuf_contents_def word_gt_0)
qed

lemma membuf_init_local_ok:
  "length m = unat n \<Longrightarrow> membuf_ok (membuf_init_local (Some m) n)" "membuf_contents (membuf_init_local p n) = []"
  by (auto simp: membuf_init_local_def zero_membuf_def membuf_ok_def membuf_contents_def word_gt_0)

lemma membuf_detach_ok:
  assumes "membuf_ok b" "provides alloc"
  shows "\<exists>p. membuf_detach alloc b = Some (p, msize b, zero_membuf) \<and> take (unat (msize b)) (obj p) = membuf_contents b"
proof (cases "uses_local_buffer b \<and> msize b > 0")
  case True
  obtain fresh where "alloc (unat (msize b)) = Some fresh" "length fresh = unat (msize b)" using assms(2) by (auto simp: provides_def)
  then show ?thesis
    using True assms(1)
    by (simp add: membuf_detach_def membuf_ok_def rd_bytes_def wr_obj_def wr_bytes_def membuf_contents_def word_le_nat_alt)
next
  case False
  then show ?thesis by (auto simp: membuf_detach_def membuf_contents_def)
qed

lemma membuf_move_ok:
  assumes "membuf_ok b" "provides alloc" "unat (msize b) \<le> 2 ^ 31"
  shows "\<exists>b'. membuf_init_move_from alloc b = Some (b', zero_membuf) \<and> membuf_ok b' \<and> membuf_contents b' = membuf_contents b"
proof (cases "uses_local_buffer b \<and> msize b > 0")
  case True
  note i = membuf_init_ok [OF assms(2), of 0]
  have m: "msize (membuf_init alloc 0) = 0" by (simp add: membuf_init_def zero_membuf_def)
  obtain d where d: "buf_data b = Some d" using assms(1) True by (cases "buf_data b") (auto simp: membuf_ok_def word_less_nat_alt word_le_nat_alt)
  have "unat (msize b) \<le> length d" using assms(1) d by (simp add: membuf_ok_def word_le_nat_alt)
  then obtain b' where "membuf_append_data alloc (Some d) (msize b) (membuf_init alloc 0) = Some (0, b')" "membuf_ok b'"
    "membuf_contents b' = take (unat (msize b)) d"
    using append_data_ok [OF i(1) assms(2), of "msize b" d] m i(2) assms(3) True by auto
  then show ?thesis using True d by (simp add: membuf_init_move_from_def membuf_contents_def)
next
  case False
  show ?thesis
  proof (cases "uses_local_buffer b")
    case True
    then have "msize b = 0" using False by (simp add: word_gt_0)
    then show ?thesis using True membuf_init_ok [OF assms(2), of 0] by (simp add: membuf_init_move_from_def membuf_contents_def)
  qed (use assms(1) in \<open>simp add: membuf_init_move_from_def\<close>)
qed

section \<open>Beyond the bounds\<close>

text \<open>Doubling a power of two never exceeds \<open>2 ^ 31\<close>: with more to reserve the loop does not end.\<close>

lemma grow_hangs:
  assumes "2 ^ 31 < unat need" "n = push_bit j 1"
  shows "grow n need = None"
proof (rule ccontr)
  assume "grow n need \<noteq> None"
  then obtain m where "grow n need = Some m" by blast
  then obtain k where k: "need \<le> m" "m = push_bit k (push_bit j 1)" using grow_result assms(2) by blast
  have m: "m = push_bit (k + j) 1" using k(2) by (simp only: push_bit_push_bit)
  have "unat m \<le> 2 ^ 31"
  proof (cases "k + j < 32")
    case True
    then have le: "(2 :: nat) ^ (k + j) \<le> 2 ^ 31" by (intro power_increasing) simp_all
    have "m = of_nat (2 ^ (k + j))" by (simp add: m push_bit_eq_mult)
    then have "unat m = 2 ^ (k + j) mod 2 ^ 32" by (simp only: unat_of_nat) simp
    also have "\<dots> = 2 ^ (k + j)" by (intro mod_less le_less_trans [OF le]) simp
    finally show ?thesis using le by simp
  next
    case False
    have "push_bit (k + j) (1 :: u32) = 0" by (rule bit_word_eqI) (use False in \<open>auto simp: bit_simps\<close>)
    then show ?thesis unfolding m by (rule ssubst) simp
  qed
  then show False using k(1) assms(1) by (simp add: word_le_nat_alt)
qed

text \<open>A sum that wraps is small; an insertion before more than it brings copies over itself; a removal may wrap.\<close>

lemma membuf_defects:
  "2 ^ 31 < unat (msize b + extra) \<Longrightarrow> buffer_size b = push_bit j 1 \<Longrightarrow> extra > buffer_size b - msize b \<Longrightarrow> buffer_size b \<noteq> 0 \<Longrightarrow>
     membuf_reserve alloc extra b = None"
  "offset < msize b \<Longrightarrow> unat n < unat (msize b' - offset) \<Longrightarrow> membuf_reserve alloc n b = Some b' \<Longrightarrow> membuf_insert alloc offset d n b = None"
proof -
  assume a: "2 ^ 31 < unat (msize b + extra)" "buffer_size b = push_bit j 1" "extra > buffer_size b - msize b" "buffer_size b \<noteq> 0"
  have "grow (push_bit (1 + j) 1) (msize b + extra) = None" by (rule grow_hangs [OF a(1) refl])
  moreover have "push_bit 1 (buffer_size b) = push_bit (1 + j) 1" unfolding a(2) push_bit_push_bit ..
  ultimately show "membuf_reserve alloc extra b = None" unfolding membuf_reserve_def if_P [OF a(3)] using a(4) by simp
next
  assume "offset < msize b" "unat n < unat (msize b' - offset)" "membuf_reserve alloc n b = Some b'"
  then show "membuf_insert alloc offset d n b = None"
    by (cases "rd_bytes (obj (buf_data b')) (unat offset) (unat (msize b' - offset))") (simp_all add: membuf_insert_def Let_def)
qed

section \<open>The operations\<close>

text \<open>
  C33. The buffer is a list of bytes: it starts empty; appending data, zeros and text puts them at
  the end and answers where they are, text with a length of -1 up to its terminator and on request
  with one behind it; insertion and removal are those of lists; what is detached or moved is the
  content. Asked for: a content of at most \<open>2 ^ 31\<close> bytes, an allocator that provides, and for an
  insertion at least as many new bytes as lie behind the place.
\<close>

theorem membuf_operations:
  assumes "membuf_ok b" "provides alloc" "unat (msize b) + unat n < 2 ^ 31"
  shows "membuf_ok (membuf_init alloc n) \<and> membuf_contents (membuf_init alloc n) = [] \<and>
    (0 < n \<and> unat n \<le> length d \<longrightarrow> (\<exists>b'. membuf_append_data alloc (Some d) n b = Some (msize b, b') \<and> membuf_ok b' \<and>
      membuf_contents b' = membuf_contents b @ take (unat n) d)) \<and>
    (\<exists>b'. membuf_append_zeros alloc n b = Some (msize b, b') \<and> membuf_ok b' \<and> membuf_contents b' = membuf_contents b @ replicate (unat n) 0) \<and>
    (0 < n \<and> (if len = - 1 then 0 \<in> set s \<and> length (takeWhile (\<lambda>c. c \<noteq> 0) s) = unat n else len = n \<and> unat n \<le> length s) \<longrightarrow>
      (\<exists>b'. membuf_append_text alloc (Some s) len b = Some (msize b, b') \<and> membuf_ok b' \<and> membuf_contents b' = membuf_contents b @ take (unat n) s) \<and>
      (\<exists>b'. membuf_append_text_zero alloc (Some s) len b = Some (msize b, b') \<and> membuf_ok b' \<and>
        membuf_contents b' = membuf_contents b @ take (unat n) s @ [0])) \<and>
    (offset < msize b \<longrightarrow>
      (unat n \<le> length d \<and> unat (msize b) \<le> unat offset + unat n \<longrightarrow> (\<exists>b'. membuf_insert alloc offset d n b = Some b' \<and> membuf_ok b' \<and>
        membuf_contents b' = take (unat offset) (membuf_contents b) @ take (unat n) d @ drop (unat offset) (membuf_contents b))) \<and>
      (\<exists>b'. membuf_remove offset n b = Some b' \<and> membuf_ok b' \<and>
        membuf_contents b' = take (unat offset) (membuf_contents b) @ drop (unat offset + unat n) (membuf_contents b))) \<and>
    (\<exists>p. membuf_detach alloc b = Some (p, msize b, zero_membuf) \<and> take (unat (msize b)) (obj p) = membuf_contents b) \<and>
    (\<exists>b'. membuf_init_move_from alloc b = Some (b', zero_membuf) \<and> membuf_ok b' \<and> membuf_contents b' = membuf_contents b)"
proof -
  have le: "unat (msize b) + unat n \<le> 2 ^ 31" "unat (msize b) + unat n + 1 \<le> 2 ^ 31" "unat (msize b) \<le> 2 ^ 31"
    using assms(3) by linarith+
  have str: "0 < unat n \<and> (if len = - 1 then 0 \<in> set s \<and> length (takeWhile (\<lambda>c. c \<noteq> 0) s) = unat n else unat len = unat n \<and> unat n \<le> length s)"
    if "0 < n \<and> (if len = - 1 then 0 \<in> set s \<and> length (takeWhile (\<lambda>c. c \<noteq> 0) s) = unat n else len = n \<and> unat n \<le> length s)"
    using that by (auto simp: unat_gt_0 word_gt_0 split: if_splits)
  have sum: "unat offset + unat n < 2 ^ 32" if "offset < msize b" using that assms(3) by (simp add: word_less_nat_alt)
  show ?thesis
    using membuf_init_ok [OF assms(2)] append_data_ok [OF assms(1,2) le(1)] append_zeros_ok [OF assms(1,2) le(1)]
      append_text_ok [OF assms(1,2) le(1)] append_text_zero_ok [OF assms(1,2) le(2)] str
      membuf_insert_ok [OF assms(1,2) le(1)] membuf_remove_ok [OF assms(1) _ sum] membuf_detach_ok [OF assms(1,2)] membuf_move_ok [OF assms(1,2) le(3)]
    by blast
qed

theorem membuf_operations_witness:
  "let b = membuf_init_local (Some [7, 8, 9, 0]) 4; b = b\<lparr>msize := 3\<rparr>; alloc = (\<lambda>n. Some (replicate n 1))
   in \<exists>b'. membuf_insert alloc 2 [5, 6] 2 b = Some b' \<and> membuf_ok b' \<and> membuf_contents b' = [7, 8, 5, 6, 9]"
proof -
  let ?b = "(membuf_init_local (Some [7, 8, 9, 0]) 4)\<lparr>msize := 3\<rparr>"
  have "membuf_ok ?b" "membuf_contents ?b = [7, 8, 9]" "msize ?b = 3"
    by (simp_all add: membuf_init_local_def zero_membuf_def membuf_ok_def membuf_contents_def)
  moreover have "provides (\<lambda>n. Some (replicate n 1))" by (simp add: provides_def)
  ultimately show ?thesis
    using membuf_operations [of ?b "\<lambda>n. Some (replicate n 1)" 2 "[5, 6]" 0 "[]" 2] by simp
qed

end
