(* ===== verification/BlockHash.thy ===== *)
theory BlockHash
  imports Prelude
begin

text \<open>
  What the hash functions of \<open>fun_algorithm\<close> have in common. A message is cut into blocks of 64 bytes,
  which a compression function absorbs one after the other; what is left over is padded together
  with the length of the message. \<open>absorb\<close>, \<open>rest\<close> and \<open>padded\<close> say this of a whole message.

  The contexts of the code get the message piece by piece. The locale \<open>block_hash\<close> is their contract:
  if every piece takes a context that stands for a message to one that stands for the longer
  message, then the digest does not depend on how the message was cut. \<open>byte_hash\<close> is the case of an
  update that takes byte by byte.
\<close>

section \<open>Messages in blocks\<close>

fun absorb :: "('s \<Rightarrow> bytes \<Rightarrow> 's) \<Rightarrow> 's \<Rightarrow> bytes \<Rightarrow> 's" where
  "absorb f s m = (if length m < 64 then s else absorb f (f s (take 64 m)) (drop 64 m))"

declare absorb.simps [simp del]

definition rest :: "bytes \<Rightarrow> bytes" where
  "rest m = drop (length m div 64 * 64) m"

text \<open>
  The padding of MD5 and of the SHA family: a byte with the top bit set, zeros, and the number of
  bits of the message, modulo 2^64, in eight bytes (\<open>enc\<close> gives their order).
\<close>

definition padding :: "(u64 \<Rightarrow> bytes) \<Rightarrow> bytes \<Rightarrow> bytes" where
  "padding enc m = 0x80 # replicate ((119 - length m mod 64) mod 64) 0 @ enc (word_of_nat (8 * length m))"

definition padded :: "(u64 \<Rightarrow> bytes) \<Rightarrow> bytes \<Rightarrow> bytes" where
  "padded enc m = m @ padding enc m"

lemma absorb_short [simp]: "length m < 64 \<Longrightarrow> absorb f s m = s"
  by (simp add: absorb.simps)

lemma absorb_block: "length b = 64 \<Longrightarrow> absorb f s (b @ m) = absorb f (f s b) m"
  by (simp add: absorb.simps [of f s "b @ m"])

lemma absorb_one [simp]: "length b = 64 \<Longrightarrow> absorb f s b = f s b"
  using absorb_block [of b f s "[]"] by simp

lemma length_rest [simp]: "length (rest m) = length m mod 64"
  by (simp add: rest_def flip: minus_div_mult_eq_mod)

lemma rest_short [simp]: "length m < 64 \<Longrightarrow> rest m = m"
  by (simp add: rest_def)

lemma blocks_append:
  "length m mod 64 = 0 \<Longrightarrow> absorb f s (m @ xs) = absorb f (absorb f s m) xs \<and> rest (m @ xs) = rest xs"
proof (induction f s m rule: absorb.induct)
  case (1 f s m)
  show ?case
  proof (cases "length m < 64")
    case True
    with 1 have "m = []" by simp
    then show ?thesis by simp
  next
    case False
    have m: "m @ xs = take 64 m @ (drop 64 m @ xs)" "m = take 64 m @ drop 64 m" by simp_all
    have len: "length (take 64 m) = 64" "length (drop 64 m) mod 64 = 0" "64 \<le> length m"
      using False 1(2) by (simp_all add: le_mod_geq)
    have "rest (m @ xs) = rest (drop 64 m @ xs)"
    proof -
      have e: "length (m @ xs) div 64 * 64 = 64 + length (drop 64 m @ xs) div 64 * 64"
        using len(3) by (simp add: le_div_geq)
      show ?thesis unfolding rest_def e by (simp only: drop_drop [symmetric] add.commute [of 64]) (use len in simp)
    qed
    moreover have "absorb f s (m @ xs) = absorb f (f s (take 64 m)) (drop 64 m @ xs)"
      unfolding m(1) by (rule absorb_block [OF len(1)])
    moreover have "absorb f s m = absorb f (f s (take 64 m)) (drop 64 m)"
      using False by (simp add: absorb.simps [of f s m])
    ultimately show ?thesis using 1(1) [OF False len(2)] by simp
  qed
qed

lemma blocks_rest:
  "absorb f s (m @ xs) = absorb f (absorb f s m) (rest m @ xs)"
  "rest (m @ xs) = rest (rest m @ xs)"
proof -
  let ?k = "length m div 64 * 64"
  have k: "length (take ?k m) mod 64 = 0" by simp
  have m: "m = take ?k m @ rest m" by (simp add: rest_def)
  have a: "absorb f s m = absorb f s (take ?k m)"
    using blocks_append [OF k, of f s "rest m"] m by simp
  show "absorb f s (m @ xs) = absorb f (absorb f s m) (rest m @ xs)"
    "rest (m @ xs) = rest (rest m @ xs)"
    unfolding a using blocks_append [OF k, of f s "rest m @ xs"]
    by (metis append.assoc m)+
qed

lemma block_complete:
  "length (rest m @ xs) = 64 \<Longrightarrow> absorb f s (m @ xs) = f (absorb f s m) (rest m @ xs)"
  "length (rest m @ xs) = 64 \<Longrightarrow> rest (m @ xs) = []"
  by (subst blocks_rest, simp) (subst blocks_rest, simp add: rest_def)

lemma block_incomplete:
  "length (rest m @ xs) < 64 \<Longrightarrow> absorb f s (m @ xs) = absorb f s m"
  "length (rest m @ xs) < 64 \<Longrightarrow> rest (m @ xs) = rest m @ xs"
  by (subst blocks_rest, simp)+

lemma length_padded: "length (enc (word_of_nat (8 * length m))) = 8 \<Longrightarrow> length (padded enc m) mod 64 = 0"
proof -
  assume e: "length (enc (word_of_nat (8 * length m))) = 8"
  have "length (padded enc m) = 9 + length m + (119 - length m mod 64) mod 64"
    by (simp add: padded_def padding_def e del: of_nat_mult)
  moreover obtain q r where qr: "length m = 64 * q + r" "r < 64"
    using mod_less_divisor [of 64 "length m"] mult_div_mod_eq [of 64 "length m"] by (metis zero_less_numeral)
  moreover have "(119 - r) mod 64 = (if r \<le> 55 then 55 - r else 119 - r)"
    using qr(2) by (auto simp: le_mod_geq)
  ultimately have "length (padded enc m) = 64 * (if r \<le> 55 then q + 1 else q + 2)" by (simp split: if_splits)
  then show ?thesis by (simp only: mod_mult_self1_is_0)
qed

section \<open>Messages in pieces\<close>

locale block_hash =
  fixes holds :: "'c \<Rightarrow> bytes \<Rightarrow> bool"
    and upd :: "bytes \<Rightarrow> 'c \<Rightarrow> 'c option"
    and final :: "'c \<Rightarrow> bytes \<Rightarrow> ('c \<times> bytes) option"
    and room :: nat
    and digest :: "bytes \<Rightarrow> bytes"
    and limit :: nat
  assumes upd: "holds c m \<Longrightarrow> length xs < limit \<Longrightarrow> \<exists>c'. upd xs c = Some c' \<and> holds c' (m @ xs)"
    and final: "holds c m \<Longrightarrow> room \<le> length out \<Longrightarrow> \<exists>c'. final c out = Some (c', splice out 0 (digest m))"
begin

lemma pieces:
  "holds c m \<Longrightarrow> list_all (\<lambda>xs. length xs < limit) xss \<Longrightarrow>
     \<exists>c'. for_each upd xss c = Some c' \<and> holds c' (m @ concat xss)"
proof (induction xss arbitrary: c m)
  case (Cons xs xss)
  then obtain c' where "upd xs c = Some c'" "holds c' (m @ xs)" using upd by fastforce
  with Cons.IH [of c' "m @ xs"] Cons.prems show ?case by simp
qed simp

lemma stream:
  assumes "holds c []" "list_all (\<lambda>xs. length xs < limit) xss" "room \<le> length out"
  shows "\<exists>c'. Option.bind (for_each upd xss c) (\<lambda>c. final c out) = Some (c', splice out 0 (digest (concat xss)))"
  using pieces [OF assms(1,2)] final [OF _ assms(3)] by fastforce

end

locale byte_hash =
  fixes holds :: "'c \<Rightarrow> bytes \<Rightarrow> bool"
    and step :: "u8 \<Rightarrow> 'c \<Rightarrow> 'c option"
    and final :: "'c \<Rightarrow> bytes \<Rightarrow> ('c \<times> bytes) option"
    and room :: nat
    and digest :: "bytes \<Rightarrow> bytes"
  assumes step: "holds c m \<Longrightarrow> \<exists>c'. step b c = Some c' \<and> holds c' (m @ [b])"
    and closing: "holds c m \<Longrightarrow> room \<le> length out \<Longrightarrow> \<exists>c'. final c out = Some (c', splice out 0 (digest m))"
begin

lemma steps: "holds c m \<Longrightarrow> \<exists>c'. for_each step xs c = Some c' \<and> holds c' (m @ xs)"
proof (induction xs arbitrary: c m)
  case (Cons x xs)
  then obtain c' where "step x c = Some c'" "holds c' (m @ [x])" using step by blast
  with Cons.IH [of c' "m @ [x]"] show ?case by simp
qed simp

end

sublocale byte_hash \<subseteq> block_hash holds "for_each step" final room digest limit for limit
  by unfold_locales (use steps closing in auto)

section \<open>Hexadecimal output\<close>

text \<open>
  \<open>snprintf\<close> of a byte with \<open>%02x\<close> and a limit of \<open>n\<close>: at most \<open>n - 1\<close> of the two digits, then a zero.
\<close>

definition hex_digit :: "nat \<Rightarrow> u8" where
  "hex_digit d = word_of_nat (if d < 10 then 48 + d else 87 + d)"

definition hex2 :: "u8 \<Rightarrow> bytes" where
  "hex2 b = [hex_digit (unat b div 16), hex_digit (unat b mod 16)]"

definition snprintf_02x :: "bytes \<Rightarrow> nat \<Rightarrow> nat \<Rightarrow> u8 \<Rightarrow> bytes option" where
  "snprintf_02x out off n b = wr_bytes out off (take (n - 1) (hex2 b) @ [0])"

lemma length_hex2 [simp]: "length (hex2 b) = 2"
  by (simp add: hex2_def)

lemma length_concat_hex2 [simp]: "length (concat (map hex2 bs)) = 2 * length bs"
  by (induction bs) simp_all

lemma take_concat_hex2: "take (2 * n) (concat (map hex2 bs)) = concat (map hex2 (take n bs))"
proof (induction bs arbitrary: n)
  case (Cons b bs)
  then show ?case by (cases n) (simp_all add: hex2_def)
qed simp

text \<open>Each \<open>snprintf\<close> overwrites the terminating zero of the one before.\<close>

lemma hex_written:
  assumes "2 * n < length out" "n \<le> length hash"
  shows "\<exists>out'. for_each (\<lambda>i out. do { h \<leftarrow> rd8 hash i; snprintf_02x out (i * 2) (2 + 1) h }) [0..<n] out = Some out'
    \<and> length out' = length out \<and> take (2 * n) out' = concat (map hex2 (take n hash))"
proof -
  let ?f = "\<lambda>i out. do { h \<leftarrow> rd8 hash i; snprintf_02x out (i * 2) (2 + 1) h }"
  let ?P = "\<lambda>i out'. length out' = length out \<and> take (2 * i) out' = concat (map hex2 (take i hash))"
  have "\<exists>out'. for_each ?f [0..<n] out = Some out' \<and> ?P n out'"
  proof (rule for_each_count [of ?P out n ?f])
    fix i out'
    assume i: "i < n" and P: "?P i out'"
    have "?f i out' = Some (take (2 * i) out' @ (hex2 (hash ! i) @ [0]) @ drop (2 * i + 3) out')"
      using i P assms by (simp add: rd8_in snprintf_02x_def wr_bytes_in mult.commute)
    moreover have "?P (Suc i) (take (2 * i) out' @ (hex2 (hash ! i) @ [0]) @ drop (2 * i + 3) out')"
      using i P assms by (simp add: take_Suc_conv_app_nth)
    ultimately show "\<exists>s'. ?f i out' = Some s' \<and> ?P (Suc i) s'" by blast
  qed simp
  then show ?thesis by simp
qed

end
