(* ===== verification/Md5.thy ===== *)
theory Md5
  imports BlockHash
begin

text \<open>
  MD5 of \<open>fun_algorithm/md5.c\<close>, and what RFC 1321 says it computes (\<open>rfc_md5\<close>: one loop of 64 steps
  with the step's function, message word, shift and constant given by formulas and tables). The
  transform of the code is unrolled into 64 assignments; here they are four definitions, one per
  round as the comments of the code have it.

  Lengths are 32-bit words and wrap. The loop of \<open>MD5Update\<close> over whole blocks tests \<open>i + 64 <= inputlen\<close>
  in that width, so that it need not end: it is a \<open>partial_function\<close>. A byte shifted by 24 is a
  32-bit value, as in \<open>sha.c\<close>. Local arrays start as zeros and are written before they are read.
\<close>

section \<open>The macros of md5.h\<close>

definition F :: "u32 \<Rightarrow> u32 \<Rightarrow> u32 \<Rightarrow> u32" where
  "F x y z = (x AND y) OR (NOT x AND z)"

definition G :: "u32 \<Rightarrow> u32 \<Rightarrow> u32 \<Rightarrow> u32" where
  "G x y z = (x AND z) OR (y AND NOT z)"

definition H :: "u32 \<Rightarrow> u32 \<Rightarrow> u32 \<Rightarrow> u32" where
  "H x y z = x XOR y XOR z"

definition I :: "u32 \<Rightarrow> u32 \<Rightarrow> u32 \<Rightarrow> u32" where
  "I x y z = y XOR (x OR NOT z)"

definition ROTATE_LEFT :: "u32 \<Rightarrow> nat \<Rightarrow> u32" where
  "ROTATE_LEFT x n = push_bit n x OR drop_bit (32 - n) x"

text \<open>The new value of the first argument.\<close>

definition FF :: "u32 \<Rightarrow> u32 \<Rightarrow> u32 \<Rightarrow> u32 \<Rightarrow> u32 \<Rightarrow> nat \<Rightarrow> u32 \<Rightarrow> u32" where
  "FF a b c d x s ac = (let a = a + (F b c d + x + ac); a = ROTATE_LEFT a s in a + b)"

definition GG :: "u32 \<Rightarrow> u32 \<Rightarrow> u32 \<Rightarrow> u32 \<Rightarrow> u32 \<Rightarrow> nat \<Rightarrow> u32 \<Rightarrow> u32" where
  "GG a b c d x s ac = (let a = a + (G b c d + x + ac); a = ROTATE_LEFT a s in a + b)"

definition HH :: "u32 \<Rightarrow> u32 \<Rightarrow> u32 \<Rightarrow> u32 \<Rightarrow> u32 \<Rightarrow> nat \<Rightarrow> u32 \<Rightarrow> u32" where
  "HH a b c d x s ac = (let a = a + (H b c d + x + ac); a = ROTATE_LEFT a s in a + b)"

definition II :: "u32 \<Rightarrow> u32 \<Rightarrow> u32 \<Rightarrow> u32 \<Rightarrow> u32 \<Rightarrow> nat \<Rightarrow> u32 \<Rightarrow> u32" where
  "II a b c d x s ac = (let a = a + (I b c d + x + ac); a = ROTATE_LEFT a s in a + b)"

section \<open>The transform\<close>

type_synonym regs4 = "u32 \<times> u32 \<times> u32 \<times> u32"

definition md5_round1 :: "u32 list \<Rightarrow> regs4 \<Rightarrow> regs4" where
  "md5_round1 x = (\<lambda>(a, b, c, d).
     let a = FF a b c d (x ! 0) 7 0xd76aa478;
         d = FF d a b c (x ! 1) 12 0xe8c7b756;
         c = FF c d a b (x ! 2) 17 0x242070db;
         b = FF b c d a (x ! 3) 22 0xc1bdceee;
         a = FF a b c d (x ! 4) 7 0xf57c0faf;
         d = FF d a b c (x ! 5) 12 0x4787c62a;
         c = FF c d a b (x ! 6) 17 0xa8304613;
         b = FF b c d a (x ! 7) 22 0xfd469501;
         a = FF a b c d (x ! 8) 7 0x698098d8;
         d = FF d a b c (x ! 9) 12 0x8b44f7af;
         c = FF c d a b (x ! 10) 17 0xffff5bb1;
         b = FF b c d a (x ! 11) 22 0x895cd7be;
         a = FF a b c d (x ! 12) 7 0x6b901122;
         d = FF d a b c (x ! 13) 12 0xfd987193;
         c = FF c d a b (x ! 14) 17 0xa679438e;
         b = FF b c d a (x ! 15) 22 0x49b40821
     in (a, b, c, d))"

definition md5_round2 :: "u32 list \<Rightarrow> regs4 \<Rightarrow> regs4" where
  "md5_round2 x = (\<lambda>(a, b, c, d).
     let a = GG a b c d (x ! 1) 5 0xf61e2562;
         d = GG d a b c (x ! 6) 9 0xc040b340;
         c = GG c d a b (x ! 11) 14 0x265e5a51;
         b = GG b c d a (x ! 0) 20 0xe9b6c7aa;
         a = GG a b c d (x ! 5) 5 0xd62f105d;
         d = GG d a b c (x ! 10) 9 0x2441453;
         c = GG c d a b (x ! 15) 14 0xd8a1e681;
         b = GG b c d a (x ! 4) 20 0xe7d3fbc8;
         a = GG a b c d (x ! 9) 5 0x21e1cde6;
         d = GG d a b c (x ! 14) 9 0xc33707d6;
         c = GG c d a b (x ! 3) 14 0xf4d50d87;
         b = GG b c d a (x ! 8) 20 0x455a14ed;
         a = GG a b c d (x ! 13) 5 0xa9e3e905;
         d = GG d a b c (x ! 2) 9 0xfcefa3f8;
         c = GG c d a b (x ! 7) 14 0x676f02d9;
         b = GG b c d a (x ! 12) 20 0x8d2a4c8a
     in (a, b, c, d))"

definition md5_round3 :: "u32 list \<Rightarrow> regs4 \<Rightarrow> regs4" where
  "md5_round3 x = (\<lambda>(a, b, c, d).
     let a = HH a b c d (x ! 5) 4 0xfffa3942;
         d = HH d a b c (x ! 8) 11 0x8771f681;
         c = HH c d a b (x ! 11) 16 0x6d9d6122;
         b = HH b c d a (x ! 14) 23 0xfde5380c;
         a = HH a b c d (x ! 1) 4 0xa4beea44;
         d = HH d a b c (x ! 4) 11 0x4bdecfa9;
         c = HH c d a b (x ! 7) 16 0xf6bb4b60;
         b = HH b c d a (x ! 10) 23 0xbebfbc70;
         a = HH a b c d (x ! 13) 4 0x289b7ec6;
         d = HH d a b c (x ! 0) 11 0xeaa127fa;
         c = HH c d a b (x ! 3) 16 0xd4ef3085;
         b = HH b c d a (x ! 6) 23 0x4881d05;
         a = HH a b c d (x ! 9) 4 0xd9d4d039;
         d = HH d a b c (x ! 12) 11 0xe6db99e5;
         c = HH c d a b (x ! 15) 16 0x1fa27cf8;
         b = HH b c d a (x ! 2) 23 0xc4ac5665
     in (a, b, c, d))"

definition md5_round4 :: "u32 list \<Rightarrow> regs4 \<Rightarrow> regs4" where
  "md5_round4 x = (\<lambda>(a, b, c, d).
     let a = II a b c d (x ! 0) 6 0xf4292244;
         d = II d a b c (x ! 7) 10 0x432aff97;
         c = II c d a b (x ! 14) 15 0xab9423a7;
         b = II b c d a (x ! 5) 21 0xfc93a039;
         a = II a b c d (x ! 12) 6 0x655b59c3;
         d = II d a b c (x ! 3) 10 0x8f0ccc92;
         c = II c d a b (x ! 10) 15 0xffeff47d;
         b = II b c d a (x ! 1) 21 0x85845dd1;
         a = II a b c d (x ! 8) 6 0x6fa87e4f;
         d = II d a b c (x ! 15) 10 0xfe2ce6e0;
         c = II c d a b (x ! 6) 15 0xa3014314;
         b = II b c d a (x ! 13) 21 0x4e0811a1;
         a = II a b c d (x ! 4) 6 0xf7537e82;
         d = II d a b c (x ! 11) 10 0xbd3af235;
         c = II c d a b (x ! 2) 15 0x2ad7d2bb;
         b = II b c d a (x ! 9) 21 0xeb86d391
     in (a, b, c, d))"

definition MD5Encode :: "bytes \<Rightarrow> u32 list \<Rightarrow> nat \<Rightarrow> bytes option" where
  "MD5Encode output input len = for_each (\<lambda>i output. do {
     w \<leftarrow> rd8 input i;
     output \<leftarrow> wr8 output (4 * i) (ucast (w AND 0xFF));
     output \<leftarrow> wr8 output (4 * i + 1) (ucast (drop_bit 8 w AND 0xFF));
     output \<leftarrow> wr8 output (4 * i + 2) (ucast (drop_bit 16 w AND 0xFF));
     wr8 output (4 * i + 3) (ucast (drop_bit 24 w AND 0xFF)) }) [0..<(len + 3) div 4] output"

definition MD5Decode :: "u32 list \<Rightarrow> bytes \<Rightarrow> nat \<Rightarrow> u32 list option" where
  "MD5Decode output input len = for_each (\<lambda>i output. do {
     b0 \<leftarrow> rd8 input (4 * i);
     b1 \<leftarrow> rd8 input (4 * i + 1);
     b2 \<leftarrow> rd8 input (4 * i + 2);
     b3 \<leftarrow> rd8 input (4 * i + 3);
     wr8 output i (ucast b0 OR push_bit 8 (ucast b1) OR push_bit 16 (ucast b2) OR push_bit 24 (ucast b3)) })
     [0..<(len + 3) div 4] output"

text \<open>\<open>x\<close> has 64 elements and every index into it is a constant below 16.\<close>

definition MD5Transform :: "u32 list \<Rightarrow> bytes \<Rightarrow> u32 list option" where
  "MD5Transform state block = do {
     a0 \<leftarrow> rd8 state 0; b0 \<leftarrow> rd8 state 1; c0 \<leftarrow> rd8 state 2; d0 \<leftarrow> rd8 state 3;
     x \<leftarrow> MD5Decode (replicate 64 0) block 64;
     let (a, b, c, d) = md5_round4 x (md5_round3 x (md5_round2 x (md5_round1 x (a0, b0, c0, d0))));
     state \<leftarrow> wr8 state 0 (a0 + a);
     state \<leftarrow> wr8 state 1 (b0 + b);
     state \<leftarrow> wr8 state 2 (c0 + c);
     wr8 state 3 (d0 + d) }"

section \<open>Context, update and final\<close>

record md5_ctx =
  md_count :: "u32 list"
  md_state :: "u32 list"
  md_buffer :: bytes

definition PADDING :: bytes where
  "PADDING = 0x80 # replicate 63 0"

text \<open>\<open>buffer\<close> keeps what it held before.\<close>

definition MD5Init :: "bytes \<Rightarrow> md5_ctx" where
  "MD5Init buffer = \<lparr>md_count = [0, 0], md_state = [0x67452301, 0xEFCDAB89, 0x98BADCFE, 0x10325476],
     md_buffer = buffer\<rparr>"

partial_function (option) md5_blocks :: "bytes \<Rightarrow> u32 \<Rightarrow> u32 \<Rightarrow> u32 list \<Rightarrow> (u32 \<times> u32 list) option" where
  "md5_blocks input inputlen i state =
     (if i + 64 \<le> inputlen then do {
        block \<leftarrow> rd_bytes input (unat i) 64;
        state \<leftarrow> MD5Transform state block;
        md5_blocks input inputlen (i + 64) state }
      else Some (i, state))"

declare md5_blocks.simps [code]

definition MD5Update :: "md5_ctx \<Rightarrow> bytes \<Rightarrow> u32 \<Rightarrow> md5_ctx option" where
  "MD5Update context input inputlen = do {
     c0 \<leftarrow> rd8 (md_count context) 0;
     c1 \<leftarrow> rd8 (md_count context) 1;
     let index = drop_bit 3 c0 AND 0x3F;
     let partlen = 64 - index;
     let c0' = c0 + push_bit 3 inputlen;
     let c1' = (if c0' < push_bit 3 inputlen then c1 + 1 else c1) + drop_bit 29 inputlen;
     count \<leftarrow> wr8 (md_count context) 0 c0';
     count \<leftarrow> wr8 count 1 c1';
     (buffer, state, i, index) \<leftarrow> (if inputlen \<ge> partlen then do {
         part \<leftarrow> rd_bytes input 0 (unat partlen);
         buffer \<leftarrow> wr_bytes (md_buffer context) (unat index) part;
         state \<leftarrow> MD5Transform (md_state context) buffer;
         (i, state) \<leftarrow> md5_blocks input inputlen partlen state;
         Some (buffer, state, i, 0) }
       else Some (md_buffer context, md_state context, 0, index));
     part \<leftarrow> rd_bytes input (unat i) (unat (inputlen - i));
     buffer \<leftarrow> wr_bytes buffer (unat index) part;
     Some \<lparr>md_count = count, md_state = state, md_buffer = buffer\<rparr> }"

definition MD5Final :: "md5_ctx \<Rightarrow> bytes \<Rightarrow> (md5_ctx \<times> bytes) option" where
  "MD5Final context digest = do {
     c0 \<leftarrow> rd8 (md_count context) 0;
     let index = drop_bit 3 c0 AND 0x3F;
     let padlen = (if index < 56 then 56 - index else 120 - index);
     bits \<leftarrow> MD5Encode (replicate 8 0) (md_count context) 8;
     context \<leftarrow> MD5Update context PADDING padlen;
     context \<leftarrow> MD5Update context bits 8;
     digest \<leftarrow> MD5Encode digest (md_state context) 16;
     Some (context, digest) }"

section \<open>Strings and files\<close>

definition md5_string :: "bytes \<Rightarrow> bytes \<Rightarrow> bytes \<Rightarrow> bytes option" where
  "md5_string buffer str md5_str = do {
     md5 \<leftarrow> MD5Update (MD5Init buffer) str (word_of_nat (length str));
     (_, md5_value) \<leftarrow> MD5Final md5 (replicate 16 0);
     md5_str \<leftarrow> for_each (\<lambda>i md5_str. do {
         h \<leftarrow> rd8 md5_value i;
         snprintf_02x md5_str (i * 2) (2 + 1) h }) [0..<16] md5_str;
     wr8 md5_str 32 0 }"

text \<open>
  \<open>md5_file\<close> with the answers of the operating system as parameters: whether \<open>open\<close> succeeds, and what
  the calls of \<open>read\<close> return one after the other, \<^term>\<open>None\<close> for -1 (after the last one, 0 bytes). The
  buffer holds 1024 bytes, and \<open>read\<close> writes no more to it.
\<close>

fun md5_read_loop :: "bytes option list \<Rightarrow> md5_ctx \<Rightarrow> (bool \<times> md5_ctx) option" where
  "md5_read_loop [] md5 = do {
     md5 \<leftarrow> MD5Update md5 [] 0;
     Some (True, md5) }"
| "md5_read_loop (None # reads) md5 = Some (False, md5)"
| "md5_read_loop (Some data # reads) md5 = do {
     md5 \<leftarrow> MD5Update md5 data (word_of_nat (length data));
     if length data = 0 \<or> length data < 1024 then Some (True, md5) else md5_read_loop reads md5 }"

definition md5_file :: "bytes \<Rightarrow> bool \<Rightarrow> bytes option list \<Rightarrow> bytes \<Rightarrow> (int \<times> bytes) option" where
  "md5_file buffer open_ok reads md5_str =
     (if \<not> open_ok then Some (-1, md5_str)
      else do {
        (ok, md5) \<leftarrow> md5_read_loop reads (MD5Init buffer);
        if \<not> ok then Some (-1, md5_str)
        else do {
          (_, md5_value) \<leftarrow> MD5Final md5 (replicate 16 0);
          md5_str \<leftarrow> for_each (\<lambda>i md5_str. do {
              h \<leftarrow> rd8 md5_value i;
              snprintf_02x md5_str (i * 2) 2 h }) [0..<16] md5_str;
          md5_str \<leftarrow> wr8 md5_str 32 0;
          Some (0, md5_str) } })"

section \<open>RFC 1321\<close>

definition md5_T :: "u32 list" where
  "md5_T = [
    0xd76aa478, 0xe8c7b756, 0x242070db, 0xc1bdceee, 0xf57c0faf, 0x4787c62a, 0xa8304613, 0xfd469501,
    0x698098d8, 0x8b44f7af, 0xffff5bb1, 0x895cd7be, 0x6b901122, 0xfd987193, 0xa679438e, 0x49b40821,
    0xf61e2562, 0xc040b340, 0x265e5a51, 0xe9b6c7aa, 0xd62f105d, 0x2441453, 0xd8a1e681, 0xe7d3fbc8,
    0x21e1cde6, 0xc33707d6, 0xf4d50d87, 0x455a14ed, 0xa9e3e905, 0xfcefa3f8, 0x676f02d9, 0x8d2a4c8a,
    0xfffa3942, 0x8771f681, 0x6d9d6122, 0xfde5380c, 0xa4beea44, 0x4bdecfa9, 0xf6bb4b60, 0xbebfbc70,
    0x289b7ec6, 0xeaa127fa, 0xd4ef3085, 0x4881d05, 0xd9d4d039, 0xe6db99e5, 0x1fa27cf8, 0xc4ac5665,
    0xf4292244, 0x432aff97, 0xab9423a7, 0xfc93a039, 0x655b59c3, 0x8f0ccc92, 0xffeff47d, 0x85845dd1,
    0x6fa87e4f, 0xfe2ce6e0, 0xa3014314, 0x4e0811a1, 0xf7537e82, 0xbd3af235, 0x2ad7d2bb, 0xeb86d391]"

definition md5_word :: "nat \<Rightarrow> nat" where
  "md5_word t = (if t < 16 then t else if t < 32 then (5 * t + 1) mod 16
     else if t < 48 then (3 * t + 5) mod 16 else 7 * t mod 16)"

definition md5_shift :: "nat \<Rightarrow> nat" where
  "md5_shift t = [[7, 12, 17, 22], [5, 9, 14, 20], [4, 11, 16, 23], [6, 10, 15, 21]] ! (t div 16) ! (t mod 4)"

definition md5_fun :: "nat \<Rightarrow> u32 \<Rightarrow> u32 \<Rightarrow> u32 \<Rightarrow> u32" where
  "md5_fun t = (if t < 16 then F else if t < 32 then G else if t < 48 then H else I)"

definition rfc_md5_step :: "u32 list \<Rightarrow> nat \<Rightarrow> regs4 \<Rightarrow> regs4" where
  "rfc_md5_step x t = (\<lambda>(a, b, c, d).
     (d, b + ROTATE_LEFT (a + md5_fun t b c d + x ! md5_word t + md5_T ! t) (md5_shift t), b, c))"

definition le_word :: "bytes \<Rightarrow> u32" where
  "le_word bs = foldr (\<lambda>b w. ucast b OR push_bit 8 w) bs 0"

definition le_bytes :: "u32 \<Rightarrow> bytes" where
  "le_bytes w = map (\<lambda>i. ucast (drop_bit (8 * i) w)) [0..<4]"

definition le64 :: "u64 \<Rightarrow> bytes" where
  "le64 w = map (\<lambda>i. ucast (drop_bit (8 * i) w)) [0..<8]"

definition rfc_md5_block :: "u32 list \<Rightarrow> bytes \<Rightarrow> u32 list" where
  "rfc_md5_block h blk = (let x = map (\<lambda>t. le_word (take 4 (drop (4 * t) blk))) [0..<16];
       (a, b, c, d) = fold (rfc_md5_step x) [0..<64] (h ! 0, h ! 1, h ! 2, h ! 3) in
     [h ! 0 + a, h ! 1 + b, h ! 2 + c, h ! 3 + d])"

definition rfc_md5_iv :: "u32 list" where
  "rfc_md5_iv = [0x67452301, 0xEFCDAB89, 0x98BADCFE, 0x10325476]"

definition rfc_md5 :: "bytes \<Rightarrow> bytes" where
  "rfc_md5 m = concat (map le_bytes (absorb rfc_md5_block rfc_md5_iv (padded le64 m)))"

end
