(* ===== verification/Md5Facts.thy ===== *)
theory Md5Facts
  imports Md5
begin

text \<open>
  The code of \<open>md5.c\<close> computes what RFC 1321 says: the unrolled transform is the loop of 64 steps, the
  two-word counter counts the bits of the message, and context, padding and output fit together
  whatever the pieces of the message.
\<close>

section \<open>The transform\<close>

text \<open>A run of assignments whose four registers change places after each.\<close>

fun md5_run :: "(u32 \<Rightarrow> u32 \<Rightarrow> u32 \<Rightarrow> u32 \<Rightarrow> u32 \<Rightarrow> nat \<Rightarrow> u32 \<Rightarrow> u32) \<Rightarrow> (u32 \<times> nat \<times> u32) list \<Rightarrow> regs4 \<Rightarrow> regs4" where
  "md5_run f [] (a, b, c, d) = (a, b, c, d)"
| "md5_run f ((x, s, ac) # ops) (a, b, c, d) = (let a = f a b c d x s ac in md5_run f ops (d, a, b, c))"

definition md5_op :: "u32 list \<Rightarrow> nat \<Rightarrow> u32 \<times> nat \<times> u32" where
  "md5_op x t = (x ! md5_word t, md5_shift t, md5_T ! t)"

lemma md5_run_fold:
  assumes "\<And>t a b c d. t \<in> set ts \<Longrightarrow> rfc_md5_step x t (a, b, c, d)
      = (d, f a b c d (x ! md5_word t) (md5_shift t) (md5_T ! t), b, c)"
  shows "md5_run f (map (md5_op x) ts) s = fold (rfc_md5_step x) ts s"
  using assms
proof (induction ts arbitrary: s)
  case Nil
  then show ?case by (cases s) simp
next
  case (Cons t ts)
  then show ?case by (cases s) (simp add: md5_op_def)
qed

lemma rfc_steps:
  "t < 16 \<Longrightarrow> rfc_md5_step x t (a, b, c, d) = (d, FF a b c d (x ! md5_word t) (md5_shift t) (md5_T ! t), b, c)"
  "16 \<le> t \<Longrightarrow> t < 32 \<Longrightarrow> rfc_md5_step x t (a, b, c, d) = (d, GG a b c d (x ! md5_word t) (md5_shift t) (md5_T ! t), b, c)"
  "32 \<le> t \<Longrightarrow> t < 48 \<Longrightarrow> rfc_md5_step x t (a, b, c, d) = (d, HH a b c d (x ! md5_word t) (md5_shift t) (md5_T ! t), b, c)"
  "48 \<le> t \<Longrightarrow> rfc_md5_step x t (a, b, c, d) = (d, II a b c d (x ! md5_word t) (md5_shift t) (md5_T ! t), b, c)"
  by (simp_all add: rfc_md5_step_def md5_fun_def FF_def GG_def HH_def II_def Let_def ac_simps)

lemma upt_16: "[0..<16] = [0, 1, 2, 3, 4, 5, 6, 7, 8, 9, 10, 11, 12, 13, 14, 15 :: nat]"
  by code_simp

lemma round_ops:
  "map (md5_op x) [0..<16] =
    [(x ! 0, 7, 0xd76aa478), (x ! 1, 12, 0xe8c7b756), (x ! 2, 17, 0x242070db), (x ! 3, 22, 0xc1bdceee),
     (x ! 4, 7, 0xf57c0faf), (x ! 5, 12, 0x4787c62a), (x ! 6, 17, 0xa8304613), (x ! 7, 22, 0xfd469501),
     (x ! 8, 7, 0x698098d8), (x ! 9, 12, 0x8b44f7af), (x ! 10, 17, 0xffff5bb1), (x ! 11, 22, 0x895cd7be),
     (x ! 12, 7, 0x6b901122), (x ! 13, 12, 0xfd987193), (x ! 14, 17, 0xa679438e), (x ! 15, 22, 0x49b40821)]"
  "map (md5_op x) [16..<32] =
    [(x ! 1, 5, 0xf61e2562), (x ! 6, 9, 0xc040b340), (x ! 11, 14, 0x265e5a51), (x ! 0, 20, 0xe9b6c7aa),
     (x ! 5, 5, 0xd62f105d), (x ! 10, 9, 0x2441453), (x ! 15, 14, 0xd8a1e681), (x ! 4, 20, 0xe7d3fbc8),
     (x ! 9, 5, 0x21e1cde6), (x ! 14, 9, 0xc33707d6), (x ! 3, 14, 0xf4d50d87), (x ! 8, 20, 0x455a14ed),
     (x ! 13, 5, 0xa9e3e905), (x ! 2, 9, 0xfcefa3f8), (x ! 7, 14, 0x676f02d9), (x ! 12, 20, 0x8d2a4c8a)]"
  "map (md5_op x) [32..<48] =
    [(x ! 5, 4, 0xfffa3942), (x ! 8, 11, 0x8771f681), (x ! 11, 16, 0x6d9d6122), (x ! 14, 23, 0xfde5380c),
     (x ! 1, 4, 0xa4beea44), (x ! 4, 11, 0x4bdecfa9), (x ! 7, 16, 0xf6bb4b60), (x ! 10, 23, 0xbebfbc70),
     (x ! 13, 4, 0x289b7ec6), (x ! 0, 11, 0xeaa127fa), (x ! 3, 16, 0xd4ef3085), (x ! 6, 23, 0x4881d05),
     (x ! 9, 4, 0xd9d4d039), (x ! 12, 11, 0xe6db99e5), (x ! 15, 16, 0x1fa27cf8), (x ! 2, 23, 0xc4ac5665)]"
  "map (md5_op x) [48..<64] =
    [(x ! 0, 6, 0xf4292244), (x ! 7, 10, 0x432aff97), (x ! 14, 15, 0xab9423a7), (x ! 5, 21, 0xfc93a039),
     (x ! 12, 6, 0x655b59c3), (x ! 3, 10, 0x8f0ccc92), (x ! 10, 15, 0xffeff47d), (x ! 1, 21, 0x85845dd1),
     (x ! 8, 6, 0x6fa87e4f), (x ! 15, 10, 0xfe2ce6e0), (x ! 6, 15, 0xa3014314), (x ! 13, 21, 0x4e0811a1),
     (x ! 4, 6, 0xf7537e82), (x ! 11, 10, 0xbd3af235), (x ! 2, 15, 0x2ad7d2bb), (x ! 9, 21, 0xeb86d391)]"
  by (simp_all add: upt_16 md5_op_def md5_word_def md5_shift_def md5_T_def)

lemma rounds:
  "md5_round1 x s = fold (rfc_md5_step x) [0..<16] s"
  "md5_round2 x s = fold (rfc_md5_step x) [16..<32] s"
  "md5_round3 x s = fold (rfc_md5_step x) [32..<48] s"
  "md5_round4 x s = fold (rfc_md5_step x) [48..<64] s"
proof -
  have "md5_round1 x s = md5_run FF (map (md5_op x) [0..<16]) s"
    unfolding round_ops by (cases s) (simp only: md5_round1_def md5_run.simps prod.case)
  also have "\<dots> = fold (rfc_md5_step x) [0..<16] s"
    by (rule md5_run_fold) (auto intro: rfc_steps)
  finally show "md5_round1 x s = fold (rfc_md5_step x) [0..<16] s" .
  have "md5_round2 x s = md5_run GG (map (md5_op x) [16..<32]) s"
    unfolding round_ops by (cases s) (simp only: md5_round2_def md5_run.simps prod.case)
  also have "\<dots> = fold (rfc_md5_step x) [16..<32] s"
    by (rule md5_run_fold) (auto intro: rfc_steps)
  finally show "md5_round2 x s = fold (rfc_md5_step x) [16..<32] s" .
  have "md5_round3 x s = md5_run HH (map (md5_op x) [32..<48]) s"
    unfolding round_ops by (cases s) (simp only: md5_round3_def md5_run.simps prod.case)
  also have "\<dots> = fold (rfc_md5_step x) [32..<48] s"
    by (rule md5_run_fold) (auto intro: rfc_steps)
  finally show "md5_round3 x s = fold (rfc_md5_step x) [32..<48] s" .
  have "md5_round4 x s = md5_run II (map (md5_op x) [48..<64]) s"
    unfolding round_ops by (cases s) (simp only: md5_round4_def md5_run.simps prod.case)
  also have "\<dots> = fold (rfc_md5_step x) [48..<64] s"
    by (rule md5_run_fold) (auto intro: rfc_steps)
  finally show "md5_round4 x s = fold (rfc_md5_step x) [48..<64] s" .
qed

lemma four_rounds:
  "md5_round4 x (md5_round3 x (md5_round2 x (md5_round1 x s))) = fold (rfc_md5_step x) [0..<64] s"
proof -
  have split: "[0..<64] = [0..<16] @ [16..<32] @ [32..<48] @ [48..<64]"
    using upt_split [of 0 16 64] upt_split [of 16 32 64] upt_split [of 32 48 64] by simp
  show ?thesis unfolding split rounds by simp
qed

lemma le_word_4: "le_word [x, y, z, w] =
    ucast x OR push_bit 8 (ucast y) OR push_bit 16 (ucast z) OR push_bit 24 (ucast w)"
  unfolding le_word_def by (rule bit_word_eqI) (auto simp: bit_simps)

lemma block_bytes:
  assumes "length blk = 64" "t < 16"
  shows "take 4 (drop (4 * t) blk) = [blk ! (4 * t), blk ! (4 * t + 1), blk ! (4 * t + 2), blk ! (4 * t + 3)]"
  using assms by (intro nth_equalityI) (auto simp: less_Suc_eq numeral_eq_Suc)

lemma MD5Decode_eq:
  assumes "length blk = 64"
  shows "\<exists>x. MD5Decode (replicate 64 0) blk 64 = Some x \<and> (\<forall>t<16. x ! t = le_word (take 4 (drop (4 * t) blk)))"
proof -
  have "\<exists>m. for_each (\<lambda>i output. do {
       b0 \<leftarrow> rd8 blk (4 * i); b1 \<leftarrow> rd8 blk (4 * i + 1); b2 \<leftarrow> rd8 blk (4 * i + 2); b3 \<leftarrow> rd8 blk (4 * i + 3);
       wr8 output i (ucast b0 OR push_bit 8 (ucast b1) OR push_bit 16 (ucast b2) OR push_bit 24 (ucast b3)) })
     [0..<16] (replicate 64 0) = Some m \<and> length m = 64 \<and> (\<forall>t<16. m ! t = le_word (take 4 (drop (4 * t) blk)))"
    by (rule for_each_fill) (use assms in \<open>simp_all add: mem_simps block_bytes le_word_4\<close>)
  then show ?thesis by (auto simp: MD5Decode_def)
qed

text \<open>The message words of a step are below 16.\<close>

lemma rfc_step_cong:
  assumes "\<And>i. i < 16 \<Longrightarrow> x ! i = y ! i" "t < 64"
  shows "rfc_md5_step x t s = rfc_md5_step y t s"
proof -
  have "md5_word t < 16" using assms(2) by (simp add: md5_word_def)
  then show ?thesis using assms(1) by (simp add: rfc_md5_step_def)
qed

lemma list_of_four: "length xs = 4 \<Longrightarrow> xs = [xs ! 0, xs ! 1, xs ! 2, xs ! 3]"
  by (rule nth_equalityI) (auto simp: less_Suc_eq numeral_eq_Suc)

lemma MD5Transform_eq:
  assumes "length st = 4" "length blk = 64"
  shows "MD5Transform st blk = Some (rfc_md5_block st blk)"
proof -
  obtain x where x: "MD5Decode (replicate 64 0) blk 64 = Some x" "\<forall>t<16. x ! t = le_word (take 4 (drop (4 * t) blk))"
    using MD5Decode_eq [OF assms(2)] by blast
  let ?y = "map (\<lambda>t. le_word (take 4 (drop (4 * t) blk))) [0..<16]"
  obtain h0 h1 h2 h3 where h: "st = [h0, h1, h2, h3]" using list_of_four [OF assms(1)] by blast
  have "fold (rfc_md5_step x) [0..<64] s = fold (rfc_md5_step ?y) [0..<64] s" for s
    by (rule fold_cong) (use x(2) in \<open>auto intro!: rfc_step_cong\<close>)
  moreover obtain a b c d where "fold (rfc_md5_step ?y) [0..<64] (h0, h1, h2, h3) = (a, b, c, d)"
    by (metis prod_cases4)
  ultimately show ?thesis
    unfolding MD5Transform_def rfc_md5_block_def x(1) four_rounds by (simp add: h mem_simps Let_def)
qed

lemma length_rfc_md5_block [simp]: "length (rfc_md5_block h blk) = 4"
  by (simp add: rfc_md5_block_def Let_def split: prod.split)

section \<open>Encoding\<close>

lemma length_le_bytes [simp]: "length (le_bytes w) = 4"
  by (simp add: le_bytes_def)

lemma MD5Encode_eq:
  assumes "n \<le> length ws" "4 * n \<le> length out"
  shows "MD5Encode out ws (4 * n) = Some (splice out 0 (concat (map le_bytes (take n ws))))"
proof -
  let ?f = "\<lambda>i output. do {
     w \<leftarrow> rd8 ws i;
     output \<leftarrow> wr8 output (4 * i) (ucast (w AND 0xFF));
     output \<leftarrow> wr8 output (4 * i + 1) (ucast (drop_bit 8 w AND 0xFF));
     output \<leftarrow> wr8 output (4 * i + 2) (ucast (drop_bit 16 w AND 0xFF));
     wr8 output (4 * i + 3) (ucast (drop_bit 24 w AND 0xFF)) }"
  let ?d = "\<lambda>i. concat (map le_bytes (take i ws))"
  let ?P = "\<lambda>i out'. out' = splice out 0 (?d i)"
  have ff: "(0xff :: u32) = mask 8" by (simp add: mask_eq_exp_minus_1)
  have and_ff: "ucast (w AND 0xff) = (ucast w :: u8)" for w :: u32
    by (rule bit_word_eqI) (auto simp: ff bit_simps)
  have len: "length (?d i) = 4 * i" if "i \<le> n" for i
    using that assms(1) by (simp add: length_concat comp_def le_bytes_def sum_list_triv)
  have four: "[0..<4] = [0, 1, 2, 3 :: nat]" by code_simp
  have "\<exists>out'. for_each ?f [0..<n] out = Some out' \<and> ?P n out'"
  proof (rule for_each_count [of ?P out n ?f])
    show "?P 0 out" by (simp add: splice_def)
    fix i out'
    assume i: "i < n" and P: "?P i out'"
    let ?w = "ws ! i"
    have d: "?d (Suc i) = ?d i @ [ucast ?w, ucast (drop_bit 8 ?w), ucast (drop_bit 16 ?w), ucast (drop_bit 24 ?w)]"
      using i assms(1) by (simp add: take_Suc_conv_app_nth le_bytes_def four)
    have snoc: "(splice out 0 ys)[j := y] = splice out 0 (ys @ [y])" if "j = length ys" "j < length out" for ys j y
      using splice_snoc [of 0 ys out y] that by simp
    have "?f i out' = Some (splice out 0 (?d (Suc i)))"
      unfolding P d using i assms len [of i] by (simp add: rd8_in wr8_in and_ff snoc)
    then show "\<exists>s'. ?f i out' = Some s' \<and> ?P (Suc i) s'" by simp
  qed
  then show ?thesis by (simp add: MD5Encode_def)
qed

section \<open>The counter\<close>

lemma bit_of_nat_word: "bit (word_of_nat n :: 'a::len word) k \<longleftrightarrow> k < LENGTH('a) \<and> bit n k"
  by transfer (simp add: bit_simps)

lemma count_index:
  "drop_bit 3 (word_of_nat (8 * n) :: u32) AND 0x3F = word_of_nat (n mod 64)"
proof -
  have m: "(0x3F :: u32) = mask 6" by (simp add: mask_eq_exp_minus_1)
  have e: "8 * n = push_bit 3 n" "n mod 64 = take_bit 6 n" by (simp_all add: push_bit_eq_mult take_bit_eq_mod)
  show ?thesis unfolding m e by (rule bit_word_eqI) (auto simp: bit_simps bit_of_nat_word)
qed

lemma count_bytes:
  "concat (map le_bytes [word_of_nat n, word_of_nat (n div 2 ^ 32)]) = le64 (word_of_nat n)"
proof -
  have up: "[0..<4] = [0, 1, 2, 3 :: nat]" "[0..<8] = [0, 1, 2, 3, 4, 5, 6, 7 :: nat]" by code_simp+
  have lo: "ucast (drop_bit k (word_of_nat n :: u32)) = (ucast (drop_bit k (word_of_nat n :: u64)) :: u8)" if "k \<le> 24" for k
    using that by (intro bit_word_eqI) (auto simp: bit_simps bit_of_nat_word)
  have hi: "ucast (drop_bit k (word_of_nat (n div 2 ^ 32) :: u32)) = (ucast (drop_bit (32 + k) (word_of_nat n :: u64)) :: u8)"
    if "k \<le> 24" for k
    using that unfolding drop_bit_eq_div [symmetric] by (intro bit_word_eqI) (auto simp: bit_simps bit_of_nat_word ac_simps)
  show ?thesis
    using lo [of 0] hi [of 0] lo [of 8] hi [of 8] lo [of 16] hi [of 16] lo [of 24] hi [of 24]
    by (simp add: le_bytes_def le64_def up)
qed

text \<open>The carry test of \<open>MD5Update\<close>: adding \<open>8 x\<close> to the two-word counter.\<close>

lemma count_add:
  fixes n :: nat and x :: u32
  defines "lo \<equiv> word_of_nat n + push_bit 3 x :: u32"
  shows "lo = word_of_nat (n + 8 * unat x)"
    "(if lo < push_bit 3 x then word_of_nat (n div 2 ^ 32) + 1 else word_of_nat (n div 2 ^ 32)) + drop_bit 29 x
      = word_of_nat ((n + 8 * unat x) div 2 ^ 32)"
proof -
  let ?M = "2 ^ 32 :: nat"
  have p: "push_bit 3 x = word_of_nat (8 * unat x)" by (simp add: push_bit_eq_mult)
  show lo: "lo = word_of_nat (n + 8 * unat x)" unfolding lo_def p by simp
  have un: "unat (word_of_nat k :: u32) = k mod ?M" for k by (simp add: unat_of_nat)
  have less: "lo < push_bit 3 x \<longleftrightarrow> (n + 8 * unat x) mod ?M < 8 * unat x mod ?M"
    unfolding lo p word_less_nat_alt un ..
  have carry: "(a + b) mod ?M < b mod ?M \<longleftrightarrow> ?M \<le> a mod ?M + b mod ?M" for a b
  proof -
    have wrap: "t < s \<longleftrightarrow> m \<le> r + s" if "t = (if r + s < m then r + s else r + s - m)" "r < m" for r s t m :: nat
      using that by auto
    show ?thesis
    proof (rule wrap)
      show "(a + b) mod ?M = (if a mod ?M + b mod ?M < ?M then a mod ?M + b mod ?M else a mod ?M + b mod ?M - ?M)"
        by (subst mod_add_eq [symmetric]) (auto simp: le_mod_geq)
      show "a mod ?M < ?M" by simp
    qed
  qed
  have div: "(a + b) div ?M = a div ?M + b div ?M + (if ?M \<le> a mod ?M + b mod ?M then 1 else 0)" for a b
  proof -
    have "(a mod ?M + b mod ?M) div ?M = (if ?M \<le> a mod ?M + b mod ?M then 1 else 0)"
    proof -
      have "a mod ?M < ?M" "b mod ?M < ?M" by simp_all
      then show ?thesis by (auto simp: le_div_geq)
    qed
    then show ?thesis by (simp add: div_add1_eq [of a b])
  qed
  have d: "drop_bit 29 x = word_of_nat (8 * unat x div ?M)"
  proof -
    have "8 * unat x div ?M = unat x div 2 ^ 29"
      using div_mult_mult1 [of 8 "unat x" "2 ^ 29"] by simp
    moreover have "unat x div 2 ^ 29 < 2 ^ 32"
      using unsigned_less [of x] by (intro le_less_trans [OF div_le_dividend]) simp
    ultimately show ?thesis by (simp add: word_unat_eq_iff unat_drop_bit un)
  qed
  show "(if lo < push_bit 3 x then word_of_nat (n div ?M) + 1 else word_of_nat (n div ?M)) + drop_bit 29 x
      = word_of_nat ((n + 8 * unat x) div ?M)"
    unfolding less carry d div by simp
qed

section \<open>Update\<close>

definition counted :: "nat \<Rightarrow> u32 list" where
  "counted k = [word_of_nat (8 * k), word_of_nat (8 * k div 2 ^ 32)]"

definition md5_holds :: "md5_ctx \<Rightarrow> bytes \<Rightarrow> bool" where
  "md5_holds c m \<longleftrightarrow> md_count c = counted (length m)
     \<and> md_state c = absorb rfc_md5_block rfc_md5_iv m
     \<and> length (md_buffer c) = 64 \<and> take (length m mod 64) (md_buffer c) = rest m"

lemma length_md5_absorb: "length h = 4 \<Longrightarrow> length (absorb rfc_md5_block h m) = 4"
proof (induction m arbitrary: h rule: length_induct)
  case (1 m)
  then show ?case by (cases "length m < 64") (simp_all add: absorb.simps [of rfc_md5_block h m])
qed

lemma block_cut: "i + 64 \<le> n \<Longrightarrow> drop i (take n xs) = take 64 (drop i xs) @ drop (i + 64) (take n xs)"
proof -
  assume "i + 64 \<le> n"
  then obtain k where "n = i + 64 + k" using le_Suc_ex by blast
  then have "drop i (take n xs) = take (64 + k) (drop i xs)" "drop (i + 64) (take n xs) = take k (drop 64 (drop i xs))"
    by (simp_all add: drop_take add.commute)
  then show ?thesis by (simp only: take_add)
qed

text \<open>The loop over whole blocks ends, as long as its index cannot wrap.\<close>

lemma md5_blocks_eq:
  assumes "unat i \<le> unat n" "unat n \<le> length input" "unat n < 2 ^ 32 - 64" "length st = 4"
  shows "\<exists>i'. md5_blocks input n i st = Some (i', absorb rfc_md5_block st (drop (unat i) (take (unat n) input)))
    \<and> unat i' = unat i + (unat n - unat i) div 64 * 64"
  using assms
proof (induction "unat n - unat i" arbitrary: i st rule: less_induct)
  case less
  let ?xs = "drop (unat i) (take (unat n) input)"
  have i64: "unat (i + 64) = unat i + 64" using less.prems(1,3) by (subst unat_add_lem [THEN iffD1]) simp_all
  have test: "i + 64 \<le> n \<longleftrightarrow> unat i + 64 \<le> unat n" by (simp add: word_le_nat_alt i64)
  show ?case
  proof (cases "unat i + 64 \<le> unat n")
    case True
    let ?b = "take 64 (drop (unat i) input)"
    have b: "length ?b = 64" "?xs = ?b @ drop (unat (i + 64)) (take (unat n) input)"
      using True less.prems(2) block_cut [OF True] by (simp_all add: i64)
    have "rd_bytes input (unat i) 64 = Some ?b" using True less.prems(2) by (simp add: rd_bytes_in)
    moreover have "MD5Transform st ?b = Some (rfc_md5_block st ?b)" by (rule MD5Transform_eq [OF less.prems(4) b(1)])
    moreover obtain i' where "md5_blocks input n (i + 64) (rfc_md5_block st ?b)
        = Some (i', absorb rfc_md5_block (rfc_md5_block st ?b) (drop (unat (i + 64)) (take (unat n) input)))"
      "unat i' = unat (i + 64) + (unat n - unat (i + 64)) div 64 * 64"
    proof -
      have "unat n - unat (i + 64) < unat n - unat i" unfolding i64 using True by arith
      with less.hyps [of "i + 64" "rfc_md5_block st ?b"] True less.prems show ?thesis
        unfolding i64 by (auto intro: that simp: i64)
    qed
    ultimately show ?thesis
      using True test i64 unfolding b(2)
      by (subst md5_blocks.simps) (simp add: absorb_block [OF b(1)] le_div_geq [of 64 "unat n - unat i"])
  next
    case False
    then have "length ?xs < 64" "(unat n - unat i) div 64 = 0" using less.prems(2) by simp_all
    with False test show ?thesis by (subst md5_blocks.simps) simp
  qed
qed

lemma md5_counter:
  assumes "md_count c = counted k"
  shows "MD5Update c input n = do {
     let index = word_of_nat (k mod 64);
     (buffer, state, i, index) \<leftarrow> (if n \<ge> 64 - index then do {
         part \<leftarrow> rd_bytes input 0 (unat (64 - index));
         buffer \<leftarrow> wr_bytes (md_buffer c) (unat index) part;
         state \<leftarrow> MD5Transform (md_state c) buffer;
         (i, state) \<leftarrow> md5_blocks input n (64 - index) state;
         Some (buffer, state, i, 0) }
       else Some (md_buffer c, md_state c, 0, index));
     part \<leftarrow> rd_bytes input (unat i) (unat (n - i));
     buffer \<leftarrow> wr_bytes buffer (unat index) part;
     Some \<lparr>md_count = counted (k + unat n), md_state = state, md_buffer = buffer\<rparr> }"
proof -
  obtain x0 x1 where c: "md_count c = [x0, x1]" and i: "drop_bit 3 x0 AND 0x3F = word_of_nat (k mod 64)"
    and s: "[x0 + push_bit 3 n, (if x0 + push_bit 3 n < push_bit 3 n then x1 + 1 else x1) + drop_bit 29 n] = counted (k + unat n)"
  proof
    show "md_count c = [word_of_nat (8 * k), word_of_nat (8 * k div 2 ^ 32)]"
      using assms by (simp only: counted_def)
    show "drop_bit 3 (word_of_nat (8 * k) :: u32) AND 0x3F = word_of_nat (k mod 64)" by (rule count_index)
    show "[word_of_nat (8 * k) + push_bit 3 n,
        (if word_of_nat (8 * k) + push_bit 3 n < push_bit 3 n then word_of_nat (8 * k div 2 ^ 32) + 1
         else word_of_nat (8 * k div 2 ^ 32)) + drop_bit 29 n] = counted (k + unat n)"
      unfolding counted_def distrib_left by (rule arg_cong2 [where f = "\<lambda>a b. [a, b]"]) (rule count_add)+
  qed
  show ?thesis unfolding s [symmetric] i [symmetric] by (simp add: MD5Update_def c rd8_in wr8_in Let_def)
qed

lemma unat_mod_64: "unat (word_of_nat (k mod 64) :: u32) = k mod 64"
  "unat (64 - word_of_nat (k mod 64) :: u32) = 64 - k mod 64"
proof -
  have less: "k mod 64 < 64" by simp
  show u: "unat (word_of_nat (k mod 64) :: u32) = k mod 64" using less by (simp add: unat_of_nat)
  have "word_of_nat (k mod 64) \<le> (64 :: u32)" unfolding word_le_nat_alt u using less by simp
  then show "unat (64 - word_of_nat (k mod 64) :: u32) = 64 - k mod 64" by (subst unat_sub) (simp_all add: u)
qed

lemma md5_update_short:
  assumes c: "md5_holds c m" and n: "unat n \<le> length input" "unat n < 64 - length m mod 64"
  shows "\<exists>c'. MD5Update c input n = Some c' \<and> md5_holds c' (m @ take (unat n) input)"
proof -
  let ?r = "length m mod 64" and ?xs = "take (unat n) input"
  note h = c [unfolded md5_holds_def] and u = unat_mod_64 [of "length m"]
  have less: "\<not> 64 - word_of_nat ?r \<le> n" unfolding word_le_nat_alt u using n(2) by simp
  have len: "length (rest m @ ?xs) < 64" using n by simp
  let ?buf = "take ?r (md_buffer c) @ ?xs @ drop (?r + unat n) (md_buffer c)"
  let ?c = "\<lparr>md_count = counted (length m + unat n), md_state = md_state c, md_buffer = ?buf\<rparr>"
  have wr: "wr_bytes (md_buffer c) ?r ?xs = Some ?buf"
    using h n by (simp add: wr_bytes_in)
  have rd: "rd_bytes input 0 (unat n) = Some ?xs" using n(1) by (simp add: rd_bytes_in)
  have mod: "length (m @ ?xs) mod 64 = ?r + unat n"
    using len length_rest [of "m @ ?xs"] n(1) by (simp only: block_incomplete(2) length_append length_rest length_take min_absorb2)
  have "MD5Update c input n = Some ?c"
    using h less by (simp add: md5_counter [of c "length m"] rd wr u)
  moreover have "md5_holds ?c (m @ ?xs)"
    using h n len mod by (simp add: md5_holds_def block_incomplete)
  ultimately show ?thesis by blast
qed

lemma md5_update_long:
  assumes c: "md5_holds c m" and n: "unat n \<le> length input" "unat n < 2 ^ 32 - 64" "64 - length m mod 64 \<le> unat n"
  shows "\<exists>c'. MD5Update c input n = Some c' \<and> md5_holds c' (m @ take (unat n) input)"
proof -
  let ?r = "length m mod 64" and ?xs = "take (unat n) input"
  let ?p = "64 - ?r" and ?iv = "absorb rfc_md5_block rfc_md5_iv m"
  let ?part = "take ?p input" and ?tail = "drop ?p ?xs"
  note h = c [unfolded md5_holds_def] and u = unat_mod_64 [of "length m"]
  have r: "?r < 64" by simp
  have le: "64 - word_of_nat ?r \<le> n" unfolding word_le_nat_alt u by (rule n(3))
  have blk: "length (rest m @ ?part) = 64" using n(1,3) r by simp
  have st: "length ?iv = 4" by (rule length_md5_absorb) (simp add: rfc_md5_iv_def)
  have rd: "rd_bytes input 0 ?p = Some ?part" using n(1,3) by (simp add: rd_bytes_in)
  have wr: "wr_bytes (md_buffer c) ?r ?part = Some (rest m @ ?part)"
    using h n(1,3) r by (simp add: wr_bytes_in)
  have tr: "MD5Transform ?iv (rest m @ ?part) = Some (rfc_md5_block ?iv (rest m @ ?part))"
    by (rule MD5Transform_eq [OF st blk])
  obtain i' where i': "md5_blocks input n (64 - word_of_nat ?r) (rfc_md5_block ?iv (rest m @ ?part))
      = Some (i', absorb rfc_md5_block (rfc_md5_block ?iv (rest m @ ?part)) ?tail)"
    "unat i' = ?p + (unat n - ?p) div 64 * 64"
    using md5_blocks_eq [of "64 - word_of_nat ?r" n input "rfc_md5_block ?iv (rest m @ ?part)"] n unfolding u by auto
  have whole: "rest m @ ?xs = (rest m @ ?part) @ ?tail"
    using append_take_drop_id [of ?p ?xs] n(3) by (simp add: min_absorb1)
  have state: "absorb rfc_md5_block (rfc_md5_block ?iv (rest m @ ?part)) ?tail = absorb rfc_md5_block rfc_md5_iv (m @ ?xs)"
    unfolding blocks_rest(1) [of _ _ m] whole by (rule absorb_block [OF blk, symmetric])
  have left: "rest (m @ ?xs) = rest ?tail"
    unfolding blocks_rest(2) [of m] whole using blocks_append [of "rest m @ ?part" rfc_md5_block ?iv] blk by simp
  have "(unat n - ?p) div 64 * 64 \<le> unat n - ?p" by (rule div_times_less_eq_dividend)
  then have less: "unat i' \<le> unat n" 
    unfolding i'(2) using le_diff_conv2 [OF n(3), of "(unat n - ?p) div 64 * 64"] by (simp only: add.commute)
  have "unat (n - i') = unat n - unat i'" by (rule unat_sub) (simp only: word_le_nat_alt less)
  moreover have "drop (unat i') ?xs = rest ?tail"
  proof -
    have "length ?tail = unat n - ?p" using n(1) by simp
    then show ?thesis unfolding rest_def i'(2) by (simp only: drop_drop add.commute)
  qed
  moreover have "take (unat n - unat i') (drop (unat i') input) = drop (unat i') ?xs" by (simp add: drop_take)
  ultimately have rd2: "rd_bytes input (unat i') (unat (n - i')) = Some (rest ?tail)"
    using n(1) less by (simp add: rd_bytes_in)
  let ?buf = "rest ?tail @ drop (length (rest ?tail)) (rest m @ ?part)"
  let ?c = "\<lparr>md_count = counted (length m + unat n), md_state = absorb rfc_md5_block rfc_md5_iv (m @ ?xs), md_buffer = ?buf\<rparr>"
  have l: "length (rest ?tail) < 64" by (simp del: length_take length_drop)
  have wr2: "wr_bytes (rest m @ ?part) 0 (rest ?tail) = Some ?buf"
    using l blk by (simp add: wr_bytes_in del: length_rest length_append)
  have "MD5Update c input n = Some ?c"
    using h le rd wr tr i'(1) rd2 wr2 unfolding state [symmetric]
    by (simp add: md5_counter [of c "length m"] u Let_def del: length_rest)
  moreover have "length ?buf = 64" using l blk by (simp only: length_append length_drop)
  moreover have "take (length (m @ ?xs) mod 64) ?buf = rest (m @ ?xs)"
  proof -
    have front: "take (length a) (a @ b) = a" for a b :: bytes by simp
    have "length (m @ ?xs) mod 64 = length (rest ?tail)"
      using length_rest [of "m @ ?xs"] unfolding left by (rule sym)
    then show ?thesis unfolding left by (simp only: front)
  qed
  moreover have "length (m @ ?xs) = length m + unat n" using n(1) by simp
  ultimately have "md5_holds ?c (m @ ?xs)" by (simp only: md5_holds_def md5_ctx.simps simp_thms)
  with \<open>MD5Update c input n = Some ?c\<close> show ?thesis by blast
qed

lemma md5_update:
  assumes "md5_holds c m" "unat n \<le> length input" "unat n < 2 ^ 32 - 64"
  shows "\<exists>c'. MD5Update c input n = Some c' \<and> md5_holds c' (m @ take (unat n) input)"
  using assms md5_update_short [of c m n input] md5_update_long [of c m n input] by fastforce

section \<open>The whole function\<close>

lemma md5_final_eq:
  assumes "md5_holds c m" "16 \<le> length out"
  shows "\<exists>c'. MD5Final c out = Some (c', splice out 0 (rfc_md5 m))"
proof -
  let ?r = "length m mod 64" and ?bits = "le64 (word_of_nat (8 * length m))"
  have r: "?r < 64" by simp
  have cnt: "md_count c = counted (length m)" using assms(1) by (simp add: md5_holds_def)
  define padlen :: u32 where "padlen = (if word_of_nat ?r < (56 :: u32) then 56 - word_of_nat ?r else 120 - word_of_nat ?r)"
  have lt: "word_of_nat ?r < (56 :: u32) \<longleftrightarrow> ?r < 56" unfolding word_less_nat_alt unat_mod_64 by simp
  have pl: "unat padlen = Suc ((119 - ?r) mod 64)"
  proof (cases "?r < 56")
    case True
    then have "unat (56 - word_of_nat ?r :: u32) = 56 - ?r"
      by (subst unat_sub) (simp_all add: unat_mod_64 word_le_nat_alt)
    then show ?thesis using True by (simp add: padlen_def lt le_mod_geq)
  next
    case False
    then have "unat (120 - word_of_nat ?r :: u32) = 120 - ?r"
      using r by (subst unat_sub) (simp_all add: unat_mod_64 word_le_nat_alt)
    then show ?thesis using False r by (simp add: padlen_def lt)
  qed
  have pad: "take (unat padlen) PADDING = 0x80 # replicate ((119 - ?r) mod 64) 0" "unat padlen \<le> length PADDING"
    using mod_less_divisor [of 64 "119 - ?r"] unfolding pl by (simp_all add: PADDING_def)
  have index: "rd8 (md_count c) 0 = Some (word_of_nat (8 * length m))" by (simp add: cnt counted_def rd8_def)
  have bits: "MD5Encode (replicate 8 0) (md_count c) 8 = Some ?bits"
    using MD5Encode_eq [of 2 "md_count c" "replicate 8 0"] count_bytes [of "8 * length m"]
    by (simp add: cnt counted_def splice_def le64_def)
  obtain c1 where c1: "MD5Update c PADDING padlen = Some c1" "md5_holds c1 (m @ take (unat padlen) PADDING)"
    using md5_update [OF assms(1) pad(2)] pad(2) by (auto simp: PADDING_def)
  obtain c2 where c2: "MD5Update c1 ?bits 8 = Some c2" "md5_holds c2 ((m @ take (unat padlen) PADDING) @ ?bits)"
    using md5_update [OF c1(2), of 8 ?bits] by (auto simp: le64_def)
  have "(m @ take (unat padlen) PADDING) @ ?bits = padded le64 m"
    unfolding pad(1) by (simp add: padded_def padding_def)
  then have st: "md_state c2 = absorb rfc_md5_block rfc_md5_iv (padded le64 m)"
    using c2(2) by (simp add: md5_holds_def)
  have l: "length (md_state c2) = 4" unfolding st by (rule length_md5_absorb) (simp add: rfc_md5_iv_def)
  have "MD5Encode out (md_state c2) 16 = Some (splice out 0 (rfc_md5 m))"
    using MD5Encode_eq [of 4 "md_state c2" out] l assms(2) by (simp add: rfc_md5_def st)
  then show ?thesis
    using index bits c1(1) [unfolded padlen_def] c2(1)
    by (simp add: MD5Final_def count_index Let_def del: of_nat_mult split: if_splits)
qed

lemma md5_init: "length buffer = 64 \<Longrightarrow> md5_holds (MD5Init buffer) []"
  by (simp add: md5_holds_def MD5Init_def counted_def rfc_md5_iv_def)

interpretation md5_pieces: block_hash md5_holds "\<lambda>xs c. MD5Update c xs (word_of_nat (length xs))" MD5Final 16 rfc_md5 "2 ^ 32 - 64"
proof
  fix c m and xs :: bytes
  assume "md5_holds c m" "length xs < 2 ^ 32 - 64"
  then show "\<exists>c'. MD5Update c xs (word_of_nat (length xs)) = Some c' \<and> md5_holds c' (m @ xs)"
    using md5_update [of c m "word_of_nat (length xs)" xs] by (simp add: unat_of_nat)
qed (rule md5_final_eq)

lemma length_rfc_md5 [simp]: "length (rfc_md5 m) = 16"
proof -
  have "length (absorb rfc_md5_block rfc_md5_iv (padded le64 m)) = 4"
    by (rule length_md5_absorb) (simp add: rfc_md5_iv_def)
  moreover have "length (concat (map le_bytes ws)) = 4 * length ws" for ws by (induction ws) simp_all
  ultimately show ?thesis by (simp add: rfc_md5_def)
qed

lemma md5_final_value: "md5_holds c m \<Longrightarrow> \<exists>c'. MD5Final c (replicate 16 0) = Some (c', rfc_md5 m)"
  using md5_final_eq [of c m "replicate 16 0"] by (simp add: splice_def)

section \<open>Files\<close>

text \<open>The bytes the calls of \<open>read\<close> deliver until the loop stops, or \<^term>\<open>None\<close> when one fails.\<close>

fun file_contents :: "bytes option list \<Rightarrow> bytes option" where
  "file_contents [] = Some []"
| "file_contents (None # reads) = None"
| "file_contents (Some data # reads) =
     (if length data < 1024 then Some data else map_option (append data) (file_contents reads))"

definition reads_ok :: "bytes option list \<Rightarrow> bool" where
  "reads_ok = list_all (\<lambda>r. case r of None \<Rightarrow> True | Some data \<Rightarrow> length data \<le> 1024)"

lemma md5_read_loop_eq:
  assumes "md5_holds c m" "reads_ok reads"
  shows "\<exists>c'. md5_read_loop reads c = Some (file_contents reads \<noteq> None, c')
    \<and> (case file_contents reads of None \<Rightarrow> True | Some data \<Rightarrow> md5_holds c' (m @ data))"
  using assms
proof (induction reads c arbitrary: m rule: md5_read_loop.induct)
  case (1 c)
  with md5_update [of c m 0 "[]"] show ?case by auto
next
  case (3 data reads c)
  then obtain c' where c': "MD5Update c data (word_of_nat (length data)) = Some c'" "md5_holds c' (m @ data)"
    using md5_pieces.upd [of c m data] by (auto simp: reads_ok_def)
  show ?case
  proof (cases "length data < 1024")
    case False
    with 3 c' obtain c'' where "md5_read_loop reads c' = Some (file_contents reads \<noteq> None, c'')"
      "case file_contents reads of None \<Rightarrow> True | Some data' \<Rightarrow> md5_holds c'' ((m @ data) @ data')"
      by (fastforce simp: reads_ok_def)
    with False c' show ?thesis by (auto split: option.splits)
  qed (use c' in simp)
qed simp

lemma length_concat_two [simp]: "length (concat (map (\<lambda>x. [f x, g x]) xs)) = 2 * length xs"
  by (induction xs) simp_all

text \<open>With a limit of 2, \<open>snprintf\<close> keeps only the first digit of each byte and ends the string after it.\<close>

lemma hex_cut:
  assumes "2 * n \<le> length out" "n \<le> length hash"
  shows "\<exists>out'. for_each (\<lambda>i out. do { h \<leftarrow> rd8 hash i; snprintf_02x out (i * 2) 2 h }) [0..<n] out = Some out'
    \<and> length out' = length out \<and> take (2 * n) out' = concat (map (\<lambda>b. [hex_digit (unat b div 16), 0]) (take n hash))"
proof -
  let ?f = "\<lambda>i out. do { h \<leftarrow> rd8 hash i; snprintf_02x out (i * 2) 2 h }"
  let ?P = "\<lambda>i out'. length out' = length out
    \<and> take (2 * i) out' = concat (map (\<lambda>b. [hex_digit (unat b div 16), 0]) (take i hash))"
  have "\<exists>out'. for_each ?f [0..<n] out = Some out' \<and> ?P n out'"
  proof (rule for_each_count [of ?P out n ?f])
    fix i out'
    assume i: "i < n" and P: "?P i out'"
    have "?f i out' = Some (take (2 * i) out' @ [hex_digit (unat (hash ! i) div 16), 0] @ drop (2 * i + 2) out')"
      using i P assms by (simp add: rd8_in snprintf_02x_def wr_bytes_in mult.commute hex2_def)
    moreover have "?P (Suc i) (take (2 * i) out' @ [hex_digit (unat (hash ! i) div 16), 0] @ drop (2 * i + 2) out')"
      using i P assms by (simp add: take_Suc_conv_app_nth)
    ultimately show "\<exists>s'. ?f i out' = Some s' \<and> ?P (Suc i) s'" by blast
  qed simp
  then show ?thesis by simp
qed

lemma terminated: "32 < length out \<Longrightarrow> take 33 (out[32 := 0]) = take 32 out @ [0 :: u8]"
  by (simp add: take_Suc_conv_app_nth [of 32, simplified])

section \<open>Properties\<close>

text \<open>
  C26. MD5, message in pieces. Whatever the pieces, each below 2^32 - 64 bytes, in which \<open>MD5Update\<close> gets
  a message, the loop over its whole blocks ends, no array is left, and \<open>MD5Final\<close> writes the digest
  that RFC 1321 defines for the whole message.
\<close>

theorem md5_stream:
  assumes "length buffer = 64" "list_all (\<lambda>piece. length piece < 2 ^ 32 - 64) pieces" "16 \<le> length digest"
  shows "\<exists>context. do {
      context \<leftarrow> for_each (\<lambda>piece context. MD5Update context piece (word_of_nat (length piece))) pieces (MD5Init buffer);
      MD5Final context digest } = Some (context, splice digest 0 (rfc_md5 (concat pieces)))"
  by (rule md5_pieces.stream [OF md5_init [OF assms(1)] assms(2,3)])

theorem md5_stream_witness:
  "\<exists>context. do {
      context \<leftarrow> for_each (\<lambda>piece context. MD5Update context piece (word_of_nat (length piece)))
        [[97, 98], replicate 200 99, []] (MD5Init (replicate 64 1));
      MD5Final context (replicate 16 0) }
    = Some (context, splice (replicate 16 0) 0 (rfc_md5 (concat [[97, 98], replicate 200 99, []])))"
  by (rule md5_stream) simp_all

text \<open>
  What a caller sees as text. \<open>md5_string\<close> writes the 32 digits of the digest. \<open>md5_file\<close> returns -1
  and writes nothing when the file cannot be opened or a read fails; otherwise it returns 0 after
  hashing what was read up to the first short read, but the string it leaves ends after one digit:
  every second byte is zero.
\<close>

theorem md5_texts:
  assumes "length buffer = 64" "length str < 2 ^ 32 - 64" "reads_ok reads" "33 \<le> length out"
  shows "(\<exists>out'. md5_string buffer str out = Some out' \<and> take 33 out' = concat (map hex2 (rfc_md5 str)) @ [0])
    \<and> (if \<not> open_ok \<or> file_contents reads = None then md5_file buffer open_ok reads out = Some (-1, out)
       else \<exists>out'. md5_file buffer open_ok reads out = Some (0, out')
         \<and> take 33 out' = concat (map (\<lambda>b. [hex_digit (unat b div 16), 0]) (rfc_md5 (the (file_contents reads)))) @ [0])"
proof
  obtain c where c: "MD5Update (MD5Init buffer) str (word_of_nat (length str)) = Some c" "md5_holds c str"
    using md5_pieces.upd [OF md5_init [OF assms(1)] assms(2)] by auto
  obtain c' where "MD5Final c (replicate 16 0) = Some (c', rfc_md5 str)"
    using md5_final_value [OF c(2)] by blast
  then show "\<exists>out'. md5_string buffer str out = Some out' \<and> take 33 out' = concat (map hex2 (rfc_md5 str)) @ [0]"
    using c(1) hex_written [of 16 out "rfc_md5 str"] assms(4)
    by (auto simp: md5_string_def wr8_in terminated)
next
  obtain c where c: "md5_read_loop reads (MD5Init buffer) = Some (file_contents reads \<noteq> None, c)"
    "case file_contents reads of None \<Rightarrow> True | Some data \<Rightarrow> md5_holds c data"
    using md5_read_loop_eq [OF md5_init [OF assms(1)] assms(3), unfolded append_Nil] by blast
  show "if \<not> open_ok \<or> file_contents reads = None then md5_file buffer open_ok reads out = Some (-1, out)
     else \<exists>out'. md5_file buffer open_ok reads out = Some (0, out')
       \<and> take 33 out' = concat (map (\<lambda>b. [hex_digit (unat b div 16), 0]) (rfc_md5 (the (file_contents reads)))) @ [0]"
  proof (cases "file_contents reads")
    case None
    with c(1) show ?thesis by (simp add: md5_file_def)
  next
    case (Some m)
    then obtain c' where "MD5Final c (replicate 16 0) = Some (c', rfc_md5 m)"
      using md5_final_value [of c m] c(2) by auto
    with Some c(1) hex_cut [of 16 out "rfc_md5 m"] assms(4) show ?thesis
      by (auto simp: md5_file_def wr8_in terminated)
  qed
qed

theorem md5_texts_witness:
  "(\<exists>out'. md5_string (replicate 64 1) [97, 98] (replicate 40 2) = Some out'
      \<and> take 33 out' = concat (map hex2 (rfc_md5 [97, 98])) @ [0])
    \<and> (if \<not> True \<or> file_contents [Some (replicate 1024 3), Some [4]] = None
       then md5_file (replicate 64 1) True [Some (replicate 1024 3), Some [4]] (replicate 40 2) = Some (-1, replicate 40 2)
       else \<exists>out'. md5_file (replicate 64 1) True [Some (replicate 1024 3), Some [4]] (replicate 40 2) = Some (0, out')
         \<and> take 33 out' = concat (map (\<lambda>b. [hex_digit (unat b div 16), 0])
             (rfc_md5 (the (file_contents [Some (replicate 1024 3), Some [4]])))) @ [0])"
  by (rule md5_texts) (simp_all add: reads_ok_def)

end
