(* ===== verification/Sha.thy ===== *)
theory Sha
  imports BlockHash
begin

text \<open>
  SHA-1 and SHA-256 of \<open>fun_algorithm/sha.c\<close>, and what FIPS 180-4 says they compute.

  The contexts of the two functions have the same first four fields: \<open>sha_ctx\<close>, which \<open>sha1_ctx\<close>
  extends by the constants. Update and padding are the same code twice; here they are definitions
  with the transform as parameter (\<open>sha_byte\<close>, \<open>sha_finish\<close>). Local arrays start as zeros; every
  element is written before it is read. A byte shifted by 24 is a 32-bit value: the code shifts it
  as an \<open>int\<close>, where the top bit is implementation defined and kept by every compiler in use.
\<close>

section \<open>Contexts and macros\<close>

record sha_ctx =
  sh_data :: bytes
  sh_datalen :: u32
  sh_bitlen :: u64
  sh_state :: "u32 list"

record sha1_ctx = sha_ctx +
  sh_k :: "u32 list"

definition ROTLEFT :: "u32 \<Rightarrow> nat \<Rightarrow> u32" where
  "ROTLEFT a b = push_bit b a OR drop_bit (32 - b) a"

definition ROTRIGHT :: "u32 \<Rightarrow> nat \<Rightarrow> u32" where
  "ROTRIGHT a b = drop_bit b a OR push_bit (32 - b) a"

definition CH :: "u32 \<Rightarrow> u32 \<Rightarrow> u32 \<Rightarrow> u32" where
  "CH x y z = (x AND y) XOR (NOT x AND z)"

definition MAJ :: "u32 \<Rightarrow> u32 \<Rightarrow> u32 \<Rightarrow> u32" where
  "MAJ x y z = (x AND y) XOR (x AND z) XOR (y AND z)"

definition EP0 :: "u32 \<Rightarrow> u32" where
  "EP0 x = ROTRIGHT x 2 XOR ROTRIGHT x 13 XOR ROTRIGHT x 22"

definition EP1 :: "u32 \<Rightarrow> u32" where
  "EP1 x = ROTRIGHT x 6 XOR ROTRIGHT x 11 XOR ROTRIGHT x 25"

definition SIG0 :: "u32 \<Rightarrow> u32" where
  "SIG0 x = ROTRIGHT x 7 XOR ROTRIGHT x 18 XOR drop_bit 3 x"

definition SIG1 :: "u32 \<Rightarrow> u32" where
  "SIG1 x = ROTRIGHT x 17 XOR ROTRIGHT x 19 XOR drop_bit 10 x"

section \<open>SHA-1\<close>

type_synonym regs5 = "u32 \<times> u32 \<times> u32 \<times> u32 \<times> u32"

text \<open>One turn of one of the four loops: \<open>f\<close> is the loop's function, \<open>k\<close> its constant.\<close>

definition sha1_turn :: "(u32 \<Rightarrow> u32 \<Rightarrow> u32 \<Rightarrow> u32) \<Rightarrow> u32 \<Rightarrow> u32 list \<Rightarrow> nat \<Rightarrow> regs5 \<Rightarrow> regs5 option" where
  "sha1_turn f k m i = (\<lambda>(a, b, c, d, e). do {
     mi \<leftarrow> rd8 m i;
     let t = ROTLEFT a 5 + f b c d + e + k + mi;
     Some (t, a, ROTLEFT b 30, c, d) })"

text \<open>The two loops that fill \<open>m\<close>.\<close>

definition sha1_schedule :: "bytes \<Rightarrow> u32 list option" where
  "sha1_schedule data = do {
     m \<leftarrow> for_each (\<lambda>i m. do {
         b0 \<leftarrow> rd8 data (4 * i); b1 \<leftarrow> rd8 data (4 * i + 1); b2 \<leftarrow> rd8 data (4 * i + 2); b3 \<leftarrow> rd8 data (4 * i + 3);
         wr8 m i (push_bit 24 (ucast b0) + push_bit 16 (ucast b1) + push_bit 8 (ucast b2) + ucast b3) })
       [0..<16] (replicate 80 0);
     for_each (\<lambda>i m. do {
         x \<leftarrow> rd8 m (i - 3); y \<leftarrow> rd8 m (i - 8); z \<leftarrow> rd8 m (i - 14); w \<leftarrow> rd8 m (i - 16);
         m \<leftarrow> wr8 m i (x XOR y XOR z XOR w);
         v \<leftarrow> rd8 m i;
         wr8 m i (push_bit 1 v OR drop_bit 31 v) }) [16..<80] m }"

definition sha1_transform :: "sha1_ctx \<Rightarrow> bytes \<Rightarrow> sha1_ctx option" where
  "sha1_transform ctx data = do {
     m \<leftarrow> sha1_schedule data;
     a0 \<leftarrow> rd8 (sh_state ctx) 0; b0 \<leftarrow> rd8 (sh_state ctx) 1; c0 \<leftarrow> rd8 (sh_state ctx) 2;
     d0 \<leftarrow> rd8 (sh_state ctx) 3; e0 \<leftarrow> rd8 (sh_state ctx) 4;
     k0 \<leftarrow> rd8 (sh_k ctx) 0; k1 \<leftarrow> rd8 (sh_k ctx) 1; k2 \<leftarrow> rd8 (sh_k ctx) 2; k3 \<leftarrow> rd8 (sh_k ctx) 3;
     s \<leftarrow> for_each (sha1_turn (\<lambda>b c d. (b AND c) XOR (NOT b AND d)) k0 m) [0..<20] (a0, b0, c0, d0, e0);
     s \<leftarrow> for_each (sha1_turn (\<lambda>b c d. b XOR c XOR d) k1 m) [20..<40] s;
     s \<leftarrow> for_each (sha1_turn (\<lambda>b c d. (b AND c) XOR (b AND d) XOR (c AND d)) k2 m) [40..<60] s;
     (a, b, c, d, e) \<leftarrow> for_each (sha1_turn (\<lambda>b c d. b XOR c XOR d) k3 m) [60..<80] s;
     st \<leftarrow> wr8 (sh_state ctx) 0 (a0 + a);
     st \<leftarrow> wr8 st 1 (b0 + b);
     st \<leftarrow> wr8 st 2 (c0 + c);
     st \<leftarrow> wr8 st 3 (d0 + d);
     st \<leftarrow> wr8 st 4 (e0 + e);
     Some (ctx\<lparr>sh_state := st\<rparr>) }"

text \<open>The array \<open>data\<close> of the context keeps what it held before.\<close>

definition sha1_init :: "bytes \<Rightarrow> sha1_ctx" where
  "sha1_init data = \<lparr>sh_data = data, sh_datalen = 0, sh_bitlen = 0,
     sh_state = [0x67452301, 0xEFCDAB89, 0x98BADCFE, 0x10325476, 0xc3d2e1f0],
     sh_k = [0x5a827999, 0x6ed9eba1, 0x8f1bbcdc, 0xca62c1d6]\<rparr>"

text \<open>The body of the loop of \<open>sha1_update\<close> and \<open>sha256_update\<close>.\<close>

definition sha_byte :: "('c sha_ctx_scheme \<Rightarrow> bytes \<Rightarrow> 'c sha_ctx_scheme option) \<Rightarrow> u8
    \<Rightarrow> 'c sha_ctx_scheme \<Rightarrow> 'c sha_ctx_scheme option" where
  "sha_byte transform b ctx = do {
     d \<leftarrow> wr8 (sh_data ctx) (unat (sh_datalen ctx)) b;
     let ctx = ctx\<lparr>sh_data := d, sh_datalen := sh_datalen ctx + 1\<rparr>;
     if sh_datalen ctx = 64 then do {
       ctx \<leftarrow> transform ctx (sh_data ctx);
       Some (ctx\<lparr>sh_bitlen := sh_bitlen ctx + 512, sh_datalen := 0\<rparr>) }
     else Some ctx }"

definition sha1_update :: "sha1_ctx \<Rightarrow> bytes \<Rightarrow> sha1_ctx option" where
  "sha1_update ctx data = for_each (sha_byte sha1_transform) data ctx"

text \<open>The padding and the last transform of \<open>sha1_final\<close> and \<open>sha256_final\<close>.\<close>

definition sha_finish :: "('c sha_ctx_scheme \<Rightarrow> bytes \<Rightarrow> 'c sha_ctx_scheme option)
    \<Rightarrow> 'c sha_ctx_scheme \<Rightarrow> 'c sha_ctx_scheme option" where
  "sha_finish transform ctx = do {
     let i = unat (sh_datalen ctx);
     ctx \<leftarrow> (if sh_datalen ctx < 56 then do {
         d \<leftarrow> wr8 (sh_data ctx) i 0x80;
         d \<leftarrow> for_each (\<lambda>i d. wr8 d i 0) [i + 1..<56] d;
         Some (ctx\<lparr>sh_data := d\<rparr>) }
       else do {
         d \<leftarrow> wr8 (sh_data ctx) i 0x80;
         d \<leftarrow> for_each (\<lambda>i d. wr8 d i 0) [i + 1..<64] d;
         ctx \<leftarrow> transform (ctx\<lparr>sh_data := d\<rparr>) d;
         d \<leftarrow> wr_bytes (sh_data ctx) 0 (replicate 56 0);
         Some (ctx\<lparr>sh_data := d\<rparr>) });
     let bits = sh_bitlen ctx + ucast (sh_datalen ctx * 8);
     d \<leftarrow> for_each (\<lambda>i d. wr8 d (63 - i) (ucast (drop_bit (8 * i) bits))) [0..<8] (sh_data ctx);
     transform (ctx\<lparr>sh_bitlen := bits, sh_data := d\<rparr>) d }"

text \<open>The loop that copies the \<open>n\<close> words of the state, each from its top byte down.\<close>

definition sha_output :: "nat \<Rightarrow> u32 list \<Rightarrow> bytes \<Rightarrow> bytes option" where
  "sha_output n st = for_each (\<lambda>i. for_each (\<lambda>k hash. do {
       w \<leftarrow> rd8 st k;
       wr8 hash (i + 4 * k) (ucast (drop_bit (24 - i * 8) w AND 0xff)) }) [0..<n]) [0..<4]"

definition sha1_final :: "sha1_ctx \<Rightarrow> bytes \<Rightarrow> (sha1_ctx \<times> bytes) option" where
  "sha1_final ctx hash = do {
     ctx \<leftarrow> sha_finish sha1_transform ctx;
     hash \<leftarrow> sha_output 5 (sh_state ctx) hash;
     Some (ctx, hash) }"

section \<open>SHA-256\<close>

definition sha256_k :: "u32 list" where
  "sha256_k =
    [0x428a2f98, 0x71374491, 0xb5c0fbcf, 0xe9b5dba5, 0x3956c25b, 0x59f111f1, 0x923f82a4, 0xab1c5ed5] @
    [0xd807aa98, 0x12835b01, 0x243185be, 0x550c7dc3, 0x72be5d74, 0x80deb1fe, 0x9bdc06a7, 0xc19bf174] @
    [0xe49b69c1, 0xefbe4786, 0x0fc19dc6, 0x240ca1cc, 0x2de92c6f, 0x4a7484aa, 0x5cb0a9dc, 0x76f988da] @
    [0x983e5152, 0xa831c66d, 0xb00327c8, 0xbf597fc7, 0xc6e00bf3, 0xd5a79147, 0x06ca6351, 0x14292967] @
    [0x27b70a85, 0x2e1b2138, 0x4d2c6dfc, 0x53380d13, 0x650a7354, 0x766a0abb, 0x81c2c92e, 0x92722c85] @
    [0xa2bfe8a1, 0xa81a664b, 0xc24b8b70, 0xc76c51a3, 0xd192e819, 0xd6990624, 0xf40e3585, 0x106aa070] @
    [0x19a4c116, 0x1e376c08, 0x2748774c, 0x34b0bcb5, 0x391c0cb3, 0x4ed8aa4a, 0x5b9cca4f, 0x682e6ff3] @
    [0x748f82ee, 0x78a5636f, 0x84c87814, 0x8cc70208, 0x90befffa, 0xa4506ceb, 0xbef9a3f7, 0xc67178f2]"

type_synonym regs8 = "u32 \<times> u32 \<times> u32 \<times> u32 \<times> u32 \<times> u32 \<times> u32 \<times> u32"

definition sha256_turn :: "u32 list \<Rightarrow> nat \<Rightarrow> regs8 \<Rightarrow> regs8 option" where
  "sha256_turn m i = (\<lambda>(a, b, c, d, e, f, g, h). do {
     ki \<leftarrow> rd8 sha256_k i;
     mi \<leftarrow> rd8 m i;
     let t1 = h + EP1 e + CH e f g + ki + mi;
     let t2 = EP0 a + MAJ a b c;
     Some (t1 + t2, a, b, c, d + t1, e, f, g) })"

definition sha256_schedule :: "bytes \<Rightarrow> u32 list option" where
  "sha256_schedule data = do {
     m \<leftarrow> for_each (\<lambda>i m. do {
         b0 \<leftarrow> rd8 data (4 * i); b1 \<leftarrow> rd8 data (4 * i + 1); b2 \<leftarrow> rd8 data (4 * i + 2); b3 \<leftarrow> rd8 data (4 * i + 3);
         wr8 m i (push_bit 24 (ucast b0) OR push_bit 16 (ucast b1) OR push_bit 8 (ucast b2) OR ucast b3) })
       [0..<16] (replicate 64 0);
     for_each (\<lambda>i m. do {
         x \<leftarrow> rd8 m (i - 2); y \<leftarrow> rd8 m (i - 7); z \<leftarrow> rd8 m (i - 15); w \<leftarrow> rd8 m (i - 16);
         wr8 m i (SIG1 x + y + SIG0 z + w) }) [16..<64] m }"

definition sha256_transform :: "sha_ctx \<Rightarrow> bytes \<Rightarrow> sha_ctx option" where
  "sha256_transform ctx data = do {
     m \<leftarrow> sha256_schedule data;
     a0 \<leftarrow> rd8 (sh_state ctx) 0; b0 \<leftarrow> rd8 (sh_state ctx) 1; c0 \<leftarrow> rd8 (sh_state ctx) 2; d0 \<leftarrow> rd8 (sh_state ctx) 3;
     e0 \<leftarrow> rd8 (sh_state ctx) 4; f0 \<leftarrow> rd8 (sh_state ctx) 5; g0 \<leftarrow> rd8 (sh_state ctx) 6; h0 \<leftarrow> rd8 (sh_state ctx) 7;
     (a, b, c, d, e, f, g, h) \<leftarrow> for_each (sha256_turn m) [0..<64] (a0, b0, c0, d0, e0, f0, g0, h0);
     st \<leftarrow> wr8 (sh_state ctx) 0 (a0 + a);
     st \<leftarrow> wr8 st 1 (b0 + b);
     st \<leftarrow> wr8 st 2 (c0 + c);
     st \<leftarrow> wr8 st 3 (d0 + d);
     st \<leftarrow> wr8 st 4 (e0 + e);
     st \<leftarrow> wr8 st 5 (f0 + f);
     st \<leftarrow> wr8 st 6 (g0 + g);
     st \<leftarrow> wr8 st 7 (h0 + h);
     Some (ctx\<lparr>sh_state := st\<rparr>) }"

definition sha256_init :: "bytes \<Rightarrow> sha_ctx" where
  "sha256_init data = \<lparr>sh_data = data, sh_datalen = 0, sh_bitlen = 0,
     sh_state = [0x6a09e667, 0xbb67ae85, 0x3c6ef372, 0xa54ff53a, 0x510e527f, 0x9b05688c, 0x1f83d9ab, 0x5be0cd19]\<rparr>"

definition sha256_update :: "sha_ctx \<Rightarrow> bytes \<Rightarrow> sha_ctx option" where
  "sha256_update ctx data = for_each (sha_byte sha256_transform) data ctx"

definition sha256_final :: "sha_ctx \<Rightarrow> bytes \<Rightarrow> (sha_ctx \<times> bytes) option" where
  "sha256_final ctx hash = do {
     ctx \<leftarrow> sha_finish sha256_transform ctx;
     hash \<leftarrow> sha_output 8 (sh_state ctx) hash;
     Some (ctx, hash) }"

section \<open>The functions on strings\<close>

text \<open>
  The bytes of \<open>hash[40]\<close> before the digest is written to it are indeterminate: \<open>junk\<close>. The string is
  given without its terminating zero.
\<close>

definition sha1_string :: "bytes \<Rightarrow> bytes \<Rightarrow> bytes option \<Rightarrow> bytes option \<Rightarrow> bytes option option" where
  "sha1_string data junk str output = (case (str, output) of
     (Some str, Some output) \<Rightarrow> do {
       ctx \<leftarrow> sha1_update (sha1_init data) str;
       (_, hash) \<leftarrow> sha1_final ctx junk;
       output \<leftarrow> for_each (\<lambda>i output. do {
           h \<leftarrow> rd8 hash i;
           snprintf_02x output (i * 2) (2 + 1) h }) [0..<40] output;
       output \<leftarrow> wr8 output 40 0;
       Some (Some output) }
   | _ \<Rightarrow> Some output)"

definition sha256_string :: "bytes \<Rightarrow> bytes \<Rightarrow> bytes option \<Rightarrow> bytes option \<Rightarrow> bytes option option" where
  "sha256_string data junk input output = (case (input, output) of
     (Some input, Some output) \<Rightarrow> do {
       ctx \<leftarrow> sha256_update (sha256_init data) input;
       (_, hash) \<leftarrow> sha256_final ctx junk;
       output \<leftarrow> for_each (\<lambda>i output. do {
           h \<leftarrow> rd8 hash i;
           snprintf_02x output (i * 2) (2 + 1) h }) [0..<40] output;
       output \<leftarrow> wr8 output 40 0;
       Some (Some output) }
   | _ \<Rightarrow> Some output)"

end
