(* ===== verification/ShaFacts.thy ===== *)
theory ShaFacts
  imports Sha
begin

text \<open>
  SHA-1 and SHA-256 as FIPS 180-4 defines them (\<open>fips_sha1\<close>, \<open>fips_sha256\<close>: message schedules as
  recursive functions of the step, one loop over the steps, padding of the whole message), and the
  proofs that the code computes them, whatever the pieces in which it gets the message. The
  locale \<open>sha_function\<close> holds what the two functions share; its interpretations are their transforms.
\<close>

section \<open>The standard\<close>

text \<open>Words and their bytes, the top byte first.\<close>

definition be_word :: "bytes \<Rightarrow> u32" where
  "be_word bs = foldl (\<lambda>w b. push_bit 8 w OR ucast b) 0 bs"

definition be_bytes :: "u32 \<Rightarrow> bytes" where
  "be_bytes w = map (\<lambda>i. ucast (drop_bit (24 - 8 * i) w)) [0..<4]"

definition be64 :: "u64 \<Rightarrow> bytes" where
  "be64 w = map (\<lambda>i. ucast (drop_bit (56 - 8 * i) w)) [0..<8]"

definition block_word :: "bytes \<Rightarrow> nat \<Rightarrow> u32" where
  "block_word blk t = be_word (take 4 (drop (4 * t) blk))"

definition fips_parity :: "u32 \<Rightarrow> u32 \<Rightarrow> u32 \<Rightarrow> u32" where
  "fips_parity x y z = x XOR y XOR z"

fun sha1_W :: "bytes \<Rightarrow> nat \<Rightarrow> u32" where
  "sha1_W blk t = (if t < 16 then block_word blk t
     else ROTLEFT (sha1_W blk (t - 3) XOR sha1_W blk (t - 8) XOR sha1_W blk (t - 14) XOR sha1_W blk (t - 16)) 1)"

definition sha1_f :: "nat \<Rightarrow> u32 \<Rightarrow> u32 \<Rightarrow> u32 \<Rightarrow> u32" where
  "sha1_f t = (if t < 20 then CH else if t < 40 then fips_parity else if t < 60 then MAJ else fips_parity)"

definition sha1_K :: "nat \<Rightarrow> u32" where
  "sha1_K t = [0x5a827999, 0x6ed9eba1, 0x8f1bbcdc, 0xca62c1d6] ! (t div 20)"

definition fips_sha1_step :: "bytes \<Rightarrow> nat \<Rightarrow> regs5 \<Rightarrow> regs5" where
  "fips_sha1_step blk t = (\<lambda>(a, b, c, d, e).
     (ROTLEFT a 5 + sha1_f t b c d + e + sha1_K t + sha1_W blk t, a, ROTLEFT b 30, c, d))"

definition fips_sha1_block :: "u32 list \<Rightarrow> bytes \<Rightarrow> u32 list" where
  "fips_sha1_block H blk = (let (a, b, c, d, e) =
       fold (fips_sha1_step blk) [0..<80] (H ! 0, H ! 1, H ! 2, H ! 3, H ! 4) in
     [H ! 0 + a, H ! 1 + b, H ! 2 + c, H ! 3 + d, H ! 4 + e])"

definition fips_sha1_iv :: "u32 list" where
  "fips_sha1_iv = [0x67452301, 0xEFCDAB89, 0x98BADCFE, 0x10325476, 0xc3d2e1f0]"

definition fips_sha1 :: "bytes \<Rightarrow> bytes" where
  "fips_sha1 m = concat (map be_bytes (absorb fips_sha1_block fips_sha1_iv (padded be64 m)))"

fun sha256_W :: "bytes \<Rightarrow> nat \<Rightarrow> u32" where
  "sha256_W blk t = (if t < 16 then block_word blk t
     else SIG1 (sha256_W blk (t - 2)) + sha256_W blk (t - 7) + SIG0 (sha256_W blk (t - 15)) + sha256_W blk (t - 16))"

definition fips_sha256_step :: "bytes \<Rightarrow> nat \<Rightarrow> regs8 \<Rightarrow> regs8" where
  "fips_sha256_step blk t = (\<lambda>(a, b, c, d, e, f, g, h).
     let T1 = h + EP1 e + CH e f g + sha256_k ! t + sha256_W blk t; T2 = EP0 a + MAJ a b c in
     (T1 + T2, a, b, c, d + T1, e, f, g))"

definition fips_sha256_block :: "u32 list \<Rightarrow> bytes \<Rightarrow> u32 list" where
  "fips_sha256_block H blk = (let (a, b, c, d, e, f, g, h) =
       fold (fips_sha256_step blk) [0..<64] (H ! 0, H ! 1, H ! 2, H ! 3, H ! 4, H ! 5, H ! 6, H ! 7) in
     [H ! 0 + a, H ! 1 + b, H ! 2 + c, H ! 3 + d, H ! 4 + e, H ! 5 + f, H ! 6 + g, H ! 7 + h])"

definition fips_sha256_iv :: "u32 list" where
  "fips_sha256_iv =
     [0x6a09e667, 0xbb67ae85, 0x3c6ef372, 0xa54ff53a, 0x510e527f, 0x9b05688c, 0x1f83d9ab, 0x5be0cd19]"

definition fips_sha256 :: "bytes \<Rightarrow> bytes" where
  "fips_sha256 m = concat (map be_bytes (absorb fips_sha256_block fips_sha256_iv (padded be64 m)))"

text \<open>
  The constants of SHA-256 are the first 32 bits of the fractional parts of roots of the first
  primes: square roots for the initial values, cube roots for the table.
\<close>

definition first_primes :: "int list" where
  "first_primes = filter (\<lambda>p. list_all (\<lambda>d. d < p \<longrightarrow> p mod d \<noteq> 0) [2..17]) [2..311]"

definition root_fraction :: "nat \<Rightarrow> int \<Rightarrow> u32 \<Rightarrow> bool" where
  "root_fraction k p w = list_ex (\<lambda>n. let x = n * 2 ^ 32 + uint w in
     x ^ k \<le> p * 2 ^ (32 * k) \<and> p * 2 ^ (32 * k) < (x + 1) ^ k) [1..6]"

lemma sha256_constants:
  "list_all2 (root_fraction 3) first_primes sha256_k"
  "list_all2 (root_fraction 2) (take 8 first_primes) fips_sha256_iv"
  by code_simp+

declare sha1_W.simps [simp del] sha256_W.simps [simp del]

section \<open>The transforms\<close>

lemma be_word_4: "be_word [x, y, z, w] =
    push_bit 24 (ucast x) OR push_bit 16 (ucast y) OR push_bit 8 (ucast z) OR ucast w"
  unfolding be_word_def by (rule bit_word_eqI) (auto simp: bit_simps)

lemma block_word_4:
  assumes "length blk = 64" "t < 16"
  shows "block_word blk t = push_bit 24 (ucast (blk ! (4 * t))) OR push_bit 16 (ucast (blk ! (4 * t + 1)))
    OR push_bit 8 (ucast (blk ! (4 * t + 2))) OR ucast (blk ! (4 * t + 3))"
proof -
  have "take 4 (drop (4 * t) blk) = [blk ! (4 * t), blk ! (4 * t + 1), blk ! (4 * t + 2), blk ! (4 * t + 3)]"
    using assms by (intro nth_equalityI) (auto simp: less_Suc_eq numeral_eq_Suc)
  then show ?thesis by (simp add: block_word_def be_word_4)
qed

lemma disjoint_sum: "push_bit 24 (ucast x) + push_bit 16 (ucast y) + push_bit 8 (ucast z) + ucast w
    = (push_bit 24 (ucast x) OR push_bit 16 (ucast y) OR push_bit 8 (ucast z) OR ucast w :: u32)"
  for x y z w :: u8
proof -
  have a: "push_bit 24 (ucast x) + push_bit 16 (ucast y) = (push_bit 24 (ucast x) OR push_bit 16 (ucast y) :: u32)"
    by (rule disjunctive_add) (auto simp: bit_simps dest: bit_imp_le_length)
  have b: "(push_bit 24 (ucast x) OR push_bit 16 (ucast y)) + push_bit 8 (ucast z)
      = (push_bit 24 (ucast x) OR push_bit 16 (ucast y) OR push_bit 8 (ucast z) :: u32)"
    by (rule trans [OF disjunctive_add]) (auto simp: bit_simps or.assoc dest: bit_imp_le_length)
  have c: "(push_bit 24 (ucast x) OR push_bit 16 (ucast y) OR push_bit 8 (ucast z)) + ucast w
      = (push_bit 24 (ucast x) OR push_bit 16 (ucast y) OR push_bit 8 (ucast z) OR ucast w :: u32)"
    by (rule trans [OF disjunctive_add]) (auto simp: bit_simps or.assoc dest: bit_imp_le_length)
  show ?thesis unfolding a b c ..
qed

lemma sha1_schedule_eq:
  assumes "length blk = 64"
  shows "\<exists>m. sha1_schedule blk = Some m \<and> length m = 80 \<and> (\<forall>t<80. m ! t = sha1_W blk t)"
proof -
  let ?f = "\<lambda>i m. do {
         b0 \<leftarrow> rd8 blk (4 * i); b1 \<leftarrow> rd8 blk (4 * i + 1); b2 \<leftarrow> rd8 blk (4 * i + 2); b3 \<leftarrow> rd8 blk (4 * i + 3);
         wr8 m i (push_bit 24 (ucast b0) + push_bit 16 (ucast b1) + push_bit 8 (ucast b2) + ucast b3) }"
  let ?g = "\<lambda>i m. do {
         x \<leftarrow> rd8 m (i - 3); y \<leftarrow> rd8 m (i - 8); z \<leftarrow> rd8 m (i - 14); w \<leftarrow> rd8 m (i - 16);
         m \<leftarrow> wr8 m i (x XOR y XOR z XOR w);
         v \<leftarrow> rd8 m i;
         wr8 m i (push_bit 1 v OR drop_bit 31 v) }"
  have "\<exists>m. for_each ?f [0..<16] (replicate 80 0) = Some m \<and> length m = 80 \<and> (\<forall>t<16. m ! t = sha1_W blk t)"
    by (rule for_each_fill) (use assms in \<open>simp_all add: mem_simps disjoint_sum sha1_W.simps block_word_4\<close>)
  then obtain m where m: "for_each ?f [0..<16] (replicate 80 0) = Some m" "length m = 80" "\<forall>t<16. m ! t = sha1_W blk t"
    by blast
  have "\<exists>m'. for_each ?g [16..<80] m = Some m' \<and> length m' = 80 \<and> (\<forall>t<80. m' ! t = sha1_W blk t)"
  proof (rule for_each_fill)
    fix i :: nat and m :: "u32 list"
    assume i: "16 \<le> i" "i < 80" and len: "length m = 80" and w: "\<And>t. t < i \<Longrightarrow> m ! t = sha1_W blk t"
    define v where "v = sha1_W blk (i - 3) XOR sha1_W blk (i - 8) XOR sha1_W blk (i - 14) XOR sha1_W blk (i - 16)"
    have "sha1_W blk i = push_bit 1 v OR drop_bit 31 v"
      using i(1) by (simp add: sha1_W.simps [of blk i] ROTLEFT_def flip: v_def)
    then show "?g i m = Some (m[i := sha1_W blk i])"
      using i len w by (simp add: mem_simps del: drop_bit_xor flip: v_def)
  qed (use m in auto)
  with m(1) show ?thesis by (simp add: sha1_schedule_def)
qed

lemma sha256_schedule_eq:
  assumes "length blk = 64"
  shows "\<exists>m. sha256_schedule blk = Some m \<and> length m = 64 \<and> (\<forall>t<64. m ! t = sha256_W blk t)"
proof -
  let ?f = "\<lambda>i m. do {
         b0 \<leftarrow> rd8 blk (4 * i); b1 \<leftarrow> rd8 blk (4 * i + 1); b2 \<leftarrow> rd8 blk (4 * i + 2); b3 \<leftarrow> rd8 blk (4 * i + 3);
         wr8 m i (push_bit 24 (ucast b0) OR push_bit 16 (ucast b1) OR push_bit 8 (ucast b2) OR ucast b3) }"
  let ?g = "\<lambda>i m. do {
         x \<leftarrow> rd8 m (i - 2); y \<leftarrow> rd8 m (i - 7); z \<leftarrow> rd8 m (i - 15); w \<leftarrow> rd8 m (i - 16);
         wr8 m i (SIG1 x + y + SIG0 z + w) }"
  have "\<exists>m. for_each ?f [0..<16] (replicate 64 0) = Some m \<and> length m = 64 \<and> (\<forall>t<16. m ! t = sha256_W blk t)"
    by (rule for_each_fill) (use assms in \<open>simp_all add: mem_simps sha256_W.simps block_word_4\<close>)
  then obtain m where m: "for_each ?f [0..<16] (replicate 64 0) = Some m" "length m = 64" "\<forall>t<16. m ! t = sha256_W blk t"
    by blast
  have "\<exists>m'. for_each ?g [16..<64] m = Some m' \<and> length m' = 64 \<and> (\<forall>t<64. m' ! t = sha256_W blk t)"
    by (rule for_each_fill) (use m in \<open>auto simp: mem_simps sha256_W.simps [of blk "_ :: nat"]\<close>)
  with m(1) show ?thesis by (simp add: sha256_schedule_def)
qed

lemma sha1_loop:
  assumes "\<forall>t<80. m ! t = sha1_W blk t" "length m = 80" "b \<le> 80"
    and "\<And>i. a \<le> i \<Longrightarrow> i < b \<Longrightarrow> sha1_f i = f \<and> sha1_K i = k"
  shows "for_each (sha1_turn f k m) [a..<b] s = Some (fold (fips_sha1_step blk) [a..<b] s)"
proof (rule for_each_total)
  fix i s
  assume "i \<in> set [a..<b]"
  with assms show "sha1_turn f k m i s = Some (fips_sha1_step blk i s)"
    by (auto simp: sha1_turn_def fips_sha1_step_def mem_simps Let_def split: prod.split)
qed

lemma list5: "length xs = 5 \<Longrightarrow> xs = [xs ! 0, xs ! 1, xs ! 2, xs ! 3, xs ! 4]"
  by (rule nth_equalityI) (auto simp: less_Suc_eq numeral_eq_Suc)

lemma sha1_loops:
  assumes m: "\<forall>t<80. m ! t = sha1_W blk t" "length m = 80"
  shows "do {
      s \<leftarrow> for_each (sha1_turn (\<lambda>b c d. (b AND c) XOR (NOT b AND d)) 0x5a827999 m) [0..<20] s;
      s \<leftarrow> for_each (sha1_turn (\<lambda>b c d. b XOR c XOR d) 0x6ed9eba1 m) [20..<40] s;
      s \<leftarrow> for_each (sha1_turn (\<lambda>b c d. (b AND c) XOR (b AND d) XOR (c AND d)) 0x8f1bbcdc m) [40..<60] s;
      for_each (sha1_turn (\<lambda>b c d. b XOR c XOR d) 0xca62c1d6 m) [60..<80] s }
    = Some (fold (fips_sha1_step blk) [0..<80] s)"
proof -
  have split: "[0..<80] = [0..<20] @ [20..<40] @ [40..<60] @ [60..<80]"
    using upt_split [of 0 20 80] upt_split [of 20 40 80] upt_split [of 40 60 80] by simp
  have div: "i div 20 = q" if "20 * q \<le> i" "i < 20 * q + 20" for i q :: nat
    using that by (intro div_nat_eqI) auto
  have f: "CH = (\<lambda>b c d. (b AND c) XOR (NOT b AND d))" "fips_parity = (\<lambda>b c d. b XOR c XOR d)"
    "MAJ = (\<lambda>b c d. (b AND c) XOR (b AND d) XOR (c AND d))"
    by (simp_all add: fun_eq_iff CH_def fips_parity_def MAJ_def)
  have 1: "for_each (sha1_turn (\<lambda>b c d. (b AND c) XOR (NOT b AND d)) 0x5a827999 m) [0..<20] s
      = Some (fold (fips_sha1_step blk) [0..<20] s)" for s
    by (rule sha1_loop [OF m]) (auto simp: sha1_f_def sha1_K_def f)
  have 2: "for_each (sha1_turn (\<lambda>b c d. b XOR c XOR d) 0x6ed9eba1 m) [20..<40] s
      = Some (fold (fips_sha1_step blk) [20..<40] s)" for s
    by (rule sha1_loop [OF m]) (auto simp: sha1_f_def sha1_K_def f div [of 1])
  have 3: "for_each (sha1_turn (\<lambda>b c d. (b AND c) XOR (b AND d) XOR (c AND d)) 0x8f1bbcdc m) [40..<60] s
      = Some (fold (fips_sha1_step blk) [40..<60] s)" for s
    by (rule sha1_loop [OF m]) (auto simp: sha1_f_def sha1_K_def f div [of 2])
  have 4: "for_each (sha1_turn (\<lambda>b c d. b XOR c XOR d) 0xca62c1d6 m) [60..<80] s
      = Some (fold (fips_sha1_step blk) [60..<80] s)" for s
    by (rule sha1_loop [OF m]) (auto simp: sha1_f_def sha1_K_def f div [of 3])
  show ?thesis unfolding split by (simp only: 1 2 3 4 Option.bind.simps fold_append comp_apply)
qed

lemma sha1_transform_eq:
  assumes blk: "length blk = 64" and st: "length (sh_state c) = 5"
    and k: "sh_k c = [0x5a827999, 0x6ed9eba1, 0x8f1bbcdc, 0xca62c1d6]"
  shows "sha1_transform c blk = Some (c\<lparr>sh_state := fips_sha1_block (sh_state c) blk\<rparr>)"
proof -
  obtain m where m: "sha1_schedule blk = Some m" "length m = 80" "\<forall>t<80. m ! t = sha1_W blk t"
    using sha1_schedule_eq [OF blk] by blast
  obtain h0 h1 h2 h3 h4 where h: "sh_state c = [h0, h1, h2, h3, h4]" using list5 [OF st] by blast
  obtain a b c' d e where r: "fold (fips_sha1_step blk) [0..<80] (h0, h1, h2, h3, h4) = (a, b, c', d, e)"
    by (metis prod_cases5)
  have loops: "do {
      s \<leftarrow> for_each (sha1_turn (\<lambda>b c d. (b AND c) XOR (NOT b AND d)) 0x5a827999 m) [0..<20] s;
      s \<leftarrow> for_each (sha1_turn (\<lambda>b c d. b XOR c XOR d) 0x6ed9eba1 m) [20..<40] s;
      s \<leftarrow> for_each (sha1_turn (\<lambda>b c d. (b AND c) XOR (b AND d) XOR (c AND d)) 0x8f1bbcdc m) [40..<60] s;
      s \<leftarrow> for_each (sha1_turn (\<lambda>b c d. b XOR c XOR d) 0xca62c1d6 m) [60..<80] s;
      g s } = g (fold (fips_sha1_step blk) [0..<80] s)" for s and g :: "regs5 \<Rightarrow> sha1_ctx option"
    using arg_cong [OF sha1_loops [OF m(3,2), of s], of "\<lambda>r. Option.bind r g"] by (simp only: Option.bind_assoc Option.bind.simps)
  have k': "rd8 (sh_k c) 0 = Some 0x5a827999" "rd8 (sh_k c) 1 = Some 0x6ed9eba1"
    "rd8 (sh_k c) 2 = Some 0x8f1bbcdc" "rd8 (sh_k c) 3 = Some 0xca62c1d6"
    unfolding k by (simp_all add: rd8_def)
  show ?thesis
    unfolding sha1_transform_def m(1) k' Option.bind.simps
    by (subst loops) (simp add: h mem_simps r fips_sha1_block_def)
qed

lemma list8: "length xs = 8 \<Longrightarrow> xs = [xs ! 0, xs ! 1, xs ! 2, xs ! 3, xs ! 4, xs ! 5, xs ! 6, xs ! 7]"
  by (rule nth_equalityI) (auto simp: less_Suc_eq numeral_eq_Suc)

lemma length_sha256_k [simp]: "length sha256_k = 64"
  by (simp add: sha256_k_def)

lemma sha256_transform_eq:
  assumes blk: "length blk = 64" and st: "length (sh_state c) = 8"
  shows "sha256_transform c blk = Some (c\<lparr>sh_state := fips_sha256_block (sh_state c) blk\<rparr>)"
proof -
  obtain m where m: "sha256_schedule blk = Some m" "length m = 64" "\<forall>t<64. m ! t = sha256_W blk t"
    using sha256_schedule_eq [OF blk] by blast
  obtain h0 h1 h2 h3 h4 h5 h6 h7 where h: "sh_state c = [h0, h1, h2, h3, h4, h5, h6, h7]" using list8 [OF st] by blast
  obtain a y where "fold (fips_sha256_step blk) [0..<64] (h0, h1, h2, h3, h4, h5, h6, h7) = (a, y)" by (rule prod.exhaust)
  moreover obtain b c' d e f g i where "y = (b, c', d, e, f, g, i)" by (metis prod_cases7)
  ultimately have r: "fold (fips_sha256_step blk) [0..<64] (h0, h1, h2, h3, h4, h5, h6, h7)
      = (a, b, c', d, e, f, g, i)" by simp
  have loop: "for_each (sha256_turn m) [0..<64] s = Some (fold (fips_sha256_step blk) [0..<64] s)" for s
  proof (rule for_each_total)
    fix i s
    assume "i \<in> set [0..<64]"
    with m show "sha256_turn m i s = Some (fips_sha256_step blk i s)"
      by (auto simp: sha256_turn_def fips_sha256_step_def mem_simps Let_def split: prod.split)
  qed
  show ?thesis
    unfolding sha256_transform_def m(1) loop Option.bind.simps
    by (simp add: h mem_simps r fips_sha256_block_def)
qed

section \<open>Update and padding\<close>

lemma ucast_of_nat: "n < 2 ^ 32 \<Longrightarrow> ucast (word_of_nat n :: u32) = (word_of_nat n :: u64)"
  by (simp add: word_unat_eq_iff unsigned_ucast_eq unsigned_of_nat take_bit_nat_eq_self)

locale sha_function =
  fixes transform :: "'c sha_ctx_scheme \<Rightarrow> bytes \<Rightarrow> 'c sha_ctx_scheme option"
    and block :: "u32 list \<Rightarrow> bytes \<Rightarrow> u32 list"
    and iv :: "u32 list"
    and extra :: 'c
  assumes transform: "length blk = 64 \<Longrightarrow> length (sh_state c) = length iv \<Longrightarrow> sha_ctx.more c = extra
      \<Longrightarrow> transform c blk = Some (c\<lparr>sh_state := block (sh_state c) blk\<rparr>)"
    and block: "length h = length iv \<Longrightarrow> length (block h blk) = length iv"
begin

definition stands_for :: "'c sha_ctx_scheme \<Rightarrow> bytes \<Rightarrow> bool" where
  "stands_for c m \<longleftrightarrow> length (sh_data c) = 64 \<and> sh_datalen c = word_of_nat (length m mod 64)
     \<and> sh_bitlen c = word_of_nat (512 * (length m div 64)) \<and> sh_state c = absorb block iv m
     \<and> take (length m mod 64) (sh_data c) = rest m \<and> sha_ctx.more c = extra"

lemma length_absorb: "length h = length iv \<Longrightarrow> length (absorb block h m) = length iv"
proof (induction m arbitrary: h rule: length_induct)
  case (1 m)
  then show ?case by (cases "length m < 64") (simp_all add: absorb.simps [of block h m] block)
qed

lemma unat_datalen: "stands_for c m \<Longrightarrow> unat (sh_datalen c) = length m mod 64"
  using mod_less_divisor [of 64 "length m"] by (simp add: stands_for_def unat_of_nat del: mod_less_divisor)

lemma byte:
  assumes "stands_for c m"
  shows "\<exists>c'. sha_byte transform b c = Some c' \<and> stands_for c' (m @ [b])"
proof -
  let ?r = "length m mod 64"
  let ?d = "(sh_data c)[?r := b]"
  note c = assms [unfolded stands_for_def] and dl = unat_datalen [OF assms]
  have r: "?r < 64" by simp
  have d: "take (Suc ?r) ?d = rest m @ [b]" "length ?d = 64"
    using c r by (simp_all add: take_Suc_conv_app_nth)
  have inc: "sh_datalen c + 1 = word_of_nat (Suc ?r)" using c by simp
  have full: "sh_datalen c + 1 = 64 \<longleftrightarrow> Suc ?r = 64"
    unfolding inc using r by (auto simp: unat_of_nat word_unat_eq_iff simp del: mod_less_divisor of_nat_Suc)
  have wr: "wr8 (sh_data c) (unat (sh_datalen c)) b = Some ?d"
    unfolding dl using c r by (simp add: wr8_in)
  show ?thesis
  proof (cases "Suc ?r = 64")
    case True
    have len: "length (rest m @ [b]) = 64" using True by simp
    have whole: "(sh_data c)[63 := b] = rest m @ [b]" using d True by simp
    have suc: "Suc (length m) mod 64 = 0" "Suc (length m) div 64 = Suc (length m div 64)"
      using True by (simp_all add: mod_Suc div_Suc)
    have "transform (c\<lparr>sh_data := ?d, sh_datalen := sh_datalen c + 1\<rparr>) ?d
        = Some (c\<lparr>sh_data := ?d, sh_datalen := sh_datalen c + 1, sh_state := absorb block iv (m @ [b])\<rparr>)"
      using c d length_absorb [of iv m] True by (subst transform) (simp_all add: whole block_complete(1) [OF len])
    moreover have "stands_for (c\<lparr>sh_data := ?d, sh_state := absorb block iv (m @ [b]),
        sh_bitlen := sh_bitlen c + 512, sh_datalen := 0\<rparr>) (m @ [b])"
      using c d by (simp add: stands_for_def suc block_complete(2) [OF len])
    ultimately show ?thesis using wr full True by (simp add: sha_byte_def Let_def)
  next
    case False
    have len: "length (rest m @ [b]) < 64" using False r by simp
    have suc: "Suc (length m) mod 64 = Suc ?r" "Suc (length m) div 64 = length m div 64"
      using False by (simp_all add: mod_Suc div_Suc)
    have "stands_for (c\<lparr>sh_data := ?d, sh_datalen := sh_datalen c + 1\<rparr>) (m @ [b])"
      unfolding inc using c d by (simp add: stands_for_def suc block_incomplete [OF len])
    then show ?thesis using wr full False by (simp add: sha_byte_def Let_def)
  qed
qed


text \<open>The padding completes one block, or fills one and makes another.\<close>

lemma zeros:
  assumes "i < n" "n \<le> length d" "length d = 64"
  shows "for_each (\<lambda>i d. wr8 d i (0 :: u8)) [i..<n] d = Some (take i d @ replicate (n - i) 0 @ drop n d)"
  using assms
proof (induction n)
  case (Suc n)
  show ?case
  proof (cases "i = n")
    case True
    then show ?thesis using Suc.prems by (simp add: wr8_in upd_conv_take_nth_drop)
  next
    case False
    let ?d = "take i d @ replicate (n - i) 0 @ drop n d"
    have "wr8 ?d n 0 = Some (take i d @ replicate (Suc n - i) 0 @ drop (Suc n) d)"
      using Suc.prems False
      by (simp add: wr8_in list_update_append Suc_diff_le Cons_nth_drop_Suc [symmetric] replicate_append_same)
    then show ?thesis using Suc False by (simp add: for_each_append)
  qed
qed simp

lemma length_be64 [simp]: "length (be64 w) = 8"
  by (simp add: be64_def)

lemma bit_count:
  assumes "length d = 64"
  shows "for_each (\<lambda>i d. wr8 d (63 - i) (ucast (drop_bit (8 * i) bits))) [0..<8] d = Some (take 56 d @ be64 bits)"
proof -
  let ?f = "\<lambda>i d. wr8 d (63 - i) (ucast (drop_bit (8 * i) bits))"
  let ?P = "\<lambda>n d'. length d' = 64 \<and> (\<forall>j<64. d' ! j = (if 64 \<le> j + n then ucast (drop_bit (8 * (63 - j)) bits) else d ! j))"
  have "\<exists>d'. for_each ?f [0..<8] d = Some d' \<and> ?P 8 d'"
    by (rule for_each_count) (use assms in \<open>auto simp: wr8_in nth_list_update\<close>)
  then obtain d' where d': "for_each ?f [0..<8] d = Some d'" "?P 8 d'" by blast
  have "8 * (63 - j) = 56 - 8 * (j - 56)" if "\<not> j < 56" "j < 64" for j :: nat
    using that by arith
  then have "d' = take 56 d @ be64 bits"
    using d'(2) assms by (intro nth_equalityI) (auto simp: be64_def nth_append)
  with d'(1) show ?thesis by simp
qed


lemma bits_total:
  assumes "stands_for c m"
  shows "sh_bitlen c + ucast (sh_datalen c * 8) = word_of_nat (8 * length m)"
proof -
  let ?r = "length m mod 64"
  have "?r < 64" by simp
  then have less: "8 * ?r < 2 ^ 32" by simp
  have "sh_datalen c * 8 = word_of_nat (8 * ?r)" using assms by (simp add: stands_for_def)
  then have "ucast (sh_datalen c * 8) = (word_of_nat (8 * ?r) :: u64)"
    using less by (simp only: ucast_of_nat)
  moreover have "sh_bitlen c = word_of_nat (512 * (length m div 64))" using assms by (simp add: stands_for_def)
  moreover have "8 * length m = 512 * (length m div 64) + 8 * ?r"
    using mult_div_mod_eq [of 64 "length m"] by linarith
  ultimately show ?thesis by (simp only: of_nat_add)
qed

lemma finish:
  assumes "stands_for c m"
  shows "\<exists>c'. sha_finish transform c = Some c' \<and> sh_state c' = absorb block iv (padded be64 m)"
proof -
  let ?r = "length m mod 64"
  let ?bits = "be64 (word_of_nat (8 * length m))"
  note c = assms [unfolded stands_for_def] and dl = unat_datalen [OF assms] and bits = bits_total [OF assms]
  have r: "?r < 64" by simp
  define d where "d = (sh_data c)[?r := 0x80]"
  have wr: "wr8 (sh_data c) (unat (sh_datalen c)) 0x80 = Some d"
    unfolding dl d_def using c r by (simp add: wr8_in)
  have d: "length d = 64" "take (?r + 1) d = rest m @ [0x80]"
    unfolding d_def using c r by (simp_all add: take_Suc_conv_app_nth)
  have less: "sh_datalen c < 56 \<longleftrightarrow> ?r < 56" using dl by (simp add: word_less_nat_alt)
  have st: "length (absorb block iv m') = length iv" for m' by (rule length_absorb) simp
  show ?thesis
  proof (cases "?r < 56")
    case True
    let ?blk = "rest m @ padding be64 m"
    have pad: "padding be64 m = 0x80 # replicate (55 - ?r) 0 @ ?bits"
      using True by (simp add: padding_def le_mod_geq)
    have len: "length ?blk = 64" using True by (simp add: pad)
    have z: "for_each (\<lambda>i d. wr8 d i 0) [?r + 1..<56] d
        = Some (rest m @ [0x80] @ replicate (55 - ?r) 0 @ drop 56 d)"
      using True d by (cases "?r = 55") (simp_all add: zeros, metis append.assoc append_Cons append_Nil append_take_drop_id)
    have b: "for_each (\<lambda>i d. wr8 d (63 - i) (ucast (drop_bit (8 * i) (word_of_nat (8 * length m) :: u64)))) [0..<8]
        (rest m @ [0x80] @ replicate (55 - ?r) 0 @ drop 56 d) = Some ?blk"
      using True d by (subst bit_count) (simp_all add: pad take_Cons')
    show ?thesis
      using c st True wr z b less bits dl transform [OF len] block_complete(1) [OF len, of block iv]
      by (simp add: sha_finish_def Let_def padded_def)
  next
    case False
    let ?blk = "rest m @ 0x80 # replicate (63 - ?r) 0"
    let ?last = "replicate 56 0 @ ?bits"
    have pad: "padding be64 m = (0x80 # replicate (63 - ?r) 0) @ ?last"
      using False by (simp add: padding_def replicate_add [symmetric])
    have len: "length ?blk = 64" "length ?last = 64" using False r by simp_all
    have z: "for_each (\<lambda>i d. wr8 d i 0) [?r + 1..<64] d = Some ?blk"
      using False r d by (cases "?r = 63") (simp_all add: zeros)
    have b: "for_each (\<lambda>i d. wr8 d (63 - i) (ucast (drop_bit (8 * i) (word_of_nat (8 * length m) :: u64)))) [0..<8]
        (replicate 56 0 @ drop 56 ?blk) = Some ?last"
      using len by (subst bit_count) simp_all
    have w: "wr_bytes ?blk 0 (replicate 56 0) = Some (replicate 56 0 @ drop 56 ?blk)"
      using len by (simp add: wr_bytes_in)
    have "absorb block iv (padded be64 m) = block (absorb block iv (m @ 0x80 # replicate (63 - ?r) 0)) ?last"
      using blocks_rest(1) [of block iv "m @ 0x80 # replicate (63 - ?r) 0" ?last] len(2)
      by (simp add: padded_def pad block_complete(2) [OF len(1)])
    then show ?thesis
      using c st False wr z b w less bits dl transform [OF len(1)] transform [OF len(2)] block_complete(1) [OF len(1), of block iv]
      by (simp add: sha_finish_def Let_def block)
  qed
qed


end

section \<open>The output\<close>

lemma column_written:
  assumes "i < 4" "4 * n \<le> length out"
  shows "\<exists>out'. for_each (\<lambda>k out. wr8 out (i + 4 * k) (v k)) [0..<n] out = Some out' \<and> length out' = length out
    \<and> (\<forall>j<length out. out' ! j = (if j < 4 * n \<and> j mod 4 = i then v (j div 4) else out ! j))"
proof -
  let ?P = "\<lambda>q out'. length out' = length out
    \<and> (\<forall>j<length out. out' ! j = (if j < 4 * q \<and> j mod 4 = i then v (j div 4) else out ! j))"
  have "\<exists>out'. for_each (\<lambda>k out. wr8 out (i + 4 * k) (v k)) [0..<n] out = Some out' \<and> ?P n out'"
  proof (rule for_each_count)
    fix q out'
    assume q: "q < n" and P: "?P q out'"
    have in_range: "i + 4 * q < length out" using q assms by simp
    have "?P (Suc q) (out'[i + 4 * q := v q])"
    proof (intro conjI allI impI)
      fix j assume "j < length out"
      moreover have "j = i + 4 * q" if "j < 4 * Suc q" "j mod 4 = i" "\<not> j < 4 * q"
        using that assms(1) by presburger
      moreover have "(i + 4 * q) mod 4 = i" "(i + 4 * q) div 4 = q" using assms(1) by auto
      ultimately show "out'[i + 4 * q := v q] ! j = (if j < 4 * Suc q \<and> j mod 4 = i then v (j div 4) else out ! j)"
        using P in_range assms(1) by (auto simp: nth_list_update)
    qed (use P in simp)
    with P in_range show "\<exists>s'. wr8 out' (i + 4 * q) (v q) = Some s' \<and> ?P (Suc q) s'" by (simp add: wr8_in)
  qed simp
  then show ?thesis by blast
qed

lemma concat_quads:
  "concat (map (\<lambda>k. map (g k) [0..<4]) [0..<n]) = map (\<lambda>j. g (j div 4) (j mod 4)) [0..<4 * n]"
proof (induction n)
  case (Suc n)
  have "[0..<4 * Suc n] = [0..<4 * n] @ map (\<lambda>i. 4 * n + i) [0..<4]"
    using upt_split [of 0 "4 * n" "4 * n + 4"] map_add_upt [of "4 * n" 4] by (simp add: add.commute)
  with Suc show ?case by (simp add: comp_def)
qed simp

lemma sha_output_eq:
  assumes st: "length st = n" and room: "4 * n \<le> length out"
  shows "sha_output n st out = Some (splice out 0 (concat (map be_bytes st)))"
proof -
  let ?g = "\<lambda>k i. ucast (drop_bit (24 - 8 * i) (st ! k)) :: u8"
  let ?P = "\<lambda>i out'. length out' = length out
    \<and> (\<forall>j<length out. out' ! j = (if j < 4 * n \<and> j mod 4 < i then ?g (j div 4) (j mod 4) else out ! j))"
  let ?f = "\<lambda>i. for_each (\<lambda>k out. do { w \<leftarrow> rd8 st k; wr8 out (i + 4 * k) (ucast (drop_bit (24 - i * 8) w AND 0xff)) }) [0..<n]"
  have ff: "(0xff :: u32) = mask 8" by (simp add: mask_eq_exp_minus_1)
  have and_ff: "ucast (w AND 0xff) = (ucast w :: u8)" for w :: u32
    by (rule bit_word_eqI) (auto simp: ff bit_simps)
  have "\<exists>out'. for_each ?f [0..<4] out = Some out' \<and> ?P 4 out'"
  proof (rule for_each_count [of ?P out 4 ?f])
    fix i out'
    assume i: "i < 4" and P: "?P i out'"
    have "?f i out' = for_each (\<lambda>k out. wr8 out (i + 4 * k) (?g k i)) [0..<n] out'"
      by (rule for_each_cong) (use st in \<open>simp add: rd8_in and_ff mult.commute\<close>)
    moreover obtain out'' where o: "for_each (\<lambda>k out. wr8 out (i + 4 * k) (?g k i)) [0..<n] out' = Some out''"
      "length out'' = length out'"
      "\<forall>j<length out'. out'' ! j = (if j < 4 * n \<and> j mod 4 = i then ?g (j div 4) i else out' ! j)"
      using column_written [OF i, of n out' "\<lambda>k. ?g k i"] P room by auto
    moreover have "?P (Suc i) out''" using o P by (auto simp: less_Suc_eq)
    ultimately show "\<exists>s'. ?f i out' = Some s' \<and> ?P (Suc i) s'" by simp
  qed simp
  then obtain out' where o: "for_each ?f [0..<4] out = Some out'" "?P 4 out'" by blast
  have "concat (map be_bytes st) = concat (map (\<lambda>k. map (?g k) [0..<4]) [0..<n])"
    by (rule arg_cong [of _ _ concat]) (use st in \<open>auto simp: be_bytes_def list_eq_iff_nth_eq\<close>)
  then have digest: "concat (map be_bytes st) = map (\<lambda>j. ?g (j div 4) (j mod 4)) [0..<4 * n]"
    by (simp only: concat_quads)
  have "out' = splice out 0 (concat (map be_bytes st))"
    unfolding digest using o(2) room by (intro nth_equalityI) (auto simp: nth_splice)
  with o(1) show ?thesis by (simp add: sha_output_def)
qed

section \<open>The two functions\<close>

lemma length_fips_blocks [simp]:
  "length (fips_sha1_block h blk) = 5" "length (fips_sha256_block h blk) = 8"
  by (simp_all add: fips_sha1_block_def fips_sha256_block_def split: prod.split)

interpretation sha1: sha_function sha1_transform fips_sha1_block fips_sha1_iv
  "sha1_ctx.fields [0x5a827999, 0x6ed9eba1, 0x8f1bbcdc, 0xca62c1d6]"
proof
  fix blk :: bytes and c :: sha1_ctx
  assume "length blk = 64" "length (sh_state c) = length fips_sha1_iv"
    "sha_ctx.more c = sha1_ctx.fields [0x5a827999, 0x6ed9eba1, 0x8f1bbcdc, 0xca62c1d6]"
  then show "sha1_transform c blk = Some (c\<lparr>sh_state := fips_sha1_block (sh_state c) blk\<rparr>)"
    by (cases c) (intro sha1_transform_eq, auto simp: fips_sha1_iv_def sha1_ctx.defs)
qed (simp add: fips_sha1_iv_def)

interpretation sha256: sha_function sha256_transform fips_sha256_block fips_sha256_iv "()"
  by unfold_locales (simp_all add: fips_sha256_iv_def sha256_transform_eq)

lemma sha1_final_eq:
  assumes "sha1.stands_for c m" "20 \<le> length hash"
  shows "\<exists>c'. sha1_final c hash = Some (c', splice hash 0 (fips_sha1 m))"
proof -
  obtain c' where c': "sha_finish sha1_transform c = Some c'"
    "sh_state c' = absorb fips_sha1_block fips_sha1_iv (padded be64 m)"
    using sha1.finish [OF assms(1)] by blast
  have "length (sh_state c') = 5"
    unfolding c' using sha1.length_absorb [of fips_sha1_iv] by (simp add: fips_sha1_iv_def)
  then show ?thesis
    using assms(2) c' by (simp add: sha1_final_def sha_output_eq fips_sha1_def)
qed

lemma sha256_final_eq:
  assumes "sha256.stands_for c m" "32 \<le> length hash"
  shows "\<exists>c'. sha256_final c hash = Some (c', splice hash 0 (fips_sha256 m))"
proof -
  obtain c' where c': "sha_finish sha256_transform c = Some c'"
    "sh_state c' = absorb fips_sha256_block fips_sha256_iv (padded be64 m)"
    using sha256.finish [OF assms(1)] by blast
  have "length (sh_state c') = 8"
    unfolding c' using sha256.length_absorb [of fips_sha256_iv] by (simp add: fips_sha256_iv_def)
  then show ?thesis
    using assms(2) c' by (simp add: sha256_final_def sha_output_eq fips_sha256_def)
qed

interpretation sha1_pieces: byte_hash sha1.stands_for "sha_byte sha1_transform" sha1_final 20 fips_sha1
  by unfold_locales (auto intro: sha1.byte sha1_final_eq)

interpretation sha256_pieces: byte_hash sha256.stands_for "sha_byte sha256_transform" sha256_final 32 fips_sha256
  by unfold_locales (auto intro: sha256.byte sha256_final_eq)

lemma sha_inits:
  "length data = 64 \<Longrightarrow> sha1.stands_for (sha1_init data) []"
  "length data = 64 \<Longrightarrow> sha256.stands_for (sha256_init data) []"
  unfolding sha1.stands_for_def sha256.stands_for_def
  by (simp_all add: sha1_init_def sha256_init_def fips_sha1_iv_def fips_sha256_iv_def sha1_ctx.defs)

lemma sha_updates:
  "(\<lambda>xs ctx. sha1_update ctx xs) = for_each (sha_byte sha1_transform)"
  "(\<lambda>xs ctx. sha256_update ctx xs) = for_each (sha_byte sha256_transform)"
  by (intro ext, simp add: sha1_update_def sha256_update_def)+

lemma length_be_words [simp]: "length (concat (map be_bytes ws)) = 4 * length ws"
  by (induction ws) (simp_all add: be_bytes_def)

lemma length_fips [simp]: "length (fips_sha1 m) = 20" "length (fips_sha256 m) = 32"
  using sha1.length_absorb [of fips_sha1_iv] sha256.length_absorb [of fips_sha256_iv]
  by (simp_all add: fips_sha1_def fips_sha256_def fips_sha1_iv_def fips_sha256_iv_def)

lemma sha_digest:
  assumes "length data = 64" "20 \<le> length hash"
  shows "\<exists>ctx ctx'. sha1_update (sha1_init data) str = Some ctx
    \<and> sha1_final ctx hash = Some (ctx', splice hash 0 (fips_sha1 str))"
  using sha1_pieces.steps [OF sha_inits(1) [OF assms(1)], of str] sha1_final_eq [OF _ assms(2)]
  by (auto simp: sha1_update_def)

lemma sha256_digest:
  assumes "length data = 64" "32 \<le> length hash"
  shows "\<exists>ctx ctx'. sha256_update (sha256_init data) str = Some ctx
    \<and> sha256_final ctx hash = Some (ctx', splice hash 0 (fips_sha256 str))"
  using sha256_pieces.steps [OF sha_inits(2) [OF assms(1)], of str] sha256_final_eq [OF _ assms(2)]
  by (auto simp: sha256_update_def)

section \<open>Properties\<close>

text \<open>
  SHA-1, message in pieces. Whatever the pieces in which \<open>sha1_update\<close> gets a message, and whatever
  the buffer of the context held before \<open>sha1_init\<close>, \<open>sha1_final\<close> writes the SHA-1 digest of the whole
  message as FIPS 180-4 defines it to the first 20 bytes of the array and leaves the rest alone.
\<close>

theorem sha1_stream:
  assumes "length data = 64" "list_all (\<lambda>piece. length piece < 2 ^ 32) pieces" "20 \<le> length hash"
  shows "\<exists>ctx. do {
      ctx \<leftarrow> for_each (\<lambda>piece ctx. sha1_update ctx piece) pieces (sha1_init data);
      sha1_final ctx hash } = Some (ctx, splice hash 0 (fips_sha1 (concat pieces)))"
  unfolding sha_updates by (rule sha1_pieces.stream [OF sha_inits(1) [OF assms(1)] assms(2,3)])

theorem sha1_stream_witness:
  "\<exists>ctx. do {
      ctx \<leftarrow> for_each (\<lambda>piece ctx. sha1_update ctx piece) [[97, 98], [], replicate 100 99] (sha1_init (replicate 64 7));
      sha1_final ctx (replicate 21 1) }
    = Some (ctx, splice (replicate 21 1) 0 (fips_sha1 (concat [[97, 98], [], replicate 100 99])))"
  by (rule sha1_stream) simp_all

text \<open>
  C27. SHA-256, message in pieces. \<open>sha256_init\<close>, any sequence of \<open>sha256_update\<close> and \<open>sha256_final\<close>
  compute the SHA-256 digest of the whole message as FIPS 180-4 defines it; the table \<open>k\<close> and the
  initial state are the fractional parts the standard names: cube roots of the first 64 primes and
  square roots of the first eight.
\<close>

theorem sha256_stream:
  assumes "length data = 64" "list_all (\<lambda>piece. length piece < 2 ^ 32) pieces" "32 \<le> length hash"
  shows "(\<exists>ctx. do {
        ctx \<leftarrow> for_each (\<lambda>piece ctx. sha256_update ctx piece) pieces (sha256_init data);
        sha256_final ctx hash } = Some (ctx, splice hash 0 (fips_sha256 (concat pieces))))
    \<and> list_all2 (root_fraction 3) first_primes sha256_k
    \<and> list_all2 (root_fraction 2) (take 8 first_primes) (sh_state (sha256_init data))"
  using sha256_pieces.stream [OF sha_inits(2) [OF assms(1)] assms(2,3)] sha256_constants
  by (simp only: sha_updates) (simp add: sha256_init_def fips_sha256_iv_def)

theorem sha256_stream_witness:
  "(\<exists>ctx. do {
        ctx \<leftarrow> for_each (\<lambda>piece ctx. sha256_update ctx piece) [[97], replicate 64 98, [99]] (sha256_init (replicate 64 7));
        sha256_final ctx (replicate 32 1) }
      = Some (ctx, splice (replicate 32 1) 0 (fips_sha256 (concat [[97], replicate 64 98, [99]]))))
    \<and> list_all2 (root_fraction 3) first_primes sha256_k
    \<and> list_all2 (root_fraction 2) (take 8 first_primes) (sh_state (sha256_init (replicate 64 7)))"
  by (rule sha256_stream) simp_all

text \<open>
  The string functions of sha.c. Given 81 bytes to write to, both run without leaving their
  arrays and put a terminating zero at position 40. For SHA-1 the string is the digest in
  hexadecimal; for SHA-256, whose digest has 64 digits, it is cut after the first 40.
\<close>

theorem sha_strings:
  assumes "length data = 64" "length junk = 40" "length str < 2 ^ 32" "81 \<le> length out"
  shows "(\<exists>out'. sha1_string data junk (Some str) (Some out) = Some (Some out')
        \<and> take 41 out' = concat (map hex2 (fips_sha1 str)) @ [0])
    \<and> (\<exists>out'. sha256_string data junk (Some str) (Some out) = Some (Some out')
        \<and> take 41 out' = concat (map hex2 (take 20 (fips_sha256 str))) @ [0])"
proof -
  have digits: "\<exists>out'. for_each (\<lambda>i out. do { h \<leftarrow> rd8 hash i; snprintf_02x out (i * 2) (2 + 1) h }) [0..<40] out = Some out'
      \<and> length out' = length out \<and> take 41 (out'[40 := 0]) = concat (map hex2 (take 20 hash)) @ [0]"
    if "length hash = 40" for hash
  proof -
    obtain out' where o: "for_each (\<lambda>i out. do { h \<leftarrow> rd8 hash i; snprintf_02x out (i * 2) (2 + 1) h }) [0..<40] out = Some out'"
        "length out' = length out" "take (2 * 40) out' = concat (map hex2 (take 40 hash))"
      using hex_written [of 40 out hash] assms(4) \<open>length hash = 40\<close> by auto
    have "take 40 out' = take (2 * 20) (take (2 * 40) out')" by simp
    also have "\<dots> = concat (map hex2 (take 20 hash))" unfolding o(3) take_concat_hex2 by simp
    finally show ?thesis using o assms(4) by (simp add: take_update_cancel take_Suc_conv_app_nth [of 40, simplified])
  qed
  have d1: "length (splice junk 0 (fips_sha1 str)) = 40" "take 20 (splice junk 0 (fips_sha1 str)) = fips_sha1 str"
    and d256: "length (splice junk 0 (fips_sha256 str)) = 40"
      "take 20 (splice junk 0 (fips_sha256 str)) = take 20 (fips_sha256 str)"
    using assms(2) by (simp_all add: splice_def)
  show ?thesis
    using sha_digest [OF assms(1), of junk str] sha256_digest [OF assms(1), of junk str] assms(2,4)
      digits [OF d1(1)] digits [OF d256(1)]
    by (auto simp: sha1_string_def sha256_string_def wr8_in d1(2) d256(2))
qed

theorem sha_strings_witness:
  "(\<exists>out'. sha1_string (replicate 64 1) (replicate 40 2) (Some [97, 98, 99]) (Some (replicate 81 3)) = Some (Some out')
        \<and> take 41 out' = concat (map hex2 (fips_sha1 [97, 98, 99])) @ [0])
    \<and> (\<exists>out'. sha256_string (replicate 64 1) (replicate 40 2) (Some [97, 98, 99]) (Some (replicate 81 3)) = Some (Some out')
        \<and> take 41 out' = concat (map hex2 (take 20 (fips_sha256 [97, 98, 99]))) @ [0])"
  by (rule sha_strings) simp_all

end
