(* ===== verification/Aes.thy ===== *)
theory Aes
  imports Prelude
begin

text \<open>
  The block cipher of \<open>fun_other/aes.c\<close>: the field arithmetic, the four transformations of the state
  and their inverses, the key expansion, and the cipher in both directions.

  The state is an array of 16 bytes, row by row; every access is checked. \<open>Nb\<close> is 4 and never
  assigned. The globals \<open>Nk\<close>, \<open>Nr\<close> and the round constant \<open>R\<close> are the record \<open>aes_globals\<close>. Loop
  indices of type \<open>uint8_t\<close> stay far below 256 and are natural numbers. An array that a function
  gets uninitialised is filled with zeros; every element is written before it is read.
\<close>

section \<open>Arithmetic in GF(2^8)\<close>

definition gadd :: "u8 \<Rightarrow> u8 \<Rightarrow> u8" where
  "gadd a b = a XOR b"

definition gsub :: "u8 \<Rightarrow> u8 \<Rightarrow> u8" where
  "gsub a b = a XOR b"

text \<open>One turn of the loop of \<open>gmult\<close> shifts \<open>a\<close> with reduction by 0x11b.\<close>

definition gshift :: "u8 \<Rightarrow> u8" where
  "gshift a = (let hbs = a AND 0x80; a' = push_bit 1 a in if hbs \<noteq> 0 then a' XOR 0x1b else a')"

primrec gmult_loop :: "nat \<Rightarrow> u8 \<Rightarrow> u8 \<Rightarrow> u8 \<Rightarrow> u8" where
  "gmult_loop 0 a b p = p"
| "gmult_loop (Suc n) a b p =
     gmult_loop n (gshift a) (drop_bit 1 b) (if b AND 1 \<noteq> 0 then p XOR a else p)"

definition gmult :: "u8 \<Rightarrow> u8 \<Rightarrow> u8" where
  "gmult a b = gmult_loop 8 a b 0"

text \<open>
  Words of four bytes. In a call with \<open>d\<close> the same array as \<open>a\<close> each byte is read before it is
  written, so that passing the old array as \<open>a\<close> and \<open>d\<close> is the same.
\<close>

definition coef_add :: "bytes \<Rightarrow> bytes \<Rightarrow> bytes \<Rightarrow> bytes option" where
  "coef_add a b d = for_each (\<lambda>i d. do {
     x \<leftarrow> rd8 a i; y \<leftarrow> rd8 b i; wr8 d i (x XOR y) }) [0, 1, 2, 3] d"

definition coef_mult :: "bytes \<Rightarrow> bytes \<Rightarrow> bytes \<Rightarrow> bytes option" where
  "coef_mult a b d = do {
     a0 \<leftarrow> rd8 a 0; a1 \<leftarrow> rd8 a 1; a2 \<leftarrow> rd8 a 2; a3 \<leftarrow> rd8 a 3;
     b0 \<leftarrow> rd8 b 0; b1 \<leftarrow> rd8 b 1; b2 \<leftarrow> rd8 b 2; b3 \<leftarrow> rd8 b 3;
     d \<leftarrow> wr8 d 0 (gmult a0 b0 XOR gmult a3 b1 XOR gmult a2 b2 XOR gmult a1 b3);
     d \<leftarrow> wr8 d 1 (gmult a1 b0 XOR gmult a0 b1 XOR gmult a3 b2 XOR gmult a2 b3);
     d \<leftarrow> wr8 d 2 (gmult a2 b0 XOR gmult a1 b1 XOR gmult a0 b2 XOR gmult a3 b3);
     wr8 d 3 (gmult a3 b0 XOR gmult a2 b1 XOR gmult a1 b2 XOR gmult a0 b3) }"

section \<open>Tables and globals\<close>

definition Nb :: nat where "Nb = 4"

definition s_box :: "u8 list" where
  "s_box = [
    0x63, 0x7c, 0x77, 0x7b, 0xf2, 0x6b, 0x6f, 0xc5, 0x30, 0x01, 0x67, 0x2b, 0xfe, 0xd7, 0xab, 0x76,
    0xca, 0x82, 0xc9, 0x7d, 0xfa, 0x59, 0x47, 0xf0, 0xad, 0xd4, 0xa2, 0xaf, 0x9c, 0xa4, 0x72, 0xc0,
    0xb7, 0xfd, 0x93, 0x26, 0x36, 0x3f, 0xf7, 0xcc, 0x34, 0xa5, 0xe5, 0xf1, 0x71, 0xd8, 0x31, 0x15,
    0x04, 0xc7, 0x23, 0xc3, 0x18, 0x96, 0x05, 0x9a, 0x07, 0x12, 0x80, 0xe2, 0xeb, 0x27, 0xb2, 0x75,
    0x09, 0x83, 0x2c, 0x1a, 0x1b, 0x6e, 0x5a, 0xa0, 0x52, 0x3b, 0xd6, 0xb3, 0x29, 0xe3, 0x2f, 0x84,
    0x53, 0xd1, 0x00, 0xed, 0x20, 0xfc, 0xb1, 0x5b, 0x6a, 0xcb, 0xbe, 0x39, 0x4a, 0x4c, 0x58, 0xcf,
    0xd0, 0xef, 0xaa, 0xfb, 0x43, 0x4d, 0x33, 0x85, 0x45, 0xf9, 0x02, 0x7f, 0x50, 0x3c, 0x9f, 0xa8,
    0x51, 0xa3, 0x40, 0x8f, 0x92, 0x9d, 0x38, 0xf5, 0xbc, 0xb6, 0xda, 0x21, 0x10, 0xff, 0xf3, 0xd2,
    0xcd, 0x0c, 0x13, 0xec, 0x5f, 0x97, 0x44, 0x17, 0xc4, 0xa7, 0x7e, 0x3d, 0x64, 0x5d, 0x19, 0x73,
    0x60, 0x81, 0x4f, 0xdc, 0x22, 0x2a, 0x90, 0x88, 0x46, 0xee, 0xb8, 0x14, 0xde, 0x5e, 0x0b, 0xdb,
    0xe0, 0x32, 0x3a, 0x0a, 0x49, 0x06, 0x24, 0x5c, 0xc2, 0xd3, 0xac, 0x62, 0x91, 0x95, 0xe4, 0x79,
    0xe7, 0xc8, 0x37, 0x6d, 0x8d, 0xd5, 0x4e, 0xa9, 0x6c, 0x56, 0xf4, 0xea, 0x65, 0x7a, 0xae, 0x08,
    0xba, 0x78, 0x25, 0x2e, 0x1c, 0xa6, 0xb4, 0xc6, 0xe8, 0xdd, 0x74, 0x1f, 0x4b, 0xbd, 0x8b, 0x8a,
    0x70, 0x3e, 0xb5, 0x66, 0x48, 0x03, 0xf6, 0x0e, 0x61, 0x35, 0x57, 0xb9, 0x86, 0xc1, 0x1d, 0x9e,
    0xe1, 0xf8, 0x98, 0x11, 0x69, 0xd9, 0x8e, 0x94, 0x9b, 0x1e, 0x87, 0xe9, 0xce, 0x55, 0x28, 0xdf,
    0x8c, 0xa1, 0x89, 0x0d, 0xbf, 0xe6, 0x42, 0x68, 0x41, 0x99, 0x2d, 0x0f, 0xb0, 0x54, 0xbb, 0x16]"

definition inv_s_box :: "u8 list" where
  "inv_s_box = [
    0x52, 0x09, 0x6a, 0xd5, 0x30, 0x36, 0xa5, 0x38, 0xbf, 0x40, 0xa3, 0x9e, 0x81, 0xf3, 0xd7, 0xfb,
    0x7c, 0xe3, 0x39, 0x82, 0x9b, 0x2f, 0xff, 0x87, 0x34, 0x8e, 0x43, 0x44, 0xc4, 0xde, 0xe9, 0xcb,
    0x54, 0x7b, 0x94, 0x32, 0xa6, 0xc2, 0x23, 0x3d, 0xee, 0x4c, 0x95, 0x0b, 0x42, 0xfa, 0xc3, 0x4e,
    0x08, 0x2e, 0xa1, 0x66, 0x28, 0xd9, 0x24, 0xb2, 0x76, 0x5b, 0xa2, 0x49, 0x6d, 0x8b, 0xd1, 0x25,
    0x72, 0xf8, 0xf6, 0x64, 0x86, 0x68, 0x98, 0x16, 0xd4, 0xa4, 0x5c, 0xcc, 0x5d, 0x65, 0xb6, 0x92,
    0x6c, 0x70, 0x48, 0x50, 0xfd, 0xed, 0xb9, 0xda, 0x5e, 0x15, 0x46, 0x57, 0xa7, 0x8d, 0x9d, 0x84,
    0x90, 0xd8, 0xab, 0x00, 0x8c, 0xbc, 0xd3, 0x0a, 0xf7, 0xe4, 0x58, 0x05, 0xb8, 0xb3, 0x45, 0x06,
    0xd0, 0x2c, 0x1e, 0x8f, 0xca, 0x3f, 0x0f, 0x02, 0xc1, 0xaf, 0xbd, 0x03, 0x01, 0x13, 0x8a, 0x6b,
    0x3a, 0x91, 0x11, 0x41, 0x4f, 0x67, 0xdc, 0xea, 0x97, 0xf2, 0xcf, 0xce, 0xf0, 0xb4, 0xe6, 0x73,
    0x96, 0xac, 0x74, 0x22, 0xe7, 0xad, 0x35, 0x85, 0xe2, 0xf9, 0x37, 0xe8, 0x1c, 0x75, 0xdf, 0x6e,
    0x47, 0xf1, 0x1a, 0x71, 0x1d, 0x29, 0xc5, 0x89, 0x6f, 0xb7, 0x62, 0x0e, 0xaa, 0x18, 0xbe, 0x1b,
    0xfc, 0x56, 0x3e, 0x4b, 0xc6, 0xd2, 0x79, 0x20, 0x9a, 0xdb, 0xc0, 0xfe, 0x78, 0xcd, 0x5a, 0xf4,
    0x1f, 0xdd, 0xa8, 0x33, 0x88, 0x07, 0xc7, 0x31, 0xb1, 0x12, 0x10, 0x59, 0x27, 0x80, 0xec, 0x5f,
    0x60, 0x51, 0x7f, 0xa9, 0x19, 0xb5, 0x4a, 0x0d, 0x2d, 0xe5, 0x7a, 0x9f, 0x93, 0xc9, 0x9c, 0xef,
    0xa0, 0xe0, 0x3b, 0x4d, 0xae, 0x2a, 0xf5, 0xb0, 0xc8, 0xeb, 0xbb, 0x3c, 0x83, 0x53, 0x99, 0x61,
    0x17, 0x2b, 0x04, 0x7e, 0xba, 0x77, 0xd6, 0x26, 0xe1, 0x69, 0x14, 0x63, 0x55, 0x21, 0x0c, 0x7d]"

record aes_globals =
  Nk :: nat
  Nr :: nat
  R :: bytes

definition aes_globals0 :: aes_globals where
  "aes_globals0 = \<lparr>Nk = 0, Nr = 0, R = [0x02, 0, 0, 0]\<rparr>"

text \<open>\<open>while (i - 1 > 0)\<close>, entered with \<open>i \<ge> 1\<close>.\<close>

fun rcon_loop :: "nat \<Rightarrow> u8 \<Rightarrow> u8" where
  "rcon_loop i r = (if i > 1 then rcon_loop (i - 1) (gmult r 0x02) else r)"

declare rcon_loop.simps [simp del]

definition Rcon :: "nat \<Rightarrow> bytes \<Rightarrow> bytes option" where
  "Rcon i r = (if i = 1 then wr8 r 0 0x01
     else if i > 1 then wr8 r 0 (rcon_loop (i - 1) 0x02) else Some r)"

section \<open>The transformations\<close>

definition add_round_key :: "bytes \<Rightarrow> nat \<Rightarrow> bytes \<Rightarrow> bytes option" where
  "add_round_key w r state = for_each (\<lambda>c. for_each (\<lambda>i state. do {
       s \<leftarrow> rd8 state (Nb * i + c);
       k \<leftarrow> rd8 w (4 * Nb * r + 4 * c + i);
       wr8 state (Nb * i + c) (s XOR k) }) [0, 1, 2, 3]) [0..<Nb] state"

text \<open>\<open>mix_columns\<close> and \<open>inv_mix_columns\<close> differ in the coefficients only.\<close>

definition mix_with :: "bytes \<Rightarrow> bytes \<Rightarrow> bytes option" where
  "mix_with a state = for_each (\<lambda>j state. do {
     col \<leftarrow> for_each (\<lambda>i col. do { s \<leftarrow> rd8 state (Nb * i + j); wr8 col i s }) [0..<4] [0, 0, 0, 0];
     res \<leftarrow> coef_mult a col [0, 0, 0, 0];
     for_each (\<lambda>i state. do { v \<leftarrow> rd8 res i; wr8 state (Nb * i + j) v }) [0..<4] state }) [0..<Nb] state"

definition mix_columns :: "bytes \<Rightarrow> bytes option" where
  "mix_columns state = mix_with [0x02, 0x01, 0x01, 0x03] state"

definition inv_mix_columns :: "bytes \<Rightarrow> bytes option" where
  "inv_mix_columns state = mix_with [0x0e, 0x09, 0x0d, 0x0b] state"

text \<open>One turn of the inner loop of \<open>shift_rows\<close>: row \<open>i\<close> rotated by one place.\<close>

definition rotate_row :: "nat \<Rightarrow> bytes \<Rightarrow> bytes option" where
  "rotate_row i state = do {
     tmp \<leftarrow> rd8 state (Nb * i + 0);
     state \<leftarrow> for_each (\<lambda>k state. do {
       v \<leftarrow> rd8 state (Nb * i + k); wr8 state (Nb * i + k - 1) v }) [1..<Nb] state;
     wr8 state (Nb * i + Nb - 1) tmp }"

definition inv_rotate_row :: "nat \<Rightarrow> bytes \<Rightarrow> bytes option" where
  "inv_rotate_row i state = do {
     tmp \<leftarrow> rd8 state (Nb * i + Nb - 1);
     state \<leftarrow> for_each (\<lambda>k state. do {
       v \<leftarrow> rd8 state (Nb * i + k - 1); wr8 state (Nb * i + k) v }) (rev [1..<Nb]) state;
     wr8 state (Nb * i + 0) tmp }"

definition shift_rows :: "bytes \<Rightarrow> bytes option" where
  "shift_rows state = for_each (\<lambda>i. for_each (\<lambda>s. rotate_row i) [0..<i]) [1..<4] state"

definition inv_shift_rows :: "bytes \<Rightarrow> bytes option" where
  "inv_shift_rows state = for_each (\<lambda>i. for_each (\<lambda>s. inv_rotate_row i) [0..<i]) [1..<4] state"

text \<open>The row and column of a byte in a substitution table.\<close>

definition box_index :: "u8 \<Rightarrow> nat" where
  "box_index b = (let row = drop_bit 4 (b AND 0xf0); col = b AND 0x0f in 16 * unat row + unat col)"

definition substitute :: "u8 list \<Rightarrow> bytes \<Rightarrow> bytes option" where
  "substitute box state = for_each (\<lambda>i. for_each (\<lambda>j state. do {
     b \<leftarrow> rd8 state (Nb * i + j);
     v \<leftarrow> rd8 box (box_index b);
     wr8 state (Nb * i + j) v }) [0..<Nb]) [0..<4] state"

definition sub_bytes :: "bytes \<Rightarrow> bytes option" where
  "sub_bytes state = substitute s_box state"

definition inv_sub_bytes :: "bytes \<Rightarrow> bytes option" where
  "inv_sub_bytes state = substitute inv_s_box state"

section \<open>Key expansion\<close>

definition sub_word :: "bytes \<Rightarrow> bytes option" where
  "sub_word w = for_each (\<lambda>i w. do { b \<leftarrow> rd8 w i; v \<leftarrow> rd8 s_box (box_index b); wr8 w i v }) [0..<4] w"

definition rot_word :: "bytes \<Rightarrow> bytes option" where
  "rot_word w = do {
     tmp \<leftarrow> rd8 w 0;
     w \<leftarrow> for_each (\<lambda>i w. do { v \<leftarrow> rd8 w (i + 1); wr8 w i v }) [0..<3] w;
     wr8 w 3 tmp }"

text \<open>One turn of the second loop of \<open>key_expansion\<close>; the schedule and the round constant change.\<close>

definition expand_step :: "nat \<Rightarrow> nat \<Rightarrow> bytes \<times> bytes \<Rightarrow> (bytes \<times> bytes) option" where
  "expand_step nk i s = (let (w, r) = s in do {
     tmp \<leftarrow> for_each (\<lambda>k tmp. do { v \<leftarrow> rd8 w (4 * (i - 1) + k); wr8 tmp k v }) [0, 1, 2, 3] [0, 0, 0, 0];
     (tmp, r) \<leftarrow>
       (if i mod nk = 0 then do {
          tmp \<leftarrow> rot_word tmp;
          tmp \<leftarrow> sub_word tmp;
          r \<leftarrow> Rcon (i div nk) r;
          tmp \<leftarrow> coef_add tmp r tmp;
          Some (tmp, r) }
        else if nk > 6 \<and> i mod nk = 4 then do { tmp \<leftarrow> sub_word tmp; Some (tmp, r) }
        else Some (tmp, r));
     w \<leftarrow> for_each (\<lambda>k w. do {
       v \<leftarrow> rd8 w (4 * (i - nk) + k); t \<leftarrow> rd8 tmp k; wr8 w (4 * i + k) (v XOR t) }) [0, 1, 2, 3] w;
     Some (w, r) })"

definition key_expansion :: "aes_globals \<Rightarrow> bytes \<Rightarrow> bytes \<Rightarrow> (bytes \<times> aes_globals) option" where
  "key_expansion g key w = (let len = Nb * (Nr g + 1) in do {
     w \<leftarrow> for_each (\<lambda>i. for_each (\<lambda>k w. do {
       v \<leftarrow> rd8 key (4 * i + k); wr8 w (4 * i + k) v }) [0, 1, 2, 3]) [0..<Nk g] w;
     (w, r) \<leftarrow> for_each (expand_step (Nk g)) [Nk g..<len] (w, R g);
     Some (w, g\<lparr>R := r\<rparr>) })"

section \<open>The cipher\<close>

definition load_state :: "bytes \<Rightarrow> bytes option" where
  "load_state inp = for_each (\<lambda>i. for_each (\<lambda>j state. do {
     v \<leftarrow> rd8 inp (i + 4 * j); wr8 state (Nb * i + j) v }) [0..<Nb]) [0..<4] (replicate 16 0)"

definition store_state :: "bytes \<Rightarrow> bytes \<Rightarrow> bytes option" where
  "store_state state out = for_each (\<lambda>i. for_each (\<lambda>j out. do {
     v \<leftarrow> rd8 state (Nb * i + j); wr8 out (i + 4 * j) v }) [0..<Nb]) [0..<4] out"

definition cipher_round :: "bytes \<Rightarrow> nat \<Rightarrow> bytes \<Rightarrow> bytes option" where
  "cipher_round w r state = do {
     state \<leftarrow> sub_bytes state;
     state \<leftarrow> shift_rows state;
     state \<leftarrow> mix_columns state;
     add_round_key w r state }"

definition cipher :: "aes_globals \<Rightarrow> bytes \<Rightarrow> bytes \<Rightarrow> bytes \<Rightarrow> bytes option" where
  "cipher g inp out w = do {
     state \<leftarrow> load_state inp;
     state \<leftarrow> add_round_key w 0 state;
     state \<leftarrow> for_each (cipher_round w) [1..<Nr g] state;
     state \<leftarrow> sub_bytes state;
     state \<leftarrow> shift_rows state;
     state \<leftarrow> add_round_key w (Nr g) state;
     store_state state out }"

definition inv_cipher_round :: "bytes \<Rightarrow> nat \<Rightarrow> bytes \<Rightarrow> bytes option" where
  "inv_cipher_round w r state = do {
     state \<leftarrow> inv_shift_rows state;
     state \<leftarrow> inv_sub_bytes state;
     state \<leftarrow> add_round_key w r state;
     inv_mix_columns state }"

definition inv_cipher :: "aes_globals \<Rightarrow> bytes \<Rightarrow> bytes \<Rightarrow> bytes \<Rightarrow> bytes option" where
  "inv_cipher g inp out w = do {
     state \<leftarrow> load_state inp;
     state \<leftarrow> add_round_key w (Nr g) state;
     state \<leftarrow> for_each (inv_cipher_round w) (rev [1..<Nr g]) state;
     state \<leftarrow> inv_shift_rows state;
     state \<leftarrow> inv_sub_bytes state;
     state \<leftarrow> add_round_key w 0 state;
     store_state state out }"

text \<open>\<open>malloc\<close> of the schedule gives a block of the size asked for, or fails.\<close>

definition aes_init :: "(nat \<Rightarrow> bytes option) \<Rightarrow> aes_globals \<Rightarrow> bytes \<Rightarrow> nat
    \<Rightarrow> (int \<times> bytes option \<times> aes_globals) option" where
  "aes_init malloc g key key_len = (
     let g = (if key_len = 24 then g\<lparr>Nk := 6, Nr := 12\<rparr>
       else if key_len = 32 then g\<lparr>Nk := 8, Nr := 14\<rparr> else g\<lparr>Nk := 4, Nr := 10\<rparr>) in
     case malloc (Nb * (Nr g + 1) * 4) of
       None \<Rightarrow> Some (1, None, g)
     | Some w \<Rightarrow> do { (w, g) \<leftarrow> key_expansion g key w; Some (0, Some w, g) })"


section \<open>Field arithmetic\<close>

lemmas xor_ac = xor.assoc xor.commute xor.left_commute

lemma xor_cancel: "x XOR (x XOR y) = (y::u8)"
  by (simp flip: xor.assoc)

lemma gmult_loop_acc: "gmult_loop n a b p = p XOR gmult_loop n a b 0"
proof (induction n arbitrary: a b p)
  case (Suc n)
  show ?case
    using Suc [of "gshift a" "drop_bit 1 b" "p XOR a"] Suc [of "gshift a" "drop_bit 1 b" p]
      Suc [of "gshift a" "drop_bit 1 b" a]
    by (simp add: xor.assoc)
qed simp

lemma gmult_loop_Suc:
  "gmult_loop (Suc n) a b 0 = (if bit b 0 then a else 0) XOR gmult_loop n (gshift a) (drop_bit 1 b) 0"
  using gmult_loop_acc [of n "gshift a" "drop_bit 1 b" a]
  by (simp add: and_one_eq bit_0 odd_iff_mod_2_eq_one)

lemma gmult_loop_xor: "gmult_loop n a (x XOR y) 0 = gmult_loop n a x 0 XOR gmult_loop n a y 0"
proof (induction n arbitrary: a x y)
  case (Suc n)
  have "drop_bit 1 (x XOR y) = drop_bit 1 x XOR drop_bit 1 y" by (simp add: drop_bit_xor)
  then show ?case
    unfolding gmult_loop_Suc by (simp only: Suc) (auto simp: bit_simps ac_simps)
qed simp

lemma gmult_xor: "gmult a (x XOR y) = gmult a x XOR gmult a y"
  by (simp add: gmult_def gmult_loop_xor)

lemma gmult_0 [simp]: "gmult a 0 = 0"
  using gmult_xor [of a 0 0] by simp

text \<open>A linear function on bytes is determined by its values on the eight single bits.\<close>

lemma up8: "[0..<8] = [0, 1, 2, 3, 4, 5, 6, 7::nat]"
  by (simp add: upt_rec)

lemma byte_bits: "x = foldr (XOR) (map (\<lambda>i. if bit x i then push_bit i 1 else 0) [0..<8]) (0::u8)"
proof (rule bit_word_eqI)
  fix n assume "n < LENGTH(8)"
  then have "n = 0 \<or> n = 1 \<or> n = 2 \<or> n = 3 \<or> n = 4 \<or> n = 5 \<or> n = 6 \<or> n = (7::nat)" by auto
  then show "bit x n = bit (foldr (XOR) (map (\<lambda>i. if bit x i then push_bit i 1 else 0) [0..<8]) (0::u8)) n"
    unfolding up8 by (elim disjE) (simp_all add: bit_simps)
qed

lemma linear_bytes_eq:
  fixes f g :: "u8 \<Rightarrow> u8"
  assumes f: "\<And>x y. f (x XOR y) = f x XOR f y" and g: "\<And>x y. g (x XOR y) = g x XOR g y"
    and eq: "list_all (\<lambda>v. f v = g v) [1, 2, 4, 8, 16, 32, 64, 128]"
  shows "f x = g x"
proof -
  have z: "f 0 = 0" "g 0 = 0" using f [of 0 0] g [of 0 0] by simp_all
  have "f (foldr (XOR) (map (\<lambda>i. if P i then push_bit i 1 else 0) is) 0)
      = g (foldr (XOR) (map (\<lambda>i. if P i then push_bit i 1 else 0) is) 0)" if "list_all (\<lambda>i. f (push_bit i 1) = g (push_bit i 1)) is" for P "is"
    using that by (induction "is") (simp_all add: f g z)
  moreover have "list_all (\<lambda>i. f (push_bit i 1) = g (push_bit i 1)) [0..<8]"
    using eq by (simp add: up8)
  ultimately have "f (foldr (XOR) (map (\<lambda>i. if bit x i then push_bit i 1 else 0) [0..<8]) 0)
      = g (foldr (XOR) (map (\<lambda>i. if bit x i then push_bit i 1 else 0) [0..<8]) 0)" by blast
  then show ?thesis unfolding byte_bits [of x, symmetric] .
qed

section \<open>Closed forms\<close>

lemma list16: "length st = 16 \<Longrightarrow> \<exists>a b c d e f g h i j k l m n p q. st = [a, b, c, d, e, f, g, h, i, j, k, l, m, n, p, q]"
  by (auto simp: length_Suc_conv numeral_eq_Suc)

lemma up4: "[0..<4] = [0, 1, 2, 3::nat]" "[0..<3] = [0, 1, 2::nat]" "[1..<4] = [1, 2, 3::nat]"
  "[Suc 0..<4] = [1, 2, 3::nat]" "[0..<2] = [0, 1::nat]" "[0..<1] = [0::nat]"
  by (simp_all add: upt_rec)

lemma box_index_eq: "box_index b = unat b"
proof -
  have "16 * (unat b div 16) + unat b mod 16 = unat b" by simp
  moreover have "unat (drop_bit 4 (b AND 0xf0)) = unat b div 16"
  proof -
    have "drop_bit 4 (b AND 0xf0) = drop_bit 4 b"
      by (rule bit_word_eqI) (auto simp: bit_simps numeral_eq_Suc less_Suc_eq dest: bit_imp_le_length)
    then show ?thesis by (simp add: unat_drop_bit)
  qed
  moreover have "unat (b AND 0x0f) = unat b mod 16"
  proof -
    have "b AND 0x0f = take_bit 4 b" by (simp add: take_bit_eq_mask mask_numeral)
    then show ?thesis using unsigned_take_bit_eq [of 4 b, where ?'a = nat] take_bit_eq_mod [of 4 "unat b"]
      by (simp only:) simp
  qed
  ultimately show ?thesis by (simp add: box_index_def Let_def)
qed

lemma substitute_eq:
  assumes "length st = 16" "length box = 256"
  shows "substitute box st = Some (map (\<lambda>b. box ! unat b) st)"
proof -
  have rd: "rd8 box (box_index b) = Some (box ! unat b)" for b
    using unsigned_less [of b, where ?'a = nat] assms(2) by (simp add: box_index_eq rd8_in)
  show ?thesis using list16 [OF assms(1)]
    by (auto simp: substitute_def Nb_def up4 rd8_def [of "_ # _"] wr8_def rd)
qed

lemma shift_rows_eq:
  "shift_rows [a, b, c, d, e, f, g, h, i, j, k, l, m, n, p, q] = Some [a, b, c, d, f, g, h, e, k, l, i, j, q, m, n, p]"
  "inv_shift_rows [a, b, c, d, e, f, g, h, i, j, k, l, m, n, p, q] = Some [a, b, c, d, h, e, f, g, k, l, i, j, n, p, q, m]"
  by (simp_all add: shift_rows_def inv_shift_rows_def rotate_row_def inv_rotate_row_def up4 Nb_def rd8_def wr8_def)


text \<open>The coefficient of the column byte at distance \<open>k\<close> in a product of two words.\<close>

definition mix_coef :: "u8 \<Rightarrow> u8 \<Rightarrow> u8 \<Rightarrow> u8 \<Rightarrow> u8 \<Rightarrow> u8 \<Rightarrow> u8 \<Rightarrow> u8 \<Rightarrow> u8 \<Rightarrow> u8" where
  "mix_coef a0 a1 a2 a3 b0 b1 b2 b3 x = gmult a0 (gmult b0 x) XOR gmult a1 (gmult b1 x)
     XOR gmult a2 (gmult b2 x) XOR gmult a3 (gmult b3 x)"

lemma mix_coef_xor:
  "mix_coef a0 a1 a2 a3 b0 b1 b2 b3 (x XOR y) = mix_coef a0 a1 a2 a3 b0 b1 b2 b3 x XOR mix_coef a0 a1 a2 a3 b0 b1 b2 b3 y"
  unfolding mix_coef_def gmult_xor by (simp only: ac_simps)

text \<open>The coefficients of the two matrices in terms of the shift, which is linear.\<close>

lemma gshift_eq: "gshift a = push_bit 1 a XOR (if bit a 7 then 0x1b else 0)"
proof -
  have "a AND 0x80 \<noteq> 0 \<longleftrightarrow> bit a 7"
    using and_exp_eq_0_iff_not_bit [of a 7] by simp
  then show ?thesis by (simp add: gshift_def Let_def)
qed

lemma gshift_xor: "gshift (x XOR y) = gshift x XOR gshift y"
  unfolding gshift_eq by (auto simp: push_bit_xor bit_simps ac_simps)

lemma gmult_consts:
  "gmult 0x01 x = x" "gmult 0x02 x = gshift x" "gmult 0x03 x = gshift x XOR x"
  "gmult 0x09 x = gshift (gshift (gshift x)) XOR x"
  "gmult 0x0b x = gshift (gshift (gshift x)) XOR gshift x XOR x"
  "gmult 0x0d x = gshift (gshift (gshift x)) XOR gshift (gshift x) XOR x"
  "gmult 0x0e x = gshift (gshift (gshift x)) XOR gshift (gshift x) XOR gshift x"
proof -
  show "gmult 0x01 x = x"
    by (rule linear_bytes_eq [of "gmult 0x01" "\<lambda>x. x"]) (rule gmult_xor, simp only: gshift_xor xor_ac, code_simp)
  show "gmult 0x02 x = gshift x"
    by (rule linear_bytes_eq [of "gmult 0x02" "\<lambda>x. gshift x"]) (rule gmult_xor, simp only: gshift_xor xor_ac, code_simp)
  show "gmult 0x03 x = gshift x XOR x"
    by (rule linear_bytes_eq [of "gmult 0x03" "\<lambda>x. gshift x XOR x"]) (rule gmult_xor, simp only: gshift_xor xor_ac, code_simp)
  show "gmult 0x09 x = gshift (gshift (gshift x)) XOR x"
    by (rule linear_bytes_eq [of "gmult 0x09" "\<lambda>x. gshift (gshift (gshift x)) XOR x"]) (rule gmult_xor, simp only: gshift_xor xor_ac, code_simp)
  show "gmult 0x0b x = gshift (gshift (gshift x)) XOR gshift x XOR x"
    by (rule linear_bytes_eq [of "gmult 0x0b" "\<lambda>x. gshift (gshift (gshift x)) XOR gshift x XOR x"]) (rule gmult_xor, simp only: gshift_xor xor_ac, code_simp)
  show "gmult 0x0d x = gshift (gshift (gshift x)) XOR gshift (gshift x) XOR x"
    by (rule linear_bytes_eq [of "gmult 0x0d" "\<lambda>x. gshift (gshift (gshift x)) XOR gshift (gshift x) XOR x"]) (rule gmult_xor, simp only: gshift_xor xor_ac, code_simp)
  show "gmult 0x0e x = gshift (gshift (gshift x)) XOR gshift (gshift x) XOR gshift x"
    by (rule linear_bytes_eq [of "gmult 0x0e" "\<lambda>x. gshift (gshift (gshift x)) XOR gshift (gshift x) XOR gshift x"]) (rule gmult_xor, simp only: gshift_xor xor_ac, code_simp)
qed

lemma coef_inverse:
  "mix_coef 0x0e 0x0b 0x0d 0x09 0x02 0x01 0x01 0x03 x = x"
  "mix_coef 0x0e 0x0b 0x0d 0x09 0x03 0x02 0x01 0x01 x = 0"
  "mix_coef 0x0e 0x0b 0x0d 0x09 0x01 0x03 0x02 0x01 x = 0"
  "mix_coef 0x0e 0x0b 0x0d 0x09 0x01 0x01 0x03 0x02 x = 0"
  by (simp_all only: mix_coef_def gmult_consts gshift_xor xor_ac xor_self_eq xor_cancel xor.left_neutral xor.right_neutral)

lemma coef_inverse':
  "mix_coef 0x02 0x03 0x01 0x01 0x0e 0x09 0x0d 0x0b x = x"
  "mix_coef 0x02 0x03 0x01 0x01 0x0b 0x0e 0x09 0x0d x = 0"
  "mix_coef 0x02 0x03 0x01 0x01 0x0d 0x0b 0x0e 0x09 x = 0"
  "mix_coef 0x02 0x03 0x01 0x01 0x09 0x0d 0x0b 0x0e x = 0"
  by (simp_all only: mix_coef_def gmult_consts gshift_xor xor_ac xor_self_eq xor_cancel xor.left_neutral xor.right_neutral)

fun col_mult :: "u8 \<Rightarrow> u8 \<Rightarrow> u8 \<Rightarrow> u8 \<Rightarrow> u8 \<times> u8 \<times> u8 \<times> u8 \<Rightarrow> u8 \<times> u8 \<times> u8 \<times> u8" where
  "col_mult a0 a1 a2 a3 (b0, b1, b2, b3) =
    (gmult a0 b0 XOR gmult a3 b1 XOR gmult a2 b2 XOR gmult a1 b3,
     gmult a1 b0 XOR gmult a0 b1 XOR gmult a3 b2 XOR gmult a2 b3,
     gmult a2 b0 XOR gmult a1 b1 XOR gmult a0 b2 XOR gmult a3 b3,
     gmult a3 b0 XOR gmult a2 b1 XOR gmult a1 b2 XOR gmult a0 b3)"

lemma col_mult_twice:
  "col_mult c0 c1 c2 c3 (col_mult a0 a1 a2 a3 (x, y, z, w)) =
    (mix_coef c0 c3 c2 c1 a0 a1 a2 a3 x XOR mix_coef c0 c3 c2 c1 a3 a0 a1 a2 y
       XOR mix_coef c0 c3 c2 c1 a2 a3 a0 a1 z XOR mix_coef c0 c3 c2 c1 a1 a2 a3 a0 w,
     mix_coef c0 c3 c2 c1 a1 a2 a3 a0 x XOR mix_coef c0 c3 c2 c1 a0 a1 a2 a3 y
       XOR mix_coef c0 c3 c2 c1 a3 a0 a1 a2 z XOR mix_coef c0 c3 c2 c1 a2 a3 a0 a1 w,
     mix_coef c0 c3 c2 c1 a2 a3 a0 a1 x XOR mix_coef c0 c3 c2 c1 a1 a2 a3 a0 y
       XOR mix_coef c0 c3 c2 c1 a0 a1 a2 a3 z XOR mix_coef c0 c3 c2 c1 a3 a0 a1 a2 w,
     mix_coef c0 c3 c2 c1 a3 a0 a1 a2 x XOR mix_coef c0 c3 c2 c1 a2 a3 a0 a1 y
       XOR mix_coef c0 c3 c2 c1 a1 a2 a3 a0 z XOR mix_coef c0 c3 c2 c1 a0 a1 a2 a3 w)"
  unfolding col_mult.simps mix_coef_def gmult_xor prod.inject by (intro conjI) (simp_all only: xor_ac)

lemma col_mult_inverse:
  "col_mult 0x0e 0x09 0x0d 0x0b (col_mult 0x02 0x01 0x01 0x03 col) = col"
  "col_mult 0x02 0x01 0x01 0x03 (col_mult 0x0e 0x09 0x0d 0x0b col) = col"
  by (cases col; simp only: col_mult_twice coef_inverse coef_inverse' xor.left_neutral xor.right_neutral)+

definition on_columns :: "(u8 \<times> u8 \<times> u8 \<times> u8 \<Rightarrow> u8 \<times> u8 \<times> u8 \<times> u8) \<Rightarrow> bytes \<Rightarrow> bytes" where
  "on_columns f st = (case (f (st ! 0, st ! 4, st ! 8, st ! 12), f (st ! 1, st ! 5, st ! 9, st ! 13),
       f (st ! 2, st ! 6, st ! 10, st ! 14), f (st ! 3, st ! 7, st ! 11, st ! 15)) of
     ((a, e, i, m), (b, f, j, n), (c, g, k, p), (d, h, l, q)) \<Rightarrow> [a, b, c, d, e, f, g, h, i, j, k, l, m, n, p, q])"

lemma mix_with_eq:
  assumes "length st = 16"
  shows "mix_with [a0, a1, a2, a3] st = Some (on_columns (col_mult a0 a1 a2 a3) st)"
  using list16 [OF assms]
  by (auto simp: mix_with_def coef_mult_def on_columns_def up4 Nb_def rd8_def wr8_def)

lemma on_columns_length [simp]: "length (on_columns f st) = 16"
  by (simp add: on_columns_def split: prod.splits)

lemma on_columns_comp:
  assumes "length st = 16" "\<And>col. f (g col) = col"
  shows "on_columns f (on_columns g st) = st"
proof -
  obtain a b c d e h i j k l m n p q r s where st: "st = [a, b, c, d, e, h, i, j, k, l, m, n, p, q, r, s]"
    using list16 [OF assms(1)] by blast
  obtain a1 e1 k1 p1 where 1: "g (a, e, k, p) = (a1, e1, k1, p1)" by (cases "g (a, e, k, p)") auto
  obtain b1 h1 l1 q1 where 2: "g (b, h, l, q) = (b1, h1, l1, q1)" by (cases "g (b, h, l, q)") auto
  obtain c1 i1 m1 r1 where 3: "g (c, i, m, r) = (c1, i1, m1, r1)" by (cases "g (c, i, m, r)") auto
  obtain d1 j1 n1 s1 where 4: "g (d, j, n, s) = (d1, j1, n1, s1)" by (cases "g (d, j, n, s)") auto
  show ?thesis
    using assms(2) [of "(a, e, k, p)"] assms(2) [of "(b, h, l, q)"] assms(2) [of "(c, i, m, r)"] assms(2) [of "(d, j, n, s)"]
    by (simp add: st on_columns_def 1 2 3 4)
qed

lemma boxes_inverse:
  "inv_s_box ! unat (s_box ! unat b) = b" "s_box ! unat (inv_s_box ! unat b) = b"
proof -
  have "list_all (\<lambda>i. unat (inv_s_box ! unat (s_box ! i)) = i \<and> unat (s_box ! unat (inv_s_box ! i)) = i) [0..<256]"
    by code_simp
  then have e: "unat (inv_s_box ! unat (s_box ! unat b)) = unat b \<and> unat (s_box ! unat (inv_s_box ! unat b)) = unat b"
    using unsigned_less [of b, where ?'a = nat] by (simp add: list_all_length)
  show "inv_s_box ! unat (s_box ! unat b) = b" "s_box ! unat (inv_s_box ! unat b) = b"
    using e by (simp_all only: word_unat_eq_iff)
qed

lemma box_lengths [simp]: "length s_box = 256" "length inv_s_box = 256"
  by (simp_all add: s_box_def inv_s_box_def)


definition key_added :: "bytes \<Rightarrow> nat \<Rightarrow> bytes \<Rightarrow> bytes" where
  "key_added w r st = map (\<lambda>x. st ! x XOR w ! (16 * r + 4 * (x mod 4) + x div 4)) [0..<16]"

lemma up16: "[0..<16] = [0, 1, 2, 3, 4, 5, 6, 7, 8, 9, 10, 11, 12, 13, 14, 15::nat]"
  by (simp add: upt_rec)

lemma add_round_key_eq:
  assumes "length st = 16" "16 * Suc r \<le> length w"
  shows "add_round_key w r st = Some (key_added w r st)"
proof -
  have rd: "rd8 w (4 * Nb * r + 4 * c + i) = Some (w ! (16 * r + 4 * c + i))" if "c < 4" "i < 4" for c i
    using that assms(2) by (simp add: Nb_def rd8_def)
  moreover have "c < 4" if "c \<in> set [0, 1, 2, 3]" for c :: nat using that by auto
  ultimately have rd: "rd8 w (4 * Nb * r + 4 * c + i) = Some (w ! (16 * r + 4 * c + i))"
    if "c \<in> set [0, 1, 2, 3]" "i \<in> set [0, 1, 2, 3]" for c i using that by blast
  have st: "add_round_key w r st = for_each (\<lambda>c. for_each (\<lambda>i state. do {
       s \<leftarrow> rd8 state (4 * i + c);
       wr8 state (4 * i + c) (s XOR w ! (16 * r + 4 * c + i)) }) [0, 1, 2, 3]) [0, 1, 2, 3] st"
    unfolding add_round_key_def up4(1) [folded Nb_def]
    by (intro for_each_cong) (simp only: rd bind.bind_lunit, simp add: Nb_def)
  show ?thesis unfolding st using list16 [OF assms(1)]
    by (auto simp: rd8_def wr8_def key_added_def up16)
qed

lemma key_added_length [simp]: "length (key_added w r st) = 16"
  by (simp add: key_added_def)

lemma key_added_twice: "length st = 16 \<Longrightarrow> key_added w r (key_added w r st) = st"
  by (rule nth_equalityI) (simp_all add: key_added_def xor.assoc)

text \<open>Each transformation is undone by its inverse.\<close>

lemma shift_rows_some:
  "length st = 16 \<Longrightarrow> \<exists>st'. shift_rows st = Some st' \<and> length st' = 16 \<and> inv_shift_rows st' = Some st"
  "length st = 16 \<Longrightarrow> \<exists>st'. inv_shift_rows st = Some st' \<and> length st' = 16 \<and> shift_rows st' = Some st"
  using list16 [of st] by (auto simp: shift_rows_eq)

lemma sub_bytes_some:
  "length st = 16 \<Longrightarrow> \<exists>st'. sub_bytes st = Some st' \<and> length st' = 16 \<and> inv_sub_bytes st' = Some st"
  "length st = 16 \<Longrightarrow> \<exists>st'. inv_sub_bytes st = Some st' \<and> length st' = 16 \<and> sub_bytes st' = Some st"
  by (simp_all add: sub_bytes_def inv_sub_bytes_def substitute_eq boxes_inverse comp_def)

lemma mix_columns_some:
  "length st = 16 \<Longrightarrow> \<exists>st'. mix_columns st = Some st' \<and> length st' = 16 \<and> inv_mix_columns st' = Some st"
  "length st = 16 \<Longrightarrow> \<exists>st'. inv_mix_columns st = Some st' \<and> length st' = 16 \<and> mix_columns st' = Some st"
  by (simp_all add: mix_columns_def inv_mix_columns_def mix_with_eq on_columns_comp col_mult_inverse)

lemma add_round_key_some:
  "length st = 16 \<Longrightarrow> 16 * Suc r \<le> length w \<Longrightarrow>
    \<exists>st'. add_round_key w r st = Some st' \<and> length st' = 16 \<and> add_round_key w r st' = Some st"
  by (simp add: add_round_key_eq key_added_twice)

lemma load_store:
  assumes "length inp = 16" "length out = 16"
  shows "\<exists>st. load_state inp = Some st \<and> length st = 16 \<and> store_state st out = Some inp"
  using list16 [OF assms(1)] list16 [OF assms(2)]
  by (auto simp: load_state_def store_state_def up4 Nb_def rd8_def wr8_def numeral_eq_Suc)

lemma store_load:
  assumes "length st = 16" "length out = 16"
  shows "\<exists>out'. store_state st out = Some out' \<and> length out' = 16 \<and> load_state out' = Some st"
  using list16 [OF assms(1)] list16 [OF assms(2)]
  by (auto simp: load_state_def store_state_def up4 Nb_def rd8_def wr8_def numeral_eq_Suc)


section \<open>Runs that can be undone\<close>

text \<open>
  A family of steps \<open>f i\<close> on good states, each undone by \<open>g i\<close>. A loop over the steps is undone by
  the loop over their inverses in the opposite order.
\<close>

locale undoable =
  fixes ok :: "'s \<Rightarrow> bool" and usable :: "'i \<Rightarrow> bool"
    and f :: "'i \<Rightarrow> 's \<Rightarrow> 's option" and g :: "'i \<Rightarrow> 's \<Rightarrow> 's option"
  assumes step: "ok s \<Longrightarrow> usable i \<Longrightarrow> \<exists>s'. f i s = Some s' \<and> ok s' \<and> g i s' = Some s"
begin

lemma undo_run:
  "ok s \<Longrightarrow> list_all usable is \<Longrightarrow> \<exists>s'. for_each f is s = Some s' \<and> ok s' \<and> for_each g (rev is) s' = Some s"
proof (induction "is" arbitrary: s)
  case (Cons i "is")
  obtain s1 where s1: "f i s = Some s1" "ok s1" "g i s1 = Some s"
    using step [OF Cons.prems(1), of i] Cons.prems(2) by auto
  obtain s2 where "for_each f is s1 = Some s2" "ok s2" "for_each g (rev is) s2 = Some s1"
    using Cons.IH [OF s1(2)] Cons.prems(2) by auto
  with s1 show ?case by (simp add: for_each_append)
qed simp

end

text \<open>When the inverse steps are undone by the steps as well, runs go both ways.\<close>

locale mutually_undoable = undoable +
  assumes redo: "ok s \<Longrightarrow> usable i \<Longrightarrow> \<exists>s'. g i s = Some s' \<and> ok s' \<and> f i s' = Some s"

sublocale mutually_undoable \<subseteq> inverse: undoable ok usable g f
  by unfold_locales (rule redo)

text \<open>
  The rounds of the cipher are cut the other way by its inverse: the substitution and the row shift
  of the next round belong with the key addition of this one.
\<close>

definition half_round :: "bytes \<Rightarrow> bytes option" where
  "half_round st = do { st \<leftarrow> sub_bytes st; shift_rows st }"

definition shifted_round :: "bytes \<Rightarrow> nat \<Rightarrow> bytes \<Rightarrow> bytes option" where
  "shifted_round w r st = do { st \<leftarrow> mix_columns st; st \<leftarrow> add_round_key w r st; half_round st }"

lemma recut:
  "Option.bind (for_each (\<lambda>r s. Option.bind (p s) (q r)) is s) p
    = Option.bind (p s) (for_each (\<lambda>r s. Option.bind (q r s) p) is)"
  by (induction "is" arbitrary: s) (auto split: Option.bind_splits)

lemma cipher_eq:
  "cipher g inp out w = do {
     st \<leftarrow> load_state inp;
     st \<leftarrow> add_round_key w 0 st;
     st \<leftarrow> half_round st;
     st \<leftarrow> for_each (shifted_round w) [1..<Nr g] st;
     st \<leftarrow> add_round_key w (Nr g) st;
     store_state st out }"
proof -
  have c: "cipher_round w = (\<lambda>r s. Option.bind (half_round s) (\<lambda>s. Option.bind (mix_columns s) (add_round_key w r)))"
    by (intro ext) (simp add: cipher_round_def half_round_def)
  have s: "shifted_round w = (\<lambda>r s. Option.bind (Option.bind (mix_columns s) (add_round_key w r)) half_round)"
    by (intro ext) (simp add: shifted_round_def)
  have "Option.bind (for_each (cipher_round w) rs st) half_round
      = Option.bind (half_round st) (for_each (shifted_round w) rs)" for rs st
    unfolding c s by (rule recut)
  then have run: "Option.bind (for_each (cipher_round w) rs st) (\<lambda>st. Option.bind (half_round st) k)
      = Option.bind (half_round st) (\<lambda>st. Option.bind (for_each (shifted_round w) rs st) k)" for rs st k
    by (simp flip: Option.bind_assoc)
  have half: "Option.bind (sub_bytes st) (\<lambda>st. Option.bind (shift_rows st) k) = Option.bind (half_round st) k" for st k
    by (simp add: half_round_def)
  show ?thesis unfolding cipher_def by (simp only: half run)
qed

lemma half_round_some:
  "length st = 16 \<Longrightarrow> \<exists>st'. half_round st = Some st' \<and> length st' = 16
    \<and> Option.bind (inv_shift_rows st') inv_sub_bytes = Some st"
  "length st = 16 \<Longrightarrow> \<exists>st'. Option.bind (inv_shift_rows st) inv_sub_bytes = Some st' \<and> length st' = 16
    \<and> half_round st' = Some st"
  using sub_bytes_some shift_rows_some by (fastforce simp: half_round_def)+

interpretation rounds: mutually_undoable "\<lambda>st. length st = 16" "\<lambda>r. 16 * Suc r \<le> length w"
  "shifted_round w" "inv_cipher_round w" for w
proof
  fix st :: bytes and r :: nat
  assume st: "length st = 16" and r: "16 * Suc r \<le> length w"
  obtain s1 where s1: "mix_columns st = Some s1" "length s1 = 16" "inv_mix_columns s1 = Some st"
    using mix_columns_some(1) [OF st] by blast
  obtain s2 where s2: "add_round_key w r s1 = Some s2" "length s2 = 16" "add_round_key w r s2 = Some s1"
    using add_round_key_some [OF s1(2) r] by blast
  obtain s3 where s3: "half_round s2 = Some s3" "length s3 = 16" "Option.bind (inv_shift_rows s3) inv_sub_bytes = Some s2"
    using half_round_some(1) [OF s2(2)] by blast
  show "\<exists>st'. shifted_round w r st = Some st' \<and> length st' = 16 \<and> inv_cipher_round w r st' = Some st"
    using s1 s2 s3 by (auto simp: shifted_round_def inv_cipher_round_def split: Option.bind_splits)
next
  fix st :: bytes and r :: nat
  assume st: "length st = 16" and r: "16 * Suc r \<le> length w"
  obtain s1 where s1: "Option.bind (inv_shift_rows st) inv_sub_bytes = Some s1" "length s1 = 16" "half_round s1 = Some st"
    using half_round_some(2) [OF st] by blast
  obtain s2 where s2: "add_round_key w r s1 = Some s2" "length s2 = 16" "add_round_key w r s2 = Some s1"
    using add_round_key_some [OF s1(2) r] by blast
  obtain s3 where s3: "inv_mix_columns s2 = Some s3" "length s3 = 16" "mix_columns s3 = Some s2"
    using mix_columns_some(2) [OF s2(2)] by blast
  show "\<exists>st'. inv_cipher_round w r st = Some st' \<and> length st' = 16 \<and> shifted_round w r st' = Some st"
    using s1 s2 s3 by (auto simp: shifted_round_def inv_cipher_round_def split: Option.bind_splits)
qed

lemma cipher_back:
  assumes "16 * Suc (Nr g) \<le> length w" "length inp = 16" "length out = 16" "length out' = 16"
  shows "\<exists>c. cipher g inp out w = Some c \<and> length c = 16 \<and> inv_cipher g c out' w = Some inp"
proof -
  have rs: "list_all (\<lambda>r. 16 * Suc r \<le> length w) [1..<Nr g]" "16 * Suc 0 \<le> length w"
    using assms(1) by (auto simp: list_all_iff)
  obtain s0 where s0: "load_state inp = Some s0" "length s0 = 16" "store_state s0 out' = Some inp"
    using load_store [OF assms(2,4)] by blast
  obtain s1 where s1: "add_round_key w 0 s0 = Some s1" "length s1 = 16" "add_round_key w 0 s1 = Some s0"
    using add_round_key_some [OF s0(2) rs(2)] by blast
  obtain s2 where s2: "half_round s1 = Some s2" "length s2 = 16" "Option.bind (inv_shift_rows s2) inv_sub_bytes = Some s1"
    using half_round_some(1) [OF s1(2)] by blast
  obtain s3 where s3: "for_each (shifted_round w) [1..<Nr g] s2 = Some s3" "length s3 = 16"
    "for_each (inv_cipher_round w) (rev [1..<Nr g]) s3 = Some s2"
    using rounds.undo_run [OF s2(2) rs(1)] by blast
  obtain s4 where s4: "add_round_key w (Nr g) s3 = Some s4" "length s4 = 16" "add_round_key w (Nr g) s4 = Some s3"
    using add_round_key_some [OF s3(2) assms(1)] by blast
  obtain c where c: "store_state s4 out = Some c" "length c = 16" "load_state c = Some s4"
    using store_load [OF s4(2) assms(3)] by blast
  have "cipher g inp out w = Some c" unfolding cipher_eq using s0 s1 s2 s3 s4 c by simp
  moreover have "inv_cipher g c out' w = Some inp"
    unfolding inv_cipher_def using s0 s1 s2 s3 s4 c by (auto split: Option.bind_splits)
  ultimately show ?thesis using c(2) by blast
qed

lemma inv_cipher_back:
  assumes "16 * Suc (Nr g) \<le> length w" "length inp = 16" "length out = 16" "length out' = 16"
  shows "\<exists>p. inv_cipher g inp out w = Some p \<and> length p = 16 \<and> cipher g p out' w = Some inp"
proof -
  have rs: "list_all (\<lambda>r. 16 * Suc r \<le> length w) (rev [1..<Nr g])" "16 * Suc 0 \<le> length w"
    using assms(1) by (auto simp: list_all_iff)
  obtain s0 where s0: "load_state inp = Some s0" "length s0 = 16" "store_state s0 out' = Some inp"
    using load_store [OF assms(2,4)] by blast
  obtain s1 where s1: "add_round_key w (Nr g) s0 = Some s1" "length s1 = 16" "add_round_key w (Nr g) s1 = Some s0"
    using add_round_key_some [OF s0(2) assms(1)] by blast
  obtain s2 where s2: "for_each (inv_cipher_round w) (rev [1..<Nr g]) s1 = Some s2" "length s2 = 16"
    "for_each (shifted_round w) [1..<Nr g] s2 = Some s1"
    using rounds.inverse.undo_run [OF s1(2) rs(1)] by auto
  obtain s3 where s3: "Option.bind (inv_shift_rows s2) inv_sub_bytes = Some s3" "length s3 = 16" "half_round s3 = Some s2"
    using half_round_some(2) [OF s2(2)] by blast
  obtain s4 where s4: "add_round_key w 0 s3 = Some s4" "length s4 = 16" "add_round_key w 0 s4 = Some s3"
    using add_round_key_some [OF s3(2) rs(2)] by blast
  obtain p where p: "store_state s4 out = Some p" "length p = 16" "load_state p = Some s4"
    using store_load [OF s4(2) assms(3)] by blast
  have "cipher g p out' w = Some inp" unfolding cipher_eq using s0 s1 s2 s3 s4 p by simp
  moreover have "inv_cipher g inp out w = Some p"
    unfolding inv_cipher_def using s0 s1 s2 s3 s4 p by (auto split: Option.bind_splits)
  ultimately show ?thesis using p(2) by blast
qed


section \<open>The key schedule\<close>

text \<open>
  The recurrence of the standard: word \<open>i\<close> of the schedule is the word \<open>Nk\<close> places before it,
  exclusive-or the word before it, which every \<open>Nk\<close> places is rotated, substituted and combined with
  a power of x, and for keys of eight words is substituted half-way between.
\<close>

definition times_x :: "u8 \<Rightarrow> u8" where
  "times_x r = gmult r 2"

definition round_constant :: "nat \<Rightarrow> u8" where
  "round_constant j = (times_x ^^ (j - 1)) 1"

definition substituted :: "bytes \<Rightarrow> bytes" where
  "substituted t = map (\<lambda>b. s_box ! unat b) t"

definition key_core :: "nat \<Rightarrow> nat \<Rightarrow> bytes \<Rightarrow> bytes" where
  "key_core nk i t = (if i mod nk = 0
     then map2 (XOR) (substituted (rotate1 t)) [round_constant (i div nk), 0, 0, 0]
     else if nk > 6 \<and> i mod nk = 4 then substituted t else t)"

definition word_at :: "bytes \<Rightarrow> nat \<Rightarrow> bytes" where
  "word_at w i = take 4 (drop (4 * i) w)"

fun schedule :: "nat \<Rightarrow> bytes \<Rightarrow> nat \<Rightarrow> bytes" where
  "schedule nk key i = (if i < nk \<or> nk = 0 then word_at key i
     else map2 (XOR) (schedule nk key (i - nk)) (key_core nk i (schedule nk key (i - 1))))"

declare schedule.simps [simp del]

lemma list4: "length x = 4 \<longleftrightarrow> (\<exists>a b c d. x = [a, b, c, d])"
  by (auto simp: length_Suc_conv numeral_eq_Suc)

lemma word_at_4: "4 * i + 4 \<le> length w \<Longrightarrow> word_at w i = [w ! (4 * i), w ! (4 * i + 1), w ! (4 * i + 2), w ! (4 * i + 3)]"
  by (rule nth_equalityI) (auto simp: word_at_def numeral_eq_Suc less_Suc_eq nth_Cons')

lemma word_at_splice:
  assumes "4 * i + 4 \<le> length w" "length x = 4" "4 * j + 4 \<le> length w"
  shows "word_at (splice w (4 * i) x) j = (if j = i then x else word_at w j)"
proof (rule nth_equalityI)
  show len: "length (word_at (splice w (4 * i) x) j) = length (if j = i then x else word_at w j)"
    using assms by (simp add: word_at_def)
  fix k assume k: "k < length (word_at (splice w (4 * i) x) j)"
  then have "k < 4" using assms by (simp add: word_at_def)
  then show "word_at (splice w (4 * i) x) j ! k = (if j = i then x else word_at w j) ! k"
    using assms by (auto simp: word_at_def nth_splice)
qed

text \<open>Copying four bytes at a time.\<close>

lemma fetch_word:
  assumes "4 * i + 4 \<le> length w"
  shows "for_each (\<lambda>k tmp. do { v \<leftarrow> rd8 w (4 * i + k); wr8 tmp k v }) [0, 1, 2, 3] [0, 0, 0, 0]
    = Some (word_at w i)"
  using assms unfolding word_at_4 [OF assms] by (simp add: rd8_def wr8_def)

lemma store_word:
  assumes "4 * i + 4 \<le> length w" "\<And>k w'. k < 4 \<Longrightarrow> length w' = length w
      \<Longrightarrow> (\<forall>j < 4 * i. w' ! j = w ! j) \<Longrightarrow> f k w' = Some (x k)"
  shows "for_each (\<lambda>k w. do { v \<leftarrow> f k w; wr8 w (4 * i + k) v }) [0, 1, 2, 3] w
    = Some (splice w (4 * i) [x 0, x 1, x 2, x 3])"
proof -
  have "w[4 * i := x 0, 4 * i + 1 := x 1, 4 * i + 2 := x 2, 4 * i + 3 := x 3] = splice w (4 * i) [x 0, x 1, x 2, x 3]"
    using assms(1) by (intro nth_equalityI)
      (auto simp: nth_list_update nth_splice nth_Cons' numeral_eq_Suc less_Suc_eq)
  then show ?thesis using assms(1) by (simp add: assms(2) wr8_def)
qed

lemma rcon_loop_eq: "rcon_loop (Suc n) r = (times_x ^^ n) r"
proof (induction n arbitrary: r)
  case 0
  then show ?case by (simp add: rcon_loop.simps)
next
  case (Suc n)
  then show ?case by (subst rcon_loop.simps) (simp add: times_x_def [symmetric] funpow_swap1)
qed

lemma Rcon_eq:
  assumes "0 < j"
  shows "Rcon j [r0, 0, 0, 0] = Some [round_constant j, 0, 0, 0]"
proof (cases "j = 1")
  case True
  then show ?thesis by (simp add: Rcon_def wr8_def round_constant_def)
next
  case False
  then obtain n where n: "j = Suc (Suc n)" using assms by (metis One_nat_def not0_implies_Suc neq0_conv)
  have "times_x 1 = 2" by (simp add: times_x_def gmult_consts(1) [unfolded numeral_One])
  then show ?thesis
    by (simp add: n Rcon_def wr8_def round_constant_def rcon_loop_eq funpow_swap1)
qed

lemma rot_word_eq: "length t = 4 \<Longrightarrow> rot_word t = Some (rotate1 t)"
  by (auto simp: list4 rot_word_def up4 rd8_def wr8_def)

lemma sub_word_eq:
  assumes "length t = 4" shows "sub_word t = Some (substituted t)"
proof -
  have rd: "rd8 s_box (box_index b) = Some (s_box ! unat b)" for b
    using unsigned_less [of b, where ?'a = nat] by (simp add: box_index_eq rd8_in)
  show ?thesis using assms
    by (auto simp: list4 sub_word_def substituted_def up4 rd8_def [of "_ # _"] wr8_def rd)
qed

lemma coef_add_eq: "length t = 4 \<Longrightarrow> coef_add t [r, 0, 0, 0] t = Some (map2 (XOR) t [r, 0, 0, 0])"
  by (auto simp: list4 coef_add_def rd8_def wr8_def)


definition expanded :: "nat \<Rightarrow> bytes \<Rightarrow> nat \<Rightarrow> nat \<Rightarrow> bytes \<times> bytes \<Rightarrow> bool" where
  "expanded nk key L n s \<longleftrightarrow> length (fst s) = 4 * L \<and> (\<exists>r0. snd s = [r0, 0, 0, 0])
     \<and> (\<forall>j<n. word_at (fst s) j = schedule nk key j)"

lemma word_at_length: "4 * i + 4 \<le> length w \<Longrightarrow> length (word_at w i) = 4"
  by (simp add: word_at_def)

lemma nth_word_at: "k < 4 \<Longrightarrow> 4 * i + 4 \<le> length w \<Longrightarrow> word_at w i ! k = w ! (4 * i + k)"
  by (simp add: word_at_def)

lemma key_core_length: "length t = 4 \<Longrightarrow> length (key_core nk i t) = 4"
  by (simp add: key_core_def substituted_def)

lemma expand_step_ok:
  assumes "expanded nk key L i s" "0 < nk" "nk \<le> i" "i < L"
  shows "\<exists>s'. expand_step nk i s = Some s' \<and> expanded nk key L (Suc i) s'"
proof -
  obtain w r where s: "s = (w, r)" by (cases s)
  then obtain r0 where w: "length w = 4 * L" "r = [r0, 0, 0, 0]" "\<And>j. j < i \<Longrightarrow> word_at w j = schedule nk key j"
    using assms(1) by (auto simp: expanded_def)
  define t where "t = word_at w (i - 1)"
  define c where "c = key_core nk i t"
  have t: "length t = 4" "length c = 4"
    using w(1) assms(2-4) by (auto simp: t_def c_def intro!: word_at_length key_core_length)
  have fetch: "for_each (\<lambda>k tmp. do { v \<leftarrow> rd8 w (4 * (i - 1) + k); wr8 tmp k v }) [0, 1, 2, 3] [0, 0, 0, 0] = Some t"
    unfolding t_def using w(1) assms(2-4) by (intro fetch_word) auto
  have core: "\<exists>r1. (if i mod nk = 0 then do {
          tmp \<leftarrow> rot_word t; tmp \<leftarrow> sub_word tmp; r \<leftarrow> Rcon (i div nk) r; tmp \<leftarrow> coef_add tmp r tmp; Some (tmp, r) }
        else if nk > 6 \<and> i mod nk = 4 then do { tmp \<leftarrow> sub_word t; Some (tmp, r) }
        else Some (t, r)) = Some (c, [r1, 0, 0, 0])"
  proof (cases "i mod nk = 0")
    case True
    have "0 < i div nk" using assms(2,3) by (simp add: div_greater_zero_iff)
    moreover have "length (substituted (rotate1 t)) = 4" using t by (simp add: substituted_def)
    ultimately show ?thesis
      using True t by (simp add: rot_word_eq sub_word_eq w(2) Rcon_eq coef_add_eq c_def key_core_def)
  next
    case False
    then show ?thesis using t by (simp add: sub_word_eq w(2) c_def key_core_def)
  qed
  then obtain r1 where r1: "(if i mod nk = 0 then do {
          tmp \<leftarrow> rot_word t; tmp \<leftarrow> sub_word tmp; r \<leftarrow> Rcon (i div nk) r; tmp \<leftarrow> coef_add tmp r tmp; Some (tmp, r) }
        else if nk > 6 \<and> i mod nk = 4 then do { tmp \<leftarrow> sub_word t; Some (tmp, r) }
        else Some (t, r)) = Some (c, [r1, 0, 0, 0])" by blast
  define x where "x = map2 (XOR) (word_at w (i - nk)) c"
  have xs: "x = [w ! (4 * (i - nk) + 0) XOR c ! 0, w ! (4 * (i - nk) + 1) XOR c ! 1,
      w ! (4 * (i - nk) + 2) XOR c ! 2, w ! (4 * (i - nk) + 3) XOR c ! 3]"
    using w(1) assms(2-4) t(2) unfolding x_def by (subst word_at_4) (auto simp: list4)
  have "for_each (\<lambda>k w. do { y \<leftarrow> do { v \<leftarrow> rd8 w (4 * (i - nk) + k); u \<leftarrow> rd8 c k; Some (v XOR u) }; wr8 w (4 * i + k) y })
      [0, 1, 2, 3] w = Some (splice w (4 * i) x)"
    unfolding xs using w(1) assms(2-4) t(2)
    by (intro store_word) (auto simp: rd8_def)
  then have store: "for_each (\<lambda>k w. do { v \<leftarrow> rd8 w (4 * (i - nk) + k); u \<leftarrow> rd8 c k; wr8 w (4 * i + k) (v XOR u) })
      [0, 1, 2, 3] w = Some (splice w (4 * i) x)" by simp
  have step: "expand_step nk i s = Some (splice w (4 * i) x, [r1, 0, 0, 0])"
    unfolding expand_step_def s Let_def prod.case fetch bind.bind_lunit r1 store by simp
  have x4: "length x = 4" "4 * i + 4 \<le> length w" using w(1) assms(4) by (simp_all add: xs)
  have "word_at (splice w (4 * i) x) j = schedule nk key j" if "j < Suc i" for j
  proof (cases "j = i")
    case True
    have "schedule nk key i = x"
      using assms(2,3) w(3) by (subst schedule.simps) (simp add: x_def c_def t_def)
    then show ?thesis using True x4 word_at_splice [of i w x i] by simp
  next
    case False
    then show ?thesis using that w(1,3) x4 word_at_splice [of i w x j] by simp
  qed
  then have "expanded nk key L (Suc i) (splice w (4 * i) x, [r1, 0, 0, 0])"
    using w(1) x4 by (simp add: expanded_def)
  with step show ?thesis by blast
qed


lemma copy_key:
  assumes "4 * nk \<le> length key" "nk \<le> L" "length w = 4 * L"
  shows "\<exists>w'. for_each (\<lambda>i. for_each (\<lambda>k w. do { v \<leftarrow> rd8 key (4 * i + k); wr8 w (4 * i + k) v }) [0, 1, 2, 3]) [0..<nk] w
      = Some w' \<and> length w' = 4 * L \<and> (\<forall>j<nk. word_at w' j = word_at key j)"
proof (rule for_each_count [where P = "\<lambda>n w. length w = 4 * L \<and> (\<forall>j<n. word_at w j = word_at key j)"])
  show "length w = 4 * L \<and> (\<forall>j<0. word_at w j = word_at key j)" using assms(3) by simp
  fix i w assume i: "i < nk" and w: "length w = 4 * L \<and> (\<forall>j<i. word_at w j = word_at key j)"
  have l: "4 * i + 4 \<le> length w" "4 * i + 4 \<le> length key" using i w assms(1,2) by simp_all
  have x: "[key ! (4 * i + 0), key ! (4 * i + 1), key ! (4 * i + 2), key ! (4 * i + 3)] = word_at key i"
    using l(2) by (simp add: word_at_4)
  have "for_each (\<lambda>k w. do { v \<leftarrow> rd8 key (4 * i + k); wr8 w (4 * i + k) v }) [0, 1, 2, 3] w
      = Some (splice w (4 * i) (word_at key i))"
    unfolding x [symmetric] using l by (intro store_word) (auto simp: rd8_def)
  moreover have "word_at (splice w (4 * i) (word_at key i)) j = word_at key j" if "j < Suc i" for j
    using that w l word_at_splice [of i w "word_at key i" j] word_at_length [OF l(2)]
    by (cases "j = i") simp_all
  moreover have "length (splice w (4 * i) (word_at key i)) = 4 * L"
    using w l word_at_length [OF l(2)] by simp
  ultimately show "\<exists>w'. for_each (\<lambda>k w. do { v \<leftarrow> rd8 key (4 * i + k); wr8 w (4 * i + k) v }) [0, 1, 2, 3] w = Some w'
      \<and> length w' = 4 * L \<and> (\<forall>j<Suc i. word_at w' j = word_at key j)" by blast
qed

lemma for_each_shift: "for_each f [m..<m + n] s = for_each (\<lambda>i. f (m + i)) [0..<n] s"
proof -
  have "[m..<m + n] = map (\<lambda>i. m + i) [0..<n]" by (rule nth_equalityI) simp_all
  moreover have "for_each f (map h xs) s = for_each (\<lambda>i. f (h i)) xs s" for h and xs :: "nat list"
    by (induction xs arbitrary: s) (simp_all split: Option.bind_splits)
  ultimately show ?thesis by simp
qed

lemma key_expansion_ok:
  assumes "4 * Nk g \<le> length key" "0 < Nk g" "Nk g \<le> 4 * (Nr g + 1)" "length w = 16 * (Nr g + 1)" "R g = [r0, 0, 0, 0]"
  shows "\<exists>w' r1. key_expansion g key w = Some (w', g\<lparr>R := [r1, 0, 0, 0]\<rparr>) \<and> length w' = 16 * (Nr g + 1)
    \<and> (\<forall>i < 4 * (Nr g + 1). word_at w' i = schedule (Nk g) key i)"
proof -
  let ?L = "4 * (Nr g + 1)"
  have lw: "length w = 4 * ?L" using assms(4) by simp
  obtain w1 where w1: "for_each (\<lambda>i. for_each (\<lambda>k w. do { v \<leftarrow> rd8 key (4 * i + k); wr8 w (4 * i + k) v }) [0, 1, 2, 3]) [0..<Nk g] w
      = Some w1" "length w1 = 4 * ?L" "\<forall>j<Nk g. word_at w1 j = word_at key j"
    using copy_key [OF assms(1,3) lw] by blast
  have start: "expanded (Nk g) key ?L (Nk g + 0) (w1, R g)"
    using w1(2,3) assms(5) by (auto simp: expanded_def schedule.simps)
  have "\<exists>t. for_each (\<lambda>i. expand_step (Nk g) (Nk g + i)) [0..<?L - Nk g] (w1, R g) = Some t
      \<and> expanded (Nk g) key ?L (Nk g + (?L - Nk g)) t"
  proof (rule for_each_count [where P = "\<lambda>n. expanded (Nk g) key ?L (Nk g + n)"])
    show "expanded (Nk g) key ?L (Nk g + 0) (w1, R g)" by (rule start)
    fix i s assume "i < ?L - Nk g" "expanded (Nk g) key ?L (Nk g + i) s"
    then show "\<exists>s'. expand_step (Nk g) (Nk g + i) s = Some s' \<and> expanded (Nk g) key ?L (Nk g + Suc i) s'"
      using expand_step_ok [of "Nk g" key ?L "Nk g + i" s] assms(2) by simp
  qed
  moreover have "Nk g + (?L - Nk g) = ?L" using assms(3) by simp
  ultimately obtain w2 r2 where run: "for_each (expand_step (Nk g)) [Nk g..<?L] (w1, R g) = Some (w2, r2)"
    and ex: "expanded (Nk g) key ?L ?L (w2, r2)"
    using for_each_shift [of "expand_step (Nk g)" "Nk g" "?L - Nk g"] by (metis surj_pair)
  obtain r1 where "r2 = [r1, 0, 0, 0]" using ex by (auto simp: expanded_def)
  moreover have "key_expansion g key w = Some (w2, g\<lparr>R := r2\<rparr>)"
    unfolding key_expansion_def Let_def Nb_def w1(1) bind.bind_lunit run by simp
  ultimately show ?thesis using ex by (auto simp: expanded_def)
qed


section \<open>Properties\<close>

lemma aes_init_cases:
  assumes "key_len \<in> {16, 24, 32}" "key_len \<le> length key" "\<And>n blk. malloc n = Some blk \<Longrightarrow> length blk = n"
    "R g = [r0, 0, 0, 0]"
  shows "\<exists>ret wo g' r. aes_init malloc g key key_len = Some (ret, wo, g')
    \<and> Nk g' = key_len div 4 \<and> Nr g' = Nk g' + 6 \<and> R g' = [r, 0, 0, 0]
    \<and> (case wo of None \<Rightarrow> ret = 1 \<and> malloc (16 * (Nr g' + 1)) = None
       | Some w \<Rightarrow> ret = 0 \<and> length w = 16 * (Nr g' + 1)
           \<and> (\<forall>i < 4 * (Nr g' + 1). word_at w i = schedule (Nk g') key i))"
proof -
  define g1 where "g1 = (if key_len = 24 then g\<lparr>Nk := 6, Nr := 12\<rparr>
       else if key_len = 32 then g\<lparr>Nk := 8, Nr := 14\<rparr> else g\<lparr>Nk := 4, Nr := 10\<rparr>)"
  have g1: "Nk g1 = key_len div 4" "Nr g1 = Nk g1 + 6" "R g1 = [r0, 0, 0, 0]" "4 * Nk g1 = key_len"
    using assms(1,4) by (auto simp: g1_def)
  have init: "aes_init malloc g key key_len = (case malloc (16 * (Nr g1 + 1)) of
       None \<Rightarrow> Some (1, None, g1)
     | Some w \<Rightarrow> do { (w, g) \<leftarrow> key_expansion g1 key w; Some (0, Some w, g) })"
    unfolding aes_init_def g1_def [symmetric] Let_def Nb_def by (simp add: mult.commute)
  show ?thesis
  proof (cases "malloc (16 * (Nr g1 + 1))")
    case None
    then show ?thesis using init g1 by simp
  next
    case (Some w)
    obtain w' r1 where w': "key_expansion g1 key w = Some (w', g1\<lparr>R := [r1, 0, 0, 0]\<rparr>)"
      "length w' = 16 * (Nr g1 + 1)" "\<forall>i < 4 * (Nr g1 + 1). word_at w' i = schedule (Nk g1) key i"
      using key_expansion_ok [of g1 key w r0] g1 assms(1,2) assms(3) [OF Some] by auto
    have "aes_init malloc g key key_len = Some (0, Some w', g1\<lparr>R := [r1, 0, 0, 0]\<rparr>)"
      unfolding init Some by (simp add: w'(1))
    then show ?thesis using g1 w'(2,3)
      by (intro exI [of _ 0] exI [of _ "Some w'"] exI [of _ "g1\<lparr>R := [r1, 0, 0, 0]\<rparr>"] exI [of _ r1]) simp
  qed
qed

text \<open>
  The key schedule. For a key of 16, 24 or 32 bytes \<open>aes_init\<close> chooses 10, 12 or 14 rounds; if the
  block cannot be allocated it returns 1; otherwise it returns 0 and a schedule of 4 (Nr + 1) words,
  every one of which is the word the recurrence of the standard defines, whatever the round
  constant of an earlier key left behind. No access leaves the key or the block.
\<close>

theorem aes_init_schedule:
  assumes "key_len \<in> {16, 24, 32}" "key_len \<le> length key" "\<And>n blk. malloc n = Some blk \<Longrightarrow> length blk = n"
    "R g = [r0, 0, 0, 0]"
  shows "\<exists>ret wo g' r. aes_init malloc g key key_len = Some (ret, wo, g')
    \<and> Nk g' = key_len div 4 \<and> Nr g' = Nk g' + 6 \<and> R g' = [r, 0, 0, 0]
    \<and> (case wo of None \<Rightarrow> ret = 1 \<and> malloc (16 * (Nr g' + 1)) = None
       | Some w \<Rightarrow> ret = 0 \<and> length w = 16 * (Nr g' + 1)
           \<and> (\<forall>i < 4 * (Nr g' + 1). word_at w i = schedule (Nk g') key i))"
  by (rule aes_init_cases [OF assms])

theorem aes_init_schedule_witness:
  "\<exists>ret wo g' r. aes_init (\<lambda>n. Some (replicate n 0)) aes_globals0 (replicate 24 7) 24 = Some (ret, wo, g')
    \<and> Nk g' = 24 div 4 \<and> Nr g' = Nk g' + 6 \<and> R g' = [r, 0, 0, 0]
    \<and> (case wo of None \<Rightarrow> ret = 1 \<and> Some (replicate (16 * (Nr g' + 1)) (0::u8)) = None
       | Some w \<Rightarrow> ret = 0 \<and> length w = 16 * (Nr g' + 1)
           \<and> (\<forall>i < 4 * (Nr g' + 1). word_at w i = schedule (Nk g') (replicate 24 7) i))"
  by (rule aes_init_schedule [of 24 "replicate 24 7" "\<lambda>n. Some (replicate n 0)" aes_globals0 2])
    (auto simp: aes_globals0_def)

text \<open>
  C28. Decryption undoes encryption and encryption undoes decryption. With the schedule \<open>aes_init\<close>
  makes of any key, \<open>cipher\<close> and \<open>inv_cipher\<close> return on every block of 16 bytes, and each turns the
  result of the other back into the block it came from: both are permutations of the blocks.
\<close>

theorem aes_round_trip:
  assumes "key_len \<in> {16, 24, 32}" "key_len \<le> length key" "\<And>n blk. malloc n = Some blk \<Longrightarrow> length blk = n"
    "R g0 = [r0, 0, 0, 0]" "aes_init malloc g0 key key_len = Some (0, Some w, g)"
    "length inp = 16" "length out = 16" "length out' = 16"
  shows "(\<exists>c. cipher g inp out w = Some c \<and> length c = 16 \<and> inv_cipher g c out' w = Some inp)
    \<and> (\<exists>p. inv_cipher g inp out w = Some p \<and> length p = 16 \<and> cipher g p out' w = Some inp)"
proof -
  have "16 * Suc (Nr g) \<le> length w"
    using aes_init_cases [where malloc = malloc, OF assms(1-4)] assms(5) by auto
  then show ?thesis using cipher_back inv_cipher_back assms(6-8) by blast
qed

lemma demo_key: "\<exists>w g. aes_init (\<lambda>n. Some (replicate n 0)) aes_globals0 (replicate 16 3) 16 = Some (0, Some w, g)"
  using aes_init_cases [of 16 "replicate 16 3" "\<lambda>n. Some (replicate n 0)" aes_globals0 2]
  by (auto simp: aes_globals0_def split: option.splits)

theorem aes_round_trip_witness:
  "\<exists>w g. aes_init (\<lambda>n. Some (replicate n 0)) aes_globals0 (replicate 16 3) 16 = Some (0, Some w, g)
    \<and> (\<exists>c. cipher g (replicate 16 5) (replicate 16 0) w = Some c \<and> length c = 16
        \<and> inv_cipher g c (replicate 16 0) w = Some (replicate 16 5))
    \<and> (\<exists>p. inv_cipher g (replicate 16 5) (replicate 16 0) w = Some p \<and> length p = 16
        \<and> cipher g p (replicate 16 0) w = Some (replicate 16 5))"
proof -
  obtain w g where init: "aes_init (\<lambda>n. Some (replicate n 0)) aes_globals0 (replicate 16 3) 16 = Some (0, Some w, g)"
    using demo_key by blast
  then show ?thesis
    using aes_round_trip [OF _ _ _ _ init, of 2 "replicate 16 5" "replicate 16 0" "replicate 16 0"]
    by (auto simp: aes_globals0_def)
qed

end
