(* ===== verification/MinHeap.thy ===== *)
theory MinHeap
  imports Prelude "HOL-Library.Multiset"
begin

text \<open>
  The binary heap of \<open>fun_timer/minheap.c\<close>. Node 0 is unused, the children of node \<open>i\<close> are \<open>2 i\<close> and
  \<open>2 i + 1\<close>, and \<open>lastIndex\<close> is the first free node. The indices are \<open>int32_t\<close>, never negative: natural
  numbers here, for heaps of at most 2^30 nodes, where \<open>2 i + 1\<close> cannot overflow. \<open>data\<close> is a pointer, of
  any type, \<^term>\<open>None\<close> for \<open>NULL\<close>.

  The locale \<open>priority_queue\<close> is the contract of a bounded priority queue; its client lemmas are how
  it answers every sequence of insertions and extractions, and that taking everything out gives the
  elements in order.
\<close>

section \<open>State and operations\<close>

record 'd minHeapNode =
  nd_key :: int
  nd_data :: "'d option"

record 'd minheap =
  nodeList :: "'d minHeapNode list"
  headIndex :: nat
  lastIndex :: nat
  maxNum :: nat

text \<open>The parameters: whether \<open>malloc\<close> of the structure and \<open>calloc\<close> of the nodes succeed.\<close>

definition minHeapInit :: "bool \<Rightarrow> bool \<Rightarrow> int \<Rightarrow> 'd minheap option" where
  "minHeapInit malloc_ok calloc_ok n =
     (if n \<le> 0 then None
      else if \<not> malloc_ok then None
      else if \<not> calloc_ok then None
      else Some \<lparr>nodeList = replicate (nat n) \<lparr>nd_key = 0, nd_data = None\<rparr>,
        headIndex = 1, lastIndex = 1, maxNum = nat n\<rparr>)"

definition getFatherIndex :: "nat \<Rightarrow> nat" where
  "getFatherIndex index = (if index = 1 \<or> index = 0 then 0 else index div 2)"

definition getLeftChildIndex :: "nat \<Rightarrow> nat" where
  "getLeftChildIndex index = (if index = 0 then 0 else index * 2)"

definition getRightChildIndex :: "nat \<Rightarrow> nat" where
  "getRightChildIndex index = (if index = 0 then 0 else index * 2 + 1)"

text \<open>\<open>_exchange\<close> of the keys and \<open>_exchangePoint\<close> of the data of two nodes, always called together.\<close>

definition swap_nodes :: "'n list \<Rightarrow> nat \<Rightarrow> nat \<Rightarrow> 'n list option" where
  "swap_nodes nodes i j = do {
     a \<leftarrow> rd8 nodes i;
     b \<leftarrow> rd8 nodes j;
     nodes \<leftarrow> wr8 nodes i b;
     wr8 nodes j a }"

function sift_up :: "int \<Rightarrow> 'd minHeapNode list \<Rightarrow> nat \<Rightarrow> nat \<Rightarrow> 'd minHeapNode list option" where
  "sift_up key nodes index fatherIndex =
     (if fatherIndex = 0 then Some nodes
      else do {
        father \<leftarrow> rd8 nodes fatherIndex;
        if key < nd_key father then do {
          nodes \<leftarrow> swap_nodes nodes fatherIndex index;
          sift_up key nodes fatherIndex (getFatherIndex fatherIndex) }
        else Some nodes })"
  by pat_completeness auto
termination by (relation "measure (\<lambda>(_, _, _, father). father)") (auto simp: getFatherIndex_def)

declare sift_up.simps [simp del]

definition minHeapInsert :: "'d minheap \<Rightarrow> int \<Rightarrow> 'd option \<Rightarrow> (int \<times> 'd minheap) option" where
  "minHeapInsert this key data =
     (if lastIndex this \<ge> maxNum this - 1 then Some (-1, this)
      else do {
        let index = lastIndex this;
        nodes \<leftarrow> wr8 (nodeList this) (lastIndex this) \<lparr>nd_key = key, nd_data = data\<rparr>;
        nodes \<leftarrow> sift_up key nodes index (getFatherIndex index);
        Some (0, this\<lparr>nodeList := nodes, lastIndex := lastIndex this + 1\<rparr>) })"

definition minChildIndex :: "'d minHeapNode list \<Rightarrow> nat \<Rightarrow> nat \<Rightarrow> nat option" where
  "minChildIndex nodes lim index =
     (if index \<ge> lim then Some 0
      else let l = getLeftChildIndex index; r = getRightChildIndex index in
        if l \<ge> lim then Some 0
        else if r \<ge> lim then Some l
        else do {
          nl \<leftarrow> rd8 nodes l;
          nr \<leftarrow> rd8 nodes r;
          Some (if nd_key nl < nd_key nr then l else r) })"

lemma minChildIndex_bounds:
  "minChildIndex nodes lim index = Some c \<Longrightarrow> c \<noteq> 0 \<Longrightarrow> c div 2 = index \<and> index \<noteq> 0 \<and> index < c \<and> c < lim"
  by (auto simp: minChildIndex_def getLeftChildIndex_def getRightChildIndex_def Let_def split: if_splits Option.bind_splits)

text \<open>The loop of \<open>_minHeapPop\<close>, with the computation of the child at the head of each turn.\<close>

function sift_down :: "'d minHeapNode list \<Rightarrow> nat \<Rightarrow> nat \<Rightarrow> 'd minHeapNode list option" where
  "sift_down nodes lim index = (case minChildIndex nodes lim index of
     None \<Rightarrow> None
   | Some childIndex \<Rightarrow>
       if childIndex = 0 then Some nodes
       else do {
         node \<leftarrow> rd8 nodes index;
         child \<leftarrow> rd8 nodes childIndex;
         if nd_key node \<ge> nd_key child then do {
           nodes \<leftarrow> swap_nodes nodes index childIndex;
           sift_down nodes lim childIndex }
         else Some nodes })"
  by pat_completeness auto
termination
  by (relation "measure (\<lambda>(_, lim, index). lim - index)") (auto dest!: minChildIndex_bounds)

declare sift_down.simps [simp del]

definition minHeapPop :: "'d minheap \<Rightarrow> 'd minHeapNode \<Rightarrow> (int \<times> 'd minHeapNode \<times> 'd minheap) option" where
  "minHeapPop this node =
     (if lastIndex this = 1 then Some (-1, node, this)
      else do {
        node \<leftarrow> rd8 (nodeList this) (headIndex this);
        nodes \<leftarrow> swap_nodes (nodeList this) (lastIndex this - 1) (headIndex this);
        nodes \<leftarrow> sift_down nodes (lastIndex this - 1) (headIndex this);
        Some (0, node, this\<lparr>nodeList := nodes, lastIndex := lastIndex this - 1\<rparr>) })"

section \<open>Priority queues\<close>

text \<open>Taking elements out, at most \<open>n\<close> of them, until the queue is empty.\<close>

primrec drain :: "('h \<Rightarrow> ('e option \<times> 'h) option) \<Rightarrow> nat \<Rightarrow> 'h \<Rightarrow> ('e list \<times> 'h) option" where
  "drain pop 0 h = Some ([], h)"
| "drain pop (Suc n) h = do {
     (e, h) \<leftarrow> pop h;
     case e of None \<Rightarrow> Some ([], h)
     | Some e \<Rightarrow> do { (es, h) \<leftarrow> drain pop n h; Some (e # es, h) } }"

text \<open>
  Any sequence of operations, with what each of them returns: the code of an insertion, and what an
  extraction took out. \<open>pq_allows\<close> is what a priority queue of a capacity may answer, by the multiset
  it holds: an insertion is refused exactly when the capacity is reached, an extraction takes out one of the
  elements of least key, and nothing exactly when there is none.
\<close>

datatype 'e pq_op = Insert 'e | Extract

datatype 'e pq_answer = Inserted int | Extracted "'e option"

primrec pq_run :: "('e \<Rightarrow> 'h \<Rightarrow> (int \<times> 'h) option) \<Rightarrow> ('h \<Rightarrow> ('e option \<times> 'h) option)
    \<Rightarrow> 'e pq_op list \<Rightarrow> 'h \<Rightarrow> ('e pq_answer list \<times> 'h) option" where
  "pq_run ins pop [] h = Some ([], h)"
| "pq_run ins pop (operation # ops) h = do {
     (answer, h) \<leftarrow> (case operation of
         Insert e \<Rightarrow> map_option (\<lambda>(code, h). (Inserted code, h)) (ins e h)
       | Extract \<Rightarrow> map_option (\<lambda>(e, h). (Extracted e, h)) (pop h));
     (answers, h) \<leftarrow> pq_run ins pop ops h;
     Some (answer # answers, h) }"

fun pq_allows :: "('e \<Rightarrow> int) \<Rightarrow> nat \<Rightarrow> 'e multiset \<Rightarrow> 'e pq_op list \<Rightarrow> 'e pq_answer list \<Rightarrow> bool" where
  "pq_allows key capacity M [] [] \<longleftrightarrow> True"
| "pq_allows key capacity M (Insert e # ops) (Inserted code # answers) \<longleftrightarrow>
     (if size M < capacity then code = 0 \<and> pq_allows key capacity (add_mset e M) ops answers
      else code = -1 \<and> pq_allows key capacity M ops answers)"
| "pq_allows key capacity M (Extract # ops) (Extracted None # answers) \<longleftrightarrow>
     M = {#} \<and> pq_allows key capacity M ops answers"
| "pq_allows key capacity M (Extract # ops) (Extracted (Some e) # answers) \<longleftrightarrow>
     e \<in># M \<and> (\<forall>x\<in>#M. key e \<le> key x) \<and> pq_allows key capacity (M - {#e#}) ops answers"
| "pq_allows key capacity M ops answers \<longleftrightarrow> False"

locale priority_queue =
  fixes ok :: "'h \<Rightarrow> bool"
    and elems :: "'h \<Rightarrow> 'e multiset"
    and room :: "'h \<Rightarrow> nat"
    and key :: "'e \<Rightarrow> int"
    and ins :: "'e \<Rightarrow> 'h \<Rightarrow> (int \<times> 'h) option"
    and pop :: "'h \<Rightarrow> ('e option \<times> 'h) option"
  assumes ins: "ok h \<Longrightarrow> size (elems h) < room h \<Longrightarrow>
      \<exists>h'. ins e h = Some (0, h') \<and> ok h' \<and> elems h' = add_mset e (elems h) \<and> room h' = room h"
    and ins_full: "ok h \<Longrightarrow> room h \<le> size (elems h) \<Longrightarrow> ins e h = Some (-1, h)"
    and pop: "ok h \<Longrightarrow> elems h \<noteq> {#} \<Longrightarrow> \<exists>e h'. pop h = Some (Some e, h') \<and> ok h'
      \<and> elems h = add_mset e (elems h') \<and> (\<forall>x\<in>#elems h'. key e \<le> key x) \<and> room h' = room h"
    and pop_empty: "ok h \<Longrightarrow> elems h = {#} \<Longrightarrow> pop h = Some (None, h)"
begin

lemma insert_all:
  "ok h \<Longrightarrow> size (elems h) + length es \<le> room h \<Longrightarrow>
     \<exists>h'. for_each (\<lambda>e h. map_option snd (ins e h)) es h = Some h' \<and> ok h' \<and> elems h' = mset es + elems h"
proof (induction es arbitrary: h)
  case (Cons e es)
  then obtain h' where h': "ins e h = Some (0, h')" "ok h'" "elems h' = add_mset e (elems h)" "room h' = room h"
    using ins [of h e] by auto
  with Cons.IH [of h'] Cons.prems show ?case by auto
qed simp

lemma drain_sorted:
  "ok h \<Longrightarrow> size (elems h) \<le> n \<Longrightarrow>
     \<exists>es h'. drain pop n h = Some (es, h') \<and> ok h' \<and> sorted (map key es) \<and> mset es = elems h \<and> elems h' = {#}"
proof (induction n arbitrary: h)
  case (Suc n)
  show ?case
  proof (cases "elems h = {#}")
    case False
    then obtain e h' where h': "pop h = Some (Some e, h')" "ok h'" "elems h = add_mset e (elems h')"
        "\<forall>x\<in>#elems h'. key e \<le> key x"
      using pop Suc.prems(1) by meson
    then obtain es h'' where "drain pop n h' = Some (es, h'')" "ok h''" "sorted (map key es)" "mset es = elems h'"
        "elems h'' = {#}"
      using Suc.IH [of h'] Suc.prems(2) by auto
    with h' show ?thesis by (auto simp flip: set_mset_mset)
  qed (use Suc.prems in \<open>simp add: pop_empty\<close>)
qed simp

text \<open>Any sequence of operations is answered as a queue with this room may answer it.\<close>

lemma run_allowed:
  "ok h \<Longrightarrow> \<exists>answers h'. pq_run ins pop ops h = Some (answers, h') \<and> ok h' \<and> room h' = room h
     \<and> pq_allows key (room h) (elems h) ops answers"
proof (induction ops arbitrary: h)
  case (Cons operation ops)
  show ?case
  proof (cases operation)
    case (Insert e)
    show ?thesis
    proof (cases "size (elems h) < room h")
      case True
      then obtain h' where "ins e h = Some (0, h')" "ok h'" "elems h' = add_mset e (elems h)" "room h' = room h"
        using ins Cons.prems by blast
      with True Insert Cons.IH [of h'] show ?thesis by auto
    qed (use Insert Cons.IH [OF Cons.prems] ins_full [OF Cons.prems] in auto)
  next
    case Extract
    show ?thesis
    proof (cases "elems h = {#}")
      case False
      then obtain e h' where "pop h = Some (Some e, h')" "ok h'" "elems h = add_mset e (elems h')"
          "\<forall>x\<in>#elems h'. key e \<le> key x" "room h' = room h"
        using pop Cons.prems by meson
      with Extract Cons.IH [of h'] show ?thesis by auto
    qed (use Extract Cons.IH [OF Cons.prems] pop_empty [OF Cons.prems] in auto)
  qed
qed simp

text \<open>Filling a queue and taking everything out sorts.\<close>

lemma sorts:
  assumes "ok h" "elems h = {#}" "length es \<le> room h" "length es \<le> n"
  shows "\<exists>es' h'. do { h \<leftarrow> for_each (\<lambda>e h. map_option snd (ins e h)) es h; drain pop n h } = Some (es', h')
    \<and> sorted (map key es') \<and> mset es' = mset es \<and> elems h' = {#}"
proof -
  obtain h' where h': "for_each (\<lambda>e h. map_option snd (ins e h)) es h = Some h'" "ok h'" "elems h' = mset es"
    using insert_all [OF assms(1), of es] assms(2,3) by auto
  with drain_sorted [of h' n] assms(4) show ?thesis by auto
qed

end

section \<open>Heap order\<close>

definition ordered_but :: "(nat \<Rightarrow> bool) \<Rightarrow> 'd minHeapNode list \<Rightarrow> nat \<Rightarrow> bool" where
  "ordered_but skip nodes lim \<longleftrightarrow>
     (\<forall>j. 2 \<le> j \<longrightarrow> j < lim \<longrightarrow> \<not> skip j \<longrightarrow> nd_key (nodes ! (j div 2)) \<le> nd_key (nodes ! j))"

definition bridged :: "'d minHeapNode list \<Rightarrow> nat \<Rightarrow> nat \<Rightarrow> bool" where
  "bridged nodes lim i \<longleftrightarrow>
     (2 \<le> i \<longrightarrow> (\<forall>j. j div 2 = i \<longrightarrow> j < lim \<longrightarrow> nd_key (nodes ! (i div 2)) \<le> nd_key (nodes ! j)))"

lemma swap_nodes_eq:
  "i < length nodes \<Longrightarrow> j < length nodes \<Longrightarrow> swap_nodes nodes i j = Some (nodes[i := nodes ! j, j := nodes ! i])"
  by (simp add: swap_nodes_def rd8_in wr8_in)

definition held :: "'n list \<Rightarrow> nat \<Rightarrow> 'n list" where
  "held nodes lim = drop 1 (take lim nodes)"

lemma held_Suc: "1 \<le> k \<Longrightarrow> k < length nodes \<Longrightarrow> held nodes (Suc k) = held nodes k @ [nodes ! k]"
  by (simp add: held_def take_Suc_conv_app_nth)

lemma mset_held_swap:
  assumes "1 \<le> i" "i < lim" "1 \<le> j" "j < lim" "lim \<le> length nodes"
  shows "mset (held (nodes[i := nodes ! j, j := nodes ! i]) lim) = mset (held nodes lim)"
proof -
  have "held (nodes[i := nodes ! j, j := nodes ! i]) lim
      = (held nodes lim)[i - 1 := held nodes lim ! (j - 1), j - 1 := held nodes lim ! (i - 1)]"
    using assms by (simp add: held_def take_update_swap drop_update_swap)
  moreover have "i - 1 < length (held nodes lim)" "j - 1 < length (held nodes lim)"
    using assms by (simp_all add: held_def less_diff_conv)
  ultimately show ?thesis by (simp only: mset_swap)
qed

lemma sift_up_ok:
  assumes "ordered_but (\<lambda>j. j = index) nodes lim" "bridged nodes lim index"
    and "1 \<le> index" "index < lim" "lim \<le> length nodes" "key = nd_key (nodes ! index)"
  shows "\<exists>nodes'. sift_up key nodes index (getFatherIndex index) = Some nodes' \<and> length nodes' = length nodes
    \<and> ordered_but (\<lambda>_. False) nodes' lim \<and> mset (held nodes' lim) = mset (held nodes lim)"
  using assms
proof (induction index arbitrary: nodes rule: less_induct)
  case (less index)
  let ?f = "index div 2"
  show ?case
  proof (cases "index = 1")
    case True
    have "ordered_but (\<lambda>_. False) nodes lim" using less.prems(1) True by (auto simp: ordered_but_def)
    then show ?thesis using True by (simp add: sift_up.simps getFatherIndex_def)
  next
    case False
    then have index: "2 \<le> index" "getFatherIndex index = ?f" "1 \<le> ?f" "?f < index" "?f < length nodes"
      using less.prems by (auto simp: getFatherIndex_def)
    show ?thesis
    proof (cases "key < nd_key (nodes ! ?f)")
      case True
      let ?n = "nodes[?f := nodes ! index, index := nodes ! ?f]"
      have nth: "?n ! j = (if j = index then nodes ! ?f else if j = ?f then nodes ! index else nodes ! j)"
        if "j < lim" for j
        using that index less.prems(4,5) by (auto simp: nth_list_update)
      have below: "nd_key (nodes ! ?f) \<le> nd_key (nodes ! j)" if "j div 2 = index \<or> j div 2 = ?f" "j \<noteq> index" "2 \<le> j" "j < lim" for j
        using that less.prems(1,2) index(1) by (auto simp: ordered_but_def bridged_def)
      have "ordered_but (\<lambda>j. j = ?f) ?n lim"
        unfolding ordered_but_def
      proof (intro allI impI)
        fix j assume j: "2 \<le> j" "j < lim" "j \<noteq> ?f"
        then have "j div 2 < lim" "j div 2 \<noteq> j" by auto
        consider "j = index" | "j \<noteq> index" "j div 2 = index" | "j \<noteq> index" "j div 2 = ?f"
          | "j \<noteq> index" "j div 2 \<noteq> index" "j div 2 \<noteq> ?f" by blast
        then show "nd_key (?n ! (j div 2)) \<le> nd_key (?n ! j)"
        proof cases
          case 1
          with True j index less.prems show ?thesis by (simp add: nth)
        next
          case 2
          with below [of j] j \<open>j div 2 < lim\<close> show ?thesis by (simp add: nth)
        next
          case 3
          with below [of j] True j index less.prems(6) \<open>j div 2 < lim\<close> show ?thesis by (simp add: nth)
        next
          case 4
          with less.prems(1) j \<open>j div 2 < lim\<close> show ?thesis by (simp add: nth ordered_but_def)
        qed
      qed
      moreover have "bridged ?n lim ?f"
        unfolding bridged_def
      proof (intro impI allI)
        fix j assume f: "2 \<le> ?f" and j: "j div 2 = ?f" "j < lim"
        have up: "nd_key (nodes ! (?f div 2)) \<le> nd_key (nodes ! ?f)"
          using less.prems(1,4) f index by (simp add: ordered_but_def)
        have "?f div 2 < lim" "?f div 2 \<noteq> index" "?f div 2 \<noteq> ?f" using f index less.prems(4) by auto
        moreover have "j \<noteq> ?f" "2 \<le> j" using j f by auto
        ultimately show "nd_key (?n ! (?f div 2)) \<le> nd_key (?n ! j)"
          using up order.trans [OF up below [of j]] j by (cases "j = index") (simp_all add: nth)
      qed
      moreover have "1 \<le> ?f" "?f < lim" "lim \<le> length ?n" "key = nd_key (?n ! ?f)"
        using index less.prems(4,5,6) by (simp_all add: nth)
      ultimately obtain nodes' where n': "sift_up key ?n ?f (getFatherIndex ?f) = Some nodes'" "length nodes' = length ?n"
          "ordered_but (\<lambda>_. False) nodes' lim" "mset (held nodes' lim) = mset (held ?n lim)"
        using less.IH [OF index(4), of ?n] by blast
      have "mset (held ?n lim) = mset (held nodes lim)"
        using index less.prems by (intro mset_held_swap) auto
      with n' True index less.prems show ?thesis
        by (subst sift_up.simps) (simp add: rd8_in swap_nodes_eq)
    next
      case False
      have "ordered_but (\<lambda>_. False) nodes lim"
        using less.prems(1,6) False by (auto simp: ordered_but_def)
      with False index show ?thesis by (subst sift_up.simps) (simp add: rd8_in)
    qed
  qed
qed

lemma minChildIndex_eq:
  assumes "1 \<le> i" "i < lim" "lim \<le> length nodes"
  shows "\<exists>c. minChildIndex nodes lim i = Some c \<and> (c = 0 \<longrightarrow> lim \<le> 2 * i)
    \<and> (c \<noteq> 0 \<longrightarrow> (\<forall>j. j div 2 = i \<longrightarrow> j < lim \<longrightarrow> nd_key (nodes ! c) \<le> nd_key (nodes ! j)))"
proof -
  have j: "j div 2 = i \<longleftrightarrow> j = 2 * i \<or> j = 2 * i + 1" for j by auto
  show ?thesis
    using assms by (auto simp: minChildIndex_def getLeftChildIndex_def getRightChildIndex_def Let_def rd8_in mult.commute j)
qed

lemma sift_down_ok:
  assumes "ordered_but (\<lambda>j. j div 2 = index) nodes lim" "bridged nodes lim index"
    and "1 \<le> index" "lim \<le> length nodes" "lim \<le> index \<longrightarrow> index = lim"
  shows "\<exists>nodes'. sift_down nodes lim index = Some nodes' \<and> length nodes' = length nodes
    \<and> ordered_but (\<lambda>_. False) nodes' lim \<and> mset (held nodes' lim) = mset (held nodes lim)"
  using assms
proof (induction "lim - index" arbitrary: index nodes rule: less_induct)
  case less
  show ?case
  proof (cases "lim \<le> index")
    case True
    then have "ordered_but (\<lambda>_. False) nodes lim" using less.prems(1,3) by (auto simp: ordered_but_def)
    with True show ?thesis by (subst sift_down.simps) (simp add: minChildIndex_def)
  next
    case False
    then obtain c where c: "minChildIndex nodes lim index = Some c" "c = 0 \<longrightarrow> lim \<le> 2 * index"
      "c \<noteq> 0 \<longrightarrow> (\<forall>j. j div 2 = index \<longrightarrow> j < lim \<longrightarrow> nd_key (nodes ! c) \<le> nd_key (nodes ! j))"
      using minChildIndex_eq [of index lim nodes] less.prems(3,4) by auto
    show ?thesis
    proof (cases "c = 0")
      case True
      then have "ordered_but (\<lambda>_. False) nodes lim" using less.prems(1) c(2) by (auto simp: ordered_but_def)
      with True c(1) show ?thesis by (subst sift_down.simps) simp
    next
      case nonzero: False
      note b = minChildIndex_bounds [OF c(1) nonzero]
      have len: "index < length nodes" "c < length nodes" using b less.prems(4) by auto
      show ?thesis
      proof (cases "nd_key (nodes ! c) \<le> nd_key (nodes ! index)")
        case True
        let ?n = "nodes[index := nodes ! c, c := nodes ! index]"
        have nth: "?n ! j = (if j = c then nodes ! index else if j = index then nodes ! c else nodes ! j)" for j
          using len by (auto simp: nth_list_update)
        have "ordered_but (\<lambda>j. j div 2 = c) ?n lim"
          unfolding ordered_but_def
        proof (intro allI impI)
          fix j assume j: "2 \<le> j" "j < lim" "j div 2 \<noteq> c"
          show "nd_key (?n ! (j div 2)) \<le> nd_key (?n ! j)"
          proof (cases "j div 2 = index")
            case div: True
            with True c(3) nonzero j show ?thesis by (auto simp: nth)
          next
            case False
            then have "nd_key (nodes ! (j div 2)) \<le> nd_key (nodes ! j)" "j \<noteq> c"
              using less.prems(1) j b by (auto simp: ordered_but_def)
            moreover have "j = index \<Longrightarrow> nd_key (nodes ! (j div 2)) \<le> nd_key (nodes ! c)"
              using less.prems(2) b j by (auto simp: bridged_def)
            ultimately show ?thesis using False j by (auto simp: nth)
          qed
        qed
        moreover have "bridged ?n lim c"
          unfolding bridged_def
        proof (intro impI allI)
          fix j assume j: "j div 2 = c" "j < lim" and "2 \<le> c"
          then have "nd_key (nodes ! c) \<le> nd_key (nodes ! j)" "j \<noteq> c" "j \<noteq> index"
            using less.prems(1) b by (auto simp: ordered_but_def)
          then show "nd_key (?n ! (c div 2)) \<le> nd_key (?n ! j)" using b by (simp add: nth)
        qed
        ultimately obtain nodes' where n': "sift_down ?n lim c = Some nodes'" "length nodes' = length ?n"
            "ordered_but (\<lambda>_. False) nodes' lim" "mset (held nodes' lim) = mset (held ?n lim)"
          using less.hyps [of c ?n] b less.prems(4) by fastforce
        have "mset (held ?n lim) = mset (held nodes lim)"
          using b less.prems by (intro mset_held_swap) auto
        with n' True c(1) nonzero len show ?thesis
          by (subst sift_down.simps) (simp add: rd8_in swap_nodes_eq)
      next
        case False
        have "ordered_but (\<lambda>_. False) nodes lim"
          unfolding ordered_but_def
        proof (intro allI impI)
          fix j assume j: "2 \<le> j" "j < lim"
          show "nd_key (nodes ! (j div 2)) \<le> nd_key (nodes ! j)"
            using less.prems(1) c(3) nonzero j False by (cases "j div 2 = index") (fastforce simp: ordered_but_def)+
        qed
        with False c(1) nonzero len show ?thesis by (subst sift_down.simps) (simp add: rd8_in)
      qed
    qed
  qed
qed

section \<open>The heap is a priority queue\<close>

definition heap_ok :: "'d minheap \<Rightarrow> bool" where
  "heap_ok h \<longleftrightarrow> headIndex h = 1 \<and> 1 \<le> lastIndex h \<and> lastIndex h \<le> maxNum h \<and> maxNum h = length (nodeList h)
     \<and> maxNum h \<le> 2 ^ 30 \<and> ordered_but (\<lambda>_. False) (nodeList h) (lastIndex h)"

definition heap_elems :: "'d minheap \<Rightarrow> 'd minHeapNode multiset" where
  "heap_elems h = mset (held (nodeList h) (lastIndex h))"

definition heap_room :: "'d minheap \<Rightarrow> nat" where
  "heap_room h = maxNum h - 2"

lemma size_heap_elems: "heap_ok h \<Longrightarrow> size (heap_elems h) = lastIndex h - 1"
  by (simp add: heap_ok_def heap_elems_def held_def)

lemma minHeapInsert_ok:
  assumes h: "heap_ok h" and room: "size (heap_elems h) < heap_room h"
  shows "\<exists>h'. minHeapInsert h key data = Some (0, h') \<and> heap_ok h'
    \<and> heap_elems h' = add_mset \<lparr>nd_key = key, nd_data = data\<rparr> (heap_elems h) \<and> heap_room h' = heap_room h"
proof -
  let ?i = "lastIndex h" and ?e = "\<lparr>nd_key = key, nd_data = data\<rparr>"
  let ?n = "(nodeList h)[?i := ?e]"
  note ok = h [unfolded heap_ok_def]
  have i: "1 \<le> ?i" "?i < maxNum h - 1" "?i < length ?n"
    using ok room size_heap_elems [OF h] by (auto simp: heap_room_def)
  have same: "?n ! j = nodeList h ! j" if "j < ?i" for j using that by simp
  have "ordered_but (\<lambda>j. j = ?i) ?n (Suc ?i)"
    using ok by (auto simp: ordered_but_def less_Suc_eq)
  moreover have "bridged ?n (Suc ?i) ?i" by (auto simp: bridged_def)
  ultimately obtain nodes where n: "sift_up key ?n ?i (getFatherIndex ?i) = Some nodes" "length nodes = length ?n"
      "ordered_but (\<lambda>_. False) nodes (Suc ?i)" "mset (held nodes (Suc ?i)) = mset (held ?n (Suc ?i))"
    using sift_up_ok [of ?i ?n "Suc ?i" key] i by auto
  have "held ?n (Suc ?i) = held (nodeList h) ?i @ [?e]"
    using i by (simp add: held_def take_Suc_conv_app_nth)
  then show ?thesis
    using n i ok by (simp add: minHeapInsert_def wr8_in heap_ok_def heap_elems_def heap_room_def)
qed

lemma ordered_min:
  assumes "ordered_but (\<lambda>_. False) nodes lim" "1 \<le> j" "j < lim"
  shows "nd_key (nodes ! 1) \<le> nd_key (nodes ! j)"
  using assms(2,3)
proof (induction j rule: less_induct)
  case (less j)
  show ?case
  proof (cases "j = 1")
    case False
    with less have "nd_key (nodes ! 1) \<le> nd_key (nodes ! (j div 2))" by (intro less.IH) auto
    also have "\<dots> \<le> nd_key (nodes ! j)" using assms(1) less.prems False by (simp add: ordered_but_def)
    finally show ?thesis .
  qed simp
qed

lemma minHeapPop_ok:
  assumes h: "heap_ok h" and some: "heap_elems h \<noteq> {#}"
  shows "\<exists>e h'. minHeapPop h node = Some (0, e, h') \<and> heap_ok h' \<and> heap_elems h = add_mset e (heap_elems h')
    \<and> (\<forall>x\<in>#heap_elems h'. nd_key e \<le> nd_key x) \<and> heap_room h' = heap_room h"
proof -
  let ?l = "lastIndex h - 1" and ?nodes = "nodeList h"
  let ?n = "?nodes[?l := ?nodes ! 1, 1 := ?nodes ! ?l]"
  note ok = h [unfolded heap_ok_def]
  have "size (heap_elems h) \<noteq> 0" using some by simp
  then have l: "1 \<le> ?l" "?l < length ?nodes" "lastIndex h = Suc ?l" "lastIndex h \<noteq> 1"
    using ok size_heap_elems [OF h] by auto
  have same: "?n ! j = ?nodes ! j" if "2 \<le> j" "j < ?l" for j using that by simp
  have "ordered_but (\<lambda>j. j div 2 = 1) ?n ?l"
    unfolding ordered_but_def
  proof (intro allI impI)
    fix j assume j: "2 \<le> j" "j < ?l" "j div 2 \<noteq> 1"
    then have "2 \<le> j div 2" "j div 2 < ?l" by auto
    with j same ok show "nd_key (?n ! (j div 2)) \<le> nd_key (?n ! j)" by (simp add: ordered_but_def)
  qed
  moreover have "bridged ?n ?l 1" by (simp add: bridged_def)
  ultimately obtain nodes where n: "sift_down ?n ?l 1 = Some nodes" "length nodes = length ?n"
      "ordered_but (\<lambda>_. False) nodes ?l" "mset (held nodes ?l) = mset (held ?n ?l)"
    using sift_down_ok [of 1 ?n ?l] l by auto
  have "heap_elems h = mset (held ?n (Suc ?l))"
    using mset_held_swap [of 1 "Suc ?l" ?l ?nodes] mset_held_swap [of ?l "Suc ?l" 1 ?nodes] l
    by (simp add: heap_elems_def)
  also have "held ?n (Suc ?l) = held ?n ?l @ [?n ! ?l]"
    using l by (intro held_Suc) simp_all
  also have "?n ! ?l = ?nodes ! 1" using l by (auto simp: nth_list_update)
  finally have elems: "heap_elems h = add_mset (?nodes ! 1) (mset (held nodes ?l))" using n(4) by simp
  have min: "nd_key (?nodes ! 1) \<le> nd_key x" if "x \<in># heap_elems h" for x
  proof -
    from that obtain k where "x = held ?nodes (lastIndex h) ! k" "k < length (held ?nodes (lastIndex h))"
      by (auto simp: heap_elems_def in_set_conv_nth)
    with l have "x = ?nodes ! Suc k" "Suc k < lastIndex h" by (auto simp: held_def)
    with ordered_min [of ?nodes "lastIndex h" "Suc k"] ok show ?thesis by simp
  qed
  have "minHeapPop h node = Some (0, ?nodes ! 1, h\<lparr>nodeList := nodes, lastIndex := ?l\<rparr>)"
    using n(1) l ok by (simp add: minHeapPop_def rd8_in swap_nodes_eq)
  then show ?thesis
    using n l ok elems min by (fastforce simp: heap_ok_def heap_elems_def heap_room_def)
qed

definition heap_ins :: "'d minHeapNode \<Rightarrow> 'd minheap \<Rightarrow> (int \<times> 'd minheap) option" where
  "heap_ins e h = minHeapInsert h (nd_key e) (nd_data e)"

definition heap_pop :: "'d minHeapNode \<Rightarrow> 'd minheap \<Rightarrow> ('d minHeapNode option \<times> 'd minheap) option" where
  "heap_pop node h = map_option (\<lambda>(r, e, h). (if r = 0 then Some e else None, h)) (minHeapPop h node)"

interpretation heap_queue: priority_queue heap_ok heap_elems heap_room nd_key heap_ins "heap_pop node" for node
proof
  fix h :: "'a minheap" and e :: "'a minHeapNode"
  assume h: "heap_ok h"
  show "\<exists>h'. heap_ins e h = Some (0, h') \<and> heap_ok h' \<and> heap_elems h' = add_mset e (heap_elems h) \<and> heap_room h' = heap_room h"
    if "size (heap_elems h) < heap_room h"
    using minHeapInsert_ok [OF h that, of "nd_key e" "nd_data e"] by (cases e) (simp add: heap_ins_def)
  show "heap_ins e h = Some (-1, h)" if "heap_room h \<le> size (heap_elems h)"
    using h that size_heap_elems [OF h] by (auto simp: heap_ins_def minHeapInsert_def heap_room_def heap_ok_def)
  show "\<exists>e h'. heap_pop node h = Some (Some e, h') \<and> heap_ok h' \<and> heap_elems h = add_mset e (heap_elems h')
      \<and> (\<forall>x\<in>#heap_elems h'. nd_key e \<le> nd_key x) \<and> heap_room h' = heap_room h"
    if "heap_elems h \<noteq> {#}"
    using minHeapPop_ok [OF h that, of node] by (auto simp: heap_pop_def)
  show "heap_pop node h = Some (None, h)" if "heap_elems h = {#}"
    using h size_heap_elems [OF h] that by (auto simp: heap_pop_def minHeapPop_def heap_ok_def)
qed

lemma minHeapInit_ok:
  assumes "0 < n" "n \<le> 2 ^ 30"
  obtains h where "minHeapInit True True n = Some h" "heap_ok h" "heap_elems h = {#}" "heap_room h = nat n - 2"
proof
  show "minHeapInit True True n = Some \<lparr>nodeList = replicate (nat n) \<lparr>nd_key = 0, nd_data = None\<rparr>,
      headIndex = 1, lastIndex = 1, maxNum = nat n\<rparr>"
    using assms by (simp add: minHeapInit_def)
qed (use assms in \<open>auto simp: heap_ok_def ordered_but_def heap_elems_def held_def heap_room_def take_Suc drop_Suc gr0_conv_Suc\<close>)

lemma none_below: "filter_mset (\<lambda>x. nd_key x < k) M = {#} \<longleftrightarrow> (\<forall>x\<in>#M. k \<le> nd_key x)"
  by (induction M) (auto simp: not_less)

section \<open>Properties\<close>

text \<open>
  C30. The heap is a priority queue of capacity \<open>maxNum - 2\<close>. A heap made for \<open>n\<close> nodes answers every
  sequence of insertions and extractions, in any order and of any length, as such a queue does: an
  insertion succeeds exactly while fewer than \<open>n - 2\<close> nodes are in it and otherwise returns -1 and
  changes nothing, an extraction gives one of the nodes of least key among those put in and not taken
  out, with its data, and fails exactly on the empty heap. No access leaves the array, and the heap is
  well formed after it. The capacity is \<open>n - 2\<close> and not more: node 0 is never used, and the test of
  \<open>_minHeapInsert\<close> keeps the last one free.
\<close>

theorem minheap_queue:
  assumes "0 < n" "n \<le> 2 ^ 30"
  shows "\<exists>h answers h'. minHeapInit True True n = Some h
    \<and> pq_run heap_ins (heap_pop node) ops h = Some (answers, h')
    \<and> pq_allows nd_key (nat n - 2) {#} ops answers \<and> heap_ok h'"
proof -
  obtain h where h: "minHeapInit True True n = Some (h :: 'a minheap)" "heap_ok h" "heap_elems h = {#}"
      "heap_room h = nat n - 2"
    using minHeapInit_ok [OF assms] by blast
  with heap_queue.run_allowed [OF h(2), of node ops] show ?thesis by auto
qed

theorem minheap_queue_witness:
  "\<exists>h answers h'. minHeapInit True True 4 = Some h
    \<and> pq_run heap_ins (heap_pop \<lparr>nd_key = 0, nd_data = None\<rparr>)
       [Insert \<lparr>nd_key = 3, nd_data = Some (1 :: nat)\<rparr>, Insert \<lparr>nd_key = -1, nd_data = None\<rparr>,
        Insert \<lparr>nd_key = 7, nd_data = None\<rparr>, Extract, Insert \<lparr>nd_key = 2, nd_data = Some 3\<rparr>, Extract, Extract, Extract] h
       = Some (answers, h')
    \<and> pq_allows nd_key (nat 4 - 2) {#}
       [Insert \<lparr>nd_key = 3, nd_data = Some (1 :: nat)\<rparr>, Insert \<lparr>nd_key = -1, nd_data = None\<rparr>,
        Insert \<lparr>nd_key = 7, nd_data = None\<rparr>, Extract, Insert \<lparr>nd_key = 2, nd_data = Some 3\<rparr>, Extract, Extract, Extract]
       answers \<and> heap_ok h'"
  by (rule minheap_queue) simp_all

text \<open>
  Sorting with the heap. Up to \<open>maxNum - 2\<close> nodes inserted into a new heap, in any order, come out of
  it in the order of their keys, none lost and none made up, and no access leaves the array. The
  capacity is \<open>maxNum - 2\<close>: node 0 is never used, and the last one is kept free by the test.
\<close>

theorem minheap_sorts:
  assumes "0 < n" "n \<le> 2 ^ 30" "length es \<le> nat n - 2"
  shows "\<exists>es' h'. do {
      h \<leftarrow> minHeapInit True True n;
      h \<leftarrow> for_each (\<lambda>e h. map_option snd (heap_ins e h)) es h;
      drain (heap_pop node) (length es) h } = Some (es', h')
    \<and> sorted (map nd_key es') \<and> mset es' = mset es \<and> lastIndex h' = 1"
proof -
  obtain h where h: "minHeapInit True True n = Some (h :: 'a minheap)" "heap_ok h" "heap_elems h = {#}" "heap_room h = nat n - 2"
    using minHeapInit_ok [OF assms(1,2)] by blast
  obtain h1 where h1: "for_each (\<lambda>e h. map_option snd (heap_ins e h)) es h = Some h1" "heap_ok h1" "heap_elems h1 = mset es"
    using heap_queue.insert_all [OF h(2), of es] h(3,4) assms(3) by auto
  obtain es' h' where "drain (heap_pop node) (length es) h1 = Some (es', h')" "heap_ok h'" "sorted (map nd_key es')"
      "mset es' = mset es" "heap_elems h' = {#}"
    using heap_queue.drain_sorted [OF h1(2), of "length es" node] h1(3) by auto
  with h h1 size_heap_elems [of h'] show ?thesis by (auto simp: heap_ok_def)
qed

theorem minheap_sorts_witness:
  "\<exists>es' h'. do {
      h \<leftarrow> minHeapInit True True 5;
      h \<leftarrow> for_each (\<lambda>e h. map_option snd (heap_ins e h))
        [\<lparr>nd_key = 3, nd_data = Some (1 :: nat)\<rparr>, \<lparr>nd_key = -1, nd_data = None\<rparr>, \<lparr>nd_key = 3, nd_data = Some 3\<rparr>] h;
      drain (heap_pop \<lparr>nd_key = 0, nd_data = None\<rparr>)
        (length [\<lparr>nd_key = 3, nd_data = Some (1 :: nat)\<rparr>, \<lparr>nd_key = -1, nd_data = None\<rparr>, \<lparr>nd_key = 3, nd_data = Some 3\<rparr>]) h }
      = Some (es', h')
    \<and> sorted (map nd_key es')
    \<and> mset es' = mset [\<lparr>nd_key = 3, nd_data = Some (1 :: nat)\<rparr>, \<lparr>nd_key = -1, nd_data = None\<rparr>, \<lparr>nd_key = 3, nd_data = Some 3\<rparr>]
    \<and> lastIndex h' = 1"
  by (rule minheap_sorts) simp_all

text \<open>
  The operations of the heap. Inserting adds the node, or returns -1 and changes nothing when the
  heap is full; popping takes out a node whose key is minimal, or returns -1 and changes neither the
  heap nor the caller's node when the heap is empty. Both keep the heap well formed.
\<close>

theorem minheap_operations:
  assumes "heap_ok h"
  shows "(if size (heap_elems h) < maxNum h - 2
        then \<exists>h'. minHeapInsert h key data = Some (0, h') \<and> heap_ok h'
          \<and> heap_elems h' = add_mset \<lparr>nd_key = key, nd_data = data\<rparr> (heap_elems h)
        else minHeapInsert h key data = Some (-1, h))
    \<and> (if heap_elems h = {#} then minHeapPop h node = Some (-1, node, h)
       else \<exists>e h'. minHeapPop h node = Some (0, e, h') \<and> heap_ok h' \<and> heap_elems h = add_mset e (heap_elems h')
         \<and> filter_mset (\<lambda>x. nd_key x < nd_key e) (heap_elems h') = {#})"
  using minHeapInsert_ok [OF assms, of key data] minHeapPop_ok [OF assms, of node]
    heap_queue.ins_full [OF assms, of "\<lparr>nd_key = key, nd_data = data\<rparr>"] size_heap_elems [OF assms] assms
  by (auto simp: heap_room_def heap_ins_def minHeapPop_def heap_ok_def not_less none_below)

definition demo_heap :: "nat minheap" where
  "demo_heap = \<lparr>nodeList = [\<lparr>nd_key = 0, nd_data = None\<rparr>, \<lparr>nd_key = 2, nd_data = Some 7\<rparr>,
     \<lparr>nd_key = 5, nd_data = None\<rparr>, \<lparr>nd_key = 0, nd_data = None\<rparr>], headIndex = 1, lastIndex = 3, maxNum = 4\<rparr>"

lemma demo_heap_ok: "heap_ok demo_heap"
proof -
  have "j = 2" if "2 \<le> j" "j < 3" for j :: nat using that by simp
  then show ?thesis by (auto simp: heap_ok_def demo_heap_def ordered_but_def)
qed

theorem minheap_operations_witness:
  "(if size (heap_elems demo_heap) < maxNum demo_heap - 2
        then \<exists>h'. minHeapInsert demo_heap 1 None = Some (0, h') \<and> heap_ok h'
          \<and> heap_elems h' = add_mset \<lparr>nd_key = 1, nd_data = None\<rparr> (heap_elems demo_heap)
        else minHeapInsert demo_heap 1 None = Some (-1, demo_heap))
    \<and> (if heap_elems demo_heap = {#}
       then minHeapPop demo_heap \<lparr>nd_key = 0, nd_data = None\<rparr> = Some (-1, \<lparr>nd_key = 0, nd_data = None\<rparr>, demo_heap)
       else \<exists>e h'. minHeapPop demo_heap \<lparr>nd_key = 0, nd_data = None\<rparr> = Some (0, e, h') \<and> heap_ok h'
         \<and> heap_elems demo_heap = add_mset e (heap_elems h') \<and> filter_mset (\<lambda>x. nd_key x < nd_key e) (heap_elems h') = {#})"
  by (rule minheap_operations [OF demo_heap_ok])

end
