(* ===== verification/SearchSort.thy ===== *)
theory SearchSort
  imports Prelude "HOL-Library.Multiset"
begin

text \<open>
  \<open>fun_sort/bsearch.c\<close> and \<open>fun_sort/qsort.c\<close>. \<open>compare\<close> is the caller's function, an argument of the
  model; \<open>comparator\<close> states what a caller has to provide: the comparison of a total preorder.

  For \<open>bsearch\<close> the array is the list of its elements. For \<open>qsort\<close> it is the memory from \<open>base\<close> on, a list of
  bytes, and an element is the block of \<open>size\<close> bytes at \<open>i * size\<close>: a product of two \<open>int\<close>s, which is
  undefined when it overflows (\<open>prod32\<close>). All the other arithmetic on the indices \<open>i\<close>, \<open>j\<close>, \<open>p\<close>, \<open>q\<close>, \<open>k\<close> stays
  between \<open>-1\<close> and the number of elements; the two scans, whose ends depend on \<open>compare\<close>, check it. Only
  accesses are checked, not the forming of the address of an element that is not there.

  The calls of \<open>xj_exch\<close> in \<open>qsort.c\<close> name a function that no file defines: \<open>xj_exch\<close> is a parameter of
  the model, and the interface \<open>exchanger\<close> says what the code relies on. The function \<open>exch\<close> that the
  same file defines, with the same parameters, and never calls, is shown to be one.
\<close>

section \<open>bsearch.c\<close>

text \<open>The result is the index of the element whose address is returned, or \<^term>\<open>None\<close> for \<open>NULL\<close>.\<close>

function bsearch_loop :: "'e list \<Rightarrow> 'k \<Rightarrow> ('k \<Rightarrow> 'e \<Rightarrow> int) \<Rightarrow> nat \<Rightarrow> nat \<Rightarrow> nat option option" where
  "bsearch_loop base key cmp start end =
     (if start < end then do {
        let mid = start + (end - start) div 2;
        elt \<leftarrow> rd8 base mid;
        let result = cmp key elt;
        if result < 0 then bsearch_loop base key cmp start mid
        else if result > 0 then bsearch_loop base key cmp (mid + 1) end
        else Some (Some mid) }
      else Some None)"
  by pat_completeness auto
termination by (relation "measure (\<lambda>(_, _, _, start, end). end - start)") auto

declare bsearch_loop.simps [simp del]

definition bsearch :: "'e list \<Rightarrow> 'k \<Rightarrow> nat \<Rightarrow> ('k \<Rightarrow> 'e \<Rightarrow> int) \<Rightarrow> nat option option" where
  "bsearch base key num cmp = bsearch_loop base key cmp 0 num"

section \<open>qsort.c\<close>

text \<open>The product of two \<open>int\<close>s; undefined when it overflows.\<close>

definition prod32 :: "int \<Rightarrow> int \<Rightarrow> int option" where
  "prod32 x y = (if - (2 ^ 31) \<le> x * y \<and> x * y < 2 ^ 31 then Some (x * y) else None)"

text \<open>What \<open>compare\<close> finds at \<open>base+i*size\<close>.\<close>

definition el :: "int \<Rightarrow> bytes \<Rightarrow> int \<Rightarrow> bytes option" where
  "el sz a i = do {
     off \<leftarrow> prod32 i sz;
     if off < 0 \<or> int (length a) < off + sz then None
     else Some (take (nat sz) (drop (nat off) a)) }"

definition exch :: "int \<Rightarrow> bytes \<Rightarrow> int \<Rightarrow> int \<Rightarrow> bytes option" where
  "exch sz base a b = do {
     x \<leftarrow> prod32 a sz;
     y \<leftarrow> prod32 b sz;
     if x < 0 \<or> y < 0 then None
     else for_each (\<lambda>k base. do {
         z \<leftarrow> rd8 base (nat x + k);
         w \<leftarrow> rd8 base (nat y + k);
         base \<leftarrow> wr8 base (nat x + k) w;
         wr8 base (nat y + k) z }) [0..<nat sz] base }"

text \<open>The parameter \<open>xj_exch\<close>, by the size of an element.\<close>

type_synonym exch_function = "int \<Rightarrow> bytes \<Rightarrow> int \<Rightarrow> int \<Rightarrow> bytes option"

text \<open>\<open>while (++i != r && compare(base+i*size,v)<0) ;\<close>\<close>

function scan_up :: "(bytes \<Rightarrow> bytes \<Rightarrow> int) \<Rightarrow> int \<Rightarrow> bytes \<Rightarrow> int \<Rightarrow> int \<Rightarrow> int option" where
  "scan_up compare sz a r i =
     (if i + 1 \<ge> 2 ^ 31 then None
      else if i + 1 = r then Some (i + 1)
      else do {
        x \<leftarrow> el sz a (i + 1);
        v \<leftarrow> el sz a r;
        if compare x v < 0 then scan_up compare sz a r (i + 1) else Some (i + 1) })"
  by pat_completeness auto
termination
  by (relation "measure (\<lambda>(_, _, _, _, i). nat (2 ^ 31 - i))") auto

text \<open>\<open>while (compare(v,base+(--j)*size)<0) if (j == l) break;\<close>\<close>

function scan_down :: "(bytes \<Rightarrow> bytes \<Rightarrow> int) \<Rightarrow> int \<Rightarrow> bytes \<Rightarrow> int \<Rightarrow> int \<Rightarrow> int \<Rightarrow> int option" where
  "scan_down compare sz a l r j = do {
     v \<leftarrow> el sz a r;
     x \<leftarrow> (if j - 1 < - (2 ^ 31) then None else el sz a (j - 1));
     if compare v x < 0 then
       (if j - 1 = l then Some (j - 1) else scan_down compare sz a l r (j - 1))
     else Some (j - 1) }"
  by pat_completeness auto
termination
  by (relation "measure (\<lambda>(_, _, _, _, _, j). nat (j + 2 ^ 31))") (auto split: if_splits)

declare scan_up.simps [simp del] scan_down.simps [simp del]

lemma scan_up_less: "scan_up compare sz a r i = Some i' \<Longrightarrow> i < i'"
proof (induction compare sz a r i rule: scan_up.induct)
  case (1 compare sz a r i)
  then show ?case by (subst (asm) (2) scan_up.simps) (fastforce split: if_splits Option.bind_splits)
qed

lemma scan_down_less: "scan_down compare sz a l r j = Some j' \<Longrightarrow> j' < j"
proof (induction compare sz a l r j rule: scan_down.induct)
  case (1 compare sz a l r j)
  then show ?case by (subst (asm) (2) scan_down.simps) (fastforce split: if_splits Option.bind_splits)
qed

text \<open>The body of the endless loop after the two scans; \<^term>\<open>None\<close> inside is the \<open>break\<close>.\<close>

definition part_step :: "exch_function \<Rightarrow> (bytes \<Rightarrow> bytes \<Rightarrow> int) \<Rightarrow> int \<Rightarrow> int \<Rightarrow> bytes \<Rightarrow> int \<Rightarrow> int \<Rightarrow> int \<Rightarrow> int \<Rightarrow> (bytes \<times> int \<times> int) option" where
  "part_step xj_exch compare sz r a i j p q = do {
     a \<leftarrow> xj_exch sz a i j;
     x \<leftarrow> el sz a i;
     v \<leftarrow> el sz a r;
     (a, p) \<leftarrow> (if compare x v = 0 then do { a \<leftarrow> xj_exch sz a (p + 1) i; Some (a, p + 1) } else Some (a, p));
     v \<leftarrow> el sz a r;
     y \<leftarrow> el sz a j;
     (a, q) \<leftarrow> (if compare v y = 0 then do { a \<leftarrow> xj_exch sz a j (q - 1); Some (a, q - 1) } else Some (a, q));
     Some (a, p, q) }"

function part_loop :: "exch_function \<Rightarrow> (bytes \<Rightarrow> bytes \<Rightarrow> int) \<Rightarrow> int \<Rightarrow> int \<Rightarrow> int \<Rightarrow> bytes \<Rightarrow> int \<Rightarrow> int \<Rightarrow> int \<Rightarrow> int
    \<Rightarrow> (bytes \<times> int \<times> int \<times> int) option" where
  "part_loop xj_exch compare sz l r a i j p q = (case scan_up compare sz a r i of
     None \<Rightarrow> None
   | Some i' \<Rightarrow> (case scan_down compare sz a l r j of
       None \<Rightarrow> None
     | Some j' \<Rightarrow>
         if i' \<ge> j' then Some (a, i', p, q)
         else do {
           (a, p, q) \<leftarrow> part_step xj_exch compare sz r a i' j' p q;
           part_loop xj_exch compare sz l r a i' j' p q }))"
  by pat_completeness auto
termination
  by (relation "measure (\<lambda>(_, _, _, _, _, _, i, j, _, _). nat (j - i))") (auto dest!: scan_up_less scan_down_less)

declare part_loop.simps [simp del]

text \<open>\<open>for (k=l; k<p; k++, j--) xj_exch(base,size,k,j);\<close> and its mirror image, \<open>n\<close> turns of them.\<close>

primrec gather_left :: "exch_function \<Rightarrow> int \<Rightarrow> bytes \<Rightarrow> nat \<Rightarrow> int \<Rightarrow> int \<Rightarrow> (bytes \<times> int) option" where
  "gather_left xj_exch sz a 0 k j = Some (a, j)"
| "gather_left xj_exch sz a (Suc n) k j = do {
     a \<leftarrow> xj_exch sz a k j;
     gather_left xj_exch sz a n (k + 1) (j - 1) }"

primrec gather_right :: "exch_function \<Rightarrow> int \<Rightarrow> bytes \<Rightarrow> nat \<Rightarrow> int \<Rightarrow> int \<Rightarrow> (bytes \<times> int) option" where
  "gather_right xj_exch sz a 0 k i = Some (a, i)"
| "gather_right xj_exch sz a (Suc n) k i = do {
     a \<leftarrow> xj_exch sz a i k;
     gather_right xj_exch sz a n (k - 1) (i + 1) }"

text \<open>Everything before the recursive calls: the array and the new bounds \<open>j\<close> and \<open>i\<close>.\<close>

definition partition_step :: "exch_function \<Rightarrow> (bytes \<Rightarrow> bytes \<Rightarrow> int) \<Rightarrow> int \<Rightarrow> bytes \<Rightarrow> int \<Rightarrow> int \<Rightarrow> (bytes \<times> int \<times> int) option" where
  "partition_step xj_exch compare sz a l r = do {
     (a, i, p, q) \<leftarrow> part_loop xj_exch compare sz l r a (l - 1) r (l - 1) r;
     a \<leftarrow> xj_exch sz a i r;
     let j = i - 1;
     let i = i + 1;
     (a, j) \<leftarrow> gather_left xj_exch sz a (nat (p - l)) l j;
     (a, i) \<leftarrow> gather_right xj_exch sz a (nat (r - 1 - q)) (r - 1) i;
     Some (a, j, i) }"

text \<open>The bounds that make the recursion end hold whatever \<open>compare\<close> answers.\<close>

lemma scan_up_le: "scan_up compare sz a r i = Some i' \<Longrightarrow> i < r \<Longrightarrow> i' \<le> r"
proof (induction compare sz a r i rule: scan_up.induct)
  case (1 compare sz a r i)
  then show ?case by (subst (asm) (2) scan_up.simps) (fastforce split: if_splits Option.bind_splits)
qed

lemma part_loop_bounds:
  "part_loop xj_exch compare sz l r a i j p q = Some (a', i', p', q') \<Longrightarrow> i < r \<Longrightarrow> j \<le> r \<Longrightarrow> i < i' \<and> i' \<le> r"
proof (induction xj_exch compare sz l r a i j p q rule: part_loop.induct)
  case (1 xj_exch compare sz l r a i j p q)
  from 1(2) obtain i1 j1 where s: "scan_up compare sz a r i = Some i1" "scan_down compare sz a l r j = Some j1"
    by (subst (asm) part_loop.simps) (auto split: option.splits)
  note b = scan_up_less [OF s(1)] scan_up_le [OF s(1) 1(3)] scan_down_less [OF s(2)]
  show ?case
  proof (cases "i1 \<ge> j1")
    case True
    with 1(2) s b show ?thesis by (subst (asm) part_loop.simps) simp
  next
    case False
    with 1(2) s obtain a1 p1 q1 where st: "part_step xj_exch compare sz r a i1 j1 p q = Some (a1, p1, q1)"
      "part_loop xj_exch compare sz l r a1 i1 j1 p1 q1 = Some (a', i', p', q')"
      by (subst (asm) part_loop.simps) (auto split: Option.bind_splits)
    with 1(1) [OF s False st(1) refl refl st(2)] b 1(4) False show ?thesis by simp
  qed
qed

lemma gather_bounds:
  "gather_left xj_exch sz a n k j = Some (a', j') \<Longrightarrow> j' \<le> j"
  "gather_right xj_exch sz a n k i = Some (a', i') \<Longrightarrow> i \<le> i'"
  by (induction n arbitrary: a k j i) (fastforce split: Option.bind_splits)+

lemma partition_step_bounds:
  assumes "partition_step xj_exch compare sz a l r = Some (a', j, i)" "l < r"
  shows "j < r \<and> l < i"
proof -
  obtain a1 i1 p q a2 a3 where s: "part_loop xj_exch compare sz l r a (l - 1) r (l - 1) r = Some (a1, i1, p, q)"
    "gather_left xj_exch sz a2 (nat (p - l)) l (i1 - 1) = Some (a3, j)" "gather_right xj_exch sz a3 (nat (r - 1 - q)) (r - 1) (i1 + 1) = Some (a', i)"
    using assms(1) by (auto simp: partition_step_def Let_def split: Option.bind_splits)
  show ?thesis
    using part_loop_bounds [OF s(1)] gather_bounds(1) [OF s(2)] gather_bounds(2) [OF s(3)] assms(2) by auto
qed

function quicksort :: "exch_function \<Rightarrow> (bytes \<Rightarrow> bytes \<Rightarrow> int) \<Rightarrow> int \<Rightarrow> bytes \<Rightarrow> int \<Rightarrow> int \<Rightarrow> bytes option" where
  "quicksort xj_exch compare sz a l r =
     (case prod32 r sz of
        None \<Rightarrow> None
      | Some v \<Rightarrow> if r \<le> l then Some a
      else do {
        (a, j, i) \<leftarrow> partition_step xj_exch compare sz a l r;
        a \<leftarrow> quicksort xj_exch compare sz a l j;
        quicksort xj_exch compare sz a i r })"
  by pat_completeness auto
termination
  by (relation "measure (\<lambda>(_, _, _, _, l, r). nat (r - l))") (auto dest!: partition_step_bounds)

declare quicksort.simps [simp del]

text \<open>A negative \<open>int\<close> compared with an \<open>unsigned int\<close> is above its half.\<close>

definition qsort :: "exch_function \<Rightarrow> bytes \<Rightarrow> int \<Rightarrow> int \<Rightarrow> (bytes \<Rightarrow> bytes \<Rightarrow> int) \<Rightarrow> bytes option" where
  "qsort xj_exch base nmemb sz compare =
     (if nmemb < 0 \<or> nmemb \<ge> 2147483647 \<or> sz < 0 \<or> sz \<ge> 2147483647 then Some base
      else if nmemb > 1 then quicksort xj_exch compare sz base 0 (nmemb - 1)
      else Some base)"

section \<open>Binary search\<close>

text \<open>Elements before the key come first, elements after it last.\<close>

definition searchable :: "('k \<Rightarrow> 'e \<Rightarrow> int) \<Rightarrow> 'k \<Rightarrow> 'e list \<Rightarrow> bool" where
  "searchable cmp key xs \<longleftrightarrow> sorted_wrt (\<lambda>x y. (cmp key x < 0 \<longrightarrow> cmp key y < 0) \<and> (cmp key y > 0 \<longrightarrow> cmp key x > 0)) xs"

lemma bsearch_loop_ok:
  assumes "end \<le> length base" "searchable cmp key base"
    and "\<forall>k < start. cmp key (base ! k) \<noteq> 0" "\<forall>k\<ge>end. k < length base \<longrightarrow> cmp key (base ! k) \<noteq> 0"
  shows "\<exists>res. bsearch_loop base key cmp start end = Some res \<and> (case res of
      Some m \<Rightarrow> m < length base \<and> cmp key (base ! m) = 0 | None \<Rightarrow> \<forall>k<length base. cmp key (base ! k) \<noteq> 0)"
  using assms
proof (induction base key cmp start "end" rule: bsearch_loop.induct)
  case (1 base key cmp start "end")
  show ?case
  proof (cases "start < end")
    case False
    with 1(5,6) have "\<forall>k<length base. cmp key (base ! k) \<noteq> 0" by (meson not_less le_less_trans)
    with False show ?thesis by (subst bsearch_loop.simps) simp
  next
    case True
    define mid where "mid = start + (end - start) div 2"
    have mid: "start \<le> mid" "mid < end" "mid < length base" using True 1(3) by (auto simp: mid_def)
    have sorted: "k < m \<Longrightarrow> m < length base \<Longrightarrow> cmp key (base ! k) < 0 \<Longrightarrow> cmp key (base ! m) < 0"
      "k < m \<Longrightarrow> m < length base \<Longrightarrow> cmp key (base ! m) > 0 \<Longrightarrow> cmp key (base ! k) > 0" for k m
      using 1(4) by (auto simp: searchable_def sorted_wrt_iff_nth_less)
    have rd: "rd8 base mid = Some (base ! mid)" using mid(3) by (simp add: rd8_in)
    consider "cmp key (base ! mid) < 0" | "cmp key (base ! mid) > 0" | "cmp key (base ! mid) = 0" by linarith
    then show ?thesis
    proof cases
      case 1
      have "\<forall>k\<ge>mid. k < length base \<longrightarrow> cmp key (base ! k) \<noteq> 0"
        using sorted(1) [of mid] 1 by (metis le_neq_implies_less less_irrefl)
      with "1.IH"(1) [OF True mid_def rd refl] "1.prems" mid 1 show ?thesis
        using True rd by (subst bsearch_loop.simps) (simp add: mid_def [symmetric])
    next
      case 2
      have "\<forall>k<mid + 1. cmp key (base ! k) \<noteq> 0"
        using sorted(2) [of _ mid] 2 mid(3) by (metis less_add_one less_antisym less_irrefl Suc_eq_plus1)
      with "1.IH"(2) [OF True mid_def rd refl] "1.prems" mid 2 show ?thesis
        using True rd by (subst bsearch_loop.simps) (simp add: mid_def [symmetric])
    next
      case 3
      with True rd mid(3) show ?thesis by (subst bsearch_loop.simps) (simp add: mid_def [symmetric])
    qed
  qed
qed

section \<open>Exchanges within bounds\<close>

text \<open>
  Element \<open>k\<close> of the array, and all of it. Of \<open>n\<close> bytes, \<open>addressable\<close> is the number of elements that can be
  accessed: those that are inside and whose offset is an \<open>int\<close>.
\<close>

definition at :: "int \<Rightarrow> bytes \<Rightarrow> int \<Rightarrow> bytes" where
  "at sz a k = take (nat sz) (drop (nat (k * sz)) a)"

definition elements :: "int \<Rightarrow> bytes \<Rightarrow> bytes list" where
  "elements sz a = map (\<lambda>k. at sz a (int k)) [0..<length a div nat sz]"

definition addressable :: "int \<Rightarrow> nat \<Rightarrow> int" where
  "addressable sz n = (if 0 < sz \<and> sz < 2 ^ 31 then min (int n div sz) ((2 ^ 31 - 1) div sz + 1) else 0)"

lemma addressable_bounds:
  assumes "0 \<le> i" "i < addressable sz n"
  shows "0 < sz" "sz < 2 ^ 31" "(i + 1) * sz \<le> int n" "i * sz < 2 ^ 31" "i < 2 ^ 31" "nat i < n div nat sz"
proof -
  show sz: "0 < sz" "sz < 2 ^ 31" using assms by (auto simp: addressable_def split: if_splits)
  have i: "i + 1 \<le> int n div sz" "i \<le> (2 ^ 31 - 1) div sz" using assms(2) sz by (auto simp: addressable_def)
  have "(i + 1) * sz \<le> int n div sz * sz" using i(1) sz(1) by (intro mult_right_mono) simp_all
  also have "\<dots> \<le> int n" using sz(1) by (simp add: minus_mod_eq_div_mult [symmetric])
  finally show "(i + 1) * sz \<le> int n" .
  have "i * sz \<le> (2 ^ 31 - 1) div sz * sz" using i(2) sz(1) by (intro mult_right_mono) simp_all
  also have "\<dots> \<le> 2 ^ 31 - 1" using sz(1) by (simp add: minus_mod_eq_div_mult [symmetric])
  finally show "i * sz < 2 ^ 31" by simp
  moreover have "i * 1 \<le> i * sz" using assms(1) sz(1) by (intro mult_left_mono) simp_all
  ultimately show "i < 2 ^ 31" by simp
  have "int (nat i) < int (n div nat sz)" using i(1) sz(1) assms(1) by (simp add: zdiv_int)
  then show "nat i < n div nat sz" by (simp only: of_nat_less_iff)
qed

lemma addressable_all:
  assumes "0 < sz" "int n = nmemb * sz"
  shows "n div nat sz = nat nmemb" "n < 2 ^ 31 \<Longrightarrow> sz < 2 ^ 31 \<Longrightarrow> addressable sz n = nmemb"
proof -
  have q: "int n div sz = nmemb" using assms by simp
  have "int (n div nat sz) = nmemb" using assms by (simp add: zdiv_int)
  then show "n div nat sz = nat nmemb" by linarith
  show "addressable sz n = nmemb" if "n < 2 ^ 31" "sz < 2 ^ 31"
  proof -
    have "nmemb \<le> (2 ^ 31 - 1) div sz" unfolding q [symmetric] using that(1) assms(1) by (intro zdiv_mono1) simp_all
    with q that(2) assms(1) show ?thesis by (simp add: addressable_def)
  qed
qed

lemma el_in: "0 \<le> i \<Longrightarrow> i < addressable sz (length a) \<Longrightarrow> el sz a i = Some (at sz a i)"
proof -
  assume i: "0 \<le> i" "i < addressable sz (length a)"
  note b = addressable_bounds [OF i]
  have "0 \<le> i * sz" using i b by simp
  moreover have "i * sz + sz \<le> int (length a)" using b(3) by (simp add: algebra_simps)
  ultimately show ?thesis using b by (simp add: el_def prod32_def at_def)
qed

lemma prod32_slot:
  assumes "0 < sz" "sz < 2 ^ 31" "-1 \<le> r" "r < addressable sz n"
  shows "prod32 r sz = Some (r * sz)"
proof (cases "r = -1")
  case False
  then have "0 \<le> r" using assms(3) by simp
  moreover from this have "0 \<le> r * sz" using assms(1) by simp
  ultimately show ?thesis using addressable_bounds(4) [of r sz n] assms(4) by (simp add: prod32_def)
qed (use assms in \<open>simp add: prod32_def\<close>)

text \<open>Exchanging two elements, and the interface of a function that does it.\<close>

definition exchanged :: "int \<Rightarrow> bytes \<Rightarrow> int \<Rightarrow> int \<Rightarrow> bytes \<Rightarrow> bool" where
  "exchanged sz a i j b \<longleftrightarrow> length b = length a
     \<and> (\<forall>k\<ge>0. at sz b k = (if k = j then at sz a i else if k = i then at sz a j else at sz a k))"

lemma exchanged_mset:
  assumes "exchanged sz a i j b" "0 \<le> i" "i < addressable sz (length a)" "0 \<le> j" "j < addressable sz (length a)"
  shows "mset (elements sz b) = mset (elements sz a)"
proof -
  let ?e = "elements sz a"
  have n: "nat i < length ?e" "nat j < length ?e"
    using addressable_bounds(6) [OF assms(2,3)] addressable_bounds(6) [OF assms(4,5)] by (simp_all add: elements_def)
  have "elements sz b = ?e[nat i := ?e ! nat j, nat j := ?e ! nat i]"
    using assms n by (intro nth_equalityI) (auto simp: exchanged_def elements_def nth_list_update)
  then show ?thesis using n by (simp only: mset_swap)
qed

locale exchanger =
  fixes xj_exch :: exch_function
  assumes exchanges: "0 \<le> i \<Longrightarrow> i < addressable sz (length a) \<Longrightarrow> 0 \<le> j \<Longrightarrow> j < addressable sz (length a)
    \<Longrightarrow> \<exists>b. xj_exch sz a i j = Some b \<and> exchanged sz a i j b"

text \<open>The function \<open>exch\<close> of the file, byte by byte, is one.\<close>

definition crossed :: "nat \<Rightarrow> nat \<Rightarrow> nat \<Rightarrow> bytes \<Rightarrow> nat \<Rightarrow> u8" where
  "crossed x y n a t = (if y \<le> t \<and> t < y + n then a ! (x + (t - y))
     else if x \<le> t \<and> t < x + n then a ! (y + (t - x)) else a ! t)"

lemma crossed_step:
  assumes "k < n" "x + n \<le> length a" "y + n \<le> length a" "x = y \<or> x + n \<le> y \<or> y + n \<le> x"
    and b: "length b = length a" "\<forall>t<length a. b ! t = crossed x y k a t"
  shows "\<forall>t<length a. b[x + k := b ! (y + k), y + k := b ! (x + k)] ! t = crossed x y (Suc k) a t"
proof (intro allI impI)
  fix t assume t: "t < length a"
  have here: "b ! (x + k) = a ! (x + k)" "b ! (y + k) = a ! (y + k)"
    using assms by (auto simp: crossed_def)
  consider "t = y + k" | "t = x + k" "t \<noteq> y + k" | "t \<noteq> x + k" "t \<noteq> y + k" by blast
  then show "b[x + k := b ! (y + k), y + k := b ! (x + k)] ! t = crossed x y (Suc k) a t"
  proof cases
    case 1
    with here t b(1) show ?thesis by (simp add: crossed_def)
  next
    case 2
    with here t b(1) assms(1,4) show ?thesis by (auto simp: crossed_def)
  next
    case 3
    then have "t < y + Suc k \<longleftrightarrow> t < y + k" "t < x + Suc k \<longleftrightarrow> t < x + k" by auto
    with 3 b t show ?thesis by (simp add: crossed_def)
  qed
qed

lemma exch_loop:
  assumes "x + n \<le> length a" "y + n \<le> length a" "x = y \<or> x + n \<le> y \<or> y + n \<le> x"
  shows "\<exists>b. for_each (\<lambda>k base. do {
         z \<leftarrow> rd8 base (x + k);
         w \<leftarrow> rd8 base (y + k);
         base \<leftarrow> wr8 base (x + k) w;
         wr8 base (y + k) z }) [0..<n] a = Some b
    \<and> (length b = length a \<and> (\<forall>t<length a. b ! t = crossed x y n a t))"
proof (rule for_each_count)
  fix k b
  assume k: "k < n" and b: "length b = length a \<and> (\<forall>t<length a. b ! t = crossed x y k a t)"
  then have "do { z \<leftarrow> rd8 b (x + k); w \<leftarrow> rd8 b (y + k); base \<leftarrow> wr8 b (x + k) w; wr8 base (y + k) z }
      = Some (b[x + k := b ! (y + k), y + k := b ! (x + k)])"
    using assms by (simp add: rd8_in wr8_in)
  with b crossed_step [OF k assms] show "\<exists>b'. do {
         z \<leftarrow> rd8 b (x + k);
         w \<leftarrow> rd8 b (y + k);
         base \<leftarrow> wr8 b (x + k) w;
         wr8 base (y + k) z } = Some b'
    \<and> (length b' = length a \<and> (\<forall>t<length a. b' ! t = crossed x y (Suc k) a t))" by auto
qed (auto simp: crossed_def)

lemma block_iff:
  fixes s :: nat
  assumes "u < s"
  shows "i * s \<le> k * s + u \<and> k * s + u < i * s + s \<longleftrightarrow> k = i"
proof
  assume h: "i * s \<le> k * s + u \<and> k * s + u < i * s + s"
  have "i * s < Suc k * s" "k * s < Suc i * s" using h assms by simp_all
  then show "k = i" unfolding mult_less_cancel2 by simp
qed (use assms in simp)

lemma exch_exchanges:
  assumes "0 \<le> i" "i < addressable sz (length a)" "0 \<le> j" "j < addressable sz (length a)"
  shows "\<exists>b. exch sz a i j = Some b \<and> exchanged sz a i j b"
proof -
  note bi = addressable_bounds [OF assms(1,2)] and bj = addressable_bounds [OF assms(3,4)]
  define s where "s = nat sz"
  have mul: "nat (k * sz) = nat k * s" if "0 \<le> k" for k
    using that bi(1) by (simp add: s_def nat_mult_distrib)
  have fit: "nat i * s + s \<le> length a" "nat j * s + s \<le> length a"
    using bi(1,3) bj(3) assms(1,3) unfolding s_def
    by (simp_all add: nat_mult_distrib [symmetric] nat_add_distrib [symmetric] nat_le_iff algebra_simps)
  have apart: "nat i * s = nat j * s \<or> nat i * s + s \<le> nat j * s \<or> nat j * s + s \<le> nat i * s"
  proof (cases "nat i" "nat j" rule: linorder_cases)
    case less
    from mult_le_mono1 [OF Suc_leI [OF less], of s] show ?thesis by simp
  next
    case greater
    from mult_le_mono1 [OF Suc_leI [OF greater], of s] show ?thesis by simp
  qed simp
  have off: "prod32 i sz = Some (i * sz)" "prod32 j sz = Some (j * sz)" "\<not> i * sz < 0" "\<not> j * sz < 0"
    using prod32_slot [OF bi(1,2) _ assms(2)] prod32_slot [OF bi(1,2) _ assms(4)] assms(1,3) bi(1)
    by (simp_all add: not_less)
  obtain b where b: "exch sz a i j = Some b" "length b = length a"
      "\<forall>t<length a. b ! t = crossed (nat i * s) (nat j * s) s a t"
    using exch_loop [OF fit apart] off by (auto simp: exch_def mul s_def [symmetric] assms(1,3))
  have "at sz b k = (if k = j then at sz a i else if k = i then at sz a j else at sz a k)" if "0 \<le> k" for k
  proof (rule nth_equalityI)
    show "length (at sz b k) = length (if k = j then at sz a i else if k = i then at sz a j else at sz a k)"
      using b(2) fit assms(1,3) by (auto simp: at_def mul s_def [symmetric])
  next
    fix u assume "u < length (at sz b k)"
    then have u: "u < s" "nat k * s + u < length a" using b(2) that by (auto simp: at_def mul s_def [symmetric])
    have "b ! (nat k * s + u) = (if k = j then a ! (nat i * s + u) else if k = i then a ! (nat j * s + u) else a ! (nat k * s + u))"
      using b(3) [rule_format, OF u(2)] that assms(1,3) unfolding crossed_def block_iff [OF u(1)] by auto
    then show "at sz b k ! u = (if k = j then at sz a i else if k = i then at sz a j else at sz a k) ! u"
      using u b(2) that fit assms(1,3) by (auto simp: at_def mul s_def [symmetric])
  qed
  with b(1,2) show ?thesis by (auto simp: exchanged_def)
qed

interpretation own_exch: exchanger exch
  by unfold_locales (rule exch_exchanges)

text \<open>Exchanges between \<open>l\<close> and \<open>r\<close> only.\<close>

inductive swaps :: "int \<Rightarrow> int \<Rightarrow> int \<Rightarrow> bytes \<Rightarrow> bytes \<Rightarrow> bool" for sz l r a where
  none: "swaps sz l r a a"
| more: "swaps sz l r a b \<Longrightarrow> l \<le> i \<Longrightarrow> i \<le> r \<Longrightarrow> l \<le> j \<Longrightarrow> j \<le> r
    \<Longrightarrow> 0 \<le> i \<and> i < addressable sz (length b) \<and> 0 \<le> j \<and> j < addressable sz (length b)
    \<Longrightarrow> exchanged sz b i j c \<Longrightarrow> swaps sz l r a c"

lemma swaps_facts:
  assumes "swaps sz l r a b"
  shows "length b = length a \<and> mset (elements sz b) = mset (elements sz a)
    \<and> (\<forall>k. 0 \<le> k \<longrightarrow> k < l \<or> r < k \<longrightarrow> at sz b k = at sz a k)
    \<and> (\<forall>P. 0 \<le> l \<longrightarrow> (\<forall>k. l \<le> k \<longrightarrow> k \<le> r \<longrightarrow> P (at sz a k)) \<longrightarrow> (\<forall>k. l \<le> k \<longrightarrow> k \<le> r \<longrightarrow> P (at sz b k)))"
  using assms
proof induction
  case (more b i j c)
  have c: "length c = length b" "mset (elements sz c) = mset (elements sz b)"
    "\<forall>k\<ge>0. at sz c k = (if k = j then at sz b i else if k = i then at sz b j else at sz b k)"
    using more(7) exchanged_mset [OF more(7)] more(6) by (auto simp: exchanged_def)
  have "at sz c k = at sz a k" if "0 \<le> k" "k < l \<or> r < k" for k
    using that c(3) more(2-5) more.IH by auto
  moreover have "P (at sz c k)" if "0 \<le> l" "\<forall>k. l \<le> k \<longrightarrow> k \<le> r \<longrightarrow> P (at sz a k)" "l \<le> k" "k \<le> r" for P k
  proof -
    have "\<forall>k. l \<le> k \<longrightarrow> k \<le> r \<longrightarrow> P (at sz b k)" using more.IH that(1,2) by blast
    with c(3) more(2-5) that(1,3,4) show ?thesis by auto
  qed
  ultimately show ?case using c(1,2) more.IH by auto
qed simp

lemmas swaps_length = swaps_facts [THEN conjunct1]
lemmas swaps_mset = swaps_facts [THEN conjunct2, THEN conjunct1]
lemmas swaps_outside = swaps_facts [THEN conjunct2, THEN conjunct2, THEN conjunct1, rule_format]
lemmas swaps_range = swaps_facts [THEN conjunct2, THEN conjunct2, THEN conjunct2, rule_format]

lemma swaps_mono: "swaps sz l r a b \<Longrightarrow> l' \<le> l \<Longrightarrow> r \<le> r' \<Longrightarrow> swaps sz l' r' a b"
proof (induction rule: swaps.induct)
  case (more b i j c)
  then show ?case by (intro swaps.more [of sz l' r' a b i j c]) auto
qed (rule swaps.none)

lemma swaps_trans: "swaps sz l r b c \<Longrightarrow> swaps sz l r a b \<Longrightarrow> swaps sz l r a c"
  by (induction rule: swaps.induct) (auto intro: swaps.more)

section \<open>The partition\<close>

definition comparator :: "(bytes \<Rightarrow> bytes \<Rightarrow> int) \<Rightarrow> bool" where
  "comparator cmp \<longleftrightarrow> (\<forall>x y. cmp x y < 0 \<longleftrightarrow> 0 < cmp y x) \<and> (\<forall>x y z. cmp x y \<le> 0 \<longrightarrow> cmp y z \<le> 0 \<longrightarrow> cmp x z \<le> 0)"

lemma comparator_facts:
  assumes "comparator cmp"
  shows "cmp x y < 0 \<longleftrightarrow> 0 < cmp y x" "cmp x y = 0 \<longleftrightarrow> cmp y x = 0" "cmp x x = 0"
    "cmp x y \<le> 0 \<Longrightarrow> cmp y z \<le> 0 \<Longrightarrow> cmp x z \<le> 0"
proof -
  have a: "cmp u v < 0 \<longleftrightarrow> 0 < cmp v u" for u v using assms by (simp add: comparator_def)
  show "cmp x y < 0 \<longleftrightarrow> 0 < cmp y x" by (rule a)
  show "cmp x y = 0 \<longleftrightarrow> cmp y x = 0" using a [of x y] a [of y x] by linarith
  show "cmp x x = 0" using a [of x x] by linarith
  show "cmp x y \<le> 0 \<Longrightarrow> cmp y z \<le> 0 \<Longrightarrow> cmp x z \<le> 0" using assms unfolding comparator_def by blast
qed

lemma scan_up_ok:
  assumes "-1 \<le> i" "i < r" "r < addressable sz (length a)"
  shows "\<exists>i'. scan_up compare sz a r i = Some i' \<and> i < i' \<and> i' \<le> r
    \<and> (\<forall>k. i < k \<longrightarrow> k < i' \<longrightarrow> compare (at sz a k) (at sz a r) < 0)
    \<and> (i' < r \<longrightarrow> \<not> compare (at sz a i') (at sz a r) < 0)"
  using assms
proof (induction compare sz a r i rule: scan_up.induct)
  case (1 compare sz a r i)
  show ?case
  proof (cases "i + 1 = r")
    case False
    have e: "el sz a (i + 1) = Some (at sz a (i + 1))" "el sz a r = Some (at sz a r)" using 1(2-4) False by (simp_all add: el_in)
    have i: "\<not> 2 ^ 31 \<le> i + 1" using addressable_bounds(5) [of r sz "length a"] 1(2-4) by simp
    show ?thesis
    proof (cases "compare (at sz a (i + 1)) (at sz a r) < 0")
      case True
      with 1(1) [OF i False e True] 1(2-4) False obtain i' where i': "scan_up compare sz a r (i + 1) = Some i'" "i + 1 < i'" "i' \<le> r"
        "\<forall>k. i + 1 < k \<longrightarrow> k < i' \<longrightarrow> compare (at sz a k) (at sz a r) < 0" "i' < r \<longrightarrow> \<not> compare (at sz a i') (at sz a r) < 0"
        by auto
      have "compare (at sz a k) (at sz a r) < 0" if "i < k" "k < i'" for k
        using that True i'(4) by (cases "k = i + 1") auto
      with True False e i i' show ?thesis by (subst scan_up.simps) auto
    next
      case c: False
      have "k = i + 1" if "i < k" "k < i + 2" for k using that by simp
      with c False e i 1(2-4) show ?thesis by (subst scan_up.simps) auto
    qed
  qed (use 1 addressable_bounds(5) [of r sz "length a"] in \<open>subst scan_up.simps, auto\<close>)
qed

lemma scan_down_ok:
  assumes "0 \<le> l" "l < j" "j \<le> r" "r < addressable sz (length a)"
  shows "\<exists>j'. scan_down compare sz a l r j = Some j' \<and> l \<le> j' \<and> j' < j
    \<and> (\<forall>k. j' < k \<longrightarrow> k < j \<longrightarrow> compare (at sz a r) (at sz a k) < 0)
    \<and> (l < j' \<longrightarrow> \<not> compare (at sz a r) (at sz a j') < 0)"
  using assms
proof (induction compare sz a l r j rule: scan_down.induct)
  case (1 compare sz a l r j)
  have e: "(if j - 1 < - (2 ^ 31) then None else el sz a (j - 1)) = Some (at sz a (j - 1))" "el sz a r = Some (at sz a r)"
    using 1(2-5) by (simp_all add: el_in)
  show ?case
  proof (cases "compare (at sz a r) (at sz a (j - 1)) < 0 \<and> j - 1 \<noteq> l")
    case True
    with 1(1) [OF e(2,1)] 1(2-5) obtain j' where j': "scan_down compare sz a l r (j - 1) = Some j'" "l \<le> j'" "j' < j - 1"
      "\<forall>k. j' < k \<longrightarrow> k < j - 1 \<longrightarrow> compare (at sz a r) (at sz a k) < 0" "l < j' \<longrightarrow> \<not> compare (at sz a r) (at sz a j') < 0"
      by auto
    have "compare (at sz a r) (at sz a k) < 0" if "j' < k" "k < j" for k
      using that True j'(4) by (cases "k = j - 1") auto
    with True e j' show ?thesis by (subst scan_down.simps) auto
  next
    case False
    with e 1(2-5) show ?thesis by (subst scan_down.simps) auto
  qed
qed

text \<open>Up to \<open>i\<close> nothing is above the pivot, from \<open>j\<close> on nothing below; equal ones at both ends.\<close>

definition parted :: "(bytes \<Rightarrow> bytes \<Rightarrow> int) \<Rightarrow> int \<Rightarrow> int \<Rightarrow> int \<Rightarrow> bytes \<Rightarrow> int \<Rightarrow> int \<Rightarrow> int \<Rightarrow> int \<Rightarrow> bool" where
  "parted cmp sz l r a i j p q \<longleftrightarrow>
     (\<forall>k. l \<le> k \<longrightarrow> k \<le> p \<longrightarrow> cmp (at sz a k) (at sz a r) = 0) \<and> (\<forall>k. l \<le> k \<longrightarrow> k \<le> i \<longrightarrow> cmp (at sz a k) (at sz a r) \<le> 0)
     \<and> (\<forall>k. j \<le> k \<longrightarrow> k < r \<longrightarrow> cmp (at sz a r) (at sz a k) \<le> 0) \<and> (\<forall>k. q \<le> k \<longrightarrow> k < r \<longrightarrow> cmp (at sz a r) (at sz a k) = 0)"

context exchanger
begin

lemma exch_swaps:
  assumes "0 \<le> l" "r < addressable sz (length a)" "l \<le> i" "i \<le> r" "l \<le> j" "j \<le> r"
  shows "\<exists>b. xj_exch sz a i j = Some b \<and> swaps sz l r a b \<and> length b = length a
    \<and> (\<forall>k\<ge>0. at sz b k = (if k = j then at sz a i else if k = i then at sz a j else at sz a k))"
proof -
  have bounds: "0 \<le> i" "i < addressable sz (length a)" "0 \<le> j" "j < addressable sz (length a)" using assms by linarith+
  obtain b where b: "xj_exch sz a i j = Some b" "exchanged sz a i j b" using exchanges [OF bounds] by blast
  moreover have "swaps sz l r a b" using bounds by (intro swaps.more [OF swaps.none assms(3-6) _ b(2)]) simp
  ultimately show ?thesis by (auto simp: exchanged_def)
qed

lemma part_step_ok:
  assumes cmp: "comparator cmp" and bounds: "0 \<le> l" "r < addressable sz (length a)" "l - 1 \<le> p" "p < i" "l \<le> i" "i < j" "j < q" "q \<le> r"
    and parted: "parted cmp sz l r a (i - 1) (j + 1) p q"
    and stop: "\<not> cmp (at sz a i) (at sz a r) < 0" "\<not> cmp (at sz a r) (at sz a j) < 0"
  shows "\<exists>a' p' q'. part_step xj_exch cmp sz r a i j p q = Some (a', p', q') \<and> swaps sz l (r - 1) a a'
    \<and> parted cmp sz l r a' i j p' q' \<and> l - 1 \<le> p' \<and> p' \<le> i \<and> j \<le> q' \<and> q' \<le> r"
proof -
  note facts = comparator_facts [OF cmp]
  let ?v = "at sz a r"
  have mid: "r - 1 < addressable sz (length a)" using bounds by simp
  note pt = parted [unfolded parted_def]
  obtain b where b: "xj_exch sz a i j = Some b" "swaps sz l (r - 1) a b" "length b = length a"
    "\<forall>k\<ge>0. at sz b k = (if k = j then at sz a i else if k = i then at sz a j else at sz a k)"
    using exch_swaps [OF bounds(1) mid, of i j] bounds by auto
  have vb: "at sz b r = ?v" using b(4) bounds by auto
  have bi: "at sz b i = at sz a j" "at sz b j = at sz a i" using b(4) bounds by auto
  have le: "\<forall>k. l \<le> k \<longrightarrow> k \<le> i \<longrightarrow> cmp (at sz b k) ?v \<le> 0"
    using pt b(4) stop(2) facts(1) [of ?v "at sz a j"] bounds by auto
  have ge: "\<forall>k. j \<le> k \<longrightarrow> k < r \<longrightarrow> cmp ?v (at sz b k) \<le> 0"
    using pt b(4) stop(1) facts(1) [of "at sz a i" ?v] bounds by auto
  have eqs: "\<forall>k. l \<le> k \<longrightarrow> k \<le> p \<longrightarrow> cmp (at sz b k) ?v = 0" "\<forall>k. q \<le> k \<longrightarrow> k < r \<longrightarrow> cmp ?v (at sz b k) = 0"
    using pt b(4) bounds by auto
  have "\<exists>c p'. (if cmp (at sz b i) ?v = 0 then do { a \<leftarrow> xj_exch sz b (p + 1) i; Some (a, p + 1) } else Some (b, p)) = Some (c, p')
      \<and> swaps sz l (r - 1) b c \<and> length c = length b \<and> l - 1 \<le> p' \<and> p' \<le> i \<and> (\<forall>k>i. at sz c k = at sz b k)
      \<and> (\<forall>k. l \<le> k \<longrightarrow> k \<le> p' \<longrightarrow> cmp (at sz c k) ?v = 0) \<and> (\<forall>k. l \<le> k \<longrightarrow> k \<le> i \<longrightarrow> cmp (at sz c k) ?v \<le> 0)"
  proof (cases "cmp (at sz b i) ?v = 0")
    case True
    obtain c where c: "xj_exch sz b (p + 1) i = Some c" "swaps sz l (r - 1) b c" "length c = length b"
      "\<forall>k\<ge>0. at sz c k = (if k = i then at sz b (p + 1) else if k = p + 1 then at sz b i else at sz b k)"
      using exch_swaps [OF bounds(1), of "r - 1" sz b "p + 1" i] bounds b(3) mid by auto
    show ?thesis using True c eqs(1) le bounds by auto
  next
    case False
    then show ?thesis using eqs(1) le bounds swaps.none [of sz l "r - 1" b] by auto
  qed
  then obtain c p' where c: "(if cmp (at sz b i) ?v = 0 then do { a \<leftarrow> xj_exch sz b (p + 1) i; Some (a, p + 1) } else Some (b, p)) = Some (c, p')"
      "swaps sz l (r - 1) b c" "length c = length b" "l - 1 \<le> p'" "p' \<le> i" "\<forall>k>i. at sz c k = at sz b k"
      "\<forall>k. l \<le> k \<longrightarrow> k \<le> p' \<longrightarrow> cmp (at sz c k) ?v = 0" "\<forall>k. l \<le> k \<longrightarrow> k \<le> i \<longrightarrow> cmp (at sz c k) ?v \<le> 0" by blast
  have vc: "at sz c r = ?v" and cj: "at sz c j = at sz b j" using c(6) vb bounds by auto
  have "\<exists>d q'. (if cmp ?v (at sz c j) = 0 then do { a \<leftarrow> xj_exch sz c j (q - 1); Some (a, q - 1) } else Some (c, q)) = Some (d, q')
      \<and> swaps sz l (r - 1) c d \<and> length d = length c \<and> j \<le> q' \<and> q' \<le> r \<and> (\<forall>k. 0 \<le> k \<longrightarrow> k < j \<or> k = r \<longrightarrow> at sz d k = at sz c k)
      \<and> (\<forall>k. q' \<le> k \<longrightarrow> k < r \<longrightarrow> cmp ?v (at sz d k) = 0) \<and> (\<forall>k. j \<le> k \<longrightarrow> k < r \<longrightarrow> cmp ?v (at sz d k) \<le> 0)"
  proof (cases "cmp ?v (at sz c j) = 0")
    case True
    obtain d where d: "xj_exch sz c j (q - 1) = Some d" "swaps sz l (r - 1) c d" "length d = length c"
      "\<forall>k\<ge>0. at sz d k = (if k = q - 1 then at sz c j else if k = j then at sz c (q - 1) else at sz c k)"
      using exch_swaps [OF bounds(1), of "r - 1" sz c j "q - 1"] bounds b(3) c(3) mid by auto
    show ?thesis using True d eqs(2) ge bounds c(6) by auto
  next
    case False
    then show ?thesis using eqs(2) ge bounds c(6) swaps.none [of sz l "r - 1" c] by auto
  qed
  then obtain d q' where d: "(if cmp ?v (at sz c j) = 0 then do { a \<leftarrow> xj_exch sz c j (q - 1); Some (a, q - 1) } else Some (c, q)) = Some (d, q')"
      "swaps sz l (r - 1) c d" "length d = length c" "j \<le> q'" "q' \<le> r" "\<forall>k. 0 \<le> k \<longrightarrow> k < j \<or> k = r \<longrightarrow> at sz d k = at sz c k"
      "\<forall>k. q' \<le> k \<longrightarrow> k < r \<longrightarrow> cmp ?v (at sz d k) = 0" "\<forall>k. j \<le> k \<longrightarrow> k < r \<longrightarrow> cmp ?v (at sz d k) \<le> 0" by blast
  have rd: "el sz b i = Some (at sz b i)" "el sz b r = Some ?v" "el sz c r = Some ?v" "el sz c j = Some (at sz c j)"
    using bounds b(3) c(3) vb vc by (auto simp: el_in)
  have "part_step xj_exch cmp sz r a i j p q = Some (d, p', q')"
    by (simp only: part_step_def b(1) rd c(1) d(1) Option.bind.simps prod.case)
  moreover have "swaps sz l (r - 1) a d" using b(2) c(2) d(2) by (blast intro: swaps_trans)
  moreover have "parted cmp sz l r d i j p' q'"
  proof -
    have vd: "at sz d r = ?v" using d(6) [rule_format, of r] vc bounds by simp
    have same: "at sz d k = at sz c k" if "l \<le> k" "k < j" for k using d(6) that bounds(1) by (meson order_trans)
    have "cmp (at sz d k) ?v = 0" if "l \<le> k" "k \<le> p'" for k
      using c(7) same [of k] that c(5) bounds(6) by (metis le_less_trans)
    moreover have "cmp (at sz d k) ?v \<le> 0" if "l \<le> k" "k \<le> i" for k
      using c(8) same [of k] that bounds(6) by (metis le_less_trans)
    ultimately show ?thesis unfolding parted_def vd using d(7,8) by blast
  qed
  ultimately show ?thesis using c(4,5) d(4,5) by blast
qed

lemma part_loop_ok:
  assumes cmp: "comparator cmp" and bounds: "0 \<le> l" "l < j" "r < addressable sz (length a)" "l - 1 \<le> p" "p \<le> i" "l - 1 \<le> i" "i < j" "j \<le> q" "q \<le> r"
    and parted: "parted cmp sz l r a i j p q"
  shows "\<exists>a' i' p' q'. part_loop xj_exch cmp sz l r a i j p q = Some (a', i', p', q') \<and> swaps sz l (r - 1) a a'
    \<and> parted cmp sz l r a' (i' - 1) i' p' q' \<and> l - 1 \<le> p' \<and> p' < i' \<and> l \<le> i' \<and> i' \<le> q' \<and> q' \<le> r"
  using bounds parted
proof (induction "nat (j - i)" arbitrary: a i j p q rule: less_induct)
  case less
  note facts = comparator_facts [OF cmp] and pt = less.prems(10) [unfolded parted_def]
  obtain i' where i': "scan_up cmp sz a r i = Some i'" "i < i'" "i' \<le> r"
    "\<forall>k. i < k \<longrightarrow> k < i' \<longrightarrow> cmp (at sz a k) (at sz a r) < 0" "i' < r \<longrightarrow> \<not> cmp (at sz a i') (at sz a r) < 0"
    using scan_up_ok [of i r sz a cmp] less.prems by auto
  obtain j' where j': "scan_down cmp sz a l r j = Some j'" "l \<le> j'" "j' < j"
    "\<forall>k. j' < k \<longrightarrow> k < j \<longrightarrow> cmp (at sz a r) (at sz a k) < 0" "l < j' \<longrightarrow> \<not> cmp (at sz a r) (at sz a j') < 0"
    using scan_down_ok [of l j r sz a cmp] less.prems by auto
  have below: "cmp (at sz a k) (at sz a r) \<le> 0" if "l \<le> k" "k < i'" for k
    using that pt i'(4) by (cases "k \<le> i") (auto intro: less_imp_le)
  have above: "cmp (at sz a r) (at sz a k) \<le> 0" if "j' < k" "k < r" for k
    using that pt j'(4) by (cases "j \<le> k") (auto intro: less_imp_le)
  show ?case
  proof (cases "i' \<ge> j'")
    case True
    have "i' \<le> q"
    proof (rule ccontr)
      assume "\<not> i' \<le> q"
      then have "cmp (at sz a q) (at sz a r) < 0" "q < r" using i' less.prems by auto
      moreover from this have "cmp (at sz a r) (at sz a q) = 0" using pt by simp
      ultimately show False using facts(2) [of "at sz a r" "at sz a q"] by simp
    qed
    moreover have "cmp (at sz a r) (at sz a k) \<le> 0" if "i' \<le> k" "k < r" for k
    proof (cases "k = j'")
      case eq: True
      with that True i'(5) facts(1) [of "at sz a i'" "at sz a r"] show ?thesis by auto
    qed (use that True above in auto)
    ultimately show ?thesis
      using True i' j' below pt less.prems swaps.none [of sz l "r - 1" a]
      by (subst part_loop.simps) (auto simp: parted_def)
  next
    case False
    have "parted cmp sz l r a (i' - 1) (j' + 1) p q" using below above pt by (auto simp: parted_def)
    moreover have "\<not> cmp (at sz a i') (at sz a r) < 0" "\<not> cmp (at sz a r) (at sz a j') < 0"
      using False i' j' less.prems by auto
    moreover have b: "l - 1 \<le> p" "p < i'" "l \<le> i'" "i' < j'" "j' < q" "q \<le> r" using less.prems i' j' False by auto
    ultimately obtain a1 p1 q1 where s: "part_step xj_exch cmp sz r a i' j' p q = Some (a1, p1, q1)" "swaps sz l (r - 1) a a1"
        "parted cmp sz l r a1 i' j' p1 q1" "l - 1 \<le> p1" "p1 \<le> i'" "j' \<le> q1" "q1 \<le> r"
      using part_step_ok [OF cmp less.prems(1,3)] by blast
    have "nat (j' - i') < nat (j - i)" using b i'(2) j'(3) by simp
    then obtain a2 i2 p2 q2 where "part_loop xj_exch cmp sz l r a1 i' j' p1 q1 = Some (a2, i2, p2, q2)" "swaps sz l (r - 1) a1 a2"
        "parted cmp sz l r a2 (i2 - 1) i2 p2 q2" "l - 1 \<le> p2" "p2 < i2" "l \<le> i2" "i2 \<le> q2" "q2 \<le> r"
      using less.hyps [of j' i' a1 p1 q1] less.prems(1,3) s b swaps_length [OF s(2)] by auto
    with s(1,2) i'(1) j'(1) False show ?thesis
      by (subst part_loop.simps) (auto intro: swaps_trans)
  qed
qed

end

section \<open>Moving the equal elements to the middle\<close>

text \<open>
  The loop exchanges the pairs \<open>k\<close>, \<open>l + h - k\<close>, some of them twice when the two indices cross. \<open>Q\<close> is
  equality with the pivot.
\<close>

context exchanger
begin

lemma gather_left_ok:
  assumes "0 \<le> l" "h < addressable sz (length a)" "l \<le> k" "k + int n \<le> h + 1"
    and "\<forall>x. k \<le> x \<longrightarrow> x \<le> k + int n \<longrightarrow> Q (at sz a x)" "\<forall>x. l + h - k < x \<longrightarrow> x \<le> h \<longrightarrow> Q (at sz a x)"
    and "\<forall>x. l + h - (k + int n) \<le> x \<longrightarrow> l \<le> x \<longrightarrow> x < k \<longrightarrow> Q (at sz a x)"
  shows "\<exists>b. gather_left xj_exch sz a n k (l + h - k) = Some (b, l + h - (k + int n)) \<and> swaps sz l h a b
    \<and> (\<forall>x. l + h - (k + int n) < x \<longrightarrow> x \<le> h \<longrightarrow> Q (at sz b x))"
  using assms
proof (induction n arbitrary: a k)
  case 0
  then show ?case using swaps.none by auto
next
  case (Suc n)
  let ?j = "l + h - k"
  have ends: "l \<le> k" "k \<le> h" "l \<le> ?j" "?j \<le> h" using Suc.prems by auto
  obtain b where b: "xj_exch sz a k ?j = Some b" "swaps sz l h a b" "length b = length a"
    "\<forall>x\<ge>0. at sz b x = (if x = ?j then at sz a k else if x = k then at sz a ?j else at sz a x)"
    using exch_swaps [OF Suc.prems(1,2) ends] by blast
  have nb: "at sz b x = (if x = ?j then at sz a k else if x = k then at sz a ?j else at sz a x)" if "l \<le> x" for x
    using b(4) that Suc.prems(1) by simp
  have qk: "Q (at sz a k)" using Suc.prems(5) by simp
  have qj: "Q (at sz a ?j)" if "l + h - (k + 1 + int n) \<le> k" 
  proof (cases "k \<le> ?j")
    case True
    then show ?thesis using Suc.prems(5) that by auto
  next
    case False
    then show ?thesis using Suc.prems(7) ends by auto
  qed
  have "\<exists>c. gather_left xj_exch sz b n (k + 1) (l + h - (k + 1)) = Some (c, l + h - (k + 1 + int n)) \<and> swaps sz l h b c
    \<and> (\<forall>x. l + h - (k + 1 + int n) < x \<longrightarrow> x \<le> h \<longrightarrow> Q (at sz c x))"
  proof (rule Suc.IH)
    show "\<forall>x. k + 1 \<le> x \<longrightarrow> x \<le> k + 1 + int n \<longrightarrow> Q (at sz b x)" using Suc.prems(3,5) nb qk by auto
    show "\<forall>x. l + h - (k + 1) < x \<longrightarrow> x \<le> h \<longrightarrow> Q (at sz b x)" using Suc.prems(6) nb qk qj ends by auto
    show "\<forall>x. l + h - (k + 1 + int n) \<le> x \<longrightarrow> l \<le> x \<longrightarrow> x < k + 1 \<longrightarrow> Q (at sz b x)"
      using Suc.prems(7) nb qk qj by auto
  qed (use Suc.prems b(3) in auto)
  then obtain c where "gather_left xj_exch sz b n (k + 1) (l + h - (k + 1)) = Some (c, l + h - (k + 1 + int n))" "swaps sz l h b c"
    "\<forall>x. l + h - (k + 1 + int n) < x \<longrightarrow> x \<le> h \<longrightarrow> Q (at sz c x)" by blast
  moreover have "l + h - (k + 1) = ?j - 1" by simp
  ultimately show ?case using b(1,2) by (auto simp: algebra_simps intro: swaps_trans)
qed

lemma gather_right_ok:
  assumes "0 < l" "h < addressable sz (length a)" "k \<le> h" "l - 1 \<le> k - int n"
    and "\<forall>x. k - int n \<le> x \<longrightarrow> x \<le> k \<longrightarrow> Q (at sz a x)" "\<forall>x. l \<le> x \<longrightarrow> x < l + h - k \<longrightarrow> Q (at sz a x)"
    and "\<forall>x. k < x \<longrightarrow> x \<le> h \<longrightarrow> x \<le> l + h - (k - int n) \<longrightarrow> Q (at sz a x)"
  shows "\<exists>b. gather_right xj_exch sz a n k (l + h - k) = Some (b, l + h - (k - int n)) \<and> swaps sz l h a b
    \<and> (\<forall>x. l \<le> x \<longrightarrow> x < l + h - (k - int n) \<longrightarrow> Q (at sz b x))"
  using assms
proof (induction n arbitrary: a k)
  case 0
  then show ?case using swaps.none by auto
next
  case (Suc n)
  let ?i = "l + h - k"
  have ends: "l \<le> ?i" "?i \<le> h" "l \<le> k" "k \<le> h" using Suc.prems by auto
  obtain b where b: "xj_exch sz a ?i k = Some b" "swaps sz l h a b" "length b = length a"
    "\<forall>x\<ge>0. at sz b x = (if x = k then at sz a ?i else if x = ?i then at sz a k else at sz a x)"
    using exch_swaps [OF less_imp_le [OF Suc.prems(1)] Suc.prems(2) ends] by blast
  have nb: "at sz b x = (if x = k then at sz a ?i else if x = ?i then at sz a k else at sz a x)" if "l - 1 \<le> x" for x
    using b(4) that Suc.prems(1) by simp
  have qk: "Q (at sz a k)" using Suc.prems(5) by simp
  have qi: "Q (at sz a ?i)" if "k \<le> l + h - (k - 1 - int n)"
  proof (cases "?i \<le> k")
    case True
    then show ?thesis using Suc.prems(5) that by auto
  next
    case False
    then show ?thesis using Suc.prems(7) ends by auto
  qed
  have "\<exists>c. gather_right xj_exch sz b n (k - 1) (l + h - (k - 1)) = Some (c, l + h - (k - 1 - int n)) \<and> swaps sz l h b c
    \<and> (\<forall>x. l \<le> x \<longrightarrow> x < l + h - (k - 1 - int n) \<longrightarrow> Q (at sz c x))"
  proof (rule Suc.IH)
    show "\<forall>x. k - 1 - int n \<le> x \<longrightarrow> x \<le> k - 1 \<longrightarrow> Q (at sz b x)"
      using Suc.prems(4,5) nb qk by auto
    show "\<forall>x. l \<le> x \<longrightarrow> x < l + h - (k - 1) \<longrightarrow> Q (at sz b x)" using Suc.prems(6) nb qk qi ends by auto
    show "\<forall>x. k - 1 < x \<longrightarrow> x \<le> h \<longrightarrow> x \<le> l + h - (k - 1 - int n) \<longrightarrow> Q (at sz b x)"
      using Suc.prems(7) nb qk qi ends by auto
  qed (use Suc.prems b(3) in auto)
  then obtain c where "gather_right xj_exch sz b n (k - 1) (l + h - (k - 1)) = Some (c, l + h - (k - 1 - int n))" "swaps sz l h b c"
    "\<forall>x. l \<le> x \<longrightarrow> x < l + h - (k - 1 - int n) \<longrightarrow> Q (at sz c x)" by blast
  moreover have "l + h - (k - 1) = ?i + 1" by simp
  ultimately show ?case using b(1,2) by (auto simp: algebra_simps intro: swaps_trans)
qed

end

section \<open>quicksort\<close>

context exchanger
begin

lemma partition_step_ok:
  assumes cmp: "comparator cmp" and bounds: "0 \<le> l" "l < r" "r < addressable sz (length a)"
  shows "\<exists>b j i v. partition_step xj_exch cmp sz a l r = Some (b, j, i) \<and> swaps sz l r a b \<and> l - 1 \<le> j \<and> j < r \<and> j < i \<and> l < i \<and> i \<le> r + 1
    \<and> (\<forall>k. l \<le> k \<longrightarrow> k \<le> j \<longrightarrow> cmp (at sz b k) v \<le> 0) \<and> (\<forall>k. j < k \<longrightarrow> k < i \<longrightarrow> cmp (at sz b k) v = 0)
    \<and> (\<forall>k. i \<le> k \<longrightarrow> k \<le> r \<longrightarrow> cmp v (at sz b k) \<le> 0)"
proof -
  note facts = comparator_facts [OF cmp]
  let ?v = "at sz a r"
  have "parted cmp sz l r a (l - 1) r (l - 1) r" by (auto simp: parted_def)
  then obtain a1 m p q where a1: "part_loop xj_exch cmp sz l r a (l - 1) r (l - 1) r = Some (a1, m, p, q)" "swaps sz l (r - 1) a a1"
      "parted cmp sz l r a1 (m - 1) m p q" "l - 1 \<le> p" "p < m" "l \<le> m" "m \<le> q" "q \<le> r"
    using part_loop_ok [OF cmp, of l r r sz a "l - 1" "l - 1" r] bounds by auto
  have v1: "at sz a1 r = ?v" using swaps_outside [OF a1(2), of r] bounds by simp
  note pt = a1(3) [unfolded parted_def v1]
  have len1: "length a1 = length a" by (rule swaps_length [OF a1(2)])
  obtain a2 where a2: "xj_exch sz a1 m r = Some a2" "swaps sz l r a1 a2" "length a2 = length a"
      "\<forall>k\<ge>0. at sz a2 k = (if k = r then at sz a1 m else if k = m then ?v else at sz a1 k)"
    using exch_swaps [of l r sz a1 m r] bounds a1(6-8) len1 v1 by auto
  have e2: "at sz a2 k = (if k = r then at sz a1 m else if k = m then ?v else at sz a1 k)" if "l \<le> k" for k
    using a2(4) that bounds(1) by simp
  have low2: "\<forall>k. l \<le> k \<longrightarrow> k \<le> m - 1 \<longrightarrow> cmp (at sz a2 k) ?v \<le> 0"
    and eql2: "\<forall>k. l \<le> k \<longrightarrow> k \<le> p \<longrightarrow> cmp (at sz a2 k) ?v = 0" using pt e2 a1(5,7,8) by auto
  have v2: "at sz a2 m = ?v" using e2 a1(6,8) v1 by auto
  have high2: "\<forall>k. m + 1 \<le> k \<longrightarrow> k \<le> r \<longrightarrow> cmp ?v (at sz a2 k) \<le> 0"
    using pt e2 a1(6) v1 facts(3) by auto
  have eqr2: "\<forall>k. q \<le> k \<longrightarrow> k \<le> r - 1 \<longrightarrow> cmp ?v (at sz a2 k) = 0" using pt e2 a1(6,7) facts(3) by auto
  obtain a3 j where a3: "gather_left xj_exch sz a2 (nat (p - l)) l (m - 1) = Some (a3, j)" "swaps sz l (m - 1) a2 a3"
      "l - 1 \<le> j" "j \<le> m - 1" "\<forall>k. j < k \<longrightarrow> k \<le> m - 1 \<longrightarrow> cmp (at sz a3 k) ?v = 0"
  proof (cases "l \<le> p")
    case True
    obtain a3 where "gather_left xj_exch sz a2 (nat (p - l)) l (l + (m - 1) - l) = Some (a3, l + (m - 1) - (l + int (nat (p - l))))"
      "swaps sz l (m - 1) a2 a3" "\<forall>k. l + (m - 1) - (l + int (nat (p - l))) < k \<longrightarrow> k \<le> m - 1 \<longrightarrow> cmp (at sz a3 k) ?v = 0"
      using gather_left_ok [of l "m - 1" sz a2 l "nat (p - l)" "\<lambda>x. cmp x ?v = 0"] True bounds a1(4-8) a2(3) eql2 by auto
    with True a1(5) show thesis by (intro that [of a3 "m - 1 - (p - l)"]) simp_all
  next
    case False
    then show thesis using a1(6) swaps.none by (intro that [of a2 "m - 1"]) auto
  qed
  have out3: "at sz a3 k = at sz a2 k" if "m \<le> k" for k using swaps_outside [OF a3(2), of k] that a1(6) bounds by simp
  have low3: "\<forall>k. l \<le> k \<longrightarrow> k \<le> m - 1 \<longrightarrow> cmp (at sz a3 k) ?v \<le> 0"
    using swaps_range [OF a3(2), of "\<lambda>x. cmp x ?v \<le> 0"] low2 bounds by blast
  have len3: "length a3 = length a" using swaps_length [OF a3(2)] a2(3) by simp
  obtain b i where b: "gather_right xj_exch sz a3 (nat (r - 1 - q)) (r - 1) (m + 1) = Some (b, i)" "swaps sz (m + 1) (r - 1) a3 b"
      "m + 1 \<le> i" "i \<le> r + 1" "\<forall>k. m + 1 \<le> k \<longrightarrow> k < i \<longrightarrow> cmp ?v (at sz b k) = 0"
  proof (cases "q \<le> r - 1")
    case True
    have "\<forall>k. q \<le> k \<longrightarrow> k \<le> r - 1 \<longrightarrow> cmp ?v (at sz a3 k) = 0" using eqr2 out3 a1(7) by auto
    then obtain b where "gather_right xj_exch sz a3 (nat (r - 1 - q)) (r - 1) (m + 1 + (r - 1) - (r - 1))
          = Some (b, m + 1 + (r - 1) - (r - 1 - int (nat (r - 1 - q))))" "swaps sz (m + 1) (r - 1) a3 b"
        "\<forall>k. m + 1 \<le> k \<longrightarrow> k < m + 1 + (r - 1) - (r - 1 - int (nat (r - 1 - q))) \<longrightarrow> cmp ?v (at sz b k) = 0"
      using gather_right_ok [of "m + 1" "r - 1" sz a3 "r - 1" "nat (r - 1 - q)" "\<lambda>x. cmp ?v x = 0"] True bounds a1(6-8) len3 by auto
    with True a1(7) show thesis by (intro that [of b "m + 1 + (r - 1 - q)"]) simp_all
  next
    case False
    then show thesis using a1(7,8) swaps.none by (intro that [of a3 "m + 1"]) auto
  qed
  have outb: "at sz b k = at sz a3 k" if "0 \<le> k" "k \<le> m" for k using swaps_outside [OF b(2), of k] that by simp
  have "partition_step xj_exch cmp sz a l r = Some (b, j, i)" by (simp add: partition_step_def a1(1) a2(1) a3(1) b(1))
  moreover have "swaps sz l r a b"
  proof -
    have "swaps sz l r a a1" "swaps sz l r a2 a3" "swaps sz l r a3 b"
      using a1(2,6-8) a3(2) b(2) by (auto intro: swaps_mono)
    with a2(2) show ?thesis by (blast intro: swaps_trans)
  qed
  moreover have "cmp (at sz b k) ?v \<le> 0" if "l \<le> k" "k \<le> j" for k
    using that low3 outb [of k] bounds(1) a3(4) by simp
  moreover have "cmp (at sz b k) ?v = 0" if "j < k" "k < i" for k
  proof (rule linorder_cases [of k m])
    assume "k < m"
    with that a3(3,5) outb [of k] bounds(1) show ?thesis by simp
  next
    assume "k = m"
    then show ?thesis using outb [of m] out3 [of m] v2 facts(3) a1(6) bounds(1) by simp
  next
    assume "m < k"
    with that b(5) facts(2) show ?thesis by simp
  qed
  moreover have "cmp ?v (at sz b k) \<le> 0" if "i \<le> k" "k \<le> r" for k
  proof -
    have "cmp ?v (at sz b k) \<le> 0" if "m + 1 \<le> k" "k \<le> r - 1"  for k
      using swaps_range [OF b(2), of "\<lambda>x. cmp ?v x \<le> 0"] that high2 out3 a1(6) bounds(1) by auto
    moreover have "cmp ?v (at sz b r) \<le> 0" if "m < r"
      using swaps_outside [OF b(2), of r] high2 out3 [of r] that bounds by simp
    ultimately show ?thesis using that b(3) by (cases "k = r") auto
  qed
  ultimately show ?thesis using a3(3,4) b(3,4) a1(6-8) by (intro exI [of _ b] exI [of _ j] exI [of _ i] exI [of _ ?v]) auto
qed

lemma quicksort_ok:
  assumes cmp: "comparator cmp" and sz: "0 < sz" "sz < 2 ^ 31" and bounds: "0 \<le> l" "-1 \<le> r" "r < addressable sz (length a)"
  shows "\<exists>b. quicksort xj_exch cmp sz a l r = Some b \<and> swaps sz l r a b \<and> (\<forall>x y. l \<le> x \<longrightarrow> x < y \<longrightarrow> y \<le> r \<longrightarrow> cmp (at sz b x) (at sz b y) \<le> 0)"
  using bounds
proof (induction "nat (r - l)" arbitrary: a l r rule: less_induct)
  case less
  note facts = comparator_facts [OF cmp] and r = prod32_slot [OF sz less.prems(2,3)]
  show ?case
  proof (cases "r \<le> l")
    case True
    then show ?thesis using swaps.none [of sz l r a] r by (subst quicksort.simps) auto
  next
    case False
    then obtain b j i v where b: "partition_step xj_exch cmp sz a l r = Some (b, j, i)" "swaps sz l r a b" "l - 1 \<le> j" "j < r" "j < i" "l < i" "i \<le> r + 1"
      "\<forall>k. l \<le> k \<longrightarrow> k \<le> j \<longrightarrow> cmp (at sz b k) v \<le> 0" "\<forall>k. j < k \<longrightarrow> k < i \<longrightarrow> cmp (at sz b k) v = 0"
      "\<forall>k. i \<le> k \<longrightarrow> k \<le> r \<longrightarrow> cmp v (at sz b k) \<le> 0"
      using partition_step_ok [OF cmp less.prems(1) _ less.prems(3)] by fastforce
    have lb: "length b = length a" by (rule swaps_length [OF b(2)])
    obtain c where c: "quicksort xj_exch cmp sz b l j = Some c" "swaps sz l j b c" "\<forall>x y. l \<le> x \<longrightarrow> x < y \<longrightarrow> y \<le> j \<longrightarrow> cmp (at sz c x) (at sz c y) \<le> 0"
      using less.hyps [of j l b] b(3,4) less.prems lb False by auto
    have lc: "length c = length a" using swaps_length [OF c(2)] lb by simp
    obtain d where d: "quicksort xj_exch cmp sz c i r = Some d" "swaps sz i r c d" "\<forall>x y. i \<le> x \<longrightarrow> x < y \<longrightarrow> y \<le> r \<longrightarrow> cmp (at sz d x) (at sz d y) \<le> 0"
      using less.hyps [of r i c] b(6) less.prems lc False by auto
    have dc: "at sz d k = at sz c k" if "0 \<le> k" "k < i" for k using swaps_outside [OF d(2), of k] that by simp
    have cb: "at sz c k = at sz b k" if "j < k" for k using swaps_outside [OF c(2), of k] that b(3) less.prems(1) by simp
    have low: "cmp (at sz d k) v \<le> 0" if "l \<le> k" "k \<le> j" for k
      using swaps_range [OF c(2), of "\<lambda>x. cmp x v \<le> 0"] b(5,8) dc that less.prems(1) by auto
    have mid: "cmp (at sz d k) v = 0" if "j < k" "k < i" for k
      using b(3,9) dc [of k] cb [of k] that less.prems(1) by simp
    have high: "cmp v (at sz d k) \<le> 0" if "i \<le> k" "k \<le> r" for k
      using swaps_range [OF d(2), of "\<lambda>x. cmp v x \<le> 0"] b(5,6,10) cb that less.prems(1) by auto
    have "cmp (at sz d x) (at sz d y) \<le> 0" if xy: "l \<le> x" "x < y" "y \<le> r" for x y
    proof -
      consider "y \<le> j" | "i \<le> x" | "x < i" "j < y" using xy by linarith
      then show ?thesis
      proof cases
        case 1
        then show ?thesis using c(3) dc xy b(5) less.prems(1) by simp
      next
        case 2
        then show ?thesis using d(3) xy by simp
      next
        case 3
        have "cmp (at sz d x) v \<le> 0" using low mid xy 3 by (cases "x \<le> j") auto
        moreover have "cmp v (at sz d y) \<le> 0"
        proof (cases "i \<le> y")
          case False
          then have "cmp (at sz d y) v = 0" using mid 3 by simp
          then show ?thesis using facts(2) [of v "at sz d y"] by simp
        qed (use high xy in simp)
        ultimately show ?thesis by (rule facts(4))
      qed
    qed
    moreover have "swaps sz l r a d"
      using b(2,4,6) c(2) d(2) by (meson swaps_mono swaps_trans less_imp_le order_refl)
    moreover have "quicksort xj_exch cmp sz a l r = Some d"
      using False b(1) c(1) d(1) r by (subst quicksort.simps) simp
    ultimately show ?thesis by blast
  qed
qed

lemma qsort_ok:
  assumes "comparator compare" "0 < sz" "int (length base) = nmemb * sz" "length base < 2 ^ 31 - 1"
  shows "\<exists>b. qsort xj_exch base nmemb sz compare = Some b \<and> length b = length base
    \<and> mset (elements sz b) = mset (elements sz base) \<and> sorted_wrt (\<lambda>x y. compare x y \<le> 0) (elements sz b)"
proof (cases "nmemb > 1")
  case True
  note n = addressable_all [OF assms(2,3)]
  have "sz \<le> int (length base)" "nmemb \<le> int (length base)"
    unfolding assms(3) using True assms(2) mult_right_mono [of 1 nmemb sz] mult_left_mono [of 1 sz nmemb] by simp_all
  then have sz: "sz < 2 ^ 31 - 1" "nmemb < 2 ^ 31 - 1" using assms(4) by simp_all
  obtain b where b: "quicksort xj_exch compare sz base 0 (nmemb - 1) = Some b" "swaps sz 0 (nmemb - 1) base b"
      "\<forall>x y. 0 \<le> x \<longrightarrow> x < y \<longrightarrow> y \<le> nmemb - 1 \<longrightarrow> compare (at sz b x) (at sz b y) \<le> 0"
    using quicksort_ok [OF assms(1,2), where l = 0 and r = "nmemb - 1" and a = base] True n(2) sz(1) assms(4) by auto
  have "compare (elements sz b ! x) (elements sz b ! y) \<le> 0" if "x < y" "y < length (elements sz b)" for x y
    using b(3) [rule_format, of "int x" "int y"] that swaps_length [OF b(2)] n(1) True by (simp add: elements_def)
  with b(1) True assms sz swaps_length [OF b(2)] swaps_mset [OF b(2)] show ?thesis
    by (simp add: qsort_def sorted_wrt_iff_nth_less)
next
  case False
  then have "length (elements sz base) \<le> 1" using addressable_all(1) [OF assms(2,3)] by (simp add: elements_def)
  then have "sorted_wrt (\<lambda>x y. compare x y \<le> 0) (elements sz base)" by (simp add: sorted_wrt_iff_nth_less)
  with False show ?thesis by (simp add: qsort_def)
qed

end

section \<open>Properties\<close>

lemma qsort_overflow:
  assumes "(nmemb - 1) * sz \<ge> 2 ^ 31" "1 < nmemb" "nmemb < 2 ^ 31 - 1" "0 < sz" "sz < 2 ^ 31 - 1"
  shows "qsort f base nmemb sz compare = None"
proof -
  have "prod32 (nmemb - 1) sz = None" using assms(1) by (simp add: prod32_def)
  then have "quicksort f compare sz base 0 (nmemb - 1) = None" by (subst quicksort.simps) simp
  with assms(2-5) show ?thesis by (simp add: qsort_def)
qed

text \<open>
  C29. Sorting: for every array of \<open>nmemb\<close> elements of \<open>size\<close> bytes, fewer than \<open>2 ^ 31 - 1\<close> bytes in all,
  and every comparison of a total preorder, \<open>qsort\<close> returns without reading or writing outside the array and
  without overflow in an offset, and leaves a permutation of the elements in which none is above a later
  one. The function \<open>xj_exch\<close> it calls is taken to exchange two elements inside the array, as \<open>exch\<close> does. When
  the offset of the last element is no \<open>int\<close>, its first product overflows, whatever \<open>xj_exch\<close> does.
\<close>

theorem qsort_sorts:
  assumes "exchanger xj_exch" "comparator compare" "0 < sz" "int (length base) = nmemb * sz"
  shows "(length base < 2 ^ 31 - 1 \<longrightarrow> (\<exists>b. qsort xj_exch base nmemb sz compare = Some b \<and> length b = length base
      \<and> mset (elements sz b) = mset (elements sz base) \<and> sorted_wrt (\<lambda>x y. compare x y \<le> 0) (elements sz b)))
    \<and> ((nmemb - 1) * sz \<ge> 2 ^ 31 \<longrightarrow> 1 < nmemb \<longrightarrow> nmemb < 2 ^ 31 - 1 \<longrightarrow> sz < 2 ^ 31 - 1 \<longrightarrow>
      qsort f base nmemb sz compare = None)"
  using exchanger.qsort_ok [OF assms] qsort_overflow [of nmemb sz f base compare] assms(3) by blast

text \<open>Four elements of two bytes, compared by the first.\<close>

definition demo_array :: bytes where
  "demo_array = [3, 9, 1, 8, 2, 7, 1, 6]"

definition demo_compare :: "bytes \<Rightarrow> bytes \<Rightarrow> int" where
  "demo_compare x y = int (unat (hd x)) - int (unat (hd y))"

lemma demo_array_facts: "elements 2 demo_array = [[3, 9], [1, 8], [2, 7], [1, 6]]" "length demo_array = 8"
  by (simp_all add: elements_def at_def demo_array_def upt_rec)

theorem qsort_sorts_witness:
  "\<exists>b. qsort exch demo_array 4 2 demo_compare = Some b \<and> length b = 8
    \<and> mset (elements 2 b) = mset [[3, 9], [1, 8], [2, 7], [1, 6]]
    \<and> sorted_wrt (\<lambda>x y. demo_compare x y \<le> 0) (elements 2 b)"
proof -
  have "comparator demo_compare" by (auto simp: comparator_def demo_compare_def)
  moreover have "int (length demo_array) = 4 * 2" "length demo_array < 2 ^ 31 - 1" by (simp_all add: demo_array_facts)
  ultimately obtain b where "qsort exch demo_array 4 2 demo_compare = Some b" "length b = length demo_array"
      "mset (elements 2 b) = mset (elements 2 demo_array)" "sorted_wrt (\<lambda>x y. demo_compare x y \<le> 0) (elements 2 b)"
    using qsort_sorts [OF own_exch.exchanger_axioms, of demo_compare 2 demo_array 4] by auto
  then show ?thesis unfolding demo_array_facts by blast
qed

text \<open>
  C31. Binary search in an array ordered for the key, of any length: \<open>bsearch\<close> returns without reading outside
  the array; it returns an element that compares equal to the key if there is one, and \<open>NULL\<close> otherwise.
\<close>

theorem bsearch_finds:
  assumes "searchable cmp key base"
  shows "case bsearch base key (length base) cmp of
      Some (Some m) \<Rightarrow> m < length base \<and> cmp key (base ! m) = 0
    | Some None \<Rightarrow> (\<nexists>x. x \<in> set base \<and> cmp key x = 0)
    | None \<Rightarrow> False"
proof -
  obtain res where res: "bsearch_loop base key cmp 0 (length base) = Some res" "case res of
      Some m \<Rightarrow> m < length base \<and> cmp key (base ! m) = 0 | None \<Rightarrow> \<forall>k<length base. cmp key (base ! k) \<noteq> 0"
    using bsearch_loop_ok [of "length base" base cmp key 0] assms by auto
  then show ?thesis by (cases res) (auto simp: bsearch_def in_set_conv_nth)
qed

theorem bsearch_finds_witness:
  "case bsearch [1, 3, 5, 7 :: int] 3 (length [1, 3, 5, 7 :: int]) (-) of
      Some (Some m) \<Rightarrow> m < length [1, 3, 5, 7 :: int] \<and> 3 - [1, 3, 5, 7 :: int] ! m = 0
    | Some None \<Rightarrow> (\<nexists>x. x \<in> set [1, 3, 5, 7 :: int] \<and> 3 - x = 0)
    | None \<Rightarrow> False"
  by (rule bsearch_finds) (simp add: searchable_def)

end
