(* ===== verification/Regex.thy ===== *)
theory Regex
  imports Prelude
begin

text \<open>
  The matcher of \<open>fun_regex/regex.c\<close>: patterns are compiled into a static array of at most 30 symbols,
  their character classes into a static buffer of 40 bytes, and matched by backtracking.

  A C string is the list of its bytes with the terminating 0; a \<open>char const *\<close> into it is an index. \<open>char\<close>
  is signed, as on the hosts the Makefiles name: comparisons of order read a byte with \<^const>\<open>sint\<close>. The
  union of \<open>regex_t\<close> is a datatype; reading \<open>ch\<close> where a pointer was stored gives the low byte of the
  address, which is \<open>base\<close>, that of \<open>ccl_buf\<close>, plus the offset. \<open>CHARACTER\<close> is \<open>CHAR\<close>. Lengths and positions are unbounded
  integers, for texts far shorter than 2^31.
\<close>

section \<open>Data\<close>

datatype re_kind = UNUSED | DOT | BEGIN | END | QUESTIONMARK | STAR | PLUS | CHARACTER | CHAR_CLASS | INV_CHAR_CLASS
  | DIGIT | NOT_DIGIT | ALPHA | NOT_ALPHA | WHITESPACE | NOT_WHITESPACE

datatype re_union = Ch u8 | Ccl nat

record regex_t =
  re_type :: re_kind
  re_data :: re_union

text \<open>The two static arrays of \<open>re_compile\<close>.\<close>

record re_store =
  re_compiled :: "regex_t list"
  ccl_buf :: bytes

abbreviation "MAX_REGEXP_OBJECTS \<equiv> 30 :: nat"
abbreviation "MAX_CHAR_CLASS_LEN \<equiv> 40 :: nat"

definition static_store :: re_store where
  "static_store = \<lparr>re_compiled = replicate MAX_REGEXP_OBJECTS \<lparr>re_type = UNUSED, re_data = Ch 0\<rparr>,
     ccl_buf = replicate MAX_CHAR_CLASS_LEN 0\<rparr>"

abbreviation "c_dollar \<equiv> 36 :: u8"
abbreviation "c_star \<equiv> 42 :: u8"
abbreviation "c_plus \<equiv> 43 :: u8"
abbreviation "c_minus \<equiv> 45 :: u8"
abbreviation "c_dot \<equiv> 46 :: u8"
abbreviation "c_quest \<equiv> 63 :: u8"
abbreviation "c_open \<equiv> 91 :: u8"
abbreviation "c_bslash \<equiv> 92 :: u8"
abbreviation "c_close \<equiv> 93 :: u8"
abbreviation "c_caret \<equiv> 94 :: u8"

section \<open>Characters\<close>

definition matchdigit :: "u8 \<Rightarrow> bool" where
  "matchdigit c \<longleftrightarrow> 48 \<le> sint c \<and> sint c \<le> 57"

definition matchalpha :: "u8 \<Rightarrow> bool" where
  "matchalpha c \<longleftrightarrow> 97 \<le> sint c \<and> sint c \<le> 122 \<or> 65 \<le> sint c \<and> sint c \<le> 90"

definition matchwhitespace :: "u8 \<Rightarrow> bool" where
  "matchwhitespace c \<longleftrightarrow> c = 32 \<or> c = 9 \<or> c = 10 \<or> c = 13 \<or> c = 12 \<or> c = 11"

definition matchalphanum :: "u8 \<Rightarrow> bool" where
  "matchalphanum c \<longleftrightarrow> c = 95 \<or> matchalpha c \<or> matchdigit c"

text \<open>The characters s, S, w, W, d, D.\<close>

definition ismetachar :: "u8 \<Rightarrow> bool" where
  "ismetachar c \<longleftrightarrow> c = 115 \<or> c = 83 \<or> c = 119 \<or> c = 87 \<or> c = 100 \<or> c = 68"

definition metachar :: "u8 \<Rightarrow> u8 \<Rightarrow> bool" where
  "metachar c x =
     (if x = 100 then matchdigit c
      else if x = 68 then \<not> matchdigit c
      else if x = 119 then matchalphanum c
      else if x = 87 then \<not> matchalphanum c
      else if x = 115 then matchwhitespace c
      else if x = 83 then \<not> matchwhitespace c
      else c = x)"

definition matchmetachar :: "u8 \<Rightarrow> bytes \<Rightarrow> nat \<Rightarrow> bool option" where
  "matchmetachar c buf str = do {
     x \<leftarrow> rd8 buf str;
     Some (metachar c x) }"

text \<open>The conditions are evaluated from left to right and stop at the first that fails.\<close>

definition matchrange :: "u8 \<Rightarrow> bytes \<Rightarrow> nat \<Rightarrow> bool option" where
  "matchrange c buf str =
     (if c = c_minus then Some False
      else do {
        x \<leftarrow> rd8 buf str;
        if x = 0 \<or> x = c_minus then Some False
        else do {
          y \<leftarrow> rd8 buf (str + 1);
          if y \<noteq> c_minus \<or> y = 0 then Some False
          else do {
            z \<leftarrow> rd8 buf (str + 2);
            Some (z \<noteq> 0 \<and> sint x \<le> sint c \<and> sint c \<le> sint z) } } })"

definition rd_before :: "bytes \<Rightarrow> nat \<Rightarrow> u8 option" where
  "rd_before buf str = (if str = 0 then None else rd8 buf (str - 1))"

text \<open>
  One turn of the loop of \<open>matchcharclass\<close>: the answer if it returns, or the value of \<open>str\<close> at the test at
  the end of the loop.
\<close>

definition class_turn :: "u8 \<Rightarrow> bytes \<Rightarrow> nat \<Rightarrow> (bool + nat) option" where
  "class_turn c buf str = do {
     r \<leftarrow> matchrange c buf str;
     if r then Some (Inl True)
     else do {
       x \<leftarrow> rd8 buf str;
       if x = c_bslash then do {
         m \<leftarrow> matchmetachar c buf (str + 1);
         if m then Some (Inl True)
         else do {
           y \<leftarrow> rd8 buf (str + 1);
           Some (if c = y \<and> \<not> ismetachar c then Inl True else Inr (str + 1)) } }
       else if c = x then
         (if c = c_minus then do {
            prev \<leftarrow> rd_before buf str;
            if prev = 0 then Some (Inl True)
            else do {
              y \<leftarrow> rd8 buf (str + 1);
              Some (Inl (y = 0)) } }
          else Some (Inl True))
       else Some (Inr str) } }"

lemma class_turn_less: "class_turn c buf str = Some (Inr str') \<Longrightarrow> str < length buf \<and> str \<le> str'"
  by (auto simp: class_turn_def rd8_def split: if_splits Option.bind_splits)

function matchcharclass :: "u8 \<Rightarrow> bytes \<Rightarrow> nat \<Rightarrow> bool option" where
  "matchcharclass c buf str = (case class_turn c buf str of
     None \<Rightarrow> None
   | Some (Inl b) \<Rightarrow> Some b
   | Some (Inr str') \<Rightarrow> do {
       x \<leftarrow> rd8 buf str';
       if x \<noteq> 0 then matchcharclass c buf (str' + 1) else Some False })"
  by pat_completeness auto
termination
  by (relation "measure (\<lambda>(_, buf, str). length buf - str)") (auto dest: class_turn_less)

declare matchcharclass.simps [simp del]

definition union_ch :: "u8 \<Rightarrow> re_union \<Rightarrow> u8" where
  "union_ch base d = (case d of Ch x \<Rightarrow> x | Ccl n \<Rightarrow> base + of_nat n)"

definition union_ccl :: "re_union \<Rightarrow> nat option" where
  "union_ccl d = (case d of Ch x \<Rightarrow> None | Ccl n \<Rightarrow> Some n)"

text \<open>In the last case an \<open>unsigned char\<close> is compared with a \<open>char\<close>, both as \<open>int\<close>.\<close>

definition matchone :: "u8 \<Rightarrow> re_store \<Rightarrow> regex_t \<Rightarrow> u8 \<Rightarrow> bool option" where
  "matchone base st p c = (case re_type p of
     DOT \<Rightarrow> Some True
   | CHAR_CLASS \<Rightarrow> do { ccl \<leftarrow> union_ccl (re_data p); matchcharclass c (ccl_buf st) ccl }
   | INV_CHAR_CLASS \<Rightarrow> do { ccl \<leftarrow> union_ccl (re_data p); b \<leftarrow> matchcharclass c (ccl_buf st) ccl; Some (\<not> b) }
   | DIGIT \<Rightarrow> Some (matchdigit c)
   | NOT_DIGIT \<Rightarrow> Some (\<not> matchdigit c)
   | ALPHA \<Rightarrow> Some (matchalphanum c)
   | NOT_ALPHA \<Rightarrow> Some (\<not> matchalphanum c)
   | WHITESPACE \<Rightarrow> Some (matchwhitespace c)
   | NOT_WHITESPACE \<Rightarrow> Some (\<not> matchwhitespace c)
   | _ \<Rightarrow> Some (uint (union_ch base (re_data p)) = sint c))"

section \<open>Matching\<close>

text \<open>
  The functions that match the rest of the pattern take it as \<open>rest\<close>, which maps a text position and
  \<open>*matchlength\<close> to the answer and the new \<open>*matchlength\<close>; \<open>one\<close> is \<open>matchone\<close> of the symbol. First the loop that
  \<open>matchstar\<close> and \<open>matchplus\<close> start with.
\<close>

type_synonym matcher = "nat \<Rightarrow> int \<Rightarrow> (bool \<times> int) option"

function advance :: "(u8 \<Rightarrow> bool option) \<Rightarrow> bytes \<Rightarrow> nat \<Rightarrow> int \<Rightarrow> (nat \<times> int) option" where
  "advance one txt t len = do {
     c \<leftarrow> rd8 txt t;
     if c = 0 then Some (t, len)
     else do {
       hit \<leftarrow> one c;
       if hit then advance one txt (t + 1) (len + 1) else Some (t, len) } }"
  by pat_completeness auto
termination
  by (relation "measure (\<lambda>(_, txt, t, _). length txt - t)") (auto simp: rd8_def split: if_splits)

declare advance.simps [simp del]

text \<open>The second loop, at most \<open>n\<close> turns of it, from position \<open>t\<close> downwards.\<close>

primrec retreat :: "matcher \<Rightarrow> nat \<Rightarrow> nat \<Rightarrow> int \<Rightarrow> (bool \<times> int) option" where
  "retreat rest t 0 len = Some (False, len)"
| "retreat rest t (Suc n) len = do {
     (ok, len) \<leftarrow> rest t len;
     if ok then Some (True, len) else retreat rest (t - 1) n (len - 1) }"

definition matchstar :: "(u8 \<Rightarrow> bool option) \<Rightarrow> matcher \<Rightarrow> bytes \<Rightarrow> nat \<Rightarrow> int \<Rightarrow> (bool \<times> int) option" where
  "matchstar one rest txt t len = do {
     (t', l) \<leftarrow> advance one txt t len;
     (ok, l) \<leftarrow> retreat rest t' (Suc t' - t) l;
     if ok then Some (True, l) else Some (False, len) }"

definition matchplus :: "(u8 \<Rightarrow> bool option) \<Rightarrow> matcher \<Rightarrow> bytes \<Rightarrow> nat \<Rightarrow> int \<Rightarrow> (bool \<times> int) option" where
  "matchplus one rest txt t len = do {
     (t', l) \<leftarrow> advance one txt t len;
     retreat rest t' (t' - t) l }"

definition matchquestion :: "re_kind \<Rightarrow> (u8 \<Rightarrow> bool option) \<Rightarrow> matcher \<Rightarrow> bytes \<Rightarrow> nat \<Rightarrow> int \<Rightarrow> (bool \<times> int) option" where
  "matchquestion kind one rest txt t len =
     (if kind = UNUSED then Some (True, len)
      else do {
        (ok, len) \<leftarrow> rest t len;
        if ok then Some (True, len)
        else do {
          c \<leftarrow> rd8 txt t;
          hit \<leftarrow> (if c = 0 then Some False else one c);
          if hit then do {
            (ok, len) \<leftarrow> rest (t + 1) len;
            if ok then Some (True, len + 1) else Some (False, len) }
          else Some (False, len) } })"

text \<open>The loop of \<open>matchpattern\<close>; \<open>pre\<close> is \<open>*matchlength\<close> at its entry.\<close>

function pattern_loop :: "u8 \<Rightarrow> re_store \<Rightarrow> bytes \<Rightarrow> int \<Rightarrow> nat \<Rightarrow> nat \<Rightarrow> int \<Rightarrow> (bool \<times> int) option" where
  "pattern_loop base st txt pre k t len = (case rd8 (re_compiled st) k of
     None \<Rightarrow> None
   | Some p0 \<Rightarrow>
       if re_type p0 = UNUSED then
         matchquestion UNUSED (matchone base st p0) (\<lambda>_ _. None) txt t len
       else (case rd8 (re_compiled st) (k + 1) of
         None \<Rightarrow> None
       | Some p1 \<Rightarrow>
           if re_type p1 = QUESTIONMARK then
             matchquestion (re_type p0) (matchone base st p0) (\<lambda>t len. pattern_loop base st txt len (k + 2) t len) txt t len
           else if re_type p1 = STAR then
             matchstar (matchone base st p0) (\<lambda>t len. pattern_loop base st txt len (k + 2) t len) txt t len
           else if re_type p1 = PLUS then
             matchplus (matchone base st p0) (\<lambda>t len. pattern_loop base st txt len (k + 2) t len) txt t len
           else if re_type p0 = END \<and> re_type p1 = UNUSED then do {
             c \<leftarrow> rd8 txt t;
             Some (c = 0, len) }
           else do {
             c \<leftarrow> rd8 txt t;
             hit \<leftarrow> (if c = 0 then Some False else matchone base st p0 c);
             if hit then pattern_loop base st txt pre (k + 1) (t + 1) (len + 1)
             else Some (False, pre) }))"
  by pat_completeness auto
termination
  by (relation "measure (\<lambda>(_, st, _, _, k, _, _). length (re_compiled st) - k)") (auto simp: rd8_def split: if_splits)

declare pattern_loop.simps [simp del]

definition matchpattern :: "u8 \<Rightarrow> re_store \<Rightarrow> bytes \<Rightarrow> nat \<Rightarrow> matcher" where
  "matchpattern base st txt k t len = pattern_loop base st txt len k t len"

function search_loop :: "matcher \<Rightarrow> bytes \<Rightarrow> nat \<Rightarrow> int \<Rightarrow> (int \<times> int) option" where
  "search_loop attempt txt t len = do {
     (ok, len) \<leftarrow> attempt t len;
     c \<leftarrow> rd8 txt t;
     if ok then Some (if c = 0 then -1 else int t, len)
     else if c \<noteq> 0 then search_loop attempt txt (t + 1) len
     else Some (-1, len) }"
  by pat_completeness auto
termination
  by (relation "measure (\<lambda>(_, txt, t, _). length txt - t)") (auto simp: rd8_def split: if_splits)

declare search_loop.simps [simp del]

text \<open>The index returned and \<open>*matchlength\<close>; \<open>found\<close> is whether the pattern is not \<open>NULL\<close>.\<close>

definition re_matchp :: "u8 \<Rightarrow> re_store \<Rightarrow> bool \<Rightarrow> bytes \<Rightarrow> (int \<times> int) option" where
  "re_matchp base st found txt =
     (if found then do {
        p \<leftarrow> rd8 (re_compiled st) 0;
        if re_type p = BEGIN then do {
          (ok, len) \<leftarrow> matchpattern base st txt 1 0 0;
          Some (if ok then 0 else -1, len) }
        else search_loop (matchpattern base st txt 0) txt 0 0 }
      else Some (-1, 0))"

section \<open>Compiling\<close>

text \<open>
  The loop that copies a class, entered with \<open>i\<close> before its increment. \<^term>\<open>Inl buf\<close> is the early return of
  \<open>NULL\<close>; otherwise the values of \<open>i\<close>, \<open>ccl_bufidx\<close> and the buffer.
\<close>

function copy_class :: "bytes \<Rightarrow> nat \<Rightarrow> nat \<Rightarrow> bytes \<Rightarrow> (bytes + nat \<times> nat \<times> bytes) option" where
  "copy_class pattern i idx buf = do {
     x \<leftarrow> rd8 pattern (i + 1);
     if x = c_close \<or> x = 0 then Some (Inr (i + 1, idx, buf))
     else if x = c_bslash then
       (if idx \<ge> MAX_CHAR_CLASS_LEN - 1 then Some (Inl buf)
        else do {
          buf \<leftarrow> wr8 buf idx x;
          y \<leftarrow> rd8 pattern (i + 2);
          buf \<leftarrow> wr8 buf (idx + 1) y;
          copy_class pattern (i + 2) (idx + 2) buf })
     else if idx \<ge> MAX_CHAR_CLASS_LEN then Some (Inl buf)
     else do {
       buf \<leftarrow> wr8 buf idx x;
       copy_class pattern (i + 1) (idx + 1) buf } }"
  by pat_completeness auto
termination
  by (relation "measure (\<lambda>(pattern, i, _, _). length pattern - i)") (auto simp: rd8_def split: if_splits)

declare copy_class.simps [simp del]

definition set_type :: "re_kind \<Rightarrow> nat \<Rightarrow> regex_t list \<Rightarrow> regex_t list option" where
  "set_type k j rs = do {
     r \<leftarrow> rd8 rs j;
     wr8 rs j (r\<lparr>re_type := k\<rparr>) }"

definition set_data :: "re_union \<Rightarrow> nat \<Rightarrow> regex_t list \<Rightarrow> regex_t list option" where
  "set_data d j rs = do {
     r \<leftarrow> rd8 rs j;
     wr8 rs j (r\<lparr>re_data := d\<rparr>) }"

definition set_char :: "u8 \<Rightarrow> nat \<Rightarrow> regex_t list \<Rightarrow> regex_t list option" where
  "set_char x j rs = do {
     rs \<leftarrow> set_type CHARACTER j rs;
     set_data (Ch x) j rs }"

text \<open>The inner \<open>switch\<close>, on the character after a backslash.\<close>

definition compile_escape :: "u8 \<Rightarrow> nat \<Rightarrow> regex_t list \<Rightarrow> regex_t list option" where
  "compile_escape x j rs =
     (if x = 100 then set_type DIGIT j rs
      else if x = 68 then set_type NOT_DIGIT j rs
      else if x = 119 then set_type ALPHA j rs
      else if x = 87 then set_type NOT_ALPHA j rs
      else if x = 115 then set_type WHITESPACE j rs
      else if x = 83 then set_type NOT_WHITESPACE j rs
      else set_char x j rs)"

text \<open>The case of a class: \<^term>\<open>Inl st\<close> for the early return, else \<open>i\<close>, \<open>ccl_bufidx\<close> and the arrays.\<close>

definition compile_class :: "bytes \<Rightarrow> nat \<Rightarrow> nat \<Rightarrow> nat \<Rightarrow> re_store \<Rightarrow> (re_store + nat \<times> nat \<times> re_store) option" where
  "compile_class pattern i j idx st = do {
     x \<leftarrow> rd8 pattern (i + 1);
     rs \<leftarrow> set_type (if x = c_caret then INV_CHAR_CLASS else CHAR_CLASS) j (re_compiled st);
     let st = st\<lparr>re_compiled := rs\<rparr>;
     r \<leftarrow> copy_class pattern (if x = c_caret then i + 1 else i) idx (ccl_buf st);
     (case r of
        Inl buf \<Rightarrow> Some (Inl (st\<lparr>ccl_buf := buf\<rparr>))
      | Inr (i, idx', buf) \<Rightarrow>
          if idx' \<ge> MAX_CHAR_CLASS_LEN then Some (Inl (st\<lparr>ccl_buf := buf\<rparr>))
          else do {
            buf \<leftarrow> wr8 buf idx' 0;
            rs \<leftarrow> set_data (Ccl idx) j (re_compiled st);
            Some (Inr (i, idx' + 1, \<lparr>re_compiled = rs, ccl_buf = buf\<rparr>)) }) }"

text \<open>The outer \<open>switch\<close>; a backslash at the end of the pattern leaves the symbol as it was.\<close>

definition compile_symbol :: "bytes \<Rightarrow> nat \<Rightarrow> nat \<Rightarrow> nat \<Rightarrow> re_store \<Rightarrow> (re_store + nat \<times> nat \<times> re_store) option" where
  "compile_symbol pattern i j idx st = do {
     let meta = (\<lambda>k. map_option (\<lambda>rs. Inr (i, idx, st\<lparr>re_compiled := rs\<rparr>)) (set_type k j (re_compiled st)));
     c \<leftarrow> rd8 pattern i;
     if c = c_caret then meta BEGIN
     else if c = c_dollar then meta END
     else if c = c_dot then meta DOT
     else if c = c_star then meta STAR
     else if c = c_plus then meta PLUS
     else if c = c_quest then meta QUESTIONMARK
     else if c = c_bslash then do {
       x \<leftarrow> rd8 pattern (i + 1);
       if x \<noteq> 0 then do {
         rs \<leftarrow> compile_escape x j (re_compiled st);
         Some (Inr (i + 1, idx, st\<lparr>re_compiled := rs\<rparr>)) }
       else Some (Inr (i, idx, st)) }
     else if c = c_open then compile_class pattern i j idx st
     else do {
       rs \<leftarrow> set_char c j (re_compiled st);
       Some (Inr (i, idx, st\<lparr>re_compiled := rs\<rparr>)) } }"

text \<open>The main loop, \<open>n\<close> being the turns the test of \<open>j\<close> still allows: \<open>j + 1 + n = MAX_REGEXP_OBJECTS\<close>.\<close>

primrec compile_loop :: "bytes \<Rightarrow> nat \<Rightarrow> nat \<Rightarrow> nat \<Rightarrow> nat \<Rightarrow> re_store \<Rightarrow> (bool \<times> re_store) option" where
  "compile_loop pattern 0 i j idx st = do {
     c \<leftarrow> rd8 pattern i;
     rs \<leftarrow> set_type UNUSED j (re_compiled st);
     Some (True, st\<lparr>re_compiled := rs\<rparr>) }"
| "compile_loop pattern (Suc n) i j idx st = do {
     c \<leftarrow> rd8 pattern i;
     if c = 0 then do {
       rs \<leftarrow> set_type UNUSED j (re_compiled st);
       Some (True, st\<lparr>re_compiled := rs\<rparr>) }
     else do {
       r \<leftarrow> compile_symbol pattern i j idx st;
       (case r of
          Inl st \<Rightarrow> Some (False, st)
        | Inr (i, idx, st) \<Rightarrow> compile_loop pattern n (i + 1) (j + 1) idx st) } }"

text \<open>Whether the result is not \<open>NULL\<close>, and the arrays.\<close>

definition re_compile :: "re_store \<Rightarrow> bytes \<Rightarrow> (bool \<times> re_store) option" where
  "re_compile st pattern = compile_loop pattern (MAX_REGEXP_OBJECTS - 1) 0 0 1 st"

definition re_match :: "u8 \<Rightarrow> re_store \<Rightarrow> bytes \<Rightarrow> bytes \<Rightarrow> (re_store \<times> int \<times> int) option" where
  "re_match base st pattern txt = do {
     (found, st) \<leftarrow> re_compile st pattern;
     (idx, len) \<leftarrow> re_matchp base st found txt;
     Some (st, idx, len) }"

end
