(* ===== verification/RegexFacts.thy ===== *)
theory RegexFacts
  imports Regex
begin

text \<open>
  What a pattern means, and that \<open>regex.c\<close> finds it. A pattern string is cut into tokens, as \<open>re_compile\<close>
  does; the tokens are grouped into symbols with a quantifier; a group of symbols denotes a set of words.
  The matcher answers whether a word of that set starts at a position, and the search loop returns the
  first such position. The lemmas go in the same order: classes, one symbol, the two loops of the
  quantified symbols, the pattern, the compiler.
\<close>

section \<open>Tokens and their characters\<close>

text \<open>\<open>Class neg body\<close>: \<open>body\<close> is what stands between the brackets.\<close>

datatype token = Meta re_kind | Lit u8 | Class bool bytes

datatype quant = Once | Opt | Many | Many1

text \<open>A class as a list: \<open>prev\<close> is the character before, 0 at the start.\<close>

definition range_at :: "u8 \<Rightarrow> u8 \<Rightarrow> bytes \<Rightarrow> bool" where
  "range_at c x r = (case r of
     y # z # _ \<Rightarrow> c \<noteq> c_minus \<and> x \<noteq> c_minus \<and> y = c_minus \<and> sint x \<le> sint c \<and> sint c \<le> sint z
   | _ \<Rightarrow> False)"

fun class_hits :: "u8 \<Rightarrow> u8 \<Rightarrow> bytes \<Rightarrow> bool" where
  "class_hits c prev [] = False"
| "class_hits c prev (x # r) =
     (if range_at c x r then True
      else if x = c_bslash then (case r of [] \<Rightarrow> False | y # r' \<Rightarrow> metachar c y \<or> class_hits c y r')
      else if c = x then (if c = c_minus then prev = 0 \<or> r = [] else True)
      else class_hits c x r)"

text \<open>No terminator and no closing bracket in the body, and something after each backslash.\<close>

fun body_ok :: "bytes \<Rightarrow> bool" where
  "body_ok [] = True"
| "body_ok (x # r) = (x \<noteq> 0 \<and> x \<noteq> c_close \<and>
     (if x = c_bslash then (case r of [] \<Rightarrow> False | y # r' \<Rightarrow> y \<noteq> 0 \<and> body_ok r') else body_ok r))"

definition hits :: "token \<Rightarrow> u8 \<Rightarrow> bool" where
  "hits t c = (case t of
     Meta DOT \<Rightarrow> True
   | Meta DIGIT \<Rightarrow> matchdigit c
   | Meta NOT_DIGIT \<Rightarrow> \<not> matchdigit c
   | Meta ALPHA \<Rightarrow> matchalphanum c
   | Meta NOT_ALPHA \<Rightarrow> \<not> matchalphanum c
   | Meta WHITESPACE \<Rightarrow> matchwhitespace c
   | Meta NOT_WHITESPACE \<Rightarrow> \<not> matchwhitespace c
   | Meta _ \<Rightarrow> False
   | Lit x \<Rightarrow> uint x = sint c
   | Class neg body \<Rightarrow> class_hits c 0 body \<noteq> neg)"

definition plain :: "token \<Rightarrow> bool" where
  "plain t = (case t of
     Meta k \<Rightarrow> k \<in> {DOT, DIGIT, NOT_DIGIT, ALPHA, NOT_ALPHA, WHITESPACE, NOT_WHITESPACE}
   | _ \<Rightarrow> True)"

section \<open>Classes\<close>

lemma rd8_append [simp]: "rd8 (xs @ y # ys) (length xs) = Some y"
  by (simp add: rd8_def)

lemma rd8_append_more: "rd8 (xs @ ys) (length xs + k) = rd8 ys k"
  by (simp add: rd8_def nth_append)

lemma matchrange_list:
  assumes "0 \<notin> set (x # r)" "buf = xs @ x # r @ 0 # ys"
  shows "matchrange c buf (length xs) = Some (range_at c x r)"
proof -
  have rd: "rd8 buf (length xs + k) = rd8 (x # r @ 0 # ys) k" for k unfolding assms(2) by (rule rd8_append_more)
  show ?thesis
    using rd [of 0] rd [of 1] rd [of 2] assms(1)
    by (cases r; cases "tl r") (auto simp: matchrange_def range_at_def rd8_def)
qed

lemma body_ok_no_0: "body_ok r \<Longrightarrow> 0 \<notin> set r"
  by (induction r rule: body_ok.induct) (auto split: if_splits list.splits)

lemma matchmetachar_at: "rd8 buf n = Some y \<Longrightarrow> matchmetachar c buf n = Some (metachar c y)"
  by (simp add: matchmetachar_def)

lemma metachar_same: "metachar c y = False \<Longrightarrow> c = y \<Longrightarrow> ismetachar c"
  by (auto simp: metachar_def ismetachar_def split: if_splits)

text \<open>A class inside the buffer, followed by its terminator.\<close>

lemma matchcharclass_list:
  assumes "body_ok r" "c \<noteq> 0" "buf = xs @ p # r @ 0 # ys"
  shows "matchcharclass c buf (Suc (length xs)) = Some (class_hits c p r)"
  using assms
proof (induction c p r arbitrary: xs rule: class_hits.induct)
  case (1 c prev)
  have "rd8 buf (Suc (length xs)) = Some 0" using 1(3) by (simp add: rd8_def nth_append)
  then have "class_turn c buf (Suc (length xs)) = Some (Inr (Suc (length xs)))"
    using 1(2) by (simp add: class_turn_def matchrange_def)
  then show ?case using \<open>rd8 buf _ = Some 0\<close> by (subst matchcharclass.simps) simp
next
  case (2 c prev x r)
  let ?s = "Suc (length xs)"
  have split: "buf = (xs @ [prev]) @ x # r @ 0 # ys" and len: "length (xs @ [prev]) = ?s" using "2.prems"(3) by simp_all
  have rd: "rd8 buf (?s + k) = rd8 (x # r @ 0 # ys) k" for k
    unfolding split len [symmetric] by (rule rd8_append_more)
  have rng: "matchrange c buf ?s = Some (range_at c x r)"
    using matchrange_list [OF body_ok_no_0 [OF "2.prems"(1)] split] len by simp
  have x: "rd8 buf ?s = Some x" using rd [of 0] by (simp add: rd8_def)
  have x0: "x \<noteq> 0" using "2.prems"(1) by simp
  show ?case
  proof (cases "range_at c x r")
    case True
    then show ?thesis using rng by (subst matchcharclass.simps) (simp add: class_turn_def)
  next
    case nr: False
    show ?thesis
    proof (cases "x = c_bslash")
      case True
      with "2.prems"(1) obtain y r' where r: "r = y # r'" "y \<noteq> 0" "body_ok r'" by (auto split: list.splits)
      have y: "rd8 buf (?s + 1) = Some y" using rd [of 1] r(1) by (simp add: rd8_def)
      show ?thesis
      proof (cases "metachar c y")
        case True
        then show ?thesis using nr rng x y \<open>x = c_bslash\<close> r(1)
          by (subst matchcharclass.simps) (simp add: class_turn_def matchmetachar_at)
      next
        case False
        then have turn: "class_turn c buf ?s = Some (Inr (?s + 1))"
          using nr rng x y \<open>x = c_bslash\<close> metachar_same [of c y] by (auto simp: class_turn_def matchmetachar_at)
        have "matchcharclass c buf (Suc (length (xs @ [prev, x]))) = Some (class_hits c y r')"
          using "2.IH"(1) [OF nr True r(1) r(3) "2.prems"(2), of "xs @ [prev, x]"] "2.prems"(3) r(1) by simp
        then show ?thesis using turn y r nr True False by (subst matchcharclass.simps) simp
      qed
    next
      case nb: False
      show ?thesis
      proof (cases "c = x")
        case True
        have prev: "rd_before buf ?s = Some prev" using "2.prems"(3) by (simp add: rd_before_def)
        have nxt: "rd8 buf (?s + 1) = Some (hd (r @ [0]))" using rd [of 1] by (cases r) (simp_all add: rd8_def)
        have "hd (r @ [0]) = 0 \<longleftrightarrow> r = []" using body_ok_no_0 [OF "2.prems"(1)] by (cases r) auto
        then show ?thesis using True nb nr rng x prev nxt
          by (subst matchcharclass.simps) (simp add: class_turn_def)
      next
        case ne: False
        then have turn: "class_turn c buf ?s = Some (Inr ?s)" using nb nr rng x by (simp add: class_turn_def)
        have "matchcharclass c buf (Suc (length (xs @ [prev]))) = Some (class_hits c x r)"
          using "2.IH"(2) [OF nr nb ne _ "2.prems"(2), of "xs @ [prev]"] "2.prems"(1,3) nb by simp
        then show ?thesis using turn x x0 nr nb ne by (subst matchcharclass.simps) simp
      qed
    qed
  qed
qed

section \<open>Compiled symbols\<close>

text \<open>An entry of the array stands for a token; a class has its body in the buffer between zeros.\<close>

fun holds :: "bytes \<Rightarrow> regex_t \<Rightarrow> token \<Rightarrow> bool" where
  "holds buf r (Meta k) = (re_type r = k \<and> k \<noteq> UNUSED)"
| "holds buf r (Lit x) = (re_type r = CHARACTER \<and> re_data r = Ch x)"
| "holds buf r (Class neg body) = (re_type r = (if neg then INV_CHAR_CLASS else CHAR_CLASS) \<and> body_ok body
     \<and> (\<exists>xs ys. buf = xs @ 0 # body @ 0 # ys \<and> re_data r = Ccl (Suc (length xs))))"

primrec laid :: "re_store \<Rightarrow> nat \<Rightarrow> token list \<Rightarrow> bool" where
  "laid st k [] = (k < length (re_compiled st) \<and> re_type (re_compiled st ! k) = UNUSED)"
| "laid st k (t # ts) = (k < length (re_compiled st) \<and> holds (ccl_buf st) (re_compiled st ! k) t \<and> laid st (Suc k) ts)"

lemma matchone_hits:
  assumes "holds (ccl_buf st) r t" "plain t" "c \<noteq> 0"
  shows "matchone base st r c = Some (hits t c)"
proof (cases t)
  case (Meta k)
  with assms show ?thesis by (cases k) (auto simp: matchone_def hits_def plain_def)
next
  case (Lit x)
  with assms show ?thesis by (auto simp: matchone_def hits_def union_ch_def)
next
  case (Class neg body)
  with assms(1) obtain xs ys where "ccl_buf st = xs @ 0 # body @ 0 # ys" "body_ok body" "re_data r = Ccl (Suc (length xs))"
    "re_type r = (if neg then INV_CHAR_CLASS else CHAR_CLASS)" by auto
  with matchcharclass_list [of body c "ccl_buf st" xs 0 ys] assms(3) Class show ?thesis
    by (auto simp: matchone_def hits_def union_ccl_def)
qed

section \<open>What a pattern means\<close>

definition quant_of :: "token \<Rightarrow> quant option" where
  "quant_of t = (if t = Meta QUESTIONMARK then Some Opt else if t = Meta STAR then Some Many
     else if t = Meta PLUS then Some Many1 else None)"

text \<open>
  Symbols with their quantifiers, and whether the pattern ends in the anchor \<open>$\<close>. \<^term>\<open>None\<close> for patterns
  in which an anchor or a quantifier stands where it has no meaning.
\<close>

fun items :: "token list \<Rightarrow> ((token \<times> quant) list \<times> bool) option" where
  "items [] = Some ([], False)"
| "items [t] = (if t = Meta END then Some ([], True) else if plain t then Some ([(t, Once)], False) else None)"
| "items (t # q # ts) =
     (if \<not> plain t then None
      else (case quant_of q of
        Some u \<Rightarrow> map_option (apfst ((#) (t, u))) (items ts)
      | None \<Rightarrow> map_option (apfst ((#) (t, Once))) (items (q # ts))))"

definition words :: "token \<times> quant \<Rightarrow> bytes set" where
  "words = (\<lambda>(t, u). case u of
     Once \<Rightarrow> {w. length w = 1 \<and> (\<forall>c\<in>set w. hits t c)}
   | Opt \<Rightarrow> {w. length w \<le> 1 \<and> (\<forall>c\<in>set w. hits t c)}
   | Many \<Rightarrow> {w. \<forall>c\<in>set w. hits t c}
   | Many1 \<Rightarrow> {w. 1 \<le> length w \<and> (\<forall>c\<in>set w. hits t c)})"

definition conc :: "bytes set \<Rightarrow> bytes set \<Rightarrow> bytes set" where
  "conc A B = {u @ v | u v. u \<in> A \<and> v \<in> B}"

primrec lang :: "(token \<times> quant) list \<Rightarrow> bytes set" where
  "lang [] = {[]}"
| "lang (i # is) = conc (words i) (lang is)"

text \<open>A text starts with a word of the pattern, or is one if the pattern is anchored at the end.\<close>

definition accepts :: "(token \<times> quant) list \<times> bool \<Rightarrow> bytes \<Rightarrow> bool" where
  "accepts p s \<longleftrightarrow> (\<exists>u v. s = u @ v \<and> u \<in> lang (fst p) \<and> (snd p \<longrightarrow> v = []))"

lemma accepts_Nil: "accepts ([], e) s \<longleftrightarrow> (e \<longrightarrow> s = [])"
  by (auto simp: accepts_def)

lemma accepts_Cons:
  "accepts (i # is, e) s \<longleftrightarrow> (\<exists>u v. s = u @ v \<and> u \<in> words i \<and> accepts (is, e) v)"
proof
  assume "accepts (i # is, e) s"
  then obtain w v where "s = w @ v" and w: "w \<in> conc (words i) (lang is)" and "e \<longrightarrow> v = []"
    unfolding accepts_def fst_conv snd_conv lang.simps by blast
  moreover obtain a b where "w = a @ b" "a \<in> words i" "b \<in> lang is" using w unfolding conc_def by blast
  ultimately have "s = (a @ b) @ v" "a \<in> words i" "b \<in> lang is" "e \<longrightarrow> v = []" by simp_all
  then show "\<exists>u v. s = u @ v \<and> u \<in> words i \<and> accepts (is, e) v"
    by (intro exI [of _ a] exI [of _ "b @ v"]) (auto simp: accepts_def)
next
  assume "\<exists>u v. s = u @ v \<and> u \<in> words i \<and> accepts (is, e) v"
  then obtain a b v where "s = a @ b @ v" "a \<in> words i" "b \<in> lang is" "e \<longrightarrow> v = []"
    unfolding accepts_def fst_conv snd_conv by blast
  then show "accepts (i # is, e) s"
    unfolding accepts_def by (intro exI [of _ "a @ b"] exI [of _ v]) (auto simp: conc_def)
qed

lemma accepts_split:
  "accepts ((t, u) # is, e) s \<longleftrightarrow> (\<exists>n. (n \<le> length s \<and> take n s \<in> words (t, u)) \<and> accepts (is, e) (drop n s))"
  unfolding accepts_Cons
proof
  assume "\<exists>n. (n \<le> length s \<and> take n s \<in> words (t, u)) \<and> accepts (is, e) (drop n s)"
  then show "\<exists>v w. s = v @ w \<and> v \<in> words (t, u) \<and> accepts (is, e) w" by (metis append_take_drop_id)
next
  assume "\<exists>v w. s = v @ w \<and> v \<in> words (t, u) \<and> accepts (is, e) w"
  then obtain v w where "s = v @ w" "v \<in> words (t, u)" "accepts (is, e) w" by blast
  then show "\<exists>n. (n \<le> length s \<and> take n s \<in> words (t, u)) \<and> accepts (is, e) (drop n s)"
    by (intro exI [of _ "length v"]) simp
qed

lemma accepts_Once:
  "accepts ((t, Once) # is, e) s \<longleftrightarrow> s \<noteq> [] \<and> hits t (hd s) \<and> accepts (is, e) (tl s)"
proof (cases s)
  case (Cons c s')
  have "n \<le> length s \<and> take n s \<in> words (t, Once) \<longleftrightarrow> n = 1 \<and> hits t c" for n
    using Cons by (cases n) (auto simp: words_def)
  then show ?thesis unfolding accepts_split using Cons by simp
qed (simp add: accepts_split words_def)

lemma accepts_Opt:
  "accepts ((t, Opt) # is, e) s \<longleftrightarrow> accepts (is, e) s \<or> s \<noteq> [] \<and> hits t (hd s) \<and> accepts (is, e) (tl s)"
proof (cases s)
  case (Cons c s')
  have "n \<le> length s \<and> take n s \<in> words (t, Opt) \<longleftrightarrow> n = 0 \<or> n = 1 \<and> hits t c" for n
    using Cons by (cases n) (auto simp: words_def)
  then have "accepts ((t, Opt) # is, e) s \<longleftrightarrow> (\<exists>n. (n = 0 \<or> n = 1 \<and> hits t c) \<and> accepts (is, e) (drop n s))"
    unfolding accepts_split by simp
  also have "\<dots> \<longleftrightarrow> accepts (is, e) (drop 0 s) \<or> hits t c \<and> accepts (is, e) (drop 1 s)" by blast
  finally show ?thesis using Cons by simp
qed (simp add: accepts_split words_def)

lemma hits_take:
  assumes "n \<le> length s"
  shows "(\<forall>c\<in>set (take n s). hits t c) \<longleftrightarrow> n \<le> length (takeWhile (hits t) s)"
proof
  assume "\<forall>c\<in>set (take n s). hits t c"
  then have "takeWhile (hits t) (take n s @ drop n s) = take n s @ takeWhile (hits t) (drop n s)"
    by (intro takeWhile_append2) blast
  then have "length (takeWhile (hits t) s) = length (take n s) + length (takeWhile (hits t) (drop n s))" by (metis append_take_drop_id length_append)
  with assms show "n \<le> length (takeWhile (hits t) s)" by simp
next
  assume "n \<le> length (takeWhile (hits t) s)"
  then have "take n s = take n (takeWhile (hits t) s)"
    by (metis takeWhile_eq_take take_take min_absorb1)
  then show "\<forall>c\<in>set (take n s). hits t c" by (metis in_set_takeD set_takeWhileD)
qed

lemma accepts_Many:
  "accepts ((t, Many) # is, e) s \<longleftrightarrow> (\<exists>n\<le>length (takeWhile (hits t) s). accepts (is, e) (drop n s))"
proof -
  have "n \<le> length s \<and> take n s \<in> words (t, Many) \<longleftrightarrow> n \<le> length (takeWhile (hits t) s)" for n
    using hits_take [of n s t] length_takeWhile_le [of "hits t" s] by (auto simp: words_def)
  then show ?thesis unfolding accepts_split by blast
qed

lemma accepts_Many1:
  "accepts ((t, Many1) # is, e) s \<longleftrightarrow> (\<exists>n. 1 \<le> n \<and> n \<le> length (takeWhile (hits t) s) \<and> accepts (is, e) (drop n s))"
proof -
  have "n \<le> length s \<and> take n s \<in> words (t, Many1) \<longleftrightarrow> 1 \<le> n \<and> n \<le> length (takeWhile (hits t) s)" for n
    using hits_take [of n s t] length_takeWhile_le [of "hits t" s] by (auto simp: words_def)
  then show ?thesis unfolding accepts_split by blast
qed

section \<open>The loops of quantified symbols\<close>

lemma advance_run:
  assumes "0 \<notin> set s" "t \<le> length s" "\<And>c. c \<noteq> 0 \<Longrightarrow> one c = Some (h c)"
  shows "advance one (s @ [0]) t len
    = Some (t + length (takeWhile h (drop t s)), len + int (length (takeWhile h (drop t s))))"
  using assms(2)
proof (induction "length s - t" arbitrary: t len)
  case 0
  then show ?case by (subst advance.simps) (simp add: rd8_def nth_append)
next
  case (Suc n)
  then have t: "t < length s" by simp
  then have d: "drop t s = s ! t # drop (Suc t) s" by (rule Cons_nth_drop_Suc [symmetric])
  have c: "rd8 (s @ [0]) t = Some (s ! t)" "s ! t \<noteq> 0" using t assms(1) by (auto simp: rd8_def nth_append in_set_conv_nth)
  show ?case
  proof (cases "h (s ! t)")
    case True
    have "advance one (s @ [0]) (t + 1) (len + 1) = Some (t + 1 + length (takeWhile h (drop (t + 1) s)),
        len + 1 + int (length (takeWhile h (drop (t + 1) s))))"
      using Suc.hyps(2) t by (intro Suc.hyps(1)) auto
    with True c d assms(3) show ?thesis by (subst advance.simps) simp
  next
    case False
    with c d assms(3) show ?thesis by (subst advance.simps) simp
  qed
qed

text \<open>\<open>answers A rest n\<close>: up to position \<open>n\<close> the matcher returns, with the answer \<open>A\<close>.\<close>

definition answers :: "(nat \<Rightarrow> bool) \<Rightarrow> matcher \<Rightarrow> nat \<Rightarrow> bool" where
  "answers A rest n \<longleftrightarrow> (\<forall>t len. t \<le> n \<longrightarrow> (\<exists>len'. rest t len = Some (A t, len')))"

lemma answersD: "answers A rest n \<Longrightarrow> t \<le> n \<Longrightarrow> \<exists>len'. rest t len = Some (A t, len')"
  by (simp add: answers_def)

lemma retreat_run:
  assumes "answers A rest m" "t \<le> m" "n \<le> Suc t"
  shows "\<exists>len'. retreat rest t n len = Some (\<exists>i\<le>t. t < i + n \<and> A i, len')"
  using assms(2,3)
proof (induction n arbitrary: t len)
  case (Suc n)
  obtain l where l: "rest t len = Some (A t, l)" using answersD [OF assms(1)] Suc.prems by blast
  show ?case
  proof (cases "A t")
    case True
    with l show ?thesis by auto
  next
    case False
    show ?thesis
    proof (cases "n = 0")
      case True
      have "(\<exists>i\<le>t. t < i + Suc 0 \<and> A i) = False" using False by (auto simp: less_Suc_eq_le)
      with True False l show ?thesis by simp
    next
      case pos: False
      have "(\<exists>i\<le>t. t < i + Suc n \<and> A i) \<longleftrightarrow> (\<exists>i\<le>t - 1. t - 1 < i + n \<and> A i)"
      proof
        assume "\<exists>i\<le>t. t < i + Suc n \<and> A i"
        then obtain i where "i \<le> t" "t < i + Suc n" "A i" by blast
        with False show "\<exists>i\<le>t - 1. t - 1 < i + n \<and> A i" by (intro exI [of _ i]) (cases "i = t"; auto)
      next
        assume "\<exists>i\<le>t - 1. t - 1 < i + n \<and> A i"
        then obtain i where "i \<le> t - 1" "t - 1 < i + n" "A i" by blast
        then show "\<exists>i\<le>t. t < i + Suc n \<and> A i" by (intro exI [of _ i]) auto
      qed
      moreover have "\<exists>l'. retreat rest (t - 1) n (l - 1) = Some (\<exists>i\<le>t - 1. t - 1 < i + n \<and> A i, l')"
        by (rule Suc.IH) (use Suc.prems pos in simp_all)
      ultimately show ?thesis using False l by simp
    qed
  qed
qed simp

text \<open>The three quantifiers, for a rest of the pattern that means \<open>p\<close> and a symbol that means \<open>t\<close>.\<close>

definition means :: "matcher \<Rightarrow> (token \<times> quant) list \<times> bool \<Rightarrow> bytes \<Rightarrow> bool" where
  "means rest p s \<longleftrightarrow> answers (\<lambda>i. accepts p (drop i s)) rest (length s)"

lemma meansD: "means rest p s \<Longrightarrow> i \<le> length s \<Longrightarrow> \<exists>len'. rest i len = Some (accepts p (drop i s), len')"
  unfolding means_def by (rule answersD)

lemma run_bound: "i \<le> length s \<Longrightarrow> i + length (takeWhile h (drop i s)) \<le> length s"
  using length_takeWhile_le [of h "drop i s"] by simp

lemma retreat_means:
  assumes rest: "means rest (is, e) s" and i: "i \<le> length s" "m = i + length (takeWhile (hits t) (drop i s))" "n \<le> Suc m"
  shows "\<exists>len'. retreat rest m n len = Some (\<exists>k\<le>m. m < k + n \<and> accepts (is, e) (drop k s), len')"
  using retreat_run [OF rest [unfolded means_def], of m n] run_bound [OF i(1), of "hits t"] assms(3,4) by simp

lemma matchstar_means:
  assumes s: "0 \<notin> set s" and one: "\<And>c. c \<noteq> 0 \<Longrightarrow> one c = Some (hits t c)" and rest: "means rest (is, e) s"
    and i: "i \<le> length s"
  shows "\<exists>len'. matchstar one rest (s @ [0]) i len = Some (accepts ((t, Many) # is, e) (drop i s), len')"
proof -
  let ?n = "length (takeWhile (hits t) (drop i s))"
  have "(\<exists>k\<le>i + ?n. i + ?n < k + Suc ?n \<and> accepts (is, e) (drop k s)) \<longleftrightarrow> (\<exists>n\<le>?n. accepts (is, e) (drop n (drop i s)))"
  proof
    assume "\<exists>k\<le>i + ?n. i + ?n < k + Suc ?n \<and> accepts (is, e) (drop k s)"
    then obtain k where "k \<le> i + ?n" "i \<le> k" "accepts (is, e) (drop k s)" by auto
    then show "\<exists>n\<le>?n. accepts (is, e) (drop n (drop i s))" by (intro exI [of _ "k - i"]) simp
  next
    assume "\<exists>n\<le>?n. accepts (is, e) (drop n (drop i s))"
    then obtain n where "n \<le> ?n" "accepts (is, e) (drop n (drop i s))" by blast
    then show "\<exists>k\<le>i + ?n. i + ?n < k + Suc ?n \<and> accepts (is, e) (drop k s)"
      by (intro exI [of _ "n + i"]) (simp add: add.commute)
  qed
  then obtain l where "retreat rest (i + ?n) (Suc (i + ?n) - i) (len + int ?n) = Some (\<exists>n\<le>?n. accepts (is, e) (drop n (drop i s)), l)"
    using retreat_means [OF rest i refl, of "Suc ?n" t "len + int ?n"] by (auto simp del: retreat.simps)
  moreover have "advance one (s @ [0]) i len = Some (i + ?n, len + int ?n)" by (rule advance_run [OF s i one])
  ultimately show ?thesis by (simp add: matchstar_def accepts_Many del: retreat.simps drop_drop)
qed

lemma matchplus_means:
  assumes s: "0 \<notin> set s" and one: "\<And>c. c \<noteq> 0 \<Longrightarrow> one c = Some (hits t c)" and rest: "means rest (is, e) s"
    and i: "i \<le> length s"
  shows "\<exists>len'. matchplus one rest (s @ [0]) i len = Some (accepts ((t, Many1) # is, e) (drop i s), len')"
proof -
  let ?n = "length (takeWhile (hits t) (drop i s))"
  have "(\<exists>k\<le>i + ?n. i + ?n < k + ?n \<and> accepts (is, e) (drop k s))
      \<longleftrightarrow> (\<exists>n. 1 \<le> n \<and> n \<le> ?n \<and> accepts (is, e) (drop n (drop i s)))"
  proof
    assume "\<exists>k\<le>i + ?n. i + ?n < k + ?n \<and> accepts (is, e) (drop k s)"
    then obtain k where "k \<le> i + ?n" "i < k" "accepts (is, e) (drop k s)" by auto
    then show "\<exists>n. 1 \<le> n \<and> n \<le> ?n \<and> accepts (is, e) (drop n (drop i s))" by (intro exI [of _ "k - i"]) auto
  next
    assume "\<exists>n. 1 \<le> n \<and> n \<le> ?n \<and> accepts (is, e) (drop n (drop i s))"
    then obtain n where "1 \<le> n" "n \<le> ?n" "accepts (is, e) (drop n (drop i s))" by blast
    then show "\<exists>k\<le>i + ?n. i + ?n < k + ?n \<and> accepts (is, e) (drop k s)"
      by (intro exI [of _ "n + i"]) (simp add: add.commute)
  qed
  then obtain l where "retreat rest (i + ?n) (i + ?n - i) (len + int ?n)
      = Some (\<exists>n. 1 \<le> n \<and> n \<le> ?n \<and> accepts (is, e) (drop n (drop i s)), l)"
    using retreat_means [OF rest i refl, of ?n t "len + int ?n"] by auto
  moreover have "advance one (s @ [0]) i len = Some (i + ?n, len + int ?n)" by (rule advance_run [OF s i one])
  ultimately show ?thesis by (simp add: matchplus_def accepts_Many1 del: drop_drop)
qed

lemma matchquestion_means:
  assumes s: "0 \<notin> set s" and one: "\<And>c. c \<noteq> 0 \<Longrightarrow> one c = Some (hits t c)" and rest: "means rest (is, e) s"
    and i: "i \<le> length s" and k: "k \<noteq> UNUSED"
  shows "\<exists>len'. matchquestion k one rest (s @ [0]) i len = Some (accepts ((t, Opt) # is, e) (drop i s), len')"
proof -
  obtain l where l: "rest i len = Some (accepts (is, e) (drop i s), l)" using meansD [OF rest i] by blast
  show ?thesis
  proof (cases "accepts (is, e) (drop i s)")
    case True
    with l k show ?thesis by (simp add: matchquestion_def accepts_Opt)
  next
    case no: False
    show ?thesis
    proof (cases "i < length s")
      case True
      then have c: "rd8 (s @ [0]) i = Some (s ! i)" "s ! i \<noteq> 0" "hd (drop i s) = s ! i" "drop i s \<noteq> []" "tl (drop i s) = drop (Suc i) s"
        using s by (auto simp: rd8_def nth_append in_set_conv_nth hd_drop_conv_nth drop_Suc tl_drop)
      obtain l' where "rest (Suc i) l = Some (accepts (is, e) (drop (Suc i) s), l')"
        using meansD [OF rest, of "Suc i"] True by auto
      with no c l k one [OF c(2)] show ?thesis by (auto simp: matchquestion_def accepts_Opt)
    next
      case False
      then have "rd8 (s @ [0]) i = Some 0" using i by (simp add: rd8_def nth_append)
      with no l k i False show ?thesis by (simp add: matchquestion_def accepts_Opt)
    qed
  qed
qed

section \<open>The pattern\<close>

lemma laid_Cons:
  assumes "laid st k (t # ts)"
  shows "rd8 (re_compiled st) k = Some (re_compiled st ! k)" "holds (ccl_buf st) (re_compiled st ! k) t"
    "laid st (Suc k) ts"
  using assms by (simp_all add: rd8_def)

lemma laid_Nil: "laid st k [] \<Longrightarrow> rd8 (re_compiled st) k = Some (re_compiled st ! k) \<and> re_type (re_compiled st ! k) = UNUSED"
  by (simp add: rd8_def)

lemma holds_type:
  "holds buf r t \<Longrightarrow> re_type r = (case t of Meta k \<Rightarrow> k | Lit x \<Rightarrow> CHARACTER
     | Class neg body \<Rightarrow> if neg then INV_CHAR_CLASS else CHAR_CLASS)"
  by (cases t) auto

lemma holds_not_unused: "holds buf r t \<Longrightarrow> re_type r \<noteq> UNUSED"
  by (cases t) auto

lemma holds_quant:
  "holds buf r q \<Longrightarrow> quant_of q = (if re_type r = QUESTIONMARK then Some Opt else if re_type r = STAR then Some Many
     else if re_type r = PLUS then Some Many1 else None)"
  by (cases q) (auto simp: quant_of_def)

lemma plain_type: "plain t \<Longrightarrow> holds buf r t \<Longrightarrow> re_type r \<noteq> END \<and> re_type r \<noteq> UNUSED \<and> re_type r \<noteq> BEGIN"
  by (cases t) (auto simp: plain_def)

lemma text_end: "0 \<notin> set s \<Longrightarrow> i \<le> length s \<Longrightarrow> \<exists>c. rd8 (s @ [0]) i = Some c \<and> (c = 0 \<longleftrightarrow> drop i s = [])
    \<and> (drop i s \<noteq> [] \<longrightarrow> hd (drop i s) = c \<and> tl (drop i s) = drop (Suc i) s)"
  by (cases "i < length s") (auto simp: rd8_def nth_append in_set_conv_nth hd_drop_conv_nth drop_Suc tl_drop)

lemma pattern_Nil:
  "laid st k [] \<Longrightarrow> \<exists>len'. pattern_loop base st (s @ [0]) pre k i len = Some (accepts ([], False) (drop i s), len')"
  using laid_Nil [of st k] by (subst pattern_loop.simps) (auto simp: matchquestion_def accepts_Nil)

lemma pattern_Once:
  assumes s: "0 \<notin> set s" and p: "rd8 (re_compiled st) k = Some p0" "rd8 (re_compiled st) (k + 1) = Some p1" "holds (ccl_buf st) p0 t" "plain t"
    "re_type p1 \<noteq> QUESTIONMARK" "re_type p1 \<noteq> STAR" "re_type p1 \<noteq> PLUS" and i: "i \<le> length s"
    and rest: "\<And>i' len. i' \<le> length s \<Longrightarrow> \<exists>len'. pattern_loop base st (s @ [0]) pre (k + 1) i' len = Some (accepts (is, e) (drop i' s), len')"
  shows "\<exists>len'. pattern_loop base st (s @ [0]) pre k i len = Some (accepts ((t, Once) # is, e) (drop i s), len')"
proof -
  obtain c where c: "rd8 (s @ [0]) i = Some c" "c = 0 \<longleftrightarrow> drop i s = []"
    "drop i s \<noteq> [] \<Longrightarrow> hd (drop i s) = c \<and> tl (drop i s) = drop (Suc i) s" using text_end [OF s i] by blast
  have type: "re_type p0 \<noteq> END" "re_type p0 \<noteq> UNUSED" using plain_type [OF p(4,3)] by simp_all
  show ?thesis
  proof (cases "c \<noteq> 0 \<and> hits t c")
    case True
    then have "i < length s" using c(2) i by simp
    then obtain l where "pattern_loop base st (s @ [0]) pre (k + 1) (i + 1) (len + 1) = Some (accepts (is, e) (drop (i + 1) s), l)"
      using rest [of "i + 1" "len + 1"] by auto
    with True c p type matchone_hits [OF p(3,4)] show ?thesis
      by (subst pattern_loop.simps) (simp add: accepts_Once)
  next
    case False
    with c p type matchone_hits [OF p(3,4), of c] show ?thesis
      by (subst pattern_loop.simps) (auto simp: accepts_Once)
  qed
qed

lemma pattern_means:
  assumes s: "0 \<notin> set s"
  shows "items ts = Some (is, e) \<Longrightarrow> laid st k ts \<Longrightarrow> i \<le> length s \<Longrightarrow>
    \<exists>len'. pattern_loop base st (s @ [0]) pre k i len = Some (accepts (is, e) (drop i s), len')"
proof (induction ts arbitrary: "is" e pre k i len rule: items.induct)
  case 1
  then show ?case using pattern_Nil [of st k base s pre i len] by simp
next
  case (2 t)
  note p0 = laid_Cons [OF 2(2)] and p1 = laid_Nil [OF laid_Cons(3) [OF 2(2)]]
  show ?case
  proof (cases "t = Meta END")
    case True
    then show ?thesis using text_end [OF s 2(3)] 2(1) p0 p1
      by (subst pattern_loop.simps) (auto simp: accepts_Nil)
  next
    case False
    with 2(1) have t: "plain t" "is = [(t, Once)]" "e = False" by (auto split: if_splits)
    have "\<exists>len'. pattern_loop base st (s @ [0]) pre k i len = Some (accepts ((t, Once) # [], False) (drop i s), len')"
    proof (rule pattern_Once [OF s p0(1) _ p0(2) t(1) _ _ _ 2(3)])
      show "rd8 (re_compiled st) (k + 1) = Some (re_compiled st ! Suc k)" using p1 by simp
      show "\<exists>len'. pattern_loop base st (s @ [0]) pre (k + 1) i' l = Some (accepts ([], False) (drop i' s), len')" for i' l
        using pattern_Nil [OF p0(3)] by simp
    qed (use p1 in simp_all)
    with t show ?thesis by simp
  qed
next
  case (3 t q ts)
  note p0 = laid_Cons [OF "3.prems"(2)]
  note p1 = laid_Cons [OF p0(3)]
  from "3.prems"(1) have t: "plain t" by (auto split: if_splits)
  have type: "re_type (re_compiled st ! k) \<noteq> UNUSED" by (rule holds_not_unused [OF p0(2)])
  note q = holds_quant [OF p1(2)]
  show ?case
  proof (cases "quant_of q")
    case None
    then obtain is' where is': "is = (t, Once) # is'" "items (q # ts) = Some (is', e)" using "3.prems"(1) t by auto
    have "\<exists>len'. pattern_loop base st (s @ [0]) pre k i len = Some (accepts ((t, Once) # is', e) (drop i s), len')"
    proof (rule pattern_Once [OF s p0(1) _ p0(2) t _ _ _ "3.prems"(3)])
      show "rd8 (re_compiled st) (k + 1) = Some (re_compiled st ! Suc k)" using p1(1) by simp
      show "\<exists>len'. pattern_loop base st (s @ [0]) pre (k + 1) i' l = Some (accepts (is', e) (drop i' s), len')"
        if "i' \<le> length s" for i' l
        by (rule "3.IH"(1)) (use t None is' p0(3) that in auto)
    qed (use None q in \<open>auto split: if_splits\<close>)
    with is' show ?thesis by simp
  next
    case (Some u)
    then obtain is' where is': "is = (t, u) # is'" "items ts = Some (is', e)" using "3.prems"(1) t by auto
    have rest: "means (\<lambda>i l. pattern_loop base st (s @ [0]) l (k + 2) i l) (is', e) s"
      unfolding means_def answers_def
    proof (intro allI impI)
      fix i' l assume "i' \<le> length s"
      then show "\<exists>len'. pattern_loop base st (s @ [0]) l (k + 2) i' l = Some (accepts (is', e) (drop i' s), len')"
        by (intro "3.IH"(2)) (use t Some is' p1(3) in auto)
    qed
    note one = matchone_hits [OF p0(2) t]
    from p0(1) p1(1) type Some q is'(1) show ?thesis
      using matchstar_means [OF s one rest "3.prems"(3), of _ len] matchplus_means [OF s one rest "3.prems"(3), of _ len]
        matchquestion_means [OF s one rest "3.prems"(3) type, of _ len]
      by (subst pattern_loop.simps) (auto split: if_splits)
  qed
qed

section \<open>The search\<close>

lemma search_run:
  assumes s: "0 \<notin> set s" and a: "answers A attempt (length s)" and t: "t \<le> length s"
  shows "\<exists>len'. search_loop attempt (s @ [0]) t len = Some (case find A [t..<Suc (length s)] of
      None \<Rightarrow> -1 | Some k \<Rightarrow> if k < length s then int k else -1, len')"
  using t
proof (induction "length s - t" arbitrary: t len)
  case 0
  then have t: "t = length s" by simp
  obtain l where "attempt t len = Some (A t, l)" using answersD [OF a] 0 by blast
  with t show ?case by (subst search_loop.simps) (auto simp: rd8_def nth_append)
next
  case (Suc n)
  then have t: "t < length s" by simp
  obtain l where l: "attempt t len = Some (A t, l)" using answersD [OF a] Suc.prems by blast
  have c: "rd8 (s @ [0]) t = Some (s ! t)" "s ! t \<noteq> 0" using t s by (auto simp: rd8_def nth_append in_set_conv_nth)
  have r: "[t..<Suc (length s)] = t # [Suc t..<Suc (length s)]" using t by (simp add: upt_conv_Cons)
  show ?case
  proof (cases "A t")
    case True
    with l c t show ?thesis unfolding r by (subst search_loop.simps) simp
  next
    case False
    with l c Suc.hyps(1) [of "Suc t" l] Suc.hyps(2) t show ?thesis unfolding r by (subst search_loop.simps) auto
  qed
qed

text \<open>
  The index the pattern is to be found at: the first position at which it starts, except that a match
  of nothing at the end of the text does not count; with the anchor \<open>^\<close>, the start of the text only.
\<close>

definition found_at :: "bool \<Rightarrow> (token \<times> quant) list \<times> bool \<Rightarrow> bytes \<Rightarrow> int" where
  "found_at anchored p s =
     (if anchored then if accepts p s then 0 else -1
      else case find (\<lambda>k. accepts p (drop k s)) [0..<Suc (length s)] of
        None \<Rightarrow> -1
      | Some k \<Rightarrow> if k < length s then int k else -1)"

text \<open>A whole pattern: whether it starts with the anchor, its symbols, whether it ends in one.\<close>

definition grouped :: "token list \<Rightarrow> (bool \<times> (token \<times> quant) list \<times> bool) option" where
  "grouped ts = (case ts of
     [] \<Rightarrow> Some (False, [], False)
   | t # ts' \<Rightarrow> if t = Meta BEGIN then map_option (Pair True) (items ts') else map_option (Pair False) (items ts))"

lemma grouped_first:
  assumes "grouped ts = Some (anchored, p)" and l: "laid st 0 ts" and "\<nexists>ts'. ts = Meta BEGIN # ts'"
  shows "\<exists>p. rd8 (re_compiled st) 0 = Some p \<and> re_type p \<noteq> BEGIN"
proof (cases ts)
  case Nil
  then show ?thesis using laid_Nil l by fastforce
next
  case (Cons t ts')
  have "t \<noteq> Meta BEGIN" using assms(3) Cons by blast
  moreover note laid_Cons [OF l [unfolded Cons]]
  ultimately show ?thesis using holds_type [of "ccl_buf st" "re_compiled st ! 0" t] by (auto split: token.splits if_splits)
qed

lemma re_matchp_found:
  assumes s: "0 \<notin> set s" and g: "grouped ts = Some (anchored, p)" and l: "laid st 0 ts"
  shows "\<exists>len. re_matchp base st True (s @ [0]) = Some (found_at anchored p s, len)"
proof -
  obtain "is" e where p: "p = (is, e)" by (cases p)
  show ?thesis
  proof (cases "\<exists>ts'. ts = Meta BEGIN # ts'")
    case True
    then obtain ts' where ts: "ts = Meta BEGIN # ts'" by blast
    then have i: "items ts' = Some (is, e)" "anchored" using g p by (auto simp: grouped_def)
    note h = laid_Cons [OF l [unfolded ts]]
    obtain len where "pattern_loop base st (s @ [0]) 0 (Suc 0) 0 0 = Some (accepts (is, e) (drop 0 s), len)"
      using pattern_means [OF s i(1) h(3), of 0] by blast
    with h i(2) p show ?thesis by (simp add: re_matchp_def matchpattern_def found_at_def)
  next
    case False
    then have i: "items ts = Some (is, e)" "\<not> anchored" using g p by (auto simp: grouped_def split: list.splits if_splits)
    have first: "\<exists>p. rd8 (re_compiled st) 0 = Some p \<and> re_type p \<noteq> BEGIN"
      using grouped_first [OF g l] False by blast
    have "answers (\<lambda>k. accepts (is, e) (drop k s)) (matchpattern base st (s @ [0]) 0) (length s)"
      using pattern_means [OF s i(1) l] by (simp add: answers_def matchpattern_def)
    from search_run [OF s this, of 0 0] first i(2) p show ?thesis by (auto simp: re_matchp_def found_at_def)
  qed
qed

section \<open>The compiler\<close>

text \<open>The body of a class and what follows its bracket; \<^term>\<open>None\<close> if the bracket is missing.\<close>

fun class_body :: "bytes \<Rightarrow> (bytes \<times> bytes) option" where
  "class_body [] = None"
| "class_body (x # r) =
     (if x = c_close then Some ([], r)
      else if x = c_bslash then (case r of
          [] \<Rightarrow> None
        | y # r' \<Rightarrow> map_option (apfst (\<lambda>b. x # y # b)) (class_body r'))
      else map_option (apfst ((#) x)) (class_body r))"

definition escaped :: "u8 \<Rightarrow> token" where
  "escaped x =
     (if x = 100 then Meta DIGIT else if x = 68 then Meta NOT_DIGIT
      else if x = 119 then Meta ALPHA else if x = 87 then Meta NOT_ALPHA
      else if x = 115 then Meta WHITESPACE else if x = 83 then Meta NOT_WHITESPACE
      else Lit x)"

text \<open>The first token of a pattern and the rest; \<^term>\<open>None\<close> for an open class or a backslash at the end.\<close>

fun token1 :: "bytes \<Rightarrow> (token \<times> bytes) option" where
  "token1 [] = None"
| "token1 (c # r) =
     (if c = c_caret then Some (Meta BEGIN, r)
      else if c = c_dollar then Some (Meta END, r)
      else if c = c_dot then Some (Meta DOT, r)
      else if c = c_star then Some (Meta STAR, r)
      else if c = c_plus then Some (Meta PLUS, r)
      else if c = c_quest then Some (Meta QUESTIONMARK, r)
      else if c = c_bslash then (case r of [] \<Rightarrow> None | x # r' \<Rightarrow> Some (escaped x, r'))
      else if c = c_open then
        (if r \<noteq> [] \<and> hd r = c_caret then map_option (apfst (Class True)) (class_body (tl r))
         else map_option (apfst (Class False)) (class_body r))
      else Some (Lit c, r))"

lemma class_body_split: "class_body r = Some (b, r') \<Longrightarrow> r = b @ c_close # r'"
  by (induction r arbitrary: b rule: class_body.induct) (auto split: if_splits list.splits)

lemma class_body_ok: "class_body r = Some (b, r') \<Longrightarrow> 0 \<notin> set r \<Longrightarrow> body_ok b"
  by (induction r arbitrary: b rule: class_body.induct) (auto split: if_splits list.splits)

lemma token1_less: "token1 r = Some (t, r') \<Longrightarrow> length r' < length r"
  by (cases r; cases "tl r") (auto split: if_splits list.splits dest!: class_body_split)

function tokens :: "bytes \<Rightarrow> token list option" where
  "tokens r = (if r = [] then Some []
     else case token1 r of None \<Rightarrow> None | Some (t, r') \<Rightarrow> map_option ((#) t) (tokens r'))"
  by pat_completeness auto
termination by (relation "measure length") (auto dest: token1_less)

declare tokens.simps [simp del]

text \<open>The bytes of the class buffer a token takes.\<close>

definition cost :: "token \<Rightarrow> nat" where
  "cost t = (case t of Class neg b \<Rightarrow> Suc (length b) | _ \<Rightarrow> 0)"

lemma splice_Cons: "i + length ys < length xs \<Longrightarrow> splice (xs[i := y]) (Suc i) ys = splice xs i (y # ys)"
  by (rule nth_equalityI) (auto simp: nth_splice nth_list_update nth_Cons')

lemma splice_empty [simp]: "splice xs i [] = xs"
  by (simp add: splice_def)

lemma copy_class_run:
  assumes "class_body r = Some (b, r')" "0 \<notin> set r" "idx + length b \<le> 39" "length buf = 40" "Suc i = length pre"
  shows "copy_class (pre @ r @ [0]) i idx buf = Some (Inr (length pre + length b, idx + length b, splice buf idx b))"
  using assms
proof (induction r arbitrary: b pre i idx buf rule: class_body.induct)
  case (2 x r)
  have rd: "rd8 (pre @ (x # r) @ [0]) (i + 1 + k) = rd8 ((x # r) @ [0]) k" for k
    using rd8_append_more [of pre "(x # r) @ [0]" k] "2.prems"(5) by (simp add: add.commute)
  have x: "rd8 (pre @ (x # r) @ [0]) (i + 1) = Some x" "x \<noteq> 0" using rd [of 0] "2.prems"(2) by (auto simp: rd8_def)
  consider "x = c_close" | y s b' where "x = c_bslash" "r = y # s" "class_body s = Some (b', r')" "b = x # y # b'"
    | b' where "x \<noteq> c_close" "x \<noteq> c_bslash" "class_body r = Some (b', r')" "b = x # b'"
    using "2.prems"(1) by (auto split: if_splits list.splits)
  then show ?case
  proof cases
    case 1
    then show ?thesis using x "2.prems" by (subst copy_class.simps) simp
  next
    case (2 y s b')
    have y: "rd8 (pre @ (x # r) @ [0]) (i + 2) = Some y" using rd [of 1] 2(2) by (simp add: rd8_def)
    let ?buf = "buf[idx := x, idx + 1 := y]"
    have "copy_class ((pre @ [x, y]) @ s @ [0]) (i + 2) (idx + 2) ?buf
        = Some (Inr (length (pre @ [x, y]) + length b', idx + 2 + length b', splice ?buf (idx + 2) b'))"
      using 2 "2.prems" by (intro "2.IH"(1) [of y s]) auto
    moreover have "splice ?buf (idx + 2) b' = splice buf idx b"
      using splice_Cons [of "idx + 1" b' "buf[idx := x]" y] splice_Cons [of idx "y # b'" buf x] 2(4) "2.prems"(3,4) by simp
    ultimately show ?thesis using x y 2 "2.prems"(3,4) by (subst copy_class.simps) (simp add: wr8_in)
  next
    case (3 b')
    have "copy_class ((pre @ [x]) @ r @ [0]) (i + 1) (idx + 1) (buf[idx := x])
        = Some (Inr (length (pre @ [x]) + length b', idx + 1 + length b', splice (buf[idx := x]) (idx + 1) b'))"
      using 3 "2.prems" by (intro "2.IH"(2)) auto
    then show ?thesis using x 3 "2.prems"(3,4) splice_Cons [of idx b' buf x] by (subst copy_class.simps) (simp add: wr8_in)
  qed
qed simp

text \<open>The two arrays between calls: their lengths, and the zero before the first class.\<close>

definition store_ok :: "re_store \<Rightarrow> bool" where
  "store_ok st \<longleftrightarrow> length (re_compiled st) = 30 \<and> length (ccl_buf st) = 40 \<and> ccl_buf st ! 0 = 0"

text \<open>An entry keeps its meaning when the buffer grows.\<close>

lemma holds_grows: "holds (take n buf) r t \<Longrightarrow> holds buf r t"
proof (cases t)
  case (Class neg b)
  assume h: "holds (take n buf) r t"
  then obtain xs ys where x: "take n buf = xs @ 0 # b @ 0 # ys" "re_data r = Ccl (Suc (length xs))" using Class by auto
  have "buf = xs @ 0 # b @ 0 # (ys @ drop n buf)" using x(1) append_take_drop_id [of n buf] by simp
  with h x(2) Class show ?thesis by auto
qed auto

lemma set_type_in: "j < length rs \<Longrightarrow> set_type k j rs = Some (rs[j := (rs ! j)\<lparr>re_type := k\<rparr>])"
  by (simp add: set_type_def rd8_in wr8_in)

lemma set_data_in: "j < length rs \<Longrightarrow> set_data d j rs = Some (rs[j := (rs ! j)\<lparr>re_data := d\<rparr>])"
  by (simp add: set_data_def rd8_in wr8_in)

lemma set_char_in: "j < length rs \<Longrightarrow> set_char x j rs = Some (rs[j := (rs ! j)\<lparr>re_type := CHARACTER, re_data := Ch x\<rparr>])"
  by (simp add: set_char_def set_type_in set_data_in)

lemma compile_escape_in:
  "j < length rs \<Longrightarrow> \<exists>r. compile_escape x j rs = Some (rs[j := r]) \<and> holds buf r (escaped x)"
  by (auto simp: compile_escape_def escaped_def set_type_in set_char_in)

lemma compile_class_run:
  assumes b: "class_body r = Some (b, r')" "0 \<notin> set r" and idx: "1 \<le> idx" "idx + length b \<le> 39" "ccl_buf st ! (idx - 1) = 0"
    and st: "store_ok st" "j < 30"
    and pre: "pattern = pre @ c_open # (if neg then [c_caret] else []) @ r @ [0]" "neg \<or> hd r \<noteq> c_caret"
  shows "\<exists>rs buf. compile_class pattern (length pre) j idx st
      = Some (Inr (length pattern - 2 - length r', idx + Suc (length b), \<lparr>re_compiled = (re_compiled st)[j := rs], ccl_buf = buf\<rparr>))
    \<and> holds (take (idx + Suc (length b)) buf) rs (Class neg b) \<and> take idx buf = take idx (ccl_buf st)
    \<and> length buf = 40 \<and> buf ! (idx + length b) = 0"
proof -
  let ?q = "pre @ c_open # (if neg then [c_caret] else [])"
  have len: "length (ccl_buf st) = 40" "j < length (re_compiled st)" using st by (simp_all add: store_ok_def)
  have r: "r = b @ c_close # r'" by (rule class_body_split [OF b(1)])
  have pat: "pattern = ?q @ r @ [0]" using pre(1) by simp
  have x: "rd8 pattern (length pre + 1) = Some (if neg then c_caret else hd r)"
    "neg = (((if neg then c_caret else hd r) :: u8) = c_caret)"
    using pre by (cases r; auto simp: rd8_def nth_append r)+
  have copy: "copy_class pattern (if neg then length pre + 1 else length pre) idx (ccl_buf st)
      = Some (Inr (length ?q + length b, idx + length b, splice (ccl_buf st) idx b))"
    unfolding pat by (rule copy_class_run [OF b idx(2) len(1)]) simp
  let ?buf = "(splice (ccl_buf st) idx b)[idx + length b := 0]"
  let ?rs = "(re_compiled st ! j)\<lparr>re_type := if neg then INV_CHAR_CLASS else CHAR_CLASS, re_data := Ccl idx\<rparr>"
  have "compile_class pattern (length pre) j idx st
      = Some (Inr (length ?q + length b, idx + length b + 1, \<lparr>re_compiled = (re_compiled st)[j := ?rs], ccl_buf = ?buf\<rparr>))"
    using x copy len idx(2) by (auto simp: compile_class_def set_type_in set_data_in wr8_in Let_def)
  moreover have "length ?q + length b = length pattern - 2 - length r'" unfolding pat r by simp
  moreover have "holds (take (idx + Suc (length b)) ?buf) ?rs (Class neg b) \<and> take idx ?buf = take idx (ccl_buf st)"
  proof -
    let ?front = "take (idx - 1) (ccl_buf st)"
    have front: "length ?front = idx - 1" "take idx (ccl_buf st) = ?front @ [0]"
      using idx len(1) take_Suc_conv_app_nth [of "idx - 1" "ccl_buf st"] by simp_all
    moreover have "drop (idx + length b) (ccl_buf st) = ccl_buf st ! (idx + length b) # drop (idx + length b + 1) (ccl_buf st)"
      using idx(2) len(1) Cons_nth_drop_Suc [of "idx + length b" "ccl_buf st"] by simp
    moreover have "\<not> idx + length b < idx - 1" by simp
    ultimately have buf: "?buf = ?front @ 0 # b @ 0 # drop (idx + length b + 1) (ccl_buf st)"
      using idx len(1) by (simp add: splice_def list_update_append)
    have "take (idx + Suc (length b)) ?buf = ?front @ 0 # b @ 0 # []" "take idx ?buf = ?front @ [0]"
      unfolding buf using front(1) idx(1) by simp_all
    moreover have "re_data ?rs = Ccl (Suc (length ?front))" using front(1) idx(1) by simp
    ultimately show ?thesis using front(2) class_body_ok [OF b] by auto
  qed
  moreover have "length ?buf = 40" "?buf ! (idx + length b) = 0" using idx(2) len(1) by simp_all
  ultimately show ?thesis by (intro exI [of _ ?rs] exI [of _ ?buf]) simp
qed

lemma store_upd: "st\<lparr>re_compiled := rs\<rparr> = \<lparr>re_compiled = rs, ccl_buf = ccl_buf st\<rparr>"
  by (cases st) simp

text \<open>One turn of the main loop reads one token.\<close>

lemma compile_symbol_run:
  assumes tok: "token1 ps = Some (t, r')" "0 \<notin> set ps" and idx: "1 \<le> idx" "idx + cost t \<le> 40" "ccl_buf st ! (idx - 1) = 0"
    and st: "store_ok st" "j < 30" and pat: "pattern = pre @ ps @ [0]"
  shows "\<exists>rs buf. compile_symbol pattern (length pre) j idx st
      = Some (Inr (length pattern - 2 - length r', idx + cost t, \<lparr>re_compiled = (re_compiled st)[j := rs], ccl_buf = buf\<rparr>))
    \<and> holds (take (idx + cost t) buf) rs t \<and> take idx buf = take idx (ccl_buf st)
    \<and> length buf = 40 \<and> buf ! (idx + cost t - 1) = 0"
proof -
  obtain c r where ps: "ps = c # r" using tok(1) by (cases ps) auto
  have len: "length (ccl_buf st) = 40" "j < length (re_compiled st)" using st by (simp_all add: store_ok_def)
  have c: "rd8 pattern (length pre) = Some c" using pat ps by simp
  note same = exI [of _ "ccl_buf st"]
  have i: "length pattern - 2 - length r = length pre" using pat ps by simp
  consider (bracket) "c = c_open" | (esc) "c = c_bslash" | (other) "c \<noteq> c_open" "c \<noteq> c_bslash" by blast
  then show ?thesis
  proof cases
    case bracket
    show ?thesis
    proof (cases "r \<noteq> [] \<and> hd r = c_caret")
      case True
      then obtain s where r: "r = c_caret # s" by (cases r) auto
      with tok(1) ps bracket obtain b where b: "class_body s = Some (b, r')" "t = Class True b" by auto
      from compile_class_run [OF b(1), of idx st j pattern pre True] c bracket b(2) idx st tok(2) pat ps r
      show ?thesis by (auto simp: compile_symbol_def cost_def)
    next
      case False
      with tok(1) ps bracket obtain b where b: "class_body r = Some (b, r')" "t = Class False b" by auto
      moreover have "r \<noteq> []" using b(1) by auto
      ultimately show ?thesis
        using compile_class_run [OF b(1), of idx st j pattern pre False] c bracket idx st tok(2) pat ps False
        by (auto simp: compile_symbol_def cost_def)
    qed
  next
    case esc
    then obtain x where x: "r = x # r'" "t = escaped x" using tok(1) ps by (auto split: list.splits)
    have "cost t = 0" using x(2) by (simp add: cost_def escaped_def)
    moreover have "rd8 pattern (length pre + 1) = Some x" "x \<noteq> 0" using pat ps x(1) tok(2) by (simp_all add: rd8_def nth_append)
    moreover obtain e where "compile_escape x j (re_compiled st) = Some ((re_compiled st)[j := e])" "holds (take idx (ccl_buf st)) e t"
      using compile_escape_in [OF len(2)] x(2) by blast
    ultimately show ?thesis using c esc len idx pat ps x(1)
      by (intro exI [of _ e] same) (simp add: compile_symbol_def)
  next
    case other
    then have r: "r' = r" "cost t = 0" using tok(1) ps by (auto simp: cost_def split: if_splits)
    let ?old = "re_compiled st ! j"
    let ?e = "case t of Meta k \<Rightarrow> ?old\<lparr>re_type := k\<rparr> | Lit x \<Rightarrow> ?old\<lparr>re_type := CHARACTER, re_data := Ch x\<rparr> | _ \<Rightarrow> ?old"
    have "compile_symbol pattern (length pre) j idx st
        = Some (Inr (length pre, idx, \<lparr>re_compiled = (re_compiled st)[j := ?e], ccl_buf = ccl_buf st\<rparr>))"
      and "holds (take idx (ccl_buf st)) ?e t"
      using tok(1) ps other c len by (auto simp: compile_symbol_def set_type_in set_char_in store_upd split: if_splits)
    with r i len idx show ?thesis by (intro exI [of _ ?e] same) simp
  qed
qed

lemma token1_rest: "token1 ps = Some (t, r') \<Longrightarrow> \<exists>used. ps = used @ r' \<and> used \<noteq> []"
proof (cases ps)
  case (Cons c r)
  assume tok: "token1 ps = Some (t, r')"
  have "\<exists>used. r = used @ r'"
  proof (cases "c = c_open")
    case True
    show ?thesis
    proof (cases "r \<noteq> [] \<and> hd r = c_caret")
      case caret: True
      then obtain s where r: "r = c_caret # s" by (cases r) auto
      with tok Cons True obtain b where "class_body s = Some (b, r')" by auto
      from class_body_split [OF this] r have "r = (c_caret # b @ [c_close]) @ r'" by simp
      then show ?thesis by blast
    next
      case False
      with tok Cons True obtain b where "class_body r = Some (b, r')" by auto
      from class_body_split [OF this] have "r = (b @ [c_close]) @ r'" by simp
      then show ?thesis by blast
    qed
  next
    case False
    then have "r' = r \<or> (\<exists>x. r = x # r')" using tok Cons by (auto split: if_splits list.splits)
    then show ?thesis by (metis append_Cons append_Nil)
  qed
  then show ?thesis using Cons by (metis append_Cons list.distinct(1))
qed simp

definition total_cost :: "token list \<Rightarrow> nat" where
  "total_cost ts = sum_list (map cost ts)"

lemma total_cost_simps [simp]: "total_cost [] = 0" "total_cost (t # ts) = cost t + total_cost ts"
  by (simp_all add: total_cost_def)

lemma finish_run:
  assumes "store_ok st" "j < 30"
  shows "\<exists>rs. set_type UNUSED j (re_compiled st) = Some rs \<and> (\<forall>m<j. rs ! m = re_compiled st ! m)
    \<and> store_ok (st\<lparr>re_compiled := rs\<rparr>) \<and> laid (st\<lparr>re_compiled := rs\<rparr>) j []"
  using assms by (simp add: set_type_in store_ok_def)

lemma compile_loop_run:
  assumes "tokens ps = Some ts" "0 \<notin> set ps" "length ts \<le> n" "j + n = 29" "1 \<le> idx" "idx + total_cost ts \<le> 40"
    "ccl_buf st ! (idx - 1) = 0" "store_ok st" "pattern = pre @ ps @ [0]"
  shows "\<exists>st'. compile_loop pattern n (length pre) j idx st = Some (True, st') \<and> store_ok st'
    \<and> (\<forall>m<j. re_compiled st' ! m = re_compiled st ! m) \<and> take idx (ccl_buf st') = take idx (ccl_buf st) \<and> laid st' j ts"
  using assms
proof (induction ps arbitrary: ts n j idx st pre rule: tokens.induct)
  case (1 ps)
  show ?case
  proof (cases "ps = []")
    case True
    then have "rd8 pattern (length pre) = Some 0" "ts = []" using "1.prems"(1,9) by (simp_all add: tokens.simps)
    then show ?thesis using finish_run [OF "1.prems"(8), of j] "1.prems"(4) by (cases n) auto
  next
    case False
    with "1.prems"(1) obtain t r' ts' where t: "token1 ps = Some (t, r')" "tokens r' = Some ts'" "ts = t # ts'"
      by (subst (asm) tokens.simps) (auto split: option.splits)
    then obtain n' where n: "n = Suc n'" using "1.prems"(3) by (cases n) auto
    obtain used where used: "ps = used @ r'" using token1_rest [OF t(1)] by blast
    have cost: "idx + cost t \<le> 40" "1 \<le> idx + cost t" "idx + cost t + total_cost ts' \<le> 40" using "1.prems"(5,6) t(3) by simp_all
    have j: "j < 30" using "1.prems"(4) by simp
    obtain e buf where step: "compile_symbol pattern (length pre) j idx st
          = Some (Inr (length pattern - 2 - length r', idx + cost t, \<lparr>re_compiled = (re_compiled st)[j := e], ccl_buf = buf\<rparr>))"
        "holds (take (idx + cost t) buf) e t" "take idx buf = take idx (ccl_buf st)" "length buf = 40" "buf ! (idx + cost t - 1) = 0"
      using compile_symbol_run [OF t(1) "1.prems"(2,5) cost(1) "1.prems"(7,8) j "1.prems"(9)] by blast
    let ?st = "\<lparr>re_compiled = (re_compiled st)[j := e], ccl_buf = buf\<rparr>"
    have "buf ! 0 = ccl_buf st ! 0" using step(3) "1.prems"(5) by (metis nth_take Suc_le_lessD One_nat_def)
    then have ok: "store_ok ?st" using "1.prems"(8) step(4) by (simp add: store_ok_def)
    have "\<exists>st'. compile_loop pattern n' (length (pre @ used)) (j + 1) (idx + cost t) ?st = Some (True, st') \<and> store_ok st'
      \<and> (\<forall>m<j + 1. re_compiled st' ! m = re_compiled ?st ! m)
      \<and> take (idx + cost t) (ccl_buf st') = take (idx + cost t) (ccl_buf ?st) \<and> laid st' (j + 1) ts'"
      using "1.prems"(2-4,9) used t(2,3) n cost ok step(5) by (intro "1.IH" [OF False t(1) refl]) auto
    then obtain st' where st': "compile_loop pattern n' (length (pre @ used)) (j + 1) (idx + cost t) ?st = Some (True, st')" "store_ok st'"
        "\<forall>m<j + 1. re_compiled st' ! m = re_compiled ?st ! m"
        "take (idx + cost t) (ccl_buf st') = take (idx + cost t) buf" "laid st' (j + 1) ts'" by auto
    have "re_compiled st' ! j = e" using st'(3) j "1.prems"(8) by (simp add: store_ok_def)
    then have "holds (ccl_buf st') (re_compiled st' ! j) t" using step(2) st'(4) holds_grows by metis
    then have "laid st' j ts" using st'(2,5) t(3) j by (simp add: store_ok_def)
    moreover have "take idx (ccl_buf st') = take idx (ccl_buf st)"
      using st'(4) step(3) by (metis min_def le_add1 take_take)
    moreover have "\<forall>m<j. re_compiled st' ! m = re_compiled st ! m" using st'(3) by simp
    moreover have "length pattern - 2 - length r' + 1 = length (pre @ used)"
      using token1_less [OF t(1)] used "1.prems"(9) by simp
    moreover have "rd8 pattern (length pre) = Some (hd ps)" "hd ps \<noteq> 0"
      using "1.prems"(2,9) False by (cases ps; simp)+
    ultimately show ?thesis using st'(1,2) step(1) n by simp
  qed
qed

lemma re_compile_run:
  assumes "store_ok st" "0 \<notin> set ps" "tokens ps = Some ts" "length ts \<le> 29" "total_cost ts \<le> 39"
  shows "\<exists>st'. re_compile st (ps @ [0]) = Some (True, st') \<and> store_ok st' \<and> laid st' 0 ts"
  using compile_loop_run [OF assms(3,2,4), of 0 1 st "ps @ [0]" "[]"] assms(1,5) by (auto simp: re_compile_def store_ok_def)

section \<open>Patterns of fixed length\<close>

definition fixed :: "(token \<times> quant) list \<Rightarrow> bool" where
  "fixed is \<longleftrightarrow> list_all (\<lambda>i. snd i = Once) is"

lemma fixed_Cons [simp]: "fixed (i # is) \<longleftrightarrow> snd i = Once \<and> fixed is" and fixed_Nil [simp]: "fixed []"
  by (simp_all add: fixed_def)

lemma pattern_fixed:
  assumes s: "0 \<notin> set s"
  shows "items ts = Some (is, False) \<Longrightarrow> fixed is \<Longrightarrow> laid st k ts \<Longrightarrow> i \<le> length s \<Longrightarrow>
    pattern_loop base st (s @ [0]) pre k i len = Some (accepts (is, False) (drop i s),
      if accepts (is, False) (drop i s) then len + int (length is) else pre)"
proof (induction ts arbitrary: "is" k i len rule: items.induct)
  case 1
  then show ?case using laid_Nil [of st k]
    by (subst pattern_loop.simps) (auto simp: matchquestion_def accepts_Nil)
next
  case (2 t)
  note p0 = laid_Cons [OF 2(3)] and p1 = laid_Nil [OF laid_Cons(3) [OF 2(3)]]
  from 2(1) have t: "plain t" "is = [(t, Once)]" by (auto split: if_splits)
  obtain c where c: "rd8 (s @ [0]) i = Some c" "c = 0 \<longleftrightarrow> drop i s = []"
    "drop i s \<noteq> [] \<Longrightarrow> hd (drop i s) = c \<and> tl (drop i s) = drop (Suc i) s" using text_end [OF s 2(4)] by blast
  have "pattern_loop base st (s @ [0]) pre (Suc k) (Suc i) (len + 1) = Some (True, len + 1)"
    using p1 by (subst pattern_loop.simps) (simp add: matchquestion_def)
  with c p0 p1 plain_type [OF t(1) p0(2)] matchone_hits [OF p0(2) t(1), of c] t(2) show ?case
    by (subst pattern_loop.simps) (auto simp: accepts_Once accepts_Nil)
next
  case (3 t q ts)
  note p0 = laid_Cons [OF "3.prems"(3)]
  note p1 = laid_Cons [OF p0(3)]
  from "3.prems"(1) have t: "plain t" by (auto split: if_splits)
  from "3.prems"(1,2) t have none: "quant_of q = None"
    by (auto simp: quant_of_def split: if_splits)
  then obtain is' where is': "is = (t, Once) # is'" "items (q # ts) = Some (is', False)" using "3.prems"(1) t by auto
  obtain c where c: "rd8 (s @ [0]) i = Some c" "c = 0 \<longleftrightarrow> drop i s = []"
    "drop i s \<noteq> [] \<Longrightarrow> hd (drop i s) = c \<and> tl (drop i s) = drop (Suc i) s" using text_end [OF s "3.prems"(4)] by blast
  have q: "re_type (re_compiled st ! Suc k) \<notin> {QUESTIONMARK, STAR, PLUS}"
    using holds_quant [OF p1(2)] none by (auto split: if_splits)
  show ?case
  proof (cases "c \<noteq> 0 \<and> hits t c")
    case True
    then have "Suc i \<le> length s" using c(2) by simp
    with t none is' p0(3) "3.prems"(2)
    have "pattern_loop base st (s @ [0]) pre (Suc k) (Suc i) (len + 1) = Some (accepts (is', False) (drop (Suc i) s),
        if accepts (is', False) (drop (Suc i) s) then len + 1 + int (length is') else pre)"
      by (intro "3.IH"(1)) auto
    with True c p0 p1 q plain_type [OF t p0(2)] matchone_hits [OF p0(2) t] is'(1) show ?thesis
      by (subst pattern_loop.simps) (auto simp: accepts_Once)
  next
    case False
    with c p0 p1 q plain_type [OF t p0(2)] matchone_hits [OF p0(2) t, of c] is'(1) show ?thesis
      by (subst pattern_loop.simps) (auto simp: accepts_Once)
  qed
qed

lemma accepts_fixed_end: "fixed is \<Longrightarrow> accepts (is, e) [] \<Longrightarrow> is = []"
  by (cases "is") (auto simp: accepts_Cons words_def)

lemma search_fixed:
  assumes s: "0 \<notin> set s" and a: "\<And>t. t \<le> length s \<Longrightarrow> attempt t 0 = Some (A t, if A t then n else 0)"
    and last: "A (length s) \<Longrightarrow> n = 0" and t: "t \<le> length s"
  shows "search_loop attempt (s @ [0]) t 0 = Some (r, l) \<Longrightarrow> l = (if r = -1 then 0 else n)"
  using t
proof (induction "length s - t" arbitrary: t)
  case 0
  then have t: "t = length s" by simp
  from 0(2) a [of t] last t show ?case by (subst (asm) search_loop.simps) (auto simp: rd8_def nth_append split: if_splits)
next
  case (Suc m)
  then have t: "t < length s" by simp
  have c: "rd8 (s @ [0]) t = Some (s ! t)" "s ! t \<noteq> 0" using t s by (auto simp: rd8_def nth_append in_set_conv_nth)
  from Suc.prems(1) [unfolded search_loop.simps [of attempt _ t]] Suc.hyps(1) [of "Suc t"] Suc.hyps(2) a [of t] t c
  show ?case by (auto split: if_splits)
qed

lemma re_matchp_fixed:
  assumes s: "0 \<notin> set s" and g: "grouped ts = Some (anchored, is, False)" and l: "laid st 0 ts" and f: "fixed is"
    and r: "re_matchp base st True (s @ [0]) = Some (r, len)"
  shows "len = (if r = -1 then 0 else int (length is))"
proof (cases "\<exists>ts'. ts = Meta BEGIN # ts'")
  case True
  then obtain ts' where ts: "ts = Meta BEGIN # ts'" by blast
  then have i: "items ts' = Some (is, False)" using g by (auto simp: grouped_def)
  note h = laid_Cons [OF l [unfolded ts]]
  from r h pattern_fixed [OF s i f h(3), of 0] show ?thesis
    by (auto simp: re_matchp_def matchpattern_def split: if_splits)
next
  case False
  then have i: "items ts = Some (is, False)" using g by (auto simp: grouped_def split: list.splits if_splits)
  have first: "\<exists>p. rd8 (re_compiled st) 0 = Some p \<and> re_type p \<noteq> BEGIN"
    using grouped_first [OF g l] False by blast
  have a: "matchpattern base st (s @ [0]) 0 t 0
      = Some (accepts (is, False) (drop t s), if accepts (is, False) (drop t s) then int (length is) else 0)" if "t \<le> length s" for t
    using pattern_fixed [OF s i f l that] by (simp add: matchpattern_def)
  have "search_loop (matchpattern base st (s @ [0]) 0) (s @ [0]) 0 0 = Some (r, len)"
    using r first by (auto simp: re_matchp_def split: if_splits)
  from search_fixed [OF s a _ _ this] accepts_fixed_end [OF f] show ?thesis by simp
qed

section \<open>Classes by their members\<close>

text \<open>A class as it is written: characters, ranges, escaped characters.\<close>

datatype class_elem = Single u8 | Range u8 u8 | Esc u8

primrec written :: "class_elem \<Rightarrow> bytes" where
  "written (Single x) = [x]"
| "written (Range lo hi) = [lo, c_minus, hi]"
| "written (Esc x) = [c_bslash, x]"

primrec elem_ok :: "class_elem \<Rightarrow> bool" where
  "elem_ok (Single x) = (x \<notin> {0, c_minus, c_bslash, c_close})"
| "elem_ok (Range lo hi) = (lo \<notin> {0, c_minus, c_bslash, c_close} \<and> hi \<notin> {0, c_minus, c_bslash, c_close} \<and> sint lo \<le> sint hi)"
| "elem_ok (Esc x) = (x \<notin> {0, c_minus})"

primrec member :: "u8 \<Rightarrow> class_elem \<Rightarrow> bool" where
  "member c (Single x) = (c = x)"
| "member c (Range lo hi) = (sint lo \<le> sint c \<and> sint c \<le> sint hi)"
| "member c (Esc x) = metachar c x"

lemma written_head: "elem_ok e \<Longrightarrow> \<exists>x r. written e = x # r \<and> x \<noteq> c_minus"
  by (cases e) auto

lemma no_range: "list_all elem_ok es \<Longrightarrow> range_at c x (concat (map written es)) = False"
  by (cases es) (auto simp: range_at_def dest!: written_head split: list.splits)

lemma class_hits_written:
  "list_all elem_ok es \<Longrightarrow> c \<noteq> c_minus \<Longrightarrow> class_hits c prev (concat (map written es)) = list_ex (member c) es"
proof (induction es arbitrary: prev)
  case (Cons e es)
  note r = no_range [of es c]
  show ?case
  proof (cases e)
    case (Single x)
    with Cons r show ?thesis by auto
  next
    case (Range lo hi)
    with Cons r show ?thesis by (auto simp: range_at_def [of c lo] range_at_def [of c c_minus] split: list.splits)
  next
    case (Esc x)
    with Cons.prems(1) have "range_at c c_bslash (x # concat (map written es)) = False"
      by (auto simp: range_at_def split: list.splits)
    with Esc Cons show ?thesis by simp
  qed
qed simp

lemma body_ok_append: "body_ok xs \<Longrightarrow> body_ok ys \<Longrightarrow> body_ok (xs @ ys)"
  by (induction xs rule: body_ok.induct) (auto split: list.splits if_splits)

lemma body_ok_written: "list_all elem_ok es \<Longrightarrow> body_ok (concat (map written es))"
proof (induction es)
  case (Cons e es)
  then have "body_ok (written e)" by (cases e) auto
  with Cons show ?case by (simp add: body_ok_append)
qed simp

section \<open>Properties\<close>

text \<open>
  C32. Matching, from the two strings to the index returned. Whatever was compiled before, a pattern that
  is well formed (each class closed, something after each backslash, quantifiers and anchors where they
  have a meaning), of at most 29 symbols, whose classes take at most 39 bytes, is compiled and matched
  without an access outside the strings and the arrays; \<open>re_match\<close> returns the first position of the text
  at which a word of the pattern starts, and -1 if there is none or the word is the empty one at the end.
\<close>

theorem re_match_finds:
  assumes "store_ok st" "0 \<notin> set ps" "0 \<notin> set s"
    and "tokens ps = Some ts" "grouped ts = Some (anchored, p)" "length ts \<le> 29" "total_cost ts \<le> 39"
  shows "\<exists>st' len. re_match base st (ps @ [0]) (s @ [0]) = Some (st', found_at anchored p s, len) \<and> store_ok st'"
proof -
  obtain st' where st': "re_compile st (ps @ [0]) = Some (True, st')" "store_ok st'" "laid st' 0 ts"
    using re_compile_run [OF assms(1,2,4,6,7)] by blast
  with re_matchp_found [OF assms(3,5) st'(3), of base] show ?thesis by (auto simp: re_match_def)
qed

lemma store_ok_static: "store_ok static_store"
  by (simp add: store_ok_def static_store_def)

text \<open>The pattern \<open>a+b$\<close> in the text \<open>aacaab\<close>.\<close>

theorem re_match_finds_witness:
  "\<exists>st' len. re_match 0 static_store ([97, 43, 98, 36] @ [0]) ([97, 97, 99, 97, 97, 98] @ [0])
     = Some (st', found_at False ([(Lit 97, Many1), (Lit 98, Once)], True) [97, 97, 99, 97, 97, 98], len) \<and> store_ok st'"
proof (rule re_match_finds [OF store_ok_static])
  show "tokens [97, 43, 98, 36] = Some [Lit 97, Meta PLUS, Lit 98, Meta END]" by code_simp
  show "grouped [Lit 97, Meta PLUS, Lit 98, Meta END] = Some (False, [(Lit 97, Many1), (Lit 98, Once)], True)" by code_simp
qed (simp_all add: cost_def)

text \<open>
  The length of a match. For a well-formed pattern without quantifiers and without the anchor \<open>$\<close>,
  \<open>*matchlength\<close> is the number of its symbols after a match, and 0 after a failure.
\<close>

theorem re_match_length:
  assumes "store_ok st" "0 \<notin> set ps" "0 \<notin> set s"
    and "tokens ps = Some ts" "grouped ts = Some (anchored, is, False)" "fixed is" "length ts \<le> 29" "total_cost ts \<le> 39"
  shows "\<exists>st' r. re_match base st (ps @ [0]) (s @ [0]) = Some (st', r, if r = -1 then 0 else int (length is))"
proof -
  obtain st' where st': "re_compile st (ps @ [0]) = Some (True, st')" "laid st' 0 ts"
    using re_compile_run [OF assms(1,2,4,7,8)] by blast
  moreover obtain r len where r: "re_matchp base st' True (s @ [0]) = Some (r, len)"
    using re_matchp_found [OF assms(3,5) st'(2), of base] by blast
  moreover note re_matchp_fixed [OF assms(3,5) st'(2) assms(6) r]
  ultimately show ?thesis by (auto simp: re_match_def)
qed

theorem re_match_length_witness:
  "\<exists>st' r. re_match 0 static_store ([92, 100, 46] @ [0]) ([97, 49, 98] @ [0])
     = Some (st', r, if r = -1 then 0 else int (length [(Meta DIGIT, Once), (Meta DOT, Once)]))"
proof (rule re_match_length [OF store_ok_static])
  show "tokens [92, 100, 46] = Some [Meta DIGIT, Meta DOT]" by code_simp
  show "grouped [Meta DIGIT, Meta DOT] = Some (False, [(Meta DIGIT, Once), (Meta DOT, Once)], False)" by code_simp
qed (simp_all add: cost_def)

text \<open>
  The members of a class. A class written with single characters, ranges and escaped characters,
  wherever it lies in the buffer, matches a character other than the hyphen exactly if one of
  its elements does.
\<close>

theorem matchcharclass_members:
  assumes "list_all elem_ok es" "c \<noteq> 0" "c \<noteq> c_minus"
  shows "matchcharclass c (xs @ 0 # concat (map written es) @ 0 # ys) (Suc (length xs)) = Some (list_ex (member c) es)"
  using matchcharclass_list [OF body_ok_written [OF assms(1)] assms(2) refl] class_hits_written [OF assms(1,3)] by simp

theorem matchcharclass_members_witness:
  "matchcharclass 56 ([1, 2] @ 0 # concat (map written [Range 97 122, Single 95, Esc 100]) @ 0 # [7]) (Suc (length [1, 2 :: u8]))
     = Some (list_ex (member 56) [Range 97 122, Single 95, Esc 100])"
  by (rule matchcharclass_members) simp_all

text \<open>
  What the matcher gets wrong, on concrete inputs. The unclosed class \<open>[a\<close> and the class \<open>[\\<close> make
  \<open>re_compile\<close> read beyond the end of the pattern. After \<open>a$\<close> is found at the end of \<open>aba\<close>, the length
  is 2: the failed attempt at the first position left its count. The hyphen is not found by \<open>[a-z-]\<close>. A
  byte above 127 is not found by itself. A pattern of one backslash, after a class that was too long,
  makes the matcher follow a pointer that was never stored.
\<close>

theorem re_match_defects:
  "re_compile static_store [91, 97, 0] = None \<and> re_compile static_store [91, 92, 0] = None
   \<and> map_option snd (re_match base static_store [97, 36, 0] [97, 98, 97, 0]) = Some (2, 2)
   \<and> map_option snd (re_match base static_store [91, 97, 45, 122, 45, 93, 0] [45, 0]) = Some (-1, 0)
   \<and> map_option snd (re_match base static_store [200, 0] [200, 0]) = Some (-1, 0)
   \<and> (case re_compile static_store (91 # replicate 40 97 @ [93, 0]) of
        Some (found, st) \<Rightarrow> \<not> found \<and> re_match base st [92, 0] [97, 0] = None
      | None \<Rightarrow> False)"
  by code_simp

end
