(* ===== verification/DList.thy ===== *)
theory DList
  imports Prelude
begin

text \<open>
  The intrusive doubly linked list of \<open>fun_timer/timer_list.h\<close>; \<open>fun_list/list.h\<close> and
  \<open>fun_event/ubox/list.h\<close> hold the same text. A node is known by its address, 0 is \<open>NULL\<close>; the nodes that
  exist are the domain of a map, and following a pointer to anything else is \<^term>\<open>None\<close>. Assignments
  through pointers are made one after the other, in the order of the code, so that aliasing of their
  targets has the effect it has in C.

  \<open>dlist n head xs\<close> says that \<open>head\<close> is the head of a circular list through the nodes \<open>xs\<close>. Each operation
  is shown to be the one on \<open>xs\<close> that its name says.
\<close>

section \<open>Operations\<close>

record list_head =
  nxt :: nat
  prv :: nat

type_synonym nodes = "nat \<Rightarrow> list_head option"

definition set_next :: "nodes \<Rightarrow> nat \<Rightarrow> nat \<Rightarrow> nodes option" where
  "set_next n a v = map_option (\<lambda>h. n(a \<mapsto> h\<lparr>nxt := v\<rparr>)) (n a)"

definition set_prev :: "nodes \<Rightarrow> nat \<Rightarrow> nat \<Rightarrow> nodes option" where
  "set_prev n a v = map_option (\<lambda>h. n(a \<mapsto> h\<lparr>prv := v\<rparr>)) (n a)"

definition INIT_LIST_HEAD :: "nodes \<Rightarrow> nat \<Rightarrow> nodes option" where
  "INIT_LIST_HEAD n lst = do {
     n \<leftarrow> set_prev n lst lst;
     set_next n lst lst }"

definition list_empty :: "nodes \<Rightarrow> nat \<Rightarrow> bool option" where
  "list_empty n head = do { h \<leftarrow> n head; Some (nxt h = head) }"

definition list_is_first :: "nodes \<Rightarrow> nat \<Rightarrow> nat \<Rightarrow> bool option" where
  "list_is_first n lst head = do { h \<leftarrow> n lst; Some (prv h = head) }"

definition list_is_last :: "nodes \<Rightarrow> nat \<Rightarrow> nat \<Rightarrow> bool option" where
  "list_is_last n lst head = do { h \<leftarrow> n lst; Some (nxt h = head) }"

text \<open>\<open>_list_del\<close>, \<open>_list_add\<close> and \<open>_list_splice\<close> end in 0 here.\<close>

definition list_del0 :: "nodes \<Rightarrow> nat \<Rightarrow> nodes option" where
  "list_del0 n entry = do {
     e \<leftarrow> n entry;
     n \<leftarrow> set_prev n (nxt e) (prv e);
     e \<leftarrow> n entry;
     set_next n (prv e) (nxt e) }"

definition list_del :: "nodes \<Rightarrow> nat \<Rightarrow> nodes option" where
  "list_del n entry = do {
     n \<leftarrow> list_del0 n entry;
     n \<leftarrow> set_prev n entry 0;
     set_next n entry 0 }"

definition list_add0 :: "nodes \<Rightarrow> nat \<Rightarrow> nat \<Rightarrow> nat \<Rightarrow> nodes option" where
  "list_add0 n new prev next = do {
     n \<leftarrow> set_prev n next new;
     n \<leftarrow> set_next n new next;
     n \<leftarrow> set_prev n new prev;
     set_next n prev new }"

definition list_del_init :: "nodes \<Rightarrow> nat \<Rightarrow> nodes option" where
  "list_del_init n entry = do {
     n \<leftarrow> list_del0 n entry;
     INIT_LIST_HEAD n entry }"

definition list_add :: "nodes \<Rightarrow> nat \<Rightarrow> nat \<Rightarrow> nodes option" where
  "list_add n new head = do { h \<leftarrow> n head; list_add0 n new head (nxt h) }"

definition list_add_tail :: "nodes \<Rightarrow> nat \<Rightarrow> nat \<Rightarrow> nodes option" where
  "list_add_tail n new head = do { h \<leftarrow> n head; list_add0 n new (prv h) head }"

definition list_move :: "nodes \<Rightarrow> nat \<Rightarrow> nat \<Rightarrow> nodes option" where
  "list_move n lst head = do { n \<leftarrow> list_del0 n lst; list_add n lst head }"

definition list_move_tail :: "nodes \<Rightarrow> nat \<Rightarrow> nat \<Rightarrow> nodes option" where
  "list_move_tail n entry head = do { n \<leftarrow> list_del0 n entry; list_add_tail n entry head }"

definition list_splice0 :: "nodes \<Rightarrow> nat \<Rightarrow> nat \<Rightarrow> nat \<Rightarrow> nodes option" where
  "list_splice0 n lst prev next = do {
     empty \<leftarrow> list_empty n lst;
     if empty then Some n
     else do {
       l \<leftarrow> n lst;
       let first = nxt l;
       let final = prv l;
       n \<leftarrow> set_prev n first prev;
       n \<leftarrow> set_next n prev first;
       n \<leftarrow> set_next n final next;
       set_prev n next final } }"

definition list_splice :: "nodes \<Rightarrow> nat \<Rightarrow> nat \<Rightarrow> nodes option" where
  "list_splice n lst head = do { h \<leftarrow> n head; list_splice0 n lst head (nxt h) }"

definition list_splice_tail :: "nodes \<Rightarrow> nat \<Rightarrow> nat \<Rightarrow> nodes option" where
  "list_splice_tail n lst head = do { h \<leftarrow> n head; list_splice0 n lst (prv h) head }"

definition list_splice_init :: "nodes \<Rightarrow> nat \<Rightarrow> nat \<Rightarrow> nodes option" where
  "list_splice_init n lst head = do { n \<leftarrow> list_splice n lst head; INIT_LIST_HEAD n lst }"

definition list_splice_tail_init :: "nodes \<Rightarrow> nat \<Rightarrow> nat \<Rightarrow> nodes option" where
  "list_splice_tail_init n lst head = do { n \<leftarrow> list_splice_tail n lst head; INIT_LIST_HEAD n lst }"

section \<open>Two fields of a node\<close>

definition N :: "nodes \<Rightarrow> nat \<Rightarrow> nat option" where
  "N n a = map_option nxt (n a)"

definition P :: "nodes \<Rightarrow> nat \<Rightarrow> nat option" where
  "P n a = map_option prv (n a)"

lemma nodes_eqI: "(\<And>a. N n a = N m a \<and> P n a = P m a) \<Longrightarrow> n = m"
proof
  fix a
  assume "\<And>a. N n a = N m a \<and> P n a = P m a"
  from this [of a] show "n a = m a"
    by (cases "n a"; cases "m a") (auto simp: N_def P_def)
qed

lemma NP_dom: "N n a \<noteq> None \<longleftrightarrow> a \<in> dom n" "P n a \<noteq> None \<longleftrightarrow> a \<in> dom n"
  by (auto simp: N_def P_def)

lemma set_next_NP:
  assumes "a \<in> dom n"
  shows "\<exists>m. set_next n a v = Some m \<and> N m = (N n)(a \<mapsto> v) \<and> P m = P n \<and> dom m = dom n"
proof -
  obtain h where "n a = Some h" using assms by blast
  then show ?thesis
    by (intro exI [of _ "n(a \<mapsto> h\<lparr>nxt := v\<rparr>)"]) (auto simp: set_next_def N_def P_def fun_eq_iff split: if_splits)
qed

lemma set_prev_NP:
  assumes "a \<in> dom n"
  shows "\<exists>m. set_prev n a v = Some m \<and> P m = (P n)(a \<mapsto> v) \<and> N m = N n \<and> dom m = dom n"
proof -
  obtain h where "n a = Some h" using assms by blast
  then show ?thesis
    by (intro exI [of _ "n(a \<mapsto> h\<lparr>prv := v\<rparr>)"]) (auto simp: set_prev_def N_def P_def fun_eq_iff split: if_splits)
qed

lemma node_NP: "N n a = Some x \<Longrightarrow> P n a = Some y \<Longrightarrow> n a = Some \<lparr>nxt = x, prv = y\<rparr>"
  by (auto simp: N_def P_def)

section \<open>Circular lists\<close>

definition links :: "nodes \<Rightarrow> nat \<Rightarrow> nat \<Rightarrow> bool" where
  "links n a b \<longleftrightarrow> N n a = Some b \<and> P n b = Some a"

definition dlist :: "nodes \<Rightarrow> nat \<Rightarrow> nat list \<Rightarrow> bool" where
  "dlist n head xs \<longleftrightarrow> distinct (head # xs) \<and> 0 \<notin> set (head # xs) \<and> successively (links n) (head # xs @ [head])"

lemma successively_cong_NP:
  assumes "\<And>x. x \<in> set (butlast L) \<Longrightarrow> N m x = N n x" "\<And>x. x \<in> set (tl L) \<Longrightarrow> P m x = P n x"
  shows "successively (links n) L \<Longrightarrow> successively (links m) L"
  using assms by (induction L rule: induct_list012) (auto simp: links_def)

text \<open>The list cut in front of \<open>zs\<close>.\<close>

lemma dlist_cut:
  "dlist n head (ys @ zs) \<longleftrightarrow> distinct (head # ys @ zs) \<and> 0 \<notin> set (head # ys @ zs)
     \<and> successively (links n) (head # ys) \<and> successively (links n) (zs @ [head]) \<and> links n (last (head # ys)) (hd (zs @ [head]))"
proof -
  have "head # (ys @ zs) @ [head] = (head # ys) @ (zs @ [head])" by simp
  then show ?thesis unfolding dlist_def by (simp only: successively_append_iff) auto
qed

lemma dlist_dom:
  assumes "dlist n head xs" "a \<in> set (head # xs)"
  shows "a \<in> dom n"
proof -
  obtain us vs where "head # xs = us @ a # vs" using assms(2) by (meson split_list)
  then have "head # xs @ [head] = us @ a # vs @ [head]" by (metis append_Cons append_assoc)
  moreover have "successively (links n) (head # xs @ [head])" using assms(1) unfolding dlist_def by blast
  ultimately have "successively (links n) (us @ a # vs @ [head])" by (simp only:)
  then have "successively (links n) (a # vs @ [head])" by (simp add: successively_append_iff)
  then have "links n a (hd (vs @ [head]))" by (cases vs) auto
  then show ?thesis by (auto simp: links_def N_def)
qed

text \<open>The nodes outside \<open>A\<close> are left as they were.\<close>

definition frame :: "nat set \<Rightarrow> nodes \<Rightarrow> nodes \<Rightarrow> bool" where
  "frame A n m \<longleftrightarrow> (\<forall>x. x \<notin> A \<longrightarrow> m x = n x)"

lemma frame_NP: "frame A n m \<longleftrightarrow> (\<forall>x. x \<notin> A \<longrightarrow> N m x = N n x \<and> P m x = P n x)"
proof -
  have "m x = n x \<longleftrightarrow> N m x = N n x \<and> P m x = P n x" for x
    by (cases "n x"; cases "m x") (auto simp: N_def P_def)
  then show ?thesis by (simp add: frame_def)
qed

lemma frame_trans: "frame A n n1 \<Longrightarrow> frame B n1 m \<Longrightarrow> A \<subseteq> C \<Longrightarrow> B \<subseteq> C \<Longrightarrow> frame C n m"
  unfolding frame_def by (metis subsetD)

text \<open>A list looks the same in a memory that agrees with it on its nodes.\<close>

lemma dlist_frame:
  assumes "dlist n head xs" "\<And>x. x \<in> set (head # xs) \<Longrightarrow> N m x = N n x \<and> P m x = P n x"
  shows "dlist m head xs"
  using assms successively_cong_NP [of "head # xs @ [head]" m n] by (auto simp: dlist_def butlast_append)

section \<open>The operations on lists\<close>

lemma init_dlist:
  assumes "head \<in> dom n" "head \<noteq> 0"
  shows "\<exists>m. INIT_LIST_HEAD n head = Some m \<and> dlist m head [] \<and> dom m = dom n \<and> frame {head} n m"
proof -
  obtain n1 where n1: "set_prev n head head = Some n1" "P n1 = (P n)(head \<mapsto> head)" "N n1 = N n" "dom n1 = dom n"
    using set_prev_NP [OF assms(1)] by blast
  obtain m where m: "set_next n1 head head = Some m" "N m = (N n1)(head \<mapsto> head)" "P m = P n1" "dom m = dom n1"
    using set_next_NP [of head n1] assms(1) n1(4) by blast
  show ?thesis using n1 m assms(2) by (auto simp: INIT_LIST_HEAD_def dlist_def links_def frame_NP)
qed

lemma first_node:
  assumes "dlist n head xs"
  shows "\<exists>h. n head = Some h \<and> nxt h = hd (xs @ [head]) \<and> prv h = last (head # xs)"
proof -
  from assms [unfolded dlist_def] have s: "successively (links n) (head # xs @ [head])" by blast
  have "links n head (hd (xs @ [head]))" using s by (cases xs) auto
  moreover have "links n (last (head # xs)) head"
    using s successively_append_iff [of "links n" "head # xs" "[head]"] by simp
  ultimately show ?thesis by (auto simp: links_def N_def P_def)
qed

lemma empty_dlist: "dlist n head xs \<Longrightarrow> list_empty n head = Some (xs = [])"
  using first_node [of n head xs] by (cases xs) (auto simp: list_empty_def dlist_def)

text \<open>The node after and the node before a node of the list.\<close>

lemma inner_node:
  assumes "dlist n head (ys @ e # zs)"
  shows "\<exists>h. n e = Some h \<and> nxt h = hd (zs @ [head]) \<and> prv h = last (head # ys)"
proof -
  have "successively (links n) ((e # zs) @ [head])" "links n (last (head # ys)) (hd ((e # zs) @ [head]))"
    using assms unfolding dlist_cut by blast+
  then have "links n e (hd (zs @ [head]))" "links n (last (head # ys)) e" by (cases zs; simp)+
  then show ?thesis by (auto simp: links_def N_def P_def)
qed

lemma inner_dlist:
  assumes "dlist n head (ys @ e # zs)"
  shows "list_is_first n e head = Some (ys = [])" "list_is_last n e head = Some (zs = [])"
proof -
  obtain h where h: "n e = Some h" "nxt h = hd (zs @ [head])" "prv h = last (head # ys)"
    using inner_node [OF assms] by blast
  have "head \<notin> set ys" "head \<notin> set zs" using assms by (auto simp: dlist_def)
  then have "last (head # ys) = head \<longleftrightarrow> ys = []" "hd (zs @ [head]) = head \<longleftrightarrow> zs = []"
    using last_in_set [of ys] by (auto, cases zs, auto)
  with h show "list_is_first n e head = Some (ys = [])" "list_is_last n e head = Some (zs = [])"
    by (simp_all add: list_is_first_def list_is_last_def)
qed

lemma last_not_butlast: "distinct xs \<Longrightarrow> xs \<noteq> [] \<Longrightarrow> last xs \<notin> set (butlast xs)"
  by (metis append_butlast_last_id distinct_append disjoint_iff list.set_intros(1))

lemma hd_not_tl: "distinct xs \<Longrightarrow> xs \<noteq> [] \<Longrightarrow> hd xs \<notin> set (tl xs)"
  by (cases xs) auto

text \<open>A new node between two neighbours.\<close>

lemma add0_dlist:
  assumes l: "dlist n head (ys @ zs)" and new: "new \<in> dom n" "new \<noteq> 0" "new \<notin> set (head # ys @ zs)"
  shows "\<exists>m. list_add0 n new (last (head # ys)) (hd (zs @ [head])) = Some m \<and> dlist m head (ys @ new # zs) \<and> dom m = dom n
    \<and> frame (set (head # new # ys @ zs)) n m"
proof -
  let ?a = "last (head # ys)" and ?b = "hd (zs @ [head])"
  have ab: "?a \<in> set (head # ys)" "?b \<in> set (zs @ [head])" by (rule last_in_set, simp, rule hd_in_set, simp)
  then have dom: "?a \<in> dom n" "?b \<in> dom n" using dlist_dom [OF l] by auto
  obtain n1 where n1: "set_prev n ?b new = Some n1" "P n1 = (P n)(?b \<mapsto> new)" "N n1 = N n" "dom n1 = dom n"
    using set_prev_NP [OF dom(2)] by blast
  obtain n2 where n2: "set_next n1 new ?b = Some n2" "N n2 = (N n1)(new \<mapsto> ?b)" "P n2 = P n1" "dom n2 = dom n1"
    using set_next_NP [of new n1] new(1) n1(4) by blast
  obtain n3 where n3: "set_prev n2 new ?a = Some n3" "P n3 = (P n2)(new \<mapsto> ?a)" "N n3 = N n2" "dom n3 = dom n2"
    using set_prev_NP [of new n2] new(1) n1(4) n2(4) by blast
  obtain m where m: "set_next n3 ?a new = Some m" "N m = (N n3)(?a \<mapsto> new)" "P m = P n3" "dom m = dom n3"
    using set_next_NP [of ?a n3] dom(1) n1(4) n2(4) n3(4) by blast
  have N: "N m = (N n)(new \<mapsto> ?b, ?a \<mapsto> new)" and P: "P m = (P n)(?b \<mapsto> new, new \<mapsto> ?a)"
    using n1 n2 n3 m by simp_all
  from l [unfolded dlist_cut] have d: "distinct (head # ys @ zs)" "0 \<notin> set (head # ys @ zs)"
    and front: "successively (links n) (head # ys)" and rear: "successively (links n) (zs @ [head])" by blast+
  have a: "?a \<notin> set (butlast (head # ys))" and b: "?b \<notin> set (tl (zs @ [head]))"
    using d(1) by (intro last_not_butlast hd_not_tl; simp)+
  have "successively (links m) (head # ys)"
  proof (rule successively_cong_NP [OF _ _ front])
    show "N m x = N n x" if "x \<in> set (butlast (head # ys))" for x
      using that in_set_butlastD [OF that] a new(3) unfolding N by (auto simp del: butlast.simps last.simps)
    show "P m x = P n x" if "x \<in> set (tl (head # ys))" for x
      using that ab(2) new(3) d(1) unfolding P by auto
  qed
  moreover have "successively (links m) (zs @ [head])"
  proof (rule successively_cong_NP [OF _ _ rear])
    show "N m x = N n x" if "x \<in> set (butlast (zs @ [head]))" for x
      using that ab(1) new(3) d(1) unfolding N by (auto simp del: last.simps)
    show "P m x = P n x" if "x \<in> set (tl (zs @ [head]))" for x
    proof -
      have "x \<in> set (zs @ [head])" using that by (cases zs) auto
      then show ?thesis using that b new(3) unfolding P by auto
    qed
  qed
  moreover have "links m ?a new" "links m new ?b"
    using ab new(3) unfolding links_def N P by (auto simp del: last.simps)
  ultimately have "dlist m head (ys @ new # zs)"
    using d new(2,3) unfolding dlist_cut [of m head ys "new # zs"] by (cases zs) (auto simp del: last.simps)
  moreover have "list_add0 n new ?a ?b = Some m" using n1(1) n2(1) n3(1) m(1) by (simp add: list_add0_def)
  moreover have "frame (set (head # new # ys @ zs)) n m"
    using ab unfolding frame_NP N P by (auto simp del: last.simps)
  moreover have "dom m = dom n" using n1(4) n2(4) n3(4) m(4) by simp
  ultimately show ?thesis by blast
qed

lemma add_dlist:
  assumes "dlist n head xs" "new \<in> dom n" "new \<noteq> 0" "new \<notin> set (head # xs)"
  shows "\<exists>m. list_add n new head = Some m \<and> dlist m head (new # xs) \<and> dom m = dom n
    \<and> frame (set (head # new # xs)) n m"
  using add0_dlist [of n head "[]" xs new] first_node [OF assms(1)] assms by (auto simp: list_add_def)

text \<open>\<open>list_add_tail\<close> puts the node before the one it is given, which need not be the head.\<close>

lemma add_before_dlist:
  assumes "dlist n head (ys @ zs)" "new \<in> dom n" "new \<noteq> 0" "new \<notin> set (head # ys @ zs)"
  shows "\<exists>m. list_add_tail n new (hd (zs @ [head])) = Some m \<and> dlist m head (ys @ new # zs) \<and> dom m = dom n
    \<and> frame (set (head # new # ys @ zs)) n m"
proof -
  have "\<exists>h. n (hd (zs @ [head])) = Some h \<and> prv h = last (head # ys)"
    using first_node [of n head ys] inner_node [of n head ys "hd zs" "tl zs"] assms(1) by (cases zs) auto
  then show ?thesis using add0_dlist [OF assms] by (auto simp: list_add_tail_def)
qed

lemma del0_dlist:
  assumes l: "dlist n head (ys @ e # zs)"
  shows "\<exists>m. list_del0 n e = Some m \<and> dlist m head (ys @ zs) \<and> dom m = dom n
    \<and> frame (set (head # ys @ zs)) n m"
proof -
  let ?a = "last (head # ys)" and ?b = "hd (zs @ [head])"
  have ab: "?a \<in> set (head # ys)" "?b \<in> set (zs @ [head])" by (rule last_in_set, simp, rule hd_in_set, simp)
  then have dom: "?a \<in> dom n" "?b \<in> dom n" using dlist_dom [OF l] by auto
  obtain h where h: "n e = Some h" "nxt h = ?b" "prv h = ?a" using inner_node [OF l] by blast
  from l [unfolded dlist_cut] have d: "distinct (head # ys @ e # zs)" "0 \<notin> set (head # ys @ e # zs)"
    and front: "successively (links n) (head # ys)" and rear: "successively (links n) ((e # zs) @ [head])" by blast+
  obtain n1 where n1: "set_prev n ?b ?a = Some n1" "P n1 = (P n)(?b \<mapsto> ?a)" "N n1 = N n" "dom n1 = dom n"
    using set_prev_NP [OF dom(2)] by blast
  have ne: "e \<noteq> ?a" "e \<noteq> ?b" using ab d(1) by (auto simp del: last.simps)
  have e: "n1 e = Some \<lparr>nxt = ?b, prv = ?a\<rparr>"
    by (rule node_NP) (use n1(2,3) ne(2) h in \<open>simp_all add: N_def P_def\<close>)
  obtain m where m: "set_next n1 ?a ?b = Some m" "N m = (N n1)(?a \<mapsto> ?b)" "P m = P n1" "dom m = dom n1"
    using set_next_NP [of ?a n1] dom(1) n1(4) by blast
  have N: "N m = (N n)(?a \<mapsto> ?b)" and P: "P m = (P n)(?b \<mapsto> ?a)" using n1 m by simp_all
  have a: "?a \<notin> set (butlast (head # ys))" and b: "?b \<notin> set (tl (zs @ [head]))"
    using d(1) by (intro last_not_butlast hd_not_tl; simp)+
  have "successively (links m) (head # ys)"
  proof (rule successively_cong_NP [OF _ _ front])
    show "N m x = N n x" if "x \<in> set (butlast (head # ys))" for x
      using that a unfolding N by (auto simp del: butlast.simps last.simps)
    show "P m x = P n x" if "x \<in> set (tl (head # ys))" for x
      using that ab(2) d(1) unfolding P by auto
  qed
  moreover have "successively (links m) (zs @ [head])"
  proof (rule successively_cong_NP)
    show "successively (links n) (zs @ [head])" using rear by (cases zs) auto
    show "N m x = N n x" if "x \<in> set (butlast (zs @ [head]))" for x
      using that ab(1) d(1) unfolding N by (auto simp del: last.simps)
    show "P m x = P n x" if "x \<in> set (tl (zs @ [head]))" for x
      using that b unfolding P by auto
  qed
  moreover have "links m ?a ?b" unfolding links_def N P by simp
  ultimately have "dlist m head (ys @ zs)" using d unfolding dlist_cut by auto
  moreover have "list_del0 n e = Some m" using h n1(1) e m(1) by (simp add: list_del0_def)
  moreover have "frame (set (head # ys @ zs)) n m"
    using ab unfolding frame_NP N P by (auto simp del: last.simps)
  moreover have "dom m = dom n" using n1(4) m(4) by simp
  ultimately show ?thesis by blast
qed

lemma del_dlist:
  assumes l: "dlist n head (ys @ e # zs)"
  shows "\<exists>m. list_del n e = Some m \<and> dlist m head (ys @ zs) \<and> dom m = dom n \<and> m e = Some \<lparr>nxt = 0, prv = 0\<rparr>
    \<and> frame (set (head # ys @ e # zs)) n m"
proof -
  obtain n0 where n0: "list_del0 n e = Some n0" "dlist n0 head (ys @ zs)" "dom n0 = dom n"
    "frame (set (head # ys @ zs)) n n0" using del0_dlist [OF l] by blast
  have e: "e \<in> dom n0" "e \<notin> set (head # ys @ zs)" using n0(3) dlist_dom [OF l, of e] l by (auto simp: dlist_def)
  obtain n1 where n1: "set_prev n0 e 0 = Some n1" "P n1 = (P n0)(e \<mapsto> 0)" "N n1 = N n0" "dom n1 = dom n0"
    using set_prev_NP [OF e(1)] by blast
  obtain m where m: "set_next n1 e 0 = Some m" "N m = (N n1)(e \<mapsto> 0)" "P m = P n1" "dom m = dom n1"
    using set_next_NP [of e n1] e(1) n1(4) by blast
  have "dlist m head (ys @ zs)" by (rule dlist_frame [OF n0(2)]) (use e(2) n1 m in auto)
  moreover have "m e = Some \<lparr>nxt = 0, prv = 0\<rparr>" by (rule node_NP) (use n1 m in simp_all)
  ultimately show ?thesis using n0 n1 m by (auto simp: list_del_def frame_NP)
qed

lemma del_init_dlist:
  assumes l: "dlist n head (ys @ e # zs)"
  shows "\<exists>m. list_del_init n e = Some m \<and> dlist m head (ys @ zs) \<and> dlist m e []
    \<and> frame (set (head # ys @ e # zs)) n m"
proof -
  obtain n0 where n0: "list_del0 n e = Some n0" "dlist n0 head (ys @ zs)" "dom n0 = dom n"
    "frame (set (head # ys @ zs)) n n0" using del0_dlist [OF l] by blast
  have e: "e \<in> dom n0" "e \<noteq> 0" "e \<notin> set (head # ys @ zs)" using n0(3) dlist_dom [OF l, of e] l by (auto simp: dlist_def)
  obtain m where m: "INIT_LIST_HEAD n0 e = Some m" "dlist m e []" "frame {e} n0 m"
    using init_dlist [OF e(1,2)] by blast
  have "dlist m head (ys @ zs)" by (rule dlist_frame [OF n0(2)]) (use e(3) m(3) in \<open>auto simp: frame_NP\<close>)
  moreover have "frame (set (head # ys @ e # zs)) n m" by (rule frame_trans [OF n0(4) m(3)]) auto
  ultimately show ?thesis using n0(1) m by (auto simp: list_del_init_def)
qed

lemma move_dlist:
  assumes l: "dlist n head (ys @ e # zs)"
  shows "\<exists>m. list_move n e head = Some m \<and> dlist m head (e # ys @ zs) \<and> frame (set (head # ys @ e # zs)) n m"
    "\<exists>m. list_move_tail n e head = Some m \<and> dlist m head (ys @ zs @ [e]) \<and> frame (set (head # ys @ e # zs)) n m"
proof -
  obtain n0 where n0: "list_del0 n e = Some n0" "dlist n0 head (ys @ zs)" "dom n0 = dom n"
    "frame (set (head # ys @ zs)) n n0" using del0_dlist [OF l] by blast
  have e: "e \<in> dom n0" "e \<noteq> 0" "e \<notin> set (head # ys @ zs)" using n0(3) dlist_dom [OF l, of e] l by (auto simp: dlist_def)
  have fr: "frame (set (head # ys @ e # zs)) n m" if "frame (set (head # e # ys @ zs)) n0 m" for m
    by (rule frame_trans [OF n0(4) that]) auto
  show "\<exists>m. list_move n e head = Some m \<and> dlist m head (e # ys @ zs) \<and> frame (set (head # ys @ e # zs)) n m"
    using add_dlist [OF n0(2) e] n0(1) fr by (auto simp: list_move_def simp del: set_simps)
  show "\<exists>m. list_move_tail n e head = Some m \<and> dlist m head (ys @ zs @ [e]) \<and> frame (set (head # ys @ e # zs)) n m"
    using add_before_dlist [of n0 head "ys @ zs" "[]" e] n0(1,2) e fr by (auto simp: list_move_tail_def)
qed

text \<open>A whole list \<open>us\<close>, without its head, between two neighbours.\<close>

lemma splice0_dlist:
  assumes l: "dlist n head (ys @ zs)" and u: "dlist n lst us" and dis: "set (head # ys @ zs) \<inter> set (lst # us) = {}"
  shows "\<exists>m. list_splice0 n lst (last (head # ys)) (hd (zs @ [head])) = Some m \<and> dlist m head (ys @ us @ zs) \<and> dom m = dom n
    \<and> frame (set (head # ys @ us @ zs)) n m"
proof (cases "us = []")
  case True
  then show ?thesis using l empty_dlist [OF u] by (simp add: list_splice0_def frame_def)
next
  case ne: False
  let ?a = "last (head # ys)" and ?b = "hd (zs @ [head])" and ?f = "hd us" and ?g = "last us"
  have ab: "?a \<in> set (head # ys)" "?b \<in> set (zs @ [head])" by (rule last_in_set, simp, rule hd_in_set, simp)
  have fg: "?f \<in> set us" "?g \<in> set us" using ne by simp_all
  from l [unfolded dlist_cut] have d: "distinct (head # ys @ zs)" "0 \<notin> set (head # ys @ zs)"
    and front: "successively (links n) (head # ys)" and rear: "successively (links n) (zs @ [head])" by blast+
  from u have du: "distinct us" "0 \<notin> set us" and mid: "successively (links n) us"
    by (auto simp: dlist_def successively_append_iff successively_Cons)
  have dom: "?a \<in> dom n" "?b \<in> dom n" "?f \<in> dom n" "?g \<in> dom n"
    using ab fg dlist_dom [OF l] dlist_dom [OF u] by auto
  have diff: "?a \<notin> set us" "?b \<notin> set us" "?f \<notin> set (head # ys @ zs)" "?g \<notin> set (head # ys @ zs)"
    using ab fg dis by (auto simp del: last.simps)
  obtain h where h: "n lst = Some h" "nxt h = ?f" "prv h = ?g" using first_node [OF u] ne by auto
  obtain n1 where n1: "set_prev n ?f ?a = Some n1" "P n1 = (P n)(?f \<mapsto> ?a)" "N n1 = N n" "dom n1 = dom n"
    using set_prev_NP [OF dom(3)] by blast
  obtain n2 where n2: "set_next n1 ?a ?f = Some n2" "N n2 = (N n1)(?a \<mapsto> ?f)" "P n2 = P n1" "dom n2 = dom n"
    using set_next_NP [of ?a n1] dom(1) unfolding n1(4) by blast
  obtain n3 where n3: "set_next n2 ?g ?b = Some n3" "N n3 = (N n2)(?g \<mapsto> ?b)" "P n3 = P n2" "dom n3 = dom n"
    using set_next_NP [of ?g n2] dom(4) unfolding n2(4) by blast
  obtain m where m: "set_prev n3 ?b ?g = Some m" "P m = (P n3)(?b \<mapsto> ?g)" "N m = N n3" "dom m = dom n"
    using set_prev_NP [of ?b n3] dom(2) unfolding n3(4) by blast
  have N: "N m = (N n)(?a \<mapsto> ?f, ?g \<mapsto> ?b)" and P: "P m = (P n)(?f \<mapsto> ?a, ?b \<mapsto> ?g)" using n1 n2 n3 m by simp_all
  have a: "?a \<notin> set (butlast (head # ys))" and b: "?b \<notin> set (tl (zs @ [head]))"
    and g: "?g \<notin> set (butlast us)" and f: "?f \<notin> set (tl us)"
    using d(1) du(1) ne by (intro last_not_butlast hd_not_tl; simp)+
  have "successively (links m) (head # ys)"
  proof (rule successively_cong_NP [OF _ _ front])
    show "N m x = N n x" if "x \<in> set (butlast (head # ys))" for x
      using that in_set_butlastD [OF that] a diff(4) unfolding N by (auto simp del: butlast.simps last.simps)
    show "P m x = P n x" if "x \<in> set (tl (head # ys))" for x
      using that ab(2) diff(3) d(1) unfolding P by auto
  qed
  moreover have "successively (links m) us"
  proof (rule successively_cong_NP [OF _ _ mid])
    show "N m x = N n x" if "x \<in> set (butlast us)" for x
      using that in_set_butlastD [OF that] g diff(1) unfolding N by (auto simp del: last.simps)
    show "P m x = P n x" if "x \<in> set (tl us)" for x
    proof -
      have "x \<in> set us" using that by (cases us) auto
      then show ?thesis using that f diff(2) unfolding P by auto
    qed
  qed
  moreover have "successively (links m) (zs @ [head])"
  proof (rule successively_cong_NP [OF _ _ rear])
    show "N m x = N n x" if "x \<in> set (butlast (zs @ [head]))" for x
      using that ab(1) diff(4) d(1) unfolding N by (auto simp del: last.simps)
    show "P m x = P n x" if "x \<in> set (tl (zs @ [head]))" for x
    proof -
      have "x \<in> set (zs @ [head])" using that by (cases zs) auto
      then show ?thesis using that b diff(3) unfolding P by auto
    qed
  qed
  moreover have "links m ?a ?f" "links m ?g ?b"
    using ab fg diff unfolding links_def N P by (auto simp del: last.simps)
  ultimately have "successively (links m) ((head # ys) @ us @ zs @ [head])"
    using ne unfolding successively_append_iff by (auto simp del: last.simps)
  then have "dlist m head (ys @ us @ zs)" using d du dis by (auto simp: dlist_def)
  moreover have "list_splice0 n lst ?a ?b = Some m"
    using empty_dlist [OF u] ne h n1(1) n2(1) n3(1) m(1) by (simp add: list_splice0_def Let_def)
  moreover have "frame (set (head # ys @ us @ zs)) n m"
    using ab fg unfolding frame_NP N P by (auto simp del: last.simps)
  ultimately show ?thesis using m(4) by blast
qed

lemma splice_dlist:
  assumes l: "dlist n head xs" and u: "dlist n lst us" and dis: "set (head # xs) \<inter> set (lst # us) = {}"
  shows "\<exists>m. list_splice n lst head = Some m \<and> dlist m head (us @ xs) \<and> dom m = dom n \<and> frame (set (head # us @ xs)) n m"
    "\<exists>m. list_splice_tail n lst head = Some m \<and> dlist m head (xs @ us) \<and> dom m = dom n \<and> frame (set (head # us @ xs)) n m"
proof -
  obtain h where h: "n head = Some h" "nxt h = hd (xs @ [head])" "prv h = last (head # xs)" using first_node [OF l] by blast
  show "\<exists>m. list_splice n lst head = Some m \<and> dlist m head (us @ xs) \<and> dom m = dom n \<and> frame (set (head # us @ xs)) n m"
    using splice0_dlist [of n head "[]" xs lst us] l u dis h by (auto simp: list_splice_def)
  have "set (head # xs @ us @ []) = set (head # us @ xs)" by auto
  then show "\<exists>m. list_splice_tail n lst head = Some m \<and> dlist m head (xs @ us) \<and> dom m = dom n \<and> frame (set (head # us @ xs)) n m"
    using splice0_dlist [of n head xs "[]" lst us] l u dis h by (auto simp: list_splice_tail_def Un_commute)
qed

lemma splice_init_dlist:
  assumes l: "dlist n head xs" and u: "dlist n lst us" and dis: "set (head # xs) \<inter> set (lst # us) = {}"
  shows "\<exists>m. list_splice_init n lst head = Some m \<and> dlist m head (us @ xs) \<and> dlist m lst []
      \<and> frame (set (head # xs) \<union> set (lst # us)) n m"
    "\<exists>m. list_splice_tail_init n lst head = Some m \<and> dlist m head (xs @ us) \<and> dlist m lst []
      \<and> frame (set (head # xs) \<union> set (lst # us)) n m"
proof -
  have init: "\<exists>m. INIT_LIST_HEAD n0 lst = Some m \<and> dlist m head vs \<and> dlist m lst []
      \<and> frame (set (head # xs) \<union> set (lst # us)) n m"
    if n0: "dlist n0 head vs" "dom n0 = dom n" "frame (set (head # us @ xs)) n n0" and vs: "set vs = set us \<union> set xs" for n0 vs
  proof -
    have lst: "lst \<in> dom n0" "lst \<noteq> 0" "lst \<notin> set (head # vs)"
      using n0(2) vs dlist_dom [OF u, of lst] u dis by (auto simp: dlist_def)
    obtain m where m: "INIT_LIST_HEAD n0 lst = Some m" "dlist m lst []" "frame {lst} n0 m"
      using init_dlist [OF lst(1,2)] by blast
    have "dlist m head vs" by (rule dlist_frame [OF n0(1)]) (use lst(3) m(3) in \<open>auto simp: frame_NP\<close>)
    moreover have "frame (set (head # xs) \<union> set (lst # us)) n m" by (rule frame_trans [OF n0(3) m(3)]) auto
    ultimately show ?thesis using m by blast
  qed
  obtain m1 where m1: "list_splice n lst head = Some m1" "dlist m1 head (us @ xs)" "dom m1 = dom n"
      "frame (set (head # us @ xs)) n m1"
    using splice_dlist(1) [OF assms] by blast
  obtain m2 where m2: "list_splice_tail n lst head = Some m2" "dlist m2 head (xs @ us)" "dom m2 = dom n"
      "frame (set (head # us @ xs)) n m2"
    using splice_dlist(2) [OF assms] by blast
  show "\<exists>m. list_splice_init n lst head = Some m \<and> dlist m head (us @ xs) \<and> dlist m lst []
      \<and> frame (set (head # xs) \<union> set (lst # us)) n m"
    using init [OF m1(2,3,4)] m1(1) by (auto simp: list_splice_init_def)
  show "\<exists>m. list_splice_tail_init n lst head = Some m \<and> dlist m head (xs @ us) \<and> dlist m lst []
      \<and> frame (set (head # xs) \<union> set (lst # us)) n m"
    using init [OF m2(2,3,4)] m2(1) by (auto simp: list_splice_tail_init_def Un_commute)
qed

section \<open>Properties\<close>

text \<open>
  C36. The list operations on pointers are the operations on lists that their names say, and leave every
  other node alone. In a circular list through \<open>ys @ e # zs\<close>, with a node \<open>new\<close> outside it and another list
  through \<open>us\<close> with the head \<open>lst\<close>: the tests for the empty list, the first and the last node answer right;
  \<open>new\<close> is added in front, at the end, or before \<open>e\<close>; \<open>e\<close> is taken out, left with null pointers or as an
  empty list, or moved to either end; all of \<open>us\<close> is spliced in at either end, by the plain operations
  with the head \<open>lst\<close> left as it was, by the others with \<open>lst\<close> becoming empty. No null or dangling pointer is
  followed, and only nodes of the lists and the node added are written (\<open>frame\<close>).
\<close>

theorem list_operations:
  assumes "dlist n head (ys @ e # zs)" "new \<in> dom n" "new \<noteq> 0" "new \<notin> set (head # ys @ e # zs)"
    and "dlist n lst us" "set (head # ys @ e # zs) \<inter> set (lst # us) = {}"
  shows "list_empty n head = Some False \<and> list_is_first n e head = Some (ys = []) \<and> list_is_last n e head = Some (zs = [])
    \<and> (\<exists>m. INIT_LIST_HEAD n new = Some m \<and> dlist m new [] \<and> frame {new} n m)
    \<and> (\<exists>m. list_add n new head = Some m \<and> dlist m head (new # ys @ e # zs)
        \<and> frame (set (head # new # ys @ e # zs)) n m)
    \<and> (\<exists>m. list_add_tail n new head = Some m \<and> dlist m head (ys @ e # zs @ [new])
        \<and> frame (set (head # new # ys @ e # zs)) n m)
    \<and> (\<exists>m. list_add_tail n new e = Some m \<and> dlist m head (ys @ new # e # zs)
        \<and> frame (set (head # new # ys @ e # zs)) n m)
    \<and> (\<exists>m. list_del n e = Some m \<and> dlist m head (ys @ zs) \<and> m e = Some \<lparr>nxt = 0, prv = 0\<rparr>
        \<and> frame (set (head # ys @ e # zs)) n m)
    \<and> (\<exists>m. list_del_init n e = Some m \<and> dlist m head (ys @ zs) \<and> dlist m e []
        \<and> frame (set (head # ys @ e # zs)) n m)
    \<and> (\<exists>m. list_move n e head = Some m \<and> dlist m head (e # ys @ zs) \<and> frame (set (head # ys @ e # zs)) n m)
    \<and> (\<exists>m. list_move_tail n e head = Some m \<and> dlist m head (ys @ zs @ [e]) \<and> frame (set (head # ys @ e # zs)) n m)
    \<and> (\<exists>m. list_splice n lst head = Some m \<and> dlist m head (us @ ys @ e # zs)
        \<and> frame (set (head # us @ ys @ e # zs)) n m)
    \<and> (\<exists>m. list_splice_tail n lst head = Some m \<and> dlist m head (ys @ e # zs @ us)
        \<and> frame (set (head # us @ ys @ e # zs)) n m)
    \<and> (\<exists>m. list_splice_init n lst head = Some m \<and> dlist m head (us @ ys @ e # zs) \<and> dlist m lst []
        \<and> frame (set (head # ys @ e # zs) \<union> set (lst # us)) n m)
    \<and> (\<exists>m. list_splice_tail_init n lst head = Some m \<and> dlist m head (ys @ e # zs @ us) \<and> dlist m lst []
        \<and> frame (set (head # ys @ e # zs) \<union> set (lst # us)) n m)"
proof -
  have tests: "list_empty n head = Some False \<and> list_is_first n e head = Some (ys = []) \<and> list_is_last n e head = Some (zs = [])"
    using empty_dlist [OF assms(1)] inner_dlist [OF assms(1)] by simp
  have init: "\<exists>m. INIT_LIST_HEAD n new = Some m \<and> dlist m new [] \<and> frame {new} n m"
    using init_dlist [OF assms(2,3)] by blast
  have tail: "\<exists>m. list_add_tail n new head = Some m \<and> dlist m head (ys @ e # zs @ [new])
      \<and> frame (set (head # new # ys @ e # zs)) n m"
    using add_before_dlist [of n head "ys @ e # zs" "[]" new] assms(1-4) by auto
  have before: "\<exists>m. list_add_tail n new e = Some m \<and> dlist m head (ys @ new # e # zs)
      \<and> frame (set (head # new # ys @ e # zs)) n m"
    using add_before_dlist [OF assms(1-4)] by auto
  note splices = splice_dlist [OF assms(1,5,6)] splice_init_dlist [OF assms(1,5,6)]
  show ?thesis
    using tests init add_dlist [OF assms(1-4)] tail before del_dlist [OF assms(1)] del_init_dlist [OF assms(1)]
      move_dlist [OF assms(1)] splices
    unfolding append_assoc append_Cons by blast
qed

text \<open>
  A list through the nodes 2 and 3 with the head 1, a single node 4, and a list through 6 and 7 with the
  head 5.
\<close>

definition demo_nodes :: nodes where
  "demo_nodes = [1 \<mapsto> \<lparr>nxt = 2, prv = 3\<rparr>, 2 \<mapsto> \<lparr>nxt = 3, prv = 1\<rparr>, 3 \<mapsto> \<lparr>nxt = 1, prv = 2\<rparr>,
     4 \<mapsto> \<lparr>nxt = 0, prv = 0\<rparr>, 5 \<mapsto> \<lparr>nxt = 6, prv = 7\<rparr>, 6 \<mapsto> \<lparr>nxt = 7, prv = 5\<rparr>, 7 \<mapsto> \<lparr>nxt = 5, prv = 6\<rparr>]"

theorem list_operations_witness:
  "list_empty demo_nodes 1 = Some False
    \<and> (\<exists>m. list_add_tail demo_nodes 4 3 = Some m \<and> dlist m 1 [2, 4, 3])
    \<and> (\<exists>m. list_del demo_nodes 3 = Some m \<and> dlist m 1 [2] \<and> m 3 = Some \<lparr>nxt = 0, prv = 0\<rparr>)
    \<and> (\<exists>m. list_move demo_nodes 3 1 = Some m \<and> dlist m 1 [3, 2] \<and> m 4 = demo_nodes 4)
    \<and> (\<exists>m. list_splice demo_nodes 5 1 = Some m \<and> dlist m 1 [6, 7, 2, 3] \<and> m 5 = demo_nodes 5)
    \<and> (\<exists>m. list_splice_tail_init demo_nodes 5 1 = Some m \<and> dlist m 1 [2, 3, 6, 7] \<and> dlist m 5 [] \<and> m 4 = demo_nodes 4)"
proof -
  have "dlist demo_nodes 1 ([2] @ 3 # [])" "dlist demo_nodes 5 [6, 7]" "4 \<in> dom demo_nodes"
    by (simp_all add: demo_nodes_def dlist_def links_def N_def P_def)
  from list_operations [OF this(1,3) _ _ this(2)] show ?thesis
    unfolding frame_def by fastforce
qed

end
