(* ===== verification/TimerList.thy ===== *)
theory TimerList
  imports DList "HOL-Library.Signed_Division"
begin

text \<open>
  The timers of \<open>fun_timer/timer_list.c\<close>: a list of \<open>struct event_timeout\<close>, linked through its first member,
  so that the address of a timer is that of its list node. The clock that \<open>event_gettime\<close> reads and the
  callbacks are arguments; \<open>world\<close> is what the callbacks work on besides the timers.

  \<open>time_t\<close> and \<open>long\<close> are unbounded integers; the conversion of a difference to \<open>int\<close> is written out. A loop
  that does not come to its end is \<^term>\<open>None\<close>: it is shown to return.
\<close>

section \<open>State and operations\<close>

record timeval =
  tv_sec :: int
  tv_usec :: int

record event_timeout =
  pending :: bool
  cb :: "nat option"
  time :: timeval

record 'w heap =
  nodes :: nodes
  timers :: "nat \<Rightarrow> event_timeout option"
  world :: 'w

definition to_int :: "int \<Rightarrow> int" where
  "to_int x = sint (word_of_int x :: 32 word)"

definition tv_diff :: "timeval \<Rightarrow> timeval \<Rightarrow> int" where
  "tv_diff t1 t2 = to_int ((tv_sec t1 - tv_sec t2) * 1000 + (tv_usec t1 - tv_usec t2) sdiv 1000)"

text \<open>The argument is the \<open>struct timespec\<close> of the monotonic clock: seconds and nanoseconds.\<close>

definition event_gettime :: "int \<times> int \<Rightarrow> timeval" where
  "event_gettime ts = \<lparr>tv_sec = fst ts, tv_usec = snd ts sdiv 1000\<rparr>"

definition put_timer :: "'w heap \<Rightarrow> nat \<Rightarrow> event_timeout \<Rightarrow> 'w heap" where
  "put_timer st a t = st\<lparr>timers := (timers st)(a \<mapsto> t)\<rparr>"

text \<open>The loop of \<open>event_timeout_add\<close>: the node the new one is put before.\<close>

partial_function (option) find_later :: "'w heap \<Rightarrow> nat \<Rightarrow> timeval \<Rightarrow> nat \<Rightarrow> nat option" where
  "find_later st head t p =
     (if p = head then Some head
      else do {
        tmp \<leftarrow> timers st p;
        if tv_diff (time tmp) t > 0 then Some p
        else do {
          h \<leftarrow> nodes st p;
          find_later st head t (nxt h) } })"

definition event_timeout_add :: "'w heap \<Rightarrow> nat \<Rightarrow> nat \<Rightarrow> (int \<times> 'w heap) option" where
  "event_timeout_add st head ev = do {
     e \<leftarrow> timers st ev;
     if pending e then Some (-1, st)
     else do {
       h0 \<leftarrow> nodes st head;
       h \<leftarrow> find_later st head (time e) (nxt h0);
       n \<leftarrow> list_add_tail (nodes st) ev h;
       Some (0, put_timer (st\<lparr>nodes := n\<rparr>) ev (e\<lparr>pending := True\<rparr>)) } }"

definition event_timeout_cancel :: "'w heap \<Rightarrow> nat \<Rightarrow> (int \<times> 'w heap) option" where
  "event_timeout_cancel st ev = do {
     e \<leftarrow> timers st ev;
     if \<not> pending e then Some (-1, st)
     else do {
       n \<leftarrow> list_del (nodes st) ev;
       Some (0, put_timer (st\<lparr>nodes := n\<rparr>) ev (e\<lparr>pending := False\<rparr>)) } }"

text \<open>The time \<open>msecs\<close> after \<open>t\<close>, as \<open>event_timeout_set\<close> adds it up.\<close>

definition add_msecs :: "timeval \<Rightarrow> int \<Rightarrow> timeval" where
  "add_msecs t msecs =
     (let sec = tv_sec t + msecs sdiv 1000; usec = tv_usec t + (msecs smod 1000) * 1000 in
      if usec > 1000000 then \<lparr>tv_sec = sec + 1, tv_usec = usec - 1000000\<rparr>
      else \<lparr>tv_sec = sec, tv_usec = usec\<rparr>)"

definition event_timeout_set :: "'w heap \<Rightarrow> nat \<Rightarrow> nat \<Rightarrow> int \<Rightarrow> int \<times> int \<Rightarrow> (int \<times> 'w heap) option" where
  "event_timeout_set st head ev msecs ts = do {
     e \<leftarrow> timers st ev;
     st \<leftarrow> (if pending e then map_option snd (event_timeout_cancel st ev) else Some st);
     e \<leftarrow> timers st ev;
     let st = put_timer st ev (e\<lparr>time := add_msecs (event_gettime ts) msecs\<rparr>);
     event_timeout_add st head ev }"

definition event_timeout_remaining :: "'w heap \<Rightarrow> nat \<Rightarrow> int \<times> int \<Rightarrow> int option" where
  "event_timeout_remaining st ev ts = do {
     e \<leftarrow> timers st ev;
     if \<not> pending e then Some (-1) else Some (tv_diff (time e) (event_gettime ts)) }"

definition event_get_next_timeout :: "'w heap \<Rightarrow> nat option \<Rightarrow> timeval \<Rightarrow> int option" where
  "event_get_next_timeout st tm_head tv = (case tm_head of
     None \<Rightarrow> Some (-1)
   | Some head \<Rightarrow> do {
       empty \<leftarrow> list_empty (nodes st) head;
       if empty then Some (-1)
       else do {
         h \<leftarrow> nodes st head;
         t \<leftarrow> timers st (nxt h);
         let diff = tv_diff (time t) tv;
         Some (if diff < 0 then 0 else diff) } })"

type_synonym 'w handler = "nat \<Rightarrow> nat \<Rightarrow> 'w heap \<Rightarrow> 'w heap option"

partial_function (option) process_loop :: "'w handler \<Rightarrow> 'w heap \<Rightarrow> nat \<Rightarrow> timeval \<Rightarrow> 'w heap option" where
  "process_loop handler st head tv = do {
     empty \<leftarrow> list_empty (nodes st) head;
     if empty then Some st
     else do {
       h \<leftarrow> nodes st head;
       let a = nxt h;
       t \<leftarrow> timers st a;
       if tv_diff (time t) tv > 0 then Some st
       else do {
         (r, st) \<leftarrow> event_timeout_cancel st a;
         t \<leftarrow> timers st a;
         st \<leftarrow> (case cb t of None \<Rightarrow> Some st | Some f \<Rightarrow> handler f a st);
         process_loop handler st head tv } } }"

definition event_process_timeouts :: "'w handler \<Rightarrow> 'w heap \<Rightarrow> nat option \<Rightarrow> timeval \<Rightarrow> 'w heap option" where
  "event_process_timeouts handler st tm_head tv = (case tm_head of
     None \<Rightarrow> Some st
   | Some head \<Rightarrow> process_loop handler st head tv)"

section \<open>Times\<close>

text \<open>Microseconds, and a window of \<open>2147483\<close> seconds within which differences in milliseconds fit an \<open>int\<close>.\<close>

definition us :: "timeval \<Rightarrow> int" where
  "us t = tv_sec t * 1000000 + tv_usec t"

definition window :: "int \<Rightarrow> timeval \<Rightarrow> bool" where
  "window B t \<longleftrightarrow> B \<le> us t \<and> us t < B + 2147483000000"

lemma to_int_id: "-2147483648 \<le> x \<Longrightarrow> x < 2147483648 \<Longrightarrow> to_int x = x"
  by (simp add: to_int_def sint_sbintrunc' signed_take_bit_int_eq_self)

lemma sdiv_1000: "0 \<le> x \<Longrightarrow> x sdiv 1000 = x div (1000 :: int)" "x < 0 \<Longrightarrow> x sdiv 1000 = - ((- x) div (1000 :: int))"
  by (auto simp: signed_divide_int_def sgn_if)

lemma sdiv_1000_bounds:
  fixes x :: int
  shows "x - 1000 < 1000 * (x sdiv 1000)" "1000 * (x sdiv 1000) < x + 1000"
    "x \<ge> 0 \<Longrightarrow> 1000 * (x sdiv 1000) \<le> x" "x < 0 \<Longrightarrow> x \<le> 1000 * (x sdiv 1000)"
  by (cases "0 \<le> x"; simp add: sdiv_1000; linarith)+

lemma tv_diff_raw:
  assumes "window B a" "window B b"
  shows "tv_diff a b = (tv_sec a - tv_sec b) * 1000 + (tv_usec a - tv_usec b) sdiv 1000"
  unfolding tv_diff_def
  by (rule to_int_id; use assms sdiv_1000_bounds [of "tv_usec a - tv_usec b"] in \<open>simp add: window_def us_def\<close>)

text \<open>A positive difference means later; a whole millisecond later gives a positive difference.\<close>

lemma tv_diff_pos:
  assumes "window B a" "window B b"
  shows "0 < tv_diff a b \<Longrightarrow> us b < us a" "us b + 1000 \<le> us a \<Longrightarrow> 0 < tv_diff a b"
  using sdiv_1000_bounds [of "tv_usec a - tv_usec b"] unfolding tv_diff_raw [OF assms] us_def
  by (cases "0 \<le> tv_usec a - tv_usec b"; simp; linarith)+

lemma tv_diff_upper: "window B a \<Longrightarrow> window B b \<Longrightarrow> 1000 * tv_diff a b < us a - us b + 1000"
  using sdiv_1000_bounds(2) [of "tv_usec a - tv_usec b"] by (simp add: tv_diff_raw us_def)

lemma us_add_msecs: "us (add_msecs t msecs) = us t + msecs * 1000"
proof -
  have "msecs = msecs sdiv 1000 * 1000 + msecs smod 1000" by (simp add: sdiv_mult_smod_eq)
  then show ?thesis by (simp add: add_msecs_def us_def Let_def)
qed

section \<open>Well-formed timers\<close>

definition due :: "'w heap \<Rightarrow> nat \<Rightarrow> int" where
  "due st a = us (time (the (timers st a)))"

text \<open>
  The list holds exactly the pending timers, all of them within the window, and each is less than a
  millisecond later than any that follows it: differences are computed in milliseconds.
\<close>

definition timer_ok :: "int \<Rightarrow> nat \<Rightarrow> 'w heap \<Rightarrow> nat list \<Rightarrow> bool" where
  "timer_ok B head st xs \<longleftrightarrow> dlist (nodes st) head xs
     \<and> (\<forall>a t. timers st a = Some t \<longrightarrow> a \<in> dom (nodes st) \<and> a \<noteq> 0 \<and> a \<noteq> head \<and> (pending t \<longleftrightarrow> a \<in> set xs))
     \<and> (\<forall>a\<in>set xs. a \<in> dom (timers st) \<and> window B (time (the (timers st a))))
     \<and> sorted_wrt (\<lambda>a b. due st a < due st b + 1000) xs"

lemma timer_okD:
  assumes "timer_ok B head st xs"
  shows "dlist (nodes st) head xs" "timers st a = Some t \<Longrightarrow> a \<in> dom (nodes st)" "timers st a = Some t \<Longrightarrow> a \<noteq> 0 \<and> a \<noteq> head"
    "timers st a = Some t \<Longrightarrow> pending t \<longleftrightarrow> a \<in> set xs" "a \<in> set xs \<Longrightarrow> \<exists>t. timers st a = Some t \<and> window B (time t)"
    "sorted_wrt (\<lambda>a b. due st a < due st b + 1000) xs"
  using assms by (auto simp: timer_ok_def)

section \<open>Adding and cancelling\<close>

definition not_later :: "'w heap \<Rightarrow> timeval \<Rightarrow> nat \<Rightarrow> bool" where
  "not_later st t a \<longleftrightarrow> \<not> 0 < tv_diff (time (the (timers st a))) t"

lemma find_later_run:
  assumes "timer_ok B head st (ys @ zs)"
  shows "find_later st head t (hd (zs @ [head])) = Some (hd (dropWhile (not_later st t) zs @ [head]))"
  using assms
proof (induction zs arbitrary: ys)
  case Nil
  then show ?case by (subst find_later.simps) simp
next
  case (Cons a zs)
  note l = timer_okD(1) [OF Cons.prems]
  have a: "a \<noteq> head" using l by (auto simp: dlist_def)
  obtain e where e: "timers st a = Some e" using timer_okD(5) [OF Cons.prems, of a] by auto
  obtain h where h: "nodes st a = Some h" "nxt h = hd (zs @ [head])" using inner_node [OF l] by blast
  have "find_later st head t (hd (zs @ [head])) = Some (hd (dropWhile (not_later st t) zs @ [head]))"
    using Cons.IH [of "ys @ [a]"] Cons.prems by simp
  with a e h show ?case by (subst find_later.simps) (simp add: not_later_def)
qed

lemma due_put: "due (put_timer st a t) b = (if b = a then us (time t) else due st b)"
  by (simp add: due_def put_timer_def)

lemma due_nodes [simp]: "due (st\<lparr>nodes := n\<rparr>) b = due st b"
  by (simp add: due_def)

lemma put_timer_simps [simp]: "nodes (put_timer st a t) = nodes st" "timers (put_timer st a t) = (timers st)(a \<mapsto> t)"
    "world (put_timer st a t) = world st"
  by (simp_all add: put_timer_def)

text \<open>The place of a new timer in the order.\<close>

definition insert_timer :: "'w heap \<Rightarrow> timeval \<Rightarrow> nat \<Rightarrow> nat list \<Rightarrow> nat list" where
  "insert_timer st t a xs = takeWhile (not_later st t) xs @ a # dropWhile (not_later st t) xs"

lemma set_insert_timer [simp]: "set (insert_timer st t a xs) = insert a (set xs)"
proof -
  have "set xs = set (takeWhile (not_later st t) xs) \<union> set (dropWhile (not_later st t) xs)"
    by (metis set_append takeWhile_dropWhile_id)
  then show ?thesis by (simp add: insert_timer_def)
qed

lemma insert_timer_sorted:
  assumes ok: "timer_ok B head st xs" and w: "window B t" and c: "c \<notin> set xs"
  shows "sorted_wrt (\<lambda>a b. (if a = c then us t else due st a) < (if b = c then us t else due st b) + 1000) (insert_timer st t c xs)"
proof -
  let ?ys = "takeWhile (not_later st t) xs" and ?zs = "dropWhile (not_later st t) xs"
  have sorted: "sorted_wrt (\<lambda>a b. due st a < due st b + 1000) (?ys @ ?zs)" using timer_okD(6) [OF ok] by simp
  have in_window: "window B (time (the (timers st a)))" if "a \<in> set xs" for a using timer_okD(5) [OF ok that] by auto
  have sub: "a \<in> set xs" if "a \<in> set ?ys \<or> a \<in> set ?zs" for a using that by (auto dest: set_takeWhileD set_dropWhileD)
  have low: "due st a < us t + 1000" if "a \<in> set ?ys" for a
  proof -
    have a: "a \<in> set xs" "not_later st t a" using that sub by (blast, blast dest: set_takeWhileD)
    show ?thesis using tv_diff_pos(2) [OF in_window [OF a(1)] w] a(2) unfolding not_later_def due_def by linarith
  qed
  have high: "us t < due st b + 1000" if "b \<in> set ?zs" for b
  proof (cases ?zs)
    case Nil
    then show ?thesis using that by (metis empty_iff empty_set)
  next
    case (Cons z zs)
    then have "\<not> not_later st t z" by (metis dropWhile_eq_Cons_conv)
    moreover have "z \<in> set xs" using sub [of z] Cons by simp
    ultimately have "us t < due st z" using tv_diff_pos(1) [OF in_window w] unfolding not_later_def due_def by blast
    moreover have "b = z \<or> due st z < due st b + 1000" using sorted that Cons by (auto simp: sorted_wrt_append)
    ultimately show ?thesis by auto
  qed
  have "c \<notin> set ?ys" "c \<notin> set ?zs" using c sub by blast+
  then have ne: "(if a = c then us t else due st a) = due st a" if "a \<in> set ?ys \<or> a \<in> set ?zs" for a using that by auto
  have "sorted_wrt (\<lambda>a b. (if a = c then us t else due st a) < (if b = c then us t else due st b) + 1000) ?ys"
    by (rule sorted_wrt_mono_rel [where P = "\<lambda>a b. due st a < due st b + 1000"]) (use sorted ne in \<open>simp_all add: sorted_wrt_append\<close>)
  moreover have "sorted_wrt (\<lambda>a b. (if a = c then us t else due st a) < (if b = c then us t else due st b) + 1000) ?zs"
    by (rule sorted_wrt_mono_rel [where P = "\<lambda>a b. due st a < due st b + 1000"]) (use sorted ne in \<open>simp_all add: sorted_wrt_append\<close>)
  moreover have "due st a < due st b + 1000" if "a \<in> set ?ys" "b \<in> set ?zs" for a b
    using sorted [unfolded sorted_wrt_append] that by blast
  ultimately show ?thesis
    unfolding insert_timer_def sorted_wrt_append sorted_wrt.simps using ne low high by auto
qed

lemma event_timeout_add_ok:
  assumes ok: "timer_ok B head st xs" and e: "timers st ev = Some e" "\<not> pending e" "window B (time e)"
  shows "\<exists>st'. event_timeout_add st head ev = Some (0, st') \<and> timer_ok B head st' (insert_timer st (time e) ev xs)
    \<and> world st' = world st \<and> timers st' = (timers st)(ev \<mapsto> e\<lparr>pending := True\<rparr>)"
proof -
  let ?ys = "takeWhile (not_later st (time e)) xs" and ?zs = "dropWhile (not_later st (time e)) xs"
  have l: "dlist (nodes st) head (?ys @ ?zs)" using timer_okD(1) [OF ok] by simp
  have ev: "ev \<in> dom (nodes st)" "ev \<noteq> 0" "ev \<noteq> head" "ev \<notin> set xs"
    using timer_okD(2-4) [OF ok e(1)] e(2) by auto
  have find: "find_later st head (time e) (hd (xs @ [head])) = Some (hd (?zs @ [head]))"
    using find_later_run [of B head st "[]" xs] ok by simp
  obtain h where h: "nodes st head = Some h" "nxt h = hd (xs @ [head])" using first_node [OF timer_okD(1) [OF ok]] by blast
  have "ev \<notin> set (head # ?ys @ ?zs)" using ev by simp
  then obtain n where n: "list_add_tail (nodes st) ev (hd (?zs @ [head])) = Some n" "dlist n head (?ys @ ev # ?zs)" "dom n = dom (nodes st)"
    using add_before_dlist [OF l ev(1,2)] by blast
  let ?st = "put_timer (st\<lparr>nodes := n\<rparr>) ev (e\<lparr>pending := True\<rparr>)"
  have "event_timeout_add st head ev = Some (0, ?st)" using e h find n(1) by (simp add: event_timeout_add_def)
  moreover have "timer_ok B head ?st (insert_timer st (time e) ev xs)"
  proof -
    have "dlist (nodes ?st) head (insert_timer st (time e) ev xs)" using n(2) by (simp add: insert_timer_def)
    moreover have "sorted_wrt (\<lambda>a b. due ?st a < due ?st b + 1000) (insert_timer st (time e) ev xs)"
    proof -
      have same: "due ?st a = (if a = ev then us (time e) else due st a)" for a by (simp add: due_put)
      show ?thesis unfolding same by (rule insert_timer_sorted [OF ok e(3) ev(4)])
    qed
    ultimately show ?thesis using ok n(3) ev e(3) unfolding timer_ok_def by auto
  qed
  ultimately show ?thesis by simp
qed

lemma event_timeout_cancel_ok:
  assumes ok: "timer_ok B head st (ys @ ev # zs)"
  shows "\<exists>st' e. timers st ev = Some e \<and> event_timeout_cancel st ev = Some (0, st') \<and> timer_ok B head st' (ys @ zs)
    \<and> world st' = world st \<and> timers st' = (timers st)(ev \<mapsto> e\<lparr>pending := False\<rparr>)"
proof -
  note l = timer_okD(1) [OF ok]
  obtain e where e: "timers st ev = Some e" "pending e" using timer_okD(5) [OF ok, of ev] timer_okD(4) [OF ok, of ev] by auto
  obtain n where n: "list_del (nodes st) ev = Some n" "dlist n head (ys @ zs)" "dom n = dom (nodes st)" using del_dlist [OF l] by blast
  let ?st = "put_timer (st\<lparr>nodes := n\<rparr>) ev (e\<lparr>pending := False\<rparr>)"
  have ev: "ev \<notin> set (ys @ zs)" using l by (simp add: dlist_def)
  have "event_timeout_cancel st ev = Some (0, ?st)" using e n(1) by (simp add: event_timeout_cancel_def)
  moreover have "timer_ok B head ?st (ys @ zs)"
  proof -
    have same: "due ?st a = due st a" for a using e(1) by (simp add: due_put due_def)
    have "sorted_wrt (\<lambda>a b. due ?st a < due ?st b + 1000) (ys @ zs)"
      using timer_okD(6) [OF ok] unfolding same by (auto simp: sorted_wrt_append)
    then show ?thesis using ok n(2,3) ev unfolding timer_ok_def by auto
  qed
  ultimately show ?thesis using e(1) by auto
qed

lemma event_timeout_cancel_idle:
  "timer_ok B head st xs \<Longrightarrow> timers st ev = Some e \<Longrightarrow> ev \<notin> set xs \<Longrightarrow> event_timeout_cancel st ev = Some (-1, st)"
  by (simp add: event_timeout_cancel_def timer_okD(4))

lemma timer_ok_distinct: "timer_ok B head st xs \<Longrightarrow> distinct xs"
  using timer_okD(1) by (fastforce simp: dlist_def)

text \<open>Cancelling on lists.\<close>

lemma event_timeout_cancel_remove:
  assumes ok: "timer_ok B head st xs" and ev: "ev \<in> set xs"
  shows "\<exists>st' e. timers st ev = Some e \<and> event_timeout_cancel st ev = Some (0, st') \<and> timer_ok B head st' (removeAll ev xs)
    \<and> world st' = world st \<and> timers st' = (timers st)(ev \<mapsto> e\<lparr>pending := False\<rparr>)"
proof -
  obtain ys zs where xs: "xs = ys @ ev # zs" using ev by (meson split_list)
  have "removeAll ev xs = ys @ zs" using timer_ok_distinct [OF ok] unfolding xs by (simp add: removeAll_id)
  with event_timeout_cancel_ok [OF ok [unfolded xs]] show ?thesis by simp
qed

lemma put_time_ok:
  assumes ok: "timer_ok B head st xs" and e: "timers st ev = Some e" "ev \<notin> set xs"
  shows "timer_ok B head (put_timer st ev (e\<lparr>time := t\<rparr>)) xs"
proof -
  let ?st = "put_timer st ev (e\<lparr>time := t\<rparr>)"
  have "sorted_wrt (\<lambda>a b. due ?st a < due ?st b + 1000) xs"
    by (rule sorted_wrt_mono_rel [where P = "\<lambda>a b. due st a < due st b + 1000"])
      (use timer_okD(6) [OF ok] e(2) in \<open>auto simp: due_put\<close>)
  then show ?thesis using ok e unfolding timer_ok_def by auto
qed

lemma removeAll_insert_timer: "ev \<notin> set xs \<Longrightarrow> removeAll ev (insert_timer st t ev xs) = xs"
proof -
  assume "ev \<notin> set xs"
  moreover have "set xs = set (takeWhile (not_later st t) xs) \<union> set (dropWhile (not_later st t) xs)"
    by (metis set_append takeWhile_dropWhile_id)
  ultimately show ?thesis by (simp add: insert_timer_def removeAll_id)
qed

lemma event_timeout_set_ok:
  assumes ok: "timer_ok B head st xs" and e: "timers st ev = Some e" and w: "window B (add_msecs (event_gettime ts) msecs)"
  shows "\<exists>st' xs'. event_timeout_set st head ev msecs ts = Some (0, st') \<and> timer_ok B head st' xs'
    \<and> set xs' = insert ev (set xs) \<and> removeAll ev xs' = removeAll ev xs \<and> world st' = world st
    \<and> timers st' = (timers st)(ev \<mapsto> e\<lparr>pending := True, time := add_msecs (event_gettime ts) msecs\<rparr>)"
proof -
  let ?t = "add_msecs (event_gettime ts) msecs"
  obtain st1 e1 where st1: "(if pending e then map_option snd (event_timeout_cancel st ev) else Some st) = Some st1"
      "timer_ok B head st1 (removeAll ev xs)" "world st1 = world st" "e1\<lparr>time := ?t\<rparr> = e\<lparr>pending := False, time := ?t\<rparr>"
      "timers st1 = (timers st)(ev \<mapsto> e1)" "\<not> pending e1"
  proof (cases "pending e")
    case True
    then have "ev \<in> set xs" using timer_okD(4) [OF ok e] by simp
    from event_timeout_cancel_remove [OF ok this] e True show thesis by (auto intro: that [of _ "e\<lparr>pending := False\<rparr>"])
  next
    case False
    then have "ev \<notin> set xs" using timer_okD(4) [OF ok e] by simp
    then have "removeAll ev xs = xs" by simp
    moreover have "(timers st)(ev \<mapsto> e) = timers st" using e by auto
    moreover have "e\<lparr>pending := False, time := ?t\<rparr> = e\<lparr>time := ?t\<rparr>" using False by (cases e) simp
    ultimately show thesis using ok False by (intro that [of st e]) simp_all
  qed
  let ?st2 = "put_timer st1 ev (e1\<lparr>time := ?t\<rparr>)"
  have ok2: "timer_ok B head ?st2 (removeAll ev xs)" by (rule put_time_ok [OF st1(2)]) (use st1(5) in simp_all)
  obtain st' where st': "event_timeout_add ?st2 head ev = Some (0, st')"
      "timer_ok B head st' (insert_timer ?st2 ?t ev (removeAll ev xs))" "world st' = world ?st2"
      "timers st' = (timers ?st2)(ev \<mapsto> e1\<lparr>time := ?t, pending := True\<rparr>)"
    using event_timeout_add_ok [OF ok2, of ev "e1\<lparr>time := ?t\<rparr>"] st1(6) w by auto
  have "event_timeout_set st head ev msecs ts = Some (0, st')"
    using e st1(1,5) st'(1) by (simp add: event_timeout_set_def Let_def)
  moreover have "timers st' = (timers st)(ev \<mapsto> e\<lparr>pending := True, time := ?t\<rparr>)"
  proof -
    have "(e1\<lparr>time := ?t\<rparr>)\<lparr>pending := True\<rparr> = (e\<lparr>pending := False, time := ?t\<rparr>)\<lparr>pending := True\<rparr>"
      by (simp only: st1(4))
    then have "e1\<lparr>time := ?t, pending := True\<rparr> = e\<lparr>pending := True, time := ?t\<rparr>" by simp
    then show ?thesis unfolding st'(4) put_timer_simps st1(5) by (simp only: fun_upd_upd)
  qed
  moreover have "removeAll ev (insert_timer ?st2 ?t ev (removeAll ev xs)) = removeAll ev xs" by (rule removeAll_insert_timer) simp
  moreover have "set (insert_timer ?st2 ?t ev (removeAll ev xs)) = insert ev (set xs)" by auto
  ultimately show ?thesis using st'(2,3) st1(3) by auto
qed

section \<open>Processing\<close>

text \<open>
  What is asked of a callback: it returns, keeps the timers well formed, does not touch the times of other
  timers, and may set no timer but its own, to a time at least a millisecond ahead.
\<close>

definition handler_ok :: "'w handler \<Rightarrow> int \<Rightarrow> nat \<Rightarrow> timeval \<Rightarrow> bool" where
  "handler_ok handler B head tv \<longleftrightarrow> (\<forall>f a st xs. timer_ok B head st xs \<and> a \<in> dom (timers st) \<and> a \<notin> set xs \<longrightarrow>
     (\<exists>st' xs'. handler f a st = Some st' \<and> timer_ok B head st' xs' \<and> set xs' \<subseteq> insert a (set xs)
       \<and> (a \<in> set xs' \<longrightarrow> us tv + 1000 \<le> due st' a) \<and> (\<forall>b\<in>set xs' - {a}. due st' b = due st b)))"

text \<open>One turn: the first timer, if it is not later than \<open>tv\<close>.\<close>

lemma process_stop:
  assumes ok: "timer_ok B head st xs" and "xs = [] \<or> \<not> not_later st tv (hd xs)"
  shows "process_loop handler st head tv = Some st"
proof (cases xs)
  case Nil
  then show ?thesis using empty_dlist [OF timer_okD(1) [OF ok]] by (subst process_loop.simps) simp
next
  case (Cons a ys)
  obtain h where h: "nodes st head = Some h" "nxt h = a" using first_node [OF timer_okD(1) [OF ok]] Cons by auto
  obtain t where t: "timers st a = Some t" using timer_okD(5) [OF ok, of a] Cons by auto
  from assms(2) Cons t have "tv_diff (time t) tv > 0" by (simp add: not_later_def)
  then show ?thesis using empty_dlist [OF timer_okD(1) [OF ok]] Cons h t by (subst process_loop.simps) simp
qed

lemma process_turn:
  assumes ok: "timer_ok B head st (a # ys)" and "not_later st tv a"
  shows "\<exists>st1 t. event_timeout_cancel st a = Some (0, st1) \<and> timer_ok B head st1 ys \<and> world st1 = world st
    \<and> timers st a = Some t \<and> timers st1 = (timers st)(a \<mapsto> t\<lparr>pending := False\<rparr>)
    \<and> process_loop handler st head tv
       = Option.bind (case cb t of None \<Rightarrow> Some st1 | Some f \<Rightarrow> handler f a st1) (\<lambda>st. process_loop handler st head tv)"
proof -
  obtain st1 t where st1: "timers st a = Some t" "event_timeout_cancel st a = Some (0, st1)" "timer_ok B head st1 ys"
      "world st1 = world st" "timers st1 = (timers st)(a \<mapsto> t\<lparr>pending := False\<rparr>)"
    using event_timeout_cancel_ok [of B head st "[]" a ys] ok by auto
  obtain h where h: "nodes st head = Some h" "nxt h = a" using first_node [OF timer_okD(1) [OF ok]] by auto
  have "\<not> tv_diff (time t) tv > 0" using assms(2) st1(1) by (simp add: not_later_def)
  then have "process_loop handler st head tv
      = Option.bind (case cb t of None \<Rightarrow> Some st1 | Some f \<Rightarrow> handler f a st1) (\<lambda>st. process_loop handler st head tv)"
    using empty_dlist [OF timer_okD(1) [OF ok]] h st1(1,2,5) by (subst process_loop.simps) (simp add: Let_def split: option.split)
  with st1 show ?thesis by blast
qed

text \<open>Where the loop stops, every timer left is due later than a millisecond before \<open>tv\<close>.\<close>

lemma process_end:
  assumes ok: "timer_ok B head st xs" and tv: "window B tv" and stop: "xs = [] \<or> \<not> not_later st tv (hd xs)"
    and a: "a \<in> set xs"
  shows "us tv - 1000 < due st a"
proof -
  obtain z zs where xs: "xs = z # zs" using a by (cases xs) auto
  have "window B (time (the (timers st z)))" using timer_okD(5) [OF ok, of z] xs by auto
  then have "us tv < due st z" using stop tv_diff_pos(1) [OF _ tv] unfolding not_later_def due_def xs by auto
  moreover have "a = z \<or> due st z < due st a + 1000" using timer_okD(6) [OF ok] a xs by auto
  ultimately show ?thesis by auto
qed

text \<open>
  A whole turn of the loop, from the state \<open>st\<close> to \<open>st2\<close>: the first timer is taken out and called. Fewer
  timers are due after it.
\<close>

definition turn :: "'w handler \<Rightarrow> int \<Rightarrow> nat \<Rightarrow> timeval \<Rightarrow> nat \<Rightarrow> nat list \<Rightarrow> 'w heap \<Rightarrow> event_timeout \<Rightarrow> 'w heap
    \<Rightarrow> 'w heap \<Rightarrow> nat list \<Rightarrow> bool" where
  "turn handler B head tv a ys st t st1 st2 zs \<longleftrightarrow> timers st a = Some t
     \<and> timers st1 = (timers st)(a \<mapsto> t\<lparr>pending := False\<rparr>) \<and> world st1 = world st \<and> timer_ok B head st1 ys
     \<and> (case cb t of None \<Rightarrow> Some st1 | Some f \<Rightarrow> handler f a st1) = Some st2 \<and> timer_ok B head st2 zs
     \<and> set zs \<subseteq> insert a (set ys) \<and> (a \<in> set zs \<longrightarrow> us tv + 1000 \<le> due st2 a)
     \<and> (\<forall>b\<in>set zs - {a}. due st2 b = due st b) \<and> due st a < us tv + 1000"

lemma turn_exists:
  assumes h: "handler_ok handler B head tv" and tv: "window B tv" and ok: "timer_ok B head st (a # ys)"
    and a: "not_later st tv a"
  shows "\<exists>t st1 st2 zs. turn handler B head tv a ys st t st1 st2 zs
    \<and> process_loop handler st head tv = process_loop handler st2 head tv"
proof -
  obtain st1 t where t: "timer_ok B head st1 ys" "timers st a = Some t" "timers st1 = (timers st)(a \<mapsto> t\<lparr>pending := False\<rparr>)"
      "world st1 = world st"
    and loop: "process_loop handler st head tv
      = Option.bind (case cb t of None \<Rightarrow> Some st1 | Some f \<Rightarrow> handler f a st1) (\<lambda>st. process_loop handler st head tv)"
    using process_turn [OF ok a] by blast
  have fresh: "a \<notin> set ys" using timer_ok_distinct [OF ok] by simp
  have same: "due st1 b = due st b" for b using t(2,3) by (simp add: due_def)
  have "window B (time (the (timers st a)))" using timer_okD(5) [OF ok, of a] by auto
  from tv_diff_pos(2) [OF this tv] a have due: "due st a < us tv + 1000" unfolding not_later_def due_def by linarith
  obtain st2 zs where st2: "(case cb t of None \<Rightarrow> Some st1 | Some f \<Rightarrow> handler f a st1) = Some st2" "timer_ok B head st2 zs"
      "set zs \<subseteq> insert a (set ys)" "a \<in> set zs \<Longrightarrow> us tv + 1000 \<le> due st2 a" "\<forall>b\<in>set zs - {a}. due st2 b = due st1 b"
  proof (cases "cb t")
    case None
    with t(1) fresh show thesis by (intro that [of st1 ys]) auto
  next
    case (Some f)
    have "a \<in> dom (timers st1)" using t(3) by auto
    with h t(1) fresh obtain st' xs' where "handler f a st1 = Some st'" "timer_ok B head st' xs'" "set xs' \<subseteq> insert a (set ys)"
        "a \<in> set xs' \<longrightarrow> us tv + 1000 \<le> due st' a" "\<forall>b\<in>set xs' - {a}. due st' b = due st1 b"
      unfolding handler_ok_def by blast
    with Some show thesis by (intro that [of st' xs']) auto
  qed
  then have "turn handler B head tv a ys st t st1 st2 zs" using t due unfolding turn_def same by blast
  moreover have "process_loop handler st head tv = process_loop handler st2 head tv" using loop st2(1) by simp
  ultimately show ?thesis by blast
qed

lemma turn_fewer:
  assumes "turn handler B head tv a ys st t st1 st2 zs"
  shows "card {b \<in> set zs. due st2 b < us tv + 1000} < card {b \<in> set (a # ys). due st b < us tv + 1000}"
proof (rule psubset_card_mono)
  have "b \<in> set ys \<and> due st b < us tv + 1000 \<and> b \<noteq> a" if "b \<in> set zs" "due st2 b < us tv + 1000" for b
    using assms that unfolding turn_def by (cases "b = a") auto
  moreover have "due st a < us tv + 1000" using assms unfolding turn_def by blast
  ultimately show "{b \<in> set zs. due st2 b < us tv + 1000} \<subset> {b \<in> set (a # ys). due st b < us tv + 1000}" by auto
qed simp

lemma process_returns:
  assumes h: "handler_ok handler B head tv" and tv: "window B tv"
  shows "timer_ok B head st xs \<Longrightarrow> \<exists>st' xs'. process_loop handler st head tv = Some st' \<and> timer_ok B head st' xs'
    \<and> set xs' \<subseteq> set xs \<and> (\<forall>a\<in>set xs'. us tv - 1000 < due st' a)"
proof (induction "card {a \<in> set xs. due st a < us tv + 1000}" arbitrary: st xs rule: less_induct)
  case less
  show ?case
  proof (cases "xs = [] \<or> \<not> not_later st tv (hd xs)")
    case True
    with process_stop [OF less.prems True] process_end [OF less.prems tv True] less.prems show ?thesis by blast
  next
    case False
    then obtain a ys where xs: "xs = a # ys" and a: "not_later st tv a" by (cases xs) auto
    obtain t st1 st2 zs where tn: "turn handler B head tv a ys st t st1 st2 zs"
        and step: "process_loop handler st head tv = process_loop handler st2 head tv"
      using turn_exists [OF h tv less.prems [unfolded xs] a] by blast
    then have zs: "timer_ok B head st2 zs" "set zs \<subseteq> set xs" unfolding turn_def xs by auto
    from less.hyps [OF turn_fewer [OF tn, folded xs] zs(1)] step zs(2) show ?thesis by (metis order_trans)
  qed
qed

text \<open>
  Which timers are called. \<open>calls\<close> reads the record of the calls off the world the callbacks work on:
  each adds itself to it, and changes the callback of no other timer. A timer is \<open>cancelled\<close> by one of
  the calls if it is pending before it and not after it.
\<close>

definition recorded :: "('w \<Rightarrow> (nat \<times> nat) list) \<Rightarrow> 'w handler \<Rightarrow> bool" where
  "recorded calls handler \<longleftrightarrow> (\<forall>f a st st'. handler f a st = Some st' \<longrightarrow>
     calls (world st') = calls (world st) @ [(f, a)]
     \<and> (\<forall>b. b \<noteq> a \<longrightarrow> map_option cb (timers st' b) = map_option cb (timers st b)))"

definition cancelled :: "'w handler \<Rightarrow> (nat \<times> nat) list \<Rightarrow> nat \<Rightarrow> bool" where
  "cancelled handler cs a \<longleftrightarrow> (\<exists>g b s s'. (g, b) \<in> set cs \<and> handler g b s = Some s'
     \<and> map_option pending (timers s a) = Some True \<and> map_option pending (timers s' a) = Some False)"

definition called_right :: "'w handler \<Rightarrow> timeval \<Rightarrow> 'w heap \<Rightarrow> nat list \<Rightarrow> (nat \<times> nat) list \<Rightarrow> bool" where
  "called_right handler tv st xs cs \<longleftrightarrow> distinct (map snd cs)
     \<and> (\<forall>(f, a)\<in>set cs. a \<in> set xs \<and> cb (the (timers st a)) = Some f \<and> due st a < us tv + 1000)
     \<and> (\<forall>a\<in>set xs. due st a \<le> us tv - 1000 \<longrightarrow> (\<forall>f. cb (the (timers st a)) = Some f \<longrightarrow>
          (f, a) \<in> set cs \<or> cancelled handler cs a))"

lemma cancelled_mono: "cancelled handler cs a \<Longrightarrow> set cs \<subseteq> set cs' \<Longrightarrow> cancelled handler cs' a"
  unfolding cancelled_def by blast

lemma turn_same_cb:
  assumes "turn handler B head tv a ys st t st1 st2 zs" "recorded calls handler" "b \<noteq> a"
  shows "map_option cb (timers st2 b) = map_option cb (timers st b)"
proof (cases "cb t")
  case None
  then show ?thesis using assms by (auto simp: turn_def)
next
  case (Some f)
  then have "handler f a st1 = Some st2" using assms(1) by (auto simp: turn_def)
  with assms(2,3) have "map_option cb (timers st2 b) = map_option cb (timers st1 b)" by (auto simp: recorded_def)
  then show ?thesis using assms(1,3) by (simp add: turn_def)
qed

text \<open>A timer that is gone after a turn, and was not the one called, has been cancelled by the callback.\<close>

lemma turn_gone:
  assumes tn: "turn handler B head tv a ys st t st1 st2 zs" and rec: "recorded calls handler"
    and b: "b \<in> set ys" "b \<notin> set zs" "b \<noteq> a"
  shows "\<exists>g. cb t = Some g \<and> cancelled handler ((g, a) # cs) b"
proof -
  have ok: "timer_ok B head st1 ys" "timer_ok B head st2 zs" using tn by (auto simp: turn_def)
  obtain tb where tb: "timers st1 b = Some tb" using timer_okD(5) [OF ok(1) b(1)] by blast
  then have was: "pending tb" using timer_okD(4) [OF ok(1) tb] b(1) by simp
  have "timers st b = Some tb" using tb tn b(3) by (auto simp: turn_def)
  then obtain tb' where tb': "timers st2 b = Some tb'" using turn_same_cb [OF tn rec b(3)] by (cases "timers st2 b") auto
  then have now: "\<not> pending tb'" using timer_okD(4) [OF ok(2) tb'] b(2) by simp
  show ?thesis
  proof (cases "cb t")
    case None
    then have "st2 = st1" using tn by (auto simp: turn_def)
    then show ?thesis using tb tb' was now by simp
  next
    case (Some g)
    then have "handler g a st1 = Some st2" using tn by (auto simp: turn_def)
    then have "cancelled handler ((g, a) # cs) b"
      using tb tb' was now unfolding cancelled_def by (intro exI [of _ g] exI [of _ a] exI [of _ st1] exI [of _ st2]) simp
    with Some show ?thesis by blast
  qed
qed

lemma turn_called:
  assumes tn: "turn handler B head tv a ys st t st1 st2 zs" and rec: "recorded calls handler"
    and cs: "called_right handler tv st2 zs cs"
  shows "called_right handler tv st (a # ys) ((case cb t of None \<Rightarrow> [] | Some f \<Rightarrow> [(f, a)]) @ cs)"
    (is "called_right _ _ _ _ ?cs")
proof -
  have t: "timers st a = Some t" and due: "due st a < us tv + 1000" and sub: "set zs \<subseteq> insert a (set ys)"
    and again: "a \<in> set zs \<Longrightarrow> us tv + 1000 \<le> due st2 a" and same: "\<And>b. b \<in> set zs \<Longrightarrow> b \<noteq> a \<Longrightarrow> due st2 b = due st b"
    using tn by (auto simp: turn_def)
  have cb: "cb (the (timers st2 b)) = cb (the (timers st b))" if b: "b \<in> set zs" "b \<noteq> a" for b
  proof -
    obtain tb where "timers st2 b = Some tb" using tn timer_okD(5) [of B head st2 zs b] b(1) by (auto simp: turn_def)
    with turn_same_cb [OF tn rec b(2)] show ?thesis by (cases "timers st b") auto
  qed
  have old: "b \<in> set zs \<and> b \<noteq> a \<and> cb (the (timers st2 b)) = Some f \<and> due st2 b < us tv + 1000" if "(f, b) \<in> set cs" for f b
    using cs that again unfolding called_right_def by fastforce
  have "a \<notin> set (map snd cs)"
  proof
    assume "a \<in> set (map snd cs)"
    then obtain f where "(f, a) \<in> set cs" by auto
    with old show False by blast
  qed
  then have "distinct (map snd ?cs)" using cs by (auto simp: called_right_def split: option.split)
  moreover have "b \<in> set (a # ys) \<and> cb (the (timers st b)) = Some f \<and> due st b < us tv + 1000" if "(f, b) \<in> set ?cs" for f b
  proof (cases "(f, b) \<in> set cs")
    case True
    with old [OF True] cb [of b] same [of b] sub show ?thesis by auto
  next
    case False
    with that have "b = a" "cb t = Some f" by (auto split: option.splits)
    with t due show ?thesis by simp
  qed
  moreover have "(f, b) \<in> set ?cs \<or> cancelled handler ?cs b"
    if b: "b \<in> set (a # ys)" "due st b \<le> us tv - 1000" "cb (the (timers st b)) = Some f" for b f
  proof (cases "b = a")
    case True
    with t b(3) show ?thesis by simp
  next
    case other: False
    show ?thesis
    proof (cases "b \<in> set zs")
      case True
      then have "(f, b) \<in> set cs \<or> cancelled handler cs b"
        using cs b other same [of b] cb [of b] unfolding called_right_def by auto
      then show ?thesis using cancelled_mono [of handler cs b ?cs] by auto
    next
      case False
      with b(1) other turn_gone [OF tn rec, of b cs] show ?thesis by auto
    qed
  qed
  ultimately show ?thesis unfolding called_right_def by blast
qed

lemma turn_recorded:
  "turn handler B head tv a ys st t st1 st2 zs \<Longrightarrow> recorded calls handler \<Longrightarrow>
     calls (world st2) = calls (world st) @ (case cb t of None \<Rightarrow> [] | Some f \<Rightarrow> [(f, a)])"
  by (cases "cb t") (auto simp: turn_def recorded_def)

lemma process_calls:
  assumes h: "handler_ok handler B head tv" and tv: "window B tv" and rec: "recorded calls handler"
  shows "timer_ok B head st xs \<Longrightarrow> process_loop handler st head tv = Some st' \<Longrightarrow>
    \<exists>cs. calls (world st') = calls (world st) @ cs \<and> called_right handler tv st xs cs"
proof (induction "card {a \<in> set xs. due st a < us tv + 1000}" arbitrary: st xs rule: less_induct)
  case less
  show ?case
  proof (cases "xs = [] \<or> \<not> not_later st tv (hd xs)")
    case True
    have "called_right handler tv st xs []"
      using process_end [OF less.prems(1) tv True] by (fastforce simp: called_right_def)
    with process_stop [OF less.prems(1) True] less.prems(2) show ?thesis by auto
  next
    case False
    then obtain a ys where xs: "xs = a # ys" and a: "not_later st tv a" by (cases xs) auto
    obtain t st1 st2 zs where tn: "turn handler B head tv a ys st t st1 st2 zs"
        and step: "process_loop handler st head tv = process_loop handler st2 head tv"
      using turn_exists [OF h tv less.prems(1) [unfolded xs] a] by blast
    have "timer_ok B head st2 zs" using tn by (simp add: turn_def)
    from less.hyps [OF turn_fewer [OF tn, folded xs] this] less.prems(2) step
    obtain cs where "calls (world st') = calls (world st2) @ cs" "called_right handler tv st2 zs cs" by auto
    with turn_called [OF tn rec, of cs] turn_recorded [OF tn rec] show ?thesis unfolding xs by auto
  qed
qed

text \<open>Callbacks that only work on the rest of the world: exactly the timers not later than \<open>tv\<close> run, in order.\<close>

definition call :: "(nat \<Rightarrow> nat \<Rightarrow> 'w \<Rightarrow> 'w) \<Rightarrow> 'w heap \<Rightarrow> nat \<Rightarrow> 'w \<Rightarrow> 'w" where
  "call act st a w = (case cb (the (timers st a)) of None \<Rightarrow> w | Some f \<Rightarrow> act f a w)"

lemma timer_ok_world: "timer_ok B head (st\<lparr>world := w\<rparr>) xs = timer_ok B head st xs"
  by (simp add: timer_ok_def due_def)

lemma process_quiet:
  "timer_ok B head st xs \<Longrightarrow> \<exists>st'. process_loop (\<lambda>f a st. Some (st\<lparr>world := act f a (world st)\<rparr>)) st head tv = Some st'
    \<and> timer_ok B head st' (dropWhile (not_later st tv) xs)
    \<and> world st' = fold (call act st) (takeWhile (not_later st tv) xs) (world st)"
proof (induction xs arbitrary: st)
  case Nil
  then show ?case using process_stop [OF Nil] by auto
next
  case (Cons a ys)
  let ?h = "\<lambda>f a st. Some (st\<lparr>world := act f a (world st)\<rparr>)"
  show ?case
  proof (cases "not_later st tv a")
    case True
    obtain st1 t where t: "timer_ok B head st1 ys" "timers st a = Some t" "timers st1 = (timers st)(a \<mapsto> t\<lparr>pending := False\<rparr>)"
        "world st1 = world st"
      and loop: "process_loop ?h st head tv
        = Option.bind (case cb t of None \<Rightarrow> Some st1 | Some f \<Rightarrow> ?h f a st1) (\<lambda>st. process_loop ?h st head tv)"
      using process_turn [of B head st a ys tv ?h] Cons.prems True by blast
    let ?st2 = "st1\<lparr>world := call act st a (world st)\<rparr>"
    have eq: "st1\<lparr>world := world st\<rparr> = st1" using t(4) [symmetric] by (cases st1) simp
    have step: "process_loop ?h st head tv = process_loop ?h ?st2 head tv"
    proof (cases "cb t")
      case None
      then have "call act st a (world st) = world st" using t(2) by (simp add: call_def)
      then show ?thesis unfolding loop None by (simp only: eq option.case Option.bind.simps)
    qed (use loop t(2,4) in \<open>simp add: call_def\<close>)
    have same: "not_later ?st2 tv = not_later st tv" "call act ?st2 = call act st"
      using t(2,3) by (auto simp: fun_eq_iff not_later_def call_def)
    obtain st' where "process_loop ?h ?st2 head tv = Some st'" "timer_ok B head st' (dropWhile (not_later st tv) ys)"
        "world st' = fold (call act st) (takeWhile (not_later st tv) ys) (call act st a (world st))"
      using Cons.IH [of ?st2] t(1) unfolding same timer_ok_world by auto
    with step True show ?thesis by simp
  next
    case False
    then show ?thesis using process_stop [OF Cons.prems, of tv ?h] Cons.prems by auto
  qed
qed

text \<open>A callback that sets its timer again is one of those \<open>handler_ok\<close> describes.\<close>

lemma rearm_ok:
  assumes w: "window B (add_msecs (event_gettime ts) msecs)" and later: "us tv + 1000 \<le> us (event_gettime ts) + msecs * 1000"
  shows "handler_ok (\<lambda>f a st. map_option snd (event_timeout_set st head a msecs ts)) B head tv"
  unfolding handler_ok_def
proof (intro allI impI)
  fix f a and st :: "'b heap" and xs
  assume "timer_ok B head st xs \<and> a \<in> dom (timers st) \<and> a \<notin> set xs"
  then obtain e where ok: "timer_ok B head st xs" "timers st a = Some e" by blast
  obtain st' xs' where "event_timeout_set st head a msecs ts = Some (0, st')" "timer_ok B head st' xs'" "set xs' = insert a (set xs)"
      and t: "timers st' = (timers st)(a \<mapsto> e\<lparr>pending := True, time := add_msecs (event_gettime ts) msecs\<rparr>)"
    using event_timeout_set_ok [OF ok w] by blast
  moreover have "us tv + 1000 \<le> due st' a" using later t by (simp add: due_def us_add_msecs)
  moreover have "due st' b = due st b" if "b \<noteq> a" for b using t that by (simp add: due_def)
  ultimately show "\<exists>st' xs'. map_option snd (event_timeout_set st head a msecs ts) = Some st' \<and> timer_ok B head st' xs'
      \<and> set xs' \<subseteq> insert a (set xs) \<and> (a \<in> set xs' \<longrightarrow> us tv + 1000 \<le> due st' a) \<and> (\<forall>b\<in>set xs' - {a}. due st' b = due st b)"
    by (intro exI [of _ st'] exI [of _ xs']) auto
qed

section \<open>Runs\<close>

text \<open>The states a program reaches that starts with no timer set and calls the functions in any order.\<close>

inductive timer_run :: "int \<Rightarrow> nat \<Rightarrow> 'w heap \<Rightarrow> bool" for B head where
  start: "dlist (nodes st) head [] \<Longrightarrow>
    \<forall>a t. timers st a = Some t \<longrightarrow> a \<in> dom (nodes st) \<and> a \<noteq> 0 \<and> a \<noteq> head \<and> \<not> pending t \<Longrightarrow> timer_run B head st"
| add: "timer_run B head st \<Longrightarrow> timers st ev = Some e \<Longrightarrow> window B (time e) \<Longrightarrow>
    event_timeout_add st head ev = Some (r, st') \<Longrightarrow> timer_run B head st'"
| set: "timer_run B head st \<Longrightarrow> window B (add_msecs (event_gettime ts) msecs) \<Longrightarrow>
    event_timeout_set st head ev msecs ts = Some (r, st') \<Longrightarrow> timer_run B head st'"
| cancel: "timer_run B head st \<Longrightarrow> event_timeout_cancel st ev = Some (r, st') \<Longrightarrow> timer_run B head st'"
| process: "timer_run B head st \<Longrightarrow> window B tv \<Longrightarrow> handler_ok handler B head tv \<Longrightarrow>
    event_process_timeouts handler st (Some head) tv = Some st' \<Longrightarrow> timer_run B head st'"

lemma event_timeout_add_pending:
  "timer_ok B head st xs \<Longrightarrow> timers st ev = Some e \<Longrightarrow> ev \<in> set xs \<Longrightarrow> event_timeout_add st head ev = Some (-1, st)"
  by (simp add: event_timeout_add_def timer_okD(4))

lemma timer_run_ok: "timer_run B head st \<Longrightarrow> \<exists>xs. timer_ok B head st xs"
proof (induction rule: timer_run.induct)
  case (start st)
  then have "timer_ok B head st []" by (simp add: timer_ok_def)
  then show ?case by blast
next
  case (add st ev e r st')
  then obtain xs where xs: "timer_ok B head st xs" by blast
  then show ?case
    using event_timeout_add_ok [OF xs add(2)] event_timeout_add_pending [OF xs add(2)] timer_okD(4) [OF xs add(2)] add(3,4)
    by (cases "pending e") auto
next
  case (set st ts msecs ev r st')
  then obtain xs e where xs: "timer_ok B head st xs" "timers st ev = Some e"
    by (auto simp: event_timeout_set_def split: Option.bind_splits)
  from event_timeout_set_ok [OF this set(2)] set(3) show ?case by auto
next
  case (cancel st ev r st')
  then obtain xs e where xs: "timer_ok B head st xs" "timers st ev = Some e"
    by (auto simp: event_timeout_cancel_def split: Option.bind_splits)
  then show ?case
    using event_timeout_cancel_remove [OF xs(1), of ev] event_timeout_cancel_idle [OF xs] cancel(2) by (cases "ev \<in> set xs") auto
next
  case (process st tv handler st')
  then obtain xs where "timer_ok B head st xs" by blast
  from process_returns [OF process(3,2) this] process(4) show ?case by (auto simp: event_process_timeouts_def)
qed

section \<open>Properties\<close>

text \<open>
  C34. The timers after any sequence of calls of \<open>event_timeout_add\<close>, \<open>event_timeout_set\<close>, \<open>event_timeout_cancel\<close> and
  \<open>event_process_timeouts\<close>, from a start with no timer set. The list is well formed: circular, made of exactly
  the pending timers, ordered up to a millisecond. For any timer, adding and cancelling return -1 and change
  nothing where the timer is, or is not, in the list, and otherwise do what they say; setting always
  succeeds, replaces an earlier time, and leaves the other timers in their order.
\<close>

theorem timers_invariant:
  assumes "timer_run B head st" "timers st ev = Some e" "window B (time e)" "window B (add_msecs (event_gettime ts) msecs)"
  shows "\<exists>xs. timer_ok B head st xs
    \<and> (if ev \<in> set xs
       then event_timeout_add st head ev = Some (-1, st)
         \<and> (\<exists>st'. event_timeout_cancel st ev = Some (0, st') \<and> timer_ok B head st' (removeAll ev xs))
       else event_timeout_cancel st ev = Some (-1, st)
         \<and> (\<exists>st'. event_timeout_add st head ev = Some (0, st') \<and> timer_ok B head st' (insert_timer st (time e) ev xs)))
    \<and> (\<exists>st' xs'. event_timeout_set st head ev msecs ts = Some (0, st') \<and> timer_ok B head st' xs'
         \<and> set xs' = insert ev (set xs) \<and> removeAll ev xs' = removeAll ev xs
         \<and> timers st' = (timers st)(ev \<mapsto> e\<lparr>pending := True, time := add_msecs (event_gettime ts) msecs\<rparr>))"
proof -
  obtain xs where xs: "timer_ok B head st xs" using timer_run_ok [OF assms(1)] by blast
  note p = timer_okD(4) [OF xs assms(2)]
  have "if ev \<in> set xs
     then event_timeout_add st head ev = Some (-1, st)
       \<and> (\<exists>st'. event_timeout_cancel st ev = Some (0, st') \<and> timer_ok B head st' (removeAll ev xs))
     else event_timeout_cancel st ev = Some (-1, st)
       \<and> (\<exists>st'. event_timeout_add st head ev = Some (0, st') \<and> timer_ok B head st' (insert_timer st (time e) ev xs))"
    using event_timeout_add_pending [OF xs assms(2)] event_timeout_cancel_remove [OF xs, of ev]
      event_timeout_cancel_idle [OF xs assms(2)] event_timeout_add_ok [OF xs assms(2) _ assms(3)] p by auto
  moreover note event_timeout_set_ok [OF xs assms(2,4)]
  ultimately show ?thesis using xs by blast
qed

text \<open>Two idle timers at the addresses 2 and 3, the head at 1.\<close>

definition demo_timer :: event_timeout where
  "demo_timer = \<lparr>pending = False, cb = Some 7, time = \<lparr>tv_sec = 5, tv_usec = 0\<rparr>\<rparr>"

definition demo_timers :: "nat list heap" where
  "demo_timers = \<lparr>nodes = [1 \<mapsto> \<lparr>nxt = 1, prv = 1\<rparr>, 2 \<mapsto> \<lparr>nxt = 0, prv = 0\<rparr>, 3 \<mapsto> \<lparr>nxt = 0, prv = 0\<rparr>],
     timers = [2 \<mapsto> demo_timer, 3 \<mapsto> demo_timer], world = []\<rparr>"

lemma demo_timers_run: "timer_run 0 1 demo_timers"
  by (rule timer_run.start) (auto simp: demo_timers_def demo_timer_def dlist_def links_def N_def P_def)

lemma demo_window: "window 0 (add_msecs (event_gettime (5, 900000000)) 1500)"
  unfolding window_def us_add_msecs by (simp add: event_gettime_def us_def)

theorem timers_invariant_witness:
  "\<exists>xs. timer_ok 0 1 demo_timers xs
    \<and> (if 2 \<in> set xs
       then event_timeout_add demo_timers 1 2 = Some (-1, demo_timers)
         \<and> (\<exists>st'. event_timeout_cancel demo_timers 2 = Some (0, st') \<and> timer_ok 0 1 st' (removeAll 2 xs))
       else event_timeout_cancel demo_timers 2 = Some (-1, demo_timers)
         \<and> (\<exists>st'. event_timeout_add demo_timers 1 2 = Some (0, st') \<and> timer_ok 0 1 st' (insert_timer demo_timers (time demo_timer) 2 xs)))
    \<and> (\<exists>st' xs'. event_timeout_set demo_timers 1 2 1500 (5, 900000000) = Some (0, st') \<and> timer_ok 0 1 st' xs'
         \<and> set xs' = insert 2 (set xs) \<and> removeAll 2 xs' = removeAll 2 xs
         \<and> timers st' = (timers demo_timers)(2 \<mapsto> demo_timer\<lparr>pending := True, time := add_msecs (event_gettime (5, 900000000)) 1500\<rparr>))"
  by (rule timers_invariant [OF demo_timers_run _ _ demo_window]) (simp_all add: demo_timers_def demo_timer_def window_def us_def)

text \<open>
  Timers fire. With callbacks that work on their own data only, \<open>event_process_timeouts\<close> returns and has called
  exactly the callbacks of the timers at the front of the list that are not later than \<open>tv\<close>, once each and in
  order, and taken these timers out.
\<close>

theorem timers_fire:
  assumes "timer_ok B head st xs"
  shows "\<exists>st'. event_process_timeouts (\<lambda>f a st. Some (st\<lparr>world := act f a (world st)\<rparr>)) st (Some head) tv = Some st'
    \<and> timer_ok B head st' (dropWhile (not_later st tv) xs)
    \<and> world st' = fold (call act st) (takeWhile (not_later st tv) xs) (world st)"
  using process_quiet [OF assms, of act tv] by (simp add: event_process_timeouts_def)

text \<open>The timers at 2 and 3 are set, the first one to a time 2.5 seconds earlier.\<close>

definition demo_set :: "nat list heap" where
  "demo_set = \<lparr>nodes = [1 \<mapsto> \<lparr>nxt = 2, prv = 3\<rparr>, 2 \<mapsto> \<lparr>nxt = 3, prv = 1\<rparr>, 3 \<mapsto> \<lparr>nxt = 1, prv = 2\<rparr>],
     timers = [2 \<mapsto> demo_timer\<lparr>pending := True, time := \<lparr>tv_sec = 2, tv_usec = 500000\<rparr>\<rparr>, 3 \<mapsto> demo_timer\<lparr>pending := True\<rparr>], world = []\<rparr>"

lemma demo_set_ok: "timer_ok 0 1 demo_set [2, 3]"
  by (simp add: timer_ok_def demo_set_def demo_timer_def dlist_def links_def N_def P_def window_def us_def due_def)

theorem timers_fire_witness:
  "\<exists>st'. event_process_timeouts (\<lambda>f a st. Some (st\<lparr>world := ((#)) f (world st)\<rparr>)) demo_set (Some 1) \<lparr>tv_sec = 3, tv_usec = 0\<rparr> = Some st'
    \<and> timer_ok 0 1 st' (dropWhile (not_later demo_set \<lparr>tv_sec = 3, tv_usec = 0\<rparr>) [2, 3])
    \<and> world st' = fold (call (\<lambda>f a. (#) f) demo_set) (takeWhile (not_later demo_set \<lparr>tv_sec = 3, tv_usec = 0\<rparr>) [2, 3]) (world demo_set)"
  by (rule timers_fire [OF demo_set_ok])

text \<open>
  C35. Timers fire, and none is left behind. For callbacks that may also cancel timers and set their own again,
  to a time at least a millisecond ahead, \<open>event_process_timeouts\<close> returns. The callback of every timer in the
  list due a millisecond or more before \<open>tv\<close> has been called, unless another callback that was called
  cancelled it; no timer has been called twice, none that is not in the list, none due a millisecond or more
  after \<open>tv\<close>, and each with its own callback. Every timer still in the list is due later than a
  millisecond before \<open>tv\<close>.
\<close>

theorem timers_liveness:
  assumes "timer_ok B head st xs" "handler_ok handler B head tv" "window B tv" "recorded calls handler"
  shows "\<exists>st' xs' cs. event_process_timeouts handler st (Some head) tv = Some st' \<and> timer_ok B head st' xs'
    \<and> filter (\<lambda>a. due st' a \<le> us tv - 1000) xs' = [] \<and> calls (world st') = calls (world st) @ cs \<and> distinct (map snd cs)
    \<and> (\<forall>(f, a)\<in>set cs. a \<in> set xs \<and> cb (the (timers st a)) = Some f \<and> due st a < us tv + 1000)
    \<and> (\<forall>a\<in>set xs. due st a \<le> us tv - 1000 \<longrightarrow> (\<forall>f. cb (the (timers st a)) = Some f \<longrightarrow>
         (f, a) \<in> set cs \<or> cancelled handler cs a))"
proof -
  obtain st' xs' where "process_loop handler st head tv = Some st'" "timer_ok B head st' xs'" "\<forall>a\<in>set xs'. us tv - 1000 < due st' a"
    using process_returns [OF assms(2,3,1)] by blast
  moreover from process_calls [OF assms(2-4,1) this(1)] obtain cs where
    "calls (world st') = calls (world st) @ cs" "called_right handler tv st xs cs" by blast
  ultimately show ?thesis
    unfolding called_right_def event_process_timeouts_def filter_empty_conv by force
qed

text \<open>The callback sets its timer again and notes that it was called.\<close>

definition rearm :: "(nat \<times> nat) list handler" where
  "rearm f a st = map_option (\<lambda>(r, st). st\<lparr>world := world st @ [(f, a)]\<rparr>) (event_timeout_set st 1 a 5 (6, 0))"

definition demo_calls :: "(nat \<times> nat) list heap" where
  "demo_calls = \<lparr>nodes = nodes demo_set, timers = timers demo_set, world = []\<rparr>"

lemma demo_calls_ok: "timer_ok 0 1 demo_calls [2, 3]"
  using demo_set_ok by (simp add: timer_ok_def demo_calls_def due_def)

lemma rearm_handler: "handler_ok rearm 0 1 \<lparr>tv_sec = 6, tv_usec = 0\<rparr>"
  unfolding handler_ok_def
proof (intro allI impI)
  fix f a and st :: "(nat \<times> nat) list heap" and xs
  assume ok: "timer_ok 0 1 st xs \<and> a \<in> dom (timers st) \<and> a \<notin> set xs"
  have "handler_ok (\<lambda>f a st. map_option snd (event_timeout_set st 1 a 5 (6, 0))) 0 1 \<lparr>tv_sec = 6, tv_usec = 0\<rparr>"
    by (rule rearm_ok; simp add: window_def us_add_msecs; simp add: event_gettime_def us_def)
  from this [unfolded handler_ok_def, rule_format, OF ok]
  obtain r st' xs' where s: "event_timeout_set st 1 a 5 (6, 0) = Some (r, st')" "timer_ok 0 1 st' xs'" "set xs' \<subseteq> insert a (set xs)"
    "a \<in> set xs' \<longrightarrow> us \<lparr>tv_sec = 6, tv_usec = 0\<rparr> + 1000 \<le> due st' a" "\<forall>b\<in>set xs' - {a}. due st' b = due st b"
    by auto
  let ?st = "st'\<lparr>world := world st' @ [(f, a)]\<rparr>"
  have "due ?st = due st'" by (auto simp: due_def fun_eq_iff)
  with s show "\<exists>st' xs'. rearm f a st = Some st' \<and> timer_ok 0 1 st' xs' \<and> set xs' \<subseteq> insert a (set xs)
      \<and> (a \<in> set xs' \<longrightarrow> us \<lparr>tv_sec = 6, tv_usec = 0\<rparr> + 1000 \<le> due st' a) \<and> (\<forall>b\<in>set xs' - {a}. due st' b = due st b)"
    by (intro exI [of _ ?st] exI [of _ xs']) (auto simp: rearm_def timer_ok_world)
qed

lemma event_timeout_set_keeps:
  assumes "event_timeout_set st head a msecs ts = Some (r, st')"
  shows "world st' = world st \<and> (\<forall>b. b \<noteq> a \<longrightarrow> timers st' b = timers st b)"
  using assms
  by (auto simp: event_timeout_set_def event_timeout_add_def event_timeout_cancel_def Let_def put_timer_def
      split: if_splits Option.bind_splits)

lemma rearm_recorded: "recorded id rearm"
  using event_timeout_set_keeps by (fastforce simp: recorded_def rearm_def)

lemma event_timeout_set_pending:
  "event_timeout_set st head a msecs ts = Some (r, st') \<Longrightarrow> map_option pending (timers st' a) = Some True"
  by (auto simp: event_timeout_set_def event_timeout_add_def event_timeout_cancel_def Let_def put_timer_def
      split: if_splits Option.bind_splits)

lemma rearm_never_cancels: "\<not> cancelled rearm cs a"
proof
  assume "cancelled rearm cs a"
  then obtain g b s s' where c: "rearm g b s = Some s'" "map_option pending (timers s a) = Some True"
      "map_option pending (timers s' a) = Some False"
    unfolding cancelled_def by blast
  then obtain r s1 where s1: "event_timeout_set s 1 b 5 (6, 0) = Some (r, s1)" "timers s' = timers s1"
    by (auto simp: rearm_def)
  show False
    using c event_timeout_set_keeps [OF s1(1)] event_timeout_set_pending [OF s1(1)] unfolding s1(2)
    by (cases "a = b") auto
qed

theorem timers_liveness_witness:
  "\<exists>st' xs' cs. event_process_timeouts rearm demo_calls (Some 1) \<lparr>tv_sec = 6, tv_usec = 0\<rparr> = Some st' \<and> timer_ok 0 1 st' xs'
    \<and> world st' = cs \<and> distinct (map snd cs) \<and> (7, 2) \<in> set cs \<and> (7, 3) \<in> set cs"
proof -
  have "window 0 \<lparr>tv_sec = 6, tv_usec = 0\<rparr>" by (simp add: window_def us_def)
  from timers_liveness [OF demo_calls_ok rearm_handler this rearm_recorded] obtain st' xs' cs where
    r: "event_process_timeouts rearm demo_calls (Some 1) \<lparr>tv_sec = 6, tv_usec = 0\<rparr> = Some st'" "timer_ok 0 1 st' xs'"
      "id (world st') = id (world demo_calls) @ cs" "distinct (map snd cs)"
      and all: "\<forall>a\<in>set [2, 3]. due demo_calls a \<le> us \<lparr>tv_sec = 6, tv_usec = 0\<rparr> - 1000 \<longrightarrow>
        (\<forall>f. cb (the (timers demo_calls a)) = Some f \<longrightarrow> (f, a) \<in> set cs \<or> cancelled rearm cs a)"
    by blast
  have "due demo_calls 2 \<le> us \<lparr>tv_sec = 6, tv_usec = 0\<rparr> - 1000" "due demo_calls 3 \<le> us \<lparr>tv_sec = 6, tv_usec = 0\<rparr> - 1000"
    "cb (the (timers demo_calls 2)) = Some 7" "cb (the (timers demo_calls 3)) = Some 7" "world demo_calls = []"
    by (simp_all add: due_def demo_calls_def demo_set_def demo_timer_def us_def)
  with r all rearm_never_cancels show ?thesis by auto
qed

text \<open>
  How long to wait. \<open>event_get_next_timeout\<close> answers -1 without timers; otherwise a number of milliseconds, and
  waiting that long, if it is not 0, makes no timer late by two milliseconds or more.
\<close>

theorem next_timeout_bounds:
  assumes "timer_ok B head st xs" "window B tv"
  shows "\<exists>r. event_get_next_timeout st (Some head) tv = Some r \<and> event_get_next_timeout st None tv = Some (-1)
    \<and> (if xs = [] then r = -1 else 0 \<le> r \<and> (r = 0 \<or> filter (\<lambda>a. due st a + 2000 \<le> us tv + 1000 * r) xs = []))"
proof (cases xs)
  case Nil
  then show ?thesis using empty_dlist [OF timer_okD(1) [OF assms(1)]] by (simp add: event_get_next_timeout_def)
next
  case (Cons z zs)
  obtain h where h: "nodes st head = Some h" "nxt h = z" using first_node [OF timer_okD(1) [OF assms(1)]] Cons by auto
  obtain t where t: "timers st z = Some t" "window B (time t)" using timer_okD(5) [OF assms(1), of z] Cons by auto
  let ?d = "tv_diff (time t) tv"
  have r: "event_get_next_timeout st (Some head) tv = Some (if ?d < 0 then 0 else ?d)"
    using empty_dlist [OF timer_okD(1) [OF assms(1)]] Cons h t(1) by (simp add: event_get_next_timeout_def)
  have "1000 * ?d < due st z - us tv + 1000" using tv_diff_upper [OF t(2) assms(2)] t(1) by (simp add: due_def)
  moreover have "due st z < due st a + 1000" if "a \<in> set xs" for a
    using timer_okD(6) [OF assms(1)] that Cons by auto
  ultimately have "\<not> due st a + 2000 \<le> us tv + 1000 * ?d" if "a \<in> set xs" for a using that by fastforce
  with r Cons show ?thesis by (auto simp: event_get_next_timeout_def filter_empty_conv)
qed

theorem next_timeout_bounds_witness:
  "\<exists>r. event_get_next_timeout demo_set (Some 1) \<lparr>tv_sec = 2, tv_usec = 0\<rparr> = Some r \<and> event_get_next_timeout demo_set None \<lparr>tv_sec = 2, tv_usec = 0\<rparr> = Some (-1)
    \<and> (if [2, 3 :: nat] = [] then r = -1
       else 0 \<le> r \<and> (r = 0 \<or> filter (\<lambda>a. due demo_set a + 2000 \<le> us \<lparr>tv_sec = 2, tv_usec = 0\<rparr> + 1000 * r) [2, 3] = []))"
  by (rule next_timeout_bounds [OF demo_set_ok]) (simp add: window_def us_def)

end
