(* ===== verification/RbTree.thy ===== *)
theory RbTree
  imports Prelude
begin

text \<open>
  The red-black trees of \<open>fun_struct/rbtree.c\<close> and \<open>rbtree.h\<close>, on the level of their pointers: nodes
  are found by their 64-bit addresses, and \<open>rb_parent_color\<close> packs the address of the parent and the
  colour into one word. A heap holds at most one node at an address; an access through \<open>NULL\<close> or to an
  address without a node is \<^term>\<open>None\<close>, and so is a loop that does not end.
\<close>

section \<open>Nodes\<close>

record rb_node =
  rb_parent_color :: u64
  rb_right :: u64
  rb_left :: u64

text \<open>The nodes of the heap, and the pointer in the \<open>struct rb_root\<close> the operations are given.\<close>

record rb_state =
  nodes :: "u64 \<Rightarrow> rb_node option"
  rb_root :: u64

definition rb_parent :: "rb_node \<Rightarrow> u64" where
  "rb_parent r = rb_parent_color r AND NOT 3"

definition rb_color :: "rb_node \<Rightarrow> u64" where
  "rb_color r = rb_parent_color r AND 1"

definition rb_is_red :: "rb_node \<Rightarrow> bool" where
  "rb_is_red r \<longleftrightarrow> rb_color r = 0"

definition rb_is_black :: "rb_node \<Rightarrow> bool" where
  "rb_is_black r \<longleftrightarrow> rb_color r \<noteq> 0"

definition update_node :: "rb_state \<Rightarrow> u64 \<Rightarrow> (rb_node \<Rightarrow> rb_node) \<Rightarrow> rb_state option" where
  "update_node s a f = do { n \<leftarrow> nodes s a; Some (s\<lparr>nodes := (nodes s)(a \<mapsto> f n)\<rparr>) }"

definition rb_set_red :: "rb_state \<Rightarrow> u64 \<Rightarrow> rb_state option" where
  "rb_set_red s a = update_node s a (\<lambda>n. n\<lparr>rb_parent_color := rb_parent_color n AND NOT 1\<rparr>)"

definition rb_set_black :: "rb_state \<Rightarrow> u64 \<Rightarrow> rb_state option" where
  "rb_set_black s a = update_node s a (\<lambda>n. n\<lparr>rb_parent_color := rb_parent_color n OR 1\<rparr>)"

definition rb_set_parent :: "rb_state \<Rightarrow> u64 \<Rightarrow> u64 \<Rightarrow> rb_state option" where
  "rb_set_parent s a p = update_node s a (\<lambda>n. n\<lparr>rb_parent_color := rb_parent_color n AND 3 OR p\<rparr>)"

definition rb_set_color :: "rb_state \<Rightarrow> u64 \<Rightarrow> u64 \<Rightarrow> rb_state option" where
  "rb_set_color s a c = update_node s a (\<lambda>n. n\<lparr>rb_parent_color := rb_parent_color n AND NOT 1 OR c\<rparr>)"

definition put_left :: "rb_state \<Rightarrow> u64 \<Rightarrow> u64 \<Rightarrow> rb_state option" where
  "put_left s a v = update_node s a (\<lambda>n. n\<lparr>rb_left := v\<rparr>)"

definition put_right :: "rb_state \<Rightarrow> u64 \<Rightarrow> u64 \<Rightarrow> rb_state option" where
  "put_right s a v = update_node s a (\<lambda>n. n\<lparr>rb_right := v\<rparr>)"

definition rb_init_node :: "rb_state \<Rightarrow> u64 \<Rightarrow> rb_state option" where
  "rb_init_node s a = do {
     s \<leftarrow> update_node s a (\<lambda>n. \<lparr>rb_parent_color = 0, rb_right = 0, rb_left = 0\<rparr>);
     rb_set_parent s a a }"

text \<open>The \<open>struct rb_node **\<close> of \<open>rb_link_node\<close>: the root, or a child field of a node.\<close>

datatype rb_link = Root_link | Left_link u64 | Right_link u64

definition get_link :: "rb_state \<Rightarrow> rb_link \<Rightarrow> u64 option" where
  "get_link s l = (case l of
     Root_link \<Rightarrow> Some (rb_root s)
   | Left_link a \<Rightarrow> map_option rb_left (nodes s a)
   | Right_link a \<Rightarrow> map_option rb_right (nodes s a))"

definition put_link :: "rb_state \<Rightarrow> rb_link \<Rightarrow> u64 \<Rightarrow> rb_state option" where
  "put_link s l v = (case l of
     Root_link \<Rightarrow> Some (s\<lparr>rb_root := v\<rparr>)
   | Left_link a \<Rightarrow> put_left s a v
   | Right_link a \<Rightarrow> put_right s a v)"

definition rb_link_node :: "rb_state \<Rightarrow> u64 \<Rightarrow> u64 \<Rightarrow> rb_link \<Rightarrow> rb_state option" where
  "rb_link_node s node parent link = do {
     s \<leftarrow> update_node s node (\<lambda>n. \<lparr>rb_parent_color = parent, rb_right = 0, rb_left = 0\<rparr>);
     put_link s link node }"

section \<open>Rotations\<close>

definition rb_rotate_left :: "rb_state \<Rightarrow> u64 \<Rightarrow> rb_state option" where
  "rb_rotate_left s node = do {
     n \<leftarrow> nodes s node;
     let right = rb_right n;
     let parent = rb_parent n;
     r \<leftarrow> nodes s right;
     let v = rb_left r;
     s \<leftarrow> put_right s node v;
     s \<leftarrow> (if v \<noteq> 0 then do { r \<leftarrow> nodes s right; rb_set_parent s (rb_left r) node } else Some s);
     s \<leftarrow> put_left s right node;
     s \<leftarrow> rb_set_parent s right parent;
     s \<leftarrow> (if parent \<noteq> 0 then do {
               p \<leftarrow> nodes s parent;
               if node = rb_left p then put_left s parent right else put_right s parent right }
           else Some (s\<lparr>rb_root := right\<rparr>));
     rb_set_parent s node right }"

definition rb_rotate_right :: "rb_state \<Rightarrow> u64 \<Rightarrow> rb_state option" where
  "rb_rotate_right s node = do {
     n \<leftarrow> nodes s node;
     let left = rb_left n;
     let parent = rb_parent n;
     l \<leftarrow> nodes s left;
     let v = rb_right l;
     s \<leftarrow> put_left s node v;
     s \<leftarrow> (if v \<noteq> 0 then do { l \<leftarrow> nodes s left; rb_set_parent s (rb_right l) node } else Some s);
     s \<leftarrow> put_right s left node;
     s \<leftarrow> rb_set_parent s left parent;
     s \<leftarrow> (if parent \<noteq> 0 then do {
               p \<leftarrow> nodes s parent;
               if node = rb_right p then put_right s parent left else put_left s parent left }
           else Some (s\<lparr>rb_root := left\<rparr>));
     rb_set_parent s node left }"

section \<open>Insertion\<close>

text \<open>A pointer is tested and then the colour behind it.\<close>

definition red_node :: "rb_state \<Rightarrow> u64 \<Rightarrow> bool option" where
  "red_node s a = (if a \<noteq> 0 then map_option rb_is_red (nodes s a) else Some False)"

definition black_or_null :: "rb_state \<Rightarrow> u64 \<Rightarrow> bool option" where
  "black_or_null s a = (if a = 0 then Some True else map_option rb_is_black (nodes s a))"

text \<open>A turn of the loop of \<open>rb_insert_color\<close>; the result is the value of \<open>node\<close> afterwards.\<close>

definition insert_turn :: "rb_state \<Rightarrow> u64 \<Rightarrow> u64 \<Rightarrow> (u64 \<times> rb_state) option" where
  "insert_turn s node parent = do {
     p \<leftarrow> nodes s parent;
     let gparent = rb_parent p;
     g \<leftarrow> nodes s gparent;
     if parent = rb_left g then do {
       let uncle = rb_right g;
       red \<leftarrow> red_node s uncle;
       if red then do {
         s \<leftarrow> rb_set_black s uncle;
         s \<leftarrow> rb_set_black s parent;
         s \<leftarrow> rb_set_red s gparent;
         Some (gparent, s) }
       else do {
         p \<leftarrow> nodes s parent;
         (node, parent, s) \<leftarrow> (if rb_right p = node then do {
               s \<leftarrow> rb_rotate_left s parent;
               Some (parent, node, s) }
             else Some (node, parent, s));
         s \<leftarrow> rb_set_black s parent;
         s \<leftarrow> rb_set_red s gparent;
         s \<leftarrow> rb_rotate_right s gparent;
         Some (node, s) } }
     else do {
       let uncle = rb_left g;
       red \<leftarrow> red_node s uncle;
       if red then do {
         s \<leftarrow> rb_set_black s uncle;
         s \<leftarrow> rb_set_black s parent;
         s \<leftarrow> rb_set_red s gparent;
         Some (gparent, s) }
       else do {
         p \<leftarrow> nodes s parent;
         (node, parent, s) \<leftarrow> (if rb_left p = node then do {
               s \<leftarrow> rb_rotate_right s parent;
               Some (parent, node, s) }
             else Some (node, parent, s));
         s \<leftarrow> rb_set_black s parent;
         s \<leftarrow> rb_set_red s gparent;
         s \<leftarrow> rb_rotate_left s gparent;
         Some (node, s) } } }"

partial_function (option) insert_loop :: "rb_state \<Rightarrow> u64 \<Rightarrow> rb_state option" where
  "insert_loop s node = do {
     n \<leftarrow> nodes s node;
     let parent = rb_parent n;
     red \<leftarrow> red_node s parent;
     if red then do {
       (node, s) \<leftarrow> insert_turn s node parent;
       insert_loop s node }
     else Some s }"

definition rb_insert_color :: "rb_state \<Rightarrow> u64 \<Rightarrow> rb_state option" where
  "rb_insert_color s node = do {
     s \<leftarrow> insert_loop s node;
     rb_set_black s (rb_root s) }"

section \<open>Removal\<close>

text \<open>
  A turn of the loop of \<open>rb_erase_color\<close>: \<open>node\<close> and \<open>parent\<close> afterwards, and whether the loop was left.
\<close>

definition erase_turn :: "rb_state \<Rightarrow> u64 \<Rightarrow> u64 \<Rightarrow> (bool \<times> u64 \<times> u64 \<times> rb_state) option" where
  "erase_turn s node parent = do {
     p \<leftarrow> nodes s parent;
     if rb_left p = node then do {
       let other = rb_right p;
       n \<leftarrow> nodes s other;
       (other, s) \<leftarrow> (if rb_is_red n then do {
             s \<leftarrow> rb_set_black s other;
             s \<leftarrow> rb_set_red s parent;
             s \<leftarrow> rb_rotate_left s parent;
             p \<leftarrow> nodes s parent;
             Some (rb_right p, s) }
           else Some (other, s));
       n \<leftarrow> nodes s other;
       bl \<leftarrow> black_or_null s (rb_left n);
       br \<leftarrow> black_or_null s (rb_right n);
       if bl \<and> br then do {
         s \<leftarrow> rb_set_red s other;
         p \<leftarrow> nodes s parent;
         Some (False, parent, rb_parent p, s) }
       else do {
         (other, s) \<leftarrow> (if br then do {
               s \<leftarrow> rb_set_black s (rb_left n);
               s \<leftarrow> rb_set_red s other;
               s \<leftarrow> rb_rotate_right s other;
               p \<leftarrow> nodes s parent;
               Some (rb_right p, s) }
             else Some (other, s));
         p \<leftarrow> nodes s parent;
         s \<leftarrow> rb_set_color s other (rb_color p);
         s \<leftarrow> rb_set_black s parent;
         n \<leftarrow> nodes s other;
         s \<leftarrow> rb_set_black s (rb_right n);
         s \<leftarrow> rb_rotate_left s parent;
         Some (True, rb_root s, parent, s) } }
     else do {
       let other = rb_left p;
       n \<leftarrow> nodes s other;
       (other, s) \<leftarrow> (if rb_is_red n then do {
             s \<leftarrow> rb_set_black s other;
             s \<leftarrow> rb_set_red s parent;
             s \<leftarrow> rb_rotate_right s parent;
             p \<leftarrow> nodes s parent;
             Some (rb_left p, s) }
           else Some (other, s));
       n \<leftarrow> nodes s other;
       bl \<leftarrow> black_or_null s (rb_left n);
       br \<leftarrow> (if bl then black_or_null s (rb_right n) else Some False);
       if bl \<and> br then do {
         s \<leftarrow> rb_set_red s other;
         p \<leftarrow> nodes s parent;
         Some (False, parent, rb_parent p, s) }
       else do {
         (other, s) \<leftarrow> (if bl then do {
               s \<leftarrow> rb_set_black s (rb_right n);
               s \<leftarrow> rb_set_red s other;
               s \<leftarrow> rb_rotate_left s other;
               p \<leftarrow> nodes s parent;
               Some (rb_left p, s) }
             else Some (other, s));
         p \<leftarrow> nodes s parent;
         s \<leftarrow> rb_set_color s other (rb_color p);
         s \<leftarrow> rb_set_black s parent;
         n \<leftarrow> nodes s other;
         s \<leftarrow> rb_set_black s (rb_left n);
         s \<leftarrow> rb_rotate_right s parent;
         Some (True, rb_root s, parent, s) } } }"

partial_function (option) erase_loop :: "rb_state \<Rightarrow> u64 \<Rightarrow> u64 \<Rightarrow> (u64 \<times> rb_state) option" where
  "erase_loop s node parent = do {
     b \<leftarrow> black_or_null s node;
     if b \<and> node \<noteq> rb_root s then do {
       (left, node, parent, s) \<leftarrow> erase_turn s node parent;
       if left then Some (node, s) else erase_loop s node parent }
     else Some (node, s) }"

definition rb_erase_color :: "rb_state \<Rightarrow> u64 \<Rightarrow> u64 \<Rightarrow> rb_state option" where
  "rb_erase_color s node parent = do {
     (node, s) \<leftarrow> erase_loop s node parent;
     if node \<noteq> 0 then rb_set_black s node else Some s }"

text \<open>The descent to the leftmost and to the rightmost node below a node.\<close>

partial_function (option) go_left :: "rb_state \<Rightarrow> u64 \<Rightarrow> u64 option" where
  "go_left s a = do {
     n \<leftarrow> nodes s a;
     if rb_left n \<noteq> 0 then go_left s (rb_left n) else Some a }"

partial_function (option) go_right :: "rb_state \<Rightarrow> u64 \<Rightarrow> u64 option" where
  "go_right s a = do {
     n \<leftarrow> nodes s a;
     if rb_right n \<noteq> 0 then go_right s (rb_right n) else Some a }"

text \<open>A node with two children: its successor takes its place. The result is the child, the parent
  and the colour with which the function goes on.\<close>

definition erase_inner :: "rb_state \<Rightarrow> u64 \<Rightarrow> (u64 \<times> u64 \<times> u64 \<times> rb_state) option" where
  "erase_inner s old = do {
     n \<leftarrow> nodes s old;
     node \<leftarrow> go_left s (rb_right n);
     let up = rb_parent n;
     s \<leftarrow> (if up \<noteq> 0 then do {
             p \<leftarrow> nodes s up;
             if rb_left p = old then put_left s up node else put_right s up node }
           else Some (s\<lparr>rb_root := node\<rparr>));
     n \<leftarrow> nodes s node;
     let child = rb_right n;
     let parent = rb_parent n;
     let color = rb_color n;
     (parent, s) \<leftarrow> (if parent = old then Some (node, s)
       else do {
         s \<leftarrow> (if child \<noteq> 0 then rb_set_parent s child parent else Some s);
         s \<leftarrow> put_left s parent child;
         od \<leftarrow> nodes s old;
         s \<leftarrow> put_right s node (rb_right od);
         s \<leftarrow> rb_set_parent s (rb_right od) node;
         Some (parent, s) });
     od \<leftarrow> nodes s old;
     s \<leftarrow> update_node s node (\<lambda>n. n\<lparr>rb_parent_color := rb_parent_color od\<rparr>);
     s \<leftarrow> put_left s node (rb_left od);
     s \<leftarrow> rb_set_parent s (rb_left od) node;
     Some (child, parent, color, s) }"

text \<open>A node with at most one child, which takes its place.\<close>

definition erase_outer :: "rb_state \<Rightarrow> u64 \<Rightarrow> u64 \<Rightarrow> (u64 \<times> u64 \<times> u64 \<times> rb_state) option" where
  "erase_outer s node child = do {
     n \<leftarrow> nodes s node;
     let parent = rb_parent n;
     let color = rb_color n;
     s \<leftarrow> (if child \<noteq> 0 then rb_set_parent s child parent else Some s);
     s \<leftarrow> (if parent \<noteq> 0 then do {
             p \<leftarrow> nodes s parent;
             if rb_left p = node then put_left s parent child else put_right s parent child }
           else Some (s\<lparr>rb_root := child\<rparr>));
     Some (child, parent, color, s) }"

definition rb_erase :: "rb_state \<Rightarrow> u64 \<Rightarrow> rb_state option" where
  "rb_erase s node = do {
     n \<leftarrow> nodes s node;
     (child, parent, color, s) \<leftarrow>
       (if rb_left n = 0 then erase_outer s node (rb_right n)
        else if rb_right n = 0 then erase_outer s node (rb_left n)
        else erase_inner s node);
     if color = 1 then rb_erase_color s child parent else Some s }"

section \<open>Walking through the tree, and replacing a node\<close>

definition rb_first :: "rb_state \<Rightarrow> u64 option" where
  "rb_first s = (if rb_root s = 0 then Some 0 else go_left s (rb_root s))"

definition rb_last :: "rb_state \<Rightarrow> u64 option" where
  "rb_last s = (if rb_root s = 0 then Some 0 else go_right s (rb_root s))"

partial_function (option) climb_right :: "rb_state \<Rightarrow> u64 \<Rightarrow> u64 option" where
  "climb_right s a = do {
     n \<leftarrow> nodes s a;
     let parent = rb_parent n;
     if parent = 0 then Some 0
     else do {
       p \<leftarrow> nodes s parent;
       if a = rb_right p then climb_right s parent else Some parent } }"

partial_function (option) climb_left :: "rb_state \<Rightarrow> u64 \<Rightarrow> u64 option" where
  "climb_left s a = do {
     n \<leftarrow> nodes s a;
     let parent = rb_parent n;
     if parent = 0 then Some 0
     else do {
       p \<leftarrow> nodes s parent;
       if a = rb_left p then climb_left s parent else Some parent } }"

definition rb_next :: "rb_state \<Rightarrow> u64 \<Rightarrow> u64 option" where
  "rb_next s node = do {
     n \<leftarrow> nodes s node;
     if rb_parent n = node then Some 0
     else if rb_right n \<noteq> 0 then go_left s (rb_right n)
     else climb_right s node }"

definition rb_prev :: "rb_state \<Rightarrow> u64 \<Rightarrow> u64 option" where
  "rb_prev s node = do {
     n \<leftarrow> nodes s node;
     if rb_parent n = node then Some 0
     else if rb_left n \<noteq> 0 then go_right s (rb_left n)
     else climb_left s node }"

definition rb_replace_node :: "rb_state \<Rightarrow> u64 \<Rightarrow> u64 \<Rightarrow> rb_state option" where
  "rb_replace_node s victim new = do {
     v \<leftarrow> nodes s victim;
     let parent = rb_parent v;
     s \<leftarrow> (if parent \<noteq> 0 then do {
             p \<leftarrow> nodes s parent;
             if victim = rb_left p then put_left s parent new else put_right s parent new }
           else Some (s\<lparr>rb_root := new\<rparr>));
     v \<leftarrow> nodes s victim;
     s \<leftarrow> (if rb_left v \<noteq> 0 then rb_set_parent s (rb_left v) new else Some s);
     v \<leftarrow> nodes s victim;
     s \<leftarrow> (if rb_right v \<noteq> 0 then rb_set_parent s (rb_right v) new else Some s);
     v \<leftarrow> nodes s victim;
     update_node s new (\<lambda>_. v) }"

section \<open>Augmented trees\<close>

text \<open>The function of the user works on data of its own, \<open>'d\<close>, and does not change the links.\<close>

partial_function (option) rb_augment_path ::
    "(u64 \<Rightarrow> 'd \<Rightarrow> 'd) \<Rightarrow> rb_state \<Rightarrow> u64 \<Rightarrow> 'd \<Rightarrow> 'd option" where
  "rb_augment_path func s node data = do {
     let data = func node data;
     n \<leftarrow> nodes s node;
     let parent = rb_parent n;
     if parent = 0 then Some data
     else do {
       p \<leftarrow> nodes s parent;
       let data = (if node = rb_left p \<and> rb_right p \<noteq> 0 then func (rb_right p) data
                   else if rb_left p \<noteq> 0 then func (rb_left p) data else data);
       rb_augment_path func s parent data } }"

definition rb_augment_insert :: "(u64 \<Rightarrow> 'd \<Rightarrow> 'd) \<Rightarrow> rb_state \<Rightarrow> u64 \<Rightarrow> 'd \<Rightarrow> 'd option" where
  "rb_augment_insert func s node data = do {
     n \<leftarrow> nodes s node;
     let node = (if rb_left n \<noteq> 0 then rb_left n else if rb_right n \<noteq> 0 then rb_right n else node);
     rb_augment_path func s node data }"

definition rb_augment_erase_begin :: "rb_state \<Rightarrow> u64 \<Rightarrow> u64 option" where
  "rb_augment_erase_begin s node = do {
     n \<leftarrow> nodes s node;
     if rb_right n = 0 \<and> rb_left n = 0 then Some (rb_parent n)
     else if rb_right n = 0 then Some (rb_left n)
     else if rb_left n = 0 then Some (rb_right n)
     else do {
       deepest \<leftarrow> rb_next s node;
       d \<leftarrow> nodes s deepest;
       if rb_right d \<noteq> 0 then Some (rb_right d)
       else if rb_parent d \<noteq> node then Some (rb_parent d)
       else Some deepest } }"

definition rb_augment_erase_end :: "(u64 \<Rightarrow> 'd \<Rightarrow> 'd) \<Rightarrow> rb_state \<Rightarrow> u64 \<Rightarrow> 'd \<Rightarrow> 'd option" where
  "rb_augment_erase_end func s node data =
     (if node \<noteq> 0 then rb_augment_path func s node data else Some data)"

end
