(* ===== verification/RbHeap.thy ===== *)
theory RbHeap
  imports RbTree
begin

text \<open>
  Trees in the heap of \<open>RbTree\<close>. The predicate \<open>heap_holds\<close> says that a state contains a given tree,
  with all child pointers, parents and colours, and that the nodes outside the tree are those of a given
  heap. A place in a tree is the list of steps from it up to the root (\<open>plug\<close> puts a subtree there), so
  that an operation is described by what it does at its place: recolouring, the two rotations, linking
  another child, taking over the place of a node.
\<close>

section \<open>Parent and colour in one word\<close>

datatype colour = Red | Black

fun code :: "colour \<Rightarrow> u64" where
  "code Red = 0"
| "code Black = 1"

definition aligned :: "u64 \<Rightarrow> bool" where
  "aligned a \<longleftrightarrow> a AND 3 = 0"

definition pack :: "u64 \<Rightarrow> colour \<Rightarrow> u64" where
  "pack p c = p OR code c"

lemma bit_3: "bit (3::u64) n \<longleftrightarrow> n = 0 \<or> n = 1"
proof -
  have "(3::u64) = mask 2" by (simp add: mask_eq_exp_minus_1)
  then show ?thesis by (simp only: bit_mask_iff) auto
qed

lemma u64_eqI:
  assumes "bit x 0 = bit y 0" "bit x 1 = bit y 1"
    "\<And>n. n \<noteq> 0 \<Longrightarrow> n \<noteq> 1 \<Longrightarrow> n < 64 \<Longrightarrow> bit x n = bit (y::u64) n"
  shows "x = y"
proof (rule bit_word_eqI)
  fix n assume "n < LENGTH(64)"
  then show "bit x n = bit y n" using assms by (cases "n = 0 \<or> n = 1") auto
qed

lemma bit_code: "bit (code c) n \<longleftrightarrow> n = 0 \<and> c = Black"
  by (cases c) (auto simp: bit_1_iff)

lemma bit_masks: "n < 64 \<Longrightarrow> bit (NOT 3 :: u64) n \<longleftrightarrow> n \<noteq> 0 \<and> n \<noteq> 1"
  "n < 64 \<Longrightarrow> bit (NOT 1 :: u64) n \<longleftrightarrow> n \<noteq> 0" "bit (1::u64) n \<longleftrightarrow> n = 0"
  by (auto simp only: bit_not_iff bit_3 bit_1_iff possible_bit_def) auto

lemma aligned_bits: "aligned a \<longleftrightarrow> \<not> bit a 0 \<and> \<not> bit a 1"
proof
  assume "aligned a"
  then have "\<And>n. bit (a AND 3) n = bit (0::u64) n" by (simp only: aligned_def)
  from this [of 0] this [of 1] show "\<not> bit a 0 \<and> \<not> bit a 1" by (simp only: bit_and_iff bit_3) simp
next
  assume "\<not> bit a 0 \<and> \<not> bit a 1"
  then show "aligned a" unfolding aligned_def by (intro u64_eqI; simp only: bit_and_iff bit_3; simp)
qed

lemmas pack_bits = pack_def aligned_bits bit_and_iff bit_or_iff bit_masks bit_3 bit_code

lemma aligned_0 [simp]: "aligned 0"
  by (simp add: aligned_def)

lemma pack_parent: "aligned p \<Longrightarrow> pack p c AND NOT 3 = p"
  by (rule u64_eqI; simp only: pack_bits; simp)

lemma pack_color: "aligned p \<Longrightarrow> pack p c AND 1 = code c"
  by (rule u64_eqI; simp only: pack_bits; simp)

lemma pack_recolour: "aligned p \<Longrightarrow> pack p c AND NOT 1 OR code c' = pack p c'"
  by (rule u64_eqI; simp only: pack_bits; simp)

lemma pack_red: "aligned p \<Longrightarrow> pack p c AND NOT 1 = pack p Red"
  by (rule u64_eqI; simp only: pack_bits; simp)

lemma pack_black: "aligned p \<Longrightarrow> pack p c OR 1 = pack p Black"
  by (rule u64_eqI; simp only: pack_bits; simp)

lemma pack_move: "aligned p \<Longrightarrow> pack p c AND 3 OR q = pack q c"
  by (rule u64_eqI; simp only: pack_bits; auto)

definition cell :: "u64 \<Rightarrow> colour \<Rightarrow> u64 \<Rightarrow> u64 \<Rightarrow> rb_node" where
  "cell p c l r = \<lparr>rb_parent_color = pack p c, rb_right = r, rb_left = l\<rparr>"

named_theorems cell_simps "reading and changing a node with an aligned parent"

lemma cell_reads [cell_simps]:
  "rb_left (cell p c l r) = l" "rb_right (cell p c l r) = r"
  "aligned p \<Longrightarrow> rb_parent (cell p c l r) = p"
  "aligned p \<Longrightarrow> rb_color (cell p c l r) = code c"
  "aligned p \<Longrightarrow> rb_is_red (cell p c l r) \<longleftrightarrow> c = Red"
  "aligned p \<Longrightarrow> rb_is_black (cell p c l r) \<longleftrightarrow> c = Black"
  by (cases c; simp only: cell_def rb_node.simps rb_parent_def rb_color_def rb_is_red_def
      rb_is_black_def pack_parent pack_color code.simps colour.simps; simp)+

lemma cell_writes [cell_simps]:
  "cell p c l r\<lparr>rb_left := l'\<rparr> = cell p c l' r" "cell p c l r\<lparr>rb_right := r'\<rparr> = cell p c l r'"
  "aligned p \<Longrightarrow> cell p c l r\<lparr>rb_parent_color := rb_parent_color (cell p c l r) AND NOT 1\<rparr> = cell p Red l r"
  "aligned p \<Longrightarrow> cell p c l r\<lparr>rb_parent_color := rb_parent_color (cell p c l r) OR 1\<rparr> = cell p Black l r"
  "aligned p \<Longrightarrow> cell p c l r\<lparr>rb_parent_color := rb_parent_color (cell p c l r) AND 3 OR q\<rparr> = cell q c l r"
  "aligned p \<Longrightarrow> cell p c l r\<lparr>rb_parent_color := rb_parent_color (cell p c l r) AND NOT 1 OR code c'\<rparr> = cell p c' l r"
  by (simp_all only: cell_def rb_node.simps pack_recolour pack_red [symmetric] pack_black pack_move)
    (simp_all only: pack_red)

lemma set_ops [cell_simps]:
  assumes "nodes s a = Some (cell p c l r)"
  shows "put_left s a v = Some (s\<lparr>nodes := (nodes s)(a \<mapsto> cell p c v r)\<rparr>)"
    "put_right s a v = Some (s\<lparr>nodes := (nodes s)(a \<mapsto> cell p c l v)\<rparr>)"
    "aligned p \<Longrightarrow> rb_set_red s a = Some (s\<lparr>nodes := (nodes s)(a \<mapsto> cell p Red l r)\<rparr>)"
    "aligned p \<Longrightarrow> rb_set_black s a = Some (s\<lparr>nodes := (nodes s)(a \<mapsto> cell p Black l r)\<rparr>)"
    "aligned p \<Longrightarrow> rb_set_parent s a q = Some (s\<lparr>nodes := (nodes s)(a \<mapsto> cell q c l r)\<rparr>)"
    "aligned p \<Longrightarrow> rb_set_color s a (code c') = Some (s\<lparr>nodes := (nodes s)(a \<mapsto> cell p c' l r)\<rparr>)"
  using assms
  by (simp_all only: put_left_def put_right_def rb_set_red_def rb_set_black_def rb_set_parent_def
      rb_set_color_def update_node_def bind.bind_lunit cell_writes)

section \<open>Trees in the heap\<close>

datatype rbt = Leaf | Node rbt colour u64 rbt

fun ptr :: "rbt \<Rightarrow> u64" where
  "ptr Leaf = 0"
| "ptr (Node l c a r) = a"

fun inorder :: "rbt \<Rightarrow> u64 list" where
  "inorder Leaf = []"
| "inorder (Node l c a r) = inorder l @ a # inorder r"

fun tree_at :: "(u64 \<Rightarrow> rb_node option) \<Rightarrow> u64 \<Rightarrow> rbt \<Rightarrow> bool" where
  "tree_at h p Leaf = True"
| "tree_at h p (Node l c a r) \<longleftrightarrow>
     h a = Some (cell p c (ptr l) (ptr r)) \<and> tree_at h a l \<and> tree_at h a r"

definition addresses_ok :: "u64 list \<Rightarrow> bool" where
  "addresses_ok as \<longleftrightarrow> distinct as \<and> (\<forall>a\<in>set as. a \<noteq> 0 \<and> aligned a)"

text \<open>The state holds the tree, and the nodes outside the tree are as in \<open>F\<close>.\<close>

definition heap_holds :: "(u64 \<Rightarrow> rb_node option) \<Rightarrow> rb_state \<Rightarrow> rbt \<Rightarrow> bool" where
  "heap_holds F s t \<longleftrightarrow> tree_at (nodes s) 0 t \<and> rb_root s = ptr t \<and> addresses_ok (inorder t) \<and>
     (\<forall>a. a \<notin> set (inorder t) \<longrightarrow> nodes s a = F a)"

text \<open>A place in a tree: the steps from it up to the root, each with the other subtree.\<close>

datatype step = Into_left colour u64 rbt | Into_right rbt colour u64

fun fill :: "step \<Rightarrow> rbt \<Rightarrow> rbt" where
  "fill (Into_left c a r) t = Node t c a r"
| "fill (Into_right l c a) t = Node l c a t"

fun plug :: "step list \<Rightarrow> rbt \<Rightarrow> rbt" where
  "plug [] t = t"
| "plug (f # K) t = plug K (fill f t)"

fun step_ptr :: "step \<Rightarrow> u64" where
  "step_ptr (Into_left c a r) = a"
| "step_ptr (Into_right l c a) = a"

fun up :: "step list \<Rightarrow> u64" where
  "up [] = 0"
| "up (f # K) = step_ptr f"

fun step_cell :: "u64 \<Rightarrow> step \<Rightarrow> u64 \<Rightarrow> rb_node" where
  "step_cell p (Into_left c a r) x = cell p c x (ptr r)"
| "step_cell p (Into_right l c a) x = cell p c (ptr l) x"

fun step_tree :: "step \<Rightarrow> rbt" where
  "step_tree (Into_left c a r) = r"
| "step_tree (Into_right l c a) = l"

fun path_at :: "(u64 \<Rightarrow> rb_node option) \<Rightarrow> step list \<Rightarrow> u64 \<Rightarrow> bool" where
  "path_at h [] x = True"
| "path_at h (f # K) x \<longleftrightarrow> h (step_ptr f) = Some (step_cell (up K) f x) \<and>
     tree_at h (step_ptr f) (step_tree f) \<and> path_at h K (step_ptr f)"

fun before :: "step list \<Rightarrow> u64 list" where
  "before [] = []"
| "before (Into_left c a r # K) = before K"
| "before (Into_right l c a # K) = before K @ inorder l @ [a]"

fun after :: "step list \<Rightarrow> u64 list" where
  "after [] = []"
| "after (Into_left c a r # K) = a # inorder r @ after K"
| "after (Into_right l c a # K) = after K"

definition path_root :: "step list \<Rightarrow> u64 \<Rightarrow> u64" where
  "path_root K x = (if K = [] then x else step_ptr (last K))"

lemma inorder_plug: "inorder (plug K t) = before K @ inorder t @ after K"
proof (induction K arbitrary: t)
  case (Cons f K)
  then show ?case by (cases f) simp_all
qed simp

lemma ptr_fill [simp]: "ptr (fill f t) = step_ptr f"
  by (cases f) simp_all

lemma ptr_plug: "ptr (plug K t) = path_root K (ptr t)"
proof (induction K arbitrary: t)
  case (Cons f K)
  then show ?case by (cases "K = []") (simp_all add: path_root_def)
qed (simp add: path_root_def)

lemma tree_at_plug: "tree_at h 0 (plug K t) \<longleftrightarrow> path_at h K (ptr t) \<and> tree_at h (up K) t"
proof (induction K arbitrary: t)
  case (Cons f K)
  then show ?case by (cases f) auto
qed simp

lemma tree_at_cong:
  assumes "tree_at h p t" "\<And>a. a \<in> set (inorder t) \<Longrightarrow> h' a = h a"
  shows "tree_at h' p t"
  using assms by (induction t arbitrary: p) auto

lemma path_at_cong:
  assumes "path_at h K x" "\<And>a. a \<in> set (before K) \<union> set (after K) \<Longrightarrow> h' a = h a"
  shows "path_at h' K x"
  using assms
proof (induction K arbitrary: x)
  case (Cons f K)
  then show ?case by (cases f) (auto intro: tree_at_cong)
qed simp

lemma up_in_path: "K \<noteq> [] \<Longrightarrow> up K \<in> set (before K) \<union> set (after K)"
proof (cases K)
  case (Cons f K')
  then show ?thesis by (cases f) simp_all
qed simp

lemma holds_plug:
  "heap_holds F s (plug K t) \<longleftrightarrow> path_at (nodes s) K (ptr t) \<and> tree_at (nodes s) (up K) t \<and>
     rb_root s = path_root K (ptr t) \<and> addresses_ok (before K @ inorder t @ after K) \<and>
     (\<forall>a. a \<notin> set (before K) \<union> set (inorder t) \<union> set (after K) \<longrightarrow> nodes s a = F a)"
  by (auto simp: heap_holds_def tree_at_plug inorder_plug ptr_plug)

section \<open>What the small operations do to a heap\<close>

definition adopt :: "(u64 \<Rightarrow> rb_node option) \<Rightarrow> u64 \<Rightarrow> rbt \<Rightarrow> u64 \<Rightarrow> rb_node option" where
  "adopt h p t = (case t of Leaf \<Rightarrow> h | Node l c a r \<Rightarrow> h(a \<mapsto> cell p c (ptr l) (ptr r)))"

definition relink :: "(u64 \<Rightarrow> rb_node option) \<Rightarrow> step list \<Rightarrow> u64 \<Rightarrow> u64 \<Rightarrow> rb_node option" where
  "relink h K x = (case K of [] \<Rightarrow> h | f # K' \<Rightarrow> h(step_ptr f \<mapsto> step_cell (up K') f x))"

lemma ptr_in: "t \<noteq> Leaf \<Longrightarrow> ptr t \<in> set (inorder t)"
  by (cases t) simp_all

lemma adopt_other: "b \<noteq> ptr t \<Longrightarrow> adopt h p t b = h b" "b \<notin> set (inorder t) \<Longrightarrow> adopt h p t b = h b"
  by (auto simp: adopt_def split: rbt.split)

lemma relink_other: "b \<noteq> up K \<Longrightarrow> relink h K x b = h b"
  by (auto simp: relink_def split: list.split)

lemma relink_path_other: "b \<notin> set (before K) \<Longrightarrow> b \<notin> set (after K) \<Longrightarrow> relink h K x b = h b"
proof (cases K)
  case (Cons f K')
  then show "b \<notin> set (before K) \<Longrightarrow> b \<notin> set (after K) \<Longrightarrow> relink h K x b = h b"
    by (cases f) (auto simp: relink_def)
qed (simp add: relink_def)

lemma tree_at_adopt:
  assumes "tree_at h q t" "distinct (inorder t)"
  shows "tree_at (adopt h p t) p t"
proof (cases t)
  case (Node l c a r)
  then show ?thesis using assms by (auto simp: adopt_def intro: tree_at_cong)
qed simp

lemma path_at_relink:
  assumes "path_at h K x" "distinct (before K @ after K)"
  shows "path_at (relink h K y) K y"
proof (cases K)
  case (Cons f K')
  have "path_at (relink h K y) K' (step_ptr f)" "tree_at (relink h K y) (step_ptr f) (step_tree f)"
    using assms Cons
    by (cases f; auto simp: relink_def intro!: path_at_cong [where h = h] tree_at_cong [where h = h])+
  then show ?thesis using Cons by (simp add: relink_def)
qed simp

definition hand_over :: "rb_state \<Rightarrow> (rb_node \<Rightarrow> u64) \<Rightarrow> u64 \<Rightarrow> u64 \<Rightarrow> u64 \<Rightarrow> rb_state option" where
  "hand_over s child a v p =
     (if v \<noteq> 0 then do { r \<leftarrow> nodes s a; rb_set_parent s (child r) p } else Some s)"

lemma set_parent_adopt:
  assumes "tree_at (nodes s) q t" "aligned q" "ptr t = 0 \<longleftrightarrow> t = Leaf"
  shows "(if ptr t \<noteq> 0 then rb_set_parent s (ptr t) p else Some s) = Some (s\<lparr>nodes := adopt (nodes s) p t\<rparr>)"
  using assms by (cases t) (simp_all add: adopt_def set_ops)

lemma hand_over_ok:
  assumes "tree_at (nodes s) q t" "aligned q" "ptr t = 0 \<longleftrightarrow> t = Leaf" "nodes s a = Some n" "child n = ptr t"
  shows "hand_over s child a (ptr t) p = Some (s\<lparr>nodes := adopt (nodes s) p t\<rparr>)"
  using set_parent_adopt [OF assms(1-3), of p] assms(4,5) by (simp add: hand_over_def split: if_splits)

definition relink_left :: "rb_state \<Rightarrow> u64 \<Rightarrow> u64 \<Rightarrow> u64 \<Rightarrow> rb_state option" where
  "relink_left s parent x y = (if parent \<noteq> 0 then do {
       p \<leftarrow> nodes s parent;
       if x = rb_left p then put_left s parent y else put_right s parent y }
     else Some (s\<lparr>rb_root := y\<rparr>))"

definition relink_right :: "rb_state \<Rightarrow> u64 \<Rightarrow> u64 \<Rightarrow> u64 \<Rightarrow> rb_state option" where
  "relink_right s parent x y = (if parent \<noteq> 0 then do {
       p \<leftarrow> nodes s parent;
       if x = rb_right p then put_right s parent y else put_left s parent y }
     else Some (s\<lparr>rb_root := y\<rparr>))"

definition relink_old :: "rb_state \<Rightarrow> u64 \<Rightarrow> u64 \<Rightarrow> u64 \<Rightarrow> rb_state option" where
  "relink_old s parent x y = (if parent \<noteq> 0 then do {
       p \<leftarrow> nodes s parent;
       if rb_left p = x then put_left s parent y else put_right s parent y }
     else Some (s\<lparr>rb_root := y\<rparr>))"

lemma relink_ok:
  assumes "K \<noteq> [] \<Longrightarrow> nodes s (up K) = Some (step_cell (up (tl K)) (hd K) x)" "rb_root s = path_root K x"
    "K \<noteq> [] \<Longrightarrow> up K \<noteq> 0 \<and> x \<noteq> ptr (step_tree (hd K))"
  shows "relink_left s (up K) x y = Some (s\<lparr>nodes := relink (nodes s) K y, rb_root := path_root K y\<rparr>)"
    "relink_right s (up K) x y = Some (s\<lparr>nodes := relink (nodes s) K y, rb_root := path_root K y\<rparr>)"
    "relink_old s (up K) x y = Some (s\<lparr>nodes := relink (nodes s) K y, rb_root := path_root K y\<rparr>)"
proof -
  have "relink_left s (up K) x y = Some (s\<lparr>nodes := relink (nodes s) K y, rb_root := path_root K y\<rparr>) \<and>
    relink_right s (up K) x y = Some (s\<lparr>nodes := relink (nodes s) K y, rb_root := path_root K y\<rparr>) \<and>
    relink_old s (up K) x y = Some (s\<lparr>nodes := relink (nodes s) K y, rb_root := path_root K y\<rparr>)"
  proof (cases K)
    case Nil
    then show ?thesis by (simp add: relink_left_def relink_right_def relink_old_def relink_def path_root_def)
  next
    case (Cons f K')
    then show ?thesis using assms
      by (cases f) (auto simp: relink_left_def relink_right_def relink_old_def relink_def path_root_def cell_simps)
  qed
  then show "relink_left s (up K) x y = Some (s\<lparr>nodes := relink (nodes s) K y, rb_root := path_root K y\<rparr>)"
    "relink_right s (up K) x y = Some (s\<lparr>nodes := relink (nodes s) K y, rb_root := path_root K y\<rparr>)"
    "relink_old s (up K) x y = Some (s\<lparr>nodes := relink (nodes s) K y, rb_root := path_root K y\<rparr>)"
    by simp_all
qed

section \<open>Operations at a place of the tree\<close>

lemma addresses_ok_append: "addresses_ok (xs @ ys) \<longleftrightarrow>
    addresses_ok xs \<and> addresses_ok ys \<and> set xs \<inter> set ys = {}"
  by (auto simp: addresses_ok_def)

lemma addresses_ok_Cons: "addresses_ok (a # xs) \<longleftrightarrow> a \<noteq> 0 \<and> aligned a \<and> a \<notin> set xs \<and> addresses_ok xs"
  by (auto simp: addresses_ok_def)

lemma addresses_ok_Nil [simp]: "addresses_ok []"
  by (simp add: addresses_ok_def)

lemma up_ok:
  assumes "addresses_ok (before K)" "addresses_ok (after K)"
  shows "aligned (up K)" "K \<noteq> [] \<Longrightarrow> up K \<noteq> 0"
  using assms up_in_path [of K] by (cases "K = []"; auto simp: addresses_ok_def)+

lemma ptr_0: "addresses_ok (inorder t) \<Longrightarrow> ptr t = 0 \<longleftrightarrow> t = Leaf"
  by (cases t) (simp_all add: addresses_ok_append addresses_ok_Cons)

lemma at_node:
  assumes "heap_holds F s (plug K (Node l c a r))"
  shows "nodes s a = Some (cell (up K) c (ptr l) (ptr r))" "aligned (up K)" "a \<noteq> 0" "aligned a"
  using assms up_ok [of K] by (simp_all add: holds_plug addresses_ok_append addresses_ok_Cons)

text \<open>A state that differs in the nodes of the subtree only, and keeps the pointer to it.\<close>

lemma holds_local:
  assumes "heap_holds F s (plug K t)" "tree_at (nodes s') (up K) t'" "ptr t' = ptr t"
    "inorder t' = inorder t" "rb_root s' = rb_root s"
    "\<And>b. b \<notin> set (inorder t) \<Longrightarrow> nodes s' b = nodes s b"
  shows "heap_holds F s' (plug K t')"
  using assms by (auto simp: holds_plug addresses_ok_append intro!: path_at_cong [where h = "nodes s"])

lemma holds_recolour:
  assumes "heap_holds F s (plug K (Node l c a r))"
  shows "heap_holds F (s\<lparr>nodes := (nodes s)(a \<mapsto> cell (up K) c' (ptr l) (ptr r))\<rparr>) (plug K (Node l c' a r))"
  using assms
  by (rule holds_local)
    (use assms in \<open>auto simp: holds_plug addresses_ok_append addresses_ok_Cons intro: tree_at_cong\<close>)

lemma set_colours_ok:
  assumes "heap_holds F s (plug K (Node l c a r))"
  shows "\<exists>s'. rb_set_black s a = Some s' \<and> heap_holds F s' (plug K (Node l Black a r))"
    "\<exists>s'. rb_set_red s a = Some s' \<and> heap_holds F s' (plug K (Node l Red a r))"
    "\<exists>s'. rb_set_color s a (code c') = Some s' \<and> heap_holds F s' (plug K (Node l c' a r))"
  using holds_recolour [OF assms] at_node [OF assms]
  by (simp_all add: set_ops)


section \<open>Rotations\<close>

lemma step_tree_in: "K \<noteq> [] \<Longrightarrow> ptr (step_tree (hd K)) \<in> {0} \<union> set (before K) \<union> set (after K)"
proof (cases K)
  case (Cons f K')
  have "ptr t \<in> {0} \<union> set (inorder t)" for t by (cases t) simp_all
  then show ?thesis using Cons by (cases f) auto
qed simp

lemma path_facts:
  assumes "addresses_ok (before K)" "addresses_ok (after K)"
    "a \<noteq> 0" "a \<notin> set (before K)" "a \<notin> set (after K)"
  shows "up K \<noteq> a" "K \<noteq> [] \<Longrightarrow> a \<noteq> ptr (step_tree (hd K))"
  using assms up_in_path [of K] step_tree_in [of K] by (cases "K = []"; auto)+

lemma rotate_left_eq: "rb_rotate_left s node = do {
     n \<leftarrow> nodes s node;
     let right = rb_right n;
     r \<leftarrow> nodes s right;
     s \<leftarrow> put_right s node (rb_left r);
     s \<leftarrow> hand_over s rb_left right (rb_left r) node;
     s \<leftarrow> put_left s right node;
     s \<leftarrow> rb_set_parent s right (rb_parent n);
     s \<leftarrow> relink_left s (rb_parent n) node right;
     rb_set_parent s node right }"
  by (simp add: rb_rotate_left_def relink_left_def hand_over_def Let_def)

lemma rotate_right_eq: "rb_rotate_right s node = do {
     n \<leftarrow> nodes s node;
     let left = rb_left n;
     l \<leftarrow> nodes s left;
     s \<leftarrow> put_left s node (rb_right l);
     s \<leftarrow> hand_over s rb_right left (rb_right l) node;
     s \<leftarrow> put_right s left node;
     s \<leftarrow> rb_set_parent s left (rb_parent n);
     s \<leftarrow> relink_right s (rb_parent n) node left;
     rb_set_parent s node left }"
  by (simp add: rb_rotate_right_def relink_right_def hand_over_def Let_def)

text \<open>The heap after a rotation of \<open>x\<close> with its child \<open>y\<close>: \<open>m\<close> is adopted by \<open>x\<close>, and \<open>y\<close> takes the
  place of \<open>x\<close>.\<close>

definition rotated :: "(u64 \<Rightarrow> rb_node option) \<Rightarrow> step list \<Rightarrow> u64 \<Rightarrow> rb_node \<Rightarrow> rb_node \<Rightarrow> u64 \<Rightarrow> rb_node \<Rightarrow> rbt \<Rightarrow>
    u64 \<Rightarrow> rb_node option" where
  "rotated h K x nx nx' y ny m = (relink ((adopt (h(x \<mapsto> nx)) x m)(y \<mapsto> ny)) K y)(x \<mapsto> nx')"

lemma rotated_holds:
  assumes "addresses_ok (before K @ inorder t @ after K)" "path_at h K x"
    "x \<in> set (inorder t)" "y \<in> set (inorder t)" "x \<noteq> y" "set (inorder m) \<subseteq> set (inorder t) - {x, y}"
    "tree_at h y m" "distinct (inorder m)"
  shows "path_at (rotated h K x nx nx' y ny m) K y"
    "rotated h K x nx nx' y ny m x = Some nx'" "rotated h K x nx nx' y ny m y = Some ny"
    "tree_at (rotated h K x nx nx' y ny m) x m"
    "\<And>p u. tree_at h p u \<Longrightarrow> set (inorder u) \<subseteq> set (inorder t) - {x, y} - set (inorder m) \<Longrightarrow>
       tree_at (rotated h K x nx nx' y ny m) p u"
    "\<And>b. b \<notin> set (before K @ inorder t @ after K) \<Longrightarrow> rotated h K x nx nx' y ny m b = h b"
proof -
  let ?h3 = "(adopt (h(x \<mapsto> nx)) x m)(y \<mapsto> ny)"
  note ok = assms(1) [unfolded addresses_ok_append, simplified]
  have out: "b \<notin> set (before K)" "b \<notin> set (after K)" if "b \<in> set (inorder t)" for b
    using ok that by auto
  have up: "up K \<noteq> b" if "b \<in> set (inorder t)" for b
    using path_facts(1) [of K b] ok that out [OF that] by (simp add: addresses_ok_def)
  have h3: "?h3 b = h b" if "b \<notin> set (inorder t)" for b
  proof -
    have "b \<notin> set (inorder m)" "b \<noteq> x" "b \<noteq> y" using that assms(3,4,6) by auto
    then show ?thesis by (simp add: adopt_other)
  qed
  have rel: "rotated h K x nx nx' y ny m b = ?h3 b" if "b \<in> set (inorder t)" "b \<noteq> x" for b
    using that up [of b] relink_other [of b K] by (auto simp: rotated_def)
  have "path_at ?h3 K x"
    by (rule path_at_cong [OF assms(2)]) (use ok h3 in blast)
  then have "path_at (relink ?h3 K y) K y"
    using ok by (intro path_at_relink) (auto simp: addresses_ok_def)
  then show "path_at (rotated h K x nx nx' y ny m) K y"
    unfolding rotated_def by (rule path_at_cong) (use out assms in auto)
  show "rotated h K x nx nx' y ny m x = Some nx'" by (simp add: rotated_def)
  show "rotated h K x nx nx' y ny m y = Some ny" using rel [of y] assms by simp
  have "tree_at (h(x \<mapsto> nx)) y m"
    by (rule tree_at_cong [OF assms(7)]) (use assms in auto)
  from tree_at_adopt [OF this assms(8), of x] show "tree_at (rotated h K x nx nx' y ny m) x m"
  proof (rule tree_at_cong)
    fix b assume "b \<in> set (inorder m)"
    then have "b \<in> set (inorder t)" "b \<noteq> x" "b \<noteq> y" using assms(6) by auto
    then show "rotated h K x nx nx' y ny m b = adopt (h(x \<mapsto> nx)) x m b" using rel [of b] by simp
  qed
  fix p u assume tu: "tree_at h p u" and u: "set (inorder u) \<subseteq> set (inorder t) - {x, y} - set (inorder m)"
  from tu show "tree_at (rotated h K x nx nx' y ny m) p u"
  proof (rule tree_at_cong)
    fix b assume "b \<in> set (inorder u)"
    then have "b \<in> set (inorder t)" "b \<noteq> x" "b \<noteq> y" "b \<notin> set (inorder m)" using u by auto
    then show "rotated h K x nx nx' y ny m b = h b" using rel [of b] by (simp add: adopt_other)
  qed
next
  fix b assume "b \<notin> set (before K @ inorder t @ after K)"
  moreover from this have "b \<notin> set (inorder m)" "b \<noteq> x" "b \<noteq> y" using assms(3,4,6) by auto
  ultimately show "rotated h K x nx nx' y ny m b = h b"
    by (simp add: rotated_def relink_path_other adopt_other)
qed

lemma rotate_left_ok:
  assumes "heap_holds F s (plug K (Node l c x (Node m d y r)))"
  shows "\<exists>s'. rb_rotate_left s x = Some s' \<and> heap_holds F s' (plug K (Node (Node l c x m) d y r))"
proof -
  let ?t = "Node l c x (Node m d y r)"
  note h = assms [unfolded holds_plug, simplified, unfolded addresses_ok_append addresses_ok_Cons]
  have nx: "nodes s x = Some (cell (up K) c (ptr l) y)" "aligned (up K)" "x \<noteq> 0" "aligned x"
    using at_node [OF assms] by simp_all
  have ny: "nodes s y = Some (cell x d (ptr m) (ptr r))" "y \<noteq> 0" "aligned y" "x \<noteq> y"
    using h by auto
  let ?nx = "cell (up K) c (ptr l) (ptr m)" and ?ny = "cell (up K) d x (ptr r)" and ?nx' = "cell y c (ptr l) (ptr m)"
  let ?s1 = "s\<lparr>nodes := (nodes s)(x \<mapsto> ?nx)\<rparr>"
  let ?h2 = "adopt (nodes ?s1) x m"
  let ?h3 = "?h2(y \<mapsto> ?ny)"
  let ?h = "rotated (nodes s) K x ?nx ?nx' y ?ny m"
  have m: "x \<notin> set (inorder m)" "y \<notin> set (inorder m)" "ptr m = 0 \<longleftrightarrow> m = Leaf" "distinct (inorder m)"
    using h ptr_0 [of m] by (auto simp: addresses_ok_def)
  have "tree_at (nodes ?s1) y m"
    by (rule tree_at_cong [where h = "nodes s"]) (use h m in auto)
  then have p2: "hand_over ?s1 rb_left y (ptr m) x = Some (?s1\<lparr>nodes := ?h2\<rparr>)"
    using m ny by (intro hand_over_ok [where n = "cell x d (ptr m) (ptr r)"]) (simp_all add: cell_reads)
  have k: "up K \<noteq> x" "up K \<noteq> y" "K \<noteq> [] \<Longrightarrow> x \<noteq> ptr (step_tree (hd K))"
    "K \<noteq> [] \<Longrightarrow> up K \<notin> set (inorder m)" "K \<noteq> [] \<Longrightarrow> up K \<noteq> 0"
    using h path_facts [of K x] path_facts [of K y] up_in_path [of K] up_ok [of K] by auto
  have "K \<noteq> [] \<Longrightarrow> ?h3 (up K) = Some (step_cell (up (tl K)) (hd K) x)"
    using h k by (cases K) (auto simp: adopt_other)
  then have p4: "relink_left (s\<lparr>nodes := ?h3\<rparr>) (up K) x y =
      Some (s\<lparr>nodes := relink ?h3 K y, rb_root := path_root K y\<rparr>)"
    using relink_ok(1) [of K "s\<lparr>nodes := ?h3\<rparr>" x y] h k by simp
  have h2y: "?h2 y = Some (cell x d (ptr m) (ptr r))" using ny m by (simp add: adopt_other)
  have h4x: "relink ?h3 K y x = Some ?nx"
    using k m ny by (simp add: relink_other adopt_other)
  have "rb_rotate_left s x = Some (s\<lparr>nodes := ?h, rb_root := path_root K y\<rparr>)"
    using nx ny p2 p4 h2y h4x
    by (simp add: rotate_left_eq cell_reads set_ops rotated_def)
  moreover have "heap_holds F (s\<lparr>nodes := ?h, rb_root := path_root K y\<rparr>) (plug K (Node (Node l c x m) d y r))"
  proof -
    have "addresses_ok (before K @ inorder ?t @ after K)" "path_at (nodes s) K x"
      using assms by (simp_all add: holds_plug)
    note R = rotated_holds [OF this, where y = y and m = m and nx = ?nx and nx' = ?nx' and ny = ?ny]
    have c: "x \<in> set (inorder ?t)" "y \<in> set (inorder ?t)" "set (inorder m) \<subseteq> set (inorder ?t) - {x, y}"
      "tree_at (nodes s) y m" "tree_at (nodes s) x l" "tree_at (nodes s) y r"
      "set (inorder l) \<subseteq> set (inorder ?t) - {x, y} - set (inorder m)"
      "set (inorder r) \<subseteq> set (inorder ?t) - {x, y} - set (inorder m)"
      using h m by auto
    note R = R [OF c(1,2) ny(4) c(3,4) m(4)]
    have "tree_at ?h (up K) (Node (Node l c x m) d y r)"
      using R(2-4) R(5) [OF c(5,7)] R(5) [OF c(6,8)] by simp
    moreover have "?h b = F b" if "b \<notin> set (before K @ inorder ?t @ after K)" for b
      using R(6) [OF that] that h by simp
    ultimately show ?thesis using R(1) assms unfolding holds_plug by simp
  qed
  ultimately show ?thesis by blast
qed

lemma rotate_right_ok:
  assumes "heap_holds F s (plug K (Node (Node l d y m) c x r))"
  shows "\<exists>s'. rb_rotate_right s x = Some s' \<and> heap_holds F s' (plug K (Node l d y (Node m c x r)))"
proof -
  let ?t = "Node (Node l d y m) c x r"
  note h = assms [unfolded holds_plug, simplified, unfolded addresses_ok_append addresses_ok_Cons]
  have nx: "nodes s x = Some (cell (up K) c y (ptr r))" "aligned (up K)" "x \<noteq> 0" "aligned x"
    using at_node [OF assms] by simp_all
  have ny: "nodes s y = Some (cell x d (ptr l) (ptr m))" "y \<noteq> 0" "aligned y" "x \<noteq> y"
    using h by auto
  let ?nx = "cell (up K) c (ptr m) (ptr r)" and ?ny = "cell (up K) d (ptr l) x" and ?nx' = "cell y c (ptr m) (ptr r)"
  let ?s1 = "s\<lparr>nodes := (nodes s)(x \<mapsto> ?nx)\<rparr>"
  let ?h2 = "adopt (nodes ?s1) x m"
  let ?h3 = "?h2(y \<mapsto> ?ny)"
  let ?h = "rotated (nodes s) K x ?nx ?nx' y ?ny m"
  have m: "x \<notin> set (inorder m)" "y \<notin> set (inorder m)" "ptr m = 0 \<longleftrightarrow> m = Leaf" "distinct (inorder m)"
    using h ptr_0 [of m] by (auto simp: addresses_ok_def)
  have "tree_at (nodes ?s1) y m"
    by (rule tree_at_cong [where h = "nodes s"]) (use h m in auto)
  then have p2: "hand_over ?s1 rb_right y (ptr m) x = Some (?s1\<lparr>nodes := ?h2\<rparr>)"
    using m ny by (intro hand_over_ok [where n = "cell x d (ptr l) (ptr m)"]) (simp_all add: cell_reads)
  have k: "up K \<noteq> x" "up K \<noteq> y" "K \<noteq> [] \<Longrightarrow> x \<noteq> ptr (step_tree (hd K))"
    "K \<noteq> [] \<Longrightarrow> up K \<notin> set (inorder m)" "K \<noteq> [] \<Longrightarrow> up K \<noteq> 0"
    using h path_facts [of K x] path_facts [of K y] up_in_path [of K] up_ok [of K] by auto
  have "K \<noteq> [] \<Longrightarrow> ?h3 (up K) = Some (step_cell (up (tl K)) (hd K) x)"
    using h k by (cases K) (auto simp: adopt_other)
  then have p4: "relink_right (s\<lparr>nodes := ?h3\<rparr>) (up K) x y =
      Some (s\<lparr>nodes := relink ?h3 K y, rb_root := path_root K y\<rparr>)"
    using relink_ok(2) [of K "s\<lparr>nodes := ?h3\<rparr>" x y] h k by simp
  have h2y: "?h2 y = Some (cell x d (ptr l) (ptr m))" using ny m by (simp add: adopt_other)
  have h4x: "relink ?h3 K y x = Some ?nx"
    using k m ny by (simp add: relink_other adopt_other)
  have "rb_rotate_right s x = Some (s\<lparr>nodes := ?h, rb_root := path_root K y\<rparr>)"
    using nx ny p2 p4 h2y h4x
    by (simp add: rotate_right_eq cell_reads set_ops rotated_def)
  moreover have "heap_holds F (s\<lparr>nodes := ?h, rb_root := path_root K y\<rparr>) (plug K (Node l d y (Node m c x r)))"
  proof -
    have "addresses_ok (before K @ inorder ?t @ after K)" "path_at (nodes s) K x"
      using assms by (simp_all add: holds_plug)
    note R = rotated_holds [OF this, where y = y and m = m and nx = ?nx and nx' = ?nx' and ny = ?ny]
    have c: "x \<in> set (inorder ?t)" "y \<in> set (inorder ?t)" "set (inorder m) \<subseteq> set (inorder ?t) - {x, y}"
      "tree_at (nodes s) y m" "tree_at (nodes s) y l" "tree_at (nodes s) x r"
      "set (inorder l) \<subseteq> set (inorder ?t) - {x, y} - set (inorder m)"
      "set (inorder r) \<subseteq> set (inorder ?t) - {x, y} - set (inorder m)"
      using h m by auto
    note R = R [OF c(1,2) ny(4) c(3,4) m(4)]
    have "tree_at ?h (up K) (Node l d y (Node m c x r))"
      using R(2-4) R(5) [OF c(5,7)] R(5) [OF c(6,8)] by simp
    moreover have "?h b = F b" if "b \<notin> set (before K @ inorder ?t @ after K)" for b
      using R(6) [OF that] that h by simp
    ultimately show ?thesis using R(1) assms unfolding holds_plug by simp
  qed
  ultimately show ?thesis by blast
qed

end
