(* ===== verification/RbTreeFacts.thy ===== *)
theory RbTreeFacts
  imports RbHeap
begin

text \<open>
  The red-black trees of \<open>rbtree.c\<close> stay red-black trees: insertion and removal return, keep all other
  nodes in order, and leave a balanced tree with a black root; walking visits the nodes in order.
\<close>

section \<open>Red-black trees\<close>

fun bheight :: "rbt \<Rightarrow> nat" where
  "bheight Leaf = 0"
| "bheight (Node l c a r) = bheight l + (if c = Black then 1 else 0)"

fun color_of :: "rbt \<Rightarrow> colour" where
  "color_of Leaf = Black"
| "color_of (Node l c a r) = c"

text \<open>All paths have the same number of black nodes, and no red node has a red child.\<close>

fun balanced :: "rbt \<Rightarrow> bool" where
  "balanced Leaf = True"
| "balanced (Node l c a r) \<longleftrightarrow> balanced l \<and> balanced r \<and> bheight l = bheight r \<and>
     (c = Red \<longrightarrow> color_of l = Black \<and> color_of r = Black)"

definition red_black :: "rbt \<Rightarrow> bool" where
  "red_black t \<longleftrightarrow> balanced t \<and> color_of t = Black"

text \<open>
  A path whose open end takes a balanced tree of black height \<open>n\<close>. Above the root there is nothing,
  which counts as red: a root must be black.
\<close>

fun above :: "step list \<Rightarrow> colour" where
  "above [] = Red"
| "above (Into_left c a r # K) = c"
| "above (Into_right l c a # K) = c"

fun open_at :: "step list \<Rightarrow> nat \<Rightarrow> bool" where
  "open_at [] n = True"
| "open_at (Into_left c a r # K) n \<longleftrightarrow> balanced r \<and> bheight r = n \<and>
     (c = Red \<longrightarrow> color_of r = Black \<and> above K = Black) \<and> open_at K (n + (if c = Black then 1 else 0))"
| "open_at (Into_right l c a # K) n \<longleftrightarrow> balanced l \<and> bheight l = n \<and>
     (c = Red \<longrightarrow> color_of l = Black \<and> above K = Black) \<and> open_at K (n + (if c = Black then 1 else 0))"

lemma not_Black [simp]: "c \<noteq> Black \<longleftrightarrow> c = Red"
  by (cases c) simp_all

lemma not_Red [simp]: "c \<noteq> Red \<longleftrightarrow> c = Black"
  by (cases c) simp_all

lemma red_black_plug:
  "balanced t \<Longrightarrow> open_at K (bheight t) \<Longrightarrow> color_of t = Red \<longrightarrow> above K = Black \<Longrightarrow> red_black (plug K t)"
proof (induction K arbitrary: t)
  case Nil
  then show ?case by (auto simp: red_black_def)
next
  case (Cons f K)
  show ?case
  proof (cases f)
    case (Into_left c a r)
    with Cons show ?thesis by (cases c) auto
  next
    case (Into_right l c a)
    with Cons show ?thesis by (cases c) auto
  qed
qed

section \<open>Insertion\<close>

lemma red_node_tree:
  assumes "tree_at (nodes s) p u" "aligned p" "ptr u = 0 \<longleftrightarrow> u = Leaf"
  shows "red_node s (ptr u) = Some (color_of u = Red)"
  using assms by (cases u) (simp_all add: red_node_def cell_reads)

lemma at_subtree:
  assumes "heap_holds F s (plug K t)"
  shows "tree_at (nodes s) (up K) t" "aligned (up K)" "ptr t = 0 \<longleftrightarrow> t = Leaf"
  using assms up_ok [of K] ptr_0 [of t] by (simp_all add: holds_plug addresses_ok_append)

lemma red_node_ok: "heap_holds F s (plug K t) \<Longrightarrow> red_node s (ptr t) = Some (color_of t = Red)"
  by (rule red_node_tree [OF at_subtree])

lemma black_or_null_ok:
  assumes "heap_holds F s (plug K t)"
  shows "black_or_null s (ptr t) = Some (color_of t = Black)"
  using at_subtree [OF assms] by (cases t) (simp_all add: black_or_null_def cell_reads)

lemma children_differ:
  assumes "heap_holds F s (plug K (Node l c a r))" "l \<noteq> Leaf \<or> r \<noteq> Leaf"
  shows "ptr l \<noteq> ptr r"
proof -
  have "addresses_ok (inorder l)" "addresses_ok (inorder r)" "set (inorder l) \<inter> set (inorder r) = {}"
    using assms(1) by (auto simp: holds_plug addresses_ok_append addresses_ok_Cons)
  then show ?thesis using assms(2) ptr_0 [of l] ptr_0 [of r] ptr_in [of l] ptr_in [of r] by auto
qed

text \<open>Recolouring for an uncle that is red, on either side.\<close>

lemma push_red_left:
  assumes "heap_holds F s (plug K (Node (Node l c p r) d g (Node ul e ua ur)))"
  shows "\<exists>s1 s2 s3. rb_set_black s ua = Some s1 \<and> rb_set_black s1 p = Some s2 \<and> rb_set_red s2 g = Some s3 \<and>
    heap_holds F s3 (plug K (Node (Node l Black p r) Red g (Node ul Black ua ur)))"
proof -
  obtain s1 where s1: "rb_set_black s ua = Some s1"
      "heap_holds F s1 (plug K (Node (Node l c p r) d g (Node ul Black ua ur)))"
    using set_colours_ok(1) [of F s "Into_right (Node l c p r) d g # K" ul e ua ur] assms by auto
  obtain s2 where s2: "rb_set_black s1 p = Some s2"
      "heap_holds F s2 (plug K (Node (Node l Black p r) d g (Node ul Black ua ur)))"
    using set_colours_ok(1) [of F s1 "Into_left d g (Node ul Black ua ur) # K" l c p r] s1 by auto
  show ?thesis using set_colours_ok(2) [OF s2(2)] s1 s2 by auto
qed

lemma push_red_right:
  assumes "heap_holds F s (plug K (Node (Node ul e ua ur) d g (Node l c p r)))"
  shows "\<exists>s1 s2 s3. rb_set_black s ua = Some s1 \<and> rb_set_black s1 p = Some s2 \<and> rb_set_red s2 g = Some s3 \<and>
    heap_holds F s3 (plug K (Node (Node ul Black ua ur) Red g (Node l Black p r)))"
proof -
  obtain s1 where s1: "rb_set_black s ua = Some s1"
      "heap_holds F s1 (plug K (Node (Node ul Black ua ur) d g (Node l c p r)))"
    using set_colours_ok(1) [of F s "Into_left d g (Node l c p r) # K" ul e ua ur] assms by auto
  obtain s2 where s2: "rb_set_black s1 p = Some s2"
      "heap_holds F s2 (plug K (Node (Node ul Black ua ur) d g (Node l Black p r)))"
    using set_colours_ok(1) [of F s1 "Into_right (Node ul Black ua ur) d g # K" l c p r] s1 by auto
  show ?thesis using set_colours_ok(2) [OF s2(2)] s1 s2 by auto
qed

text \<open>The last two colours and the rotation of the grandparent.\<close>

lemma lift_left:
  assumes "heap_holds F s (plug K (Node (Node l c p r) d g u))"
  shows "\<exists>s1 s2 s3. rb_set_black s p = Some s1 \<and> rb_set_red s1 g = Some s2 \<and> rb_rotate_right s2 g = Some s3 \<and>
    heap_holds F s3 (plug K (Node l Black p (Node r Red g u)))"
proof -
  obtain s1 where s1: "rb_set_black s p = Some s1" "heap_holds F s1 (plug K (Node (Node l Black p r) d g u))"
    using set_colours_ok(1) [of F s "Into_left d g u # K" l c p r] assms by auto
  obtain s2 where s2: "rb_set_red s1 g = Some s2" "heap_holds F s2 (plug K (Node (Node l Black p r) Red g u))"
    using set_colours_ok(2) [OF s1(2)] by auto
  show ?thesis using rotate_right_ok [OF s2(2)] s1 s2 by auto
qed

lemma lift_right:
  assumes "heap_holds F s (plug K (Node u d g (Node l c p r)))"
  shows "\<exists>s1 s2 s3. rb_set_black s p = Some s1 \<and> rb_set_red s1 g = Some s2 \<and> rb_rotate_left s2 g = Some s3 \<and>
    heap_holds F s3 (plug K (Node (Node u Red g l) Black p r))"
proof -
  obtain s1 where s1: "rb_set_black s p = Some s1" "heap_holds F s1 (plug K (Node u d g (Node l Black p r)))"
    using set_colours_ok(1) [of F s "Into_right u d g # K" l c p r] assms by auto
  obtain s2 where s2: "rb_set_red s1 g = Some s2" "heap_holds F s2 (plug K (Node u Red g (Node l Black p r)))"
    using set_colours_ok(2) [OF s1(2)] by auto
  show ?thesis using rotate_left_ok [OF s2(2)] s1 s2 by auto
qed

definition fixing :: "(u64 \<Rightarrow> rb_node option) \<Rightarrow> u64 list \<Rightarrow> rb_state \<Rightarrow> u64 \<Rightarrow> step list \<Rightarrow> rbt \<Rightarrow> bool" where
  "fixing F as s n K t \<longleftrightarrow> heap_holds F s (plug K t) \<and> inorder (plug K t) = as \<and> ptr t = n \<and> t \<noteq> Leaf \<and>
     color_of t = Red \<and> balanced t \<and> open_at K (bheight t)"

lemma insert_turn_left:
  assumes "fixing F as s n (k # Into_left cg g u # K) t" "above (k # K) = Red"
  shows "\<exists>n' s' K' t'. insert_turn s n (step_ptr k) = Some (n', s') \<and> fixing F as s' n' K' t' \<and>
    length K' < Suc (Suc (length K))"
proof -
  obtain l r where t: "t = Node l Red n r" using assms by (cases t) (auto simp: fixing_def)
  define p where "p = step_ptr k"
  have H: "heap_holds F s (plug K (Node (fill k t) cg g u))" using assms by (simp add: fixing_def)
  obtain pl pr where k: "k = Into_left Red p pr \<and> pl = t \<or> k = Into_right pl Red p \<and> pr = t"
    and fk: "fill k t = Node pl Red p pr"
    using assms(2) p_def by (cases k) auto
  note g = at_node [OF H, unfolded ptr_fill, folded p_def]
  have p: "nodes s p = Some (cell g Red (ptr pl) (ptr pr))" "aligned g" "p \<noteq> 0" "aligned p"
    using at_node [of F s "Into_left cg g u # K" pl Red p pr] H fk by simp_all
  have u: "red_node s (ptr u) = Some (color_of u = Red)"
    using red_node_ok [of F s "Into_right (fill k t) cg g # K" u] H by simp
  show ?thesis
  proof (cases "color_of u = Red")
    case True
    then obtain ul ua ur where uu: "u = Node ul Red ua ur" by (cases u) auto
    obtain s1 s2 s3 where c: "rb_set_black s ua = Some s1" "rb_set_black s1 p = Some s2" "rb_set_red s2 g = Some s3"
      "heap_holds F s3 (plug K (Node (Node pl Black p pr) Red g (Node ul Black ua ur)))"
      using push_red_left [of F s K pl Red p pr cg g ul Red ua ur] H fk uu by auto
    have "insert_turn s n (step_ptr k) = Some (g, s3)"
      using g p u uu c by (simp add: insert_turn_def cell_reads p_def [symmetric])
    moreover have "fixing F as s3 g K (Node (Node pl Black p pr) Red g (Node ul Black ua ur))"
      using assms c fk uu k by (auto simp: fixing_def inorder_plug t)
    ultimately show ?thesis by (intro exI conjI) auto
  next
    case False
    then have cu: "color_of u = Black" by simp
    show ?thesis
    proof (cases "k = Into_right pl Red p")
      case right: True
      then have pr: "pr = Node l Red n r" using k t fk by auto
      obtain s0 where r: "rb_rotate_left s p = Some s0"
        "heap_holds F s0 (plug K (Node (Node (Node pl Red p l) Red n r) cg g u))"
        using rotate_left_ok [of F s "Into_left cg g u # K" pl Red p l Red n r] H fk pr by auto
      obtain s1 s2 s3 where c: "rb_set_black s0 n = Some s1" "rb_set_red s1 g = Some s2" "rb_rotate_right s2 g = Some s3"
        "heap_holds F s3 (plug K (Node (Node pl Red p l) Black n (Node r Red g u)))"
        using lift_left [OF r(2)] by auto
      have "insert_turn s n (step_ptr k) = Some (p, s3)"
        using g p u cu c r pr by (simp add: insert_turn_def cell_reads p_def [symmetric])
      moreover have "fixing F as s3 p (Into_left Black n (Node r Red g u) # K) (Node pl Red p l)"
        using assms c right by (auto simp: fixing_def inorder_plug t cu)
      ultimately show ?thesis by (intro exI conjI) auto
    next
      case left: False
      then have pl: "pl = Node l Red n r" "k = Into_left Red p pr" using k t by auto
      have "ptr pr \<noteq> n"
        using children_differ [of F s "Into_left cg g u # K" pl Red p pr] H fk pl by auto
      obtain s1 s2 s3 where c: "rb_set_black s p = Some s1" "rb_set_red s1 g = Some s2" "rb_rotate_right s2 g = Some s3"
        "heap_holds F s3 (plug K (Node pl Black p (Node pr Red g u)))"
        using lift_left [of F s K pl Red p pr cg g u] H fk by auto
      have "insert_turn s n (step_ptr k) = Some (n, s3)"
        using g p u cu c \<open>ptr pr \<noteq> n\<close> by (simp add: insert_turn_def cell_reads p_def [symmetric])
      moreover have "fixing F as s3 n (Into_left Black p (Node pr Red g u) # K) pl"
        using assms c pl by (auto simp: fixing_def inorder_plug t cu)
      ultimately show ?thesis by (intro exI conjI) auto
    qed
  qed
qed

lemma insert_turn_right:
  assumes "fixing F as s n (k # Into_right u cg g # K) t" "above (k # K) = Red"
  shows "\<exists>n' s' K' t'. insert_turn s n (step_ptr k) = Some (n', s') \<and> fixing F as s' n' K' t' \<and>
    length K' < Suc (Suc (length K))"
proof -
  obtain l r where t: "t = Node l Red n r" using assms by (cases t) (auto simp: fixing_def)
  define p where "p = step_ptr k"
  have H: "heap_holds F s (plug K (Node u cg g (fill k t)))" using assms by (simp add: fixing_def)
  obtain pl pr where k: "k = Into_left Red p pr \<and> pl = t \<or> k = Into_right pl Red p \<and> pr = t"
    and fk: "fill k t = Node pl Red p pr"
    using assms(2) p_def by (cases k) auto
  note g = at_node [OF H, unfolded ptr_fill, folded p_def]
  have p: "nodes s p = Some (cell g Red (ptr pl) (ptr pr))" "aligned g" "p \<noteq> 0" "aligned p"
    using at_node [of F s "Into_right u cg g # K" pl Red p pr] H fk by simp_all
  have u: "red_node s (ptr u) = Some (color_of u = Red)"
    using red_node_ok [of F s "Into_left cg g (fill k t) # K" u] H by simp
  have up: "p \<noteq> ptr u" using children_differ [OF H] fk by auto
  show ?thesis
  proof (cases "color_of u = Red")
    case True
    then obtain ul ua ur where uu: "u = Node ul Red ua ur" by (cases u) auto
    obtain s1 s2 s3 where c: "rb_set_black s ua = Some s1" "rb_set_black s1 p = Some s2" "rb_set_red s2 g = Some s3"
      "heap_holds F s3 (plug K (Node (Node ul Black ua ur) Red g (Node pl Black p pr)))"
      using push_red_right [of F s K ul Red ua ur cg g pl Red p pr] H fk uu by auto
    have "insert_turn s n (step_ptr k) = Some (g, s3)"
      using g p u up uu c by (simp add: insert_turn_def cell_reads p_def [symmetric])
    moreover have "fixing F as s3 g K (Node (Node ul Black ua ur) Red g (Node pl Black p pr))"
      using assms c fk uu k by (auto simp: fixing_def inorder_plug t)
    ultimately show ?thesis by (intro exI conjI) auto
  next
    case False
    then have cu: "color_of u = Black" by simp
    show ?thesis
    proof (cases "k = Into_left Red p pr")
      case left: True
      then have pl: "pl = Node l Red n r" using k t fk by auto
      obtain s0 where r: "rb_rotate_right s p = Some s0"
        "heap_holds F s0 (plug K (Node u cg g (Node l Red n (Node r Red p pr))))"
        using rotate_right_ok [of F s "Into_right u cg g # K" l Red n r Red p pr] H fk pl by auto
      obtain s1 s2 s3 where c: "rb_set_black s0 n = Some s1" "rb_set_red s1 g = Some s2" "rb_rotate_left s2 g = Some s3"
        "heap_holds F s3 (plug K (Node (Node u Red g l) Black n (Node r Red p pr)))"
        using lift_right [OF r(2)] by auto
      have "insert_turn s n (step_ptr k) = Some (p, s3)"
        using g p u up cu c r pl by (simp add: insert_turn_def cell_reads p_def [symmetric])
      moreover have "fixing F as s3 p (Into_right (Node u Red g l) Black n # K) (Node r Red p pr)"
        using assms c left by (auto simp: fixing_def inorder_plug t cu)
      ultimately show ?thesis by (intro exI conjI) auto
    next
      case right: False
      then have pr: "pr = Node l Red n r" "k = Into_right pl Red p" using k t by auto
      have "ptr pl \<noteq> n"
        using children_differ [of F s "Into_right u cg g # K" pl Red p pr] H fk pr by auto
      obtain s1 s2 s3 where c: "rb_set_black s p = Some s1" "rb_set_red s1 g = Some s2" "rb_rotate_left s2 g = Some s3"
        "heap_holds F s3 (plug K (Node (Node u Red g pl) Black p pr))"
        using lift_right [of F s K u cg g pl Red p pr] H fk by auto
      have "insert_turn s n (step_ptr k) = Some (n, s3)"
        using g p u up cu c \<open>ptr pl \<noteq> n\<close> by (simp add: insert_turn_def cell_reads p_def [symmetric])
      moreover have "fixing F as s3 n (Into_right (Node u Red g pl) Black p # K) pr"
        using assms c pr by (auto simp: fixing_def inorder_plug t cu)
      ultimately show ?thesis by (intro exI conjI) auto
    qed
  qed
qed

lemma insert_loop_ok:
  assumes "fixing F as s n K t"
  shows "\<exists>s' K' t'. insert_loop s n = Some s' \<and> heap_holds F s' (plug K' t') \<and> inorder (plug K' t') = as \<and>
    balanced t' \<and> t' \<noteq> Leaf \<and> open_at K' (bheight t') \<and> (K' = [] \<or> above K' = Black)"
  using assms
proof (induction "length K" arbitrary: s n K t rule: less_induct)
  case less
  obtain l r where t: "t = Node l Red n r" using less.prems by (cases t) (auto simp: fixing_def)
  have H: "heap_holds F s (plug K (Node l Red n r))" using less.prems t by (simp add: fixing_def)
  have n: "nodes s n = Some (cell (up K) Red (ptr l) (ptr r))" "aligned (up K)"
    using at_node [OF H] by simp_all
  have red: "red_node s (up K) = Some (K \<noteq> [] \<and> above K = Red)"
  proof (cases K)
    case (Cons f K')
    have "red_node s (ptr (fill f t)) = Some (color_of (fill f t) = Red)"
      using H t Cons by (intro red_node_ok [of F s K']) simp
    then show ?thesis using Cons by (cases f) simp_all
  qed (simp add: red_node_def)
  show ?case
  proof (cases "K \<noteq> [] \<and> above K = Red")
    case False
    then have "red_node s (up K) = Some False" using red by auto
    then have "insert_loop s n = Some s"
      using n by (subst insert_loop.simps) (simp add: cell_reads)
    then show ?thesis using less.prems False by (auto simp: fixing_def)
  next
    case True
    then obtain k K1 where K1: "K = k # K1" by (cases K) auto
    have "above K1 = Black" using less.prems True K1 by (cases k) (auto simp: fixing_def)
    then obtain k2 K2 where K2: "K1 = k2 # K2" by (cases K1) auto
    have red_k: "above (k # K2) = Red" using True K1 by (cases k) simp_all
    obtain n' s' K' t' where turn: "insert_turn s n (step_ptr k) = Some (n', s')" "fixing F as s' n' K' t'"
      "length K' < length K"
    proof (cases k2)
      case (Into_left cg g u)
      with insert_turn_left [of F as s n k cg g u K2 t] less.prems K1 K2 red_k that show ?thesis by auto
    next
      case (Into_right u cg g)
      with insert_turn_right [of F as s n k u cg g K2 t] less.prems K1 K2 red_k that show ?thesis by auto
    qed
    have "red_node s (up K) = Some True" using red True by simp
    then have "insert_loop s n = insert_loop s' n'"
      using n turn(1) K1 by (subst insert_loop.simps) (simp add: cell_reads)
    then show ?thesis using less.hyps [OF turn(3,2)] by simp
  qed
qed

lemma blacken_root:
  assumes "heap_holds F s t" "t \<noteq> Leaf" "balanced t"
  shows "\<exists>s' t'. rb_set_black s (rb_root s) = Some s' \<and> heap_holds F s' t' \<and> inorder t' = inorder t \<and> red_black t'"
proof -
  obtain l c a r where t: "t = Node l c a r" using assms(2) by (cases t) auto
  have "rb_root s = a" using assms(1) t by (simp add: heap_holds_def)
  then show ?thesis
    using set_colours_ok(1) [of F s "[]" l c a r] assms t by (fastforce simp: red_black_def)
qed

lemma insert_color_ok:
  assumes "fixing F as s n K t"
  shows "\<exists>s' t'. rb_insert_color s n = Some s' \<and> heap_holds F s' t' \<and> inorder t' = as \<and> red_black t'"
proof -
  obtain s1 K1 t1 where 1: "insert_loop s n = Some s1" "heap_holds F s1 (plug K1 t1)" "inorder (plug K1 t1) = as"
    "balanced t1" "t1 \<noteq> Leaf" "open_at K1 (bheight t1)" "K1 = [] \<or> above K1 = Black"
    using insert_loop_ok [OF assms] by blast
  have "balanced (plug K1 t1)"
    using 1 red_black_plug [of t1 K1] by (cases "K1 = []") (auto simp: red_black_def)
  moreover have "plug K1 t1 \<noteq> Leaf"
    using 1 by (metis append_is_Nil_conv inorder.simps(1) inorder_plug list.set_cases ptr_in self_append_conv2 empty_iff list.set(1))
  ultimately show ?thesis using blacken_root [OF 1(2)] 1(1,3) by (auto simp: rb_insert_color_def)
qed

lemma red_black_unplug:
  assumes "red_black (plug K t)"
  shows "balanced t" "open_at K (bheight t)" "color_of t = Red \<longrightarrow> above K = Black"
proof -
  from assms have "balanced t \<and> open_at K (bheight t) \<and> (color_of t = Red \<longrightarrow> above K = Black)"
  proof (induction K arbitrary: t)
    case (Cons f K)
    from Cons.IH [of "fill f t"] Cons.prems show ?case by (cases f) (auto split: if_splits)
  qed (simp add: red_black_def)
  then show "balanced t" "open_at K (bheight t)" "color_of t = Red \<longrightarrow> above K = Black" by simp_all
qed

fun link_of :: "step list \<Rightarrow> rb_link" where
  "link_of [] = Root_link"
| "link_of (Into_left c a r # K) = Left_link a"
| "link_of (Into_right l c a # K) = Right_link a"

lemma put_link_ok:
  assumes "K \<noteq> [] \<Longrightarrow> nodes s (up K) = Some (step_cell (up (tl K)) (hd K) x)" "rb_root s = path_root K x"
  shows "put_link s (link_of K) y = Some (s\<lparr>nodes := relink (nodes s) K y, rb_root := path_root K y\<rparr>)"
proof (cases K)
  case (Cons f K')
  then show ?thesis using assms
    by (cases f) (auto simp: put_link_def relink_def path_root_def set_ops)
qed (simp add: put_link_def relink_def path_root_def)

lemma link_node_ok:
  assumes "heap_holds F s (plug K Leaf)" "nodes s n \<noteq> None" "n \<notin> set (inorder (plug K Leaf))" "n \<noteq> 0" "aligned n"
  shows "\<exists>s'. rb_link_node s n (up K) (link_of K) = Some s' \<and> heap_holds F s' (plug K (Node Leaf Red n Leaf))"
proof -
  let ?c = "cell (up K) Red 0 0"
  let ?h = "relink ((nodes s)(n \<mapsto> ?c)) K n"
  have n: "n \<notin> set (before K)" "n \<notin> set (after K)" using assms(3) by (simp_all add: inorder_plug)
  note h = assms(1) [unfolded holds_plug, simplified, unfolded addresses_ok_append]
  have up: "up K \<noteq> n" using h n assms(4) by (intro path_facts(1)) auto
  have p1: "update_node s n (\<lambda>_. \<lparr>rb_parent_color = up K, rb_right = 0, rb_left = 0\<rparr>) =
      Some (s\<lparr>nodes := (nodes s)(n \<mapsto> ?c)\<rparr>)"
    using assms(2) by (auto simp: update_node_def cell_def pack_def)
  have "K \<noteq> [] \<Longrightarrow> nodes s (up K) = Some (step_cell (up (tl K)) (hd K) 0)"
    using h by (cases K) simp_all
  then have "put_link (s\<lparr>nodes := (nodes s)(n \<mapsto> ?c)\<rparr>) (link_of K) n =
      Some (s\<lparr>nodes := ?h, rb_root := path_root K n\<rparr>)"
    using put_link_ok [of K "s\<lparr>nodes := (nodes s)(n \<mapsto> ?c)\<rparr>" 0 n] up h by simp
  with p1 have "rb_link_node s n (up K) (link_of K) = Some (s\<lparr>nodes := ?h, rb_root := path_root K n\<rparr>)"
    by (simp add: rb_link_node_def)
  moreover have "path_at ?h K n"
  proof (rule path_at_relink)
    show "path_at ((nodes s)(n \<mapsto> ?c)) K 0"
      by (rule path_at_cong [where h = "nodes s"]) (use h n in auto)
    show "distinct (before K @ after K)" using h by (simp add: addresses_ok_def)
  qed
  moreover have "?h n = Some ?c" using up by (simp add: relink_other)
  moreover have "?h b = F b" if "b \<notin> set (before K)" "b \<notin> set (after K)" "b \<noteq> n" for b
    using that h by (simp add: relink_path_other)
  ultimately show ?thesis using h n assms(4,5)
    by (simp add: holds_plug addresses_ok_append addresses_ok_Cons)
qed

lemma insert_ok:
  assumes "heap_holds F s (plug K Leaf)" "red_black (plug K Leaf)" "nodes s n \<noteq> None"
    "n \<notin> set (before K)" "n \<notin> set (after K)" "n \<noteq> 0" "aligned n"
  shows "\<exists>s1 s2 t. rb_link_node s n (up K) (link_of K) = Some s1 \<and> rb_insert_color s1 n = Some s2 \<and>
    heap_holds F s2 t \<and> inorder t = before K @ n # after K \<and> red_black t"
proof -
  obtain s1 where 1: "rb_link_node s n (up K) (link_of K) = Some s1" "heap_holds F s1 (plug K (Node Leaf Red n Leaf))"
    using link_node_ok [OF assms(1,3)] assms(4-7) by (auto simp: inorder_plug)
  have "fixing F (before K @ n # after K) s1 n K (Node Leaf Red n Leaf)"
    using 1 red_black_unplug [OF assms(2)] by (simp add: fixing_def inorder_plug)
  from insert_color_ok [OF this] show ?thesis using 1 by auto
qed

section \<open>Removal\<close>

definition rest_left :: "rb_state \<Rightarrow> u64 \<Rightarrow> u64 \<Rightarrow> (bool \<times> u64 \<times> u64 \<times> rb_state) option" where
  "rest_left s parent other = do {
     n \<leftarrow> nodes s other;
     bl \<leftarrow> black_or_null s (rb_left n);
     br \<leftarrow> black_or_null s (rb_right n);
     if bl \<and> br then do {
       s \<leftarrow> rb_set_red s other;
       p \<leftarrow> nodes s parent;
       Some (False, parent, rb_parent p, s) }
     else do {
       (other, s) \<leftarrow> (if br then do {
             s \<leftarrow> rb_set_black s (rb_left n);
             s \<leftarrow> rb_set_red s other;
             s \<leftarrow> rb_rotate_right s other;
             p \<leftarrow> nodes s parent;
             Some (rb_right p, s) }
           else Some (other, s));
       p \<leftarrow> nodes s parent;
       s \<leftarrow> rb_set_color s other (rb_color p);
       s \<leftarrow> rb_set_black s parent;
       n \<leftarrow> nodes s other;
       s \<leftarrow> rb_set_black s (rb_right n);
       s \<leftarrow> rb_rotate_left s parent;
       Some (True, rb_root s, parent, s) } }"

definition rest_right :: "rb_state \<Rightarrow> u64 \<Rightarrow> u64 \<Rightarrow> (bool \<times> u64 \<times> u64 \<times> rb_state) option" where
  "rest_right s parent other = do {
     n \<leftarrow> nodes s other;
     bl \<leftarrow> black_or_null s (rb_left n);
     br \<leftarrow> (if bl then black_or_null s (rb_right n) else Some False);
     if bl \<and> br then do {
       s \<leftarrow> rb_set_red s other;
       p \<leftarrow> nodes s parent;
       Some (False, parent, rb_parent p, s) }
     else do {
       (other, s) \<leftarrow> (if bl then do {
             s \<leftarrow> rb_set_black s (rb_right n);
             s \<leftarrow> rb_set_red s other;
             s \<leftarrow> rb_rotate_left s other;
             p \<leftarrow> nodes s parent;
             Some (rb_left p, s) }
           else Some (other, s));
       p \<leftarrow> nodes s parent;
       s \<leftarrow> rb_set_color s other (rb_color p);
       s \<leftarrow> rb_set_black s parent;
       n \<leftarrow> nodes s other;
       s \<leftarrow> rb_set_black s (rb_left n);
       s \<leftarrow> rb_rotate_right s parent;
       Some (True, rb_root s, parent, s) } }"

lemma erase_turn_eq: "erase_turn s node parent = do {
     p \<leftarrow> nodes s parent;
     if rb_left p = node then do {
       let other = rb_right p;
       n \<leftarrow> nodes s other;
       (other, s) \<leftarrow> (if rb_is_red n then do {
             s \<leftarrow> rb_set_black s other;
             s \<leftarrow> rb_set_red s parent;
             s \<leftarrow> rb_rotate_left s parent;
             p \<leftarrow> nodes s parent;
             Some (rb_right p, s) }
           else Some (other, s));
       rest_left s parent other }
     else do {
       let other = rb_left p;
       n \<leftarrow> nodes s other;
       (other, s) \<leftarrow> (if rb_is_red n then do {
             s \<leftarrow> rb_set_black s other;
             s \<leftarrow> rb_set_red s parent;
             s \<leftarrow> rb_rotate_right s parent;
             p \<leftarrow> nodes s parent;
             Some (rb_left p, s) }
           else Some (other, s));
       rest_right s parent other } }"
  unfolding erase_turn_def rest_left_def rest_right_def by (rule refl)

lemma final_left:
  assumes "heap_holds F s (plug K (Node t c p (Node ol d q (Node a e b x))))"
  shows "\<exists>s1 s2 s3 s4. rb_set_color s q (code c) = Some s1 \<and> rb_set_black s1 p = Some s2 \<and>
    rb_set_black s2 b = Some s3 \<and> rb_rotate_left s3 p = Some s4 \<and>
    nodes s2 q = Some (cell p c (ptr ol) b) \<and>
    heap_holds F s4 (plug K (Node (Node t Black p ol) c q (Node a Black b x)))"
proof -
  obtain s1 where s1: "rb_set_color s q (code c) = Some s1" "heap_holds F s1 (plug K (Node t c p (Node ol c q (Node a e b x))))"
    using set_colours_ok(3) [of F s "Into_right t c p # K" ol d q "Node a e b x" c] assms by auto
  obtain s2 where s2: "rb_set_black s1 p = Some s2" "heap_holds F s2 (plug K (Node t Black p (Node ol c q (Node a e b x))))"
    using set_colours_ok(1) [OF s1(2)] by auto
  have q: "nodes s2 q = Some (cell p c (ptr ol) b)"
    using at_node [of F s2 "Into_right t Black p # K" ol c q "Node a e b x"] s2 by simp
  obtain s3 where s3: "rb_set_black s2 b = Some s3" "heap_holds F s3 (plug K (Node t Black p (Node ol c q (Node a Black b x))))"
    using set_colours_ok(1) [of F s2 "Into_right ol c q # Into_right t Black p # K" a e b x] s2 by auto
  show ?thesis using rotate_left_ok [OF s3(2)] s1 s2 s3 q by auto
qed

lemma final_right:
  assumes "heap_holds F s (plug K (Node (Node (Node a e b x) d q ol) c p t))"
  shows "\<exists>s1 s2 s3 s4. rb_set_color s q (code c) = Some s1 \<and> rb_set_black s1 p = Some s2 \<and>
    rb_set_black s2 b = Some s3 \<and> rb_rotate_right s3 p = Some s4 \<and>
    nodes s2 q = Some (cell p c b (ptr ol)) \<and>
    heap_holds F s4 (plug K (Node (Node a Black b x) c q (Node ol Black p t)))"
proof -
  obtain s1 where s1: "rb_set_color s q (code c) = Some s1" "heap_holds F s1 (plug K (Node (Node (Node a e b x) c q ol) c p t))"
    using set_colours_ok(3) [of F s "Into_left c p t # K" "Node a e b x" d q ol c] assms by auto
  obtain s2 where s2: "rb_set_black s1 p = Some s2" "heap_holds F s2 (plug K (Node (Node (Node a e b x) c q ol) Black p t))"
    using set_colours_ok(1) [OF s1(2)] by auto
  have q: "nodes s2 q = Some (cell p c b (ptr ol))"
    using at_node [of F s2 "Into_left Black p t # K" "Node a e b x" c q ol] s2 by simp
  obtain s3 where s3: "rb_set_black s2 b = Some s3" "heap_holds F s3 (plug K (Node (Node (Node a Black b x) c q ol) Black p t))"
    using set_colours_ok(1) [of F s2 "Into_left c q ol # Into_left Black p t # K" a e b x] s2 by auto
  show ?thesis using rotate_right_ok [OF s3(2)] s1 s2 s3 q by auto
qed

fun blacken :: "rbt \<Rightarrow> rbt" where
  "blacken Leaf = Leaf"
| "blacken (Node l c a r) = Node l Black a r"

text \<open>One black node is missing below the end of the path.\<close>

definition erasing :: "(u64 \<Rightarrow> rb_node option) \<Rightarrow> u64 list \<Rightarrow> rb_state \<Rightarrow> u64 \<Rightarrow> u64 \<Rightarrow> step list \<Rightarrow> rbt \<Rightarrow> bool" where
  "erasing F as s n p K t \<longleftrightarrow> heap_holds F s (plug K t) \<and> inorder (plug K t) = as \<and> ptr t = n \<and> up K = p \<and>
     balanced (blacken t) \<and> open_at K (Suc (bheight t))"

definition turned :: "(u64 \<Rightarrow> rb_node option) \<Rightarrow> u64 list \<Rightarrow> nat \<Rightarrow> (bool \<times> u64 \<times> u64 \<times> rb_state) option \<Rightarrow> bool" where
  "turned F as k r \<longleftrightarrow> (\<exists>b n p s. r = Some (b, n, p, s) \<and>
     (if b then n = rb_root s \<and> (\<exists>T. heap_holds F s T \<and> T \<noteq> Leaf \<and> inorder T = as \<and> red_black T)
      else (\<exists>K t. erasing F as s n p K t \<and> (length K < k \<or> length K = k \<and> color_of t = Red))))"

lemma plug_not_Leaf: "t \<noteq> Leaf \<Longrightarrow> plug K t \<noteq> Leaf"
proof (induction K arbitrary: t)
  case (Cons f K)
  then show ?case by (cases f) simp_all
qed simp

lemma turned_done:
  "r = Some (True, rb_root s, p, s) \<Longrightarrow> heap_holds F s (plug K t) \<Longrightarrow> inorder (plug K t) = as \<Longrightarrow> balanced t \<Longrightarrow>
    open_at K (bheight t) \<Longrightarrow> color_of t = Red \<longrightarrow> above K = Black \<Longrightarrow> t \<noteq> Leaf \<Longrightarrow> turned F as k r"
  using red_black_plug [of t K] plug_not_Leaf [of t K] by (auto simp: turned_def)

lemma open_above: "open_at (Into_left c p o' # K) n \<Longrightarrow> c = Red \<longrightarrow> above K = Black"
  "open_at (Into_right o' c p # K) n \<Longrightarrow> c = Red \<longrightarrow> above K = Black"
  by simp_all

lemma rest_left_ok:
  assumes "erasing F as s n p (Into_left c p (Node ol Black q orr) # K) t" "color_of t = Black"
    "length K < k \<or> c = Red \<and> length K \<le> k"
  shows "turned F as k (rest_left s p q)"
proof -
  have H: "heap_holds F s (plug K (Node t c p (Node ol Black q orr)))" using assms(1) by (simp add: erasing_def)
  have bt: "balanced t" using assms(1,2) by (cases t) (auto simp: erasing_def)
  note p = at_node [OF H]
  have q: "nodes s q = Some (cell p Black (ptr ol) (ptr orr))" "q \<noteq> 0" "aligned p"
    using at_node [of F s "Into_right t c p # K" ol Black q orr] H by simp_all
  have bl: "black_or_null s (ptr ol) = Some (color_of ol = Black)"
    using black_or_null_ok [of F s "Into_left Black q orr # Into_right t c p # K" ol] H by simp
  have br: "black_or_null s (ptr orr) = Some (color_of orr = Black)"
    using black_or_null_ok [of F s "Into_right ol Black q # Into_right t c p # K" orr] H by simp
  show ?thesis
  proof (cases "color_of orr = Black")
    case False
    then obtain a b x where r: "orr = Node a Red b x" by (cases orr) auto
    obtain s1 s2 s3 s4 where c: "rb_set_color s q (code c) = Some s1" "rb_set_black s1 p = Some s2"
      "rb_set_black s2 b = Some s3" "rb_rotate_left s3 p = Some s4" "nodes s2 q = Some (cell p c (ptr ol) b)"
      "heap_holds F s4 (plug K (Node (Node t Black p ol) c q (Node a Black b x)))"
      using final_left [OF H [unfolded r]] by auto
    have "rest_left s p q = Some (True, rb_root s4, p, s4)"
      using p q bl br c r by (simp add: rest_left_def cell_reads)
    then show ?thesis
      by (rule turned_done [OF _ c(6)]) (use assms bt r in \<open>auto simp: erasing_def inorder_plug\<close>)
  next
    case or: True
    show ?thesis
    proof (cases "color_of ol = Black")
      case False
      then obtain a b x where l: "ol = Node a Red b x" by (cases ol) auto
      obtain s1 where s1: "rb_set_black s b = Some s1" "heap_holds F s1 (plug K (Node t c p (Node (Node a Black b x) Black q orr)))"
        using set_colours_ok(1) [of F s "Into_left Black q orr # Into_right t c p # K" a Red b x] H l by auto
      obtain s2 where s2: "rb_set_red s1 q = Some s2" "heap_holds F s2 (plug K (Node t c p (Node (Node a Black b x) Red q orr)))"
        using set_colours_ok(2) [of F s1 "Into_right t c p # K" "Node a Black b x" Black q orr] s1 by auto
      obtain s3 where s3: "rb_rotate_right s2 q = Some s3" "heap_holds F s3 (plug K (Node t c p (Node a Black b (Node x Red q orr))))"
        using rotate_right_ok [of F s2 "Into_right t c p # K" a Black b x Red q orr] s2 by auto
      note p3 = at_node [OF s3(2)]
      obtain t1 t2 t3 t4 where c: "rb_set_color s3 b (code c) = Some t1" "rb_set_black t1 p = Some t2"
        "rb_set_black t2 q = Some t3" "rb_rotate_left t3 p = Some t4" "nodes t2 b = Some (cell p c (ptr a) q)"
        "heap_holds F t4 (plug K (Node (Node t Black p a) c b (Node x Black q orr)))"
        using final_left [OF s3(2)] by auto
      have "rest_left s p q = Some (True, rb_root t4, p, t4)"
        using p q bl br s1 s2 s3 p3 c l or by (simp add: rest_left_def cell_reads)
      then show ?thesis
        by (rule turned_done [OF _ c(6)]) (use assms bt l or in \<open>auto simp: erasing_def inorder_plug\<close>)
    next
      case ol: True
      obtain s1 where s1: "rb_set_red s q = Some s1" "heap_holds F s1 (plug K (Node t c p (Node ol Red q orr)))"
        using set_colours_ok(2) [of F s "Into_right t c p # K" ol Black q orr] H by auto
      have "rest_left s p q = Some (False, p, up K, s1)"
        using p q bl br s1 at_node [OF s1(2)] ol or by (simp add: rest_left_def cell_reads)
      moreover have "erasing F as s1 p (up K) K (Node t c p (Node ol Red q orr))"
        using assms(1) bt s1 ol or by (auto simp: erasing_def inorder_plug)
      ultimately show ?thesis using assms(3) by (auto simp: turned_def intro!: exI [of _ K] exI)
    qed
  qed
qed

lemma rest_right_ok:
  assumes "erasing F as s n p (Into_right (Node ol Black q orr) c p # K) t" "color_of t = Black"
    "length K < k \<or> c = Red \<and> length K \<le> k"
  shows "turned F as k (rest_right s p q)"
proof -
  have H: "heap_holds F s (plug K (Node (Node ol Black q orr) c p t))" using assms(1) by (simp add: erasing_def)
  have bt: "balanced t" using assms(1,2) by (cases t) (auto simp: erasing_def)
  note p = at_node [OF H]
  have q: "nodes s q = Some (cell p Black (ptr ol) (ptr orr))" "q \<noteq> 0" "aligned p"
    using at_node [of F s "Into_left c p t # K" ol Black q orr] H by simp_all
  have bl: "black_or_null s (ptr ol) = Some (color_of ol = Black)"
    using black_or_null_ok [of F s "Into_left Black q orr # Into_left c p t # K" ol] H by simp
  have br: "black_or_null s (ptr orr) = Some (color_of orr = Black)"
    using black_or_null_ok [of F s "Into_right ol Black q # Into_left c p t # K" orr] H by simp
  show ?thesis
  proof (cases "color_of ol = Black")
    case False
    then obtain a b x where l: "ol = Node a Red b x" by (cases ol) auto
    obtain s1 s2 s3 s4 where c: "rb_set_color s q (code c) = Some s1" "rb_set_black s1 p = Some s2"
      "rb_set_black s2 b = Some s3" "rb_rotate_right s3 p = Some s4" "nodes s2 q = Some (cell p c b (ptr orr))"
      "heap_holds F s4 (plug K (Node (Node a Black b x) c q (Node orr Black p t)))"
      using final_right [OF H [unfolded l]] by auto
    have "rest_right s p q = Some (True, rb_root s4, p, s4)"
      using p q bl br c l by (simp add: rest_right_def cell_reads)
    then show ?thesis
      by (rule turned_done [OF _ c(6)]) (use assms bt l in \<open>auto simp: erasing_def inorder_plug\<close>)
  next
    case ol: True
    show ?thesis
    proof (cases "color_of orr = Black")
      case False
      then obtain a b x where r: "orr = Node a Red b x" by (cases orr) auto
      obtain s1 where s1: "rb_set_black s b = Some s1" "heap_holds F s1 (plug K (Node (Node ol Black q (Node a Black b x)) c p t))"
        using set_colours_ok(1) [of F s "Into_right ol Black q # Into_left c p t # K" a Red b x] H r by auto
      obtain s2 where s2: "rb_set_red s1 q = Some s2" "heap_holds F s2 (plug K (Node (Node ol Red q (Node a Black b x)) c p t))"
        using set_colours_ok(2) [of F s1 "Into_left c p t # K" ol Black q "Node a Black b x"] s1 by auto
      obtain s3 where s3: "rb_rotate_left s2 q = Some s3" "heap_holds F s3 (plug K (Node (Node (Node ol Red q a) Black b x) c p t))"
        using rotate_left_ok [of F s2 "Into_left c p t # K" ol Red q a Black b x] s2 by auto
      note p3 = at_node [OF s3(2)]
      obtain t1 t2 t3 t4 where c: "rb_set_color s3 b (code c) = Some t1" "rb_set_black t1 p = Some t2"
        "rb_set_black t2 q = Some t3" "rb_rotate_right t3 p = Some t4" "nodes t2 b = Some (cell p c q (ptr x))"
        "heap_holds F t4 (plug K (Node (Node ol Black q a) c b (Node x Black p t)))"
        using final_right [OF s3(2)] by auto
      have "rest_right s p q = Some (True, rb_root t4, p, t4)"
        using p q bl br s1 s2 s3 p3 c r ol by (simp add: rest_right_def cell_reads)
      then show ?thesis
        by (rule turned_done [OF _ c(6)]) (use assms bt r ol in \<open>auto simp: erasing_def inorder_plug\<close>)
    next
      case or: True
      obtain s1 where s1: "rb_set_red s q = Some s1" "heap_holds F s1 (plug K (Node (Node ol Red q orr) c p t))"
        using set_colours_ok(2) [of F s "Into_left c p t # K" ol Black q orr] H by auto
      have "rest_right s p q = Some (False, p, up K, s1)"
        using p q bl br s1 at_node [OF s1(2)] ol or by (simp add: rest_right_def cell_reads)
      moreover have "erasing F as s1 p (up K) K (Node (Node ol Red q orr) c p t)"
        using assms(1) bt s1 ol or by (auto simp: erasing_def inorder_plug)
      ultimately show ?thesis using assms(3) by (auto simp: turned_def intro!: exI [of _ K] exI)
    qed
  qed
qed

text \<open>A red sibling is rotated away first.\<close>

lemma red_sibling_left:
  assumes "heap_holds F s (plug K (Node t c p (Node ol d q orr)))"
  shows "\<exists>s1 s2 s3. rb_set_black s q = Some s1 \<and> rb_set_red s1 p = Some s2 \<and> rb_rotate_left s2 p = Some s3 \<and>
    heap_holds F s3 (plug K (Node (Node t Red p ol) Black q orr))"
proof -
  obtain s1 where s1: "rb_set_black s q = Some s1" "heap_holds F s1 (plug K (Node t c p (Node ol Black q orr)))"
    using set_colours_ok(1) [of F s "Into_right t c p # K" ol d q orr] assms by auto
  obtain s2 where s2: "rb_set_red s1 p = Some s2" "heap_holds F s2 (plug K (Node t Red p (Node ol Black q orr)))"
    using set_colours_ok(2) [OF s1(2)] by auto
  show ?thesis using rotate_left_ok [OF s2(2)] s1 s2 by auto
qed

lemma red_sibling_right:
  assumes "heap_holds F s (plug K (Node (Node ol d q orr) c p t))"
  shows "\<exists>s1 s2 s3. rb_set_black s q = Some s1 \<and> rb_set_red s1 p = Some s2 \<and> rb_rotate_right s2 p = Some s3 \<and>
    heap_holds F s3 (plug K (Node ol Black q (Node orr Red p t)))"
proof -
  obtain s1 where s1: "rb_set_black s q = Some s1" "heap_holds F s1 (plug K (Node (Node ol Black q orr) c p t))"
    using set_colours_ok(1) [of F s "Into_left c p t # K" ol d q orr] assms by auto
  obtain s2 where s2: "rb_set_red s1 p = Some s2" "heap_holds F s2 (plug K (Node (Node ol Black q orr) Red p t))"
    using set_colours_ok(2) [OF s1(2)] by auto
  show ?thesis using rotate_right_ok [OF s2(2)] s1 s2 by auto
qed

lemma black_child: "balanced t \<Longrightarrow> bheight t = Suc n \<Longrightarrow> color_of t = Black \<Longrightarrow> \<exists>l a r. t = Node l Black a r"
  by (cases t) auto

lemma erase_turn_ok:
  assumes "erasing F as s n p (f # K) t" "color_of t = Black"
  shows "turned F as (Suc (length K)) (erase_turn s n p)"
proof (cases f)
  case (Into_left c p' w)
  then have p': "p' = p" using assms(1) by (simp add: erasing_def)
  have H: "heap_holds F s (plug K (Node t c p w))" using assms(1) Into_left p' by (simp add: erasing_def)
  have w: "balanced w" "bheight w = Suc (bheight t)" using assms(1) Into_left by (simp_all add: erasing_def)
  then obtain l d q r where wn: "w = Node l d q r" by (cases w) auto
  note p = at_node [OF H]
  have n: "ptr t = n" using assms(1) by (simp add: erasing_def)
  have q: "nodes s q = Some (cell p d (ptr l) (ptr r))"
    using at_node [of F s "Into_right t c p # K" l d q r] H wn by simp
  show ?thesis
  proof (cases "d = Red")
    case False
    then have "erase_turn s n p = rest_left s p q"
      using p q n wn by (simp add: erase_turn_eq cell_reads)
    then show ?thesis
      using rest_left_ok [of F as s n p c l q r K t "Suc (length K)"] assms Into_left p' wn False by simp
  next
    case True
    obtain s1 s2 s3 where c: "rb_set_black s q = Some s1" "rb_set_red s1 p = Some s2" "rb_rotate_left s2 p = Some s3"
      "heap_holds F s3 (plug K (Node (Node t Red p l) Black q r))"
      using red_sibling_left [OF H [unfolded wn]] by auto
    have bl: "color_of l = Black" "balanced l" "bheight l = Suc (bheight t)" using w wn True by auto
    then obtain ll la lr where l: "l = Node ll Black la lr" using black_child by blast
    have p3: "nodes s3 p = Some (cell q Red n la)"
      using at_node [of F s3 "Into_left Black q r # K" t Red p l] c(4) n l by simp
    have "erase_turn s n p = rest_left s3 p la"
      using p q n wn True c p3 by (simp add: erase_turn_eq cell_reads)
    moreover have "erasing F as s3 n p (Into_left Red p l # Into_left Black q r # K) t"
      using assms c Into_left p' w wn True bl n by (auto simp: erasing_def inorder_plug)
    ultimately show ?thesis
      using rest_left_ok [of F as s3 n p Red ll la lr "Into_left Black q r # K" t "Suc (length K)"] assms(2) l by simp
  qed
next
  case (Into_right w c p')
  then have p': "p' = p" using assms(1) by (simp add: erasing_def)
  have H: "heap_holds F s (plug K (Node w c p t))" using assms(1) Into_right p' by (simp add: erasing_def)
  have w: "balanced w" "bheight w = Suc (bheight t)" using assms(1) Into_right by (simp_all add: erasing_def)
  then obtain l d q r where wn: "w = Node l d q r" by (cases w) auto
  note p = at_node [OF H]
  have n: "ptr t = n" using assms(1) by (simp add: erasing_def)
  have nq: "q \<noteq> n" using children_differ [OF H] wn n by auto
  have q: "nodes s q = Some (cell p d (ptr l) (ptr r))"
    using at_node [of F s "Into_left c p t # K" l d q r] H wn by simp
  show ?thesis
  proof (cases "d = Red")
    case False
    then have "erase_turn s n p = rest_right s p q"
      using p q n nq wn by (simp add: erase_turn_eq cell_reads)
    then show ?thesis
      using rest_right_ok [of F as s n p l q r c K t "Suc (length K)"] assms Into_right p' wn False by simp
  next
    case True
    obtain s1 s2 s3 where c: "rb_set_black s q = Some s1" "rb_set_red s1 p = Some s2" "rb_rotate_right s2 p = Some s3"
      "heap_holds F s3 (plug K (Node l Black q (Node r Red p t)))"
      using red_sibling_right [OF H [unfolded wn]] by auto
    have br: "color_of r = Black" "balanced r" "bheight r = Suc (bheight t)" using w wn True by auto
    then obtain rl ra rr where r: "r = Node rl Black ra rr" using black_child by blast
    have p3: "nodes s3 p = Some (cell q Red ra n)"
      using at_node [of F s3 "Into_right l Black q # K" r Red p t] c(4) n r by simp
    have "erase_turn s n p = rest_right s3 p ra"
      using p q n nq wn True c p3 by (simp add: erase_turn_eq cell_reads)
    moreover have "erasing F as s3 n p (Into_right r Red p # Into_right l Black q # K) t"
      using assms c Into_right p' w wn True br n by (auto simp: erasing_def inorder_plug)
    ultimately show ?thesis
      using rest_right_ok [of F as s3 n p rl ra rr Red "Into_right l Black q # K" t "Suc (length K)"] assms(2) r by simp
  qed
qed

definition blackened :: "(u64 \<Rightarrow> rb_node option) \<Rightarrow> u64 list \<Rightarrow> u64 \<Rightarrow> rb_state \<Rightarrow> bool" where
  "blackened F as n s \<longleftrightarrow> (\<exists>s' T. (if n \<noteq> 0 then rb_set_black s n else Some s) = Some s' \<and> heap_holds F s' T \<and>
     inorder T = as \<and> red_black T)"

lemma erase_exit:
  assumes "erasing F as s n p K t" "K = [] \<or> color_of t = Red"
  shows "erase_loop s n p = Some (n, s) \<and> blackened F as n s"
proof
  have H: "heap_holds F s (plug K t)" and n: "ptr t = n" using assms(1) by (simp_all add: erasing_def)
  have b: "black_or_null s n = Some (color_of t = Black)" using black_or_null_ok [OF H] n by simp
  have "K = [] \<Longrightarrow> n = rb_root s" using H n by (simp add: heap_holds_def)
  with b show "erase_loop s n p = Some (n, s)"
    using assms(2) by (subst erase_loop.simps) auto
  show "blackened F as n s"
  proof (cases t)
    case Leaf
    then show ?thesis using assms n by (auto simp: blackened_def erasing_def red_black_def)
  next
    case (Node l c a r)
    obtain s' where s': "rb_set_black s a = Some s'" "heap_holds F s' (plug K (Node l Black a r))"
      using set_colours_ok(1) [OF H [unfolded Node]] by auto
    have "red_black (plug K (Node l Black a r))"
      using assms Node by (intro red_black_plug) (auto simp: erasing_def)
    then show ?thesis using s' Node n at_node(3) [OF H [unfolded Node]] assms
      by (auto simp: blackened_def erasing_def inorder_plug)
  qed
qed

lemma not_root:
  assumes "heap_holds F s (plug K t)" "K \<noteq> []"
  shows "ptr t \<noteq> rb_root s"
proof -
  have "step_ptr (last K) \<in> set (before K) \<union> set (after K)" if "K \<noteq> []" for K
    using that
  proof (induction K)
    case (Cons f K)
    then show ?case by (cases f) auto
  qed simp
  from this [OF assms(2)] show ?thesis
    using assms ptr_in [of t] by (cases "t = Leaf") (auto simp: holds_plug path_root_def addresses_ok_def)
qed

lemma erase_loop_ok:
  assumes "erasing F as s n p K t"
  shows "\<exists>n' s'. erase_loop s n p = Some (n', s') \<and> blackened F as n' s'"
  using assms
proof (induction "length K" arbitrary: s n p K t rule: less_induct)
  case less
  show ?case
  proof (cases "K = [] \<or> color_of t = Red")
    case True
    then show ?thesis using erase_exit [OF less.prems] by blast
  next
    case False
    then obtain f K0 where K: "K = f # K0" and bt: "color_of t = Black" by (cases K) auto
    have H: "heap_holds F s (plug K t)" "ptr t = n" using less.prems by (simp_all add: erasing_def)
    have test: "black_or_null s n = Some True" "n \<noteq> rb_root s"
      using black_or_null_ok [OF H(1)] not_root [OF H(1)] K bt H(2) by auto
    from erase_turn_ok [OF less.prems [unfolded K] bt] obtain b n' p' s' where
      turn: "erase_turn s n p = Some (b, n', p', s')" and
      res: "if b then n' = rb_root s' \<and> (\<exists>T. heap_holds F s' T \<and> T \<noteq> Leaf \<and> inorder T = as \<and> red_black T)
        else (\<exists>K t. erasing F as s' n' p' K t \<and> (length K < Suc (length K0) \<or> length K = Suc (length K0) \<and> color_of t = Red))"
      unfolding turned_def by blast
    have loop: "erase_loop s n p = (if b then Some (n', s') else erase_loop s' n' p')"
      using test turn by (subst erase_loop.simps) simp
    show ?thesis
    proof (cases b)
      case True
      then obtain T where T: "n' = rb_root s'" "heap_holds F s' T" "T \<noteq> Leaf" "inorder T = as" "red_black T"
        using res by auto
      have "n' \<noteq> 0" using T by (cases T) (auto simp: heap_holds_def addresses_ok_append addresses_ok_Cons)
      then have "blackened F as n' s'"
        using blacken_root [OF T(2,3)] T by (auto simp: blackened_def red_black_def)
      then show ?thesis using loop True by simp
    next
      case False
      then obtain K' t' where e: "erasing F as s' n' p' K' t'"
        "length K' < length K \<or> length K' = length K \<and> color_of t' = Red"
        using res K by auto
      then show ?thesis using less.hyps [OF _ e(1)] erase_exit [OF e(1)] loop False by auto
    qed
  qed
qed

lemma erase_color_ok:
  assumes "erasing F as s n p K t"
  shows "\<exists>s' T. rb_erase_color s n p = Some s' \<and> heap_holds F s' T \<and> inorder T = as \<and> red_black T"
  using erase_loop_ok [OF assms] by (auto simp: rb_erase_color_def blackened_def)

section \<open>Taking a node out of the tree\<close>

lemma holds_cut:
  assumes "heap_holds F s (plug K (Node l c a r))" "l = Leaf \<and> ch = r \<or> r = Leaf \<and> ch = l"
  shows "heap_holds (F(a := nodes s a)) (s\<lparr>nodes := relink (adopt (nodes s) (up K) ch) K (ptr ch),
    rb_root := path_root K (ptr ch)\<rparr>) (plug K ch)"
proof -
  let ?h1 = "adopt (nodes s) (up K) ch"
  let ?h = "relink ?h1 K (ptr ch)"
  note h = assms(1) [unfolded holds_plug, simplified, unfolded addresses_ok_append addresses_ok_Cons]
  have ch: "set (inorder ch) \<inter> (set (before K) \<union> {a} \<union> set (after K)) = {}" "addresses_ok (inorder ch)"
    "tree_at (nodes s) a ch" "insert a (set (inorder ch)) = set (inorder (Node l c a r))"
    using h assms(2) by auto
  have "path_at ?h1 K a"
  proof (rule path_at_cong)
    show "path_at (nodes s) K a" using h by blast
    fix b assume "b \<in> set (before K) \<union> set (after K)"
    then have "b \<notin> set (inorder ch)" using ch(1) by auto
    then show "?h1 b = nodes s b" by (simp add: adopt_other)
  qed
  then have "path_at ?h K (ptr ch)"
    using h by (intro path_at_relink) (auto simp: addresses_ok_def)
  moreover have "tree_at ?h (up K) ch"
  proof (rule tree_at_cong)
    show "tree_at ?h1 (up K) ch" using ch by (intro tree_at_adopt) (auto simp: addresses_ok_def)
    fix b assume "b \<in> set (inorder ch)"
    then show "?h b = ?h1 b" using ch by (intro relink_path_other) auto
  qed
  moreover have "?h b = (F(a := nodes s a)) b"
    if out: "b \<notin> set (before K) \<union> set (inorder ch) \<union> set (after K)" for b
  proof -
    have "?h b = nodes s b" using out by (simp add: relink_path_other adopt_other)
    moreover have "nodes s b = F b" if "b \<noteq> a"
    proof -
      have "b \<notin> set (inorder (Node l c a r))" using out that ch(4) by auto
      then show ?thesis using out h by simp
    qed
    ultimately show ?thesis by simp
  qed
  moreover have "addresses_ok (before K @ inorder ch @ after K)"
    using h ch by (auto simp: addresses_ok_append)
  ultimately show ?thesis by (simp add: holds_plug)
qed

lemma holds_replace:
  assumes "heap_holds F s (plug K (Node l c a r))" "n \<notin> set (inorder (plug K (Node l c a r)))" "n \<noteq> 0" "aligned n"
    "\<And>b. b \<noteq> a \<Longrightarrow> nodes s' b = ((adopt (adopt (relink (nodes s) K n) n l) n r)(n \<mapsto> cell (up K) c (ptr l) (ptr r))) b"
    "rb_root s' = path_root K n"
  shows "heap_holds (F(a := nodes s' a)) s' (plug K (Node l c n r))"
proof -
  let ?g = "adopt (adopt (relink (nodes s) K n) n l) n r"
  note h = assms(1) [unfolded holds_plug, simplified, unfolded addresses_ok_append addresses_ok_Cons]
  have n: "n \<notin> set (before K)" "n \<notin> set (after K)" "n \<notin> set (inorder l)" "n \<notin> set (inorder r)" "n \<noteq> a"
    using assms(2) by (auto simp: inorder_plug)
  have g: "nodes s' b = ?g b" if "b \<noteq> a" "b \<noteq> n" for b using assms(5) that by simp
  have d: "distinct (inorder l)" "distinct (inorder r)" "distinct (before K @ after K)"
    using h by (auto simp: addresses_ok_def)
  have path: "path_at (nodes s') K n"
  proof (rule path_at_cong)
    show "path_at (relink (nodes s) K n) K n" using h d by (intro path_at_relink) auto
    fix b assume b: "b \<in> set (before K) \<union> set (after K)"
    then have "b \<notin> set (inorder l)" "b \<notin> set (inorder r)" "b \<noteq> a" "b \<noteq> n" using h n by auto
    then show "nodes s' b = relink (nodes s) K n b" using g by (simp add: adopt_other)
  qed
  have l: "tree_at (nodes s') n l"
  proof (rule tree_at_cong)
    show "tree_at (adopt (nodes s) n l) n l" using h d by (intro tree_at_adopt) auto
    fix b assume b: "b \<in> set (inorder l)"
    then have "b \<notin> set (inorder r)" "b \<noteq> a" "b \<noteq> n" "b \<notin> set (before K)" "b \<notin> set (after K)" using h n by auto
    then show "nodes s' b = adopt (nodes s) n l b"
      using g by (cases l) (auto simp: adopt_def relink_path_other split: rbt.split)
  qed
  have r: "tree_at (nodes s') n r"
  proof (rule tree_at_cong)
    show "tree_at (adopt (nodes s) n r) n r" using h d by (intro tree_at_adopt) auto
    fix b assume b: "b \<in> set (inorder r)"
    then have "b \<notin> set (inorder l)" "b \<noteq> a" "b \<noteq> n" "b \<notin> set (before K)" "b \<notin> set (after K)" using h n by auto
    then show "nodes s' b = adopt (nodes s) n r b"
      using g by (cases r) (auto simp: adopt_def relink_path_other split: rbt.split)
  qed
  have "nodes s' n = Some (cell (up K) c (ptr l) (ptr r))" using assms(5) n by simp
  moreover have "nodes s' b = (F(a := nodes s' a)) b"
    if "b \<notin> set (before K) \<union> set (inorder (Node l c n r)) \<union> set (after K)" for b
  proof (cases "b = a")
    case False
    then have "nodes s' b = nodes s b" using that g by (simp add: adopt_other relink_path_other)
    then show ?thesis using False that h by simp
  qed simp
  moreover have "addresses_ok (before K @ inorder (Node l c n r) @ after K)"
    using h n assms(3,4) by (auto simp: addresses_ok_append addresses_ok_Cons)
  ultimately show ?thesis using path l r assms(6) by (simp add: holds_plug)
qed

lemma erase_outer_eq: "erase_outer s node child = do {
     n \<leftarrow> nodes s node;
     s \<leftarrow> (if child \<noteq> 0 then rb_set_parent s child (rb_parent n) else Some s);
     s \<leftarrow> relink_old s (rb_parent n) node child;
     Some (child, rb_parent n, rb_color n, s) }"
  by (simp add: erase_outer_def relink_old_def Let_def)

lemma erase_outer_ok:
  assumes "heap_holds F s (plug K (Node l c a r))" "l = Leaf \<and> ch = r \<or> r = Leaf \<and> ch = l"
  shows "\<exists>s'. erase_outer s a (ptr ch) = Some (ptr ch, up K, code c, s') \<and>
    heap_holds (F(a := nodes s a)) s' (plug K ch)"
proof -
  note h = assms(1) [unfolded holds_plug, simplified, unfolded addresses_ok_append addresses_ok_Cons]
  note a = at_node [OF assms(1)]
  let ?h = "adopt (nodes s) (up K) ch"
  have ch: "tree_at (nodes s) a ch" "addresses_ok (inorder ch)" "set (inorder ch) \<inter> (set (before K) \<union> {a} \<union> set (after K)) = {}"
    using h assms(2) by auto
  have p1: "(if ptr ch \<noteq> 0 then rb_set_parent s (ptr ch) (up K) else Some s) = Some (s\<lparr>nodes := ?h\<rparr>)"
    using ch a ptr_0 [OF ch(2)] by (intro set_parent_adopt [where q = a]) auto
  have up: "K \<noteq> [] \<Longrightarrow> up K \<notin> set (inorder ch)" "K \<noteq> [] \<Longrightarrow> up K \<noteq> 0 \<and> a \<noteq> ptr (step_tree (hd K))"
    using up_in_path [of K] ch h path_facts [of K a] up_ok [of K] by auto
  have "K \<noteq> [] \<Longrightarrow> ?h (up K) = Some (step_cell (up (tl K)) (hd K) a)"
    using h up by (cases K) (auto simp: adopt_other)
  then have "relink_old (s\<lparr>nodes := ?h\<rparr>) (up K) a (ptr ch) =
      Some (s\<lparr>nodes := relink ?h K (ptr ch), rb_root := path_root K (ptr ch)\<rparr>)"
    using relink_ok(3) [of K "s\<lparr>nodes := ?h\<rparr>" a "ptr ch"] h up by simp
  then have "erase_outer s a (ptr ch) = Some (ptr ch, up K, code c,
      s\<lparr>nodes := relink ?h K (ptr ch), rb_root := path_root K (ptr ch)\<rparr>)"
    using a by (simp add: erase_outer_eq cell_reads p1 split del: if_split cong del: if_weak_cong)
  then show ?thesis using holds_cut [OF assms] by blast
qed

fun is_left :: "step \<Rightarrow> bool" where
  "is_left (Into_left c a r) = True"
| "is_left (Into_right l c a) = False"

lemma leftmost: "r \<noteq> Leaf \<Longrightarrow> \<exists>K c y t. r = plug K (Node Leaf c y t) \<and> list_all is_left K"
proof (induction r)
  case (Node l c a r)
  show ?case
  proof (cases "l = Leaf")
    case True
    then show ?thesis by (intro exI [of _ "[]"]) simp
  next
    case False
    then obtain K c' y t where "l = plug K (Node Leaf c' y t)" "list_all is_left K" using Node by blast
    moreover have "plug (K @ [f]) t = fill f (plug K t)" for K f t
      by (induction K arbitrary: t) simp_all
    ultimately show ?thesis
      by (intro exI [of _ "K @ [Into_left c a r]"]) auto
  qed
qed simp

lemma plug_append: "plug (K1 @ K2) t = plug K2 (plug K1 t)"
  by (induction K1 arbitrary: t) simp_all

lemma go_left_ok:
  assumes "heap_holds F s (plug (K @ K') (Node Leaf c y t))" "list_all is_left K"
  shows "go_left s (ptr (plug K (Node Leaf c y t))) = Some y"
  using assms
proof (induction K arbitrary: K' rule: rev_induct)
  case Nil
  then show ?case using at_node [of F s K' Leaf c y t]
    by (subst go_left.simps) (simp add: cell_reads)
next
  case (snoc f K)
  then obtain d a r where f: "f = Into_left d a r" by (cases f) auto
  let ?u = "plug K (Node Leaf c y t)"
  have H: "heap_holds F s (plug K' (Node ?u d a r))" using snoc.prems f by (simp add: plug_append)
  have "?u \<noteq> Leaf" using plug_not_Leaf by blast
  then have "ptr ?u \<noteq> 0" using at_subtree(3) [of F s "Into_left d a r # K'" ?u] H by simp
  then show ?case using snoc.IH [of "Into_left d a r # K'"] snoc.prems H at_node [OF H] f
    by (subst go_left.simps) (simp add: cell_reads plug_append)
qed

lemma holds_outside:
  assumes "heap_holds F s t" "\<And>b. b \<notin> set (inorder t) \<Longrightarrow> F b = F' b"
  shows "heap_holds F' s t"
  using assms by (simp add: heap_holds_def)

definition take_over :: "rb_state \<Rightarrow> u64 \<Rightarrow> u64 \<Rightarrow> (rb_state) option" where
  "take_over s node old = do {
     od \<leftarrow> nodes s old;
     s \<leftarrow> update_node s node (\<lambda>n. n\<lparr>rb_parent_color := rb_parent_color od\<rparr>);
     s \<leftarrow> put_left s node (rb_left od);
     rb_set_parent s (rb_left od) node }"

lemma erase_inner_eq: "erase_inner s old = do {
     n \<leftarrow> nodes s old;
     node \<leftarrow> go_left s (rb_right n);
     s \<leftarrow> relink_old s (rb_parent n) old node;
     n \<leftarrow> nodes s node;
     (parent, s) \<leftarrow> (if rb_parent n = old then Some (node, s)
       else do {
         s \<leftarrow> (if rb_right n \<noteq> 0 then rb_set_parent s (rb_right n) (rb_parent n) else Some s);
         s \<leftarrow> put_left s (rb_parent n) (rb_right n);
         od \<leftarrow> nodes s old;
         s \<leftarrow> put_right s node (rb_right od);
         s \<leftarrow> rb_set_parent s (rb_right od) node;
         Some (rb_parent n, s) });
     s \<leftarrow> take_over s node old;
     Some (rb_right n, parent, rb_color n, s) }"
  by (simp add: erase_inner_def relink_old_def take_over_def Let_def)

lemma set_parent_node:
  assumes "tree_at (nodes s) q t" "aligned q" "t \<noteq> Leaf"
  shows "rb_set_parent s (ptr t) p = Some (s\<lparr>nodes := adopt (nodes s) p t\<rparr>)"
  using assms by (cases t) (simp_all add: adopt_def set_ops)

lemma take_over_ok:
  assumes "nodes s a = Some (cell u c (ptr l) x)" "nodes s y = Some (cell p d l' r')" "tree_at (nodes s) a l"
    "l \<noteq> Leaf" "aligned a" "y \<notin> set (inorder l)" "y \<noteq> a"
  shows "take_over s y a = Some (s\<lparr>nodes := adopt ((nodes s)(y \<mapsto> cell u c (ptr l) r')) y l\<rparr>)"
proof -
  let ?h = "(nodes s)(y \<mapsto> cell u c (ptr l) r')"
  have "update_node s y (\<lambda>n. n\<lparr>rb_parent_color := rb_parent_color (cell u c (ptr l) x)\<rparr>) =
      Some (s\<lparr>nodes := (nodes s)(y \<mapsto> cell u c l' r')\<rparr>)"
    using assms(2) by (simp add: update_node_def cell_def)
  moreover have "put_left (s\<lparr>nodes := (nodes s)(y \<mapsto> cell u c l' r')\<rparr>) y (ptr l) = Some (s\<lparr>nodes := ?h\<rparr>)"
    by (simp add: set_ops)
  moreover have "tree_at ?h a l"
    by (rule tree_at_cong [OF assms(3)]) (use assms(6) in auto)
  then have "rb_set_parent (s\<lparr>nodes := ?h\<rparr>) (ptr l) y = Some (s\<lparr>nodes := adopt ?h y l\<rparr>)"
    using set_parent_node [of "s\<lparr>nodes := ?h\<rparr>" a l y] assms(4,5) by simp
  ultimately show ?thesis using assms(1) by (simp add: take_over_def cell_reads)
qed

lemma adopt_same: "tree_at h p t \<Longrightarrow> adopt h p t = h"
  by (cases t) (auto simp: adopt_def fun_upd_idem)

lemma adopt_adopt: "adopt (adopt h p t) q t = adopt h q t"
  by (simp add: adopt_def split: rbt.split)

lemma adopt_commute:
  "set (inorder t) \<inter> set (inorder u) = {} \<Longrightarrow> adopt (adopt h p t) q u = adopt (adopt h q u) p t"
  by (cases t; cases u) (auto simp: adopt_def fun_upd_twist)

lemma adopt_upd: "y \<notin> set (inorder t) \<Longrightarrow> adopt (h(y \<mapsto> v)) p t = (adopt h p t)(y \<mapsto> v)"
  by (cases t) (auto simp: adopt_def fun_upd_twist)

lemma relink_adopt: "K = [] \<or> up K \<notin> set (inorder t) \<Longrightarrow> relink (adopt h p t) K x = adopt (relink h K x) p t"
  by (cases K; cases t) (auto simp: adopt_def relink_def fun_upd_twist)

lemma relink_commute:
  "up K \<noteq> up K' \<Longrightarrow> relink (relink h K x) K' y = relink (relink h K' y) K x"
  by (cases K; cases K') (auto simp: relink_def fun_upd_twist)

lemma relink_at:
  assumes "heap_holds F s (plug K (Node l c a r))"
  shows "relink_old s (up K) a y = Some (s\<lparr>nodes := relink (nodes s) K y, rb_root := path_root K y\<rparr>)"
    "relink_left s (up K) a y = Some (s\<lparr>nodes := relink (nodes s) K y, rb_root := path_root K y\<rparr>)"
proof -
  note h = assms [unfolded holds_plug, simplified, unfolded addresses_ok_append addresses_ok_Cons]
  have k: "K \<noteq> [] \<Longrightarrow> nodes s (up K) = Some (step_cell (up (tl K)) (hd K) a)"
    "K \<noteq> [] \<Longrightarrow> up K \<noteq> 0 \<and> a \<noteq> ptr (step_tree (hd K))"
    using h path_facts [of K a] up_ok [of K] by (cases K; auto)+
  show "relink_old s (up K) a y = Some (s\<lparr>nodes := relink (nodes s) K y, rb_root := path_root K y\<rparr>)"
    "relink_left s (up K) a y = Some (s\<lparr>nodes := relink (nodes s) K y, rb_root := path_root K y\<rparr>)"
    using relink_ok [of K s a y] h k by simp_all
qed

lemma relink_id:
  assumes "K = f # K'" "h (up K) = Some (step_cell (up K') f x)"
  shows "relink h K y = h(up K \<mapsto> step_cell (up K') f y)"
  using assms by (simp add: relink_def)

lemma erase_inner_finish:
  assumes H: "heap_holds F s (plug K (Node l c a (plug K1 (Node Leaf cy y ry))))"
    and s': "\<And>b. b \<noteq> a \<Longrightarrow> nodes s' b = ((adopt (adopt (relink (relink (adopt (nodes s) (up (K1 @ Into_right l c a # K)) ry)
        (K1 @ Into_right l c a # K) (ptr ry)) K y) y l) y (plug K1 ry))
        (y \<mapsto> cell (up K) c (ptr l) (ptr (plug K1 ry)))) b" "rb_root s' = path_root K y"
  shows "\<exists>v. heap_holds (F(a := v)) s' (plug (K1 @ Into_right l c y # K) ry)"
proof -
  let ?KA = "K1 @ Into_right l c a # K"
  let ?s2 = "s\<lparr>nodes := relink (adopt (nodes s) (up ?KA) ry) ?KA (ptr ry), rb_root := path_root ?KA (ptr ry)\<rparr>"
  have HA: "heap_holds F s (plug ?KA (Node Leaf cy y ry))" using H by (simp add: plug_append)
  have C: "heap_holds (F(y := nodes s y)) ?s2 (plug K (Node l c a (plug K1 ry)))"
    using holds_cut [OF HA, of ry] by (simp add: plug_append)
  have y: "y \<noteq> 0" "aligned y" using at_node [OF HA] by simp_all
  have "distinct (before K @ inorder (Node l c a (plug K1 (Node Leaf cy y ry))) @ after K)"
    using H by (simp add: holds_plug addresses_ok_def)
  then have "y \<notin> set (inorder (plug K (Node l c a (plug K1 ry))))"
    by (auto simp: inorder_plug)
  from holds_replace [OF C this y, of s'] s' have
    "heap_holds (F(y := nodes s y, a := nodes s' a)) s' (plug K (Node l c y (plug K1 ry)))" by simp
  then have "heap_holds (F(a := nodes s' a)) s' (plug K (Node l c y (plug K1 ry)))"
    by (rule holds_outside) (auto simp: inorder_plug)
  then show ?thesis by (auto simp: plug_append)
qed

lemma erase_inner_root:
  assumes H: "heap_holds F s (plug K (Node l c a (Node Leaf cy y ry)))" and l: "l \<noteq> Leaf"
  shows "\<exists>s' v. erase_inner s a = Some (ptr ry, y, code cy, s') \<and>
    heap_holds (F(a := v)) s' (plug (Into_right l c y # K) ry)"
proof -
  note a = at_node [OF H]
  have HA: "heap_holds F s (plug (Into_right l c a # K) (Node Leaf cy y ry))" using H by simp
  note y = at_node [OF HA, simplified]
  note h = H [unfolded holds_plug, simplified, unfolded addresses_ok_append addresses_ok_Cons]
  have up: "up K \<noteq> a" "up K \<noteq> y" "K = [] \<or> up K \<notin> set (inorder l)" "K = [] \<or> up K \<notin> set (inorder ry)"
    using h path_facts [of K a] path_facts [of K y] up_in_path [of K] by auto
  have d: "a \<notin> set (inorder l)" "y \<notin> set (inorder l)" "y \<noteq> a" "a \<notin> set (inorder ry)" "y \<notin> set (inorder ry)"
    "set (inorder l) \<inter> set (inorder ry) = {}"
    using h by auto
  let ?h1 = "relink (nodes s) K y"
  let ?s1 = "s\<lparr>nodes := ?h1, rb_root := path_root K y\<rparr>"
  have ha: "?h1 a = Some (cell (up K) c (ptr l) y)" and hy: "?h1 y = Some (cell a cy 0 (ptr ry))"
    using a y up relink_other by auto
  have tl: "tree_at ?h1 a l" and tary: "tree_at (nodes s) y ry"
    using h by (auto intro!: tree_at_cong [where h = "nodes s"] relink_path_other)
  let ?h' = "adopt (?h1(y \<mapsto> cell (up K) c (ptr l) (ptr ry))) y l"
  let ?s' = "?s1\<lparr>nodes := ?h'\<rparr>"
  have "take_over ?s1 y a = Some ?s'"
    using take_over_ok [of ?s1 a "up K" c l y y a cy 0 "ptr ry"] ha hy tl l a d by simp
  moreover have "go_left s y = Some y"
    using go_left_ok [of F s "[]" "Into_right l c a # K" cy y ry] HA by simp
  ultimately have "erase_inner s a = Some (ptr ry, y, code cy, ?s')"
    using a y hy relink_at(1) [OF H, of y] by (simp add: erase_inner_eq cell_reads)
  moreover have "\<exists>v. heap_holds (F(a := v)) ?s' (plug ([] @ Into_right l c y # K) ry)"
  proof (rule erase_inner_finish)
    show "heap_holds F s (plug K (Node l c a (plug [] (Node Leaf cy y ry))))" using H by simp
    fix b assume b: "b \<noteq> a"
    let ?v = "cell (up K) c (ptr l) (ptr ry)"
    have "adopt (adopt (relink (relink (adopt (nodes s) a ry) (Into_right l c a # K) (ptr ry)) K y) y l) y ry b =
        adopt (adopt (relink (adopt (nodes s) a ry) K y) y l) y ry b"
      using b up d by (cases l; cases ry; cases K) (auto simp: adopt_def relink_def)
    also have "adopt (adopt (relink (adopt (nodes s) a ry) K y) y l) y ry =
        adopt (relink (adopt (nodes s) y ry) K y) y l"
      using up d by (simp add: relink_adopt adopt_commute [of ry l] adopt_adopt Int_commute)
    also have "\<dots> = adopt ?h1 y l" using tary by (simp add: adopt_same)
    finally show "nodes ?s' b = ((adopt (adopt (relink (relink (adopt (nodes s) (up ([] @ Into_right l c a # K)) ry)
        ([] @ Into_right l c a # K) (ptr ry)) K y) y l) y (plug [] ry))
        (y \<mapsto> cell (up K) c (ptr l) (ptr (plug [] ry)))) b"
      using d by (simp add: adopt_upd)
  qed simp
  ultimately show ?thesis by auto
qed

lemma erase_inner_deep:
  assumes H: "heap_holds F s (plug K (Node l c a (plug (f # K1) (Node Leaf cy y ry))))" and l: "l \<noteq> Leaf"
    and left: "list_all is_left (f # K1)"
  shows "\<exists>s' v. erase_inner s a = Some (ptr ry, step_ptr f, code cy, s') \<and>
    heap_holds (F(a := v)) s' (plug ((f # K1) @ Into_right l c y # K) ry)"
proof -
  let ?T = "plug (f # K1) (Node Leaf cy y ry)" and ?T' = "plug (f # K1) ry"
  let ?KA = "(f # K1) @ Into_right l c a # K"
  obtain cp p rp where f: "f = Into_left cp p rp" using left by (cases f) auto
  note a = at_node [OF H]
  have HA: "heap_holds F s (plug ?KA (Node Leaf cy y ry))" using H by (simp add: plug_append)
  note y = at_node [OF HA, simplified, unfolded f, simplified]
  have p: "nodes s p = Some (cell (up (tl ?KA)) cp y (ptr rp))" "p \<noteq> 0"
    using at_node [of F s "tl ?KA" "Node Leaf cy y ry" cp p rp] HA f by simp_all
  have q: "ptr ?T = ptr ?T'" by (simp add: ptr_plug path_root_def)
  have "distinct (before K @ inorder (Node l c a ?T) @ after K)" "\<forall>b\<in>set (before K @ inorder (Node l c a ?T) @ after K). b \<noteq> 0"
    using H by (simp_all add: holds_plug addresses_ok_def)
  then have dist: "distinct (before K @ inorder l @ a # before K1 @ y # inorder ry @ p # inorder rp @ after K1 @ after K)"
      "0 \<notin> set (inorder l)" and nz: "0 \<notin> set (inorder ?T')"
    by (auto simp: inorder_plug f)
  have upK: "K = [] \<or> up K \<in> set (before K) \<union> set (after K)" "K = [] \<Longrightarrow> up K = 0" using up_in_path [of K] by auto
  have inT': "set (inorder ?T') = set (before K1) \<union> set (inorder ry) \<union> {p} \<union> set (inorder rp) \<union> set (after K1)"
    by (auto simp: inorder_plug f)
  have d: "p \<noteq> a" "p \<noteq> y" "y \<noteq> a" "a \<notin> set (inorder ry)" "y \<notin> set (inorder ry)" "p \<notin> set (inorder ry)" "y \<notin> set (inorder l)"
    "y \<notin> set (inorder ?T')" "set (inorder l) \<inter> set (inorder ?T') = {}" "a \<notin> set (inorder ?T')" "a \<notin> set (inorder l)" "p \<notin> set (inorder l)"
    "set (inorder l) \<inter> set (inorder ry) = {}"
    using dist inT' by auto
  have up: "up K \<noteq> a" "up K \<noteq> y" "up K \<noteq> p" "K = [] \<or> up K \<notin> set (inorder ry)"
    "K = [] \<or> up K \<notin> set (inorder l)" "K = [] \<or> up K \<notin> set (inorder ?T')"
    using dist upK inT' a y p by auto
  let ?h = "nodes s"
  let ?h1 = "relink ?h K y"
  let ?s1 = "s\<lparr>nodes := ?h1, rb_root := path_root K y\<rparr>"
  let ?h2 = "adopt ?h1 p ry"
  let ?g2 = "relink (adopt ?h p ry) ?KA (ptr ry)"
  let ?g3 = "relink ?g2 K y"
  have h1: "?h1 b = ?h b" if "b \<noteq> up K" for b using that by (rule relink_other)
  have tree: "tree_at ?h y ry" "tree_at ?h a l"
    using HA H by (simp_all only: holds_plug tree_at.simps)
  have "tree_at ?h1 y ry"
  proof (rule tree_at_cong [OF tree(1)])
    fix b assume b: "b \<in> set (inorder ry)"
    then have "b \<notin> set (before K)" "b \<notin> set (after K)" using dist(1) by auto
    then show "?h1 b = ?h b" by (rule relink_path_other)
  qed
  then have e1: "(if ptr ry \<noteq> 0 then rb_set_parent ?s1 (ptr ry) p else Some ?s1) = Some (?s1\<lparr>nodes := ?h2\<rparr>)"
    using y at_subtree(3) [of F s "Into_right Leaf cy y # ?KA" ry] HA
      set_parent_adopt [of ?s1 y ry p] by (simp split del: if_split)
  have h2p: "?h2 p = Some (cell (up (tl ?KA)) cp y (ptr rp))"
    using p d up h1 [of p] by (simp add: adopt_other)
  have g2: "?g2 = (adopt ?h p ry)(p \<mapsto> cell (up (tl ?KA)) cp (ptr ry) (ptr rp))"
    by (simp add: relink_def f)
  have g3: "?g3 = ?h2(p \<mapsto> cell (up (tl ?KA)) cp (ptr ry) (ptr rp))"
    unfolding g2 using up by (cases K; cases ry) (auto simp: relink_def adopt_def fun_upd_twist)
  have e2: "put_left (?s1\<lparr>nodes := ?h2\<rparr>) p (ptr ry) = Some (?s1\<lparr>nodes := ?g3\<rparr>)"
    using set_ops(1) [of "?s1\<lparr>nodes := ?h2\<rparr>" p, OF _] h2p g3 by simp
  have g3_other: "?g3 b = ?h b" if "b \<noteq> p" "b \<notin> set (inorder ry)" "b \<noteq> up K" for b
    unfolding g3 using that h1 [of b] by (simp add: adopt_other)
  have ga: "?g3 a = Some (cell (up K) c (ptr l) (ptr ?T))"
    using g3_other [of a] a d up by auto
  have gy: "?g3 y = Some (cell p cy 0 (ptr ry))"
    using g3_other [of y] y d up by auto
  let ?h4 = "?g3(y \<mapsto> cell p cy 0 (ptr ?T))"
  have e3: "put_right (?s1\<lparr>nodes := ?g3\<rparr>) y (ptr ?T) = Some (?s1\<lparr>nodes := ?h4\<rparr>)"
    using set_ops(2) [of "?s1\<lparr>nodes := ?g3\<rparr>" y] gy by simp
  have C: "heap_holds (F(y := nodes s y)) (s\<lparr>nodes := ?g2, rb_root := path_root ?KA (ptr ry)\<rparr>) (plug K (Node l c a ?T'))"
    using holds_cut [OF HA, of ry] f by (simp add: plug_append)
  have nl: "?T' \<noteq> Leaf" using plug_not_Leaf [of "fill f ry" K1] f by simp
  have "tree_at ?g2 a ?T'" using C by (simp add: holds_plug)
  then have "tree_at ?h4 a ?T'"
  proof (rule tree_at_cong)
    fix b assume b: "b \<in> set (inorder ?T')"
    have "b \<noteq> y" using b d(8) by blast
    moreover have "b \<noteq> up K" using b up(1,6) upK inT' nz by (cases "K = []") auto
    ultimately show "?h4 b = ?g2 b" by (simp add: relink_other)
  qed
  then have e4: "rb_set_parent (?s1\<lparr>nodes := ?h4\<rparr>) (ptr ?T) y = Some (?s1\<lparr>nodes := adopt ?h4 y ?T'\<rparr>)"
    using set_parent_node [of "?s1\<lparr>nodes := ?h4\<rparr>" a ?T' y] a nl q by simp
  let ?h5 = "adopt ?h4 y ?T'"
  let ?h' = "adopt (?h5(y \<mapsto> cell (up K) c (ptr l) (ptr ?T))) y l"
  have h5: "?h5 a = Some (cell (up K) c (ptr l) (ptr ?T))" "?h5 y = Some (cell p cy 0 (ptr ?T))"
    using d ga by (simp_all add: adopt_other)
  have "tree_at ?h5 a l"
  proof (rule tree_at_cong [OF tree(2)])
    fix b assume b: "b \<in> set (inorder l)"
    then have "b \<noteq> p" "b \<notin> set (inorder ry)" "b \<noteq> up K" "b \<noteq> y" "b \<notin> set (inorder ?T')"
      using d up dist(2) upK by auto
    then show "?h5 b = ?h b" using g3_other [of b] by (simp add: adopt_other)
  qed
  then have e5: "take_over (?s1\<lparr>nodes := ?h5\<rparr>) y a = Some (?s1\<lparr>nodes := ?h'\<rparr>)"
    using take_over_ok [of "?s1\<lparr>nodes := ?h5\<rparr>" a "up K" c l "ptr ?T" y p cy 0 "ptr ?T"] h5 l a d by simp
  have go: "go_left s (ptr ?T) = Some y"
    using go_left_ok [of F s "f # K1" "Into_right l c a # K" cy y ry] HA left by simp
  have hy: "?h1 y = Some (cell p cy 0 (ptr ry))" using h1 [of y] y up by simp
  have "erase_inner s a = Some (ptr ry, p, code cy, ?s1\<lparr>nodes := ?h'\<rparr>)"
    using a y hy go d p relink_at(1) [OF H, of y] e2 e3 e4 e5 ga
    by (simp add: erase_inner_eq cell_reads e1 split del: if_split cong del: if_weak_cong)
  moreover have "\<exists>v. heap_holds (F(a := v)) (?s1\<lparr>nodes := ?h'\<rparr>) (plug ((f # K1) @ Into_right l c y # K) ry)"
  proof (rule erase_inner_finish [OF H])
    fix b assume "b \<noteq> a"
    have comm: "adopt (adopt ?g3 y ?T') y l = adopt (adopt ?g3 y l) y ?T'"
      by (rule adopt_commute) (use d(9) in blast)
    have "?h' = adopt ((adopt ?g3 y ?T')(y \<mapsto> cell (up K) c (ptr l) (ptr ?T))) y l"
      using d by (simp only: adopt_upd not_False_eq_True fun_upd_upd)
    also have "\<dots> = (adopt (adopt ?g3 y l) y ?T')(y \<mapsto> cell (up K) c (ptr l) (ptr ?T'))"
      using d by (simp only: adopt_upd not_False_eq_True comm q)
    finally show "nodes (?s1\<lparr>nodes := ?h'\<rparr>) b = ((adopt (adopt (relink (relink (adopt ?h (up ?KA) ry) ?KA (ptr ry)) K y) y l)
        y ?T')(y \<mapsto> cell (up K) c (ptr l) (ptr ?T'))) b"
      using f by simp
  qed simp
  ultimately show ?thesis using f by auto
qed

lemma open_at_rename: "open_at (K1 @ Into_right l c a # K) n \<longleftrightarrow> open_at (K1 @ Into_right l c y # K) n"
proof (induction K1 arbitrary: n)
  case (Cons f K1)
  have "above (K1 @ Into_right l c a # K) = above (K1 @ Into_right l c y # K)"
    by (cases "K1 = []"; cases "hd K1"; cases K1) auto
  then show ?case using Cons by (cases f) simp_all
qed simp

text \<open>After the node is out, a missing black node is made up for.\<close>

lemma erase_rest:
  assumes "heap_holds F s (plug K ch)" "balanced ch" "open_at K (bheight ch + (if c = Black then 1 else 0))"
    "c = Red \<longrightarrow> color_of ch = Black"
  shows "\<exists>s' T. (if code c = 1 then rb_erase_color s (ptr ch) (up K) else Some s) = Some s' \<and> heap_holds F s' T \<and>
    inorder T = inorder (plug K ch) \<and> red_black T"
proof (cases c)
  case Red
  then show ?thesis using assms red_black_plug [of ch K] by auto
next
  case Black
  have "balanced (blacken ch)" using assms(2) by (cases ch) simp_all
  then have "erasing F (inorder (plug K ch)) s (ptr ch) (up K) K ch"
    using assms Black by (simp add: erasing_def)
  from erase_color_ok [OF this] Black show ?thesis by simp
qed

lemma erase_ok:
  assumes "heap_holds F s (plug K (Node l c a r))" "red_black (plug K (Node l c a r))"
  shows "\<exists>s' T v. rb_erase s a = Some s' \<and> heap_holds (F(a := v)) s' T \<and>
    inorder T = before K @ inorder l @ inorder r @ after K \<and> red_black T"
proof -
  note a = at_node [OF assms(1)]
  note rb = red_black_unplug [OF assms(2)]
  have l0: "ptr l = 0 \<longleftrightarrow> l = Leaf" and r0: "ptr r = 0 \<longleftrightarrow> r = Leaf"
    using at_subtree(3) [of F s "Into_left c a r # K" l] at_subtree(3) [of F s "Into_right l c a # K" r] assms(1) by auto
  show ?thesis
  proof (cases "l = Leaf \<or> r = Leaf")
    case True
    define ch where "ch = (if l = Leaf then r else l)"
    have ch: "l = Leaf \<and> ch = r \<or> r = Leaf \<and> ch = l" using True by (auto simp: ch_def)
    obtain s1 where s1: "erase_outer s a (ptr ch) = Some (ptr ch, up K, code c, s1)"
        "heap_holds (F(a := nodes s a)) s1 (plug K ch)"
      using erase_outer_ok [OF assms(1) ch] by blast
    have b: "balanced ch" "open_at K (bheight ch + (if c = Black then 1 else 0))" "c = Red \<longrightarrow> color_of ch = Black"
      using rb ch by auto
    have "rb_erase s a = (if code c = 1 then rb_erase_color s1 (ptr ch) (up K) else Some s1)"
      using a s1(1) l0 r0 True by (auto simp: rb_erase_def cell_reads ch_def split: if_splits)
    moreover have "inorder (plug K ch) = before K @ inorder l @ inorder r @ after K"
      using ch by (auto simp: inorder_plug)
    ultimately show ?thesis using erase_rest [OF s1(2) b] by metis
  next
    case False
    obtain K1 cy y ry where r: "r = plug K1 (Node Leaf cy y ry)" "list_all is_left K1"
      using leftmost [of r] False by blast
    let ?K = "K1 @ Into_right l c y # K"
    have "\<exists>s1 v. erase_inner s a = Some (ptr ry, up ?K, code cy, s1) \<and> heap_holds (F(a := v)) s1 (plug ?K ry)"
    proof (cases K1)
      case Nil
      then show ?thesis using erase_inner_root [of F s K l c a cy y ry] assms(1) r False by simp
    next
      case (Cons f K2)
      then show ?thesis using erase_inner_deep [of F s K l c a f K2 cy y ry] assms(1) r False by simp
    qed
    then obtain s1 v where s1: "erase_inner s a = Some (ptr ry, up ?K, code cy, s1)" "heap_holds (F(a := v)) s1 (plug ?K ry)"
      by blast
    have "red_black (plug (K1 @ Into_right l c a # K) (Node Leaf cy y ry))"
      using assms(2) r by (simp add: plug_append)
    from red_black_unplug [OF this] have b: "balanced ry" "open_at ?K (bheight ry + (if cy = Black then 1 else 0))"
        "cy = Red \<longrightarrow> color_of ry = Black"
      by (auto simp: open_at_rename [where a = a and y = y])
    have "rb_erase s a = (if code cy = 1 then rb_erase_color s1 (ptr ry) (up ?K) else Some s1)"
      using a s1(1) l0 r0 False by (simp add: rb_erase_def cell_reads)
    moreover have "inorder (plug ?K ry) = before K @ inorder l @ inorder r @ after K"
    proof -
      have "before K1 = []" using r(2)
      proof (induction K1)
        case (Cons f K1)
        then show ?case by (cases f) simp_all
      qed simp
      then show ?thesis by (simp add: r plug_append inorder_plug)
    qed
    ultimately show ?thesis using erase_rest [OF s1(2) b] by metis
  qed
qed

section \<open>Walking through the tree\<close>

definition head0 :: "u64 list \<Rightarrow> u64" where
  "head0 xs = (case xs of [] \<Rightarrow> 0 | x # _ \<Rightarrow> x)"

fun is_right :: "step \<Rightarrow> bool" where
  "is_right (Into_left c a r) = False"
| "is_right (Into_right l c a) = True"


lemma head0_Cons [simp]: "head0 (x # xs) = x"
  by (simp add: head0_def)





lemma in_plug: "a \<in> set (inorder t) \<Longrightarrow> \<exists>K l c r. t = plug K (Node l c a r)"
proof (induction t)
  case (Node l c b r)
  have snoc: "plug (K @ [f]) u = fill f (plug K u)" for K f u by (simp add: plug_append)
  consider "a = b" | "a \<in> set (inorder l)" | "a \<in> set (inorder r)" using Node.prems by auto
  then show ?case
  proof cases
    case 1
    then show ?thesis by (intro exI [of _ "[]"]) simp
  next
    case 2
    then obtain K l' c' r' where "l = plug K (Node l' c' a r')" using Node.IH(1) by blast
    then show ?thesis by (intro exI [of _ "K @ [Into_left c b r]"]) (auto simp: snoc)
  next
    case 3
    then obtain K l' c' r' where "r = plug K (Node l' c' a r')" using Node.IH(2) by blast
    then show ?thesis by (intro exI [of _ "K @ [Into_right l c b]"]) (auto simp: snoc)
  qed
qed simp

lemma at_position:
  assumes "heap_holds F s t" "inorder t = xs @ a # ys"
  obtains K l c r where "t = plug K (Node l c a r)" "before K @ inorder l = xs" "inorder r @ after K = ys"
proof -
  obtain K l c r where t: "t = plug K (Node l c a r)" using in_plug [of a t] assms(2) by auto
  have "distinct (xs @ a # ys)" using assms by (auto simp: heap_holds_def addresses_ok_def)
  moreover have "xs @ a # ys = (before K @ inorder l) @ a # inorder r @ after K"
    using assms(2) t by (simp add: inorder_plug)
  ultimately have "before K @ inorder l = xs \<and> inorder r @ after K = ys"
    by (metis append_eq_append_conv_if append_Cons_eq_iff distinct_append not_distinct_conv_prefix
        distinct.simps(2) Un_iff set_append)
  then show ?thesis using that t by blast
qed







section \<open>Depth\<close>

fun depth :: "rbt \<Rightarrow> nat" where
  "depth Leaf = 0"
| "depth (Node l c a r) = Suc (max (depth l) (depth r))"

lemma depth_bheight: "balanced t \<Longrightarrow> depth t \<le> 2 * bheight t + (if color_of t = Red then 1 else 0)"
  by (induction t) (fastforce split: if_splits)+

lemma bheight_size: "balanced t \<Longrightarrow> 2 ^ bheight t \<le> Suc (length (inorder t))"
  by (induction t) auto

text \<open>No path is longer than twice the logarithm of the number of nodes.\<close>

lemma red_black_depth:
  assumes "red_black t"
  shows "2 ^ depth t \<le> (Suc (length (inorder t)))\<^sup>2"
proof -
  have "depth t \<le> 2 * bheight t" using depth_bheight [of t] assms by (simp add: red_black_def)
  then have "2 ^ depth t \<le> (2::nat) ^ (2 * bheight t)" by (rule power_increasing) simp
  also have "\<dots> = (2 ^ bheight t)\<^sup>2" by (simp add: power_mult mult.commute)
  also have "\<dots> \<le> (Suc (length (inorder t)))\<^sup>2"
    using bheight_size [of t] assms by (intro power_mono) (simp_all add: red_black_def)
  finally show ?thesis .
qed

section \<open>The operations\<close>

definition demo_tree :: rbt where
  "demo_tree = Node (Node Leaf Red 8 Leaf) Black 16 Leaf"

definition demo_rb_nodes :: "u64 \<Rightarrow> rb_node option" where
  "demo_rb_nodes = [8 \<mapsto> cell 16 Red 0 0, 16 \<mapsto> cell 0 Black 8 0, 24 \<mapsto> cell 0 Red 0 0]"

definition demo_state :: rb_state where
  "demo_state = \<lparr>nodes = demo_rb_nodes, rb_root = 16\<rparr>"

lemma demo_holds: "heap_holds demo_rb_nodes demo_state demo_tree" "red_black demo_tree" "inorder demo_tree = [8, 16]"
  by (simp_all add: heap_holds_def demo_state_def demo_rb_nodes_def demo_tree_def addresses_ok_def aligned_def red_black_def)

text \<open>
  C37. Insertion keeps a red-black tree. Whatever empty place \<open>K\<close> of the tree a new node is linked to,
  \<open>rb_insert_color\<close> returns, and then the heap holds a tree that has the new node at that place of the
  order and all other nodes as before, that is balanced, in which no red node has a red child and the
  root is black; all parent pointers are right, and no node outside the tree has changed.
\<close>
theorem rb_insert_balanced:
  assumes "heap_holds F s (plug K Leaf)" "red_black (plug K Leaf)" "nodes s n \<noteq> None"
    "n \<notin> set (inorder (plug K Leaf))" "n \<noteq> 0" "aligned n"
  shows "\<exists>s1 s2 t. rb_link_node s n (up K) (link_of K) = Some s1 \<and> rb_insert_color s1 n = Some s2 \<and>
    heap_holds F s2 t \<and> inorder t = before K @ n # after K \<and> red_black t"
  using insert_ok [OF assms(1-3) _ _ assms(5,6)] assms(4) by (simp add: inorder_plug)

theorem rb_insert_balanced_witness:
  "\<exists>s1 s2 t. rb_link_node demo_state 24 8 (Left_link 8) = Some s1 \<and> rb_insert_color s1 24 = Some s2 \<and>
    heap_holds demo_rb_nodes s2 t \<and> inorder t = [24, 8, 16] \<and> red_black t"
proof -
  let ?K = "[Into_left Red 8 Leaf, Into_left Black 16 Leaf]"
  have K: "plug ?K Leaf = demo_tree" by (simp add: demo_tree_def)
  have "nodes demo_state 24 \<noteq> None" "24 \<notin> set (inorder demo_tree)" "aligned (24::u64)"
    by (simp_all add: demo_state_def demo_rb_nodes_def demo_holds aligned_def)
  with rb_insert_balanced [of demo_rb_nodes demo_state ?K 24, unfolded K, OF demo_holds(1,2)]
  show ?thesis by simp
qed

text \<open>
  C38. Removal keeps a red-black tree. For every node of a red-black tree, \<open>rb_erase\<close> returns, and then the
  heap holds a red-black tree of exactly the other nodes, in the same order; besides the removed node, no
  node outside the tree has changed.
\<close>
theorem rb_erase_balanced:
  assumes "heap_holds F s t" "red_black t" "inorder t = xs @ a # ys"
  shows "\<exists>s' t' v. rb_erase s a = Some s' \<and> heap_holds (F(a := v)) s' t' \<and> inorder t' = xs @ ys \<and> red_black t'"
proof -
  obtain K l c r where t: "t = plug K (Node l c a r)" "before K @ inorder l = xs" "inorder r @ after K = ys"
    using at_position [OF assms(1,3)] by blast
  obtain s' T v where "rb_erase s a = Some s'" "heap_holds (F(a := v)) s' T"
      "inorder T = before K @ inorder l @ inorder r @ after K" "red_black T"
    using erase_ok [of F s K l c a r] assms(1,2) t(1) by blast
  then show ?thesis using t(2,3) by (intro exI conjI) auto
qed

theorem rb_erase_balanced_witness:
  "\<exists>s' t' v. rb_erase demo_state 16 = Some s' \<and> heap_holds (demo_rb_nodes(16 := v)) s' t' \<and> inorder t' = [8] \<and> red_black t'"
  using rb_erase_balanced [OF demo_holds(1,2), of "[8]" 16 "[]"] by (simp add: demo_holds)



end
