(* ===== verification/RbMap.thy ===== *)
theory RbMap
  imports RbTreeFacts
begin

text \<open>
  The map of \<open>fun_struct/map.c\<close>: strings to buffers, in a red-black tree. The node of the tree is the first
  member of \<open>struct map\<close>, so that both have the same address.

  A C string is the list of its bytes before the terminator. The addresses that \<open>malloc\<close> returns for the
  structure, and whether it finds memory for the two buffers, are arguments; the code does not test them, and
  writing to a null pointer is \<^term>\<open>None\<close>.
\<close>

section \<open>State and operations\<close>

record map_item =
  key :: bytes
  val :: bytes

record map_state =
  tree :: rb_state
  items :: "u64 \<Rightarrow> map_item option"

fun strcmp :: "bytes \<Rightarrow> bytes \<Rightarrow> int" where
  "strcmp [] [] = 0"
| "strcmp [] (b # bs) = -1"
| "strcmp (a # as) [] = 1"
| "strcmp (a # as) (b # bs) = (if a = b then strcmp as bs else if a < b then -1 else 1)"

text \<open>Copying the string at the start of one buffer to another.\<close>

definition strcpy :: "bytes \<Rightarrow> bytes \<Rightarrow> bytes option" where
  "strcpy dst src =
     (let str = takeWhile (\<lambda>b. b \<noteq> 0) src in
      if str = src then None else wr_bytes dst 0 (str @ [0]))"

partial_function (option) get_loop :: "map_state \<Rightarrow> bytes \<Rightarrow> u64 \<Rightarrow> u64 option" where
  "get_loop st str node =
     (if node = 0 then Some 0
      else do {
        d \<leftarrow> items st node;
        n \<leftarrow> nodes (tree st) node;
        let cmp = strcmp str (key d);
        if cmp < 0 then get_loop st str (rb_left n)
        else if cmp > 0 then get_loop st str (rb_right n)
        else Some node })"

definition get :: "map_state \<Rightarrow> bytes \<Rightarrow> u64 option" where
  "get st str = get_loop st str (rb_root (tree st))"

text \<open>The search of \<open>put\<close>: the item with the key, or the place for a new one and its parent.\<close>

partial_function (option) put_loop :: "map_state \<Rightarrow> bytes \<Rightarrow> rb_link \<Rightarrow> u64 \<Rightarrow> (u64 + rb_link \<times> u64) option" where
  "put_loop st str new_node parent = do {
     a \<leftarrow> get_link (tree st) new_node;
     if a = 0 then Some (Inr (new_node, parent))
     else do {
       d \<leftarrow> items st a;
       let result = strcmp str (key d);
       if result < 0 then put_loop st str (Left_link a) a
       else if result > 0 then put_loop st str (Right_link a) a
       else Some (Inl a) } }"

text \<open>The memory of a new structure: what is in it is overwritten before it is read.\<close>

definition new_item :: "map_state \<Rightarrow> u64 \<Rightarrow> bytes \<Rightarrow> bytes \<Rightarrow> map_state" where
  "new_item st a k v = st\<lparr>
     tree := (tree st)\<lparr>nodes := (nodes (tree st))(a \<mapsto> \<lparr>rb_parent_color = 0, rb_right = 0, rb_left = 0\<rparr>)\<rparr>,
     items := (items st)(a \<mapsto> \<lparr>key = k, val = v\<rparr>)\<rparr>"

definition free_item :: "map_state \<Rightarrow> u64 \<Rightarrow> map_state" where
  "free_item st a = st\<lparr>tree := (tree st)\<lparr>nodes := (nodes (tree st))(a := None)\<rparr>, items := (items st)(a := None)\<rparr>"

record allocation =
  data_at :: u64
  key_found :: bool
  val_found :: bool

definition put :: "allocation \<Rightarrow> map_state \<Rightarrow> bytes \<Rightarrow> bytes \<Rightarrow> nat \<Rightarrow> (int \<times> map_state) option" where
  "put al st k v val_size =
     (if val_size = 0 then Some (0, st)
      else if data_at al = 0 \<or> \<not> key_found al \<or> \<not> val_found al then None
      else do {
        buf \<leftarrow> rd_bytes v 0 val_size;
        let data = data_at al;
        let st = new_item st data k buf;
        found \<leftarrow> put_loop st k Root_link 0;
        case found of
          Inl a \<Rightarrow> do {
            d \<leftarrow> items st a;
            new \<leftarrow> strcpy (val d) v;
            Some (0, free_item (st\<lparr>items := (items st)(a \<mapsto> d\<lparr>val := new\<rparr>)\<rparr>) data) }
        | Inr (new_node, parent) \<Rightarrow> do {
            t \<leftarrow> rb_link_node (tree st) data parent new_node;
            t \<leftarrow> rb_insert_color t data;
            Some (1, st\<lparr>tree := t\<rparr>) } })"

definition map_first :: "map_state \<Rightarrow> u64 option" where
  "map_first st = rb_first (tree st)"

definition map_next :: "map_state \<Rightarrow> u64 \<Rightarrow> u64 option" where
  "map_next st a = rb_next (tree st) a"

definition map_free :: "map_state \<Rightarrow> u64 \<Rightarrow> map_state" where
  "map_free st a = (if a \<noteq> 0 then free_item st a else st)"

section \<open>Comparing strings\<close>

lemma strcmp_same: "strcmp a b = 0 \<longleftrightarrow> a = b"
  by (induction a b rule: strcmp.induct) auto

lemma strcmp_refl [simp]: "strcmp a a = 0"
  by (simp add: strcmp_same)

lemma strcmp_swap: "strcmp b a = - strcmp a b"
  by (induction a b rule: strcmp.induct) auto

definition str_less :: "bytes \<Rightarrow> bytes \<Rightarrow> bool" where
  "str_less a b \<longleftrightarrow> strcmp a b < 0"

lemma str_less_trans: "str_less a b \<Longrightarrow> str_less b c \<Longrightarrow> str_less a c"
  unfolding str_less_def
proof (induction a b arbitrary: c rule: strcmp.induct)
  case (2 b bs)
  then show ?case by (cases c) simp_all
next
  case (4 a as b bs)
  then show ?case by (cases c) (auto split: if_splits)
qed simp_all

lemma str_cases: "str_less a b \<or> a = b \<or> str_less b a"
  using strcmp_swap [of a b] strcmp_same [of a b] unfolding str_less_def by linarith

lemma str_less_irrefl [simp]: "\<not> str_less a a"
  by (simp add: str_less_def)

lemma str_less_asym: "str_less a b \<Longrightarrow> \<not> str_less b a"
  using str_less_trans str_less_irrefl by blast

lemma strcmp_greater: "strcmp a b > 0 \<longleftrightarrow> str_less b a"
  using strcmp_swap [of a b] by (simp add: str_less_def)

section \<open>What a map contains\<close>

definition key_of :: "map_state \<Rightarrow> u64 \<Rightarrow> bytes" where
  "key_of st a = (case items st a of None \<Rightarrow> [] | Some d \<Rightarrow> key d)"

definition val_of :: "map_state \<Rightarrow> u64 \<Rightarrow> bytes" where
  "val_of st a = (case items st a of None \<Rightarrow> [] | Some d \<Rightarrow> val d)"

definition contents :: "map_state \<Rightarrow> rbt \<Rightarrow> bytes \<Rightarrow> bytes option" where
  "contents st t = map_of (map (\<lambda>a. (key_of st a, val_of st a)) (inorder t))"

definition keys_sorted :: "map_state \<Rightarrow> u64 list \<Rightarrow> bool" where
  "keys_sorted st = sorted_wrt (\<lambda>a b. str_less (key_of st a) (key_of st b))"

definition map_ok :: "(u64 \<Rightarrow> rb_node option) \<Rightarrow> map_state \<Rightarrow> rbt \<Rightarrow> bool" where
  "map_ok F st t \<longleftrightarrow> heap_holds F (tree st) t \<and> red_black t \<and> (\<forall>a\<in>set (inorder t). items st a \<noteq> None) \<and>
     keys_sorted st (inorder t)"

text \<open>The map as \<open>put\<close> changes it, undefined behaviour included.\<close>

definition map_put :: "bytes \<Rightarrow> bytes \<Rightarrow> nat \<Rightarrow> (bytes \<Rightarrow> bytes option) \<Rightarrow> (int \<times> (bytes \<Rightarrow> bytes option)) option" where
  "map_put k v n m =
     (if n = 0 then Some (0, m)
      else if n > length v then None
      else case m k of
        None \<Rightarrow> Some (1, m(k \<mapsto> take n v))
      | Some old \<Rightarrow> map_option (\<lambda>new. (0, m(k \<mapsto> new))) (strcpy old v))"

lemma map_of_find: "map_of (map (\<lambda>a. (f a, g a)) xs) k = map_option g (find (\<lambda>a. f a = k) xs)"
  by (induction xs) auto

lemma find_append: "find P (xs @ ys) = (case find P xs of None \<Rightarrow> find P ys | Some x \<Rightarrow> Some x)"
  by (induction xs) auto

lemma find_none: "(\<And>x. x \<in> set xs \<Longrightarrow> \<not> P x) \<Longrightarrow> find P xs = None"
  by (auto simp: find_None_iff)

lemma find_in: "find P xs = Some a \<Longrightarrow> a \<in> set xs \<and> P a"
  by (auto simp: find_Some_iff)

lemma keys_sorted_append: "keys_sorted st (xs @ ys) \<longleftrightarrow> keys_sorted st xs \<and> keys_sorted st ys \<and>
    (\<forall>a\<in>set xs. \<forall>b\<in>set ys. str_less (key_of st a) (key_of st b))"
  by (simp add: keys_sorted_def sorted_wrt_append)

lemma keys_sorted_Cons: "keys_sorted st (x # xs) \<longleftrightarrow> keys_sorted st xs \<and>
    (\<forall>b\<in>set xs. str_less (key_of st x) (key_of st b))"
  by (auto simp: keys_sorted_def)

lemmas keys_sorted_simps = keys_sorted_append keys_sorted_Cons

text \<open>A search looks at one side of a node only.\<close>

lemma find_sides:
  assumes "keys_sorted st (inorder (Node l c a r))"
  shows "str_less k (key_of st a) \<Longrightarrow> find (\<lambda>b. key_of st b = k) (inorder (Node l c a r)) = find (\<lambda>b. key_of st b = k) (inorder l)"
    "str_less (key_of st a) k \<Longrightarrow> find (\<lambda>b. key_of st b = k) (inorder (Node l c a r)) = find (\<lambda>b. key_of st b = k) (inorder r)"
    "key_of st a = k \<Longrightarrow> find (\<lambda>b. key_of st b = k) (inorder (Node l c a r)) = Some a"
proof -
  note s = assms [simplified, unfolded keys_sorted_simps]
  show "find (\<lambda>b. key_of st b = k) (inorder (Node l c a r)) = find (\<lambda>b. key_of st b = k) (inorder l)"
    if k: "str_less k (key_of st a)"
  proof -
    have "key_of st b \<noteq> k" if "b \<in> set (a # inorder r)" for b
      using s that k str_less_asym by fastforce
    then have "find (\<lambda>b. key_of st b = k) (a # inorder r) = None" by (intro find_none)
    then show ?thesis by (simp add: find_append split: option.split)
  qed
  show "find (\<lambda>b. key_of st b = k) (inorder (Node l c a r)) = find (\<lambda>b. key_of st b = k) (inorder r)"
    if k: "str_less (key_of st a) k"
  proof -
    have "key_of st b \<noteq> k" if "b \<in> set (inorder l)" for b
      using s that k str_less_asym by fastforce
    then have "find (\<lambda>b. key_of st b = k) (inorder l) = None" by (intro find_none)
    moreover have "key_of st a \<noteq> k" using k by auto
    ultimately show ?thesis by (simp add: find_append)
  qed
  show "find (\<lambda>b. key_of st b = k) (inorder (Node l c a r)) = Some a" if k: "key_of st a = k"
  proof -
    have "key_of st b \<noteq> k" if "b \<in> set (inorder l)" for b
      using s that k by fastforce
    then have "find (\<lambda>b. key_of st b = k) (inorder l) = None" by (intro find_none)
    then show ?thesis using k by (simp add: find_append)
  qed
qed

lemma get_loop_ok:
  assumes "heap_holds F (tree st) (plug K t)" "\<forall>a\<in>set (inorder t). items st a \<noteq> None" "keys_sorted st (inorder t)"
  shows "get_loop st k (ptr t) = Some (case find (\<lambda>b. key_of st b = k) (inorder t) of None \<Rightarrow> 0 | Some a \<Rightarrow> a)"
  using assms
proof (induction t arbitrary: K)
  case Leaf
  then show ?case by (subst get_loop.simps) simp
next
  case (Node l c a r)
  note a = at_node [OF Node.prems(1)]
  obtain d where d: "items st a = Some d" using Node.prems(2) by auto
  have ka: "key_of st a = key d" using d by (simp add: key_of_def)
  note sides = find_sides [OF Node.prems(3), of k]
  have s: "keys_sorted st (inorder l)" "keys_sorted st (inorder r)"
    using Node.prems(3) by (simp_all add: keys_sorted_simps)
  consider "str_less k (key_of st a)" | "str_less (key_of st a) k" | "key_of st a = k"
    using str_cases by blast
  then show ?case
  proof cases
    case 1
    have "get_loop st k a = get_loop st k (ptr l)"
      using 1 a d ka by (subst get_loop.simps) (simp add: cell_reads str_less_def)
    moreover have "get_loop st k (ptr l) = Some (case find (\<lambda>b. key_of st b = k) (inorder l) of None \<Rightarrow> 0 | Some a \<Rightarrow> a)"
      using Node.IH(1) [of "Into_left c a r # K"] Node.prems s by simp
    ultimately show ?thesis using sides(1) [OF 1] by (simp only: ptr.simps)
  next
    case 2
    have "get_loop st k a = get_loop st k (ptr r)"
      using 2 str_less_asym [OF 2] a d ka
      by (subst get_loop.simps) (simp add: cell_reads strcmp_greater [symmetric] str_less_def)
    moreover have "get_loop st k (ptr r) = Some (case find (\<lambda>b. key_of st b = k) (inorder r) of None \<Rightarrow> 0 | Some a \<Rightarrow> a)"
      using Node.IH(2) [of "Into_right l c a # K"] Node.prems s by simp
    ultimately show ?thesis using sides(2) [OF 2] by (simp only: ptr.simps)
  next
    case 3
    have "get_loop st k a = Some a"
      using 3 ka a d by (subst get_loop.simps) simp
    then show ?thesis using sides(3) [OF 3] by simp
  qed
qed

lemma get_link_ok:
  assumes "heap_holds F s (plug K t)"
  shows "get_link s (link_of K) = Some (ptr t)"
proof (cases K)
  case Nil
  then show ?thesis using assms by (simp add: get_link_def heap_holds_def)
next
  case (Cons f K')
  show ?thesis
  proof (cases f)
    case (Into_left c a r)
    then show ?thesis using at_node(1) [of F s K' t c a r] assms Cons by (simp add: get_link_def cell_reads)
  next
    case (Into_right l c a)
    then show ?thesis using at_node(1) [of F s K' l c a t] assms Cons by (simp add: get_link_def cell_reads)
  qed
qed

lemma sides_append: "before (K1 @ K2) = before K2 @ before K1" "after (K1 @ K2) = after K1 @ after K2"
proof -
  have "before (K1 @ K2) = before K2 @ before K1 \<and> after (K1 @ K2) = after K1 @ after K2"
  proof (induction K1)
    case (Cons f K1)
    then show ?case by (cases f) simp_all
  qed simp
  then show "before (K1 @ K2) = before K2 @ before K1" "after (K1 @ K2) = after K1 @ after K2" by simp_all
qed

lemma put_loop_ok:
  assumes "heap_holds F (tree st) (plug K t)" "\<forall>a\<in>set (inorder t). items st a \<noteq> None" "keys_sorted st (inorder t)"
  shows "case find (\<lambda>b. key_of st b = k) (inorder t) of
      Some a \<Rightarrow> put_loop st k (link_of K) (up K) = Some (Inl a)
    | None \<Rightarrow> \<exists>K1. t = plug K1 Leaf \<and> (\<forall>a\<in>set (before K1). str_less (key_of st a) k) \<and>
        (\<forall>a\<in>set (after K1). str_less k (key_of st a)) \<and>
        put_loop st k (link_of K) (up K) = Some (Inr (link_of (K1 @ K), up (K1 @ K)))"
  using assms
proof (induction t arbitrary: K)
  case Leaf
  have "put_loop st k (link_of K) (up K) = Some (Inr (link_of K, up K))"
    using get_link_ok [OF Leaf(1)] by (subst put_loop.simps) simp
  then show ?case by (auto intro!: exI [of _ "[]"])
next
  case (Node l c a r)
  note a = at_node [OF Node.prems(1)]
  obtain d where d: "items st a = Some d" using Node.prems(2) by auto
  have ka: "key_of st a = key d" using d by (simp add: key_of_def)
  have link: "get_link (tree st) (link_of K) = Some a" using get_link_ok [OF Node.prems(1)] by simp
  note sides = find_sides [OF Node.prems(3), of k]
  have s: "keys_sorted st (inorder l)" "keys_sorted st (inorder r)"
      "\<forall>b\<in>set (inorder l). str_less (key_of st b) (key_of st a)" "\<forall>b\<in>set (inorder r). str_less (key_of st a) (key_of st b)"
    using Node.prems(3) by (auto simp: keys_sorted_simps)
  consider "str_less k (key_of st a)" | "str_less (key_of st a) k" | "key_of st a = k"
    using str_cases by blast
  then show ?case
  proof cases
    case 1
    have step: "put_loop st k (link_of K) (up K) = put_loop st k (link_of (Into_left c a r # K)) (up (Into_left c a r # K))"
      using 1 a d ka link by (subst put_loop.simps) (simp add: str_less_def)
    have IH: "case find (\<lambda>b. key_of st b = k) (inorder l) of
        Some b \<Rightarrow> put_loop st k (link_of K) (up K) = Some (Inl b)
      | None \<Rightarrow> \<exists>K1. l = plug K1 Leaf \<and> (\<forall>a\<in>set (before K1). str_less (key_of st a) k) \<and>
          (\<forall>a\<in>set (after K1). str_less k (key_of st a)) \<and>
          put_loop st k (link_of K) (up K) = Some (Inr (link_of (K1 @ Into_left c a r # K), up (K1 @ Into_left c a r # K)))"
      unfolding step using Node.prems s by (intro Node.IH(1)) simp_all
    show ?thesis
    proof (cases "find (\<lambda>b. key_of st b = k) (inorder l)")
      case None
      then obtain K1 where K1: "l = plug K1 Leaf" "\<forall>a\<in>set (before K1). str_less (key_of st a) k"
        "\<forall>a\<in>set (after K1). str_less k (key_of st a)"
        "put_loop st k (link_of K) (up K) = Some (Inr (link_of (K1 @ Into_left c a r # K), up (K1 @ Into_left c a r # K)))"
        using IH by auto
      have "before (K1 @ [Into_left c a r]) = before K1" "after (K1 @ [Into_left c a r]) = after K1 @ a # inorder r"
        by (simp_all add: sides_append)
      then show ?thesis using K1 s 1 None sides(1) [OF 1] str_less_trans
        by (simp only: option.case) (intro exI [of _ "K1 @ [Into_left c a r]"], auto simp: plug_append)
    next
      case (Some b)
      then show ?thesis using IH sides(1) [OF 1] by simp
    qed
  next
    case 2
    have step: "put_loop st k (link_of K) (up K) = put_loop st k (link_of (Into_right l c a # K)) (up (Into_right l c a # K))"
      using 2 str_less_asym [OF 2] a d ka link
      by (subst put_loop.simps) (simp add: strcmp_greater [symmetric] str_less_def)
    have IH: "case find (\<lambda>b. key_of st b = k) (inorder r) of
        Some b \<Rightarrow> put_loop st k (link_of K) (up K) = Some (Inl b)
      | None \<Rightarrow> \<exists>K1. r = plug K1 Leaf \<and> (\<forall>a\<in>set (before K1). str_less (key_of st a) k) \<and>
          (\<forall>a\<in>set (after K1). str_less k (key_of st a)) \<and>
          put_loop st k (link_of K) (up K) = Some (Inr (link_of (K1 @ Into_right l c a # K), up (K1 @ Into_right l c a # K)))"
      unfolding step using Node.prems s by (intro Node.IH(2)) simp_all
    show ?thesis
    proof (cases "find (\<lambda>b. key_of st b = k) (inorder r)")
      case None
      then obtain K1 where K1: "r = plug K1 Leaf" "\<forall>a\<in>set (before K1). str_less (key_of st a) k"
        "\<forall>a\<in>set (after K1). str_less k (key_of st a)"
        "put_loop st k (link_of K) (up K) = Some (Inr (link_of (K1 @ Into_right l c a # K), up (K1 @ Into_right l c a # K)))"
        using IH by auto
      have "before (K1 @ [Into_right l c a]) = inorder l @ a # before K1" "after (K1 @ [Into_right l c a]) = after K1"
        by (simp_all add: sides_append)
      then show ?thesis using K1 s 2 None sides(2) [OF 2] str_less_trans
        by (simp only: option.case) (intro exI [of _ "K1 @ [Into_right l c a]"], auto simp: plug_append)
    next
      case (Some b)
      then show ?thesis using IH sides(2) [OF 2] by simp
    qed
  next
    case 3
    have "put_loop st k (link_of K) (up K) = Some (Inl a)"
      using 3 ka a d link by (subst put_loop.simps) simp
    then show ?thesis using sides(3) [OF 3] by simp
  qed
qed

section \<open>The map is a map\<close>

definition fresh_block :: "allocation \<Rightarrow> map_state \<Rightarrow> rbt \<Rightarrow> bool" where
  "fresh_block al st t \<longleftrightarrow> data_at al \<noteq> 0 \<and> aligned (data_at al) \<and> key_found al \<and> val_found al \<and>
     data_at al \<notin> set (inorder t) \<and> nodes (tree st) (data_at al) = None \<and> items st (data_at al) = None"

lemma holds_write:
  assumes "heap_holds F s t" "p \<notin> set (inorder t)"
  shows "heap_holds (F(p := x)) (s\<lparr>nodes := (nodes s)(p := x)\<rparr>) t"
  using assms by (auto simp: heap_holds_def intro!: tree_at_cong [where h = "nodes s"])

lemma keys_sorted_cong:
  assumes "keys_sorted st xs" "\<And>a. a \<in> set xs \<Longrightarrow> key_of st' a = key_of st a"
  shows "keys_sorted st' xs"
  using assms unfolding keys_sorted_def by (auto intro: sorted_wrt_mono_rel [rotated])

lemma contents_find: "contents st t k = map_option (val_of st) (find (\<lambda>b. key_of st b = k) (inorder t))"
  by (simp add: contents_def map_of_find)

lemma put_search:
  assumes "map_ok F st T" "fresh_block al st T" and st1_def: "st1 = new_item st (data_at al) k buf"
  shows "heap_holds (F(data_at al \<mapsto> \<lparr>rb_parent_color = 0, rb_right = 0, rb_left = 0\<rparr>)) (tree st1) T"
    "\<And>a. a \<in> set (inorder T) \<Longrightarrow> items st1 a = items st a \<and> key_of st1 a = key_of st a \<and> val_of st1 a = val_of st a"
    "case find (\<lambda>b. key_of st b = k) (inorder T) of
      Some a \<Rightarrow> put_loop st1 k Root_link 0 = Some (Inl a)
    | None \<Rightarrow> \<exists>K. T = plug K Leaf \<and> (\<forall>a\<in>set (before K). str_less (key_of st a) k) \<and>
        (\<forall>a\<in>set (after K). str_less k (key_of st a)) \<and>
        put_loop st1 k Root_link 0 = Some (Inr (link_of K, up K))"
proof -
  have p: "data_at al \<notin> set (inorder T)" using assms(2) by (simp add: fresh_block_def)
  show h: "heap_holds (F(data_at al \<mapsto> \<lparr>rb_parent_color = 0, rb_right = 0, rb_left = 0\<rparr>)) (tree st1) T"
    using holds_write [of F "tree st" T "data_at al"] assms(1) p by (simp add: map_ok_def st1_def new_item_def)
  show same: "items st1 a = items st a \<and> key_of st1 a = key_of st a \<and> val_of st1 a = val_of st a"
    if "a \<in> set (inorder T)" for a
    using that p by (auto simp: st1_def new_item_def key_of_def val_of_def)
  have "keys_sorted st1 (inorder T)"
    using assms(1) same by (auto simp: map_ok_def intro: keys_sorted_cong)
  moreover have "\<forall>a\<in>set (inorder T). items st1 a \<noteq> None" using assms(1) same by (simp add: map_ok_def)
  ultimately have L: "case find (\<lambda>b. key_of st1 b = k) (inorder T) of
      Some a \<Rightarrow> put_loop st1 k Root_link 0 = Some (Inl a)
    | None \<Rightarrow> \<exists>K. T = plug K Leaf \<and> (\<forall>a\<in>set (before K). str_less (key_of st1 a) k) \<and>
        (\<forall>a\<in>set (after K). str_less k (key_of st1 a)) \<and>
        put_loop st1 k Root_link 0 = Some (Inr (link_of K, up K))"
    using put_loop_ok [of _ st1 "[]" T k] h by (cases "find (\<lambda>b. key_of st1 b = k) (inorder T)") auto
  have "find (\<lambda>b. key_of st1 b = k) (inorder T) = find (\<lambda>b. key_of st b = k) (inorder T)"
    by (rule find_cong) (use same in auto)
  with L show "case find (\<lambda>b. key_of st b = k) (inorder T) of
      Some a \<Rightarrow> put_loop st1 k Root_link 0 = Some (Inl a)
    | None \<Rightarrow> \<exists>K. T = plug K Leaf \<and> (\<forall>a\<in>set (before K). str_less (key_of st a) k) \<and>
        (\<forall>a\<in>set (after K). str_less k (key_of st a)) \<and>
        put_loop st1 k Root_link 0 = Some (Inr (link_of K, up K))"
    using same by (cases "find (\<lambda>b. key_of st b = k) (inorder T)") (auto simp: inorder_plug)
qed

lemma put_new:
  assumes "map_ok F st T" "fresh_block al st T" "0 < n" "n \<le> length v" "contents st T k = None"
  shows "\<exists>st' T'. put al st k v n = Some (1, st') \<and> map_ok F st' T' \<and> contents st' T' = (contents st T)(k \<mapsto> take n v)"
proof -
  let ?p = "data_at al" and ?z = "\<lparr>rb_parent_color = 0, rb_right = 0, rb_left = 0\<rparr>"
  let ?st1 = "new_item st ?p k (take n v)"
  note S = put_search [OF assms(1,2), of ?st1 k "take n v", OF refl]
  have p: "?p \<noteq> 0" "aligned ?p" "key_found al" "val_found al" "?p \<notin> set (inorder T)"
    using assms(2) by (simp_all add: fresh_block_def)
  have none: "find (\<lambda>b. key_of st b = k) (inorder T) = None" using assms(5) by (simp add: contents_find)
  then obtain K where K: "T = plug K Leaf" "\<forall>a\<in>set (before K). str_less (key_of st a) k"
    "\<forall>a\<in>set (after K). str_less k (key_of st a)" "put_loop ?st1 k Root_link 0 = Some (Inr (link_of K, up K))"
    using S(3) by auto
  have inT: "inorder T = before K @ after K" using K(1) by (simp add: inorder_plug)
  have "nodes (tree ?st1) ?p \<noteq> None" by (simp add: new_item_def)
  moreover have "red_black (plug K Leaf)" using assms(1) K by (simp add: map_ok_def)
  ultimately obtain s1 s2 T' where ins: "rb_link_node (tree ?st1) ?p (up K) (link_of K) = Some s1"
    "rb_insert_color s1 ?p = Some s2" "heap_holds (F(?p \<mapsto> ?z)) s2 T'" "inorder T' = before K @ ?p # after K" "red_black T'"
    using insert_ok [of "F(?p \<mapsto> ?z)" "tree ?st1" K ?p] S(1) p K(1) inT by auto
  let ?st' = "?st1\<lparr>tree := s2\<rparr>"
  have "put al st k v n = Some (1, ?st')"
    using assms(3,4) p K(4) ins(1,2) by (simp add: put_def rd_bytes_in Let_def)
  moreover have ko: "key_of ?st' a = (if a = ?p then k else key_of st a)"
    "val_of ?st' a = (if a = ?p then take n v else val_of st a)"
    "items ?st' a = (if a = ?p then Some \<lparr>key = k, val = take n v\<rparr> else items st a)" for a
    by (simp_all add: key_of_def val_of_def new_item_def)
  have "map_ok F ?st' T'"
    unfolding map_ok_def
  proof (intro conjI ballI)
    show "heap_holds F (tree ?st') T'"
      using holds_outside [OF ins(3), of F] ins(4) by auto
    show "red_black T'" by (rule ins(5))
    fix a assume "a \<in> set (inorder T')"
    then show "items ?st' a \<noteq> None" using ko(3) assms(1) ins(4) inT by (auto simp: map_ok_def)
  next
    have "keys_sorted st (before K @ after K)" using assms(1) inT by (simp add: map_ok_def)
    moreover have same: "keys_sorted ?st' xs" if "keys_sorted st xs" "?p \<notin> set xs" for xs
      using that(1) by (rule keys_sorted_cong) (use that(2) ko(1) in auto)
    ultimately show "keys_sorted ?st' (inorder T')"
      unfolding ins(4) keys_sorted_simps using K(2,3) p(5) inT ko(1) by auto
  qed
  moreover have "contents ?st' T' = (contents st T)(k \<mapsto> take n v)"
  proof
    fix k'
    have l: "find (\<lambda>b. key_of ?st' b = k') xs = find (\<lambda>b. key_of st b = k') xs" if "?p \<notin> set xs" for xs
      using that ko(1) by (intro find_cong) auto
    have v: "map_option (val_of ?st') (find (\<lambda>b. key_of st b = k') xs) = map_option (val_of st) (find (\<lambda>b. key_of st b = k') xs)"
      if "?p \<notin> set xs" for xs
      using that ko(2) find_in [of "\<lambda>b. key_of st b = k'" xs] by (cases "find (\<lambda>b. key_of st b = k') xs") auto
    have d: "?p \<notin> set (before K)" "?p \<notin> set (after K)" using p(5) inT by auto
    show "contents ?st' T' k' = ((contents st T)(k \<mapsto> take n v)) k'"
    proof (cases "k' = k")
      case True
      then have "find (\<lambda>b. key_of st b = k') (before K) = None" using none inT by (simp add: find_append split: option.splits)
      then show ?thesis using True ko(1) [of ?p] ko(2) [of ?p] l [OF d(1)] by (simp add: contents_find ins(4) find_append)
    next
      case False
      then show ?thesis using ko(1) [of ?p] l [OF d(1)] l [OF d(2)] v [OF d(1)] v [OF d(2)]
        by (auto simp: contents_find ins(4) inT find_append split: option.splits)
    qed
  qed
  ultimately show ?thesis by blast
qed

lemma put_known:
  assumes "map_ok F st T" "fresh_block al st T" "0 < n" "n \<le> length v" "contents st T k = Some old"
  shows "case strcpy old v of
      None \<Rightarrow> put al st k v n = None
    | Some new \<Rightarrow> \<exists>st'. put al st k v n = Some (0, st') \<and> map_ok F st' T \<and> contents st' T = (contents st T)(k \<mapsto> new)"
proof -
  let ?p = "data_at al"
  let ?st1 = "new_item st ?p k (take n v)"
  note S = put_search [OF assms(1,2), of ?st1 k "take n v", OF refl]
  have p: "?p \<noteq> 0" "key_found al" "val_found al" "?p \<notin> set (inorder T)" "F ?p = None" "items st ?p = None"
    using assms(1,2) by (auto simp: fresh_block_def map_ok_def heap_holds_def)
  obtain a where a: "find (\<lambda>b. key_of st b = k) (inorder T) = Some a" "val_of st a = old"
    using assms(5) by (auto simp: contents_find)
  then have ka: "key_of st a = k" "a \<in> set (inorder T)" using find_in [OF a(1)] by auto
  then obtain d where d: "items st a = Some d" "key d = k" "val d = old"
    using assms(1) a(2) by (auto simp: map_ok_def key_of_def val_of_def)
  have loop: "put_loop ?st1 k Root_link 0 = Some (Inl a)" using S(3) a(1) by simp
  have d1: "items ?st1 a = Some d" using S(2) [OF ka(2)] d by simp
  have ap: "a \<noteq> ?p" using ka p by auto
  have put: "put al st k v n = (case strcpy old v of None \<Rightarrow> None
      | Some new \<Rightarrow> Some (0, free_item (?st1\<lparr>items := (items ?st1)(a \<mapsto> d\<lparr>val := new\<rparr>)\<rparr>) ?p))"
    using assms(3,4) p loop d1 d by (simp add: put_def rd_bytes_in Let_def split: option.split)
  show ?thesis
  proof (cases "strcpy old v")
    case None
    then show ?thesis using put by simp
  next
    case (Some new)
    let ?st' = "free_item (?st1\<lparr>items := (items ?st1)(a \<mapsto> d\<lparr>val := new\<rparr>)\<rparr>) ?p"
    have tree: "tree ?st' = (tree st)\<lparr>nodes := (nodes (tree st))(?p := None)\<rparr>"
      by (simp add: free_item_def new_item_def)
    have its: "items ?st' = (items st)(a \<mapsto> d\<lparr>val := new\<rparr>)"
      using ap p(6) by (auto simp: free_item_def new_item_def)
    have ko: "key_of ?st' b = key_of st b" "val_of ?st' b = (if b = a then new else val_of st b)" for b
      using d by (simp_all add: key_of_def val_of_def its)
    have "heap_holds F (tree ?st') T"
      using holds_write [of F "tree st" T ?p None] assms(1) p(4,5) tree by (simp add: map_ok_def fun_upd_idem)
    moreover have "keys_sorted ?st' (inorder T)"
      using assms(1) ko(1) by (auto simp: map_ok_def intro: keys_sorted_cong)
    ultimately have "map_ok F ?st' T" using assms(1) its by (simp add: map_ok_def)
    moreover have "contents ?st' T = (contents st T)(k \<mapsto> new)"
    proof
      fix k'
      show "contents ?st' T k' = ((contents st T)(k \<mapsto> new)) k'"
      proof (cases "k' = k")
        case True
        then show ?thesis using a(1) ko by (simp add: contents_find)
      next
        case False
        have "b \<noteq> a" if "find (\<lambda>b. key_of st b = k') (inorder T) = Some b" for b
          using find_in [OF that] False ka by auto
        then show ?thesis using False ko
          by (cases "find (\<lambda>b. key_of st b = k') (inorder T)") (auto simp: contents_find)
      qed
    qed
    ultimately show ?thesis using put Some by auto
  qed
qed

lemma get_ok:
  assumes "map_ok F st T"
  shows "\<exists>a. get st k = Some a \<and> (case contents st T k of None \<Rightarrow> a = 0
    | Some w \<Rightarrow> a \<noteq> 0 \<and> items st a = Some \<lparr>key = k, val = w\<rparr>)"
proof -
  have g: "get st k = Some (case find (\<lambda>b. key_of st b = k) (inorder T) of None \<Rightarrow> 0 | Some a \<Rightarrow> a)"
    using get_loop_ok [of F st "[]" T k] assms by (simp add: get_def map_ok_def heap_holds_def)
  show ?thesis
  proof (cases "find (\<lambda>b. key_of st b = k) (inorder T)")
    case None
    then show ?thesis using g by (simp add: contents_find)
  next
    case (Some a)
    then have a: "key_of st a = k" "a \<in> set (inorder T)" using find_in by fastforce+
    then have "a \<noteq> 0" "items st a = Some \<lparr>key = k, val = val_of st a\<rparr>"
      using assms by (auto simp: map_ok_def heap_holds_def addresses_ok_def key_of_def val_of_def)
    then show ?thesis using g Some by (simp add: contents_find)
  qed
qed

definition demo_map :: map_state where
  "demo_map = \<lparr>tree = \<lparr>nodes = [16 \<mapsto> cell 0 Black 0 0], rb_root = 16\<rparr>,
     items = [16 \<mapsto> \<lparr>key = [107], val = [1, 0, 7]\<rparr>]\<rparr>"

definition demo_allocation :: allocation where
  "demo_allocation = \<lparr>data_at = 24, key_found = True, val_found = True\<rparr>"

lemma demo_map_ok:
  "map_ok (nodes (tree demo_map)) demo_map (Node Leaf Black 16 Leaf)"
  "fresh_block demo_allocation demo_map (Node Leaf Black 16 Leaf)"
  "contents demo_map (Node Leaf Black 16 Leaf) = [[107] \<mapsto> [1, 0, 7]]"
  by (auto simp: map_ok_def fresh_block_def demo_map_def demo_allocation_def heap_holds_def addresses_ok_def aligned_def
      red_black_def keys_sorted_def contents_def key_of_def val_of_def)

text \<open>
  C40. The map refines a finite map. \<open>get\<close> returns the item of a key, null if there is none. \<open>put\<close> with
  memory for the new structure and its buffers does what \<open>map_put\<close> says of the map, and keeps the tree a
  red-black tree with its keys in order: nothing for the size 0; for a new key the first \<open>val_size\<close>
  bytes of the value; for a known key the string in the value is copied over the buffer of the first
  value, whatever \<open>val_size\<close> is. It is undefined (\<^term>\<open>None\<close>) exactly if the value is shorter than
  \<open>val_size\<close>, or the key is known and the value holds no string or one that the first buffer has no room for.
\<close>
theorem map_refines:
  assumes "map_ok F st T" "fresh_block al st T"
  shows "(case map_put k v n (contents st T) of
      None \<Rightarrow> put al st k v n = None
    | Some (r, m) \<Rightarrow> \<exists>st' T'. put al st k v n = Some (r, st') \<and> map_ok F st' T' \<and> contents st' T' = m) \<and>
    (\<exists>a. get st k = Some a \<and> (case contents st T k of None \<Rightarrow> a = 0
      | Some w \<Rightarrow> a \<noteq> 0 \<and> items st a = Some \<lparr>key = k, val = w\<rparr>))"
proof
  show "\<exists>a. get st k = Some a \<and> (case contents st T k of None \<Rightarrow> a = 0
      | Some w \<Rightarrow> a \<noteq> 0 \<and> items st a = Some \<lparr>key = k, val = w\<rparr>)"
    by (rule get_ok [OF assms(1)])
  consider "n = 0" | "n > length v" "n \<noteq> 0" | "0 < n" "n \<le> length v" by linarith
  then show "case map_put k v n (contents st T) of
      None \<Rightarrow> put al st k v n = None
    | Some (r, m) \<Rightarrow> \<exists>st' T'. put al st k v n = Some (r, st') \<and> map_ok F st' T' \<and> contents st' T' = m"
  proof cases
    case 1
    then show ?thesis using assms(1) by (auto simp: map_put_def put_def)
  next
    case 2
    then show ?thesis using assms(2) by (simp add: map_put_def put_def rd_bytes_def fresh_block_def)
  next
    case 3
    show ?thesis
    proof (cases "contents st T k")
      case None
      then show ?thesis using put_new [OF assms 3 None] 3 by (simp add: map_put_def)
    next
      case (Some old)
      then show ?thesis using put_known [OF assms 3 Some] 3
        by (cases "strcpy old v") (auto simp: map_put_def)
    qed
  qed
qed

theorem map_refines_witness:
  "(\<exists>st T. put demo_allocation demo_map [108] [5, 6] 1 = Some (1, st) \<and> map_ok (nodes (tree demo_map)) st T \<and>
      contents st T = [[107] \<mapsto> [1, 0, 7], [108] \<mapsto> [5]]) \<and>
    (\<exists>st T. put demo_allocation demo_map [107] [2, 3, 0, 9] 4 = Some (0, st) \<and> map_ok (nodes (tree demo_map)) st T \<and>
      contents st T = [[107] \<mapsto> [2, 3, 0]]) \<and>
    put demo_allocation demo_map [107] [2, 3, 4, 0] 4 = None \<and> get demo_map [107] = Some 16"
proof -
  note r = map_refines [OF demo_map_ok(1,2), unfolded demo_map_ok(3)]
  have 1: "\<exists>st T. put demo_allocation demo_map [108] [5, 6] 1 = Some (1, st) \<and> map_ok (nodes (tree demo_map)) st T \<and>
      contents st T = [[107] \<mapsto> [1, 0, 7], [108] \<mapsto> [5]]"
    using r [of "[108]" "[5, 6]" 1 ] by (simp add: map_put_def)
  have 2: "\<exists>st T. put demo_allocation demo_map [107] [2, 3, 0, 9] 4 = Some (0, st) \<and> map_ok (nodes (tree demo_map)) st T \<and>
      contents st T = [[107] \<mapsto> [2, 3, 0]]"
    using r [of "[107]" "[2, 3, 0, 9]" 4] by (simp add: map_put_def strcpy_def wr_bytes_def)
  have 3: "put demo_allocation demo_map [107] [2, 3, 4, 0] 4 = None"
    using r [of "[107]" "[2, 3, 4, 0]" 4] by (simp add: map_put_def strcpy_def wr_bytes_def)
  obtain a where a: "get demo_map [107] = Some a" "items demo_map a = Some \<lparr>key = [107], val = [1, 0, 7]\<rparr>"
    using r [of "[107]" "[]" 0] by auto
  then have "a = 16" by (simp add: demo_map_def split: if_splits)
  with a 1 2 3 show ?thesis by simp
qed

end
