(* ===== verification/Mqtt.thy ===== *)
theory Mqtt
  imports Prelude
begin

text \<open>
  The packets of the MQTT client: \<open>e_mqtt.c\<close> and \<open>e_mqtt.h\<close> under
  \<open>src/source/fun_protocol/mqtt/\<close>. Here are the fixed header with its rules, the functions
  \<open>mqtt_pack_...\<close> that build requests in the send buffer, and the functions \<open>mqtt_unpack_...\<close>
  that take received packets apart. What they do is proved in \<open>MqttFacts\<close>.

  A buffer is the list of the bytes from the given pointer to the end of its object, \<open>bufsz\<close> the
  size the caller passes with it; a pointer into a packet is the index of the byte it leads to. A
  string is the list of its characters before the terminating zero. The builders answer with
  \<^term>\<open>Inl e\<close> where the code returns the error \<open>e\<close> and with \<^term>\<open>Inr n\<close> where it returns \<open>n\<close>
  bytes, \<open>n = 0\<close> meaning that the buffer is too small. The parsers answer with \<open>Fail e\<close>, with
  \<open>More\<close> where the code returns 0 because the packet is not complete yet, and with \<open>Done n r\<close>
  where it returns \<open>n\<close> consumed bytes and leaves \<open>r\<close> in the response. The \<open>printf\<close> calls of the
  parsers are left out.
\<close>

section \<open>Types\<close>

datatype mqtt_errors = MQTT_ERROR_UNKNOWN
  | MQTT_ERROR_NULLPTR | MQTT_ERROR_CONTROL_FORBIDDEN_TYPE | MQTT_ERROR_CONTROL_INVALID_FLAGS
  | MQTT_ERROR_CONTROL_WRONG_TYPE | MQTT_ERROR_CONNECT_NULL_CLIENT_ID
  | MQTT_ERROR_CONNECT_NULL_WILL_MESSAGE | MQTT_ERROR_CONNECT_FORBIDDEN_WILL_QOS
  | MQTT_ERROR_CONNACK_FORBIDDEN_FLAGS | MQTT_ERROR_CONNACK_FORBIDDEN_CODE
  | MQTT_ERROR_PUBLISH_FORBIDDEN_QOS | MQTT_ERROR_SUBSCRIBE_TOO_MANY_TOPICS
  | MQTT_ERROR_MALFORMED_RESPONSE | MQTT_ERROR_UNSUBSCRIBE_TOO_MANY_TOPICS
  | MQTT_ERROR_RESPONSE_INVALID_CONTROL_TYPE | MQTT_ERROR_CONNECT_NOT_CALLED
  | MQTT_ERROR_SEND_BUFFER_IS_FULL | MQTT_ERROR_SOCKET_ERROR | MQTT_ERROR_MALFORMED_REQUEST
  | MQTT_ERROR_RECV_BUFFER_TOO_SMALL | MQTT_ERROR_ACK_OF_UNKNOWN | MQTT_ERROR_NOT_IMPLEMENTED
  | MQTT_ERROR_CONNECTION_REFUSED | MQTT_ERROR_SUBSCRIBE_FAILED | MQTT_ERROR_CONNECTION_CLOSED
  | MQTT_ERROR_INITIAL_RECONNECT | MQTT_ERROR_INVALID_REMAINING_LENGTH | MQTT_OK

text \<open>\<open>enum MQTTControlPacketType\<close> is an \<open>unsigned int\<close>; these are its names.\<close>

type_synonym control_type = u32

abbreviation (input) "CONNECT \<equiv> (1 :: control_type)"
abbreviation (input) "CONNACK \<equiv> (2 :: control_type)"
abbreviation (input) "PUBLISH \<equiv> (3 :: control_type)"
abbreviation (input) "PUBACK \<equiv> (4 :: control_type)"
abbreviation (input) "PUBREC \<equiv> (5 :: control_type)"
abbreviation (input) "PUBREL \<equiv> (6 :: control_type)"
abbreviation (input) "PUBCOMP \<equiv> (7 :: control_type)"
abbreviation (input) "SUBSCRIBE \<equiv> (8 :: control_type)"
abbreviation (input) "SUBACK \<equiv> (9 :: control_type)"
abbreviation (input) "UNSUBSCRIBE \<equiv> (10 :: control_type)"
abbreviation (input) "UNSUBACK \<equiv> (11 :: control_type)"
abbreviation (input) "PINGREQ \<equiv> (12 :: control_type)"
abbreviation (input) "PINGRESP \<equiv> (13 :: control_type)"
abbreviation (input) "DISCONNECT \<equiv> (14 :: control_type)"

text \<open>The flags are a bit field of four bits.\<close>

type_synonym u4 = "4 word"

record mqtt_fixed_header =
  control_type :: control_type
  control_flags :: u4
  remaining_length :: u32

record mqtt_connect_connectflags =
  clean_session :: u8
  will_flag :: u8
  will_qos :: u8
  will_retain :: u8
  password_flag :: u8
  username_flag :: u8

text \<open>A \<open>c_string\<close>: its length and the index of its first byte in the packet.\<close>

type_synonym c_string = "u16 \<times> nat"

record mqtt_response_connect =
  protocol_name :: "u16 \<times> bytes"
  protocol_level :: u8
  connect_flag :: mqtt_connect_connectflags
  keep_alive_time :: u16
  client_id :: c_string
  will_topic :: "c_string option"
  will_msg :: "c_string option"
  user_name :: "c_string option"
  password :: "c_string option"

record mqtt_response_publish =
  dup_flag :: u8
  qos_level :: u8
  retain_flag :: u8
  topic_name_size :: u16
  topic_name :: nat
  publish_id :: u16
  application_message :: nat
  application_message_size :: nat

text \<open>
  The union \<open>decoded\<close> of \<open>struct mqtt_response\<close>. The four acknowledgements of a publication share
  their layout, a packet identifier. Of a subscription the parser keeps where each topic starts
  and its quality of service; it does not store the length of the topic.
\<close>

datatype mqtt_decoded =
    Connect mqtt_response_connect
  | Connack u8 u8
  | Publish mqtt_response_publish
  | Puback u16 | Pubrec u16 | Pubrel u16 | Pubcomp u16
  | Subscribe u16 "(nat \<times> u8) list"
  | Suback u16 nat nat
  | Unsuback u16
  | Pingresp

type_synonym mqtt_response = "mqtt_fixed_header \<times> mqtt_decoded"

datatype 'r parse = Fail mqtt_errors | More | Done nat 'r

section \<open>Byte order and strings\<close>

definition htons :: "u16 \<Rightarrow> u16" where
  "htons w = mk16 (lo8 w) (hi8 w)"

definition rd_be16 :: "bytes \<Rightarrow> nat \<Rightarrow> u16 option" where
  "rd_be16 m i = map_option htons (rd16 m i)"

definition wr_be16 :: "bytes \<Rightarrow> nat \<Rightarrow> u16 \<Rightarrow> bytes option" where
  "wr_be16 m i v = wr16 m i (htons v)"

definition packed_cstrlen :: "bytes \<Rightarrow> nat" where
  "packed_cstrlen s = 2 + length s"

text \<open>The length of a string is kept in a \<open>uint16_t\<close>.\<close>

definition mqtt_pack_str :: "bytes \<Rightarrow> nat \<Rightarrow> bytes \<Rightarrow> (nat \<times> bytes) option" where
  "mqtt_pack_str m i s = do {
     let len = (of_nat (length s) :: u16);
     m \<leftarrow> wr_be16 m i len;
     m \<leftarrow> for_each (\<lambda>k m. do { c \<leftarrow> rd8 s k; wr8 m (i + 2 + k) c }) [0..<unat len] m;
     Some (i + unat len + 2, m)
   }"

section \<open>The fixed header\<close>

definition control_type_is_valid :: "u8 list" where
  "control_type_is_valid = [0, 1, 1, 1, 1, 1, 1, 1, 1, 1, 1, 1, 1, 1, 1, 0]"

definition required_flags :: "u8 list" where
  "required_flags = [0, 0, 0, 0, 0, 0, 2, 0, 2, 0, 2, 0, 0, 0, 0, 0]"

definition mask_required_flags :: "u8 list" where
  "mask_required_flags = [0, 15, 15, 0, 15, 15, 15, 15, 15, 15, 15, 15, 15, 15, 15, 0]"

text \<open>The tables are indexed by the low byte of the type.\<close>

definition mqtt_fixed_header_rule_violation :: "mqtt_fixed_header \<Rightarrow> mqtt_errors option option" where
  "mqtt_fixed_header_rule_violation fh = do {
     let ct = unat (ucast (control_type fh) :: u8);
     let flags = (ucast (control_flags fh) :: u8);
     req \<leftarrow> rd8 required_flags ct;
     mask \<leftarrow> rd8 mask_required_flags ct;
     valid \<leftarrow> rd8 control_type_is_valid ct;
     Some (if valid = 0 then Some MQTT_ERROR_CONTROL_FORBIDDEN_TYPE
       else if (flags XOR req) AND mask \<noteq> 0 then Some MQTT_ERROR_CONTROL_INVALID_FLAGS
       else None)
   }"

text \<open>
  The remaining length comes seven bits at a time, the low bits first; \<open>lshift\<close> counts the bits
  read and \<open>i\<close> is the byte last consumed. The loop ends with the bytes that are left, the index
  behind the header and the length.
\<close>

function unpack_length :: "bytes \<Rightarrow> nat \<Rightarrow> nat \<Rightarrow> nat \<Rightarrow> u32 \<Rightarrow> (nat \<times> u32) parse option" where
  "unpack_length buf bufsz i lshift len =
     (if lshift = 28 then Some (Fail MQTT_ERROR_INVALID_REMAINING_LENGTH)
      else if bufsz - 1 = 0 then Some More
      else do {
        b \<leftarrow> rd8 buf (i + 1);
        let len = len + push_bit lshift (ucast (b AND 0x7F));
        if b AND 0x80 \<noteq> 0 then unpack_length buf (bufsz - 1) (i + 1) (lshift + 7) len
        else Some (Done (i + 2) (bufsz - 2, len))
      })"
  by pat_completeness auto

termination by (relation "measure (\<lambda>(buf, bufsz, i, lshift, len). bufsz)") auto

declare unpack_length.simps [simp del]

definition mqtt_unpack_fixed_header :: "bytes option \<Rightarrow> nat \<Rightarrow> mqtt_fixed_header parse option" where
  "mqtt_unpack_fixed_header p bufsz = (case p of
     None \<Rightarrow> Some (Fail MQTT_ERROR_NULLPTR)
   | Some buf \<Rightarrow>
     if bufsz = 0 then Some More
     else do {
       b \<leftarrow> rd8 buf 0;
       r \<leftarrow> unpack_length buf bufsz 0 0 0;
       (case r of Fail e \<Rightarrow> Some (Fail e) | More \<Rightarrow> Some More
        | Done n (bufsz, len) \<Rightarrow> do {
            let fh = \<lparr>control_type = ucast (drop_bit 4 b), control_flags = ucast (b AND 0x0F),
                      remaining_length = len\<rparr>;
            rule \<leftarrow> mqtt_fixed_header_rule_violation fh;
            (case rule of Some e \<Rightarrow> Some (Fail e)
             | None \<Rightarrow> Some (if bufsz < unat len then More else Done n fh))
          })
     })"

function pack_length :: "bytes \<Rightarrow> nat \<Rightarrow> nat \<Rightarrow> u32 \<Rightarrow> ((nat \<times> nat) option \<times> bytes) option" where
  "pack_length buf bufsz i len =
     (if bufsz - 1 = 0 then Some (None, buf)
      else do {
        let b = (if unat len > 127 then ucast (len AND 0x7F) OR 0x80 else ucast (len AND 0x7F) :: u8);
        buf \<leftarrow> wr8 buf (i + 1) b;
        if b AND 0x80 \<noteq> 0 then pack_length buf (bufsz - 1) (i + 1) (drop_bit 7 len)
        else Some (Some (bufsz - 2, i + 2), buf)
      })"
  by pat_completeness auto

termination by (relation "measure (\<lambda>(buf, bufsz, i, len). bufsz)") auto

declare pack_length.simps [simp del]

type_synonym packed = "((mqtt_errors + nat) \<times> bytes option) option"

definition mqtt_pack_fixed_header :: "bytes option \<Rightarrow> nat \<Rightarrow> mqtt_fixed_header \<Rightarrow> packed" where
  "mqtt_pack_fixed_header p bufsz fh = (case p of
     None \<Rightarrow> Some (Inl MQTT_ERROR_NULLPTR, p)
   | Some buf \<Rightarrow> do {
       rule \<leftarrow> mqtt_fixed_header_rule_violation fh;
       (case rule of
          Some e \<Rightarrow> Some (Inl e, p)
        | None \<Rightarrow>
          if bufsz = 0 then Some (Inr 0, p)
          else do {
            buf \<leftarrow> wr8 buf 0 (push_bit 4 (ucast (control_type fh)) AND 0xF0);
            b \<leftarrow> rd8 buf 0;
            buf \<leftarrow> wr8 buf 0 (b OR (ucast (control_flags fh) AND 0x0F));
            let len = remaining_length fh;
            if 256 * 1024 * 1024 \<le> unat len
            then Some (Inl MQTT_ERROR_INVALID_REMAINING_LENGTH, Some buf)
            else do {
              (r, buf) \<leftarrow> pack_length buf bufsz 0 len;
              Some (case r of
                 None \<Rightarrow> (Inr 0, Some buf)
               | Some (bufsz, n) \<Rightarrow>
                 (Inr (if bufsz < unat (remaining_length fh) then 0 else n), Some buf))
            }
          })
     })"

text \<open>
  Every builder starts with the fixed header and gives up where that fails, then checks that the
  rest fits, and writes it behind the header.
\<close>

definition behind_header ::
  "bytes option \<Rightarrow> nat \<Rightarrow> mqtt_fixed_header \<Rightarrow> nat \<Rightarrow> (bytes \<Rightarrow> nat \<Rightarrow> (nat \<times> bytes) option) \<Rightarrow> packed"
where
  "behind_header p bufsz fh need body = do {
     (rv, p) \<leftarrow> mqtt_pack_fixed_header p bufsz fh;
     (case rv of
        Inl e \<Rightarrow> Some (Inl e, p)
      | Inr n \<Rightarrow>
        if n = 0 then Some (Inr 0, p)
        else if bufsz - n < need then Some (Inr 0, p)
        else do {
          buf \<leftarrow> p;
          (n, buf) \<leftarrow> body buf n;
          Some (Inr n, Some buf)
        })
   }"

section \<open>Builders\<close>

text \<open>
  \<open>CONNECT\<close>: the flags and the remaining length are built together; the flags of what is absent
  are cleared. The will message is written as it is, without its length.
\<close>

definition connect_will ::
  "bytes option \<Rightarrow> bytes option \<Rightarrow> nat \<Rightarrow> u8 \<Rightarrow> u32 \<Rightarrow> mqtt_errors + (u8 \<times> u32)"
where
  "connect_will topic message sz flags len = (case topic of
     Some t \<Rightarrow>
       let flags = flags OR 4; len = len + of_nat (packed_cstrlen t) in
       if message = None then Inl MQTT_ERROR_CONNECT_NULL_WILL_MESSAGE
       else
         let len = len + of_nat (2 + sz) in
         if flags AND 0x18 = 0x18 then Inl MQTT_ERROR_CONNECT_FORBIDDEN_WILL_QOS
         else Inr (flags, len)
   | None \<Rightarrow> Inr (((flags AND NOT 4) AND NOT 0x18) AND NOT 0x20, len))"

definition connect_optional :: "bytes option \<Rightarrow> u8 \<Rightarrow> u8 \<Rightarrow> u32 \<Rightarrow> u8 \<times> u32" where
  "connect_optional s flag flags len = (case s of
     Some t \<Rightarrow> (flags OR flag, len + of_nat (packed_cstrlen t))
   | None \<Rightarrow> (flags AND NOT flag, len))"

text \<open>A flag that is set says that its string is there.\<close>

definition pack_optional :: "bool \<Rightarrow> bytes option \<Rightarrow> bytes \<Rightarrow> nat \<Rightarrow> (nat \<times> bytes) option" where
  "pack_optional present s m i = (if present then do { t \<leftarrow> s; mqtt_pack_str m i t } else Some (i, m))"

definition connect_body ::
  "bytes \<Rightarrow> bytes option \<Rightarrow> bytes option \<Rightarrow> nat \<Rightarrow> bytes option \<Rightarrow> bytes option \<Rightarrow> u8 \<Rightarrow> u16
     \<Rightarrow> bytes \<Rightarrow> nat \<Rightarrow> (nat \<times> bytes) option"
where
  "connect_body cid topic message sz user pass flags ka m i = do {
     m \<leftarrow> wr_bytes m i [0, 4, 77, 81, 84, 84, 4, flags];
     m \<leftarrow> wr_be16 m (i + 8) ka;
     (i, m) \<leftarrow> mqtt_pack_str m (i + 10) cid;
     (i, m) \<leftarrow> (if flags AND 4 \<noteq> 0 then do {
         t \<leftarrow> topic;
         (i, m) \<leftarrow> mqtt_pack_str m i t;
         w \<leftarrow> message;
         vs \<leftarrow> rd_bytes w 0 sz;
         m \<leftarrow> wr_bytes m i vs;
         Some (i + sz, m)
       } else Some (i, m));
     (i, m) \<leftarrow> pack_optional (flags AND 0x80 \<noteq> 0) user m i;
     pack_optional (flags AND 0x40 \<noteq> 0) pass m i
   }"

definition mqtt_pack_connection_request ::
  "bytes option \<Rightarrow> nat \<Rightarrow> bytes option \<Rightarrow> bytes option \<Rightarrow> bytes option \<Rightarrow> nat \<Rightarrow> bytes option
     \<Rightarrow> bytes option \<Rightarrow> u8 \<Rightarrow> u16 \<Rightarrow> packed"
where
  "mqtt_pack_connection_request p bufsz cid topic message sz user pass flags ka = (case cid of
     None \<Rightarrow> Some (Inl MQTT_ERROR_CONNECT_NULL_CLIENT_ID, p)
   | Some c \<Rightarrow>
     (case connect_will topic message sz (flags AND NOT 1) (10 + of_nat (packed_cstrlen c)) of
        Inl e \<Rightarrow> Some (Inl e, p)
      | Inr (flags, len) \<Rightarrow>
        let (flags, len) = connect_optional user 0x80 flags len;
            (flags, len) = connect_optional pass 0x40 flags len
        in behind_header p bufsz
             \<lparr>control_type = CONNECT, control_flags = 0, remaining_length = len\<rparr> (unat len)
             (connect_body c topic message sz user pass flags ka)))"

definition mqtt_pack_disconnect :: "bytes option \<Rightarrow> nat \<Rightarrow> packed" where
  "mqtt_pack_disconnect p bufsz = mqtt_pack_fixed_header p bufsz
     \<lparr>control_type = DISCONNECT, control_flags = 0, remaining_length = 0\<rparr>"

definition mqtt_pack_ping_request :: "bytes option \<Rightarrow> nat \<Rightarrow> packed" where
  "mqtt_pack_ping_request p bufsz = mqtt_pack_fixed_header p bufsz
     \<lparr>control_type = PINGREQ, control_flags = 0, remaining_length = 0\<rparr>"

text \<open>The quality of service in the flags of a publication.\<close>

definition publish_qos :: "u8 \<Rightarrow> u8" where
  "publish_qos flags = drop_bit 1 (flags AND 6)"

text \<open>\<open>PUBLISH\<close>: the remaining length is a \<open>uint16_t\<close> here.\<close>

definition publish_body ::
  "bytes \<Rightarrow> bool \<Rightarrow> u16 \<Rightarrow> bytes \<Rightarrow> nat \<Rightarrow> bytes \<Rightarrow> nat \<Rightarrow> (nat \<times> bytes) option"
where
  "publish_body topic with_id pid message sz m i = do {
     (i, m) \<leftarrow> mqtt_pack_str m i topic;
     (i, m) \<leftarrow> (if with_id then do { m \<leftarrow> wr_be16 m i pid; Some (i + 2, m) } else Some (i, m));
     vs \<leftarrow> rd_bytes message 0 sz;
     m \<leftarrow> wr_bytes m i vs;
     Some (i + sz, m)
   }"

definition publish_length :: "bytes \<Rightarrow> bool \<Rightarrow> nat \<Rightarrow> u16" where
  "publish_length topic with_id sz =
     of_nat (packed_cstrlen topic) + (if with_id then 2 else 0) + of_nat sz"

definition mqtt_pack_publish_request ::
  "bytes option \<Rightarrow> nat \<Rightarrow> bytes option \<Rightarrow> u16 \<Rightarrow> bytes \<Rightarrow> nat \<Rightarrow> u8 \<Rightarrow> packed"
where
  "mqtt_pack_publish_request p bufsz topic pid message sz flags = (case (p, topic) of
     (Some _, Some t) \<Rightarrow>
       let qos = publish_qos flags;
           len = publish_length t (qos \<noteq> 0) sz;
           flags = (if qos = 0 then flags AND NOT 8 else flags)
       in if qos = 3 then Some (Inl MQTT_ERROR_PUBLISH_FORBIDDEN_QOS, p)
          else behind_header p bufsz
                 \<lparr>control_type = PUBLISH, control_flags = ucast flags, remaining_length = ucast len\<rparr>
                 (unat len) (publish_body t (qos \<noteq> 0) pid message sz)
   | _ \<Rightarrow> Some (Inl MQTT_ERROR_NULLPTR, p))"

definition id_body :: "u16 \<Rightarrow> bytes \<Rightarrow> nat \<Rightarrow> (nat \<times> bytes) option" where
  "id_body pid m i = do { m \<leftarrow> wr_be16 m i pid; Some (i + 2, m) }"

definition mqtt_pack_pubxxx_request :: "bytes option \<Rightarrow> nat \<Rightarrow> control_type \<Rightarrow> u16 \<Rightarrow> packed" where
  "mqtt_pack_pubxxx_request p bufsz ct pid = (case p of
     None \<Rightarrow> Some (Inl MQTT_ERROR_NULLPTR, p)
   | Some _ \<Rightarrow> behind_header p bufsz
       \<lparr>control_type = ct, control_flags = (if ct = PUBREL then 2 else 0), remaining_length = 2\<rparr>
       2 (id_body pid))"

text \<open>
  The arguments of a subscription are pairs of topic and quality of service up to a null pointer;
  the array for them has eight places, and the eighth pair is already one too many.
\<close>

definition subscribe_topic :: "bytes \<times> u8 \<Rightarrow> nat \<times> bytes \<Rightarrow> (nat \<times> bytes) option" where
  "subscribe_topic = (\<lambda>(t, qos) (i, m). do {
     (i, m) \<leftarrow> mqtt_pack_str m i t;
     m \<leftarrow> wr8 m i qos;
     Some (i + 1, m)
   })"

definition mqtt_pack_subscribe_request :: "bytes option \<Rightarrow> nat \<Rightarrow> u16 \<Rightarrow> (bytes \<times> u8) list \<Rightarrow> packed" where
  "mqtt_pack_subscribe_request p bufsz pid topics =
     (if 8 \<le> length topics then Some (Inl MQTT_ERROR_SUBSCRIBE_TOO_MANY_TOPICS, p)
      else let len = fold (\<lambda>(t, _) len. len + of_nat (packed_cstrlen t + 1)) topics 2 in
        behind_header p bufsz
          \<lparr>control_type = SUBSCRIBE, control_flags = 2, remaining_length = len\<rparr> (unat len)
          (\<lambda>m i. do {
             m \<leftarrow> wr_be16 m i pid;
             for_each subscribe_topic topics (i + 2, m)
           }))"

definition mqtt_pack_unsubscribe_request :: "bytes option \<Rightarrow> nat \<Rightarrow> u16 \<Rightarrow> bytes list \<Rightarrow> packed" where
  "mqtt_pack_unsubscribe_request p bufsz pid topics =
     (if 8 \<le> length topics then Some (Inl MQTT_ERROR_UNSUBSCRIBE_TOO_MANY_TOPICS, p)
      else let len = fold (\<lambda>t len. len + of_nat (packed_cstrlen t)) topics 2 in
        behind_header p bufsz
          \<lparr>control_type = UNSUBSCRIBE, control_flags = 2, remaining_length = len\<rparr> (unat len)
          (\<lambda>m i. do {
             m \<leftarrow> wr_be16 m i pid;
             for_each (\<lambda>t (i, m). mqtt_pack_str m i t) topics (i + 2, m)
           }))"

section \<open>Parsers\<close>

text \<open>Each parser reads behind the fixed header \<open>fh\<close>, from index \<open>i\<close> of the packet.\<close>

text \<open>A string: its length, and the index of its characters; then what follows it.\<close>

definition unpack_string :: "bytes \<Rightarrow> nat \<Rightarrow> (c_string \<times> nat) option" where
  "unpack_string m i = do {
     len \<leftarrow> rd_be16 m i;
     Some ((len, i + 2), i + 2 + unat len)
   }"

definition unpack_if :: "bool \<Rightarrow> bytes \<Rightarrow> nat \<Rightarrow> (c_string option \<times> nat) option" where
  "unpack_if present m i =
     (if present then do { (s, i) \<leftarrow> unpack_string m i; Some (Some s, i) } else Some (None, i))"

definition connect_flags_of :: "u8 \<Rightarrow> mqtt_connect_connectflags" where
  "connect_flags_of b = \<lparr>clean_session = drop_bit 1 b AND 1, will_flag = drop_bit 2 b AND 1,
     will_qos = drop_bit 3 b AND 3, will_retain = drop_bit 5 b AND 1,
     password_flag = drop_bit 6 b AND 1, username_flag = drop_bit 7 b AND 1\<rparr>"

text \<open>The name of the protocol is copied into an array of four bytes, whatever its length.\<close>

definition mqtt_unpack_connect_response :: "bytes \<Rightarrow> nat \<Rightarrow> mqtt_response_connect option" where
  "mqtt_unpack_connect_response m i = do {
     plen \<leftarrow> rd_be16 m i;
     name \<leftarrow> rd_bytes m (i + 2) (unat plen);
     name \<leftarrow> (if length name \<le> 4 then Some name else None);
     let i = i + 2 + unat plen;
     level \<leftarrow> rd8 m i;
     b \<leftarrow> rd8 m (i + 1);
     let flags = connect_flags_of b;
     ka \<leftarrow> rd_be16 m (i + 2);
     (cid, i) \<leftarrow> unpack_string m (i + 4);
     (topic, i) \<leftarrow> unpack_if (will_flag flags = 1) m i;
     (msg, i) \<leftarrow> unpack_if (will_flag flags = 1) m i;
     (pass, i) \<leftarrow> unpack_if (password_flag flags = 1) m i;
     (user, i) \<leftarrow> unpack_if (username_flag flags = 1) m i;
     Some \<lparr>protocol_name = (plen, name), protocol_level = level, connect_flag = flags,
           keep_alive_time = ka, client_id = cid, will_topic = topic, will_msg = msg,
           user_name = user, password = pass\<rparr>
   }"

text \<open>The topics of a subscription go to an array of ten places.\<close>

function subscribe_payloads ::
  "bytes \<Rightarrow> u32 \<Rightarrow> nat \<Rightarrow> u32 \<Rightarrow> (nat \<times> u8) list \<Rightarrow> (nat \<times> u8) list option"
where
  "subscribe_payloads m remain i cur payloads =
     (if \<not> cur < remain then Some payloads
      else if 10 \<le> length payloads then None
      else do {
        len \<leftarrow> rd_be16 m i;
        qos \<leftarrow> rd8 m (i + 2 + unat len);
        subscribe_payloads m remain (i + 2 + unat len + 1) (cur + (2 + ucast len + 1))
          (payloads @ [(i + 2, qos)])
      })"
  by pat_completeness auto

termination by (relation "measure (\<lambda>(m, remain, i, cur, payloads). 10 - length payloads)") auto

declare subscribe_payloads.simps [simp del]

definition mqtt_unpack_subscribe_response :: "mqtt_fixed_header \<Rightarrow> bytes \<Rightarrow> nat \<Rightarrow> mqtt_decoded option"
where
  "mqtt_unpack_subscribe_response fh m i = do {
     head \<leftarrow> rd_be16 m i;
     payloads \<leftarrow> subscribe_payloads m (remaining_length fh - 2) (i + 2) 0 [];
     Some (Subscribe head payloads)
   }"

type_synonym parsed = "mqtt_decoded parse option"

definition mqtt_unpack_connack_response :: "mqtt_fixed_header \<Rightarrow> bytes \<Rightarrow> nat \<Rightarrow> parsed" where
  "mqtt_unpack_connack_response fh m i =
     (if remaining_length fh \<noteq> 2 then Some (Fail MQTT_ERROR_MALFORMED_RESPONSE)
      else do {
        b \<leftarrow> rd8 m i;
        if b AND 0xFE \<noteq> 0 then Some (Fail MQTT_ERROR_CONNACK_FORBIDDEN_FLAGS)
        else do {
          c \<leftarrow> rd8 m (i + 1);
          Some (if c > 5 then Fail MQTT_ERROR_CONNACK_FORBIDDEN_CODE else Done 2 (Connack b c))
        }
      })"

text \<open>
  \<open>PUBLISH\<close>: the size of the message is what the 32-bit difference of the remaining length, the
  length of the topic and the fixed fields comes to.
\<close>

definition mqtt_unpack_publish_response :: "mqtt_fixed_header \<Rightarrow> bytes \<Rightarrow> nat \<Rightarrow> parsed" where
  "mqtt_unpack_publish_response fh m i =
     (let flags = (ucast (control_flags fh) :: u8);
          qos = publish_qos flags in
      if unat (remaining_length fh) < 4 then Some (Fail MQTT_ERROR_MALFORMED_RESPONSE)
      else do {
        len \<leftarrow> rd_be16 m i;
        let j = i + 2 + unat len;
        (pid, j) \<leftarrow> (if qos > 0 then do { pid \<leftarrow> rd_be16 m j; Some (pid, j + 2) } else Some (0, j));
        let sz = unat (remaining_length fh - ucast len - (if qos = 0 then 2 else 4));
        Some (Done (j + sz - i) (Publish
          \<lparr>dup_flag = drop_bit 3 (flags AND 8), qos_level = qos, retain_flag = flags AND 1,
           topic_name_size = len, topic_name = i + 2, publish_id = pid,
           application_message = j, application_message_size = sz\<rparr>))
      })"

definition mqtt_unpack_pubxxx_response :: "mqtt_fixed_header \<Rightarrow> bytes \<Rightarrow> nat \<Rightarrow> parsed" where
  "mqtt_unpack_pubxxx_response fh m i =
     (if remaining_length fh \<noteq> 2 then Some (Fail MQTT_ERROR_MALFORMED_RESPONSE)
      else do {
        pid \<leftarrow> rd_be16 m i;
        Some (Done 2
          (if control_type fh = PUBACK then Puback pid
           else if control_type fh = PUBREC then Pubrec pid
           else if control_type fh = PUBREL then Pubrel pid
           else Pubcomp pid))
      })"

definition mqtt_unpack_suback_response :: "mqtt_fixed_header \<Rightarrow> bytes \<Rightarrow> nat \<Rightarrow> parsed" where
  "mqtt_unpack_suback_response fh m i =
     (if unat (remaining_length fh) < 3 then Some (Fail MQTT_ERROR_MALFORMED_RESPONSE)
      else do {
        pid \<leftarrow> rd_be16 m i;
        let n = unat (remaining_length fh - 2);
        Some (Done (2 + n) (Suback pid (i + 2) n))
      })"

definition mqtt_unpack_unsuback_response :: "mqtt_fixed_header \<Rightarrow> bytes \<Rightarrow> nat \<Rightarrow> parsed" where
  "mqtt_unpack_unsuback_response fh m i =
     (if remaining_length fh \<noteq> 2 then Some (Fail MQTT_ERROR_MALFORMED_RESPONSE)
      else do {
        pid \<leftarrow> rd_be16 m i;
        Some (Done 2 (Unsuback pid))
      })"

text \<open>
  The parser of a packet. The results of the parsers for \<open>CONNECT\<close> and \<open>SUBSCRIBE\<close> are not used:
  there the length of the fixed header is added once more.
\<close>

definition unpack_body :: "mqtt_fixed_header \<Rightarrow> bytes \<Rightarrow> nat \<Rightarrow> parsed" where
  "unpack_body fh m n =
     (let ct = control_type fh in
      if ct = CONNECT then do { c \<leftarrow> mqtt_unpack_connect_response m n; Some (Done n (Connect c)) }
      else if ct = CONNACK then mqtt_unpack_connack_response fh m n
      else if ct = PUBLISH then mqtt_unpack_publish_response fh m n
      else if ct = PUBACK \<or> ct = PUBREC \<or> ct = PUBREL \<or> ct = PUBCOMP
        then mqtt_unpack_pubxxx_response fh m n
      else if ct = SUBSCRIBE then do { d \<leftarrow> mqtt_unpack_subscribe_response fh m n; Some (Done n d) }
      else if ct = SUBACK then mqtt_unpack_suback_response fh m n
      else if ct = UNSUBACK then mqtt_unpack_unsuback_response fh m n
      else if ct = PINGRESP then Some (Done 0 Pingresp)
      else Some (Fail MQTT_ERROR_RESPONSE_INVALID_CONTROL_TYPE))"

definition mqtt_unpack_response :: "bytes option \<Rightarrow> nat \<Rightarrow> mqtt_response parse option" where
  "mqtt_unpack_response p bufsz = do {
     r \<leftarrow> mqtt_unpack_fixed_header p bufsz;
     (case r of Fail e \<Rightarrow> Some (Fail e) | More \<Rightarrow> Some More
      | Done n fh \<Rightarrow> do {
          m \<leftarrow> p;
          d \<leftarrow> unpack_body fh m n;
          Some (case d of Fail e \<Rightarrow> Fail e | More \<Rightarrow> More | Done k d \<Rightarrow> Done (n + k) (fh, d))
        })
   }"

end
