(* ===== verification/MqttFacts.thy ===== *)
theory MqttFacts
  imports Mqtt
begin

text \<open>
  What the builders and parsers of \<open>Mqtt\<close> do. The reference is a packet written as a list of
  bytes: the first byte, the remaining length in the variable encoding of the standard, then the
  fields. A builder writes its packet at the start of the buffer when there is room for it and
  answers 0 otherwise; the parser gets back from a packet what was written; on arbitrary bytes it
  stays inside the buffer, except where stated.
\<close>

section \<open>Bytes\<close>

lemma htons_htons [simp]: "htons (htons w) = w"
  by (simp add: htons_def)

lemma le16_htons [simp]: "le16 (htons v) = be16 v"
  by (simp add: le16_def be16_def htons_def)

lemma wr_be16_in [mem_simps]: "i + 2 \<le> length m \<Longrightarrow> wr_be16 m i v = Some (splice m i (be16 v))"
  by (simp add: wr_be16_def wr16_le16 splice_def)

lemma rd_be16_in: "i + 2 \<le> length m \<Longrightarrow> rd_be16 m i = Some (mk16 (m ! i) (m ! (i + 1)))"
  by (simp add: rd_be16_def rd16_in htons_def)

lemma rd_be16_at: "length xs = i \<Longrightarrow> rd_be16 (xs @ be16 v @ ys) i = Some v"
  by (auto simp: rd_be16_in be16_def nth_append)

lemma wr_bytes_spliced: "i + length vs \<le> length m \<Longrightarrow> wr_bytes m i vs = Some (splice m i vs)"
  by (simp add: wr_bytes_in splice_def)

lemma splice_splice:
  "j = i + length xs \<Longrightarrow> j + length ys \<le> length m \<Longrightarrow>
     splice (splice m i xs) j ys = splice m i (xs @ ys)"
  by (rule nth_equalityI) (auto simp: nth_splice nth_append)

lemma splice_0: "splice m 0 xs = xs @ drop (length xs) m"
  by (simp add: splice_def)

section \<open>The reference encoding\<close>

fun varint :: "nat \<Rightarrow> bytes" where
  "varint n = (if n < 128 then [of_nat n] else (of_nat (n mod 128) OR 0x80) # varint (n div 128))"

declare varint.simps [simp del]

definition header_bytes :: "control_type \<Rightarrow> u4 \<Rightarrow> nat \<Rightarrow> bytes" where
  "header_bytes ct flags len = (push_bit 4 (ucast ct) OR ucast flags) # varint len"

definition str_bytes :: "bytes \<Rightarrow> bytes" where
  "str_bytes s = be16 (of_nat (length s)) @ s"

text \<open>A packet is complete when its remaining length is that of what follows the header.\<close>

definition packet :: "control_type \<Rightarrow> u4 \<Rightarrow> bytes \<Rightarrow> bytes" where
  "packet ct flags body = header_bytes ct flags (length body) @ body"

lemma length_varint: "length (varint n) = (if n < 128 then 1 else Suc (length (varint (n div 128))))"
  by (subst varint.simps) simp

lemma varint_not_empty [simp]: "varint n \<noteq> []"
  by (subst varint.simps) simp

lemma length_varint_pos [simp]: "0 < length (varint n)"
  by simp

lemma length_varint_le: "n < 128 ^ k \<Longrightarrow> 0 < k \<Longrightarrow> length (varint n) \<le> k"
proof (induction k arbitrary: n)
  case (Suc k)
  show ?case
  proof (cases "n < 128")
    case True
    then show ?thesis by (subst length_varint) simp
  next
    case False
    with Suc.prems have "0 < k" by (cases k) auto
    moreover from Suc.prems have "n div 128 < 128 ^ k" by (simp add: less_mult_imp_div_less mult.commute)
    ultimately show ?thesis using Suc.IH False by (subst length_varint) simp
  qed
qed simp

lemma length_varint_28: "n < 2 ^ 28 \<Longrightarrow> length (varint n) \<le> 4"
  using length_varint_le [of n 4] by simp

lemma bit_80: "bit (0x80 :: u8) k \<longleftrightarrow> k = 7"
proof -
  have "(0x80 :: u8) = push_bit 7 1" by simp
  then show ?thesis by (simp only: bit_push_bit_iff) (auto simp: bit_simps)
qed

lemma and_7F: "(x :: 'a :: len word) AND 0x7F = take_bit 7 x"
proof -
  have "(0x7F :: 'a word) = mask 7" by (simp add: mask_eq_exp_minus_1)
  then show ?thesis by (simp only: take_bit_eq_mask)
qed

lemma low_bits: "n < 128 \<Longrightarrow> 7 \<le> k \<Longrightarrow> \<not> bit (of_nat n :: u8) k"
  using nat_bit_above [of n 7 k] by (simp add: bit_of_nat_iff)

lemma and_80: "x AND 0x80 = (if bit (x :: u8) 7 then 0x80 else 0)"
proof (rule bit_word_eqI)
  fix k
  show "bit (x AND 0x80) k = bit (if bit x 7 then 0x80 else 0 :: u8) k"
    using bit_80 [of k] by (cases "bit x 7") (auto simp: bit_and_iff)
qed

lemma take_bit_low: "take_bit 7 (of_nat n :: u8) = of_nat (n mod 128)"
  using take_bit_eq_mod [of 7 n] by (simp only: take_bit_of_nat) simp

lemma low_byte:
  assumes "n < 128"
  shows "(of_nat n :: u8) AND 0x80 = 0" "(of_nat n :: u8) AND 0x7F = of_nat n"
  using low_bits [OF assms, of 7] take_bit_low [of n] assms by (simp_all add: and_80 and_7F)

lemma high_byte:
  assumes "n < 128"
  shows "(of_nat n OR 0x80 :: u8) AND 0x80 = 0x80" "(of_nat n OR 0x80 :: u8) AND 0x7F = of_nat n"
proof -
  have "bit (of_nat n OR 0x80 :: u8) 7" using bit_80 [of 7] by (simp add: bit_or_iff)
  then show "(of_nat n OR 0x80 :: u8) AND 0x80 = 0x80" by (simp add: and_80)
  have "take_bit 7 (0x80 :: u8) = 0" by simp
  then show "(of_nat n OR 0x80 :: u8) AND 0x7F = of_nat n"
    using take_bit_low [of n] assms unfolding and_7F by (simp only: take_bit_or) simp
qed

lemma low_seven: "ucast (of_nat n AND 0x7F :: u32) = (of_nat (n mod 128) :: u8)"
  unfolding and_7F take_bit_low [symmetric]
  by (rule bit_word_eqI) (auto simp: bit_simps bit_of_nat_iff)

section \<open>The fixed header is written and read\<close>

lemma unat_u32: "n < 2 ^ 32 \<Longrightarrow> unat (of_nat n :: u32) = n"
  by (simp add: unat_of_nat)

lemma shift_seven: "n < 2 ^ 32 \<Longrightarrow> drop_bit 7 (of_nat n :: u32) = of_nat (n div 128)"
  by (rule word_unat_eq_iff [THEN iffD2]) (simp add: unat_drop_bit unat_of_nat)

lemma unat_widen: "unat (ucast (w :: u16) :: u32) = unat w"
proof -
  have "unat w < 65536" using unsigned_less [of w] by simp
  then show ?thesis by (simp add: unsigned_ucast_eq take_bit_nat_eq_self)
qed

lemma splice_one: "i < length m \<Longrightarrow> splice m i [b] = m[i := b]"
  by (simp add: splice_def upd_conv_take_nth_drop)

lemma pack_length_ok:
  "n < 2 ^ 32 \<Longrightarrow> 0 < bufsz \<Longrightarrow> i + bufsz \<le> length m \<Longrightarrow>
   (if length (varint n) < bufsz
    then pack_length m bufsz i (of_nat n) =
      Some (Some (bufsz - 1 - length (varint n), i + 1 + length (varint n)), splice m (i + 1) (varint n))
    else \<exists>m'. length m' = length m \<and> pack_length m bufsz i (of_nat n) = Some (None, m'))"
proof (induction n arbitrary: m bufsz i rule: varint.induct)
  case (1 n)
  show ?case
  proof (cases "bufsz = 1")
    case True
    then show ?thesis by (simp add: pack_length.simps)
  next
    case False
    with "1.prems" have b: "2 \<le> bufsz" "i + 1 < length m" by auto
    show ?thesis
    proof (cases "n < 128")
      case True
      have "varint n = [of_nat n]" using True by (simp add: varint.simps)
      moreover have "pack_length m bufsz i (of_nat n) = Some (Some (bufsz - 2, i + 2), m[i + 1 := of_nat n])"
        using b True unat_u32 [OF "1.prems"(1)] low_seven [of n] low_byte [OF True]
        by (subst pack_length.simps) (simp add: wr8_in)
      ultimately show ?thesis using b splice_one [OF b(2)] by simp
    next
      case False
      let ?b = "of_nat (n mod 128) OR 0x80 :: u8"
      let ?m = "m[i + 1 := ?b]"
      have v: "varint n = ?b # varint (n div 128)" using False by (simp add: varint.simps)
      have step: "pack_length m bufsz i (of_nat n) = pack_length ?m (bufsz - 1) (i + 1) (of_nat (n div 128))"
        using b False unat_u32 [OF "1.prems"(1)] low_seven [of n] high_byte [of "n mod 128"]
          shift_seven [OF "1.prems"(1)]
        by (subst pack_length.simps) (simp add: wr8_in)
      have s: "splice ?m (i + 2) (varint (n div 128)) = splice m (i + 1) (varint n)"
        if "length (varint (n div 128)) < bufsz - 1"
        using that "1.prems" b splice_splice [of "i + 2" "i + 1" "[?b]" "varint (n div 128)" m]
        by (simp add: v splice_one)
      have d: "n div 128 < 2 ^ 32" using "1.prems"(1) by (rule le_less_trans [OF div_le_dividend])
      have e: "0 < bufsz - 1" "i + 1 + (bufsz - 1) \<le> length ?m" using "1.prems" b by auto
      have "if length (varint (n div 128)) < bufsz - 1
        then pack_length m bufsz i (of_nat n) = Some (Some (bufsz - 2 - length (varint (n div 128)),
            i + 2 + length (varint (n div 128))), splice ?m (i + 2) (varint (n div 128)))
        else \<exists>m'. length m' = length ?m \<and> pack_length m bufsz i (of_nat n) = Some (None, m')"
        using "1.IH" [OF False d e] unfolding step
        by (simp only: add.assoc diff_diff_left one_add_one)
      with s b show ?thesis by (auto simp: v split: if_splits)
    qed
  qed
qed

text \<open>The types and flags that the rules admit.\<close>

definition rule_ok :: "control_type \<Rightarrow> u4 \<Rightarrow> bool" where
  "rule_ok ct flags \<longleftrightarrow>
     (\<forall>len. mqtt_fixed_header_rule_violation
        \<lparr>control_type = ct, control_flags = flags, remaining_length = len\<rparr> = Some None)"

lemma rule_okD:
  "rule_ok ct flags \<Longrightarrow> mqtt_fixed_header_rule_violation
     \<lparr>control_type = ct, control_flags = flags, remaining_length = len\<rparr> = Some None"
  by (simp add: rule_ok_def)

lemma rule_ok_types:
  "rule_ok CONNECT 0" "rule_ok PUBLISH flags" "rule_ok PUBACK 0" "rule_ok PUBREC 0" "rule_ok PUBREL 2"
  "rule_ok PUBCOMP 0" "rule_ok SUBSCRIBE 2" "rule_ok UNSUBSCRIBE 2" "rule_ok PINGREQ 0"
  "rule_ok DISCONNECT 0" "rule_ok CONNACK 0" "rule_ok SUBACK 0" "rule_ok UNSUBACK 0" "rule_ok PINGRESP 0"
  by (simp_all add: rule_ok_def mqtt_fixed_header_rule_violation_def required_flags_def
      mask_required_flags_def control_type_is_valid_def rd8_def)

text \<open>
  A builder writes the packet when there is room for \<open>need\<close> bytes, and otherwise answers 0 and
  leaves a buffer of the same size.
\<close>

definition builds :: "packed \<Rightarrow> bytes \<Rightarrow> nat \<Rightarrow> nat \<Rightarrow> bytes \<Rightarrow> bool" where
  "builds r m bufsz need pkt \<longleftrightarrow>
     (if need \<le> bufsz then r = Some (Inr (length pkt), Some (pkt @ drop (length pkt) m))
      else \<exists>m'. length m' = length m \<and> r = Some (Inr 0, Some m'))"

lemma first_byte:
  "(push_bit 4 (ucast ct) AND 0xF0 :: u8) OR (ucast (flags :: u4) AND 0x0F) = push_bit 4 (ucast (ct :: u32)) OR ucast flags"
proof -
  have f: "(0x0F :: u8) = mask 4" by (simp add: mask_eq_exp_minus_1)
  have "(0xF0 :: u8) = push_bit 4 0x0F" by simp
  then have "push_bit 4 x AND (0xF0 :: u8) = push_bit 4 x" for x
    by (rule ssubst) (unfold f, rule bit_word_eqI, auto simp: bit_simps)
  moreover have "(ucast flags AND 0x0F :: u8) = ucast flags"
    unfolding f by (rule bit_word_eqI) (auto simp: bit_simps dest: bit_imp_le_length)
  ultimately show ?thesis by (simp only:)
qed

lemma pack_fixed_header_ok:
  assumes "rule_ok ct flags" "n < 2 ^ 28" "bufsz \<le> length m"
  shows "builds (mqtt_pack_fixed_header (Some m) bufsz
      \<lparr>control_type = ct, control_flags = flags, remaining_length = of_nat n\<rparr>)
      m bufsz (length (header_bytes ct flags n) + n) (header_bytes ct flags n)"
proof (cases "bufsz = 0")
  case True
  then show ?thesis
    by (simp add: builds_def mqtt_pack_fixed_header_def rule_okD [OF assms(1)] header_bytes_def)
next
  case False
  let ?b = "push_bit 4 (ucast ct) OR ucast flags :: u8"
  let ?m = "m[0 := ?b]"
  have n32: "n < 2 ^ 32" using assms(2) by simp
  from False assms(3) have m: "0 < length m" by auto
  have cut: "splice ?m 1 (varint n) = header_bytes ct flags n @ drop (length (header_bytes ct flags n)) m"
    if "length (varint n) < bufsz"
  proof -
    have "splice (splice m 0 [?b]) 1 (varint n) = splice m 0 (header_bytes ct flags n)"
      using that assms(3) by (subst splice_splice) (simp_all add: header_bytes_def)
    then show ?thesis by (simp only: splice_one [OF m]) (simp only: splice_0)
  qed
  have pack: "mqtt_pack_fixed_header (Some m) bufsz
      \<lparr>control_type = ct, control_flags = flags, remaining_length = of_nat n\<rparr> =
    do { (r, buf) \<leftarrow> pack_length ?m bufsz 0 (of_nat n);
         Some (case r of None \<Rightarrow> (Inr 0, Some buf)
               | Some (bufsz, k) \<Rightarrow> (Inr (if bufsz < n then 0 else k), Some buf)) }"
    using False m assms(2) unat_u32 [OF n32]
    by (simp add: mqtt_pack_fixed_header_def rule_okD [OF assms(1)] wr8_in rd8_in first_byte Let_def cong: option.case_cong)
  show ?thesis
    using pack_length_ok [OF n32, of bufsz 0 ?m] False assms(3) cut
    by (auto simp: builds_def pack header_bytes_def split: if_splits)
qed

text \<open>
  What stands behind the header. The body writer is called at the end of the header and leaves its
  bytes there; it may write fewer bytes than the header announces.
\<close>

lemma behind_header_ok:
  assumes ok: "rule_ok ct flags" "n < 2 ^ 28" "bufsz \<le> length m" "length vs \<le> n"
    and body: "\<And>m'. length m' = length m \<Longrightarrow> length (header_bytes ct flags n) + n \<le> length m' \<Longrightarrow>
      body m' (length (header_bytes ct flags n)) =
        Some (length (header_bytes ct flags n) + length vs, splice m' (length (header_bytes ct flags n)) vs)"
  shows "builds (behind_header (Some m) bufsz
      \<lparr>control_type = ct, control_flags = flags, remaining_length = of_nat n\<rparr> n body)
      m bufsz (length (header_bytes ct flags n) + n) (header_bytes ct flags n @ vs)"
proof -
  let ?h = "header_bytes ct flags n"
  note h = pack_fixed_header_ok [OF ok(1-3)]
  show ?thesis
  proof (cases "length ?h + n \<le> bufsz")
    case True
    let ?m = "?h @ drop (length ?h) m"
    have len: "length ?m = length m" using True ok(3) by simp
    have "body ?m (length ?h) = Some (length ?h + length vs, ?h @ vs @ drop (length ?h + length vs) m)"
      using body [OF len] True ok(3,4) len by (simp add: splice_def add.commute)
    moreover have "?h \<noteq> []" by (simp add: header_bytes_def)
    ultimately show ?thesis
      using h True by (auto simp: builds_def behind_header_def)
  next
    case False
    with h show ?thesis by (auto simp: builds_def behind_header_def)
  qed
qed

lemma packet_ok:
  assumes "rule_ok ct flags" "length vs < 2 ^ 28" "bufsz \<le> length m"
    and "\<And>m' i. i + length vs \<le> length m' \<Longrightarrow> body m' i = Some (i + length vs, splice m' i vs)"
  shows "builds (behind_header (Some m) bufsz
      \<lparr>control_type = ct, control_flags = flags, remaining_length = of_nat (length vs)\<rparr> (length vs) body)
      m bufsz (length (packet ct flags vs)) (packet ct flags vs)"
  using behind_header_ok [OF assms(1-3) order.refl, of body] assms(4) by (simp add: packet_def)

lemma pack_str_ok:
  assumes "length s < 65536" "i + 2 + length s \<le> length m"
  shows "mqtt_pack_str m i s = Some (i + length (str_bytes s), splice m i (str_bytes s))"
proof -
  let ?m = "splice m i (be16 (of_nat (length s)))"
  have len: "unat (of_nat (length s) :: u16) = length s" using assms(1) by (simp add: unat_of_nat)
  have "for_each (\<lambda>k m. do { c \<leftarrow> rd8 s k; wr8 m (i + 2 + k) c }) [0..<length s] ?m =
      Some (splice ?m (i + 2) (map (\<lambda>k. s ! k) [0..<length s]))"
    using for_each_store [of "i + 2" "length s" ?m "rd8 s" "\<lambda>k. s ! k" "\<lambda>c. c"] assms(2)
    by (simp add: rd8_in)
  moreover have "splice ?m (i + 2) s = splice m i (str_bytes s)"
    using assms(2) by (simp add: str_bytes_def splice_splice)
  ultimately show ?thesis
    using assms(2) by (simp add: mqtt_pack_str_def mem_simps len map_nth str_bytes_def add.commute)
qed

lemma length_str_bytes [simp]: "length (str_bytes s) = packed_cstrlen s"
  by (simp add: str_bytes_def packed_cstrlen_def)

section \<open>What the builders write\<close>

definition pubxxx_packet :: "control_type \<Rightarrow> u16 \<Rightarrow> bytes" where
  "pubxxx_packet ct pid = packet ct (if ct = PUBREL then 2 else 0) (be16 pid)"

definition publish_packet :: "u8 \<Rightarrow> bytes \<Rightarrow> u16 \<Rightarrow> bytes \<Rightarrow> bytes" where
  "publish_packet flags topic pid message =
     (let qos = publish_qos flags in
      packet PUBLISH (ucast (if qos = 0 then flags AND NOT 8 else flags))
        (str_bytes topic @ (if qos = 0 then [] else be16 pid) @ message))"

definition subscribe_packet :: "u16 \<Rightarrow> (bytes \<times> u8) list \<Rightarrow> bytes" where
  "subscribe_packet pid topics =
     packet SUBSCRIBE 2 (be16 pid @ concat (map (\<lambda>(t, qos). str_bytes t @ [qos]) topics))"

definition unsubscribe_packet :: "u16 \<Rightarrow> bytes list \<Rightarrow> bytes" where
  "unsubscribe_packet pid topics = packet UNSUBSCRIBE 2 (be16 pid @ concat (map str_bytes topics))"

lemma pubxxx_ok:
  assumes "rule_ok ct (if ct = PUBREL then 2 else 0)" "bufsz \<le> length m"
  shows "builds (mqtt_pack_pubxxx_request (Some m) bufsz ct pid) m bufsz
    (length (pubxxx_packet ct pid)) (pubxxx_packet ct pid)"
proof -
  have "builds (behind_header (Some m) bufsz
      \<lparr>control_type = ct, control_flags = (if ct = PUBREL then 2 else 0), remaining_length = of_nat 2\<rparr>
      2 (id_body pid)) m bufsz (length (header_bytes ct (if ct = PUBREL then 2 else 0) 2) + 2)
      (header_bytes ct (if ct = PUBREL then 2 else 0) 2 @ be16 pid)"
    by (rule behind_header_ok [OF assms(1) _ assms(2)]) (auto simp: id_body_def mem_simps)
  then show ?thesis by (simp add: mqtt_pack_pubxxx_request_def pubxxx_packet_def packet_def)
qed

lemma ping_ok:
  assumes "bufsz \<le> length m"
  shows "builds (mqtt_pack_ping_request (Some m) bufsz) m bufsz (length (packet PINGREQ 0 [])) (packet PINGREQ 0 [])"
    and "builds (mqtt_pack_disconnect (Some m) bufsz) m bufsz (length (packet DISCONNECT 0 [])) (packet DISCONNECT 0 [])"
  using pack_fixed_header_ok [OF rule_ok_types(9), of 0, OF _ assms]
    pack_fixed_header_ok [OF rule_ok_types(10), of 0, OF _ assms]
  by (simp_all add: mqtt_pack_ping_request_def mqtt_pack_disconnect_def packet_def)

text \<open>Pieces written one after the other.\<close>

lemma splice_twice:
  "i + length xs + length ys \<le> length m \<Longrightarrow>
     splice (splice m i xs) (i + length xs) ys = splice m i (xs @ ys)"
  by (rule splice_splice) simp_all

lemma splice_none [simp]: "splice m i [] = m"
  by (simp add: splice_def)

lemma for_each_pieces:
  assumes "\<And>x i m. x \<in> set xs \<Longrightarrow> i + length (g x) \<le> length m \<Longrightarrow>
      f x (i, m) = Some (i + length (g x), splice m i (g x))"
    and "i + length (concat (map g xs)) \<le> length m"
  shows "for_each f xs (i, m) =
    Some (i + length (concat (map g xs)), splice m i (concat (map g xs)))"
  using assms
proof (induction xs arbitrary: i m)
  case (Cons x xs)
  have "f x (i, m) = Some (i + length (g x), splice m i (g x))"
    using Cons.prems(1) [of x i m] Cons.prems(2) by simp
  moreover have "for_each f xs (i + length (g x), splice m i (g x)) =
      Some (i + length (g x) + length (concat (map g xs)),
            splice (splice m i (g x)) (i + length (g x)) (concat (map g xs)))"
    using Cons.prems by (intro Cons.IH) simp_all
  moreover have "i + length (g x) + length (concat (map g xs)) \<le> length m"
    using Cons.prems(2) by simp
  note splice_twice [OF this]
  ultimately show ?case by (simp add: add.assoc)
qed simp

lemma fold_lengths:
  "fold (\<lambda>x len. len + of_nat (length (g x))) xs acc = (acc + of_nat (length (concat (map g xs))) :: u32)"
  by (induction xs arbitrary: acc) simp_all

definition topic_bytes :: "bytes \<times> u8 \<Rightarrow> bytes" where
  "topic_bytes = (\<lambda>(t, qos). str_bytes t @ [qos])"

lemma subscribe_ok:
  assumes topics: "length topics < 8" "\<forall>(t, qos) \<in> set topics. length t < 65536" and m: "bufsz \<le> length m"
  shows "builds (mqtt_pack_subscribe_request (Some m) bufsz pid topics) m bufsz
    (length (subscribe_packet pid topics)) (subscribe_packet pid topics)"
proof -
  let ?g = "topic_bytes"
  let ?vs = "be16 pid @ concat (map ?g topics)"
  let ?n = "length ?vs"
  have each: "length (?g x) \<le> 65538" if "x \<in> set topics" for x
    using topics(2) that by (auto simp: topic_bytes_def packed_cstrlen_def)
  have "length (concat (map ?g xs)) \<le> 65538 * length xs" if "set xs \<subseteq> set topics" for xs
    using that each by (induction xs) (auto simp: add_mono)
  from this [of topics] topics(1) have n: "?n < 2 ^ 28" by auto
  have len: "fold (\<lambda>(t, _) len. len + of_nat (packed_cstrlen t + 1)) topics 2 = (of_nat ?n :: u32)"
    using fold_lengths [of ?g topics 2] by (simp add: topic_bytes_def case_prod_unfold add.assoc)
  have n32: "?n < 2 ^ 32" using n by simp
  have topic: "subscribe_topic x (i, m) = Some (i + length (?g x), splice m i (?g x))"
    if "x \<in> set topics" "i + length (?g x) \<le> length m" for x i m
  proof -
    obtain t q where x: "x = (t, q)" by (cases x)
    have t: "length t < 65536" "i + 2 + length t < length m"
      using that topics(2) by (auto simp: x topic_bytes_def packed_cstrlen_def)
    have s: "i + length (str_bytes t) + length [q] \<le> length m" using t by (simp add: packed_cstrlen_def)
    have "wr8 (splice m i (str_bytes t)) (i + length (str_bytes t)) q =
        Some (splice m i (str_bytes t @ [q]))"
      using s by (simp only: splice_twice [OF s, symmetric]) (simp add: wr8_in splice_one)
    then show ?thesis
      using t by (simp add: x subscribe_topic_def topic_bytes_def pack_str_ok)
  qed
  have body: "do { m \<leftarrow> wr_be16 m' i pid; for_each subscribe_topic topics (i + 2, m) } = Some (i + ?n, splice m' i ?vs)"
    if room: "i + ?n \<le> length m'" for m' i
  proof -
    have r: "i + length (be16 pid) + length (concat (map ?g topics)) \<le> length m'" using room by simp
    show ?thesis
      using for_each_pieces [where f = subscribe_topic, OF topic, of topics "i + 2" "splice m' i (be16 pid)"]
        room splice_twice [OF r]
      by (simp add: mem_simps add.assoc)
  qed
  have "\<not> 8 \<le> length topics" using topics(1) by simp
  then show ?thesis
    unfolding mqtt_pack_subscribe_request_def len Let_def subscribe_packet_def topic_bytes_def [symmetric] unat_u32 [OF n32]
    using packet_ok [OF rule_ok_types(7) n m body] by simp
qed

lemma unsubscribe_ok:
  assumes topics: "length topics < 8" "\<forall>t \<in> set topics. length t < 65536" and m: "bufsz \<le> length m"
  shows "builds (mqtt_pack_unsubscribe_request (Some m) bufsz pid topics) m bufsz
    (length (unsubscribe_packet pid topics)) (unsubscribe_packet pid topics)"
proof -
  let ?vs = "be16 pid @ concat (map str_bytes topics)"
  let ?n = "length ?vs"
  have "length (concat (map str_bytes xs)) \<le> 65538 * length xs" if "set xs \<subseteq> set topics" for xs
    using that topics(2) by (induction xs) (auto simp: packed_cstrlen_def dest!: bspec)
  from this [of topics] topics(1) have n: "?n < 2 ^ 28" by auto
  have len: "fold (\<lambda>t len. len + of_nat (packed_cstrlen t)) topics 2 = (of_nat ?n :: u32)"
    using fold_lengths [of str_bytes topics 2] by simp
  have n32: "?n < 2 ^ 32" using n by simp
  have topic: "(\<lambda>t (i, m). mqtt_pack_str m i t) x (i, m) = Some (i + length (str_bytes x), splice m i (str_bytes x))"
    if "x \<in> set topics" "i + length (str_bytes x) \<le> length m" for x i m
    using that topics(2) by (simp add: pack_str_ok packed_cstrlen_def)
  have body: "do { m \<leftarrow> wr_be16 m' i pid; for_each (\<lambda>t (i, m). mqtt_pack_str m i t) topics (i + 2, m) } =
      Some (i + ?n, splice m' i ?vs)"
    if room: "i + ?n \<le> length m'" for m' i
  proof -
    have r: "i + length (be16 pid) + length (concat (map str_bytes topics)) \<le> length m'" using room by simp
    show ?thesis
      using for_each_pieces [where f = "\<lambda>t (i, m). mqtt_pack_str m i t", OF topic, of topics "i + 2"
          "splice m' i (be16 pid)"] room splice_twice [OF r]
      by (simp add: mem_simps add.assoc)
  qed
  have "\<not> 8 \<le> length topics" using topics(1) by simp
  then show ?thesis
    unfolding mqtt_pack_unsubscribe_request_def len Let_def unsubscribe_packet_def unat_u32 [OF n32]
    using packet_ok [OF rule_ok_types(8) n m body] by simp
qed

text \<open>A publication whose remaining length fits 16 bits is built as the standard has it.\<close>

definition publish_fields :: "bytes \<Rightarrow> bool \<Rightarrow> u16 \<Rightarrow> bytes \<Rightarrow> bytes" where
  "publish_fields topic with_id pid message =
     str_bytes topic @ (if with_id then be16 pid else []) @ message"

lemma publish_packet_fields:
  "publish_packet flags topic pid message =
     (let qos = publish_qos flags in
      packet PUBLISH (ucast (if qos = 0 then flags AND NOT 8 else flags))
        (publish_fields topic (qos \<noteq> 0) pid message))"
  by (simp add: publish_packet_def publish_fields_def Let_def)

lemma publish_body_ok:
  assumes "length topic < 65536" "i + length (publish_fields topic with_id pid message) \<le> length m"
  shows "publish_body topic with_id pid message (length message) m i =
    Some (i + length (publish_fields topic with_id pid message),
          splice m i (publish_fields topic with_id pid message))"
proof -
  let ?m = "splice m i (str_bytes topic)"
  let ?v = "if with_id then be16 pid else []"
  have room: "i + length (str_bytes topic) + length ?v + length message \<le> length m"
    using assms(2) by (simp add: publish_fields_def split: if_splits)
  have s: "mqtt_pack_str m i topic = Some (i + length (str_bytes topic), ?m)"
    using assms(1) room by (simp add: pack_str_ok packed_cstrlen_def split: if_splits)
  have v: "(if with_id then do { m \<leftarrow> wr_be16 ?m j pid; Some (j + 2, m) } else Some (j, ?m)) =
      Some (j + length ?v, splice m i (str_bytes topic @ ?v))"
    if "j = i + length (str_bytes topic)" for j
    using room splice_twice [of i "str_bytes topic" ?v m] that by (auto simp: mem_simps)
  have "i + length (str_bytes topic @ ?v) + length message \<le> length m" using room by (simp add: add.assoc)
  note w = this splice_twice [OF this]
  have j: "i + length (str_bytes topic) + length ?v = i + length (str_bytes topic @ ?v)" by simp
  show ?thesis
    unfolding publish_body_def s Option.bind.simps prod.case v [OF refl] j
    using w by (simp add: rd_bytes_in wr_bytes_spliced publish_fields_def)
qed

lemma publish_ok:
  fixes flags :: u8
  assumes fits: "length (publish_packet flags topic pid message) < 65536"
    and qos: "publish_qos flags \<noteq> 3" and m: "bufsz \<le> length m"
  shows "builds (mqtt_pack_publish_request (Some m) bufsz (Some topic) pid message (length message) flags)
    m bufsz (length (publish_packet flags topic pid message)) (publish_packet flags topic pid message)"
proof -
  let ?qos = "publish_qos flags"
  let ?f = "ucast (if ?qos = 0 then flags AND NOT 8 else flags) :: u4"
  let ?vs = "publish_fields topic (?qos \<noteq> 0) pid message"
  have pkt: "publish_packet flags topic pid message = packet PUBLISH ?f ?vs"
    by (simp add: publish_packet_fields Let_def)
  have n16: "length ?vs < 65536" using fits by (simp add: pkt packet_def)
  then have n: "length ?vs < 2 ^ 28" by simp
  have l: "length topic < 65536" using n16 by (simp add: publish_fields_def packed_cstrlen_def)
  have len: "publish_length topic (?qos \<noteq> 0) (length message) = of_nat (length ?vs)"
    by (simp add: publish_length_def publish_fields_def)
  have un: "unat (of_nat (length ?vs) :: u16) = length ?vs" using n16 by (simp add: unat_of_nat)
  have uc: "ucast (of_nat (length ?vs) :: u16) = (of_nat (length ?vs) :: u32)"
    by (rule word_unat_eq_iff [THEN iffD2]) (use n16 in \<open>simp add: unat_widen unat_of_nat\<close>)
  show ?thesis
    unfolding mqtt_pack_publish_request_def Let_def prod.case option.case len un uc pkt if_not_P [OF qos]
    by (rule packet_ok [OF rule_ok_types(2) n m publish_body_ok [OF l]])
qed

text \<open>
  A connection request. Its header announces two bytes more than follow when there is a will: the
  length of the will message is counted, and is not written.
\<close>

definition connect_flags_byte :: "bool \<Rightarrow> bool \<Rightarrow> bool \<Rightarrow> u8 \<Rightarrow> u8" where
  "connect_flags_byte has_will has_user has_pass flags =
     (let f = flags AND NOT 1;
          f = (if has_will then f OR 4 else ((f AND NOT 4) AND NOT 0x18) AND NOT 0x20);
          f = (if has_user then f OR 0x80 else f AND NOT 0x80)
      in if has_pass then f OR 0x40 else f AND NOT 0x40)"

definition optional_bytes :: "bytes option \<Rightarrow> bytes" where
  "optional_bytes s = (case s of None \<Rightarrow> [] | Some t \<Rightarrow> str_bytes t)"

definition connect_fields ::
  "bytes \<Rightarrow> (bytes \<times> bytes) option \<Rightarrow> bytes option \<Rightarrow> bytes option \<Rightarrow> u8 \<Rightarrow> u16 \<Rightarrow> bytes"
where
  "connect_fields cid will user pass flags ka =
     [0, 4, 77, 81, 84, 84, 4, connect_flags_byte (will \<noteq> None) (user \<noteq> None) (pass \<noteq> None) flags] @
     be16 ka @ str_bytes cid @ (case will of None \<Rightarrow> [] | Some (t, w) \<Rightarrow> str_bytes t @ w) @
     optional_bytes user @ optional_bytes pass"

definition connect_announced ::
  "bytes \<Rightarrow> (bytes \<times> bytes) option \<Rightarrow> bytes option \<Rightarrow> bytes option \<Rightarrow> u8 \<Rightarrow> u16 \<Rightarrow> nat"
where
  "connect_announced cid will user pass flags ka =
     length (connect_fields cid will user pass flags ka) + (if will = None then 0 else 2)"

lemma flag_bits:
  fixes x c d :: "'a :: len word"
  shows "(x OR c) AND c = c" "(x AND NOT c) AND c = 0"
    "c AND d = 0 \<Longrightarrow> (x OR c) AND d = x AND d" "c AND d = 0 \<Longrightarrow> (x AND NOT c) AND d = x AND d"
proof -
  show "(x OR c) AND c = c" "(x AND NOT c) AND c = 0"
    by (rule bit_word_eqI; auto simp: bit_simps)+
  assume "c AND d = 0"
  then have "\<not> (bit c k \<and> bit d k)" for k using bit_and_iff [of c d k] by simp
  then show "(x OR c) AND d = x AND d" "(x AND NOT c) AND d = x AND d"
    by - (rule bit_word_eqI; auto simp: bit_simps)+
qed

lemma flag_disjoint:
  "(4 :: u8) AND 0x80 = 0" "(4 :: u8) AND 0x40 = 0" "(0x80 :: u8) AND 0x40 = 0" "(0x40 :: u8) AND 0x80 = 0"
  "(0x80 :: u8) AND 4 = 0" "(0x40 :: u8) AND 4 = 0" "(0x18 :: u8) AND 4 = 0" "(0x20 :: u8) AND 4 = 0"
  by simp_all

lemma connect_flags_byte_bits:
  "connect_flags_byte w u p flags AND 4 = (if w then 4 else 0)"
  "connect_flags_byte w u p flags AND 0x80 = (if u then 0x80 else 0)"
  "connect_flags_byte w u p flags AND 0x40 = (if p then 0x40 else 0)"
  unfolding connect_flags_byte_def Let_def
  by (cases w; cases u; cases p; simp only: if_True if_False flag_bits flag_disjoint)+

lemma connect_will_eq:
  assumes "flags AND 0x18 \<noteq> 0x18"
  shows "connect_will (map_option fst will) (map_option snd will) (case will of None \<Rightarrow> 0 | Some (t, w) \<Rightarrow> length w)
      (flags AND NOT 1) len =
    Inr (if will \<noteq> None then (flags AND NOT 1) OR 4 else (((flags AND NOT 1) AND NOT 4) AND NOT 0x18) AND NOT 0x20,
      len + of_nat (case will of None \<Rightarrow> 0 | Some (t, w) \<Rightarrow> packed_cstrlen t + (2 + length w)))"
proof -
  have "((flags AND NOT 1) OR 4) AND 0x18 = flags AND 0x18"
  proof -
    have "(4 :: u8) AND 0x18 = 0" "(1 :: u8) AND 0x18 = 0" by simp_all
    then show ?thesis by (simp only: flag_bits)
  qed
  with assms show ?thesis
    by (cases will) (auto simp: connect_will_def Let_def)
qed

lemma pack_optional_ok:
  assumes "i + length (optional_bytes s) \<le> length m" "\<forall>t \<in> set_option s. length t < 65536"
  shows "pack_optional (s \<noteq> None) s m i = Some (i + length (optional_bytes s), splice m i (optional_bytes s))"
  using assms by (cases s) (auto simp: pack_optional_def optional_bytes_def pack_str_ok packed_cstrlen_def)

lemma pack_optional_append:
  assumes "i + length vs + length (optional_bytes s) \<le> length m" "\<forall>t \<in> set_option s. length t < 65536"
  shows "pack_optional (s \<noteq> None) s (splice m i vs) (i + length vs) =
    Some (i + length (vs @ optional_bytes s), splice m i (vs @ optional_bytes s))"
  using pack_optional_ok [of "i + length vs" s "splice m i vs"] assms splice_twice [OF assms(1)]
  by (simp add: add.assoc)

lemma connect_body_ok:
  fixes will :: "(bytes \<times> bytes) option"
  defines "topic \<equiv> map_option fst will" and "message \<equiv> map_option snd will"
    and "sz \<equiv> (case will of None \<Rightarrow> 0 | Some (t, w) \<Rightarrow> length w)"
  assumes short: "\<forall>t \<in> insert cid (set_option topic \<union> set_option user \<union> set_option pass). length t < 65536"
    and room: "i + length (connect_fields cid will user pass flags ka) \<le> length m"
  shows "connect_body cid topic message sz user pass
      (connect_flags_byte (will \<noteq> None) (user \<noteq> None) (pass \<noteq> None) flags) ka m i =
    Some (i + length (connect_fields cid will user pass flags ka),
          splice m i (connect_fields cid will user pass flags ka))"
proof -
  let ?f = "connect_flags_byte (will \<noteq> None) (user \<noteq> None) (pass \<noteq> None) flags"
  let ?head = "[0, 4, 77, 81, 84, 84, 4, ?f]"
  let ?w = "case will of None \<Rightarrow> [] | Some (t, w) \<Rightarrow> str_bytes t @ w"
  let ?v3 = "?head @ be16 ka @ str_bytes cid"
  let ?v4 = "?v3 @ ?w"
  let ?v5 = "?v4 @ optional_bytes user"
  have r: "i + length ?v5 + length (optional_bytes pass) \<le> length m"
    using room by (simp add: connect_fields_def add.assoc)
  have r4: "i + length ?v4 + length (optional_bytes user) \<le> length m" using r by simp
  have r3: "i + length ?v3 + length ?w \<le> length m" using r4 by simp
  have head: "do { m \<leftarrow> wr_bytes m i ?head; m \<leftarrow> wr_be16 m (i + 8) ka; mqtt_pack_str m (i + 10) cid } =
      Some (i + length ?v3, splice m i ?v3)"
  proof -
    have l: "i + length ?head + length (be16 ka) \<le> length m"
      "i + length (?head @ be16 ka) + length (str_bytes cid) \<le> length m" using r3 by simp_all
    have "mqtt_pack_str (splice m i (?head @ be16 ka)) (i + length (?head @ be16 ka)) cid =
        Some (i + length ?v3, splice m i ?v3)"
      using short l splice_twice [OF l(2)] by (simp add: pack_str_ok packed_cstrlen_def)
    moreover have "splice (splice m i ?head) (i + 8) (be16 ka) = splice m i (?head @ be16 ka)"
      by (rule splice_splice) (use l in simp_all)
    moreover have "i + length (?head @ be16 ka) = i + 10" by simp
    ultimately show ?thesis
      using l by (simp only: wr_bytes_spliced) (simp add: wr_bytes_spliced wr_be16_in)
  qed
  have w: "(if ?f AND 4 \<noteq> 0 then do {
         t \<leftarrow> topic;
         (j, m) \<leftarrow> mqtt_pack_str (splice m i ?v3) (i + length ?v3) t;
         w \<leftarrow> message;
         vs \<leftarrow> rd_bytes w 0 sz;
         m \<leftarrow> wr_bytes m j vs;
         Some (j + sz, m)
       } else Some (i + length ?v3, splice m i ?v3)) = Some (i + length ?v4, splice m i ?v4)"
  proof (cases will)
    case None
    then show ?thesis by (simp add: connect_flags_byte_bits)
  next
    case (Some tw)
    obtain t w where tw: "tw = (t, w)" by (cases tw)
    have l: "i + length ?v3 + length (str_bytes t) \<le> length m"
      "i + length (?v3 @ str_bytes t) + length w \<le> length m"
      using r3 by (simp_all add: Some tw)
    have "mqtt_pack_str (splice m i ?v3) (i + length ?v3) t =
        Some (i + length (?v3 @ str_bytes t), splice m i (?v3 @ str_bytes t))"
      using short l splice_twice [OF l(1)] by (simp add: pack_str_ok packed_cstrlen_def Some tw topic_def)
    then show ?thesis
      using l(2) splice_twice [OF l(2)]
      by (simp add: connect_flags_byte_bits Some tw topic_def message_def sz_def rd_bytes_in
          wr_bytes_spliced add.assoc)
  qed
  have u: "pack_optional (?f AND 0x80 \<noteq> 0) user (splice m i ?v4) (i + length ?v4) =
      Some (i + length ?v5, splice m i ?v5)"
  proof -
    have c: "(?f AND 0x80 \<noteq> 0) = (user \<noteq> None)" by (simp only: connect_flags_byte_bits) simp
    show ?thesis unfolding c by (rule pack_optional_append [OF r4]) (use short in simp)
  qed
  have p: "pack_optional (?f AND 0x40 \<noteq> 0) pass (splice m i ?v5) (i + length ?v5) =
      Some (i + length (?v5 @ optional_bytes pass), splice m i (?v5 @ optional_bytes pass))"
  proof -
    have c: "(?f AND 0x40 \<noteq> 0) = (pass \<noteq> None)" by (simp only: connect_flags_byte_bits) simp
    show ?thesis unfolding c by (rule pack_optional_append [OF r]) (use short in simp)
  qed
  have fields: "connect_fields cid will user pass flags ka = ?v5 @ optional_bytes pass"
    by (simp add: connect_fields_def)
  have "connect_body cid topic message sz user pass ?f ka m i =
      do { (j, m) \<leftarrow> do { m \<leftarrow> wr_bytes m i ?head; m \<leftarrow> wr_be16 m (i + 8) ka; mqtt_pack_str m (i + 10) cid };
           (j, m) \<leftarrow> (if ?f AND 4 \<noteq> 0 then do {
               t \<leftarrow> topic; (j, m) \<leftarrow> mqtt_pack_str m j t; w \<leftarrow> message; vs \<leftarrow> rd_bytes w 0 sz;
               m \<leftarrow> wr_bytes m j vs; Some (j + sz, m) } else Some (j, m));
           (j, m) \<leftarrow> pack_optional (?f AND 0x80 \<noteq> 0) user m j;
           pack_optional (?f AND 0x40 \<noteq> 0) pass m j }"
    unfolding connect_body_def by (simp only: Option.bind_assoc)
  also have "\<dots> = Some (i + length (?v5 @ optional_bytes pass), splice m i (?v5 @ optional_bytes pass))"
    unfolding head Option.bind.simps prod.case w u p ..
  finally show ?thesis unfolding fields .
qed

lemma connect_ok:
  fixes will :: "(bytes \<times> bytes) option"
  assumes short: "\<forall>t \<in> insert cid (set_option (map_option fst will) \<union> set_option user \<union> set_option pass). length t < 65536"
    and qos: "flags AND 0x18 \<noteq> 0x18" and m: "bufsz \<le> length m"
    and small: "connect_announced cid will user pass flags ka < 2 ^ 28"
  defines "n \<equiv> connect_announced cid will user pass flags ka"
  shows "builds (mqtt_pack_connection_request (Some m) bufsz (Some cid) (map_option fst will)
      (map_option snd will) (case will of None \<Rightarrow> 0 | Some (t, w) \<Rightarrow> length w) user pass flags ka)
    m bufsz (length (header_bytes CONNECT 0 n) + n)
    (header_bytes CONNECT 0 n @ connect_fields cid will user pass flags ka)"
proof -
  let ?f = "connect_flags_byte (will \<noteq> None) (user \<noteq> None) (pass \<noteq> None) flags"
  let ?sz = "case will of None \<Rightarrow> 0 | Some (t, w) \<Rightarrow> length w"
  have small': "n < 2 ^ 28" "n < 2 ^ 32" using small by (simp_all add: n_def)
  have fewer: "length (connect_fields cid will user pass flags ka) \<le> n" by (simp add: n_def connect_announced_def)
  have opt: "connect_optional s c g len = (if s \<noteq> None then g OR c else g AND NOT c, len + of_nat (length (optional_bytes s)))"
    for s c g len by (cases s) (simp_all add: connect_optional_def optional_bytes_def)
  have len: "10 + of_nat (packed_cstrlen cid) + of_nat (case will of None \<Rightarrow> 0 | Some (t, w) \<Rightarrow> packed_cstrlen t + (2 + length w)) +
      of_nat (length (optional_bytes user)) + of_nat (length (optional_bytes pass)) = (of_nat n :: u32)"
    by (cases will) (auto simp: n_def connect_announced_def connect_fields_def)
  have "builds (behind_header (Some m) bufsz \<lparr>control_type = CONNECT, control_flags = 0, remaining_length = of_nat n\<rparr> n
      (connect_body cid (map_option fst will) (map_option snd will) ?sz user pass ?f ka))
    m bufsz (length (header_bytes CONNECT 0 n) + n)
    (header_bytes CONNECT 0 n @ connect_fields cid will user pass flags ka)"
    by (rule behind_header_ok [OF rule_ok_types(1) small'(1) m fewer], rule connect_body_ok [OF short])
      (use fewer in simp)
  then show ?thesis
    unfolding mqtt_pack_connection_request_def option.case connect_will_eq [OF qos] sum.case prod.case opt Let_def
      len unat_u32 [OF small'(2)]
    by (simp only: connect_flags_byte_def Let_def)
qed

section \<open>Packets read back\<close>

lemma widen_byte: "n < 256 \<Longrightarrow> ucast (of_nat n :: u8) = (of_nat n :: u32)"
  by (rule word_unat_eq_iff [THEN iffD2])
    (simp add: unsigned_ucast_eq unat_of_nat take_bit_nat_eq_self)

lemma length_parts:
  "push_bit l (of_nat (n mod 128) :: u32) + push_bit (l + 7) (of_nat (n div 128)) = push_bit l (of_nat n)"
proof -
  have "(of_nat n :: u32) = of_nat (n div 128 * 128 + n mod 128)" by (simp only: div_mult_mod_eq)
  also have "\<dots> = of_nat (n div 128) * 128 + of_nat (n mod 128)" by (simp only: of_nat_add of_nat_mult of_nat_numeral)
  finally show ?thesis
    by (elim ssubst [of "of_nat n :: u32"]) (simp add: push_bit_eq_mult power_add algebra_simps)
qed

text \<open>Read from any number of bytes, a length is complete or more is asked for.\<close>

lemma unpack_length_back:
  "length xs = i + 1 \<Longrightarrow> 0 < b \<Longrightarrow> 7 dvd l \<Longrightarrow> l < 28 \<Longrightarrow> n * 2 ^ l < 2 ^ 28 \<Longrightarrow>
   unpack_length (xs @ varint n @ ys) b i l acc =
     Some (if b \<le> length (varint n) then More
       else Done (i + 1 + length (varint n)) (b - 1 - length (varint n), acc + push_bit l (of_nat n)))"
proof (induction n arbitrary: xs b i l acc rule: varint.induct)
  case (1 n)
  show ?case
  proof (cases "b = 1")
    case True
    have "1 \<le> length (varint n)" by (simp add: Suc_le_eq)
    with True "1.prems" show ?thesis by (subst unpack_length.simps) simp
  next
    case b: False
    show ?thesis
    proof (cases "n < 128")
      case True
      then have v: "varint n = [of_nat n]" by (simp add: varint.simps)
      show ?thesis
        using "1.prems" b True low_byte [OF True] widen_byte [of n]
        by (subst unpack_length.simps) (auto simp: v rd8_def nth_append)
    next
      case False
      let ?c = "of_nat (n mod 128) OR 0x80 :: u8"
      have v: "varint n = ?c # varint (n div 128)" using False by (simp add: varint.simps)
      have "1 \<le> n div 128" using False by linarith
      moreover have "n div 128 * 2 ^ (l + 7) < 2 ^ 28"
      proof -
        have "n div 128 * 2 ^ (l + 7) = (n div 128 * 128) * 2 ^ l" by (simp add: power_add)
        also have "\<dots> \<le> n * 2 ^ l" by (rule mult_right_mono) simp_all
        finally show ?thesis using "1.prems"(5) by simp
      qed
      ultimately have "1 * (2::nat) ^ (l + 7) < 2 ^ 28" by (metis mult_le_mono1 le_less_trans)
      then have l: "l + 7 < 28" by (simp only: mult_1 power_strict_increasing_iff)
      have IH: "unpack_length ((xs @ [?c]) @ varint (n div 128) @ ys) (b - 1) (i + 1) (l + 7)
          (acc + push_bit l (of_nat (n mod 128))) =
        Some (if b - 1 \<le> length (varint (n div 128)) then More
          else Done (i + 1 + 1 + length (varint (n div 128))) (b - 1 - 1 - length (varint (n div 128)),
            acc + push_bit l (of_nat (n mod 128)) + push_bit (l + 7) (of_nat (n div 128))))"
        using "1.prems" b l \<open>n div 128 * 2 ^ (l + 7) < 2 ^ 28\<close> by (intro "1.IH" [OF False]) simp_all
      have "unpack_length (xs @ varint n @ ys) b i l acc =
          unpack_length (xs @ varint n @ ys) (b - 1) (i + 1) (l + 7) (acc + push_bit l (of_nat (n mod 128)))"
        using "1.prems" b high_byte [of "n mod 128"] widen_byte [of "n mod 128"]
        by (subst unpack_length.simps) (auto simp: v rd8_def nth_append)
      also have "xs @ varint n @ ys = (xs @ [?c]) @ varint (n div 128) @ ys" by (simp add: v)
      also note IH
      finally show ?thesis
        using length_parts [of l n] "1.prems"(2) b by (auto simp: v add.assoc)
    qed
  qed
qed

lemma first_byte_parts:
  assumes "unat ct < 16"
  shows "ucast (drop_bit 4 (push_bit 4 (ucast ct) OR ucast (flags :: u4) :: u8)) = (ct :: u32)"
    and "ucast ((push_bit 4 (ucast ct) OR ucast flags :: u8) AND 0x0F) = flags"
proof -
  have "\<not> bit ct k" if "4 \<le> k" for k
    using nat_bit_above [of "unat ct" 4 k] assms that by (simp add: bit_unsigned_iff bit_imp_le_length)
  then have hi: "bit ct k \<Longrightarrow> k < 4" for k by (metis not_less)
  have f: "(0x0F :: u8) = mask 4" by (simp add: mask_eq_exp_minus_1)
  show "ucast (drop_bit 4 (push_bit 4 (ucast ct) OR ucast flags :: u8)) = ct"
    by (rule bit_word_eqI) (auto simp: bit_simps dest: hi bit_imp_le_length)
  show "ucast ((push_bit 4 (ucast ct) OR ucast flags :: u8) AND 0x0F) = flags"
    unfolding f by (rule bit_word_eqI) (auto simp: bit_simps)
qed

lemma unpack_fixed_header_back:
  assumes "rule_ok ct flags" "unat ct < 16" "n < 2 ^ 28"
  shows "mqtt_unpack_fixed_header (Some (header_bytes ct flags n @ ys)) b =
    Some (if b < length (header_bytes ct flags n) + n then More
      else Done (length (header_bytes ct flags n))
        \<lparr>control_type = ct, control_flags = flags, remaining_length = of_nat n\<rparr>)"
proof (cases "b = 0")
  case True
  then show ?thesis by (simp add: mqtt_unpack_fixed_header_def header_bytes_def)
next
  case False
  let ?b = "push_bit 4 (ucast ct) OR ucast flags :: u8"
  have "unpack_length ([?b] @ varint n @ ys) b 0 0 0 =
     Some (if b \<le> length (varint n) then More
       else Done (0 + 1 + length (varint n)) (b - 1 - length (varint n), 0 + push_bit 0 (of_nat n)))"
    using False assms(3) by (intro unpack_length_back) simp_all
  moreover have "unat (of_nat n :: u32) = n" using assms(3) by (intro unat_u32) simp
  ultimately show ?thesis
    using False by (auto simp: mqtt_unpack_fixed_header_def header_bytes_def rd8_def Let_def
        first_byte_parts [OF assms(2)] rule_okD [OF assms(1)] simp del: drop_bit_or)
qed

lemma unpack_packet:
  assumes "rule_ok ct flags" "unat ct < 16" "length body < 2 ^ 28"
  defines "h \<equiv> header_bytes ct flags (length body)"
    and "fh \<equiv> \<lparr>control_type = ct, control_flags = flags, remaining_length = of_nat (length body)\<rparr>"
  shows "mqtt_unpack_response (Some (packet ct flags body @ ys)) b =
    (if b < length (packet ct flags body) then Some More
     else do {
       d \<leftarrow> unpack_body fh (h @ body @ ys) (length h);
       Some (case d of Fail e \<Rightarrow> Fail e | More \<Rightarrow> More | Done k d \<Rightarrow> Done (length h + k) (fh, d))
     })"
  unfolding h_def fh_def using unpack_fixed_header_back [OF assms(1-3), of "body @ ys" b]
  by (auto simp: mqtt_unpack_response_def packet_def)

text \<open>What the parser makes of a publication.\<close>

definition published :: "nat \<Rightarrow> u4 \<Rightarrow> bytes \<Rightarrow> u16 \<Rightarrow> bytes \<Rightarrow> mqtt_response_publish" where
  "published n flags topic pid message =
     (let f = (ucast flags :: u8); qos = publish_qos f in
      \<lparr>dup_flag = drop_bit 3 (f AND 8), qos_level = qos, retain_flag = f AND 1,
       topic_name_size = of_nat (length topic), topic_name = n + 2,
       publish_id = (if qos = 0 then 0 else pid),
       application_message = n + packed_cstrlen topic + (if qos = 0 then 0 else 2),
       application_message_size = length message\<rparr>)"

lemma rd_be16_pos: "length xs = i \<Longrightarrow> j = i + length ys \<Longrightarrow> rd_be16 (xs @ ys @ be16 v @ zs) j = Some v"
  using rd_be16_at [of "xs @ ys" j v zs] by simp

lemma publish_fields_back:
  fixes flags :: u4 and topic message :: bytes and pid :: u16
  defines "f \<equiv> (ucast flags :: u8)"
  defines "qos \<equiv> publish_qos f"
  defines "body \<equiv> publish_fields topic (qos \<noteq> 0) pid message"
  defines "fh \<equiv> \<lparr>control_type = PUBLISH, control_flags = flags, remaining_length = of_nat (length body)\<rparr>"
  assumes n: "length body < 2 ^ 28" "length topic < 65536" and h: "length h = n"
  shows "unpack_body fh (h @ body @ ys) n =
    Some (if length body < 4 then Fail MQTT_ERROR_MALFORMED_RESPONSE
      else Done (length body) (Publish (published n flags topic pid message)))"
proof (cases "length body < 4")
  case True
  then show ?thesis
    using unat_u32 [of "length body"] by (simp add: unpack_body_def mqtt_unpack_publish_response_def fh_def Let_def)
next
  case False
  have un: "unat (of_nat (length body) :: u32) = length body" using n(1) by (intro unat_u32) simp
  have ut: "unat (of_nat (length topic) :: u16) = length topic" using n(2) by (simp add: unat_of_nat)
  have uc: "ucast (of_nat (length topic) :: u16) = (of_nat (length topic) :: u32)"
    by (rule word_unat_eq_iff [THEN iffD2]) (use n(2) in \<open>simp add: unat_widen unat_of_nat\<close>)
  have len: "rd_be16 (h @ body @ ys) n = Some (of_nat (length topic))"
    using rd_be16_at [OF h] by (simp add: body_def publish_fields_def str_bytes_def)
  have pid: "rd_be16 (h @ body @ ys) (n + 2 + length topic) = Some pid" if "qos \<noteq> 0"
    using rd_be16_pos [OF h, of "n + 2 + length topic" "str_bytes topic" pid "message @ ys"] that
    by (simp add: body_def publish_fields_def packed_cstrlen_def)
  have "(of_nat (length body) - of_nat (length topic) - (if qos = 0 then 2 else 4) :: u32) = of_nat (length message)"
    by (simp add: body_def publish_fields_def packed_cstrlen_def)
  moreover have "length message < 2 ^ 32" using n(1) by (simp add: body_def publish_fields_def split: if_splits)
  ultimately have sz: "unat (of_nat (length body) - of_nat (length topic) - (if qos = 0 then 2 else 4) :: u32) = length message"
    using unat_u32 by metis
  have lb: "length body = 2 + length topic + (if qos = 0 then 0 else 2) + length message"
    by (simp add: body_def publish_fields_def packed_cstrlen_def)
  show ?thesis
  proof (cases "qos = 0")
    case True
    then show ?thesis
      using False un ut uc len sz lb
      by (simp add: unpack_body_def mqtt_unpack_publish_response_def fh_def Let_def published_def
          packed_cstrlen_def flip: f_def qos_def)
  next
    case q: False
    then have "0 < qos" by (simp add: word_gt_0)
    with q show ?thesis
      using False un ut uc len sz lb pid
      by (simp add: unpack_body_def mqtt_unpack_publish_response_def fh_def Let_def published_def
          packed_cstrlen_def flip: f_def qos_def)
  qed
qed

lemma pubxxx_back:
  assumes "control_type fh \<in> {PUBACK, PUBREC, PUBREL, PUBCOMP}" "remaining_length fh = 2" "length h = n"
  shows "unpack_body fh (h @ be16 pid @ ys) n = Some (Done 2
    (if control_type fh = PUBACK then Puback pid else if control_type fh = PUBREC then Pubrec pid
     else if control_type fh = PUBREL then Pubrel pid else Pubcomp pid))"
  using assms(1,2) rd_be16_at [OF assms(3)]
  by (auto simp: unpack_body_def mqtt_unpack_pubxxx_response_def Let_def)

section \<open>Arbitrary bytes\<close>

text \<open>Whatever the bytes are, the header is read inside the buffer.\<close>

lemma unpack_length_safe:
  "0 < b \<Longrightarrow> i + b \<le> length buf \<Longrightarrow>
   \<exists>r. unpack_length buf b i l acc = Some r \<and>
     (\<forall>n k len. r = Done n (k, len) \<longrightarrow> i + 2 \<le> n \<and> n + k = i + b)"
proof (induction buf b i l acc rule: unpack_length.induct)
  case (1 buf b i l acc)
  show ?case
  proof (cases "l = 28 \<or> b - 1 = 0")
    case True
    then show ?thesis by (subst unpack_length.simps) auto
  next
    case False
    with "1.prems" have b: "2 \<le> b" "i + 1 < length buf" by auto
    show ?thesis
    proof (cases "buf ! (i + 1) AND 0x80 = 0")
      case True
      then show ?thesis using False b by (subst unpack_length.simps) (auto simp: rd8_in)
    next
      case more: False
      have "\<exists>r. unpack_length buf (b - 1) (i + 1) (l + 7) (acc + push_bit l (ucast (buf ! (i + 1) AND 0x7F))) = Some r \<and>
          (\<forall>n k len. r = Done n (k, len) \<longrightarrow> i + 1 + 2 \<le> n \<and> n + k = i + 1 + (b - 1))"
        using False b more "1.prems" by (intro "1.IH") (auto simp: rd8_in)
      then show ?thesis
        using False b more by (subst unpack_length.simps) (auto simp: rd8_in)
    qed
  qed
qed

lemma rule_table:
  assumes "unat (ucast (control_type fh) :: u8) < 16"
  shows "\<exists>r. mqtt_fixed_header_rule_violation fh = Some r"
  using assms by (simp add: mqtt_fixed_header_rule_violation_def required_flags_def
      mask_required_flags_def control_type_is_valid_def rd8_def Let_def)

lemma high_nibble: "unat (ucast (ucast (drop_bit 4 (b :: u8)) :: u32) :: u8) < 16"
proof -
  have "unat (drop_bit 4 b) < 16"
    using unsigned_less [of b, where 'a = nat] by (simp add: unat_drop_bit less_mult_imp_div_less)
  moreover have "ucast (ucast (drop_bit 4 b) :: u32) = drop_bit 4 b"
    by (rule bit_word_eqI) (auto simp: bit_simps)
  ultimately show ?thesis by simp
qed

lemma unpack_fixed_header_safe:
  assumes "b \<le> length buf"
  shows "\<exists>r. mqtt_unpack_fixed_header (Some buf) b = Some r \<and>
    (\<forall>n fh. r = Done n fh \<longrightarrow> 2 \<le> n \<and> n + unat (remaining_length fh) \<le> b)"
proof (cases "b = 0")
  case True
  then show ?thesis by (simp add: mqtt_unpack_fixed_header_def)
next
  case False
  then have "0 < b" "0 + b \<le> length buf" using assms by simp_all
  then obtain r where r: "unpack_length buf b 0 0 0 = Some r"
    "\<forall>n k len. r = Done n (k, len) \<longrightarrow> 0 + 2 \<le> n \<and> n + k = 0 + b"
    using unpack_length_safe by blast
  have z: "rd8 buf 0 = Some (buf ! 0)" using False assms by (intro rd8_in) auto
  have rule: "\<exists>r. mqtt_fixed_header_rule_violation \<lparr>control_type = ucast (drop_bit 4 (buf ! 0)), control_flags = f,
      remaining_length = len\<rparr> = Some r" for f len
    by (rule rule_table) (simp only: mqtt_fixed_header.simps high_nibble)
  show ?thesis
  proof (cases r)
    case (Done n kl)
    obtain k len where kl: "kl = (k, len)" by (cases kl)
    obtain v where "mqtt_fixed_header_rule_violation \<lparr>control_type = ucast (drop_bit 4 (buf ! 0)),
        control_flags = ucast (buf ! 0 AND 0x0F), remaining_length = len\<rparr> = Some v"
      using rule by blast
    then show ?thesis
      using False assms r z
      by (auto simp: mqtt_unpack_fixed_header_def Done kl Let_def split: option.splits)
  qed (use False assms r(1) z in \<open>auto simp: mqtt_unpack_fixed_header_def\<close>)
qed

text \<open>
  The topic, the identifier and the length field of a publication fit its remaining length. The
  parser does not check it.
\<close>

definition publish_fits :: "mqtt_fixed_header \<Rightarrow> bytes \<Rightarrow> nat \<Rightarrow> bool" where
  "publish_fits fh m n \<longleftrightarrow> (case rd_be16 m n of None \<Rightarrow> False | Some len \<Rightarrow>
     2 + unat len + (if publish_qos (ucast (control_flags fh)) = 0 then 0 else 2) \<le> unat (remaining_length fh))"

text \<open>A result whose positions and sizes lie within the \<open>b\<close> bytes parsed.\<close>

definition response_inside :: "mqtt_response parse \<Rightarrow> nat \<Rightarrow> bool" where
  "response_inside r b \<longleftrightarrow> (case r of
     Done k (fh, d) \<Rightarrow> 0 < k \<and> k \<le> b \<and> (case d of
         Publish p \<Rightarrow> topic_name p + unat (topic_name_size p) \<le> application_message p \<and>
           application_message p + application_message_size p = k
       | Suback pid j n \<Rightarrow> 0 < n \<and> j + n = k
       | _ \<Rightarrow> True)
   | _ \<Rightarrow> True)"

lemma unat_sub: "unat k \<le> unat (a :: u32) \<Longrightarrow> unat (a - k) = unat a - unat k"
  by (simp add: unat_sub_if_size word_size)

lemma publish_size:
  fixes rl :: u32 and len :: u16 and q :: bool
  assumes "4 \<le> unat rl"
  defines "need \<equiv> 2 + unat len + (if q then 0 else (2::nat))"
  shows "unat (rl - ucast len - (if q then 2 else 4)) =
    (if need \<le> unat rl then unat rl - need else unat rl + 2 ^ 32 - need)"
proof -
  let ?k = "if q then 2 else 4 :: u32"
  have k: "unat ?k = (if q then 2 else 4)" by simp
  have "unat len < 65536" using unsigned_less [of len, where 'a = nat] by simp
  moreover have "rl - ucast len - ?k = (rl - ?k) - ucast len" by simp
  moreover have "unat (rl - ?k) = unat rl - unat ?k" using assms(1) by (intro unat_sub) simp
  ultimately show ?thesis
    using assms(1) unsigned_less [of rl, where 'a = nat] unat_widen [of len]
    by (simp only: unat_sub_if_size word_size need_def k) auto
qed

lemma publish_body_cases:
  assumes "control_type fh = PUBLISH" "n + unat (remaining_length fh) \<le> length buf"
  shows "publish_fits fh buf n \<Longrightarrow> \<exists>r. unpack_body fh buf n = Some r \<and>
      (\<forall>k d. r = Done k d \<longrightarrow> k = unat (remaining_length fh) \<and> (\<exists>p. d = Publish p \<and>
        topic_name p + unat (topic_name_size p) \<le> application_message p \<and>
        application_message p + application_message_size p = n + k))"
    and "4 \<le> unat (remaining_length fh) \<Longrightarrow> \<not> publish_fits fh buf n \<Longrightarrow>
      unpack_body fh buf n = None \<or>
      (\<exists>d. unpack_body fh buf n = Some (Done (unat (remaining_length fh) + 2 ^ 32) d))"
proof -
  let ?rl = "remaining_length fh"
  let ?q = "publish_qos (ucast (control_flags fh)) = 0"
  have body: "unpack_body fh buf n = mqtt_unpack_publish_response fh buf n"
    using assms(1) by (simp add: unpack_body_def Let_def)
  have pos: "0 < publish_qos f \<longleftrightarrow> publish_qos f \<noteq> 0" for f by (simp add: word_gt_0)
  {
    assume fits: "publish_fits fh buf n"
    then obtain len where len: "rd_be16 buf n = Some len"
      "2 + unat len + (if ?q then 0 else 2) \<le> unat ?rl" by (auto simp: publish_fits_def split: option.splits)
    have id: "\<exists>v. rd_be16 buf (n + 2 + unat len) = Some v" if "\<not> ?q"
      using len(2) that assms(2) by (simp add: rd_be16_in)
    show "\<exists>r. unpack_body fh buf n = Some r \<and>
      (\<forall>k d. r = Done k d \<longrightarrow> k = unat ?rl \<and> (\<exists>p. d = Publish p \<and>
        topic_name p + unat (topic_name_size p) \<le> application_message p \<and>
        application_message p + application_message_size p = n + k))"
    proof (cases "unat ?rl < 4")
      case True
      then show ?thesis by (simp add: body mqtt_unpack_publish_response_def Let_def)
    next
      case False
      then show ?thesis
        using len id publish_size [of ?rl len ?q]
        by (cases ?q) (auto simp: body mqtt_unpack_publish_response_def Let_def pos)
    qed
  next
    assume rl: "4 \<le> unat ?rl" and wild: "\<not> publish_fits fh buf n"
    have "n + 2 \<le> length buf" using rl assms(2) by simp
    then obtain len where len: "rd_be16 buf n = Some len" by (auto simp: rd_be16_in)
    then have "\<not> 2 + unat len + (if ?q then 0 else 2) \<le> unat ?rl"
      using wild by (simp add: publish_fits_def)
    then show "unpack_body fh buf n = None \<or>
      (\<exists>d. unpack_body fh buf n = Some (Done (unat ?rl + 2 ^ 32) d))"
      using rl len publish_size [of ?rl len ?q] unsigned_less [of len, where 'a = nat]
      by (cases ?q; cases "rd_be16 buf (n + 2 + unat len)")
        (auto simp: body mqtt_unpack_publish_response_def Let_def pos)
  }
qed

lemma response_body_safe:
  assumes room: "n + unat (remaining_length fh) \<le> length buf"
    and type: "control_type fh \<noteq> CONNECT" "control_type fh \<noteq> SUBSCRIBE"
    and fits: "control_type fh = PUBLISH \<longrightarrow> publish_fits fh buf n"
    and n: "0 < n" "n + unat (remaining_length fh) \<le> b"
  shows "\<exists>r. unpack_body fh buf n = Some r \<and> r \<noteq> More \<and>
    response_inside (case r of Fail e \<Rightarrow> Fail e | More \<Rightarrow> More | Done k d \<Rightarrow> Done (n + k) (fh, d)) b"
proof -
  have two: "unat (remaining_length fh) = 2" if "remaining_length fh = 2" using that by simp
  consider "control_type fh = PUBLISH"
    | "control_type fh = SUBACK" | "control_type fh = CONNACK"
    | "control_type fh \<noteq> PUBLISH" "control_type fh \<noteq> SUBACK" "control_type fh \<noteq> CONNACK" by blast
  then show ?thesis
  proof cases
    case 1
    with publish_body_cases(1) [OF 1 room] fits obtain r where r: "unpack_body fh buf n = Some r"
      "\<forall>k d. r = Done k d \<longrightarrow> k = unat (remaining_length fh) \<and> (\<exists>p. d = Publish p \<and>
        topic_name p + unat (topic_name_size p) \<le> application_message p \<and>
        application_message p + application_message_size p = n + k)" by blast
    moreover have "r \<noteq> More"
      using r(1) 1 by (auto simp: unpack_body_def Let_def mqtt_unpack_publish_response_def
          split: if_splits Option.bind_splits)
    ultimately show ?thesis using n by (cases r) (auto simp: response_inside_def)
  next
    case 2
    have "unat (remaining_length fh - 2) = unat (remaining_length fh) - 2"
      if "\<not> unat (remaining_length fh) < 3"
      using unat_sub [of 2 "remaining_length fh"] that by simp
    with 2 n room show ?thesis
      by (auto simp: unpack_body_def Let_def mqtt_unpack_suback_response_def response_inside_def rd_be16_in)
  next
    case 3
    with n room two show ?thesis
      by (auto simp: unpack_body_def Let_def mqtt_unpack_connack_response_def response_inside_def rd8_in)
  next
    case 4
    with type n room two show ?thesis
      by (auto simp: unpack_body_def Let_def mqtt_unpack_pubxxx_response_def
          mqtt_unpack_unsuback_response_def response_inside_def rd_be16_in)
  qed
qed

text \<open>What a client can be sent that its parser survives.\<close>

definition parseable :: "bytes \<Rightarrow> nat \<Rightarrow> bool" where
  "parseable buf b \<longleftrightarrow> (case mqtt_unpack_fixed_header (Some buf) b of
     Some (Done n fh) \<Rightarrow> control_type fh \<noteq> CONNECT \<and> control_type fh \<noteq> SUBSCRIBE \<and>
       (control_type fh = PUBLISH \<longrightarrow> publish_fits fh buf n)
   | _ \<Rightarrow> True)"

lemma response_safe:
  assumes "b \<le> length buf" "parseable buf b"
  shows "\<exists>r. mqtt_unpack_response (Some buf) b = Some r \<and> response_inside r b"
proof -
  obtain r where r: "mqtt_unpack_fixed_header (Some buf) b = Some r"
    "\<And>n fh. r = Done n fh \<Longrightarrow> 2 \<le> n \<and> n + unat (remaining_length fh) \<le> b"
    using unpack_fixed_header_safe [OF assms(1)] by blast
  show ?thesis
  proof (cases r)
    case (Done n fh)
    have "2 \<le> n" "n + unat (remaining_length fh) \<le> b" using r(2) Done by blast+
    then obtain d where "unpack_body fh buf n = Some d"
      "response_inside (case d of Fail e \<Rightarrow> Fail e | More \<Rightarrow> More | Done k d \<Rightarrow> Done (n + k) (fh, d)) b"
      using response_body_safe [of n fh buf b] assms r(1) by (auto simp: parseable_def Done)
    then show ?thesis using r(1) by (simp add: mqtt_unpack_response_def Done)
  qed (use r(1) in \<open>simp_all add: mqtt_unpack_response_def response_inside_def\<close>)
qed

section \<open>Packets that go wrong\<close>

lemma pack_str_Some:
  assumes "mqtt_pack_str m i s = Some (j, m')" "length s < 65536"
  shows "j = i + packed_cstrlen s \<and> length m' = length m \<and> j \<le> length m"
proof -
  have len: "unat (of_nat (length s) :: u16) = length s" using assms(2) by (simp add: unat_of_nat)
  from assms(1) obtain m1 where m1: "wr_be16 m i (of_nat (length s)) = Some m1"
    "for_each (\<lambda>k m. do { c \<leftarrow> rd8 s k; wr8 m (i + 2 + k) c }) [0..<length s] m1 = Some m'"
    "j = i + length s + 2"
    by (auto simp: mqtt_pack_str_def Let_def len split: Option.bind_splits)
  have l1: "length m1 = length m" "i + 2 \<le> length m"
    using m1(1) by (auto simp: wr_be16_def wr16_def split: if_splits)
  have l2: "length m' = length m1"
    using m1(2) by (rule for_each_inv) (auto simp: wr8_def split: Option.bind_splits if_splits)
  have "j \<le> length m"
  proof (cases "length s")
    case 0
    then show ?thesis using l1 m1(3) by simp
  next
    case (Suc k)
    then obtain m2 where "wr8 m2 (i + 2 + k) (s ! k) = Some m'"
      using m1(2) by (auto simp: for_each_append rd8_in split: Option.bind_splits)
    then have "i + 2 + k < length m'" by (auto simp: wr8_def split: if_splits)
    then show ?thesis using Suc l1 l2 m1(3) by simp
  qed
  with l1 l2 m1(3) show ?thesis by (simp add: packed_cstrlen_def)
qed

lemma publish_body_Some:
  assumes "publish_body topic with_id pid message (length message) m i = Some (j, m')" "length topic < 65536"
  shows "j = i + length (publish_fields topic with_id pid message) \<and> j \<le> length m"
proof -
  from assms(1) obtain k m1 where 1: "mqtt_pack_str m i topic = Some (k, m1)"
    "(do { (l, m2) \<leftarrow> (if with_id then do { m \<leftarrow> wr_be16 m1 k pid; Some (k + 2, m) } else Some (k, m1));
         vs \<leftarrow> rd_bytes message 0 (length message); m3 \<leftarrow> wr_bytes m2 l vs; Some (l + length message, m3) }) = Some (j, m')"
    by (auto simp: publish_body_def split: Option.bind_splits)
  have k: "k = i + packed_cstrlen topic" "length m1 = length m" using pack_str_Some [OF 1(1) assms(2)] by simp_all
  show ?thesis
    using 1(2) k by (cases with_id) (auto simp: wr_be16_def wr16_def wr_bytes_def rd_bytes_def publish_fields_def
        split: Option.bind_splits if_splits)
qed

text \<open>
  A publication of 65536 bytes or more announces its length modulo 65536, and only that many bytes
  are asked for in the buffer: with less room than the packet needs the builder writes past it.
\<close>

lemma publish_long:
  fixes flags :: u8 and topic message :: bytes and pid :: u16
  defines "qos \<equiv> publish_qos flags"
  defines "vs \<equiv> publish_fields topic (qos \<noteq> 0) pid message"
  defines "h \<equiv> header_bytes PUBLISH (ucast (if qos = 0 then flags AND NOT 8 else flags)) (length vs mod 65536)"
  assumes topic: "length topic < 65536" and qos: "qos \<noteq> 3" and m: "bufsz \<le> length m"
    and room: "length h + length vs mod 65536 \<le> bufsz"
  shows "mqtt_pack_publish_request (Some m) bufsz (Some topic) pid message (length message) flags =
    (if length h + length vs \<le> length m
     then Some (Inr (length h + length vs), Some (h @ vs @ drop (length h + length vs) m)) else None)"
proof -
  let ?f = "ucast (if qos = 0 then flags AND NOT 8 else flags) :: u4"
  let ?n = "length vs mod 65536"
  let ?body = "publish_body topic (qos \<noteq> 0) pid message (length message)"
  have n: "?n < 2 ^ 28" by (rule less_le_trans [of _ 65536]) simp_all
  have len: "publish_length topic (qos \<noteq> 0) (length message) = of_nat (length vs)"
    by (simp add: publish_length_def publish_fields_def vs_def)
  have un: "unat (of_nat (length vs) :: u16) = ?n" by (simp add: unat_of_nat)
  have uc: "ucast (of_nat (length vs) :: u16) = (of_nat ?n :: u32)"
    by (rule word_unat_eq_iff [THEN iffD2]) (simp add: unat_widen unat_of_nat)
  have head: "mqtt_pack_fixed_header (Some m) bufsz
      \<lparr>control_type = PUBLISH, control_flags = ?f, remaining_length = of_nat ?n\<rparr> =
    Some (Inr (length h), Some (h @ drop (length h) m))"
    using pack_fixed_header_ok [OF rule_ok_types(2) n m] room by (auto simp: builds_def h_def)
  have "h \<noteq> []" by (simp add: h_def header_bytes_def)
  have "\<not> bufsz - length h < ?n" using room by linarith
  have "mqtt_pack_publish_request (Some m) bufsz (Some topic) pid message (length message) flags =
      do { (n, buf) \<leftarrow> ?body (h @ drop (length h) m) (length h); Some (Inr n, Some buf) }"
    unfolding mqtt_pack_publish_request_def Let_def prod.case option.case qos_def [symmetric] if_not_P [OF qos]
      len un uc behind_header_def head
    using \<open>h \<noteq> []\<close> \<open>\<not> bufsz - length h < ?n\<close> by simp
  also have "\<dots> = (if length h + length vs \<le> length m
     then Some (Inr (length h + length vs), Some (h @ vs @ drop (length h + length vs) m)) else None)"
  proof (cases "length h + length vs \<le> length m")
    case True
    then have "?body (h @ drop (length h) m) (length h) =
        Some (length h + length vs, splice (h @ drop (length h) m) (length h) vs)"
      unfolding vs_def by (intro publish_body_ok [OF topic]) simp
    then show ?thesis using True by (simp add: splice_def add.commute)
  next
    case False
    have "length (h @ drop (length h) m) = length m" using room m by simp
    then have "?body (h @ drop (length h) m) (length h) = None"
      using publish_body_Some [OF _ topic, of "qos \<noteq> 0" pid message "h @ drop (length h) m" "length h"] False
      by (cases "?body (h @ drop (length h) m) (length h)") (auto simp: vs_def)
    then show ?thesis using False by simp
  qed
  finally show ?thesis .
qed

end
