(* ===== verification/MqttQueue.thy ===== *)
theory MqttQueue
  imports MqttFacts
begin

text \<open>
  The queue of messages of the MQTT client: \<open>mqtt_mq_init\<close>, \<open>mqtt_mq_register\<close>,
  \<open>mqtt_mq_clean\<close> and \<open>mqtt_mq_find\<close> of \<open>e_mqtt.c\<close>, and the packet identifiers of
  \<open>__mqtt_next_pid\<close>.

  One block of memory holds the queue: the bytes of the packets from its start, and the records of
  the messages from its end downwards, the oldest last. In the model the records are a list,
  \<open>mqtt_mq_get\<close> of index \<open>i\<close> being its element \<open>i\<close>, and \<open>queue_tail\<close> is where the last record
  starts: 40 bytes a record on a host with 64-bit pointers. A \<open>start\<close> pointer is the index of the
  byte it leads to.

  The queue is a list of packets with their states: it is empty at first, a registered message goes
  to its end, and cleaning drops what is complete from its front. The identifiers come from a
  shift register; they are never 0 and never one that is in the queue, and the search for one ends
  as long as there is one left, because the register runs through all 65535 nonzero states.
\<close>

section \<open>Messages\<close>

datatype queued_state = UNSENT | AWAITING_ACK | COMPLETE

record queued_message =
  msg_start :: nat
  msg_size :: nat
  msg_state :: queued_state
  time_sent :: int
  msg_type :: control_type
  packet_id :: u16

record message_queue =
  mq_mem :: bytes
  mq_curr :: nat
  mq_curr_sz :: nat
  mq_msgs :: "queued_message list"

definition mq_tail :: "message_queue \<Rightarrow> int" where
  "mq_tail q = int (length (mq_mem q)) - 40 * int (length (mq_msgs q))"

definition mqtt_mq_length :: "message_queue \<Rightarrow> nat" where
  "mqtt_mq_length q = length (mq_msgs q)"

definition mqtt_mq_currsz :: "message_queue \<Rightarrow> nat" where
  "mqtt_mq_currsz q =
     (if mq_tail q - 40 \<le> int (mq_curr q) then 0 else nat (mq_tail q - 40 - int (mq_curr q)))"

definition mqtt_mq_init :: "bytes \<Rightarrow> message_queue" where
  "mqtt_mq_init buf =
     (let q = \<lparr>mq_mem = buf, mq_curr = 0, mq_curr_sz = 0, mq_msgs = []\<rparr>
      in q\<lparr>mq_curr_sz := mqtt_mq_currsz q\<rparr>)"

text \<open>
  The new record takes the 40 bytes below the last one. Its time, type and identifier are what that
  memory held: \<open>stale\<close> is such a leftover record. A record outside the block, or on top of the bytes
  of the packets, is an access outside its object.
\<close>

definition mqtt_mq_register :: "queued_message \<Rightarrow> message_queue \<Rightarrow> nat \<Rightarrow> message_queue option" where
  "mqtt_mq_register stale q nbytes =
     (if int (mq_curr q) + int nbytes \<le> mq_tail q - 40
      then
        let q = q\<lparr>mq_msgs := mq_msgs q @
                    [stale\<lparr>msg_start := mq_curr q, msg_size := nbytes, msg_state := UNSENT\<rparr>],
                  mq_curr := mq_curr q + nbytes\<rparr>
        in Some (q\<lparr>mq_curr_sz := mqtt_mq_currsz q\<rparr>)
      else None)"

text \<open>
  Cleaning looks for the first message that is not complete; a \<open>CONNECT\<close> that waits for its answer
  is completed on the way.
\<close>

function mq_scan :: "queued_message list \<Rightarrow> nat \<Rightarrow> queued_message list \<times> nat" where
  "mq_scan msgs i =
     (if i < length msgs then
        let m = msgs ! i;
            m = (if msg_state m = AWAITING_ACK \<and> msg_type m = CONNECT
                 then m\<lparr>msg_state := COMPLETE\<rparr> else m);
            msgs = msgs[i := m]
        in if msg_state m \<noteq> COMPLETE then (msgs, i) else mq_scan msgs (i + 1)
      else (msgs, i))"
  by pat_completeness auto

termination by (relation "measure (\<lambda>(msgs, i). length msgs - i)") auto

declare mq_scan.simps [simp del]

definition mqtt_mq_clean :: "message_queue \<Rightarrow> message_queue option" where
  "mqtt_mq_clean q =
     (let (msgs, i) = mq_scan (mq_msgs q) 0;
          q = q\<lparr>mq_msgs := msgs\<rparr>
      in if i = length msgs then
           let q = q\<lparr>mq_curr := 0, mq_msgs := []\<rparr>
           in Some (q\<lparr>mq_curr_sz := mqtt_mq_currsz q\<rparr>)
         else if i = 0 then Some q
         else do {
           let head = msg_start (msgs ! i);
           let n = mq_curr q - head;
           vs \<leftarrow> rd_bytes (mq_mem q) head n;
           mem \<leftarrow> wr_bytes (mq_mem q) 0 vs;
           let msgs = map (\<lambda>m. m\<lparr>msg_start := msg_start m - head\<rparr>) (drop i msgs);
           let q = q\<lparr>mq_mem := mem, mq_curr := n, mq_msgs := msgs\<rparr>;
           Some (q\<lparr>mq_curr_sz := mqtt_mq_currsz q\<rparr>)
         })"

primrec find_from :: "queued_message list \<Rightarrow> nat \<Rightarrow> control_type \<Rightarrow> u16 option \<Rightarrow> nat option" where
  "find_from [] i ct pid = None"
| "find_from (m # ms) i ct pid =
     (if msg_type m = ct \<and> (pid = None \<and> msg_state m \<noteq> COMPLETE \<or> pid = Some (packet_id m))
      then Some i else find_from ms (i + 1) ct pid)"

definition mqtt_mq_find :: "message_queue \<Rightarrow> control_type \<Rightarrow> u16 option \<Rightarrow> nat option" where
  "mqtt_mq_find q ct pid = find_from (mq_msgs q) 0 ct pid"

text \<open>What a builder writes to: the bytes from \<open>curr\<close> up to the records.\<close>

definition mq_free :: "message_queue \<Rightarrow> bytes" where
  "mq_free q = take (nat (mq_tail q) - mq_curr q) (drop (mq_curr q) (mq_mem q))"

definition mq_store :: "message_queue \<Rightarrow> bytes \<Rightarrow> message_queue" where
  "mq_store q buf = q\<lparr>mq_mem := splice (mq_mem q) (mq_curr q) buf\<rparr>"

section \<open>Packet identifiers\<close>

definition lfsr_step :: "u16 \<Rightarrow> u16" where
  "lfsr_step w = (if w AND 1 \<noteq> 0 then drop_bit 1 w XOR 0xB400 else drop_bit 1 w)"

partial_function (option) next_pid_loop :: "queued_message list \<Rightarrow> u16 \<Rightarrow> u16 option" where
  "next_pid_loop msgs w =
     (let w = lfsr_step w
      in if list_ex (\<lambda>m. packet_id m = w) msgs then next_pid_loop msgs w else Some w)"

definition mqtt_next_pid :: "queued_message list \<Rightarrow> u16 \<Rightarrow> u16 option" where
  "mqtt_next_pid msgs lfsr = next_pid_loop msgs (if lfsr = 0 then 163 else lfsr)"

section \<open>The queue as a list of packets\<close>

text \<open>The packets lie one behind the other, from \<open>s\<close> to \<open>e\<close>.\<close>

primrec laid_out :: "nat \<Rightarrow> queued_message list \<Rightarrow> nat \<Rightarrow> bool" where
  "laid_out s [] e \<longleftrightarrow> s = e"
| "laid_out s (m # ms) e \<longleftrightarrow> msg_start m = s \<and> laid_out (s + msg_size m) ms e"

definition mq_ok :: "message_queue \<Rightarrow> bool" where
  "mq_ok q \<longleftrightarrow> laid_out 0 (mq_msgs q) (mq_curr q) \<and>
     mq_curr q + 40 * length (mq_msgs q) \<le> length (mq_mem q) \<and> mq_curr_sz q = mqtt_mq_currsz q"

text \<open>The abstract queue: of each message its record, less the position, and its bytes.\<close>

definition view_msg :: "bytes \<Rightarrow> queued_message \<Rightarrow> queued_message \<times> bytes" where
  "view_msg mem m = (m\<lparr>msg_start := 0\<rparr>, take (msg_size m) (drop (msg_start m) mem))"

definition mq_view :: "message_queue \<Rightarrow> (queued_message \<times> bytes) list" where
  "mq_view q = map (view_msg (mq_mem q)) (mq_msgs q)"

text \<open>What cleaning drops.\<close>

definition mq_done :: "queued_message \<times> bytes \<Rightarrow> bool" where
  "mq_done = (\<lambda>(m, _). msg_state m = COMPLETE \<or> msg_state m = AWAITING_ACK \<and> msg_type m = CONNECT)"

lemma mq_okI:
  "laid_out 0 (mq_msgs q) (mq_curr q) \<Longrightarrow> mq_curr q + 40 * length (mq_msgs q) \<le> length (mq_mem q) \<Longrightarrow>
     mq_ok (q\<lparr>mq_curr_sz := mqtt_mq_currsz q\<rparr>)"
  by (simp add: mq_ok_def mqtt_mq_currsz_def mq_tail_def)

lemma laid_append: "laid_out s (xs @ ys) e \<longleftrightarrow> (\<exists>k. laid_out s xs k \<and> laid_out k ys e)"
  by (induction xs arbitrary: s) auto

lemma laid_le: "laid_out s ms e \<Longrightarrow> s \<le> e"
  by (induction ms arbitrary: s) (auto dest: add_leD1)

lemma laid_in: "laid_out s ms e \<Longrightarrow> m \<in> set ms \<Longrightarrow> s \<le> msg_start m \<and> msg_start m + msg_size m \<le> e"
proof (induction ms arbitrary: s)
  case (Cons x xs)
  then show ?case using laid_le [of "s + msg_size x" xs e] by fastforce
qed simp

lemma laid_shift:
  "laid_out s ms e \<Longrightarrow> r \<le> s \<Longrightarrow> laid_out (s - r) (map (\<lambda>m. m\<lparr>msg_start := msg_start m - r\<rparr>) ms) (e - r)"
proof (induction ms arbitrary: s)
  case (Cons m ms)
  then show ?case using Cons.IH [of "s + msg_size m"] by simp
qed simp

lemma view_msg_moved:
  assumes "r \<le> msg_start m" "msg_start m + msg_size m \<le> e" "e \<le> length mem"
  shows "view_msg (take (e - r) (drop r mem) @ rest) (m\<lparr>msg_start := msg_start m - r\<rparr>) = view_msg mem m"
proof -
  have "take (msg_size m) (drop (msg_start m - r) (take (e - r) (drop r mem) @ rest)) =
      take (msg_size m) (drop (msg_start m) mem)"
  proof -
    have "drop (msg_start m - r) (take (e - r) (drop r mem)) = take (e - msg_start m) (drop (msg_start m) mem)"
      using assms(1,2) by (simp add: drop_take)
    moreover have "msg_size m \<le> e - msg_start m" "e - msg_start m \<le> length mem - msg_start m"
      using assms by linarith+
    ultimately show ?thesis by (simp add: min_def)
  qed
  then show ?thesis by (simp add: view_msg_def)
qed

lemma mq_scan_eq:
  fixes mem :: bytes
  defines "P \<equiv> (\<lambda>m. mq_done (view_msg mem m))"
  shows "i \<le> length msgs \<Longrightarrow> mq_scan msgs i = (ms, k) \<Longrightarrow>
    k = i + length (takeWhile P (drop i msgs)) \<and> length ms = length msgs \<and>
    drop k ms = dropWhile P (drop i msgs) \<and> (k = i \<longrightarrow> ms = msgs)"
proof (induction msgs i rule: mq_scan.induct)
  case (1 msgs i)
  show ?case
  proof (cases "i < length msgs")
    case False
    then have "mq_scan msgs i = (msgs, i)" by (simp add: mq_scan.simps [of msgs i])
    with "1.prems" False show ?thesis by simp
  next
    case True
    then have d: "drop i msgs = msgs ! i # drop (i + 1) msgs" by (simp add: Cons_nth_drop_Suc)
    define m where "m = (if msg_state (msgs ! i) = AWAITING_ACK \<and> msg_type (msgs ! i) = CONNECT
      then (msgs ! i)\<lparr>msg_state := COMPLETE\<rparr> else msgs ! i)"
    have scan: "mq_scan msgs i = (if msg_state m \<noteq> COMPLETE then (msgs[i := m], i) else mq_scan (msgs[i := m]) (i + 1))"
      using True by (simp add: mq_scan.simps [of msgs i] m_def Let_def)
    have P: "P (msgs ! i) \<longleftrightarrow> msg_state m = COMPLETE"
      by (auto simp: P_def mq_done_def view_msg_def m_def)
    show ?thesis
    proof (cases "msg_state m = COMPLETE")
      case False
      then have "m = msgs ! i" by (auto simp: m_def split: if_splits)
      moreover have "takeWhile P (drop i msgs) = []" "dropWhile P (drop i msgs) = drop i msgs"
        using False P by (simp_all add: d)
      ultimately show ?thesis using "1.prems" scan False by auto
    next
      case fin: True
      have "k = i + 1 + length (takeWhile P (drop (i + 1) (msgs[i := m]))) \<and>
        length ms = length (msgs[i := m]) \<and> drop k ms = dropWhile P (drop (i + 1) (msgs[i := m])) \<and>
        (k = i + 1 \<longrightarrow> ms = msgs[i := m])"
        using True fin "1.prems" scan by (intro "1.IH") (simp_all add: m_def)
      then show ?thesis using True fin P by (auto simp: d)
    qed
  qed
qed

lemma mq_tail_nat: "mq_ok q \<Longrightarrow> int (mq_curr q) \<le> mq_tail q \<and> mq_tail q \<le> int (length (mq_mem q))"
  by (auto simp: mq_ok_def mq_tail_def)

lemma length_mq_free: "mq_ok q \<Longrightarrow> length (mq_free q) = nat (mq_tail q) - mq_curr q"
proof -
  assume "mq_ok q"
  then have "nat (mq_tail q) \<le> length (mq_mem q)" using mq_tail_nat [of q] by (simp add: nat_le_iff)
  then show ?thesis
    using diff_le_mono [of "nat (mq_tail q)" "length (mq_mem q)" "mq_curr q"]
    by (simp add: mq_free_def min_absorb2)
qed

lemma curr_sz_le_free: "mq_ok q \<Longrightarrow> mq_curr_sz q \<le> length (mq_free q)"
  using mq_tail_nat [of q] by (auto simp: length_mq_free mq_ok_def mqtt_mq_currsz_def)

lemma mq_free_room: "mq_ok q \<Longrightarrow> mq_curr q + length (mq_free q) \<le> length (mq_mem q)"
  using mq_tail_nat [of q] by (auto simp: length_mq_free)

lemma view_store:
  assumes "laid_out 0 ms e" "e \<le> length mem"
  shows "map (view_msg (splice mem e buf)) ms = map (view_msg mem) ms"
proof (rule map_cong [OF refl])
  fix m assume "m \<in> set ms"
  then have "msg_start m + msg_size m \<le> e" using laid_in [OF assms(1)] by simp
  then have "take (msg_size m) (drop (msg_start m) (splice mem e buf)) = take (msg_size m) (drop (msg_start m) mem)"
    using assms(2) by (simp add: splice_def min_def take_drop)
  then show "view_msg (splice mem e buf) m = view_msg mem m" by (simp add: view_msg_def)
qed

text \<open>Bytes stored behind the packets leave the queue as it is.\<close>

lemma mq_store_ok:
  assumes "mq_ok q" "length buf = length (mq_free q)"
  shows "mq_ok (mq_store q buf)" "mq_view (mq_store q buf) = mq_view q"
  using assms mq_free_room [OF assms(1)] view_store [of "mq_msgs q" "mq_curr q" "mq_mem q" buf]
  by (auto simp: mq_ok_def mq_store_def mq_view_def mqtt_mq_currsz_def mq_tail_def)

lemma mq_init_ok: "mq_ok (mqtt_mq_init buf)" "mq_view (mqtt_mq_init buf) = []"
  by (simp_all add: mqtt_mq_init_def mq_ok_def mq_view_def Let_def mqtt_mq_currsz_def mq_tail_def)

text \<open>A packet that was built is registered: it is the last of the queue.\<close>

lemma mq_register_ok:
  assumes "mq_ok q" "length buf = length (mq_free q)" "n \<le> mq_curr_sz q" "0 < n"
  shows "\<exists>q'. mqtt_mq_register stale (mq_store q buf) n = Some q' \<and> mq_ok q' \<and>
    length (mq_mem q') = length (mq_mem q) \<and>
    mq_msgs q' = mq_msgs q @ [stale\<lparr>msg_start := mq_curr q, msg_size := n, msg_state := UNSENT\<rparr>] \<and>
    mq_view q' = mq_view q @ [(stale\<lparr>msg_start := 0, msg_size := n, msg_state := UNSENT\<rparr>, take n buf)]"
proof -
  let ?q = "mq_store q buf"
  let ?m = "stale\<lparr>msg_start := mq_curr q, msg_size := n, msg_state := UNSENT\<rparr>"
  note ok = mq_store_ok [OF assms(1,2)]
  have same: "mq_curr ?q = mq_curr q" "mq_msgs ?q = mq_msgs q" "mq_curr_sz ?q = mq_curr_sz q"
    "mq_mem ?q = splice (mq_mem q) (mq_curr q) buf" by (simp_all add: mq_store_def)
  have mem: "length (mq_mem ?q) = length (mq_mem q)"
    using mq_free_room [OF assms(1)] assms(2) by (simp add: same)
  then have tail: "mq_tail ?q = mq_tail q" by (simp add: mq_tail_def same)
  have room: "int (mq_curr q) + int n \<le> mq_tail q - 40"
    using assms(1,3,4) by (auto simp: mq_ok_def mqtt_mq_currsz_def split: if_splits)
  have laid_out: "laid_out 0 (mq_msgs q) (mq_curr q)" using assms(1) by (simp add: mq_ok_def)
  let ?q' = "?q\<lparr>mq_msgs := mq_msgs q @ [?m], mq_curr := mq_curr q + n\<rparr>"
  have reg: "mqtt_mq_register stale ?q n = Some (?q'\<lparr>mq_curr_sz := mqtt_mq_currsz ?q'\<rparr>)"
    using room tail by (simp add: mqtt_mq_register_def Let_def same)
  have n: "n \<le> length buf" using curr_sz_le_free [OF assms(1)] assms(2,3) by simp
  have bytes: "view_msg (mq_mem ?q) ?m = (stale\<lparr>msg_start := 0, msg_size := n, msg_state := UNSENT\<rparr>, take n buf)"
    using n mq_free_room [OF assms(1)] by (simp add: view_msg_def same splice_def)
  have "mq_ok (?q'\<lparr>mq_curr_sz := mqtt_mq_currsz ?q'\<rparr>)"
    using room mem laid_out by (auto simp: mq_ok_def laid_append mq_tail_def same mqtt_mq_currsz_def)
  moreover have "mq_view ?q' = mq_view q @ [(stale\<lparr>msg_start := 0, msg_size := n, msg_state := UNSENT\<rparr>, take n buf)]"
    using ok(2) bytes by (simp add: mq_view_def same)
  ultimately show ?thesis using reg mem by (simp add: same mq_view_def)
qed

text \<open>Cleaning drops the complete messages at the front and keeps the others as they are.\<close>

lemma dropWhile_view: "dropWhile mq_done (map (view_msg mem) ms) = map (view_msg mem) (dropWhile (\<lambda>m. mq_done (view_msg mem m)) ms)"
  by (simp add: dropWhile_map comp_def)

lemma mq_clean_ok:
  assumes "mq_ok q"
  shows "\<exists>q'. mqtt_mq_clean q = Some q' \<and> mq_ok q' \<and> mq_view q' = dropWhile mq_done (mq_view q) \<and>
    length (mq_mem q') = length (mq_mem q)"
proof -
  let ?P = "\<lambda>m. mq_done (view_msg (mq_mem q) m)"
  obtain ms k where scan: "mq_scan (mq_msgs q) 0 = (ms, k)" by fastforce
  from mq_scan_eq [OF _ this, of "mq_mem q"]
  have "k = length (takeWhile ?P (mq_msgs q)) \<and> length ms = length (mq_msgs q) \<and>
    drop k ms = dropWhile ?P (mq_msgs q) \<and> (k = 0 \<longrightarrow> ms = mq_msgs q)" by auto
  then have k: "k = length (takeWhile ?P (mq_msgs q))" "length ms = length (mq_msgs q)"
    "drop k ms = dropWhile ?P (mq_msgs q)" "k = 0 \<Longrightarrow> ms = mq_msgs q" by blast+
  have view: "dropWhile mq_done (mq_view q) = map (view_msg (mq_mem q)) (drop k ms)"
    by (simp add: mq_view_def dropWhile_view k(3))
  have laid_out: "laid_out 0 (mq_msgs q) (mq_curr q)" and size: "mq_curr q + 40 * length (mq_msgs q) \<le> length (mq_mem q)"
    using assms by (simp_all add: mq_ok_def)
  consider "k = length ms" | "k \<noteq> length ms" "k = 0" | "k < length ms" "0 < k"
    using k(1,2) length_takeWhile_le [of ?P "mq_msgs q"] by fastforce
  then show ?thesis
  proof cases
    case 1
    let ?q = "q\<lparr>mq_curr := 0, mq_msgs := []\<rparr>"
    have "mqtt_mq_clean q = Some (?q\<lparr>mq_curr_sz := mqtt_mq_currsz ?q\<rparr>)"
      using 1 by (simp add: mqtt_mq_clean_def scan Let_def mqtt_mq_currsz_def mq_tail_def)
    moreover have "[] = dropWhile mq_done (mq_view q)" unfolding view using 1 by simp
    ultimately show ?thesis by (simp add: mq_ok_def mq_view_def mqtt_mq_currsz_def mq_tail_def)
  next
    case 2
    then show ?thesis
      using view assms k(4) by (simp add: mqtt_mq_clean_def scan mq_view_def)
  next
    case 3
    let ?head = "msg_start (ms ! k)" and ?n = "mq_curr q - msg_start (ms ! k)"
    have split: "mq_msgs q = takeWhile ?P (mq_msgs q) @ drop k ms" by (simp add: k(3))
    then obtain s where s: "laid_out s (drop k ms) (mq_curr q)" using laid_out laid_append by metis
    have d: "drop k ms = ms ! k # drop (k + 1) ms" using 3 by (simp add: Cons_nth_drop_Suc)
    have head: "?head = s" using s by (simp add: d)
    have le: "s \<le> mq_curr q" using laid_le [OF s] .
    let ?ms = "map (\<lambda>m. m\<lparr>msg_start := msg_start m - s\<rparr>) (drop k ms)"
    let ?mem = "take ?n (drop s (mq_mem q)) @ drop ?n (mq_mem q)"
    have n: "?n \<le> length (mq_mem q)" "s + ?n \<le> length (mq_mem q)" using size le by (simp_all add: head)
    have len: "length ?mem = length (mq_mem q)" using n by simp
    have "length (take ?n (drop s (mq_mem q))) = ?n" using n by simp
    then have clean: "mqtt_mq_clean q =
        (let q' = q\<lparr>mq_mem := ?mem, mq_curr := ?n, mq_msgs := ?ms\<rparr>
         in Some (q'\<lparr>mq_curr_sz := mqtt_mq_currsz q'\<rparr>))"
      using 3 n by (simp add: mqtt_mq_clean_def scan Let_def head rd_bytes_in wr_bytes_in)
    have "laid_out 0 ?ms ?n" using laid_shift [OF s order.refl] by (simp add: head)
    moreover have "?n + 40 * length ?ms \<le> length ?mem" using size k(2) len by (simp del: length_append)
    moreover have "map (view_msg ?mem) ?ms = map (view_msg (mq_mem q)) (drop k ms)"
    proof -
      have "view_msg ?mem (m\<lparr>msg_start := msg_start m - s\<rparr>) = view_msg (mq_mem q) m" if "m \<in> set (drop k ms)" for m
        using laid_in [OF s that] size by (simp only: head) (rule view_msg_moved; simp)
      then show ?thesis by simp
    qed
    ultimately show ?thesis
      using mq_okI [of "q\<lparr>mq_mem := ?mem, mq_curr := ?n, mq_msgs := ?ms\<rparr>"] len
      unfolding view clean Let_def by (simp add: mq_view_def del: length_append)
  qed
qed

text \<open>The search finds the first message it is after.\<close>

definition sought :: "control_type \<Rightarrow> u16 option \<Rightarrow> queued_message \<Rightarrow> bool" where
  "sought ct pid m \<longleftrightarrow> msg_type m = ct \<and>
     (pid = None \<and> msg_state m \<noteq> COMPLETE \<or> pid = Some (packet_id m))"

lemma find_from_eq:
  "find_from ms i ct pid =
     (let k = length (takeWhile (\<lambda>m. \<not> sought ct pid m) ms) in if k < length ms then Some (i + k) else None)"
proof (induction ms arbitrary: i)
  case (Cons m ms)
  have "find_from (m # ms) i ct pid = (if sought ct pid m then Some i else find_from ms (i + 1) ct pid)"
    by (simp add: sought_def)
  then show ?case
    by (simp add: Cons.IH Let_def)
qed simp

lemma find_Some:
  assumes "mqtt_mq_find q ct pid = Some k"
  shows "k < length (mq_msgs q) \<and> sought ct pid (mq_msgs q ! k) \<and> (\<forall>m \<in> set (take k (mq_msgs q)). \<not> sought ct pid m)"
proof -
  let ?n = "length (takeWhile (\<lambda>m. \<not> sought ct pid m) (mq_msgs q))"
  have k: "k = ?n" "?n < length (mq_msgs q)"
    using assms by (auto simp: mqtt_mq_find_def find_from_eq Let_def split: if_splits)
  have "take ?n (mq_msgs q) = takeWhile (\<lambda>m. \<not> sought ct pid m) (mq_msgs q)" by (rule takeWhile_eq_take [symmetric])
  then have "set (take k (mq_msgs q)) = set (takeWhile (\<lambda>m. \<not> sought ct pid m) (mq_msgs q))"
    by (simp only: k(1))
  then have "\<forall>m \<in> set (take k (mq_msgs q)). \<not> sought ct pid m" using set_takeWhileD by fast
  moreover have "sought ct pid (mq_msgs q ! k)" using nth_length_takeWhile [OF k(2)] unfolding k(1) by blast
  ultimately show ?thesis using k by blast
qed

lemma find_None: "mqtt_mq_find q ct pid = None \<longleftrightarrow> (\<forall>m \<in> set (mq_msgs q). \<not> sought ct pid m)"
proof -
  have "length (takeWhile P xs) < length xs \<longleftrightarrow> \<not> (\<forall>x \<in> set xs. P x)" for P and xs :: "queued_message list"
    by (induction xs) auto
  then show ?thesis by (auto simp: mqtt_mq_find_def find_from_eq Let_def)
qed

section \<open>The shift register\<close>

text \<open>
  A step of the register is linear over bits, and the 16 words with one bit are the first images of
  the topmost of them. So a linear map that commutes with the step is known by its value on that
  word, and the composition of two such maps is a product of 16 steps, \<open>lfsr_mult\<close>: the words are
  the polynomials over bits modulo the polynomial of the register.
\<close>

definition linear16 :: "(u16 \<Rightarrow> u16) \<Rightarrow> bool" where
  "linear16 g \<longleftrightarrow> (\<forall>x y. g (x XOR y) = g x XOR g y) \<and> (\<forall>x. g (lfsr_step x) = lfsr_step (g x))"

definition unit_top :: u16 where
  "unit_top = 0x8000"

definition lfsr_mult :: "u16 \<Rightarrow> u16 \<Rightarrow> u16" where
  "lfsr_mult w v = fold (\<lambda>j acc. lfsr_step acc XOR (if bit v j then w else 0)) [0..<16] 0"

lemma odd_bit: "w AND 1 \<noteq> 0 \<longleftrightarrow> bit (w :: u16) 0"
  by (auto simp: bit_0 and_one_eq odd_iff_mod_2_eq_one)

lemma lfsr_step_xor: "lfsr_step (x XOR y) = lfsr_step x XOR lfsr_step y"
  unfolding lfsr_step_def odd_bit
  by (cases "bit x 0"; cases "bit y 0") (simp_all add: bit_xor_iff drop_bit_xor ac_simps)

lemma lfsr_step_0 [simp]: "lfsr_step 0 = 0"
  by (simp add: lfsr_step_def)

lemma linear_step: "linear16 lfsr_step" and linear_id: "linear16 (\<lambda>x. x)"
  by (simp_all add: linear16_def lfsr_step_xor)

lemma linear_comp: "linear16 f \<Longrightarrow> linear16 g \<Longrightarrow> linear16 (\<lambda>x. f (g x))"
  by (simp add: linear16_def)

lemma linear_xor: "linear16 f \<Longrightarrow> linear16 g \<Longrightarrow> linear16 (\<lambda>x. f x XOR g x)"
  by (simp add: linear16_def lfsr_step_xor ac_simps)

lemma linear_pow: "linear16 (lfsr_step ^^ n)"
  by (induction n) (simp_all add: linear_id linear_comp [OF linear_step] id_def comp_def)

lemma linear_0: "linear16 g \<Longrightarrow> g 0 = 0"
  unfolding linear16_def by (metis xor_self_eq)

lemma unit_top_bit: "bit unit_top k \<longleftrightarrow> k = 15"
proof -
  have "unit_top = push_bit 15 1" by (simp add: unit_top_def)
  then have "bit unit_top k \<longleftrightarrow> bit (push_bit 15 1 :: u16) k" by (rule arg_cong)
  also have "\<dots> \<longleftrightarrow> k = 15" unfolding bit_push_bit_iff by (auto simp: bit_1_iff)
  finally show ?thesis .
qed

text \<open>Half of the product: the low \<open>n\<close> bits of the second factor, moved up to the unit_top.\<close>

lemma lfsr_horner:
  assumes "linear16 g" "n \<le> 16"
  shows "fold (\<lambda>j acc. lfsr_step acc XOR (if bit v j then g unit_top else 0)) [0..<n] 0 =
    g (push_bit (16 - n) (take_bit n v))"
  using assms(2)
proof (induction n)
  case 0
  show ?case using linear_0 [OF assms(1)] by simp
next
  case (Suc n)
  let ?x = "push_bit (16 - n) (take_bit n v)"
  have "\<not> bit ?x 0" using Suc.prems by (simp add: bit_push_bit_iff)
  then have "lfsr_step ?x = drop_bit 1 ?x" by (simp only: lfsr_step_def odd_bit if_False)
  also have "\<dots> = push_bit (15 - n) (take_bit n v)"
    by (rule bit_word_eqI) (use Suc.prems in \<open>auto simp: bit_simps Suc_diff_le\<close>)
  finally have "lfsr_step ?x XOR (if bit v n then unit_top else 0) = push_bit (16 - Suc n) (take_bit (Suc n) v)"
    by (simp only:) (rule bit_word_eqI,
        use Suc.prems in \<open>auto simp: bit_simps unit_top_bit less_Suc_eq split: if_splits\<close>)
  moreover have "lfsr_step (g ?x) XOR (if bit v n then g unit_top else 0) = g (lfsr_step ?x XOR (if bit v n then unit_top else 0))"
    using assms(1) linear_0 [OF assms(1)] by (simp add: linear16_def)
  ultimately show ?case using Suc by simp
qed

lemma linear_mult: "linear16 g \<Longrightarrow> g v = lfsr_mult (g unit_top) v"
  using lfsr_horner [of g 16 v] by (simp add: lfsr_mult_def take_bit_word_eq_self)

lemma linear_mult_left: "linear16 (\<lambda>w. lfsr_mult w v)"
proof -
  have add: "fold (\<lambda>j acc. lfsr_step acc XOR (if bit v j then x XOR y else 0)) js (a XOR b) =
      fold (\<lambda>j acc. lfsr_step acc XOR (if bit v j then x else 0)) js a XOR
      fold (\<lambda>j acc. lfsr_step acc XOR (if bit v j then y else 0)) js b" for js a b x y
  proof (induction js arbitrary: a b)
    case (Cons j js)
    have "lfsr_step (a XOR b) XOR (if bit v j then x XOR y else 0) =
        (lfsr_step a XOR (if bit v j then x else 0)) XOR (lfsr_step b XOR (if bit v j then y else 0))"
      by (simp add: lfsr_step_xor ac_simps)
    then show ?case by (simp only: fold_simps Cons.IH)
  qed simp
  have comm: "fold (\<lambda>j acc. lfsr_step acc XOR (if bit v j then lfsr_step x else 0)) js (lfsr_step a) =
      lfsr_step (fold (\<lambda>j acc. lfsr_step acc XOR (if bit v j then x else 0)) js a)" for js a x
  proof (induction js arbitrary: a)
    case (Cons j js)
    have "lfsr_step (lfsr_step a) XOR (if bit v j then lfsr_step x else 0) =
        lfsr_step (lfsr_step a XOR (if bit v j then x else 0))"
      by (simp add: lfsr_step_xor)
    then show ?case by (simp only: fold_simps Cons.IH)
  qed simp
  show ?thesis
    using add [where a = 0 and b = 0] comm [where a = 0] by (simp add: linear16_def lfsr_mult_def)
qed

text \<open>The power of the step, from the binary digits of the exponent, the highest first.\<close>

primrec lfsr_power :: "bool list \<Rightarrow> u16 \<Rightarrow> u16" where
  "lfsr_power [] w = w"
| "lfsr_power (b # bs) w = lfsr_power bs (let w = lfsr_mult w w in if b then lfsr_step w else w)"

definition digits :: "bool list \<Rightarrow> nat \<Rightarrow> nat" where
  "digits bs n = fold (\<lambda>b n. 2 * n + of_bool b) bs n"

lemma lfsr_power_eq: "lfsr_power bs ((lfsr_step ^^ n) unit_top) = (lfsr_step ^^ digits bs n) unit_top"
proof (induction bs arbitrary: n)
  case (Cons b bs)
  have "(lfsr_step ^^ (2 * n)) unit_top = lfsr_mult ((lfsr_step ^^ n) unit_top) ((lfsr_step ^^ n) unit_top)"
    using linear_mult [OF linear_pow, of n "(lfsr_step ^^ n) unit_top"] by (simp add: mult_2 funpow_add)
  moreover have "lfsr_step ((lfsr_step ^^ k) unit_top) = (lfsr_step ^^ (k + 1)) unit_top" for k by simp
  ultimately show ?case
    by (cases b) (simp_all only: lfsr_power.simps Let_def if_True if_False digits_def fold_simps
        of_bool_eq add_0_right Cons.IH flip: \<open>(lfsr_step ^^ (2 * n)) unit_top = _\<close>)
qed (simp add: digits_def)

lemma upt_sixteen: "[0..<16] = [0, 1, 2, 3, 4, 5, 6, 7, 8, 9, 10, 11, 12, 13, 14, 15 :: nat]"
  by code_simp

text \<open>
  The register is back where it was after 65535 steps. It is not back after a proper divisor of
  them: for the four largest, the step to that power plus the identity has an inverse.
\<close>

lemma lfsr_powers:
  "lfsr_power [True, True, True, True, True, True, True, True, True, True, True, True, True, True, True, True] unit_top = unit_top"
  "lfsr_power [True, True, True, True, True, True, True, True] unit_top = 41728"
  "lfsr_power [True, True, True, True, False, False, False, False, True, True, True, True] unit_top = 11573"
  "lfsr_power [True, True, False, False, True, True, False, False, True, True, False, False, True, True] unit_top = 24417"
  "lfsr_power [True, False, True, False, True, False, True, False, True, False, True, False, True, False, True] unit_top = 21301"
  by (simp_all add: lfsr_mult_def lfsr_step_def upt_sixteen unit_top_def)

lemma lfsr_inverses:
  "lfsr_mult (41728 XOR unit_top) 3669 = unit_top" "lfsr_mult (11573 XOR unit_top) 61182 = unit_top"
  "lfsr_mult (24417 XOR unit_top) 61500 = unit_top" "lfsr_mult (21301 XOR unit_top) 21301 = unit_top"
  by (simp_all add: lfsr_mult_def lfsr_step_def upt_sixteen unit_top_def)

lemma lfsr_back: "(lfsr_step ^^ 65535) x = x"
proof -
  have "digits [True, True, True, True, True, True, True, True, True, True, True, True, True, True, True, True] 0 = 65535"
    by (simp add: digits_def)
  then have "(lfsr_step ^^ 65535) unit_top = unit_top"
    using lfsr_power_eq [of _ 0] lfsr_powers(1) by (metis funpow_0)
  then show ?thesis
    using linear_mult [OF linear_pow, of 65535 x] linear_mult [OF linear_id, of x] by simp
qed

lemma no_fixpoint:
  assumes "lfsr_mult ((lfsr_step ^^ k) unit_top XOR unit_top) b = unit_top" "(lfsr_step ^^ k) x = x"
  shows "x = 0"
proof -
  let ?g = "\<lambda>x. (lfsr_step ^^ k) x XOR x"
  let ?h = "\<lambda>x. lfsr_mult (?g x) b"
  have "linear16 ?g" using linear_xor [OF linear_pow linear_id] .
  then have "linear16 ?h" using linear_comp [OF linear_mult_left] by simp
  from linear_mult [OF this, of x] have "?h x = lfsr_mult unit_top x" using assms(1) by simp
  also have "\<dots> = x" using linear_mult [OF linear_id, of x] by simp
  finally have "x = ?h x" ..
  also have "\<dots> = 0" using assms(2) linear_0 [OF linear_mult_left] by simp
  finally show ?thesis .
qed

lemma no_short_period:
  assumes "k \<in> {255, 3855, 13107, 21845}" "(lfsr_step ^^ k) x = x"
  shows "x = 0"
proof -
  have d: "digits [True, True, True, True, True, True, True, True] 0 = 255"
    "digits [True, True, True, True, False, False, False, False, True, True, True, True] 0 = 3855"
    "digits [True, True, False, False, True, True, False, False, True, True, False, False, True, True] 0 = 13107"
    "digits [True, False, True, False, True, False, True, False, True, False, True, False, True, False, True] 0 = 21845"
    by (simp_all add: digits_def)
  have "(lfsr_step ^^ 255) unit_top = 41728" "(lfsr_step ^^ 3855) unit_top = 11573"
    "(lfsr_step ^^ 13107) unit_top = 24417" "(lfsr_step ^^ 21845) unit_top = 21301"
    using lfsr_power_eq [of _ 0] lfsr_powers(2-5) by (metis d funpow_0)+
  then show ?thesis using assms no_fixpoint lfsr_inverses by (metis insertE singletonD)
qed

lemma small_primes: "d dvd p \<Longrightarrow> p \<in> {3, 5, 17, 257} \<Longrightarrow> d = 1 \<or> d = p" for d p :: nat
proof -
  assume d: "d dvd p" and p: "p \<in> {3, 5, 17, 257}"
  have "\<forall>p \<in> set [3, 5, 17, 257 :: nat]. \<forall>d \<in> set [1..<17]. d dvd p \<longrightarrow> d = 1 \<or> d = p"
    by code_simp
  moreover have "p \<in> set [3, 5, 17, 257]" using p by simp
  ultimately have small: "d = 1 \<or> d = p" if "d dvd p" "1 \<le> d" "d < 17" for d
    using that by (metis atLeastLessThan_iff set_upt)
  obtain e where e: "p = d * e" using d by (elim dvdE)
  have "p \<noteq> 0" "p < 17 * 17" using p by auto
  then have "1 \<le> d" "1 \<le> e" "d < 17 \<or> e < 17"
    using e mult_le_mono [of 17 d 17 e] by (auto simp: not_less intro: ccontr)
  then show ?thesis using small [of d] small [of e] d e \<open>p \<noteq> 0\<close> by auto
qed

lemma proper_divisor:
  assumes "g dvd 65535" "g < 65535"
  shows "\<exists>k \<in> {255, 3855, 13107, 21845 :: nat}. g dvd k"
proof -
  from assms(1) obtain q where q: "65535 = g * q" by (elim dvdE)
  have cop: "coprime q p" if "\<not> p dvd q" "p \<in> {3, 5, 17, 257}" for p
  proof -
    have "gcd q p \<noteq> p" using gcd_dvd1 [of q p] that(1) by metis
    then show ?thesis using small_primes [OF gcd_dvd2 that(2), of q] by (simp add: coprime_iff_gcd_eq_1)
  qed
  have "\<exists>p \<in> {3, 5, 17, 257}. p dvd q"
  proof (rule ccontr)
    assume no: "\<not> (\<exists>p \<in> {3, 5, 17, 257}. p dvd q)"
    have "q dvd 3 * (5 * (17 * 257))" using q by (intro dvdI [of _ _ g]) (simp add: mult.commute)
    moreover have "coprime q 3" "coprime q 5" "coprime q 17" "coprime q 257" using no cop by blast+
    ultimately have "q dvd 257" "coprime q 257" by (simp_all only: coprime_dvd_mult_right_iff)
    then have "q dvd 1" by (metis coprime_common_divisor dvd_refl)
    then show False using q assms(2) by simp
  qed
  then obtain p r where p: "p \<in> {3, 5, 17, 257}" "q = p * r" by (blast elim: dvdE)
  then have "65535 = p * (g * r)" using q by (simp add: ac_simps)
  with p(1) show ?thesis by (auto simp: dvd_def)
qed

lemma funpow_period: "(f ^^ n) x = x \<Longrightarrow> (f ^^ (n * k)) x = x" for f :: "u16 \<Rightarrow> u16"
  by (induction k) (simp_all add: funpow_add)

lemma lfsr_no_return:
  assumes "0 < i" "i < 65535" "(lfsr_step ^^ i) x = x"
  shows "x = 0"
proof -
  let ?g = "gcd i 65535"
  obtain u v where uv: "i * u = 65535 * v + ?g" using bezout_nat [of i 65535] assms(1) by auto
  have "(lfsr_step ^^ (?g + 65535 * v)) x = (lfsr_step ^^ ?g) ((lfsr_step ^^ (65535 * v)) x)"
    by (simp only: funpow_add comp_apply)
  then have "(lfsr_step ^^ ?g) x = x"
    using funpow_period [OF assms(3), of u] funpow_period [OF lfsr_back [of x], of v] uv by (simp add: add.commute)
  moreover have "?g \<le> i" using assms(1) by (simp add: gcd_le1_nat)
  then obtain k where k: "k \<in> {255, 3855, 13107, 21845 :: nat}" "?g dvd k"
    using proper_divisor [OF gcd_dvd2, of i] assms(2) by auto
  ultimately have "(lfsr_step ^^ k) x = x" using funpow_period by (metis dvdE)
  with k(1) show ?thesis by (rule no_short_period)
qed

lemma lfsr_inj: "(lfsr_step ^^ n) x = (lfsr_step ^^ n) y \<Longrightarrow> x = y"
proof -
  have "x = y" if "lfsr_step x = lfsr_step y" for x y
  proof -
    have "(lfsr_step ^^ 65534) (lfsr_step z) = z" for z
    proof -
      have "(65535 :: nat) = 65534 + 1" by simp
      with lfsr_back [of z] have "(lfsr_step ^^ (65534 + 1)) z = z" by (simp only:)
      then show ?thesis by (simp only: funpow_add comp_apply One_nat_def funpow.simps id_apply)
    qed
    then show ?thesis using that by metis
  qed
  then show "(lfsr_step ^^ n) x = (lfsr_step ^^ n) y \<Longrightarrow> x = y" by (induction n) auto
qed

text \<open>From any nonzero word the register runs through all of them.\<close>

lemma lfsr_orbit:
  assumes "w \<noteq> 0" "p \<noteq> 0"
  shows "\<exists>k. 0 < k \<and> p = (lfsr_step ^^ k) w"
proof -
  let ?f = "\<lambda>i. (lfsr_step ^^ i) w"
  have "inj_on ?f {0..<65535}"
  proof (rule inj_onI)
    have *: "\<not> i < j" if "i \<in> {0..<65535}" "j \<in> {0..<65535}" "?f i = ?f j" for i j
    proof
      assume "i < j"
      then have "?f j = (lfsr_step ^^ i) ((lfsr_step ^^ (j - i)) w)"
        using funpow_add [of i "j - i" lfsr_step] by simp
      then have "(lfsr_step ^^ (j - i)) w = w" using that(3) lfsr_inj by metis
      moreover have "0 < j - i" "j - i < 65535" using \<open>i < j\<close> that(2) by auto
      ultimately show False using lfsr_no_return assms(1) by blast
    qed
    show "i = j" if "i \<in> {0..<65535}" "j \<in> {0..<65535}" "?f i = ?f j" for i j
      using * [OF that] * [OF that(2,1) that(3) [symmetric]] by simp
  qed
  then have "card (?f ` {0..<65535}) = 65535" by (simp add: card_image)
  moreover have "card (UNIV - {0 :: u16}) = 65535" by (simp add: card_Diff_subset card_word)
  moreover have "?f ` {0..<65535} \<subseteq> UNIV - {0}"
    using assms(1) lfsr_inj [of _ w 0] linear_0 [OF linear_pow] by auto
  ultimately have "?f ` {0..<65535} = UNIV - {0}" by (intro card_subset_eq) simp_all
  then have "p \<in> ?f ` {0..<65535}" using assms(2) by blast
  then obtain i where i: "p = ?f i" by auto
  show ?thesis
  proof (cases i)
    case 0
    then show ?thesis using i lfsr_back [of w] by (intro exI [of _ 65535]) simp
  qed (use i in auto)
qed

lemma next_pid_found:
  "0 < k \<Longrightarrow> (\<And>i. 0 < i \<Longrightarrow> i < k \<Longrightarrow> (lfsr_step ^^ i) w \<in> packet_id ` set msgs) \<Longrightarrow>
   (lfsr_step ^^ k) w \<notin> packet_id ` set msgs \<Longrightarrow> next_pid_loop msgs w = Some ((lfsr_step ^^ k) w)"
proof (induction k arbitrary: w)
  case (Suc k)
  have used: "list_ex (\<lambda>m. packet_id m = v) msgs \<longleftrightarrow> v \<in> packet_id ` set msgs" for v
    by (auto simp: list_ex_iff)
  show ?case
  proof (cases "k = 0")
    case True
    with Suc.prems show ?thesis by (subst next_pid_loop.simps) (simp add: used Let_def)
  next
    case False
    have step: "(lfsr_step ^^ i) (lfsr_step w) = (lfsr_step ^^ Suc i) w" for i by (simp add: funpow_swap1)
    have "lfsr_step w \<in> packet_id ` set msgs" using Suc.prems(2) [of 1] False by simp
    then have "next_pid_loop msgs w = next_pid_loop msgs (lfsr_step w)"
      by (subst next_pid_loop.simps) (simp add: used Let_def)
    also have "\<dots> = Some ((lfsr_step ^^ k) (lfsr_step w))"
      using Suc.prems False by (intro Suc.IH) (auto simp only: step neq0_conv)
    finally show ?thesis by (simp only: step)
  qed
qed simp

lemma next_pid_result:
  assumes "next_pid_loop msgs w = Some p"
  shows "p \<notin> packet_id ` set msgs \<and> (\<exists>k. p = (lfsr_step ^^ k) w)"
proof (rule next_pid_loop.raw_induct [OF _ assms, where P = "\<lambda>msgs w p. p \<notin> packet_id ` set msgs \<and> (\<exists>k. p = (lfsr_step ^^ k) w)"])
  fix loop msgs w p
  assume IH: "\<And>msgs w p. loop msgs w = Some p \<Longrightarrow> p \<notin> packet_id ` set msgs \<and> (\<exists>k. p = (lfsr_step ^^ k) w)"
    and run: "(let w = lfsr_step w in if list_ex (\<lambda>m. packet_id m = w) msgs then loop msgs w else Some w) = Some p"
  show "p \<notin> packet_id ` set msgs \<and> (\<exists>k. p = (lfsr_step ^^ k) w)"
  proof (cases "list_ex (\<lambda>m. packet_id m = lfsr_step w) msgs")
    case True
    then obtain k where "p \<notin> packet_id ` set msgs" "p = (lfsr_step ^^ k) (lfsr_step w)"
      using IH [of msgs "lfsr_step w" p] run by (auto simp: Let_def)
    then have "p = (lfsr_step ^^ Suc k) w" by (simp add: funpow_swap1)
    with \<open>p \<notin> packet_id ` set msgs\<close> show ?thesis by blast
  next
    case False
    then have "p = (lfsr_step ^^ 1) w" "p \<notin> packet_id ` set msgs"
      using run by (auto simp: Let_def list_ex_iff)
    then show ?thesis by blast
  qed
qed

lemma next_pid_cases:
  "if \<exists>p. p \<noteq> 0 \<and> p \<notin> packet_id ` set msgs
   then \<exists>p. mqtt_next_pid msgs lfsr = Some p \<and> p \<noteq> 0 \<and> p \<notin> packet_id ` set msgs
   else mqtt_next_pid msgs lfsr = None"
proof -
  let ?w = "if lfsr = 0 then 163 else lfsr"
  have w: "?w \<noteq> 0" by simp
  have sound: "p \<noteq> 0 \<and> p \<notin> packet_id ` set msgs" if run: "mqtt_next_pid msgs lfsr = Some p" for p
  proof -
    obtain k where "p \<notin> packet_id ` set msgs" "p = (lfsr_step ^^ k) ?w"
      using next_pid_result [OF run [unfolded mqtt_next_pid_def]] by blast
    moreover have "(lfsr_step ^^ k) ?w \<noteq> (lfsr_step ^^ k) 0" using lfsr_inj w by blast
    ultimately show ?thesis unfolding linear_0 [OF linear_pow] by simp
  qed
  show ?thesis
  proof (cases "\<exists>p. p \<noteq> 0 \<and> p \<notin> packet_id ` set msgs")
    case True
    then obtain k where "0 < k" "(lfsr_step ^^ k) ?w \<notin> packet_id ` set msgs" using lfsr_orbit [OF w] by metis
    then have least: "\<exists>k. 0 < k \<and> (lfsr_step ^^ k) ?w \<notin> packet_id ` set msgs" by blast
    define k where "k = (LEAST k. 0 < k \<and> (lfsr_step ^^ k) ?w \<notin> packet_id ` set msgs)"
    have "0 < k \<and> (lfsr_step ^^ k) ?w \<notin> packet_id ` set msgs" unfolding k_def by (rule LeastI_ex [OF least])
    moreover have "(lfsr_step ^^ i) ?w \<in> packet_id ` set msgs" if "0 < i" "i < k" for i
      using not_less_Least [of i "\<lambda>k. 0 < k \<and> (lfsr_step ^^ k) ?w \<notin> packet_id ` set msgs"] that
      unfolding k_def by blast
    ultimately have "mqtt_next_pid msgs lfsr = Some ((lfsr_step ^^ k) ?w)"
      unfolding mqtt_next_pid_def by (intro next_pid_found) blast+
    with True sound show ?thesis by (simp only: if_True) blast
  next
    case False
    then have "mqtt_next_pid msgs lfsr = None" using sound by (cases "mqtt_next_pid msgs lfsr") blast+
    with False show ?thesis by (simp only: if_False)
  qed
qed

lemma next_pid_available:
  "\<exists>p. p \<noteq> 0 \<and> p \<notin> packet_id ` set msgs \<Longrightarrow>
     \<exists>p. mqtt_next_pid msgs lfsr = Some p \<and> p \<noteq> 0 \<and> p \<notin> packet_id ` set msgs"
  using next_pid_cases [of msgs lfsr] by (simp only: if_True)

text \<open>
  C21. The search for a packet identifier ends exactly when one of the 65535 nonzero identifiers is
  not in use; it then answers with such an identifier.
\<close>

theorem next_pid_fresh:
  "if \<exists>p. p \<noteq> 0 \<and> p \<notin> packet_id ` set msgs
   then \<exists>p. mqtt_next_pid msgs lfsr = Some p \<and> p \<noteq> 0 \<and> p \<notin> packet_id ` set msgs
   else mqtt_next_pid msgs lfsr = None"
  by (rule next_pid_cases)

end
