(* ===== verification/MqttClient.thy ===== *)
theory MqttClient
  imports MqttQueue Complex_Main
begin

text \<open>
  The MQTT client of \<open>e_mqtt.c\<close>: its state, the requests that put a packet in the queue, and
  \<open>__mqtt_send\<close>, \<open>__mqtt_recv\<close> and \<open>mqtt_sync\<close>, which move the queue and the receive buffer over
  the socket. What they do is proved in \<open>MqttClientFacts\<close>.

  The socket and the clock belong to the host and are parameters: \<open>net\<close> tells what the calls of
  \<open>time\<close>, \<open>send\<close> and \<open>recv\<close> answer, by the number of the call, and what the memory of a new queue
  record holds. The world counts the calls and keeps what was put on the wire and what the publish
  callback was handed. Times are unbounded integers. The typical response time is computed in
  rationals: the weights 7/8 and 1/8 are exact in a \<open>double\<close>, its rounding is not modelled, and
  nothing depends on it. The mutex is left out: every operation here runs under it. The callbacks
  for inspection and reconnection are arguments of \<open>mqtt_sync\<close>.
\<close>

section \<open>State\<close>

record mqtt_client =
  pid_lfsr :: u16
  keep_alive :: u16
  number_of_keep_alives :: int
  time_of_last_send :: int
  client_error :: mqtt_errors
  response_timeout :: int
  number_of_timeouts :: int
  typical_response_time :: rat
  recv_mem :: bytes
  recv_curr :: nat
  recv_curr_sz :: nat
  mq :: message_queue

datatype recv_result = Received bytes | Again | Broken

record net =
  time_at :: "nat \<Rightarrow> int"
  send_at :: "nat \<Rightarrow> nat \<Rightarrow> int"
  recv_at :: "nat \<Rightarrow> nat \<Rightarrow> recv_result"
  stale_at :: "nat \<Rightarrow> queued_message"

record world =
  clock_reads :: nat
  send_calls :: nat
  recv_calls :: nat
  wire_out :: bytes
  delivered :: "(mqtt_response_publish \<times> bytes option \<times> bytes option) list"

definition pal_time :: "net \<Rightarrow> world \<Rightarrow> int \<times> world" where
  "pal_time net w = (time_at net (clock_reads w), w\<lparr>clock_reads := clock_reads w + 1\<rparr>)"

section \<open>The socket\<close>

function mqtt_pal_sendall :: "net \<Rightarrow> bytes \<Rightarrow> nat \<Rightarrow> world \<Rightarrow> (mqtt_errors + nat) \<times> world" where
  "mqtt_pal_sendall net data sent w =
     (if sent < length data then
        let n = send_at net (send_calls w) (length data - sent);
            w = w\<lparr>send_calls := send_calls w + 1\<rparr>
        in if n < 1 then (Inl MQTT_ERROR_SOCKET_ERROR, w)
           else mqtt_pal_sendall net data (sent + nat n)
             (w\<lparr>wire_out := wire_out w @ take (nat n) (drop sent data)\<rparr>)
      else (Inr sent, w))"
  by pat_completeness auto

termination by (relation "measure (\<lambda>(net, data, sent, w). length data - sent)") auto

declare mqtt_pal_sendall.simps [simp del]

text \<open>
  Receiving goes on as long as something comes; \<open>room\<close> is what is left of the buffer and \<open>got\<close> what
  was received so far. A \<open>recv\<close> that answers more than the room it was given has written outside.
\<close>

function mqtt_pal_recvall ::
  "net \<Rightarrow> nat \<Rightarrow> bytes \<Rightarrow> world \<Rightarrow> (mqtt_errors option \<times> bytes \<times> world) option"
where
  "mqtt_pal_recvall net room got w =
     (let r = recv_at net (recv_calls w) room;
          w = w\<lparr>recv_calls := recv_calls w + 1\<rparr>
      in case r of
           Received vs \<Rightarrow>
             if room < length vs then None
             else if vs = [] then Some (None, got, w)
             else mqtt_pal_recvall net (room - length vs) (got @ vs) w
         | Again \<Rightarrow> Some (None, got, w)
         | Broken \<Rightarrow> Some (Some MQTT_ERROR_SOCKET_ERROR, got, w))"
  by pat_completeness auto

termination
  by (relation "measure (\<lambda>(net, room, got, w). room)")
    (auto simp: not_less, metis diff_less length_greater_0_conv order_less_le_trans)

declare mqtt_pal_recvall.simps [simp del]

section \<open>Setting up\<close>

text \<open>
  A null pointer is \<^term>\<open>None\<close>; the sizes that come with the buffers are their lengths. \<open>mqtt_init\<close> leaves
  some members of the structure as they were: \<open>c\<close> is what the memory held.
\<close>

definition mqtt_init :: "mqtt_client option \<Rightarrow> bytes option \<Rightarrow> bytes option \<Rightarrow> mqtt_errors \<times> mqtt_client option" where
  "mqtt_init client sendbuf recvbuf = (case (client, sendbuf, recvbuf) of
     (Some c, Some sendbuf, Some recvbuf) \<Rightarrow>
       (MQTT_OK, Some (c\<lparr>mq := mqtt_mq_init sendbuf, recv_mem := recvbuf, recv_curr := 0,
         recv_curr_sz := length recvbuf, client_error := MQTT_ERROR_CONNECT_NOT_CALLED,
         response_timeout := 30, number_of_timeouts := 0, number_of_keep_alives := 0,
         typical_response_time := - 1\<rparr>))
   | _ \<Rightarrow> (MQTT_ERROR_NULLPTR, client))"

definition mqtt_reinit :: "mqtt_client \<Rightarrow> bytes \<Rightarrow> bytes \<Rightarrow> mqtt_client" where
  "mqtt_reinit c sendbuf recvbuf = c\<lparr>client_error := MQTT_ERROR_CONNECT_NOT_CALLED,
     mq := mqtt_mq_init sendbuf, recv_mem := recvbuf, recv_curr := 0,
     recv_curr_sz := length recvbuf\<rparr>"

section \<open>Requests\<close>

text \<open>
  \<open>MQTT_CLIENT_TRY_PACK\<close>: a client in an error state refuses; a packet that does not fit is tried
  again after the queue is cleaned. The result is the error, or the index of the new message.
\<close>

type_synonym builder = "bytes option \<Rightarrow> nat \<Rightarrow> packed"

definition pack_into :: "builder \<Rightarrow> mqtt_client \<Rightarrow> ((mqtt_errors + nat) \<times> mqtt_client) option" where
  "pack_into pack c = do {
     (tmp, p) \<leftarrow> pack (Some (mq_free (mq c))) (mq_curr_sz (mq c));
     buf \<leftarrow> p;
     Some (tmp, c\<lparr>mq := mq_store (mq c) buf\<rparr>)
   }"

definition register_packed ::
  "queued_message \<Rightarrow> nat \<Rightarrow> mqtt_client \<Rightarrow> ((mqtt_errors + nat) \<times> mqtt_client) option"
where
  "register_packed stale n c = do {
     q \<leftarrow> mqtt_mq_register stale (mq c) n;
     Some (Inr (length (mq_msgs (mq c))), c\<lparr>mq := q\<rparr>)
   }"

definition try_pack ::
  "builder \<Rightarrow> queued_message \<Rightarrow> mqtt_client \<Rightarrow> ((mqtt_errors + nat) \<times> mqtt_client) option"
where
  "try_pack pack stale c =
     (if client_error c \<noteq> MQTT_OK then Some (Inl (client_error c), c)
      else do {
        (tmp, c) \<leftarrow> pack_into pack c;
        (case tmp of
           Inl e \<Rightarrow> Some (Inl e, c\<lparr>client_error := e\<rparr>)
         | Inr n \<Rightarrow>
           if n \<noteq> 0 then register_packed stale n c
           else do {
             q \<leftarrow> mqtt_mq_clean (mq c);
             (tmp, c) \<leftarrow> pack_into pack (c\<lparr>mq := q\<rparr>);
             (case tmp of
                Inl e \<Rightarrow> Some (Inl e, c\<lparr>client_error := e\<rparr>)
              | Inr n \<Rightarrow>
                if n \<noteq> 0 then register_packed stale n c
                else Some (Inl MQTT_ERROR_SEND_BUFFER_IS_FULL,
                           c\<lparr>client_error := MQTT_ERROR_SEND_BUFFER_IS_FULL\<rparr>))
           })
      })"

definition set_msg :: "nat \<Rightarrow> (queued_message \<Rightarrow> queued_message) \<Rightarrow> mqtt_client \<Rightarrow> mqtt_client" where
  "set_msg i f c = c\<lparr>mq := (mq c)\<lparr>mq_msgs := (mq_msgs (mq c))[i := f (mq_msgs (mq c) ! i)]\<rparr>\<rparr>"

text \<open>Every request packs, and then saves the type of the message and its identifier, if it has one.\<close>

definition request ::
  "builder \<Rightarrow> control_type \<Rightarrow> u16 option \<Rightarrow> queued_message \<Rightarrow> mqtt_client \<Rightarrow> (mqtt_errors \<times> mqtt_client) option"
where
  "request pack ct pid stale c = do {
     (tmp, c) \<leftarrow> try_pack pack stale c;
     Some (case tmp of
        Inl e \<Rightarrow> (e, c)
      | Inr i \<Rightarrow> (MQTT_OK, set_msg i (\<lambda>m. m\<lparr>msg_type := ct,
            packet_id := (case pid of None \<Rightarrow> packet_id m | Some p \<Rightarrow> p)\<rparr>) c))
   }"

definition mqtt_connect ::
  "bytes option \<Rightarrow> bytes option \<Rightarrow> bytes option \<Rightarrow> nat \<Rightarrow> bytes option \<Rightarrow> bytes option \<Rightarrow> u8 \<Rightarrow> u16
     \<Rightarrow> queued_message \<Rightarrow> mqtt_client \<Rightarrow> (mqtt_errors \<times> mqtt_client) option"
where
  "mqtt_connect cid topic message sz user pass flags ka stale c =
     (let c = c\<lparr>keep_alive := ka\<rparr>;
          c = (if client_error c = MQTT_ERROR_CONNECT_NOT_CALLED then c\<lparr>client_error := MQTT_OK\<rparr> else c)
      in request (\<lambda>p n. mqtt_pack_connection_request p n cid topic message sz user pass flags ka)
           CONNECT None stale c)"

definition with_pid ::
  "(u16 \<Rightarrow> mqtt_client \<Rightarrow> (mqtt_errors \<times> mqtt_client) option) \<Rightarrow> mqtt_client \<Rightarrow> (mqtt_errors \<times> mqtt_client) option"
where
  "with_pid act c = do {
     pid \<leftarrow> mqtt_next_pid (mq_msgs (mq c)) (pid_lfsr c);
     act pid (c\<lparr>pid_lfsr := pid\<rparr>)
   }"

definition mqtt_publish ::
  "bytes option \<Rightarrow> bytes \<Rightarrow> nat \<Rightarrow> u8 \<Rightarrow> queued_message \<Rightarrow> mqtt_client \<Rightarrow> (mqtt_errors \<times> mqtt_client) option"
where
  "mqtt_publish topic message sz flags stale = with_pid (\<lambda>pid.
     request (\<lambda>p n. mqtt_pack_publish_request p n topic pid message sz flags) PUBLISH (Some pid) stale)"

text \<open>\<open>__mqtt_puback\<close>, \<open>__mqtt_pubrec\<close>, \<open>__mqtt_pubrel\<close> and \<open>__mqtt_pubcomp\<close> differ in the type.\<close>

definition mqtt_pubxxx ::
  "control_type \<Rightarrow> u16 \<Rightarrow> queued_message \<Rightarrow> mqtt_client \<Rightarrow> (mqtt_errors \<times> mqtt_client) option"
where
  "mqtt_pubxxx ct pid = request (\<lambda>p n. mqtt_pack_pubxxx_request p n ct pid) ct (Some pid)"

definition mqtt_subscribe ::
  "bytes option \<Rightarrow> u8 \<Rightarrow> queued_message \<Rightarrow> mqtt_client \<Rightarrow> (mqtt_errors \<times> mqtt_client) option"
where
  "mqtt_subscribe topic qos stale = with_pid (\<lambda>pid.
     request (\<lambda>p n. mqtt_pack_subscribe_request p n pid
         (case topic of None \<Rightarrow> [] | Some t \<Rightarrow> [(t, qos)])) SUBSCRIBE (Some pid) stale)"

definition mqtt_unsubscribe ::
  "bytes option \<Rightarrow> queued_message \<Rightarrow> mqtt_client \<Rightarrow> (mqtt_errors \<times> mqtt_client) option"
where
  "mqtt_unsubscribe topic stale = with_pid (\<lambda>pid.
     request (\<lambda>p n. mqtt_pack_unsubscribe_request p n pid
         (case topic of None \<Rightarrow> [] | Some t \<Rightarrow> [t])) UNSUBSCRIBE (Some pid) stale)"

definition mqtt_ping :: "queued_message \<Rightarrow> mqtt_client \<Rightarrow> (mqtt_errors \<times> mqtt_client) option" where
  "mqtt_ping = request mqtt_pack_ping_request PINGREQ None"

definition mqtt_disconnect :: "queued_message \<Rightarrow> mqtt_client \<Rightarrow> (mqtt_errors \<times> mqtt_client) option" where
  "mqtt_disconnect = request mqtt_pack_disconnect DISCONNECT None"

section \<open>Sending\<close>

text \<open>A step of the loop ends it with a result, or goes on.\<close>

type_synonym 's outcome = "(mqtt_errors option \<times> 's) option"

text \<open>The quality of service of a packet, from its first byte.\<close>

definition inspected_qos :: "mqtt_client \<Rightarrow> queued_message \<Rightarrow> u8 option" where
  "inspected_qos c m = map_option (\<lambda>b. drop_bit 1 b AND 3) (rd8 (mq_mem (mq c)) (msg_start m))"

text \<open>Whether the message is due: a new one is, and one whose answer is overdue.\<close>

definition wants_send :: "net \<Rightarrow> queued_message \<Rightarrow> mqtt_client \<Rightarrow> world \<Rightarrow> bool \<times> mqtt_client \<times> world" where
  "wants_send net m c w = (case msg_state m of
     UNSENT \<Rightarrow> (True, c, w)
   | AWAITING_ACK \<Rightarrow>
     let (now, w) = pal_time net w
     in if time_sent m + response_timeout c < now
        then (True, c\<lparr>number_of_timeouts := number_of_timeouts c + 1\<rparr>, w) else (False, c, w)
   | COMPLETE \<Rightarrow> (False, c, w))"

text \<open>
  The state after sending. A publication of quality 1 is to be marked as a duplicate for the next
  time; the flag goes into the second byte of the packet.
\<close>

definition after_send :: "nat \<Rightarrow> queued_message \<Rightarrow> mqtt_client \<Rightarrow> mqtt_client outcome" where
  "after_send i m c =
     (let ct = msg_type m; state = (\<lambda>s. set_msg i (\<lambda>m. m\<lparr>msg_state := s\<rparr>) c) in
      if ct = PUBACK \<or> ct = PUBCOMP \<or> ct = DISCONNECT then Some (None, state COMPLETE)
      else if ct = PUBLISH then do {
        qos \<leftarrow> inspected_qos c m;
        if qos = 0 then Some (None, state COMPLETE)
        else if qos = 1 then do {
          let c = state AWAITING_ACK;
          b \<leftarrow> rd8 (mq_mem (mq c)) (msg_start m + 1);
          mem \<leftarrow> wr8 (mq_mem (mq c)) (msg_start m + 1) (b OR 8);
          Some (None, c\<lparr>mq := (mq c)\<lparr>mq_mem := mem\<rparr>\<rparr>)
        }
        else Some (None, state AWAITING_ACK)
      }
      else if ct = CONNECT \<or> ct = PUBREC \<or> ct = PUBREL \<or> ct = SUBSCRIBE \<or> ct = UNSUBSCRIBE \<or> ct = PINGREQ
      then Some (None, state AWAITING_ACK)
      else Some (Some MQTT_ERROR_MALFORMED_REQUEST, c\<lparr>client_error := MQTT_ERROR_MALFORMED_REQUEST\<rparr>))"

text \<open>
  A publication of quality 2 that is not complete keeps the later ones of quality 2 back:
  \<open>inflight\<close> says that one was seen.
\<close>

definition hold_back :: "mqtt_client \<Rightarrow> queued_message \<Rightarrow> bool \<Rightarrow> bool \<Rightarrow> (bool \<times> bool) option" where
  "hold_back c m inflight resend =
     (if msg_type m = PUBLISH \<and> (msg_state m = UNSENT \<or> msg_state m = AWAITING_ACK) then do {
        qos \<leftarrow> inspected_qos c m;
        if qos = 2 then Some (if inflight then False else resend, True) else Some (resend, inflight)
      }
      else Some (resend, inflight))"

definition send_step :: "net \<Rightarrow> nat \<Rightarrow> mqtt_client \<times> bool \<times> world \<Rightarrow> (mqtt_client \<times> bool \<times> world) outcome" where
  "send_step net i = (\<lambda>(c, inflight, w). do {
     m \<leftarrow> rd8 (mq_msgs (mq c)) i;
     let (resend, c, w) = wants_send net m c w;
     (resend, inflight) \<leftarrow> hold_back c m inflight resend;
     if \<not> resend then Some (None, c, inflight, w)
     else do {
       data \<leftarrow> rd_bytes (mq_mem (mq c)) (msg_start m) (msg_size m);
       (case mqtt_pal_sendall net data 0 w of
          (Inl e, w) \<Rightarrow> Some (Some e, c\<lparr>client_error := e\<rparr>, inflight, w)
        | (Inr _, w) \<Rightarrow>
          let (now, w) = pal_time net w;
              c = set_msg i (\<lambda>m. m\<lparr>time_sent := now\<rparr>) (c\<lparr>time_of_last_send := now\<rparr>)
          in map_option (\<lambda>(r, c). (r, c, inflight, w)) (after_send i m c))
     }
   })"

primrec send_loop :: "net \<Rightarrow> nat list \<Rightarrow> mqtt_client \<times> bool \<times> world \<Rightarrow> (mqtt_client \<times> bool \<times> world) outcome" where
  "send_loop net [] s = Some (None, s)"
| "send_loop net (i # is) s = do {
     (r, s) \<leftarrow> send_step net i s;
     (case r of Some e \<Rightarrow> Some (Some e, s) | None \<Rightarrow> send_loop net is s)
   }"

text \<open>A full send buffer is the one error that does not keep the client from sending.\<close>

definition mqtt_send :: "net \<Rightarrow> mqtt_client \<Rightarrow> world \<Rightarrow> (mqtt_errors \<times> mqtt_client \<times> world) option" where
  "mqtt_send net c w =
     (if client_error c \<noteq> MQTT_OK \<and> client_error c \<noteq> MQTT_ERROR_SEND_BUFFER_IS_FULL
      then Some (client_error c, c, w)
      else do {
        (r, c, _, w) \<leftarrow> send_loop net [0..<mqtt_mq_length (mq c)] (c, False, w);
        (case r of Some e \<Rightarrow> Some (e, c, w)
         | None \<Rightarrow>
           let (now, w) = pal_time net w in
           if time_of_last_send c + int (unat (keep_alive c) * 3 div 4) < now then do {
             (rv, c) \<leftarrow> mqtt_ping (stale_at net (clock_reads w)) c;
             Some (if rv \<noteq> MQTT_OK then (rv, c\<lparr>client_error := rv\<rparr>, w) else (MQTT_OK, c, w))
           }
           else Some (MQTT_OK, c, w))
      })"

section \<open>Receiving\<close>

text \<open>An answer releases the message it belongs to and goes into the typical response time.\<close>

definition release :: "net \<Rightarrow> control_type \<Rightarrow> u16 option \<Rightarrow> (rat \<Rightarrow> int \<Rightarrow> rat) \<Rightarrow> mqtt_client \<Rightarrow> world
    \<Rightarrow> mqtt_errors option \<times> mqtt_client \<times> world" where
  "release net ct pid average c w = (case mqtt_mq_find (mq c) ct pid of
     None \<Rightarrow> (Some MQTT_ERROR_ACK_OF_UNKNOWN, c\<lparr>client_error := MQTT_ERROR_ACK_OF_UNKNOWN\<rparr>, w)
   | Some i \<Rightarrow>
     let c = set_msg i (\<lambda>m. m\<lparr>msg_state := COMPLETE\<rparr>) c;
         (now, w) = pal_time net w;
         t = now - time_sent (mq_msgs (mq c) ! i)
     in (None, c\<lparr>typical_response_time := average (typical_response_time c) t\<rparr>, w))"

definition averaged :: "rat \<Rightarrow> int \<Rightarrow> rat" where
  "averaged old t = 7 / 8 * old + 1 / 8 * of_int t"

text \<open>An answer is staged: an error of the request is the result.\<close>

definition staged :: "(mqtt_errors \<times> mqtt_client) option \<Rightarrow> world \<Rightarrow> (mqtt_client \<times> world) outcome" where
  "staged r w = map_option (\<lambda>(rv, c).
     if rv \<noteq> MQTT_OK then (Some rv, c\<lparr>client_error := rv\<rparr>, w) else (None, c, w)) r"

definition to_callback :: "mqtt_response_publish \<Rightarrow> mqtt_client \<Rightarrow> world \<Rightarrow> world" where
  "to_callback p c w = w\<lparr>delivered := delivered w @
     [(p, rd_bytes (recv_mem c) (topic_name p) (unat (topic_name_size p)),
       rd_bytes (recv_mem c) (application_message p) (application_message_size p))]\<rparr>"

definition handle_publish ::
  "net \<Rightarrow> mqtt_response_publish \<Rightarrow> mqtt_client \<Rightarrow> world \<Rightarrow> (mqtt_client \<times> world) outcome"
where
  "handle_publish net p c w =
     (let stale = stale_at net (recv_calls w) in
      if qos_level p = 2 \<and> mqtt_mq_find (mq c) PUBREC (Some (publish_id p)) \<noteq> None then Some (None, c, w)
      else do {
        (r, c, w) \<leftarrow>
          (if qos_level p = 1 then staged (mqtt_pubxxx PUBACK (publish_id p) stale c) w
           else if qos_level p = 2 then staged (mqtt_pubxxx PUBREC (publish_id p) stale c) w
           else Some (None, c, w));
        Some (case r of Some e \<Rightarrow> (Some e, c, w) | None \<Rightarrow> (None, c, to_callback p c w))
      })"

text \<open>A released message is followed by the next packet of its exchange.\<close>

definition release_then ::
  "net \<Rightarrow> control_type \<Rightarrow> control_type \<Rightarrow> u16 \<Rightarrow> mqtt_client \<Rightarrow> world \<Rightarrow> (mqtt_client \<times> world) outcome"
where
  "release_then net ct answer pid c w = (case release net ct (Some pid) averaged c w of
     (Some e, c, w) \<Rightarrow> Some (Some e, c, w)
   | (None, c, w) \<Rightarrow> staged (mqtt_pubxxx answer pid (stale_at net (recv_calls w)) c) w)"

definition fail_with :: "mqtt_errors \<Rightarrow> mqtt_client \<Rightarrow> world \<Rightarrow> mqtt_errors option \<times> mqtt_client \<times> world" where
  "fail_with e c w = (Some e, c\<lparr>client_error := e\<rparr>, w)"

text \<open>The return codes of a subscription are read where the packet has them.\<close>

definition handle_response ::
  "net \<Rightarrow> mqtt_response \<Rightarrow> mqtt_client \<Rightarrow> world \<Rightarrow> (mqtt_client \<times> world) outcome"
where
  "handle_response net resp c w = (case snd resp of
     Connack _ code \<Rightarrow>
       Some (case release net CONNECT None (\<lambda>_ t. of_int t) c w of
          (Some e, c, w) \<Rightarrow> (Some e, c, w)
        | (None, c, w) \<Rightarrow>
          if code \<noteq> 0 then fail_with MQTT_ERROR_CONNECTION_REFUSED c w else (None, c, w))
   | Publish p \<Rightarrow> handle_publish net p c w
   | Puback pid \<Rightarrow> Some (release net PUBLISH (Some pid) averaged c w)
   | Pubrec pid \<Rightarrow>
       if mqtt_mq_find (mq c) PUBREL (Some pid) \<noteq> None then Some (None, c, w)
       else release_then net PUBLISH PUBREL pid c w
   | Pubrel pid \<Rightarrow> release_then net PUBREC PUBCOMP pid c w
   | Pubcomp pid \<Rightarrow> Some (release net PUBREL (Some pid) averaged c w)
   | Suback pid codes _ \<Rightarrow>
       (case release net SUBSCRIBE (Some pid) averaged c w of
          (Some e, c, w) \<Rightarrow> Some (Some e, c, w)
        | (None, c, w) \<Rightarrow> do {
            code \<leftarrow> rd8 (recv_mem c) codes;
            Some (if code = 0x80 then fail_with MQTT_ERROR_SUBSCRIBE_FAILED c w else (None, c, w))
          })
   | Unsuback pid \<Rightarrow> Some (release net UNSUBSCRIBE (Some pid) averaged c w)
   | Pingresp \<Rightarrow> Some (release net PINGREQ None averaged c w)
   | _ \<Rightarrow> Some (fail_with MQTT_ERROR_MALFORMED_RESPONSE c w))"

text \<open>The parsed packet is moved out of the buffer; what a parser consumed must be in it.\<close>

definition consume :: "nat \<Rightarrow> mqtt_client \<Rightarrow> mqtt_client option" where
  "consume k c =
     (if k \<le> recv_curr c then do {
        vs \<leftarrow> rd_bytes (recv_mem c) k (recv_curr c - k);
        mem \<leftarrow> wr_bytes (recv_mem c) 0 vs;
        Some (c\<lparr>recv_mem := mem, recv_curr := recv_curr c - k, recv_curr_sz := recv_curr_sz c + k\<rparr>)
      }
      else None)"

text \<open>One turn of \<open>__mqtt_recv\<close>: receive, parse, handle, consume.\<close>

definition recv_step :: "net \<Rightarrow> mqtt_client \<times> world \<Rightarrow> (mqtt_client \<times> world) outcome" where
  "recv_step net = (\<lambda>(c, w). do {
     (r, vs, w) \<leftarrow> mqtt_pal_recvall net (recv_curr_sz c) [] w;
     mem \<leftarrow> wr_bytes (recv_mem c) (recv_curr c) vs;
     let c = c\<lparr>recv_mem := mem\<rparr>;
     (case r of Some e \<Rightarrow> Some (fail_with e c w)
      | None \<Rightarrow> do {
          let c = c\<lparr>recv_curr := recv_curr c + length vs, recv_curr_sz := recv_curr_sz c - length vs\<rparr>;
          parse \<leftarrow> mqtt_unpack_response (Some (recv_mem c)) (recv_curr c);
          (case parse of
             Fail e \<Rightarrow> Some (fail_with e c w)
           | More \<Rightarrow>
             Some (if recv_curr_sz c = 0 then fail_with MQTT_ERROR_RECV_BUFFER_TOO_SMALL c w
                   else (Some MQTT_OK, c, w))
           | Done k resp \<Rightarrow> do {
               (r, c, w) \<leftarrow> handle_response net resp c w;
               (case r of Some e \<Rightarrow> Some (Some e, c, w)
                | None \<Rightarrow> do { c \<leftarrow> consume k c; Some (None, c, w) })
             })
        })
   })"

partial_function (option) mqtt_recv :: "net \<Rightarrow> mqtt_client \<Rightarrow> world \<Rightarrow> (mqtt_errors \<times> mqtt_client \<times> world) option"
where
  "mqtt_recv net c w = do {
     (r, c, w) \<leftarrow> recv_step net (c, w);
     (case r of Some e \<Rightarrow> Some (e, c, w) | None \<Rightarrow> mqtt_recv net c w)
   }"

definition mqtt_sync ::
  "(mqtt_client \<Rightarrow> mqtt_client) option \<Rightarrow> (mqtt_client \<Rightarrow> mqtt_errors \<times> mqtt_client) option \<Rightarrow> net
     \<Rightarrow> mqtt_client \<Rightarrow> world \<Rightarrow> (mqtt_errors \<times> mqtt_client \<times> world) option"
where
  "mqtt_sync reconnect inspector net c w =
     (let c = (case reconnect of Some f \<Rightarrow> if client_error c \<noteq> MQTT_OK then f c else c | None \<Rightarrow> c);
          (err, c) = (case inspector of Some f \<Rightarrow> f c | None \<Rightarrow> (MQTT_OK, c))
      in if err \<noteq> MQTT_OK then Some (err, c, w)
         else do {
           (err, c, w) \<leftarrow> mqtt_recv net c w;
           if err \<noteq> MQTT_OK then Some (err, c, w) else mqtt_send net c w
         })"

end
