(* ===== verification/MqttClientFacts.thy ===== *)
theory MqttClientFacts
  imports MqttClient
begin

text \<open>
  Well-formed clients, and what a request of \<open>MqttClient\<close> does: it keeps the client well formed and
  queues its packet, if need be after the queue was cleaned, whatever the builder of the packet is.
\<close>

section \<open>Well-formed clients\<close>

definition request_types :: "control_type set" where
  "request_types = {CONNECT, PUBLISH, PUBACK, PUBREC, PUBREL, PUBCOMP, SUBSCRIBE, UNSUBSCRIBE, PINGREQ, DISCONNECT}"

definition msg_ok :: "queued_message \<Rightarrow> bool" where
  "msg_ok m \<longleftrightarrow> msg_type m \<in> request_types \<and> 2 \<le> msg_size m"

definition client_ok :: "mqtt_client \<Rightarrow> bool" where
  "client_ok c \<longleftrightarrow> mq_ok (mq c) \<and> (\<forall>m \<in> set (mq_msgs (mq c)). msg_ok m) \<and>
     recv_curr c \<le> length (recv_mem c) \<and> recv_curr_sz c = length (recv_mem c) - recv_curr c"

lemma client_ok_mq [simp]: "client_ok c \<Longrightarrow> mq_ok (mq c)"
  by (simp add: client_ok_def)

lemma client_ok_cong:
  "client_ok c \<Longrightarrow> mq c' = mq c \<Longrightarrow> recv_mem c' = recv_mem c \<Longrightarrow> recv_curr c' = recv_curr c \<Longrightarrow>
     recv_curr_sz c' = recv_curr_sz c \<Longrightarrow> client_ok c'"
  by (simp add: client_ok_def)

text \<open>What is kept of a message matters, not its position: a test of the messages is one of the view.\<close>

lemma msg_ok_view: "msg_ok (fst (view_msg mem m)) \<longleftrightarrow> msg_ok m"
  by (simp add: msg_ok_def view_msg_def)

lemma msgs_ok_view: "(\<forall>m \<in> set (mq_msgs q). msg_ok m) \<longleftrightarrow> (\<forall>v \<in> set (mq_view q). msg_ok (fst v))"
  by (simp add: mq_view_def msg_ok_view)

lemma set_msg_same [simp]:
  "recv_mem (set_msg i f c) = recv_mem c" "recv_curr (set_msg i f c) = recv_curr c"
  "recv_curr_sz (set_msg i f c) = recv_curr_sz c" "client_error (set_msg i f c) = client_error c"
  "mq_mem (mq (set_msg i f c)) = mq_mem (mq c)" "mq_curr (mq (set_msg i f c)) = mq_curr (mq c)"
  "length (mq_msgs (mq (set_msg i f c))) = length (mq_msgs (mq c))"
  "mq_msgs (mq (set_msg i f c)) = (mq_msgs (mq c))[i := f (mq_msgs (mq c) ! i)]"
  by (simp_all add: set_msg_def)

text \<open>A message is changed in place, where it stays.\<close>

lemma laid_update:
  "laid_out s ms e \<Longrightarrow> i < length ms \<Longrightarrow> msg_start m = msg_start (ms ! i) \<Longrightarrow> msg_size m = msg_size (ms ! i) \<Longrightarrow>
     laid_out s (ms[i := m]) e"
  by (induction ms arbitrary: s i) (auto split: nat.splits)

lemma set_msg_ok:
  assumes "mq_ok (mq c)" "i < length (mq_msgs (mq c))"
    and "\<And>m. msg_start (f m) = msg_start m" "\<And>m. msg_size (f m) = msg_size m"
    and "\<And>m. (f m)\<lparr>msg_start := 0\<rparr> = f (m\<lparr>msg_start := 0\<rparr>)"
  shows "mq_ok (mq (set_msg i f c))"
    and "mq_view (mq (set_msg i f c)) = (mq_view (mq c))[i := (\<lambda>(m, vs). (f m, vs)) (mq_view (mq c) ! i)]"
proof -
  show "mq_ok (mq (set_msg i f c))"
    using assms laid_update [of 0 "mq_msgs (mq c)" "mq_curr (mq c)" i "f (mq_msgs (mq c) ! i)"]
    by (simp add: mq_ok_def mqtt_mq_currsz_def mq_tail_def set_msg_def)
  show "mq_view (mq (set_msg i f c)) = (mq_view (mq c))[i := (\<lambda>(m, vs). (f m, vs)) (mq_view (mq c) ! i)]"
    using assms(2-) by (simp add: mq_view_def map_update view_msg_def)
qed

section \<open>Requests\<close>

text \<open>The queue \<open>q\<close> is the abstract queue \<open>view\<close> with a packet behind it that is yet to be sent.\<close>

definition queues ::
  "message_queue \<Rightarrow> (queued_message \<times> bytes) list \<Rightarrow> control_type \<Rightarrow> u16 option \<Rightarrow> bytes \<Rightarrow> bool"
where
  "queues q view ct pid pkt \<longleftrightarrow> (\<exists>m. mq_view q = view @ [(m, pkt)] \<and> msg_type m = ct \<and>
     msg_state m = UNSENT \<and> msg_size m = length pkt \<and> (\<forall>p \<in> set_option pid. packet_id m = p))"

lemma client_ok_view:
  assumes "mq_ok q" "\<forall>v \<in> set (mq_view q). msg_ok (fst v)" "client_ok c"
  shows "client_ok (c\<lparr>mq := q, client_error := e\<rparr>)"
  using assms msgs_ok_view [of q] by (simp add: client_ok_def)

text \<open>
  The result of a request: the packet is queued at once, or after cleaning, or the buffer is full even
  then; a client in an error state stays as it is.
\<close>

definition requested ::
  "(queued_message \<times> bytes) list \<Rightarrow> control_type \<Rightarrow> u16 option \<Rightarrow> bytes \<Rightarrow> mqtt_errors \<Rightarrow> mqtt_errors
     \<Rightarrow> mqtt_client \<Rightarrow> bool"
where
  "requested view ct pid pkt old rv c \<longleftrightarrow> client_error c = rv \<and>
     (if old = MQTT_OK
      then rv = MQTT_OK \<and> (queues (mq c) view ct pid pkt \<or> queues (mq c) (dropWhile mq_done view) ct pid pkt) \<or>
        rv = MQTT_ERROR_SEND_BUFFER_IS_FULL \<and> mq_view (mq c) = dropWhile mq_done view
      else rv = old \<and> mq_view (mq c) = view)"

lemma client_error_of: "c' = c\<lparr>mq := q, client_error := rv\<rparr> \<Longrightarrow> client_error c' = rv"
  by simp

lemma request_refused: "client_error c \<noteq> MQTT_OK \<Longrightarrow> request pack ct pid stale c = Some (client_error c, c)"
  by (simp add: request_def try_pack_def)

text \<open>
  What a request relies on: its builder writes the packet \<open>pkt\<close> when there is room for \<open>need\<close>
  bytes, and otherwise asks for more.
\<close>

locale packet_builder =
  fixes pack :: builder and need :: nat and pkt :: bytes
  assumes built: "b \<le> length m \<Longrightarrow> builds (pack (Some m) b) m b need pkt"
    and header: "2 \<le> length pkt"
    and fits: "length pkt \<le> need"
begin

lemma pack_into_ok:
  assumes "mq_ok (mq c)"
  shows "if need \<le> mq_curr_sz (mq c)
    then \<exists>buf. length buf = length (mq_free (mq c)) \<and> take (length pkt) buf = pkt \<and>
      pack_into pack c = Some (Inr (length pkt), c\<lparr>mq := mq_store (mq c) buf\<rparr>)
    else \<exists>buf. length buf = length (mq_free (mq c)) \<and>
      pack_into pack c = Some (Inr 0, c\<lparr>mq := mq_store (mq c) buf\<rparr>)"
proof (cases "need \<le> mq_curr_sz (mq c)")
  case True
  then show ?thesis
    using built [OF curr_sz_le_free [OF assms]] curr_sz_le_free [OF assms] fits
    by (simp add: pack_into_def builds_def) (rule exI [of _ "pkt @ drop (length pkt) (mq_free (mq c))"], simp)
next
  case False
  then obtain m' where "length m' = length (mq_free (mq c))"
    "pack (Some (mq_free (mq c))) (mq_curr_sz (mq c)) = Some (Inr 0, Some m')"
    using built [OF curr_sz_le_free [OF assms]] by (auto simp: builds_def)
  with False show ?thesis by (simp add: pack_into_def) (rule exI [of _ m'], simp)
qed

lemma register_ok:
  assumes "mq_ok (mq c)" "need \<le> mq_curr_sz (mq c)" "length buf = length (mq_free (mq c))"
    and "take (length pkt) buf = pkt"
  shows "\<exists>q. register_packed stale (length pkt) (c\<lparr>mq := mq_store (mq c) buf\<rparr>) =
      Some (Inr (length (mq_msgs (mq c))), c\<lparr>mq := q\<rparr>) \<and> mq_ok q \<and>
    mq_view q = mq_view (mq c) @ [(stale\<lparr>msg_start := 0, msg_size := length pkt, msg_state := UNSENT\<rparr>, pkt)]"
proof -
  have "length pkt \<le> mq_curr_sz (mq c)" "0 < length pkt" using assms(2) fits header by linarith+
  then obtain q where q: "mqtt_mq_register stale (mq_store (mq c) buf) (length pkt) = Some q" "mq_ok q"
    "mq_view q = mq_view (mq c) @ [(stale\<lparr>msg_start := 0, msg_size := length pkt, msg_state := UNSENT\<rparr>, take (length pkt) buf)]"
    using mq_register_ok [OF assms(1,3)] by blast
  then show ?thesis
    using assms(4) by (intro exI [of _ q]) (simp add: register_packed_def, simp add: mq_store_def)
qed

text \<open>The request is queued at once, or after cleaning, or the buffer is full even then.\<close>

lemma request_ok:
  assumes "client_ok c" "client_error c = MQTT_OK" "ct \<in> request_types"
  shows "\<exists>rv c'. request pack ct pid stale c = Some (rv, c') \<and> client_ok c' \<and>
    c' = c\<lparr>mq := mq c', client_error := rv\<rparr> \<and>
    (if need \<le> mq_curr_sz (mq c)
     then rv = MQTT_OK \<and> queues (mq c') (mq_view (mq c)) ct pid pkt
     else (rv = MQTT_OK \<and> queues (mq c') (dropWhile mq_done (mq_view (mq c))) ct pid pkt \<or>
           rv = MQTT_ERROR_SEND_BUFFER_IS_FULL \<and> mq_view (mq c') = dropWhile mq_done (mq_view (mq c)) \<and>
             mq_curr_sz (mq c') < need))"

proof -
  let ?clean = "dropWhile mq_done (mq_view (mq c))"
  have mq: "mq_ok (mq c)" using assms(1) by simp
  have good: "\<forall>v \<in> set (mq_view (mq c)). msg_ok (fst v)"
    using assms(1) msgs_ok_view [of "mq c"] by (simp add: client_ok_def)
  have good_clean: "\<forall>v \<in> set ?clean. msg_ok (fst v)" using good by (auto dest: set_dropWhileD)
  let ?save = "\<lambda>m. m\<lparr>msg_type := ct, packet_id := (case pid of None \<Rightarrow> packet_id m | Some p \<Rightarrow> p)\<rparr>"
  have saved: "queues (mq (set_msg (length view) ?save (c\<lparr>mq := q\<rparr>))) view ct pid pkt \<and>
      client_ok (set_msg (length view) ?save (c\<lparr>mq := q\<rparr>))"
    if q: "mq_ok q" "mq_view q = view @ [(stale\<lparr>msg_start := 0, msg_size := length pkt, msg_state := UNSENT\<rparr>, pkt)]"
      and view: "\<forall>v \<in> set view. msg_ok (fst v)" for q view
  proof -
    let ?c = "set_msg (length view) ?save (c\<lparr>mq := q\<rparr>)"
    have len: "length view < length (mq_msgs q)" using arg_cong [OF q(2), of length] by (simp add: mq_view_def)
    have save: "(?save m)\<lparr>msg_start := 0\<rparr> = ?save (m\<lparr>msg_start := 0\<rparr>)" for m by (cases pid) simp_all
    have "mq_ok (mq (c\<lparr>mq := q\<rparr>))" "length view < length (mq_msgs (mq (c\<lparr>mq := q\<rparr>)))" using q(1) len by simp_all
    note ok = set_msg_ok [where f = ?save, OF this _ _ save, simplified]
    have v: "mq_view (mq ?c) = view @ [(?save (stale\<lparr>msg_start := 0, msg_size := length pkt, msg_state := UNSENT\<rparr>), pkt)]"
      unfolding ok(2) using q(2) by simp
    then have "\<forall>v \<in> set (mq_view (mq ?c)). msg_ok (fst v)"
      using view header assms(3) by (auto simp: msg_ok_def)
    then have "client_ok (c\<lparr>mq := mq ?c, client_error := client_error c\<rparr>)"
      using ok(1) q(1) len assms(1) by (intro client_ok_view) simp_all
    moreover have "c\<lparr>mq := mq ?c, client_error := client_error c\<rparr> = ?c" by (simp add: set_msg_def)
    ultimately show ?thesis using v by (auto simp: queues_def)
  qed
  have result: "set_msg i f (c\<lparr>mq := q\<rparr>) = c\<lparr>mq := mq (set_msg i f (c\<lparr>mq := q\<rparr>)), client_error := MQTT_OK\<rparr>" for i f q
    using assms(2) by (cases c) (simp add: set_msg_def)
  show ?thesis
  proof (cases "need \<le> mq_curr_sz (mq c)")
    case True
    then obtain buf where buf: "length buf = length (mq_free (mq c))" "take (length pkt) buf = pkt"
      "pack_into pack c = Some (Inr (length pkt), c\<lparr>mq := mq_store (mq c) buf\<rparr>)"
      using pack_into_ok [OF mq] by auto
    obtain q where q: "register_packed stale (length pkt) (c\<lparr>mq := mq_store (mq c) buf\<rparr>) =
        Some (Inr (length (mq_msgs (mq c))), c\<lparr>mq := q\<rparr>)" "mq_ok q"
      "mq_view q = mq_view (mq c) @ [(stale\<lparr>msg_start := 0, msg_size := length pkt, msg_state := UNSENT\<rparr>, pkt)]"
      using register_ok [OF mq True buf(1,2)] by blast
    have n: "length pkt \<noteq> 0" using header by linarith
    have len: "length (mq_msgs (mq c)) = length (mq_view (mq c))" by (simp add: mq_view_def)
    let ?c' = "set_msg (length (mq_view (mq c))) ?save (c\<lparr>mq := q\<rparr>)"
    have "request pack ct pid stale c = Some (MQTT_OK, ?c')"
      using assms(2) buf(3) q(1) n by (simp add: request_def try_pack_def len)
    moreover have "?c' = c\<lparr>mq := mq ?c', client_error := MQTT_OK\<rparr>" by (rule result)
    ultimately show ?thesis using saved [OF q(2,3) good] unfolding if_P [OF True] by blast
  next
    case False
    then obtain buf where buf: "length buf = length (mq_free (mq c))"
      "pack_into pack c = Some (Inr 0, c\<lparr>mq := mq_store (mq c) buf\<rparr>)"
      using pack_into_ok [OF mq] by auto
    have store: "mq_ok (mq_store (mq c) buf)" "mq_view (mq_store (mq c) buf) = mq_view (mq c)"
      using mq_store_ok [OF mq buf(1)] by simp_all
    obtain q where q: "mqtt_mq_clean (mq_store (mq c) buf) = Some q" "mq_ok q" "mq_view q = ?clean"
      using mq_clean_ok [OF store(1)] store(2) by auto
    let ?c = "c\<lparr>mq := q\<rparr>"
    have tp: "try_pack pack stale c = do {
        (tmp, c) \<leftarrow> pack_into pack ?c;
        (case tmp of
           Inl e \<Rightarrow> Some (Inl e, c\<lparr>client_error := e\<rparr>)
         | Inr n \<Rightarrow> if n \<noteq> 0 then register_packed stale n c
           else Some (Inl MQTT_ERROR_SEND_BUFFER_IS_FULL, c\<lparr>client_error := MQTT_ERROR_SEND_BUFFER_IS_FULL\<rparr>)) }"
      using assms(2) buf(2) q(1) by (simp add: try_pack_def)
    show ?thesis
    proof (cases "need \<le> mq_curr_sz (mq ?c)")
      case True
      then obtain buf where b2: "length buf = length (mq_free (mq ?c))" "take (length pkt) buf = pkt"
        "pack_into pack ?c = Some (Inr (length pkt), ?c\<lparr>mq := mq_store (mq ?c) buf\<rparr>)"
        using pack_into_ok [of ?c] q(2) by auto
      obtain q' where q': "register_packed stale (length pkt) (?c\<lparr>mq := mq_store (mq ?c) buf\<rparr>) =
          Some (Inr (length (mq_msgs (mq ?c))), ?c\<lparr>mq := q'\<rparr>)" "mq_ok q'"
        "mq_view q' = ?clean @ [(stale\<lparr>msg_start := 0, msg_size := length pkt, msg_state := UNSENT\<rparr>, pkt)]"
        using register_ok [of ?c, OF _ True b2(1,2)] q(2,3) by auto
      have n: "length pkt \<noteq> 0" using header by linarith
      have len: "length (mq_msgs (mq ?c)) = length ?clean" using arg_cong [OF q(3), of length] by (simp add: mq_view_def)
      let ?c' = "set_msg (length ?clean) ?save (c\<lparr>mq := q'\<rparr>)"
      have "request pack ct pid stale c = Some (MQTT_OK, ?c')"
        using b2(3) q'(1) n len by (simp add: request_def tp)
      moreover have "?c' = c\<lparr>mq := mq ?c', client_error := MQTT_OK\<rparr>" by (rule result)
      ultimately show ?thesis using saved [OF q'(2,3) good_clean] unfolding if_not_P [OF False] by blast
    next
      case full: False
      then obtain buf where b2: "length buf = length (mq_free (mq ?c))"
        "pack_into pack ?c = Some (Inr 0, ?c\<lparr>mq := mq_store (mq ?c) buf\<rparr>)"
        using pack_into_ok [of ?c] q(2) by auto
      let ?q = "mq_store q buf"
      have store2: "mq_ok ?q" "mq_view ?q = ?clean" using mq_store_ok [OF q(2)] b2(1) q(3) by simp_all
      have "request pack ct pid stale c = Some (MQTT_ERROR_SEND_BUFFER_IS_FULL,
          c\<lparr>mq := ?q, client_error := MQTT_ERROR_SEND_BUFFER_IS_FULL\<rparr>)"
        using b2(2) by (simp add: request_def tp)
      moreover have "client_ok (c\<lparr>mq := ?q, client_error := MQTT_ERROR_SEND_BUFFER_IS_FULL\<rparr>)"
        using store2 good_clean assms(1) by (intro client_ok_view) simp_all
      moreover have "mq_curr_sz ?q < need" using full by (simp add: mq_store_def)
      ultimately show ?thesis using False store2(2) by auto
    qed
  qed
qed

lemma requested_ok:
  assumes "client_ok c" "ct \<in> request_types"
  shows "\<exists>rv c'. request pack ct pid stale c = Some (rv, c') \<and> client_ok c' \<and>
    c' = c\<lparr>mq := mq c', client_error := rv\<rparr> \<and> requested (mq_view (mq c)) ct pid pkt (client_error c) rv c'"
proof (cases "client_error c = MQTT_OK")
  case True
  then obtain rv c' where r: "request pack ct pid stale c = Some (rv, c')" "client_ok c'"
    "c' = c\<lparr>mq := mq c', client_error := rv\<rparr>"
    "if need \<le> mq_curr_sz (mq c)
     then rv = MQTT_OK \<and> queues (mq c') (mq_view (mq c)) ct pid pkt
     else (rv = MQTT_OK \<and> queues (mq c') (dropWhile mq_done (mq_view (mq c))) ct pid pkt \<or>
           rv = MQTT_ERROR_SEND_BUFFER_IS_FULL \<and> mq_view (mq c') = dropWhile mq_done (mq_view (mq c)) \<and>
             mq_curr_sz (mq c') < need)"
    using request_ok [OF assms(1) _ assms(2)] by blast
  have "requested (mq_view (mq c)) ct pid pkt (client_error c) rv c'"
    using r(4) True client_error_of [OF r(3)] by (auto simp: requested_def split: if_splits)
  with r(1-3) show ?thesis by blast
next
  case False
  have "c = c\<lparr>mq := mq c, client_error := client_error c\<rparr>" by simp
  with False assms(1) show ?thesis
    unfolding request_refused [OF False] by (auto simp: requested_def)
qed

end

lemma header_two: "2 \<le> length (packet ct flags body)" "2 \<le> length (header_bytes ct flags n)"
  using length_varint_pos by (simp_all add: packet_def header_bytes_def Suc_le_eq)

interpretation ping: packet_builder mqtt_pack_ping_request "length (packet PINGREQ 0 [])" "packet PINGREQ 0 []"
  by unfold_locales (simp_all add: ping_ok header_two del: length_greater_0_conv)

interpretation disconnect: packet_builder mqtt_pack_disconnect "length (packet DISCONNECT 0 [])" "packet DISCONNECT 0 []"
  by unfold_locales (simp_all add: ping_ok header_two)

lemma pubxxx_builder:
  assumes "ct \<in> {PUBACK, PUBREC, PUBREL, PUBCOMP}"
  shows "packet_builder (\<lambda>p n. mqtt_pack_pubxxx_request p n ct pid) (length (pubxxx_packet ct pid)) (pubxxx_packet ct pid)"
proof
  have "rule_ok ct (if ct = PUBREL then 2 else 0)" using assms rule_ok_types by auto
  then show "builds (mqtt_pack_pubxxx_request (Some m) b ct pid) m b (length (pubxxx_packet ct pid)) (pubxxx_packet ct pid)"
    if "b \<le> length m" for b m using that by (rule pubxxx_ok)
qed (simp_all add: pubxxx_packet_def header_two)

lemma publish_builder:
  assumes "length (publish_packet flags topic pid message) < 65536" "publish_qos flags \<noteq> 3"
  shows "packet_builder (\<lambda>p n. mqtt_pack_publish_request p n (Some topic) pid message (length message) flags)
    (length (publish_packet flags topic pid message)) (publish_packet flags topic pid message)"
  by unfold_locales (use publish_ok [OF assms] in \<open>simp_all add: publish_packet_def Let_def header_two\<close>)

lemma subscribe_builder:
  assumes "length topics < 8" "\<forall>(t, qos) \<in> set topics. length t < 65536"
  shows "packet_builder (\<lambda>p n. mqtt_pack_subscribe_request p n pid topics)
    (length (subscribe_packet pid topics)) (subscribe_packet pid topics)"
  by unfold_locales (use subscribe_ok [OF assms] in \<open>simp_all add: subscribe_packet_def header_two\<close>)

lemma unsubscribe_builder:
  assumes "length topics < 8" "\<forall>t \<in> set topics. length t < 65536"
  shows "packet_builder (\<lambda>p n. mqtt_pack_unsubscribe_request p n pid topics)
    (length (unsubscribe_packet pid topics)) (unsubscribe_packet pid topics)"
  by unfold_locales (use unsubscribe_ok [OF assms] in \<open>simp_all add: unsubscribe_packet_def header_two\<close>)

lemma connect_builder:
  fixes will :: "(bytes \<times> bytes) option"
  assumes "\<forall>t \<in> insert cid (set_option (map_option fst will) \<union> set_option user \<union> set_option pass). length t < 65536"
    and "flags AND 0x18 \<noteq> 0x18" "connect_announced cid will user pass flags ka < 2 ^ 28"
  defines "n \<equiv> connect_announced cid will user pass flags ka"
  shows "packet_builder (\<lambda>p k. mqtt_pack_connection_request p k (Some cid) (map_option fst will)
      (map_option snd will) (case will of None \<Rightarrow> 0 | Some (t, w) \<Rightarrow> length w) user pass flags ka)
    (length (header_bytes CONNECT 0 n) + n) (header_bytes CONNECT 0 n @ connect_fields cid will user pass flags ka)"
proof
  show "length (header_bytes CONNECT 0 n @ connect_fields cid will user pass flags ka) \<le> length (header_bytes CONNECT 0 n) + n"
    by (simp add: n_def connect_announced_def)
  show "2 \<le> length (header_bytes CONNECT 0 n @ connect_fields cid will user pass flags ka)"
    using header_two(2) [of CONNECT 0 n] by simp
qed (use connect_ok [OF assms(1,2) _ assms(3)] in \<open>simp add: n_def\<close>)

text \<open>With one of the 65535 identifiers left, a request that needs one gets a fresh one.\<close>

definition pid_left :: "mqtt_client \<Rightarrow> bool" where
  "pid_left c \<longleftrightarrow> (\<exists>p. p \<noteq> 0 \<and> p \<notin> packet_id ` set (mq_msgs (mq c)))"

lemma next_pid_ok:
  assumes "pid_left c"
  shows "\<exists>pid. pid \<noteq> 0 \<and> pid \<notin> packet_id ` set (mq_msgs (mq c)) \<and> with_pid act c = act pid (c\<lparr>pid_lfsr := pid\<rparr>)"
  using next_pid_available [of "mq_msgs (mq c)" "pid_lfsr c"] assms
  by (auto simp: with_pid_def pid_left_def)

end
