(* ===== verification/MqttSend.thy ===== *)
theory MqttSend
  imports MqttClientFacts
begin

text \<open>
  What \<open>mqtt_send\<close> does: it puts whole packets on the wire in the order of the queue, every one
  that is new or overdue for its answer but a publication of quality 2 that has to wait, and marks
  what it sent.
\<close>

section \<open>Sending\<close>

text \<open>All bytes are handed to the socket, unless it reports an error.\<close>

definition socket_fails :: "net \<Rightarrow> bool" where
  "socket_fails net \<longleftrightarrow> (\<exists>k n. 0 < n \<and> send_at net k n < 1)"

lemma sendall_ok:
  "\<exists>r w'. mqtt_pal_sendall net data sent w = (r, w') \<and> delivered w' = delivered w \<and>
     clock_reads w' = clock_reads w \<and> recv_calls w' = recv_calls w \<and>
     (case r of Inl e \<Rightarrow> e = MQTT_ERROR_SOCKET_ERROR \<and> socket_fails net | Inr _ \<Rightarrow> wire_out w' = wire_out w @ drop sent data)"
proof (induction net data sent w rule: mqtt_pal_sendall.induct)
  case (1 net data sent w)
  let ?n = "send_at net (send_calls w) (length data - sent)"
  let ?w = "w\<lparr>send_calls := send_calls w + 1\<rparr>"
  consider "\<not> sent < length data" | "sent < length data" "?n < 1" | "sent < length data" "\<not> ?n < 1" by blast
  then show ?case
  proof cases
    case 2
    then have "socket_fails net"
      unfolding socket_fails_def by (intro exI [of _ "send_calls w"] exI [of _ "length data - sent"]) simp
    then show ?thesis using 2 by (simp add: mqtt_pal_sendall.simps [of net data sent w] Let_def)
  next
    case 3
    let ?w2 = "?w\<lparr>wire_out := wire_out ?w @ take (nat ?n) (drop sent data)\<rparr>"
    have run: "mqtt_pal_sendall net data sent w = mqtt_pal_sendall net data (sent + nat ?n) ?w2"
      using 3 by (simp add: mqtt_pal_sendall.simps [of net data sent w] Let_def)
    have "take (nat ?n) (drop sent data) @ drop (sent + nat ?n) data = drop sent data"
      by (metis add.commute append_take_drop_id drop_drop)
    then show ?thesis
      using "1.IH" [OF 3(1) refl refl 3(2)] unfolding run by (auto split: sum.splits)
  qed (simp_all add: mqtt_pal_sendall.simps [of net data sent w] Let_def)
qed

text \<open>A byte of one message is not one of another.\<close>

lemma laid_disjoint: "laid_out s ms e \<Longrightarrow> i < j \<Longrightarrow> j < length ms \<Longrightarrow> msg_start (ms ! i) + msg_size (ms ! i) \<le> msg_start (ms ! j)"
proof (induction ms arbitrary: s i j)
  case (Cons m ms)
  show ?case
  proof (cases i)
    case 0
    then have "ms ! (j - 1) \<in> set ms" using Cons.prems by auto
    then have "s + msg_size m \<le> msg_start (ms ! (j - 1))" using laid_in Cons.prems(1) by fastforce
    then show ?thesis using 0 Cons.prems by simp
  next
    case (Suc k)
    then show ?thesis using Cons.IH [of "s + msg_size m" k "j - 1"] Cons.prems by simp
  qed
qed simp

lemma view_byte:
  assumes "laid_out 0 ms e" "e \<le> length mem" "i < length ms" "k < msg_size (ms ! i)"
  shows "map (view_msg (mem[msg_start (ms ! i) + k := b])) ms =
    (map (view_msg mem) ms)[i := (\<lambda>(m, vs). (m, vs[k := b])) (view_msg mem (ms ! i))]"
proof (rule nth_equalityI)
  fix j assume "j < length (map (view_msg (mem[msg_start (ms ! i) + k := b])) ms)"
  then have j: "j < length ms" by simp
  let ?p = "msg_start (ms ! i) + k"
  have in_j: "msg_start (ms ! j) + msg_size (ms ! j) \<le> length mem"
    using laid_in [OF assms(1), of "ms ! j"] j assms(2) by simp
  have "take (msg_size (ms ! j)) (drop (msg_start (ms ! j)) (mem[?p := b])) =
      (if j = i then (take (msg_size (ms ! j)) (drop (msg_start (ms ! j)) mem))[k := b]
       else take (msg_size (ms ! j)) (drop (msg_start (ms ! j)) mem))"
  proof (cases "j = i")
    case True
    then show ?thesis using assms(4) by (simp add: drop_update_swap take_update_swap)
  next
    case False
    then consider "i < j" | "j < i" by linarith
    then have "?p < msg_start (ms ! j) \<or> msg_start (ms ! j) + msg_size (ms ! j) \<le> ?p"
      using laid_disjoint [OF assms(1), of i j] laid_disjoint [OF assms(1), of j i] j assms(3,4) by cases auto
    then show ?thesis using False in_j by (intro nth_equalityI) (auto simp: nth_list_update)
  qed
  then show "map (view_msg (mem[?p := b])) ms ! j =
      (map (view_msg mem) ms)[i := (\<lambda>(m, vs). (m, vs[k := b])) (view_msg mem (ms ! i))] ! j"
    using j assms(3) by (auto simp: view_msg_def nth_list_update)
qed simp

text \<open>What a message and its packet become when it is sent.\<close>

definition packet_qos :: "bytes \<Rightarrow> u8" where
  "packet_qos vs = drop_bit 1 (vs ! 0) AND 3"

definition sent_state :: "queued_message \<Rightarrow> bytes \<Rightarrow> queued_state" where
  "sent_state m vs =
     (if msg_type m \<in> {PUBACK, PUBCOMP, DISCONNECT} \<or> msg_type m = PUBLISH \<and> packet_qos vs = 0
      then COMPLETE else AWAITING_ACK)"

definition sent_packet :: "queued_message \<Rightarrow> bytes \<Rightarrow> bytes" where
  "sent_packet m vs = (if msg_type m = PUBLISH \<and> packet_qos vs = 1 then vs[1 := vs ! 1 OR 8] else vs)"

definition as_sent :: "int \<Rightarrow> queued_message \<times> bytes \<Rightarrow> queued_message \<times> bytes" where
  "as_sent t = (\<lambda>(m, vs). (m\<lparr>time_sent := t, msg_state := sent_state m vs\<rparr>, sent_packet m vs))"

text \<open>A publication of quality 2 under way: there is to be one at a time.\<close>

definition exclusive :: "queued_message \<times> bytes \<Rightarrow> bool" where
  "exclusive = (\<lambda>(m, vs). msg_type m = PUBLISH \<and> packet_qos vs = 2 \<and> msg_state m \<noteq> COMPLETE)"

lemma view_nth:
  assumes "mq_ok q" "i < length (mq_msgs q)"
  shows "mq_view q ! i = ((mq_msgs q ! i)\<lparr>msg_start := 0\<rparr>,
      take (msg_size (mq_msgs q ! i)) (drop (msg_start (mq_msgs q ! i)) (mq_mem q)))"
    and "msg_start (mq_msgs q ! i) + msg_size (mq_msgs q ! i) \<le> length (mq_mem q)"
proof -
  show "mq_view q ! i = ((mq_msgs q ! i)\<lparr>msg_start := 0\<rparr>,
      take (msg_size (mq_msgs q ! i)) (drop (msg_start (mq_msgs q ! i)) (mq_mem q)))"
    using assms(2) by (simp add: mq_view_def view_msg_def)
  show "msg_start (mq_msgs q ! i) + msg_size (mq_msgs q ! i) \<le> length (mq_mem q)"
    using assms laid_in [of 0 "mq_msgs q" "mq_curr q" "mq_msgs q ! i"] by (simp add: mq_ok_def)
qed

lemma length_view [simp]: "length (mq_view q) = length (mq_msgs q)"
  by (simp add: mq_view_def)

lemma inspected_eq:
  assumes "mq_ok (mq c)" "i < length (mq_msgs (mq c))" "msg_ok (mq_msgs (mq c) ! i)"
  shows "inspected_qos c (mq_msgs (mq c) ! i) = Some (packet_qos (snd (mq_view (mq c) ! i)))"
  using view_nth [OF assms(1,2)] assms(3)
  by (simp add: inspected_qos_def packet_qos_def rd8_in msg_ok_def)

text \<open>The state after sending, on the view of the queue.\<close>

lemma set_state_view:
  assumes "mq_ok (mq c)" "i < length (mq_msgs (mq c))"
  shows "mq_ok (mq (set_msg i (\<lambda>m. m\<lparr>msg_state := st\<rparr>) c))"
    and "mq_view (mq (set_msg i (\<lambda>m. m\<lparr>msg_state := st\<rparr>) c)) =
      (mq_view (mq c))[i := (\<lambda>(m, vs). (m\<lparr>msg_state := st\<rparr>, vs)) (mq_view (mq c) ! i)]"
  using set_msg_ok [OF assms, of "\<lambda>m. m\<lparr>msg_state := st\<rparr>"] by simp_all

lemma set_time_view:
  assumes "mq_ok (mq c)" "i < length (mq_msgs (mq c))"
  shows "mq_ok (mq (set_msg i (\<lambda>m. m\<lparr>time_sent := t\<rparr>) c))"
    and "mq_view (mq (set_msg i (\<lambda>m. m\<lparr>time_sent := t\<rparr>) c)) =
      (mq_view (mq c))[i := (\<lambda>(m, vs). (m\<lparr>time_sent := t\<rparr>, vs)) (mq_view (mq c) ! i)]"
  using set_msg_ok [OF assms, of "\<lambda>m. m\<lparr>time_sent := t\<rparr>"] by simp_all

definition same_but_queue :: "mqtt_client \<Rightarrow> mqtt_client \<Rightarrow> bool" where
  "same_but_queue c c' \<longleftrightarrow> recv_mem c' = recv_mem c \<and> recv_curr c' = recv_curr c \<and>
     recv_curr_sz c' = recv_curr_sz c \<and> client_error c' = client_error c \<and> response_timeout c' = response_timeout c"

lemma response_timeout_set_msg [simp]: "response_timeout (set_msg i f c) = response_timeout c"
  by (simp add: set_msg_def)

lemma after_send_ok:
  assumes "mq_ok (mq c)" "i < length (mq_msgs (mq c))" "msg_ok (mq_msgs (mq c) ! i)"
    and m: "msg_type m = msg_type (mq_msgs (mq c) ! i)" "msg_start m = msg_start (mq_msgs (mq c) ! i)"
  shows "\<exists>c'. after_send i m c = Some (None, c') \<and> mq_ok (mq c') \<and> same_but_queue c c' \<and>
    mq_view (mq c') = (mq_view (mq c))[i := (\<lambda>(m, vs). (m\<lparr>msg_state := sent_state m vs\<rparr>, sent_packet m vs)) (mq_view (mq c) ! i)]"
proof -
  obtain mv vs where v: "mq_view (mq c) ! i = (mv, vs)" by fastforce
  have type: "msg_type mv = msg_type m" using view_nth(1) [OF assms(1,2)] v m by simp
  let ?set = "\<lambda>st. set_msg i (\<lambda>m. m\<lparr>msg_state := st\<rparr>) c"
  have "inspected_qos c m = inspected_qos c (mq_msgs (mq c) ! i)" by (simp add: inspected_qos_def m)
  then have qos: "inspected_qos c m = Some (packet_qos vs)" using inspected_eq [OF assms(1-3)] v by simp
  have kinds: "msg_type m \<in> request_types" using assms(3) m by (simp add: msg_ok_def)
  have done_: "\<exists>c'. Some (None, ?set st) = Some (None, c') \<and> mq_ok (mq c') \<and> same_but_queue c c' \<and>
      mq_view (mq c') = (mq_view (mq c))[i := (mv\<lparr>msg_state := st\<rparr>, vs)]" for st :: queued_state
    using set_state_view [OF assms(1,2), of st] by (simp add: same_but_queue_def v)
  show ?thesis
  proof (cases "msg_type m = PUBLISH \<and> packet_qos vs = 1")
    case False
    define st where "st = sent_state m vs"
    have "sent_state mv vs = st" "sent_packet mv vs = vs"
      using False type by (auto simp: st_def sent_state_def sent_packet_def)
    moreover have "after_send i m c = Some (None, ?set st)"
      using False kinds by (auto simp: after_send_def Let_def qos st_def sent_state_def request_types_def)
    ultimately show ?thesis using done_ [of st] by (simp add: v)
  next
    case True
    let ?c = "?set AWAITING_ACK"
    have st: "mq_ok (mq ?c)" "mq_view (mq ?c) = (mq_view (mq c))[i := (mv\<lparr>msg_state := AWAITING_ACK\<rparr>, vs)]"
      using set_state_view [OF assms(1,2)] by (simp_all add: v)
    let ?p = "msg_start m + 1"
    have size: "2 \<le> msg_size (mq_msgs (mq c) ! i)" using assms(3) by (simp add: msg_ok_def)
    then have p: "?p < length (mq_mem (mq c))" using view_nth(2) [OF assms(1,2)] m by simp
    let ?mem = "(mq_mem (mq c))[?p := mq_mem (mq c) ! ?p OR 8]"
    let ?c' = "?c\<lparr>mq := (mq ?c)\<lparr>mq_mem := ?mem\<rparr>\<rparr>"
    have byte: "vs ! 1 = mq_mem (mq c) ! ?p"
      using view_nth [OF assms(1,2)] size v m by (auto simp: min_def)
    have laid_out: "laid_out 0 (mq_msgs (mq ?c)) (mq_curr (mq ?c))" "mq_curr (mq ?c) \<le> length (mq_mem (mq ?c))"
      using st(1) by (simp_all add: mq_ok_def)
    have at: "mq_msgs (mq ?c) ! i = (mq_msgs (mq c) ! i)\<lparr>msg_state := AWAITING_ACK\<rparr>" using assms(2) by simp
    have "mq_view (mq ?c') = map (view_msg ((mq_mem (mq ?c))[msg_start (mq_msgs (mq ?c) ! i) + 1 := vs ! 1 OR 8])) (mq_msgs (mq ?c))"
      unfolding byte using m(2) assms(2) by (simp add: mq_view_def)
    also have "\<dots> = (mq_view (mq ?c))[i := (\<lambda>(m, vs'). (m, vs'[1 := vs ! 1 OR 8])) (mq_view (mq ?c) ! i)]"
      using view_byte [OF laid_out, of i 1 "vs ! 1 OR 8"] assms(2) size by (simp add: mq_view_def)
    finally have view: "mq_view (mq ?c') = (mq_view (mq c))[i := (mv\<lparr>msg_state := AWAITING_ACK\<rparr>, vs[1 := vs ! 1 OR 8])]"
      using st(2) assms(2) by simp
    have "after_send i m c = Some (None, ?c')"
      using True p by (simp add: after_send_def Let_def qos rd8_in wr8_in)
    moreover have "mq_ok (mq ?c')" using st(1) by (simp add: mq_ok_def mqtt_mq_currsz_def mq_tail_def)
    moreover have "sent_state mv vs = AWAITING_ACK" "sent_packet mv vs = vs[1 := vs ! 1 OR 8]"
      using True type by (simp_all add: sent_state_def sent_packet_def)
    ultimately show ?thesis using view by (simp add: v same_but_queue_def)
  qed
qed

lemma client_ok_msgs:
  "client_ok c \<longleftrightarrow> mq_ok (mq c) \<and> (\<forall>v \<in> set (mq_view (mq c)). msg_ok (fst v)) \<and>
     recv_curr c \<le> length (recv_mem c) \<and> recv_curr_sz c = length (recv_mem c) - recv_curr c"
  by (simp add: client_ok_def msgs_ok_view)

lemma client_ok_update:
  assumes "client_ok c" "mq_ok (mq c')" "mq_view (mq c') = (mq_view (mq c))[i := v]" "same_but_queue c c'"
    and "msg_ok (fst v)"
  shows "client_ok c'"
proof -
  have "\<forall>v \<in> set ((mq_view (mq c))[i := v]). msg_ok (fst v)"
    using assms(1,5) by (auto simp: client_ok_msgs dest!: set_update_subset_insert [THEN subsetD])
  then show ?thesis using assms by (simp add: client_ok_msgs same_but_queue_def)
qed

text \<open>
  A message is due when it is new, or when its answer is overdue: it was sent more than the response
  timeout \<open>limit\<close> before \<open>now\<close>.
\<close>

definition due_message :: "int \<Rightarrow> int \<Rightarrow> queued_message \<Rightarrow> bool" where
  "due_message limit now m = (case msg_state m of
     UNSENT \<Rightarrow> True | AWAITING_ACK \<Rightarrow> time_sent m + limit < now | COMPLETE \<Rightarrow> False)"

lemma due_message_start [simp]: "due_message limit now (m\<lparr>msg_start := s\<rparr>) = due_message limit now m"
  by (cases "msg_state m") (simp_all add: due_message_def)

text \<open>
  One message: it is sent exactly when it is due, and not a publication of quality 2 behind another; or the
  socket fails. The clock is read, by its reading number \<open>asked\<close>, to know whether it is overdue, and
  then, \<open>stamp\<close>, for the time it was sent.
\<close>

definition stepped ::
  "net \<Rightarrow> nat \<Rightarrow> bool \<Rightarrow> mqtt_client \<Rightarrow> world \<Rightarrow> mqtt_errors option \<Rightarrow> mqtt_client \<Rightarrow> bool \<Rightarrow> world \<Rightarrow> bool"
where
  "stepped net i inflight c w r c' inflight' w' \<longleftrightarrow> (let v = mq_view (mq c) ! i in
     client_ok c' \<and> inflight' = (inflight \<or> exclusive v) \<and> delivered w' = delivered w \<and>
     response_timeout c' = response_timeout c \<and> clock_reads w \<le> clock_reads w' \<and>
     (case r of
        Some e \<Rightarrow> e = MQTT_ERROR_SOCKET_ERROR \<and> client_error c' = e \<and> socket_fails net
      | None \<Rightarrow> client_error c' = client_error c \<and>
        (\<exists>asked stamp. let go = due_message (response_timeout c) (time_at net asked) (fst v) \<and> \<not> (exclusive v \<and> inflight) in
           wire_out w' = wire_out w @ (if go then snd v else []) \<and>
           mq_view (mq c') = (if go then (mq_view (mq c))[i := as_sent (time_at net stamp) v] else mq_view (mq c)) \<and>
           (msg_state (fst v) = AWAITING_ACK \<longrightarrow> clock_reads w \<le> asked \<and> asked < clock_reads w') \<and>
           (go \<longrightarrow> clock_reads w \<le> stamp \<and> stamp < clock_reads w'))))"

lemma steppedI:
  assumes "mq_view (mq c) ! i = v" "client_ok c'" "inflight' = (inflight \<or> exclusive v)" "delivered w' = delivered w"
    and "response_timeout c' = response_timeout c" "clock_reads w \<le> clock_reads w'" "client_error c' = client_error c"
    and "go \<longleftrightarrow> due_message (response_timeout c) (time_at net ask) (fst v) \<and> \<not> (exclusive v \<and> inflight)"
    and "wire_out w' = wire_out w @ (if go then snd v else [])"
    and "mq_view (mq c') = (if go then (mq_view (mq c))[i := as_sent (time_at net st) v] else mq_view (mq c))"
    and "msg_state (fst v) = AWAITING_ACK \<longrightarrow> clock_reads w \<le> ask \<and> ask < clock_reads w'"
    and "go \<longrightarrow> clock_reads w \<le> st \<and> st < clock_reads w'"
  shows "stepped net i inflight c w None c' inflight' w'"
proof -
  have "\<exists>asked stamp. let go = due_message (response_timeout c) (time_at net asked) (fst v) \<and> \<not> (exclusive v \<and> inflight) in
      wire_out w' = wire_out w @ (if go then snd v else []) \<and>
      mq_view (mq c') = (if go then (mq_view (mq c))[i := as_sent (time_at net stamp) v] else mq_view (mq c)) \<and>
      (msg_state (fst v) = AWAITING_ACK \<longrightarrow> clock_reads w \<le> asked \<and> asked < clock_reads w') \<and>
      (go \<longrightarrow> clock_reads w \<le> stamp \<and> stamp < clock_reads w')"
    by (rule exI [of _ ask], rule exI [of _ st]) (use assms(8-12) in \<open>simp only: Let_def\<close>)
  with assms(1-7) show ?thesis unfolding stepped_def by simp
qed

lemma wants_send_facts:
  assumes "wants_send net m c w = (resend, c1, w1)"
  shows "mq c1 = mq c" "same_but_queue c c1" "wire_out w1 = wire_out w" "delivered w1 = delivered w"
    "resend = due_message (response_timeout c) (time_at net (clock_reads w)) m" "clock_reads w \<le> clock_reads w1"
    "msg_state m = AWAITING_ACK \<longrightarrow> clock_reads w < clock_reads w1"
  using assms
  by (auto simp: wants_send_def same_but_queue_def pal_time_def due_message_def Let_def split: queued_state.splits if_splits)

lemma send_step_ok:
  assumes "client_ok c" "i < length (mq_msgs (mq c))"
  shows "\<exists>r c' inflight' w'. send_step net i (c, inflight, w) = Some (r, c', inflight', w') \<and>
    stepped net i inflight c w r c' inflight' w'"
proof -
  let ?m = "mq_msgs (mq c) ! i"
  obtain mv vs where v: "mq_view (mq c) ! i = (mv, vs)" by fastforce
  have mq: "mq_ok (mq c)" using assms(1) by simp
  have ok: "msg_ok ?m" using assms by (simp add: client_ok_def)
  have mv: "mv = ?m\<lparr>msg_start := 0\<rparr>" "rd_bytes (mq_mem (mq c)) (msg_start ?m) (msg_size ?m) = Some vs"
    using view_nth [OF mq assms(2)] v by (simp_all add: rd_bytes_in)
  obtain resend c1 w1 where ws: "wants_send net ?m c w = (resend, c1, w1)" by (metis prod_cases3)
  note wf = wants_send_facts [OF ws]
  have ex: "exclusive (mv, vs) \<longleftrightarrow> msg_type ?m = PUBLISH \<and> packet_qos vs = 2 \<and> msg_state ?m \<noteq> COMPLETE"
    by (simp add: exclusive_def mv(1))
  have live: "msg_state ?m = UNSENT \<or> msg_state ?m = AWAITING_ACK \<longleftrightarrow> msg_state ?m \<noteq> COMPLETE"
    by (cases "msg_state ?m") simp_all
  have hold: "hold_back c1 ?m inflight resend =
      Some (resend \<and> \<not> (exclusive (mv, vs) \<and> inflight), inflight \<or> exclusive (mv, vs))"
    using inspected_eq [OF mq assms(2) ok] v wf(1)
    by (auto simp: hold_back_def live ex inspected_qos_def)
  define go where "go = (resend \<and> \<not> (exclusive (mv, vs) \<and> inflight))"
  have ok1: "client_ok c1" using client_ok_cong [OF assms(1) wf(1)] wf(2) by (simp add: same_but_queue_def)
  have err1: "client_error c1 = client_error c" and same1: "response_timeout c1 = response_timeout c"
    using wf(2) by (simp_all add: same_but_queue_def)
  show ?thesis
  proof (cases go)
    case False
    then have "send_step net i (c, inflight, w) = Some (None, c1, inflight \<or> exclusive (mv, vs), w1)"
      using assms(2) hold by (simp add: send_step_def rd8_in ws go_def)
    moreover have "stepped net i inflight c w None c1 (inflight \<or> exclusive (mv, vs)) w1"
      by (rule steppedI [where v = "(mv, vs)" and go = False and ask = "clock_reads w"])
        (use v False ok1 wf err1 same1 in \<open>auto simp: go_def mv(1)\<close>)
    ultimately show ?thesis by blast
  next
    case True
    obtain sr w2 where sent: "mqtt_pal_sendall net vs 0 w1 = (sr, w2)" "delivered w2 = delivered w1" "clock_reads w2 = clock_reads w1"
      "case sr of Inl e \<Rightarrow> e = MQTT_ERROR_SOCKET_ERROR \<and> socket_fails net | Inr _ \<Rightarrow> wire_out w2 = wire_out w1 @ vs"
      using sendall_ok [of net vs 0 w1] unfolding drop_0 by blast
    show ?thesis
    proof (cases sr)
      case (Inl e)
      then have "send_step net i (c, inflight, w) = Some (Some e, c1\<lparr>client_error := e\<rparr>, inflight \<or> exclusive (mv, vs), w2)"
        using True assms(2) hold mv(2) wf(1) sent(1) by (simp add: send_step_def rd8_in ws go_def)
      moreover have "client_ok (c1\<lparr>client_error := e\<rparr>)" by (rule client_ok_cong [OF ok1]) simp_all
      ultimately show ?thesis using sent(2-4) wf(4,6) same1 by (simp add: stepped_def v Let_def Inl)
    next
      case (Inr k)
      define now w3 where "now = fst (pal_time net w2)" and "w3 = snd (pal_time net w2)"
      have w3: "wire_out w3 = wire_out w2" "delivered w3 = delivered w2" "clock_reads w3 = clock_reads w2 + 1"
        "now = time_at net (clock_reads w2)" by (simp_all add: now_def w3_def pal_time_def)
      define c2 where "c2 = set_msg i (\<lambda>m. m\<lparr>time_sent := now\<rparr>) (c1\<lparr>time_of_last_send := now\<rparr>)"
      have c2: "mq_ok (mq c2)" "mq_view (mq c2) = (mq_view (mq c))[i := (mv\<lparr>time_sent := now\<rparr>, vs)]"
        "same_but_queue c c2"
        using set_time_view [of "c1\<lparr>time_of_last_send := now\<rparr>" i now] mq assms(2) wf(1,2) v
        by (simp_all add: c2_def same_but_queue_def)
      have at: "mq_msgs (mq c2) ! i = ?m\<lparr>time_sent := now\<rparr>" "length (mq_msgs (mq c2)) = length (mq_msgs (mq c))"
        using assms(2) by (simp_all add: c2_def wf(1))
      have pre: "i < length (mq_msgs (mq c2))" "msg_ok (mq_msgs (mq c2) ! i)"
        "msg_type ?m = msg_type (mq_msgs (mq c2) ! i)" "msg_start ?m = msg_start (mq_msgs (mq c2) ! i)"
        using at assms(2) ok by (simp_all add: msg_ok_def)
      obtain c3 where c3: "after_send i ?m c2 = Some (None, c3)" "mq_ok (mq c3)" "same_but_queue c2 c3"
        "mq_view (mq c3) = (mq_view (mq c2))[i := (\<lambda>(m, vs). (m\<lparr>msg_state := sent_state m vs\<rparr>, sent_packet m vs)) (mq_view (mq c2) ! i)]"
        using after_send_ok [OF c2(1) pre] by blast
      have view: "mq_view (mq c3) = (mq_view (mq c))[i := as_sent now (mv, vs)]"
      proof -
        have "sent_state (mv\<lparr>time_sent := now\<rparr>) vs = sent_state mv vs" "sent_packet (mv\<lparr>time_sent := now\<rparr>) vs = sent_packet mv vs"
          by (simp_all add: sent_state_def sent_packet_def)
        then show ?thesis unfolding c3(4) c2(2) using assms(2) by (simp add: as_sent_def)
      qed
      have same: "same_but_queue c c3" using c2(3) c3(3) by (simp add: same_but_queue_def)
      have "msg_ok (fst (as_sent now (mv, vs)))" using ok mv(1) by (simp add: as_sent_def msg_ok_def)
      then have ok3: "client_ok c3" using client_ok_update [OF assms(1) c3(2) view same] by simp
      have "send_step net i (c, inflight, w) = Some (None, c3, inflight \<or> exclusive (mv, vs), w3)"
        using True assms(2) hold mv(2) wf(1) sent(1) c3(1) Inr
        by (simp add: send_step_def rd8_in ws go_def case_prod_beta flip: now_def w3_def c2_def)
      moreover have "stepped net i inflight c w None c3 (inflight \<or> exclusive (mv, vs)) w3"
      proof -
        have "due_message (response_timeout c) (time_at net (clock_reads w)) mv" "\<not> (exclusive (mv, vs) \<and> inflight)"
          using True wf(5) by (simp_all add: go_def mv(1))
        then show ?thesis
          by (intro steppedI [where v = "(mv, vs)" and go = True and ask = "clock_reads w" and st = "clock_reads w2"])
            (use v ok3 sent(2-4) wf(3,4,6,7) w3 view same mv(1) in \<open>simp_all add: Inr same_but_queue_def\<close>)
      qed
      ultimately show ?thesis by blast
    qed
  qed
qed

text \<open>
  The whole queue, from message \<open>k\<close> on. \<open>asked\<close> and \<open>stamp\<close> give the readings of the clock for each message, all
  taken between the readings \<open>lo\<close> and \<open>hi\<close>. A message goes out exactly when it is due, and is not a
  publication of quality 2 that stands behind another one, neither of them complete (\<open>exclusive\<close>): \<open>inflight\<close>
  says that one was seen before \<open>k\<close>. What goes out is written whole, in the order of the queue, and marked; all
  other messages stay as they are.
\<close>

definition goes_out ::
  "net \<Rightarrow> int \<Rightarrow> nat \<Rightarrow> bool \<Rightarrow> (queued_message \<times> bytes) list \<Rightarrow> (nat \<Rightarrow> nat) \<Rightarrow> nat \<Rightarrow> bool"
where
  "goes_out net limit k inflight view asked i \<longleftrightarrow> k \<le> i \<and> due_message limit (time_at net (asked i)) (fst (view ! i)) \<and>
     \<not> (exclusive (view ! i) \<and> (inflight \<or> (\<exists>j\<in>{k..<i}. exclusive (view ! j))))"

definition flushed ::
  "net \<Rightarrow> nat \<Rightarrow> nat \<Rightarrow> int \<Rightarrow> nat \<Rightarrow> bool \<Rightarrow> (queued_message \<times> bytes) list \<Rightarrow> (queued_message \<times> bytes) list \<Rightarrow> bytes \<Rightarrow> bool"
where
  "flushed net lo hi limit k inflight view view' out \<longleftrightarrow> length view' = length view \<and>
     (\<exists>asked stamp. let go = goes_out net limit k inflight view asked in
        out = concat (map (\<lambda>i. snd (view ! i)) (filter go [k..<length view])) \<and>
        (\<forall>i<length view. view' ! i = (if go i then as_sent (time_at net (stamp i)) (view ! i) else view ! i) \<and>
           (k \<le> i \<and> msg_state (fst (view ! i)) = AWAITING_ACK \<longrightarrow> lo \<le> asked i \<and> asked i < hi) \<and>
           (go i \<longrightarrow> lo \<le> stamp i \<and> stamp i < hi)))"

lemma flushed_later:
  "flushed net lo hi limit k inflight view view' out \<Longrightarrow> hi \<le> hi' \<Longrightarrow> flushed net lo hi' limit k inflight view view' out"
proof -
  assume f: "flushed net lo hi limit k inflight view view' out" and le: "hi \<le> hi'"
  from f obtain asked stamp where "length view' = length view"
      "out = concat (map (\<lambda>i. snd (view ! i)) (filter (goes_out net limit k inflight view asked) [k..<length view]))"
      "\<forall>i<length view. view' ! i = (if goes_out net limit k inflight view asked i
          then as_sent (time_at net (stamp i)) (view ! i) else view ! i) \<and>
        (k \<le> i \<and> msg_state (fst (view ! i)) = AWAITING_ACK \<longrightarrow> lo \<le> asked i \<and> asked i < hi) \<and>
        (goes_out net limit k inflight view asked i \<longrightarrow> lo \<le> stamp i \<and> stamp i < hi)"
    unfolding flushed_def Let_def by blast
  with le show ?thesis
    unfolding flushed_def Let_def by (intro conjI exI [of _ asked] exI [of _ stamp]) auto
qed

lemma flushed_end: "length view \<le> k \<Longrightarrow> flushed net lo hi limit k inflight view view []"
  by (auto simp: flushed_def goes_out_def Let_def)

text \<open>One message more, in front.\<close>

lemma flushed_step:
  assumes k: "k < length view" and view1: "view1 = (if go then view[k := as_sent (time_at net st) (view ! k)] else view)"
    and go: "go \<longleftrightarrow> due_message limit (time_at net ask) (fst (view ! k)) \<and> \<not> (exclusive (view ! k) \<and> inflight)"
    and ask: "msg_state (fst (view ! k)) = AWAITING_ACK \<longrightarrow> lo \<le> ask \<and> ask < mid" and st: "go \<longrightarrow> lo \<le> st \<and> st < mid"
    and times: "lo \<le> mid" "mid \<le> hi"
    and rest: "flushed net mid hi limit (Suc k) (inflight \<or> exclusive (view ! k)) view1 view' out"
  shows "flushed net lo hi limit k inflight view view' ((if go then snd (view ! k) else []) @ out)"
proof -
  have len: "length view1 = length view" and other: "\<And>j. j \<noteq> k \<Longrightarrow> view1 ! j = view ! j" unfolding view1 by auto
  obtain asked stamp where r: "length view' = length view"
      "out = concat (map (\<lambda>i. snd (view1 ! i)) (filter (goes_out net limit (Suc k) (inflight \<or> exclusive (view ! k)) view1 asked) [Suc k..<length view]))"
      "\<And>i. i < length view \<Longrightarrow> view' ! i = (if goes_out net limit (Suc k) (inflight \<or> exclusive (view ! k)) view1 asked i
          then as_sent (time_at net (stamp i)) (view1 ! i) else view1 ! i)"
      "\<And>i. i < length view \<Longrightarrow> Suc k \<le> i \<Longrightarrow> msg_state (fst (view1 ! i)) = AWAITING_ACK \<Longrightarrow> mid \<le> asked i \<and> asked i < hi"
      "\<And>i. i < length view \<Longrightarrow> goes_out net limit (Suc k) (inflight \<or> exclusive (view ! k)) view1 asked i \<Longrightarrow> mid \<le> stamp i \<and> stamp i < hi"
    using rest unfolding flushed_def Let_def len by blast
  define asked' stamp' where "asked' = asked(k := ask)" and "stamp' = stamp(k := st)"
  let ?g = "goes_out net limit k inflight view asked'"
  let ?g1 = "goes_out net limit (Suc k) (inflight \<or> exclusive (view ! k)) view1 asked"
  have here: "?g k \<longleftrightarrow> go" by (auto simp: goes_out_def go asked'_def)
  have later: "?g i \<longleftrightarrow> ?g1 i" if "Suc k \<le> i" for i
  proof -
    have "{k..<i} = insert k {Suc k..<i}" using that by auto
    then have "(\<exists>j\<in>{k..<i}. exclusive (view ! j)) \<longleftrightarrow> exclusive (view ! k) \<or> (\<exists>j\<in>{Suc k..<i}. exclusive (view1 ! j))"
      using other by auto
    then show ?thesis using that other [of i] by (auto simp: goes_out_def asked'_def)
  qed
  have before: "\<not> ?g i" "\<not> ?g1 i" "\<not> ?g1 k" if "i < k" for i using that by (simp_all add: goes_out_def)
  have k1: "\<not> ?g1 k" by (simp add: goes_out_def)
  have "map (\<lambda>i. snd (view1 ! i)) (filter ?g1 [Suc k..<length view]) = map (\<lambda>i. snd (view ! i)) (filter ?g [Suc k..<length view])"
  proof (rule arg_cong2 [where f = map, THEN trans])
    show "filter ?g1 [Suc k..<length view] = filter ?g [Suc k..<length view]"
      by (intro filter_cong) (auto simp: later)
  qed (rule refl, use other in \<open>auto simp: map_eq_conv\<close>)
  then have "(if go then snd (view ! k) else []) @ out = concat (map (\<lambda>i. snd (view ! i)) (filter ?g [k..<length view]))"
    using here k unfolding r(2) by (simp add: upt_rec [of k])
  moreover have "view' ! i = (if ?g i then as_sent (time_at net (stamp' i)) (view ! i) else view ! i) \<and>
      (k \<le> i \<and> msg_state (fst (view ! i)) = AWAITING_ACK \<longrightarrow> lo \<le> asked' i \<and> asked' i < hi) \<and>
      (?g i \<longrightarrow> lo \<le> stamp' i \<and> stamp' i < hi)" if i: "i < length view" for i
  proof -
    consider "i < k" | "i = k" | "Suc k \<le> i" by linarith
    then show ?thesis
    proof cases
      case 1
      then show ?thesis using r(3) [OF i] before other [of i] by simp
    next
      case 2
      then show ?thesis
        using r(3) [OF i] k1 here k view1 ask st times by (auto simp: asked'_def stamp'_def)
    next
      case 3
      then show ?thesis
        using r(3-5) [OF i] later [OF 3] other [of i] times by (auto simp: asked'_def stamp'_def)
    qed
  qed
  ultimately show ?thesis
    unfolding flushed_def Let_def using r(1) by blast
qed

lemma send_loop_ok:
  "client_ok c \<Longrightarrow> n = length (mq_msgs (mq c)) \<Longrightarrow> k \<le> n \<Longrightarrow>
   \<exists>r c' inflight' w'. send_loop net [k..<n] (c, inflight, w) = Some (r, c', inflight', w') \<and> client_ok c' \<and>
     delivered w' = delivered w \<and> clock_reads w \<le> clock_reads w' \<and>
     (case r of
        Some e \<Rightarrow> e = MQTT_ERROR_SOCKET_ERROR \<and> client_error c' = e \<and> socket_fails net
      | None \<Rightarrow> client_error c' = client_error c \<and>
        (\<exists>out. wire_out w' = wire_out w @ out \<and> flushed net (clock_reads w) (clock_reads w') (response_timeout c) k inflight
           (mq_view (mq c)) (mq_view (mq c')) out))"
proof (induction "n - k" arbitrary: c inflight w k)
  case 0
  then have "flushed net (clock_reads w) (clock_reads w) (response_timeout c) k inflight (mq_view (mq c)) (mq_view (mq c)) []"
    by (intro flushed_end) simp
  with 0 show ?case by simp
next
  case (Suc d)
  let ?v = "mq_view (mq c)"
  have k: "k < n" "k < length (mq_msgs (mq c))" "d = n - Suc k" "Suc k \<le> n" using Suc.hyps(2) Suc.prems(2) by auto
  obtain r c1 inf1 w1 where step: "send_step net k (c, inflight, w) = Some (r, c1, inf1, w1)"
    "stepped net k inflight c w r c1 inf1 w1" using send_step_ok [OF Suc.prems(1) k(2)] by blast
  have run: "send_loop net [k..<n] (c, inflight, w) = (case r of Some e \<Rightarrow> Some (Some e, c1, inf1, w1)
      | None \<Rightarrow> send_loop net [Suc k..<n] (c1, inf1, w1))"
    using k(1) step(1) by (simp add: upt_rec [of k])
  show ?case
  proof (cases r)
    case (Some e)
    then show ?thesis using step(2) run by (auto simp: stepped_def Let_def)
  next
    case None
    obtain ask st go where s: "client_ok c1" "inf1 = (inflight \<or> exclusive (?v ! k))" "delivered w1 = delivered w"
        "client_error c1 = client_error c" "response_timeout c1 = response_timeout c" "clock_reads w \<le> clock_reads w1"
      and g: "go \<longleftrightarrow> due_message (response_timeout c) (time_at net ask) (fst (?v ! k)) \<and> \<not> (exclusive (?v ! k) \<and> inflight)"
        "wire_out w1 = wire_out w @ (if go then snd (?v ! k) else [])"
        "mq_view (mq c1) = (if go then ?v[k := as_sent (time_at net st) (?v ! k)] else ?v)"
        "msg_state (fst (?v ! k)) = AWAITING_ACK \<longrightarrow> clock_reads w \<le> ask \<and> ask < clock_reads w1"
        "go \<longrightarrow> clock_reads w \<le> st \<and> st < clock_reads w1"
      using step(2) unfolding stepped_def Let_def None option.case by blast
    have "length (mq_view (mq c1)) = length ?v" unfolding g(3) by simp
    then have n: "n = length (mq_msgs (mq c1))" using Suc.prems(2) by simp
    obtain r' c' inf' w' where rest: "send_loop net [Suc k..<n] (c1, inf1, w1) = Some (r', c', inf', w')" "client_ok c'"
      "delivered w' = delivered w1" "clock_reads w1 \<le> clock_reads w'"
      "case r' of
        Some e \<Rightarrow> e = MQTT_ERROR_SOCKET_ERROR \<and> client_error c' = e \<and> socket_fails net
      | None \<Rightarrow> client_error c' = client_error c1 \<and>
        (\<exists>out. wire_out w' = wire_out w1 @ out \<and> flushed net (clock_reads w1) (clock_reads w') (response_timeout c1) (Suc k) inf1
           (mq_view (mq c1)) (mq_view (mq c')) out)"
      using Suc.hyps(1) [OF k(3) s(1) n k(4), of inf1 w1] by blast
    show ?thesis
    proof (cases r')
      case (Some e)
      then show ?thesis using run rest s by (simp add: None)
    next
      case fin: None
      obtain out where out: "wire_out w' = wire_out w1 @ out" "flushed net (clock_reads w1) (clock_reads w') (response_timeout c) (Suc k)
          (inflight \<or> exclusive (?v ! k)) (mq_view (mq c1)) (mq_view (mq c')) out"
        using rest(5) s(2,5) by (auto simp: fin)
      have kv: "k < length ?v" using k(2) by simp
      have "flushed net (clock_reads w) (clock_reads w') (response_timeout c) k inflight ?v (mq_view (mq c'))
          ((if go then snd (?v ! k) else []) @ out)"
        by (rule flushed_step [OF kv g(3,1,4,5) s(6) rest(4) out(2)])
      moreover have "wire_out w' = wire_out w @ (if go then snd (?v ! k) else []) @ out" using out(1) g(2) by simp
      ultimately show ?thesis using run rest(1-5) s(3,4,6) by (auto simp: None fin)
    qed
  qed
qed

section \<open>The whole of \<open>mqtt_send\<close>\<close>

text \<open>The keep-alive time is over, by the last reading of the clock.\<close>

definition overdue :: "net \<Rightarrow> mqtt_client \<Rightarrow> world \<Rightarrow> bool" where
  "overdue net c w \<longleftrightarrow>
     time_of_last_send c + int (unat (keep_alive c) * 3 div 4) < time_at net (clock_reads w - 1)"

text \<open>After the messages a ping is requested when nothing was sent for too long.\<close>

abbreviation pinged :: "(queued_message \<times> bytes) list \<Rightarrow> mqtt_errors \<Rightarrow> mqtt_errors \<Rightarrow> mqtt_client \<Rightarrow> bool" where
  "pinged view \<equiv> requested view PINGREQ None (packet PINGREQ 0 [])"

lemma ping_ok_client:
  assumes "client_ok c"
  shows "\<exists>rv c'. mqtt_ping stale c = Some (rv, c') \<and> client_ok c' \<and>
    c' = c\<lparr>mq := mq c', client_error := rv\<rparr> \<and> pinged (mq_view (mq c)) (client_error c) rv c'"
  unfolding mqtt_ping_def by (rule ping.requested_ok [OF assms]) (simp add: request_types_def)

definition sends ::
  "net \<Rightarrow> mqtt_client \<Rightarrow> world \<Rightarrow> mqtt_errors \<Rightarrow> mqtt_client \<Rightarrow> world \<Rightarrow> bool"
where
  "sends net c w rv c' w' \<longleftrightarrow> (\<exists>view' out. wire_out w' = wire_out w @ out \<and>
     flushed net (clock_reads w) (clock_reads w') (response_timeout c) 0 False (mq_view (mq c)) view' out \<and>
     (if overdue net c' w' then pinged view' (client_error c) rv c'
      else rv = MQTT_OK \<and> client_error c' = client_error c \<and> mq_view (mq c') = view'))"

lemma mqtt_send_ok:
  assumes "client_ok c"
  shows "\<exists>rv c' w'. mqtt_send net c w = Some (rv, c', w') \<and> client_ok c' \<and> delivered w' = delivered w \<and>
    (if client_error c \<in> {MQTT_OK, MQTT_ERROR_SEND_BUFFER_IS_FULL}
     then rv = MQTT_ERROR_SOCKET_ERROR \<and> client_error c' = rv \<and> socket_fails net \<or> sends net c w rv c' w'
     else (rv, c', w') = (client_error c, c, w))"
proof (cases "client_error c \<in> {MQTT_OK, MQTT_ERROR_SEND_BUFFER_IS_FULL}")
  case False
  then have "mqtt_send net c w = Some (client_error c, c, w)" by (simp add: mqtt_send_def)
  then show ?thesis using False assms by auto
next
  case True
  obtain r c1 inf w1 where loop: "send_loop net [0..<length (mq_msgs (mq c))] (c, False, w) = Some (r, c1, inf, w1)" "client_ok c1"
    "delivered w1 = delivered w" "clock_reads w \<le> clock_reads w1"
    "case r of Some e \<Rightarrow> e = MQTT_ERROR_SOCKET_ERROR \<and> client_error c1 = e \<and> socket_fails net
      | None \<Rightarrow> client_error c1 = client_error c \<and>
        (\<exists>out. wire_out w1 = wire_out w @ out \<and> flushed net (clock_reads w) (clock_reads w1) (response_timeout c) 0 False
           (mq_view (mq c)) (mq_view (mq c1)) out)"
    using send_loop_ok [OF assms refl le0, of net False w] by blast
  have start: "mqtt_send net c w = do {
        (r, c, _, w) \<leftarrow> Some (r, c1, inf, w1);
        (case r of Some e \<Rightarrow> Some (e, c, w)
         | None \<Rightarrow>
           let (now, w) = pal_time net w in
           if time_of_last_send c + int (unat (keep_alive c) * 3 div 4) < now then do {
             (rv, c) \<leftarrow> mqtt_ping (stale_at net (clock_reads w)) c;
             Some (if rv \<noteq> MQTT_OK then (rv, c\<lparr>client_error := rv\<rparr>, w) else (MQTT_OK, c, w))
           }
           else Some (MQTT_OK, c, w))
      }"
    using True unfolding loop(1) [symmetric] by (auto simp: mqtt_send_def mqtt_mq_length_def)
  show ?thesis
  proof (cases r)
    case (Some e)
    then have "mqtt_send net c w = Some (e, c1, w1)" by (simp add: start)
    then show ?thesis using loop(2,3,5) True by (simp add: Some)
  next
    case None
    let ?w = "w1\<lparr>clock_reads := clock_reads w1 + 1\<rparr>"
    obtain out where sent: "wire_out w1 = wire_out w @ out" "client_error c1 = client_error c"
      "flushed net (clock_reads w) (clock_reads w1) (response_timeout c) 0 False (mq_view (mq c)) (mq_view (mq c1)) out"
      using loop(5) by (auto simp: None)
    from flushed_later [OF sent(3), of "clock_reads ?w"]
    have out: "flushed net (clock_reads w) (clock_reads ?w) (response_timeout c) 0 False (mq_view (mq c)) (mq_view (mq c1)) out"
      by simp
    show ?thesis
    proof (cases "overdue net c1 ?w")
      case False
      then have "mqtt_send net c w = Some (MQTT_OK, c1, ?w)"
        by (simp add: start None pal_time_def overdue_def)
      moreover have "sends net c w MQTT_OK c1 ?w"
        unfolding sends_def using sent(1,2) out False by (intro exI [of _ "mq_view (mq c1)"] exI [of _ out]) simp
      ultimately show ?thesis using loop(2,3) True by simp
    next
      case late: True
      obtain rv c' where ping: "mqtt_ping (stale_at net (clock_reads ?w)) c1 = Some (rv, c')" "client_ok c'"
        "c' = c1\<lparr>mq := mq c', client_error := rv\<rparr>" "pinged (mq_view (mq c1)) (client_error c1) rv c'"
        using ping_ok_client [OF loop(2), of "stale_at net (clock_reads ?w)"] by blast
      have err: "c'\<lparr>client_error := rv\<rparr> = c'" using ping(4) by (simp add: requested_def)
      have "mqtt_send net c w = Some (rv, c', ?w)"
        using late ping(1) err by (simp add: start None pal_time_def overdue_def)
      moreover have "time_of_last_send c' = time_of_last_send c1 \<and> keep_alive c' = keep_alive c1"
        by (subst (1 2) ping(3)) simp
      then have "overdue net c' ?w" using late by (simp add: overdue_def)
      then have "sends net c w rv c' ?w"
        unfolding sends_def using sent(1,2) out ping(4) by (intro exI [of _ "mq_view (mq c1)"] exI [of _ out]) simp
      ultimately show ?thesis using loop(3) ping(2) True by simp
    qed
  qed
qed

end
