(* ===== verification/MqttReceive.thy ===== *)
theory MqttReceive
  imports MqttSend
begin

text \<open>
  What \<open>__mqtt_recv\<close> does with the answers of the broker: an acknowledgment completes the first
  message it belongs to and no other, and is followed by the next packet of its exchange; a
  publication is handed to the callback, one of quality 2 once. A packet of the buffer is handled and
  moved out of it; the loop ends when the broker falls silent.
\<close>

section \<open>Releasing a message\<close>

primrec complete_first ::
  "(queued_message \<Rightarrow> bool) \<Rightarrow> (queued_message \<times> bytes) list \<Rightarrow> (queued_message \<times> bytes) list"
where
  "complete_first P [] = []"
| "complete_first P (v # view) =
     (if P (fst v) then ((fst v)\<lparr>msg_state := COMPLETE\<rparr>, snd v) # view else v # complete_first P view)"

lemma complete_first_at:
  "k < length view \<Longrightarrow> P (fst (view ! k)) \<Longrightarrow> \<forall>v \<in> set (take k view). \<not> P (fst v) \<Longrightarrow>
     complete_first P view = view[k := (\<lambda>(m, vs). (m\<lparr>msg_state := COMPLETE\<rparr>, vs)) (view ! k)]"
proof (induction view arbitrary: k)
  case (Cons v view)
  then show ?case by (cases k) (auto split: prod.splits)
qed simp

lemma sought_view: "sought ct pid (fst (view_msg mem m)) = sought ct pid m"
  by (simp add: sought_def view_msg_def)

text \<open>Whether a message of the queue is sought.\<close>

definition pending :: "control_type \<Rightarrow> u16 option \<Rightarrow> (queued_message \<times> bytes) list \<Rightarrow> bool" where
  "pending ct pid view \<longleftrightarrow> (\<exists>v \<in> set view. sought ct pid (fst v))"

lemma pending_find: "mqtt_mq_find q ct pid = None \<longleftrightarrow> \<not> pending ct pid (mq_view q)"
  by (simp add: find_None pending_def mq_view_def sought_view)

lemma release_ok:
  assumes "client_ok c" "pending ct pid (mq_view (mq c))"
  shows "\<exists>c'. release net ct pid average c w = (None, c', w\<lparr>clock_reads := clock_reads w + 1\<rparr>) \<and>
    client_ok c' \<and> mq_view (mq c') = complete_first (sought ct pid) (mq_view (mq c)) \<and> same_but_queue c c'"
proof -
  obtain k where k: "mqtt_mq_find (mq c) ct pid = Some k" using assms(2) pending_find by blast
  note f = find_Some [OF k]
  then have len: "k < length (mq_msgs (mq c))" by blast
  have mq: "mq_ok (mq c)" using assms(1) by simp
  let ?c = "set_msg k (\<lambda>m. m\<lparr>msg_state := COMPLETE\<rparr>) c"
  let ?t = "time_at net (clock_reads w) - time_sent (mq_msgs (mq ?c) ! k)"
  let ?c' = "?c\<lparr>typical_response_time := average (typical_response_time ?c) ?t\<rparr>"
  have view: "mq_view (mq ?c) = (mq_view (mq c))[k := (\<lambda>(m, vs). (m\<lparr>msg_state := COMPLETE\<rparr>, vs)) (mq_view (mq c) ! k)]"
    by (rule set_state_view(2) [OF mq len])
  have "\<forall>v \<in> set (take k (mq_view (mq c))). \<not> sought ct pid (fst v)"
    using f by (auto simp: mq_view_def take_map sought_view)
  moreover have "sought ct pid (fst (mq_view (mq c) ! k))" using f by (simp add: mq_view_def sought_view)
  ultimately have first: "mq_view (mq ?c') = complete_first (sought ct pid) (mq_view (mq c))"
    using complete_first_at [of k "mq_view (mq c)" "sought ct pid"] len view by simp
  have same: "same_but_queue c ?c'" by (simp add: same_but_queue_def)
  have "msg_ok (mq_msgs (mq c) ! k)" using assms(1) len by (simp add: client_ok_def)
  then have "msg_ok (fst ((\<lambda>(m, vs). (m\<lparr>msg_state := COMPLETE\<rparr>, vs)) (mq_view (mq c) ! k)))"
    using len by (simp add: view_nth(1) [OF mq] msg_ok_def)
  then have "client_ok ?c'"
    using client_ok_update [OF assms(1) _ _ same] set_state_view(1) [OF mq len, of COMPLETE] view by simp
  then show ?thesis using first same by (simp add: release_def k pal_time_def Let_def)
qed

lemma release_unknown:
  "\<not> pending ct pid (mq_view (mq c)) \<Longrightarrow> release net ct pid average c w =
     (Some MQTT_ERROR_ACK_OF_UNKNOWN, c\<lparr>client_error := MQTT_ERROR_ACK_OF_UNKNOWN\<rparr>, w)"
  by (simp add: release_def pending_find [symmetric])

section \<open>Acknowledgments\<close>

text \<open>Which message an answer releases, and the packet that follows.\<close>

definition releases :: "mqtt_decoded \<Rightarrow> (control_type \<times> u16 option \<times> control_type option) option" where
  "releases d = (case d of
     Connack _ _ \<Rightarrow> Some (CONNECT, None, None)
   | Puback pid \<Rightarrow> Some (PUBLISH, Some pid, None)
   | Pubrec pid \<Rightarrow> Some (PUBLISH, Some pid, Some PUBREL)
   | Pubrel pid \<Rightarrow> Some (PUBREC, Some pid, Some PUBCOMP)
   | Pubcomp pid \<Rightarrow> Some (PUBREL, Some pid, None)
   | Suback pid _ _ \<Rightarrow> Some (SUBSCRIBE, Some pid, None)
   | Unsuback pid \<Rightarrow> Some (UNSUBSCRIBE, Some pid, None)
   | Pingresp \<Rightarrow> Some (PINGREQ, None, None)
   | _ \<Rightarrow> None)"

text \<open>The broker refuses: a connection by its return code, a subscription by the first of its codes.\<close>

definition refusal :: "bytes \<Rightarrow> mqtt_decoded \<Rightarrow> mqtt_errors option" where
  "refusal mem d = (case d of
     Connack _ code \<Rightarrow> if code \<noteq> 0 then Some MQTT_ERROR_CONNECTION_REFUSED else None
   | Suback _ codes _ \<Rightarrow> if mem ! codes = 0x80 then Some MQTT_ERROR_SUBSCRIBE_FAILED else None
   | _ \<Rightarrow> None)"

text \<open>A repeated receipt of a publication, whose release is already in the queue.\<close>

definition repeated :: "(queued_message \<times> bytes) list \<Rightarrow> mqtt_decoded \<Rightarrow> bool" where
  "repeated view d \<longleftrightarrow> (\<exists>pid. d = Pubrec pid \<and> pending PUBREL (Some pid) view)"

definition readable :: "bytes \<Rightarrow> mqtt_decoded \<Rightarrow> bool" where
  "readable mem d \<longleftrightarrow> (\<forall>pid codes n. d = Suback pid codes n \<longrightarrow> codes < length mem)"

lemma staged_ok:
  assumes "client_ok c" "ct \<in> {PUBACK, PUBREC, PUBREL, PUBCOMP}"
  shows "\<exists>rv c'. staged (mqtt_pubxxx ct pid stale c) w = Some (if rv = MQTT_OK then None else Some rv, c', w) \<and>
    client_ok c' \<and> same_but_queue (c\<lparr>client_error := rv\<rparr>) c' \<and>
    requested (mq_view (mq c)) ct (Some pid) (pubxxx_packet ct pid) (client_error c) rv c'"
proof -
  have "ct \<in> request_types" using assms(2) by (auto simp: request_types_def)
  then obtain rv c' where r: "mqtt_pubxxx ct pid stale c = Some (rv, c')" "client_ok c'"
    "c' = c\<lparr>mq := mq c', client_error := rv\<rparr>"
    "requested (mq_view (mq c)) ct (Some pid) (pubxxx_packet ct pid) (client_error c) rv c'"
    using packet_builder.requested_ok [OF pubxxx_builder [OF assms(2), of pid] assms(1)] unfolding mqtt_pubxxx_def by blast
  have err: "c'\<lparr>client_error := rv\<rparr> = c'" using r(4) by (simp add: requested_def)
  have "same_but_queue (c\<lparr>client_error := rv\<rparr>) c'" unfolding same_but_queue_def by (subst (1 2 3 4 5) r(3)) simp
  then show ?thesis using r err by (intro exI [of _ rv] exI [of _ c']) (simp add: staged_def)
qed

text \<open>
  The queue after an acknowledgment: the message is complete, and the next packet of its exchange
  was requested, if there is one.
\<close>

definition acknowledged ::
  "mqtt_client \<Rightarrow> mqtt_decoded \<Rightarrow> mqtt_errors option \<Rightarrow> mqtt_client \<Rightarrow> bool"
where
  "acknowledged c d r c' \<longleftrightarrow> (case releases d of
     Some (ct, pid, answer) \<Rightarrow>
       let view = complete_first (sought ct pid) (mq_view (mq c))
       in (case answer of
             None \<Rightarrow> mq_view (mq c') = view \<and> r = refusal (recv_mem c) d \<and>
               client_error c' = (case r of None \<Rightarrow> client_error c | Some e \<Rightarrow> e)
           | Some next \<Rightarrow> (\<exists>rv. r = (if rv = MQTT_OK then None else Some rv) \<and>
               requested view next pid (pubxxx_packet next (the pid)) (client_error c) rv c'))
   | None \<Rightarrow> False)"

definition same_buffer :: "mqtt_client \<Rightarrow> mqtt_client \<Rightarrow> bool" where
  "same_buffer c c' \<longleftrightarrow> recv_mem c' = recv_mem c \<and> recv_curr c' = recv_curr c \<and> recv_curr_sz c' = recv_curr_sz c"

definition same_sockets :: "world \<Rightarrow> world \<Rightarrow> bool" where
  "same_sockets w w' \<longleftrightarrow> wire_out w' = wire_out w \<and> send_calls w' = send_calls w \<and> recv_calls w' = recv_calls w"

lemma same_sockets_simps [simp]:
  "same_sockets w w" "same_sockets w (w\<lparr>clock_reads := k\<rparr>)" "same_sockets w (to_callback p c w)"
  by (simp_all add: same_sockets_def to_callback_def)

lemma release_then_ok:
  assumes "client_ok c" "pending ct (Some pid) (mq_view (mq c))" "answer \<in> {PUBREL, PUBCOMP}"
  shows "\<exists>rv c' w'. release_then net ct answer pid c w = Some (if rv = MQTT_OK then None else Some rv, c', w') \<and>
    client_ok c' \<and> same_buffer c c' \<and> delivered w' = delivered w \<and> same_sockets w w' \<and>
    requested (complete_first (sought ct (Some pid)) (mq_view (mq c))) answer (Some pid) (pubxxx_packet answer pid) (client_error c) rv c'"
proof -
  let ?w = "w\<lparr>clock_reads := clock_reads w + 1\<rparr>"
  obtain c1 where r: "release net ct (Some pid) averaged c w = (None, c1, ?w)" "client_ok c1"
    "mq_view (mq c1) = complete_first (sought ct (Some pid)) (mq_view (mq c))" "same_but_queue c c1"
    using release_ok [OF assms(1,2)] by blast
  have "answer \<in> {PUBACK, PUBREC, PUBREL, PUBCOMP}" using assms(3) by auto
  from staged_ok [OF r(2) this] obtain rv c' where
    s: "staged (mqtt_pubxxx answer pid (stale_at net (recv_calls ?w)) c1) ?w = Some (if rv = MQTT_OK then None else Some rv, c', ?w)"
    "client_ok c'" "same_but_queue (c1\<lparr>client_error := rv\<rparr>) c'"
    "requested (mq_view (mq c1)) answer (Some pid) (pubxxx_packet answer pid) (client_error c1) rv c'"
    by blast
  have "release_then net ct answer pid c w = staged (mqtt_pubxxx answer pid (stale_at net (recv_calls ?w)) c1) ?w"
    by (simp add: release_then_def r(1))
  then show ?thesis using s r(3,4) by (simp add: same_but_queue_def same_buffer_def) blast
qed

lemma acknowledgment_ok:
  assumes "client_ok c" "releases d = Some (ct, pid, answer)" "readable (recv_mem c) d"
    and "\<not> repeated (mq_view (mq c)) d" "pending ct pid (mq_view (mq c))"
  shows "\<exists>r c' w'. handle_response net (fh, d) c w = Some (r, c', w') \<and> client_ok c' \<and> same_buffer c c' \<and>
    delivered w' = delivered w \<and> same_sockets w w' \<and> acknowledged c d r c'"
proof (cases answer)
  case None
  let ?w = "w\<lparr>clock_reads := clock_reads w + 1\<rparr>"
  define average where "average = (case d of Connack _ _ \<Rightarrow> (\<lambda>_ t. of_int t) | _ \<Rightarrow> averaged)"
  obtain c1 where r: "release net ct pid average c w = (None, c1, ?w)" "client_ok c1"
    "mq_view (mq c1) = complete_first (sought ct pid) (mq_view (mq c))" "same_but_queue c c1"
    using release_ok [OF assms(1,5)] by blast
  define res where "res = refusal (recv_mem c) d"
  define c' where "c' = (case res of None \<Rightarrow> c1 | Some e \<Rightarrow> c1\<lparr>client_error := e\<rparr>)"
  have "handle_response net (fh, d) c w = Some (res, c', ?w)"
    using assms(2,3) r(1,4)
    by (auto simp: None releases_def handle_response_def average_def res_def c'_def refusal_def fail_with_def
        readable_def rd8_in same_but_queue_def split: mqtt_decoded.splits)
  moreover have "client_ok c'"
    using r(2) by (auto simp: c'_def split: option.splits intro: client_ok_cong)
  moreover have "same_buffer c c'" "acknowledged c d res c'"
    using r(3,4) assms(2)
    by (auto simp: c'_def res_def same_buffer_def same_but_queue_def acknowledged_def None Let_def split: option.splits)
  ultimately show ?thesis by (intro exI [of _ res] exI [of _ c'] exI [of _ ?w]) simp
next
  case (Some after)
  obtain p where p: "pid = Some p" "after \<in> {PUBREL, PUBCOMP}" "handle_response net (fh, d) c w = release_then net ct after p c w"
    using assms(2,4)
    by (auto simp: Some releases_def handle_response_def repeated_def pending_find split: mqtt_decoded.splits)
  obtain rv c' w' where r: "release_then net ct after p c w = Some (if rv = MQTT_OK then None else Some rv, c', w')"
    "client_ok c'" "same_buffer c c'" "delivered w' = delivered w" "same_sockets w w'"
    "requested (complete_first (sought ct (Some p)) (mq_view (mq c))) after (Some p) (pubxxx_packet after p) (client_error c) rv c'"
    using release_then_ok [OF assms(1) assms(5) [unfolded p(1)] p(2)] by blast
  have "acknowledged c d (if rv = MQTT_OK then None else Some rv) c'"
    using r(6) assms(2) by (auto simp: acknowledged_def Some p(1) Let_def)
  then show ?thesis using r p(3) by auto
qed

lemma acknowledgment_unknown:
  assumes "releases d = Some (ct, pid, answer)" "\<not> repeated (mq_view (mq c)) d" "\<not> pending ct pid (mq_view (mq c))"
  shows "handle_response net (fh, d) c w = Some (fail_with MQTT_ERROR_ACK_OF_UNKNOWN c w)"
  using assms
  by (auto simp: releases_def handle_response_def repeated_def pending_find release_then_def release_unknown
      fail_with_def split: mqtt_decoded.splits)

lemma repeated_ok: "repeated (mq_view (mq c)) d \<Longrightarrow> handle_response net (fh, d) c w = Some (None, c, w)"
  by (auto simp: repeated_def handle_response_def pending_find)

section \<open>Publications\<close>

lemma publication_ok:
  assumes "client_ok c"
  shows "qos_level p \<noteq> 1 \<Longrightarrow> qos_level p \<noteq> 2 \<Longrightarrow> handle_publish net p c w = Some (None, c, to_callback p c w)"
    and "qos_level p = 2 \<Longrightarrow> pending PUBREC (Some (publish_id p)) (mq_view (mq c)) \<Longrightarrow>
      handle_publish net p c w = Some (None, c, w)"
    and "qos_level p = 1 \<and> ct = PUBACK \<or>
       qos_level p = 2 \<and> ct = PUBREC \<and> \<not> pending PUBREC (Some (publish_id p)) (mq_view (mq c)) \<Longrightarrow>
      \<exists>rv c'. handle_publish net p c w = Some (if rv = MQTT_OK then (None, c', to_callback p c w) else (Some rv, c', w)) \<and>
        client_ok c' \<and> same_buffer c c' \<and>
        requested (mq_view (mq c)) ct (Some (publish_id p)) (pubxxx_packet ct (publish_id p)) (client_error c) rv c'"
proof -
  show "qos_level p \<noteq> 1 \<Longrightarrow> qos_level p \<noteq> 2 \<Longrightarrow> handle_publish net p c w = Some (None, c, to_callback p c w)"
    by (simp add: handle_publish_def)
  show "qos_level p = 2 \<Longrightarrow> pending PUBREC (Some (publish_id p)) (mq_view (mq c)) \<Longrightarrow>
      handle_publish net p c w = Some (None, c, w)"
    by (simp add: handle_publish_def pending_find)
  assume ct: "qos_level p = 1 \<and> ct = PUBACK \<or>
       qos_level p = 2 \<and> ct = PUBREC \<and> \<not> pending PUBREC (Some (publish_id p)) (mq_view (mq c))"
  then have "ct \<in> {PUBACK, PUBREC, PUBREL, PUBCOMP}" by auto
  from staged_ok [OF assms this, of "publish_id p" "stale_at net (recv_calls w)" w] obtain rv c' where
    s: "staged (mqtt_pubxxx ct (publish_id p) (stale_at net (recv_calls w)) c) w = Some (if rv = MQTT_OK then None else Some rv, c', w)"
    "client_ok c'" "same_but_queue (c\<lparr>client_error := rv\<rparr>) c'"
    "requested (mq_view (mq c)) ct (Some (publish_id p)) (pubxxx_packet ct (publish_id p)) (client_error c) rv c'"
    by blast
  have same: "same_buffer c c'" using s(3) by (simp add: same_but_queue_def same_buffer_def)
  then have "to_callback p c' w = to_callback p c w" by (simp add: to_callback_def same_buffer_def)
  then have "handle_publish net p c w = Some (if rv = MQTT_OK then (None, c', to_callback p c w) else (Some rv, c', w))"
    using ct s(1) by (auto simp: handle_publish_def Let_def pending_find)
  then show "\<exists>rv c'. handle_publish net p c w = Some (if rv = MQTT_OK then (None, c', to_callback p c w) else (Some rv, c', w)) \<and>
        client_ok c' \<and> same_buffer c c' \<and>
        requested (mq_view (mq c)) ct (Some (publish_id p)) (pubxxx_packet ct (publish_id p)) (client_error c) rv c'"
    using s(2,4) same by blast
qed

text \<open>Every answer is handled.\<close>

lemma handled:
  assumes "client_ok c" "readable (recv_mem c) (snd resp)"
  shows "\<exists>r c' w'. handle_response net resp c w = Some (r, c', w') \<and> client_ok c' \<and> same_buffer c c' \<and> same_sockets w w'"
proof -
  obtain fh d where resp: "resp = (fh, d)" by (cases resp)
  have same: "same_buffer c c" by (simp add: same_buffer_def)
  have failed: "client_ok (c\<lparr>client_error := e\<rparr>)" "same_buffer c (c\<lparr>client_error := e\<rparr>)" for e
    using client_ok_cong [OF assms(1)] by (simp_all add: same_buffer_def)
  show ?thesis
  proof (cases "releases d")
    case (Some x)
    obtain ct pid answer where x: "x = (ct, pid, answer)" by (cases x)
    consider "repeated (mq_view (mq c)) d" | "\<not> repeated (mq_view (mq c)) d" "\<not> pending ct pid (mq_view (mq c))"
      | "\<not> repeated (mq_view (mq c)) d" "pending ct pid (mq_view (mq c))" by blast
    then show ?thesis
    proof cases
      case 1
      then show ?thesis using repeated_ok [OF 1] assms(1) same by (simp add: resp)
    next
      case 2
      then show ?thesis using acknowledgment_unknown [OF Some [unfolded x] 2] failed by (simp add: resp fail_with_def)
    next
      case 3
      show ?thesis unfolding resp
        using acknowledgment_ok [OF assms(1) Some [unfolded x] _ 3] assms(2) by (simp add: resp) blast
    qed
  next
    case None
    show ?thesis
    proof (cases "\<exists>p. d = Publish p")
      case True
      then obtain p where p: "d = Publish p" by blast
      have run: "handle_response net resp c w = handle_publish net p c w" by (simp add: handle_response_def resp p)
      consider "qos_level p \<noteq> 1" "qos_level p \<noteq> 2" | "qos_level p = 2" "pending PUBREC (Some (publish_id p)) (mq_view (mq c))"
        | ct where "qos_level p = 1 \<and> ct = PUBACK \<or>
       qos_level p = 2 \<and> ct = PUBREC \<and> \<not> pending PUBREC (Some (publish_id p)) (mq_view (mq c))" by blast
      then show ?thesis
      proof cases
        case 3
        from publication_ok(3) [OF assms(1) this, of net w] obtain rv c' where
          "handle_publish net p c w = Some (if rv = MQTT_OK then (None, c', to_callback p c w) else (Some rv, c', w))"
          "client_ok c'" "same_buffer c c'" by blast
        then show ?thesis by (cases "rv = MQTT_OK") (simp_all add: run)
      qed (use publication_ok(1,2) [OF assms(1)] assms(1) same run in simp_all)
    next
      case False
      then have "handle_response net resp c w = Some (fail_with MQTT_ERROR_MALFORMED_RESPONSE c w)"
        using None by (simp add: handle_response_def releases_def resp split: mqtt_decoded.splits)
      then show ?thesis using failed by (simp add: fail_with_def)
    qed
  qed
qed

section \<open>Turns of the loop\<close>

text \<open>\<open>recv\<close> does not answer more bytes than it was asked for.\<close>

definition honest :: "net \<Rightarrow> bool" where
  "honest net \<longleftrightarrow> (\<forall>k n vs. recv_at net k n = Received vs \<longrightarrow> length vs \<le> n)"

definition silent :: "net \<Rightarrow> nat \<Rightarrow> bool" where
  "silent net k \<longleftrightarrow> (\<forall>j \<ge> k. \<forall>n. recv_at net j n = Again)"

lemma recvall_ok:
  "honest net \<Longrightarrow> \<exists>r vs w'. mqtt_pal_recvall net room got w = Some (r, got @ vs, w') \<and> length vs \<le> room \<and>
     recv_calls w < recv_calls w' \<and> delivered w' = delivered w \<and> wire_out w' = wire_out w \<and>
     (silent net (recv_calls w) \<longrightarrow> vs = [])"
proof (induction net room got w rule: mqtt_pal_recvall.induct)
  case (1 net room got w)
  let ?r = "recv_at net (recv_calls w) room"
  let ?w = "w\<lparr>recv_calls := recv_calls w + 1\<rparr>"
  note step = mqtt_pal_recvall.simps [of net room got w]
  show ?case
  proof (cases ?r)
    case (Received vs)
    have len: "length vs \<le> room" using 1(2) Received by (simp add: honest_def)
    show ?thesis
    proof (cases "vs = []")
      case True
      then show ?thesis by (simp add: step Received)
    next
      case False
      have "\<not> room < length vs" using len by simp
      from "1.IH" [OF refl refl Received this False 1(2)] obtain r us w' where
        u: "mqtt_pal_recvall net (room - length vs) (got @ vs) ?w = Some (r, (got @ vs) @ us, w')" "length us \<le> room - length vs"
        "recv_calls ?w < recv_calls w'" "delivered w' = delivered w" "wire_out w' = wire_out w" by auto
      then have "mqtt_pal_recvall net room got w = Some (r, got @ (vs @ us), w')" using False len by (simp add: step Received)
      moreover have "length (vs @ us) \<le> room" using u(2) len by simp
      moreover have "\<not> silent net (recv_calls w)" using Received by (force simp: silent_def)
      ultimately show ?thesis using u(3-5) by (intro exI [of _ r] exI [of _ "vs @ us"] exI [of _ w']) simp
    qed
  qed (simp_all add: step)
qed

text \<open>A turn receives first.\<close>

definition filled :: "net \<Rightarrow> mqtt_client \<times> world \<Rightarrow> (mqtt_client \<times> world) outcome" where
  "filled net = (\<lambda>(c, w). do {
     (r, vs, w) \<leftarrow> mqtt_pal_recvall net (recv_curr_sz c) [] w;
     mem \<leftarrow> wr_bytes (recv_mem c) (recv_curr c) vs;
     let c = c\<lparr>recv_mem := mem\<rparr>;
     Some (case r of Some e \<Rightarrow> fail_with e c w
      | None \<Rightarrow> (None, c\<lparr>recv_curr := recv_curr c + length vs, recv_curr_sz := recv_curr_sz c - length vs\<rparr>, w))
   })"

definition parsed_turn :: "net \<Rightarrow> mqtt_client \<Rightarrow> world \<Rightarrow> (mqtt_client \<times> world) outcome" where
  "parsed_turn net c w = do {
     parse \<leftarrow> mqtt_unpack_response (Some (recv_mem c)) (recv_curr c);
     (case parse of
        Fail e \<Rightarrow> Some (fail_with e c w)
      | More \<Rightarrow>
        Some (if recv_curr_sz c = 0 then fail_with MQTT_ERROR_RECV_BUFFER_TOO_SMALL c w
              else (Some MQTT_OK, c, w))
      | Done k resp \<Rightarrow> do {
          (r, c, w) \<leftarrow> handle_response net resp c w;
          (case r of Some e \<Rightarrow> Some (Some e, c, w)
           | None \<Rightarrow> do { c \<leftarrow> consume k c; Some (None, c, w) })
        })
   }"

lemma recv_step_eq:
  "recv_step net (c, w) = do {
     (r, c, w) \<leftarrow> filled net (c, w);
     (case r of Some e \<Rightarrow> Some (Some e, c, w) | None \<Rightarrow> parsed_turn net c w) }"
  by (auto simp: recv_step_def filled_def parsed_turn_def fail_with_def Let_def split: option.splits Option.bind_split)

lemma filled_ok:
  assumes "client_ok c" "honest net"
  shows "\<exists>r c' w'. filled net (c, w) = Some (r, c', w') \<and> client_ok c' \<and> length (recv_mem c') = length (recv_mem c) \<and>
    mq c' = mq c \<and> recv_calls w < recv_calls w' \<and> delivered w' = delivered w \<and> wire_out w' = wire_out w \<and>
    (r = None \<longrightarrow> client_error c' = client_error c \<and>
      (\<exists>vs. take (recv_curr c') (recv_mem c') = take (recv_curr c) (recv_mem c) @ vs) \<and>
      (silent net (recv_calls w) \<longrightarrow> recv_curr c' = recv_curr c))"
proof -
  obtain r vs w' where r: "mqtt_pal_recvall net (recv_curr_sz c) [] w = Some (r, vs, w')" "length vs \<le> recv_curr_sz c"
    "recv_calls w < recv_calls w'" "delivered w' = delivered w" "wire_out w' = wire_out w"
    "silent net (recv_calls w) \<longrightarrow> vs = []"
    using recvall_ok [OF assms(2), of "recv_curr_sz c" "[]" w] by auto
  have buf: "recv_curr c \<le> length (recv_mem c)" "recv_curr_sz c = length (recv_mem c) - recv_curr c"
    using assms(1) by (simp_all add: client_ok_def)
  let ?mem = "splice (recv_mem c) (recv_curr c) vs"
  have mem: "wr_bytes (recv_mem c) (recv_curr c) vs = Some ?mem" "length ?mem = length (recv_mem c)"
    using wr_bytes_spliced [of "recv_curr c" vs "recv_mem c"] r(2) buf by (simp_all add: splice_def)
  let ?c = "c\<lparr>recv_mem := ?mem\<rparr>"
  have ok: "client_ok ?c" using assms(1) mem(2) by (simp add: client_ok_def)
  show ?thesis
  proof (cases r)
    case (Some e)
    have "client_ok (?c\<lparr>client_error := e\<rparr>)" by (rule client_ok_cong [OF ok]) simp_all
    then show ?thesis using r mem by (simp add: filled_def Some fail_with_def)
  next
    case None
    let ?c' = "?c\<lparr>recv_curr := recv_curr c + length vs, recv_curr_sz := recv_curr_sz c - length vs\<rparr>"
    have "client_ok ?c'" using ok r(2) buf by (simp add: client_ok_def)
    moreover have "take (recv_curr ?c') (recv_mem ?c') = take (recv_curr c) (recv_mem c) @ vs"
      using buf(1) by (simp add: splice_def)
    moreover have "filled net (c, w) = Some (None, ?c', w')" using r mem by (simp add: filled_def None)
    ultimately show ?thesis using r(3-6) mem(2) by (intro exI [of _ None] exI [of _ ?c'] exI [of _ w']) auto
  qed
qed

lemma unpack_Done:
  assumes "mqtt_unpack_response (Some buf) b = Some (Done k resp)" "b \<le> length buf"
  shows "2 \<le> k" "readable buf (snd resp)"
proof -
  obtain n fh d j where p: "mqtt_unpack_fixed_header (Some buf) b = Some (Done n fh)" "unpack_body fh buf n = Some (Done j d)"
    "k = n + j" "resp = (fh, d)"
    using assms(1) by (auto simp: mqtt_unpack_response_def split: Option.bind_splits parse.splits)
  then have n: "2 \<le> n" "n + unat (remaining_length fh) \<le> length buf"
    using unpack_fixed_header_safe [OF assms(2)] assms(2) by fastforce+
  show "2 \<le> k" using n p(3) by simp
  show "readable buf (snd resp)"
    unfolding readable_def
  proof (intro allI impI)
    fix pid codes m assume "snd resp = Suback pid codes m"
    then have "d = Suback pid codes m" using p(4) by simp
    then have "mqtt_unpack_suback_response fh buf n = Some (Done j (Suback pid codes m))"
      using p(2)
      by (auto simp: unpack_body_def Let_def mqtt_unpack_connack_response_def mqtt_unpack_publish_response_def
          mqtt_unpack_pubxxx_response_def mqtt_unpack_unsuback_response_def mqtt_unpack_subscribe_response_def
          split: if_splits Option.bind_splits)
    then show "codes < length buf"
      using n by (auto simp: mqtt_unpack_suback_response_def Let_def split: if_splits Option.bind_splits)
  qed
qed

lemma consume_ok:
  assumes "client_ok c" "k \<le> recv_curr c"
  shows "\<exists>c'. consume k c = Some c' \<and> client_ok c' \<and> mq c' = mq c \<and> client_error c' = client_error c \<and>
    recv_curr c' = recv_curr c - k \<and> length (recv_mem c') = length (recv_mem c) \<and>
    take (recv_curr c') (recv_mem c') = drop k (take (recv_curr c) (recv_mem c))"
proof -
  have buf: "recv_curr c \<le> length (recv_mem c)" "recv_curr_sz c = length (recv_mem c) - recv_curr c"
    using assms(1) by (simp_all add: client_ok_def)
  let ?vs = "take (recv_curr c - k) (drop k (recv_mem c))"
  let ?mem = "splice (recv_mem c) 0 ?vs"
  let ?c = "c\<lparr>recv_mem := ?mem, recv_curr := recv_curr c - k, recv_curr_sz := recv_curr_sz c + k\<rparr>"
  have len: "length ?vs = recv_curr c - k" "length ?mem = length (recv_mem c)"
    using buf assms(2) by (simp_all add: splice_def)
  have "rd_bytes (recv_mem c) k (recv_curr c - k) = Some ?vs" using buf assms(2) by (simp add: rd_bytes_in)
  moreover have "wr_bytes (recv_mem c) 0 ?vs = Some ?mem" using wr_bytes_spliced [of 0 ?vs "recv_mem c"] len(1) buf by simp
  ultimately have "consume k c = Some ?c" using assms(2) by (simp add: consume_def)
  moreover have "client_ok ?c" using assms buf len by (simp add: client_ok_def)
  moreover have "take (recv_curr ?c) (recv_mem ?c) = drop k (take (recv_curr c) (recv_mem c))"
    using len(1) by (simp add: splice_0 drop_take)
  ultimately show ?thesis using len(2) by (intro exI [of _ ?c]) simp
qed

text \<open>A turn that goes on has taken a packet out of the buffer.\<close>

lemma parsed_turn_result:
  assumes "client_ok c" "parsed_turn net c w = Some (r, c', w')"
  shows "client_ok c' \<and> recv_calls w' = recv_calls w \<and> length (recv_mem c') = length (recv_mem c) \<and>
    (r = None \<longrightarrow> recv_curr c' < recv_curr c)"
proof -
  have buf: "recv_curr c \<le> length (recv_mem c)" using assms(1) by (simp add: client_ok_def)
  have failed: "client_ok (c\<lparr>client_error := e\<rparr>)" for e by (rule client_ok_cong [OF assms(1)]) simp_all
  from assms(2) obtain p where p: "mqtt_unpack_response (Some (recv_mem c)) (recv_curr c) = Some p"
    by (auto simp: parsed_turn_def split: Option.bind_splits)
  show ?thesis
  proof (cases p)
    case (Done k resp)
    note k = unpack_Done [OF p [unfolded Done] buf]
    obtain r1 c1 w1 where h: "handle_response net resp c w = Some (r1, c1, w1)" "client_ok c1" "same_buffer c c1" "same_sockets w w1"
      using handled [OF assms(1) k(2)] by blast
    show ?thesis
    proof (cases r1)
      case (Some e)
      then show ?thesis
        using assms(2) h p by (simp add: parsed_turn_def Done same_buffer_def same_sockets_def) auto
    next
      case None
      then obtain c2 where c2: "consume k c1 = Some c2" "r = None" "c' = c2" "w' = w1"
        using assms(2) h(1) p by (auto simp: parsed_turn_def Done split: Option.bind_splits)
      then have "k \<le> recv_curr c1" by (auto simp: consume_def split: if_splits)
      with consume_ok [OF h(2) this] c2 k(1) h(3,4) show ?thesis
        by (auto simp: same_buffer_def same_sockets_def)
    qed
  qed (use assms p failed in \<open>auto simp: parsed_turn_def fail_with_def split: if_splits\<close>)
qed

text \<open>What the parser survives is handled, and the bytes behind it stay.\<close>

lemma parsed_turn_ok:
  assumes "client_ok c" "parseable (recv_mem c) (recv_curr c)"
  shows "\<exists>r c' w'. parsed_turn net c w = Some (r, c', w') \<and>
    (r = None \<longrightarrow> (\<exists>k resp. mqtt_unpack_response (Some (recv_mem c)) (recv_curr c) = Some (Done k resp) \<and>
      take (recv_curr c') (recv_mem c') = drop k (take (recv_curr c) (recv_mem c))))"
proof -
  have buf: "recv_curr c \<le> length (recv_mem c)" using assms(1) by (simp add: client_ok_def)
  obtain p where p: "mqtt_unpack_response (Some (recv_mem c)) (recv_curr c) = Some p" "response_inside p (recv_curr c)"
    using response_safe [OF buf assms(2)] by blast
  show ?thesis
  proof (cases p)
    case (Done k resp)
    note k = unpack_Done [OF p(1) [unfolded Done] buf]
    have le: "k \<le> recv_curr c" using p(2) by (simp add: response_inside_def Done split: prod.splits)
    obtain r1 c1 w1 where h: "handle_response net resp c w = Some (r1, c1, w1)" "client_ok c1" "same_buffer c c1"
      using handled [OF assms(1) k(2)] by blast
    show ?thesis
    proof (cases r1)
      case (Some e)
      then show ?thesis using h p(1) by (simp add: parsed_turn_def Done)
    next
      case None
      have "k \<le> recv_curr c1" using le h(3) by (simp add: same_buffer_def)
      from consume_ok [OF h(2) this] obtain c2 where "consume k c1 = Some c2"
        "take (recv_curr c2) (recv_mem c2) = drop k (take (recv_curr c1) (recv_mem c1))" by blast
      then show ?thesis using h p(1) by (simp add: parsed_turn_def Done None same_buffer_def)
    qed
  qed (use p(1) in \<open>simp_all add: parsed_turn_def fail_with_def\<close>)
qed

section \<open>The whole loop\<close>

text \<open>At most \<open>n\<close> turns; the result is \<open>None\<close> in the first place when they were not enough.\<close>

primrec recv_turns :: "net \<Rightarrow> nat \<Rightarrow> mqtt_client \<times> world \<Rightarrow> (mqtt_client \<times> world) outcome" where
  "recv_turns net 0 s = Some (None, s)"
| "recv_turns net (Suc n) s = do {
     (r, s) \<leftarrow> recv_step net s;
     (case r of Some e \<Rightarrow> Some (Some e, s) | None \<Rightarrow> recv_turns net n s)
   }"

text \<open>Every buffer of the first \<open>n\<close> turns holds what the parser survives.\<close>

primrec orderly :: "net \<Rightarrow> nat \<Rightarrow> mqtt_client \<times> world \<Rightarrow> bool" where
  "orderly net 0 s \<longleftrightarrow> True"
| "orderly net (Suc n) s \<longleftrightarrow> (case filled net s of
     Some (None, c, w) \<Rightarrow> parseable (recv_mem c) (recv_curr c) \<and>
       (case recv_step net s of Some (None, s') \<Rightarrow> orderly net n s' | _ \<Rightarrow> True)
   | _ \<Rightarrow> True)"

lemma recv_turns_recv:
  "case recv_turns net n (c, w) of
     None \<Rightarrow> mqtt_recv net c w = None
   | Some (Some e, c', w') \<Rightarrow> mqtt_recv net c w = Some (e, c', w')
   | Some (None, c', w') \<Rightarrow> mqtt_recv net c w = mqtt_recv net c' w'"
proof (induction n arbitrary: c w)
  case (Suc n)
  show ?case
  proof (cases "recv_step net (c, w)")
    case None
    then show ?thesis by (simp add: mqtt_recv.simps [of net c w])
  next
    case (Some x)
    obtain r c' w' where x: "x = (r, c', w')" by (cases x)
    show ?thesis
    proof (cases r)
      case None
      have "mqtt_recv net c w = mqtt_recv net c' w'" by (subst mqtt_recv.simps) (simp add: Some x None)
      then show ?thesis using Suc.IH [of c' w'] unfolding \<open>mqtt_recv net c w = mqtt_recv net c' w'\<close> by (simp add: Some x None)
    next
      case (Some e)
      then show ?thesis using \<open>recv_step net (c, w) = Some x\<close> by (subst mqtt_recv.simps) (simp add: x)
    qed
  qed
qed simp

lemma recv_step_result:
  assumes "client_ok c" "honest net" "recv_step net (c, w) = Some (r, c', w')"
  shows "client_ok c' \<and> recv_calls w < recv_calls w' \<and> length (recv_mem c') = length (recv_mem c) \<and>
    (r = None \<longrightarrow> silent net (recv_calls w) \<longrightarrow> recv_curr c' < recv_curr c)"
proof -
  obtain r1 c1 w1 where f: "filled net (c, w) = Some (r1, c1, w1)" "client_ok c1" "length (recv_mem c1) = length (recv_mem c)"
    "recv_calls w < recv_calls w1" "r1 = None \<longrightarrow> silent net (recv_calls w) \<longrightarrow> recv_curr c1 = recv_curr c"
    using filled_ok [OF assms(1,2), of w] by blast
  show ?thesis
  proof (cases r1)
    case (Some e)
    then show ?thesis using assms(3) f by (simp add: recv_step_eq) auto
  next
    case None
    then have "parsed_turn net c1 w1 = Some (r, c', w')" using assms(3) f(1) by (simp add: recv_step_eq)
    with parsed_turn_result [OF f(2) this] f(3-5) None show ?thesis by auto
  qed
qed

text \<open>
  A turn receives at least once; when the broker is silent, each turn leaves less in the buffer. So
  \<open>k\<close> turns and one for each byte of the buffer are enough.
\<close>

lemma recv_turns_end:
  assumes "client_ok c" "honest net" "silent net k"
    and "recv_calls w < k \<and> k + length (recv_mem c) < n + recv_calls w \<or> k \<le> recv_calls w \<and> recv_curr c < n"
    and "recv_turns net n (c, w) = Some (r, c', w')"
  shows "r \<noteq> None \<and> client_ok c'"
  using assms(1,4,5)
proof (induction n arbitrary: c w)
  case (Suc n)
  obtain r1 c1 w1 where s: "recv_step net (c, w) = Some (r1, c1, w1)"
    using Suc.prems(3) by (auto split: Option.bind_splits)
  note f = recv_step_result [OF Suc.prems(1) assms(2) s]
  show ?case
  proof (cases r1)
    case (Some e)
    then show ?thesis using Suc.prems(3) s f by (simp, auto)
  next
    case None
    have "silent net (recv_calls w)" if "k \<le> recv_calls w" using assms(3) that by (auto simp: silent_def)
    moreover have "recv_curr c1 \<le> length (recv_mem c1)" using f by (simp add: client_ok_def)
    ultimately have "recv_calls w1 < k \<and> k + length (recv_mem c1) < n + recv_calls w1 \<or> k \<le> recv_calls w1 \<and> recv_curr c1 < n"
      using Suc.prems(2) f None by (cases "recv_calls w1 < k") auto
    then show ?thesis using Suc.IH [of c1 w1] Suc.prems(3) s f None by simp
  qed
qed auto

lemma orderly_turns:
  assumes "client_ok c" "honest net" "orderly net n (c, w)"
  shows "recv_turns net n (c, w) \<noteq> None"
  using assms(1,3)
proof (induction n arbitrary: c w)
  case (Suc n)
  obtain r1 c1 w1 where f: "filled net (c, w) = Some (r1, c1, w1)" "client_ok c1"
    using filled_ok [OF Suc.prems(1) assms(2), of w] by blast
  show ?case
  proof (cases r1)
    case (Some e)
    then show ?thesis using f(1) by (simp add: recv_step_eq)
  next
    case None
    then have p: "parseable (recv_mem c1) (recv_curr c1)" using Suc.prems(2) f(1) by simp
    obtain r c' w' where t: "parsed_turn net c1 w1 = Some (r, c', w')" using parsed_turn_ok [OF f(2) p] by blast
    then have s: "recv_step net (c, w) = Some (r, c', w')" using f(1) None by (simp add: recv_step_eq)
    have "client_ok c'" using parsed_turn_result [OF f(2) t] by blast
    then show ?thesis using s Suc.IH [of c' w'] Suc.prems(2) f(1) None by (cases r) simp_all
  qed
qed simp

lemma mqtt_recv_turns:
  assumes "client_ok c" "honest net" "silent net k"
  shows "recv_turns net (k + length (recv_mem c) + 1) (c, w) = map_option (\<lambda>(rv, c, w). (Some rv, c, w)) (mqtt_recv net c w)"
    and "mqtt_recv net c w = Some (rv, c', w') \<Longrightarrow> client_ok c'"
proof -
  let ?n = "k + length (recv_mem c) + 1"
  have "recv_curr c \<le> length (recv_mem c)" using assms(1) by (simp add: client_ok_def)
  then have bound: "recv_calls w < k \<and> k + length (recv_mem c) < ?n + recv_calls w \<or> k \<le> recv_calls w \<and> recv_curr c < ?n"
    by linarith
  note run = recv_turns_recv [where net = net and n = ?n and c = c and w = w]
  have "(recv_turns net ?n (c, w) = map_option (\<lambda>(rv, c, w). (Some rv, c, w)) (mqtt_recv net c w)) \<and>
      (\<forall>rv c' w'. mqtt_recv net c w = Some (rv, c', w') \<longrightarrow> client_ok c')"
  proof (cases "recv_turns net ?n (c, w)")
    case None
    then show ?thesis using run by (simp del: recv_turns.simps)
  next
    case (Some x)
    obtain r c' w' where x: "x = (r, c', w')" by (cases x)
    have "r \<noteq> None \<and> client_ok c'" by (rule recv_turns_end [OF assms bound Some [unfolded x]])
    then show ?thesis using run unfolding Some x by auto
  qed
  then show "recv_turns net ?n (c, w) = map_option (\<lambda>(rv, c, w). (Some rv, c, w)) (mqtt_recv net c w)"
    and "mqtt_recv net c w = Some (rv, c', w') \<Longrightarrow> client_ok c'" by blast+
qed

lemma mqtt_recv_returns:
  assumes "client_ok c" "honest net" "silent net k" "orderly net (k + length (recv_mem c) + 1) (c, w)"
  shows "\<exists>rv c' w'. mqtt_recv net c w = Some (rv, c', w') \<and> client_ok c'"
  using mqtt_recv_turns [OF assms(1-3), of w] orderly_turns [OF assms(1,2,4)]
  by (auto simp del: recv_turns.simps orderly.simps)

text \<open>A publication that does not fit its remaining length makes the client move memory it does not have.\<close>

lemma overrun_turn:
  assumes "client_ok c" "mqtt_unpack_fixed_header (Some (recv_mem c)) (recv_curr c) = Some (Done n fh)"
    and "control_type fh = PUBLISH" "4 \<le> unat (remaining_length fh)" "\<not> publish_fits fh (recv_mem c) n"
    and "length (recv_mem c) < 2 ^ 32" "client_error c = MQTT_OK"
  shows "parsed_turn net c w = None \<or> (\<exists>c' w'. parsed_turn net c w = Some (Some MQTT_ERROR_SEND_BUFFER_IS_FULL, c', w'))"
proof -
  have buf: "recv_curr c \<le> length (recv_mem c)" using assms(1) by (simp add: client_ok_def)
  have n: "n + unat (remaining_length fh) \<le> recv_curr c"
    using unpack_fixed_header_safe [OF buf] assms(2) by fastforce
  then have room: "n + unat (remaining_length fh) \<le> length (recv_mem c)" using buf by linarith
  note body = publish_body_cases(2) [OF assms(3) room assms(4,5)]
  show ?thesis
  proof (cases "unpack_body fh (recv_mem c) n")
    case None
    then show ?thesis using assms(2) by (simp add: parsed_turn_def mqtt_unpack_response_def)
  next
    case (Some r)
    then obtain d where d: "unpack_body fh (recv_mem c) n = Some (Done (unat (remaining_length fh) + 2 ^ 32) d)"
      using body by auto
    then have "mqtt_unpack_publish_response fh (recv_mem c) n = Some (Done (unat (remaining_length fh) + 2 ^ 32) d)"
      using assms(3) by (simp add: unpack_body_def Let_def)
    then obtain p where p: "d = Publish p"
      by (auto simp: mqtt_unpack_publish_response_def Let_def split: if_splits Option.bind_splits)
    define k where "k = n + (unat (remaining_length fh) + 2 ^ 32)"
    have "mqtt_unpack_response (Some (recv_mem c)) (recv_curr c) = Some (Done k (fh, Publish p))"
      using assms(2) d by (simp add: mqtt_unpack_response_def p k_def)
    then have run: "parsed_turn net c w = do {
        (r, c, w) \<leftarrow> handle_publish net p c w;
        (case r of Some e \<Rightarrow> Some (Some e, c, w) | None \<Rightarrow> do { c \<leftarrow> consume k c; Some (None, c, w) }) }"
      by (simp add: parsed_turn_def handle_response_def)
    have over: "consume k c' = None" if "same_buffer c c'" for c'
      using assms(6) buf that by (simp add: consume_def same_buffer_def k_def)
    have same: "same_buffer c c" by (simp add: same_buffer_def)
    consider "qos_level p \<noteq> 1" "qos_level p \<noteq> 2" | "qos_level p = 2" "pending PUBREC (Some (publish_id p)) (mq_view (mq c))"
      | ct where "qos_level p = 1 \<and> ct = PUBACK \<or>
       qos_level p = 2 \<and> ct = PUBREC \<and> \<not> pending PUBREC (Some (publish_id p)) (mq_view (mq c))" by blast
    then show ?thesis
    proof cases
      case 3
      from publication_ok(3) [OF assms(1) this, of net w] obtain rv c' where
        h: "handle_publish net p c w = Some (if rv = MQTT_OK then (None, c', to_callback p c w) else (Some rv, c', w))"
        "same_buffer c c'" "requested (mq_view (mq c)) ct (Some (publish_id p)) (pubxxx_packet ct (publish_id p)) (client_error c) rv c'"
        by blast
      show ?thesis
      proof (cases "rv = MQTT_OK")
        case True
        then show ?thesis using h(1) over [OF h(2)] by (simp add: run)
      next
        case False
        then have "rv = MQTT_ERROR_SEND_BUFFER_IS_FULL" using h(3) assms(7) by (simp add: requested_def)
        then show ?thesis using h(1) by (simp add: run)
      qed
    qed (use publication_ok(1,2) [OF assms(1)] over [OF same] run in simp_all)
  qed
qed

end
