(* ===== verification/MqttSpec.thy ===== *)
theory MqttSpec
  imports MqttReceive
begin

text \<open>
  What the MQTT client promises: its packets are those of the encoding and read back as what was
  packed, a packet of the broker is read within its buffer, the queue is a list of packets, and the
  client keeps its state, sends what is due, releases what is acknowledged and hands publications to
  its callback. And where it does not: publications of 65536 bytes, wills, resent publications.
\<close>

section \<open>Packets\<close>

text \<open>The flags of a publication have four bits.\<close>

lemma four_bits: "ucast (ucast f :: u4) = take_bit 4 (f :: u8)"
  by (rule bit_word_eqI) (auto simp: bit_simps dest: bit_imp_le_length)

lemma flag_consts: "(6 :: u8) = take_bit 4 6" "(8 :: u8) = take_bit 4 8" "(1 :: u8) = take_bit 4 1"
  by (simp_all add: take_bit_eq_mod)

lemma four_bits_and: "k = take_bit 4 k \<Longrightarrow> take_bit 4 f AND k = f AND (k :: u8)"
  by (metis and.right_idem take_bit_and and.assoc and.commute take_bit_eq_mask)

lemma packed_flags:
  fixes f :: u8
  shows "publish_qos (ucast (ucast f :: u4)) = publish_qos f" "(ucast (ucast f :: u4) :: u8) AND 8 = f AND 8"
    "(ucast (ucast f :: u4) :: u8) AND 1 = f AND 1"
  unfolding publish_qos_def four_bits using four_bits_and flag_consts by metis+

lemma without_dup:
  fixes f :: u8
  shows "publish_qos (f AND NOT 8) = publish_qos f" "(f AND NOT 8) AND 8 = 0" "(f AND NOT 8) AND 1 = f AND 1"
  unfolding publish_qos_def by (simp_all add: flag_bits and.assoc)

text \<open>
  C16. A publication that was packed is read back: of the packet that the builder writes, whatever
  lies behind it, the parser consumes all and finds the topic, the message, the identifier (of a
  quality other than 0) and the flags it was built from; of quality 0 the duplicate flag is cleared.
  A packet with fewer than 4 bytes behind its header is too short for the parser.
\<close>

theorem publish_round_trip:
  fixes flags :: u8 and topic message :: bytes and pid :: u16
  assumes "length (publish_packet flags topic pid message) < 65536" "publish_qos flags \<noteq> 3"
    and "length (publish_packet flags topic pid message) \<le> bufsz" "bufsz \<le> length m"
    and "4 \<le> length (publish_fields topic (publish_qos flags \<noteq> 0) pid message)"
  shows "\<exists>n m' h p. mqtt_pack_publish_request (Some m) bufsz (Some topic) pid message (length message) flags = Some (Inr n, Some m') \<and>
    n = length (publish_packet flags topic pid message) \<and> mqtt_unpack_response (Some m') n = Some (Done n (h, Publish p)) \<and>
    qos_level p = publish_qos flags \<and> retain_flag p = flags AND 1 \<and>
    dup_flag p = (if publish_qos flags = 0 then 0 else drop_bit 3 (flags AND 8)) \<and>
    publish_id p = (if publish_qos flags = 0 then 0 else pid) \<and>
    rd_bytes m' (topic_name p) (unat (topic_name_size p)) = Some topic \<and>
    rd_bytes m' (application_message p) (application_message_size p) = Some message"
proof -
  let ?q = "publish_qos flags"
  define g where "g = (if ?q = 0 then flags AND NOT 8 else flags)"
  define f where "f = (ucast g :: u4)"
  have bits: "publish_qos (ucast f) = ?q" "(ucast f :: u8) AND 8 = (if ?q = 0 then 0 else flags AND 8)" "(ucast f :: u8) AND 1 = flags AND 1"
    unfolding f_def packed_flags g_def using without_dup [of flags] by (simp_all split: if_split)
  define body where "body = publish_fields topic (?q \<noteq> 0) pid message"
  have pkt: "publish_packet flags topic pid message = packet PUBLISH f body"
    by (simp add: publish_packet_fields Let_def f_def g_def body_def)
  define n where "n = length (packet PUBLISH f body)"
  define m' where "m' = packet PUBLISH f body @ drop n m"
  have pack: "mqtt_pack_publish_request (Some m) bufsz (Some topic) pid message (length message) flags = Some (Inr n, Some m')"
    using publish_ok [OF assms(1,2,4)] assms(3) by (simp add: builds_def pkt n_def m'_def)
  have small: "length body < 2 ^ 28" using assms(1) by (simp add: pkt packet_def)
  have topic: "length topic < 65536" using assms(1) by (simp add: pkt packet_def body_def publish_fields_def packed_cstrlen_def)
  let ?h = "header_bytes PUBLISH f (length body)"
  let ?fh = "\<lparr>control_type = PUBLISH, control_flags = f, remaining_length = of_nat (length body)\<rparr>"
  let ?p = "published (length ?h) f topic pid message"
  have "unpack_body ?fh (?h @ body @ drop n m) (length ?h) = Some (Done (length body) (Publish ?p))"
    using publish_fields_back [of topic f pid message ?h "length ?h" "drop n m"] small topic assms(5)
    by (simp add: bits body_def)
  then have parse: "mqtt_unpack_response (Some m') n = Some (Done n (?fh, Publish ?p))"
    using unpack_packet [OF rule_ok_types(2) _ small, of f "drop n m" n] by (simp add: m'_def n_def packet_def)
  have ut: "unat (of_nat (length topic) :: u16) = length topic" using topic by (simp add: unat_of_nat)
  have mem: "m' = ?h @ be16 (of_nat (length topic)) @ topic @ (if ?q = 0 then [] else be16 pid) @ message @ drop n m"
    by (simp add: m'_def packet_def body_def publish_fields_def str_bytes_def)
  have "rd_bytes m' (topic_name ?p) (unat (topic_name_size ?p)) = Some topic"
    using ut by (simp add: published_def Let_def mem rd_bytes_def)
  moreover have "rd_bytes m' (application_message ?p) (application_message_size ?p) = Some message"
    by (simp add: published_def Let_def mem rd_bytes_def bits packed_cstrlen_def)
  moreover have "qos_level ?p = ?q \<and> retain_flag ?p = flags AND 1 \<and>
      dup_flag ?p = (if ?q = 0 then 0 else drop_bit 3 (flags AND 8)) \<and> publish_id ?p = (if ?q = 0 then 0 else pid)"
    by (simp add: published_def Let_def bits del: drop_bit_and)
  moreover have "n = length (publish_packet flags topic pid message)" by (simp add: n_def pkt)
  ultimately show ?thesis using pack parse by blast
qed

lemma publish_round_trip_witness:
  "\<exists>n m' h p. mqtt_pack_publish_request (Some (replicate 20 0)) 20 (Some [97, 47, 98]) 7 [1, 2] (length [1 :: u8, 2]) 2 = Some (Inr n, Some m') \<and>
    n = length (publish_packet 2 [97, 47, 98] 7 [1, 2]) \<and> mqtt_unpack_response (Some m') n = Some (Done n (h, Publish p)) \<and>
    qos_level p = publish_qos 2 \<and> retain_flag p = 2 AND 1 \<and>
    dup_flag p = (if publish_qos 2 = 0 then 0 else drop_bit 3 (2 AND 8)) \<and>
    publish_id p = (if publish_qos 2 = 0 then 0 else 7) \<and>
    rd_bytes m' (topic_name p) (unat (topic_name_size p)) = Some [97, 47, 98] \<and>
    rd_bytes m' (application_message p) (application_message_size p) = Some [1, 2]"
  by (rule publish_round_trip)
    (simp_all add: publish_packet_def packet_def header_bytes_def varint.simps str_bytes_def publish_qos_def
      publish_fields_def packed_cstrlen_def Let_def)

text \<open>
  C17. Every builder writes the packet of its request, as the encoding has it, at the start of the
  buffer when there is room for it, and otherwise answers 0: acknowledgments, pings, disconnection,
  subscribing to and unsubscribing from fewer than 8 topics, publications of fewer than 65536 bytes
  that are not of quality 3, and connections without a will whose flags do not ask for quality 3; all
  strings being shorter than 65536 bytes. (C19 shows longer publications and connections with a will.)
\<close>

theorem requests_built:
  assumes "bufsz \<le> length m"
  shows "(ct \<in> {PUBACK, PUBREC, PUBREL, PUBCOMP} \<longrightarrow>
      builds (mqtt_pack_pubxxx_request (Some m) bufsz ct pid) m bufsz (length (pubxxx_packet ct pid)) (pubxxx_packet ct pid)) \<and>
    builds (mqtt_pack_ping_request (Some m) bufsz) m bufsz (length (packet PINGREQ 0 [])) (packet PINGREQ 0 []) \<and>
    builds (mqtt_pack_disconnect (Some m) bufsz) m bufsz (length (packet DISCONNECT 0 [])) (packet DISCONNECT 0 []) \<and>
    (length topics < 8 \<and> (\<forall>(t, qos) \<in> set topics. length t < 65536) \<longrightarrow>
      builds (mqtt_pack_subscribe_request (Some m) bufsz pid topics) m bufsz
        (length (subscribe_packet pid topics)) (subscribe_packet pid topics)) \<and>
    (length names < 8 \<and> (\<forall>t \<in> set names. length t < 65536) \<longrightarrow>
      builds (mqtt_pack_unsubscribe_request (Some m) bufsz pid names) m bufsz
        (length (unsubscribe_packet pid names)) (unsubscribe_packet pid names)) \<and>
    (length (publish_packet flags topic pid message) < 65536 \<and> publish_qos flags \<noteq> 3 \<longrightarrow>
      builds (mqtt_pack_publish_request (Some m) bufsz (Some topic) pid message (length message) flags)
        m bufsz (length (publish_packet flags topic pid message)) (publish_packet flags topic pid message)) \<and>
    ((\<forall>t \<in> insert cid (set_option user \<union> set_option pass). length t < 65536) \<and> flags AND 0x18 \<noteq> 0x18 \<longrightarrow>
      (let pkt = packet CONNECT 0 (connect_fields cid None user pass flags ka)
       in builds (mqtt_pack_connection_request (Some m) bufsz (Some cid) None None 0 user pass flags ka) m bufsz (length pkt) pkt))"
proof -
  have connect: "builds (mqtt_pack_connection_request (Some m) bufsz (Some cid) None None 0 user pass flags ka) m bufsz (length pkt) pkt"
    if s: "\<forall>t \<in> insert cid (set_option user \<union> set_option pass). length t < 65536" "flags AND 0x18 \<noteq> 0x18"
      and pkt: "pkt = packet CONNECT 0 (connect_fields cid None user pass flags ka)" for pkt
  proof -
    have opt: "length (optional_bytes x) < 65538" if "\<forall>t \<in> set_option x. length t < 65536" for x
      using that by (cases x) (simp_all add: optional_bytes_def packed_cstrlen_def)
    have "length (optional_bytes user) < 65538" "length (optional_bytes pass) < 65538" "length cid < 65536"
      using opt [of user] opt [of pass] s(1) by simp_all
    then have "connect_announced cid None user pass flags ka < 2 ^ 28"
      by (simp add: connect_announced_def connect_fields_def packed_cstrlen_def)
    then show ?thesis
      using connect_ok [of cid None user pass flags bufsz m ka] s assms by (simp add: pkt packet_def connect_announced_def)
  qed
  show ?thesis
    unfolding Let_def
  proof (intro conjI impI; (elim conjE)?)
    assume "ct \<in> {PUBACK, PUBREC, PUBREL, PUBCOMP}"
    from packet_builder.built [OF pubxxx_builder [OF this] assms]
    show "builds (mqtt_pack_pubxxx_request (Some m) bufsz ct pid) m bufsz (length (pubxxx_packet ct pid)) (pubxxx_packet ct pid)" .
  qed (fact ping_ok [OF assms] | rule subscribe_ok unsubscribe_ok publish_ok connect, (assumption | rule assms refl)+)+
qed

theorem requests_built_witness:
  "builds (mqtt_pack_pubxxx_request (Some (replicate 64 0)) 64 PUBREL 5) (replicate 64 0) 64
     (length (pubxxx_packet PUBREL 5)) (pubxxx_packet PUBREL 5) \<and>
   builds (mqtt_pack_subscribe_request (Some (replicate 64 0)) 64 5 [([97], 1), ([98, 99], 2)]) (replicate 64 0) 64
     (length (subscribe_packet 5 [([97], 1), ([98, 99], 2)])) (subscribe_packet 5 [([97], 1), ([98, 99], 2)]) \<and>
   builds (mqtt_pack_unsubscribe_request (Some (replicate 64 0)) 64 5 [[97], [98]]) (replicate 64 0) 64
     (length (unsubscribe_packet 5 [[97], [98]])) (unsubscribe_packet 5 [[97], [98]]) \<and>
   builds (mqtt_pack_publish_request (Some (replicate 64 0)) 64 (Some [97]) 5 [1, 2] (length [1 :: u8, 2]) 2) (replicate 64 0) 64
     (length (publish_packet 2 [97] 5 [1, 2])) (publish_packet 2 [97] 5 [1, 2]) \<and>
   builds (mqtt_pack_connection_request (Some (replicate 64 0)) 64 (Some [99]) None None 0 (Some [117]) None 2 60) (replicate 64 0) 64
     (length (packet CONNECT 0 (connect_fields [99] None (Some [117]) None 2 60)))
     (packet CONNECT 0 (connect_fields [99] None (Some [117]) None 2 60))"
proof -
  have "length (publish_packet 2 [97] 5 [1, 2]) < 65536" "publish_qos 2 \<noteq> 3"
    by (simp_all add: publish_packet_def publish_qos_def packet_def header_bytes_def publish_fields_def packed_cstrlen_def varint.simps)
  then show ?thesis
    using requests_built [where m = "replicate 64 0" and bufsz = 64 and ct = PUBREL and pid = 5
        and topics = "[([97], 1), ([98, 99], 2)]" and names = "[[97], [98]]" and flags = 2 and topic = "[97]"
        and message = "[1, 2]" and cid = "[99]" and user = "Some [117]" and pass = None and ka = 60]
    unfolding Let_def by simp
qed

text \<open>
  C18. For bytes received that can be parsed (\<open>parseable\<close>: the header is that of neither a \<open>CONNECT\<close> nor a
  \<open>SUBSCRIBE\<close>, and a publication has room for its topic and identifier in the length it announces),
  complete or not, the parser returns, and what it consumes, the topic, the message and the return
  codes lie within the bytes received. For other packets C15 shows that it need not.
\<close>

theorem response_bounds:
  assumes "b \<le> length buf" "parseable buf b"
  shows "\<exists>r. mqtt_unpack_response (Some buf) b = Some r \<and> response_inside r b"
  by (rule response_safe [OF assms])

lemma response_bounds_witness:
  "\<exists>r. mqtt_unpack_response (Some [0x40, 2, 0, 9, 0]) 5 = Some r \<and> response_inside r 5"
  by (rule response_bounds) (simp_all add: parseable_def mqtt_unpack_fixed_header_def unpack_length.simps rd8_def
      Let_def mqtt_fixed_header_rule_violation_def required_flags_def mask_required_flags_def control_type_is_valid_def)

text \<open>
  C19. What goes wrong: a publication of 65536 bytes or more asks for room for its length modulo 65536
  only, so the builder writes past the memory that a buffer of that size has; a connection with a
  will announces two bytes more than it consists of, for the length of the will message is not
  written; and a publication with fewer than 4 bytes behind its header, such as an empty message
  for a topic of one byte, is rejected as malformed.
\<close>

theorem packet_defects:
  assumes "bufsz \<le> length m" "length topic < 65536" "publish_qos flags \<noteq> 3"
  shows "(let vs = publish_fields topic (publish_qos flags \<noteq> 0) pid message;
       h = header_bytes PUBLISH (ucast (if publish_qos flags = 0 then flags AND NOT 8 else flags)) (length vs mod 65536)
     in length h + length vs mod 65536 \<le> bufsz \<and> length m < length h + length vs \<longrightarrow>
       mqtt_pack_publish_request (Some m) bufsz (Some topic) pid message (length message) flags = None) \<and>
    (let vs = connect_fields cid (Some (topic, will)) None None flags ka; h = header_bytes CONNECT 0 (length vs + 2)
     in length cid < 65536 \<and> flags AND 0x18 \<noteq> 0x18 \<and> length vs + 2 < 2 ^ 28 \<longrightarrow>
       builds (mqtt_pack_connection_request (Some m) bufsz (Some cid) (Some topic) (Some will) (length will) None None flags ka)
         m bufsz (length h + (length vs + 2)) (h @ vs)) \<and>
    (let body = publish_fields topic (publish_qos (ucast f) \<noteq> 0) pid message; pkt = packet PUBLISH f body
     in length body < 4 \<longrightarrow> mqtt_unpack_response (Some pkt) (length pkt) = Some (Fail MQTT_ERROR_MALFORMED_RESPONSE))"
proof -
  have announced: "connect_announced cid (Some (topic, will)) None None flags ka = length (connect_fields cid (Some (topic, will)) None None flags ka) + 2"
    by (simp add: connect_announced_def)
  have short: "mqtt_unpack_response (Some (packet PUBLISH f body)) (length (packet PUBLISH f body)) = Some (Fail MQTT_ERROR_MALFORMED_RESPONSE)"
    if "length body < 4" "body = publish_fields topic (publish_qos (ucast f) \<noteq> 0) pid message" for body
  proof -
    have small: "length body < 2 ^ 28" using that(1) by simp
    show ?thesis
      using unpack_packet [OF rule_ok_types(2) _ small, of f "[]" "length (packet PUBLISH f body)"]
        publish_fields_back [of topic f pid message "header_bytes PUBLISH f (length body)" _ "[]"] small assms(2) that
      by simp
  qed
  show ?thesis
    unfolding Let_def
  proof (intro conjI impI; (elim conjE)?)
    assume a: "length (header_bytes PUBLISH (ucast (if publish_qos flags = 0 then flags AND NOT 8 else flags))
        (length (publish_fields topic (publish_qos flags \<noteq> 0) pid message) mod 65536)) +
      length (publish_fields topic (publish_qos flags \<noteq> 0) pid message) mod 65536 \<le> bufsz"
      and "length m < length (header_bytes PUBLISH (ucast (if publish_qos flags = 0 then flags AND NOT 8 else flags))
        (length (publish_fields topic (publish_qos flags \<noteq> 0) pid message) mod 65536)) +
      length (publish_fields topic (publish_qos flags \<noteq> 0) pid message)"
    then show "mqtt_pack_publish_request (Some m) bufsz (Some topic) pid message (length message) flags = None"
      unfolding publish_long [OF assms(2,3,1) a] by (simp only: not_le [symmetric] if_False)
  next
    assume "length cid < 65536" "flags AND 0x18 \<noteq> 0x18"
      "length (connect_fields cid (Some (topic, will)) None None flags ka) + 2 < 2 ^ 28"
    then show "builds (mqtt_pack_connection_request (Some m) bufsz (Some cid) (Some topic) (Some will) (length will) None None flags ka)
        m bufsz (length (header_bytes CONNECT 0 (length (connect_fields cid (Some (topic, will)) None None flags ka) + 2)) +
          (length (connect_fields cid (Some (topic, will)) None None flags ka) + 2))
        (header_bytes CONNECT 0 (length (connect_fields cid (Some (topic, will)) None None flags ka) + 2) @
          connect_fields cid (Some (topic, will)) None None flags ka)"
      using connect_ok [of cid "Some (topic, will)" None None flags bufsz m ka] assms(1,2) unfolding announced by simp
  qed (rule short [OF _ refl])
qed

lemma packet_defects_witness:
  "mqtt_pack_publish_request (Some (replicate 100 0)) 100 (Some [97]) 7 (replicate 65537 0) (length (replicate 65537 (0 :: u8))) 0 = None"
proof -
  have qos: "publish_qos 0 = 0" by (simp add: publish_qos_def)
  have len: "length (publish_fields [97] (publish_qos 0 \<noteq> 0) 7 (replicate 65537 0)) = 65540"
    by (simp add: publish_fields_def packed_cstrlen_def qos)
  have "length (header_bytes PUBLISH f 4) = 2" for f by (simp add: header_bytes_def varint.simps)
  then show ?thesis
    using packet_defects [of 100 "replicate 100 0" "[97]" 0 7 "replicate 65537 0"] unfolding Let_def len by (simp add: qos)
qed

section \<open>The queue\<close>

text \<open>
  C20. The queue implements a list of packets with their states: it starts empty; a registered packet
  goes to its end, with the bytes that were put behind the others; cleaning drops, from its front,
  the complete ones and connections still waiting for their answer, and moves the others, whose
  bytes stay the same; a search finds the first message of
  the type that has the identifier, or that is not complete when none is asked for.
\<close>

theorem queue_refines:
  "mq_ok (mqtt_mq_init mem) \<and> mq_view (mqtt_mq_init mem) = [] \<and>
   (mq_ok q \<and> length buf = length (mq_free q) \<and> 0 < n \<and> n \<le> mq_curr_sz q \<longrightarrow>
     (\<exists>q'. mqtt_mq_register stale (mq_store q buf) n = Some q' \<and> mq_ok q' \<and>
       mq_view q' = mq_view q @ [(stale\<lparr>msg_start := 0, msg_size := n, msg_state := UNSENT\<rparr>, take n buf)])) \<and>
   (mq_ok q \<longrightarrow> (\<exists>q'. mqtt_mq_clean q = Some q' \<and> mq_ok q' \<and> mq_view q' = dropWhile mq_done (mq_view q))) \<and>
   mqtt_mq_find q ct pid = (let k = length (takeWhile (\<lambda>v. \<not> sought ct pid (fst v)) (mq_view q))
     in if k < length (mq_view q) then Some k else None)"
proof -
  have "length (takeWhile (\<lambda>v. \<not> sought ct pid (fst v)) (mq_view q)) = length (takeWhile (\<lambda>m. \<not> sought ct pid m) (mq_msgs q))"
    by (simp add: mq_view_def takeWhile_map comp_def sought_view)
  then have "mqtt_mq_find q ct pid = (let k = length (takeWhile (\<lambda>v. \<not> sought ct pid (fst v)) (mq_view q))
     in if k < length (mq_view q) then Some k else None)"
    by (simp add: mqtt_mq_find_def find_from_eq Let_def)
  then show ?thesis using mq_init_ok [of mem] mq_register_ok [of q buf n stale] mq_clean_ok [of q] by blast
qed

lemma queue_refines_witness:
  "let stale = \<lparr>msg_start = 0, msg_size = 0, msg_state = COMPLETE, time_sent = 0, msg_type = PINGREQ, packet_id = 9\<rparr>
   in \<exists>q'. mqtt_mq_register stale (mq_store (mqtt_mq_init (replicate 100 0)) (replicate 100 7)) 5 = Some q' \<and> mq_ok q' \<and>
     mq_view q' = mq_view (mqtt_mq_init (replicate 100 0)) @ [(stale\<lparr>msg_start := 0, msg_size := 5, msg_state := UNSENT\<rparr>, take 5 (replicate 100 7))]"
proof -
  have "length (mq_free (mqtt_mq_init (replicate 100 0))) = 100" "mq_curr_sz (mqtt_mq_init (replicate 100 0)) = 60"
    by (simp_all add: mq_free_def mqtt_mq_init_def mq_tail_def mqtt_mq_currsz_def)
  then show ?thesis
    using queue_refines [of "replicate 100 0" "mqtt_mq_init (replicate 100 0)" "replicate 100 7" 5]
    by (simp add: mq_init_ok)
qed

section \<open>The client\<close>

text \<open>An operation returns, and leaves the client well formed.\<close>

definition yields :: "(mqtt_errors \<times> mqtt_client) option \<Rightarrow> bool" where
  "yields r \<longleftrightarrow> (case r of None \<Rightarrow> False | Some (_, c) \<Rightarrow> client_ok c)"

lemma yields_request: "packet_builder pack need pkt \<Longrightarrow> client_ok c \<Longrightarrow> ct \<in> request_types \<Longrightarrow> yields (request pack ct pid stale c)"
  using packet_builder.requested_ok [of pack need pkt c ct pid stale] by (auto simp: yields_def)

lemma yields_with_pid:
  assumes "client_ok c" "pid_left c" "\<And>pid c. client_ok c \<Longrightarrow> yields (act pid c)"
  shows "yields (with_pid act c)"
proof -
  obtain pid where "with_pid act c = act pid (c\<lparr>pid_lfsr := pid\<rparr>)" using next_pid_ok [OF assms(2)] by blast
  moreover have "client_ok (c\<lparr>pid_lfsr := pid\<rparr>)" by (rule client_ok_cong [OF assms(1)]) simp_all
  ultimately show ?thesis using assms(3) by simp
qed

text \<open>What the builders of the client's requests ask for.\<close>

definition connectable :: "bytes \<Rightarrow> (bytes \<times> bytes) option \<Rightarrow> bytes option \<Rightarrow> bytes option \<Rightarrow> u8 \<Rightarrow> u16 \<Rightarrow> bool" where
  "connectable cid will user pass flags ka \<longleftrightarrow>
     (\<forall>t \<in> insert cid (set_option (map_option fst will) \<union> set_option user \<union> set_option pass). length t < 65536) \<and>
     flags AND 0x18 \<noteq> 0x18 \<and> connect_announced cid will user pass flags ka < 2 ^ 28"

definition publishable :: "bytes \<Rightarrow> bytes \<Rightarrow> u8 \<Rightarrow> bool" where
  "publishable topic message flags \<longleftrightarrow> length topic + length message < 65500 \<and> publish_qos flags \<noteq> 3"

lemma publishable_builder:
  assumes "publishable topic message flags"
  shows "packet_builder (\<lambda>p n. mqtt_pack_publish_request p n (Some topic) pid message (length message) flags)
    (length (publish_packet flags topic pid message)) (publish_packet flags topic pid message)"
proof (rule publish_builder)
  have body: "length (publish_fields topic (publish_qos flags \<noteq> 0) pid message) < 65505"
    using assms by (simp add: publishable_def publish_fields_def packed_cstrlen_def)
  then have "length (varint (length (publish_fields topic (publish_qos flags \<noteq> 0) pid message))) \<le> 4"
    by (intro length_varint_28) simp
  then show "length (publish_packet flags topic pid message) < 65536"
    using body by (simp add: publish_packet_fields Let_def packet_def header_bytes_def)
qed (use assms in \<open>simp add: publishable_def\<close>)

lemma connect_yields:
  assumes "client_ok c" "connectable cid will user pass flags ka"
  shows "yields (mqtt_connect (Some cid) (map_option fst will) (map_option snd will)
    (case will of None \<Rightarrow> 0 | Some (t, w) \<Rightarrow> length w) user pass flags ka stale c)"
proof -
  have b: "packet_builder (\<lambda>p k. mqtt_pack_connection_request p k (Some cid) (map_option fst will)
    (map_option snd will) (case will of None \<Rightarrow> 0 | Some (t, w) \<Rightarrow> length w) user pass flags ka)
      (length (header_bytes CONNECT 0 (connect_announced cid will user pass flags ka)) + connect_announced cid will user pass flags ka)
      (header_bytes CONNECT 0 (connect_announced cid will user pass flags ka) @ connect_fields cid will user pass flags ka)"
    using assms(2) unfolding connectable_def by (intro connect_builder) blast+
  have c: "client_ok (c\<lparr>keep_alive := ka\<rparr>)" "client_ok (c\<lparr>keep_alive := ka, client_error := MQTT_OK\<rparr>)"
    by (rule client_ok_cong [OF assms(1)]; simp)+
  show ?thesis
    unfolding mqtt_connect_def Let_def by (rule yields_request [OF b]) (use c in \<open>auto simp: request_types_def\<close>)
qed

lemma publish_yields:
  assumes "client_ok c" "publishable topic message flags" "pid_left c"
  shows "yields (mqtt_publish (Some topic) message (length message) flags stale c)"
  unfolding mqtt_publish_def
  by (rule yields_with_pid [OF assms(1,3) yields_request [OF publishable_builder [OF assms(2)]]])
    (simp_all add: request_types_def)

lemma topic_yields:
  assumes "client_ok c" "length topic < 65536" "pid_left c"
  shows "yields (mqtt_subscribe (Some topic) qos stale c)" "yields (mqtt_unsubscribe (Some topic) stale c)"
proof -
  have n: "length [x] < 8" for x :: 'b by simp
  have sub: "\<forall>(t, qos) \<in> set [(topic, qos)]. length t < 65536" and unsub: "\<forall>t \<in> set [topic]. length t < 65536"
    using assms(2) by simp_all
  show "yields (mqtt_subscribe (Some topic) qos stale c)"
    unfolding mqtt_subscribe_def option.case
    by (rule yields_with_pid [OF assms(1,3) yields_request [OF subscribe_builder [OF n sub]]]) (simp_all add: request_types_def)
  show "yields (mqtt_unsubscribe (Some topic) stale c)"
    unfolding mqtt_unsubscribe_def option.case
    by (rule yields_with_pid [OF assms(1,3) yields_request [OF unsubscribe_builder [OF n unsub]]]) (simp_all add: request_types_def)
qed

lemma small_yields:
  assumes "client_ok c"
  shows "ct \<in> {PUBACK, PUBREC, PUBREL, PUBCOMP} \<Longrightarrow> yields (mqtt_pubxxx ct pid stale c)"
    "yields (mqtt_ping stale c)" "yields (mqtt_disconnect stale c)"
    "yields (map_option (\<lambda>(rv, c', w'). (rv, c')) (mqtt_send net c w))"
proof -
  have types: "{PUBACK, PUBREC, PUBREL, PUBCOMP, PINGREQ, DISCONNECT} \<subseteq> request_types"
    by (simp add: request_types_def)
  show "ct \<in> {PUBACK, PUBREC, PUBREL, PUBCOMP} \<Longrightarrow> yields (mqtt_pubxxx ct pid stale c)"
    unfolding mqtt_pubxxx_def using yields_request [OF pubxxx_builder assms, of ct ct pid "Some pid" stale] types by auto
  show "yields (mqtt_ping stale c)" "yields (mqtt_disconnect stale c)"
    using ping.requested_ok [OF assms, of PINGREQ None stale] disconnect.requested_ok [OF assms, of DISCONNECT None stale] types
    by (auto simp: yields_def mqtt_ping_def mqtt_disconnect_def)
  show "yields (map_option (\<lambda>(rv, c', w'). (rv, c')) (mqtt_send net c w))"
    using mqtt_send_ok [OF assms, of net w] by (auto simp: yields_def)
qed

text \<open>
  C10. A client is well formed once it is initialised, which null pointers are refused for, and on a
  well-formed client these operations return and leave it well formed, whether the request was queued
  or refused and whatever the memory of a new record held: acknowledgments, pings, disconnection and
  \<open>mqtt_send\<close> always; connecting with strings of fewer than 65536 bytes, a total below \<open>2 ^ 28\<close> and not both
  bits of the will's quality set; publishing fewer than 65500 bytes, not with quality 3, and
  subscribing to or unsubscribing from a name of fewer than 65536 bytes, as long as one of the
  identifiers is free. (C19 and C21 show what happens to longer publications and without a free
  identifier.) Well formed: the packets lie one behind the other in the queue's memory, clear of the
  records, each record is of a type that a client sends, and the receive buffer's counts add up.
\<close>

theorem client_typed:
  "(\<exists>c'. mqtt_init (Some c) (Some mem) (Some buf) = (MQTT_OK, Some c') \<and> client_ok c') \<and>
   (client = None \<or> sendbuf = None \<or> recvbuf = None \<longrightarrow> mqtt_init client sendbuf recvbuf = (MQTT_ERROR_NULLPTR, client)) \<and>
   client_ok (mqtt_reinit c mem buf) \<and>
   (client_ok c \<longrightarrow>
     (connectable cid will user pass flags ka \<longrightarrow> yields (mqtt_connect (Some cid) (map_option fst will) (map_option snd will)
         (case will of None \<Rightarrow> 0 | Some (t, w) \<Rightarrow> length w) user pass flags ka stale c)) \<and>
     (publishable topic message flags \<and> pid_left c \<longrightarrow> yields (mqtt_publish (Some topic) message (length message) flags stale c)) \<and>
     (length topic < 65536 \<and> pid_left c \<longrightarrow>
        yields (mqtt_subscribe (Some topic) qos stale c) \<and> yields (mqtt_unsubscribe (Some topic) stale c)) \<and>
     (ct \<in> {PUBACK, PUBREC, PUBREL, PUBCOMP} \<longrightarrow> yields (mqtt_pubxxx ct pid stale c)) \<and>
     yields (mqtt_ping stale c) \<and> yields (mqtt_disconnect stale c) \<and>
     yields (map_option (\<lambda>(rv, c', w'). (rv, c')) (mqtt_send net c w)))"
proof -
  have "\<exists>c'. mqtt_init (Some c) (Some mem) (Some buf) = (MQTT_OK, Some c') \<and> client_ok c'"
    using mq_init_ok [of mem] by (simp add: mqtt_init_def client_ok_def mqtt_mq_init_def Let_def)
  moreover have "client_ok (mqtt_reinit c mem buf)"
    using mq_init_ok [of mem] by (simp add: mqtt_reinit_def client_ok_def mqtt_mq_init_def Let_def)
  moreover have "client = None \<or> sendbuf = None \<or> recvbuf = None \<longrightarrow> mqtt_init client sendbuf recvbuf = (MQTT_ERROR_NULLPTR, client)"
    by (auto simp: mqtt_init_def split: option.splits)
  ultimately show ?thesis
    using connect_yields [of c cid will user pass flags ka stale] publish_yields [of c topic message flags stale]
      topic_yields(1) [of c topic qos stale] topic_yields(2) [of c topic stale] small_yields(1) [of c ct pid stale]
      small_yields(2,3) [of c stale] small_yields(4) [of c net w] by blast
qed

text \<open>A client in zeroed memory, and a record and a socket for examples.\<close>

definition zero_record :: queued_message where
  "zero_record = \<lparr>msg_start = 0, msg_size = 0, msg_state = COMPLETE, time_sent = 0, msg_type = 0, packet_id = 0\<rparr>"

definition zero_client :: mqtt_client where
  "zero_client = \<lparr>pid_lfsr = 0, keep_alive = 0, number_of_keep_alives = 0, time_of_last_send = 0,
     client_error = MQTT_OK, response_timeout = 30, number_of_timeouts = 0, typical_response_time = 0,
     recv_mem = replicate 4 0, recv_curr = 0, recv_curr_sz = 4,
     mq = mqtt_mq_init (replicate 200 0)\<rparr>"

definition pong_net :: net where
  "pong_net = \<lparr>time_at = int, send_at = (\<lambda>_ n. int n),
     recv_at = (\<lambda>k n. if k = 0 \<and> 2 \<le> n then Received [0xD0, 0] else Again), stale_at = (\<lambda>_. zero_record)\<rparr>"

definition first_world :: world where
  "first_world = \<lparr>clock_reads = 0, send_calls = 0, recv_calls = 0, wire_out = [], delivered = []\<rparr>"

definition pinging_client :: mqtt_client where
  "pinging_client = zero_client\<lparr>mq := \<lparr>mq_mem = [0xC0, 0] @ replicate 198 0, mq_curr = 2, mq_curr_sz = 118,
     mq_msgs = [\<lparr>msg_start = 0, msg_size = 2, msg_state = AWAITING_ACK, time_sent = 0, msg_type = PINGREQ, packet_id = 0\<rparr>]\<rparr>\<rparr>"

definition publishing_client :: mqtt_client where
  "publishing_client = zero_client\<lparr>mq := \<lparr>mq_mem = [0x32, 5, 0, 1, 97, 0, 7] @ replicate 193 0, mq_curr = 7, mq_curr_sz = 113,
     mq_msgs = [\<lparr>msg_start = 0, msg_size = 7, msg_state = UNSENT, time_sent = 0, msg_type = PUBLISH, packet_id = 7\<rparr>]\<rparr>\<rparr>"

lemma example_clients: "client_ok zero_client" "client_ok pinging_client"
  using mq_init_ok [of "replicate 200 0"]
  by (simp_all add: zero_client_def pinging_client_def client_ok_def mq_ok_def mqtt_mq_init_def Let_def
      mqtt_mq_currsz_def mq_tail_def msg_ok_def request_types_def)

theorem client_typed_witness:
  "yields (mqtt_publish (Some [97]) [1, 2] (length [1 :: u8, 2]) 2 zero_record zero_client) \<and>
   yields (mqtt_subscribe (Some [97]) 1 zero_record zero_client) \<and>
   yields (mqtt_connect (Some [99]) None None 0 None None 0 60 zero_record zero_client) \<and>
   yields (mqtt_pubxxx PUBREL 5 zero_record zero_client) \<and> yields (mqtt_ping zero_record zero_client)"
proof -
  have "publishable [97] [1, 2] 2" by (simp add: publishable_def publish_qos_def)
  moreover have "connectable [99] None None None 0 60"
    by (simp add: connectable_def connect_announced_def connect_fields_def packed_cstrlen_def optional_bytes_def)
  moreover have "pid_left zero_client"
    unfolding pid_left_def zero_client_def by (rule exI [of _ 1]) (simp add: mqtt_mq_init_def Let_def)
  ultimately show ?thesis
    using client_typed [where c = zero_client and topic = "[97]" and message = "[1, 2]" and flags = 2 and ct = PUBREL
        and pid = 5 and stale = zero_record and qos = 1]
      client_typed [where c = zero_client and cid = "[99]" and will = None and user = None and pass = None and flags = 0
        and ka = 60 and stale = zero_record] example_clients(1) by simp
qed

text \<open>
  C11. Sending: unless the client is in an error state (a full buffer does not count), or the socket fails,
  \<open>mqtt_send\<close> puts on the wire, whole and in the order of the queue, exactly these packets: every new
  one, and every one that was sent more than the response timeout ago, by the clock read when its turn
  came, and still awaits its answer; except a publication of quality 2 that stands behind another one
  of quality 2 not complete. What was sent is stamped with the time read after it, and is complete or
  awaits its acknowledgment; a publication of quality 1 gets a bit set in its second byte; everything
  else stays as it was. All readings of the clock are taken during the call. When the keep-alive time
  is over a ping is requested.
\<close>

theorem send_flushes:
  assumes "client_ok c"
  shows "\<exists>rv c' w'. mqtt_send net c w = Some (rv, c', w') \<and> client_ok c' \<and> delivered w' = delivered w \<and>
    (if client_error c \<in> {MQTT_OK, MQTT_ERROR_SEND_BUFFER_IS_FULL}
     then rv = MQTT_ERROR_SOCKET_ERROR \<and> client_error c' = rv \<and> socket_fails net \<or> sends net c w rv c' w'
     else (rv, c', w') = (client_error c, c, w))"
  by (rule mqtt_send_ok [OF assms])

theorem send_flushes_witness:
  "\<exists>rv c' w'. mqtt_send pong_net pinging_client first_world = Some (rv, c', w') \<and> client_ok c' \<and>
    delivered w' = delivered first_world \<and> sends pong_net pinging_client first_world rv c' w'"
proof -
  have "\<not> socket_fails pong_net" "client_error pinging_client = MQTT_OK"
    by (simp_all add: socket_fails_def pong_net_def pinging_client_def zero_client_def)
  then show ?thesis using send_flushes [OF example_clients(2), of pong_net first_world] by simp
qed

text \<open>
  C12. An acknowledgment completes the first message of the queue it belongs to and no other, and then
  requests the next packet of its exchange: \<open>PUBREL\<close> after \<open>PUBREC\<close>, \<open>PUBCOMP\<close> after \<open>PUBREL\<close>.
  A refused connection or subscription is reported. When nothing in the queue is acknowledged by it
  the client is in error; a \<open>PUBREC\<close> whose \<open>PUBREL\<close> is in the queue already changes nothing.
\<close>

theorem acknowledgment_releases:
  assumes "client_ok c" "releases d = Some (ct, pid, answer)" "readable (recv_mem c) d"
  shows "if repeated (mq_view (mq c)) d then handle_response net (fh, d) c w = Some (None, c, w)
    else if pending ct pid (mq_view (mq c)) then
      \<exists>r c' w'. handle_response net (fh, d) c w = Some (r, c', w') \<and> client_ok c' \<and> same_buffer c c' \<and>
        delivered w' = delivered w \<and> same_sockets w w' \<and> acknowledged c d r c'
    else handle_response net (fh, d) c w = Some (fail_with MQTT_ERROR_ACK_OF_UNKNOWN c w)"
  using repeated_ok acknowledgment_ok [OF assms] acknowledgment_unknown [OF assms(2)] by simp

lemma acknowledgment_releases_witness:
  "\<exists>r c' w'. handle_response pong_net (\<lparr>control_type = PINGRESP, control_flags = 0, remaining_length = 0\<rparr>, Pingresp) pinging_client first_world =
       Some (r, c', w') \<and> client_ok c' \<and> same_buffer pinging_client c' \<and> delivered w' = delivered first_world \<and>
     same_sockets first_world w' \<and> acknowledged pinging_client Pingresp r c'"
proof -
  have "releases Pingresp = Some (PINGREQ, None, None)" "readable (recv_mem pinging_client) Pingresp"
    "\<not> repeated (mq_view (mq pinging_client)) Pingresp" "pending PINGREQ None (mq_view (mq pinging_client))"
    by (simp_all add: releases_def readable_def repeated_def pending_def pinging_client_def mq_view_def view_msg_def sought_def)
  then show ?thesis
    using acknowledgment_releases [OF example_clients(2), of Pingresp PINGREQ None None pong_net _ first_world] by simp
qed

text \<open>
  C13. A publication of the broker is handed to the callback, with its topic and message: of quality 0
  at once; of quality 1 once the \<open>PUBACK\<close> could be queued; of quality 2 once the \<open>PUBREC\<close> could,
  and not at all when the queue holds a \<open>PUBREC\<close> with its identifier, be that one complete or not.
\<close>

theorem publications_delivered:
  assumes "client_ok c"
  shows "let id = publish_id p; view = mq_view (mq c); ct = (if qos_level p = 1 then PUBACK else PUBREC)
    in if qos_level p \<noteq> 1 \<and> qos_level p \<noteq> 2 then
        handle_response net (fh, Publish p) c w = Some (None, c, to_callback p c w)
      else if qos_level p = 2 \<and> pending PUBREC (Some id) view then
        handle_response net (fh, Publish p) c w = Some (None, c, w)
      else \<exists>rv c'. handle_response net (fh, Publish p) c w =
          Some (if rv = MQTT_OK then (None, c', to_callback p c w) else (Some rv, c', w)) \<and>
        client_ok c' \<and> same_buffer c c' \<and> requested view ct (Some id) (pubxxx_packet ct id) (client_error c) rv c'"
proof -
  have run: "handle_response net (fh, Publish p) c w = handle_publish net p c w" by (simp add: handle_response_def)
  show ?thesis
    unfolding Let_def run using publication_ok [OF assms, of p] by (simp split: if_split)
qed

lemma publications_delivered_witness:
  "\<exists>rv c'. handle_response pong_net (\<lparr>control_type = PUBLISH, control_flags = 4, remaining_length = 5\<rparr>, Publish (published 2 4 [97] 7 [])) zero_client first_world =
       Some (if rv = MQTT_OK then (None, c', to_callback (published 2 4 [97] 7 []) zero_client first_world) else (Some rv, c', first_world)) \<and>
     client_ok c' \<and> same_buffer zero_client c' \<and>
     requested (mq_view (mq zero_client)) PUBREC (Some 7) (pubxxx_packet PUBREC 7) (client_error zero_client) rv c'"
proof -
  let ?p = "published 2 4 [97] 7 []"
  have "qos_level ?p = 2" "publish_id ?p = 7" by (simp_all add: published_def Let_def publish_qos_def)
  moreover have "\<not> pending PUBREC (Some 7) (mq_view (mq zero_client))" by (simp add: zero_client_def mq_init_ok pending_def)
  ultimately show ?thesis
    using publications_delivered [OF example_clients(1), of ?p pong_net _ first_world] unfolding Let_def by simp
qed

text \<open>What the callbacks of \<open>mqtt_sync\<close> leave of the client, and the inspector's verdict.\<close>

definition prepared ::
  "(mqtt_client \<Rightarrow> mqtt_client) option \<Rightarrow> (mqtt_client \<Rightarrow> mqtt_errors \<times> mqtt_client) option \<Rightarrow> mqtt_client \<Rightarrow> mqtt_errors \<times> mqtt_client"
where
  "prepared reconnect inspector c =
     (let c = (case reconnect of Some f \<Rightarrow> if client_error c \<noteq> MQTT_OK then f c else c | None \<Rightarrow> c)
      in case inspector of Some f \<Rightarrow> f c | None \<Rightarrow> (MQTT_OK, c))"

text \<open>
  C14. \<open>mqtt_sync\<close> returns and leaves the client well formed, when its callbacks do, the broker
  falls silent after \<open>k\<close> calls of \<open>recv\<close>, none of which answers more bytes than were asked for, and what it
  sends can be parsed (\<open>orderly\<close>): the loop of
  \<open>mqtt_recv\<close> takes at most \<open>k\<close> turns and one for each byte of the buffer. Without that last
  assumption the loop still takes no more turns, but one of them may leave the buffer.
\<close>

theorem sync_returns:
  assumes "prepared reconnect inspector c = (err, c2)" "client_ok c2" "honest net" "silent net k"
    and "orderly net (k + length (recv_mem c2) + 1) (c2, w)"
  shows "if err \<noteq> MQTT_OK then mqtt_sync reconnect inspector net c w = Some (err, c2, w)
    else \<exists>rv c1 w1. recv_turns net (k + length (recv_mem c2) + 1) (c2, w) = Some (Some rv, c1, w1) \<and> client_ok c1 \<and>
      (if rv \<noteq> MQTT_OK then mqtt_sync reconnect inspector net c w = Some (rv, c1, w1)
       else \<exists>rv c' w'. mqtt_send net c1 w1 = Some (rv, c', w') \<and> client_ok c' \<and>
         mqtt_sync reconnect inspector net c w = Some (rv, c', w'))"
proof (cases "err = MQTT_OK")
  case False
  then have "mqtt_sync reconnect inspector net c w = Some (err, c2, w)"
    using assms(1) by (simp add: mqtt_sync_def prepared_def Let_def split: option.splits if_splits)
  then show ?thesis using False by simp
next
  case True
  let ?n = "k + length (recv_mem c2) + 1"
  have sync: "mqtt_sync reconnect inspector net c w = do {
         (err, c, w) \<leftarrow> mqtt_recv net c2 w;
         if err \<noteq> MQTT_OK then Some (err, c, w) else mqtt_send net c w }"
    using assms(1) True by (simp add: mqtt_sync_def prepared_def Let_def split: option.splits if_splits)
  obtain rv c1 w1 where r: "mqtt_recv net c2 w = Some (rv, c1, w1)" "client_ok c1"
    using mqtt_recv_returns [OF assms(2-5)] by blast
  then have "recv_turns net ?n (c2, w) = Some (Some rv, c1, w1)"
    using mqtt_recv_turns(1) [OF assms(2-4), of w] by simp
  moreover have "if rv \<noteq> MQTT_OK then mqtt_sync reconnect inspector net c w = Some (rv, c1, w1)
       else \<exists>rv c' w'. mqtt_send net c1 w1 = Some (rv, c', w') \<and> client_ok c' \<and>
         mqtt_sync reconnect inspector net c w = Some (rv, c', w')"
    using mqtt_send_ok [OF r(2), of net w1] by (auto simp: sync r(1))
  ultimately show ?thesis using True r(2) by auto
qed

lemma sync_returns_witness:
  "\<exists>rv c1 w1. recv_turns pong_net (1 + length (recv_mem pinging_client) + 1) (pinging_client, first_world) = Some (Some rv, c1, w1) \<and>
     client_ok c1 \<and> (if rv \<noteq> MQTT_OK then mqtt_sync None None pong_net pinging_client first_world = Some (rv, c1, w1)
       else \<exists>rv c' w'. mqtt_send pong_net c1 w1 = Some (rv, c', w') \<and> client_ok c' \<and>
         mqtt_sync None None pong_net pinging_client first_world = Some (rv, c', w'))"
proof -
  have "honest pong_net" "silent pong_net 1"
    by (auto simp: honest_def silent_def pong_net_def split: if_splits)
  moreover have "orderly pong_net (1 + length (recv_mem pinging_client) + 1) (pinging_client, first_world)"
    by code_simp
  moreover have "prepared None None pinging_client = (MQTT_OK, pinging_client)" by (simp add: prepared_def)
  ultimately show ?thesis using sync_returns [OF _ example_clients(2), of None None pinging_client MQTT_OK pong_net 1 first_world] by simp
qed

text \<open>Bits of the first two bytes of a publication.\<close>

lemma bit_8: "bit (8 :: u8) k \<longleftrightarrow> k = 3"
proof -
  have "(8 :: u8) = 2 ^ 3" by simp
  then show ?thesis by (simp only: bit_exp_iff) auto
qed

lemma or_8:
  assumes "k mod 16 < 8"
  shows "(of_nat k OR 8 :: u8) = of_nat (k + 8)"
proof -
  have "even (k div 8)" using assms by presburger
  then have "\<not> bit k 3" by (simp add: bit_iff_odd)
  then have "\<not> bit (of_nat k :: u8) 3" by (simp add: bit_of_nat_iff)
  then have "(of_nat k :: u8) AND 8 = 0" by (intro bit_word_eqI, unfold bit_and_iff bit_8) auto
  then show ?thesis by (simp add: disjunctive_add_eq_or)
qed

lemma bit_three: "bit (3 :: u8) k \<longleftrightarrow> k < 2"
proof -
  have "(3 :: u8) = mask 2" by (simp add: mask_eq_exp_minus_1)
  then show ?thesis by (simp only: bit_mask_iff) auto
qed

lemma publish_qos_eq: "publish_qos f = drop_bit 1 f AND 3"
  by (simp add: publish_qos_def)

lemma first_byte_qos: "packet_qos ((push_bit 4 x OR ucast (ucast flags :: u4)) # vs) = publish_qos flags"
proof -
  have "packet_qos ((push_bit 4 x OR y) # vs) = drop_bit 1 y AND 3" for y
    unfolding packet_qos_def nth_Cons_0
    by (rule bit_word_eqI) (auto simp only: bit_and_iff bit_three bit_drop_bit_eq bit_or_iff bit_push_bit_iff comp_def)
  then show ?thesis using packed_flags(1) [of flags] by (simp only: publish_qos_eq)
qed

text \<open>
  C15. Where the client fails: a publication of the broker whose topic does not fit its remaining
  length leaves the receive buffer (or the send buffer is found full before that); and a publication
  of quality 1 is damaged when it was sent: the duplicate flag goes into its length, so that the next
  time it announces 8 bytes more than it has, and no duplicate.
\<close>

theorem client_defects:
  "(filled net (c0, w0) = Some (None, c, w) \<and> client_ok c \<and>
    mqtt_unpack_fixed_header (Some (recv_mem c)) (recv_curr c) = Some (Done n fh) \<and>
    control_type fh = PUBLISH \<and> 4 \<le> unat (remaining_length fh) \<and> \<not> publish_fits fh (recv_mem c) n \<and>
    length (recv_mem c) < 2 ^ 32 \<and> client_error c = MQTT_OK \<longrightarrow>
      recv_step net (c0, w0) = None \<or> (\<exists>c' w'. recv_step net (c0, w0) = Some (Some MQTT_ERROR_SEND_BUFFER_IS_FULL, c', w'))) \<and>
   (let vs = publish_fields topic True pid message; pkt = publish_packet flags topic pid message; ms = mq_msgs (mq s)
    in client_ok s \<and> i < length ms \<and> msg_type (ms ! i) = PUBLISH \<and> snd (mq_view (mq s) ! i) = pkt \<and>
       publish_qos flags = 1 \<and> length vs mod 16 < 8 \<and> length vs < 128 \<longrightarrow>
      (\<exists>s'. after_send i (ms ! i) s = Some (None, s') \<and>
        snd (mq_view (mq s') ! i) = header_bytes PUBLISH (ucast flags) (length vs + 8) @ vs))"
proof -
  have dup: "sent_packet m (publish_packet flags topic pid message) =
      header_bytes PUBLISH (ucast flags) (length (publish_fields topic True pid message) + 8) @ publish_fields topic True pid message"
    if a: "msg_type m = PUBLISH" "publish_qos flags = 1" "length (publish_fields topic True pid message) mod 16 < 8"
      "length (publish_fields topic True pid message) < 128" for m
  proof -
    define vs where "vs = publish_fields topic True pid message"
    define k where "k = length vs"
    define b where "b = (push_bit 4 (ucast PUBLISH) OR ucast (ucast flags :: u4) :: u8)"
    have k: "k < 128" "k mod 16 < 8" using a by (simp_all add: k_def vs_def)
    have pkt: "publish_packet flags topic pid message = b # of_nat k # vs"
      using a(2) k(1) by (simp add: publish_packet_fields Let_def packet_def header_bytes_def varint.simps b_def k_def vs_def)
    have h: "header_bytes PUBLISH (ucast flags) j = b # varint j" for j by (simp only: header_bytes_def b_def)
    have "(of_nat k OR 8 :: u8) = of_nat (k + 8)" by (rule or_8 [OF k(2)])
    moreover have "packet_qos (b # of_nat k # vs) = 1" unfolding b_def first_byte_qos by (rule a(2))
    moreover have "k + 8 < 128" using k by presburger
    ultimately show ?thesis
      using a(1) by (simp add: sent_packet_def pkt h varint.simps flip: k_def vs_def)
  qed
  have sent: "\<exists>s'. after_send i (mq_msgs (mq s) ! i) s = Some (None, s') \<and>
      snd (mq_view (mq s') ! i) = sent_packet (mq_msgs (mq s) ! i) (snd (mq_view (mq s) ! i))"
    if a: "client_ok s" "i < length (mq_msgs (mq s))"
  proof -
    have mq: "mq_ok (mq s)" and ok: "msg_ok (mq_msgs (mq s) ! i)" using a by (simp_all add: client_ok_def)
    obtain s' where s: "after_send i (mq_msgs (mq s) ! i) s = Some (None, s')"
      "mq_view (mq s') = (mq_view (mq s))[i := (\<lambda>(m, vs). (m\<lparr>msg_state := sent_state m vs\<rparr>, sent_packet m vs)) (mq_view (mq s) ! i)]"
      using after_send_ok [OF mq a(2) ok refl refl] by blast
    moreover have "sent_packet (fst (mq_view (mq s) ! i)) vs = sent_packet (mq_msgs (mq s) ! i) vs" for vs
      using view_nth(1) [OF mq a(2)] by (simp add: sent_packet_def)
    ultimately show ?thesis using a(2) by (auto split: prod.splits)
  qed
  have over: "recv_step net (c0, w0) = parsed_turn net c w" if "filled net (c0, w0) = Some (None, c, w)"
    using that by (simp add: recv_step_eq)
  show ?thesis
    unfolding Let_def using over overrun_turn [of c n fh net w] sent dup by metis
qed

lemma client_defects_witness:
  "\<exists>s'. after_send 0 (mq_msgs (mq publishing_client) ! 0) publishing_client = Some (None, s') \<and>
     snd (mq_view (mq s') ! 0) = header_bytes PUBLISH (ucast (2 :: u8)) (length (publish_fields [97] True 7 []) + 8) @
       publish_fields [97] True 7 []"
proof -
  have pkt: "publish_packet 2 [97] 7 [] = [0x32, 5, 0, 1, 97, 0, 7]"
    by code_simp
  have "publish_qos 2 = 1" "length (publish_fields [97] True 7 []) = 5"
    by (simp_all add: publish_qos_def publish_fields_def packed_cstrlen_def)
  moreover have "client_ok publishing_client" "0 < length (mq_msgs (mq publishing_client))"
    "msg_type (mq_msgs (mq publishing_client) ! 0) = PUBLISH" "snd (mq_view (mq publishing_client) ! 0) = publish_packet 2 [97] 7 []"
    by (simp_all add: publishing_client_def zero_client_def client_ok_def mq_ok_def mqtt_mq_currsz_def mq_tail_def
        msg_ok_def request_types_def mq_view_def view_msg_def pkt)
  ultimately show ?thesis
    using client_defects [where topic = "[97]" and pid = 7 and message = "[]" and flags = 2 and s = publishing_client and i = 0]
    unfolding Let_def by simp
qed

end
