(* ===== verification/Spec2Isabelle.thy ===== *)
theory Spec2Isabelle
  imports Crc ModbusLink Fifo RtRing RingBuffer1 SimpleFifo Membuf Md5Facts ShaFacts Aes MinHeap SearchSort RegexFacts TimerList
    RbMap MqttSpec
begin

text \<open>
  A verification development for BigBox, a box of C libraries for embedded Linux. The sources are
  under \<open>src/source\<close>; the paths below are relative to it.

  \<^bold>\<open>The program.\<close> BigBox is a collection of directories (\<open>fun_buffer\<close>, \<open>fun_protocol\<close>, ...), each a small
  library with its own header. The parts do not share state; within a part a structure is passed by
  pointer to every operation. Modelled are the parts that compute: the checksums and message digests, the
  block cipher, the Modbus protocol stack with both its ends, the MQTT client, the queues, the linked list and the
  timers on it, the heap of timers, the red-black tree and the map on it, sorting and searching, and regular
  expressions.

  \<^bold>\<open>Conventions.\<close> A C object is the list of its elements, a pointer that may be \<open>NULL\<close> an \<open>option\<close>; an
  access outside the object makes the whole run \<^term>\<open>None\<close>, so a theorem that a call gives
  \<^term>\<open>Some r\<close> also says that it stays inside its objects (\<open>Prelude\<close>). Integers have their width and
  wrap (\<open>u8\<close> to \<open>u64\<close>); where the code's \<open>int\<close> cannot overflow it is \<open>int\<close> or \<open>nat\<close>, as the theory says.
  A structure is a record with the fields of the source. An allocation may fail: whether it does is
  a parameter. Errors are the source's codes, as datatypes or integers.

  \<^item> \<open>Crc\<close> models \<open>fun_algorithm/crc.c\<close> and \<open>crc_table.c\<close>. Locale \<open>crc_poly\<close> (the bit loop of any
    generator with its top bit set is linear and injective) and locale \<open>crc_table\<close> (a table whose
    entries obey the loop's law) are interpreted on the generators and tables of the code. Shown: what
    the table-driven functions compute in terms of the loops, that the literal table of \<open>crc8_tab\<close> is
    right, and which corruptions the checksums detect.
  \<^item> \<open>ModbusTypes\<close>, \<open>ModbusSlave\<close>, \<open>ModbusMaster\<close> model \<open>fun_protocol/modbus\<close>: \<open>modbus.h\<close> and \<open>modbus.c\<close>,
    \<open>slave/sregs.c\<close> and \<open>slave/scoils.c\<close>, \<open>master/mbregs.c\<close>, \<open>mbcoils.c\<close>, \<open>mpregs.c\<close>, \<open>mpcoils.c\<close>. The slave is
    \<open>struct modbusSlave\<close>, the master \<open>struct modbusMaster\<close>; a frame is the bytes behind the
    \<open>ModbusParser\<close> union. User-defined functions are parameters of the two dispatchers.
    \<open>ModbusSlaveFacts\<close> and \<open>ModbusMasterFacts\<close> show what each handler keeps (contract \<open>answers\<close>, contract
    \<open>parsed\<close>); the locales \<open>request_handlers\<close> and \<open>response_parsers\<close> lift the contract to the dispatcher for any
    table of handlers and are interpreted on the \<open>switch\<close> statements of the code. \<open>ModbusServer\<close> holds the
    properties of the slave as a whole, \<open>ModbusLink\<close> those of the exchange: builder, slave and parser
    composed over a wire that delivers the frame. The parsers store registers in \<open>data.regs\<close>, which \<open>modbus.h\<close>
    declares as bytes, so that only the low byte of a register reaches the master; \<open>ModbusLink\<close> shows which.
  \<^item> \<open>Ring\<close> holds circular arrays and the locale \<open>bounded_queue\<close>, the contract of a bounded FIFO: its
    lemma \<open>stream\<close> says that any sequence of writes and reads returns the elements in order, none lost
    and none twice, and its lemma \<open>fifo_exact\<close> which elements are taken. It is interpreted in \<open>Fifo\<close> (\<open>fun_buffer/fifo.c\<close>), \<open>RtRing\<close> (\<open>rt_ringbuffer.c\<close>) and
    \<open>RingBuffer1\<close> (\<open>ringbuffer1.c\<close>). \<open>SimpleFifo\<close> is \<open>ringbuffer_simple.c\<close>, whose operations leave the tests
    for full and empty to the caller. \<open>Membuf\<close> is \<open>membuf.c\<close>, a buffer that grows: a list of bytes, up to \<open>2 ^ 31\<close> of
    them; what \<open>malloc\<close> answers is a parameter.
  \<^item> \<open>Aes\<close> models \<open>fun_other/aes.c\<close>. The locales \<open>undoable\<close> and \<open>mutually_undoable\<close> carry an inverse of one
    round over to a run of rounds; they are interpreted on the rounds of the code. Shown: decryption
    undoes encryption and the other way round, and the key schedule is the recurrence of the
    standard.
  \<^item> \<open>BlockHash\<close> holds what digests share: text in hexadecimal, and the locales \<open>block_hash\<close> and \<open>byte_hash\<close>, the
    contract of a function that takes a message in pieces. \<open>Md5\<close> and \<open>Sha\<close> model \<open>fun_algorithm/md5.c\<close> and
    \<open>sha.c\<close>; \<open>Md5Facts\<close> and \<open>ShaFacts\<close> state the digests of RFC 1321 and FIPS 180-4 on whole messages
    and show, through the interpretations and the locale \<open>sha_function\<close>, that the code computes them for any pieces.
  \<^item> \<open>MinHeap\<close> is \<open>fun_timer/minheap.c\<close>; locale \<open>priority_queue\<close> is its contract, and its lemmas say how
    every sequence of insertions and extractions is answered and that draining the queue sorts. \<open>SearchSort\<close> is
    \<open>fun_sort/bsearch.c\<close> and \<open>qsort.c\<close>, with the comparison function as an argument. \<open>qsort\<close> works on the bytes of
    the array, with the \<open>int\<close> products of its offsets; \<open>xj_exch\<close>, which it calls and no file defines, is a parameter
    under the interface \<open>exchanger\<close>, interpreted on the \<open>exch\<close> of the same file.
  \<^item> \<open>Regex\<close> is \<open>fun_regex/regex.c\<close>, with its static arrays of 30 symbols and 40 bytes as state. \<open>RegexFacts\<close> gives patterns
    a syntax and a meaning as languages and shows, for patterns that fit the arrays, that compiling and
    matching finds the first position at which a word of the language starts; at its end are computed examples
    of what the matcher gets wrong.
  \<^item> \<open>DList\<close> is the linked list of \<open>fun_timer/timer_list.h\<close> (and of the copies of \<open>list.h\<close>), on a heap of nodes:
    every operation is the operation on the list of node addresses and writes no other node. \<open>TimerList\<close> is \<open>fun_timer/timer_list.c\<close> on it: the
    invariant of the list of timers, which callbacks processing calls, and that it returns.
  \<^item> \<open>RbTree\<close> is \<open>fun_struct/rbtree.c\<close> and \<open>rbtree.h\<close>, on a heap of nodes with parent and colour in one word.
    \<open>RbHeap\<close> says when a heap holds a tree and what each small operation does at its place in the tree;
    \<open>RbTreeFacts\<close> shows that insertion and removal keep a red-black tree and its order. \<open>RbMap\<close> is
    \<open>fun_struct/map.c\<close> on it, which refines a finite map.
  \<^item> \<open>Mqtt\<close> holds the packets of \<open>fun_protocol/mqtt/e_mqtt.c\<close> and \<open>e_mqtt.h\<close>: the fixed header, the builders
    (\<open>mqtt_pack_...\<close>) and the parsers (\<open>mqtt_unpack_...\<close>). \<open>MqttFacts\<close> states the encoding of MQTT (\<open>packet\<close>) and shows that the
    builders write it and the parsers read it. \<open>MqttQueue\<close> is the queue of messages in one block of memory
    (\<open>mqtt_mq_...\<close>), which is a list of packets with their states (\<open>mq_view\<close>), and the packet identifiers: the
    shift register of \<open>__mqtt_next_pid\<close> runs through all 65535 nonzero words. \<open>MqttClient\<close> is the client: its state, its
    requests, \<open>__mqtt_send\<close>, \<open>__mqtt_recv\<close> and \<open>mqtt_sync\<close>; what the socket and the clock answer is a parameter
    (\<open>net\<close>). The locale \<open>packet_builder\<close> (\<open>MqttClientFacts\<close>) is the contract of a builder from which the facts of a request
    follow; \<open>MqttSend\<close> and \<open>MqttReceive\<close> show what sending and receiving do to the queue, the wire and the callback, and
    \<open>MqttSpec\<close> holds the properties.

  \<^bold>\<open>Bounds.\<close> No definition needs fuel: the loops count over lists or towards a bound. Where the end of a loop
  depends on pointers or on a function of the caller, it is a \<open>partial_function\<close> whose result is \<^term>\<open>None\<close> if it
  does not end (\<open>md5_blocks\<close>, \<open>find_later\<close>, \<open>process_loop\<close>, \<open>grow\<close>, the loops of \<open>RbTree\<close> and \<open>RbMap\<close>, \<open>next_pid_loop\<close>, \<open>mqtt_recv\<close>), and the theorems show that
  it returns. Lengths of frames are bytes and indices 16-bit words, as in the code; the side conditions of the
  theorems that a sum does not wrap are proved from those widths. Times of timers are compared as \<open>int\<close>
  milliseconds: the theorems ask that all times lie within a window of 2147483 seconds. \<open>qsort\<close> sorts arrays of fewer than
  \<open>2 ^ 31 - 1\<close> bytes; beyond \<open>2 ^ 31\<close> its offsets overflow. The loop of \<open>mqtt_recv\<close> ends once
  the broker is silent, after \<open>k\<close> calls of \<open>recv\<close>: \<open>recv_turns\<close> counts its turns, and \<open>k\<close> and one for each byte of the
  receive buffer are enough.

  \<^bold>\<open>Not modelled.\<close> Files that only drive the operating system (sockets, serial lines, GPIO, SPI, I2C, PWM,
  sound, framebuffer, MMC, shared memory, message queues, threads, processes, the shell, timer file
  descriptors), kernel drivers, vendored code (mbedtls, jsoncpp, kconfig, mxml, http-parser, network headers, the
  NGINX pool), C++ code, examples and tests. \<open>regex.c\<close>: \<open>re_print\<close>, which only prints, and the code under
  \<open>#if 0\<close>. \<open>e_mqtt.c\<close>: \<open>mqtt_init_reconnect\<close>, which computes with a null pointer, the mutex, the texts of the errors, and
  the socket calls over OpenSSL. \<open>membuf.c\<close>: the functions on files, and releasing memory. \<open>rbtree.c\<close>: the functions for augmented trees are defined and have no theorem. The remaining
  containers and text utilities (\<open>fun_cstl\<close>, the other files of \<open>fun_buffer\<close> and \<open>fun_event/ubox\<close>, \<open>fun_string\<close>,
  \<open>fun_base\<close>, \<open>fun_ini\<close>, \<open>fun_json\<close>, \<open>fun_lapi\<close>) are within reach of the same methods and not modelled so far.
\<close>

end
